(* ===== verification/Prelude.thy ===== *)
theory Prelude
  imports Main "HOL-Library.Word" "HOL-Library.Monad_Syntax"
begin

section \<open>Prelude: machine types, byte memory, shared automation\<close>

text \<open>
  What every component shares.  C's unsigned types are words of their width; a
  byte memory is a function from 64-bit addresses to bytes, read and written
  through \<open>ld64\<close> and \<open>st64\<close> as the little-endian RISC-V does.  A call that does
  not come back to its caller (\<open>panic\<close>, or a sleep that nobody ends) is \<open>None\<close>, so
  the C statements of a function are the steps of an option-monad \<open>do\<close> block, with
  the state threaded explicitly.
\<close>

unbundle bit_operations_syntax

type_synonym u8 = "8 word"
type_synonym u16 = "16 word"
type_synonym u32 = "32 word"
type_synonym u64 = "64 word"

text \<open>The machine's physical memory, one byte per address.\<close>

type_synonym memory = "u64 \<Rightarrow> u8"

named_theorems frame_simps \<open>fields of the state an operation leaves alone\<close>
named_theorems inv_intros \<open>operations keep their component's invariant\<close>

subsection \<open>Options as computations\<close>

lemma bind_Some_iff [simp]:
  "Option.bind x f = Some y \<longleftrightarrow> (\<exists>v. x = Some v \<and> f v = Some y)"
  by (cases x) auto

lemma case_prod_Some_iff:
  "(case p of (a, b) \<Rightarrow> f a b) = Some y \<longleftrightarrow> (\<exists>a b. p = (a, b) \<and> f a b = Some y)"
  by (cases p) auto

subsection \<open>Alignment on words\<close>

lemma unat_of_nat_u64: "n < 2 ^ 64 \<Longrightarrow> unat (of_nat n :: u64) = n"
  by (simp add: unat_of_nat take_bit_nat_eq_self)

lemma unat_add_aligned:
  fixes p off :: u64
  assumes "unat p mod n = 0" "unat off < n" "n dvd 2 ^ 64"
  shows "unat (p + off) = unat p + unat off"
proof -
  obtain k where k: "unat p = n * k" using assms(1) by auto
  obtain m where m: "(2::nat) ^ 64 = n * m" using assms(3) by (elim dvdE)
  have "unat p < 2 ^ 64" using unsigned_less [of p] by simp
  then have "n * k < n * m" by (simp only: k m)
  then have "Suc k \<le> m" by simp
  then have "n * Suc k \<le> n * m" by (rule mult_le_mono2)
  then have "unat p + unat off < 2 ^ 64" using assms(2) k m by simp
  then show ?thesis by (simp add: unat_plus_if')
qed

lemma aligned_add_inject:
  fixes p q i j :: u64
  assumes "unat p mod n = 0" "unat q mod n = 0" "unat i < n" "unat j < n" "n dvd 2 ^ 64"
    and eq: "p + i = q + j"
  shows "p = q \<and> i = j"
proof -
  have e: "unat p + unat i = unat q + unat j"
    using unat_add_aligned [of p n i] unat_add_aligned [of q n j] assms by simp
  obtain k where k: "unat p = n * k" using assms(1) by auto
  obtain l where l: "unat q = n * l" using assms(2) by auto
  have n: "0 < n" using assms(3) by simp
  have "(unat p + unat i) div n = k" "(unat q + unat j) div n = l"
    using assms(3,4) n by (simp_all add: k l)
  then have "k = l" using e by simp
  then show ?thesis using e k l by (simp add: word_unat_eq_iff)
qed

subsection \<open>Loads and stores of 64-bit cells\<close>

definition ld64 :: "memory \<Rightarrow> u64 \<Rightarrow> u64" where
  "ld64 m a = ucast (m a) OR push_bit 8 (ucast (m (a + 1)))
     OR push_bit 16 (ucast (m (a + 2))) OR push_bit 24 (ucast (m (a + 3)))
     OR push_bit 32 (ucast (m (a + 4))) OR push_bit 40 (ucast (m (a + 5)))
     OR push_bit 48 (ucast (m (a + 6))) OR push_bit 56 (ucast (m (a + 7)))"

definition st64 :: "u64 \<Rightarrow> u64 \<Rightarrow> memory \<Rightarrow> memory" where
  "st64 a v m = m(a := ucast v, a + 1 := ucast (drop_bit 8 v),
     a + 2 := ucast (drop_bit 16 v), a + 3 := ucast (drop_bit 24 v),
     a + 4 := ucast (drop_bit 32 v), a + 5 := ucast (drop_bit 40 v),
     a + 6 := ucast (drop_bit 48 v), a + 7 := ucast (drop_bit 56 v))"

definition cell_aligned :: "u64 \<Rightarrow> bool" where
  "cell_aligned a \<longleftrightarrow> unat a mod 8 = 0"

lemma bit_u8_less: "bit (b::u8) n \<Longrightarrow> n < 8"
  using bit_imp_le_length [of b n] by simp

lemma bit_byte_lane:
  assumes "n < 64"
  shows "bit (push_bit (8 * j) (ucast (b::u8)) :: u64) n \<longleftrightarrow> n div 8 = j \<and> bit b (n mod 8)"
proof (cases "n div 8 = j")
  case True
  then have le: "8 * j \<le> n" and sub: "n - 8 * j = n mod 8"
    by (auto simp: minus_mult_div_eq_mod [symmetric])
  have "n mod 8 < 64" by (rule less_le_trans [of _ 8]) auto
  then show ?thesis
    using assms True by (simp add: bit_push_bit_iff bit_unsigned_iff le sub)
next
  case False
  have "\<not> bit b (n - 8 * j)" if "8 * j \<le> n"
    using that False bit_u8_less [of b "n - 8 * j"] by auto
  with False show ?thesis by (auto simp: bit_simps)
qed

lemma bit_ld64:
  assumes "n < 64"
  shows "bit (ld64 m a) n \<longleftrightarrow> bit (m (a + of_nat (n div 8))) (n mod 8)"
proof -
  define f :: "nat \<Rightarrow> u64" where "f j = push_bit (8 * j) (ucast (m (a + of_nat j)))" for j
  define q where "q = n div 8"
  have f: "bit (f j) n \<longleftrightarrow> q = j \<and> bit (m (a + of_nat j)) (n mod 8)" for j
    by (simp add: f_def q_def bit_byte_lane [OF assms])
  have "ld64 m a = f 0 OR f 1 OR f 2 OR f 3 OR f 4 OR f 5 OR f 6 OR f 7"
    by (simp add: ld64_def f_def or.assoc)
  then have "bit (ld64 m a) n \<longleftrightarrow> (\<exists>j\<in>{0, 1, 2, 3, 4, 5, 6, 7}. bit (f j) n)"
    by (simp add: bit_or_iff)
  moreover have "q < 8" using assms by (simp add: q_def)
  then have "q \<in> {0, 1, 2, 3, 4, 5, 6, 7}" by auto
  ultimately show ?thesis unfolding f q_def [symmetric] by blast
qed

lemma ld64_zero: "ld64 (\<lambda>_. 0) a = 0"
  by (simp add: ld64_def)

lemma st64_byte:
  assumes "i < 8"
  shows "st64 a v m (a + of_nat i) = ucast (drop_bit (8 * i) v)"
proof -
  from assms have "i \<in> {0, 1, 2, 3, 4, 5, 6, 7}" by auto
  then show ?thesis by (auto simp: st64_def)
qed

lemma ld64_st64_same [simp]: "ld64 (st64 a v m) a = v"
proof (rule bit_eqI)
  fix n assume "possible_bit TYPE(u64) n"
  then have n: "n < 64" by simp
  then have "n div 8 < 8" by simp
  then show "bit (ld64 (st64 a v m) a) n = bit v n"
    using n by (simp add: bit_ld64 st64_byte bit_simps)
qed

lemma ld64_cong:
  assumes "\<And>i. i < 8 \<Longrightarrow> m (a + of_nat i) = m' (a + of_nat i)"
  shows "ld64 m a = ld64 m' a"
  by (rule bit_eqI) (simp add: bit_ld64 assms)

lemma st64_other:
  assumes "\<And>i. i < 8 \<Longrightarrow> b \<noteq> a + of_nat i"
  shows "st64 a v m b = m b"
  using assms [of 0] assms [of 1] assms [of 2] assms [of 3]
    assms [of 4] assms [of 5] assms [of 6] assms [of 7]
  by (simp add: st64_def)

lemma ld64_st64_other:
  assumes "cell_aligned a" "cell_aligned b" "a \<noteq> b"
  shows "ld64 (st64 a v m) b = ld64 m b"
proof (rule ld64_cong, rule st64_other)
  fix i j :: nat assume "i < 8" "j < 8"
  then have "unat (of_nat i :: u64) < 8" "unat (of_nat j :: u64) < 8"
    by (simp_all add: unat_of_nat)
  then show "b + of_nat i \<noteq> a + of_nat j"
    using aligned_add_inject [of b 8 a "of_nat i" "of_nat j"] assms
    by (auto simp: cell_aligned_def)
qed

end
