(* ===== verification/Riscv.thy ===== *)
theory Riscv
  imports Prelude
begin

section \<open>The machine: pages, page-table entries and the address-space layout\<close>

text \<open>
  The macros of \<open>kernel/riscv.h\<close> and \<open>kernel/memlayout.h\<close> under their own names.
  \<open>PGSIZE - 1\<close> is the C \<open>int\<close> 4095; its complement sign-extends to 64 bits, which is
  \<open>NOT 4095\<close> on \<open>u64\<close>.  The lemmas read the macros on natural numbers, say when two
  page-table cells coincide, and take a page-table entry apart again.
\<close>

definition PGSIZE :: u64 where "PGSIZE = 4096"

definition PGROUNDUP :: "u64 \<Rightarrow> u64" where
  "PGROUNDUP sz = (sz + PGSIZE - 1) AND NOT (PGSIZE - 1)"

definition PGROUNDDOWN :: "u64 \<Rightarrow> u64" where
  "PGROUNDDOWN a = a AND NOT (PGSIZE - 1)"

definition PTE_V :: u64 where "PTE_V = 1"
definition PTE_R :: u64 where "PTE_R = 2"
definition PTE_W :: u64 where "PTE_W = 4"
definition PTE_X :: u64 where "PTE_X = 8"
definition PTE_U :: u64 where "PTE_U = 16"

definition PA2PTE :: "u64 \<Rightarrow> u64" where
  "PA2PTE pa = push_bit 10 (drop_bit 12 pa)"

definition PTE2PA :: "u64 \<Rightarrow> u64" where
  "PTE2PA pte = push_bit 12 (drop_bit 10 pte)"

definition PTE_FLAGS :: "u64 \<Rightarrow> u64" where
  "PTE_FLAGS pte = pte AND 0x3FF"

definition PX :: "nat \<Rightarrow> u64 \<Rightarrow> u64" where
  "PX level va = drop_bit (12 + 9 * level) va AND 0x1FF"

definition MAXVA :: u64 where "MAXVA = push_bit (9 + 9 + 9 + 12 - 1) 1"

definition KERNBASE :: u64 where "KERNBASE = 0x80000000"
definition PHYSTOP :: u64 where "PHYSTOP = KERNBASE + 128 * 1024 * 1024"
definition TRAMPOLINE :: u64 where "TRAMPOLINE = MAXVA - PGSIZE"
definition KSTACK :: "nat \<Rightarrow> u64" where
  "KSTACK p = TRAMPOLINE - of_nat (p + 1) * 2 * PGSIZE"
definition TRAPFRAME :: u64 where "TRAPFRAME = TRAMPOLINE - PGSIZE"

lemmas pte_bits = PTE_V_def PTE_R_def PTE_W_def PTE_X_def PTE_U_def
lemmas layout_defs = MAXVA_def KERNBASE_def PHYSTOP_def TRAMPOLINE_def TRAPFRAME_def PGSIZE_def

subsection \<open>Pages\<close>

definition page_aligned :: "u64 \<Rightarrow> bool" where
  "page_aligned a \<longleftrightarrow> a mod PGSIZE = 0"

lemma mask12: "(4095::u64) = mask 12"
  by (simp add: mask_eq_exp_minus_1)

lemma and_4095: "a AND (4095::u64) = a mod 4096"
  using take_bit_eq_mod [of 12 a] by (simp add: mask12 take_bit_eq_mask)

lemma PGROUNDDOWN_eq: "PGROUNDDOWN a = a - a mod 4096"
proof -
  have "a = (a AND NOT 4095) + (a AND 4095)"
    by (subst disjunctive_add_eq_or) (auto simp: bit_eq_iff bit_simps)
  then show ?thesis
    by (simp add: PGROUNDDOWN_def PGSIZE_def and_4095 [symmetric] algebra_simps)
qed

lemma unat_PGROUNDDOWN: "unat (PGROUNDDOWN a) = unat a div 4096 * 4096"
proof -
  have le: "a mod 4096 \<le> a"
    by (simp add: word_le_nat_alt unat_mod)
  have "unat (PGROUNDDOWN a) = unat a - unat a mod 4096"
    by (simp add: PGROUNDDOWN_eq unat_sub [OF le] unat_mod)
  then show ?thesis
    by (simp add: minus_mod_eq_div_mult)
qed

lemma PGROUNDUP_down: "PGROUNDUP a = PGROUNDDOWN (a + 4095)"
  by (simp add: PGROUNDUP_def PGROUNDDOWN_def PGSIZE_def algebra_simps)

lemma page_aligned_unat: "page_aligned a \<longleftrightarrow> unat a mod 4096 = 0"
  by (simp add: page_aligned_def PGSIZE_def word_unat_eq_iff unat_mod)

lemma page_aligned_PGROUNDDOWN [simp]: "page_aligned (PGROUNDDOWN a)"
  by (simp add: page_aligned_unat unat_PGROUNDDOWN)

lemma page_aligned_PGROUNDUP [simp]: "page_aligned (PGROUNDUP a)"
  by (simp add: PGROUNDUP_down)

lemma PGROUNDDOWN_aligned: "page_aligned a \<Longrightarrow> PGROUNDDOWN a = a"
  by (simp add: page_aligned_def PGROUNDDOWN_eq PGSIZE_def)

lemma PGROUNDDOWN_idem [simp]: "PGROUNDDOWN (PGROUNDDOWN a) = PGROUNDDOWN a"
  by (simp add: PGROUNDDOWN_aligned)

lemma PGROUNDDOWN_le: "PGROUNDDOWN a \<le> a"
  by (simp add: word_le_nat_alt unat_PGROUNDDOWN)

lemma PGROUNDDOWN_add:
  assumes "page_aligned p" "unat off < 4096"
  shows "PGROUNDDOWN (p + off) = p"
proof -
  have p: "unat p mod 4096 = 0" using assms(1) by (simp add: page_aligned_unat)
  have "unat (p + off) = unat p + unat off"
    by (rule unat_add_aligned [OF p assms(2)]) simp
  moreover obtain k where "unat p = 4096 * k" using p by auto
  ultimately have "unat (PGROUNDDOWN (p + off)) = unat p"
    using assms(2) by (simp add: unat_PGROUNDDOWN)
  then show ?thesis by (simp add: word_unat_eq_iff)
qed

lemma page_aligned_bits: "page_aligned a \<longleftrightarrow> (\<forall>n<12. \<not> bit a n)"
proof -
  have "page_aligned a \<longleftrightarrow> a AND 4095 = 0"
    by (simp add: page_aligned_def PGSIZE_def and_4095)
  also have "\<dots> \<longleftrightarrow> (\<forall>n<12. \<not> bit a n)"
    by (simp add: mask12 bit_eq_iff bit_simps) (meson less_trans numeral_less_iff semiring_norm(76,78,81))
  finally show ?thesis .
qed

lemma bit_less_exp:
  assumes "a < 2 ^ k" "bit (a::u64) n"
  shows "n < k"
proof (cases "k < 64")
  case True
  have "unat ((2::u64) ^ k) = unat (of_nat (2 ^ k) :: u64)" by simp
  also have "\<dots> = take_bit 64 (2 ^ k)" by (simp only: unsigned_of_nat len_of_numeral_defs) simp
  also have "\<dots> \<le> 2 ^ k" by (rule take_bit_nat_less_eq_self)
  finally have "unat ((2::u64) ^ k) \<le> 2 ^ k" .
  then have "unat a < 2 ^ k"
    using assms(1) by (simp add: word_less_nat_alt)
  then have "take_bit k a = a"
    by (simp add: word_unat_eq_iff unsigned_take_bit_eq take_bit_nat_eq_self)
  then show ?thesis using assms(2) by (metis bit_take_bit_iff)
next
  case False
  then show ?thesis using bit_imp_le_length [OF assms(2)] by simp
qed

subsection \<open>Page-table entries\<close>

text \<open>A frame address survives the trip through an entry, whatever the ten flag bits.\<close>

lemma PTE2PA_entry:
  assumes "page_aligned pa" "pa < 2 ^ 56" "flags < 2 ^ 10"
  shows "PTE2PA (PA2PTE pa OR flags) = pa"
proof (rule bit_eqI)
  fix n assume "possible_bit TYPE(u64) n"
  then have n: "n < 64" by simp
  have fl: "\<not> bit flags (10 + k)" for k
    using bit_less_exp [OF assms(3), of "10 + k"] by auto
  show "bit (PTE2PA (PA2PTE pa OR flags)) n = bit pa n"
  proof (cases "n < 12")
    case True
    then show ?thesis using assms(1) by (simp add: page_aligned_bits PTE2PA_def bit_simps)
  next
    case False
    then obtain k where k: "n = 12 + k" by (metis le_Suc_ex not_less)
    then show ?thesis
      using n fl [of k] bit_less_exp [OF assms(2), of n]
      by (auto simp: PTE2PA_def PA2PTE_def bit_simps)
  qed
qed

lemma PTE2PA_PA2PTE: "page_aligned pa \<Longrightarrow> pa < 2 ^ 56 \<Longrightarrow> PTE2PA (PA2PTE pa) = pa"
  using PTE2PA_entry [of pa 0] by simp

lemma PTE_FLAGS_entry:
  assumes "flags < 2 ^ 10"
  shows "PTE_FLAGS (PA2PTE pa OR flags) = flags"
proof (rule bit_eqI)
  fix n assume "possible_bit TYPE(u64) n"
  have m: "(0x3FF::u64) = mask 10" by (simp add: mask_eq_exp_minus_1)
  show "bit (PTE_FLAGS (PA2PTE pa OR flags)) n = bit flags n"
    using bit_less_exp [OF assms, of n]
    by (auto simp: PTE_FLAGS_def PA2PTE_def m bit_simps)
qed

lemma page_aligned_PTE2PA [simp]: "page_aligned (PTE2PA pte)"
  by (simp add: page_aligned_bits PTE2PA_def bit_simps)

lemma entry_and_low:
  assumes "k < 2 ^ 10"
  shows "(PA2PTE pa OR flags) AND k = flags AND k"
  by (auto simp: bit_eq_iff PA2PTE_def bit_simps dest: bit_less_exp [OF assms])

subsection \<open>Cells of a page table\<close>

definition pte_addr :: "u64 \<Rightarrow> nat \<Rightarrow> u64 \<Rightarrow> u64" where
  "pte_addr pagetable level va = pagetable + 8 * PX level va"

lemma unat_PX: "unat (PX level va) = unat va div 2 ^ (12 + 9 * level) mod 512"
proof -
  have "(0x1FF::u64) = mask 9" by (simp add: mask_eq_exp_minus_1)
  then have "w AND 0x1FF = w mod 512" for w :: u64
    using take_bit_eq_mod [of 9 w] by (simp add: take_bit_eq_mask)
  moreover have "unat (drop_bit k w) = unat w div 2 ^ k" for k and w :: u64
    by (subst unat_drop_bit_eq) (rule drop_bit_eq_div)
  ultimately show ?thesis
    by (simp only: PX_def unat_mod) simp
qed

lemma unat_PX_less: "unat (PX level va) < 512"
  by (simp add: unat_PX)

lemma unat_PX8: "unat (8 * PX level va) = 8 * unat (PX level va)"
proof -
  have "8 * unat (PX level va) < 2 ^ 64" using unat_PX_less [of level va] by simp
  then show ?thesis by (simp add: unat_word_ariths)
qed

lemma pte_addr_page [simp]: "page_aligned pt \<Longrightarrow> PGROUNDDOWN (pte_addr pt level va) = pt"
  using unat_PX_less [of level va] by (simp add: pte_addr_def PGROUNDDOWN_add unat_PX8)

lemma pte_addr_cell [simp]: "page_aligned pt \<Longrightarrow> cell_aligned (pte_addr pt level va)"
proof -
  assume p: "page_aligned pt"
  then have "unat (pte_addr pt level va) = unat pt + 8 * unat (PX level va)"
    using unat_add_aligned [of pt 4096 "8 * PX level va"] unat_PX_less [of level va]
    by (simp add: pte_addr_def page_aligned_unat unat_PX8)
  moreover obtain k where "unat pt = 4096 * k"
    using p by (auto simp: page_aligned_unat)
  ultimately have "unat (pte_addr pt level va) = 8 * (512 * k + unat (PX level va))" by simp
  then show ?thesis by (simp add: cell_aligned_def)
qed

lemma pte_addr_eq_iff:
  assumes "page_aligned pt" "page_aligned pt'"
  shows "pte_addr pt level va = pte_addr pt' level' va' \<longleftrightarrow>
    pt = pt' \<and> PX level va = PX level' va'"
proof
  assume e: "pte_addr pt level va = pte_addr pt' level' va'"
  then have "pt = pt'" using assms by (metis pte_addr_page)
  moreover from this e have "8 * PX level va = 8 * PX level' va'"
    by (simp add: pte_addr_def)
  then have "unat (PX level va) = unat (PX level' va')"
    by (metis mult_cancel1 unat_PX8 zero_neq_numeral)
  ultimately show "pt = pt' \<and> PX level va = PX level' va'"
    by (simp add: word_unat_eq_iff)
qed (simp add: pte_addr_def)

text \<open>The three indices and the page offset determine an address below \<open>MAXVA\<close>.\<close>

lemma unat_MAXVA: "unat MAXVA = 2 ^ 38"
  by (simp add: MAXVA_def push_bit_eq_mult)

lemma PX_inject:
  assumes "va < MAXVA" "va' < MAXVA" "page_aligned va" "page_aligned va'"
    and "PX 2 va = PX 2 va'" "PX 1 va = PX 1 va'" "PX 0 va = PX 0 va'"
  shows "va = va'"
proof -
  define x y where "x = unat va" and "y = unat va'"
  have b: "x < 2 ^ 38" "y < 2 ^ 38"
    using assms(1,2) by (simp_all add: x_def y_def word_less_nat_alt unat_MAXVA)
  have p: "x mod 4096 = 0" "y mod 4096 = 0"
    using assms(3,4) by (simp_all add: x_def y_def page_aligned_unat)
  have i: "x div 2 ^ 30 mod 512 = y div 2 ^ 30 mod 512"
      "x div 2 ^ 21 mod 512 = y div 2 ^ 21 mod 512" "x div 2 ^ 12 mod 512 = y div 2 ^ 12 mod 512"
    using assms(5-7) unat_PX [of 2 va] unat_PX [of 2 va'] unat_PX [of 1 va] unat_PX [of 1 va']
      unat_PX [of 0 va] unat_PX [of 0 va'] by (simp_all add: x_def y_def)
  have step: "a = b" if "a div 512 = b div 512" "a mod 512 = b mod 512" for a b :: nat
    using that by (metis div_mult_mod_eq)
  have d: "z div 2 ^ 21 div 512 = z div 2 ^ 30" "z div 2 ^ 12 div 512 = z div 2 ^ 21" for z :: nat
    by (simp_all flip: div_mult2_eq)
  note down = step [of "_ div 2 ^ 21" "_ div 2 ^ 21", unfolded d]
    step [of "_ div 2 ^ 12" "_ div 2 ^ 12", unfolded d]
  have "x div 2 ^ 30 < 512" "y div 2 ^ 30 < 512"
    using b by (simp_all add: less_mult_imp_div_less)
  then have "x div 2 ^ 30 = y div 2 ^ 30" using i(1) by simp
  then have "x div 2 ^ 21 = y div 2 ^ 21" using i(2) by (rule down)
  then have "x div 2 ^ 12 = y div 2 ^ 12" using i(3) by (rule down)
  then have "x div 4096 = y div 4096" by simp
  then have "x = y" using p by (metis div_mult_mod_eq)
  then show ?thesis by (simp add: x_def y_def word_unat_eq_iff)
qed

end
