(* ===== verification/StringC.thy ===== *)
theory StringC
  imports Riscv
begin

section \<open>Memory and string routines (kernel/string.c)\<close>

text \<open>
  \<open>memset\<close> and \<open>memmove\<close> work on the machine memory, where source and destination
  may overlap.  The routines that read C strings take each argument as the bytes
  that follow the pointer (\<open>nat \<Rightarrow> u8\<close>), and the ones that write an array return
  the array's new contents.  Each loop of the source is one recursive function
  with the source's step; the lemmas give the closed forms the callers use.
\<close>

definition memset :: "u64 \<Rightarrow> u8 \<Rightarrow> nat \<Rightarrow> memory \<Rightarrow> memory" where
  "memset dst c n m = fold (\<lambda>i m. m(dst + of_nat i := c)) [0..<n] m"

fun memmove_up :: "nat \<Rightarrow> u64 \<Rightarrow> u64 \<Rightarrow> memory \<Rightarrow> memory" where
  "memmove_up 0 d s m = m"
| "memmove_up (Suc n) d s m = memmove_up n (d + 1) (s + 1) (m(d := m s))"

fun memmove_down :: "nat \<Rightarrow> u64 \<Rightarrow> u64 \<Rightarrow> memory \<Rightarrow> memory" where
  "memmove_down 0 d s m = m"
| "memmove_down (Suc n) d s m = memmove_down n (d - 1) (s - 1) (m(d - 1 := m (s - 1)))"

definition memmove :: "u64 \<Rightarrow> u64 \<Rightarrow> nat \<Rightarrow> memory \<Rightarrow> memory" where
  "memmove dst src n m =
     (if n = 0 then m
      else if src < dst \<and> src + of_nat n > dst
        then memmove_down n (dst + of_nat n) (src + of_nat n) m
        else memmove_up n dst src m)"

fun memcmp :: "(nat \<Rightarrow> u8) \<Rightarrow> (nat \<Rightarrow> u8) \<Rightarrow> nat \<Rightarrow> int" where
  "memcmp s1 s2 0 = 0"
| "memcmp s1 s2 (Suc n) =
     (if s1 0 \<noteq> s2 0 then uint (s1 0) - uint (s2 0)
      else memcmp (\<lambda>i. s1 (Suc i)) (\<lambda>i. s2 (Suc i)) n)"

fun strncmp :: "(nat \<Rightarrow> u8) \<Rightarrow> (nat \<Rightarrow> u8) \<Rightarrow> nat \<Rightarrow> int" where
  "strncmp p q 0 = 0"
| "strncmp p q (Suc n) =
     (if p 0 \<noteq> 0 \<and> p 0 = q 0 then strncmp (\<lambda>i. p (Suc i)) (\<lambda>i. q (Suc i)) n
      else uint (p 0) - uint (q 0))"

text \<open>\<open>strncpy\<close> from position \<open>i\<close>: first the copying loop, then the loop that pads.\<close>

fun strncpy_pad :: "nat \<Rightarrow> nat \<Rightarrow> (nat \<Rightarrow> u8) \<Rightarrow> (nat \<Rightarrow> u8)" where
  "strncpy_pad i 0 s = s"
| "strncpy_pad i (Suc n) s = strncpy_pad (Suc i) n (s(i := 0))"

fun strncpy_copy :: "nat \<Rightarrow> nat \<Rightarrow> (nat \<Rightarrow> u8) \<Rightarrow> (nat \<Rightarrow> u8) \<Rightarrow> (nat \<Rightarrow> u8)" where
  "strncpy_copy i 0 s t = s"
| "strncpy_copy i (Suc n) s t =
     (if t i \<noteq> 0 then strncpy_copy (Suc i) n (s(i := t i)) t
      else strncpy_pad (Suc i) n (s(i := t i)))"

definition strncpy :: "(nat \<Rightarrow> u8) \<Rightarrow> (nat \<Rightarrow> u8) \<Rightarrow> nat \<Rightarrow> (nat \<Rightarrow> u8)" where
  "strncpy s t n = strncpy_copy 0 n s t"

text \<open>
  \<open>safestrcpy\<close>: the loop condition decrements first, so with \<open>n\<close> bytes of room at
  most \<open>n - 1\<close> are copied; when it stops on a copied NUL the pointer has already
  moved past it, and the final store writes a second NUL there.
\<close>

fun safestrcpy_loop :: "nat \<Rightarrow> nat \<Rightarrow> (nat \<Rightarrow> u8) \<Rightarrow> (nat \<Rightarrow> u8) \<Rightarrow> (nat \<Rightarrow> u8)" where
  "safestrcpy_loop i 0 s t = s"
| "safestrcpy_loop i (Suc 0) s t = s(i := 0)"
| "safestrcpy_loop i (Suc (Suc n)) s t =
     (if t i \<noteq> 0 then safestrcpy_loop (Suc i) (Suc n) (s(i := t i)) t
      else (s(i := t i))(Suc i := 0))"

definition safestrcpy :: "(nat \<Rightarrow> u8) \<Rightarrow> (nat \<Rightarrow> u8) \<Rightarrow> nat \<Rightarrow> (nat \<Rightarrow> u8)" where
  "safestrcpy s t n = safestrcpy_loop 0 n s t"

text \<open>\<open>strlen\<close> on bytes without a NUL does not return.\<close>

partial_function (option) strlen_from :: "nat \<Rightarrow> (nat \<Rightarrow> u8) \<Rightarrow> nat option" where
  "strlen_from n s = (if s n \<noteq> 0 then strlen_from (Suc n) s else Some n)"

definition strlen :: "(nat \<Rightarrow> u8) \<Rightarrow> nat option" where
  "strlen s = strlen_from 0 s"

subsection \<open>\<open>memset\<close>\<close>

lemma memset_0 [simp]: "memset dst c 0 m = m"
  by (simp add: memset_def)

lemma memset_Suc: "memset dst c (Suc n) m = (memset dst c n m)(dst + of_nat n := c)"
  by (simp add: memset_def)

lemma memset_apply: "memset dst c n m a = (if \<exists>i<n. a = dst + of_nat i then c else m a)"
  by (induction n) (auto simp: memset_Suc less_Suc_eq)

lemma page_offsets:
  assumes "page_aligned p"
  shows "(\<exists>i<4096. a = p + of_nat i) \<longleftrightarrow> PGROUNDDOWN a = p"
proof
  assume "\<exists>i<4096. a = p + of_nat i"
  then obtain i where i: "i < 4096" "a = p + of_nat i" by auto
  then have "unat (of_nat i :: u64) < 4096" by (simp add: unat_of_nat)
  then show "PGROUNDDOWN a = p" using assms i by (simp add: PGROUNDDOWN_add)
next
  assume e: "PGROUNDDOWN a = p"
  have "a = PGROUNDDOWN a + a mod 4096" by (simp add: PGROUNDDOWN_eq)
  then have "a = p + of_nat (unat (a mod 4096))" using e by simp
  moreover have "unat (a mod 4096) < 4096" by (simp add: unat_mod)
  ultimately show "\<exists>i<4096. a = p + of_nat i" by blast
qed

lemma memset_page:
  assumes "page_aligned p"
  shows "memset p c 4096 m = (\<lambda>a. if PGROUNDDOWN a = p then c else m a)"
  using page_offsets [OF assms] by (simp add: fun_eq_iff memset_apply)

subsection \<open>\<open>memmove\<close>\<close>

lemma of_nat_u64_neq_0: "0 < k \<Longrightarrow> k < 2 ^ 64 \<Longrightarrow> (of_nat k :: u64) \<noteq> 0"
  by (simp add: word_unat_eq_iff unat_of_nat)

lemma of_nat_u64_inj: "i < 2 ^ 64 \<Longrightarrow> j < 2 ^ 64 \<Longrightarrow> (of_nat i :: u64) = of_nat j \<longleftrightarrow> i = j"
  by (simp add: word_unat_eq_iff unat_of_nat)

text \<open>
  Both loops store a list of (destination, source) pairs one after the other;
  such a run is a simultaneous copy when no store hits a later pair's cells.
\<close>

fun seq_copy :: "(u64 \<times> u64) list \<Rightarrow> memory \<Rightarrow> memory" where
  "seq_copy [] m = m"
| "seq_copy ((d, s) # xs) m = seq_copy xs (m(d := m s))"

fun seq_ok :: "(u64 \<times> u64) list \<Rightarrow> bool" where
  "seq_ok [] = True"
| "seq_ok ((d, s) # xs) \<longleftrightarrow> d \<notin> fst ` set xs \<and> d \<notin> snd ` set xs \<and> seq_ok xs"

lemma seq_copy_spec:
  "seq_ok xs \<Longrightarrow> (\<forall>(d, s)\<in>set xs. seq_copy xs m d = m s) \<and>
     (\<forall>a. a \<notin> fst ` set xs \<longrightarrow> seq_copy xs m a = m a)"
proof (induction xs arbitrary: m)
  case (Cons x xs)
  obtain d s where x: "x = (d, s)" by (cases x)
  have ok: "d \<notin> fst ` set xs" "d \<notin> snd ` set xs" "seq_ok xs" using Cons.prems x by auto
  define m' where "m' = m(d := m s)"
  then have m': "m' a = (if a = d then m s else m a)" for a by simp
  note IH = Cons.IH [OF ok(3), of m']
  have "s' \<noteq> d" if "(d', s') \<in> set xs" for d' s' using ok(2) that by force
  moreover have "seq_copy xs m' d' = m' s'" if "(d', s') \<in> set xs" for d' s'
    using IH that by blast
  ultimately have "seq_copy xs m' d' = m s'" if "(d', s') \<in> set xs" for d' s'
    using that by (metis m')
  moreover have "seq_copy xs m' a = m' a" if "a \<notin> fst ` set xs" for a
    using IH that by blast
  moreover have "seq_copy (x # xs) m = seq_copy xs m'" by (simp add: x m'_def)
  ultimately show ?case using ok(1) by (auto simp: x m')
qed simp

definition pairs_up :: "nat \<Rightarrow> u64 \<Rightarrow> u64 \<Rightarrow> (u64 \<times> u64) list" where
  "pairs_up n d s = map (\<lambda>i. (d + of_nat i, s + of_nat i)) [0..<n]"

lemma pairs_up_Suc: "pairs_up (Suc n) d s = (d, s) # pairs_up n (d + 1) (s + 1)"
  by (simp add: pairs_up_def upt_conv_Cons map_Suc_upt [symmetric] add.assoc del: upt_Suc map_Suc_upt)

lemma memmove_up_seq: "memmove_up n d s m = seq_copy (pairs_up n d s) m"
  by (induction n arbitrary: d s m) (simp_all add: pairs_up_Suc pairs_up_def [of 0])

lemma memmove_down_seq:
  "memmove_down n (d + of_nat n) (s + of_nat n) m = seq_copy (rev (pairs_up n d s)) m"
proof (induction n arbitrary: m)
  case (Suc n)
  have "pairs_up (Suc n) d s = pairs_up n d s @ [(d + of_nat n, s + of_nat n)]"
    by (simp add: pairs_up_def)
  moreover have "x + of_nat (Suc n) - 1 = x + of_nat n" for x :: u64 by simp
  ultimately show ?case
    by (simp only: memmove_down.simps Suc.IH rev_append rev.simps append.simps seq_copy.simps)
qed (simp add: pairs_up_def)

lemma seq_ok_nth:
  "seq_ok xs \<longleftrightarrow> (\<forall>j<length xs. \<forall>i<j. fst (xs ! i) \<noteq> fst (xs ! j) \<and> fst (xs ! i) \<noteq> snd (xs ! j))"
proof (induction xs)
  case (Cons x xs)
  obtain d s where x: "x = (d, s)" by (cases x)
  have "seq_ok (x # xs) \<longleftrightarrow> (\<forall>j<length xs. d \<noteq> fst (xs ! j) \<and> d \<noteq> snd (xs ! j)) \<and>
      (\<forall>j<length xs. \<forall>i<j. fst (xs ! i) \<noteq> fst (xs ! j) \<and> fst (xs ! i) \<noteq> snd (xs ! j))"
    unfolding x seq_ok.simps Cons.IH image_set in_set_conv_nth by (auto simp: eq_commute)
  also have "\<dots> \<longleftrightarrow> (\<forall>j<length (x # xs). \<forall>i<j. fst ((x # xs) ! i) \<noteq> fst ((x # xs) ! j) \<and>
      fst ((x # xs) ! i) \<noteq> snd ((x # xs) ! j))"
    by (simp add: x All_less_Suc2) auto
  finally show ?case .
qed simp

text \<open>
  Overlapping or not, \<open>memmove\<close> stores the bytes the source had before the call;
  neither range may run past the top of the address space.
\<close>

lemma memmove_result:
  assumes "unat dst + n < 2 ^ 64" "unat src + n < 2 ^ 64"
  shows "(\<forall>i<n. memmove dst src n m (dst + of_nat i) = m (src + of_nat i)) \<and>
    (\<forall>a. (\<forall>i<n. a \<noteq> dst + of_nat i) \<longrightarrow> memmove dst src n m a = m a)"
proof -
  have plus: "unat (x + of_nat i) = unat x + i" if "unat x + i < 2 ^ 64" for x :: u64 and i
    using that by (simp add: unat_plus_if' unat_of_nat)
  have D: "unat (dst + of_nat i) = unat dst + i" and S: "unat (src + of_nat i) = unat src + i"
    if "i < n" for i using assms that by (auto intro: plus)
  let ?xs = "pairs_up n dst src"
  have len: "length ?xs = n" by (simp add: pairs_up_def)
  have nth: "?xs ! i = (dst + of_nat i, src + of_nat i)" if "i < n" for i
    using that by (simp add: pairs_up_def)
  have dd: "dst + of_nat i \<noteq> dst + of_nat j" if "i < j" "j < n" for i j
    using D [of i] D [of j] that by (metis add_left_cancel less_not_refl order_less_trans)
  have "\<exists>ys. set ys = set ?xs \<and> seq_ok ys \<and> memmove dst src n m = seq_copy ys m"
  proof (cases "n \<noteq> 0 \<and> src < dst \<and> src + of_nat n > dst")
    case False
    then have "dst \<le> src \<or> unat src + n \<le> unat dst \<or> n = 0"
      using plus [of src n] assms(2) by (auto simp: word_le_nat_alt word_less_nat_alt)
    then have "dst + of_nat i \<noteq> src + of_nat j" if "i < j" "j < n" for i j
      using D [of i] S [of j] that by (auto simp: word_le_nat_alt)
    then have "seq_ok ?xs" using dd by (simp add: seq_ok_nth len nth)
    moreover have "memmove dst src n m = seq_copy ?xs m"
      using False by (auto simp: memmove_def memmove_up_seq pairs_up_def)
    ultimately show ?thesis by blast
  next
    case True
    then have "unat src < unat dst" by (simp add: word_less_nat_alt)
    then have ds: "dst + of_nat j \<noteq> src + of_nat i" if "i < j" "j < n" for i j
      using D [of j] S [of i] that by auto
    have "seq_ok (rev ?xs)"
      unfolding seq_ok_nth
    proof (intro allI impI)
      fix i j assume "j < length (rev ?xs)" "i < j"
      then have o: "n - 1 - j < n - 1 - i" "n - 1 - i < n"
        and r: "rev ?xs ! i = ?xs ! (n - 1 - i)" "rev ?xs ! j = ?xs ! (n - 1 - j)"
        using len by (simp_all add: rev_nth)
      show "fst (rev ?xs ! i) \<noteq> fst (rev ?xs ! j) \<and> fst (rev ?xs ! i) \<noteq> snd (rev ?xs ! j)"
        unfolding r using dd [OF o] ds [OF o] nth [OF o(2)] nth [of "n - 1 - j"] o
        by (simp only: fst_conv snd_conv) (metis less_trans)
    qed
    moreover have "memmove dst src n m = seq_copy (rev ?xs) m"
      using True by (simp add: memmove_def memmove_down_seq)
    ultimately show ?thesis by (metis set_rev)
  qed
  then obtain ys where ys: "set ys = set ?xs" "seq_ok ys" "memmove dst src n m = seq_copy ys m"
    by blast
  have "set ?xs = (\<lambda>i. (dst + of_nat i, src + of_nat i)) ` {..<n}"
    by (auto simp: pairs_up_def)
  then show ?thesis using seq_copy_spec [OF ys(2), of m] ys(1,3) by (auto simp: image_iff)
qed

subsection \<open>String routines\<close>

lemma memcmp_0: "memcmp s1 s2 n = 0 \<longleftrightarrow> (\<forall>i<n. s1 i = s2 i)"
  by (induction n arbitrary: s1 s2) (simp_all add: All_less_Suc2 word_uint_eq_iff)

text \<open>\<open>strncmp\<close> finds no difference exactly when the strings agree up to the first NUL.\<close>

lemma strncmp_0:
  "strncmp p q n = 0 \<longleftrightarrow> (\<forall>i<n. (\<forall>j<i. p j \<noteq> 0) \<longrightarrow> p i = q i)"
proof (induction n arbitrary: p q)
  case (Suc n)
  have "(\<forall>i<Suc n. (\<forall>j<i. p j \<noteq> 0) \<longrightarrow> p i = q i) \<longleftrightarrow>
      p 0 = q 0 \<and> (p 0 \<noteq> 0 \<longrightarrow> strncmp (\<lambda>i. p (Suc i)) (\<lambda>i. q (Suc i)) n = 0)"
    by (simp only: All_less_Suc2 Suc.IH) blast
  moreover have "uint a - uint b = 0 \<longleftrightarrow> a = b" for a b :: u8
    by (simp add: word_uint_eq_iff)
  ultimately show ?case by (simp only: strncmp.simps split: if_split) blast
qed simp

lemma strncpy_pad_apply:
  "strncpy_pad i n s k = (if i \<le> k \<and> k < i + n then 0 else s k)"
  by (induction n arbitrary: i s) auto

lemma strncpy_copy_apply:
  "strncpy_copy i n s t k =
     (if i \<le> k \<and> k < i + n then if \<exists>j. i \<le> j \<and> j < k \<and> t j = 0 then 0 else t k else s k)"
proof (induction n arbitrary: i s k)
  case (Suc n)
  show ?case
  proof (cases "t i = 0")
    case True
    then show ?thesis by (cases "k = i") (auto simp: strncpy_pad_apply)
  next
    case False
    then have "(\<exists>j. i \<le> j \<and> j < k \<and> t j = 0) \<longleftrightarrow> (\<exists>j. Suc i \<le> j \<and> j < k \<and> t j = 0)"
      by (metis Suc_leD not_less_eq_eq order_antisym_conv)
    then show ?thesis using False by (cases "k = i") (auto simp: Suc.IH)
  qed
qed auto

lemma strncpy_apply:
  "strncpy s t n k = (if k < n then if \<exists>j<k. t j = 0 then 0 else t k else s k)"
  by (simp add: strncpy_def strncpy_copy_apply)

lemma safestrcpy_loop_spec:
  "0 < n \<Longrightarrow> \<exists>k<n. safestrcpy_loop i n s t (i + k) = 0 \<and>
      (\<forall>j<k. safestrcpy_loop i n s t (i + j) = t (i + j)) \<and>
      (k = n - 1 \<or> t (i + k) = 0) \<and>
      (\<forall>a. a < i \<or> i + n \<le> a \<longrightarrow> safestrcpy_loop i n s t a = s a)"
proof (induction n arbitrary: i s)
  case (Suc n)
  show ?case
  proof (cases "n = 0 \<or> t i = 0")
    case True
    then show ?thesis by (cases n) (auto intro!: exI [of _ 0])
  next
    case False
    let ?r = "safestrcpy_loop (Suc i) n (s(i := t i)) t"
    obtain k where k: "k < n" "?r (Suc i + k) = 0" "\<forall>j<k. ?r (Suc i + j) = t (Suc i + j)"
        "k = n - 1 \<or> t (Suc i + k) = 0"
        "\<forall>a. a < Suc i \<or> Suc i + n \<le> a \<longrightarrow> ?r a = (s(i := t i)) a"
      using Suc.IH [of "Suc i" "s(i := t i)"] False by blast
    have "safestrcpy_loop i (Suc n) s t = ?r"
      using False by (cases n) auto
    then show ?thesis
      using k by (intro exI [of _ "Suc k"]) (auto simp: All_less_Suc2)
  qed
qed simp

text \<open>
  Whatever the source holds, the copy ends in a NUL inside the destination, the
  bytes before it are the source's, and nothing beyond the destination changes.
\<close>

lemma safestrcpy_spec:
  assumes "0 < n"
  shows "\<exists>k<n. safestrcpy s t n k = 0 \<and> (\<forall>j<k. safestrcpy s t n j = t j) \<and>
    (k = n - 1 \<or> t k = 0) \<and> (\<forall>a\<ge>n. safestrcpy s t n a = s a)"
  using safestrcpy_loop_spec [OF assms, of 0 s t] by (auto simp: safestrcpy_def)

lemma strlen_from_Some:
  "(\<And>i. k \<le> i \<Longrightarrow> i < n \<Longrightarrow> s i \<noteq> 0) \<Longrightarrow> s n = 0 \<Longrightarrow> k \<le> n \<Longrightarrow> strlen_from k s = Some n"
proof (induction "n - k" arbitrary: k)
  case 0
  then show ?case by (simp add: strlen_from.simps)
next
  case (Suc d)
  then have "strlen_from (Suc k) s = Some n" by simp
  then show ?case using Suc by (simp add: strlen_from.simps [of k])
qed

lemma strlen_Some: "(\<And>i. i < n \<Longrightarrow> s i \<noteq> 0) \<Longrightarrow> s n = 0 \<Longrightarrow> strlen s = Some n"
  by (simp add: strlen_def strlen_from_Some)

end
