(* ===== verification/Pool.thy ===== *)
theory Pool
  imports Prelude
begin

section \<open>The interface of a resource allocator\<close>

text \<open>
  The kernel hands out several kinds of things from a fixed stock: page frames
  (kalloc.c), swap slots and process table entries (proc.c), open-file entries
  (file.c).  All of them promise the same to their callers: a request fails
  exactly when nothing is left, what is handed out was free and is no longer,
  and what is given back is free again.  The consequences the callers rely on
  are proved here once and read off by interpretation.
\<close>

locale pool =
  fixes wf :: "'s \<Rightarrow> bool"
    and avail :: "'s \<Rightarrow> 'r set"
    and take :: "'s \<Rightarrow> ('r \<times> 's) option"
    and give :: "'r \<Rightarrow> 's \<Rightarrow> 's option"
  assumes take_None: "wf s \<Longrightarrow> take s = None \<longleftrightarrow> avail s = {}"
    and take_Some: "wf s \<Longrightarrow> take s = Some (r, s') \<Longrightarrow>
      r \<in> avail s \<and> wf s' \<and> avail s' = avail s - {r}"
    and give_Some: "wf s \<Longrightarrow> r \<notin> avail s \<Longrightarrow> give r s = Some s' \<Longrightarrow>
      wf s' \<and> avail s' = insert r (avail s)"
begin

text \<open>A caller that takes \<open>n\<close> resources, and one that gives a list of them back.\<close>

fun take_n :: "nat \<Rightarrow> 's \<Rightarrow> ('r list \<times> 's) option" where
  "take_n 0 s = Some ([], s)"
| "take_n (Suc n) s = (case take s of None \<Rightarrow> None
     | Some (r, s') \<Rightarrow> map_option (\<lambda>(rs, s''). (r # rs, s'')) (take_n n s'))"

fun give_all :: "'r list \<Rightarrow> 's \<Rightarrow> 's option" where
  "give_all [] s = Some s"
| "give_all (r # rs) s = (case give r s of None \<Rightarrow> None | Some s' \<Rightarrow> give_all rs s')"

lemma take_n_Some:
  "wf s \<Longrightarrow> take_n n s = Some (rs, s') \<Longrightarrow>
    wf s' \<and> distinct rs \<and> length rs = n \<and> set rs \<subseteq> avail s \<and> avail s' = avail s - set rs"
proof (induction n s arbitrary: rs s' rule: take_n.induct)
  case (2 n s)
  then obtain r t rs' where t: "take s = Some (r, t)" "take_n n t = Some (rs', s')" "rs = r # rs'"
    by (auto split: option.splits)
  with 2 have "wf s' \<and> distinct rs' \<and> length rs' = n \<and> set rs' \<subseteq> avail t \<and> avail s' = avail t - set rs'"
    using take_Some by blast
  then show ?case using take_Some [OF "2.prems"(1) t(1)] t(3) by auto
qed simp

lemma take_n_enough:
  "wf s \<Longrightarrow> finite (avail s) \<Longrightarrow> take_n n s \<noteq> None \<longleftrightarrow> n \<le> card (avail s)"
proof (induction n s rule: take_n.induct)
  case (2 n s)
  show ?case
  proof (cases "take s")
    case None
    then have "avail s = {}" using take_None "2.prems"(1) by blast
    then show ?thesis using None by simp
  next
    case (Some p)
    obtain r t where p: "p = (r, t)" by (cases p)
    then have t: "r \<in> avail s" "wf t" "avail t = avail s - {r}"
      using take_Some Some "2.prems"(1) by auto
    then have "card (avail s) = Suc (card (avail t))"
      using card.remove [OF "2.prems"(2) t(1)] by simp
    moreover have "take_n n t \<noteq> None \<longleftrightarrow> n \<le> card (avail t)"
      using "2.IH" [OF Some p [symmetric] t(2)] t(3) "2.prems"(2) by simp
    ultimately show ?thesis by (simp add: Some p)
  qed
qed simp

lemma give_all_Some:
  "wf s \<Longrightarrow> distinct rs \<Longrightarrow> set rs \<inter> avail s = {} \<Longrightarrow> give_all rs s = Some s' \<Longrightarrow>
    wf s' \<and> avail s' = set rs \<union> avail s"
proof (induction rs s rule: give_all.induct)
  case (2 r rs s)
  then obtain t where t: "give r s = Some t" "give_all rs t = Some s'"
    by (auto split: option.splits)
  have "wf t \<and> avail t = insert r (avail s)"
    by (rule give_Some [OF "2.prems"(1) _ t(1)]) (use "2.prems" in auto)
  then show ?case using "2.IH" [OF t(1)] "2.prems" t by auto
qed simp

text \<open>Nothing is lost: giving back what was taken restores the stock.\<close>

lemma take_give_conserves:
  assumes "wf s" "take_n n s = Some (rs, t)" "give_all rs t = Some u"
  shows "wf u \<and> avail u = avail s"
proof -
  note t = take_n_Some [OF assms(1,2)]
  then have "wf u \<and> avail u = set rs \<union> avail t"
    by (intro give_all_Some [OF _ _ _ assms(3)]) auto
  then show ?thesis using t by auto
qed

text \<open>Two holders never hold the same thing.\<close>

lemma takes_disjoint:
  assumes "wf s" "take_n n s = Some (rs, t)" "take_n k t = Some (qs, u)"
  shows "set rs \<inter> set qs = {}"
  using take_n_Some [OF assms(1,2)] take_n_Some [OF _ assms(3)] by auto

end

end
