(* ===== verification/Kalloc.thy ===== *)
theory Kalloc
  imports StringC Pool
begin

section \<open>The physical page allocator (kernel/kalloc.c)\<close>

text \<open>
  \<open>struct run\<close> lives in the free pages themselves: the first eight bytes of a free
  page hold the address of the next one, and \<open>kmem.freelist\<close> holds the first.
  The model keeps it that way: \<open>mem\<close> is the physical memory, \<open>freelist\<close> the list
  head, and \<open>kend\<close> the linker symbol \<open>end\<close>, the first address after the kernel.
  Each function is the body of the C function between \<open>acquire\<close> and \<open>release\<close> of
  \<open>kmem.lock\<close>, which makes it one atomic step.  \<open>free_pages s ps\<close> relates the linked
  list in memory to the list of free frames; the laws of kalloc and kfree are
  stated over it.
\<close>

record kmem =
  mem :: memory
  freelist :: u64
  kend :: u64

definition kfree :: "u64 \<Rightarrow> 'a kmem_scheme \<Rightarrow> 'a kmem_scheme option" where
  "kfree pa s =
     (if pa mod PGSIZE \<noteq> 0 \<or> pa < kend s \<or> pa \<ge> PHYSTOP then None
      else Some (s\<lparr>mem := st64 pa (freelist s) (memset pa 1 4096 (mem s)), freelist := pa\<rparr>))"

definition kalloc :: "'a kmem_scheme \<Rightarrow> u64 \<times> 'a kmem_scheme" where
  "kalloc s =
     (let r = freelist s in
      if r \<noteq> 0 then (r, s\<lparr>freelist := ld64 (mem s) r, mem := memset r 5 4096 (mem s)\<rparr>)
      else (r, s))"

partial_function (option) freerange_loop ::
    "u64 \<Rightarrow> u64 \<Rightarrow> 'a kmem_scheme \<Rightarrow> 'a kmem_scheme option" where
  "freerange_loop p pa_end s =
     (if p + PGSIZE \<le> pa_end
      then Option.bind (kfree p s) (freerange_loop (p + PGSIZE) pa_end)
      else Some s)"

definition freerange :: "u64 \<Rightarrow> u64 \<Rightarrow> 'a kmem_scheme \<Rightarrow> 'a kmem_scheme option" where
  "freerange pa_start pa_end s = freerange_loop (PGROUNDUP pa_start) pa_end s"

definition kinit :: "'a kmem_scheme \<Rightarrow> 'a kmem_scheme option" where
  "kinit s = freerange (kend s) PHYSTOP s"

subsection \<open>The free list in memory\<close>

definition frame_ok :: "'a kmem_scheme \<Rightarrow> u64 \<Rightarrow> bool" where
  "frame_ok s p \<longleftrightarrow> page_aligned p \<and> kend s \<le> p \<and> p < PHYSTOP"

fun linked :: "memory \<Rightarrow> u64 \<Rightarrow> u64 list \<Rightarrow> bool" where
  "linked m p [] \<longleftrightarrow> p = 0"
| "linked m p (q # qs) \<longleftrightarrow> p = q \<and> linked m (ld64 m q) qs"

definition free_pages :: "'a kmem_scheme \<Rightarrow> u64 list \<Rightarrow> bool" where
  "free_pages s ps \<longleftrightarrow> 0 < kend s \<and> distinct ps \<and> (\<forall>p\<in>set ps. frame_ok s p) \<and>
     linked (mem s) (freelist s) ps"

lemma frame_ok_nonzero: "0 < kend s \<Longrightarrow> frame_ok s p \<Longrightarrow> p \<noteq> 0"
  by (auto simp: frame_ok_def word_le_nat_alt word_less_nat_alt)

lemma frame_ok_aligned [simp]: "frame_ok s p \<Longrightarrow> page_aligned p"
  by (simp add: frame_ok_def)

lemma frame_ok_less: "frame_ok s p \<Longrightarrow> p < 2 ^ 56"
  by (simp add: frame_ok_def PHYSTOP_def KERNBASE_def word_less_nat_alt)

lemma page_cell [simp]: "page_aligned p \<Longrightarrow> cell_aligned p"
proof -
  assume "page_aligned p"
  then obtain k where "unat p = 4096 * k" by (auto simp: page_aligned_unat)
  then have "unat p = 8 * (512 * k)" by simp
  then show ?thesis by (simp add: cell_aligned_def)
qed

lemma page_byte:
  assumes "page_aligned p" "i < 8"
  shows "PGROUNDDOWN (p + of_nat i) = p"
  using assms by (simp add: PGROUNDDOWN_add unat_of_nat)

lemma st64_page_other:
  assumes "page_aligned p" "PGROUNDDOWN a \<noteq> p"
  shows "st64 p v m a = m a"
  using page_byte [OF assms(1)] assms(2) by (intro st64_other) auto

lemma ld64_page_cong:
  assumes "page_aligned p" "\<And>a. PGROUNDDOWN a = p \<Longrightarrow> m a = m' a"
  shows "ld64 m p = ld64 m' p"
  using assms page_byte by (intro ld64_cong) blast

lemma linked_cong:
  "(\<And>p a. p \<in> set ps \<Longrightarrow> PGROUNDDOWN a = p \<Longrightarrow> m a = m' a) \<Longrightarrow>
   (\<And>p. p \<in> set ps \<Longrightarrow> page_aligned p) \<Longrightarrow> linked m q ps = linked m' q ps"
proof (induction ps arbitrary: q)
  case (Cons p ps)
  have "ld64 m p = ld64 m' p" by (rule ld64_page_cong) (use Cons.prems in auto)
  then show ?case using Cons by auto
qed simp

lemma linked_unique: "linked m p ps \<Longrightarrow> linked m p qs \<Longrightarrow> 0 \<notin> set ps \<Longrightarrow> 0 \<notin> set qs \<Longrightarrow> ps = qs"
proof (induction ps arbitrary: p qs)
  case Nil
  then show ?case by (cases qs) auto
next
  case (Cons q ps)
  then show ?case by (cases qs) auto
qed

subsection \<open>kalloc and kfree on the list of free frames\<close>

lemma free_pages_unique: "free_pages s ps \<Longrightarrow> free_pages s qs \<Longrightarrow> ps = qs"
  by (rule linked_unique) (auto simp: free_pages_def dest: frame_ok_nonzero)

lemma kalloc_empty: "free_pages s [] \<Longrightarrow> kalloc s = (0, s)"
  by (simp add: free_pages_def kalloc_def)

lemma kalloc_frame:
  assumes "free_pages s (p # ps)"
  shows "\<exists>s'. kalloc s = (p, s') \<and> free_pages s' ps \<and> kend s' = kend s \<and>
    kmem.more s' = kmem.more s \<and>
    mem s' = (\<lambda>a. if PGROUNDDOWN a = p then 5 else mem s a)"
proof -
  have fl: "freelist s = p" "linked (mem s) (ld64 (mem s) p) ps" and ok: "frame_ok s p"
      "p \<notin> set ps" "distinct ps" "0 < kend s" "\<forall>q\<in>set ps. frame_ok s q"
    using assms by (auto simp: free_pages_def)
  have p0: "p \<noteq> 0" using ok frame_ok_nonzero by blast
  let ?m = "\<lambda>a. if PGROUNDDOWN a = p then 5 else mem s a"
  let ?s = "s\<lparr>freelist := ld64 (mem s) p, mem := ?m\<rparr>"
  have "kalloc s = (p, ?s)"
    using p0 ok(1) by (simp add: kalloc_def fl memset_page)
  moreover have "linked ?m (ld64 (mem s) p) ps = linked (mem s) (ld64 (mem s) p) ps"
    by (rule linked_cong) (use ok in auto)
  then have "free_pages ?s ps"
    using ok fl by (simp add: free_pages_def frame_ok_def)
  ultimately show ?thesis by (intro exI [of _ ?s]) simp
qed

lemma kfree_frame:
  assumes "free_pages s ps" "frame_ok s p" "p \<notin> set ps"
  shows "\<exists>s'. kfree p s = Some s' \<and> free_pages s' (p # ps) \<and> kend s' = kend s \<and>
    kmem.more s' = kmem.more s \<and> (\<forall>a. PGROUNDDOWN a \<noteq> p \<longrightarrow> mem s' a = mem s a)"
proof -
  have al: "page_aligned p" using assms(2) by simp
  let ?m = "st64 p (freelist s) (memset p 1 4096 (mem s))"
  let ?s = "s\<lparr>mem := ?m, freelist := p\<rparr>"
  have "kfree p s = Some ?s"
    using assms(2) by (auto simp: kfree_def frame_ok_def page_aligned_def)
  moreover have other: "?m a = mem s a" if "PGROUNDDOWN a \<noteq> p" for a
    using that al by (simp add: st64_page_other memset_page)
  moreover have "linked ?m (freelist s) ps = linked (mem s) (freelist s) ps"
    by (rule linked_cong, rule other) (use assms in \<open>auto simp: free_pages_def\<close>)
  then have "free_pages ?s (p # ps)"
    using assms by (simp add: free_pages_def frame_ok_def)
  ultimately show ?thesis by (intro exI [of _ ?s]) simp
qed

lemma kfree_Some_iff: "(\<exists>s'. kfree p s = Some s') \<longleftrightarrow> frame_ok s p"
  by (auto simp: kfree_def frame_ok_def page_aligned_def)

text \<open>A frame that is freed is the next one handed out.\<close>

lemma kalloc_after_kfree:
  assumes "free_pages s ps" "frame_ok s p" "p \<notin> set ps" "kfree p s = Some s'"
  shows "fst (kalloc s') = p"
  using kfree_frame [OF assms(1-3)] assms(4) kalloc_frame by fastforce

subsection \<open>Boot: every frame between the kernel and \<open>PHYSTOP\<close> becomes free\<close>

definition frames_between :: "u64 \<Rightarrow> nat \<Rightarrow> u64 list" where
  "frames_between p n = map (\<lambda>i. p + of_nat i * PGSIZE) [0..<n]"

lemma frames_between_Suc:
  "frames_between p (Suc n) = p # frames_between (p + PGSIZE) n"
  by (simp add: frames_between_def upt_conv_Cons map_Suc_upt [symmetric] algebra_simps
      del: upt_Suc map_Suc_upt)

lemma unat_PHYSTOP: "unat PHYSTOP = 0x88000000"
  by (simp add: PHYSTOP_def KERNBASE_def)

lemma freerange_loop_spec:
  assumes "free_pages s ps" "page_aligned p" "kend s \<le> p"
    and "unat p + n * 4096 \<le> unat PHYSTOP" "unat PHYSTOP < unat p + (n + 1) * 4096"
    and "\<forall>q\<in>set ps. q < p"
  shows "\<exists>s'. freerange_loop p PHYSTOP s = Some s' \<and> kend s' = kend s \<and>
    free_pages s' (rev (frames_between p n) @ ps)"
  using assms
proof (induction n arbitrary: s ps p)
  case 0
  then have "unat (p + PGSIZE) = unat p + 4096"
    by (simp add: PGSIZE_def unat_plus_if' unat_PHYSTOP)
  then have "\<not> p + PGSIZE \<le> PHYSTOP" using 0 by (simp add: word_le_nat_alt)
  then show ?case using 0 by (simp add: freerange_loop.simps frames_between_def)
next
  case (Suc n)
  have u: "unat (p + PGSIZE) = unat p + 4096"
    using Suc.prems by (simp add: PGSIZE_def unat_plus_if' unat_PHYSTOP)
  have g: "p + PGSIZE \<le> PHYSTOP" "p < PHYSTOP" "kend s \<le> p + PGSIZE" "p < p + PGSIZE"
    using Suc.prems u by (simp_all add: word_le_nat_alt word_less_nat_alt)
  have al: "page_aligned (p + PGSIZE)"
    using Suc.prems(2) u by (simp add: page_aligned_unat)
  have "frame_ok s p" "p \<notin> set ps"
    using Suc.prems g by (auto simp: frame_ok_def)
  then obtain t where t: "kfree p s = Some t" "free_pages t (p # ps)" "kend t = kend s"
    using kfree_frame Suc.prems(1) by blast
  moreover have "\<forall>q\<in>set (p # ps). q < p + PGSIZE"
    using Suc.prems(6) g(4) by (auto intro: less_trans)
  ultimately obtain s' where "freerange_loop (p + PGSIZE) PHYSTOP t = Some s'" "kend s' = kend t"
      "free_pages s' (rev (frames_between (p + PGSIZE) n) @ p # ps)"
    using Suc.IH [of t "p # ps" "p + PGSIZE"] al g Suc.prems(4,5) u by auto
  then show ?case
    using t g by (intro exI [of _ s'])
      (simp add: freerange_loop.simps [of p] frames_between_Suc)
qed

text \<open>C26. Boot.  If the kernel image ends below \<open>PHYSTOP\<close> and the free list starts empty,
  \<open>kinit\<close> runs without a panic and puts exactly the page frames between the end of the
  kernel and \<open>PHYSTOP\<close> on the free list, each once.\<close>

theorem kinit_frees_all:
  assumes "0 < kend s" "kend s \<le> PHYSTOP" "freelist s = 0"
  shows "\<exists>s' ps. kinit s = Some s' \<and> kend s' = kend s \<and> free_pages s' ps \<and>
    set ps = {p. frame_ok s p}"
proof -
  define p where "p = PGROUNDUP (kend s)"
  define n where "n = (unat PHYSTOP - unat p) div 4096"
  have k: "unat (kend s + 4095) = unat (kend s) + 4095"
    using assms(2) by (simp add: word_le_nat_alt unat_plus_if' unat_PHYSTOP)
  have up: "unat p = (unat (kend s) + 4095) div 4096 * 4096"
    by (simp add: p_def PGROUNDUP_down unat_PGROUNDDOWN k)
  have bounds: "unat (kend s) \<le> unat p" "unat p < unat (kend s) + 4096" "unat p \<le> unat PHYSTOP"
    using assms(2) up by (auto simp: word_le_nat_alt unat_PHYSTOP)
  have al: "page_aligned p" by (simp add: p_def)
  have "free_pages s []" using assms by (simp add: free_pages_def)
  moreover have "unat p + n * 4096 \<le> unat PHYSTOP" "unat PHYSTOP < unat p + (n + 1) * 4096"
    using bounds(3) by (simp_all add: n_def unat_PHYSTOP)
  ultimately obtain s' where s': "freerange_loop p PHYSTOP s = Some s'" "kend s' = kend s"
      "free_pages s' (rev (frames_between p n))"
    using freerange_loop_spec [of s "[]" p n] al bounds(1) by (auto simp: word_le_nat_alt)
  have "set (frames_between p n) = {q. frame_ok s q}"
  proof (intro set_eqI iffI)
    fix q assume "q \<in> set (frames_between p n)"
    then show "q \<in> {q. frame_ok s q}" using s'(2,3) by (simp add: free_pages_def frame_ok_def)
  next
    fix q assume "q \<in> {q. frame_ok s q}"
    then have q: "unat q mod 4096 = 0" "unat (kend s) \<le> unat q" "unat q < unat PHYSTOP"
      by (simp_all add: frame_ok_def page_aligned_unat word_le_nat_alt word_less_nat_alt)
    obtain a where a: "unat p = 4096 * a" using al by (auto simp: page_aligned_unat)
    obtain b where b: "unat q = 4096 * b" using q(1) by auto
    have "a \<le> b" using q(2) bounds(2) a b by simp
    moreover have "b - a < n"
      using q(3) a b \<open>a \<le> b\<close> by (simp add: n_def unat_PHYSTOP)
    moreover have "q = p + of_nat (b - a) * PGSIZE"
    proof -
      have "q = of_nat (unat q)" by simp
      also have "\<dots> = of_nat (unat p + (b - a) * 4096)" using a b \<open>a \<le> b\<close> by simp
      also have "\<dots> = p + of_nat (b - a) * PGSIZE" by (simp add: PGSIZE_def)
      finally show ?thesis .
    qed
    ultimately show "q \<in> set (frames_between p n)"
      unfolding frames_between_def set_map set_upt by (intro image_eqI [of _ _ "b - a"]) auto
  qed
  then show ?thesis
    using s' by (intro exI [of _ s'] exI [of _ "rev (frames_between p n)"])
      (simp add: kinit_def freerange_def p_def)
qed

subsection \<open>Page frames as a pool\<close>

definition frames_wf :: "'a kmem_scheme \<Rightarrow> bool" where
  "frames_wf s \<longleftrightarrow> (\<exists>ps. free_pages s ps)"

definition free_frames :: "'a kmem_scheme \<Rightarrow> u64 set" where
  "free_frames s = {p. frame_ok s p \<and> (\<exists>ps. free_pages s ps \<and> p \<in> set ps)}"

definition take_frame :: "'a kmem_scheme \<Rightarrow> (u64 \<times> 'a kmem_scheme) option" where
  "take_frame s = (case kalloc s of (p, s') \<Rightarrow> if p = 0 then None else Some (p, s'))"

lemma free_frames_eq: "free_pages s ps \<Longrightarrow> free_frames s = set ps"
  using free_pages_unique [of s ps] by (auto simp: free_frames_def free_pages_def)

lemma take_frame_cases:
  assumes "free_pages s ps"
  shows "(case ps of [] \<Rightarrow> take_frame s = None
    | p # ps' \<Rightarrow> \<exists>s'. take_frame s = Some (p, s') \<and> free_pages s' ps')"
proof (cases ps)
  case Nil
  then show ?thesis using kalloc_empty [of s] assms by (simp add: take_frame_def)
next
  case (Cons p ps')
  then have "p \<noteq> 0" using assms frame_ok_nonzero by (auto simp: free_pages_def)
  then show ?thesis using kalloc_frame [of s p ps'] assms Cons by (auto simp: take_frame_def)
qed

interpretation frames: pool frames_wf free_frames take_frame kfree
proof unfold_locales
  fix s :: "'a kmem_scheme"
  assume "frames_wf s"
  then obtain ps where "free_pages s ps" by (auto simp: frames_wf_def)
  then show "take_frame s = None \<longleftrightarrow> free_frames s = {}"
    using take_frame_cases [of s ps] free_frames_eq [of s ps] by (auto split: list.splits)
next
  fix s s' :: "'a kmem_scheme" and r
  assume "frames_wf s" and t: "take_frame s = Some (r, s')"
  then obtain ps where ps: "free_pages s ps" by (auto simp: frames_wf_def)
  then obtain ps' where "ps = r # ps'" "free_pages s' ps'"
    using take_frame_cases [OF ps] t by (cases ps) auto
  moreover from this have "r \<notin> set ps'" using ps by (simp add: free_pages_def)
  ultimately show "r \<in> free_frames s \<and> frames_wf s' \<and> free_frames s' = free_frames s - {r}"
    using ps by (auto simp: frames_wf_def free_frames_eq)
next
  fix s s' :: "'a kmem_scheme" and r
  assume "frames_wf s" "r \<notin> free_frames s" and g: "kfree r s = Some s'"
  then obtain ps where ps: "free_pages s ps" "r \<notin> set ps"
    by (auto simp: frames_wf_def free_frames_eq)
  have "frame_ok s r" using g kfree_Some_iff by blast
  then have "free_pages s' (r # ps)" using kfree_frame [OF ps(1) _ ps(2)] g by fastforce
  then show "frames_wf s' \<and> free_frames s' = insert r (free_frames s)"
    using ps by (auto simp: frames_wf_def free_frames_eq)
qed

subsection \<open>Properties\<close>

text \<open>A small machine: three free frames linked through their own bytes.\<close>

definition demo_frames :: "u64 list" where
  "demo_frames = [0x87000000, 0x87001000, 0x87002000]"

definition demo :: kmem where
  "demo = \<lparr>mem = st64 0x87000000 0x87001000 (st64 0x87001000 0x87002000 (\<lambda>_. 0)),
     freelist = 0x87000000, kend = 0x80022000\<rparr>"

lemma demo_free: "free_pages demo demo_frames"
  by (simp add: free_pages_def demo_def demo_frames_def frame_ok_def page_aligned_def PGSIZE_def
      PHYSTOP_def KERNBASE_def ld64_st64_other cell_aligned_def ld64_zero)

theorem kinit_frees_all_witness:
  "\<exists>s' ps. kinit (demo\<lparr>freelist := 0\<rparr>) = Some s' \<and> free_pages s' ps \<and> 0x87000000 \<in> set ps"
proof -
  have "0 < kend (demo\<lparr>freelist := 0\<rparr>)" "kend (demo\<lparr>freelist := 0\<rparr>) \<le> PHYSTOP"
    "freelist (demo\<lparr>freelist := 0\<rparr>) = 0"
    by (simp_all add: demo_def PHYSTOP_def KERNBASE_def)
  moreover have "frame_ok (demo\<lparr>freelist := 0\<rparr>) 0x87000000"
    by (simp add: frame_ok_def demo_def page_aligned_def PGSIZE_def PHYSTOP_def KERNBASE_def)
  ultimately show ?thesis using kinit_frees_all by blast
qed

text \<open>C27. Frames are conserved and never shared.  From any well-formed free list, two callers
  that take \<open>n\<close> and \<open>k\<close> frames with \<open>kalloc\<close> get disjoint sets of distinct frames, all of
  them free before, and once both have passed every frame to \<open>kfree\<close> the free list holds
  the same frames again.\<close>

theorem frames_exclusive_conserved:
  assumes "free_pages s ps" "frames.take_n n s = Some (rs, t)" "frames.take_n k t = Some (qs, u)"
    and "frames.give_all (rs @ qs) u = Some v"
  shows "distinct (rs @ qs) \<and> set rs \<union> set qs \<subseteq> set ps \<and>
    (\<exists>ps'. free_pages v ps' \<and> set ps' = set ps)"
proof -
  have wf: "frames_wf s" "free_frames s = set ps"
    using assms(1) by (auto simp: frames_wf_def free_frames_eq)
  note t = frames.take_n_Some [OF wf(1) assms(2)]
  then have "frames_wf t" by blast
  note u = frames.take_n_Some [OF this assms(3)]
  have "frames_wf v \<and> free_frames v = set (rs @ qs) \<union> free_frames u"
    by (rule frames.give_all_Some [OF _ _ _ assms(4)]) (use t u in auto)
  then obtain ps' where ps': "free_pages v ps'" "set ps' = set (rs @ qs) \<union> free_frames u"
    by (auto simp: frames_wf_def free_frames_eq)
  then have "set ps' = set ps" using t u wf(2) by auto
  then show ?thesis using t u wf(2) ps'(1) by auto
qed

theorem frames_exclusive_conserved_witness:
  "\<exists>r q t u v. frames.take_n 1 demo = Some ([r], t) \<and> frames.take_n 1 t = Some ([q], u) \<and>
    frames.give_all [r, q] u = Some v \<and> r \<noteq> q \<and> r \<in> set demo_frames"
proof -
  have d: "free_pages demo [0x87000000, 0x87001000, 0x87002000]"
    using demo_free by (simp add: demo_frames_def)
  obtain t where t: "take_frame demo = Some (0x87000000, t)"
      "free_pages t [0x87001000, 0x87002000]"
    using take_frame_cases [OF d] by auto
  obtain u where u: "take_frame t = Some (0x87001000, u)" "free_pages u [0x87002000]"
    using take_frame_cases [OF t(2)] by auto
  have k: "kend u = kend demo" using kalloc_frame [OF d] kalloc_frame [OF t(2)] t(1) u(1)
    by (auto simp: take_frame_def split: if_splits)
  have ok: "frame_ok u 0x87000000" "frame_ok u 0x87001000"
    by (simp_all add: frame_ok_def k demo_def page_aligned_def PGSIZE_def PHYSTOP_def KERNBASE_def)
  obtain v where v: "kfree 0x87000000 u = Some v" "free_pages v [0x87000000, 0x87002000]" "kend v = kend u"
    using kfree_frame [OF u(2) ok(1)] by auto
  have okv: "frame_ok v 0x87001000" using ok(2) v(3) by (simp add: frame_ok_def)
  obtain w where w: "kfree 0x87001000 v = Some w"
    using kfree_frame [OF v(2) okv] by auto
  have n: "frames.take_n 1 demo = Some ([0x87000000], t)" "frames.take_n 1 t = Some ([0x87001000], u)"
    "frames.give_all ([0x87000000] @ [0x87001000]) u = Some w"
    using t(1) u(1) v(1) w by simp_all
  from frames_exclusive_conserved [OF demo_free n] n show ?thesis by auto
qed

end
