(* ===== verification/PageTable.thy ===== *)
theory PageTable
  imports Kalloc
begin

section \<open>Sv39 page tables (kernel/vm.c)\<close>

text \<open>
  The functions of vm.c that build, search and take down page tables, over the
  physical memory of \<open>Kalloc\<close>.  A page table is the address of its root page;
  entries are 64-bit cells of memory.  \<open>walk\<close> is the source's loop from level 2 to
  level 1, a pointer result of 0 is the C null pointer.  Loops over addresses keep
  the source's exit test, so a call that panics or never leaves its loop is
  \<open>None\<close>.  Results of C type \<open>int\<close> are \<open>int\<close>.
\<close>

fun walk_loop :: "nat \<Rightarrow> u64 \<Rightarrow> u64 \<Rightarrow> bool \<Rightarrow> 'a kmem_scheme \<Rightarrow> u64 \<times> 'a kmem_scheme" where
  "walk_loop 0 pagetable va alloc s = (pagetable + 8 * PX 0 va, s)"
| "walk_loop (Suc level) pagetable va alloc s =
     (let pte = pagetable + 8 * PX (Suc level) va; e = ld64 (mem s) pte in
      if e AND PTE_V \<noteq> 0 then walk_loop level (PTE2PA e) va alloc s
      else if \<not> alloc then (0, s)
      else (case kalloc s of (p, s) \<Rightarrow>
        if p = 0 then (0, s)
        else let s = s\<lparr>mem := memset p 0 4096 (mem s)\<rparr>;
                 s = s\<lparr>mem := st64 pte (PA2PTE p OR PTE_V) (mem s)\<rparr>
          in walk_loop level p va alloc s))"

definition walk :: "u64 \<Rightarrow> u64 \<Rightarrow> bool \<Rightarrow> 'a kmem_scheme \<Rightarrow> (u64 \<times> 'a kmem_scheme) option" where
  "walk pagetable va alloc s =
     (if va \<ge> MAXVA then None else Some (walk_loop 2 pagetable va alloc s))"

definition walkaddr :: "u64 \<Rightarrow> u64 \<Rightarrow> 'a kmem_scheme \<Rightarrow> u64 option" where
  "walkaddr pagetable va s =
     (if va \<ge> MAXVA then Some 0
      else do {
        (pte, s) \<leftarrow> walk pagetable va False s;
        if pte = 0 then Some 0
        else let e = ld64 (mem s) pte in
          if e AND PTE_V = 0 then Some 0
          else if e AND PTE_U = 0 then Some 0
          else Some (PTE2PA e)
      })"

partial_function (option) mappages_loop ::
    "u64 \<Rightarrow> u64 \<Rightarrow> u64 \<Rightarrow> u64 \<Rightarrow> u64 \<Rightarrow> 'a kmem_scheme \<Rightarrow> (int \<times> 'a kmem_scheme) option" where
  "mappages_loop pagetable a last_a pa perm s = do {
     (pte, s) \<leftarrow> walk pagetable a True s;
     if pte = 0 then Some (-1, s)
     else if ld64 (mem s) pte AND PTE_V \<noteq> 0 then None
     else let s = s\<lparr>mem := st64 pte (PA2PTE pa OR perm OR PTE_V) (mem s)\<rparr> in
       if a = last_a then Some (0, s)
       else mappages_loop pagetable (a + PGSIZE) last_a (pa + PGSIZE) perm s
   }"

definition mappages ::
    "u64 \<Rightarrow> u64 \<Rightarrow> u64 \<Rightarrow> u64 \<Rightarrow> u64 \<Rightarrow> 'a kmem_scheme \<Rightarrow> (int \<times> 'a kmem_scheme) option" where
  "mappages pagetable va sz pa perm s =
     (if va mod PGSIZE \<noteq> 0 then None
      else if sz mod PGSIZE \<noteq> 0 then None
      else if sz = 0 then None
      else mappages_loop pagetable va (va + sz - PGSIZE) pa perm s)"

definition kvmmap ::
    "u64 \<Rightarrow> u64 \<Rightarrow> u64 \<Rightarrow> u64 \<Rightarrow> u64 \<Rightarrow> 'a kmem_scheme \<Rightarrow> 'a kmem_scheme option" where
  "kvmmap kpgtbl va pa sz perm s = do {
     (r, s) \<leftarrow> mappages kpgtbl va sz pa perm s;
     if r \<noteq> 0 then None else Some s
   }"

definition uvmcreate :: "'a kmem_scheme \<Rightarrow> u64 \<times> 'a kmem_scheme" where
  "uvmcreate s = (case kalloc s of (pagetable, s) \<Rightarrow>
     if pagetable = 0 then (0, s)
     else (pagetable, s\<lparr>mem := memset pagetable 0 4096 (mem s)\<rparr>))"

partial_function (option) uvmunmap_loop ::
    "u64 \<Rightarrow> u64 \<Rightarrow> u64 \<Rightarrow> bool \<Rightarrow> 'a kmem_scheme \<Rightarrow> 'a kmem_scheme option" where
  "uvmunmap_loop pagetable a bound do_free s =
     (if \<not> a < bound then Some s
      else do {
        (pte, s) \<leftarrow> walk pagetable a False s;
        if pte = 0 then uvmunmap_loop pagetable (a + PGSIZE) bound do_free s
        else let e = ld64 (mem s) pte in
          if e AND PTE_V = 0 then uvmunmap_loop pagetable (a + PGSIZE) bound do_free s
          else do {
            s \<leftarrow> (if do_free then kfree (PTE2PA e) s else Some s);
            let s = s\<lparr>mem := st64 pte 0 (mem s)\<rparr>;
            uvmunmap_loop pagetable (a + PGSIZE) bound do_free s
          }
      })"

definition uvmunmap ::
    "u64 \<Rightarrow> u64 \<Rightarrow> u64 \<Rightarrow> bool \<Rightarrow> 'a kmem_scheme \<Rightarrow> 'a kmem_scheme option" where
  "uvmunmap pagetable va npages do_free s =
     (if va mod PGSIZE \<noteq> 0 then None
      else uvmunmap_loop pagetable va (va + npages * PGSIZE) do_free s)"

text \<open>
  \<open>uvmdealloc\<close> reads \<open>myproc()->stack_top\<close> to spare the guard page and the stack;
  the model takes that value as its first argument.  \<open>USERSTACK\<close> is 1 (param.h).
\<close>

definition USERSTACK :: u64 where "USERSTACK = 1"

partial_function (option) uvmdealloc_loop ::
    "u64 \<Rightarrow> u64 \<Rightarrow> u64 \<Rightarrow> u64 \<Rightarrow> 'a kmem_scheme \<Rightarrow> 'a kmem_scheme option" where
  "uvmdealloc_loop stack_top pagetable va bound s =
     (if \<not> va < bound then Some s
      else let stack_base = stack_top - USERSTACK * PGSIZE; guard_base = stack_base - PGSIZE in
        if va \<ge> guard_base \<and> va < stack_top
        then uvmdealloc_loop stack_top pagetable (va + PGSIZE) bound s
        else do {
          s \<leftarrow> uvmunmap pagetable va 1 True s;
          uvmdealloc_loop stack_top pagetable (va + PGSIZE) bound s
        })"

definition uvmdealloc ::
    "u64 \<Rightarrow> u64 \<Rightarrow> u64 \<Rightarrow> u64 \<Rightarrow> 'a kmem_scheme \<Rightarrow> (u64 \<times> 'a kmem_scheme) option" where
  "uvmdealloc stack_top pagetable oldsz newsz s =
     (if newsz \<ge> oldsz then Some (oldsz, s)
      else if PGROUNDUP newsz < PGROUNDUP oldsz then do {
        s \<leftarrow> uvmdealloc_loop stack_top pagetable (PGROUNDUP newsz) (PGROUNDUP oldsz) s;
        Some (newsz, s)
      }
      else Some (newsz, s))"

partial_function (option) uvmalloc_loop ::
    "u64 \<Rightarrow> u64 \<Rightarrow> u64 \<Rightarrow> u64 \<Rightarrow> u64 \<Rightarrow> u64 \<Rightarrow> 'a kmem_scheme \<Rightarrow> (u64 \<times> 'a kmem_scheme) option" where
  "uvmalloc_loop stack_top pagetable oldsz a newsz xperm s =
     (if \<not> a < newsz then Some (newsz, s)
      else case kalloc s of (p, s) \<Rightarrow>
        if p = 0 then do {
          (_, s) \<leftarrow> uvmdealloc stack_top pagetable a oldsz s;
          Some (0, s)
        }
        else do {
          let s = s\<lparr>mem := memset p 0 4096 (mem s)\<rparr>;
          (r, s) \<leftarrow> mappages pagetable a PGSIZE p (PTE_R OR PTE_U OR xperm) s;
          if r \<noteq> 0 then do {
            s \<leftarrow> kfree p s;
            (_, s) \<leftarrow> uvmdealloc stack_top pagetable a oldsz s;
            Some (0, s)
          }
          else uvmalloc_loop stack_top pagetable oldsz (a + PGSIZE) newsz xperm s
        })"

definition uvmalloc ::
    "u64 \<Rightarrow> u64 \<Rightarrow> u64 \<Rightarrow> u64 \<Rightarrow> u64 \<Rightarrow> 'a kmem_scheme \<Rightarrow> (u64 \<times> 'a kmem_scheme) option" where
  "uvmalloc stack_top pagetable oldsz newsz xperm s =
     (if newsz < oldsz then Some (oldsz, s)
      else let oldsz = PGROUNDUP oldsz in
        uvmalloc_loop stack_top pagetable oldsz oldsz newsz xperm s)"

text \<open>
  \<open>freewalk\<close> from entry \<open>i\<close> on: an entry without R, W and X points to a lower table
  and is freed recursively, any other valid entry is a leaf left mapped and its
  frame is freed; after entry 511 the table page itself goes.
\<close>

partial_function (option) freewalk_from ::
    "u64 \<Rightarrow> nat \<Rightarrow> 'a kmem_scheme \<Rightarrow> 'a kmem_scheme option" where
  "freewalk_from pagetable i s =
     (if \<not> i < 512 then kfree pagetable s
      else let pte = pagetable + 8 * of_nat i; e = ld64 (mem s) pte in
        if e AND PTE_V \<noteq> 0 \<and> e AND (PTE_R OR PTE_W OR PTE_X) = 0 then do {
          s \<leftarrow> freewalk_from (PTE2PA e) 0 s;
          freewalk_from pagetable (Suc i) (s\<lparr>mem := st64 pte 0 (mem s)\<rparr>)
        }
        else if e AND PTE_V \<noteq> 0 then do {
          s \<leftarrow> kfree (PTE2PA e) s;
          freewalk_from pagetable (Suc i) (s\<lparr>mem := st64 pte 0 (mem s)\<rparr>)
        }
        else freewalk_from pagetable (Suc i) s)"

definition freewalk :: "u64 \<Rightarrow> 'a kmem_scheme \<Rightarrow> 'a kmem_scheme option" where
  "freewalk pagetable s = freewalk_from pagetable 0 s"

definition uvmfree :: "u64 \<Rightarrow> u64 \<Rightarrow> 'a kmem_scheme \<Rightarrow> 'a kmem_scheme option" where
  "uvmfree pagetable sz s = do {
     s \<leftarrow> (if sz > 0 then uvmunmap pagetable 0 (PGROUNDUP sz div PGSIZE) True s else Some s);
     freewalk pagetable s
   }"

partial_function (option) uvmcopy_loop ::
    "u64 \<Rightarrow> u64 \<Rightarrow> u64 \<Rightarrow> u64 \<Rightarrow> 'a kmem_scheme \<Rightarrow> (int \<times> 'a kmem_scheme) option" where
  "uvmcopy_loop old new i sz s =
     (if \<not> i < sz then Some (0, s)
      else do {
        (pte, s) \<leftarrow> walk old i False s;
        if pte = 0 then uvmcopy_loop old new (i + PGSIZE) sz s
        else let e = ld64 (mem s) pte in
          if e AND PTE_V = 0 then uvmcopy_loop old new (i + PGSIZE) sz s
          else case kalloc s of (p, s) \<Rightarrow>
            if p = 0 then do {
              s \<leftarrow> uvmunmap new 0 (i div PGSIZE) True s;
              Some (-1, s)
            }
            else do {
              let s = s\<lparr>mem := memmove p (PTE2PA e) 4096 (mem s)\<rparr>;
              (r, s) \<leftarrow> mappages new i PGSIZE p (PTE_FLAGS e) s;
              if r \<noteq> 0 then do {
                s \<leftarrow> kfree p s;
                s \<leftarrow> uvmunmap new 0 (i div PGSIZE) True s;
                Some (-1, s)
              }
              else uvmcopy_loop old new (i + PGSIZE) sz s
            }
      })"

definition uvmcopy ::
    "u64 \<Rightarrow> u64 \<Rightarrow> u64 \<Rightarrow> 'a kmem_scheme \<Rightarrow> (int \<times> 'a kmem_scheme) option" where
  "uvmcopy old new sz s = uvmcopy_loop old new 0 sz s"

definition uvmclear :: "u64 \<Rightarrow> u64 \<Rightarrow> 'a kmem_scheme \<Rightarrow> 'a kmem_scheme option" where
  "uvmclear pagetable va s = do {
     (pte, s) \<leftarrow> walk pagetable va False s;
     if pte = 0 then None
     else Some (s\<lparr>mem := st64 pte (ld64 (mem s) pte AND NOT PTE_U) (mem s)\<rparr>)
   }"

definition ismapped :: "u64 \<Rightarrow> u64 \<Rightarrow> 'a kmem_scheme \<Rightarrow> bool option" where
  "ismapped pagetable va s = do {
     (pte, s) \<leftarrow> walk pagetable va False s;
     if pte = 0 then Some False
     else Some (ld64 (mem s) pte AND PTE_V \<noteq> 0)
   }"

end
