(* ===== verification/PageTableInv.thy ===== *)
theory PageTableInv
  imports PageTable
begin

section \<open>What page tables mean: translation, well-formedness, and walk\<close>

text \<open>
  \<open>tbl1\<close> and \<open>tbl0\<close> follow the valid entries of the two upper levels, \<open>leaf\<close> is the
  leaf entry of an address (0 when its table does not exist): together the
  address-space meaning of the bytes.  \<open>pt_wf\<close> says the tables reachable from a root
  form a tree of distinct frames; \<open>vm_inv\<close> adds that none of them is free.
  Everything else in memory may change without touching the translation.
\<close>

definition pte_at :: "memory \<Rightarrow> u64 \<Rightarrow> nat \<Rightarrow> u64 \<Rightarrow> u64" where
  "pte_at m pt level va = ld64 m (pte_addr pt level va)"

definition next_tbl :: "memory \<Rightarrow> u64 \<Rightarrow> nat \<Rightarrow> u64 \<Rightarrow> u64 option" where
  "next_tbl m pt level va =
     (if pte_at m pt level va AND PTE_V \<noteq> 0 then Some (PTE2PA (pte_at m pt level va)) else None)"

definition tbl1 :: "memory \<Rightarrow> u64 \<Rightarrow> u64 \<Rightarrow> u64 option" where
  "tbl1 m pt va = next_tbl m pt 2 va"

definition tbl0 :: "memory \<Rightarrow> u64 \<Rightarrow> u64 \<Rightarrow> u64 option" where
  "tbl0 m pt va = Option.bind (tbl1 m pt va) (\<lambda>t. next_tbl m t 1 va)"

definition leaf :: "memory \<Rightarrow> u64 \<Rightarrow> u64 \<Rightarrow> u64" where
  "leaf m pt va = (case tbl0 m pt va of None \<Rightarrow> 0 | Some t \<Rightarrow> pte_at m t 0 va)"

definition tables :: "memory \<Rightarrow> u64 \<Rightarrow> u64 set" where
  "tables m pt = {pt} \<union> {t. \<exists>va. tbl1 m pt va = Some t} \<union> {t. \<exists>va. tbl0 m pt va = Some t}"

definition pt_tree :: "memory \<Rightarrow> u64 \<Rightarrow> bool" where
  "pt_tree m pt \<longleftrightarrow>
     (\<forall>va. tbl1 m pt va \<noteq> Some pt) \<and> (\<forall>va. tbl0 m pt va \<noteq> Some pt) \<and>
     (\<forall>va va' t. tbl1 m pt va = Some t \<and> tbl1 m pt va' = Some t \<longrightarrow> PX 2 va = PX 2 va') \<and>
     (\<forall>va va' t. tbl1 m pt va = Some t \<longrightarrow> tbl0 m pt va' \<noteq> Some t) \<and>
     (\<forall>va va' t. tbl0 m pt va = Some t \<and> tbl0 m pt va' = Some t \<longrightarrow>
        PX 2 va = PX 2 va' \<and> PX 1 va = PX 1 va')"

definition pt_wf :: "'a kmem_scheme \<Rightarrow> u64 \<Rightarrow> bool" where
  "pt_wf s pt \<longleftrightarrow> pt_tree (mem s) pt \<and> (\<forall>t\<in>tables (mem s) pt. frame_ok s t)"

definition vm_inv :: "'a kmem_scheme \<Rightarrow> u64 \<Rightarrow> u64 list \<Rightarrow> bool" where
  "vm_inv s pt ps \<longleftrightarrow> free_pages s ps \<and> pt_wf s pt \<and> tables (mem s) pt \<inter> set ps = {}"

subsection \<open>Cells and pages\<close>

lemma pte_cell_byte:
  assumes "page_aligned pt" "i < 8"
  shows "PGROUNDDOWN (pte_addr pt level va + of_nat i) = pt"
proof -
  have b: "unat (8 * PX level va) = 8 * unat (PX level va)" "unat (PX level va) < 512"
    by (simp_all add: unat_PX8 unat_PX_less)
  have "unat (8 * PX level va + of_nat i) < 4096"
    using b assms(2) by (simp add: unat_plus_if' unat_of_nat)
  then show ?thesis
    using assms(1) by (simp add: pte_addr_def add.assoc PGROUNDDOWN_add)
qed

lemma ld64_pte_cong:
  assumes "page_aligned pt" "\<And>a. PGROUNDDOWN a = pt \<Longrightarrow> m a = m' a"
  shows "ld64 m (pte_addr pt level va) = ld64 m' (pte_addr pt level va)"
  by (rule ld64_cong) (simp add: assms pte_cell_byte)

lemma st64_pte_other:
  assumes "page_aligned pt" "PGROUNDDOWN a \<noteq> pt"
  shows "st64 (pte_addr pt level va) v m a = m a"
  using pte_cell_byte [OF assms(1)] assms(2) by (intro st64_other) auto

lemma pte_at_st64:
  assumes "page_aligned pt" "page_aligned pt'"
  shows "pte_at (st64 (pte_addr pt level va) v m) pt' level' va' =
    (if pt' = pt \<and> PX level' va' = PX level va then v else pte_at m pt' level' va')"
proof (cases "pt' = pt \<and> PX level' va' = PX level va")
  case True
  then have "pte_addr pt' level' va' = pte_addr pt level va" by (simp add: pte_addr_def)
  then show ?thesis using True by (simp add: pte_at_def)
next
  case False
  then have "pte_addr pt level va \<noteq> pte_addr pt' level' va'"
    using assms by (auto simp: pte_addr_eq_iff)
  then have "pte_at (st64 (pte_addr pt level va) v m) pt' level' va' = pte_at m pt' level' va'"
    unfolding pte_at_def by (intro ld64_st64_other pte_addr_cell assms)
  then show ?thesis by (simp only: if_not_P [OF False])
qed

lemma pte_at_cong:
  "page_aligned pt \<Longrightarrow> (\<And>a. PGROUNDDOWN a = pt \<Longrightarrow> m a = m' a) \<Longrightarrow>
    pte_at m pt level va = pte_at m' pt level va"
  unfolding pte_at_def by (rule ld64_pte_cong)

lemma pte_at_zero:
  assumes "page_aligned pt" "\<And>a. PGROUNDDOWN a = pt \<Longrightarrow> m a = 0"
  shows "pte_at m pt level va = 0"
proof -
  have "ld64 m (pte_addr pt level va) = ld64 (\<lambda>_. 0) (pte_addr pt level va)"
    by (rule ld64_pte_cong [OF assms(1)], rule assms(2))
  also have "\<dots> = 0" by (rule ld64_zero)
  finally show ?thesis by (simp only: pte_at_def)
qed

text \<open>An address enters \<open>tbl1\<close>, \<open>tbl0\<close> and \<open>leaf\<close> only through its indices.\<close>

lemma next_tbl_PX: "PX level va = PX level va' \<Longrightarrow> next_tbl m pt level va = next_tbl m pt level va'"
  by (simp add: next_tbl_def pte_at_def pte_addr_def)

lemma tbl1_PX: "PX 2 va = PX 2 va' \<Longrightarrow> tbl1 m pt va = tbl1 m pt va'"
  unfolding tbl1_def by (rule next_tbl_PX)

lemma tbl0_PX: "PX 2 va = PX 2 va' \<Longrightarrow> PX 1 va = PX 1 va' \<Longrightarrow> tbl0 m pt va = tbl0 m pt va'"
  using next_tbl_PX [of 1 va va'] tbl1_PX [of va va'] by (simp add: tbl0_def)

lemma tables_root [simp]: "pt \<in> tables m pt"
  by (simp add: tables_def)

lemma tables_tbl1: "tbl1 m pt va = Some t \<Longrightarrow> t \<in> tables m pt"
  by (auto simp: tables_def)

lemma tables_tbl0: "tbl0 m pt va = Some t \<Longrightarrow> t \<in> tables m pt"
  by (auto simp: tables_def)

subsection \<open>Changes outside the tables\<close>

lemma tables_frame:
  assumes "\<forall>t\<in>tables m pt. page_aligned t"
    and "\<forall>a. PGROUNDDOWN a \<in> tables m pt \<longrightarrow> m' a = m a"
  shows "tbl1 m' pt va = tbl1 m pt va" "tbl0 m' pt va = tbl0 m pt va"
    "leaf m' pt va = leaf m pt va"
proof -
  have e: "pte_at m' t l va = pte_at m t l va" if "t \<in> tables m pt" for t l va
    using assms that by (intro pte_at_cong) auto
  have 1: "tbl1 m' pt va = tbl1 m pt va" for va
    using e [of pt] by (simp add: tbl1_def next_tbl_def)
  have 0: "tbl0 m' pt va = tbl0 m pt va" for va
    using e [OF tables_tbl1] by (cases "tbl1 m pt va") (auto simp: tbl0_def 1 next_tbl_def)
  show "tbl1 m' pt va = tbl1 m pt va" "tbl0 m' pt va = tbl0 m pt va"
    "leaf m' pt va = leaf m pt va"
    using 1 0 e [OF tables_tbl0] by (auto simp: leaf_def split: option.splits)
qed

lemma tables_frame_eq:
  assumes "\<forall>t\<in>tables m pt. page_aligned t"
    and "\<forall>a. PGROUNDDOWN a \<in> tables m pt \<longrightarrow> m' a = m a"
  shows "tables m' pt = tables m pt" "pt_tree m' pt = pt_tree m pt"
  using tables_frame [OF assms] by (simp_all add: tables_def pt_tree_def)

lemma pt_wf_aligned: "pt_wf s pt \<Longrightarrow> t \<in> tables (mem s) pt \<Longrightarrow> page_aligned t"
  by (auto simp: pt_wf_def)

subsection \<open>walk without allocation\<close>

lemma walk_lookup:
  "va < MAXVA \<Longrightarrow> walk pt va False s =
    Some (case tbl0 (mem s) pt va of None \<Rightarrow> 0 | Some t \<Rightarrow> pte_addr t 0 va, s)"
  by (simp add: walk_def numeral_2_eq_2 tbl0_def tbl1_def next_tbl_def pte_at_def pte_addr_def
      Let_def linorder_not_le)

lemma walk_panics: "MAXVA \<le> va \<Longrightarrow> walk pt va alloc s = None"
  by (simp add: walk_def)

lemma pte_addr_nonzero:
  assumes "pt_wf s pt" "0 < kend s" "t \<in> tables (mem s) pt"
  shows "pte_addr t level va \<noteq> 0"
proof
  assume "pte_addr t level va = 0"
  moreover have "page_aligned t" "t \<noteq> 0"
    using assms frame_ok_nonzero by (auto simp: pt_wf_def)
  moreover have "PGROUNDDOWN 0 = 0" by (simp add: PGROUNDDOWN_def)
  ultimately show False by (metis pte_addr_page)
qed

subsection \<open>Installing tables and leaves\<close>

definition same_vpn :: "u64 \<Rightarrow> u64 \<Rightarrow> bool" where
  "same_vpn va va' \<longleftrightarrow> PX 2 va = PX 2 va' \<and> PX 1 va = PX 1 va' \<and> PX 0 va = PX 0 va'"

lemma same_vpn_refl [simp]: "same_vpn va va"
  by (simp add: same_vpn_def)

lemma same_vpn_iff:
  "va < MAXVA \<Longrightarrow> va' < MAXVA \<Longrightarrow> page_aligned va \<Longrightarrow> page_aligned va' \<Longrightarrow>
    same_vpn va va' \<longleftrightarrow> va = va'"
  using PX_inject [of va va'] by (auto simp: same_vpn_def)

lemma leaf_vpn: "same_vpn va va' \<Longrightarrow> leaf m pt va = leaf m pt va'"
  using tbl0_PX [of va va' m pt]
  by (auto simp: same_vpn_def leaf_def pte_at_def pte_addr_def split: option.split)

lemma pt_tree_root_tbl1: "pt_tree m pt \<Longrightarrow> tbl1 m pt va \<noteq> Some pt"
  by (simp add: pt_tree_def)

lemma pt_tree_root_tbl0: "pt_tree m pt \<Longrightarrow> tbl0 m pt va \<noteq> Some pt"
  by (simp add: pt_tree_def)

lemma pt_tree_levels: "pt_tree m pt \<Longrightarrow> tbl1 m pt va = Some t \<Longrightarrow> tbl0 m pt va' \<noteq> Some t"
  by (auto simp: pt_tree_def)

lemma pt_tree_inj1:
  "pt_tree m pt \<Longrightarrow> tbl1 m pt va = Some t \<Longrightarrow> tbl1 m pt va' = Some t \<Longrightarrow> PX 2 va = PX 2 va'"
  unfolding pt_tree_def by blast

lemma pt_tree_inj0:
  "pt_tree m pt \<Longrightarrow> tbl0 m pt va = Some t \<Longrightarrow> tbl0 m pt va' = Some t \<Longrightarrow>
    PX 2 va = PX 2 va' \<and> PX 1 va = PX 1 va'"
  unfolding pt_tree_def by blast

lemmas pt_tree_facts = pt_tree_root_tbl1 pt_tree_root_tbl0 pt_tree_levels

lemma set_leaf:
  assumes tree: "pt_tree m pt" and al: "\<forall>t\<in>tables m pt. page_aligned t"
    and t: "tbl0 m pt va = Some t" and m2: "m2 = st64 (pte_addr t 0 va) v m"
  shows "tbl1 m2 pt va' = tbl1 m pt va'" "tbl0 m2 pt va' = tbl0 m pt va'"
    "leaf m2 pt va' = (if same_vpn va' va then v else leaf m pt va')"
proof -
  have at: "page_aligned t" using al tables_tbl0 [OF t] by blast
  have e: "pte_at m2 u l x = (if u = t \<and> PX l x = PX 0 va then v else pte_at m u l x)"
    if "u \<in> tables m pt" for u l x
    using pte_at_st64 [OF at bspec [OF al that]] by (simp add: m2)
  have r: "pt \<noteq> t" using pt_tree_root_tbl0 [OF tree] t by auto
  have 1: "tbl1 m2 pt x = tbl1 m pt x" for x
    using e [of pt] r by (simp add: tbl1_def next_tbl_def)
  have "u \<noteq> t" if "tbl1 m pt x = Some u" for u x
    using pt_tree_levels [OF tree that] t by auto
  then have 0: "tbl0 m2 pt x = tbl0 m pt x" for x
    using e [OF tables_tbl1] by (cases "tbl1 m pt x") (auto simp: tbl0_def 1 next_tbl_def)
  show "tbl1 m2 pt va' = tbl1 m pt va'" "tbl0 m2 pt va' = tbl0 m pt va'" by (fact 1 0)+
  show "leaf m2 pt va' = (if same_vpn va' va then v else leaf m pt va')"
  proof (cases "tbl0 m pt va'")
    case None
    then have "\<not> same_vpn va' va" using t tbl0_PX [of va' va] by (auto simp: same_vpn_def)
    then show ?thesis using None by (simp add: leaf_def 0)
  next
    case (Some u)
    have "u = t \<longleftrightarrow> PX 2 va' = PX 2 va \<and> PX 1 va' = PX 1 va"
    proof
      assume "u = t"
      with Some have "tbl0 m pt va' = Some t" by simp
      from pt_tree_inj0 [OF tree this t] show "PX 2 va' = PX 2 va \<and> PX 1 va' = PX 1 va" .
    next
      assume "PX 2 va' = PX 2 va \<and> PX 1 va' = PX 1 va"
      then show "u = t" using tbl0_PX [of va' va m pt] Some t by simp
    qed
    then show ?thesis
      using Some e [OF tables_tbl0 [OF Some], of 0 va'] by (auto simp: leaf_def 0 same_vpn_def)
  qed
qed

lemma install_tbl1:
  assumes tree: "pt_tree m pt" and al: "\<forall>t\<in>tables m pt. page_aligned t"
    and None: "tbl1 m pt va = None"
    and p: "page_aligned p" "p \<notin> tables m pt" "PTE2PA e = p" "e AND PTE_V \<noteq> 0"
    and m1: "m1 = (\<lambda>a. if PGROUNDDOWN a = p then 0 else m a)"
    and m2: "m2 = st64 (pte_addr pt 2 va) e m1"
  shows "tbl1 m2 pt va' = (if PX 2 va' = PX 2 va then Some p else tbl1 m pt va')"
    "tbl0 m2 pt va' = tbl0 m pt va'" "leaf m2 pt va' = leaf m pt va'"
proof -
  have apt: "page_aligned pt" using al by simp
  have keep: "pte_at m1 u l x = pte_at m u l x" if "u \<in> tables m pt" for u l x
    using that p(2) al by (intro pte_at_cong) (auto simp: m1)
  have e: "pte_at m2 u l x = (if u = pt \<and> PX l x = PX 2 va then e else pte_at m u l x)"
    if "u \<in> tables m pt" for u l x
    using pte_at_st64 [OF apt bspec [OF al that]] keep [OF that] by (simp add: m2)
  have ep: "pte_at m2 p l x = 0" for l x
    using pte_at_st64 [OF apt p(1)] pte_at_zero [OF p(1), of m1] p(2) by (auto simp: m2 m1)
  have 1: "tbl1 m2 pt x = (if PX 2 x = PX 2 va then Some p else tbl1 m pt x)" for x
    using e [of pt] p(3,4) by (simp add: tbl1_def next_tbl_def)
  have non: "tbl1 m pt x = None" if "PX 2 x = PX 2 va" for x
    using tbl1_PX [OF that] None by simp
  have 0: "tbl0 m2 pt x = tbl0 m pt x" for x
  proof (cases "tbl1 m pt x")
    case None
    then show ?thesis using ep non by (auto simp: tbl0_def 1 next_tbl_def)
  next
    case (Some u)
    then have "PX 2 x \<noteq> PX 2 va" "u \<noteq> pt" using non pt_tree_root_tbl1 [OF tree] by auto
    then show ?thesis using Some e [OF tables_tbl1 [OF Some]] by (simp add: tbl0_def 1 next_tbl_def)
  qed
  show "tbl1 m2 pt va' = (if PX 2 va' = PX 2 va then Some p else tbl1 m pt va')"
    "tbl0 m2 pt va' = tbl0 m pt va'" by (fact 1 0)+
  show "leaf m2 pt va' = leaf m pt va'"
  proof (cases "tbl0 m pt va'")
    case (Some u)
    then have "u \<noteq> pt" using pt_tree_root_tbl0 [OF tree] by auto
    then show ?thesis using Some e [OF tables_tbl0 [OF Some]] by (simp add: leaf_def 0)
  qed (simp add: leaf_def 0)
qed

lemma install_tbl0:
  assumes tree: "pt_tree m pt" and al: "\<forall>t\<in>tables m pt. page_aligned t"
    and t1: "tbl1 m pt va = Some t1" and None: "tbl0 m pt va = None"
    and p: "page_aligned p" "p \<notin> tables m pt" "PTE2PA e = p" "e AND PTE_V \<noteq> 0"
    and m1: "m1 = (\<lambda>a. if PGROUNDDOWN a = p then 0 else m a)"
    and m2: "m2 = st64 (pte_addr t1 1 va) e m1"
  shows "tbl1 m2 pt va' = tbl1 m pt va'"
    "tbl0 m2 pt va' = (if PX 2 va' = PX 2 va \<and> PX 1 va' = PX 1 va then Some p else tbl0 m pt va')"
    "leaf m2 pt va' = leaf m pt va'"
proof -
  have at: "page_aligned t1" using al tables_tbl1 [OF t1] by blast
  have keep: "pte_at m1 u l x = pte_at m u l x" if "u \<in> tables m pt" for u l x
    using that p(2) al by (intro pte_at_cong) (auto simp: m1)
  have e: "pte_at m2 u l x = (if u = t1 \<and> PX l x = PX 1 va then e else pte_at m u l x)"
    if "u \<in> tables m pt" for u l x
    using pte_at_st64 [OF at bspec [OF al that]] keep [OF that] by (simp add: m2)
  have pt1: "t1 \<noteq> p" using tables_tbl1 [OF t1] p(2) by auto
  have ep: "pte_at m2 p l x = 0" for l x
    using pte_at_st64 [OF at p(1)] pte_at_zero [OF p(1), of m1] pt1 by (auto simp: m2 m1)
  have 1: "tbl1 m2 pt x = tbl1 m pt x" for x
    using e [of pt] pt_tree_root_tbl1 [OF tree, of va] t1 by (auto simp: tbl1_def next_tbl_def)
  have 0: "tbl0 m2 pt x = (if PX 2 x = PX 2 va \<and> PX 1 x = PX 1 va then Some p else tbl0 m pt x)" for x
  proof (cases "tbl1 m pt x")
    case None
    then have "PX 2 x \<noteq> PX 2 va" using tbl1_PX [of x va] t1 by auto
    then show ?thesis using None by (simp add: tbl0_def 1)
  next
    case (Some u)
    have "u = t1 \<longleftrightarrow> PX 2 x = PX 2 va"
    proof
      assume "u = t1"
      with Some have "tbl1 m pt x = Some t1" by simp
      from pt_tree_inj1 [OF tree this t1] show "PX 2 x = PX 2 va" .
    next
      assume "PX 2 x = PX 2 va"
      then show "u = t1" using tbl1_PX [of x va m pt] Some t1 by simp
    qed
    then show ?thesis
      using Some e [OF tables_tbl1 [OF Some], of 1 x] p(3,4) by (simp add: tbl0_def 1 next_tbl_def)
  qed
  show "tbl1 m2 pt va' = tbl1 m pt va'"
    "tbl0 m2 pt va' = (if PX 2 va' = PX 2 va \<and> PX 1 va' = PX 1 va then Some p else tbl0 m pt va')"
    by (fact 1 0)+
  show "leaf m2 pt va' = leaf m pt va'"
  proof (cases "tbl0 m pt va'")
    case None
    then show ?thesis using ep by (simp add: leaf_def 0)
  next
    case (Some u)
    then have "\<not> (PX 2 va' = PX 2 va \<and> PX 1 va' = PX 1 va)"
      using tbl0_PX [of va' va m pt] assms(4) by auto
    moreover have "u \<noteq> t1" using pt_tree_levels [OF tree t1, of va'] Some by auto
    ultimately show ?thesis using Some e [OF tables_tbl0 [OF Some]] by (auto simp: leaf_def 0)
  qed
qed

text \<open>All three keep the tree; the two installations add exactly the new frame to it.\<close>

lemma set_leaf_tree:
  assumes "pt_tree m pt" "\<forall>t\<in>tables m pt. page_aligned t"
    and "tbl0 m pt va = Some t" "m2 = st64 (pte_addr t 0 va) v m"
  shows "pt_tree m2 pt" "tables m2 pt = tables m pt"
  using assms(1) unfolding pt_tree_def tables_def set_leaf(1) [OF assms] set_leaf(2) [OF assms]
  by auto

lemma install_tbl1_tree:
  assumes tree: "pt_tree m pt" and al: "\<forall>t\<in>tables m pt. page_aligned t"
    and None: "tbl1 m pt va = None"
    and p: "page_aligned p" "p \<notin> tables m pt" "PTE2PA e = p" "e AND PTE_V \<noteq> 0"
    and m1: "m1 = (\<lambda>a. if PGROUNDDOWN a = p then 0 else m a)"
    and m2: "m2 = st64 (pte_addr pt 2 va) e m1"
  shows "pt_tree m2 pt" "tables m2 pt = insert p (tables m pt)"
proof -
  note i = install_tbl1(1,2) [OF tree al None p m1 m2]
  have np: "p \<noteq> pt" "tbl1 m pt x \<noteq> Some p" "tbl0 m pt x \<noteq> Some p" for x
    using p(2) tables_tbl1 tables_tbl0 by auto
  have non: "tbl1 m pt x = None" if "PX 2 x = PX 2 va" for x
    using tbl1_PX [OF that] None by simp
  show "tables m2 pt = insert p (tables m pt)"
    unfolding tables_def i using non by (auto split: if_splits) force+
  show "pt_tree m2 pt"
    unfolding pt_tree_def i using tree np
    by (auto simp: pt_tree_facts split: if_splits dest: pt_tree_inj1 pt_tree_inj0)
qed

lemma install_tbl0_tree:
  assumes tree: "pt_tree m pt" and al: "\<forall>t\<in>tables m pt. page_aligned t"
    and t1: "tbl1 m pt va = Some t1" and None: "tbl0 m pt va = None"
    and p: "page_aligned p" "p \<notin> tables m pt" "PTE2PA e = p" "e AND PTE_V \<noteq> 0"
    and m1: "m1 = (\<lambda>a. if PGROUNDDOWN a = p then 0 else m a)"
    and m2: "m2 = st64 (pte_addr t1 1 va) e m1"
  shows "pt_tree m2 pt" "tables m2 pt = insert p (tables m pt)"
proof -
  note i = install_tbl0(1,2) [OF tree al t1 None p m1 m2]
  have np: "p \<noteq> pt" "tbl1 m pt x \<noteq> Some p" "tbl0 m pt x \<noteq> Some p" for x
    using p(2) tables_tbl1 tables_tbl0 by auto
  have non: "tbl0 m pt x = None" if "PX 2 x = PX 2 va" "PX 1 x = PX 1 va" for x
    using tbl0_PX [OF that] None by simp
  show "tables m2 pt = insert p (tables m pt)"
    unfolding tables_def i using non by (auto split: if_splits) force+
  show "pt_tree m2 pt"
    unfolding pt_tree_def i using tree np
    by (auto simp: pt_tree_facts split: if_splits dest: pt_tree_inj1 pt_tree_inj0)
qed

subsection \<open>walk with allocation\<close>

text \<open>
  \<open>touches s pt ps s' ps'\<close>: the table may have taken frames off the free list \<open>ps\<close>,
  no byte outside the table's old and new pages has changed, and the invariant still
  holds.  \<open>grows\<close> adds that no translation has changed either.
\<close>

definition touches :: "'a kmem_scheme \<Rightarrow> u64 \<Rightarrow> u64 list \<Rightarrow> 'a kmem_scheme \<Rightarrow> u64 list \<Rightarrow> bool" where
  "touches s pt ps s' ps' \<longleftrightarrow> vm_inv s' pt ps' \<and> kend s' = kend s \<and> kmem.more s' = kmem.more s \<and>
     (\<exists>new. ps = new @ ps' \<and> tables (mem s') pt = tables (mem s) pt \<union> set new \<and>
       (\<forall>a. PGROUNDDOWN a \<notin> tables (mem s) pt \<union> set new \<longrightarrow> mem s' a = mem s a))"

definition grows :: "'a kmem_scheme \<Rightarrow> u64 \<Rightarrow> u64 list \<Rightarrow> 'a kmem_scheme \<Rightarrow> u64 list \<Rightarrow> bool" where
  "grows s pt ps s' ps' \<longleftrightarrow> touches s pt ps s' ps' \<and>
     (\<forall>va. leaf (mem s') pt va = leaf (mem s) pt va)"

lemma touches_refl: "vm_inv s pt ps \<Longrightarrow> touches s pt ps s ps"
  unfolding touches_def by auto

lemma touches_inv: "touches s pt ps s' ps' \<Longrightarrow> vm_inv s' pt ps'"
  by (simp add: touches_def)

lemma grows_inv: "grows s pt ps s' ps' \<Longrightarrow> vm_inv s' pt ps'"
  by (simp add: grows_def touches_def)

lemma grows_refl: "vm_inv s pt ps \<Longrightarrow> grows s pt ps s ps"
  by (simp add: grows_def touches_refl)

lemma touches_trans:
  assumes "touches s pt ps s' ps'" "touches s' pt ps' s'' ps''"
  shows "touches s pt ps s'' ps''"
proof -
  obtain n1 where n1: "ps = n1 @ ps'" "tables (mem s') pt = tables (mem s) pt \<union> set n1"
      "\<forall>a. PGROUNDDOWN a \<notin> tables (mem s) pt \<union> set n1 \<longrightarrow> mem s' a = mem s a"
    using assms(1) unfolding touches_def by blast
  obtain n2 where n2: "ps' = n2 @ ps''" "tables (mem s'') pt = tables (mem s') pt \<union> set n2"
      "\<forall>a. PGROUNDDOWN a \<notin> tables (mem s') pt \<union> set n2 \<longrightarrow> mem s'' a = mem s' a"
    using assms(2) unfolding touches_def by blast
  have "ps = (n1 @ n2) @ ps''" using n1 n2 by simp
  moreover have "tables (mem s'') pt = tables (mem s) pt \<union> set (n1 @ n2)" using n1 n2 by auto
  moreover have "\<forall>a. PGROUNDDOWN a \<notin> tables (mem s) pt \<union> set (n1 @ n2) \<longrightarrow> mem s'' a = mem s a"
    using n1 n2 by simp
  ultimately show ?thesis using assms unfolding touches_def by metis
qed

lemma grows_trans:
  "grows s pt ps s' ps' \<Longrightarrow> grows s' pt ps' s'' ps'' \<Longrightarrow> grows s pt ps s'' ps''"
  unfolding grows_def using touches_trans by metis

lemma free_pages_frame:
  assumes "free_pages s ps" "freelist s' = freelist s" "kend s' = kend s"
    and "\<forall>a. PGROUNDDOWN a \<in> set ps \<longrightarrow> mem s' a = mem s a"
  shows "free_pages s' ps"
proof -
  have "linked (mem s') (freelist s) ps = linked (mem s) (freelist s) ps"
    by (rule linked_cong) (use assms in \<open>auto simp: free_pages_def\<close>)
  then show ?thesis using assms by (simp add: free_pages_def frame_ok_def)
qed

text \<open>The three statements of the loop body that make a new table page.\<close>

definition link_table :: "u64 \<Rightarrow> u64 \<Rightarrow> 'a kmem_scheme \<Rightarrow> 'a kmem_scheme" where
  "link_table pte p s = (let s = s\<lparr>mem := memset p 0 4096 (mem s)\<rparr>
     in s\<lparr>mem := st64 pte (PA2PTE p OR PTE_V) (mem s)\<rparr>)"

lemma table_entry:
  assumes "frame_ok s p"
  shows "PTE2PA (PA2PTE p OR PTE_V) = p" "(PA2PTE p OR PTE_V) AND PTE_V \<noteq> 0"
proof -
  have "PTE_V < 2 ^ 10" by (simp add: PTE_V_def word_less_nat_alt)
  then show "PTE2PA (PA2PTE p OR PTE_V) = p"
    by (intro PTE2PA_entry frame_ok_aligned [OF assms] frame_ok_less [OF assms])
  show "(PA2PTE p OR PTE_V) AND PTE_V \<noteq> 0"
    by (subst entry_and_low) (simp_all add: PTE_V_def word_less_nat_alt)
qed

lemma link_table_grows:
  assumes inv: "vm_inv s pt (p # ps)" and k: "kalloc s = (p', t)"
    and cell: "(c = pte_addr pt 2 va \<and> tbl1 (mem s) pt va = None) \<or>
      (\<exists>t1. c = pte_addr t1 1 va \<and> tbl1 (mem s) pt va = Some t1 \<and> tbl0 (mem s) pt va = None)"
  shows "p' = p \<and> p \<noteq> 0 \<and> grows s pt (p # ps) (link_table c p t) ps \<and>
    tbl1 (mem (link_table c p t)) pt va =
      (case tbl1 (mem s) pt va of None \<Rightarrow> Some p | Some t1 \<Rightarrow> Some t1) \<and>
    tbl0 (mem (link_table c p t)) pt va =
      (case tbl1 (mem s) pt va of None \<Rightarrow> None | Some t1 \<Rightarrow> Some p)"
proof -
  let ?m = "mem s" and ?s2 = "link_table c p t"
  have fp: "free_pages s (p # ps)" and wf: "pt_wf s pt"
    and dis: "tables ?m pt \<inter> set (p # ps) = {}"
    using inv by (auto simp: vm_inv_def)
  have ok: "frame_ok s p" "p \<notin> set ps" and p0: "p \<noteq> 0"
    using fp frame_ok_nonzero by (auto simp: free_pages_def)
  have t: "p' = p" "free_pages t ps" "kend t = kend s" "kmem.more t = kmem.more s"
      "mem t = (\<lambda>a. if PGROUNDDOWN a = p then 5 else mem s a)"
    using kalloc_frame [OF fp] k by auto
  define m1 where "m1 = (\<lambda>a. if PGROUNDDOWN a = p then 0 else ?m a)"
  have "memset p 0 4096 (mem t) = m1"
    using ok by (simp add: memset_page t(5) m1_def fun_eq_iff)
  then have m2: "mem ?s2 = st64 c (PA2PTE p OR PTE_V) m1"
    by (simp add: link_table_def Let_def)
  have fields: "kend ?s2 = kend s" "kmem.more ?s2 = kmem.more s" "freelist ?s2 = freelist t"
    by (simp_all add: link_table_def Let_def t)
  have tree: "pt_tree ?m pt" and al: "\<forall>t\<in>tables ?m pt. page_aligned t"
    using wf by (auto simp: pt_wf_def)
  have pa: "page_aligned p" "p \<notin> tables ?m pt" using ok dis by auto
  note ent = table_entry [OF ok(1)]
  have all: "pt_tree (mem ?s2) pt \<and> tables (mem ?s2) pt = insert p (tables ?m pt) \<and>
      (\<forall>va'. leaf (mem ?s2) pt va' = leaf ?m pt va') \<and>
      tbl1 (mem ?s2) pt va = (case tbl1 ?m pt va of None \<Rightarrow> Some p | Some t1 \<Rightarrow> Some t1) \<and>
      tbl0 (mem ?s2) pt va = (case tbl1 ?m pt va of None \<Rightarrow> None | Some t1 \<Rightarrow> Some p) \<and>
      (\<exists>u\<in>tables ?m pt. \<forall>a. PGROUNDDOWN a \<noteq> u \<longrightarrow> mem ?s2 a = m1 a)"
    using cell
  proof (elim disjE exE conjE)
    assume c: "c = pte_addr pt 2 va" and none: "tbl1 ?m pt va = None"
    have e: "mem ?s2 = st64 (pte_addr pt 2 va) (PA2PTE p OR PTE_V) m1" by (simp only: m2 c [symmetric])
    have "\<exists>u\<in>tables ?m pt. \<forall>a. PGROUNDDOWN a \<noteq> u \<longrightarrow> mem ?s2 a = m1 a"
      using al unfolding e by (intro bexI [of _ pt]) (auto intro: st64_pte_other)
    moreover have "tbl0 ?m pt va = None" using none by (simp add: tbl0_def)
    ultimately show ?thesis
      using install_tbl1_tree [OF tree al none pa ent m1_def e] none
      by (simp add: install_tbl1 [OF tree al none pa ent m1_def e])
  next
    fix t1 assume c: "c = pte_addr t1 1 va" and t1: "tbl1 ?m pt va = Some t1"
      and none: "tbl0 ?m pt va = None"
    have e: "mem ?s2 = st64 (pte_addr t1 1 va) (PA2PTE p OR PTE_V) m1" by (simp only: m2 c [symmetric])
    have "\<exists>u\<in>tables ?m pt. \<forall>a. PGROUNDDOWN a \<noteq> u \<longrightarrow> mem ?s2 a = m1 a"
      using al tables_tbl1 [OF t1] unfolding e
      by (intro bexI [of _ t1]) (auto intro: st64_pte_other)
    then show ?thesis
      using install_tbl0_tree [OF tree al t1 none pa ent m1_def e] t1
      by (simp add: install_tbl0 [OF tree al t1 none pa ent m1_def e])
  qed
  then have T: "pt_tree (mem ?s2) pt" "tables (mem ?s2) pt = insert p (tables ?m pt)"
    and L: "\<forall>va'. leaf (mem ?s2) pt va' = leaf ?m pt va'"
    and R: "tbl1 (mem ?s2) pt va = (case tbl1 ?m pt va of None \<Rightarrow> Some p | Some t1 \<Rightarrow> Some t1)"
      "tbl0 (mem ?s2) pt va = (case tbl1 ?m pt va of None \<Rightarrow> None | Some t1 \<Rightarrow> Some p)"
    and C: "\<exists>u\<in>tables ?m pt. \<forall>a. PGROUNDDOWN a \<noteq> u \<longrightarrow> mem ?s2 a = m1 a"
    by blast+
  have M: "mem ?s2 a = mem s a" if "PGROUNDDOWN a \<notin> insert p (tables ?m pt)" for a
  proof -
    obtain u where "u \<in> tables ?m pt" "\<forall>a. PGROUNDDOWN a \<noteq> u \<longrightarrow> mem ?s2 a = m1 a"
      using C by blast
    then have "mem ?s2 a = m1 a" using that by auto
    then show ?thesis using that by (simp add: m1_def)
  qed
  have "free_pages ?s2 ps"
    by (rule free_pages_frame [OF t(2) fields(3)])
      (use fields t(3,5) M ok(2) dis in auto)
  moreover have "pt_wf ?s2 pt"
    using wf ok T fields by (auto simp: pt_wf_def frame_ok_def)
  ultimately have "vm_inv ?s2 pt ps"
    using dis ok(2) T by (auto simp: vm_inv_def)
  then have "grows s pt (p # ps) ?s2 ps"
    unfolding grows_def touches_def using fields T(2) L M by (intro conjI exI [of _ "[p]"]) auto
  then show ?thesis using t(1) p0 R by blast
qed

lemma walk_loop_alloc:
  "walk_loop (Suc level) pt va True s =
     (case next_tbl (mem s) pt (Suc level) va of
        Some t \<Rightarrow> walk_loop level t va True s
      | None \<Rightarrow> (case kalloc s of (p, t) \<Rightarrow>
          if p = 0 then (0, t)
          else walk_loop level p va True (link_table (pte_addr pt (Suc level) va) p t)))"
  by (simp add: next_tbl_def pte_at_def pte_addr_def link_table_def Let_def split: prod.split)

declare walk_loop.simps(2) [simp del]

definition walked :: "'a kmem_scheme \<Rightarrow> u64 \<Rightarrow> u64 \<Rightarrow> u64 list \<Rightarrow> u64 \<times> 'a kmem_scheme \<Rightarrow> bool" where
  "walked s pt va ps r \<longleftrightarrow> (\<exists>ps'. grows s pt ps (snd r) ps' \<and>
     (if fst r = 0 then ps' = []
      else \<exists>t. tbl0 (mem (snd r)) pt va = Some t \<and> fst r = pte_addr t 0 va))"

lemma walked_leaf:
  assumes "vm_inv s pt ps" "tbl0 (mem s) pt va = Some t"
  shows "walked s pt va ps (walk_loop 0 t va True s)"
proof -
  have "pte_addr t 0 va \<noteq> 0"
    using assms by (intro pte_addr_nonzero [of s pt]) (auto simp: vm_inv_def free_pages_def tables_tbl0)
  then show ?thesis
    using assms grows_refl [OF assms(1)] by (auto simp: walked_def pte_addr_def)
qed

lemma walked_trans:
  "grows s pt ps s' ps' \<Longrightarrow> walked s' pt va ps' r \<Longrightarrow> walked s pt va ps r"
  unfolding walked_def using grows_trans by metis

lemma walked_level1:
  assumes inv: "vm_inv s pt ps" and t1: "tbl1 (mem s) pt va = Some t1"
  shows "walked s pt va ps (walk_loop (Suc 0) t1 va True s)"
proof (cases "tbl0 (mem s) pt va")
  case (Some t)
  then have "next_tbl (mem s) t1 (Suc 0) va = Some t" using t1 by (simp add: tbl0_def)
  then show ?thesis using walked_leaf [OF inv Some] by (simp add: walk_loop_alloc)
next
  case None
  then have n: "next_tbl (mem s) t1 (Suc 0) va = None" using t1 by (simp add: tbl0_def)
  show ?thesis
  proof (cases ps)
    case Nil
    then have "kalloc s = (0, s)" using inv kalloc_empty [of s] by (simp add: vm_inv_def)
    then show ?thesis
      using n grows_refl [OF inv] Nil by (simp add: walk_loop_alloc walked_def)
  next
    case (Cons p qs)
    obtain p' t where k: "kalloc s = (p', t)" by (cases "kalloc s")
    let ?s2 = "link_table (pte_addr t1 1 va) p t"
    have g: "p' = p \<and> p \<noteq> 0 \<and> grows s pt ps ?s2 qs \<and> tbl0 (mem ?s2) pt va = Some p"
      using link_table_grows [OF inv [unfolded Cons] k, of "pte_addr t1 1 va" va] t1 None Cons
      by simp
    then have "walked ?s2 pt va qs (walk_loop 0 p va True ?s2)"
      by (intro walked_leaf) (auto dest: grows_inv)
    then have "walked s pt va ps (walk_loop 0 p va True ?s2)"
      using g by (blast intro: walked_trans)
    then show ?thesis using n k g by (simp add: walk_loop_alloc)
  qed
qed

text \<open>
  \<open>walk\<close> with \<open>alloc\<close> returns the address of the leaf entry, or null when the frames
  have run out; on the way it changes no translation.
\<close>

lemma walk_alloc:
  assumes inv: "vm_inv s pt ps" and va: "va < MAXVA"
  shows "\<exists>r. walk pt va True s = Some r \<and> walked s pt va ps r"
proof -
  have "walked s pt va ps (walk_loop (Suc (Suc 0)) pt va True s)"
  proof (cases "tbl1 (mem s) pt va")
    case (Some t1)
    then show ?thesis using walked_level1 [OF inv Some]
      by (simp only: walk_loop_alloc tbl1_def numeral_2_eq_2 option.case)
  next
    case None
    then have n: "next_tbl (mem s) pt (Suc (Suc 0)) va = None"
      by (simp add: tbl1_def numeral_2_eq_2)
    show ?thesis
    proof (cases ps)
      case Nil
      then have "kalloc s = (0, s)" using inv kalloc_empty [of s] by (simp add: vm_inv_def)
      then show ?thesis
        using n grows_refl [OF inv] Nil
        by (simp add: walk_loop_alloc [of "Suc 0"] walked_def)
    next
      case (Cons p qs)
      obtain p' t where k: "kalloc s = (p', t)" by (cases "kalloc s")
      let ?s2 = "link_table (pte_addr pt (Suc (Suc 0)) va) p t"
      have g: "p' = p \<and> p \<noteq> 0 \<and> grows s pt ps ?s2 qs \<and> tbl1 (mem ?s2) pt va = Some p"
        using link_table_grows [OF inv [unfolded Cons] k, of "pte_addr pt 2 va" va] None Cons
        by (simp add: numeral_2_eq_2)
      then have "walked ?s2 pt va qs (walk_loop (Suc 0) p va True ?s2)"
        by (intro walked_level1) (auto dest: grows_inv)
      then have "walked s pt va ps (walk_loop (Suc 0) p va True ?s2)"
        using g by (blast intro: walked_trans)
      then show ?thesis using n k g by (simp only: walk_loop_alloc [of "Suc 0"]) simp
    qed
  qed
  moreover have "walk pt va True s = Some (walk_loop (Suc (Suc 0)) pt va True s)"
    using va by (simp add: walk_def numeral_2_eq_2 linorder_not_le)
  ultimately show ?thesis by blast
qed

end
