(* ===== verification/PageTableOps.thy ===== *)
theory PageTableOps
  imports PageTableInv
begin

section \<open>What the page-table operations do to an address space\<close>

text \<open>
  Each operation of vm.c on one page table, stated over \<open>leaf\<close>: \<open>mappages\<close> sets the
  leaves of a range, \<open>uvmunmap\<close> clears them and gives the frames back, \<open>uvmcreate\<close>
  starts an empty space.  \<open>touches\<close> bounds what else they change.
\<close>

subsection \<open>Storing a leaf\<close>

lemma leaf_ld: "tbl0 m pt va = Some t \<Longrightarrow> ld64 m (pte_addr t 0 va) = leaf m pt va"
  by (simp add: leaf_def pte_at_def)

lemma leaf_valid_tbl0: "leaf m pt va AND PTE_V \<noteq> 0 \<Longrightarrow> \<exists>t. tbl0 m pt va = Some t"
  by (auto simp: leaf_def split: option.splits)

lemma vm_inv_aligned: "vm_inv s pt ps \<Longrightarrow> \<forall>t\<in>tables (mem s) pt. page_aligned t"
  by (auto simp: vm_inv_def pt_wf_def)

lemma vm_inv_tree: "vm_inv s pt ps \<Longrightarrow> pt_tree (mem s) pt"
  by (simp add: vm_inv_def pt_wf_def)

lemma vm_inv_kend: "vm_inv s pt ps \<Longrightarrow> 0 < kend s"
  by (simp add: vm_inv_def free_pages_def)

lemma store_leaf:
  assumes inv: "vm_inv s pt ps" and t: "tbl0 (mem s) pt va = Some t"
    and s': "s' = s\<lparr>mem := st64 (pte_addr t 0 va) v (mem s)\<rparr>"
  shows "touches s pt ps s' ps"
    "leaf (mem s') pt x = (if same_vpn x va then v else leaf (mem s) pt x)"
    "tables (mem s') pt = tables (mem s) pt"
proof -
  have m2: "mem s' = st64 (pte_addr t 0 va) v (mem s)" by (simp add: s')
  note L = set_leaf [OF vm_inv_tree [OF inv] vm_inv_aligned [OF inv] t m2]
  note T = set_leaf_tree [OF vm_inv_tree [OF inv] vm_inv_aligned [OF inv] t m2]
  show "leaf (mem s') pt x = (if same_vpn x va then v else leaf (mem s) pt x)"
    "tables (mem s') pt = tables (mem s) pt" by (fact L(3) T(2))+
  have at: "page_aligned t" using vm_inv_aligned [OF inv] tables_tbl0 [OF t] by blast
  have M: "mem s' a = mem s a" if "PGROUNDDOWN a \<notin> tables (mem s) pt" for a
    unfolding m2 using that tables_tbl0 [OF t] by (intro st64_pte_other [OF at]) auto
  have "free_pages s' ps"
    by (rule free_pages_frame [of s]) (use inv M in \<open>auto simp: vm_inv_def s'\<close>)
  then have "vm_inv s' pt ps"
    using inv T by (auto simp: vm_inv_def pt_wf_def frame_ok_def s')
  then show "touches s pt ps s' ps"
    unfolding touches_def using T M by (intro conjI exI [of _ "[]"]) (auto simp: s')
qed

subsection \<open>walk, once more, by cases\<close>

lemma walk_alloc_cases:
  assumes "vm_inv s pt ps" "va < MAXVA"
  obtains (nomem) s' where "walk pt va True s = Some (0, s')" "grows s pt ps s' []"
    | (found) t s' ps' where "walk pt va True s = Some (pte_addr t 0 va, s')"
        "pte_addr t 0 va \<noteq> 0" "grows s pt ps s' ps'" "tbl0 (mem s') pt va = Some t"
proof -
  obtain r where r: "walk pt va True s = Some r" "walked s pt va ps r"
    using walk_alloc [OF assms] by blast
  then show ?thesis
    using nomem [of "snd r"] found by (cases r) (auto simp: walked_def split: if_splits)
qed

lemma walk_lookup_cases:
  assumes inv: "vm_inv s pt ps" and va: "va < MAXVA"
  obtains (none) "walk pt va False s = Some (0, s)" "leaf (mem s) pt va = 0"
    | (some) t where "walk pt va False s = Some (pte_addr t 0 va, s)" "pte_addr t 0 va \<noteq> 0"
        "tbl0 (mem s) pt va = Some t" "ld64 (mem s) (pte_addr t 0 va) = leaf (mem s) pt va"
proof (cases "tbl0 (mem s) pt va")
  case None
  then show ?thesis using none walk_lookup [OF va, of pt s] by (simp add: leaf_def)
next
  case (Some t)
  moreover have "pte_addr t 0 va \<noteq> 0"
    using inv Some by (intro pte_addr_nonzero [of s pt]) (auto simp: vm_inv_def free_pages_def tables_tbl0)
  ultimately show ?thesis using some walk_lookup [OF va, of pt s] by (simp add: leaf_ld)
qed

subsection \<open>mappages\<close>

definition leaf_entry :: "u64 \<Rightarrow> u64 \<Rightarrow> u64" where
  "leaf_entry pa perm = PA2PTE pa OR perm OR PTE_V"

lemma leaf_entry_valid: "leaf_entry pa perm AND PTE_V \<noteq> 0"
proof -
  have "bit (leaf_entry pa perm AND PTE_V) 0"
    by (simp add: leaf_entry_def PTE_V_def bit_simps)
  then show ?thesis by auto
qed

lemma leaf_entry_flags: "leaf_entry pa perm = PA2PTE pa OR (perm OR PTE_V)"
  by (simp add: leaf_entry_def or.assoc)

lemma mappages_loop_step:
  assumes inv: "vm_inv s pt ps" and va: "va < MAXVA" and free: "leaf (mem s) pt va AND PTE_V = 0"
  obtains (nomem) s' where "mappages_loop pt va last_a pa perm s = Some (-1, s')" "grows s pt ps s' []"
    | (mapped) s' ps' where
        "mappages_loop pt va last_a pa perm s = (if va = last_a then Some (0, s')
           else mappages_loop pt (va + PGSIZE) last_a (pa + PGSIZE) perm s')"
        "touches s pt ps s' ps'"
        "\<forall>x. leaf (mem s') pt x = (if same_vpn x va then leaf_entry pa perm else leaf (mem s) pt x)"
  using inv va
proof (cases rule: walk_alloc_cases)
  case (nomem s')
  then show ?thesis by (intro that(1) [of s']) (simp_all add: mappages_loop.simps [of pt va])
next
  case (found t s' ps')
  let ?s2 = "s'\<lparr>mem := st64 (pte_addr t 0 va) (leaf_entry pa perm) (mem s')\<rparr>"
  have "ld64 (mem s') (pte_addr t 0 va) AND PTE_V = 0"
    using found free by (simp add: leaf_ld grows_def)
  then have "mappages_loop pt va last_a pa perm s = (if va = last_a then Some (0, ?s2)
      else mappages_loop pt (va + PGSIZE) last_a (pa + PGSIZE) perm ?s2)"
    using found by (subst mappages_loop.simps) (simp add: leaf_entry_def Let_def)
  moreover note store_leaf [OF grows_inv [OF found(3)] found(4), of ?s2 "leaf_entry pa perm", OF refl]
  ultimately show ?thesis
    using found(3) touches_trans by (intro that(2) [of ?s2 ps']) (auto simp: grows_def)
qed

lemma mappages_remap:
  assumes inv: "vm_inv s pt ps" and va: "va < MAXVA" and used: "leaf (mem s) pt va AND PTE_V \<noteq> 0"
  shows "mappages_loop pt va last_a pa perm s = None"
  using inv va
proof (cases rule: walk_alloc_cases)
  case (nomem s')
  obtain t where "tbl0 (mem s) pt va = Some t" using leaf_valid_tbl0 [OF used] by blast
  then have t1: "next_tbl (mem s) pt 2 va \<noteq> None"
      "Option.bind (next_tbl (mem s) pt 2 va) (\<lambda>t. next_tbl (mem s) t 1 va) = Some t"
    by (auto simp: tbl0_def tbl1_def)
  then have "walk pt va True s = Some (pte_addr t 0 va, s)"
    using va by (auto simp: walk_def numeral_2_eq_2 walk_loop_alloc pte_addr_def linorder_not_le)
  moreover have "pte_addr t 0 va \<noteq> 0"
    using inv \<open>tbl0 (mem s) pt va = Some t\<close>
    by (intro pte_addr_nonzero [of s pt]) (auto simp: vm_inv_def free_pages_def tables_tbl0)
  ultimately show ?thesis using nomem(1) by simp
next
  case (found t s' ps')
  then show ?thesis using used by (simp add: mappages_loop.simps [of pt va] leaf_ld grows_def)
qed

text \<open>The pages of a range, and the leaves after the first \<open>n\<close> of them are mapped.\<close>

definition page_at :: "u64 \<Rightarrow> nat \<Rightarrow> u64" where
  "page_at va i = va + of_nat i * PGSIZE"

definition in_pages :: "u64 \<Rightarrow> u64 \<Rightarrow> nat \<Rightarrow> bool" where
  "in_pages x va n \<longleftrightarrow> (\<exists>i<n. same_vpn x (page_at va i))"

definition range_ok :: "u64 \<Rightarrow> nat \<Rightarrow> bool" where
  "range_ok va n \<longleftrightarrow> page_aligned va \<and> unat va + n * 4096 \<le> unat MAXVA"

lemma page_at_0 [simp]: "page_at va 0 = va"
  by (simp add: page_at_def)

lemma page_at_Suc: "page_at va (Suc i) = page_at (va + PGSIZE) i"
  by (simp add: page_at_def algebra_simps)

lemma page_at_add: "page_at (page_at va i) j = page_at va (i + j)"
  by (simp add: page_at_def algebra_simps)

lemma unat_page_at:
  assumes "range_ok va n" "i \<le> n"
  shows "unat (page_at va i) = unat va + i * 4096"
proof -
  have "unat va + i * 4096 < 2 ^ 64"
    using assms by (auto simp: range_ok_def unat_MAXVA)
  moreover have "page_at va i = of_nat (unat va + i * 4096)"
    by (simp add: page_at_def PGSIZE_def)
  ultimately show ?thesis by (simp only: unat_of_nat_u64)
qed

lemma page_at_less: "range_ok va n \<Longrightarrow> i < n \<Longrightarrow> page_at va i < MAXVA"
  by (auto simp: word_less_nat_alt unat_page_at range_ok_def)

lemma page_at_aligned:
  assumes "range_ok va n" "i \<le> n"
  shows "page_aligned (page_at va i)"
proof -
  obtain k where "unat va = 4096 * k" using assms(1) by (auto simp: range_ok_def page_aligned_unat)
  then show ?thesis using unat_page_at [OF assms] by (simp add: page_aligned_unat)
qed

lemma same_vpn_page_at:
  assumes "range_ok va n" "i < n" "j < n"
  shows "same_vpn (page_at va i) (page_at va j) \<longleftrightarrow> i = j"
proof -
  have "same_vpn (page_at va i) (page_at va j) \<longleftrightarrow> page_at va i = page_at va j"
    by (intro same_vpn_iff page_at_less page_at_aligned) (use assms in auto)
  also have "\<dots> \<longleftrightarrow> unat va + i * 4096 = unat va + j * 4096"
    using unat_page_at [OF assms(1), of i] unat_page_at [OF assms(1), of j] assms(2,3)
    by (simp only: word_unat_eq_iff less_imp_le)
  also have "\<dots> \<longleftrightarrow> i = j" by simp
  finally show ?thesis .
qed

lemma range_ok_next: "range_ok va (Suc n) \<Longrightarrow> range_ok (va + PGSIZE) n"
  using unat_page_at [of va "Suc n" 1] page_at_aligned [of va "Suc n" 1]
  by (simp add: range_ok_def page_at_def)

lemma range_ok_less: "range_ok va n \<Longrightarrow> k \<le> n \<Longrightarrow> range_ok va k"
  unfolding range_ok_def by (meson add_le_cancel_left le_trans mult_le_mono1)

lemma in_pages_0 [simp]: "\<not> in_pages x va 0"
  by (simp add: in_pages_def)

lemma in_pages_Suc: "in_pages x va (Suc n) \<longleftrightarrow> same_vpn x va \<or> in_pages x (va + PGSIZE) n"
  by (auto simp: in_pages_def page_at_Suc All_less_Suc2 Ex_less_Suc2)


fun mapped_range :: "nat \<Rightarrow> u64 \<Rightarrow> u64 \<Rightarrow> u64 \<Rightarrow> (u64 \<Rightarrow> u64) \<Rightarrow> u64 \<Rightarrow> u64" where
  "mapped_range 0 va pa perm L = L"
| "mapped_range (Suc n) va pa perm L = mapped_range n (va + PGSIZE) (pa + PGSIZE) perm
     (\<lambda>x. if same_vpn x va then leaf_entry pa perm else L x)"

lemma mapped_range_out: "\<not> in_pages x va n \<Longrightarrow> mapped_range n va pa perm L x = L x"
  by (induction n arbitrary: va pa L) (simp_all add: in_pages_Suc)

lemma same_vpn_sym: "same_vpn x y \<longleftrightarrow> same_vpn y x"
  by (auto simp: same_vpn_def)

lemma same_vpn_trans: "same_vpn x y \<Longrightarrow> same_vpn y z \<Longrightarrow> same_vpn x z"
  by (simp add: same_vpn_def)

lemma mapped_range_in:
  "range_ok va n \<Longrightarrow> i < n \<Longrightarrow> same_vpn x (page_at va i) \<Longrightarrow>
    mapped_range n va pa perm L x = leaf_entry (page_at pa i) perm"
proof (induction n arbitrary: va pa L i)
  case (Suc n)
  show ?case
  proof (cases i)
    case 0
    have "\<not> in_pages x (va + PGSIZE) n"
    proof
      assume "in_pages x (va + PGSIZE) n"
      then obtain j where "j < n" "same_vpn x (page_at va (Suc j))"
        by (auto simp: in_pages_def page_at_Suc)
      then have "same_vpn (page_at va 0) (page_at va (Suc j))"
        using Suc.prems(3) 0 same_vpn_trans same_vpn_sym by blast
      then show False using same_vpn_page_at [OF Suc.prems(1), of 0 "Suc j"] \<open>j < n\<close> by simp
    qed
    then show ?thesis using 0 Suc.prems(3) by (simp add: mapped_range_out)
  next
    case (Suc j)
    then show ?thesis
      using Suc.IH [OF range_ok_next [OF Suc.prems(1)], of j] Suc.prems by (simp add: page_at_Suc)
  qed
qed simp

text \<open>The loop of \<open>mappages\<close> maps all pages of the range, or stops early without memory.\<close>

lemma mappages_loop_spec:
  assumes "vm_inv s pt ps" "range_ok va (Suc n)"
    and "\<forall>i\<le>n. leaf (mem s) pt (page_at va i) AND PTE_V = 0"
  shows "\<exists>r s' ps' k. mappages_loop pt va (page_at va n) pa perm s = Some (r, s') \<and>
    touches s pt ps s' ps' \<and> leaf (mem s') pt = mapped_range k va pa perm (leaf (mem s) pt) \<and>
    (r = 0 \<and> k = Suc n \<or> r = -1 \<and> k \<le> n \<and> ps' = [])"
  using assms
proof (induction n arbitrary: s va pa ps)
  case 0
  have va: "va < MAXVA" using page_at_less [OF "0.prems"(2), of 0] by simp
  have free: "leaf (mem s) pt va AND PTE_V = 0" using "0.prems"(3) by simp
  show ?case
    using "0.prems"(1) va free
  proof (cases rule: mappages_loop_step [where last_a = "page_at va 0" and pa = pa and perm = perm])
    case (nomem s')
    then show ?thesis
      by (intro exI [of _ "-1"] exI [of _ s'] exI [of _ "[]"] exI [of _ 0])
        (auto simp: grows_def fun_eq_iff)
  next
    case (mapped s' ps')
    then show ?thesis
      by (intro exI [of _ 0] exI [of _ s'] exI [of _ ps'] exI [of _ "Suc 0"]) (auto simp: fun_eq_iff)
  qed
next
  case (Suc n)
  have va: "va < MAXVA" using page_at_less [OF Suc.prems(2), of 0] by simp
  have free: "leaf (mem s) pt va AND PTE_V = 0" using Suc.prems(3) by (metis page_at_0 zero_le)
  have neq: "va \<noteq> page_at va (Suc n)"
    using unat_page_at [OF Suc.prems(2), of "Suc n"] by auto
  show ?case
    using Suc.prems(1) va free
  proof (cases rule: mappages_loop_step [where last_a = "page_at va (Suc n)" and pa = pa and perm = perm])
    case (nomem s')
    then show ?thesis
      by (intro exI [of _ "-1"] exI [of _ s'] exI [of _ "[]"] exI [of _ 0])
        (auto simp: grows_def fun_eq_iff)
  next
    case (mapped t qs)
    have L: "leaf (mem t) pt = (\<lambda>x. if same_vpn x va then leaf_entry pa perm else leaf (mem s) pt x)"
      using mapped(3) by auto
    have "\<not> same_vpn (page_at (va + PGSIZE) i) va" if "i \<le> n" for i
      using same_vpn_page_at [OF Suc.prems(2), of "Suc i" 0] that by (simp add: page_at_Suc)
    then have "\<forall>i\<le>n. leaf (mem t) pt (page_at (va + PGSIZE) i) AND PTE_V = 0"
      using Suc.prems(3) by (auto simp: L page_at_Suc [symmetric])
    with Suc.IH [OF touches_inv [OF mapped(2)] range_ok_next [OF Suc.prems(2)], of "pa + PGSIZE"]
    obtain r s' ps' k where IH:
      "mappages_loop pt (va + PGSIZE) (page_at (va + PGSIZE) n) (pa + PGSIZE) perm t = Some (r, s')"
      "touches t pt qs s' ps'"
      "leaf (mem s') pt = mapped_range k (va + PGSIZE) (pa + PGSIZE) perm (leaf (mem t) pt)"
      "r = 0 \<and> k = Suc n \<or> r = -1 \<and> k \<le> n \<and> ps' = []" by blast
    have "mappages_loop pt va (page_at va (Suc n)) pa perm s = Some (r, s')"
      using mapped(1) IH(1) neq by (simp add: page_at_Suc)
    moreover have "leaf (mem s') pt = mapped_range (Suc k) va pa perm (leaf (mem s) pt)"
      using IH(3) L by simp
    ultimately show ?thesis using touches_trans [OF mapped(2) IH(2)] IH(4)
      by (intro exI [of _ r] exI [of _ s'] exI [of _ ps'] exI [of _ "Suc k"]) auto
  qed
qed


lemma range_last:
  assumes "range_ok va (Suc n)"
  shows "va + of_nat (Suc n) * PGSIZE - PGSIZE = page_at va n"
  by (simp add: page_at_def algebra_simps)

lemma range_size:
  assumes "range_ok va n" "0 < n"
  shows "of_nat n * PGSIZE mod PGSIZE = 0" "of_nat n * PGSIZE \<noteq> 0"
proof -
  have "n * 4096 < 2 ^ 64" using assms(1) by (simp add: range_ok_def unat_MAXVA)
  then have u: "unat (of_nat n * PGSIZE) = n * 4096"
    using unat_of_nat_u64 [of "n * 4096"] by (simp add: PGSIZE_def)
  show "of_nat n * PGSIZE mod PGSIZE = 0"
    by (simp add: word_unat_eq_iff unat_mod u) (simp add: PGSIZE_def)
  show "of_nat n * PGSIZE \<noteq> 0" using u assms(2) by (auto simp: word_unat_eq_iff)
qed

lemma mappages_spec:
  assumes "vm_inv s pt ps" "range_ok va n" "0 < n"
    and "\<forall>i<n. leaf (mem s) pt (page_at va i) AND PTE_V = 0"
  obtains r s' ps' k where "mappages pt va (of_nat n * PGSIZE) pa perm s = Some (r, s')"
    "touches s pt ps s' ps'" "leaf (mem s') pt = mapped_range k va pa perm (leaf (mem s) pt)"
    "r = 0 \<and> k = n \<or> r = -1 \<and> k < n \<and> ps' = []"
proof -
  obtain m where m: "n = Suc m" using assms(3) by (cases n) auto
  have "mappages pt va (of_nat n * PGSIZE) pa perm s = mappages_loop pt va (page_at va m) pa perm s"
    using range_size [OF assms(2,3)] range_last [OF assms(2) [unfolded m]] assms(2)
    by (simp add: mappages_def m range_ok_def page_aligned_def)
  moreover have "\<forall>i\<le>m. leaf (mem s) pt (page_at va i) AND PTE_V = 0"
    using assms(4) m by simp
  ultimately show ?thesis
    using that mappages_loop_spec [OF assms(1) assms(2) [unfolded m], of pa perm] m
    by (simp only: less_Suc_eq_le) metis
qed

lemma mappages_one:
  assumes "vm_inv s pt ps" "page_aligned va" "va < MAXVA" "leaf (mem s) pt va AND PTE_V = 0"
  obtains (nomem) s' where "mappages pt va PGSIZE pa perm s = Some (-1, s')" "grows s pt ps s' []"
    | (mapped) s' ps' where "mappages pt va PGSIZE pa perm s = Some (0, s')" "touches s pt ps s' ps'"
        "leaf (mem s') pt = (\<lambda>x. if same_vpn x va then leaf_entry pa perm else leaf (mem s) pt x)"
proof -
  have "mappages pt va PGSIZE pa perm s = mappages_loop pt va va pa perm s"
    using assms(2) by (simp add: mappages_def page_aligned_def) (simp add: PGSIZE_def)
  then show ?thesis using that
    by (cases rule: mappages_loop_step [OF assms(1,3,4), of va pa perm])
      (auto simp: fun_eq_iff)
qed

subsection \<open>The frames of an address space\<close>

text \<open>
  \<open>uframe\<close> is the frame a valid leaf points to; \<open>aspace\<close> adds to \<open>vm_inv\<close> that the
  user part of the space (below the trap pages) owns its frames: each is a real frame,
  neither free nor a table, and mapped at one page only.
\<close>

definition uframe :: "memory \<Rightarrow> u64 \<Rightarrow> u64 \<Rightarrow> u64 option" where
  "uframe m pt va = (if leaf m pt va AND PTE_V \<noteq> 0 then Some (PTE2PA (leaf m pt va)) else None)"

definition aspace :: "'a kmem_scheme \<Rightarrow> u64 \<Rightarrow> u64 list \<Rightarrow> bool" where
  "aspace s pt ps \<longleftrightarrow> vm_inv s pt ps \<and>
     (\<forall>va p. va < TRAPFRAME \<and> uframe (mem s) pt va = Some p \<longrightarrow>
        frame_ok s p \<and> p \<notin> set ps \<and> p \<notin> tables (mem s) pt) \<and>
     (\<forall>va va' p. va < TRAPFRAME \<and> va' < TRAPFRAME \<and>
        uframe (mem s) pt va = Some p \<and> uframe (mem s) pt va' = Some p \<longrightarrow> same_vpn va va')"

lemma aspace_inv: "aspace s pt ps \<Longrightarrow> vm_inv s pt ps"
  by (simp add: aspace_def)

lemma aspace_frame:
  "aspace s pt ps \<Longrightarrow> va < TRAPFRAME \<Longrightarrow> uframe (mem s) pt va = Some p \<Longrightarrow>
    frame_ok s p \<and> p \<notin> set ps \<and> p \<notin> tables (mem s) pt"
  unfolding aspace_def by blast

lemma aspace_inj:
  "aspace s pt ps \<Longrightarrow> va < TRAPFRAME \<Longrightarrow> va' < TRAPFRAME \<Longrightarrow>
    uframe (mem s) pt va = Some p \<Longrightarrow> uframe (mem s) pt va' = Some p \<Longrightarrow> same_vpn va va'"
  unfolding aspace_def by blast

lemma uframe_vpn: "same_vpn x y \<Longrightarrow> uframe m pt x = uframe m pt y"
  using leaf_vpn [of x y m pt] by (simp add: uframe_def)

lemma TRAPFRAME_MAXVA: "va < TRAPFRAME \<Longrightarrow> va < MAXVA"
proof -
  have "TRAPFRAME < MAXVA" by (simp add: layout_defs word_less_nat_alt)
  then show "va < TRAPFRAME \<Longrightarrow> va < MAXVA" by (rule less_trans [rotated])
qed

lemma touches_new:
  assumes "touches s pt ps s' ps'"
  obtains new where "ps = new @ ps'" "tables (mem s') pt = tables (mem s) pt \<union> set new"
    "\<And>a. PGROUNDDOWN a \<notin> tables (mem s) pt \<union> set new \<Longrightarrow> mem s' a = mem s a"
    "frame_ok s' = frame_ok s"
proof -
  have "frame_ok s' = frame_ok s" using assms by (simp add: touches_def frame_ok_def fun_eq_iff)
  then show ?thesis using assms that unfolding touches_def by blast
qed

lemma aspace_grows:
  assumes "aspace s pt ps" "touches s pt ps s' ps'"
    and L: "\<forall>va<TRAPFRAME. uframe (mem s') pt va = uframe (mem s) pt va"
  shows "aspace s' pt ps'"
proof -
  obtain new where n: "ps = new @ ps'" "tables (mem s') pt = tables (mem s) pt \<union> set new"
      "frame_ok s' = frame_ok s" using touches_new [OF assms(2)] .
  have "frame_ok s' p \<and> p \<notin> set ps' \<and> p \<notin> tables (mem s') pt"
    if "va < TRAPFRAME" "uframe (mem s') pt va = Some p" for va p
    using aspace_frame [OF assms(1) that(1), of p] that L n by auto
  moreover have "same_vpn va va'" if "va < TRAPFRAME" "va' < TRAPFRAME"
      "uframe (mem s') pt va = Some p" "uframe (mem s') pt va' = Some p" for va va' p
    using aspace_inj [OF assms(1)] that L by metis
  ultimately show ?thesis using touches_inv [OF assms(2)] unfolding aspace_def by blast
qed

text \<open>Mapping a frame the caller owns keeps the invariant.\<close>

lemma aspace_map:
  assumes as: "aspace s pt ps" and t: "touches s pt ps s' ps'" and va: "va < TRAPFRAME"
    and free: "uframe (mem s) pt va = None"
    and p: "frame_ok s p" "p \<notin> set ps" "p \<notin> tables (mem s) pt"
      "\<forall>x<TRAPFRAME. uframe (mem s) pt x \<noteq> Some p"
    and U: "\<forall>x. uframe (mem s') pt x = (if same_vpn x va then Some p else uframe (mem s) pt x)"
  shows "aspace s' pt ps'"
proof -
  obtain new where n: "ps = new @ ps'" "tables (mem s') pt = tables (mem s) pt \<union> set new"
      "frame_ok s' = frame_ok s" using touches_new [OF t] .
  have "frame_ok s' q \<and> q \<notin> set ps' \<and> q \<notin> tables (mem s') pt"
    if "x < TRAPFRAME" "uframe (mem s') pt x = Some q" for x q
  proof (cases "same_vpn x va")
    case True then show ?thesis using that U p n by auto
  next
    case False then show ?thesis using aspace_frame [OF as that(1), of q] that U n by auto
  qed
  moreover have "same_vpn x y" if "x < TRAPFRAME" "y < TRAPFRAME"
      "uframe (mem s') pt x = Some q" "uframe (mem s') pt y = Some q" for x y q
  proof (cases "same_vpn x va \<or> same_vpn y va")
    case True
    then have "q = p" using that U by auto
    then have "same_vpn x va \<and> same_vpn y va" using that U p(4) by (auto split: if_splits)
    then show ?thesis using same_vpn_sym same_vpn_trans by blast
  next
    case False
    then show ?thesis using aspace_inj [OF as that(1,2)] that(3,4) U by simp
  qed
  ultimately show ?thesis using touches_inv [OF t] unfolding aspace_def by blast
qed

lemma uframe_leaf_entry:
  assumes "frame_ok s p" "perm < 2 ^ 10"
  shows "PTE2PA (leaf_entry p perm) = p"
proof -
  have "perm OR PTE_V < 2 ^ 10"
  proof -
    have "\<not> bit (perm OR PTE_V) n" if "10 \<le> n" for n
      using bit_less_exp [OF assms(2), of n] that by (auto simp: PTE_V_def bit_simps)
    then have "take_bit 10 (perm OR PTE_V) = perm OR PTE_V"
      by (auto simp: bit_eq_iff bit_simps) (metis not_le)+
    then have "unat (perm OR PTE_V) < 2 ^ 10"
      by (metis take_bit_nat_less_exp unsigned_take_bit_eq)
    then show ?thesis by (simp add: word_less_nat_alt)
  qed
  then show ?thesis
    unfolding leaf_entry_flags
    by (intro PTE2PA_entry frame_ok_aligned [OF assms(1)] frame_ok_less [OF assms(1)])
qed


subsection \<open>uvmunmap\<close>

text \<open>
  \<open>releases s pt ps s' ps' F\<close>: the frames \<open>F\<close> have gone from the address space to the
  free list; the table pages are the same, and only they and free frames have changed.
\<close>

definition releases ::
    "'a kmem_scheme \<Rightarrow> u64 \<Rightarrow> u64 list \<Rightarrow> 'a kmem_scheme \<Rightarrow> u64 list \<Rightarrow> u64 set \<Rightarrow> bool" where
  "releases s pt ps s' ps' F \<longleftrightarrow> aspace s' pt ps' \<and> kend s' = kend s \<and> kmem.more s' = kmem.more s \<and>
     tables (mem s') pt = tables (mem s) pt \<and> set ps' = set ps \<union> F \<and>
     (\<forall>a. PGROUNDDOWN a \<notin> tables (mem s) pt \<union> F \<longrightarrow> mem s' a = mem s a)"

lemma releases_refl: "aspace s pt ps \<Longrightarrow> releases s pt ps s ps {}"
  by (simp add: releases_def)

lemma releases_trans:
  "releases s pt ps s' ps' F \<Longrightarrow> releases s' pt ps' s'' ps'' G \<Longrightarrow> releases s pt ps s'' ps'' (F \<union> G)"
  unfolding releases_def by (auto simp: Un_assoc)

lemma kfree_keeps_tables:
  assumes inv: "vm_inv s pt ps" and p: "frame_ok s p" "p \<notin> set ps" "p \<notin> tables (mem s) pt"
  obtains t where "kfree p s = Some t" "vm_inv t pt (p # ps)" "kend t = kend s"
    "kmem.more t = kmem.more s" "tables (mem t) pt = tables (mem s) pt"
    "\<And>x. tbl0 (mem t) pt x = tbl0 (mem s) pt x" "\<And>x. leaf (mem t) pt x = leaf (mem s) pt x"
    "\<And>a. PGROUNDDOWN a \<noteq> p \<Longrightarrow> mem t a = mem s a"
proof -
  have "free_pages s ps" using inv by (simp add: vm_inv_def)
  from kfree_frame [OF this p(1,2)] obtain t where t: "kfree p s = Some t"
      "free_pages t (p # ps)" "kend t = kend s" "kmem.more t = kmem.more s"
      "\<forall>a. PGROUNDDOWN a \<noteq> p \<longrightarrow> mem t a = mem s a" by blast
  have same: "\<forall>a. PGROUNDDOWN a \<in> tables (mem s) pt \<longrightarrow> mem t a = mem s a"
    using t(5) p(3) by auto
  note T = tables_frame [OF vm_inv_aligned [OF inv] same] tables_frame_eq [OF vm_inv_aligned [OF inv] same]
  have "vm_inv t pt (p # ps)"
    using inv t T p by (auto simp: vm_inv_def pt_wf_def frame_ok_def)
  then show ?thesis using that t T by blast
qed

lemma uvmunmap_step:
  assumes as: "aspace s pt ps" and a: "a < TRAPFRAME" "a < bound"
  shows "\<exists>s' ps'. uvmunmap_loop pt a bound True s = uvmunmap_loop pt (a + PGSIZE) bound True s' \<and>
    releases s pt ps s' ps' (set_option (uframe (mem s) pt a)) \<and>
    uframe (mem s') pt = (\<lambda>x. if same_vpn x a then None else uframe (mem s) pt x) \<and>
    (\<forall>x. \<not> same_vpn x a \<longrightarrow> leaf (mem s') pt x = leaf (mem s) pt x)"
  using aspace_inv [OF as] TRAPFRAME_MAXVA [OF a(1)]
proof (cases rule: walk_lookup_cases)
  case none
  then have u: "uframe (mem s) pt a = None" by (simp add: uframe_def)
  then have "uframe (mem s) pt x = None" if "same_vpn x a" for x
    using that uframe_vpn by metis
  then show ?thesis
    using none u a releases_refl [OF as]
    by (intro exI [of _ s] exI [of _ ps]) (auto simp: uvmunmap_loop.simps [of pt a] fun_eq_iff)
next
  case (some t)
  note inv = aspace_inv [OF as]
  show ?thesis
  proof (cases "leaf (mem s) pt a AND PTE_V = 0")
    case True
    then have u: "uframe (mem s) pt a = None" by (simp add: uframe_def)
    then have "uframe (mem s) pt x = None" if "same_vpn x a" for x
      using that uframe_vpn by metis
    then show ?thesis
      using some True u a releases_refl [OF as]
      by (intro exI [of _ s] exI [of _ ps])
        (auto simp: uvmunmap_loop.simps [of pt a] fun_eq_iff Let_def)
  next
    case False
    define p where "p = PTE2PA (leaf (mem s) pt a)"
    have u: "uframe (mem s) pt a = Some p" using False by (simp add: uframe_def p_def)
    note p = aspace_frame [OF as a(1) u]
    obtain s1 where s1: "kfree p s = Some s1" "vm_inv s1 pt (p # ps)" "kend s1 = kend s"
        "kmem.more s1 = kmem.more s" "tables (mem s1) pt = tables (mem s) pt"
        "\<And>x. tbl0 (mem s1) pt x = tbl0 (mem s) pt x" "\<And>x. leaf (mem s1) pt x = leaf (mem s) pt x"
        "\<And>b. PGROUNDDOWN b \<noteq> p \<Longrightarrow> mem s1 b = mem s b"
      using kfree_keeps_tables [OF inv] p by blast
    define s2 where "s2 = s1\<lparr>mem := st64 (pte_addr t 0 a) 0 (mem s1)\<rparr>"
    have t1: "tbl0 (mem s1) pt a = Some t" using some(3) s1(6) by simp
    note S = store_leaf [OF s1(2) t1 s2_def]
    have step: "uvmunmap_loop pt a bound True s = uvmunmap_loop pt (a + PGSIZE) bound True s2"
      using some False a s1(1)
      by (subst uvmunmap_loop.simps) (simp add: Let_def p_def s2_def)
    have L: "leaf (mem s2) pt x = (if same_vpn x a then 0 else leaf (mem s) pt x)" for x
      using S(2) s1(7) by simp
    then have U: "uframe (mem s2) pt = (\<lambda>x. if same_vpn x a then None else uframe (mem s) pt x)"
      by (auto simp: uframe_def fun_eq_iff)
    obtain new where new: "p # ps = new @ p # ps"
        "\<And>b. PGROUNDDOWN b \<notin> tables (mem s1) pt \<union> set new \<Longrightarrow> mem s2 b = mem s1 b"
      using touches_new [OF S(1)] by metis
    have M: "mem s2 b = mem s b" if "PGROUNDDOWN b \<notin> tables (mem s) pt \<union> {p}" for b
      using new s1(5,8) that by auto
    have k: "kend s2 = kend s" "kmem.more s2 = kmem.more s" by (simp_all add: s2_def s1)
    have "aspace s2 pt (p # ps)"
      unfolding aspace_def
    proof (intro conjI allI impI)
      show "vm_inv s2 pt (p # ps)" by (rule touches_inv [OF S(1)])
    next
      fix x q assume x: "x < TRAPFRAME \<and> uframe (mem s2) pt x = Some q"
      then have ux: "uframe (mem s) pt x = Some q" "\<not> same_vpn x a" by (auto simp: U split: if_splits)
      then have "q \<noteq> p" using aspace_inj [OF as _ a(1) _ u] x by blast
      then show "frame_ok s2 q" "q \<notin> set (p # ps)" "q \<notin> tables (mem s2) pt"
        using aspace_frame [OF as _ ux(1)] x S(3) s1(5) k by (auto simp: frame_ok_def)
    next
      fix x y q assume "x < TRAPFRAME \<and> y < TRAPFRAME \<and> uframe (mem s2) pt x = Some q \<and>
        uframe (mem s2) pt y = Some q"
      then show "same_vpn x y"
        using aspace_inj [OF as, of x y q] by (auto simp: U split: if_splits)
    qed
    then have "releases s pt ps s2 (p # ps) {p}"
      using k S(3) s1(5) M by (auto simp: releases_def)
    then show ?thesis
      using step U L u by (intro exI [of _ s2] exI [of _ "p # ps"]) auto
  qed
qed

definition frames_in :: "memory \<Rightarrow> u64 \<Rightarrow> u64 \<Rightarrow> nat \<Rightarrow> u64 set" where
  "frames_in m pt va n = (\<Union>i<n. set_option (uframe m pt (page_at va i)))"

lemma uvmunmap_loop_spec:
  assumes "aspace s pt ps" "range_ok va n" "page_at va n \<le> TRAPFRAME"
  shows "\<exists>s' ps'. uvmunmap_loop pt va (page_at va n) True s = Some s' \<and>
    releases s pt ps s' ps' (frames_in (mem s) pt va n) \<and>
    uframe (mem s') pt = (\<lambda>x. if in_pages x va n then None else uframe (mem s) pt x) \<and>
    (\<forall>x. \<not> in_pages x va n \<longrightarrow> leaf (mem s') pt x = leaf (mem s) pt x)"
  using assms
proof (induction n arbitrary: s va ps)
  case 0
  then show ?case using releases_refl [OF "0.prems"(1)]
    by (auto simp: uvmunmap_loop.simps frames_in_def)
next
  case (Suc n)
  have lt: "va < page_at va (Suc n)"
    using unat_page_at [OF Suc.prems(2), of "Suc n"] by (simp add: word_less_nat_alt)
  then have va: "va < TRAPFRAME" using Suc.prems(3) by (rule less_le_trans)
  obtain t qs where t: "uvmunmap_loop pt va (page_at va (Suc n)) True s =
        uvmunmap_loop pt (va + PGSIZE) (page_at va (Suc n)) True t"
      "releases s pt ps t qs (set_option (uframe (mem s) pt va))"
      "uframe (mem t) pt = (\<lambda>x. if same_vpn x va then None else uframe (mem s) pt x)"
      "\<forall>x. \<not> same_vpn x va \<longrightarrow> leaf (mem t) pt x = leaf (mem s) pt x"
    using uvmunmap_step [OF Suc.prems(1) va lt] by blast
  have "aspace t pt qs" using t(2) by (simp add: releases_def)
  from Suc.IH [OF this range_ok_next [OF Suc.prems(2)]] Suc.prems(3)
  obtain s' ps' where IH: "uvmunmap_loop pt (va + PGSIZE) (page_at va (Suc n)) True t = Some s'"
      "releases t pt qs s' ps' (frames_in (mem t) pt (va + PGSIZE) n)"
      "uframe (mem s') pt = (\<lambda>x. if in_pages x (va + PGSIZE) n then None else uframe (mem t) pt x)"
      "\<forall>x. \<not> in_pages x (va + PGSIZE) n \<longrightarrow> leaf (mem s') pt x = leaf (mem t) pt x"
    by (auto simp: page_at_Suc)
  have "uframe (mem t) pt (page_at (va + PGSIZE) i) = uframe (mem s) pt (page_at va (Suc i))"
    if "i < n" for i
    using same_vpn_page_at [OF Suc.prems(2), of "Suc i" 0] that t(3) by (simp add: page_at_Suc)
  then have "frames_in (mem s) pt va (Suc n) =
      set_option (uframe (mem s) pt va) \<union> frames_in (mem t) pt (va + PGSIZE) n"
    by (auto simp: frames_in_def lessThan_Suc_eq_insert_0)
  then have "releases s pt ps s' ps' (frames_in (mem s) pt va (Suc n))"
    using releases_trans [OF t(2) IH(2)] by simp
  then show ?case using t IH
    by (intro exI [of _ s'] exI [of _ ps']) (auto simp: in_pages_Suc fun_eq_iff)
qed


lemma uvmunmap_spec:
  assumes "aspace s pt ps" "range_ok va n" "page_at va n \<le> TRAPFRAME"
  obtains s' ps' where "uvmunmap pt va (of_nat n) True s = Some s'"
    "releases s pt ps s' ps' (frames_in (mem s) pt va n)"
    "uframe (mem s') pt = (\<lambda>x. if in_pages x va n then None else uframe (mem s) pt x)"
    "\<forall>x. \<not> in_pages x va n \<longrightarrow> leaf (mem s') pt x = leaf (mem s) pt x"
proof -
  have "uvmunmap pt va (of_nat n) True s = uvmunmap_loop pt va (page_at va n) True s"
    using assms(2) by (simp add: uvmunmap_def range_ok_def page_aligned_def page_at_def)
  then show ?thesis using uvmunmap_loop_spec [OF assms] that by auto
qed

lemma uvmunmap_not_aligned: "va mod PGSIZE \<noteq> 0 \<Longrightarrow> uvmunmap pt va n f s = None"
  by (simp add: uvmunmap_def)

subsection \<open>uvmcreate\<close>

lemma empty_root:
  assumes "page_aligned pt" "\<forall>a. PGROUNDDOWN a = pt \<longrightarrow> m a = 0"
  shows "tbl1 m pt va = None" "tbl0 m pt va = None" "leaf m pt va = 0" "tables m pt = {pt}"
    "pt_tree m pt"
proof -
  have "pte_at m pt 2 va = 0" for va using assms by (intro pte_at_zero) auto
  then have 1: "tbl1 m pt va = None" for va by (simp add: tbl1_def next_tbl_def)
  then have 0: "tbl0 m pt va = None" for va by (simp add: tbl0_def)
  show "tbl1 m pt va = None" "tbl0 m pt va = None" "leaf m pt va = 0" "tables m pt = {pt}"
    "pt_tree m pt" by (simp_all add: 1 0 leaf_def tables_def pt_tree_def)
qed

lemma uvmcreate_spec:
  assumes "free_pages s (p # ps)"
  obtains s' where "uvmcreate s = (p, s')" "aspace s' p ps" "leaf (mem s') p = (\<lambda>_. 0)"
    "tables (mem s') p = {p}" "kend s' = kend s" "kmem.more s' = kmem.more s"
    "\<forall>a. PGROUNDDOWN a \<noteq> p \<longrightarrow> mem s' a = mem s a" "p \<noteq> 0"
proof -
  obtain t where t: "kalloc s = (p, t)" "free_pages t ps" "kend t = kend s"
      "kmem.more t = kmem.more s" "mem t = (\<lambda>a. if PGROUNDDOWN a = p then 5 else mem s a)"
    using kalloc_frame [OF assms] by blast
  have ok: "frame_ok s p" "p \<notin> set ps" "p \<noteq> 0" "page_aligned p"
    using assms frame_ok_nonzero [of s p] by (auto simp: free_pages_def)
  let ?s = "t\<lparr>mem := memset p 0 4096 (mem t)\<rparr>"
  have m: "mem ?s = (\<lambda>a. if PGROUNDDOWN a = p then 0 else mem s a)"
    using ok(4) by (simp add: memset_page t(5) fun_eq_iff)
  have z: "\<forall>a. PGROUNDDOWN a = p \<longrightarrow> mem ?s a = 0" by (simp only: m) simp
  note E = empty_root [OF ok(4) z]
  have "free_pages ?s ps"
    by (rule free_pages_frame [OF t(2)]) (use ok m t(5) in auto)
  then have "vm_inv ?s p ps"
    unfolding vm_inv_def pt_wf_def E(4) using E(5) ok t(3) by (simp add: frame_ok_def)
  moreover have "uframe (mem ?s) p = (\<lambda>_. None)" using E(3) by (simp add: uframe_def fun_eq_iff)
  ultimately have "aspace ?s p ps" by (simp add: aspace_def)
  moreover have "uvmcreate s = (p, ?s)" using t(1) ok(3) by (simp add: uvmcreate_def)
  moreover have "leaf (mem ?s) p = (\<lambda>_. 0)" using E(3) by (simp add: fun_eq_iff)
  ultimately show ?thesis using that [of ?s] E(4) t(3,4) ok(3) m by simp
qed

lemma uvmcreate_nomem: "free_pages s [] \<Longrightarrow> uvmcreate s = (0, s)"
  by (simp add: uvmcreate_def kalloc_empty)

subsection \<open>Properties\<close>

text \<open>A machine whose first free frame has just become an empty root table.\<close>

definition demo_pt :: u64 where "demo_pt = 0x87000000"

definition demo_vm :: kmem where "demo_vm = snd (uvmcreate demo)"

lemma demo_vm:
  "aspace demo_vm demo_pt [0x87001000, 0x87002000]" "leaf (mem demo_vm) demo_pt = (\<lambda>_. 0)"
  "tables (mem demo_vm) demo_pt = {demo_pt}" "kend demo_vm = 0x80022000"
proof -
  have d: "free_pages demo [0x87000000, 0x87001000, 0x87002000]"
    using demo_free by (simp add: demo_frames_def)
  obtain s' where "uvmcreate demo = (0x87000000, s')" "aspace s' 0x87000000 [0x87001000, 0x87002000]"
      "leaf (mem s') 0x87000000 = (\<lambda>_. 0)" "tables (mem s') 0x87000000 = {0x87000000}"
      "kend s' = kend demo"
    by (rule uvmcreate_spec [OF d])
  moreover from this(1) have "demo_vm = s'" by (simp add: demo_vm_def)
  moreover have "kend demo = 0x80022000" by (simp add: demo_def)
  ultimately show "aspace demo_vm demo_pt [0x87001000, 0x87002000]" "leaf (mem demo_vm) demo_pt = (\<lambda>_. 0)"
    "tables (mem demo_vm) demo_pt = {demo_pt}" "kend demo_vm = 0x80022000"
    unfolding demo_pt_def by simp_all
qed

text \<open>C15. \<open>mappages\<close>.  On a well-formed page table whose leaves in a range of \<open>n\<close> pages are
  all free, \<open>mappages\<close> returns: with 0 when every page of the range is mapped to the
  frame at the same distance from \<open>pa\<close>, with the given permissions and \<open>PTE_V\<close>, and
  with -1 only when the free list has run dry, the pages mapped so far then being an
  initial part of the range.  No other translation changes, the table stays
  well-formed, and no byte outside the table's pages and the frames it took changes.\<close>

theorem mappages_maps_range:
  assumes "vm_inv s pt ps" "range_ok va n" "0 < n"
    and "\<forall>i<n. leaf (mem s) pt (page_at va i) AND PTE_V = 0"
  shows "\<exists>r s' ps' k. mappages pt va (of_nat n * PGSIZE) pa perm s = Some (r, s') \<and>
    touches s pt ps s' ps' \<and> (r = 0 \<and> k = n \<or> r = -1 \<and> k < n \<and> ps' = []) \<and>
    (\<forall>x. \<not> in_pages x va k \<longrightarrow> leaf (mem s') pt x = leaf (mem s) pt x) \<and>
    (\<forall>i<k. leaf (mem s') pt (page_at va i) = PA2PTE (page_at pa i) OR perm OR PTE_V)"
proof -
  obtain r s' ps' k where m: "mappages pt va (of_nat n * PGSIZE) pa perm s = Some (r, s')"
    "touches s pt ps s' ps'" "leaf (mem s') pt = mapped_range k va pa perm (leaf (mem s) pt)"
    "r = 0 \<and> k = n \<or> r = -1 \<and> k < n \<and> ps' = []" by (rule mappages_spec [OF assms])
  then have "range_ok va k" using range_ok_less [OF assms(2), of k] by auto
  from mapped_range_in [OF this _ same_vpn_refl] m mapped_range_out show ?thesis
    by (intro exI [of _ r] exI [of _ s'] exI [of _ ps'] exI [of _ k]) (simp add: leaf_entry_def)
qed

theorem mappages_maps_range_witness:
  "\<exists>r s' k. mappages demo_pt 0x4000 (of_nat 2 * PGSIZE) 0x87010000 PTE_R demo_vm = Some (r, s') \<and>
    (r = 0 \<and> k = 2 \<or> r = -1 \<and> k < 2) \<and>
    (\<forall>i<k. leaf (mem s') demo_pt (page_at 0x4000 i) = PA2PTE (page_at 0x87010000 i) OR PTE_R OR PTE_V)"
proof -
  have "range_ok 0x4000 2" by (simp add: range_ok_def page_aligned_def PGSIZE_def unat_MAXVA)
  moreover have "\<forall>i<2. leaf (mem demo_vm) demo_pt (page_at 0x4000 i) AND PTE_V = 0"
    by (simp add: demo_vm(2))
  ultimately show ?thesis
    using mappages_maps_range [OF aspace_inv [OF demo_vm(1)], where va = "0x4000" and n = 2 and pa = "0x87010000" and perm = PTE_R] by auto
qed

text \<open>C16. \<open>uvmunmap\<close> with \<open>do_free\<close>.  On an address space that owns its frames, unmapping \<open>n\<close>
  pages always returns, whatever part of the range is mapped; afterwards none of these
  pages is mapped, every other translation is as before, exactly the frames of the range
  have come back to the free list, and the address space still owns the rest.\<close>

theorem uvmunmap_returns_frames:
  assumes "aspace s pt ps" "range_ok va n" "page_at va n \<le> TRAPFRAME"
  shows "\<exists>s' ps'. uvmunmap pt va (of_nat n) True s = Some s' \<and> aspace s' pt ps' \<and>
    set ps' = set ps \<union> {p. \<exists>i<n. uframe (mem s) pt (page_at va i) = Some p} \<and>
    (\<forall>i<n. uframe (mem s') pt (page_at va i) = None) \<and>
    (\<forall>x. \<not> in_pages x va n \<longrightarrow> leaf (mem s') pt x = leaf (mem s) pt x)"
proof -
  obtain s' ps' where u: "uvmunmap pt va (of_nat n) True s = Some s'"
    "releases s pt ps s' ps' (frames_in (mem s) pt va n)"
    "uframe (mem s') pt = (\<lambda>x. if in_pages x va n then None else uframe (mem s) pt x)"
    "\<forall>x. \<not> in_pages x va n \<longrightarrow> leaf (mem s') pt x = leaf (mem s) pt x"
    by (rule uvmunmap_spec [OF assms])
  have "frames_in (mem s) pt va n = {p. \<exists>i<n. uframe (mem s) pt (page_at va i) = Some p}"
    by (auto simp: frames_in_def)
  then show ?thesis using u
    by (intro exI [of _ s'] exI [of _ ps']) (auto simp: releases_def in_pages_def)
qed

theorem uvmunmap_returns_frames_witness:
  "\<exists>s' ps'. uvmunmap demo_pt 0x4000 (of_nat 3) True demo_vm = Some s' \<and> aspace s' demo_pt ps'"
proof -
  have "range_ok 0x4000 3" by (simp add: range_ok_def page_aligned_def PGSIZE_def unat_MAXVA)
  moreover have "page_at 0x4000 3 \<le> TRAPFRAME" by (simp add: page_at_def layout_defs)
  ultimately show ?thesis using uvmunmap_returns_frames [OF demo_vm(1)] by blast
qed

end
