(* ===== verification/Fifo.thy ===== *)
theory Fifo
  imports Prelude
begin

section \<open>The interface of a bounded FIFO buffer\<close>

text \<open>
  Three parts of the repository keep data in a ring inside a fixed array: the queues of
  the bakery simulation, the pipes of the kernel and the queues the disk driver shares with
  its device.  All promise their callers a
  first-in-first-out sequence of at most \<open>cap\<close> elements: \<open>items\<close> is that sequence,
  and the laws say what a push with room and a pop of a non-empty buffer do to it.
\<close>

locale fifo =
  fixes wf :: "'s \<Rightarrow> bool"
    and items :: "'s \<Rightarrow> 'a list"
    and cap :: nat
    and push :: "'a \<Rightarrow> 's \<Rightarrow> 's"
    and pop :: "'s \<Rightarrow> 'a \<times> 's"
  assumes items_cap: "wf s \<Longrightarrow> length (items s) \<le> cap"
    and push_wf: "wf s \<Longrightarrow> length (items s) < cap \<Longrightarrow> wf (push v s)"
    and push_items: "wf s \<Longrightarrow> length (items s) < cap \<Longrightarrow> items (push v s) = items s @ [v]"
    and pop_wf: "wf s \<Longrightarrow> items s \<noteq> [] \<Longrightarrow> wf (snd (pop s))"
    and pop_items: "wf s \<Longrightarrow> items s \<noteq> [] \<Longrightarrow> items (snd (pop s)) = tl (items s)"
    and pop_head: "wf s \<Longrightarrow> items s \<noteq> [] \<Longrightarrow> fst (pop s) = hd (items s)"
begin

text \<open>A producer that pushes a list, and a consumer that takes \<open>n\<close> elements.\<close>

fun push_all :: "'a list \<Rightarrow> 's \<Rightarrow> 's" where
  "push_all [] s = s"
| "push_all (v # vs) s = push_all vs (push v s)"

fun pop_n :: "nat \<Rightarrow> 's \<Rightarrow> 'a list \<times> 's" where
  "pop_n 0 s = ([], s)"
| "pop_n (Suc n) s = (case pop s of (v, s') \<Rightarrow> case pop_n n s' of (vs, s'') \<Rightarrow> (v # vs, s''))"

lemma push_all_items:
  "wf s \<Longrightarrow> length (items s) + length vs \<le> cap \<Longrightarrow>
    wf (push_all vs s) \<and> items (push_all vs s) = items s @ vs"
  by (induction vs s rule: push_all.induct) (auto simp: push_wf push_items)

lemma pop_n_items:
  "wf s \<Longrightarrow> n \<le> length (items s) \<Longrightarrow>
    wf (snd (pop_n n s)) \<and> fst (pop_n n s) = take n (items s) \<and> items (snd (pop_n n s)) = drop n (items s)"
proof (induction n s rule: pop_n.induct)
  case (2 n s)
  obtain v t where p: "pop s = (v, t)" by (cases "pop s")
  have ne: "items s \<noteq> []" using 2(3) by auto
  have t: "wf t" "items t = tl (items s)" "v = hd (items s)"
    using pop_wf [OF 2(2) ne] pop_items [OF 2(2) ne] pop_head [OF 2(2) ne] p by simp_all
  then have "n \<le> length (items t)" using 2(3) by simp
  from "2.IH" [OF p [symmetric] t(1) this] show ?case
    using t ne by (cases "items s") (auto simp: p split: prod.split)
qed simp

text \<open>What goes in comes out, in order, whatever the buffer held before.\<close>

lemma through_put:
  assumes "wf s" "items s = []" "length vs \<le> cap"
  shows "fst (pop_n (length vs) (push_all vs s)) = vs"
  using push_all_items [OF assms(1), of vs] pop_n_items [of "push_all vs s" "length vs"] assms
  by simp

end

end
