(* ===== verification/Stdio.thy ===== *)
theory Stdio
  imports Prelude
begin

section \<open>The C library's scanning and character classes\<close>

text \<open>
  What the host programs use of C's standard library: the character classes of the C
  locale, the conversion of decimal numbers, and reading from a standard input that is
  the text still to come.  \<open>scanf_int\<close> is \<open>scanf\<close> with the format \<open>%d\<close> (numbers beyond
  \<open>int\<close> are undefined in C and kept as they are); \<open>skip_line\<close> is the loop that reads with
  \<open>getchar\<close> up to a newline, which never ends at the end of the input.
\<close>

definition is_space :: "char \<Rightarrow> bool" where
  "is_space c \<longleftrightarrow> c \<in> {CHR '' '', CHR 0x09, CHR 0x0A, CHR 0x0B, CHR 0x0C, CHR 0x0D}"

definition is_digit :: "char \<Rightarrow> bool" where
  "is_digit c \<longleftrightarrow> 48 \<le> (of_char c :: nat) \<and> (of_char c :: nat) \<le> 57"

definition digits_val :: "string \<Rightarrow> int" where
  "digits_val = foldl (\<lambda>n c. 10 * n + (of_char c - 48)) 0"

definition scan_long :: "string \<Rightarrow> (int \<times> string) option" where
  "scan_long s = (let s = dropWhile is_space s;
     (neg, s) = (case s of [] \<Rightarrow> (False, s)
       | c # r \<Rightarrow> if c = CHR ''-'' then (True, r) else if c = CHR ''+'' then (False, r) else (False, s));
     ds = takeWhile is_digit s in
     if ds = [] then None
     else Some (if neg then - digits_val ds else digits_val ds, dropWhile is_digit s))"

datatype scan = Scanned int | Unmatched | At_eof

definition scanf_int :: "string \<Rightarrow> scan \<times> string" where
  "scanf_int s = (let s = dropWhile is_space s in
     if s = [] then (At_eof, [])
     else let (neg, s) = (if hd s = CHR ''-'' then (True, drop 1 s) else if hd s = CHR ''+'' then (False, drop 1 s) else (False, s));
       ds = takeWhile is_digit s in
     if ds = [] then (Unmatched, s)
     else (Scanned (if neg then - digits_val ds else digits_val ds), dropWhile is_digit s))"

definition skip_line :: "string \<Rightarrow> string option" where
  "skip_line s = (case dropWhile (\<lambda>c. c \<noteq> CHR 0x0A) s of [] \<Rightarrow> None | c # r \<Rightarrow> Some r)"

definition isprint :: "u8 \<Rightarrow> bool" where
  "isprint c \<longleftrightarrow> 0x20 \<le> c \<and> c \<le> 0x7e"

lemma skip_line_shorter: "skip_line s = Some r \<Longrightarrow> length r < length s"
proof -
  assume "skip_line s = Some r"
  then obtain c where "dropWhile (\<lambda>c. c \<noteq> CHR 0x0A) s = c # r" by (auto simp: skip_line_def split: list.splits)
  then show ?thesis using length_dropWhile_le [of "\<lambda>c. c \<noteq> CHR 0x0A" s] by simp
qed

lemma scanf_int_length: "length (snd (scanf_int s)) \<le> length s"
proof -
  have a: "length (dropWhile is_digit t) \<le> length s" if "length t \<le> length (dropWhile is_space s)" for t
    using that length_dropWhile_le [of is_digit t] length_dropWhile_le [of is_space s] by linarith
  show ?thesis using a length_dropWhile_le [of is_space s] by (auto simp: scanf_int_def Let_def)
qed

end
