(* ===== verification/Bakery.thy ===== *)
theory Bakery
  imports Fifo Stdio
begin

section \<open>The bakery simulation (C/main.c)\<close>

text \<open>
  The whole program: input parsing, the three ring queues, the resources and the
  second-by-second main loop.  C \<open>long\<close> and \<open>int\<close> quantities are \<open>int\<close> (times stay far
  from the end of the range), indices into \<open>customers\<close> and queue positions are \<open>nat\<close>,
  \<open>printf\<close> appends an \<open>event\<close> to \<open>printed\<close>.  The array \<open>baking\<close> with its counter
  \<open>baking_cnt\<close> is the list of its first \<open>baking_cnt\<close> entries.  The main loop is a
  \<open>partial_function\<close>, so that it returns has to be proved.
\<close>

definition MAX_CAPACITY :: int where "MAX_CAPACITY = 25"
definition NUM_OVENS :: int where "NUM_OVENS = 4"
definition NUM_CHEFS :: nat where "NUM_CHEFS = 4"
definition SOFA_CAPACITY :: nat where "SOFA_CAPACITY = 4"
definition T_CUSTOMER_ACTION :: int where "T_CUSTOMER_ACTION = 1"
definition T_CHEF_ACTION :: int where "T_CHEF_ACTION = 2"

lemmas bakery_consts = MAX_CAPACITY_def NUM_OVENS_def NUM_CHEFS_def SOFA_CAPACITY_def
  T_CUSTOMER_ACTION_def T_CHEF_ACTION_def

record arrival_t =
  ts :: int
  id_of :: int

record customer_t =
  cid :: int
  arrival_ts :: int
  entered :: bool
  seated :: bool
  requested :: bool
  is_baking :: bool
  baked :: bool
  paid :: bool
  accept_started :: bool
  is_done :: bool
  t_sat :: int
  t_request :: int
  t_bake_start :: int
  t_bake_end :: int
  t_pay_time :: int
  t_accept_start :: int
  t_accept_end :: int
  t_leave :: int

subsection \<open>The circular queue\<close>

record queue_t =
  data :: "nat \<Rightarrow> nat"
  q_head :: nat
  q_tail :: nat
  q_sz :: nat

definition q_init :: "queue_t \<Rightarrow> queue_t" where
  "q_init q = q\<lparr>q_head := 0, q_tail := 0, q_sz := 0\<rparr>"

definition q_empty :: "queue_t \<Rightarrow> bool" where
  "q_empty q \<longleftrightarrow> q_sz q = 0"

definition q_size :: "queue_t \<Rightarrow> nat" where
  "q_size q = q_sz q"

definition q_push :: "nat \<Rightarrow> queue_t \<Rightarrow> queue_t" where
  "q_push v q = (let q = q\<lparr>data := (data q)(q_tail q := v), q_tail := q_tail q + 1\<rparr>;
     q = (if q_tail q \<ge> 2048 then q\<lparr>q_tail := 0\<rparr> else q) in q\<lparr>q_sz := q_sz q + 1\<rparr>)"

definition q_front :: "queue_t \<Rightarrow> nat" where
  "q_front q = data q (q_head q)"

definition q_pop :: "queue_t \<Rightarrow> nat \<times> queue_t" where
  "q_pop q = (let v = data q (q_head q); q = q\<lparr>q_head := q_head q + 1\<rparr>;
     q = (if q_head q \<ge> 2048 then q\<lparr>q_head := 0\<rparr> else q) in (v, q\<lparr>q_sz := q_sz q - 1\<rparr>))"

subsection \<open>The state\<close>

record inprog_t =
  cust_idx :: nat
  chef_id :: nat
  end_time :: int

datatype event =
  Enters int int | Sits int int | Requests int int | Pays int int | Leaves int int
| Bakes int nat int | Accepts int nat int

text \<open>
  The state is polymorphic in the type of queues: the program runs on \<open>queue_t bakery\<close>,
  its specification in \<open>BakerySpec\<close> on \<open>nat list bakery\<close>.
\<close>

record 'q bakery =
  arrivals :: "arrival_t list"
  customers :: "customer_t list"
  standing_q :: 'q
  sofa_q :: 'q
  accept_ready_q :: 'q
  baking :: "inprog_t list"
  accepting :: inprog_t
  register_busy :: bool
  chef_free :: "bool list"
  ovens_available :: int
  people_inside :: int
  current_time :: int
  last_seat_freed_time :: int
  printed :: "event list"

definition num_arrivals :: "'q bakery \<Rightarrow> nat" where
  "num_arrivals s = length (arrivals s)"

definition customer :: "nat \<Rightarrow> 'q bakery \<Rightarrow> customer_t" where
  "customer ci s = customers s ! ci"

definition upd_customer :: "nat \<Rightarrow> (customer_t \<Rightarrow> customer_t) \<Rightarrow> 'q bakery \<Rightarrow> 'q bakery" where
  "upd_customer ci f s = s\<lparr>customers := (customers s)[ci := f (customers s ! ci)]\<rparr>"

definition print :: "event \<Rightarrow> 'q bakery \<Rightarrow> 'q bakery" where
  "print e s = s\<lparr>printed := printed s @ [e]\<rparr>"

definition chef_free_set :: "nat \<Rightarrow> bool \<Rightarrow> 'q bakery \<Rightarrow> 'q bakery" where
  "chef_free_set k b s = s\<lparr>chef_free := (chef_free s)[k - 1 := b]\<rparr>"

fun get_free_chef_from :: "nat \<Rightarrow> bool list \<Rightarrow> nat" where
  "get_free_chef_from i [] = 0"
| "get_free_chef_from i (b # bs) = (if b then i + 1 else get_free_chef_from (i + 1) bs)"

definition get_free_chef :: "'q bakery \<Rightarrow> nat" where
  "get_free_chef s = get_free_chef_from 0 (chef_free s)"

subsection \<open>Input\<close>

text \<open>
  \<open>fgets\<close> delivers the input in pieces of at most one line; \<open>sscanf\<close> reads a number,
  the word Customer and a number, skipping white space before each of them.
\<close>

fun strip_word :: "string \<Rightarrow> string \<Rightarrow> string option" where
  "strip_word [] s = Some s"
| "strip_word (c # w) [] = None"
| "strip_word (c # w) (d # s) = (if c = d then strip_word w s else None)"

definition sscanf_arrival :: "string \<Rightarrow> arrival_t option" where
  "sscanf_arrival buf = do {
     (t, s) \<leftarrow> scan_long buf;
     s \<leftarrow> strip_word ''Customer'' (dropWhile is_space s);
     (i, s) \<leftarrow> scan_long s;
     Some \<lparr>ts = t, id_of = i\<rparr>
   }"

fun strstr :: "string \<Rightarrow> string \<Rightarrow> bool" where
  "strstr [] w \<longleftrightarrow> w = []"
| "strstr (c # s) w \<longleftrightarrow> take (length w) (c # s) = w \<or> strstr s w"

fun read_lines :: "string list \<Rightarrow> arrival_t list" where
  "read_lines [] = []"
| "read_lines (buf # bufs) =
     (if strstr buf ''<EOF>'' then []
      else case sscanf_arrival buf of None \<Rightarrow> read_lines bufs | Some a \<Rightarrow> a # read_lines bufs)"

definition cmp_arrival :: "arrival_t \<Rightarrow> arrival_t \<Rightarrow> int" where
  "cmp_arrival x y =
     (if ts x \<noteq> ts y then if ts x < ts y then -1 else 1
      else if id_of x \<noteq> id_of y then if id_of x < id_of y then -1 else 1
      else 0)"

text \<open>\<open>qsort\<close> with \<open>cmp_arrival\<close>; arrivals that compare equal are equal.\<close>

fun insert_arrival :: "arrival_t \<Rightarrow> arrival_t list \<Rightarrow> arrival_t list" where
  "insert_arrival x [] = [x]"
| "insert_arrival x (y # ys) = (if cmp_arrival x y \<le> 0 then x # y # ys else y # insert_arrival x ys)"

definition qsort_arrivals :: "arrival_t list \<Rightarrow> arrival_t list" where
  "qsort_arrivals xs = foldr insert_arrival xs []"

definition init_customer :: "arrival_t \<Rightarrow> customer_t" where
  "init_customer a = \<lparr>cid = id_of a, arrival_ts = ts a, entered = False, seated = False,
     requested = False, is_baking = False, baked = False, paid = False, accept_started = False,
     is_done = False, t_sat = -1, t_request = -1, t_bake_start = -1, t_bake_end = -1,
     t_pay_time = -1, t_accept_start = -1, t_accept_end = -1, t_leave = -1\<rparr>"

text \<open>More than 1024 lines would be stored past the end of \<open>arrivals\<close>: no defined result.\<close>

definition read_input :: "string list \<Rightarrow> queue_t bakery \<Rightarrow> queue_t bakery option" where
  "read_input bufs s = (let as = read_lines bufs in
     if length as > 1024 then None
     else let as = qsort_arrivals as
       in Some (s\<lparr>arrivals := as, customers := map init_customer as\<rparr>))"

subsection \<open>One second of the simulation\<close>

text \<open>The sofa queue is rebuilt without the customer who leaves.\<close>

function rebuild_sofa :: "nat \<Rightarrow> queue_t \<Rightarrow> queue_t \<Rightarrow> queue_t" where
  "rebuild_sofa ci sofa new_sofa =
     (if q_empty sofa then new_sofa
      else case q_pop sofa of (x, sofa) \<Rightarrow>
        rebuild_sofa ci sofa (if x \<noteq> ci then q_push x new_sofa else new_sofa))"
  by pat_completeness auto
termination
  by (relation "measure (\<lambda>(ci, sofa, new_sofa). q_sz sofa)")
    (auto simp: q_pop_def q_empty_def Let_def split: if_splits)

definition finish_accepting :: "queue_t bakery \<Rightarrow> queue_t bakery" where
  "finish_accepting s =
     (if register_busy s \<and> end_time (accepting s) = current_time s then
        let ci = cust_idx (accepting s);
            s = upd_customer ci (\<lambda>c. c\<lparr>t_accept_end := current_time s, accept_started := False,
                  paid := True, t_leave := current_time s, is_done := True\<rparr>) s;
            s = print (Leaves (current_time s) (cid (customer ci s))) s;
            s = chef_free_set (chef_id (accepting s)) True s;
            s = s\<lparr>register_busy := False, people_inside := people_inside s - 1,
                  last_seat_freed_time := current_time s\<rparr>
        in s\<lparr>sofa_q := rebuild_sofa ci (sofa_q s) (q_init (sofa_q s))\<rparr>
      else s)"

fun finish_bakings :: "inprog_t list \<Rightarrow> queue_t bakery \<Rightarrow> inprog_t list \<times> queue_t bakery" where
  "finish_bakings [] s = ([], s)"
| "finish_bakings (b # bs) s =
     (if end_time b = current_time s then
        let ci = cust_idx b;
            s = upd_customer ci (\<lambda>c. c\<lparr>baked := True, is_baking := False,
                  t_bake_end := current_time s, t_pay_time := current_time s\<rparr>) s;
            s = print (Pays (current_time s) (cid (customer ci s))) s;
            s = s\<lparr>accept_ready_q := q_push ci (accept_ready_q s)\<rparr>;
            s = chef_free_set (chef_id b) True s
        in finish_bakings bs (s\<lparr>ovens_available := ovens_available s + 1\<rparr>)
      else (case finish_bakings bs s of (new_baking, s) \<Rightarrow> (b # new_baking, s)))"

definition finish_tasks_at_time :: "queue_t bakery \<Rightarrow> queue_t bakery" where
  "finish_tasks_at_time s =
     (let s = finish_accepting s in
      case finish_bakings (baking s) s of (new_baking, s) \<Rightarrow> s\<lparr>baking := new_baking\<rparr>)"

function process_arrivals_at_time :: "nat \<Rightarrow> queue_t bakery \<Rightarrow> nat \<times> queue_t bakery" where
  "process_arrivals_at_time arrival_idx s =
     (if arrival_idx < num_arrivals s \<and> ts (arrivals s ! arrival_idx) = current_time s then
        if people_inside s \<ge> MAX_CAPACITY then process_arrivals_at_time (arrival_idx + 1) s
        else let ci = arrival_idx;
                 s = upd_customer ci (\<lambda>c. c\<lparr>entered := True\<rparr>) s;
                 s = s\<lparr>people_inside := people_inside s + 1\<rparr>;
                 s = print (Enters (current_time s) (cid (customer ci s))) s;
                 s = s\<lparr>standing_q := q_push ci (standing_q s)\<rparr>
          in process_arrivals_at_time (arrival_idx + 1) s
      else (arrival_idx, s))"
  by pat_completeness auto
termination
  by (relation "measure (\<lambda>(i, s). num_arrivals s - i)")
    (auto simp: num_arrivals_def upd_customer_def print_def)

function move_standing_to_sofa_if_possible :: "queue_t bakery \<Rightarrow> queue_t bakery" where
  "move_standing_to_sofa_if_possible s =
     (if q_size (sofa_q s) < SOFA_CAPACITY \<and> \<not> q_empty (standing_q s) then
        let ci = q_front (standing_q s);
            earliest_sit = arrival_ts (customer ci s) + T_CUSTOMER_ACTION;
            delay_after_free = (if last_seat_freed_time s = -1 then 0 else last_seat_freed_time s + 1);
            allowed_sit_time = (if earliest_sit > delay_after_free then earliest_sit else delay_after_free)
        in if current_time s < allowed_sit_time then s
           else let s = s\<lparr>standing_q := snd (q_pop (standing_q s))\<rparr>;
                    s = s\<lparr>sofa_q := q_push ci (sofa_q s)\<rparr>;
                    s = upd_customer ci (\<lambda>c. c\<lparr>seated := True, t_sat := current_time s\<rparr>) s
                in move_standing_to_sofa_if_possible
                     (print (Sits (current_time s) (cid (customer ci s))) s)
      else s)"
  by pat_completeness auto
termination
  by (relation "measure (\<lambda>s. q_sz (standing_q s))")
    (auto simp: q_pop_def q_empty_def upd_customer_def print_def Let_def split: if_splits)

fun requests_loop :: "nat \<Rightarrow> queue_t bakery \<Rightarrow> queue_t bakery" where
  "requests_loop 0 s = s"
| "requests_loop (Suc k) s =
     (case q_pop (sofa_q s) of (ci, sofa) \<Rightarrow>
        let s = s\<lparr>sofa_q := sofa\<rparr>; c = customer ci s;
            s = (if seated c \<and> \<not> requested c \<and> current_time s \<ge> t_sat c + T_CUSTOMER_ACTION
                 then print (Requests (current_time s) (cid c))
                   (upd_customer ci (\<lambda>c. c\<lparr>requested := True, t_request := current_time s\<rparr>) s)
                 else s)
        in requests_loop k (s\<lparr>sofa_q := q_push ci (sofa_q s)\<rparr>))"

definition make_requests_from_sofa :: "queue_t bakery \<Rightarrow> queue_t bakery" where
  "make_requests_from_sofa s = requests_loop (q_size (sofa_q s)) s"

function schedule_accepts :: "queue_t bakery \<Rightarrow> queue_t bakery" where
  "schedule_accepts s =
     (if \<not> register_busy s then
        let chef = get_free_chef s in
        if chef = 0 then s
        else if q_empty (accept_ready_q s) then s
        else let ci = q_front (accept_ready_q s) in
          if current_time s < t_pay_time (customer ci s) + T_CUSTOMER_ACTION then s
          else let s = s\<lparr>accept_ready_q := snd (q_pop (accept_ready_q s))\<rparr>;
                   s = upd_customer ci (\<lambda>c. c\<lparr>accept_started := True,
                         t_accept_start := current_time s,
                         t_accept_end := current_time s + T_CHEF_ACTION\<rparr>) s;
                   s = chef_free_set chef False (s\<lparr>register_busy := True\<rparr>);
                   s = s\<lparr>accepting := \<lparr>cust_idx = ci, chef_id = chef,
                         end_time = t_accept_end (customer ci s)\<rparr>\<rparr>
            in schedule_accepts (print (Accepts (current_time s) chef (cid (customer ci s))) s)
      else s)"
  by pat_completeness auto
termination
  by (relation "measure (\<lambda>s. if register_busy s then 0 else 1)")
    (auto simp: upd_customer_def print_def chef_free_set_def Let_def)

text \<open>The sofa read out in order, by popping and pushing back every element.\<close>

fun sofa_order :: "nat \<Rightarrow> queue_t \<Rightarrow> nat list \<times> queue_t" where
  "sofa_order 0 q = ([], q)"
| "sofa_order (Suc k) q = (case q_pop q of (ci, q) \<Rightarrow>
     case sofa_order k (q_push ci q) of (temp, q) \<Rightarrow> (ci # temp, q))"

definition can_bake :: "'q bakery \<Rightarrow> nat \<Rightarrow> bool" where
  "can_bake s ci \<longleftrightarrow> requested (customer ci s) \<and> \<not> is_baking (customer ci s) \<and>
     \<not> baked (customer ci s) \<and> current_time s \<ge> t_request (customer ci s) + T_CUSTOMER_ACTION"

function schedule_bakes :: "queue_t bakery \<Rightarrow> queue_t bakery" where
  "schedule_bakes s =
     (if ovens_available s > 0 then
        let chef = get_free_chef s in
        if chef = 0 then s
        else let n = q_size (sofa_q s) in
          if n = 0 then s
          else (case sofa_order n (sofa_q s) of (temp, sofa) \<Rightarrow>
            let s = s\<lparr>sofa_q := sofa\<rparr> in
            case find (can_bake s) temp of
              None \<Rightarrow> s
            | Some ci \<Rightarrow>
                let s = upd_customer ci (\<lambda>c. c\<lparr>is_baking := True, t_bake_start := current_time s,
                          t_bake_end := current_time s + T_CHEF_ACTION\<rparr>) s;
                    s = s\<lparr>baking := baking s @ [\<lparr>cust_idx = ci, chef_id = chef,
                          end_time = t_bake_end (customer ci s)\<rparr>],
                          ovens_available := ovens_available s - 1\<rparr>;
                    s = chef_free_set chef False s
                in schedule_bakes (print (Bakes (current_time s) chef (cid (customer ci s))) s))
      else s)"
  by pat_completeness auto
termination
  by (relation "measure (\<lambda>s. nat (ovens_available s))")
    (auto simp: upd_customer_def print_def chef_free_set_def Let_def)

definition tick :: "nat \<Rightarrow> queue_t bakery \<Rightarrow> nat \<times> queue_t bakery" where
  "tick arrival_idx s =
     (case process_arrivals_at_time arrival_idx s of (arrival_idx, s) \<Rightarrow>
        (arrival_idx, schedule_bakes (schedule_accepts (make_requests_from_sofa
           (move_standing_to_sofa_if_possible (finish_tasks_at_time s))))))"

definition all_finished :: "nat \<Rightarrow> queue_t bakery \<Rightarrow> bool" where
  "all_finished arrival_idx s \<longleftrightarrow>
     \<not> (register_busy s \<or> baking s \<noteq> []) \<and>
     \<not> (people_inside s > 0 \<or> arrival_idx < num_arrivals s \<or> \<not> q_empty (standing_q s) \<or>
        \<not> q_empty (sofa_q s) \<or> \<not> q_empty (accept_ready_q s))"

partial_function (option) main_loop :: "nat \<Rightarrow> queue_t bakery \<Rightarrow> queue_t bakery option" where
  "main_loop arrival_idx s = (case tick arrival_idx s of (arrival_idx, s) \<Rightarrow>
     if all_finished arrival_idx s then Some s
     else main_loop arrival_idx (s\<lparr>current_time := current_time s + 1\<rparr>))"

declare rebuild_sofa.simps [simp del] process_arrivals_at_time.simps [simp del]
  move_standing_to_sofa_if_possible.simps [simp del] schedule_accepts.simps [simp del]
  schedule_bakes.simps [simp del]

text \<open>Static storage starts as zero; the run returns what was printed.\<close>

definition empty_queue :: queue_t where
  "empty_queue = \<lparr>data = \<lambda>_. 0, q_head = 0, q_tail = 0, q_sz = 0\<rparr>"

definition static_init :: "queue_t bakery" where
  "static_init = \<lparr>arrivals = [], customers = [], standing_q = empty_queue, sofa_q = empty_queue,
     accept_ready_q = empty_queue, baking = [], accepting = \<lparr>cust_idx = 0, chef_id = 0, end_time = 0\<rparr>,
     register_busy = False, chef_free = replicate NUM_CHEFS False, ovens_available = NUM_OVENS,
     people_inside = 0, current_time = 0, last_seat_freed_time = -1, printed = []\<rparr>"

definition main_prog :: "string list \<Rightarrow> queue_t bakery option" where
  "main_prog bufs = do {
     s \<leftarrow> read_input bufs static_init;
     let s = s\<lparr>standing_q := q_init (standing_q s), sofa_q := q_init (sofa_q s),
       accept_ready_q := q_init (accept_ready_q s), chef_free := replicate NUM_CHEFS True,
       ovens_available := NUM_OVENS, register_busy := False,
       accepting := (accepting s)\<lparr>end_time := -1\<rparr>\<rparr>;
     if num_arrivals s = 0 then Some s
     else main_loop 0 (s\<lparr>current_time := ts (arrivals s ! 0)\<rparr>)
   }"

end
