(* ===== verification/BakeryQueue.thy ===== *)
theory BakeryQueue
  imports Bakery
begin

section \<open>The circular queue of the bakery is a FIFO buffer\<close>

text \<open>
  \<open>q_items\<close> reads the ring as a list; the interpretation of \<open>fifo\<close> gives the laws of
  \<open>q_push\<close> and \<open>q_pop\<close>.  The loops that go once round a queue (rebuilding the sofa,
  making requests, copying it out) are then described on lists.
\<close>

definition q_wf :: "queue_t \<Rightarrow> bool" where
  "q_wf q \<longleftrightarrow> q_head q < 2048 \<and> q_sz q \<le> 2048 \<and> q_tail q = (q_head q + q_sz q) mod 2048"

definition q_items :: "queue_t \<Rightarrow> nat list" where
  "q_items q = map (\<lambda>i. data q ((q_head q + i) mod 2048)) [0..<q_sz q]"

lemma length_q_items [simp]: "length (q_items q) = q_sz q"
  by (simp add: q_items_def)

lemma ring_distinct:
  "i < j \<Longrightarrow> j - i < 2048 \<Longrightarrow> (h + i) mod 2048 \<noteq> (h + j) mod (2048::nat)"
proof
  assume "i < j" "j - i < 2048" and e: "(h + i) mod 2048 = (h + j) mod 2048"
  then have "2048 dvd (h + j) - (h + i)" by (metis mod_eq_dvd_iff_nat nat_add_left_cancel_le less_imp_le)
  then show False using \<open>i < j\<close> \<open>j - i < 2048\<close> by (auto dest: dvd_imp_le)
qed

lemma q_push_fields:
  assumes "q_wf q" "q_sz q < 2048"
  shows "q_push v q = q\<lparr>data := (data q)(q_tail q := v), q_tail := (q_tail q + 1) mod 2048,
    q_sz := q_sz q + 1\<rparr>"
proof -
  have "q_tail q < 2048" using assms by (simp add: q_wf_def)
  then show ?thesis by (cases "q_tail q = 2047") (auto simp: q_push_def Let_def)
qed

lemma q_pop_fields:
  assumes "q_wf q"
  shows "q_pop q = (data q (q_head q), q\<lparr>q_head := (q_head q + 1) mod 2048, q_sz := q_sz q - 1\<rparr>)"
proof -
  have "q_head q < 2048" using assms by (simp add: q_wf_def)
  then show ?thesis by (cases "q_head q = 2047") (auto simp: q_pop_def Let_def)
qed

lemma upt_pop: "0 < n \<Longrightarrow> [0..<n] = 0 # map Suc [0..<n - 1]"
  by (cases n) (simp_all add: upt_conv_Cons map_Suc_upt del: upt_Suc)

interpretation ring: fifo q_wf q_items 2048 q_push q_pop
proof unfold_locales
  fix q assume "q_wf q" then show "length (q_items q) \<le> 2048" by (simp add: q_wf_def)
next
  fix q v assume q: "q_wf q" "length (q_items q) < 2048"
  have "((h + k) mod 2048 + 1) mod 2048 = (h + (k + 1)) mod 2048" for h k :: nat
    by (simp add: mod_simps)
  then show "q_wf (q_push v q)"
    using q by (simp add: q_push_fields) (simp add: q_wf_def)
  have "(q_head q + i) mod 2048 \<noteq> q_tail q" if "i < q_sz q" for i
    using ring_distinct [OF that] q that by (simp add: q_wf_def)
  then show "q_items (q_push v q) = q_items q @ [v]"
    using q by (simp add: q_push_fields q_items_def) (simp add: q_wf_def)
next
  fix q assume q: "q_wf q" "q_items q \<noteq> []"
  then have ne: "0 < q_sz q" by (simp add: q_items_def)
  obtain n where n: "q_sz q = Suc n" using ne by (cases "q_sz q") auto
  show "q_wf (snd (q_pop q))"
    using q n by (simp add: q_pop_fields) (simp add: q_wf_def mod_simps)
  have "(Suc (q_head q) mod 2048 + i) mod 2048 = (q_head q + Suc i) mod 2048" for i
    by (simp add: mod_simps)
  then show "q_items (snd (q_pop q)) = tl (q_items q)"
    using q ne by (simp add: q_pop_fields q_items_def upt_pop)
  show "fst (q_pop q) = hd (q_items q)"
    using q ne by (simp add: q_pop_fields q_items_def upt_pop) (simp add: q_wf_def)
qed

lemma q_empty_items: "q_empty q \<longleftrightarrow> q_items q = []"
  by (simp add: q_empty_def q_items_def)

lemma q_size_items: "q_size q = length (q_items q)"
  by (simp add: q_size_def)

lemma q_init_items [simp]: "q_wf (q_init q)" "q_items (q_init q) = []"
  by (simp_all add: q_init_def q_wf_def q_items_def)

lemma q_front_items: "q_wf q \<Longrightarrow> q_items q \<noteq> [] \<Longrightarrow> q_front q = hd (q_items q)"
  using ring.pop_head [of q] by (simp add: q_front_def q_pop_fields)

lemma q_pop_Cons:
  assumes "q_wf q" "q_items q = x # xs"
  obtains q' where "q_pop q = (x, q')" "q_wf q'" "q_items q' = xs"
  using ring.pop_wf [of q] ring.pop_items [of q] ring.pop_head [of q] assms
  by (cases "q_pop q") auto

lemma rebuild_sofa_items:
  "q_wf q \<Longrightarrow> q_wf r \<Longrightarrow> length (q_items q) + length (q_items r) \<le> 2048 \<Longrightarrow>
    q_wf (rebuild_sofa ci q r) \<and>
    q_items (rebuild_sofa ci q r) = q_items r @ filter (\<lambda>x. x \<noteq> ci) (q_items q)"
proof (induction "q_items q" arbitrary: q r)
  case Nil
  then show ?case by (subst (1 2) rebuild_sofa.simps) (simp add: q_empty_items)
next
  case (Cons x xs)
  obtain q' where q': "q_pop q = (x, q')" "q_wf q'" "q_items q' = xs"
    using q_pop_Cons [OF Cons.prems(1) Cons.hyps(2) [symmetric]] .
  let ?r = "if x \<noteq> ci then q_push x r else r"
  have len: "q_sz q = Suc (length xs)" using Cons.hyps(2) by (metis length_Cons length_q_items)
  then have r: "q_wf ?r" "q_items ?r = q_items r @ (if x \<noteq> ci then [x] else [])"
    using Cons.prems ring.push_wf [of r] ring.push_items [of r] by auto
  then have "length (q_items q') + length (q_items ?r) \<le> 2048"
    using Cons.prems(3) len q'(3) by simp
  from Cons.hyps(1) [OF q'(3) [symmetric] q'(2) r(1) this]
  have "q_wf (rebuild_sofa ci q' ?r)" "q_items (rebuild_sofa ci q' ?r) =
      q_items ?r @ filter (\<lambda>x. x \<noteq> ci) xs" using q'(3) by simp_all
  moreover have "rebuild_sofa ci q r = rebuild_sofa ci q' ?r"
    using q'(1) Cons.hyps(2) by (subst rebuild_sofa.simps) (auto simp: q_empty_items)
  ultimately show ?case using r(2) Cons.hyps(2) [symmetric] by simp
qed

lemma sofa_order_items:
  "q_wf q \<Longrightarrow> q_items q = xs @ ys \<Longrightarrow> q_sz q \<le> 2048 \<Longrightarrow> sofa_order (length xs) q = (t, q') \<Longrightarrow>
    t = xs \<and> q_wf q' \<and> q_items q' = ys @ xs"
proof (induction xs arbitrary: q ys t q')
  case Nil
  then show ?case by simp
next
  case (Cons x xs)
  have it: "q_items q = x # (xs @ ys)" using Cons.prems(2) by simp
  obtain r where r: "q_pop q = (x, r)" "q_wf r" "q_items r = xs @ ys"
    using q_pop_Cons [OF Cons.prems(1) it] .
  have len: "length (q_items r) < 2048" using it r(3) Cons.prems(3)
    by (metis Suc_le_lessD length_Cons length_q_items)
  then have p: "q_wf (q_push x r)" "q_items (q_push x r) = xs @ (ys @ [x])"
    using ring.push_wf [OF r(2)] ring.push_items [OF r(2)] r(3) by simp_all
  obtain t' where t: "sofa_order (length xs) (q_push x r) = (t', q')" "t = x # t'"
    using Cons.prems(4) r(1) by (auto split: prod.splits)
  have "q_sz (q_push x r) \<le> 2048" using p(1) by (simp add: q_wf_def)
  from Cons.IH [OF p this t(1)] t(2) show ?case by simp
qed

lemma sofa_order_all:
  assumes "q_wf q"
  shows "\<exists>q'. sofa_order (q_size q) q = (q_items q, q') \<and> q_wf q' \<and> q_items q' = q_items q"
proof -
  obtain t q' where t: "sofa_order (length (q_items q)) q = (t, q')"
    by (cases "sofa_order (length (q_items q)) q")
  have "q_sz q \<le> 2048" using assms by (simp add: q_wf_def)
  from sofa_order_items [OF assms _ this t] have "t = q_items q \<and> q_wf q' \<and> q_items q' = [] @ q_items q"
    by simp
  then show ?thesis using t by (simp add: q_size_items)
qed

end
