(* ===== verification/BakerySpec.thy ===== *)
theory BakerySpec
  imports BakeryQueue
begin

section \<open>The bakery, specified on lists\<close>

text \<open>
  The same second of simulation with the rings replaced by the lists they hold: no
  rotation of the sofa, leaving is \<open>filter\<close>, and every loop body is an operation of its
  own.  The program refines it: \<open>abs_bk\<close> of each of its operations is the
  operation here, as long as the rings are well-formed and have room, which the
  invariant of \<open>BakeryInv\<close> guarantees.
\<close>

type_synonym abakery = "nat list bakery"

definition a_enter :: "nat \<Rightarrow> abakery \<Rightarrow> abakery" where
  "a_enter ci s = (let s = upd_customer ci (\<lambda>c. c\<lparr>entered := True\<rparr>) s;
     s = s\<lparr>people_inside := people_inside s + 1\<rparr>;
     s = print (Enters (current_time s) (cid (customer ci s))) s
     in s\<lparr>standing_q := standing_q s @ [ci]\<rparr>)"

function a_arrivals :: "nat \<Rightarrow> abakery \<Rightarrow> nat \<times> abakery" where
  "a_arrivals i s =
     (if i < num_arrivals s \<and> ts (arrivals s ! i) = current_time s
      then a_arrivals (i + 1) (if people_inside s \<ge> MAX_CAPACITY then s else a_enter i s)
      else (i, s))"
  by pat_completeness auto
termination
  by (relation "measure (\<lambda>(i, s). num_arrivals s - i)")
    (auto simp: num_arrivals_def a_enter_def upd_customer_def print_def Let_def)

definition a_leave :: "abakery \<Rightarrow> abakery" where
  "a_leave s = (let ci = cust_idx (accepting s);
     s = upd_customer ci (\<lambda>c. c\<lparr>t_accept_end := current_time s, accept_started := False,
           paid := True, t_leave := current_time s, is_done := True\<rparr>) s;
     s = print (Leaves (current_time s) (cid (customer ci s))) s;
     s = chef_free_set (chef_id (accepting s)) True s
     in s\<lparr>register_busy := False, people_inside := people_inside s - 1,
          last_seat_freed_time := current_time s, sofa_q := filter (\<lambda>x. x \<noteq> ci) (sofa_q s)\<rparr>)"

definition a_finish_accepting :: "abakery \<Rightarrow> abakery" where
  "a_finish_accepting s =
     (if register_busy s \<and> end_time (accepting s) = current_time s then a_leave s else s)"

definition a_baked :: "inprog_t \<Rightarrow> abakery \<Rightarrow> abakery" where
  "a_baked b s = (let ci = cust_idx b;
     s = upd_customer ci (\<lambda>c. c\<lparr>baked := True, is_baking := False,
           t_bake_end := current_time s, t_pay_time := current_time s\<rparr>) s;
     s = print (Pays (current_time s) (cid (customer ci s))) s;
     s = s\<lparr>accept_ready_q := accept_ready_q s @ [ci]\<rparr>;
     s = chef_free_set (chef_id b) True s
     in s\<lparr>ovens_available := ovens_available s + 1\<rparr>)"

fun a_finish_bakings :: "inprog_t list \<Rightarrow> abakery \<Rightarrow> inprog_t list \<times> abakery" where
  "a_finish_bakings [] s = ([], s)"
| "a_finish_bakings (b # bs) s =
     (if end_time b = current_time s then a_finish_bakings bs (a_baked b s)
      else (case a_finish_bakings bs s of (nb, s) \<Rightarrow> (b # nb, s)))"

definition a_finish_tasks :: "abakery \<Rightarrow> abakery" where
  "a_finish_tasks s = (let s = a_finish_accepting s in
     case a_finish_bakings (baking s) s of (nb, s) \<Rightarrow> s\<lparr>baking := nb\<rparr>)"

definition allowed_sit :: "nat \<Rightarrow> 'q bakery \<Rightarrow> int" where
  "allowed_sit ci s = max (arrival_ts (customer ci s) + T_CUSTOMER_ACTION)
     (if last_seat_freed_time s = -1 then 0 else last_seat_freed_time s + 1)"

definition a_sit :: "nat \<Rightarrow> abakery \<Rightarrow> abakery" where
  "a_sit ci s = (let s = s\<lparr>sofa_q := sofa_q s @ [ci]\<rparr>;
     s = upd_customer ci (\<lambda>c. c\<lparr>seated := True, t_sat := current_time s\<rparr>) s
     in print (Sits (current_time s) (cid (customer ci s))) s)"

function a_move :: "abakery \<Rightarrow> abakery" where
  "a_move s =
     (if length (sofa_q s) < SOFA_CAPACITY \<and> standing_q s \<noteq> [] \<and>
         allowed_sit (hd (standing_q s)) s \<le> current_time s
      then a_move (a_sit (hd (standing_q s)) (s\<lparr>standing_q := tl (standing_q s)\<rparr>))
      else s)"
  by pat_completeness auto
termination
  by (relation "measure (\<lambda>s. length (standing_q s))")
    (auto simp: a_sit_def upd_customer_def print_def Let_def)

definition a_request :: "nat \<Rightarrow> abakery \<Rightarrow> abakery" where
  "a_request ci s = (let c = customer ci s in
     if seated c \<and> \<not> requested c \<and> current_time s \<ge> t_sat c + T_CUSTOMER_ACTION
     then print (Requests (current_time s) (cid c))
       (upd_customer ci (\<lambda>c. c\<lparr>requested := True, t_request := current_time s\<rparr>) s)
     else s)"

definition a_requests :: "abakery \<Rightarrow> abakery" where
  "a_requests s = fold a_request (sofa_q s) s"

definition a_accept :: "nat \<Rightarrow> nat \<Rightarrow> abakery \<Rightarrow> abakery" where
  "a_accept chef ci s = (let
     s = upd_customer ci (\<lambda>c. c\<lparr>accept_started := True, t_accept_start := current_time s,
           t_accept_end := current_time s + T_CHEF_ACTION\<rparr>) s;
     s = chef_free_set chef False (s\<lparr>register_busy := True\<rparr>);
     s = s\<lparr>accepting := \<lparr>cust_idx = ci, chef_id = chef, end_time = t_accept_end (customer ci s)\<rparr>\<rparr>
     in print (Accepts (current_time s) chef (cid (customer ci s))) s)"

definition a_accepts :: "abakery \<Rightarrow> abakery" where
  "a_accepts s =
     (if \<not> register_busy s \<and> get_free_chef s \<noteq> 0 \<and> accept_ready_q s \<noteq> [] \<and>
         t_pay_time (customer (hd (accept_ready_q s)) s) + T_CUSTOMER_ACTION \<le> current_time s
      then a_accept (get_free_chef s) (hd (accept_ready_q s))
        (s\<lparr>accept_ready_q := tl (accept_ready_q s)\<rparr>)
      else s)"

definition a_bake :: "nat \<Rightarrow> nat \<Rightarrow> abakery \<Rightarrow> abakery" where
  "a_bake chef ci s = (let
     s = upd_customer ci (\<lambda>c. c\<lparr>is_baking := True, t_bake_start := current_time s,
           t_bake_end := current_time s + T_CHEF_ACTION\<rparr>) s;
     s = s\<lparr>baking := baking s @ [\<lparr>cust_idx = ci, chef_id = chef,
           end_time = t_bake_end (customer ci s)\<rparr>], ovens_available := ovens_available s - 1\<rparr>;
     s = chef_free_set chef False s
     in print (Bakes (current_time s) chef (cid (customer ci s))) s)"

function a_bakes :: "abakery \<Rightarrow> abakery" where
  "a_bakes s =
     (if ovens_available s > 0 \<and> get_free_chef s \<noteq> 0 then
        (case find (can_bake s) (sofa_q s) of
           None \<Rightarrow> s
         | Some ci \<Rightarrow> a_bakes (a_bake (get_free_chef s) ci s))
      else s)"
  by pat_completeness auto
termination
  by (relation "measure (\<lambda>s. nat (ovens_available s))")
    (auto simp: a_bake_def upd_customer_def print_def chef_free_set_def Let_def)

definition a_tick :: "nat \<Rightarrow> abakery \<Rightarrow> nat \<times> abakery" where
  "a_tick i s = (case a_arrivals i s of (i, s) \<Rightarrow>
     (i, a_bakes (a_accepts (a_requests (a_move (a_finish_tasks s))))))"

definition a_finished :: "nat \<Rightarrow> abakery \<Rightarrow> bool" where
  "a_finished i s \<longleftrightarrow> \<not> register_busy s \<and> baking s = [] \<and> \<not> people_inside s > 0 \<and>
     \<not> i < num_arrivals s \<and> standing_q s = [] \<and> sofa_q s = [] \<and> accept_ready_q s = []"

declare a_arrivals.simps [simp del] a_move.simps [simp del] a_bakes.simps [simp del]

subsection \<open>The abstraction\<close>

definition abs_bk :: "queue_t bakery \<Rightarrow> abakery" where
  "abs_bk s = \<lparr>arrivals = arrivals s, customers = customers s, standing_q = q_items (standing_q s),
     sofa_q = q_items (sofa_q s), accept_ready_q = q_items (accept_ready_q s), baking = baking s,
     accepting = accepting s, register_busy = register_busy s, chef_free = chef_free s,
     ovens_available = ovens_available s, people_inside = people_inside s,
     current_time = current_time s, last_seat_freed_time = last_seat_freed_time s,
     printed = printed s\<rparr>"

lemma abs_bk_sel [simp]:
  "arrivals (abs_bk s) = arrivals s" "customers (abs_bk s) = customers s"
  "standing_q (abs_bk s) = q_items (standing_q s)" "sofa_q (abs_bk s) = q_items (sofa_q s)"
  "accept_ready_q (abs_bk s) = q_items (accept_ready_q s)" "baking (abs_bk s) = baking s"
  "accepting (abs_bk s) = accepting s" "register_busy (abs_bk s) = register_busy s"
  "chef_free (abs_bk s) = chef_free s" "ovens_available (abs_bk s) = ovens_available s"
  "people_inside (abs_bk s) = people_inside s" "current_time (abs_bk s) = current_time s"
  "last_seat_freed_time (abs_bk s) = last_seat_freed_time s" "printed (abs_bk s) = printed s"
  by (simp_all add: abs_bk_def)

lemma abs_bk_ops [simp]:
  "num_arrivals (abs_bk s) = num_arrivals s" "customer ci (abs_bk s) = customer ci s"
  "get_free_chef (abs_bk s) = get_free_chef s" "can_bake (abs_bk s) = can_bake s"
  "allowed_sit ci (abs_bk s) = allowed_sit ci s"
  by (simp_all add: num_arrivals_def customer_def get_free_chef_def can_bake_def fun_eq_iff allowed_sit_def)

lemma abs_bk_upd [simp]:
  "abs_bk (upd_customer ci f s) = upd_customer ci f (abs_bk s)"
  "abs_bk (print e s) = print e (abs_bk s)"
  "abs_bk (chef_free_set k b s) = chef_free_set k b (abs_bk s)"
  "abs_bk (s\<lparr>standing_q := q\<rparr>) = (abs_bk s)\<lparr>standing_q := q_items q\<rparr>"
  "abs_bk (s\<lparr>sofa_q := q\<rparr>) = (abs_bk s)\<lparr>sofa_q := q_items q\<rparr>"
  "abs_bk (s\<lparr>accept_ready_q := q\<rparr>) = (abs_bk s)\<lparr>accept_ready_q := q_items q\<rparr>"
  "abs_bk (s\<lparr>baking := bs\<rparr>) = (abs_bk s)\<lparr>baking := bs\<rparr>"
  "abs_bk (s\<lparr>accepting := a\<rparr>) = (abs_bk s)\<lparr>accepting := a\<rparr>"
  "abs_bk (s\<lparr>register_busy := b\<rparr>) = (abs_bk s)\<lparr>register_busy := b\<rparr>"
  "abs_bk (s\<lparr>ovens_available := n\<rparr>) = (abs_bk s)\<lparr>ovens_available := n\<rparr>"
  "abs_bk (s\<lparr>people_inside := n\<rparr>) = (abs_bk s)\<lparr>people_inside := n\<rparr>"
  "abs_bk (s\<lparr>current_time := n\<rparr>) = (abs_bk s)\<lparr>current_time := n\<rparr>"
  "abs_bk (s\<lparr>last_seat_freed_time := n\<rparr>) = (abs_bk s)\<lparr>last_seat_freed_time := n\<rparr>"
  by (simp_all add: abs_bk_def upd_customer_def print_def chef_free_set_def)

definition rings_wf :: "queue_t bakery \<Rightarrow> bool" where
  "rings_wf s \<longleftrightarrow> q_wf (standing_q s) \<and> q_wf (sofa_q s) \<and> q_wf (accept_ready_q s)"

subsection \<open>Fields the generic operations leave alone\<close>

lemma upd_customer_frame [simp, frame_simps]:
  "arrivals (upd_customer ci f s) = arrivals s" "standing_q (upd_customer ci f s) = standing_q s"
  "sofa_q (upd_customer ci f s) = sofa_q s" "accept_ready_q (upd_customer ci f s) = accept_ready_q s"
  "baking (upd_customer ci f s) = baking s" "accepting (upd_customer ci f s) = accepting s"
  "register_busy (upd_customer ci f s) = register_busy s" "ovens_available (upd_customer ci f s) = ovens_available s"
  "people_inside (upd_customer ci f s) = people_inside s" "current_time (upd_customer ci f s) = current_time s"
  "last_seat_freed_time (upd_customer ci f s) = last_seat_freed_time s" "chef_free (upd_customer ci f s) = chef_free s"
  "printed (upd_customer ci f s) = printed s"
  "customers (upd_customer ci f s) = (customers s)[ci := f (customers s ! ci)]"
  by (simp_all add: upd_customer_def)

lemma print_frame [simp, frame_simps]:
  "arrivals (print e s) = arrivals s" "standing_q (print e s) = standing_q s"
  "sofa_q (print e s) = sofa_q s" "accept_ready_q (print e s) = accept_ready_q s"
  "baking (print e s) = baking s" "accepting (print e s) = accepting s"
  "register_busy (print e s) = register_busy s" "ovens_available (print e s) = ovens_available s"
  "people_inside (print e s) = people_inside s" "current_time (print e s) = current_time s"
  "last_seat_freed_time (print e s) = last_seat_freed_time s" "chef_free (print e s) = chef_free s"
  "customers (print e s) = customers s"
  "printed (print e s) = printed s @ [e]"
  by (simp_all add: print_def)

lemma chef_free_set_frame [simp, frame_simps]:
  "arrivals (chef_free_set k b s) = arrivals s" "standing_q (chef_free_set k b s) = standing_q s"
  "sofa_q (chef_free_set k b s) = sofa_q s" "accept_ready_q (chef_free_set k b s) = accept_ready_q s"
  "baking (chef_free_set k b s) = baking s" "accepting (chef_free_set k b s) = accepting s"
  "register_busy (chef_free_set k b s) = register_busy s" "ovens_available (chef_free_set k b s) = ovens_available s"
  "people_inside (chef_free_set k b s) = people_inside s" "current_time (chef_free_set k b s) = current_time s"
  "last_seat_freed_time (chef_free_set k b s) = last_seat_freed_time s" "customers (chef_free_set k b s) = customers s"
  "printed (chef_free_set k b s) = printed s"
  "chef_free (chef_free_set k b s) = (chef_free s)[k - 1 := b]"
  by (simp_all add: chef_free_set_def)

lemma rings_wf_frame [simp]:
  "rings_wf (upd_customer ci f s) = rings_wf s" "rings_wf (print e s) = rings_wf s"
  "rings_wf (chef_free_set k b s) = rings_wf s"
  by (simp_all add: rings_wf_def)

lemma num_arrivals_frame [simp]:
  "num_arrivals (upd_customer ci f s) = num_arrivals s" "num_arrivals (print e s) = num_arrivals s"
  "num_arrivals (chef_free_set k b s) = num_arrivals s"
  by (simp_all add: num_arrivals_def)

subsection \<open>The program refines the specification\<close>

lemma finish_accepting_refines:
  assumes "rings_wf s"
  shows "rings_wf (finish_accepting s) \<and> abs_bk (finish_accepting s) = a_finish_accepting (abs_bk s)"
proof -
  have "q_wf (sofa_q s)" using assms by (simp add: rings_wf_def)
  moreover from this have "q_sz (sofa_q s) \<le> 2048" by (simp add: q_wf_def)
  ultimately have "q_wf (rebuild_sofa ci (sofa_q s) (q_init (sofa_q s))) \<and>
      q_items (rebuild_sofa ci (sofa_q s) (q_init (sofa_q s))) = filter (\<lambda>x. x \<noteq> ci) (q_items (sofa_q s))" for ci
    using rebuild_sofa_items [of "sofa_q s" "q_init (sofa_q s)" ci] by simp
  then show ?thesis using assms
    by (simp add: finish_accepting_def a_finish_accepting_def a_leave_def Let_def rings_wf_def customer_def)
qed

lemma finish_bakings_refines:
  "rings_wf s \<Longrightarrow> q_sz (accept_ready_q s) + length bs \<le> 2048 \<Longrightarrow> finish_bakings bs s = (nb, s') \<Longrightarrow>
    rings_wf s' \<and> a_finish_bakings bs (abs_bk s) = (nb, abs_bk s')"
proof (induction bs arbitrary: s nb s')
  case (Cons b bs)
  show ?case
  proof (cases "end_time b = current_time s")
    case True
    define t where "t = (let ci = cust_idx b;
            s = upd_customer ci (\<lambda>c. c\<lparr>baked := True, is_baking := False,
                  t_bake_end := current_time s, t_pay_time := current_time s\<rparr>) s;
            s = print (Pays (current_time s) (cid (customer ci s))) s;
            s = s\<lparr>accept_ready_q := q_push ci (accept_ready_q s)\<rparr>;
            s = chef_free_set (chef_id b) True s
        in s\<lparr>ovens_available := ovens_available s + 1\<rparr>)"
    have q: "q_wf (accept_ready_q s)" "length (q_items (accept_ready_q s)) < 2048"
      using Cons.prems by (simp_all add: rings_wf_def)
    have t: "rings_wf t" "abs_bk t = a_baked b (abs_bk s)" "q_sz (accept_ready_q t) = q_sz (accept_ready_q s) + 1"
      using Cons.prems(1) ring.push_wf [OF q] ring.push_items [OF q, of "cust_idx b"] q_push_fields [OF q(1)] q(2)
      by (simp_all add: t_def a_baked_def Let_def rings_wf_def customer_def)
    have "finish_bakings bs t = (nb, s')" using Cons.prems(3) True by (simp add: t_def Let_def)
    then show ?thesis using Cons.IH [OF t(1), of nb s'] Cons.prems(2) t True by simp
  next
    case False
    then obtain nb' where "finish_bakings bs s = (nb', s')" "nb = b # nb'"
      using Cons.prems(3) by (auto split: prod.splits)
    then show ?thesis using Cons.IH [OF Cons.prems(1), of nb' s'] Cons.prems(2) False by simp
  qed
qed simp

lemma finish_tasks_refines:
  assumes "rings_wf s" "q_sz (accept_ready_q s) + length (baking s) \<le> 2048"
  shows "rings_wf (finish_tasks_at_time s) \<and> abs_bk (finish_tasks_at_time s) = a_finish_tasks (abs_bk s)"
proof -
  obtain nb s' where f: "finish_bakings (baking s) (finish_accepting s) = (nb, s')" by fastforce
  note r = finish_accepting_refines [OF assms(1)]
  have "accept_ready_q (finish_accepting s) = accept_ready_q s" "baking (finish_accepting s) = baking s"
    by (simp_all add: finish_accepting_def Let_def)
  moreover from this have "baking (a_finish_accepting (abs_bk s)) = baking s" using r by (metis abs_bk_sel(6))
  ultimately show ?thesis
    using finish_bakings_refines [OF conjunct1 [OF r] _ f] assms(2) r
    by (simp add: finish_tasks_at_time_def a_finish_tasks_def f Let_def rings_wf_def)
qed

lemma process_arrivals_refines:
  "rings_wf s \<Longrightarrow> q_sz (standing_q s) + (num_arrivals s - i) \<le> 2048 \<Longrightarrow>
    process_arrivals_at_time i s = (j, s') \<Longrightarrow> rings_wf s' \<and> a_arrivals i (abs_bk s) = (j, abs_bk s')"
proof (induction "num_arrivals s - i" arbitrary: i s)
  case 0
  then show ?case
    by (subst a_arrivals.simps) (simp add: process_arrivals_at_time.simps [of i])
next
  case (Suc k)
  show ?case
  proof (cases "ts (arrivals s ! i) = current_time s")
    case False
    then show ?thesis using Suc.prems
      by (subst a_arrivals.simps) (simp add: process_arrivals_at_time.simps [of i])
  next
    case True
    have lt: "i < num_arrivals s" "k = num_arrivals s - (i + 1)" using Suc.hyps(2) by simp_all
    show ?thesis
    proof (cases "people_inside s \<ge> MAX_CAPACITY")
      case full: True
      have "process_arrivals_at_time (i + 1) s = (j, s')"
        using Suc.prems(3) True lt full by (simp add: process_arrivals_at_time.simps [of i])
      then have "rings_wf s' \<and> a_arrivals (i + 1) (abs_bk s) = (j, abs_bk s')"
        using Suc.hyps(1) [OF lt(2)] Suc.prems(1,2) by simp
      then show ?thesis using True lt full by (simp add: a_arrivals.simps [of i])
    next
      case False
      define t where "t = (let s = upd_customer i (\<lambda>c. c\<lparr>entered := True\<rparr>) s;
                 s = s\<lparr>people_inside := people_inside s + 1\<rparr>;
                 s = print (Enters (current_time s) (cid (customer i s))) s
              in s\<lparr>standing_q := q_push i (standing_q s)\<rparr>)"
      have q: "q_wf (standing_q s)" "length (q_items (standing_q s)) < 2048"
        using Suc.prems(1,2) Suc.hyps(2) by (simp_all add: rings_wf_def)
      have t: "rings_wf t" "abs_bk t = a_enter i (abs_bk s)" "q_sz (standing_q t) = q_sz (standing_q s) + 1"
        "num_arrivals t = num_arrivals s"
        using Suc.prems(1) ring.push_wf [OF q] ring.push_items [OF q, of i] q_push_fields [OF q(1)] q(2)
        by (simp_all add: t_def a_enter_def Let_def rings_wf_def customer_def num_arrivals_def)
      have "process_arrivals_at_time (i + 1) t = (j, s')"
        using Suc.prems(3) True lt False
        by (simp add: process_arrivals_at_time.simps [of i s] t_def Let_def)
      then have "rings_wf s' \<and> a_arrivals (i + 1) (abs_bk t) = (j, abs_bk s')"
        using Suc.hyps(1) [of t "i + 1"] lt t Suc.prems(2) by simp
      then show ?thesis using True lt False t(2) by (simp add: a_arrivals.simps [of i])
    qed
  qed
qed


lemma move_refines:
  "rings_wf s \<Longrightarrow> rings_wf (move_standing_to_sofa_if_possible s) \<and>
    abs_bk (move_standing_to_sofa_if_possible s) = a_move (abs_bk s)"
proof (induction "q_items (standing_q s)" arbitrary: s)
  case Nil
  then show ?case
    by (simp add: move_standing_to_sofa_if_possible.simps [of s] a_move.simps [of "abs_bk s"] q_empty_items)
next
  case (Cons ci xs)
  have wf: "q_wf (standing_q s)" "q_wf (sofa_q s)" using Cons.prems by (simp_all add: rings_wf_def)
  obtain q where q: "q_pop (standing_q s) = (ci, q)" "q_wf q" "q_items q = xs"
    using q_pop_Cons [OF wf(1) Cons.hyps(2) [symmetric]] .
  have front: "q_front (standing_q s) = ci"
    using q_front_items [OF wf(1)] Cons.hyps(2) by (metis list.distinct(1) list.sel(1))
  show ?case
  proof (cases "q_size (sofa_q s) < SOFA_CAPACITY \<and> allowed_sit ci s \<le> current_time s")
    case False
    have "move_standing_to_sofa_if_possible s = s"
      using False Cons.hyps(2) front
      by (subst move_standing_to_sofa_if_possible.simps)
        (auto simp: Let_def q_empty_items allowed_sit_def max_def split: if_splits)
    moreover have "a_move (abs_bk s) = abs_bk s"
      using False Cons.hyps(2) [symmetric] by (subst a_move.simps) (auto simp: q_size_items)
    ultimately show ?thesis using Cons.prems by simp
  next
    case True
    define t where "t = (let s = s\<lparr>standing_q := q\<rparr>; s = s\<lparr>sofa_q := q_push ci (sofa_q s)\<rparr>;
        s = upd_customer ci (\<lambda>c. c\<lparr>seated := True, t_sat := current_time s\<rparr>) s
      in print (Sits (current_time s) (cid (customer ci s))) s)"
    have len: "length (q_items (sofa_q s)) < 2048"
      using True by (simp add: q_size_items SOFA_CAPACITY_def)
    have t: "rings_wf t" "abs_bk t = a_sit ci ((abs_bk s)\<lparr>standing_q := xs\<rparr>)" "q_items (standing_q t) = xs"
      using Cons.prems q(2,3) ring.push_wf [OF wf(2) len] ring.push_items [OF wf(2) len, of ci]
      by (simp_all add: t_def a_sit_def Let_def rings_wf_def customer_def)
    have "move_standing_to_sofa_if_possible s = move_standing_to_sofa_if_possible t"
      using True Cons.hyps(2) front q(1)
      by (subst move_standing_to_sofa_if_possible.simps)
        (auto simp: Let_def q_empty_items allowed_sit_def max_def t_def split: if_splits)
    moreover have "a_move (abs_bk s) = a_move (abs_bk t)"
      using True Cons.hyps(2) [symmetric] t(2) by (subst a_move.simps) (simp add: q_size_items)
    ultimately show ?thesis using Cons.hyps(1) [OF t(3) [symmetric] t(1)] by simp
  qed
qed

lemma requests_loop_refines:
  "rings_wf s \<Longrightarrow> q_items (sofa_q s) = xs @ ys \<Longrightarrow>
    rings_wf (requests_loop (length xs) s) \<and>
    abs_bk (requests_loop (length xs) s) = (fold a_request xs (abs_bk s))\<lparr>sofa_q := ys @ xs\<rparr>"
proof (induction xs arbitrary: s ys)
  case Nil
  moreover have "abs_bk s = (abs_bk s)\<lparr>sofa_q := q_items (sofa_q s)\<rparr>" by (simp add: abs_bk_def)
  ultimately show ?case by simp
next
  case (Cons ci xs)
  have wf: "q_wf (sofa_q s)" using Cons.prems by (simp add: rings_wf_def)
  have it: "q_items (sofa_q s) = ci # (xs @ ys)" using Cons.prems(2) by simp
  obtain q where q: "q_pop (sofa_q s) = (ci, q)" "q_wf q" "q_items q = xs @ ys"
    using q_pop_Cons [OF wf it] .
  have len: "length (q_items q) < 2048"
    using it q(3) wf by (metis Suc_le_lessD length_Cons length_q_items q_wf_def)
  define u where "u = (let s = s\<lparr>sofa_q := q\<rparr>; c = customer ci s in
            (if seated c \<and> \<not> requested c \<and> current_time s \<ge> t_sat c + T_CUSTOMER_ACTION
                 then print (Requests (current_time s) (cid c))
                   (upd_customer ci (\<lambda>c. c\<lparr>requested := True, t_request := current_time s\<rparr>) s)
                 else s))"
  define t where "t = u\<lparr>sofa_q := q_push ci (sofa_q u)\<rparr>"
  have u: "sofa_q u = q" "rings_wf u" "abs_bk u = a_request ci ((abs_bk s)\<lparr>sofa_q := xs @ ys\<rparr>)"
    using Cons.prems(1) q(2,3)
    by (simp_all add: u_def a_request_def Let_def rings_wf_def customer_def)
  then have t: "rings_wf t" "q_items (sofa_q t) = xs @ (ys @ [ci])"
      "abs_bk t = (a_request ci ((abs_bk s)\<lparr>sofa_q := xs @ ys\<rparr>))\<lparr>sofa_q := xs @ ys @ [ci]\<rparr>"
    using ring.push_wf [OF q(2) len] ring.push_items [OF q(2) len] q(3)
    by (simp_all add: t_def rings_wf_def)
  have one: "a_request x (r\<lparr>sofa_q := l\<rparr>) = (a_request x r)\<lparr>sofa_q := l\<rparr>" for x r l
    by (simp add: a_request_def Let_def customer_def upd_customer_def print_def)
  have sofa: "fold a_request zs (r\<lparr>sofa_q := l\<rparr>) = (fold a_request zs r)\<lparr>sofa_q := l\<rparr>" for zs r l
    by (induction zs arbitrary: r) (simp_all add: one)
  have "requests_loop (length (ci # xs)) s = requests_loop (length xs) t"
    by (simp add: q(1) t_def u_def Let_def)
  then show ?case using Cons.IH [OF t(1,2)] t(3) by (simp add: sofa one)
qed

lemma make_requests_refines:
  assumes "rings_wf s"
  shows "rings_wf (make_requests_from_sofa s) \<and> abs_bk (make_requests_from_sofa s) = a_requests (abs_bk s)"
proof -
  have keep: "sofa_q (fold a_request zs r) = sofa_q r" for zs and r :: abakery
    by (induction zs arbitrary: r) (simp_all add: a_request_def Let_def)
  have "r\<lparr>sofa_q := sofa_q r\<rparr> = r" for r :: abakery by simp
  then have "(fold a_request (sofa_q r) r)\<lparr>sofa_q := sofa_q r\<rparr> = fold a_request (sofa_q r) r" for r :: abakery
    using keep [of "sofa_q r" r] by metis
  from this [of "abs_bk s"] show ?thesis
    using requests_loop_refines [OF assms, of "q_items (sofa_q s)" "[]"]
    by (simp add: make_requests_from_sofa_def a_requests_def q_size_def)
qed

lemma schedule_accepts_refines:
  assumes "rings_wf s"
  shows "rings_wf (schedule_accepts s) \<and> abs_bk (schedule_accepts s) = a_accepts (abs_bk s)"
proof (cases "register_busy s \<or> get_free_chef s = 0 \<or> q_items (accept_ready_q s) = []")
  case True
  then have "schedule_accepts s = s"
    by (subst schedule_accepts.simps) (auto simp: Let_def q_empty_items)
  moreover have "a_accepts (abs_bk s) = abs_bk s" using True by (auto simp: a_accepts_def)
  ultimately show ?thesis using assms by simp
next
  case False
  then obtain ci xs where it: "q_items (accept_ready_q s) = ci # xs"
    by (cases "q_items (accept_ready_q s)") auto
  have wf: "q_wf (accept_ready_q s)" using assms by (simp add: rings_wf_def)
  obtain q where q: "q_pop (accept_ready_q s) = (ci, q)" "q_wf q" "q_items q = xs"
    using q_pop_Cons [OF wf it] .
  have front: "q_front (accept_ready_q s) = ci" using q_front_items [OF wf] it by simp
  show ?thesis
  proof (cases "current_time s < t_pay_time (customer ci s) + T_CUSTOMER_ACTION")
    case True
    then have "schedule_accepts s = s"
      using False front by (subst schedule_accepts.simps) (auto simp: Let_def q_empty_items)
    moreover have "a_accepts (abs_bk s) = abs_bk s" using True it by (auto simp: a_accepts_def)
    ultimately show ?thesis using assms by simp
  next
    case late: False
    define t where "t = (let s = s\<lparr>accept_ready_q := q\<rparr>;
        s = upd_customer ci (\<lambda>c. c\<lparr>accept_started := True, t_accept_start := current_time s,
                         t_accept_end := current_time s + T_CHEF_ACTION\<rparr>) s;
        chef = get_free_chef s;
        s = chef_free_set chef False (s\<lparr>register_busy := True\<rparr>);
        s = s\<lparr>accepting := \<lparr>cust_idx = ci, chef_id = chef, end_time = t_accept_end (customer ci s)\<rparr>\<rparr>
      in print (Accepts (current_time s) chef (cid (customer ci s))) s)"
    have busy: "register_busy t" by (simp add: t_def Let_def)
    have "schedule_accepts s = schedule_accepts t"
      using False late front q(1)
      by (subst schedule_accepts.simps) (simp add: Let_def q_empty_items t_def get_free_chef_def)
    also have "\<dots> = t" using busy by (subst schedule_accepts.simps) simp
    finally have "schedule_accepts s = t" .
    moreover have "rings_wf t" using assms q(2) by (simp add: t_def Let_def rings_wf_def)
    moreover have "abs_bk t = a_accepts (abs_bk s)"
      using False late it q(3)
      by (simp add: t_def a_accepts_def a_accept_def Let_def customer_def get_free_chef_def)
    ultimately show ?thesis by simp
  qed
qed

lemma find_in: "find P xs = Some x \<Longrightarrow> xs \<noteq> []"
  by auto

lemma schedule_bakes_refines:
  "rings_wf s \<Longrightarrow> rings_wf (schedule_bakes s) \<and> abs_bk (schedule_bakes s) = a_bakes (abs_bk s)"
proof (induction "nat (ovens_available s)" arbitrary: s rule: less_induct)
  case less
  show ?case
  proof (cases "ovens_available s > 0 \<and> get_free_chef s \<noteq> 0 \<and> q_items (sofa_q s) \<noteq> []")
    case False
    then have "schedule_bakes s = s"
      by (subst schedule_bakes.simps) (auto simp: Let_def q_size_def q_items_def)
    moreover have "a_bakes (abs_bk s) = abs_bk s"
      using False by (subst a_bakes.simps) (auto split: option.split dest: find_in)
    ultimately show ?thesis using less.prems by simp
  next
    case True
    have wf: "q_wf (sofa_q s)" using less.prems by (simp add: rings_wf_def)
    obtain q where q: "sofa_order (q_size (sofa_q s)) (sofa_q s) = (q_items (sofa_q s), q)"
        "q_wf q" "q_items q = q_items (sofa_q s)"
      using sofa_order_all [OF wf] by blast
    have nz: "q_size (sofa_q s) \<noteq> 0" using True by (simp add: q_size_def q_items_def)
    have can: "can_bake (s\<lparr>sofa_q := q\<rparr>) = can_bake s" by (simp add: can_bake_def customer_def fun_eq_iff)
    have same: "abs_bk (s\<lparr>sofa_q := q\<rparr>) = abs_bk s" using q(3) by (simp add: abs_bk_def)
    have w: "rings_wf (s\<lparr>sofa_q := q\<rparr>)" using less.prems q(2) by (simp add: rings_wf_def)
    show ?thesis
    proof (cases "find (can_bake s) (q_items (sofa_q s))")
      case None
      then have "schedule_bakes s = s\<lparr>sofa_q := q\<rparr>"
        using True q(1) nz by (subst schedule_bakes.simps) (simp add: Let_def can)
      moreover have "a_bakes (abs_bk s) = abs_bk s" using None by (subst a_bakes.simps) simp
      ultimately show ?thesis using same w by simp
    next
      case (Some ci)
      define t where "t = (let s = s\<lparr>sofa_q := q\<rparr>; chef = get_free_chef s;
        s = upd_customer ci (\<lambda>c. c\<lparr>is_baking := True, t_bake_start := current_time s,
                          t_bake_end := current_time s + T_CHEF_ACTION\<rparr>) s;
        s = s\<lparr>baking := baking s @ [\<lparr>cust_idx = ci, chef_id = chef,
                          end_time = t_bake_end (customer ci s)\<rparr>],
                          ovens_available := ovens_available s - 1\<rparr>;
        s = chef_free_set chef False s
        in print (Bakes (current_time s) chef (cid (customer ci s))) s)"
      have "schedule_bakes s = schedule_bakes t"
        using True q(1) Some nz
        by (subst schedule_bakes.simps) (simp add: Let_def can t_def get_free_chef_def)
      moreover have t: "rings_wf t" "abs_bk t = a_bake (get_free_chef s) ci (abs_bk s)"
          "ovens_available t = ovens_available s - 1"
        using w same [symmetric]
        by (simp_all add: t_def a_bake_def Let_def rings_wf_def customer_def get_free_chef_def)
      moreover have "a_bakes (abs_bk s) = a_bakes (abs_bk t)"
        using True Some t(2) by (subst a_bakes.simps) simp
      ultimately show ?thesis using less.hyps [of t] True by simp
    qed
  qed
qed

end
