(* ===== verification/BakeryInv.thy ===== *)
theory BakeryInv
  imports BakerySpec
begin

section \<open>The invariant of the bakery\<close>

text \<open>
  \<open>seats\<close>: who is inside, where, and that nobody is counted twice; \<open>staff\<close>: chefs and
  ovens are handed out consistently; \<open>flow\<close>: the flags of a seated customer say in
  which of the queues and tasks the customer is; \<open>clock\<close>: what the recorded times
  promise.  Every operation of the specification keeps them.
\<close>

definition busy_chefs :: "'q bakery \<Rightarrow> nat list" where
  "busy_chefs s = map chef_id (baking s) @ (if register_busy s then [chef_id (accepting s)] else [])"

definition staff :: "'q bakery \<Rightarrow> bool" where
  "staff s \<longleftrightarrow> length (chef_free s) = 4 \<and> distinct (busy_chefs s) \<and> set (busy_chefs s) \<subseteq> {1..4} \<and>
     (\<forall>k\<in>{1..4}. chef_free s ! (k - 1) \<longleftrightarrow> k \<notin> set (busy_chefs s)) \<and>
     ovens_available s = 4 - int (length (baking s))"

definition seats :: "nat \<Rightarrow> abakery \<Rightarrow> bool" where
  "seats i s \<longleftrightarrow> i \<le> num_arrivals s \<and> length (customers s) = num_arrivals s \<and>
     distinct (standing_q s @ sofa_q s) \<and> set (standing_q s) \<union> set (sofa_q s) \<subseteq> {..<i} \<and>
     people_inside s = int (length (standing_q s)) + int (length (sofa_q s)) \<and>
     people_inside s \<le> 25 \<and> length (sofa_q s) \<le> 4"

definition in_oven :: "'q bakery \<Rightarrow> nat set" where
  "in_oven s = cust_idx ` set (baking s)"

definition at_register :: "'q bakery \<Rightarrow> nat set" where
  "at_register s = (if register_busy s then {cust_idx (accepting s)} else {})"

definition fresh :: "customer_t \<Rightarrow> bool" where
  "fresh c \<longleftrightarrow> \<not> seated c \<and> \<not> requested c \<and> \<not> is_baking c \<and> \<not> baked c"

definition seated_ok :: "nat \<Rightarrow> abakery \<Rightarrow> bool" where
  "seated_ok ci s \<longleftrightarrow> seated (customer ci s) \<and>
     (is_baking (customer ci s) \<longleftrightarrow> ci \<in> in_oven s) \<and>
     (baked (customer ci s) \<longleftrightarrow> ci \<in> set (accept_ready_q s) \<union> at_register s) \<and>
     (is_baking (customer ci s) \<longrightarrow> requested (customer ci s) \<and> \<not> baked (customer ci s)) \<and>
     (baked (customer ci s) \<longrightarrow> requested (customer ci s))"

definition flow :: "nat \<Rightarrow> abakery \<Rightarrow> bool" where
  "flow i s \<longleftrightarrow> distinct (accept_ready_q s) \<and> set (accept_ready_q s) \<subseteq> set (sofa_q s) \<and>
     distinct (map cust_idx (baking s)) \<and> in_oven s \<subseteq> set (sofa_q s) \<and>
     at_register s \<subseteq> set (sofa_q s) - set (accept_ready_q s) \<and>
     (\<forall>ci\<in>set (sofa_q s). seated_ok ci s) \<and>
     (\<forall>ci. ci \<in> set (standing_q s) \<or> i \<le> ci \<and> ci < num_arrivals s \<longrightarrow> fresh (customer ci s))"

definition past :: "int \<Rightarrow> customer_t \<Rightarrow> bool" where
  "past t c \<longleftrightarrow> t_sat c \<le> t \<and> (requested c \<longrightarrow> t_request c \<le> t) \<and> (baked c \<longrightarrow> t_pay_time c \<le> t)"

definition clock :: "nat \<Rightarrow> abakery \<Rightarrow> bool" where
  "clock i s \<longleftrightarrow>
     (\<forall>b\<in>set (baking s). current_time s \<le> end_time b \<and> end_time b \<le> current_time s + 2) \<and>
     (register_busy s \<longrightarrow> current_time s \<le> end_time (accepting s) \<and>
        end_time (accepting s) \<le> current_time s + 2) \<and>
     (\<forall>ci\<in>set (sofa_q s). past (current_time s) (customer ci s)) \<and>
     (last_seat_freed_time s = -1 \<or> last_seat_freed_time s \<le> current_time s) \<and>
     (\<forall>k<num_arrivals s. arrival_ts (customer k s) = ts (arrivals s ! k)) \<and>
     sorted (map ts (arrivals s)) \<and> (\<forall>k<i. ts (arrivals s ! k) \<le> current_time s) \<and>
     (\<forall>k. i \<le> k \<and> k < num_arrivals s \<longrightarrow> current_time s \<le> ts (arrivals s ! k))"

definition bk_inv :: "nat \<Rightarrow> abakery \<Rightarrow> bool" where
  "bk_inv i s \<longleftrightarrow> seats i s \<and> staff s \<and> flow i s \<and> clock i s"

lemmas bk_defs = seats_def staff_def flow_def clock_def busy_chefs_def in_oven_def at_register_def
  num_arrivals_def

subsection \<open>Customers through updates\<close>

lemma customer_upd [simp]:
  "cj < length (customers s) \<Longrightarrow>
    customer ci (upd_customer cj f s) = (if ci = cj then f (customer cj s) else customer ci s)"
  by (simp add: customer_def)

lemma customer_frame [simp]:
  "customer ci (print e s) = customer ci s" "customer ci (chef_free_set k b s) = customer ci s"
  "customer ci (s\<lparr>standing_q := q\<rparr>) = customer ci s" "customer ci (s\<lparr>sofa_q := q\<rparr>) = customer ci s"
  "customer ci (s\<lparr>accept_ready_q := q\<rparr>) = customer ci s" "customer ci (s\<lparr>baking := bs\<rparr>) = customer ci s"
  "customer ci (s\<lparr>accepting := a\<rparr>) = customer ci s" "customer ci (s\<lparr>register_busy := b\<rparr>) = customer ci s"
  "customer ci (s\<lparr>ovens_available := m\<rparr>) = customer ci s"
  "customer ci (s\<lparr>people_inside := m\<rparr>) = customer ci s"
  "customer ci (s\<lparr>current_time := m\<rparr>) = customer ci s"
  "customer ci (s\<lparr>last_seat_freed_time := m\<rparr>) = customer ci s"
  by (simp_all add: customer_def)

lemma sofa_index: "seats i s \<Longrightarrow> ci \<in> set (sofa_q s) \<Longrightarrow> ci < length (customers s) \<and> ci < i"
  by (auto simp: seats_def)

lemma standing_index: "seats i s \<Longrightarrow> ci \<in> set (standing_q s) \<Longrightarrow> ci < length (customers s) \<and> ci < i"
  by (auto simp: seats_def)

subsection \<open>Arrivals\<close>

lemma enter_inv:
  assumes inv: "bk_inv i s" and i: "i < num_arrivals s" "people_inside s < MAX_CAPACITY"
    and t: "ts (arrivals s ! i) = current_time s"
  shows "bk_inv (i + 1) (a_enter i s)"
proof -
  have len: "i < length (customers s)" using inv i by (simp add: bk_inv_def seats_def)
  have out: "i \<notin> set (standing_q s) \<union> set (sofa_q s)" using inv by (auto simp: bk_inv_def seats_def)
  have "seats (i + 1) (a_enter i s)"
    using inv i out by (auto simp: bk_inv_def seats_def a_enter_def Let_def MAX_CAPACITY_def num_arrivals_def)
  moreover have "staff (a_enter i s)"
    using inv by (simp add: bk_inv_def staff_def busy_chefs_def a_enter_def Let_def)
  moreover have "flow (i + 1) (a_enter i s)"
    using inv len out i
    by (auto simp: bk_inv_def flow_def seated_ok_def a_enter_def Let_def in_oven_def at_register_def
        num_arrivals_def fresh_def)
  moreover have "clock (i + 1) (a_enter i s)"
    using inv len out t
    by (auto simp: bk_inv_def clock_def a_enter_def Let_def num_arrivals_def past_def less_Suc_eq)
  ultimately show ?thesis by (simp add: bk_inv_def)
qed

lemma skip_inv:
  assumes "bk_inv i s" "i < num_arrivals s" "ts (arrivals s ! i) = current_time s"
  shows "bk_inv (i + 1) s"
  using assms by (auto simp: bk_inv_def seats_def flow_def clock_def less_Suc_eq)

lemma arrivals_inv:
  "bk_inv i s \<Longrightarrow> a_arrivals i s = (j, s') \<Longrightarrow> bk_inv j s' \<and>
    (\<forall>k. j \<le> k \<and> k < num_arrivals s' \<longrightarrow> current_time s' < ts (arrivals s' ! k)) \<and>
    current_time s' = current_time s \<and> arrivals s' = arrivals s"
proof (induction i s arbitrary: j s' rule: a_arrivals.induct)
  case (1 i s)
  show ?case
  proof (cases "i < num_arrivals s \<and> ts (arrivals s ! i) = current_time s")
    case True
    let ?t = "if people_inside s \<ge> MAX_CAPACITY then s else a_enter i s"
    have "bk_inv (i + 1) ?t" using enter_inv skip_inv True "1.prems"(1) by auto
    moreover have "a_arrivals (i + 1) ?t = (j, s')"
      using "1.prems"(2) True by (subst (asm) a_arrivals.simps) simp
    moreover have "current_time ?t = current_time s" "arrivals ?t = arrivals s"
      by (simp_all add: a_enter_def Let_def)
    ultimately show ?thesis using "1.IH" [OF True, of j s'] by auto
  next
    case False
    then have e: "j = i" "s' = s" using "1.prems"(2) by (subst (asm) a_arrivals.simps, auto)+
    have "current_time s < ts (arrivals s ! k)" if k: "i \<le> k" "k < num_arrivals s" for k
    proof -
      have "sorted (map ts (arrivals s))" "current_time s \<le> ts (arrivals s ! i)"
        using "1.prems"(1) k by (auto simp: bk_inv_def clock_def)
      moreover from this(1) have "ts (arrivals s ! i) \<le> ts (arrivals s ! k)"
        using sorted_nth_mono [of "map ts (arrivals s)" i k] k by (simp add: num_arrivals_def)
      ultimately show ?thesis using False k by force
    qed
    then show ?thesis using e "1.prems"(1) by simp
  qed
qed


subsection \<open>Chefs taken and returned\<close>

lemma staff_return:
  assumes "staff s" "1 \<le> k" "k \<le> 4" "chef_free s' = (chef_free s)[k - 1 := True]"
    and "distinct (busy_chefs s')" "set (busy_chefs s') = set (busy_chefs s) - {k}"
    and "ovens_available s' = 4 - int (length (baking s'))"
  shows "staff s'"
proof -
  have "chef_free s' ! (j - 1) = (if j = k then True else chef_free s ! (j - 1))" if "j \<in> {1..4}" for j
  proof (cases "j = k")
    case False
    then have "j - 1 \<noteq> k - 1" using that assms(2) by auto
    then show ?thesis using False by (simp add: assms(4))
  qed (use assms in \<open>auto simp: staff_def\<close>)
  then show ?thesis using assms unfolding staff_def by auto
qed

lemma staff_take:
  assumes "staff s" "1 \<le> k" "k \<le> 4" "chef_free s' = (chef_free s)[k - 1 := False]"
    and "distinct (busy_chefs s')" "set (busy_chefs s') = insert k (set (busy_chefs s))"
    and "ovens_available s' = 4 - int (length (baking s'))"
  shows "staff s'"
proof -
  have "chef_free s' ! (j - 1) = (if j = k then False else chef_free s ! (j - 1))" if "j \<in> {1..4}" for j
  proof (cases "j = k")
    case False
    then have "j - 1 \<noteq> k - 1" using that assms(2) by auto
    then show ?thesis using False by (simp add: assms(4))
  qed (use assms in \<open>auto simp: staff_def\<close>)
  then show ?thesis using assms unfolding staff_def by auto
qed

lemma free_chef_from:
  "get_free_chef_from j bs \<noteq> 0 \<Longrightarrow> get_free_chef_from j bs - 1 - j < length bs \<and>
    j < get_free_chef_from j bs \<and> bs ! (get_free_chef_from j bs - 1 - j)"
proof (induction bs arbitrary: j)
  case (Cons b bs)
  show ?case
  proof (cases b)
    case False
    then have "get_free_chef_from (j + 1) bs \<noteq> 0" using Cons.prems by simp
    from Cons.IH [OF this] show ?thesis using False
      by (simp add: nth_Cons split: nat.split) (metis Suc_diff_Suc diff_Suc_1 diff_Suc_eq_diff_pred nth_Cons_Suc)
  qed simp
qed simp

lemma free_chef_none: "get_free_chef_from j bs = 0 \<longleftrightarrow> (\<forall>b\<in>set bs. \<not> b)"
  by (induction bs arbitrary: j) auto

lemma get_free_chef_Some:
  assumes "staff s" "get_free_chef s \<noteq> 0"
  shows "1 \<le> get_free_chef s" "get_free_chef s \<le> 4" "get_free_chef s \<notin> set (busy_chefs s)"
proof -
  have f: "get_free_chef s - 1 < 4" "chef_free s ! (get_free_chef s - 1)"
    using free_chef_from [of 0 "chef_free s"] assms by (auto simp: get_free_chef_def staff_def)
  show "1 \<le> get_free_chef s" using assms(2) by simp
  then show "get_free_chef s \<le> 4" using f(1) by linarith
  with \<open>1 \<le> get_free_chef s\<close> show "get_free_chef s \<notin> set (busy_chefs s)"
    using f(2) assms(1) by (auto simp: staff_def)
qed

lemma get_free_chef_None:
  assumes "staff s" "get_free_chef s = 0"
  shows "length (busy_chefs s) = 4"
proof -
  have l: "length (chef_free s) = 4" using assms(1) by (simp add: staff_def)
  have "\<forall>b\<in>set (chef_free s). \<not> b"
    using assms(2) free_chef_none unfolding get_free_chef_def by blast
  then have n: "\<not> chef_free s ! j" if "j < 4" for j using that l nth_mem by metis
  have "k \<in> set (busy_chefs s)" if "1 \<le> k" "k \<le> 4" for k
    using n [of "k - 1"] that assms(1) by (auto simp: staff_def)
  then have "set (busy_chefs s) = {1..4}" using assms(1) by (auto simp: staff_def)
  then show ?thesis using assms(1) distinct_card [of "busy_chefs s"] by (simp add: staff_def)
qed

subsection \<open>Tasks that end\<close>

lemma length_filter_out:
  "distinct xs \<Longrightarrow> x \<in> set xs \<Longrightarrow> int (length (filter (\<lambda>y. y \<noteq> x) xs)) = int (length xs) - 1"
proof (induction xs)
  case (Cons y ys)
  then have "x = y \<Longrightarrow> filter (\<lambda>y. y \<noteq> x) ys = ys" by (auto simp: filter_id_conv)
  then show ?case using Cons by (cases "x = y") auto
qed simp

lemma leave_inv:
  assumes inv: "bk_inv i s" and busy: "register_busy s"
  shows "bk_inv i (a_leave s)"
proof -
  let ?ci = "cust_idx (accepting s)"
  have ci: "?ci \<in> set (sofa_q s)" using inv busy by (auto simp: bk_inv_def flow_def at_register_def)
  then have len: "?ci < length (customers s)" using inv sofa_index by (auto simp: bk_inv_def)
  have nb: "?ci \<notin> in_oven s" "?ci \<notin> set (accept_ready_q s)" "?ci \<notin> set (standing_q s)"
    using inv busy ci by (auto simp: bk_inv_def flow_def seated_ok_def at_register_def seats_def)
  have k: "1 \<le> chef_id (accepting s)" "chef_id (accepting s) \<le> 4" "chef_id (accepting s) \<notin> chef_id ` set (baking s)"
    using inv busy by (auto simp: bk_inv_def staff_def busy_chefs_def)
  have "int (length (filter (\<lambda>x. x \<noteq> ?ci) (sofa_q s))) = int (length (sofa_q s)) - 1"
    using ci inv by (intro length_filter_out) (auto simp: bk_inv_def seats_def)
  then have "seats i (a_leave s)"
    using inv len ci
    by (auto simp: bk_inv_def seats_def a_leave_def Let_def num_arrivals_def)
  moreover have "staff (a_leave s)"
  proof (rule staff_return [of s "chef_id (accepting s)"])
    have "busy_chefs s = map chef_id (baking s) @ [chef_id (accepting s)]"
      "busy_chefs (a_leave s) = map chef_id (baking s)"
      using busy by (simp_all add: busy_chefs_def a_leave_def Let_def)
    moreover have "distinct (busy_chefs s)" using inv by (simp add: bk_inv_def staff_def)
    ultimately show "distinct (busy_chefs (a_leave s))"
      "set (busy_chefs (a_leave s)) = set (busy_chefs s) - {chef_id (accepting s)}" by auto
    show "staff s" "ovens_available (a_leave s) = 4 - int (length (baking (a_leave s)))"
      using inv by (simp_all add: bk_inv_def staff_def a_leave_def Let_def)
  qed (use k in \<open>simp_all add: a_leave_def Let_def\<close>)
  moreover have "flow i (a_leave s)"
    using inv len nb busy
    by (auto simp: bk_inv_def flow_def seated_ok_def a_leave_def Let_def in_oven_def at_register_def
        num_arrivals_def fresh_def)
  moreover have "clock i (a_leave s)"
    using inv len busy
    by (auto simp: bk_inv_def clock_def a_leave_def Let_def num_arrivals_def past_def)
  ultimately show ?thesis by (simp add: bk_inv_def)
qed

lemma baked_inv:
  assumes inv: "bk_inv i (s\<lparr>baking := pre @ b # bs\<rparr>)" and t: "end_time b = current_time s"
  shows "bk_inv i ((a_baked b s)\<lparr>baking := pre @ bs\<rparr>)"
proof -
  let ?s = "s\<lparr>baking := pre @ b # bs\<rparr>" and ?ci = "cust_idx b"
  have ci: "?ci \<in> set (sofa_q s)" using inv by (auto simp: bk_inv_def flow_def in_oven_def)
  then have len: "?ci < length (customers s)"
    using inv sofa_index [of i ?s ?ci] by (auto simp: bk_inv_def)
  have ok: "seated_ok ?ci ?s" using inv ci by (auto simp: bk_inv_def flow_def)
  then have nb: "?ci \<notin> set (accept_ready_q s)" "?ci \<notin> at_register ?s" "?ci \<notin> set (standing_q s)"
    using inv ci by (auto simp: bk_inv_def seated_ok_def in_oven_def seats_def)
  have d: "?ci \<notin> cust_idx ` set (pre @ bs)" using inv by (auto simp: bk_inv_def flow_def)
  have k: "1 \<le> chef_id b" "chef_id b \<le> 4" "chef_id b \<notin> chef_id ` set (pre @ bs)"
      "register_busy s \<longrightarrow> chef_id b \<noteq> chef_id (accepting s)"
    using inv by (auto simp: bk_inv_def staff_def busy_chefs_def)
  have "seats i ((a_baked b s)\<lparr>baking := pre @ bs\<rparr>)"
    using inv by (auto simp: bk_inv_def seats_def a_baked_def Let_def num_arrivals_def)
  moreover have "staff ((a_baked b s)\<lparr>baking := pre @ bs\<rparr>)"
  proof (rule staff_return [of ?s "chef_id b"])
    let ?r = "if register_busy s then [chef_id (accepting s)] else []"
    have "busy_chefs ?s = map chef_id pre @ chef_id b # map chef_id bs @ ?r"
      "busy_chefs ((a_baked b s)\<lparr>baking := pre @ bs\<rparr>) = map chef_id pre @ map chef_id bs @ ?r"
      by (simp_all add: busy_chefs_def a_baked_def Let_def)
    moreover have "distinct (busy_chefs ?s)" using inv by (simp add: bk_inv_def staff_def)
    ultimately show "distinct (busy_chefs ((a_baked b s)\<lparr>baking := pre @ bs\<rparr>))"
      "set (busy_chefs ((a_baked b s)\<lparr>baking := pre @ bs\<rparr>)) = set (busy_chefs ?s) - {chef_id b}"
      by auto
    show "staff ?s" using inv by (simp add: bk_inv_def)
    then show "ovens_available ((a_baked b s)\<lparr>baking := pre @ bs\<rparr>) =
        4 - int (length (baking ((a_baked b s)\<lparr>baking := pre @ bs\<rparr>)))"
      by (simp add: staff_def a_baked_def Let_def)
  qed (use k in \<open>simp_all add: a_baked_def Let_def\<close>)
  moreover have "flow i ((a_baked b s)\<lparr>baking := pre @ bs\<rparr>)"
    using inv len nb ok ci d
    by (auto simp: bk_inv_def flow_def seated_ok_def a_baked_def Let_def in_oven_def at_register_def
        num_arrivals_def fresh_def)
  moreover have "clock i ((a_baked b s)\<lparr>baking := pre @ bs\<rparr>)"
    using inv len
    by (auto simp: bk_inv_def clock_def a_baked_def Let_def num_arrivals_def past_def)
  ultimately show ?thesis by (simp add: bk_inv_def)
qed

lemma baked_baking: "a_baked b (s\<lparr>baking := l\<rparr>) = (a_baked b s)\<lparr>baking := l\<rparr>"
  by (simp add: a_baked_def Let_def upd_customer_def print_def chef_free_set_def customer_def)

lemma finish_bakings_inv:
  "bk_inv i (s\<lparr>baking := pre @ bs\<rparr>) \<Longrightarrow> a_finish_bakings bs s = (nb, s') \<Longrightarrow>
    bk_inv i (s'\<lparr>baking := pre @ nb\<rparr>) \<and> (\<forall>b\<in>set nb. end_time b \<noteq> current_time s) \<and>
    current_time s' = current_time s \<and> register_busy s' = register_busy s \<and> accepting s' = accepting s \<and>
    num_arrivals s' = num_arrivals s \<and> arrivals s' = arrivals s"
proof (induction bs arbitrary: s nb s' pre)
  case (Cons b bs)
  show ?case
  proof (cases "end_time b = current_time s")
    case True
    then have "a_finish_bakings bs (a_baked b s) = (nb, s')" using Cons.prems(2) by simp
    from Cons.IH [OF baked_inv [OF Cons.prems(1) True] this] show ?thesis
      by (simp add: a_baked_def Let_def num_arrivals_def)
  next
    case False
    then obtain nb' where f: "a_finish_bakings bs s = (nb', s')" "nb = b # nb'"
      using Cons.prems(2) by (auto split: prod.splits)
    have "bk_inv i (s\<lparr>baking := (pre @ [b]) @ bs\<rparr>)" using Cons.prems(1) by simp
    from Cons.IH [OF this f(1)] show ?thesis using f(2) False by simp
  qed
qed simp

definition due_later :: "'q bakery \<Rightarrow> bool" where
  "due_later s \<longleftrightarrow> (\<forall>b\<in>set (baking s). current_time s < end_time b) \<and>
     (register_busy s \<longrightarrow> current_time s < end_time (accepting s))"

lemma leave_frame:
  "current_time (a_finish_accepting s) = current_time s" "baking (a_finish_accepting s) = baking s"
  "num_arrivals (a_finish_accepting s) = num_arrivals s" "arrivals (a_finish_accepting s) = arrivals s"
  by (simp_all add: a_finish_accepting_def a_leave_def Let_def num_arrivals_def)

lemma finish_tasks_inv:
  assumes "bk_inv i s"
  shows "bk_inv i (a_finish_tasks s)" "due_later (a_finish_tasks s)"
    "current_time (a_finish_tasks s) = current_time s" "arrivals (a_finish_tasks s) = arrivals s"
proof -
  let ?t = "a_finish_accepting s"
  obtain nb u where u: "a_finish_bakings (baking ?t) ?t = (nb, u)" by fastforce
  have inv: "bk_inv i ?t" using assms leave_inv by (simp add: a_finish_accepting_def)
  have reg: "register_busy ?t \<Longrightarrow> end_time (accepting ?t) \<noteq> current_time s"
    by (auto simp: a_finish_accepting_def a_leave_def Let_def split: if_splits)
  have "?t\<lparr>baking := [] @ baking ?t\<rparr> = ?t" by simp
  then have "bk_inv i (?t\<lparr>baking := [] @ baking ?t\<rparr>)" using inv by simp
  from finish_bakings_inv [OF this u]
  have f: "bk_inv i (u\<lparr>baking := nb\<rparr>)" "\<forall>b\<in>set nb. end_time b \<noteq> current_time s"
    "current_time u = current_time s" "register_busy u = register_busy ?t" "accepting u = accepting ?t"
    "arrivals u = arrivals s"
    by (simp_all add: leave_frame)
  have e: "a_finish_tasks s = u\<lparr>baking := nb\<rparr>" using u by (simp add: a_finish_tasks_def Let_def)
  show "bk_inv i (a_finish_tasks s)" "current_time (a_finish_tasks s) = current_time s"
    "arrivals (a_finish_tasks s) = arrivals s"
    using f by (simp_all add: e)
  have "clock i (u\<lparr>baking := nb\<rparr>)" using f(1) by (simp add: bk_inv_def)
  then show "due_later (a_finish_tasks s)"
    using f reg by (force simp: e due_later_def clock_def)
qed


subsection \<open>The sofa\<close>

lemma sit_inv:
  assumes inv: "bk_inv i s" and st: "standing_q s = ci # st'" and room: "length (sofa_q s) < SOFA_CAPACITY"
  shows "bk_inv i (a_sit ci (s\<lparr>standing_q := st'\<rparr>))"
proof -
  let ?t = "a_sit ci (s\<lparr>standing_q := st'\<rparr>)"
  have out: "ci \<notin> set (sofa_q s)" "ci \<notin> set st'" and len: "ci < length (customers s)" "ci < i"
    using inv st by (auto simp: bk_inv_def seats_def)
  have f: "fresh (customer ci s)" using inv st by (auto simp: bk_inv_def flow_def)
  have sub: "in_oven s \<subseteq> set (sofa_q s)" "set (accept_ready_q s) \<subseteq> set (sofa_q s)" "at_register s \<subseteq> set (sofa_q s)"
    using inv by (auto simp: bk_inv_def flow_def)
  have cust: "customer x ?t = (if x = ci then (customer ci s)\<lparr>seated := True, t_sat := current_time s\<rparr>
      else customer x s)" for x
    using len by (simp add: a_sit_def Let_def)
  have fields: "standing_q ?t = st'" "sofa_q ?t = sofa_q s @ [ci]" "accept_ready_q ?t = accept_ready_q s"
    "in_oven ?t = in_oven s" "at_register ?t = at_register s" "baking ?t = baking s"
    "num_arrivals ?t = num_arrivals s" "arrivals ?t = arrivals s" "current_time ?t = current_time s"
    "register_busy ?t = register_busy s" "accepting ?t = accepting s"
    "last_seat_freed_time ?t = last_seat_freed_time s"
    by (simp_all add: a_sit_def Let_def in_oven_def at_register_def num_arrivals_def)
  have "seats i ?t"
    using inv st room by (auto simp: bk_inv_def seats_def a_sit_def Let_def num_arrivals_def SOFA_CAPACITY_def)
  moreover have "staff ?t"
    using inv by (simp add: bk_inv_def staff_def busy_chefs_def a_sit_def Let_def)
  moreover have "flow i ?t"
  proof -
    have "seated_ok x ?t" if "x \<in> set (sofa_q s @ [ci])" for x
    proof (cases "x = ci")
      case True
      then show ?thesis using f out sub by (auto simp: seated_ok_def fields cust fresh_def)
    next
      case False
      then have "seated_ok x s" using that inv by (simp add: bk_inv_def flow_def)
      then show ?thesis using False by (auto simp: seated_ok_def fields cust)
    qed
    moreover have "fresh (customer x ?t)" if "x \<in> set st' \<or> i \<le> x \<and> x < num_arrivals s" for x
    proof -
      have "x \<noteq> ci" using that out len by auto
      then show ?thesis using that inv st by (auto simp: cust bk_inv_def flow_def)
    qed
    ultimately show ?thesis using inv sub by (auto simp: flow_def fields bk_inv_def)
  qed
  moreover have "clock i ?t"
    using inv f by (auto simp: bk_inv_def clock_def fields cust past_def fresh_def)
  ultimately show ?thesis by (simp add: bk_inv_def)
qed

lemma move_inv:
  "bk_inv i s \<Longrightarrow> due_later s \<Longrightarrow> bk_inv i (a_move s) \<and> due_later (a_move s) \<and>
    current_time (a_move s) = current_time s \<and> arrivals (a_move s) = arrivals s"
proof (induction s rule: a_move.induct)
  case (1 s)
  show ?case
  proof (cases "length (sofa_q s) < SOFA_CAPACITY \<and> standing_q s \<noteq> [] \<and>
      allowed_sit (hd (standing_q s)) s \<le> current_time s")
    case True
    let ?t = "a_sit (hd (standing_q s)) (s\<lparr>standing_q := tl (standing_q s)\<rparr>)"
    have "bk_inv i ?t" using sit_inv [OF "1.prems"(1), of "hd (standing_q s)"] True by simp
    moreover have "due_later ?t" "current_time ?t = current_time s" "arrivals ?t = arrivals s"
      using "1.prems"(2) by (simp_all add: due_later_def a_sit_def Let_def)
    moreover have "a_move s = a_move ?t" using True by (subst a_move.simps) simp
    ultimately show ?thesis using "1.IH" [OF True] by simp
  next
    case False
    then have "a_move s = s" by (subst a_move.simps) auto
    then show ?thesis using "1.prems" by simp
  qed
qed

lemma request_inv:
  assumes inv: "bk_inv i s" and ci: "ci \<in> set (sofa_q s)"
  shows "bk_inv i (a_request ci s)"
proof (cases "seated (customer ci s) \<and> \<not> requested (customer ci s) \<and>
    current_time s \<ge> t_sat (customer ci s) + T_CUSTOMER_ACTION")
  case False
  then have "a_request ci s = s" by (auto simp: a_request_def Let_def)
  then show ?thesis using inv by simp
next
  case True
  let ?t = "a_request ci s"
  have len: "ci < length (customers s)" "ci < i" "ci \<notin> set (standing_q s)"
    using inv ci by (auto simp: bk_inv_def seats_def)
  have t: "?t = print (Requests (current_time s) (cid (customer ci s)))
      (upd_customer ci (\<lambda>c. c\<lparr>requested := True, t_request := current_time s\<rparr>) s)"
    using True by (simp add: a_request_def Let_def)
  have cust: "customer x ?t = (if x = ci then (customer ci s)\<lparr>requested := True, t_request := current_time s\<rparr>
      else customer x s)" for x
    using len by (simp add: t)
  have fields: "in_oven ?t = in_oven s" "at_register ?t = at_register s" "busy_chefs ?t = busy_chefs s"
    by (simp_all add: t in_oven_def at_register_def busy_chefs_def)
  have "seated_ok x ?t" if "x \<in> set (sofa_q s)" for x
    using inv that by (auto simp: bk_inv_def flow_def seated_ok_def fields cust) (simp_all add: t)
  moreover have "fresh (customer x ?t)" if "x \<in> set (standing_q s) \<or> i \<le> x \<and> x < num_arrivals s" for x
    using that inv len by (auto simp: bk_inv_def flow_def cust)
  ultimately have "flow i ?t" using inv fields by (simp add: bk_inv_def flow_def) (simp add: t)
  moreover have "seats i ?t" "staff ?t"
    using inv by (simp_all add: bk_inv_def seats_def staff_def fields) (simp_all add: t)
  moreover have "clock i ?t"
  proof -
    have "past (current_time s) (customer x ?t)" if "x \<in> set (sofa_q s)" for x
      using inv that by (auto simp: bk_inv_def clock_def cust past_def)
    moreover have "arrival_ts (customer k ?t) = ts (arrivals s ! k)" if "k < num_arrivals s" for k
      using inv that by (simp add: bk_inv_def clock_def cust)
    ultimately show ?thesis using inv by (simp add: bk_inv_def clock_def) (simp add: t)
  qed
  ultimately show ?thesis by (simp add: bk_inv_def)
qed

lemma request_frame [simp]:
  "sofa_q (a_request ci s) = sofa_q s" "current_time (a_request ci s) = current_time s"
  "arrivals (a_request ci s) = arrivals s" "baking (a_request ci s) = baking s"
  "register_busy (a_request ci s) = register_busy s" "accepting (a_request ci s) = accepting s"
  "standing_q (a_request ci s) = standing_q s" "accept_ready_q (a_request ci s) = accept_ready_q s"
  "num_arrivals (a_request ci s) = num_arrivals s"
  by (simp_all add: a_request_def Let_def num_arrivals_def)

lemma fold_request_frame [simp]:
  "sofa_q (fold a_request xs s) = sofa_q s" "current_time (fold a_request xs s) = current_time s"
  "arrivals (fold a_request xs s) = arrivals s" "baking (fold a_request xs s) = baking s"
  "register_busy (fold a_request xs s) = register_busy s" "accepting (fold a_request xs s) = accepting s"
  "standing_q (fold a_request xs s) = standing_q s"
  "accept_ready_q (fold a_request xs s) = accept_ready_q s"
  "num_arrivals (fold a_request xs s) = num_arrivals s"
  by (induction xs arbitrary: s) simp_all

lemma requests_due: "due_later (fold a_request xs s) = due_later s"
  by (simp add: due_later_def)

lemma requests_inv:
  assumes "bk_inv i s"
  shows "bk_inv i (a_requests s)"
proof -
  have "bk_inv i s \<Longrightarrow> set xs \<subseteq> set (sofa_q s) \<Longrightarrow> bk_inv i (fold a_request xs s)" for xs s
    by (induction xs arbitrary: s) (simp_all add: request_inv)
  then show ?thesis using assms by (simp add: a_requests_def)
qed


subsection \<open>Tasks that start\<close>

lemma accept_inv:
  assumes inv: "bk_inv i s" and free: "\<not> register_busy s" and k: "get_free_chef s = k" "k \<noteq> 0"
    and rd: "accept_ready_q s = ci # rd'"
  shows "bk_inv i (a_accept k ci (s\<lparr>accept_ready_q := rd'\<rparr>))"
proof -
  let ?t = "a_accept k ci (s\<lparr>accept_ready_q := rd'\<rparr>)"
  have ci: "ci \<in> set (sofa_q s)" "ci \<notin> set rd'" using inv rd by (auto simp: bk_inv_def flow_def)
  have len: "ci < length (customers s)" "ci < i" "ci \<notin> set (standing_q s)"
    using inv ci by (auto simp: bk_inv_def seats_def)
  have cust: "customer x ?t = (if x = ci then (customer ci s)\<lparr>accept_started := True,
      t_accept_start := current_time s, t_accept_end := current_time s + T_CHEF_ACTION\<rparr>
      else customer x s)" for x
    using len by (simp add: a_accept_def Let_def)
  have fields: "standing_q ?t = standing_q s" "sofa_q ?t = sofa_q s" "accept_ready_q ?t = rd'"
    "in_oven ?t = in_oven s" "at_register ?t = {ci}" "baking ?t = baking s"
    "num_arrivals ?t = num_arrivals s" "arrivals ?t = arrivals s" "current_time ?t = current_time s"
    "register_busy ?t" "end_time (accepting ?t) = current_time s + 2" "chef_id (accepting ?t) = k"
    "people_inside ?t = people_inside s" "length (customers ?t) = length (customers s)"
    "last_seat_freed_time ?t = last_seat_freed_time s" "chef_free ?t = (chef_free s)[k - 1 := False]"
    "ovens_available ?t = ovens_available s"
    using len by (simp_all add: a_accept_def Let_def in_oven_def at_register_def num_arrivals_def T_CHEF_ACTION_def)
  have "staff ?t"
  proof (rule staff_take [of s k])
    show st: "staff s" using inv by (simp add: bk_inv_def)
    note g = get_free_chef_Some [OF st, unfolded k(1), OF k(2)]
    show "1 \<le> k" "k \<le> 4" by (fact g)+
    have "busy_chefs ?t = busy_chefs s @ [k]" using free fields(10) by (simp add: busy_chefs_def fields)
    then show "distinct (busy_chefs ?t)" "set (busy_chefs ?t) = insert k (set (busy_chefs s))"
      using g(3) st by (simp_all add: staff_def)
    show "ovens_available ?t = 4 - int (length (baking ?t))" using st by (simp add: fields staff_def)
  qed (simp add: fields)
  moreover have "seats i ?t" using inv by (simp add: bk_inv_def seats_def fields)
  moreover have "flow i ?t"
  proof -
    have "at_register s = {}" using free by (simp add: at_register_def)
    then have "seated_ok x ?t" if "x \<in> set (sofa_q s)" for x
      using inv that rd by (auto simp: bk_inv_def flow_def seated_ok_def fields cust)
    moreover have "fresh (customer x ?t)" if "x \<in> set (standing_q s) \<or> i \<le> x \<and> x < num_arrivals s" for x
      using that inv len by (auto simp: bk_inv_def flow_def cust)
    ultimately show ?thesis using inv ci rd by (simp add: bk_inv_def flow_def fields)
  qed
  moreover have "clock i ?t"
  proof -
    have "past (current_time s) (customer x ?t)" if "x \<in> set (sofa_q s)" for x
      using inv that by (auto simp: bk_inv_def clock_def cust past_def)
    moreover have "arrival_ts (customer j ?t) = ts (arrivals s ! j)" if "j < num_arrivals s" for j
      using inv that by (simp add: bk_inv_def clock_def cust)
    ultimately show ?thesis using inv by (simp add: bk_inv_def clock_def fields)
  qed
  ultimately show ?thesis by (simp add: bk_inv_def)
qed

lemma bake_inv:
  assumes inv: "bk_inv i s" and k: "get_free_chef s = k" "k \<noteq> 0"
    and ci: "ci \<in> set (sofa_q s)" and can: "can_bake s ci"
  shows "bk_inv i (a_bake k ci s)"
proof -
  let ?t = "a_bake k ci s"
  have len: "ci < length (customers s)" "ci < i" "ci \<notin> set (standing_q s)"
    using inv ci by (auto simp: bk_inv_def seats_def)
  have ok: "seated_ok ci s" using inv ci by (simp add: bk_inv_def flow_def)
  then have no: "ci \<notin> in_oven s" "ci \<notin> set (accept_ready_q s)" "ci \<notin> at_register s"
    using can by (auto simp: seated_ok_def can_bake_def)
  have cust: "customer x ?t = (if x = ci then (customer ci s)\<lparr>is_baking := True,
      t_bake_start := current_time s, t_bake_end := current_time s + T_CHEF_ACTION\<rparr>
      else customer x s)" for x
    using len by (simp add: a_bake_def Let_def)
  have fields: "standing_q ?t = standing_q s" "sofa_q ?t = sofa_q s" "accept_ready_q ?t = accept_ready_q s"
    "in_oven ?t = insert ci (in_oven s)" "at_register ?t = at_register s"
    "baking ?t = baking s @ [\<lparr>cust_idx = ci, chef_id = k, end_time = current_time s + 2\<rparr>]"
    "num_arrivals ?t = num_arrivals s" "arrivals ?t = arrivals s" "current_time ?t = current_time s"
    "register_busy ?t = register_busy s" "accepting ?t = accepting s"
    "people_inside ?t = people_inside s" "length (customers ?t) = length (customers s)"
    "last_seat_freed_time ?t = last_seat_freed_time s" "chef_free ?t = (chef_free s)[k - 1 := False]"
    "ovens_available ?t = ovens_available s - 1"
    using len by (auto simp: a_bake_def Let_def in_oven_def at_register_def num_arrivals_def T_CHEF_ACTION_def)
  have "staff ?t"
  proof (rule staff_take [of s k])
    show st: "staff s" using inv by (simp add: bk_inv_def)
    note g = get_free_chef_Some [OF st, unfolded k(1), OF k(2)]
    show "1 \<le> k" "k \<le> 4" by (fact g)+
    let ?r = "if register_busy s then [chef_id (accepting s)] else []"
    have "busy_chefs ?t = map chef_id (baking s) @ k # ?r" "busy_chefs s = map chef_id (baking s) @ ?r"
      by (simp_all add: busy_chefs_def fields)
    then show "distinct (busy_chefs ?t)" "set (busy_chefs ?t) = insert k (set (busy_chefs s))"
      using g(3) st by (auto simp: staff_def)
    show "ovens_available ?t = 4 - int (length (baking ?t))" using st by (simp add: fields staff_def)
  qed (simp add: fields)
  moreover have "seats i ?t" using inv by (simp add: bk_inv_def seats_def fields)
  moreover have "flow i ?t"
  proof -
    have "seated_ok x ?t" if "x \<in> set (sofa_q s)" for x
    proof (cases "x = ci")
      case True
      then show ?thesis using ok no can by (auto simp: seated_ok_def fields cust can_bake_def)
    next
      case False
      then have "seated_ok x s" using that inv by (simp add: bk_inv_def flow_def)
      then show ?thesis using False by (auto simp: seated_ok_def fields cust)
    qed
    moreover have "fresh (customer x ?t)" if "x \<in> set (standing_q s) \<or> i \<le> x \<and> x < num_arrivals s" for x
      using that inv len by (auto simp: bk_inv_def flow_def cust)
    moreover have "distinct (map cust_idx (baking ?t))"
      using inv no by (auto simp: bk_inv_def flow_def fields in_oven_def)
    ultimately show ?thesis using inv ci by (simp add: bk_inv_def flow_def fields)
  qed
  moreover have "clock i ?t"
  proof -
    have "past (current_time s) (customer x ?t)" if "x \<in> set (sofa_q s)" for x
      using inv that by (auto simp: bk_inv_def clock_def cust past_def)
    moreover have "arrival_ts (customer j ?t) = ts (arrivals s ! j)" if "j < num_arrivals s" for j
      using inv that by (simp add: bk_inv_def clock_def cust)
    ultimately show ?thesis using inv by (simp add: bk_inv_def clock_def fields)
  qed
  ultimately show ?thesis by (simp add: bk_inv_def)
qed

lemma accepts_inv:
  assumes inv: "bk_inv i s" and due: "due_later s"
  shows "bk_inv i (a_accepts s) \<and> due_later (a_accepts s) \<and>
    current_time (a_accepts s) = current_time s \<and> arrivals (a_accepts s) = arrivals s"
proof (cases "\<not> register_busy s \<and> get_free_chef s \<noteq> 0 \<and> accept_ready_q s \<noteq> [] \<and>
    t_pay_time (customer (hd (accept_ready_q s)) s) + T_CUSTOMER_ACTION \<le> current_time s")
  case True
  then have e: "a_accepts s = a_accept (get_free_chef s) (hd (accept_ready_q s))
      (s\<lparr>accept_ready_q := tl (accept_ready_q s)\<rparr>)" by (simp add: a_accepts_def)
  have "bk_inv i (a_accepts s)" unfolding e using True by (intro accept_inv [OF inv]) auto
  moreover have "hd (accept_ready_q s) \<in> set (sofa_q s)"
    using True inv hd_in_set [of "accept_ready_q s"] by (auto simp: bk_inv_def flow_def)
  then have "hd (accept_ready_q s) < length (customers s)"
    using inv sofa_index by (auto simp: bk_inv_def)
  ultimately show ?thesis
    using due by (simp add: e due_later_def) (simp add: a_accept_def Let_def T_CHEF_ACTION_def)
next
  case False
  then have "a_accepts s = s" by (auto simp: a_accepts_def)
  then show ?thesis using assms by simp
qed

lemma bakes_inv:
  "bk_inv i s \<Longrightarrow> due_later s \<Longrightarrow> bk_inv i (a_bakes s) \<and> due_later (a_bakes s) \<and>
    current_time (a_bakes s) = current_time s \<and> arrivals (a_bakes s) = arrivals s"
proof (induction "nat (ovens_available s)" arbitrary: s rule: less_induct)
  case less
  show ?case
  proof (cases "ovens_available s > 0 \<and> get_free_chef s \<noteq> 0 \<and> find (can_bake s) (sofa_q s) \<noteq> None")
    case False
    then have "a_bakes s = s" by (subst a_bakes.simps) (auto split: option.split)
    then show ?thesis using less.prems by simp
  next
    case True
    then obtain ci where ci: "find (can_bake s) (sofa_q s) = Some ci" by auto
    then have c: "ci \<in> set (sofa_q s)" "can_bake s ci" by (auto simp: find_Some_iff)
    let ?t = "a_bake (get_free_chef s) ci s"
    have "ci < length (customers s)" using c(1) less.prems(1) by (auto simp: bk_inv_def seats_def)
    then have "due_later ?t" "current_time ?t = current_time s" "arrivals ?t = arrivals s"
      "ovens_available ?t = ovens_available s - 1"
      using less.prems(2) by (auto simp: due_later_def a_bake_def Let_def T_CHEF_ACTION_def)
    moreover have "bk_inv i ?t" using bake_inv [OF less.prems(1) refl _ c] True by simp
    moreover have "a_bakes s = a_bakes ?t" using True ci by (subst a_bakes.simps) simp
    ultimately show ?thesis using less.hyps [of ?t] True by simp
  qed
qed

subsection \<open>A whole second\<close>

lemma tick_inv:
  assumes inv: "bk_inv i s" and t: "a_tick i s = (j, s')"
  shows "bk_inv j s' \<and> due_later s' \<and> current_time s' = current_time s \<and> arrivals s' = arrivals s \<and>
    (\<forall>k. j \<le> k \<and> k < num_arrivals s' \<longrightarrow> current_time s' < ts (arrivals s' ! k))"
proof -
  obtain s1 where s1: "a_arrivals i s = (j, s1)"
      "s' = a_bakes (a_accepts (a_requests (a_move (a_finish_tasks s1))))"
    using t by (auto simp: a_tick_def split: prod.splits)
  note 1 = arrivals_inv [OF inv s1(1)]
  let ?s2 = "a_finish_tasks s1" and ?s3 = "a_move (a_finish_tasks s1)"
  note 2 = finish_tasks_inv [OF conjunct1 [OF 1]]
  note 3 = move_inv [OF 2(1,2)]
  let ?s4 = "a_requests ?s3"
  have 4: "bk_inv j ?s4" "due_later ?s4" "current_time ?s4 = current_time ?s3" "arrivals ?s4 = arrivals ?s3"
    using 3 requests_inv [of j ?s3] by (simp_all add: a_requests_def requests_due)
  note 5 = accepts_inv [OF 4(1,2)]
  then have "bk_inv j (a_accepts ?s4)" "due_later (a_accepts ?s4)" by blast+
  note 6 = bakes_inv [OF this]
  have "\<forall>k. j \<le> k \<and> k < length (arrivals s1) \<longrightarrow> current_time s < ts (arrivals s1 ! k)"
    using 1 by (auto simp: num_arrivals_def)
  moreover have "current_time s' = current_time s" "arrivals s' = arrivals s1"
    using 1 2 3 4 5 6 by (simp_all add: s1(2))
  moreover have "arrivals s1 = arrivals s" using 1 by blast
  ultimately show ?thesis using 6 by (simp add: s1(2) num_arrivals_def)
qed

lemma next_second:
  assumes "bk_inv i s" "due_later s"
    and "\<forall>k. i \<le> k \<and> k < num_arrivals s \<longrightarrow> current_time s < ts (arrivals s ! k)"
  shows "bk_inv i (s\<lparr>current_time := current_time s + 1\<rparr>)"
proof -
  have "seats i (s\<lparr>current_time := current_time s + 1\<rparr>)" "staff (s\<lparr>current_time := current_time s + 1\<rparr>)"
    using assms(1) by (simp_all add: bk_inv_def bk_defs)
  moreover have "flow i (s\<lparr>current_time := current_time s + 1\<rparr>)"
  proof -
    have f: "in_oven (s\<lparr>current_time := t\<rparr>) = in_oven s" "at_register (s\<lparr>current_time := t\<rparr>) = at_register s"
      "num_arrivals (s\<lparr>current_time := t\<rparr>) = num_arrivals s" for t
      by (simp_all add: in_oven_def at_register_def num_arrivals_def)
    have "seated_ok x (s\<lparr>current_time := t\<rparr>) = seated_ok x s" for x t
      by (simp add: seated_ok_def f)
    then show ?thesis using assms(1) by (simp add: bk_inv_def flow_def f)
  qed
  moreover have "clock i (s\<lparr>current_time := current_time s + 1\<rparr>)"
  proof -
    have c: "clock i s" using assms(1) by (simp add: bk_inv_def)
    have "past (current_time s + 1) c" if "past (current_time s) c" for c
      using that by (auto simp: past_def)
    moreover have "current_time s + 1 \<le> end_time b \<and> end_time b \<le> current_time s + 1 + 2"
      if "b \<in> set (baking s)" for b
      using that c assms(2) by (fastforce simp: clock_def due_later_def)
    moreover have "register_busy s \<Longrightarrow> current_time s + 1 \<le> end_time (accepting s) \<and>
        end_time (accepting s) \<le> current_time s + 1 + 2"
      using c assms(2) by (simp add: clock_def due_later_def)
    moreover have "\<forall>k. i \<le> k \<and> k < num_arrivals s \<longrightarrow> current_time s + 1 \<le> ts (arrivals s ! k)"
      using assms(3) by (simp add: zless_imp_add1_zle)
    ultimately show ?thesis using c by (auto simp: clock_def num_arrivals_def)
  qed
  ultimately show ?thesis by (simp add: bk_inv_def)
qed

end
