(* ===== verification/BakeryLive.thy ===== *)
theory BakeryLive
  imports BakeryInv
begin

section \<open>The bakery always closes\<close>

text \<open>
  Termination of the main loop.  \<open>work\<close> counts the steps the customers still have to
  take: every operation of a second either leaves the state alone or decreases it.  A
  second that changes nothing brings the next deadline (the end of a task, the next
  arrival, time zero) one nearer, and a state without deadlines that is not finished
  always changes in the next second.
\<close>

definition stage :: "abakery \<Rightarrow> nat \<Rightarrow> nat" where
  "stage s ci = (let c = customer ci s in
     if \<not> requested c then 5 else if is_baking c then 3 else if \<not> baked c then 4
     else if ci \<in> set (accept_ready_q s) then 2 else 1)"

definition work :: "nat \<Rightarrow> abakery \<Rightarrow> nat" where
  "work i s = 7 * (num_arrivals s - i) + 6 * length (standing_q s) + (\<Sum>ci\<in>set (sofa_q s). stage s ci)"

lemma sum_one_less:
  fixes f g :: "'a \<Rightarrow> nat"
  assumes "finite A" "x \<in> A" "f x < g x" "\<And>y. y \<in> A \<Longrightarrow> y \<noteq> x \<Longrightarrow> f y = g y"
  shows "sum f A < sum g A"
proof (rule sum_strict_mono_ex1 [OF assms(1)])
  show "\<forall>y\<in>A. f y \<le> g y" using assms(3,4) by (metis less_imp_le order_refl)
  show "\<exists>y\<in>A. f y < g y" using assms(2,3) by blast
qed

lemma stage_less_work:
  assumes "ci \<in> set (sofa_q s)" "stage s' ci < stage s ci"
    and "\<And>x. x \<in> set (sofa_q s) \<Longrightarrow> x \<noteq> ci \<Longrightarrow> stage s' x = stage s x"
    and "sofa_q s' = sofa_q s" "standing_q s' = standing_q s" "num_arrivals s' = num_arrivals s"
  shows "work i s' < work i s"
  using sum_one_less [of "set (sofa_q s)" ci "stage s'" "stage s"] assms by (simp add: work_def)

lemma arrivals_work:
  "bk_inv i s \<Longrightarrow> a_arrivals i s = (j, s') \<Longrightarrow>
    (j = i \<and> s' = s \<and> \<not> (i < num_arrivals s \<and> ts (arrivals s ! i) = current_time s)) \<or>
    work j s' < work i s"
proof (induction i s arbitrary: j s' rule: a_arrivals.induct)
  case (1 i s)
  show ?case
  proof (cases "i < num_arrivals s \<and> ts (arrivals s ! i) = current_time s")
    case True
    let ?t = "if people_inside s \<ge> MAX_CAPACITY then s else a_enter i s"
    have inv: "bk_inv (i + 1) ?t" using enter_inv skip_inv True "1.prems"(1) by auto
    have t: "a_arrivals (i + 1) ?t = (j, s')"
      using "1.prems"(2) True by (subst (asm) a_arrivals.simps) simp
    have len: "i < length (customers s)" "i \<notin> set (sofa_q s)"
      using "1.prems"(1) True by (auto simp: bk_inv_def seats_def)
    have "stage (a_enter i s) x = stage s x" if "x \<in> set (sofa_q s)" for x
      using that len by (auto simp: stage_def a_enter_def Let_def)
    then have "work (i + 1) ?t < work i s"
      using True by (auto simp: work_def a_enter_def Let_def num_arrivals_def)
    then show ?thesis using "1.IH" [OF True inv t] by auto
  next
    case False
    then show ?thesis using "1.prems"(2) by (subst (asm) a_arrivals.simps) auto
  qed
qed

lemma leave_work:
  assumes inv: "bk_inv i s" and busy: "register_busy s"
  shows "work i (a_leave s) < work i s"
proof -
  let ?ci = "cust_idx (accepting s)"
  have ci: "?ci \<in> set (sofa_q s)" using inv busy by (auto simp: bk_inv_def flow_def at_register_def)
  then have len: "?ci < length (customers s)" using inv sofa_index by (auto simp: bk_inv_def)
  have "set (sofa_q (a_leave s)) = set (sofa_q s) - {?ci}" by (auto simp: a_leave_def Let_def)
  moreover have "stage (a_leave s) x = stage s x" if "x \<noteq> ?ci" for x
    using that len by (simp add: stage_def a_leave_def Let_def)
  moreover have "0 < stage s ?ci" by (simp add: stage_def Let_def)
  moreover have "sum (stage s) (set (sofa_q s)) = stage s ?ci + sum (stage s) (set (sofa_q s) - {?ci})"
    using ci by (intro sum.remove) auto
  ultimately show ?thesis by (simp add: work_def a_leave_def Let_def num_arrivals_def)
qed

lemma baked_work:
  assumes inv: "bk_inv i (s\<lparr>baking := pre @ b # bs\<rparr>)"
  shows "work i (a_baked b s) < work i s"
proof -
  let ?s = "s\<lparr>baking := pre @ b # bs\<rparr>" and ?ci = "cust_idx b"
  have ci: "?ci \<in> set (sofa_q s)" using inv by (auto simp: bk_inv_def flow_def in_oven_def)
  then have len: "?ci < length (customers s)"
    using inv sofa_index [of i ?s ?ci] by (auto simp: bk_inv_def)
  have "seated_ok ?ci ?s" using inv ci by (auto simp: bk_inv_def flow_def)
  then have "is_baking (customer ?ci s)" "requested (customer ?ci s)"
    by (auto simp: seated_ok_def in_oven_def)
  then show ?thesis
    using len by (intro stage_less_work [OF ci]) (auto simp: stage_def a_baked_def Let_def num_arrivals_def)
qed

lemma finish_bakings_work:
  "bk_inv i (s\<lparr>baking := pre @ bs\<rparr>) \<Longrightarrow> a_finish_bakings bs s = (nb, s') \<Longrightarrow>
    (nb = bs \<and> s' = s \<and> (\<forall>b\<in>set bs. end_time b \<noteq> current_time s)) \<or> work i s' < work i s"
proof (induction bs arbitrary: s nb s' pre)
  case (Cons b bs)
  show ?case
  proof (cases "end_time b = current_time s")
    case True
    then have "a_finish_bakings bs (a_baked b s) = (nb, s')" using Cons.prems(2) by simp
    from Cons.IH [OF baked_inv [OF Cons.prems(1) True] this] baked_work [OF Cons.prems(1)]
    show ?thesis by auto
  next
    case False
    then obtain nb' where f: "a_finish_bakings bs s = (nb', s')" "nb = b # nb'"
      using Cons.prems(2) by (auto split: prod.splits)
    have "bk_inv i (s\<lparr>baking := (pre @ [b]) @ bs\<rparr>)" using Cons.prems(1) by simp
    from Cons.IH [OF this f(1)] show ?thesis using f(2) False by auto
  qed
qed simp

lemma work_baking [simp]: "work i (s\<lparr>baking := l\<rparr>) = work i s"
proof -
  have "stage (s\<lparr>baking := l\<rparr>) = stage s" by (simp add: stage_def Let_def fun_eq_iff)
  then show ?thesis by (simp add: work_def num_arrivals_def)
qed

lemma finish_tasks_work:
  assumes "bk_inv i s"
  shows "(a_finish_tasks s = s \<and> due_later s) \<or> work i (a_finish_tasks s) < work i s"
proof -
  let ?t = "a_finish_accepting s"
  obtain nb u where u: "a_finish_bakings (baking ?t) ?t = (nb, u)" by fastforce
  have inv: "bk_inv i ?t" using assms leave_inv by (simp add: a_finish_accepting_def)
  have "?t\<lparr>baking := [] @ baking ?t\<rparr> = ?t" by simp
  then have "bk_inv i (?t\<lparr>baking := [] @ baking ?t\<rparr>)" using inv by simp
  note f = finish_bakings_work [OF this u]
  have e: "a_finish_tasks s = u\<lparr>baking := nb\<rparr>" using u by (simp add: a_finish_tasks_def Let_def)
  show ?thesis
  proof (cases "register_busy s \<and> end_time (accepting s) = current_time s")
    case True
    then have "work i ?t < work i s" using leave_work [OF assms] by (simp add: a_finish_accepting_def)
    then show ?thesis using f by (auto simp: e)
  next
    case False
    then have t: "?t = s" by (auto simp: a_finish_accepting_def)
    have c: "clock i s" using assms by (simp add: bk_inv_def)
    from f show ?thesis
    proof
      assume "nb = baking ?t \<and> u = ?t \<and> (\<forall>b\<in>set (baking ?t). end_time b \<noteq> current_time ?t)"
      then show ?thesis using False c by (force simp: e t due_later_def clock_def)
    qed (simp add: e t)
  qed
qed

lemma sit_work:
  assumes inv: "bk_inv i s" and st: "standing_q s = ci # st'"
  shows "work i (a_sit ci (s\<lparr>standing_q := st'\<rparr>)) < work i s"
proof -
  let ?t = "a_sit ci (s\<lparr>standing_q := st'\<rparr>)"
  have out: "ci \<notin> set (sofa_q s)" and len: "ci < length (customers s)"
    using inv st by (auto simp: bk_inv_def seats_def)
  have "stage ?t x = stage s x" if "x \<in> set (sofa_q s)" for x
    using that out len by (auto simp: stage_def a_sit_def Let_def)
  then have "sum (stage ?t) (set (sofa_q s)) = sum (stage s) (set (sofa_q s))" by simp
  moreover have "stage ?t ci \<le> 5" by (simp add: stage_def Let_def)
  moreover have "set (sofa_q ?t) = insert ci (set (sofa_q s))" "standing_q ?t = st'"
    "num_arrivals ?t = num_arrivals s" by (simp_all add: a_sit_def Let_def num_arrivals_def)
  ultimately show ?thesis using out st by (simp add: work_def)
qed

lemma move_work:
  "bk_inv i s \<Longrightarrow> due_later s \<Longrightarrow>
    (a_move s = s \<and> \<not> (length (sofa_q s) < SOFA_CAPACITY \<and> standing_q s \<noteq> [] \<and>
       allowed_sit (hd (standing_q s)) s \<le> current_time s)) \<or> work i (a_move s) < work i s"
proof (induction s rule: a_move.induct)
  case (1 s)
  show ?case
  proof (cases "length (sofa_q s) < SOFA_CAPACITY \<and> standing_q s \<noteq> [] \<and>
      allowed_sit (hd (standing_q s)) s \<le> current_time s")
    case True
    let ?t = "a_sit (hd (standing_q s)) (s\<lparr>standing_q := tl (standing_q s)\<rparr>)"
    have st: "standing_q s = hd (standing_q s) # tl (standing_q s)" using True by simp
    have "bk_inv i ?t" using sit_inv [OF "1.prems"(1) st] True by simp
    moreover have "due_later ?t" using "1.prems"(2) by (simp add: due_later_def a_sit_def Let_def)
    moreover have "a_move s = a_move ?t" using True by (subst a_move.simps) simp
    ultimately show ?thesis using "1.IH" [OF True] sit_work [OF "1.prems"(1) st] by auto
  next
    case False
    then have "a_move s = s" by (subst a_move.simps) auto
    then show ?thesis using False by blast
  qed
qed

definition wants :: "abakery \<Rightarrow> nat \<Rightarrow> bool" where
  "wants s ci \<longleftrightarrow> seated (customer ci s) \<and> \<not> requested (customer ci s) \<and>
     current_time s \<ge> t_sat (customer ci s) + T_CUSTOMER_ACTION"

lemma request_work:
  assumes inv: "bk_inv i s" and ci: "ci \<in> set (sofa_q s)"
  shows "(a_request ci s = s \<and> \<not> wants s ci) \<or> work i (a_request ci s) < work i s"
proof (cases "wants s ci")
  case True
  have "ci < length (customers s)" using inv ci by (auto simp: bk_inv_def seats_def)
  then have "work i (a_request ci s) < work i s"
    using True by (intro stage_less_work [OF ci])
      (auto simp: stage_def a_request_def wants_def Let_def num_arrivals_def)
  then show ?thesis by simp
next
  case False
  then show ?thesis by (auto simp: a_request_def wants_def Let_def)
qed

lemma requests_work:
  assumes "bk_inv i s"
  shows "(a_requests s = s \<and> (\<forall>ci\<in>set (sofa_q s). \<not> wants s ci)) \<or> work i (a_requests s) < work i s"
proof -
  have "bk_inv i s \<Longrightarrow> set xs \<subseteq> set (sofa_q s) \<Longrightarrow>
      (fold a_request xs s = s \<and> (\<forall>ci\<in>set xs. \<not> wants s ci)) \<or> work i (fold a_request xs s) < work i s" for xs s
  proof (induction xs arbitrary: s)
    case (Cons ci xs)
    have "bk_inv i (a_request ci s)" "set xs \<subseteq> set (sofa_q (a_request ci s))"
      using Cons.prems request_inv by simp_all
    from Cons.IH [OF this] request_work [OF Cons.prems(1), of ci] Cons.prems(2) show ?case by auto
  qed simp
  then show ?thesis using assms by (simp add: a_requests_def)
qed

lemma accepts_work:
  assumes inv: "bk_inv i s"
  shows "(a_accepts s = s \<and> \<not> (\<not> register_busy s \<and> get_free_chef s \<noteq> 0 \<and> accept_ready_q s \<noteq> [] \<and>
     t_pay_time (customer (hd (accept_ready_q s)) s) + T_CUSTOMER_ACTION \<le> current_time s)) \<or>
    work i (a_accepts s) < work i s"
proof (cases "\<not> register_busy s \<and> get_free_chef s \<noteq> 0 \<and> accept_ready_q s \<noteq> [] \<and>
    t_pay_time (customer (hd (accept_ready_q s)) s) + T_CUSTOMER_ACTION \<le> current_time s")
  case True
  let ?ci = "hd (accept_ready_q s)" and ?rd = "tl (accept_ready_q s)"
  have e: "a_accepts s = a_accept (get_free_chef s) ?ci (s\<lparr>accept_ready_q := ?rd\<rparr>)"
    using True by (simp add: a_accepts_def)
  have rd: "accept_ready_q s = ?ci # ?rd" using True by simp
  have hd: "?ci \<in> set (accept_ready_q s)" using True hd_in_set by blast
  have "distinct (?ci # ?rd)" using inv rd by (simp add: bk_inv_def flow_def)
  then have ci: "?ci \<in> set (sofa_q s)" "?ci \<notin> set ?rd" "?ci \<in> set (accept_ready_q s)"
    using inv hd by (auto simp: bk_inv_def flow_def)
  have len: "?ci < length (customers s)" using inv ci(1) by (auto simp: bk_inv_def seats_def)
  have "seated_ok ?ci s" using inv ci by (simp add: bk_inv_def flow_def)
  then have f: "baked (customer ?ci s)" "requested (customer ?ci s)" "\<not> is_baking (customer ?ci s)"
    using ci(3) by (auto simp: seated_ok_def)
  have "work i (a_accepts s) < work i s"
    unfolding e
  proof (rule stage_less_work [OF ci(1)])
    have rd': "set (accept_ready_q s) = insert ?ci (set ?rd)" using rd by (metis list.simps(15))
    show "stage (a_accept (get_free_chef s) ?ci (s\<lparr>accept_ready_q := ?rd\<rparr>)) ?ci < stage s ?ci"
      using f len ci by (simp add: stage_def a_accept_def Let_def)
    show "stage (a_accept (get_free_chef s) ?ci (s\<lparr>accept_ready_q := ?rd\<rparr>)) x = stage s x"
      if "x \<noteq> ?ci" for x using that len rd' by (simp add: stage_def a_accept_def Let_def)
  qed (simp_all add: a_accept_def Let_def num_arrivals_def)
  then show ?thesis by simp
next
  case False
  then show ?thesis by (auto simp: a_accepts_def)
qed

lemma bakes_work:
  "bk_inv i s \<Longrightarrow> due_later s \<Longrightarrow>
    (a_bakes s = s \<and> \<not> (ovens_available s > 0 \<and> get_free_chef s \<noteq> 0 \<and>
       (\<exists>ci\<in>set (sofa_q s). can_bake s ci))) \<or> work i (a_bakes s) < work i s"
proof (induction "nat (ovens_available s)" arbitrary: s rule: less_induct)
  case less
  show ?case
  proof (cases "ovens_available s > 0 \<and> get_free_chef s \<noteq> 0 \<and> find (can_bake s) (sofa_q s) \<noteq> None")
    case False
    then have "a_bakes s = s" by (subst a_bakes.simps) (auto split: option.split)
    then show ?thesis using False by (auto simp: find_None_iff)
  next
    case True
    then obtain ci where ci: "find (can_bake s) (sofa_q s) = Some ci" by auto
    then have c: "ci \<in> set (sofa_q s)" "can_bake s ci" by (auto simp: find_Some_iff)
    let ?t = "a_bake (get_free_chef s) ci s"
    have len: "ci < length (customers s)" using c(1) less.prems(1) by (auto simp: bk_inv_def seats_def)
    then have "due_later ?t" "ovens_available ?t = ovens_available s - 1"
      using less.prems(2) by (auto simp: due_later_def a_bake_def Let_def T_CHEF_ACTION_def)
    moreover have "bk_inv i ?t" using bake_inv [OF less.prems(1) refl _ c] True by simp
    moreover have "work i ?t < work i s"
      using c(2) len by (intro stage_less_work [OF c(1)])
        (auto simp: stage_def a_bake_def can_bake_def Let_def num_arrivals_def)
    moreover have "a_bakes s = a_bakes ?t" using True ci by (subst a_bakes.simps) simp
    ultimately show ?thesis using less.hyps [of ?t] True by auto
  qed
qed


subsection \<open>A second without change\<close>

definition idle :: "nat \<Rightarrow> abakery \<Rightarrow> bool" where
  "idle i s \<longleftrightarrow> \<not> (i < num_arrivals s \<and> ts (arrivals s ! i) = current_time s) \<and> due_later s \<and>
     \<not> (length (sofa_q s) < SOFA_CAPACITY \<and> standing_q s \<noteq> [] \<and>
        allowed_sit (hd (standing_q s)) s \<le> current_time s) \<and>
     (\<forall>ci\<in>set (sofa_q s). \<not> wants s ci) \<and>
     \<not> (\<not> register_busy s \<and> get_free_chef s \<noteq> 0 \<and> accept_ready_q s \<noteq> [] \<and>
        t_pay_time (customer (hd (accept_ready_q s)) s) + T_CUSTOMER_ACTION \<le> current_time s) \<and>
     \<not> (ovens_available s > 0 \<and> get_free_chef s \<noteq> 0 \<and> (\<exists>ci\<in>set (sofa_q s). can_bake s ci))"

lemma tick_work:
  assumes inv: "bk_inv i s" and t: "a_tick i s = (j, s')"
  shows "(j = i \<and> s' = s \<and> idle i s) \<or> work j s' < work i s"
proof -
  obtain s1 where s1: "a_arrivals i s = (j, s1)"
      "s' = a_bakes (a_accepts (a_requests (a_move (a_finish_tasks s1))))"
    using t by (auto simp: a_tick_def split: prod.splits)
  define s2 where "s2 = a_finish_tasks s1"
  define s3 where "s3 = a_move s2"
  define s4 where "s4 = a_requests s3"
  define s5 where "s5 = a_accepts s4"
  define s6 where "s6 = a_bakes s5"
  note d = s2_def s3_def s4_def s5_def s6_def
  have s': "s' = s6" using s1(2) by (simp add: d)
  note i1 = conjunct1 [OF arrivals_inv [OF inv s1(1)]]
  have i2: "bk_inv j s2" "due_later s2" using finish_tasks_inv [OF i1] by (simp_all add: s2_def)
  have i3: "bk_inv j s3" "due_later s3" using move_inv [OF i2] by (simp_all add: s3_def)
  have i4: "bk_inv j s4" "due_later s4" using requests_inv [OF i3(1)] i3(2)
    by (simp_all add: s4_def a_requests_def requests_due)
  have i5: "bk_inv j s5" "due_later s5" using accepts_inv [OF i4] by (simp_all add: s5_def)
  note w1 = arrivals_work [OF inv s1(1)]
    and w2 = finish_tasks_work [OF i1, folded s2_def] and w3 = move_work [OF i2, folded s3_def]
    and w4 = requests_work [OF i3(1), folded s4_def] and w5 = accepts_work [OF i4(1), folded s5_def]
    and w6 = bakes_work [OF i5, folded s6_def]
  show ?thesis
  proof (cases "j = i \<and> s1 = s \<and> s2 = s1 \<and> s3 = s2 \<and> s4 = s3 \<and> s5 = s4 \<and> s6 = s5")
    case True
    then have e: "s2 = s" "s3 = s" "s4 = s" "s5 = s" "s6 = s" "j = i" "s1 = s" by simp_all
    have "\<not> (i < num_arrivals s \<and> ts (arrivals s ! i) = current_time s)" using w1 e by simp
    moreover have "due_later s" using w2 e by simp
    moreover have "\<not> (length (sofa_q s) < SOFA_CAPACITY \<and> standing_q s \<noteq> [] \<and>
        allowed_sit (hd (standing_q s)) s \<le> current_time s)" using w3 unfolding e by blast
    moreover have "\<forall>ci\<in>set (sofa_q s). \<not> wants s ci" using w4 unfolding e by blast
    moreover have "\<not> (\<not> register_busy s \<and> get_free_chef s \<noteq> 0 \<and> accept_ready_q s \<noteq> [] \<and>
        t_pay_time (customer (hd (accept_ready_q s)) s) + T_CUSTOMER_ACTION \<le> current_time s)"
      using w5 unfolding e by blast
    moreover have "\<not> (ovens_available s > 0 \<and> get_free_chef s \<noteq> 0 \<and> (\<exists>ci\<in>set (sofa_q s). can_bake s ci))"
      using w6 unfolding e by blast
    ultimately have "idle i s" unfolding idle_def by blast
    then show ?thesis using e by (simp add: s')
  next
    case False
    have v1: "(j = i \<and> s1 = s) \<or> work j s1 < work i s" using w1 by blast
    have v2: "s2 = s1 \<or> work j s2 < work j s1" using w2 by blast
    have v3: "s3 = s2 \<or> work j s3 < work j s2" using w3 by blast
    have v4: "s4 = s3 \<or> work j s4 < work j s3" using w4 by blast
    have v5: "s5 = s4 \<or> work j s5 < work j s4" using w5 by blast
    have v6: "s6 = s5 \<or> work j s6 < work j s5" using w6 by blast
    have "work j s1 \<le> work i s" using v1 by auto
    moreover have "work j s2 \<le> work j s1" using v2 by auto
    moreover have "work j s3 \<le> work j s2" using v3 by auto
    moreover have "work j s4 \<le> work j s3" using v4 by auto
    moreover have "work j s5 \<le> work j s4" using v5 by auto
    moreover have "work j s6 \<le> work j s5" using v6 by auto
    moreover have "work j s1 < work i s \<or> work j s2 < work j s1 \<or> work j s3 < work j s2 \<or>
        work j s4 < work j s3 \<or> work j s5 < work j s4 \<or> work j s6 < work j s5"
      using False v1 v2 v3 v4 v5 v6 by argo
    ultimately have "work j s6 < work i s" by linarith
    then show ?thesis by (simp add: s')
  qed
qed

definition deadlines :: "nat \<Rightarrow> abakery \<Rightarrow> int set" where
  "deadlines i s = end_time ` set (baking s) \<union> (if register_busy s then {end_time (accepting s)} else {}) \<union>
     (if i < num_arrivals s then {ts (arrivals s ! i)} else {})"

definition timer :: "nat \<Rightarrow> abakery \<Rightarrow> nat" where
  "timer i s = (if deadlines i s = {} then 0 else nat (Min (deadlines i s) - current_time s))"

text \<open>A state with no deadline in which the next second changes nothing is finished.\<close>

lemma idle_no_deadline:
  assumes inv: "bk_inv i s" and t: "0 \<le> current_time s" and none: "deadlines i s = {}"
    and idle: "idle i (s\<lparr>current_time := current_time s + 1\<rparr>)"
  shows "a_finished i s"
proof -
  let ?u = "s\<lparr>current_time := current_time s + 1\<rparr>"
  have n: "baking s = []" "\<not> register_busy s" "\<not> i < num_arrivals s"
    using none by (auto simp: deadlines_def split: if_splits)
  have c: "clock i s" and f: "flow i s" and st: "staff s" and se: "seats i s"
    using inv by (simp_all add: bk_inv_def)
  have "busy_chefs s = []" using n by (simp add: busy_chefs_def)
  then have chef: "get_free_chef s \<noteq> 0" using get_free_chef_None [OF st] by auto
  have chef': "get_free_chef ?u = get_free_chef s" by (simp add: get_free_chef_def)
  have ovens: "ovens_available s > 0" using st n by (simp add: staff_def)
  have past: "past (current_time s) (customer ci s)" if "ci \<in> set (sofa_q s)" for ci
    using c that by (simp add: clock_def)
  have ready: "accept_ready_q s = []"
  proof (rule ccontr)
    assume ne: "accept_ready_q s \<noteq> []"
    let ?ci = "hd (accept_ready_q s)"
    have hd: "?ci \<in> set (accept_ready_q s)" using ne by simp
    then have so: "?ci \<in> set (sofa_q s)" using f by (auto simp: flow_def)
    then have "seated_ok ?ci s" using f by (auto simp: flow_def)
    then have "baked (customer ?ci s)" using hd by (simp add: seated_ok_def)
    then have "t_pay_time (customer ?ci s) + T_CUSTOMER_ACTION \<le> current_time s + 1"
      using past [OF so] by (simp add: past_def T_CUSTOMER_ACTION_def)
    then show False using idle ne n chef by (simp add: idle_def chef')
  qed
  have sofa: "sofa_q s = []"
  proof (rule ccontr)
    assume "sofa_q s \<noteq> []"
    then obtain ci where ci: "ci \<in> set (sofa_q s)" by (cases "sofa_q s") auto
    then have ok: "seated_ok ci s" using f by (auto simp: flow_def)
    have "\<not> wants ?u ci" using idle ci by (simp add: idle_def)
    then have "requested (customer ci s)"
      using ok past [OF ci] by (simp add: wants_def seated_ok_def past_def T_CUSTOMER_ACTION_def)
    moreover have "\<not> is_baking (customer ci s)" "\<not> baked (customer ci s)"
      using ok n ready by (auto simp: seated_ok_def in_oven_def at_register_def)
    ultimately have "can_bake ?u ci"
      using past [OF ci] by (simp add: can_bake_def past_def T_CUSTOMER_ACTION_def)
    then show False using idle ci ovens chef by (simp add: idle_def chef')
  qed
  have stand: "standing_q s = []"
  proof (rule ccontr)
    assume ne: "standing_q s \<noteq> []"
    let ?ci = "hd (standing_q s)"
    have "set (standing_q s) \<subseteq> {..<i}" using se by (simp add: seats_def)
    then have "?ci < i" using hd_in_set [OF ne] by blast
    then have "ts (arrivals s ! ?ci) \<le> current_time s" "?ci < num_arrivals s"
      using c se by (auto simp: clock_def seats_def)
    then have "arrival_ts (customer ?ci s) \<le> current_time s" using c by (simp add: clock_def)
    then have "allowed_sit ?ci ?u \<le> current_time s + 1"
      using c t by (auto simp: allowed_sit_def clock_def T_CUSTOMER_ACTION_def)
    then show False using idle ne sofa by (simp add: idle_def SOFA_CAPACITY_def)
  qed
  show ?thesis using n ready sofa stand se by (simp add: a_finished_def seats_def)
qed

lemma idle_timer:
  assumes due: "\<forall>k. i \<le> k \<and> k < num_arrivals s \<longrightarrow> current_time s < ts (arrivals s ! k)"
    and idle: "idle i (s\<lparr>current_time := current_time s + 1\<rparr>)" and D: "deadlines i s \<noteq> {}"
  shows "timer i (s\<lparr>current_time := current_time s + 1\<rparr>) < timer i s"
proof -
  let ?u = "s\<lparr>current_time := current_time s + 1\<rparr>"
  have e: "deadlines i ?u = deadlines i s" by (simp add: deadlines_def num_arrivals_def)
  have "current_time s + 1 < d" if "d \<in> deadlines i s" for d
  proof -
    have "due_later ?u" "\<not> (i < num_arrivals s \<and> ts (arrivals s ! i) = current_time s + 1)"
      using idle by (simp_all add: idle_def num_arrivals_def)
    moreover have "i < num_arrivals s \<Longrightarrow> current_time s < ts (arrivals s ! i)" using due by blast
    ultimately show ?thesis using that
      by (fastforce simp: deadlines_def due_later_def split: if_splits)
  qed
  moreover have "finite (deadlines i s)" by (simp add: deadlines_def)
  ultimately have "current_time s + 1 < Min (deadlines i s)" using D by simp
  then show ?thesis using D by (simp add: timer_def e)
qed

definition progress :: "((nat \<times> abakery) \<times> (nat \<times> abakery)) set" where
  "progress = inv_image (less_than <*lex*> less_than <*lex*> less_than)
     (\<lambda>(i, s). (work i s, nat (- current_time s), timer i s))"

lemma wf_progress: "wf progress"
  by (simp add: progress_def wf_lex_prod)

lemma work_time [simp]: "work i (s\<lparr>current_time := t\<rparr>) = work i s"
proof -
  have "stage (s\<lparr>current_time := t\<rparr>) = stage s" by (simp add: stage_def Let_def fun_eq_iff)
  then show ?thesis by (simp add: work_def num_arrivals_def)
qed

lemma second_progress:
  assumes inv: "bk_inv i s" and due: "due_later s"
    and future: "\<forall>k. i \<le> k \<and> k < num_arrivals s \<longrightarrow> current_time s < ts (arrivals s ! k)"
    and nf: "\<not> a_finished i s" and t: "a_tick i (s\<lparr>current_time := current_time s + 1\<rparr>) = (j, s')"
  shows "((j, s'), (i, s)) \<in> progress"
proof -
  let ?u = "s\<lparr>current_time := current_time s + 1\<rparr>"
  have "bk_inv i ?u" by (rule next_second [OF inv due future])
  from tick_work [OF this t] show ?thesis
  proof
    assume "work j s' < work i ?u"
    then show ?thesis by (simp add: progress_def)
  next
    assume e: "j = i \<and> s' = ?u \<and> idle i ?u"
    show ?thesis
    proof (cases "0 \<le> current_time s")
      case False
      then show ?thesis using e by (simp add: progress_def)
    next
      case True
      then have "deadlines i s \<noteq> {}" using idle_no_deadline [OF inv] nf e by blast
      then have "timer i ?u < timer i s" using idle_timer [OF future] e by blast
      then show ?thesis using e True by (simp add: progress_def)
    qed
  qed
qed

end
