(* ===== verification/BakeryTime.thy ===== *)
theory BakeryTime
  imports BakeryLive
begin

section \<open>The timeline of every customer\<close>

text \<open>
  \<open>chain\<close> orders the times recorded for a customer as the service is meant to go: a
  second between arriving and sitting, sitting and requesting, requesting and baking,
  two seconds of baking, a second of paying, two seconds at the register.  \<open>timeline\<close>
  says it holds for all customers, that tasks end when the customers' records say, and
  that nobody who entered is lost.
\<close>

definition chain :: "customer_t \<Rightarrow> bool" where
  "chain c \<longleftrightarrow>
     (seated c \<longrightarrow> arrival_ts c + 1 \<le> t_sat c) \<and>
     (requested c \<longrightarrow> seated c \<and> t_sat c + 1 \<le> t_request c) \<and>
     (is_baking c \<or> baked c \<longrightarrow> requested c \<and> t_request c + 1 \<le> t_bake_start c \<and>
        t_bake_end c = t_bake_start c + 2) \<and>
     (baked c \<longrightarrow> t_pay_time c = t_bake_end c) \<and>
     (accept_started c \<or> is_done c \<longrightarrow> baked c \<and> t_pay_time c + 1 \<le> t_accept_start c \<and>
        t_accept_end c = t_accept_start c + 2) \<and>
     (is_done c \<longrightarrow> paid c \<and> t_leave c = t_accept_end c)"

definition timeline :: "nat \<Rightarrow> abakery \<Rightarrow> bool" where
  "timeline i s \<longleftrightarrow> (\<forall>ci<length (customers s). chain (customer ci s)) \<and>
     (\<forall>b\<in>set (baking s). end_time b = t_bake_end (customer (cust_idx b) s)) \<and>
     (register_busy s \<longrightarrow> accept_started (customer (cust_idx (accepting s)) s) \<and>
        end_time (accepting s) = t_accept_end (customer (cust_idx (accepting s)) s)) \<and>
     (\<forall>ci\<in>set (sofa_q s). \<not> is_done (customer ci s)) \<and>
     (\<forall>ci<i. entered (customer ci s) \<longrightarrow> ci \<in> set (standing_q s) \<union> set (sofa_q s) \<or> is_done (customer ci s)) \<and>
     (\<forall>ci. i \<le> ci \<and> ci < length (customers s) \<longrightarrow> \<not> entered (customer ci s))"

definition bk_all :: "nat \<Rightarrow> abakery \<Rightarrow> bool" where
  "bk_all i s \<longleftrightarrow> bk_inv i s \<and> timeline i s"

lemma customer_nth: "customer ci s = customers s ! ci"
  by (simp add: customer_def)

lemma enter_all:
  assumes "bk_all i s" "i < num_arrivals s" "people_inside s < MAX_CAPACITY"
    and "ts (arrivals s ! i) = current_time s"
  shows "bk_all (i + 1) (a_enter i s)"
proof -
  have inv: "bk_inv i s" and tl: "timeline i s" using assms(1) by (simp_all add: bk_all_def)
  have len: "i < length (customers s)" using inv assms(2) by (simp add: bk_inv_def seats_def)
  have out: "i \<notin> set (sofa_q s)" using inv by (auto simp: bk_inv_def seats_def)
  have cust: "customer x (a_enter i s) = (if x = i then (customer i s)\<lparr>entered := True\<rparr> else customer x s)" for x
    using len by (simp add: a_enter_def Let_def)
  have ch: "chain (c\<lparr>entered := True\<rparr>) = chain c" for c by (simp add: chain_def)
  have fields: "standing_q (a_enter i s) = standing_q s @ [i]" "sofa_q (a_enter i s) = sofa_q s"
    "baking (a_enter i s) = baking s" "register_busy (a_enter i s) = register_busy s"
    "accepting (a_enter i s) = accepting s" "length (customers (a_enter i s)) = length (customers s)"
    by (simp_all add: a_enter_def Let_def)
  have "timeline (i + 1) (a_enter i s)"
    using tl by (auto simp: timeline_def cust fields ch less_Suc_eq)
  then show ?thesis using enter_inv [OF inv assms(2-4)] by (simp add: bk_all_def)
qed

lemma skip_all:
  assumes "bk_all i s" "i < num_arrivals s" "ts (arrivals s ! i) = current_time s"
  shows "bk_all (i + 1) s"
proof -
  have "i < length (customers s)" using assms(1,2) by (simp add: bk_all_def bk_inv_def seats_def)
  then show ?thesis using assms skip_inv by (auto simp: bk_all_def timeline_def less_Suc_eq)
qed

lemma leave_all:
  assumes all: "bk_all i s" and busy: "register_busy s" and t: "end_time (accepting s) = current_time s"
  shows "bk_all i (a_leave s)"
proof -
  let ?ci = "cust_idx (accepting s)" and ?t = "a_leave s"
  have inv: "bk_inv i s" and tl: "timeline i s" using all by (simp_all add: bk_all_def)
  have ci: "?ci \<in> set (sofa_q s)" using inv busy by (auto simp: bk_inv_def flow_def at_register_def)
  then have len: "?ci < length (customers s)" using inv sofa_index by (auto simp: bk_inv_def)
  have nb: "?ci \<notin> in_oven s"
    using inv busy ci by (auto simp: bk_inv_def flow_def seated_ok_def at_register_def)
  have cust: "customer x ?t = (if x = ?ci then (customer ?ci s)\<lparr>t_accept_end := current_time s,
      accept_started := False, paid := True, t_leave := current_time s, is_done := True\<rparr> else customer x s)" for x
    using len by (simp add: a_leave_def Let_def)
  have fields: "standing_q ?t = standing_q s" "sofa_q ?t = filter (\<lambda>x. x \<noteq> ?ci) (sofa_q s)"
    "baking ?t = baking s" "\<not> register_busy ?t" "length (customers ?t) = length (customers s)"
    by (simp_all add: a_leave_def Let_def)
  have "accept_started (customer ?ci s)" "chain (customer ?ci s)"
    "t_accept_end (customer ?ci s) = current_time s"
    using tl busy len t by (auto simp: timeline_def)
  then have "chain (customer ?ci ?t)" by (auto simp: cust chain_def)
  then have "timeline i ?t"
    using tl nb by (auto simp: timeline_def cust fields in_oven_def)
  then show ?thesis using leave_inv [OF inv busy] by (simp add: bk_all_def)
qed

lemma timeline_baking_sub:
  "timeline i (s\<lparr>baking := l\<rparr>) \<Longrightarrow> set l' \<subseteq> set l \<Longrightarrow> timeline i (s\<lparr>baking := l'\<rparr>)"
  by (auto simp: timeline_def)

lemma baked_all:
  assumes all: "bk_all i (s\<lparr>baking := pre @ b # bs\<rparr>)" and t: "end_time b = current_time s"
  shows "bk_all i ((a_baked b s)\<lparr>baking := pre @ bs\<rparr>)"
proof -
  let ?s = "s\<lparr>baking := pre @ b # bs\<rparr>" and ?ci = "cust_idx b" and ?t = "(a_baked b s)\<lparr>baking := pre @ bs\<rparr>"
  have inv: "bk_inv i ?s" and tl: "timeline i ?s" using all by (simp_all add: bk_all_def)
  have ci: "?ci \<in> set (sofa_q s)" using inv by (auto simp: bk_inv_def flow_def in_oven_def)
  then have len: "?ci < length (customers s)"
    using inv sofa_index [of i ?s ?ci] by (auto simp: bk_inv_def)
  have ok: "seated_ok ?ci ?s" using inv ci by (auto simp: bk_inv_def flow_def)
  have d: "?ci \<notin> cust_idx ` set (pre @ bs)" using inv by (auto simp: bk_inv_def flow_def)
  have reg: "register_busy s \<Longrightarrow> cust_idx (accepting s) \<noteq> ?ci"
    using ok by (auto simp: seated_ok_def in_oven_def at_register_def)
  have cust: "customer x (a_baked b s) = (if x = ?ci then (customer ?ci s)\<lparr>baked := True, is_baking := False,
      t_bake_end := current_time s, t_pay_time := current_time s\<rparr> else customer x s)" for x
    using len by (simp add: a_baked_def Let_def)
  have fields: "standing_q (a_baked b s) = standing_q s" "sofa_q (a_baked b s) = sofa_q s"
    "register_busy (a_baked b s) = register_busy s" "accepting (a_baked b s) = accepting s"
    "length (customers (a_baked b s)) = length (customers s)"
    by (simp_all add: a_baked_def Let_def)
  have "is_baking (customer ?ci s)" "\<not> baked (customer ?ci s)" "chain (customer ?ci s)"
    "t_bake_end (customer ?ci s) = current_time s"
    using tl ok len t by (auto simp: timeline_def seated_ok_def in_oven_def)
  then have "chain (customer ?ci ?t)" by (auto simp: cust chain_def)
  then have "timeline i ?t"
    using tl d reg t by (auto simp: timeline_def cust fields image_iff)
  then show ?thesis using baked_inv [OF inv t] by (simp add: bk_all_def)
qed

lemma sit_all:
  assumes all: "bk_all i s" and st: "standing_q s = ci # st'" and room: "length (sofa_q s) < SOFA_CAPACITY"
    and allowed: "allowed_sit ci s \<le> current_time s"
  shows "bk_all i (a_sit ci (s\<lparr>standing_q := st'\<rparr>))"
proof -
  let ?t = "a_sit ci (s\<lparr>standing_q := st'\<rparr>)"
  have inv: "bk_inv i s" and tl: "timeline i s" using all by (simp_all add: bk_all_def)
  have len: "ci < length (customers s)" "ci \<notin> set (sofa_q s)"
    using inv st by (auto simp: bk_inv_def seats_def)
  have f: "fresh (customer ci s)" using inv st by (auto simp: bk_inv_def flow_def)
  have sub: "in_oven s \<subseteq> set (sofa_q s)" "at_register s \<subseteq> set (sofa_q s)"
    using inv by (auto simp: bk_inv_def flow_def)
  have cust: "customer x ?t = (if x = ci then (customer ci s)\<lparr>seated := True, t_sat := current_time s\<rparr>
      else customer x s)" for x
    using len by (simp add: a_sit_def Let_def)
  have fields: "standing_q ?t = st'" "sofa_q ?t = sofa_q s @ [ci]" "baking ?t = baking s"
    "register_busy ?t = register_busy s" "accepting ?t = accepting s"
    "length (customers ?t) = length (customers s)"
    by (simp_all add: a_sit_def Let_def)
  have ch: "chain (customer ci s)" using tl len by (simp add: timeline_def)
  moreover have "arrival_ts (customer ci s) + 1 \<le> current_time s"
    using allowed by (simp add: allowed_sit_def T_CUSTOMER_ACTION_def)
  ultimately have "chain (customer ci ?t)" using f by (simp add: cust chain_def fresh_def)
  moreover have "\<not> is_done (customer ci s)" using ch f by (auto simp: chain_def fresh_def)
  ultimately have "timeline i ?t"
    using tl sub len st by (auto simp: timeline_def cust fields in_oven_def at_register_def)
  then show ?thesis using sit_inv [OF inv st room] by (simp add: bk_all_def)
qed

lemma request_all:
  assumes all: "bk_all i s" and ci: "ci \<in> set (sofa_q s)"
  shows "bk_all i (a_request ci s)"
proof (cases "wants s ci")
  case False
  then have "a_request ci s = s" by (auto simp: a_request_def wants_def Let_def)
  then show ?thesis using all by simp
next
  case True
  let ?t = "a_request ci s"
  have inv: "bk_inv i s" and tl: "timeline i s" using all by (simp_all add: bk_all_def)
  have len: "ci < length (customers s)" using inv ci by (auto simp: bk_inv_def seats_def)
  have cust: "customer x ?t = (if x = ci then (customer ci s)\<lparr>requested := True, t_request := current_time s\<rparr>
      else customer x s)" for x
    using True len by (simp add: a_request_def wants_def Let_def)
  have lc: "length (customers ?t) = length (customers s)" by (simp add: a_request_def Let_def)
  have "chain (customer ci s)" using tl len by (simp add: timeline_def)
  then have "chain (customer ci ?t)"
    using True by (auto simp: cust chain_def wants_def T_CUSTOMER_ACTION_def)
  then have "timeline i ?t" using tl by (auto simp: timeline_def cust lc)
  then show ?thesis using request_inv [OF inv ci] by (simp add: bk_all_def)
qed

lemma accept_all:
  assumes all: "bk_all i s" and free: "\<not> register_busy s" and k: "get_free_chef s = k" "k \<noteq> 0"
    and rd: "accept_ready_q s = ci # rd'"
    and t: "t_pay_time (customer ci s) + T_CUSTOMER_ACTION \<le> current_time s"
  shows "bk_all i (a_accept k ci (s\<lparr>accept_ready_q := rd'\<rparr>))"
proof -
  let ?t = "a_accept k ci (s\<lparr>accept_ready_q := rd'\<rparr>)"
  have inv: "bk_inv i s" and tl: "timeline i s" using all by (simp_all add: bk_all_def)
  have ci: "ci \<in> set (sofa_q s)" using inv rd by (auto simp: bk_inv_def flow_def)
  have len: "ci < length (customers s)" using inv ci by (auto simp: bk_inv_def seats_def)
  have ok: "seated_ok ci s" using inv ci by (auto simp: bk_inv_def flow_def)
  have cust: "customer x ?t = (if x = ci then (customer ci s)\<lparr>accept_started := True,
      t_accept_start := current_time s, t_accept_end := current_time s + T_CHEF_ACTION\<rparr>
      else customer x s)" for x
    using len by (simp add: a_accept_def Let_def)
  have fields: "standing_q ?t = standing_q s" "sofa_q ?t = sofa_q s" "baking ?t = baking s"
    "cust_idx (accepting ?t) = ci" "end_time (accepting ?t) = current_time s + 2"
    "length (customers ?t) = length (customers s)"
    using len by (simp_all add: a_accept_def Let_def T_CHEF_ACTION_def)
  have "chain (customer ci s)" "\<not> is_done (customer ci s)" using tl len ci by (auto simp: timeline_def)
  then have "chain (customer ci ?t)"
    using ok rd t by (auto simp: cust chain_def seated_ok_def T_CUSTOMER_ACTION_def T_CHEF_ACTION_def)
  then have "timeline i ?t"
    using tl by (auto simp: timeline_def cust fields T_CHEF_ACTION_def)
  then show ?thesis using accept_inv [OF inv free k rd] by (simp add: bk_all_def)
qed

lemma bake_all:
  assumes all: "bk_all i s" and k: "get_free_chef s = k" "k \<noteq> 0"
    and ci: "ci \<in> set (sofa_q s)" and can: "can_bake s ci"
  shows "bk_all i (a_bake k ci s)"
proof -
  let ?t = "a_bake k ci s"
  have inv: "bk_inv i s" and tl: "timeline i s" using all by (simp_all add: bk_all_def)
  have len: "ci < length (customers s)" using inv ci by (auto simp: bk_inv_def seats_def)
  have ok: "seated_ok ci s" using inv ci by (auto simp: bk_inv_def flow_def)
  then have no: "ci \<notin> in_oven s" "ci \<notin> at_register s"
    using can by (auto simp: seated_ok_def can_bake_def)
  have cust: "customer x ?t = (if x = ci then (customer ci s)\<lparr>is_baking := True,
      t_bake_start := current_time s, t_bake_end := current_time s + T_CHEF_ACTION\<rparr>
      else customer x s)" for x
    using len by (simp add: a_bake_def Let_def)
  have fields: "standing_q ?t = standing_q s" "sofa_q ?t = sofa_q s"
    "baking ?t = baking s @ [\<lparr>cust_idx = ci, chef_id = k, end_time = current_time s + 2\<rparr>]"
    "register_busy ?t = register_busy s" "accepting ?t = accepting s"
    "length (customers ?t) = length (customers s)"
    using len by (simp_all add: a_bake_def Let_def T_CHEF_ACTION_def)
  have "chain (customer ci s)" using tl len by (simp add: timeline_def)
  then have "chain (customer ci ?t)"
    using can by (auto simp: cust chain_def can_bake_def T_CUSTOMER_ACTION_def T_CHEF_ACTION_def)
  then have "timeline i ?t"
    using tl no by (auto simp: timeline_def cust fields in_oven_def at_register_def T_CHEF_ACTION_def image_iff)
  then show ?thesis using bake_inv [OF inv k ci can] by (simp add: bk_all_def)
qed

subsection \<open>Through the loops\<close>

lemma arrivals_all: "bk_all i s \<Longrightarrow> a_arrivals i s = (j, s') \<Longrightarrow> bk_all j s'"
proof (induction i s arbitrary: j s' rule: a_arrivals.induct)
  case (1 i s)
  show ?case
  proof (cases "i < num_arrivals s \<and> ts (arrivals s ! i) = current_time s")
    case True
    have "bk_all (i + 1) (if people_inside s \<ge> MAX_CAPACITY then s else a_enter i s)"
      using enter_all skip_all True "1.prems"(1) by auto
    moreover have "a_arrivals (i + 1) (if people_inside s \<ge> MAX_CAPACITY then s else a_enter i s) = (j, s')"
      using "1.prems"(2) True by (subst (asm) a_arrivals.simps) simp
    ultimately show ?thesis using "1.IH" [OF True] by blast
  next
    case False
    then have "j = i" "s' = s" using "1.prems"(2) by (subst (asm) a_arrivals.simps, auto)+
    then show ?thesis using "1.prems"(1) by simp
  qed
qed

lemma finish_bakings_all:
  "bk_all i (s\<lparr>baking := pre @ bs\<rparr>) \<Longrightarrow> a_finish_bakings bs s = (nb, s') \<Longrightarrow> bk_all i (s'\<lparr>baking := pre @ nb\<rparr>)"
proof (induction bs arbitrary: s nb s' pre)
  case (Cons b bs)
  show ?case
  proof (cases "end_time b = current_time s")
    case True
    then have "a_finish_bakings bs (a_baked b s) = (nb, s')" using Cons.prems(2) by simp
    from Cons.IH [OF baked_all [OF Cons.prems(1) True] this] show ?thesis .
  next
    case False
    then obtain nb' where f: "a_finish_bakings bs s = (nb', s')" "nb = b # nb'"
      using Cons.prems(2) by (auto split: prod.splits)
    have "bk_all i (s\<lparr>baking := (pre @ [b]) @ bs\<rparr>)" using Cons.prems(1) by simp
    from Cons.IH [OF this f(1)] show ?thesis using f(2) by simp
  qed
qed simp

lemma finish_tasks_all:
  assumes "bk_all i s"
  shows "bk_all i (a_finish_tasks s)"
proof -
  let ?t = "a_finish_accepting s"
  obtain nb u where u: "a_finish_bakings (baking ?t) ?t = (nb, u)" by fastforce
  have inv: "bk_all i ?t" using assms leave_all by (simp add: a_finish_accepting_def)
  have "?t\<lparr>baking := [] @ baking ?t\<rparr> = ?t" by simp
  then have "bk_all i (?t\<lparr>baking := [] @ baking ?t\<rparr>)" using inv by simp
  from finish_bakings_all [OF this u] show ?thesis using u by (simp add: a_finish_tasks_def Let_def)
qed

lemma move_all: "bk_all i s \<Longrightarrow> bk_all i (a_move s)"
proof (induction s rule: a_move.induct)
  case (1 s)
  show ?case
  proof (cases "length (sofa_q s) < SOFA_CAPACITY \<and> standing_q s \<noteq> [] \<and>
      allowed_sit (hd (standing_q s)) s \<le> current_time s")
    case True
    then have "bk_all i (a_sit (hd (standing_q s)) (s\<lparr>standing_q := tl (standing_q s)\<rparr>))"
      using sit_all [OF "1.prems", of "hd (standing_q s)"] by simp
    moreover have "a_move s = a_move (a_sit (hd (standing_q s)) (s\<lparr>standing_q := tl (standing_q s)\<rparr>))"
      using True by (subst a_move.simps) simp
    ultimately show ?thesis using "1.IH" [OF True] by simp
  next
    case False
    then have "a_move s = s" by (subst a_move.simps) auto
    then show ?thesis using "1.prems" by simp
  qed
qed

lemma requests_all:
  assumes "bk_all i s"
  shows "bk_all i (a_requests s)"
proof -
  have "bk_all i s \<Longrightarrow> set xs \<subseteq> set (sofa_q s) \<Longrightarrow> bk_all i (fold a_request xs s)" for xs s
    by (induction xs arbitrary: s) (simp_all add: request_all)
  then show ?thesis using assms by (simp add: a_requests_def)
qed

lemma accepts_all: "bk_all i s \<Longrightarrow> bk_all i (a_accepts s)"
  using accept_all [of i s "get_free_chef s" "hd (accept_ready_q s)" "tl (accept_ready_q s)"]
  by (auto simp: a_accepts_def)

lemma bakes_all: "bk_all i s \<Longrightarrow> bk_all i (a_bakes s)"
proof (induction "nat (ovens_available s)" arbitrary: s rule: less_induct)
  case less
  show ?case
  proof (cases "ovens_available s > 0 \<and> get_free_chef s \<noteq> 0 \<and> find (can_bake s) (sofa_q s) \<noteq> None")
    case False
    then have "a_bakes s = s" by (subst a_bakes.simps) (auto split: option.split)
    then show ?thesis using less.prems by simp
  next
    case True
    then obtain ci where ci: "find (can_bake s) (sofa_q s) = Some ci" by auto
    then have c: "ci \<in> set (sofa_q s)" "can_bake s ci" by (auto simp: find_Some_iff)
    have "bk_all i (a_bake (get_free_chef s) ci s)" using bake_all [OF less.prems refl _ c] True by simp
    moreover have "ovens_available (a_bake (get_free_chef s) ci s) = ovens_available s - 1"
      by (simp add: a_bake_def Let_def)
    moreover have "a_bakes s = a_bakes (a_bake (get_free_chef s) ci s)"
      using True ci by (subst a_bakes.simps) simp
    ultimately show ?thesis using less.hyps [of "a_bake (get_free_chef s) ci s"] True by simp
  qed
qed

lemma tick_all: "bk_all i s \<Longrightarrow> a_tick i s = (j, s') \<Longrightarrow> bk_all j s'"
  using arrivals_all finish_tasks_all move_all requests_all accepts_all bakes_all
  by (auto simp: a_tick_def split: prod.splits)

lemma next_second_all:
  assumes "bk_all i s" "due_later s"
    and "\<forall>k. i \<le> k \<and> k < num_arrivals s \<longrightarrow> current_time s < ts (arrivals s ! k)"
  shows "bk_all i (s\<lparr>current_time := current_time s + 1\<rparr>)"
proof -
  have "timeline i (s\<lparr>current_time := t\<rparr>) = timeline i s" for t by (simp add: timeline_def)
  then show ?thesis using next_second [OF _ assms(2,3)] assms(1) by (simp add: bk_all_def)
qed

end
