(* ===== verification/BakeryRun.thy ===== *)
theory BakeryRun
  imports BakeryTime
begin

section \<open>The bakery program: refinement, safety, service, termination\<close>

text \<open>
  Back on the program.  \<open>ok_state\<close> says its rings are well-formed and its abstraction
  satisfies the invariants; one second of the program is one second of the
  specification, so \<open>main_loop\<close> terminates and what it ends with has served everybody.
  \<open>seconds\<close> are the states at the start of a second that a run goes through.
\<close>

definition ok_state :: "nat \<Rightarrow> queue_t bakery \<Rightarrow> bool" where
  "ok_state i s \<longleftrightarrow> rings_wf s \<and> bk_all i (abs_bk s) \<and> num_arrivals s \<le> 1024"

lemma inv_sizes:
  assumes "bk_inv i s"
  shows "length (standing_q s) \<le> i" "length (accept_ready_q s) \<le> 4" "length (baking s) \<le> 4"
proof -
  have se: "seats i s" and fl: "flow i s" using assms by (simp_all add: bk_inv_def)
  have "length (standing_q s) = card (set (standing_q s))" using se by (simp add: seats_def distinct_card)
  also have "\<dots> \<le> card {..<i}" using se by (intro card_mono) (auto simp: seats_def)
  finally show "length (standing_q s) \<le> i" by simp
  have "length (accept_ready_q s) = card (set (accept_ready_q s))" using fl by (simp add: flow_def distinct_card)
  also have "\<dots> \<le> card (set (sofa_q s))" using fl by (intro card_mono) (auto simp: flow_def)
  also have "\<dots> \<le> 4" using se card_length [of "sofa_q s"] by (simp add: seats_def)
  finally show "length (accept_ready_q s) \<le> 4" .
  have "length (baking s) = card (in_oven s)"
    using fl distinct_card [of "map cust_idx (baking s)"] by (simp add: flow_def in_oven_def)
  also have "\<dots> \<le> card (set (sofa_q s))" using fl by (intro card_mono) (auto simp: flow_def)
  also have "\<dots> \<le> 4" using se card_length [of "sofa_q s"] by (simp add: seats_def)
  finally show "length (baking s) \<le> 4" .
qed

lemma tick_refines:
  assumes ok: "ok_state i s" and t: "tick i s = (j, s')"
  shows "rings_wf s' \<and> a_tick i (abs_bk s) = (j, abs_bk s')"
proof -
  have wf: "rings_wf s" and inv: "bk_inv i (abs_bk s)" and n: "num_arrivals s \<le> 1024"
    using ok by (simp_all add: ok_state_def bk_all_def)
  obtain s1 where s1: "process_arrivals_at_time i s = (j, s1)"
      "s' = schedule_bakes (schedule_accepts (make_requests_from_sofa
        (move_standing_to_sofa_if_possible (finish_tasks_at_time s1))))"
    using t by (auto simp: tick_def split: prod.splits)
  have "q_sz (standing_q s) + (num_arrivals s - i) \<le> 2048"
    using inv_sizes(1) [OF inv] inv n by (auto simp: bk_inv_def seats_def)
  then have r1: "rings_wf s1" "a_arrivals i (abs_bk s) = (j, abs_bk s1)"
    using process_arrivals_refines [OF wf _ s1(1)] by simp_all
  have "bk_inv j (abs_bk s1)" using arrivals_inv [OF inv r1(2)] by blast
  then have "q_sz (accept_ready_q s1) + length (baking s1) \<le> 2048"
    using inv_sizes(2,3) [of j "abs_bk s1"] by simp
  note r2 = finish_tasks_refines [OF r1(1) this]
  note r3 = move_refines [OF conjunct1 [OF r2]]
  note r4 = make_requests_refines [OF conjunct1 [OF r3]]
  note r5 = schedule_accepts_refines [OF conjunct1 [OF r4]]
  note r6 = schedule_bakes_refines [OF conjunct1 [OF r5]]
  show ?thesis using r1(2) r2 r3 r4 r5 r6 by (simp add: s1(2) a_tick_def)
qed

lemma tick_ok:
  assumes ok: "ok_state i s" and t: "tick i s = (j, s')"
  shows "ok_state j s' \<and> arrivals s' = arrivals s \<and> due_later (abs_bk s') \<and>
    (\<forall>k. j \<le> k \<and> k < num_arrivals s' \<longrightarrow> current_time s' < ts (arrivals s' ! k))"
proof -
  note r = tick_refines [OF ok t]
  have inv: "bk_all i (abs_bk s)" using ok by (simp add: ok_state_def)
  then have "bk_inv i (abs_bk s)" by (simp add: bk_all_def)
  note i = tick_inv [OF this conjunct2 [OF r]]
  have "bk_all j (abs_bk s')" using tick_all [OF inv] r by blast
  then show ?thesis using r i ok by (auto simp: ok_state_def num_arrivals_def)
qed

lemma finished_abs: "rings_wf s \<Longrightarrow> all_finished i s \<longleftrightarrow> a_finished i (abs_bk s)"
  by (auto simp: all_finished_def a_finished_def q_empty_items)

lemma next_ok:
  assumes "ok_state i s" "due_later (abs_bk s)"
    and "\<forall>k. i \<le> k \<and> k < num_arrivals s \<longrightarrow> current_time s < ts (arrivals s ! k)"
  shows "ok_state i (s\<lparr>current_time := current_time s + 1\<rparr>)"
proof -
  have "bk_all i ((abs_bk s)\<lparr>current_time := current_time (abs_bk s) + 1\<rparr>)"
    by (rule next_second_all) (use assms in \<open>simp_all add: ok_state_def\<close>)
  then show ?thesis using assms(1) by (simp add: ok_state_def rings_wf_def num_arrivals_def)
qed

subsection \<open>Termination\<close>

lemma main_loop_ends:
  "ok_state i s \<Longrightarrow> due_later (abs_bk s) \<Longrightarrow>
    \<forall>k. i \<le> k \<and> k < num_arrivals s \<longrightarrow> current_time s < ts (arrivals s ! k) \<Longrightarrow>
    \<not> all_finished i s \<Longrightarrow>
    \<exists>r j. main_loop i (s\<lparr>current_time := current_time s + 1\<rparr>) = Some r \<and> ok_state j r \<and>
      all_finished j r \<and> arrivals r = arrivals s"
proof (induction "(i, abs_bk s)" arbitrary: i s rule: wf_induct_rule [OF wf_progress])
  case (1 i s)
  let ?u = "s\<lparr>current_time := current_time s + 1\<rparr>"
  obtain j t where t: "tick i ?u = (j, t)" by fastforce
  have ok: "ok_state i ?u" by (rule next_ok [OF "1.prems"(1,2,3)])
  note n = tick_ok [OF ok t]
  show ?case
  proof (cases "all_finished j t")
    case True
    then show ?thesis using n t by (subst main_loop.simps) auto
  next
    case False
    have m: "main_loop i ?u = main_loop j (t\<lparr>current_time := current_time t + 1\<rparr>)"
      using False by (subst main_loop.simps) (simp add: t)
    have "((j, abs_bk t), (i, abs_bk s)) \<in> progress"
    proof (rule second_progress)
      show "bk_inv i (abs_bk s)" using "1.prems"(1) by (simp add: ok_state_def bk_all_def)
      show "due_later (abs_bk s)" by (rule "1.prems"(2))
      show "\<forall>k. i \<le> k \<and> k < num_arrivals (abs_bk s) \<longrightarrow> current_time (abs_bk s) < ts (arrivals (abs_bk s) ! k)"
        using "1.prems"(3) by simp
      show "\<not> a_finished i (abs_bk s)"
        using "1.prems"(1,4) finished_abs by (auto simp: ok_state_def)
      show "a_tick i ((abs_bk s)\<lparr>current_time := current_time (abs_bk s) + 1\<rparr>) = (j, abs_bk t)"
        using tick_refines [OF ok t] by simp
    qed
    then have "\<exists>r k. main_loop j (t\<lparr>current_time := current_time t + 1\<rparr>) = Some r \<and> ok_state k r \<and>
        all_finished k r \<and> arrivals r = arrivals t"
      by (rule "1.hyps") (use n False in auto)
    then show ?thesis using n by (simp add: m)
  qed
qed

lemma main_loop_total:
  assumes ok: "ok_state i s"
  shows "\<exists>r j. main_loop i s = Some r \<and> ok_state j r \<and> all_finished j r \<and> arrivals r = arrivals s"
proof -
  obtain j t where t: "tick i s = (j, t)" by fastforce
  note n = tick_ok [OF ok t]
  show ?thesis
  proof (cases "all_finished j t")
    case True
    then show ?thesis using n t by (subst main_loop.simps) auto
  next
    case False
    have m: "main_loop i s = main_loop j (t\<lparr>current_time := current_time t + 1\<rparr>)"
      using False by (subst main_loop.simps) (simp add: t)
    show ?thesis unfolding m using main_loop_ends [of j t] n False by auto
  qed
qed

subsection \<open>The initial state\<close>

lemma insert_arrival_set: "set (insert_arrival x ys) = insert x (set ys)"
  by (induction ys) auto

lemma insert_arrival_length: "length (insert_arrival x ys) = Suc (length ys)"
  by (induction ys) auto

lemma cmp_ts: "cmp_arrival x y \<le> 0 \<Longrightarrow> ts x \<le> ts y" "\<not> cmp_arrival x y \<le> 0 \<Longrightarrow> ts y \<le> ts x"
  by (auto simp: cmp_arrival_def split: if_splits)

lemma insert_arrival_sorted:
  "sorted (map ts ys) \<Longrightarrow> sorted (map ts (insert_arrival x ys))"
proof (induction ys)
  case (Cons y ys)
  then show ?case
    using cmp_ts(1) [of x y] cmp_ts(2) [of x y] by (auto simp: insert_arrival_set intro: order_trans)
qed simp

lemma qsort_arrivals:
  "sorted (map ts (qsort_arrivals xs))" "length (qsort_arrivals xs) = length xs"
  "set (qsort_arrivals xs) = set xs"
  by (induction xs) (simp_all add: qsort_arrivals_def insert_arrival_sorted insert_arrival_length insert_arrival_set)

definition start_state :: "arrival_t list \<Rightarrow> queue_t bakery" where
  "start_state as = static_init\<lparr>arrivals := as, customers := map init_customer as,
     standing_q := q_init empty_queue, sofa_q := q_init empty_queue, accept_ready_q := q_init empty_queue,
     chef_free := replicate NUM_CHEFS True, accepting := (accepting static_init)\<lparr>end_time := -1\<rparr>,
     current_time := (if as = [] then 0 else ts (as ! 0))\<rparr>"

lemma start_ok:
  assumes "sorted (map ts as)" "length as \<le> 1024"
  shows "ok_state 0 (start_state as)"
proof -
  let ?s = "abs_bk (start_state as)"
  have sel: "arrivals (start_state as) = as" "customers (start_state as) = map init_customer as"
    "q_items (standing_q (start_state as)) = []" "q_items (sofa_q (start_state as)) = []"
    "q_items (accept_ready_q (start_state as)) = []" "q_sz (standing_q (start_state as)) = 0"
    "q_sz (sofa_q (start_state as)) = 0" "baking (start_state as) = []"
    "\<not> register_busy (start_state as)" "chef_free (start_state as) = replicate 4 True"
    "ovens_available (start_state as) = 4" "people_inside (start_state as) = 0"
    "last_seat_freed_time (start_state as) = -1"
    "current_time (start_state as) = (if as = [] then 0 else ts (as ! 0))"
    by (simp_all add: start_state_def static_init_def bakery_consts) (simp_all add: q_init_def)
  have le: "ts (as ! 0) \<le> ts (as ! k)" if "k < length as" for k
  proof -
    have "map ts as ! 0 \<le> map ts as ! k" by (rule sorted_nth_mono [OF assms(1)]) (use that in simp_all)
    moreover have "0 < length as" using that by linarith
    ultimately show ?thesis using that by simp
  qed
  have "seats 0 ?s" by (simp add: seats_def num_arrivals_def sel)
  moreover have "staff ?s" by (auto simp: staff_def busy_chefs_def sel)
  moreover have "flow 0 ?s"
    by (simp add: flow_def num_arrivals_def in_oven_def at_register_def customer_def fresh_def init_customer_def sel)
  moreover have "clock 0 ?s"
    using assms(1) le by (auto simp: clock_def num_arrivals_def customer_def init_customer_def sel)
  moreover have "timeline 0 ?s"
    by (simp add: timeline_def customer_def chain_def init_customer_def sel)
  moreover have "rings_wf (start_state as)" by (simp add: rings_wf_def start_state_def)
  ultimately show ?thesis
    using assms(2) by (simp add: ok_state_def bk_all_def bk_inv_def num_arrivals_def start_state_def)
qed

lemma main_prog_start:
  assumes "length (read_lines bufs) \<le> 1024"
  shows "main_prog bufs = (let as = qsort_arrivals (read_lines bufs) in
    if as = [] then Some (start_state as) else main_loop 0 (start_state as))"
  using assms
  by (simp add: main_prog_def read_input_def Let_def num_arrivals_def start_state_def static_init_def)

text \<open>The states in which a run of the program starts a second.\<close>

inductive seconds :: "string list \<Rightarrow> nat \<Rightarrow> queue_t bakery \<Rightarrow> bool" for bufs where
  start: "read_lines bufs \<noteq> [] \<Longrightarrow> seconds bufs 0 (start_state (qsort_arrivals (read_lines bufs)))"
| step: "seconds bufs i s \<Longrightarrow> tick i s = (j, t) \<Longrightarrow> \<not> all_finished j t \<Longrightarrow>
    seconds bufs j (t\<lparr>current_time := current_time t + 1\<rparr>)"

inductive_cases seconds_cases: "seconds bufs i s"

lemma seconds_ok:
  assumes "seconds bufs i s" "length (read_lines bufs) \<le> 1024"
  shows "ok_state i s"
  using assms(1)
proof induction
  case start
  then show ?case using start_ok qsort_arrivals assms(2) by simp
next
  case (step i s j t)
  then show ?case using tick_ok [OF step.IH step.hyps(2)] next_ok by blast
qed

subsection \<open>Properties\<close>

definition demo_input :: "string list" where
  "demo_input = [''5 Customer 1'', ''6 Customer 2'', ''<EOF>'']"

lemma demo_lines: "read_lines demo_input = [\<lparr>ts = 5, id_of = 1\<rparr>, \<lparr>ts = 6, id_of = 2\<rparr>]"
  by (simp add: demo_input_def sscanf_arrival_def scan_long_def is_space_def is_digit_def digits_val_def)

text \<open>C5. The bakery closes.  For every input of at most 1024 arrivals the program terminates,
  and then nobody is inside, no task is running, and every customer who entered has been
  served and has left.\<close>

theorem main_prog_terminates:
  assumes "length (read_lines bufs) \<le> 1024"
  shows "\<exists>r. main_prog bufs = Some r \<and> people_inside r = 0 \<and> baking r = [] \<and> \<not> register_busy r \<and>
    ovens_available r = NUM_OVENS \<and>
    (\<forall>c\<in>set (customers r). entered c \<longrightarrow> is_done c \<and> paid c)"
proof -
  let ?as = "qsort_arrivals (read_lines bufs)"
  have served: "people_inside r = 0 \<and> baking r = [] \<and> \<not> register_busy r \<and> ovens_available r = NUM_OVENS \<and>
      (\<forall>c\<in>set (customers r). entered c \<longrightarrow> is_done c \<and> paid c)"
    if ok: "ok_state j r" and fin: "a_finished j (abs_bk r)" for j r
  proof -
    have inv: "seats j (abs_bk r)" "staff (abs_bk r)" "timeline j (abs_bk r)"
      using ok by (simp_all add: ok_state_def bk_all_def bk_inv_def)
    have "is_done c \<and> paid c" if "c \<in> set (customers r)" "entered c" for c
    proof -
      from that(1) have "\<exists>k<length (customers r). customers r ! k = c"
        by (simp only: in_set_conv_nth)
      then obtain k where "k < length (customers r)" "customers r ! k = c" by blast
      then have k: "k < length (customers r)" "c = customer k (abs_bk r)" by (simp_all add: customer_def)
      have "length (customers r) \<le> j" using fin inv(1) unfolding a_finished_def seats_def by simp
      then have "k < j" using k(1) by linarith
      moreover have "standing_q (abs_bk r) = []" "sofa_q (abs_bk r) = []"
        using fin unfolding a_finished_def by blast+
      moreover have "entered (customer k (abs_bk r))" using k that(2) by simp
      ultimately have "is_done c" using inv(3) k(2) unfolding timeline_def by (metis Un_iff empty_iff empty_set)
      moreover have "chain c" using inv(3) k unfolding timeline_def by simp
      ultimately show ?thesis by (simp add: chain_def)
    qed
    then show ?thesis using fin inv(1,2) by (simp add: a_finished_def seats_def staff_def NUM_OVENS_def)
  qed
  have ok: "ok_state 0 (start_state ?as)" using start_ok qsort_arrivals assms by simp
  show ?thesis
  proof (cases "?as = []")
    case True
    have "a_finished 0 (abs_bk (start_state ?as))"
      using True by (simp add: a_finished_def num_arrivals_def start_state_def static_init_def)
    from served [OF ok this] show ?thesis using True by (simp add: main_prog_start [OF assms])
  next
    case False
    obtain r j where r: "main_loop 0 (start_state ?as) = Some r" "ok_state j r" "all_finished j r"
      using main_loop_total [OF ok] by blast
    have "a_finished j (abs_bk r)" using r(2,3) finished_abs by (auto simp: ok_state_def)
    from served [OF r(2) this] show ?thesis using False r(1) by (simp add: main_prog_start [OF assms])
  qed
qed

theorem main_prog_terminates_witness:
  "\<exists>r. main_prog demo_input = Some r \<and> people_inside r = 0"
  using main_prog_terminates [of demo_input] by (auto simp: demo_lines)

text \<open>C22. Service takes the time it should.  In every second of every run, each customer's record
  respects the durations of the model: a second from arriving to sitting and from each action
  to the next, two seconds of baking, a second of paying, two seconds at the register; a
  customer only ever reaches a stage through the ones before it.\<close>

theorem service_timeline:
  assumes "seconds bufs i s" "length (read_lines bufs) \<le> 1024" "c \<in> set (customers s)"
  shows "(seated c \<longrightarrow> arrival_ts c + T_CUSTOMER_ACTION \<le> t_sat c) \<and>
    (requested c \<longrightarrow> seated c \<and> t_sat c + T_CUSTOMER_ACTION \<le> t_request c) \<and>
    (is_baking c \<or> baked c \<longrightarrow> requested c \<and> t_request c + T_CUSTOMER_ACTION \<le> t_bake_start c \<and>
       t_bake_end c = t_bake_start c + T_CHEF_ACTION) \<and>
    (is_done c \<longrightarrow> baked c \<and> t_bake_end c + T_CUSTOMER_ACTION \<le> t_accept_start c \<and>
       t_leave c = t_accept_start c + T_CHEF_ACTION)"
proof -
  have "timeline i (abs_bk s)" using seconds_ok [OF assms(1,2)] by (simp add: ok_state_def bk_all_def)
  then have "chain c" using assms(3) by (auto simp: timeline_def in_set_conv_nth customer_def)
  then show ?thesis by (auto simp: chain_def T_CUSTOMER_ACTION_def T_CHEF_ACTION_def)
qed

lemma demo_second: "seconds demo_input 0 (start_state (qsort_arrivals (read_lines demo_input)))"
  by (rule seconds.start) (simp add: demo_lines)

theorem service_timeline_witness:
  "\<exists>s c. seconds demo_input 0 s \<and> c \<in> set (customers s) \<and>
    (seated c \<longrightarrow> arrival_ts c + T_CUSTOMER_ACTION \<le> t_sat c)"
proof -
  let ?s = "start_state (qsort_arrivals (read_lines demo_input))"
  let ?c = "init_customer \<lparr>ts = 5, id_of = 1\<rparr>"
  have c: "?c \<in> set (customers ?s)"
    by (simp add: start_state_def qsort_arrivals(3) demo_lines)
  have "length (read_lines demo_input) \<le> 1024" by (simp add: demo_lines)
  from service_timeline [OF demo_second this c] show ?thesis using demo_second c by blast
qed

text \<open>C21. Resources are never overdrawn.  In every second of every run at most 25 people are
  inside, at most 4 of them on the sofa, at most 4 cakes are baking and the free ovens are
  the others, no chef works on two tasks, and a chef is marked free exactly when the chef has
  no task.\<close>

theorem bakery_resources:
  assumes "seconds bufs i s" "length (read_lines bufs) \<le> 1024"
  shows "0 \<le> people_inside s \<and> people_inside s \<le> MAX_CAPACITY \<and> q_size (sofa_q s) \<le> SOFA_CAPACITY \<and>
    ovens_available s = NUM_OVENS - int (length (baking s)) \<and> 0 \<le> ovens_available s \<and>
    distinct (busy_chefs s) \<and>
    (\<forall>k<NUM_CHEFS. chef_free s ! k \<longleftrightarrow> k + 1 \<notin> set (busy_chefs s))"
proof -
  have inv: "bk_inv i (abs_bk s)" using seconds_ok [OF assms] by (simp add: ok_state_def bk_all_def)
  then have "seats i (abs_bk s)" "staff (abs_bk s)" by (simp_all add: bk_inv_def)
  moreover have "busy_chefs (abs_bk s) = busy_chefs s" by (simp add: busy_chefs_def)
  moreover have "k + 1 \<in> {1..4}" if "k < 4" for k :: nat using that by simp
  moreover have "length (baking s) \<le> 4" using inv_sizes(3) [OF inv] by simp
  ultimately show ?thesis
    unfolding seats_def staff_def bakery_consts q_size_items by fastforce
qed

theorem bakery_resources_witness:
  "\<exists>s. seconds demo_input 0 s \<and> people_inside s \<le> MAX_CAPACITY"
proof -
  have "length (read_lines demo_input) \<le> 1024" by (simp add: demo_lines)
  from bakery_resources [OF demo_second this] show ?thesis using demo_second by blast
qed

text \<open>C6. The program refines its specification on lists.  Through every second of every run, the
  state with each circular queue read as a list evolves by exactly the list operations of
  the specification: the sofa keeps its order, leaving removes one customer and nobody else,
  and no queue ever overflows or loses an element.\<close>

theorem bakery_refines_lists:
  assumes "seconds bufs i s" "length (read_lines bufs) \<le> 1024" "tick i s = (j, s')"
  shows "a_tick i (abs_bk s) = (j, abs_bk s') \<and> q_wf (standing_q s') \<and> q_wf (sofa_q s') \<and>
    q_wf (accept_ready_q s')"
  using tick_refines [OF seconds_ok [OF assms(1,2)] assms(3)] by (simp add: rings_wf_def)

theorem bakery_refines_lists_witness:
  "\<exists>s s' j. seconds demo_input 0 s \<and> tick 0 s = (j, s') \<and> a_tick 0 (abs_bk s) = (j, abs_bk s')"
proof -
  let ?s = "start_state (qsort_arrivals (read_lines demo_input))"
  obtain j s' where t: "tick 0 ?s = (j, s')" by fastforce
  have "length (read_lines demo_input) \<le> 1024" by (simp add: demo_lines)
  from bakery_refines_lists [OF demo_second this t] show ?thesis using demo_second t by blast
qed

end
