(* ===== verification/Proc.thy ===== *)
theory Proc
  imports PageTable
begin

section \<open>The process table (kernel/proc.h, kernel/proc.c)\<close>

text \<open>
  \<open>struct proc\<close> and the operations of proc.c that touch nothing but the table.
  Pointers between kernel objects are indices: a process is its position in
  \<open>proc[NPROC]\<close>, an open file its position in \<open>ftable\<close>, an inode its position in
  \<open>itable\<close>, and a null pointer is \<open>None\<close>.  \<open>trapframe\<close> and \<open>pagetable\<close> are physical
  addresses, as in C.  The state extends the machine memory; \<open>cur\<close> is the process of
  the CPU that executes.  Each \<open>acquire\<close> ... \<open>release\<close> section is one step, so the
  spin locks do not appear here.  What the kernel prints is kept in \<open>klog\<close>.
\<close>

datatype procstate = UNUSED | USED | SLEEPING | RUNNABLE | RUNNING | ZOMBIE

text \<open>The addresses processes sleep on.\<close>

datatype chan = ChBuf nat | ChInode nat | ChLog | ChProc nat | ChTicks
  | ChPipeRead u64 | ChPipeWrite u64 | ChCons | ChDisk nat | ChDiskFree | ChUart

record segment_info =
  va_start :: u64
  va_end :: u64
  file_off :: u64
  filesz :: u64
  seg_flags :: u32

datatype pagestate = UNMAPPED | RESIDENT | SWAPPED

record page_info =
  pi_va :: u64
  pi_state :: pagestate
  is_dirty :: bool
  pi_seq :: int
  swap_slot :: int

record kcontext =
  ctx_ra :: u64
  ctx_sp :: u64
  ctx_s :: "u64 list"

definition NPROC :: nat where "NPROC = 64"
definition NOFILE :: nat where "NOFILE = 16"
definition MAX_PAGES :: nat where "MAX_PAGES = 512"
definition MAX_SWAP_SLOTS :: nat where "MAX_SWAP_SLOTS = 1024"
definition MAX_SEGMENTS :: nat where "MAX_SEGMENTS = 8"

record proc =
  p_state :: procstate
  p_chan :: "chan option"
  p_killed :: bool
  p_xstate :: u32
  p_pid :: int
  p_parent :: "nat option"
  p_kstack :: u64
  p_sz :: u64
  p_pagetable :: u64
  p_trapframe :: u64
  p_context :: kcontext
  p_ofile :: "nat option list"
  p_cwd :: "nat option"
  p_name :: "nat \<Rightarrow> u8"
  text_start :: u64
  text_end :: u64
  data_start :: u64
  data_end :: u64
  heap_start :: u64
  stack_top :: u64
  next_fifo_seq :: int
  swap_file :: "nat option"
  swap_slots_used :: int
  swap_bitmap :: "u64 list"
  pages :: "page_info list"
  num_pages :: nat
  exec_inode :: "nat option"
  exec_offset :: u64
  segments :: "segment_info list"
  num_segments :: nat

text \<open>What the kernel prints, one constructor per format string.\<close>

datatype kmsg =
    PAGEFAULT int u64 string string
  | KILL_ACCESS int u64 string
  | KILL int string
  | SWAPIN int u64 int
  | RESIDENT_MSG int u64 int
  | LOADEXEC int u64
  | ALLOC int u64
  | MEMFULL int
  | VICTIM int u64 int
  | EVICT int u64 string
  | DISCARD int u64
  | SWAPFULL int
  | SWAPOUT int u64 int
  | SWAPCLEANUP int int
  | INIT_LAZYMAP int u64 u64 u64 u64 u64 u64
  | PROCLINE int string "nat \<Rightarrow> u8"
  | NEWLINE
  | UNKNOWN_SYSCALL int "nat \<Rightarrow> u8" int
  | UNEXPECTED_SCAUSE u64 int
  | UNEXPECTED_IRQ int
  | NO_BLOCKS
  | NO_INODES
  | ORPHAN nat
  | RECOVERING nat u32

record kprocs = kmem +
  procs :: "proc list"
  cur :: "nat option"
  nextpid :: int
  initproc :: "nat option"
  klog :: "kmsg list"
  trampoline_pa :: u64
  forkret_pc :: u64

abbreviation pget :: "nat \<Rightarrow> 'a kprocs_scheme \<Rightarrow> proc" where
  "pget i s \<equiv> procs s ! i"

definition pset :: "nat \<Rightarrow> (proc \<Rightarrow> proc) \<Rightarrow> 'a kprocs_scheme \<Rightarrow> 'a kprocs_scheme" where
  "pset i f s = s\<lparr>procs := (procs s)[i := f (procs s ! i)]\<rparr>"

definition kprint :: "kmsg \<Rightarrow> 'a kprocs_scheme \<Rightarrow> 'a kprocs_scheme" where
  "kprint m s = s\<lparr>klog := klog s @ [m]\<rparr>"

subsection \<open>The table\<close>

definition proc_mapstacks :: "u64 \<Rightarrow> 'a kmem_scheme \<Rightarrow> 'a kmem_scheme option" where
  "proc_mapstacks kpgtbl s = fold (\<lambda>i r. do {
     s \<leftarrow> r;
     case kalloc s of (pa, s) \<Rightarrow>
       if pa = 0 then None
       else kvmmap kpgtbl (KSTACK i) pa PGSIZE (PTE_R OR PTE_W) s
   }) [0..<NPROC] (Some s)"

definition procinit :: "'a kprocs_scheme \<Rightarrow> 'a kprocs_scheme" where
  "procinit s = fold (\<lambda>i. pset i (\<lambda>p. p\<lparr>p_state := UNUSED, p_kstack := KSTACK i\<rparr>)) [0..<NPROC] s"

definition myproc :: "'a kprocs_scheme \<Rightarrow> nat option" where
  "myproc s = cur s"

definition allocpid :: "'a kprocs_scheme \<Rightarrow> int \<times> 'a kprocs_scheme" where
  "allocpid s = (nextpid s, s\<lparr>nextpid := nextpid s + 1\<rparr>)"

definition wakes :: "chan \<Rightarrow> proc \<Rightarrow> proc" where
  "wakes ch p = (if p_state p = SLEEPING \<and> p_chan p = Some ch then p\<lparr>p_state := RUNNABLE\<rparr> else p)"

definition wakeup :: "chan \<Rightarrow> 'a kprocs_scheme \<Rightarrow> 'a kprocs_scheme" where
  "wakeup ch s = fold (\<lambda>i s. if myproc s \<noteq> Some i then pset i (wakes ch) s else s) [0..<NPROC] s"

definition kkill :: "int \<Rightarrow> 'a kprocs_scheme \<Rightarrow> int \<times> 'a kprocs_scheme" where
  "kkill pid s = (case List.find (\<lambda>i. p_pid (pget i s) = pid) [0..<NPROC] of
     Some i \<Rightarrow> (0, pset i (\<lambda>p. let p = p\<lparr>p_killed := True\<rparr> in
       if p_state p = SLEEPING then p\<lparr>p_state := RUNNABLE\<rparr> else p) s)
   | None \<Rightarrow> (-1, s))"

definition setkilled :: "nat \<Rightarrow> 'a kprocs_scheme \<Rightarrow> 'a kprocs_scheme" where
  "setkilled i s = pset i (\<lambda>p. p\<lparr>p_killed := True\<rparr>) s"

definition killed :: "nat \<Rightarrow> 'a kprocs_scheme \<Rightarrow> bool" where
  "killed i s = p_killed (pget i s)"

definition reparent :: "nat \<Rightarrow> 'a kprocs_scheme \<Rightarrow> 'a kprocs_scheme option" where
  "reparent p s = fold (\<lambda>pp r. do {
     s \<leftarrow> r;
     if p_parent (pget pp s) = Some p then do {
       let s = pset pp (\<lambda>q. q\<lparr>p_parent := initproc s\<rparr>) s;
       ini \<leftarrow> initproc s;
       Some (wakeup (ChProc ini) s)
     }
     else Some s
   }) [0..<NPROC] (Some s)"

definition procdump_state :: "procstate \<Rightarrow> string" where
  "procdump_state st = (case st of UNUSED \<Rightarrow> ''unused'' | USED \<Rightarrow> ''used'' | SLEEPING \<Rightarrow> ''sleep ''
     | RUNNABLE \<Rightarrow> ''runble'' | RUNNING \<Rightarrow> ''run   '' | ZOMBIE \<Rightarrow> ''zombie'')"

definition procdump :: "'a kprocs_scheme \<Rightarrow> 'a kprocs_scheme" where
  "procdump s = fold (\<lambda>i s. let p = pget i s in
       if p_state p = UNUSED then s
       else kprint NEWLINE (kprint (PROCLINE (p_pid p) (procdump_state (p_state p)) (p_name p)) s))
     [0..<NPROC] (kprint NEWLINE s)"

subsection \<open>Page records\<close>

text \<open>A pointer to a \<open>struct page_info\<close> is its index in \<open>p->pages\<close>.\<close>

definition find_page_info :: "nat \<Rightarrow> u64 \<Rightarrow> 'a kprocs_scheme \<Rightarrow> nat option" where
  "find_page_info p va s =
     (let va = PGROUNDDOWN va in
      List.find (\<lambda>i. pi_va (pages (pget p s) ! i) = va) [0..<num_pages (pget p s)])"

definition add_page_info :: "nat \<Rightarrow> u64 \<Rightarrow> 'a kprocs_scheme \<Rightarrow> nat option \<times> 'a kprocs_scheme" where
  "add_page_info p va s =
     (if num_pages (pget p s) \<ge> MAX_PAGES then (None, s)
      else let va = PGROUNDDOWN va in
        case find_page_info p va s of
          Some i \<Rightarrow> (Some i, s)
        | None \<Rightarrow> let n = num_pages (pget p s) in
            (Some n, pset p (\<lambda>q. q\<lparr>pages := (pages q)[n := \<lparr>pi_va = va, pi_state = UNMAPPED,
               is_dirty = False, pi_seq = 0, swap_slot = -1\<rparr>], num_pages := n + 1\<rparr>) s))"

definition pi_get :: "nat \<Rightarrow> nat \<Rightarrow> 'a kprocs_scheme \<Rightarrow> page_info" where
  "pi_get p i s = pages (pget p s) ! i"

definition pi_set :: "nat \<Rightarrow> nat \<Rightarrow> (page_info \<Rightarrow> page_info) \<Rightarrow> 'a kprocs_scheme \<Rightarrow> 'a kprocs_scheme" where
  "pi_set p i f s = pset p (\<lambda>q. q\<lparr>pages := (pages q)[i := f (pages q ! i)]\<rparr>) s"

subsection \<open>Swap slots\<close>

definition slot_used :: "u64 list \<Rightarrow> nat \<Rightarrow> bool" where
  "slot_used bm i \<longleftrightarrow> bm ! (i div 64) AND push_bit (i mod 64) 1 \<noteq> 0"

definition alloc_swap_slot :: "nat \<Rightarrow> 'a kprocs_scheme \<Rightarrow> int \<times> 'a kprocs_scheme" where
  "alloc_swap_slot p s =
     (case List.find (\<lambda>i. \<not> slot_used (swap_bitmap (pget p s)) i) [0..<MAX_SWAP_SLOTS] of
        Some i \<Rightarrow> (int i, pset p (\<lambda>q. q\<lparr>swap_bitmap := (swap_bitmap q)
            [i div 64 := swap_bitmap q ! (i div 64) OR push_bit (i mod 64) 1],
            swap_slots_used := swap_slots_used q + 1\<rparr>) s)
      | None \<Rightarrow> (-1, s))"

definition free_swap_slot :: "nat \<Rightarrow> int \<Rightarrow> 'a kprocs_scheme \<Rightarrow> 'a kprocs_scheme" where
  "free_swap_slot p slot s =
     (if slot < 0 \<or> slot \<ge> int MAX_SWAP_SLOTS then s
      else let i = nat slot in
        if slot_used (swap_bitmap (pget p s)) i
        then pset p (\<lambda>q. q\<lparr>swap_bitmap := (swap_bitmap q)
            [i div 64 := swap_bitmap q ! (i div 64) AND NOT (push_bit (i mod 64) 1)],
            swap_slots_used := swap_slots_used q - 1\<rparr>) s
        else s)"

end
