(* ===== verification/Sleeplock.thy ===== *)
theory Sleeplock
  imports Proc
begin

section \<open>Sleep locks (kernel/sleeplock.c)\<close>

text \<open>
  A sleep lock is a flag and the pid of its holder.  Its operations run while other
  processes may hold other locks: \<open>acquiresleep\<close> of a lock that is taken puts the
  caller to sleep until somebody else releases it, which the model of one caller's
  execution reports as \<open>None\<close>; \<open>releasesleep\<close> wakes the sleepers of the lock's channel.
\<close>

record sleeplock =
  sl_locked :: bool
  sl_pid :: int

definition initsleeplock :: sleeplock where
  "initsleeplock = \<lparr>sl_locked = False, sl_pid = 0\<rparr>"

definition acquiresleep :: "sleeplock \<Rightarrow> 'a kprocs_scheme \<Rightarrow> sleeplock option" where
  "acquiresleep lk s =
     (if sl_locked lk then None
      else do { i \<leftarrow> myproc s; Some \<lparr>sl_locked = True, sl_pid = p_pid (pget i s)\<rparr> })"

definition releasesleep :: "chan \<Rightarrow> sleeplock \<Rightarrow> 'a kprocs_scheme \<Rightarrow> sleeplock \<times> 'a kprocs_scheme" where
  "releasesleep ch lk s = (\<lparr>sl_locked = False, sl_pid = 0\<rparr>, wakeup ch s)"

definition holdingsleep :: "sleeplock \<Rightarrow> 'a kprocs_scheme \<Rightarrow> bool option" where
  "holdingsleep lk s =
     (if sl_locked lk then do { i \<leftarrow> myproc s; Some (sl_pid lk = p_pid (pget i s)) }
      else Some False)"

subsection \<open>The running process\<close>

text \<open>
  The process that executes kernel code is in the table; \<open>mypid\<close> is what its locks
  are marked with.  Waking other processes does not touch it.
\<close>

definition running :: "'a kprocs_scheme \<Rightarrow> bool" where
  "running s \<longleftrightarrow> length (procs s) = NPROC \<and> (\<exists>i<NPROC. cur s = Some i)"

definition mypid :: "'a kprocs_scheme \<Rightarrow> int" where
  "mypid s = p_pid (pget (the (cur s)) s)"

lemma NPROC_pos [simp]: "0 < NPROC" by (simp add: NPROC_def)

lemma pset_simps [simp]:
  "cur (pset i f s) = cur s" "nextpid (pset i f s) = nextpid s" "initproc (pset i f s) = initproc s"
  "klog (pset i f s) = klog s" "mem (pset i f s) = mem s" "freelist (pset i f s) = freelist s"
  "kend (pset i f s) = kend s" "length (procs (pset i f s)) = length (procs s)"
  "trampoline_pa (pset i f s) = trampoline_pa s" "forkret_pc (pset i f s) = forkret_pc s"
  by (simp_all add: pset_def)

lemma pget_pset: "i < length (procs s) \<Longrightarrow> pget i (pset i f s) = f (pget i s)"
  by (simp add: pset_def)

lemma pget_pset_other [simp]: "i \<noteq> j \<Longrightarrow> pget i (pset j f s) = pget i s"
  by (simp add: pset_def)

lemma kprint_simps [simp]:
  "cur (kprint m s) = cur s" "nextpid (kprint m s) = nextpid s" "initproc (kprint m s) = initproc s"
  "klog (kprint m s) = klog s @ [m]" "mem (kprint m s) = mem s" "freelist (kprint m s) = freelist s"
  "kend (kprint m s) = kend s" "procs (kprint m s) = procs s"
  "trampoline_pa (kprint m s) = trampoline_pa s" "forkret_pc (kprint m s) = forkret_pc s"
  by (simp_all add: kprint_def)

text \<open>\<open>wakeup\<close> in closed form: one pass over the table.\<close>

lemma wakeup_fold:
  assumes "distinct is"
  shows "fold (\<lambda>i s. if cur s \<noteq> Some i then pset i (wakes ch) s else s) is s =
    s\<lparr>procs := map (\<lambda>i. if i \<in> set is \<and> cur s \<noteq> Some i then wakes ch (pget i s) else pget i s)
       [0..<length (procs s)]\<rparr>"
  using assms
proof (induction "is" arbitrary: s)
  case Nil then show ?case by (simp add: map_nth)
next
  case (Cons a "is")
  have IH: "fold (\<lambda>i s. if cur s \<noteq> Some i then pset i (wakes ch) s else s) is t =
    t\<lparr>procs := map (\<lambda>i. if i \<in> set is \<and> cur t \<noteq> Some i then wakes ch (pget i t) else pget i t)
       [0..<length (procs t)]\<rparr>" for t :: "'a kprocs_scheme" using Cons by simp
  show ?case
    using Cons.prems
    by (simp add: IH)
      (auto simp: pset_def nth_list_update intro!: arg_cong [where f = "\<lambda>x. s\<lparr>procs := x\<rparr>"]
        arg_cong [where f = "wakes ch"], (metis nth_list_update_neq)?)
qed

lemma wakeup_eq:
  assumes "length (procs s) = NPROC"
  shows "wakeup ch s =
    s\<lparr>procs := map (\<lambda>i. if cur s \<noteq> Some i then wakes ch (pget i s) else pget i s) [0..<NPROC]\<rparr>"
  unfolding wakeup_def myproc_def by (subst wakeup_fold) (auto simp: assms)

lemma wakes_simps [simp]: "p_pid (wakes ch p) = p_pid p"
  by (simp add: wakes_def)

lemma wakeup_rest:
  "\<exists>ps. wakeup ch s = s\<lparr>procs := ps\<rparr> \<and> length ps = length (procs s)"
  unfolding wakeup_def myproc_def
  by (subst wakeup_fold) auto

lemma wakeup_running [simp]: "running s \<Longrightarrow> running (wakeup ch s)"
  by (auto simp: running_def wakeup_eq)

lemma wakeup_mypid [simp]: "running s \<Longrightarrow> mypid (wakeup ch s) = mypid s"
  by (auto simp: running_def mypid_def wakeup_eq)

lemma wakeup_cur [simp]: "cur (wakeup ch s) = cur s"
  using wakeup_rest [of ch s] by auto

text \<open>
  The contract of wakeup: exactly the sleepers of the channel, other than the caller,
  become runnable, and nothing else in the table changes.
\<close>

lemma wakeup_spec:
  assumes "length (procs s) = NPROC" "i < NPROC"
  shows "pget i (wakeup ch s) =
    (if cur s \<noteq> Some i \<and> p_state (pget i s) = SLEEPING \<and> p_chan (pget i s) = Some ch
     then (pget i s)\<lparr>p_state := RUNNABLE\<rparr> else pget i s)"
  using assms by (simp add: wakeup_eq wakes_def)

lemma acquiresleep_ok:
  "running s \<Longrightarrow> \<not> sl_locked lk \<Longrightarrow> acquiresleep lk s = Some \<lparr>sl_locked = True, sl_pid = mypid s\<rparr>"
  by (auto simp: running_def acquiresleep_def myproc_def mypid_def)

lemma holdingsleep_own:
  "running s \<Longrightarrow> holdingsleep \<lparr>sl_locked = True, sl_pid = mypid s\<rparr> s = Some True"
  by (auto simp: running_def holdingsleep_def myproc_def mypid_def)

end
