(* ===== verification/Bio.thy ===== *)
theory Bio
  imports Sleeplock
begin

section \<open>The buffer cache (kernel/bio.c)\<close>

text \<open>
  A disk block is its 1024 bytes, a buffer is the source's \<open>struct buf\<close> (the driver's
  \<open>disk\<close> flag left out), and the doubly linked LRU list is the list of buffer indices
  from \<open>head.next\<close> to \<open>head.prev\<close>.  \<open>virtio_disk_rw\<close> is one transfer between the buffer
  and the disk; \<open>disk_log\<close> records the completed writes in order, which is what a crash
  can cut short.  Pointers to buffers are indices.
\<close>

type_synonym block = "nat \<Rightarrow> u8"

definition BSIZE :: nat where "BSIZE = 1024"
definition NBUF :: nat where "NBUF = 30"
definition ROOTDEV :: u32 where "ROOTDEV = 1"

record buf =
  b_valid :: bool
  b_dev :: u32
  b_blockno :: u32
  b_lock :: sleeplock
  b_refcnt :: int
  b_data :: block

record kbuf = kprocs +
  disk :: "u32 \<Rightarrow> block"
  disk_log :: "(u32 \<times> block) list"
  bufs :: "buf list"
  lru :: "nat list"

abbreviation bget_nth :: "nat \<Rightarrow> 'a kbuf_scheme \<Rightarrow> buf" where
  "bget_nth i s \<equiv> bufs s ! i"

definition bset :: "nat \<Rightarrow> (buf \<Rightarrow> buf) \<Rightarrow> 'a kbuf_scheme \<Rightarrow> 'a kbuf_scheme" where
  "bset i f s = s\<lparr>bufs := (bufs s)[i := f (bufs s ! i)]\<rparr>"

definition binit :: "'a kbuf_scheme \<Rightarrow> 'a kbuf_scheme" where
  "binit s = fold (\<lambda>b s. (bset b (\<lambda>x. x\<lparr>b_lock := initsleeplock\<rparr>) s)\<lparr>lru := b # lru s\<rparr>)
     [0..<NBUF] (s\<lparr>lru := []\<rparr>)"

definition block_acquire :: "nat \<Rightarrow> 'a kbuf_scheme \<Rightarrow> 'a kbuf_scheme option" where
  "block_acquire i s = do {
     lk \<leftarrow> acquiresleep (b_lock (bufs s ! i)) s;
     Some (bset i (\<lambda>b. b\<lparr>b_lock := lk\<rparr>) s)
   }"

definition bget :: "u32 \<Rightarrow> u32 \<Rightarrow> 'a kbuf_scheme \<Rightarrow> (nat \<times> 'a kbuf_scheme) option" where
  "bget dev blockno s =
     (case List.find (\<lambda>i. b_dev (bufs s ! i) = dev \<and> b_blockno (bufs s ! i) = blockno) (lru s) of
        Some i \<Rightarrow> do {
          s \<leftarrow> block_acquire i (bset i (\<lambda>b. b\<lparr>b_refcnt := b_refcnt b + 1\<rparr>) s);
          Some (i, s)
        }
      | None \<Rightarrow>
        (case List.find (\<lambda>i. b_refcnt (bufs s ! i) = 0) (rev (lru s)) of
           Some i \<Rightarrow> do {
             s \<leftarrow> block_acquire i (bset i (\<lambda>b. b\<lparr>b_dev := dev, b_blockno := blockno,
                b_valid := False, b_refcnt := 1\<rparr>) s);
             Some (i, s)
           }
         | None \<Rightarrow> None))"

definition virtio_disk_rw :: "nat \<Rightarrow> bool \<Rightarrow> 'a kbuf_scheme \<Rightarrow> 'a kbuf_scheme" where
  "virtio_disk_rw i write s =
     (let b = bufs s ! i in
      if write then s\<lparr>disk := (disk s)(b_blockno b := b_data b),
                      disk_log := disk_log s @ [(b_blockno b, b_data b)]\<rparr>
      else bset i (\<lambda>b. b\<lparr>b_data := disk s (b_blockno b)\<rparr>) s)"

definition bread :: "u32 \<Rightarrow> u32 \<Rightarrow> 'a kbuf_scheme \<Rightarrow> (nat \<times> 'a kbuf_scheme) option" where
  "bread dev blockno s = do {
     (i, s) \<leftarrow> bget dev blockno s;
     if \<not> b_valid (bufs s ! i)
     then Some (i, bset i (\<lambda>b. b\<lparr>b_valid := True\<rparr>) (virtio_disk_rw i False s))
     else Some (i, s)
   }"

definition bwrite :: "nat \<Rightarrow> 'a kbuf_scheme \<Rightarrow> 'a kbuf_scheme option" where
  "bwrite i s = do {
     h \<leftarrow> holdingsleep (b_lock (bufs s ! i)) s;
     if \<not> h then None else Some (virtio_disk_rw i True s)
   }"

definition brelse :: "nat \<Rightarrow> 'a kbuf_scheme \<Rightarrow> 'a kbuf_scheme option" where
  "brelse i s = do {
     h \<leftarrow> holdingsleep (b_lock (bufs s ! i)) s;
     if \<not> h then None
     else case releasesleep (ChBuf i) (b_lock (bufs s ! i)) s of (lk, s) \<Rightarrow>
       let s = bset i (\<lambda>b. b\<lparr>b_lock := lk\<rparr>) s;
           s = bset i (\<lambda>b. b\<lparr>b_refcnt := b_refcnt b - 1\<rparr>) s in
       if b_refcnt (bufs s ! i) = 0
       then Some (s\<lparr>lru := i # filter (\<lambda>j. j \<noteq> i) (lru s)\<rparr>)
       else Some s
   }"

definition bpin :: "nat \<Rightarrow> 'a kbuf_scheme \<Rightarrow> 'a kbuf_scheme" where
  "bpin i s = bset i (\<lambda>b. b\<lparr>b_refcnt := b_refcnt b + 1\<rparr>) s"

definition bunpin :: "nat \<Rightarrow> 'a kbuf_scheme \<Rightarrow> 'a kbuf_scheme" where
  "bunpin i s = bset i (\<lambda>b. b\<lparr>b_refcnt := b_refcnt b - 1\<rparr>) s"

text \<open>A store into a buffer's data by the code that holds it.\<close>

definition bdata :: "nat \<Rightarrow> (block \<Rightarrow> block) \<Rightarrow> 'a kbuf_scheme \<Rightarrow> 'a kbuf_scheme" where
  "bdata i f s = bset i (\<lambda>b. b\<lparr>b_data := f (b_data b)\<rparr>) s"

end
