(* ===== verification/BioInv.thy ===== *)
theory BioInv
  imports Bio
begin

section \<open>The buffer cache as a view of the disk\<close>

text \<open>
  What the layers above see of the cache, per block of the root device: \<open>content\<close>, the
  bytes a reader gets; \<open>pins\<close>, how many references keep its buffer; \<open>held\<close>, who holds
  the buffer's lock.  \<open>bc_ok\<close> is the cache's invariant: every block has at most one
  buffer, and a buffer nobody refers to agrees with the disk, so that recycling it
  loses nothing.  The lemmas give every operation of bio.c as its effect on this view.
\<close>

definition bfind :: "'a kbuf_scheme \<Rightarrow> u32 \<Rightarrow> nat option" where
  "bfind s bn = List.find (\<lambda>i. b_dev (bufs s ! i) = ROOTDEV \<and> b_blockno (bufs s ! i) = bn) (lru s)"

definition bslot :: "'a kbuf_scheme \<Rightarrow> u32 \<Rightarrow> buf option" where
  "bslot s bn = map_option (\<lambda>i. bufs s ! i) (bfind s bn)"

definition content :: "'a kbuf_scheme \<Rightarrow> u32 \<Rightarrow> block" where
  "content s bn = (case bslot s bn of Some b \<Rightarrow> if b_valid b then b_data b else disk s bn
     | None \<Rightarrow> disk s bn)"

definition pins :: "'a kbuf_scheme \<Rightarrow> u32 \<Rightarrow> int" where
  "pins s bn = (case bslot s bn of Some b \<Rightarrow> b_refcnt b | None \<Rightarrow> 0)"

definition held :: "'a kbuf_scheme \<Rightarrow> u32 \<Rightarrow> int option" where
  "held s bn = (case bslot s bn of
     Some b \<Rightarrow> if sl_locked (b_lock b) then Some (sl_pid (b_lock b)) else None | None \<Rightarrow> None)"

definition buf_of :: "'a kbuf_scheme \<Rightarrow> u32 \<Rightarrow> nat \<Rightarrow> bool" where
  "buf_of s bn i \<longleftrightarrow> bfind s bn = Some i \<and> b_valid (bufs s ! i)"

definition buf_ok :: "(u32 \<Rightarrow> block) \<Rightarrow> buf \<Rightarrow> bool" where
  "buf_ok d b \<longleftrightarrow> 0 \<le> b_refcnt b \<and> (sl_locked (b_lock b) \<longrightarrow> 0 < b_refcnt b) \<and>
     (b_dev b \<noteq> ROOTDEV \<longrightarrow> b_refcnt b = 0) \<and>
     (b_refcnt b = 0 \<and> b_valid b \<longrightarrow> b_data b = d (b_blockno b)) \<and>
     (b_dev b \<noteq> ROOTDEV \<longrightarrow> \<not> b_valid b)"

definition bc_ok :: "'a kbuf_scheme \<Rightarrow> bool" where
  "bc_ok s \<longleftrightarrow> running s \<and> length (bufs s) = NBUF \<and> distinct (lru s) \<and> set (lru s) = {..<NBUF} \<and>
     (\<forall>i<NBUF. \<forall>j<NBUF. b_dev (bufs s ! i) = ROOTDEV \<and> b_dev (bufs s ! j) = ROOTDEV \<and>
        b_blockno (bufs s ! i) = b_blockno (bufs s ! j) \<longrightarrow> i = j) \<and>
     (\<forall>i<NBUF. buf_ok (disk s) (bufs s ! i))"

text \<open>A buffer can be recycled.\<close>

definition room :: "'a kbuf_scheme \<Rightarrow> bool" where
  "room s \<longleftrightarrow> (\<exists>i<NBUF. b_refcnt (bufs s ! i) = 0)"

subsection \<open>Looking buffers up\<close>

lemma find_Some_in: "List.find P xs = Some x \<Longrightarrow> x \<in> set xs \<and> P x"
  by (auto simp: find_Some_iff)

lemma find_none: "List.find P xs = None \<longleftrightarrow> (\<forall>x\<in>set xs. \<not> P x)"
  by (auto simp: find_None_iff)

lemma bfind_iff:
  assumes "bc_ok s"
  shows "bfind s bn = Some i \<longleftrightarrow>
    i < NBUF \<and> b_dev (bufs s ! i) = ROOTDEV \<and> b_blockno (bufs s ! i) = bn"
proof
  assume "bfind s bn = Some i"
  then show "i < NBUF \<and> b_dev (bufs s ! i) = ROOTDEV \<and> b_blockno (bufs s ! i) = bn"
    using assms by (auto simp: bfind_def bc_ok_def dest: find_Some_in)
next
  assume i: "i < NBUF \<and> b_dev (bufs s ! i) = ROOTDEV \<and> b_blockno (bufs s ! i) = bn"
  have u: "\<forall>i<NBUF. \<forall>j<NBUF. b_dev (bufs s ! i) = ROOTDEV \<and> b_dev (bufs s ! j) = ROOTDEV \<and>
        b_blockno (bufs s ! i) = b_blockno (bufs s ! j) \<longrightarrow> i = j" and l: "set (lru s) = {..<NBUF}"
    using assms by (simp_all add: bc_ok_def)
  show "bfind s bn = Some i"
  proof (cases "bfind s bn")
    case None then show ?thesis using i l by (auto simp: bfind_def find_none)
  next
    case (Some j)
    then have "j < NBUF \<and> b_dev (bufs s ! j) = ROOTDEV \<and> b_blockno (bufs s ! j) = bn"
      using l by (auto simp: bfind_def dest: find_Some_in)
    then show ?thesis using u i Some by metis
  qed
qed

lemma bfind_less [dest]: "bc_ok s \<Longrightarrow> bfind s bn = Some i \<Longrightarrow> i < NBUF"
  by (simp add: bfind_iff)

lemma bc_ok_len: "bc_ok s \<Longrightarrow> length (bufs s) = NBUF" by (simp add: bc_ok_def)

lemma bc_ok_running [dest]: "bc_ok s \<Longrightarrow> running s" by (simp add: bc_ok_def)

lemma bc_ok_buf: "bc_ok s \<Longrightarrow> i < NBUF \<Longrightarrow> buf_ok (disk s) (bufs s ! i)" by (simp add: bc_ok_def)

lemma pins_nonneg: "bc_ok s \<Longrightarrow> 0 \<le> pins s bn"
  using bfind_less bc_ok_buf by (fastforce simp: pins_def bslot_def buf_ok_def split: option.splits)

lemma held_pinned: "bc_ok s \<Longrightarrow> held s bn = Some p \<Longrightarrow> 0 < pins s bn"
  using bfind_less bc_ok_buf
  by (fastforce simp: pins_def held_def bslot_def buf_ok_def split: option.splits if_splits)

lemma unpinned_clean: "bc_ok s \<Longrightarrow> pins s bn = 0 \<Longrightarrow> content s bn = disk s bn"
proof (cases "bfind s bn")
  case (Some i)
  moreover assume ok: "bc_ok s" and "pins s bn = 0"
  moreover have "i < NBUF" "b_blockno (bufs s ! i) = bn" using Some bfind_iff [OF ok] by auto
  ultimately show ?thesis
    using bc_ok_buf [OF ok, of i] by (simp add: pins_def content_def bslot_def buf_ok_def)
qed (simp add: content_def bslot_def)

text \<open>There is room as long as fewer than \<open>NBUF\<close> blocks are pinned.\<close>

lemma room_card:
  assumes "bc_ok s" "\<not> room s"
  shows "NBUF \<le> card {bn. 0 < pins s bn}"
proof -
  let ?f = "\<lambda>i. b_blockno (bufs s ! i)"
  have dev: "b_dev (bufs s ! i) = ROOTDEV \<and> b_refcnt (bufs s ! i) > 0" if "i < NBUF" for i
    using bc_ok_buf [OF assms(1) that] assms(2) that by (force simp: room_def buf_ok_def)
  have bf: "bfind s (?f i) = Some i" if "i < NBUF" for i
    using bfind_iff [OF assms(1)] dev that by simp
  have "inj_on ?f {..<NBUF}"
  proof (rule inj_onI)
    fix x y assume x: "x \<in> {..<NBUF}" and y: "y \<in> {..<NBUF}" and e: "?f x = ?f y"
    have "Some x = bfind s (?f x)" using bf x by simp
    also have "\<dots> = bfind s (?f y)" by (simp only: e)
    also have "\<dots> = Some y" using bf y by simp
    finally show "x = y" by simp
  qed
  then have c: "card (?f ` {..<NBUF}) = NBUF" by (simp add: card_image)
  have sub: "?f ` {..<NBUF} \<subseteq> {bn. 0 < pins s bn}"
  proof clarify
    fix i assume "i < NBUF"
    then show "0 < pins s (?f i)" using bf [of i] dev [of i] by (simp add: pins_def bslot_def)
  qed
  have "bn \<in> ?f ` {..<NBUF}" if "0 < pins s bn" for bn
  proof (cases "bfind s bn")
    case (Some i)
    then have "i \<in> {..<NBUF}" "bn = ?f i" using bfind_iff [OF assms(1), of bn i] by simp_all
    then show ?thesis by (rule rev_image_eqI)
  qed (use that in \<open>simp add: pins_def bslot_def\<close>)
  then have "{bn. 0 < pins s bn} \<subseteq> ?f ` {..<NBUF}" by blast
  then have "finite {bn. 0 < pins s bn}" by (rule finite_subset) simp
  then show ?thesis using card_mono [OF _ sub] c by simp
qed

lemma NBUF_pos [simp]: "0 < NBUF" by (simp add: NBUF_def)

subsection \<open>Updates of one buffer\<close>

lemma bset_simps [simp]:
  "disk (bset i f s) = disk s" "disk_log (bset i f s) = disk_log s" "lru (bset i f s) = lru s"
  "procs (bset i f s) = procs s" "cur (bset i f s) = cur s" "length (bufs (bset i f s)) = length (bufs s)"
  "running (bset i f s) = running s" "mypid (bset i f s) = mypid s"
  by (simp_all add: bset_def running_def mypid_def)

lemma bufs_bset: "i < length (bufs s) \<Longrightarrow> bufs (bset i f s) ! j = (if j = i then f (bufs s ! i) else bufs s ! j)"
  by (auto simp: bset_def)

lemma bfind_bset:
  assumes "i < length (bufs s)" "b_dev (f (bufs s ! i)) = b_dev (bufs s ! i)"
    "b_blockno (f (bufs s ! i)) = b_blockno (bufs s ! i)"
  shows "bfind (bset i f s) bn = bfind s bn"
  using assms by (auto simp: bfind_def bufs_bset intro!: arg_cong [where f = "\<lambda>P. List.find P _"])

lemma bslot_bset:
  assumes "i < length (bufs s)" "b_dev (f (bufs s ! i)) = b_dev (bufs s ! i)"
    "b_blockno (f (bufs s ! i)) = b_blockno (bufs s ! i)"
  shows "bslot (bset i f s) bn = (if bfind s bn = Some i then Some (f (bufs s ! i)) else bslot s bn)"
  using assms by (cases "bfind s bn") (auto simp: bslot_def bfind_bset bufs_bset)

lemma bc_ok_bset:
  assumes "bc_ok s" "i < NBUF" "b_dev (f (bufs s ! i)) = b_dev (bufs s ! i)"
    "b_blockno (f (bufs s ! i)) = b_blockno (bufs s ! i)" "buf_ok (disk s) (f (bufs s ! i))"
  shows "bc_ok (bset i f s)"
proof -
  have l: "i < length (bufs s)" using assms by (simp add: bc_ok_def)
  have k: "b_dev (bufs (bset i f s) ! j) = b_dev (bufs s ! j)"
    "b_blockno (bufs (bset i f s) ! j) = b_blockno (bufs s ! j)" for j
    using assms(3,4) by (simp_all add: bufs_bset [OF l])
  show ?thesis using assms(1,2,5) unfolding bc_ok_def k
    by (simp add: bufs_bset [OF l])
qed

subsection \<open>The operations on the view\<close>

lemma bdata_spec:
  fixes f :: "block \<Rightarrow> block"
  assumes ok: "bc_ok s" and b: "buf_of s bn i" and p: "0 < pins s bn"
  defines "t \<equiv> bdata i f s"
  shows "bc_ok t \<and> content t = (content s)(bn := f (content s bn)) \<and>
    pins t = pins s \<and> held t = held s \<and> buf_of t = buf_of s"
proof -
  have i: "i < NBUF" "bfind s bn = Some i" "b_valid (bufs s ! i)" "b_refcnt (bufs s ! i) > 0"
    and l: "i < length (bufs s)"
    using ok b p by (auto simp: buf_of_def pins_def bslot_def bc_ok_len)
  have bo: "buf_ok (disk s) (bufs s ! i)" using ok i(1) by (rule bc_ok_buf)
  have ok': "bc_ok t"
    unfolding t_def bdata_def by (rule bc_ok_bset [OF ok i(1)]) (use bo i in \<open>auto simp: buf_ok_def\<close>)
  have sl: "bslot t x = (if x = bn then Some ((bufs s ! i)\<lparr>b_data := f (b_data (bufs s ! i))\<rparr>)
      else bslot s x)" for x
    using i bfind_iff [OF ok] by (auto simp: t_def bdata_def bslot_bset [OF l])
  have bs: "bslot s bn = Some (bufs s ! i)" using i by (simp add: bslot_def)
  have bf: "bfind t = bfind s" by (auto simp: t_def bdata_def fun_eq_iff bfind_bset [OF l])
  have d: "disk t = disk s" by (simp add: t_def bdata_def)
  have v: "b_valid (bufs t ! j) = b_valid (bufs s ! j)" for j
    by (simp add: t_def bdata_def bufs_bset [OF l])
  show ?thesis
    using ok' i bs
    by (auto simp: fun_eq_iff content_def pins_def held_def sl buf_of_def bf d v split: option.split)
qed

lemma refcnt_step:
  assumes ok: "bc_ok s" and b: "bfind s bn = Some i"
    and n: "0 \<le> b_refcnt (bufs s ! i) + k"
    and z: "b_refcnt (bufs s ! i) + k = 0 \<Longrightarrow> held s bn = None \<and> content s bn = disk s bn"
  defines "t \<equiv> bset i (\<lambda>b. b\<lparr>b_refcnt := b_refcnt b + k\<rparr>) s"
  shows "bc_ok t \<and> content t = content s \<and> pins t = (pins s)(bn := pins s bn + k) \<and>
    held t = held s \<and> buf_of t = buf_of s"
proof -
  have i: "i < NBUF" and l: "i < length (bufs s)" and k: "b_dev (bufs s ! i) = ROOTDEV" "b_blockno (bufs s ! i) = bn"
    using ok b by (auto simp: bfind_iff bc_ok_len)
  have bo: "buf_ok (disk s) (bufs s ! i)" using ok i(1) by (rule bc_ok_buf)
  have bs: "bslot s bn = Some (bufs s ! i)" using b by (simp add: bslot_def)
  have ok': "bc_ok t"
    unfolding t_def
  proof (rule bc_ok_bset [OF ok i])
    consider "0 < b_refcnt (bufs s ! i) + k"
      | "b_refcnt (bufs s ! i) + k = 0" "held s bn = None" "content s bn = disk s bn"
      using n z by force
    then show "buf_ok (disk s) ((bufs s ! i)\<lparr>b_refcnt := b_refcnt (bufs s ! i) + k\<rparr>)"
      using bo bs k by cases (auto simp: buf_ok_def held_def content_def split: if_splits)
  qed simp_all
  have sl: "bslot t x = (if x = bn then Some ((bufs s ! i)\<lparr>b_refcnt := b_refcnt (bufs s ! i) + k\<rparr>)
      else bslot s x)" for x
    using b bfind_iff [OF ok] by (auto simp: t_def bslot_bset [OF l])
  have bf: "bfind t = bfind s" by (auto simp: t_def fun_eq_iff bfind_bset [OF l])
  have d: "disk t = disk s" by (simp add: t_def)
  have v: "b_valid (bufs t ! j) = b_valid (bufs s ! j)" for j
    by (simp add: t_def bufs_bset [OF l])
  show ?thesis
    using ok' i bs
    by (auto simp: fun_eq_iff content_def pins_def held_def sl buf_of_def bf d v split: option.split)
qed

lemma bpin_spec:
  assumes "bc_ok s" "bfind s bn = Some i"
  shows "bc_ok (bpin i s) \<and> content (bpin i s) = content s \<and> pins (bpin i s) = (pins s)(bn := pins s bn + 1) \<and>
    held (bpin i s) = held s \<and> buf_of (bpin i s) = buf_of s"
proof -
  have "0 \<le> b_refcnt (bufs s ! i)" using bc_ok_buf [OF assms(1)] bfind_less [OF assms] by (auto simp: buf_ok_def)
  then show ?thesis unfolding bpin_def by (intro refcnt_step assms) auto
qed

lemma bunpin_spec:
  assumes "bc_ok s" "bfind s bn = Some i" "0 < pins s bn"
    "pins s bn = 1 \<Longrightarrow> held s bn = None \<and> content s bn = disk s bn"
  shows "bc_ok (bunpin i s) \<and> content (bunpin i s) = content s \<and> pins (bunpin i s) = (pins s)(bn := pins s bn - 1) \<and>
    held (bunpin i s) = held s \<and> buf_of (bunpin i s) = buf_of s"
proof -
  have "pins s bn = b_refcnt (bufs s ! i)" using assms(2) by (simp add: pins_def bslot_def)
  then show ?thesis
    using refcnt_step [OF assms(1,2), of "-1"] assms(3,4) by (auto simp: bunpin_def)
qed

text \<open>The view is a function of the buffers and the disk, whatever the LRU order.\<close>

lemma bc_ok_cong:
  assumes "bc_ok s" "bufs t = bufs s" "disk t = disk s" "running t" "distinct (lru t)" "set (lru t) = {..<NBUF}"
  shows "bc_ok t \<and> content t = content s \<and> pins t = pins s \<and> held t = held s \<and> buf_of t = buf_of s \<and>
    bfind t = bfind s"
proof -
  have ok: "bc_ok t" using assms by (simp add: bc_ok_def)
  have bf: "bfind t bn = bfind s bn" for bn
    using bfind_iff [OF assms(1), of bn] bfind_iff [OF ok, of bn] assms(2)
    by (metis option.exhaust)
  then have "bslot t = bslot s" using assms(2) by (simp add: fun_eq_iff bslot_def)
  then show ?thesis
    using ok bf assms(2,3)
    by (simp add: fun_eq_iff content_def pins_def held_def buf_of_def split: option.split)
qed

lemma lock_step:
  fixes lk :: sleeplock
  assumes ok: "bc_ok s" and b: "bfind s bn = Some i" and p: "0 < pins s bn"
  defines "t \<equiv> bset i (\<lambda>b. b\<lparr>b_lock := lk\<rparr>) s"
  shows "bc_ok t \<and> content t = content s \<and> pins t = pins s \<and>
    held t = (held s)(bn := if sl_locked lk then Some (sl_pid lk) else None) \<and> buf_of t = buf_of s \<and>
    bfind t = bfind s"
proof -
  have i: "i < NBUF" and l: "i < length (bufs s)" using ok b by (auto simp: bc_ok_len)
  have bo: "buf_ok (disk s) (bufs s ! i)" using ok i(1) by (rule bc_ok_buf)
  have bs: "bslot s bn = Some (bufs s ! i)" using b by (simp add: bslot_def)
  have ok': "bc_ok t"
    unfolding t_def
    by (rule bc_ok_bset [OF ok i]) (use bo p bs in \<open>auto simp: buf_ok_def pins_def\<close>)
  have sl: "bslot t x = (if x = bn then Some ((bufs s ! i)\<lparr>b_lock := lk\<rparr>) else bslot s x)" for x
    using b bfind_iff [OF ok] by (auto simp: t_def bslot_bset [OF l])
  have bf: "bfind t = bfind s" by (auto simp: t_def fun_eq_iff bfind_bset [OF l])
  have d: "disk t = disk s" by (simp add: t_def)
  have v: "b_valid (bufs t ! j) = b_valid (bufs s ! j)" for j
    by (simp add: t_def bufs_bset [OF l])
  show ?thesis
    using ok' i bs
    by (auto simp: fun_eq_iff content_def pins_def held_def sl buf_of_def bf d v split: option.split)
qed

lemma load_step:
  assumes ok: "bc_ok s" and b: "bfind s bn = Some i" and p: "0 < pins s bn"
    and nv: "\<not> b_valid (bufs s ! i)"
  defines "t \<equiv> bset i (\<lambda>b. b\<lparr>b_data := disk s bn, b_valid := True\<rparr>) s"
  shows "bc_ok t \<and> content t = content s \<and> pins t = pins s \<and> held t = held s \<and>
    buf_of t bn i \<and> (\<forall>x j. buf_of s x j \<longrightarrow> buf_of t x j)"
proof -
  have i: "i < NBUF" and l: "i < length (bufs s)" using ok b by (auto simp: bc_ok_len)
  have bo: "buf_ok (disk s) (bufs s ! i)" using ok i(1) by (rule bc_ok_buf)
  have bs: "bslot s bn = Some (bufs s ! i)" using b by (simp add: bslot_def)
  have ok': "bc_ok t"
    unfolding t_def
    by (rule bc_ok_bset [OF ok i]) (use bo p bs in \<open>auto simp: buf_ok_def pins_def\<close>)
  have sl: "bslot t x = (if x = bn then Some ((bufs s ! i)\<lparr>b_data := disk s bn, b_valid := True\<rparr>)
      else bslot s x)" for x
    using b bfind_iff [OF ok] by (auto simp: t_def bslot_bset [OF l])
  have bf: "bfind t = bfind s" by (auto simp: t_def fun_eq_iff bfind_bset [OF l])
  have d: "disk t = disk s" by (simp add: t_def)
  have v: "b_valid (bufs t ! j) = (j = i \<or> b_valid (bufs s ! j))" for j
    by (simp add: t_def bufs_bset [OF l])
  show ?thesis
    using ok' i bs nv b
    by (auto simp: fun_eq_iff content_def pins_def held_def sl buf_of_def bf d v split: option.split)
qed

lemma recycle_step:
  assumes ok: "bc_ok s" and n: "bfind s bn = None" and i: "i < NBUF" "b_refcnt (bufs s ! i) = 0"
  defines "t \<equiv> bset i (\<lambda>b. b\<lparr>b_dev := ROOTDEV, b_blockno := bn, b_valid := False, b_refcnt := 1\<rparr>) s"
  shows "bc_ok t \<and> content t = content s \<and> pins t = (pins s)(bn := 1) \<and> held t = held s \<and>
    bfind t bn = Some i \<and> (\<forall>x j. buf_of s x j \<and> 0 < pins s x \<longrightarrow> buf_of t x j)"
proof -
  have l: "i < length (bufs s)" using ok i by (simp add: bc_ok_len)
  have bo: "buf_ok (disk s) (bufs s ! i)" using ok i(1) by (rule bc_ok_buf)
  have nk: "\<not> (b_dev (bufs s ! j) = ROOTDEV \<and> b_blockno (bufs s ! j) = bn)" if "j < NBUF" for j
    using bfind_iff [OF ok, of bn j] n that by auto
  have ul: "\<not> sl_locked (b_lock (bufs s ! i))" using bo i(2) by (auto simp: buf_ok_def)
  have bu: "bufs t ! j = (if j = i then (bufs s ! i)\<lparr>b_dev := ROOTDEV, b_blockno := bn, b_valid := False,
      b_refcnt := 1\<rparr> else bufs s ! j)" for j by (simp add: t_def bufs_bset [OF l])
  have t: "running t" "length (bufs t) = NBUF" "distinct (lru t)" "set (lru t) = {..<NBUF}" and d: "disk t = disk s"
    using ok by (simp_all add: t_def bc_ok_def)
  have key: "\<forall>a<NBUF. \<forall>b<NBUF. b_dev (bufs t ! a) = ROOTDEV \<and> b_dev (bufs t ! b) = ROOTDEV \<and>
        b_blockno (bufs t ! a) = b_blockno (bufs t ! b) \<longrightarrow> a = b"
    using ok nk unfolding bc_ok_def bu by (auto split: if_splits)
  have bok: "\<forall>j<NBUF. buf_ok (disk t) (bufs t ! j)"
    using bc_ok_buf [OF ok] bo ul unfolding bu d by (auto simp: buf_ok_def)
  have ok': "bc_ok t" using t key bok by (simp add: bc_ok_def)
  have bfi: "bfind t bn = Some i" using bfind_iff [OF ok'] i bu by simp
  have bfo: "bfind t x = (if bfind s x = Some i then None else bfind s x)" if "x \<noteq> bn" for x
  proof (cases "bfind s x = Some i")
    case True
    then have "b_blockno (bufs s ! i) = x" "b_dev (bufs s ! i) = ROOTDEV" using bfind_iff [OF ok] by auto
    then have "bfind t x \<noteq> Some j" for j
      using bfind_iff [OF ok', of x j] ok i that unfolding bu bc_ok_def by auto
    then show ?thesis using True by (cases "bfind t x") auto
  next
    case False
    have "bfind t x = Some j \<longleftrightarrow> bfind s x = Some j" for j
      using bfind_iff [OF ok', of x j] bfind_iff [OF ok, of x j] False that
        bfind_iff [OF ok, of x i] unfolding bu by auto
    then show ?thesis using False by (metis option.exhaust)
  qed
  have un: "content s x = disk s x \<and> pins s x = 0 \<and> held s x = None" if "bfind s x = Some i" for x
  proof -
    have "pins s x = 0" using that i by (simp add: pins_def bslot_def)
    then show ?thesis using unpinned_clean [OF ok] that ul by (simp add: held_def bslot_def)
  qed
  have nn: "content s bn = disk s bn \<and> pins s bn = 0 \<and> held s bn = None"
    using n by (simp add: content_def pins_def held_def bslot_def)
  have sl: "bslot t x = (if x = bn then Some (bufs t ! i) else if bfind s x = Some i then None else bslot s x)" for x
  proof (cases "x = bn")
    case False
    moreover have "bfind s x = Some j \<Longrightarrow> j \<noteq> i \<Longrightarrow> bufs t ! j = bufs s ! j" for j by (simp add: bu)
    ultimately show ?thesis by (cases "bfind s x") (auto simp: bslot_def bfo bu)
  qed (simp add: bslot_def bfi)
  have c: "content t x = content s x" for x
    using un [of x] nn by (cases "x = bn"; cases "bfind s x = Some i") (simp_all add: content_def sl bu d split: option.split)
  have p: "pins t x = ((pins s)(bn := 1)) x" for x
    using un [of x] nn by (cases "x = bn"; cases "bfind s x = Some i") (simp_all add: pins_def sl bu)
  have h: "held t x = held s x" for x
    using un [of x] nn ul by (cases "x = bn"; cases "bfind s x = Some i") (simp_all add: held_def sl bu)
  have "buf_of t x j" if "buf_of s x j" "0 < pins s x" for x j
    using that un [of x] n by (cases "x = bn") (auto simp: buf_of_def bfo bu)
  then show ?thesis using ok' c p h bfi by (simp add: fun_eq_iff)
qed

subsection \<open>bread, bwrite and brelse\<close>

text \<open>What a cache operation may touch besides the view: the LRU order and the wakeups.\<close>

definition cache_only :: "'a kbuf_scheme \<Rightarrow> 'a kbuf_scheme \<Rightarrow> bool" where
  "cache_only s t \<longleftrightarrow> mypid t = mypid s \<and> (\<exists>bs l ps. t = s\<lparr>bufs := bs, lru := l, procs := ps\<rparr>)"

lemma cache_only_refl [simp]: "cache_only s s"
  unfolding cache_only_def by (rule conjI [OF refl], rule exI [of _ "bufs s"], rule exI [of _ "lru s"],
    rule exI [of _ "procs s"]) simp

lemma cache_only_trans: "cache_only s t \<Longrightarrow> cache_only t u \<Longrightarrow> cache_only s u"
proof -
  assume "cache_only s t" "cache_only t u"
  then obtain bs l ps bs' l' ps' where t: "t = s\<lparr>bufs := bs, lru := l, procs := ps\<rparr>" "mypid t = mypid s"
    and u: "u = t\<lparr>bufs := bs', lru := l', procs := ps'\<rparr>" "mypid u = mypid t"
    by (auto simp: cache_only_def)
  have "u = s\<lparr>bufs := bs', lru := l', procs := ps'\<rparr>" using u(1) by (simp add: t(1))
  then show "cache_only s u" unfolding cache_only_def using t(2) u(2) by metis
qed

lemma cache_only_bset [simp]: "cache_only s (bset i f s)"
  unfolding cache_only_def bset_def mypid_def
  by (rule conjI, simp, rule exI, rule exI [of _ "lru s"], rule exI [of _ "procs s"]) simp

lemma cache_onlyE:
  assumes "cache_only s t"
  obtains bs l ps where "t = s\<lparr>bufs := bs, lru := l, procs := ps\<rparr>" "mypid t = mypid s"
  using assms by (auto simp: cache_only_def)

lemma cache_only_disk [simp]: "cache_only s t \<Longrightarrow> disk t = disk s \<and> disk_log t = disk_log s"
  by (auto elim: cache_onlyE)

definition grabs :: "u32 \<Rightarrow> 'a kbuf_scheme \<Rightarrow> 'a kbuf_scheme \<Rightarrow> bool" where
  "grabs bn s t \<longleftrightarrow> cache_only s t \<and> bc_ok t \<and> content t = content s \<and>
     pins t = (pins s)(bn := pins s bn + 1) \<and> held t = (held s)(bn := Some (mypid s)) \<and>
     (\<forall>x j. buf_of s x j \<and> 0 < pins s x \<longrightarrow> buf_of t x j)"

lemma block_acquire_spec:
  assumes ok: "bc_ok s" and b: "bfind s bn = Some i" and p: "0 < pins s bn" and h: "held s bn = None"
  shows "\<exists>t. block_acquire i s = Some t \<and> cache_only s t \<and> bc_ok t \<and> content t = content s \<and>
    pins t = pins s \<and> held t = (held s)(bn := Some (mypid s)) \<and> buf_of t = buf_of s \<and> bfind t = bfind s"
proof -
  have "\<not> sl_locked (b_lock (bufs s ! i))" using h b by (simp add: held_def bslot_def split: if_splits)
  then have a: "acquiresleep (b_lock (bufs s ! i)) s = Some \<lparr>sl_locked = True, sl_pid = mypid s\<rparr>"
    using ok by (auto intro: acquiresleep_ok)
  show ?thesis
    using lock_step [OF ok b p, of "\<lparr>sl_locked = True, sl_pid = mypid s\<rparr>"]
    by (simp add: block_acquire_def a)
qed

lemma bget_ok:
  assumes ok: "bc_ok s" and h: "held s bn = None" and r: "0 < pins s bn \<or> room s"
  shows "\<exists>i t. bget ROOTDEV bn s = Some (i, t) \<and> bfind t bn = Some i \<and> grabs bn s t"
proof (cases "bfind s bn")
  case (Some i)
  let ?u = "bset i (\<lambda>b. b\<lparr>b_refcnt := b_refcnt b + 1\<rparr>) s"
  have "0 \<le> b_refcnt (bufs s ! i)" using bc_ok_buf [OF ok] bfind_less [OF ok Some] by (auto simp: buf_ok_def)
  then have u: "bc_ok ?u" "content ?u = content s" "pins ?u = (pins s)(bn := pins s bn + 1)" "held ?u = held s"
      "buf_of ?u = buf_of s"
    using refcnt_step [OF ok Some, of 1] by auto
  have bu: "bfind ?u bn = Some i"
    using ok Some bfind_less [OF ok Some] by (simp add: bfind_bset bc_ok_len)
  obtain t where t: "block_acquire i ?u = Some t" "cache_only ?u t" "bc_ok t" "content t = content ?u"
      "pins t = pins ?u" "held t = (held ?u)(bn := Some (mypid ?u))" "buf_of t = buf_of ?u" "bfind t = bfind ?u"
    using block_acquire_spec [OF u(1) bu] u h pins_nonneg [OF ok, of bn] by auto
  have "cache_only s t" using t(2) by (rule cache_only_trans [OF cache_only_bset])
  then have "grabs bn s t" using t u by (simp add: grabs_def)
  moreover have "bget ROOTDEV bn s = Some (i, t)"
    using Some t(1) by (simp add: bget_def bfind_def [symmetric])
  ultimately show ?thesis using t(8) bu by auto
next
  case None
  then have "pins s bn = 0" by (simp add: pins_def bslot_def)
  then have "room s" using r by simp
  then have "\<exists>j\<in>{..<NBUF}. b_refcnt (bufs s ! j) = 0" by (auto simp: room_def)
  moreover have sl: "set (lru s) = {..<NBUF}" using ok by (simp add: bc_ok_def)
  ultimately have "List.find (\<lambda>i. b_refcnt (bufs s ! i) = 0) (rev (lru s)) \<noteq> None"
    unfolding find_none set_rev by blast
  then obtain i where f: "List.find (\<lambda>i. b_refcnt (bufs s ! i) = 0) (rev (lru s)) = Some i"
    by blast
  have "i \<in> set (rev (lru s)) \<and> b_refcnt (bufs s ! i) = 0" by (rule find_Some_in [OF f])
  then have i: "i < NBUF" "b_refcnt (bufs s ! i) = 0" using sl by simp_all
  let ?u = "bset i (\<lambda>b. b\<lparr>b_dev := ROOTDEV, b_blockno := bn, b_valid := False, b_refcnt := 1\<rparr>) s"
  have u: "bc_ok ?u" "content ?u = content s" "pins ?u = (pins s)(bn := 1)" "held ?u = held s"
      "bfind ?u bn = Some i" "\<forall>x j. buf_of s x j \<and> 0 < pins s x \<longrightarrow> buf_of ?u x j"
    using recycle_step [OF ok None i] by auto
  obtain t where t: "block_acquire i ?u = Some t" "cache_only ?u t" "bc_ok t" "content t = content ?u"
      "pins t = pins ?u" "held t = (held ?u)(bn := Some (mypid ?u))" "buf_of t = buf_of ?u" "bfind t = bfind ?u"
    using block_acquire_spec [OF u(1,5)] u h by auto
  have "cache_only s t" using t(2) by (rule cache_only_trans [OF cache_only_bset])
  then have "grabs bn s t" using t u \<open>pins s bn = 0\<close> by (simp add: grabs_def)
  moreover have "bget ROOTDEV bn s = Some (i, t)"
    using None f t(1) by (simp add: bget_def bfind_def [symmetric])
  ultimately show ?thesis using t(8) u(5) by auto
qed

lemma bread_ok:
  assumes ok: "bc_ok s" and h: "held s bn = None" and r: "0 < pins s bn \<or> room s"
  shows "\<exists>i t. bread ROOTDEV bn s = Some (i, t) \<and> buf_of t bn i \<and> b_data (bufs t ! i) = content s bn \<and>
    grabs bn s t"
proof -
  obtain i u where u: "bget ROOTDEV bn s = Some (i, u)" "bfind u bn = Some i" "grabs bn s u"
    using bget_ok [OF assms] by auto
  have ou: "bc_ok u" and pu: "0 < pins u bn" and du: "disk u = disk s"
    using u(3) pins_nonneg [OF ok, of bn] by (auto simp: grabs_def)
  have l: "i < length (bufs u)" and k: "b_blockno (bufs u ! i) = bn"
    using bfind_less [OF ou u(2)] ou u(2) by (auto simp: bc_ok_len bfind_iff)
  show ?thesis
  proof (cases "b_valid (bufs u ! i)")
    case True
    then have "b_data (bufs u ! i) = content u bn" using u(2) by (simp add: content_def bslot_def)
    then show ?thesis using True u by (auto simp: bread_def buf_of_def grabs_def)
  next
    case False
    let ?t = "bset i (\<lambda>b. b\<lparr>b_data := disk u bn, b_valid := True\<rparr>) u"
    have e: "bset i (\<lambda>b. b\<lparr>b_valid := True\<rparr>) (virtio_disk_rw i False u) = ?t"
      using l by (simp add: virtio_disk_rw_def bset_def k)
    have t: "bc_ok ?t" "content ?t = content u" "pins ?t = pins u" "held ?t = held u" "buf_of ?t bn i"
      "\<forall>x j. buf_of u x j \<longrightarrow> buf_of ?t x j"
      using load_step [OF ou u(2) pu False] by auto
    have "content u bn = disk u bn" using False u(2) by (simp add: content_def bslot_def)
    then have "content s bn = disk u bn" using u(3) by (simp add: grabs_def)
    moreover have "b_data (bufs ?t ! i) = disk u bn" by (simp add: bufs_bset [OF l])
    moreover have "cache_only s ?t" using u(3) by (auto simp: grabs_def intro: cache_only_trans)
    then have "grabs bn s ?t" using t u(3) by (auto simp: grabs_def)
    ultimately show ?thesis using t(5) False u(1) by (auto simp: bread_def e)
  qed
qed

lemma bwrite_ok:
  assumes ok: "bc_ok s" and b: "buf_of s bn i" and h: "held s bn = Some (mypid s)"
  defines "t \<equiv> s\<lparr>disk := (disk s)(bn := content s bn), disk_log := disk_log s @ [(bn, content s bn)]\<rparr>"
  shows "bwrite i s = Some t \<and> bc_ok t \<and> content t = content s \<and> pins t = pins s \<and> held t = held s \<and>
    buf_of t = buf_of s \<and> mypid t = mypid s"
proof -
  have i: "bfind s bn = Some i" "b_valid (bufs s ! i)" using b by (auto simp: buf_of_def)
  have k: "i < NBUF" "b_dev (bufs s ! i) = ROOTDEV" "b_blockno (bufs s ! i) = bn"
    using i ok by (auto simp: bfind_iff)
  have lk: "sl_locked (b_lock (bufs s ! i))" "sl_pid (b_lock (bufs s ! i)) = mypid s"
    using h i by (auto simp: held_def bslot_def split: if_splits)
  then have "b_lock (bufs s ! i) = \<lparr>sl_locked = True, sl_pid = mypid s\<rparr>" by simp
  then have "holdingsleep (b_lock (bufs s ! i)) s = Some True"
    using ok by (auto simp: holdingsleep_own)
  moreover have d: "b_data (bufs s ! i) = content s bn" using i by (simp add: content_def bslot_def)
  ultimately have w: "bwrite i s = Some t" by (simp add: bwrite_def virtio_disk_rw_def k t_def Let_def)
  have sm: "bufs t = bufs s" "lru t = lru s" "running t = running s" "mypid t = mypid s"
    "disk t = (disk s)(bn := content s bn)"
    by (simp_all add: t_def running_def mypid_def)
  have bo: "buf_ok (disk t) (bufs s ! j)" if "j < NBUF" for j
    using bc_ok_buf [OF ok that] d k bfind_iff [OF ok, of "b_blockno (bufs s ! j)" j] i that
    by (cases "b_dev (bufs s ! j) = ROOTDEV \<and> b_blockno (bufs s ! j) = bn") (auto simp: buf_ok_def sm)
  have ok': "bc_ok t" using ok bo by (simp add: bc_ok_def sm)
  have bf: "bfind t = bfind s" by (simp add: fun_eq_iff bfind_def sm)
  have sl: "bslot t = bslot s" by (simp add: fun_eq_iff bslot_def bf sm)
  have c: "content t x = content s x" for x
    using i by (cases "x = bn") (simp_all add: content_def sl bslot_def sm split: option.split)
  show ?thesis using w ok' c by (simp add: fun_eq_iff pins_def held_def buf_of_def sl bf sm)
qed

lemma brelse_ok:
  assumes ok: "bc_ok s" and b: "buf_of s bn i" and h: "held s bn = Some (mypid s)"
    and c: "pins s bn = 1 \<Longrightarrow> content s bn = disk s bn"
  shows "\<exists>t. brelse i s = Some t \<and> cache_only s t \<and> bc_ok t \<and> content t = content s \<and>
    pins t = (pins s)(bn := pins s bn - 1) \<and> held t = (held s)(bn := None) \<and> buf_of t = buf_of s"
proof -
  have i: "bfind s bn = Some i" "b_valid (bufs s ! i)" using b by (auto simp: buf_of_def)
  have p: "0 < pins s bn" using held_pinned [OF ok h] .
  have "b_lock (bufs s ! i) = \<lparr>sl_locked = True, sl_pid = mypid s\<rparr>"
    using h i by (auto simp: held_def bslot_def split: if_splits)
  then have hold: "holdingsleep (b_lock (bufs s ! i)) s = Some True"
    using ok by (auto simp: holdingsleep_own)
  define w where "w = wakeup (ChBuf i) s"
  obtain ps where ps: "w = s\<lparr>procs := ps\<rparr>" using wakeup_rest [of "ChBuf i" s] w_def by auto
  have wr: "running w" "mypid w = mypid s" using ok by (auto simp: w_def)
  have okw: "bc_ok w" "content w = content s" "pins w = pins s" "held w = held s" "buf_of w = buf_of s"
      "bfind w = bfind s"
    using bc_ok_cong [OF ok, of w] wr ok by (auto simp: ps bc_ok_def)
  have cw: "cache_only s w"
    unfolding cache_only_def using wr(2) ps
    by (intro conjI exI [of _ "bufs s"] exI [of _ "lru s"] exI [of _ ps]) auto
  define u where "u = bset i (\<lambda>b. b\<lparr>b_lock := \<lparr>sl_locked = False, sl_pid = 0\<rparr>\<rparr>) w"
  have u: "bc_ok u" "content u = content s" "pins u = pins s" "held u = (held s)(bn := None)" "buf_of u = buf_of s"
      "bfind u = bfind s"
    using lock_step [OF okw(1), of bn i "\<lparr>sl_locked = False, sl_pid = 0\<rparr>"] okw i(1) p by (auto simp: u_def)
  define v where "v = bset i (\<lambda>b. b\<lparr>b_refcnt := b_refcnt b - 1\<rparr>) u"
  have du: "disk u = disk s" using cw by (simp add: u_def)
  have pr: "pins u bn = b_refcnt (bufs u ! i)" using u(6) i(1) by (simp add: pins_def bslot_def)
  have v: "bc_ok v" "content v = content s" "pins v = (pins s)(bn := pins s bn - 1)" "held v = (held s)(bn := None)"
      "buf_of v = buf_of s"
    using bunpin_spec [OF u(1), of bn i] u i(1) p c du by (auto simp: v_def bunpin_def)
  have cv: "cache_only s v" 
    using cw unfolding u_def v_def by (blast intro: cache_only_trans cache_only_bset)
  show ?thesis
  proof (cases "b_refcnt (bufs v ! i) = 0")
    case False
    then show ?thesis
      using v cv by (simp add: brelse_def hold releasesleep_def w_def [symmetric] u_def [symmetric] v_def [symmetric])
  next
    case True
    define t where "t = v\<lparr>lru := i # filter (\<lambda>j. j \<noteq> i) (lru v)\<rparr>"
    have iN: "i < NBUF" using bfind_less [OF ok i(1)] .
    have st: "bufs t = bufs v" "disk t = disk v" "running t = running v" "mypid t = mypid v"
      by (simp_all add: t_def running_def mypid_def)
    have lv: "distinct (lru v)" "set (lru v) = {..<NBUF}" "running v" using v(1) by (simp_all add: bc_ok_def)
    have "distinct (lru t)" "set (lru t) = {..<NBUF}" using lv iN by (auto simp: t_def)
    then have "bc_ok t \<and> content t = content v \<and> pins t = pins v \<and> held t = held v \<and> buf_of t = buf_of v"
      using bc_ok_cong [OF v(1) st(1,2)] lv(3) st(3) by auto
    moreover have "cache_only v t"
      unfolding cache_only_def using st(4) t_def
      by (intro conjI exI [of _ "bufs v"] exI [of _ "lru t"] exI [of _ "procs v"]) auto
    then have "cache_only s t" using cv by (rule cache_only_trans [rotated])
    ultimately show ?thesis
      using v True t_def
      by (simp add: brelse_def hold releasesleep_def w_def [symmetric] u_def [symmetric] v_def [symmetric] Let_def)
  qed
qed

end
