(* ===== verification/Bytes.thy ===== *)
theory Bytes
  imports Prelude
begin

section \<open>Little-endian fields in byte arrays\<close>

text \<open>
  Disk blocks and packets are byte arrays (\<open>nat \<Rightarrow> u8\<close>); the C code overlays structs
  on them.  \<open>get32\<close>, \<open>put32\<close> and their 16-bit siblings read and write one field at a
  byte offset, and the lemmas say that fields that do not overlap do not interfere.
\<close>

type_synonym bytes = "nat \<Rightarrow> u8"

definition get32 :: "bytes \<Rightarrow> nat \<Rightarrow> u32" where
  "get32 d off = ucast (d off) OR push_bit 8 (ucast (d (off + 1)))
     OR push_bit 16 (ucast (d (off + 2))) OR push_bit 24 (ucast (d (off + 3)))"

definition put32 :: "nat \<Rightarrow> u32 \<Rightarrow> bytes \<Rightarrow> bytes" where
  "put32 off v d = d(off := ucast v, off + 1 := ucast (drop_bit 8 v),
     off + 2 := ucast (drop_bit 16 v), off + 3 := ucast (drop_bit 24 v))"

definition get16 :: "bytes \<Rightarrow> nat \<Rightarrow> u16" where
  "get16 d off = ucast (d off) OR push_bit 8 (ucast (d (off + 1)))"

definition put16 :: "nat \<Rightarrow> u16 \<Rightarrow> bytes \<Rightarrow> bytes" where
  "put16 off v d = d(off := ucast v, off + 1 := ucast (drop_bit 8 v))"

lemma bit_lane32:
  "n < 32 \<Longrightarrow> bit (push_bit k (ucast (ucast (drop_bit k (v::u32)) :: u8)) :: u32) n \<longleftrightarrow> k \<le> n \<and> n < k + 8 \<and> bit v n"
  by (auto simp: bit_simps)

lemma bit_lane32_0: "n < 32 \<Longrightarrow> bit (ucast (ucast (v::u32) :: u8) :: u32) n \<longleftrightarrow> n < 8 \<and> bit v n"
  by (auto simp: bit_simps)

lemma get32_put32_same [simp]: "get32 (put32 off v d) off = v"
proof (rule bit_eqI)
  fix n assume "possible_bit TYPE(u32) n"
  then have n: "n < 32" by simp
  have "n < 8 \<or> 8 \<le> n \<and> n < 16 \<or> 16 \<le> n \<and> n < 24 \<or> 24 \<le> n \<and> n < 32" using n by linarith
  then show "bit (get32 (put32 off v d) off) n = bit v n"
    by (simp add: get32_def put32_def bit_or_iff bit_lane32 [OF n] bit_lane32_0 [OF n] del: bit_push_bit_iff) auto
qed

lemma get16_put16_same [simp]: "get16 (put16 off v d) off = v"
proof (rule bit_eqI)
  fix n assume "possible_bit TYPE(u16) n"
  then have "n < 16" by simp
  then have "n < 8 \<or> 8 \<le> n \<and> n < 16" by linarith
  then show "bit (get16 (put16 off v d) off) n = bit v n"
    by (auto simp: get16_def put16_def bit_simps)
qed

lemma get32_cong:
  assumes "\<And>i. i < 4 \<Longrightarrow> d (off + i) = e (off + i)"
  shows "get32 d off = get32 e off"
  using assms [of 0] assms [of 1] assms [of 2] assms [of 3] by (simp add: get32_def)

lemma get16_cong:
  assumes "\<And>i. i < 2 \<Longrightarrow> d (off + i) = e (off + i)"
  shows "get16 d off = get16 e off"
  using assms [of 0] assms [of 1] by (simp add: get16_def)

lemma put32_other: "i < off \<or> off + 4 \<le> i \<Longrightarrow> put32 off v d i = d i"
  by (auto simp: put32_def)

lemma put16_other: "i < off \<or> off + 2 \<le> i \<Longrightarrow> put16 off v d i = d i"
  by (auto simp: put16_def)

text \<open>Disjoint fields.\<close>

lemma get32_put32_other: "o1 + 4 \<le> o2 \<or> o2 + 4 \<le> o1 \<Longrightarrow> get32 (put32 o2 v d) o1 = get32 d o1"
  by (rule get32_cong, rule put32_other) auto

lemma get32_put16_other: "o1 + 4 \<le> o2 \<or> o2 + 2 \<le> o1 \<Longrightarrow> get32 (put16 o2 v d) o1 = get32 d o1"
  by (rule get32_cong, rule put16_other) auto

lemma get16_put32_other: "o1 + 2 \<le> o2 \<or> o2 + 4 \<le> o1 \<Longrightarrow> get16 (put32 o2 v d) o1 = get16 d o1"
  by (rule get16_cong, rule put32_other) auto

lemma get16_put16_other: "o1 + 2 \<le> o2 \<or> o2 + 2 \<le> o1 \<Longrightarrow> get16 (put16 o2 v d) o1 = get16 d o1"
  by (rule get16_cong, rule put16_other) auto

end
