(* ===== verification/Log.thy ===== *)
theory Log
  imports BioInv Bytes
begin

section \<open>The log (kernel/log.c)\<close>

text \<open>
  A physical redo log: \<open>log_write\<close> only records a block number and pins the buffer;
  the last \<open>end_op\<close> copies the pinned buffers to the log area, writes the header (the
  commit point), copies the log blocks to their homes and erases the header.
  Recovery at boot replays what a committed header names.  A call that has to wait
  (\<open>begin_op\<close> during a commit or without log space) is \<open>None\<close>.  Loops over
  \<open>log.lh.n\<close> carry the number of remaining rounds; an access beyond
  \<open>log.lh.block[LOGBLOCKS]\<close> is \<open>None\<close>.
\<close>

definition MAXOPBLOCKS :: int where "MAXOPBLOCKS = 10"
definition LOGBLOCKS :: int where "LOGBLOCKS = MAXOPBLOCKS * 3"

record logheader =
  lh_n :: int
  lh_block :: "u32 list"

record klogs = kbuf +
  log_start :: u32
  log_outstanding :: int
  log_committing :: bool
  log_dev :: u32
  log_lh :: logheader

fun install_loop :: "bool \<Rightarrow> nat \<Rightarrow> nat \<Rightarrow> 'a klogs_scheme \<Rightarrow> 'a klogs_scheme option" where
  "install_loop recovering tail 0 s = Some s"
| "install_loop recovering tail (Suc k) s = do {
     let s = (if recovering then kprint (RECOVERING tail (lh_block (log_lh s) ! tail)) s else s);
     (lbuf, s) \<leftarrow> bread (log_dev s) (log_start s + of_nat tail + 1) s;
     (dbuf, s) \<leftarrow> bread (log_dev s) (lh_block (log_lh s) ! tail) s;
     let s = bdata dbuf (\<lambda>_. b_data (bufs s ! lbuf)) s;
     s \<leftarrow> bwrite dbuf s;
     let s = (if recovering then s else bunpin dbuf s);
     s \<leftarrow> brelse lbuf s;
     s \<leftarrow> brelse dbuf s;
     install_loop recovering (Suc tail) k s
   }"

definition install_trans :: "bool \<Rightarrow> 'a klogs_scheme \<Rightarrow> 'a klogs_scheme option" where
  "install_trans recovering s = install_loop recovering 0 (nat (lh_n (log_lh s))) s"

fun read_head_loop :: "block \<Rightarrow> nat \<Rightarrow> nat \<Rightarrow> logheader \<Rightarrow> logheader option" where
  "read_head_loop d i 0 h = Some h"
| "read_head_loop d i (Suc k) h =
     (if i < length (lh_block h)
      then read_head_loop d (Suc i) k (h\<lparr>lh_block := (lh_block h)[i := get32 d (4 + 4 * i)]\<rparr>)
      else None)"

definition read_head :: "'a klogs_scheme \<Rightarrow> 'a klogs_scheme option" where
  "read_head s = do {
     (b, s) \<leftarrow> bread (log_dev s) (log_start s) s;
     let d = b_data (bufs s ! b);
     let n = sint (get32 d 0);
     h \<leftarrow> read_head_loop d 0 (nat n) ((log_lh s)\<lparr>lh_n := n\<rparr>);
     let s = s\<lparr>log_lh := h\<rparr>;
     brelse b s
   }"

fun write_head_loop :: "u32 list \<Rightarrow> nat \<Rightarrow> nat \<Rightarrow> block \<Rightarrow> block" where
  "write_head_loop bs i 0 d = d"
| "write_head_loop bs i (Suc k) d = write_head_loop bs (Suc i) k (put32 (4 + 4 * i) (bs ! i) d)"

definition head_block :: "logheader \<Rightarrow> block \<Rightarrow> block" where
  "head_block h d = write_head_loop (lh_block h) 0 (nat (lh_n h)) (put32 0 (of_int (lh_n h)) d)"

definition write_head :: "'a klogs_scheme \<Rightarrow> 'a klogs_scheme option" where
  "write_head s = do {
     (b, s) \<leftarrow> bread (log_dev s) (log_start s) s;
     let s = bdata b (head_block (log_lh s)) s;
     s \<leftarrow> bwrite b s;
     brelse b s
   }"

definition set_lh_n :: "int \<Rightarrow> 'a klogs_scheme \<Rightarrow> 'a klogs_scheme" where
  "set_lh_n n s = s\<lparr>log_lh := (log_lh s)\<lparr>lh_n := n\<rparr>\<rparr>"

definition recover_from_log :: "'a klogs_scheme \<Rightarrow> 'a klogs_scheme option" where
  "recover_from_log s = do {
     s \<leftarrow> read_head s;
     s \<leftarrow> install_trans True s;
     write_head (set_lh_n 0 s)
   }"

definition initlog :: "u32 \<Rightarrow> u32 \<Rightarrow> 'a klogs_scheme \<Rightarrow> 'a klogs_scheme option" where
  "initlog dev logstart s = recover_from_log (s\<lparr>log_start := logstart, log_dev := dev\<rparr>)"

definition begin_op :: "'a klogs_scheme \<Rightarrow> 'a klogs_scheme option" where
  "begin_op s =
     (if log_committing s then None
      else if lh_n (log_lh s) + (log_outstanding s + 1) * MAXOPBLOCKS > LOGBLOCKS then None
      else Some (s\<lparr>log_outstanding := log_outstanding s + 1\<rparr>))"

fun write_log_loop :: "nat \<Rightarrow> nat \<Rightarrow> 'a klogs_scheme \<Rightarrow> 'a klogs_scheme option" where
  "write_log_loop tail 0 s = Some s"
| "write_log_loop tail (Suc k) s = do {
     (to, s) \<leftarrow> bread (log_dev s) (log_start s + of_nat tail + 1) s;
     (frm, s) \<leftarrow> bread (log_dev s) (lh_block (log_lh s) ! tail) s;
     let s = bdata to (\<lambda>_. b_data (bufs s ! frm)) s;
     s \<leftarrow> bwrite to s;
     s \<leftarrow> brelse frm s;
     s \<leftarrow> brelse to s;
     write_log_loop (Suc tail) k s
   }"

definition write_log :: "'a klogs_scheme \<Rightarrow> 'a klogs_scheme option" where
  "write_log s = write_log_loop 0 (nat (lh_n (log_lh s))) s"

definition commit :: "'a klogs_scheme \<Rightarrow> 'a klogs_scheme option" where
  "commit s =
     (if lh_n (log_lh s) > 0 then do {
        s \<leftarrow> write_log s;
        s \<leftarrow> write_head s;
        s \<leftarrow> install_trans False s;
        write_head (set_lh_n 0 s)
      }
      else Some s)"

definition end_op :: "'a klogs_scheme \<Rightarrow> 'a klogs_scheme option" where
  "end_op s =
     (let s = s\<lparr>log_outstanding := log_outstanding s - 1\<rparr> in
      if log_committing s then None
      else if log_outstanding s = 0 then do {
        s \<leftarrow> commit (s\<lparr>log_committing := True\<rparr>);
        Some (wakeup ChLog (s\<lparr>log_committing := False\<rparr>))
      }
      else Some (wakeup ChLog s))"

definition log_index :: "u32 \<Rightarrow> logheader \<Rightarrow> nat" where
  "log_index bn h = (case List.find (\<lambda>i. lh_block h ! i = bn) [0..<nat (lh_n h)] of
     Some i \<Rightarrow> i | None \<Rightarrow> nat (lh_n h))"

definition log_write :: "nat \<Rightarrow> 'a klogs_scheme \<Rightarrow> 'a klogs_scheme option" where
  "log_write b s =
     (if lh_n (log_lh s) \<ge> LOGBLOCKS then None
      else if log_outstanding s < 1 then None
      else let bn = b_blockno (bufs s ! b); i = log_index bn (log_lh s);
               s = s\<lparr>log_lh := (log_lh s)\<lparr>lh_block := (lh_block (log_lh s))[i := bn]\<rparr>\<rparr> in
        if int i = lh_n (log_lh s) then Some (set_lh_n (lh_n (log_lh s) + 1) (bpin b s))
        else Some s)"

end
