(* ===== verification/LogInv.thy ===== *)
theory LogInv
  imports Log
begin

section \<open>What the log writes to the disk\<close>

text \<open>
  Every function of log.c reduced to the list of block writes it performs and its
  effect on the cache's view.  \<open>apply_writes\<close> is what a list of completed writes does to
  a disk; \<open>writes s ws t\<close> says that \<open>t\<close> follows \<open>s\<close> after exactly the writes \<open>ws\<close>.
\<close>

definition apply_writes :: "(u32 \<times> block) list \<Rightarrow> (u32 \<Rightarrow> block) \<Rightarrow> (u32 \<Rightarrow> block)" where
  "apply_writes ws d = fold (\<lambda>(bn, b) d. d(bn := b)) ws d"

lemma apply_writes_simps [simp]:
  "apply_writes [] d = d" "apply_writes (ws @ vs) d = apply_writes vs (apply_writes ws d)"
  "apply_writes ((bn, b) # ws) d = apply_writes ws (d(bn := b))"
  by (simp_all add: apply_writes_def)

lemma apply_writes_other: "bn \<notin> fst ` set ws \<Longrightarrow> apply_writes ws d bn = d bn"
  by (induction ws arbitrary: d) auto

lemma apply_writes_in:
  "distinct (map fst ws) \<Longrightarrow> (bn, b) \<in> set ws \<Longrightarrow> apply_writes ws d bn = b"
proof (induction ws arbitrary: d)
  case (Cons w ws)
  then show ?case
    by (cases w) (auto simp: apply_writes_other image_iff rev_image_eqI)
qed simp

definition same_log :: "'a klogs_scheme \<Rightarrow> 'a klogs_scheme \<Rightarrow> bool" where
  "same_log s t \<longleftrightarrow> mypid t = mypid s \<and>
     (\<exists>bs l ps d dl kl. t = s\<lparr>bufs := bs, lru := l, procs := ps, disk := d, disk_log := dl, klog := kl\<rparr>)"

definition writes :: "'a klogs_scheme \<Rightarrow> (u32 \<times> block) list \<Rightarrow> 'a klogs_scheme \<Rightarrow> bool" where
  "writes s ws t \<longleftrightarrow> same_log s t \<and> bc_ok t \<and> disk t = apply_writes ws (disk s) \<and>
     disk_log t = disk_log s @ ws"

lemma same_log_refl [simp]: "same_log s s"
proof -
  have "s = s\<lparr>bufs := bufs s, lru := lru s, procs := procs s, disk := disk s, disk_log := disk_log s,
      klog := klog s\<rparr>" by simp
  then show ?thesis unfolding same_log_def by blast
qed

lemma same_log_trans: "same_log s t \<Longrightarrow> same_log t u \<Longrightarrow> same_log s u"
proof -
  assume "same_log s t" "same_log t u"
  then obtain bs l ps d dl kl bs' l' ps' d' dl' kl' where
    t: "t = s\<lparr>bufs := bs, lru := l, procs := ps, disk := d, disk_log := dl, klog := kl\<rparr>" "mypid t = mypid s"
    and u: "u = t\<lparr>bufs := bs', lru := l', procs := ps', disk := d', disk_log := dl', klog := kl'\<rparr>" "mypid u = mypid t"
    by (auto simp: same_log_def)
  have "u = s\<lparr>bufs := bs', lru := l', procs := ps', disk := d', disk_log := dl', klog := kl'\<rparr>"
    using u(1) by (simp add: t(1))
  then show "same_log s u" unfolding same_log_def using t(2) u(2) by metis
qed

lemma same_log_cache: "cache_only s t \<Longrightarrow> same_log s t"
proof -
  assume "cache_only s t"
  then obtain bs l ps where t: "t = s\<lparr>bufs := bs, lru := l, procs := ps\<rparr>" "mypid t = mypid s"
    by (rule cache_onlyE)
  then have "t = s\<lparr>bufs := bs, lru := l, procs := ps, disk := disk s, disk_log := disk_log s, klog := klog s\<rparr>"
    by simp
  then show ?thesis unfolding same_log_def using t(2) by metis
qed

lemma same_log_fields:
  assumes "same_log s t"
  shows "log_start t = log_start s \<and> log_dev t = log_dev s \<and> log_lh t = log_lh s \<and>
    log_outstanding t = log_outstanding s \<and> log_committing t = log_committing s \<and> mypid t = mypid s \<and>
    mem t = mem s \<and> cur t = cur s \<and> more t = more s"
  using assms by (auto simp: same_log_def)

lemma same_log_disk: "mypid (s\<lparr>disk := d, disk_log := dl\<rparr>) = mypid s \<and> same_log s (s\<lparr>disk := d, disk_log := dl\<rparr>)"
proof -
  have m: "mypid (s\<lparr>disk := d, disk_log := dl\<rparr>) = mypid s" by (simp add: mypid_def)
  have "s\<lparr>disk := d, disk_log := dl\<rparr> = s\<lparr>bufs := bufs s, lru := lru s, procs := procs s,
      disk := d, disk_log := dl, klog := klog s\<rparr>" by simp
  then show ?thesis using m unfolding same_log_def by blast
qed

lemma writes_refl: "bc_ok s \<Longrightarrow> writes s [] s" by (simp add: writes_def)

lemma writes_trans: "writes s ws t \<Longrightarrow> writes t vs u \<Longrightarrow> writes s (ws @ vs) u"
  by (auto simp: writes_def intro: same_log_trans)

lemma writes_cache: "cache_only s t \<Longrightarrow> bc_ok t \<Longrightarrow> writes s [] t"
  by (simp add: writes_def same_log_cache)

lemma writes_grab: "grabs bn s t \<Longrightarrow> writes s [] t"
  by (simp add: grabs_def writes_cache)

subsection \<open>Room for buffers\<close>

definition npinned :: "'a kbuf_scheme \<Rightarrow> nat" where
  "npinned s = card {bn. 0 < pins s bn}"

lemma finite_pinned: "bc_ok s \<Longrightarrow> finite {bn. 0 < pins s bn}"
proof -
  assume ok: "bc_ok s"
  have "bn \<in> (\<lambda>i. b_blockno (bufs s ! i)) ` {..<NBUF}" if "0 < pins s bn" for bn
  proof (cases "bfind s bn")
    case (Some i)
    then have "i \<in> {..<NBUF}" "bn = b_blockno (bufs s ! i)" using bfind_iff [OF ok, of bn i] by simp_all
    then show ?thesis by (rule rev_image_eqI)
  qed (use that in \<open>simp add: pins_def bslot_def\<close>)
  then have "{bn. 0 < pins s bn} \<subseteq> (\<lambda>i. b_blockno (bufs s ! i)) ` {..<NBUF}" by blast
  then show ?thesis by (rule finite_subset) simp
qed

lemma npinned_room: "bc_ok s \<Longrightarrow> npinned s < NBUF \<Longrightarrow> room s"
  using room_card [of s] by (fastforce simp: npinned_def)

lemma npinned_grab:
  assumes "bc_ok s" "pins t = (pins s)(bn := pins s bn + 1)"
  shows "npinned t \<le> Suc (npinned s)"
proof -
  have "{x. 0 < pins t x} \<subseteq> insert bn {x. 0 < pins s x}" using assms(2) by auto
  then have "card {x. 0 < pins t x} \<le> card (insert bn {x. 0 < pins s x})"
    by (intro card_mono) (simp_all add: finite_pinned assms(1))
  also have "\<dots> \<le> Suc (card {x. 0 < pins s x})" by (rule card_insert_le_m1) auto
  finally show ?thesis by (simp add: npinned_def)
qed

text \<open>The block can be read by the running process.\<close>

definition readable :: "'a kbuf_scheme \<Rightarrow> u32 \<Rightarrow> bool" where
  "readable s bn \<longleftrightarrow> held s bn = None \<and> (0 < pins s bn \<or> npinned s < NBUF)"

lemma bread_readable:
  assumes "bc_ok s" "readable s bn"
  shows "\<exists>i t. bread ROOTDEV bn s = Some (i, t) \<and> buf_of t bn i \<and> b_data (bufs t ! i) = content s bn \<and>
    grabs bn s t"
  using bread_ok [OF assms(1)] assms by (auto simp: readable_def intro: npinned_room)

subsection \<open>One block rewritten\<close>

lemma rewrite_block:
  assumes ok: "bc_ok s" and r: "readable s bn"
  shows "\<exists>i t u v w. bread ROOTDEV bn s = Some (i, t) \<and> u = bdata i f t \<and> b_data (bufs t ! i) = content s bn \<and>
    bwrite i u = Some v \<and> brelse i v = Some w \<and> same_log s t \<and>
    writes s [(bn, f (content s bn))] w \<and> content w = (content s)(bn := f (content s bn)) \<and>
    pins w = pins s \<and> held w = held s"
proof -
  obtain i t where t: "bread ROOTDEV bn s = Some (i, t)" "buf_of t bn i" "b_data (bufs t ! i) = content s bn"
    "grabs bn s t" using bread_readable [OF assms] by auto
  have ht: "held t bn = Some (mypid s)" and pt: "pins t = (pins s)(bn := pins s bn + 1)"
    and ct: "content t = content s" and okt: "bc_ok t" and mt: "mypid t = mypid s" and dt: "disk t = disk s"
    using t(4) by (auto simp: grabs_def cache_only_def)
  have pp: "0 < pins t bn" using pins_nonneg [OF ok, of bn] pt by simp
  define u where "u = bdata i f t"
  have u: "bc_ok u" "content u = (content s)(bn := f (content s bn))" "pins u = pins t" "held u = held t"
    "buf_of u = buf_of t" using bdata_spec [OF okt t(2) pp, of f] ct by (auto simp: u_def)
  have cu: "cache_only t u" "mypid u = mypid s" using mt by (simp_all add: u_def bdata_def)
  have hu: "held u bn = Some (mypid u)" and bu: "buf_of u bn i" using u cu ht t(2) by simp_all
  define v where "v = u\<lparr>disk := (disk u)(bn := content u bn), disk_log := disk_log u @ [(bn, content u bn)]\<rparr>"
  have v: "bwrite i u = Some v" "bc_ok v" "content v = content u" "pins v = pins u" "held v = held u"
      "buf_of v = buf_of u" "mypid v = mypid u" using bwrite_ok [OF u(1) bu hu] by (auto simp: v_def)
  have "buf_of v bn i" "held v bn = Some (mypid v)" "content v bn = disk v bn"
    using v hu bu by (simp_all add: v_def)
  then obtain w where w: "brelse i v = Some w" "cache_only v w" "bc_ok w" "content w = content v"
      "pins w = (pins v)(bn := pins v bn - 1)" "held w = (held v)(bn := None)"
    using brelse_ok [OF v(2), of bn i] by auto
  have "same_log s t" using t(4) by (auto simp: grabs_def intro: same_log_cache)
  moreover have "same_log u v" using same_log_disk by (auto simp: v_def)
  ultimately have "same_log s w"
    using same_log_cache [OF cu(1)] same_log_cache [OF w(2)] by (blast intro: same_log_trans)
  moreover have "disk w = (disk s)(bn := f (content s bn))" "disk_log w = disk_log s @ [(bn, f (content s bn))]"
    using cache_only_disk [OF w(2)] cache_only_disk [OF cu(1)] t(4) dt u(2)
    by (simp_all add: v_def grabs_def)
  ultimately have "writes s [(bn, f (content s bn))] w" using w(3) by (simp add: writes_def)
  moreover have "content w = (content s)(bn := f (content s bn))" using w v u by simp
  moreover have "pins w = pins s" "held w = held s"
    using w v u pt t(4) r by (auto simp: grabs_def readable_def fun_eq_iff)
  ultimately show ?thesis using t v(1) w(1) u_def \<open>same_log s t\<close> by blast
qed

subsection \<open>One block copied to another\<close>

lemma two_grabs:
  assumes ok: "bc_ok s" and r: "readable s x" "held s y = None" "0 < pins s y \<or> Suc (npinned s) < NBUF" and ne: "x \<noteq> y"
  shows "\<exists>i t j u. bread ROOTDEV x s = Some (i, t) \<and> bread ROOTDEV y t = Some (j, u) \<and> same_log s t \<and>
    buf_of u x i \<and> buf_of u y j \<and> b_data (bufs u ! i) = content s x \<and> b_data (bufs u ! j) = content s y \<and>
    cache_only s u \<and> bc_ok u \<and> content u = content s \<and>
    pins u = (pins s)(x := pins s x + 1, y := pins s y + 1) \<and>
    held u = (held s)(x := Some (mypid s), y := Some (mypid s))"
proof -
  obtain i t where t: "bread ROOTDEV x s = Some (i, t)" "buf_of t x i" "grabs x s t"
    using bread_readable [OF ok r(1)] by auto
  have okt: "bc_ok t" and pt: "pins t = (pins s)(x := pins s x + 1)" and ht: "held t = (held s)(x := Some (mypid s))"
    and ct: "content t = content s" and st: "cache_only s t" and mt: "mypid t = mypid s"
    using t(3) by (auto simp: grabs_def cache_only_def)
  have "npinned t \<le> Suc (npinned s)" using npinned_grab [OF ok pt] .
  then have "readable t y" using r ne pt ht by (auto simp: readable_def)
  then obtain j u where u: "bread ROOTDEV y t = Some (j, u)" "buf_of u y j" "b_data (bufs u ! j) = content t y"
      "grabs y t u" using bread_readable [OF okt, of y] by auto
  have "0 < pins t x" using pins_nonneg [OF ok, of x] pt by simp
  then have bx: "buf_of u x i" using u(4) t(2) by (auto simp: grabs_def)
  then have "b_data (bufs u ! i) = content u x" by (simp add: buf_of_def content_def bslot_def)
  moreover have "cache_only s u" using st u(4) by (auto simp: grabs_def intro: cache_only_trans)
  moreover have "same_log s t" using st by (rule same_log_cache)
  ultimately show ?thesis
    using t(1) u bx ct pt ht mt ne unfolding grabs_def by auto
qed

text \<open>
  From both buffers in hand: the copy of \<open>x\<close>'s data into \<open>y\<close>'s buffer, written out,
  \<open>y\<close> possibly unpinned, both released in the order the code has.
\<close>

lemma copy_written:
  assumes ok: "bc_ok u" and bx: "buf_of u x i" and bY: "buf_of u y j" and ne: "x \<noteq> y"
    and h: "held u x = Some (mypid u)" "held u y = Some (mypid u)"
  shows "\<exists>v. bwrite j (bdata j (\<lambda>_. b_data (bufs u ! i)) u) = Some v \<and>
    writes u [(y, content u x)] v \<and> content v = (content u)(y := content u x) \<and> pins v = pins u \<and>
    held v = held u \<and> buf_of v = buf_of u"
proof -
  have d: "b_data (bufs u ! i) = content u x" using bx by (simp add: buf_of_def content_def bslot_def)
  have p: "0 < pins u y" using held_pinned [OF ok h(2)] .
  define w where "w = bdata j (\<lambda>_. b_data (bufs u ! i)) u"
  have w: "bc_ok w" "content w = (content u)(y := content u x)" "pins w = pins u" "held w = held u"
    "buf_of w = buf_of u" using bdata_spec [OF ok bY p, of "\<lambda>_. b_data (bufs u ! i)"] d by (auto simp: w_def)
  have cw: "cache_only u w" "mypid w = mypid u" by (simp_all add: w_def bdata_def)
  define v where "v = w\<lparr>disk := (disk w)(y := content w y), disk_log := disk_log w @ [(y, content w y)]\<rparr>"
  have v: "bwrite j w = Some v" "bc_ok v" "content v = content w" "pins v = pins w" "held v = held w"
      "buf_of v = buf_of w" using bwrite_ok [OF w(1), of y j] bY h cw w by (auto simp: v_def)
  have "same_log w v" using same_log_disk by (auto simp: v_def)
  then have "same_log u v" using same_log_cache [OF cw(1)] by (blast intro: same_log_trans)
  moreover have "disk w = disk u" "disk_log w = disk_log u" by (simp_all add: w_def bdata_def)
  ultimately have "writes u [(y, content u x)] v" using v(2) w(2) by (simp add: writes_def v_def)
  then show ?thesis using v w w_def by auto
qed

lemma release:
  assumes ok: "bc_ok s" and b: "buf_of s bn i" and h: "held s bn = Some (mypid s)"
    and c: "pins s bn = 1 \<Longrightarrow> content s bn = disk s bn"
  shows "\<exists>t. brelse i s = Some t \<and> writes s [] t \<and> content t = content s \<and>
    pins t = (pins s)(bn := pins s bn - 1) \<and> held t = (held s)(bn := None) \<and> buf_of t = buf_of s"
  using brelse_ok [OF assms] by (auto intro: writes_cache)

subsection \<open>write_log\<close>

definition log_cell :: "'a klogs_scheme \<Rightarrow> nat \<Rightarrow> u32" where
  "log_cell s t = log_start s + of_nat t + 1"

definition log_blk :: "'a klogs_scheme \<Rightarrow> nat \<Rightarrow> u32" where
  "log_blk s t = lh_block (log_lh s) ! t"

lemma same_log_cells: "same_log s t \<Longrightarrow> log_cell t = log_cell s \<and> log_blk t = log_blk s"
  using same_log_fields [of s t] by (simp add: log_cell_def log_blk_def fun_eq_iff)

lemma writes_same [dest]: "writes s ws t \<Longrightarrow> same_log s t" by (simp add: writes_def)

lemma npinned_cong: "pins t = pins s \<Longrightarrow> npinned t = npinned s" by (simp add: npinned_def)

lemma write_log_step:
  assumes ok: "bc_ok s" "log_dev s = ROOTDEV" and c: "readable s (log_cell s t)"
    and b: "held s (log_blk s t) = None" "0 < pins s (log_blk s t)" "log_cell s t \<noteq> log_blk s t"
  shows "\<exists>v. write_log_loop t (Suc k) s = write_log_loop (Suc t) k v \<and>
    writes s [(log_cell s t, content s (log_blk s t))] v \<and>
    content v = (content s)(log_cell s t := content s (log_blk s t)) \<and> pins v = pins s \<and> held v = held s"
proof -
  let ?x = "log_cell s t" and ?y = "log_blk s t"
  obtain i a j u where u: "bread ROOTDEV ?x s = Some (i, a)" "bread ROOTDEV ?y a = Some (j, u)" "same_log s a"
    "buf_of u ?x i" "buf_of u ?y j" "cache_only s u" "bc_ok u" "content u = content s"
    "pins u = (pins s)(?x := pins s ?x + 1, ?y := pins s ?y + 1)"
    "held u = (held s)(?x := Some (mypid s), ?y := Some (mypid s))"
    using two_grabs [OF ok(1) c b(1) disjI1 [OF b(2)] b(3)] by auto
  have mu: "mypid u = mypid s" and du: "disk u = disk s" using u(6) by (auto simp: cache_only_def)
  have hu: "held u ?y = Some (mypid u)" "held u ?x = Some (mypid u)" using u(10) mu by simp_all
  obtain v where v: "bwrite i (bdata i (\<lambda>_. b_data (bufs u ! j)) u) = Some v"
    "writes u [(?x, content u ?y)] v" "content v = (content u)(?x := content u ?y)" "pins v = pins u"
    "held v = held u" "buf_of v = buf_of u"
    using copy_written [OF u(7) u(5,4) not_sym [OF b(3)] hu] by auto
  have okv: "bc_ok v" and mv: "mypid v = mypid u" using v(2) same_log_fields [of u v] by (auto simp: writes_def)
  have p: "pins v ?y \<noteq> 1" using u(9) v(4) b(2) by simp
  obtain w where w: "brelse j v = Some w" "writes v [] w" "content w = content v"
    "pins w = (pins v)(?y := pins v ?y - 1)" "held w = (held v)(?y := None)" "buf_of w = buf_of v"
    using release [OF okv, of ?y j] u(5) v(5,6) hu mv p by auto
  have okw: "bc_ok w" and mw: "mypid w = mypid v" using w(2) same_log_fields [of v w] by (auto simp: writes_def)
  have "disk w ?x = content w ?x"
    using v(2,3) w(2,3) by (simp add: writes_def)
  then obtain z where z: "brelse i w = Some z" "writes w [] z" "content z = content w"
    "pins z = (pins w)(?x := pins w ?x - 1)" "held z = (held w)(?x := None)"
    using release [OF okw, of ?x i] u(4) w(5,6) v(5,6) hu mv mw b(3) by auto
  have "write_log_loop t (Suc k) s = write_log_loop (Suc t) k z"
    using u(1,2) v(1) w(1) z(1) same_log_fields [OF u(3)] ok(2)
    by (simp add: log_cell_def log_blk_def Let_def)
  moreover have "writes s [(?x, content s ?y)] z"
    using writes_trans [OF writes_trans [OF writes_trans [OF writes_cache [OF u(6,7)] v(2)] w(2)] z(2)] u(8) by simp
  moreover have "pins z = pins s" using z(4) w(4) v(4) u(9) b(3) by (auto simp: fun_eq_iff)
  moreover have "held z = held s" using z(5) w(5) v(5) u(10) b(1) c by (auto simp: fun_eq_iff readable_def)
  moreover have "content z = (content s)(?x := content s ?y)" using z(3) w(3) v(3) u(8) by simp
  ultimately show ?thesis by blast
qed

lemma write_log_loop_ok:
  assumes "bc_ok s" "log_dev s = ROOTDEV" "npinned s < NBUF"
    and "\<forall>i\<in>{t..<t + k}. held s (log_cell s i) = None \<and> held s (log_blk s i) = None \<and> 0 < pins s (log_blk s i)"
    and "\<forall>i\<in>{t..<t + k}. \<forall>j\<in>{t..<t + k}. log_cell s i \<noteq> log_blk s j"
  shows "\<exists>v. write_log_loop t k s = Some v \<and>
    writes s (map (\<lambda>i. (log_cell s i, content s (log_blk s i))) [t..<t + k]) v \<and>
    content v = apply_writes (map (\<lambda>i. (log_cell s i, content s (log_blk s i))) [t..<t + k]) (content s) \<and>
    pins v = pins s \<and> held v = held s"
  using assms
proof (induction k arbitrary: t s)
  case 0
  then show ?case by (auto intro: writes_refl)
next
  case (Suc k)
  have tin: "t \<in> {t..<t + Suc k}" by simp
  obtain v where v: "write_log_loop t (Suc k) s = write_log_loop (Suc t) k v"
    "writes s [(log_cell s t, content s (log_blk s t))] v"
    "content v = (content s)(log_cell s t := content s (log_blk s t))" "pins v = pins s" "held v = held s"
    using write_log_step [of s t k] Suc.prems tin by (auto simp: readable_def)
  have e: "log_cell v = log_cell s" "log_blk v = log_blk s" and okv: "bc_ok v" "log_dev v = ROOTDEV"
    using same_log_cells [OF writes_same [OF v(2)]] same_log_fields [OF writes_same [OF v(2)]] v(2) Suc.prems(2)
    by (auto simp: writes_def)
  have sub: "{Suc t..<Suc t + k} \<subseteq> {t..<t + Suc k}" by auto
  have IH: "\<exists>w. write_log_loop (Suc t) k v = Some w \<and>
    writes v (map (\<lambda>i. (log_cell v i, content v (log_blk v i))) [Suc t..<Suc t + k]) w \<and>
    content w = apply_writes (map (\<lambda>i. (log_cell v i, content v (log_blk v i))) [Suc t..<Suc t + k]) (content v) \<and>
    pins w = pins v \<and> held w = held v"
    by (rule Suc.IH [OF okv]) (use Suc.prems sub v e npinned_cong [OF v(4)] in \<open>auto simp: e\<close>)
  then obtain w where w: "write_log_loop (Suc t) k v = Some w"
    "writes v (map (\<lambda>i. (log_cell v i, content v (log_blk v i))) [Suc t..<Suc t + k]) w"
    "content w = apply_writes (map (\<lambda>i. (log_cell v i, content v (log_blk v i))) [Suc t..<Suc t + k]) (content v)"
    "pins w = pins v" "held w = held v" by blast
  have up: "[t..<t + Suc k] = t # [Suc t..<Suc t + k]" by (simp add: upt_conv_Cons)
  have m: "map (\<lambda>i. (log_cell v i, content v (log_blk v i))) [Suc t..<Suc t + k] =
    map (\<lambda>i. (log_cell s i, content s (log_blk s i))) [Suc t..<Suc t + k]"
  proof (rule map_cong [OF refl])
    fix i assume "i \<in> set [Suc t..<Suc t + k]"
    then have "i \<in> {t..<t + Suc k}" using sub by auto
    then have "log_blk s i \<noteq> log_cell s t" using Suc.prems(5) tin by metis
    then show "(log_cell v i, content v (log_blk v i)) = (log_cell s i, content s (log_blk s i))"
      by (simp add: e v(3))
  qed
  show ?case
    using v w writes_trans [OF v(2) w(2)] unfolding up m by auto
qed

subsection \<open>install_trans\<close>

definition announce :: "bool \<Rightarrow> nat \<Rightarrow> 'a klogs_scheme \<Rightarrow> 'a klogs_scheme" where
  "announce recovering t s = (if recovering then kprint (RECOVERING t (lh_block (log_lh s) ! t)) s else s)"

lemma announce_ok:
  assumes "bc_ok s"
  shows "writes s [] (announce r t s) \<and> content (announce r t s) = content s \<and>
    pins (announce r t s) = pins s \<and> held (announce r t s) = held s"
proof -
  have c: "bc_ok t \<and> content t = content s \<and> pins t = pins s \<and> held t = held s"
    if "t = s\<lparr>klog := kl\<rparr>" for t kl
    using bc_ok_cong [OF assms, of t] assms that by (auto simp: bc_ok_def running_def)
  have "s\<lparr>klog := kl\<rparr> = s\<lparr>bufs := bufs s, lru := lru s, procs := procs s, disk := disk s,
      disk_log := disk_log s, klog := kl\<rparr> \<and> mypid (s\<lparr>klog := kl\<rparr>) = mypid s" for kl
    by (simp add: mypid_def)
  then have "same_log s (s\<lparr>klog := kl\<rparr>)" for kl
    unfolding same_log_def by blast
  then have "writes s [] (s\<lparr>klog := kl\<rparr>)" for kl using c [OF refl] by (simp add: writes_def)
  then show ?thesis using c [OF refl] writes_refl [OF assms] by (simp add: announce_def kprint_def)
qed

lemma install_step:
  assumes ok: "bc_ok s" "log_dev s = ROOTDEV" and c: "readable s (log_cell s t)"
    and b: "held s (log_blk s t) = None" "log_cell s t \<noteq> log_blk s t"
    and p: "if r then Suc (npinned s) < NBUF else 0 < pins s (log_blk s t)"
  shows "\<exists>v. install_loop r t (Suc k) s = install_loop r (Suc t) k v \<and>
    writes s [(log_blk s t, content s (log_cell s t))] v \<and>
    content v = (content s)(log_blk s t := content s (log_cell s t)) \<and>
    pins v = (if r then pins s else (pins s)(log_blk s t := pins s (log_blk s t) - 1)) \<and> held v = held s"
proof -
  let ?x = "log_cell s t" and ?y = "log_blk s t"
  define q where "q = announce r t s"
  have q: "writes s [] q" "content q = content s" "pins q = pins s" "held q = held s"
    using announce_ok [OF ok(1)] by (auto simp: q_def)
  have okq: "bc_ok q" and dq: "disk q = disk s" using q(1) by (simp_all add: writes_def)
  have fq: "log_dev q = ROOTDEV" "log_start q = log_start s" "log_lh q = log_lh s" "mypid q = mypid s"
    using same_log_fields [OF writes_same [OF q(1)]] ok(2) by auto
  have "readable q ?x" "held q ?y = None" "0 < pins q ?y \<or> Suc (npinned q) < NBUF"
    using c b p npinned_cong [OF q(3)] q by (auto simp: readable_def split: if_splits)
  from two_grabs [OF okq this b(2)]
  obtain i a j u where u: "bread ROOTDEV ?x q = Some (i, a)" "bread ROOTDEV ?y a = Some (j, u)" "same_log q a"
    "buf_of u ?x i" "buf_of u ?y j" "cache_only q u" "bc_ok u" "content u = content q"
    "pins u = (pins q)(?x := pins q ?x + 1, ?y := pins q ?y + 1)"
    "held u = (held q)(?x := Some (mypid q), ?y := Some (mypid q))"
    by auto
  have mu: "mypid u = mypid q" and du: "disk u = disk s" using u(6) dq by (auto simp: cache_only_def)
  have hu: "held u ?x = Some (mypid u)" "held u ?y = Some (mypid u)" using u(10) mu b(2) by simp_all
  obtain v where v: "bwrite j (bdata j (\<lambda>_. b_data (bufs u ! i)) u) = Some v"
    "writes u [(?y, content u ?x)] v" "content v = (content u)(?y := content u ?x)" "pins v = pins u"
    "held v = held u" "buf_of v = buf_of u"
    using copy_written [OF u(7) u(4,5) b(2) hu] by auto
  have okv: "bc_ok v" and mv: "mypid v = mypid u" using v(2) same_log_fields [of u v] by (auto simp: writes_def)
  define w where "w = (if r then v else bunpin j v)"
  have "buf_of v ?y j" using u(5) v(6) by simp
  then have bv: "bfind v ?y = Some j" by (simp add: buf_of_def)
  have pv: "pins v ?y = pins s ?y + 1" using v(4) u(9) q(3) b(2) by simp
  have w: "writes v [] w" "content w = content v"
    "pins w = (if r then pins v else (pins v)(?y := pins v ?y - 1))" "held w = held v" "buf_of w = buf_of v"
    using bunpin_spec [OF okv bv] pv p writes_refl [OF okv]
    by (auto simp: w_def bunpin_def intro: writes_cache split: if_splits)
  have okw: "bc_ok w" and mw: "mypid w = mypid v" using w(1) same_log_fields [of v w] by (auto simp: writes_def)
  have dw: "disk w = (disk s)(?y := content s ?x)"
    using v(2) w(1) u(8) q(2) du by (simp add: writes_def)
  have cx: "content w ?x = disk w ?x" if "pins w ?x = 1"
  proof -
    have "pins s ?x = 0" using that w(3) v(4) u(9) q(3) b(2) by (simp split: if_splits)
    then have "content s ?x = disk s ?x" by (rule unpinned_clean [OF ok(1)])
    then show ?thesis using w(2) v(3) u(8) q(2) b(2) dw by simp
  qed
  obtain x where x: "brelse i w = Some x" "writes w [] x" "content x = content w"
    "pins x = (pins w)(?x := pins w ?x - 1)" "held x = (held w)(?x := None)" "buf_of x = buf_of w"
    using release [OF okw, of ?x i] u(4) w(4,5) v(5,6) hu mv mw cx by auto
  have okx: "bc_ok x" and mx: "mypid x = mypid w" and dx: "disk x = disk w"
    using x(2) same_log_fields [of w x] by (auto simp: writes_def)
  have "content x ?y = disk x ?y" using x(3) w(2) v(3) u(8) q(2) dw dx b(2) by simp
  then obtain z where z: "brelse j x = Some z" "writes x [] z" "content z = content x"
    "pins z = (pins x)(?y := pins x ?y - 1)" "held z = (held x)(?y := None)"
    using release [OF okx, of ?y j] u(5) x(5,6) w(4,5) v(5,6) hu mv mw mx b(2) by auto
  have "install_loop r t (Suc k) s = install_loop r (Suc t) k z"
    using u(1,2) v(1) x(1) z(1) same_log_fields [OF u(3)] fq w_def q_def
    by (simp add: log_cell_def log_blk_def Let_def announce_def)
  moreover have "writes s [(?y, content s ?x)] z"
    using writes_trans [OF writes_trans [OF writes_trans [OF writes_trans [OF writes_trans
      [OF q(1) writes_cache [OF u(6,7)]] v(2)] w(1)] x(2)] z(2)] u(8) q(2) by simp
  moreover have "pins z = (if r then pins s else (pins s)(?y := pins s ?y - 1))"
    using z(4) x(4) w(3) v(4) u(9) q(3) b(2) by (auto simp: fun_eq_iff)
  moreover have "held z = held s"
    using z(5) x(5) w(4) v(5) u(10) q(4) b c by (auto simp: fun_eq_iff readable_def)
  moreover have "content z = (content s)(?y := content s ?x)" using z(3) x(3) w(2) v(3) u(8) q(2) by simp
  ultimately show ?thesis by blast
qed

definition installs :: "'a klogs_scheme \<Rightarrow> nat \<Rightarrow> nat \<Rightarrow> (u32 \<times> block) list" where
  "installs s t k = map (\<lambda>i. (log_blk s i, content s (log_cell s i))) [t..<t + k]"

lemma npinned_le:
  assumes "bc_ok s" "\<And>x. pins t x \<le> pins s x"
  shows "npinned t \<le> npinned s"
proof -
  have "{x. 0 < pins t x} \<subseteq> {x. 0 < pins s x}" using assms(2) by (auto intro: less_le_trans)
  then show ?thesis unfolding npinned_def by (rule card_mono [OF finite_pinned [OF assms(1)]])
qed

lemma install_loop_ok:
  assumes "bc_ok s" "log_dev s = ROOTDEV" "if r then Suc (npinned s) < NBUF else npinned s < NBUF"
    and "\<forall>i\<in>{t..<t + k}. held s (log_cell s i) = None \<and> held s (log_blk s i) = None \<and>
      (r \<or> 0 < pins s (log_blk s i))"
    and "\<forall>i\<in>{t..<t + k}. \<forall>j\<in>{t..<t + k}. log_cell s i \<noteq> log_blk s j"
    and "r \<or> inj_on (log_blk s) {t..<t + k}"
  shows "\<exists>v. install_loop r t k s = Some v \<and> writes s (installs s t k) v \<and>
    content v = apply_writes (installs s t k) (content s) \<and> held v = held s \<and>
    pins v = (if r then pins s else (\<lambda>x. if x \<in> log_blk s ` {t..<t + k} then pins s x - 1 else pins s x))"
  using assms
proof (induction k arbitrary: t s)
  case 0
  then show ?case by (auto simp: installs_def intro: writes_refl)
next
  case (Suc k)
  have tin: "t \<in> {t..<t + Suc k}" by simp
  have pr: "if r then Suc (npinned s) < NBUF else 0 < pins s (log_blk s t)"
    and nb: "npinned s < NBUF" using Suc.prems(3,4) tin by (auto split: if_splits)
  have pre: "readable s (log_cell s t)" "held s (log_blk s t) = None" "log_cell s t \<noteq> log_blk s t"
    using Suc.prems(4,5) tin nb by (auto simp: readable_def)
  obtain v where v: "install_loop r t (Suc k) s = install_loop r (Suc t) k v"
    "writes s [(log_blk s t, content s (log_cell s t))] v"
    "content v = (content s)(log_blk s t := content s (log_cell s t))"
    "pins v = (if r then pins s else (pins s)(log_blk s t := pins s (log_blk s t) - 1))" "held v = held s"
    using install_step [OF Suc.prems(1,2) pre pr, of k] by blast
  have e: "log_cell v = log_cell s" "log_blk v = log_blk s" and okv: "bc_ok v" "log_dev v = ROOTDEV"
    using same_log_cells [OF writes_same [OF v(2)]] same_log_fields [OF writes_same [OF v(2)]] v(2) Suc.prems(2)
    by (auto simp: writes_def)
  have sub: "{Suc t..<Suc t + k} \<subseteq> {t..<t + Suc k}" by auto
  have le: "npinned v \<le> npinned s" by (rule npinned_le [OF Suc.prems(1)]) (simp add: v(4))
  have ni: "log_blk s i \<noteq> log_blk s t" if "\<not> r" "i \<in> {Suc t..<Suc t + k}" for i
  proof
    assume "log_blk s i = log_blk s t"
    moreover have "inj_on (log_blk s) {t..<t + Suc k}" using Suc.prems(6) that(1) by simp
    ultimately have "i = t" using that(2) by (auto simp: inj_on_def)
    then show False using that(2) by simp
  qed
  have IH: "\<exists>w. install_loop r (Suc t) k v = Some w \<and> writes v (installs v (Suc t) k) w \<and>
    content w = apply_writes (installs v (Suc t) k) (content v) \<and> held w = held v \<and>
    pins w = (if r then pins v else (\<lambda>x. if x \<in> log_blk v ` {Suc t..<Suc t + k} then pins v x - 1 else pins v x))"
  proof (rule Suc.IH [OF okv])
    show "if r then Suc (npinned v) < NBUF else npinned v < NBUF" using Suc.prems(3) le by (auto split: if_splits)
    show "\<forall>i\<in>{Suc t..<Suc t + k}. held v (log_cell v i) = None \<and> held v (log_blk v i) = None \<and>
      (r \<or> 0 < pins v (log_blk v i))"
      using Suc.prems(4) sub ni by (auto simp: e v(4,5))
    show "\<forall>i\<in>{Suc t..<Suc t + k}. \<forall>j\<in>{Suc t..<Suc t + k}. log_cell v i \<noteq> log_blk v j"
      using Suc.prems(5) sub unfolding e by blast
    show "r \<or> inj_on (log_blk v) {Suc t..<Suc t + k}"
      using Suc.prems(6) inj_on_subset [OF _ sub] unfolding e by blast
  qed
  then obtain w where w: "install_loop r (Suc t) k v = Some w" "writes v (installs v (Suc t) k) w"
    "content w = apply_writes (installs v (Suc t) k) (content v)" "held w = held v"
    "pins w = (if r then pins v else (\<lambda>x. if x \<in> log_blk v ` {Suc t..<Suc t + k} then pins v x - 1 else pins v x))"
    by blast
  have "content v (log_cell s i) = content s (log_cell s i)" if "i \<in> {Suc t..<Suc t + k}" for i
    using Suc.prems(5) tin sub that by (simp add: v(3))
  then have m: "installs v (Suc t) k = installs s (Suc t) k"
    unfolding installs_def e by (intro map_cong) auto
  have up: "installs s t (Suc k) = (log_blk s t, content s (log_cell s t)) # installs s (Suc t) k"
    by (simp add: installs_def upt_conv_Cons del: upt_Suc)
  have ivl: "{t..<t + Suc k} = insert t {Suc t..<Suc t + k}" by auto
  have ni': "log_blk s t \<notin> log_blk s ` {Suc t..<Suc t + k}" if "\<not> r"
    using ni [OF that] by (metis imageE)
  have "pins w = (if r then pins s else (\<lambda>x. if x \<in> log_blk s ` {t..<t + Suc k} then pins s x - 1 else pins s x))"
    using ni' unfolding w(5) v(4) e ivl by (cases r) (auto simp: fun_eq_iff)
  moreover have "writes s (installs s t (Suc k)) w" using writes_trans [OF v(2) w(2)] unfolding up m by simp
  moreover have "content w = apply_writes (installs s t (Suc k)) (content s)"
    using w(3) unfolding up m by (simp add: v(3))
  ultimately show ?case using v(1,5) w(1,4) by auto
qed

subsection \<open>The header\<close>

lemma write_head_ok:
  assumes "bc_ok s" "log_dev s = ROOTDEV" "readable s (log_start s)"
  shows "\<exists>v. write_head s = Some v \<and>
    writes s [(log_start s, head_block (log_lh s) (content s (log_start s)))] v \<and>
    content v = (content s)(log_start s := head_block (log_lh s) (content s (log_start s))) \<and>
    pins v = pins s \<and> held v = held s"
proof -
  obtain i t u v w where w: "bread ROOTDEV (log_start s) s = Some (i, t)" "u = bdata i (head_block (log_lh s)) t"
    "bwrite i u = Some v" "brelse i v = Some w" "same_log s t"
    "writes s [(log_start s, head_block (log_lh s) (content s (log_start s)))] w"
    "content w = (content s)(log_start s := head_block (log_lh s) (content s (log_start s)))"
    "pins w = pins s" "held w = held s"
    using rewrite_block [OF assms(1,3), of "head_block (log_lh s)"] by blast
  then have "write_head s = Some w"
    using same_log_fields [OF w(5)] assms(2) by (simp add: write_head_def Let_def)
  then show ?thesis using w by blast
qed

end
