(* ===== verification/LogCrash.thy ===== *)
theory LogCrash
  imports LogInv
begin

section \<open>Commits survive crashes\<close>

text \<open>
  A crash keeps some prefix of the block writes the driver has completed and loses the
  cache; at the next boot \<open>initlog\<close> replays the log.  The theorems quantify over every
  prefix: of a commit, which is therefore atomic, and of a recovery, which can be
  started again.  \<open>log_area\<close> is the header block and the log blocks.
\<close>

definition log_area :: "u32 \<Rightarrow> u32 set" where
  "log_area st = (\<lambda>i. st + of_nat i) ` {..30}"

text \<open>The state in which the last \<open>end_op\<close> calls commit.\<close>

definition tx_ok :: "'a klogs_scheme \<Rightarrow> bool" where
  "tx_ok s \<longleftrightarrow> bc_ok s \<and> log_dev s = ROOTDEV \<and> npinned s < NBUF \<and>
     length (lh_block (log_lh s)) = 30 \<and> 0 < lh_n (log_lh s) \<and> lh_n (log_lh s) \<le> LOGBLOCKS \<and>
     distinct (take (nat (lh_n (log_lh s))) (lh_block (log_lh s))) \<and>
     (\<forall>i<nat (lh_n (log_lh s)). log_blk s i \<notin> log_area (log_start s) \<and>
        held s (log_blk s i) = None \<and> 0 < pins s (log_blk s i)) \<and>
     (\<forall>bn\<in>log_area (log_start s). held s bn = None)"

text \<open>A machine that has just booted on a disk.\<close>

definition boot_state :: "(u32 \<Rightarrow> block) \<Rightarrow> 'a klogs_scheme \<Rightarrow> bool" where
  "boot_state d r \<longleftrightarrow> bc_ok r \<and> (\<forall>bn. pins r bn = 0) \<and> disk r = d \<and> length (lh_block (log_lh r)) = 30"

definition disk_header :: "(u32 \<Rightarrow> block) \<Rightarrow> u32 \<Rightarrow> int" where
  "disk_header d st = sint (get32 (d st) 0)"

definition disk_blk :: "(u32 \<Rightarrow> block) \<Rightarrow> u32 \<Rightarrow> nat \<Rightarrow> u32" where
  "disk_blk d st i = get32 (d st) (4 + 4 * i)"

lemma LOGBLOCKS_30 [simp]: "LOGBLOCKS = 30"
  by (simp add: LOGBLOCKS_def MAXOPBLOCKS_def)

subsection \<open>The log area\<close>

lemma of_nat_u32_inj: "i < 2 ^ 32 \<Longrightarrow> j < 2 ^ 32 \<Longrightarrow> (of_nat i :: u32) = of_nat j \<longleftrightarrow> i = j"
  by (simp add: word_unat_eq_iff unat_of_nat take_bit_nat_eq_self)

lemma log_cell_area: "i < 30 \<Longrightarrow> log_cell s i \<in> log_area (log_start s)"
  unfolding log_area_def log_cell_def by (rule image_eqI [of _ _ "Suc i"]) auto

lemma log_start_area [simp]: "st \<in> log_area st"
  unfolding log_area_def by (rule image_eqI [of _ _ 0]) auto

lemma log_cell_start: "i < 30 \<Longrightarrow> log_cell s i \<noteq> log_start s"
proof
  assume "i < 30" "log_cell s i = log_start s"
  then have "log_start s + of_nat (Suc i) = log_start s + of_nat 0" by (simp add: log_cell_def add.assoc add.commute)
  then have "(of_nat (Suc i) :: u32) = of_nat 0" by (metis add_left_imp_eq)
  then show False using of_nat_u32_inj [of "Suc i" 0] \<open>i < 30\<close> by simp
qed

lemma log_cell_inj: "i < 30 \<Longrightarrow> j < 30 \<Longrightarrow> log_cell s i = log_cell s j \<longleftrightarrow> i = j"
  using of_nat_u32_inj [of i j] by (auto simp: log_cell_def)

subsection \<open>The header block\<close>

lemma write_head_loop_0: "get32 (write_head_loop bs i k d) 0 = get32 d 0"
  by (induction bs i k d rule: write_head_loop.induct) (simp_all add: get32_put32_other)

lemma write_head_loop_less:
  "j < i \<Longrightarrow> get32 (write_head_loop bs i k d) (4 + 4 * j) = get32 d (4 + 4 * j)"
  by (induction bs i k d rule: write_head_loop.induct) (simp_all add: get32_put32_other)

lemma write_head_loop_in:
  "i \<le> j \<Longrightarrow> j < i + k \<Longrightarrow> get32 (write_head_loop bs i k d) (4 + 4 * j) = bs ! j"
proof (induction bs i k d rule: write_head_loop.induct)
  case (2 bs i k d)
  then show ?case by (cases "j = i") (simp_all add: write_head_loop_less)
qed simp

lemma sint_small: "0 \<le> n \<Longrightarrow> n \<le> 30 \<Longrightarrow> sint (of_int n :: u32) = n"
  by (simp add: int_word_sint mod_pos_pos_trivial)

lemma head_block_reads:
  assumes "0 \<le> lh_n h" "lh_n h \<le> 30"
  shows "sint (get32 (head_block h d) 0) = lh_n h"
    "j < nat (lh_n h) \<Longrightarrow> get32 (head_block h d) (4 + 4 * j) = lh_block h ! j"
  using assms by (simp_all add: head_block_def write_head_loop_0 write_head_loop_in sint_small)

lemma read_head_loop_ok:
  "i + k \<le> length (lh_block h) \<Longrightarrow> \<exists>h'. read_head_loop d i k h = Some h' \<and> lh_n h' = lh_n h \<and>
     length (lh_block h') = length (lh_block h) \<and>
     (\<forall>j. lh_block h' ! j = (if i \<le> j \<and> j < i + k then get32 d (4 + 4 * j) else lh_block h ! j))"
proof (induction d i k h rule: read_head_loop.induct)
  case (2 d i k h)
  let ?h = "h\<lparr>lh_block := (lh_block h)[i := get32 d (4 + 4 * i)]\<rparr>"
  have l: "i < length (lh_block h)" using 2(2) by simp
  from 2 obtain h' where h': "read_head_loop d (Suc i) k ?h = Some h'" "lh_n h' = lh_n h"
    "length (lh_block h') = length (lh_block h)"
    "\<forall>j. lh_block h' ! j = (if Suc i \<le> j \<and> j < Suc i + k then get32 d (4 + 4 * j) else lh_block ?h ! j)"
    by auto
  have "lh_block h' ! j = (if i \<le> j \<and> j < i + Suc k then get32 d (4 + 4 * j) else lh_block h ! j)" for j
    using h'(4) l by (cases "j = i") (auto simp: nth_list_update)
  then show ?case using h' l by auto
qed auto

subsection \<open>Changes of the header in memory\<close>

lemma set_lh_view:
  assumes "bc_ok s"
  shows "bc_ok (s\<lparr>log_lh := h\<rparr>) \<and> content (s\<lparr>log_lh := h\<rparr>) = content s \<and> pins (s\<lparr>log_lh := h\<rparr>) = pins s \<and>
    held (s\<lparr>log_lh := h\<rparr>) = held s \<and> buf_of (s\<lparr>log_lh := h\<rparr>) = buf_of s"
  using bc_ok_cong [OF assms, of "s\<lparr>log_lh := h\<rparr>"] assms by (auto simp: bc_ok_def running_def)

lemma mypid_lh [simp]: "mypid (s\<lparr>log_lh := h\<rparr>) = mypid s" by (simp add: mypid_def)

text \<open>\<open>wrote s ws t\<close>: the disk writes from \<open>s\<close> to \<open>t\<close>, the header in memory aside.\<close>

definition wrote :: "'a klogs_scheme \<Rightarrow> (u32 \<times> block) list \<Rightarrow> 'a klogs_scheme \<Rightarrow> bool" where
  "wrote s ws t \<longleftrightarrow> bc_ok t \<and> disk t = apply_writes ws (disk s) \<and> disk_log t = disk_log s @ ws \<and>
     mypid t = mypid s \<and> log_start t = log_start s \<and> log_dev t = log_dev s \<and>
     log_outstanding t = log_outstanding s \<and> log_committing t = log_committing s \<and>
     length (lh_block (log_lh t)) = length (lh_block (log_lh s)) \<and> cur t = cur s"

lemma wrote_writes: "writes s ws t \<Longrightarrow> wrote s ws t"
  using same_log_fields [of s t] by (auto simp: writes_def wrote_def)

lemma wrote_trans: "wrote s ws t \<Longrightarrow> wrote t vs u \<Longrightarrow> wrote s (ws @ vs) u"
  by (auto simp: wrote_def)

lemma wrote_set_lh_n: "bc_ok s \<Longrightarrow> wrote s [] (set_lh_n n s)"
  using set_lh_view [of s] by (simp add: wrote_def set_lh_n_def)

lemma set_lh_n_view:
  "bc_ok s \<Longrightarrow> content (set_lh_n n s) = content s \<and> pins (set_lh_n n s) = pins s \<and> held (set_lh_n n s) = held s"
  using set_lh_view [of s] by (simp add: set_lh_n_def)

lemma set_lh_n_simps [simp]:
  "lh_n (log_lh (set_lh_n n s)) = n" "lh_block (log_lh (set_lh_n n s)) = lh_block (log_lh s)"
  "log_start (set_lh_n n s) = log_start s" "log_dev (set_lh_n n s) = log_dev s" "disk (set_lh_n n s) = disk s"
  "disk_log (set_lh_n n s) = disk_log s"
  by (simp_all add: set_lh_n_def)

subsection \<open>The writes of a commit\<close>

definition logged :: "'a klogs_scheme \<Rightarrow> u32 set" where
  "logged s = log_blk s ` {..<nat (lh_n (log_lh s))}"

definition log_copies :: "'a klogs_scheme \<Rightarrow> (u32 \<times> block) list" where
  "log_copies s = map (\<lambda>i. (log_cell s i, content s (log_blk s i))) [0..<nat (lh_n (log_lh s))]"

definition home_copies :: "'a klogs_scheme \<Rightarrow> (u32 \<times> block) list" where
  "home_copies s = map (\<lambda>i. (log_blk s i, content s (log_blk s i))) [0..<nat (lh_n (log_lh s))]"

definition commit_head :: "'a klogs_scheme \<Rightarrow> block" where
  "commit_head s = head_block (log_lh s) (content s (log_start s))"

definition clear_head :: "logheader \<Rightarrow> block \<Rightarrow> block" where
  "clear_head h = head_block (h\<lparr>lh_n := 0\<rparr>)"

definition commit_writes :: "'a klogs_scheme \<Rightarrow> (u32 \<times> block) list" where
  "commit_writes s = log_copies s @ [(log_start s, commit_head s)] @ home_copies s @
     [(log_start s, clear_head (log_lh s) (commit_head s))]"

lemma logged_facts:
  assumes "tx_ok s" "i < nat (lh_n (log_lh s))"
  shows "i < 30" "log_blk s i \<notin> log_area (log_start s)" "held s (log_blk s i) = None" "0 < pins s (log_blk s i)"
    "held s (log_cell s i) = None" "log_cell s i \<in> log_area (log_start s)"
  using assms log_cell_area [of i s] by (auto simp: tx_ok_def)

lemma tx_ok_inj: "tx_ok s \<Longrightarrow> inj_on (log_blk s) {..<nat (lh_n (log_lh s))}"
proof (rule inj_onI)
  fix i j assume t: "tx_ok s" and i: "i \<in> {..<nat (lh_n (log_lh s))}" and j: "j \<in> {..<nat (lh_n (log_lh s))}"
    and e: "log_blk s i = log_blk s j"
  let ?l = "take (nat (lh_n (log_lh s))) (lh_block (log_lh s))"
  have "distinct ?l" "length ?l = nat (lh_n (log_lh s))" using t by (auto simp: tx_ok_def)
  moreover have "?l ! i = ?l ! j" using i j e by (simp add: log_blk_def)
  ultimately show "i = j" using i j nth_eq_iff_index_eq [of ?l i j] by simp
qed

lemma commit_ok:
  assumes t: "tx_ok s"
  shows "\<exists>u. commit s = Some u \<and> wrote s (commit_writes s) u \<and> lh_n (log_lh u) = 0 \<and>
    (\<forall>bn. bn \<notin> log_area (log_start s) \<longrightarrow> content u bn = content s bn) \<and> held u = held s \<and>
    pins u = (\<lambda>bn. if bn \<in> logged s then pins s bn - 1 else pins s bn)"
proof -
  let ?n = "nat (lh_n (log_lh s))"
  have ok: "bc_ok s" "log_dev s = ROOTDEV" "npinned s < NBUF" and n: "?n \<le> 30" "0 < lh_n (log_lh s)"
    using t by (auto simp: tx_ok_def)
  note f = logged_facts [OF t]
  have ne: "log_cell s i \<noteq> log_blk s j" if "i < ?n" "j < ?n" for i j using f(6) [OF that(1)] f(2) [OF that(2)] by metis
  obtain a where a: "write_log_loop 0 (0 + ?n) s = Some a" "writes s (log_copies s) a"
    "content a = apply_writes (log_copies s) (content s)" "pins a = pins s" "held a = held s"
    using write_log_loop_ok [OF ok, of 0 ?n] f ne by (auto simp: log_copies_def)
  have fa: "log_start a = log_start s" "log_dev a = ROOTDEV" "log_lh a = log_lh s"
    and oka: "bc_ok a" using same_log_fields [OF writes_same [OF a(2)]] ok a(2) by (auto simp: writes_def)
  have start: "log_start s \<notin> fst ` set (log_copies s)"
  proof
    assume "log_start s \<in> fst ` set (log_copies s)"
    then obtain i where "i < ?n" "log_cell s i = log_start s" by (auto simp: log_copies_def)
    then show False using log_cell_start [of i s] n(1) by simp
  qed
  have "readable a (log_start a)"
    using t npinned_cong [OF a(4)] ok(3) fa a(5) by (auto simp: readable_def tx_ok_def)
  then obtain b where b: "write_head a = Some b"
    "writes a [(log_start s, head_block (log_lh s) (content a (log_start s)))] b"
    "content b = (content a)(log_start s := head_block (log_lh s) (content a (log_start s)))"
    "pins b = pins s" "held b = held s"
    using write_head_ok [OF oka fa(2)] fa a(4,5) by auto
  have h1: "head_block (log_lh s) (content a (log_start s)) = commit_head s"
    using start by (simp add: a(3) commit_head_def apply_writes_other)
  have eb: "log_cell b = log_cell s" "log_blk b = log_blk s" and fb: "log_dev b = ROOTDEV" "log_lh b = log_lh s"
    "log_start b = log_start s" and okb: "bc_ok b"
    using same_log_cells [OF writes_same [OF b(2)]] same_log_cells [OF writes_same [OF a(2)]]
      same_log_fields [OF writes_same [OF b(2)]] fa b(2) by (auto simp: writes_def)
  have cell: "content b (log_cell s i) = content s (log_blk s i)" if "i < ?n" for i
  proof -
    have "distinct (map fst (log_copies s))"
      using log_cell_inj [of _ _ s] n(1) by (auto simp: log_copies_def distinct_map comp_def inj_on_def)
    then have "content a (log_cell s i) = content s (log_blk s i)"
      unfolding a(3) by (rule apply_writes_in) (use that in \<open>auto simp: log_copies_def\<close>)
    then show ?thesis using log_cell_start [of i s] that n(1) by (simp add: b(3))
  qed
  have hc: "installs b 0 ?n = home_copies s"
    by (simp add: installs_def home_copies_def eb cell)
  have inj: "inj_on (log_blk b) {0..<0 + ?n}" using tx_ok_inj [OF t] by (simp add: eb lessThan_atLeast0)
  obtain c where c: "install_loop False 0 ?n b = Some c" "writes b (home_copies s) c"
    "content c = apply_writes (home_copies s) (content b)" "held c = held s"
    and cp: "pins c = (\<lambda>x. if x \<in> log_blk s ` {0..<?n} then pins b x - 1 else pins b x)"
    using install_loop_ok [OF okb fb(1), of False 0 ?n] inj npinned_cong [OF b(4)] ok(3) f ne b(4,5) eb hc
    by auto
  have c5: "pins c = (\<lambda>x. if x \<in> log_blk s ` {0..<?n} then pins s x - 1 else pins s x)"
    unfolding cp b(4) ..
  have fc: "log_dev c = ROOTDEV" "log_lh c = log_lh s" "log_start c = log_start s" and okc: "bc_ok c"
    using same_log_fields [OF writes_same [OF c(2)]] fb c(2) by (auto simp: writes_def)
  define d where "d = set_lh_n 0 c"
  have d: "bc_ok d" "wrote c [] d" "content d = content c" "pins d = pins c" "held d = held c"
    using wrote_set_lh_n [OF okc] set_lh_n_view [OF okc] unfolding d_def by (auto simp: wrote_def)
  have fd: "log_dev d = ROOTDEV" "log_start d = log_start s" "log_lh d = (log_lh s)\<lparr>lh_n := 0\<rparr>"
    using fc by (simp_all add: d_def set_lh_n_def)
  have "npinned d \<le> npinned s" by (rule npinned_le [OF ok(1)]) (simp add: d(4) c5)
  then have "readable d (log_start d)"
    using t ok(3) fd d(5) c(4) by (auto simp: readable_def tx_ok_def)
  then obtain u where u: "write_head d = Some u"
    "writes d [(log_start s, clear_head (log_lh s) (content d (log_start s)))] u"
    "content u = (content d)(log_start s := clear_head (log_lh s) (content d (log_start s)))"
    "pins u = pins d" "held u = held d"
    using write_head_ok [OF d(1) fd(1)] fd by (auto simp: clear_head_def)
  have home: "log_start s \<notin> fst ` set (home_copies s)" using f(2) by (force simp: home_copies_def)
  have h2: "content d (log_start s) = commit_head s"
    using home h1 by (simp add: d(3) c(3) b(3) apply_writes_other)
  have run: "commit s = Some u"
    using n(2) a(1) b(1) c(1) u(1) fb(2) by (simp add: commit_def write_log_def install_trans_def d_def)
  have w: "wrote s (commit_writes s) u"
    using wrote_trans [OF wrote_trans [OF wrote_trans [OF wrote_trans [OF wrote_writes [OF a(2)]
      wrote_writes [OF b(2)]] wrote_writes [OF c(2)]] d(2)] wrote_writes [OF u(2)]]
    by (simp add: commit_writes_def h1 h2)
  have "content u bn = content s bn" if "bn \<notin> log_area (log_start s)" for bn
  proof -
    have ba: "content b bn = content s bn"
    proof -
      have "bn \<notin> fst ` set (log_copies s)" using that f(6) by (force simp: log_copies_def)
      then show ?thesis using that by (auto simp: b(3) a(3) apply_writes_other)
    qed
    have "content c bn = content s bn"
    proof (cases "bn \<in> log_blk s ` {..<?n}")
      case True
      have "distinct (map fst (home_copies s))"
        using tx_ok_inj [OF t] by (simp add: home_copies_def distinct_map comp_def lessThan_atLeast0)
      then show ?thesis using True unfolding c(3) by (auto simp: home_copies_def intro: apply_writes_in)
    next
      case False
      then have "bn \<notin> fst ` set (home_copies s)" by (auto simp: home_copies_def)
      then show ?thesis using ba by (simp add: c(3) apply_writes_other)
    qed
    then show ?thesis using that d(3) by (auto simp: u(3))
  qed
  moreover have "lh_n (log_lh u) = 0" using same_log_fields [OF writes_same [OF u(2)]] fd(3) by simp
  ultimately show ?thesis
    using run w u(4,5) d(4,5) c(4) c5 by (auto simp: logged_def lessThan_atLeast0)
qed

subsection \<open>Recovery\<close>

definition replays :: "(u32 \<Rightarrow> block) \<Rightarrow> u32 \<Rightarrow> (u32 \<times> block) list" where
  "replays d st = map (\<lambda>i. (disk_blk d st i, d (st + of_nat i + 1))) [0..<nat (disk_header d st)]"

definition recovery_writes :: "(u32 \<Rightarrow> block) \<Rightarrow> u32 \<Rightarrow> (u32 \<times> block) list" where
  "recovery_writes d st = replays d st @ [(st, put32 0 0 (d st))]"

text \<open>A disk whose header a commit can have written: in range, and naming home blocks only.\<close>

definition header_ok :: "(u32 \<Rightarrow> block) \<Rightarrow> u32 \<Rightarrow> bool" where
  "header_ok d st \<longleftrightarrow> disk_header d st \<le> 30 \<and> (\<forall>i<nat (disk_header d st). disk_blk d st i \<notin> log_area st)"

lemma boot_view:
  assumes "boot_state d r"
  shows "bc_ok r" "content r = d" "held r bn = None" "npinned r = 0" "disk r = d" "pins r bn = 0"
  using assms unpinned_clean [of r] held_pinned [of r bn]
  by (auto simp: boot_state_def npinned_def fun_eq_iff)

lemma clear_head_put: "clear_head h d = put32 0 0 d"
  by (simp add: clear_head_def head_block_def)

lemma read_head_ok:
  assumes ok: "bc_ok s" "log_dev s = ROOTDEV" and r: "readable s (log_start s)"
    and n: "disk_header (content s) (log_start s) \<le> 30" and l: "length (lh_block (log_lh s)) = 30"
  shows "\<exists>u. read_head s = Some u \<and> wrote s [] u \<and> content u = content s \<and> pins u = pins s \<and> held u = held s \<and>
    lh_n (log_lh u) = disk_header (content s) (log_start s) \<and>
    (\<forall>i<nat (disk_header (content s) (log_start s)). log_blk u i = disk_blk (content s) (log_start s) i)"
proof -
  let ?st = "log_start s"
  obtain i t where t: "bread ROOTDEV ?st s = Some (i, t)" "buf_of t ?st i" "b_data (bufs t ! i) = content s ?st"
    "grabs ?st s t" using bread_readable [OF ok(1) r] by auto
  have okt: "bc_ok t" and wt: "writes s [] t" and ct: "content t = content s"
    and pt: "pins t = (pins s)(?st := pins s ?st + 1)" and ht: "held t = (held s)(?st := Some (mypid s))"
    using t(4) writes_grab [OF t(4)] by (auto simp: grabs_def)
  have ft: "log_lh t = log_lh s" "log_dev t = ROOTDEV" "log_start t = ?st" "mypid t = mypid s" "disk t = disk s"
    using same_log_fields [OF writes_same [OF wt]] ok(2) wt by (auto simp: writes_def)
  let ?n = "disk_header (content s) ?st"
  obtain h where h: "read_head_loop (content s ?st) 0 (nat ?n) ((log_lh t)\<lparr>lh_n := ?n\<rparr>) = Some h" "lh_n h = ?n"
    "length (lh_block h) = 30" "\<forall>j<nat ?n. lh_block h ! j = get32 (content s ?st) (4 + 4 * j)"
  proof -
    have "nat ?n \<le> 30" using n by simp
    with that show thesis
      using read_head_loop_ok [of 0 "nat ?n" "(log_lh t)\<lparr>lh_n := ?n\<rparr>" "content s ?st"] l ft(1) by auto
  qed
  define u where "u = t\<lparr>log_lh := h\<rparr>"
  have u: "bc_ok u" "content u = content s" "pins u = pins t" "held u = held t" "buf_of u = buf_of t"
    using set_lh_view [OF okt, of h] ct by (simp_all add: u_def)
  have mu: "mypid u = mypid s" "disk u = disk s" using ft by (simp_all add: u_def)
  have "content u ?st = disk u ?st" if "pins u ?st = 1"
    using that u mu pt unpinned_clean [OF ok(1), of ?st] by simp
  then obtain w where w: "brelse i u = Some w" "writes u [] w" "content w = content u"
    "pins w = (pins u)(?st := pins u ?st - 1)" "held w = (held u)(?st := None)"
    using release [OF u(1), of ?st i] u t(2) ht mu by auto
  have e: "read_head s = Some w"
    using t(1,3) h(1) w(1) ok(2) by (simp add: read_head_def Let_def disk_header_def u_def)
  have wu: "wrote s [] u"
    using wrote_writes [OF wt] u(1) l h(3) by (simp add: wrote_def u_def)
  have "wrote s [] w" using wrote_trans [OF wu wrote_writes [OF w(2)]] by simp
  moreover have fw: "log_lh w = h" using same_log_fields [OF writes_same [OF w(2)]] by (simp add: u_def)
  moreover have "pins w = pins s" "held w = held s" "content w = content s"
    using w u pt ht r by (auto simp: fun_eq_iff readable_def)
  moreover have "log_blk w j = disk_blk (content s) ?st j" if "j < nat ?n" for j
    using h(4) that by (simp add: log_blk_def fw disk_blk_def)
  ultimately show ?thesis using e h(2) by auto
qed

lemma recover_ok:
  assumes b: "boot_state d r" and dev: "log_dev r = ROOTDEV" and ho: "header_ok d (log_start r)"
  shows "\<exists>u. recover_from_log r = Some u \<and> wrote r (recovery_writes d (log_start r)) u \<and> pins u = pins r \<and>
    lh_n (log_lh u) = 0"
proof -
  let ?st = "log_start r" and ?n = "nat (disk_header d (log_start r))"
  note v = boot_view [OF b]
  have n: "disk_header (content r) ?st \<le> 30" using ho v(2) by (simp add: header_ok_def)
  have l: "length (lh_block (log_lh r)) = 30" using b by (simp add: boot_state_def)
  have "readable r ?st" using v by (simp add: readable_def)
  then obtain a where a: "read_head r = Some a" "wrote r [] a" "content a = d" "pins a = pins r" "held a = held r"
    "lh_n (log_lh a) = disk_header d ?st" "\<forall>i<?n. log_blk a i = disk_blk d ?st i"
    using read_head_ok [OF v(1) dev _ n l] v(2) by auto
  have fa: "bc_ok a" "log_dev a = ROOTDEV" "log_start a = ?st" "disk a = d"
    using a(2) dev v by (auto simp: wrote_def)
  have na: "npinned a = 0" using npinned_cong [OF a(4)] v(4) by simp
  have ar: "log_cell a i \<in> log_area ?st" "log_blk a i \<notin> log_area ?st" if "i < ?n" for i
    using ho that log_cell_area [of i a] fa(3) a(7) by (auto simp: header_ok_def)
  have ne: "log_cell a i \<noteq> log_blk a j" if "i < ?n" "j < ?n" for i j using ar(1) [OF that(1)] ar(2) [OF that(2)] by metis
  obtain c where c: "install_loop True 0 ?n a = Some c" "writes a (installs a 0 ?n) c" "held c = held a"
    "content c = apply_writes (installs a 0 ?n) (content a)" "pins c = pins a"
    using install_loop_ok [OF fa(1,2), of True 0 ?n] na ne a(5) v(3) by (auto simp: NBUF_def)
  have ir: "installs a 0 ?n = replays d ?st"
    unfolding installs_def replays_def using a(7) by (simp add: a(3) log_cell_def fa(3))
  have fc: "bc_ok c" "log_dev c = ROOTDEV" "log_start c = ?st" "log_lh c = log_lh a"
    using same_log_fields [OF writes_same [OF c(2)]] fa c(2) by (auto simp: writes_def)
  define e where "e = set_lh_n 0 c"
  have e: "bc_ok e" "wrote c [] e" "content e = content c" "pins e = pins c" "held e = held c"
    using wrote_set_lh_n [OF fc(1)] set_lh_n_view [OF fc(1)] unfolding e_def by (auto simp: wrote_def)
  have fe: "log_dev e = ROOTDEV" "log_start e = ?st" "lh_n (log_lh e) = 0" using fc by (simp_all add: e_def)
  have "readable e (log_start e)"
    using npinned_cong [of e a] na e(4,5) c(3,5) a(5) v(3) by (simp add: readable_def)
  then obtain u where u: "write_head e = Some u"
    "writes e [(?st, head_block (log_lh e) (content e ?st))] u" "pins u = pins e"
    using write_head_ok [OF e(1) fe(1)] fe(2) by auto
  have "?st \<notin> fst ` set (replays d ?st)" using ho by (auto simp: replays_def header_ok_def)
  then have "head_block (log_lh e) (content e ?st) = put32 0 0 (d ?st)"
    using fe(3) by (simp add: head_block_def e(3) c(4) ir a(3) apply_writes_other)
  then have "wrote r (recovery_writes d ?st) u"
    using wrote_trans [OF wrote_trans [OF wrote_trans [OF a(2) wrote_writes [OF c(2)]] e(2)] wrote_writes [OF u(2)]] ir
    by (simp add: recovery_writes_def)
  moreover have "recover_from_log r = Some u"
    using a(1) c(1) u(1) a(6) by (simp add: recover_from_log_def install_trans_def e_def)
  moreover have "lh_n (log_lh u) = 0" using same_log_fields [OF writes_same [OF u(2)]] fe(3) by simp
  ultimately show ?thesis using u(3) e(4) c(5) a(4) by auto
qed

lemma initlog_ok:
  assumes "boot_state d r" "header_ok d st"
  shows "\<exists>u. initlog ROOTDEV st r = Some u \<and> disk u = apply_writes (recovery_writes d st) d \<and>
    disk_log u = disk_log r @ recovery_writes d st \<and> boot_state (disk u) (u\<lparr>disk_log := []\<rparr>)"
proof -
  define q where "q = r\<lparr>log_start := st, log_dev := ROOTDEV\<rparr>"
  have "bc_ok q \<and> pins q = pins r"
    using bc_ok_cong [of r q] assms(1) by (auto simp: q_def boot_state_def bc_ok_def running_def)
  then have q: "boot_state d q" using assms(1) by (simp add: boot_state_def q_def)
  obtain u where u: "recover_from_log q = Some u" "wrote q (recovery_writes d st) u" "pins u = pins q"
    using recover_ok [OF q] assms(2) by (auto simp: q_def)
  have "bc_ok (u\<lparr>disk_log := []\<rparr>) \<and> pins (u\<lparr>disk_log := []\<rparr>) = pins u"
    using bc_ok_cong [of u "u\<lparr>disk_log := []\<rparr>"] u(2) by (auto simp: wrote_def bc_ok_def running_def)
  then have "boot_state (disk u) (u\<lparr>disk_log := []\<rparr>)"
    using u(2,3) q by (simp add: boot_state_def wrote_def)
  then show ?thesis
    using u q by (auto simp: initlog_def q_def [symmetric] wrote_def boot_state_def) (auto simp: q_def)
qed

end
