(* ===== verification/LogOps.thy ===== *)
theory LogOps
  imports LogCrash
begin

section \<open>Transactions\<close>

text \<open>
  \<open>log_inv\<close> is what holds between the log's operations while one process runs a
  transaction: a block's buffer is pinned once for being logged and once for being
  held, everything else agrees with the disk, and the disk's header is clear.
  \<open>logged_update\<close> is the file system's idiom \<open>bread\<close>, change, \<open>log_write\<close>, \<open>brelse\<close>.
\<close>

definition log_inv :: "'a klogs_scheme \<Rightarrow> bool" where
  "log_inv s \<longleftrightarrow> bc_ok s \<and> log_dev s = ROOTDEV \<and> length (lh_block (log_lh s)) = 30 \<and>
     0 \<le> lh_n (log_lh s) \<and> lh_n (log_lh s) \<le> 30 \<and>
     distinct (take (nat (lh_n (log_lh s))) (lh_block (log_lh s))) \<and>
     logged s \<inter> log_area (log_start s) = {} \<and>
     (\<forall>bn. pins s bn = of_bool (bn \<in> logged s) + of_bool (held s bn \<noteq> None)) \<and>
     (\<forall>bn. bn \<notin> logged s \<and> held s bn = None \<longrightarrow> content s bn = disk s bn) \<and>
     disk_header (disk s) (log_start s) = 0"

definition nothing_held :: "'a kbuf_scheme \<Rightarrow> bool" where
  "nothing_held s \<longleftrightarrow> (\<forall>bn. held s bn = None)"

lemma logged_set: "length (lh_block (log_lh s)) = 30 \<Longrightarrow> lh_n (log_lh s) \<le> 30 \<Longrightarrow>
  logged s = set (take (nat (lh_n (log_lh s))) (lh_block (log_lh s)))"
  using nth_image [of "nat (lh_n (log_lh s))" "lh_block (log_lh s)"]
  by (simp add: logged_def log_blk_def [abs_def] lessThan_atLeast0)

lemma card_logged: "log_inv s \<Longrightarrow> card (logged s) = nat (lh_n (log_lh s))"
  by (subst logged_set) (auto simp: log_inv_def distinct_card)

lemma finite_logged [simp]: "finite (logged s)" by (simp add: logged_def)

lemma pinned_set: "log_inv s \<Longrightarrow> {bn. 0 < pins s bn} = logged s \<union> {bn. held s bn \<noteq> None}"
  by (auto simp: log_inv_def of_bool_def split: if_splits)

lemma npinned_logged: "log_inv s \<Longrightarrow> nothing_held s \<Longrightarrow> npinned s = nat (lh_n (log_lh s))"
  using card_logged [of s] by (simp add: npinned_def pinned_set nothing_held_def)

lemma log_inv_tx_ok:
  assumes "log_inv s" "nothing_held s" "0 < lh_n (log_lh s)" "lh_n (log_lh s) < 30"
  shows "tx_ok s"
  using assms npinned_logged [OF assms(1,2)]
  by (auto simp: tx_ok_def log_inv_def nothing_held_def NBUF_def logged_def)

subsection \<open>Atomic commits\<close>

lemma apply_writes_any:
  "bn \<in> fst ` set ws \<Longrightarrow> apply_writes ws d bn = apply_writes ws d' bn"
proof (induction ws arbitrary: d d')
  case (Cons w ws)
  obtain a b where w: "w = (a, b)" by (cases w)
  show ?case
  proof (cases "bn \<in> fst ` set ws")
    case True then show ?thesis using Cons.IH by (simp add: w)
  next
    case False then show ?thesis using Cons.prems by (simp add: w apply_writes_other)
  qed
qed simp

lemma log_copies_keys: "tx_ok s \<Longrightarrow> fst ` set (log_copies s) \<subseteq> log_area (log_start s) - {log_start s}"
proof
  fix x assume t: "tx_ok s" and x: "x \<in> fst ` set (log_copies s)"
  then obtain i where i: "i < nat (lh_n (log_lh s))" "x = log_cell s i" by (auto simp: log_copies_def)
  then show "x \<in> log_area (log_start s) - {log_start s}"
    using logged_facts(1,6) [OF t i(1)] log_cell_start [of i s] by simp
qed

lemma home_copies_keys: "fst ` set (home_copies s) = logged s"
  by (simp add: home_copies_def logged_def image_image lessThan_atLeast0)

lemma home_copies_val:
  assumes "tx_ok s" "bn \<in> logged s"
  shows "apply_writes (home_copies s) d bn = content s bn"
proof -
  have "distinct (map fst (home_copies s))"
    using tx_ok_inj [OF assms(1)] by (simp add: home_copies_def distinct_map comp_def lessThan_atLeast0)
  then show ?thesis using assms(2) by (auto simp: home_copies_def logged_def intro!: apply_writes_in)
qed

lemma logged_off_area: "tx_ok s \<Longrightarrow> bn \<in> logged s \<Longrightarrow> bn \<notin> log_area (log_start s)"
  using logged_facts(2) by (auto simp: logged_def)

lemma header_clear_ok: "disk_header d st = 0 \<Longrightarrow> header_ok d st \<and> replays d st = []"
  by (simp add: header_ok_def replays_def)

text \<open>The three stages of a commit, as the disk a crash leaves.\<close>

lemma crash_before:
  assumes t: "tx_ok s" and h: "disk_header (disk s) (log_start s) = 0" and k: "k \<le> nat (lh_n (log_lh s))"
    and d: "d = apply_writes (take k (commit_writes s)) (disk s)"
  shows "header_ok d (log_start s)"
    "bn \<notin> log_area (log_start s) \<Longrightarrow> apply_writes (recovery_writes d (log_start s)) d bn = disk s bn"
proof -
  have "length (log_copies s) = nat (lh_n (log_lh s))" by (simp add: log_copies_def)
  then have dk: "d = apply_writes (take k (log_copies s)) (disk s)" using d k by (simp add: commit_writes_def)
  have sub: "fst ` set (take k (log_copies s)) \<subseteq> log_area (log_start s) - {log_start s}"
    using log_copies_keys [OF t] set_take_subset [of k "log_copies s"] by blast
  have "log_start s \<notin> fst ` set (take k (log_copies s))" using sub by blast
  then have "disk_header d (log_start s) = 0" using h by (simp add: dk disk_header_def apply_writes_other)
  note hc = header_clear_ok [OF this]
  then show "header_ok d (log_start s)" ..
  assume b: "bn \<notin> log_area (log_start s)"
  then have "bn \<noteq> log_start s" "bn \<notin> fst ` set (take k (log_copies s))" using sub by auto
  then show "apply_writes (recovery_writes d (log_start s)) d bn = disk s bn"
    using hc by (simp add: recovery_writes_def dk apply_writes_other)
qed

lemma crash_between:
  assumes t: "tx_ok s" and d: "d = apply_writes (log_copies s @ [(log_start s, commit_head s)] @ take j (home_copies s)) (disk s)"
  shows "header_ok d (log_start s)"
    "bn \<notin> log_area (log_start s) \<Longrightarrow> apply_writes (recovery_writes d (log_start s)) d bn =
       (if bn \<in> logged s then content s bn else disk s bn)"
proof -
  let ?st = "log_start s" and ?n = "nat (lh_n (log_lh s))"
  have n: "0 \<le> lh_n (log_lh s)" "lh_n (log_lh s) \<le> 30" using t by (auto simp: tx_ok_def)
  have hk: "fst ` set (take j (home_copies s)) \<subseteq> logged s"
    using home_copies_keys [of s] set_take_subset [of j "home_copies s"] by blast
  have off: "bn \<notin> fst ` set (take j (home_copies s))" if "bn \<in> log_area ?st" for bn
    using hk logged_off_area [OF t] that by blast
  have dst: "d ?st = commit_head s" using off by (simp add: d apply_writes_other)
  have hd: "disk_header d ?st = lh_n (log_lh s)"
    using n by (simp add: disk_header_def dst commit_head_def head_block_reads)
  have bl: "disk_blk d ?st i = log_blk s i" if "i < ?n" for i
    using n that by (simp add: disk_blk_def dst commit_head_def head_block_reads log_blk_def)
  have cl: "d (log_cell s i) = content s (log_blk s i)" if "i < ?n" for i
  proof -
    have "distinct (map fst (log_copies s))"
      using log_cell_inj [of _ _ s] n(2) by (auto simp: log_copies_def distinct_map comp_def inj_on_def)
    then have "apply_writes (log_copies s) (disk s) (log_cell s i) = content s (log_blk s i)"
      by (rule apply_writes_in) (use that in \<open>auto simp: log_copies_def\<close>)
    moreover have "log_cell s i \<in> log_area ?st" "log_cell s i \<noteq> ?st"
      using logged_facts(1,6) [OF t that] log_cell_start [of i s] by auto
    ultimately show ?thesis using off by (simp add: d apply_writes_other)
  qed
  have rp: "replays d ?st = home_copies s"
    unfolding replays_def home_copies_def hd by (intro map_cong refl) (simp add: bl cl [unfolded log_cell_def])
  show "header_ok d ?st"
    using n bl logged_facts(2) [OF t] by (simp add: header_ok_def hd)
  assume b: "bn \<notin> log_area ?st"
  then have "bn \<noteq> ?st" "bn \<notin> fst ` set (log_copies s)" using log_copies_keys [OF t] by auto
  moreover have "d bn = disk s bn" if "bn \<notin> logged s"
  proof -
    have "bn \<notin> fst ` set (take j (home_copies s))" using that hk by blast
    then show ?thesis using calculation by (simp add: d apply_writes_other)
  qed
  ultimately show "apply_writes (recovery_writes d ?st) d bn = (if bn \<in> logged s then content s bn else disk s bn)"
    by (simp add: recovery_writes_def rp home_copies_val [OF t] apply_writes_other home_copies_keys)
qed

lemma crash_after:
  assumes t: "tx_ok s" and d: "d = apply_writes (commit_writes s) (disk s)"
  shows "header_ok d (log_start s)" "disk_header d (log_start s) = 0"
    "bn \<notin> log_area (log_start s) \<Longrightarrow> d bn = (if bn \<in> logged s then content s bn else disk s bn)"
    "bn \<noteq> log_start s \<Longrightarrow> apply_writes (recovery_writes d (log_start s)) d bn = d bn"
proof -
  let ?st = "log_start s"
  have "d ?st = put32 0 0 (commit_head s)" by (simp add: d commit_writes_def clear_head_put)
  then show h: "disk_header d ?st = 0" by (simp add: disk_header_def)
  note hc = header_clear_ok [OF h]
  then show "header_ok d ?st" ..
  show "apply_writes (recovery_writes d ?st) d bn = d bn" if "bn \<noteq> ?st" using hc that by (simp add: recovery_writes_def)
  assume b: "bn \<notin> log_area ?st"
  then have "bn \<noteq> ?st" "bn \<notin> fst ` set (log_copies s)" using log_copies_keys [OF t] by auto
  then show "d bn = (if bn \<in> logged s then content s bn else disk s bn)"
    by (simp add: d commit_writes_def home_copies_val [OF t] apply_writes_other home_copies_keys)
qed

lemma commit_writes_length: "length (commit_writes s) = 2 * nat (lh_n (log_lh s)) + 2"
  by (simp add: commit_writes_def log_copies_def home_copies_def)

lemma crash_recovers:
  assumes t: "tx_ok s" and h: "disk_header (disk s) (log_start s) = 0"
    and b: "boot_state (apply_writes (take k (commit_writes s)) (disk s)) r"
  shows "\<exists>u. initlog ROOTDEV (log_start s) r = Some u \<and>
    (\<forall>bn. bn \<notin> log_area (log_start s) \<longrightarrow> disk u bn =
       (if k \<le> nat (lh_n (log_lh s)) then disk s bn else if bn \<in> logged s then content s bn else disk s bn))"
proof -
  let ?n = "nat (lh_n (log_lh s))" and ?st = "log_start s"
  let ?d = "apply_writes (take k (commit_writes s)) (disk s)"
  have ho: "header_ok ?d ?st" and v: "bn \<notin> log_area ?st \<Longrightarrow> apply_writes (recovery_writes ?d ?st) ?d bn =
       (if k \<le> ?n then disk s bn else if bn \<in> logged s then content s bn else disk s bn)" for bn
  proof -
    consider "k \<le> ?n" | "?n < k" "k \<le> 2 * ?n + 1" | "2 * ?n + 2 \<le> k" by linarith
    then have "header_ok ?d ?st \<and> (bn \<notin> log_area ?st \<longrightarrow> apply_writes (recovery_writes ?d ?st) ?d bn =
       (if k \<le> ?n then disk s bn else if bn \<in> logged s then content s bn else disk s bn))"
    proof cases
      case 1
      then show ?thesis using crash_before [OF t h 1 refl] by simp
    next
      case 2
      obtain j where j: "k = Suc (?n + j)" "j \<le> ?n" using 2 less_imp_Suc_add [of ?n k] by auto
      have "take k (commit_writes s) = log_copies s @ [(?st, commit_head s)] @ take j (home_copies s)"
        using j by (simp add: commit_writes_def log_copies_def home_copies_def)
      then show ?thesis using crash_between [OF t refl] 2 by simp
    next
      case 3
      then have "take k (commit_writes s) = commit_writes s" by (simp add: commit_writes_length)
      moreover have "?st \<in> log_area ?st" by simp
      ultimately show ?thesis using crash_after [OF t refl] 3 by (cases "bn = ?st") auto
    qed
    then show "header_ok ?d ?st" "bn \<notin> log_area ?st \<Longrightarrow> apply_writes (recovery_writes ?d ?st) ?d bn =
       (if k \<le> ?n then disk s bn else if bn \<in> logged s then content s bn else disk s bn)" by blast+
  qed
  then show ?thesis using initlog_ok [OF b ho] by auto
qed

subsection \<open>The file system's view of a transaction\<close>

definition tx_frame :: "'a klogs_scheme \<Rightarrow> 'a klogs_scheme \<Rightarrow> bool" where
  "tx_frame s t \<longleftrightarrow> mypid t = mypid s \<and>
     (\<exists>bs l ps h kl. t = s\<lparr>bufs := bs, lru := l, procs := ps, log_lh := h, klog := kl\<rparr>)"

lemma tx_frame_cache: "cache_only s t \<Longrightarrow> tx_frame s t"
proof -
  assume "cache_only s t"
  then obtain bs l ps where t: "t = s\<lparr>bufs := bs, lru := l, procs := ps\<rparr>" "mypid t = mypid s"
    by (rule cache_onlyE)
  then have "t = s\<lparr>bufs := bs, lru := l, procs := ps, log_lh := log_lh s, klog := klog s\<rparr>" by simp
  then show ?thesis unfolding tx_frame_def using t(2) by metis
qed

lemma tx_frame_refl [simp]: "tx_frame s s" by (rule tx_frame_cache) simp

lemma tx_frame_trans [trans]: "tx_frame s t \<Longrightarrow> tx_frame t u \<Longrightarrow> tx_frame s u"
proof -
  assume "tx_frame s t" "tx_frame t u"
  then obtain bs l ps h kl bs' l' ps' h' kl' where
    t: "t = s\<lparr>bufs := bs, lru := l, procs := ps, log_lh := h, klog := kl\<rparr>" "mypid t = mypid s"
    and u: "u = t\<lparr>bufs := bs', lru := l', procs := ps', log_lh := h', klog := kl'\<rparr>" "mypid u = mypid t"
    by (auto simp: tx_frame_def)
  have "u = s\<lparr>bufs := bs', lru := l', procs := ps', log_lh := h', klog := kl'\<rparr>" using u(1) by (simp add: t(1))
  then show "tx_frame s u" unfolding tx_frame_def using t(2) u(2) by metis
qed

lemma tx_frame_lh: "tx_frame s (s\<lparr>log_lh := h\<rparr>)"
proof -
  have "s\<lparr>log_lh := h\<rparr> = s\<lparr>bufs := bufs s, lru := lru s, procs := procs s, log_lh := h, klog := klog s\<rparr>"
    by simp
  then show ?thesis unfolding tx_frame_def using mypid_lh by blast
qed

lemma tx_frame_fields:
  assumes "tx_frame s t"
  shows "log_start t = log_start s \<and> log_dev t = log_dev s \<and> disk t = disk s \<and> disk_log t = disk_log s \<and>
    log_outstanding t = log_outstanding s \<and> log_committing t = log_committing s \<and> mypid t = mypid s \<and>
    mem t = mem s \<and> freelist t = freelist s \<and> kend t = kend s \<and> cur t = cur s \<and> more t = more s"
  using assms by (auto simp: tx_frame_def)

lemma logged_cong: "log_lh t = log_lh s \<Longrightarrow> logged t = logged s"
  by (simp add: logged_def log_blk_def [abs_def])

lemma cache_only_lh: "cache_only s t \<Longrightarrow> log_lh t = log_lh s"
  using same_log_fields [OF same_log_cache] by auto

lemma log_inv_cache:
  assumes "log_inv s" "cache_only s t" "bc_ok t"
    and "\<forall>bn. pins t bn - of_bool (held t bn \<noteq> None) = pins s bn - of_bool (held s bn \<noteq> None)"
    and "\<forall>bn. bn \<notin> logged s \<and> held t bn = None \<longrightarrow> content t bn = disk s bn"
  shows "log_inv t \<and> logged t = logged s"
proof -
  have l: "logged t = logged s" by (rule logged_cong [OF cache_only_lh [OF assms(2)]])
  have f: "log_lh t = log_lh s" "log_dev t = log_dev s" "log_start t = log_start s" "disk t = disk s"
    using same_log_fields [OF same_log_cache [OF assms(2)]] assms(2) by auto
  have p: "pins s bn = of_bool (bn \<in> logged s) + of_bool (held s bn \<noteq> None)" for bn
    using assms(1) by (simp add: log_inv_def)
  have "pins t bn = of_bool (bn \<in> logged s) + of_bool (held t bn \<noteq> None)" for bn
    using spec [OF assms(4), of bn] p [of bn] by linarith
  then show ?thesis using assms(1,3,5) unfolding log_inv_def f l by simp
qed

lemma bread_inv:
  assumes inv: "log_inv s" and h: "held s bn = None" and r: "npinned s < NBUF"
  shows "\<exists>i t. bread ROOTDEV bn s = Some (i, t) \<and> buf_of t bn i \<and> b_data (bufs t ! i) = content s bn \<and>
    log_inv t \<and> tx_frame s t \<and> content t = content s \<and> held t = (held s)(bn := Some (mypid s)) \<and>
    logged t = logged s \<and> log_lh t = log_lh s \<and>
    (\<forall>x j. buf_of s x j \<and> held s x \<noteq> None \<longrightarrow> buf_of t x j)"
proof -
  have ok: "bc_ok s" using inv by (simp add: log_inv_def)
  have "readable s bn" using h r by (simp add: readable_def)
  then obtain i t where t: "bread ROOTDEV bn s = Some (i, t)" "buf_of t bn i" "b_data (bufs t ! i) = content s bn"
    "grabs bn s t" using bread_readable [OF ok, of bn] by auto
  have c: "cache_only s t" and g: "bc_ok t" "content t = content s" "pins t = (pins s)(bn := pins s bn + 1)"
    "held t = (held s)(bn := Some (mypid s))" and b: "\<forall>x j. buf_of s x j \<and> 0 < pins s x \<longrightarrow> buf_of t x j"
    using t(4) by (auto simp: grabs_def)
  have "log_inv t \<and> logged t = logged s"
    by (rule log_inv_cache [OF inv c g(1)]) (use g h inv in \<open>auto simp: log_inv_def split: if_splits\<close>)
  moreover have "0 < pins s x" if "held s x \<noteq> None" for x using held_pinned [OF ok] that by auto
  ultimately show ?thesis
    using t g b tx_frame_cache [OF c] cache_only_lh [OF c] by blast
qed

lemma bdata_inv:
  fixes f :: "block \<Rightarrow> block"
  assumes inv: "log_inv s" and b: "buf_of s bn i" and h: "held s bn = Some (mypid s)"
  defines "t \<equiv> bdata i f s"
  shows "log_inv t \<and> tx_frame s t \<and> content t = (content s)(bn := f (content s bn)) \<and> held t = held s \<and>
    logged t = logged s \<and> log_lh t = log_lh s \<and> buf_of t = buf_of s \<and> npinned t = npinned s"
proof -
  have ok: "bc_ok s" using inv by (simp add: log_inv_def)
  have d: "bc_ok t" "content t = (content s)(bn := f (content s bn))" "pins t = pins s" "held t = held s"
    "buf_of t = buf_of s"
    using bdata_spec [OF ok b held_pinned [OF ok h], of f] by (auto simp: t_def)
  have c: "cache_only s t" by (simp add: t_def bdata_def)
  have "log_inv t \<and> logged t = logged s"
    by (rule log_inv_cache [OF inv c d(1)]) (use d h inv in \<open>auto simp: log_inv_def\<close>)
  then show ?thesis using d tx_frame_cache [OF c] cache_only_lh [OF c] npinned_cong [OF d(3)] by blast
qed

lemma brelse_inv:
  assumes inv: "log_inv s" and b: "buf_of s bn i" and h: "held s bn = Some (mypid s)"
    and c: "bn \<in> logged s \<or> content s bn = disk s bn"
  shows "\<exists>t. brelse i s = Some t \<and> log_inv t \<and> tx_frame s t \<and> content t = content s \<and>
    held t = (held s)(bn := None) \<and> logged t = logged s \<and> log_lh t = log_lh s \<and> buf_of t = buf_of s"
proof -
  have ok: "bc_ok s" using inv by (simp add: log_inv_def)
  have p: "pins s bn = of_bool (bn \<in> logged s) + 1" using inv h by (simp add: log_inv_def)
  obtain t where t: "brelse i s = Some t" "cache_only s t" "bc_ok t" "content t = content s"
    "pins t = (pins s)(bn := pins s bn - 1)" "held t = (held s)(bn := None)" "buf_of t = buf_of s"
    using brelse_ok [OF ok b h] c p by (auto split: if_splits)
  have "log_inv t \<and> logged t = logged s"
    by (rule log_inv_cache [OF inv t(2,3)])
      (use t h c inv in \<open>auto simp: log_inv_def split: if_splits\<close>)
  then show ?thesis using t tx_frame_cache [OF t(2)] cache_only_lh [OF t(2)] by blast
qed

lemma log_index_spec:
  assumes "length (lh_block (log_lh s)) = 30" "0 \<le> lh_n (log_lh s)" "lh_n (log_lh s) \<le> 30"
  shows "if bn \<in> logged s then log_index bn (log_lh s) < nat (lh_n (log_lh s)) \<and> log_blk s (log_index bn (log_lh s)) = bn
    else log_index bn (log_lh s) = nat (lh_n (log_lh s))"
proof (cases "List.find (\<lambda>i. lh_block (log_lh s) ! i = bn) [0..<nat (lh_n (log_lh s))]")
  case None
  then have "bn \<notin> logged s" by (auto simp: find_none logged_def log_blk_def)
  then show ?thesis using None by (simp add: log_index_def)
next
  case (Some i)
  then have "i < nat (lh_n (log_lh s)) \<and> lh_block (log_lh s) ! i = bn" by (auto dest: find_Some_in)
  then show ?thesis using Some by (auto simp: log_index_def logged_def log_blk_def)
qed

lemma log_write_inv:
  assumes inv: "log_inv s" and b: "buf_of s bn i" and h: "held s bn = Some (mypid s)"
    and o: "1 \<le> log_outstanding s" and a: "bn \<notin> log_area (log_start s)" and n: "lh_n (log_lh s) < 30"
  shows "\<exists>t. log_write i s = Some t \<and> log_inv t \<and> tx_frame s t \<and> content t = content s \<and> held t = held s \<and>
    logged t = insert bn (logged s) \<and> buf_of t = buf_of s \<and>
    lh_n (log_lh t) = (if bn \<in> logged s then lh_n (log_lh s) else lh_n (log_lh s) + 1)"
proof -
  let ?n = "nat (lh_n (log_lh s))" and ?i = "log_index bn (log_lh s)"
  have ok: "bc_ok s" and l: "length (lh_block (log_lh s)) = 30" and n0: "0 \<le> lh_n (log_lh s)"
    and ds: "distinct (take ?n (lh_block (log_lh s)))" and ar: "logged s \<inter> log_area (log_start s) = {}"
    and pn: "\<And>x. pins s x = of_bool (x \<in> logged s) + of_bool (held s x \<noteq> None)"
    and cl: "\<And>x. x \<notin> logged s \<and> held s x = None \<Longrightarrow> content s x = disk s x"
    and dh: "disk_header (disk s) (log_start s) = 0" and dev: "log_dev s = ROOTDEV"
    using inv by (auto simp: log_inv_def)
  note ix = log_index_spec [OF l n0, of bn]
  have bf: "bfind s bn = Some i" using b by (simp add: buf_of_def)
  have bn: "b_blockno (bufs s ! i) = bn" using bf bfind_iff [OF ok] by blast
  have c: "\<not> lh_n (log_lh s) \<ge> LOGBLOCKS" "\<not> log_outstanding s < 1" using n o by simp_all
  show ?thesis
  proof (cases "bn \<in> logged s")
    case True
    then have i: "?i < ?n" "lh_block (log_lh s) ! ?i = bn" using ix n by (auto simp: log_blk_def)
    have e: "(lh_block (log_lh s))[?i := bn] = lh_block (log_lh s)" by (metis i(2) list_update_id)
    have ne: "int ?i \<noteq> lh_n (log_lh s)" using i(1) by linarith
    have "log_write i s = Some s"
      using c ne by (simp add: log_write_def Let_def bn e)
    then show ?thesis using True inv by (auto simp: insert_absorb)
  next
    case False
    then have i: "?i = ?n" using ix n by simp
    define u where "u = s\<lparr>log_lh := (log_lh s)\<lparr>lh_block := (lh_block (log_lh s))[?n := bn]\<rparr>\<rparr>"
    have u: "bc_ok u" "content u = content s" "pins u = pins s" "held u = held s" "buf_of u = buf_of s"
      using set_lh_view [OF ok] unfolding u_def by auto
    have "buf_of u bn i" using b u(5) by simp
    then have bu: "bfind u bn = Some i" by (simp add: buf_of_def)
    define v where "v = bpin i u"
    have v: "bc_ok v" "content v = content s" "pins v = (pins s)(bn := pins s bn + 1)" "held v = held s"
      "buf_of v = buf_of s" using bpin_spec [OF u(1) bu] u by (auto simp: v_def)
    define t where "t = set_lh_n (lh_n (log_lh s) + 1) v"
    have t: "bc_ok t" "content t = content s" "pins t = (pins s)(bn := pins s bn + 1)" "held t = held s"
      "buf_of t = buf_of s"
      using set_lh_view [OF v(1)] v unfolding t_def set_lh_n_def by auto
    have lv: "log_lh v = log_lh u" by (simp add: v_def bpin_def bset_def)
    have e: "log_write i s = Some t"
      using c i n0 lv by (simp add: log_write_def Let_def bn t_def v_def u_def)
    have fr: "tx_frame s t"
      unfolding t_def set_lh_n_def v_def u_def bpin_def
      by (rule tx_frame_trans [OF tx_frame_trans [OF tx_frame_lh tx_frame_cache [OF cache_only_bset]] tx_frame_lh])
    have lt: "lh_n (log_lh t) = lh_n (log_lh s) + 1" "lh_block (log_lh t) = (lh_block (log_lh s))[?n := bn]"
      by (simp_all add: t_def lv u_def)
    have nn: "nat (lh_n (log_lh s) + 1) = Suc ?n" using n0 by simp
    have tk: "take (Suc ?n) ((lh_block (log_lh s))[?n := bn]) = take ?n (lh_block (log_lh s)) @ [bn]"
      using n l by (simp add: take_Suc_conv_app_nth)
    have lg: "logged t = insert bn (logged s)"
      using logged_set [of t] logged_set [OF l] n l by (simp add: lt nn tk)
    have "log_inv t"
      unfolding log_inv_def lt nn tk lg
      using t dev l n n0 ds ar a pn cl dh tx_frame_fields [OF fr] h False logged_set [OF l]
      by (auto simp: t(2,3,4) split: if_splits)
    then show ?thesis using e fr t lg lt False by auto
  qed
qed

lemma npinned_held: "log_inv s \<Longrightarrow> npinned s = card (logged s \<union> {bn. held s bn \<noteq> None})"
  by (simp add: npinned_def pinned_set)

lemma finite_held: "log_inv s \<Longrightarrow> finite {bn. held s bn \<noteq> None}"
proof -
  assume inv: "log_inv s"
  then have "finite {bn. 0 < pins s bn}" by (intro finite_pinned) (simp add: log_inv_def)
  then show ?thesis by (simp add: pinned_set [OF inv])
qed

text \<open>The idiom of fs.c: read a block, change it, log it, release it.\<close>

lemma logged_update:
  assumes inv: "log_inv s" and h: "held s bn = None" and o: "1 \<le> log_outstanding s"
    and a: "bn \<notin> log_area (log_start s)" and n: "lh_n (log_lh s) < 30" and r: "npinned s < NBUF"
  shows "\<exists>i t u v w. bread ROOTDEV bn s = Some (i, t) \<and> b_data (bufs t ! i) = content s bn \<and> tx_frame s t \<and>
    bdata i f t = u \<and> log_write i u = Some v \<and> brelse i v = Some w \<and> log_inv w \<and> tx_frame s w \<and>
    content w = (content s)(bn := f (content s bn)) \<and> held w = held s \<and> logged w = insert bn (logged s) \<and>
    lh_n (log_lh w) = (if bn \<in> logged s then lh_n (log_lh s) else lh_n (log_lh s) + 1)"
proof -
  obtain i t where t: "bread ROOTDEV bn s = Some (i, t)" "buf_of t bn i" "b_data (bufs t ! i) = content s bn"
    "log_inv t" "tx_frame s t" "content t = content s" "held t = (held s)(bn := Some (mypid s))"
    "logged t = logged s" "log_lh t = log_lh s"
    using bread_inv [OF inv h r] by blast
  have ft: "mypid t = mypid s" "log_outstanding t = log_outstanding s" "log_start t = log_start s"
    using tx_frame_fields [OF t(5)] by auto
  have ht: "held t bn = Some (mypid t)" using t(7) ft by simp
  define u where "u = bdata i f t"
  have u: "log_inv u" "tx_frame t u" "content u = (content s)(bn := f (content s bn))" "held u = held t"
    "logged u = logged s" "log_lh u = log_lh s" "buf_of u = buf_of t"
    using bdata_inv [OF t(4,2) ht, of f] t by (auto simp: u_def)
  have fu: "mypid u = mypid s" "log_outstanding u = log_outstanding s" "log_start u = log_start s"
    using tx_frame_fields [OF u(2)] ft by auto
  have bu: "buf_of u bn i" and hu: "held u bn = Some (mypid u)" using u t ht fu ft by simp_all
  obtain v where v: "log_write i u = Some v" "log_inv v" "tx_frame u v" "content v = content u" "held v = held u"
    "logged v = insert bn (logged s)" "buf_of v = buf_of u"
    "lh_n (log_lh v) = (if bn \<in> logged s then lh_n (log_lh s) else lh_n (log_lh s) + 1)"
    using log_write_inv [OF u(1) bu hu] o a n fu u(5,6) by auto
  have bv: "buf_of v bn i" "held v bn = Some (mypid v)"
    using v bu hu tx_frame_fields [OF v(3)] by simp_all
  obtain w where w: "brelse i v = Some w" "log_inv w" "tx_frame v w" "content w = content v"
    "held w = (held v)(bn := None)" "logged w = logged v" "log_lh w = log_lh v"
    using brelse_inv [OF v(2) bv] v(6) by blast
  have "tx_frame s w" using t(5) u(2) v(3) w(3) by (blast intro: tx_frame_trans)
  moreover have "held w = held s" using w(5) v(5) u(4) t(7) h by (auto simp: fun_eq_iff)
  moreover have "content w = (content s)(bn := f (content s bn))" using w(4) v(4) u(3) by simp
  ultimately show ?thesis using t(1,3,5) u_def v(1,6,8) w(1,2,6,7) by auto
qed

subsection \<open>Boot, begin and end\<close>

lemma log_inv_clean:
  assumes "bc_ok u" "\<forall>bn. pins u bn = 0" "log_dev u = ROOTDEV" "length (lh_block (log_lh u)) = 30"
    "lh_n (log_lh u) = 0" "disk_header (disk u) (log_start u) = 0"
  shows "log_inv u \<and> nothing_held u \<and> logged u = {} \<and> content u = disk u"
proof -
  have h: "held u bn = None" for bn using held_pinned [OF assms(1), of bn] assms(2) by (cases "held u bn") auto
  have c: "content u bn = disk u bn" for bn using unpinned_clean [OF assms(1)] assms(2) by simp
  have l: "logged u = {}" using assms(5) by (simp add: logged_def)
  show ?thesis using assms h c l by (simp add: log_inv_def nothing_held_def fun_eq_iff)
qed

lemma initlog_inv:
  assumes "boot_state d r" "header_ok d st"
  shows "\<exists>u. initlog ROOTDEV st r = Some u \<and> disk u = apply_writes (recovery_writes d st) d \<and>
    disk_log u = disk_log r @ recovery_writes d st \<and> log_inv u \<and> nothing_held u \<and> logged u = {} \<and>
    content u = disk u \<and> log_start u = st \<and> log_outstanding u = log_outstanding r \<and>
    log_committing u = log_committing r \<and> lh_n (log_lh u) = 0"
proof -
  define q where "q = r\<lparr>log_start := st, log_dev := ROOTDEV\<rparr>"
  have "bc_ok q \<and> pins q = pins r"
    using bc_ok_cong [of r q] assms(1) by (auto simp: q_def boot_state_def bc_ok_def running_def)
  then have q: "boot_state d q" using assms(1) by (simp add: boot_state_def q_def)
  have qf: "log_start q = st" "log_dev q = ROOTDEV" "disk_log q = disk_log r" "disk q = d"
    "log_outstanding q = log_outstanding r" "log_committing q = log_committing r"
    using q by (auto simp: q_def boot_state_def)
  obtain u where u: "recover_from_log q = Some u" "wrote q (recovery_writes d st) u" "pins u = pins q" "lh_n (log_lh u) = 0"
    using recover_ok [OF q] assms(2) qf by auto
  have uf: "bc_ok u" "log_dev u = ROOTDEV" "log_start u = st" "length (lh_block (log_lh u)) = 30"
    "disk u = apply_writes (recovery_writes d st) d" "disk_log u = disk_log r @ recovery_writes d st"
    using u(2) qf q by (auto simp: wrote_def boot_state_def)
  have "disk_header (disk u) (log_start u) = 0"
    by (simp add: uf recovery_writes_def disk_header_def)
  then have "log_inv u \<and> nothing_held u \<and> logged u = {} \<and> content u = disk u"
    using log_inv_clean [OF uf(1) _ uf(2,4) u(4)] u(3) q by (simp add: boot_state_def)
  then show ?thesis
    using u uf qf by (auto simp: initlog_def q_def [symmetric] wrote_def)
qed

lemma commit_inv:
  assumes inv: "log_inv s" and h: "nothing_held s" and n: "0 < lh_n (log_lh s)" "lh_n (log_lh s) < 30"
  shows "\<exists>u. commit s = Some u \<and> disk_log u = disk_log s @ commit_writes s \<and>
    disk u = apply_writes (commit_writes s) (disk s) \<and> log_inv u \<and> nothing_held u \<and> logged u = {} \<and>
    (\<forall>bn. bn \<notin> log_area (log_start s) \<longrightarrow> disk u bn = content s bn \<and> content u bn = content s bn) \<and>
    log_start u = log_start s \<and> log_outstanding u = log_outstanding s \<and> log_committing u = log_committing s \<and>
    cur u = cur s \<and> mypid u = mypid s \<and> lh_n (log_lh u) = 0"
proof -
  have t: "tx_ok s" using log_inv_tx_ok [OF inv h n] .
  obtain u where u: "commit s = Some u" "wrote s (commit_writes s) u" "lh_n (log_lh u) = 0"
    "\<forall>bn. bn \<notin> log_area (log_start s) \<longrightarrow> content u bn = content s bn" "held u = held s"
    "pins u = (\<lambda>bn. if bn \<in> logged s then pins s bn - 1 else pins s bn)"
    using commit_ok [OF t] by blast
  have uf: "bc_ok u" "log_dev u = ROOTDEV" "log_start u = log_start s" "length (lh_block (log_lh u)) = 30"
    "disk u = apply_writes (commit_writes s) (disk s)" "disk_log u = disk_log s @ commit_writes s"
    using u(2) t by (auto simp: wrote_def tx_ok_def)
  have p: "pins u bn = 0" for bn
    using inv h by (simp add: u(6) log_inv_def nothing_held_def)
  have hd: "disk_header (disk u) (log_start u) = 0" using crash_after(2) [OF t uf(5)] by (simp add: uf(3))
  have r: "log_inv u \<and> nothing_held u \<and> logged u = {} \<and> content u = disk u"
    using log_inv_clean [OF uf(1) _ uf(2,4) u(3) hd] p by blast
  have "disk u bn = content s bn" if "bn \<notin> log_area (log_start s)" for bn
    using u(4) r that by simp
  then show ?thesis using u uf r by (auto simp: wrote_def)
qed

lemma begin_op_inv:
  assumes "log_inv s" "\<not> log_committing s" "lh_n (log_lh s) + (log_outstanding s + 1) * 10 \<le> 30"
  shows "begin_op s = Some (s\<lparr>log_outstanding := log_outstanding s + 1\<rparr>)"
  using assms by (simp add: begin_op_def MAXOPBLOCKS_def)

end
