(* ===== verification/Fs.thy ===== *)
theory Fs
  imports LogOps
begin

section \<open>The file system (kernel/fs.c, kernel/fs.h)\<close>

text \<open>
  Blocks, inodes, directories and path names over the log.  On-disk structures are
  fields at byte offsets of a block, an in-memory inode is an entry of \<open>itable\<close> and a
  pointer to it is its index.  C strings are the bytes before their NUL; \<open>char\<close> arrays
  of fixed size are \<open>nat \<Rightarrow> u8\<close>.  \<open>readi\<close> and \<open>writei\<close> copy through a parameter, the
  source's \<open>either_copyout\<close> and \<open>either_copyin\<close>: it gets a cursor (the \<open>dst\<close> or \<open>src\<close>
  pointer), moves it, and returns the call's result; for the local buffers of the
  directory code the cursor is the buffer itself.  A panic or a lock that is never
  released is \<open>None\<close>.
\<close>

record superblock =
  sb_magic :: u32
  sb_size :: u32
  sb_nblocks :: u32
  sb_ninodes :: u32
  sb_nlog :: u32
  sb_logstart :: u32
  sb_inodestart :: u32
  sb_bmapstart :: u32

record inode =
  i_dev :: u32
  i_inum :: u32
  i_ref :: int
  i_lock :: sleeplock
  i_valid :: bool
  i_type :: u16
  i_major :: u16
  i_minor :: u16
  i_nlink :: u16
  i_size :: u32
  i_addrs :: "u32 list"

record dinode =
  d_type :: u16
  d_major :: u16
  d_minor :: u16
  d_nlink :: u16
  d_size :: u32
  d_addrs :: "u32 list"

record stat =
  st_dev :: u32
  st_ino :: u32
  st_type :: u16
  st_nlink :: u16
  st_size :: u64

definition ROOTINO :: u32 where "ROOTINO = 1"
definition FSMAGIC :: u32 where "FSMAGIC = 0x10203040"
definition NDIRECT :: nat where "NDIRECT = 12"
definition NINDIRECT :: nat where "NINDIRECT = BSIZE div 4"
definition MAXFILE :: nat where "MAXFILE = NDIRECT + NINDIRECT"
definition IPB :: nat where "IPB = BSIZE div 64"
definition BPB :: nat where "BPB = BSIZE * 8"
definition DIRSIZ :: nat where "DIRSIZ = 14"
definition NINODE :: nat where "NINODE = 50"
definition T_DIR :: u16 where "T_DIR = 1"
definition T_FILE :: u16 where "T_FILE = 2"
definition T_DEVICE :: u16 where "T_DEVICE = 3"

record kinodes = klogs +
  sb :: superblock
  itable :: "inode list"

definition IBLOCK :: "nat \<Rightarrow> superblock \<Rightarrow> u32" where
  "IBLOCK i b = of_nat (i div IPB) + sb_inodestart b"

definition BBLOCK :: "nat \<Rightarrow> superblock \<Rightarrow> u32" where
  "BBLOCK b sbk = of_nat (b div BPB) + sb_bmapstart sbk"

abbreviation iget_nth :: "nat \<Rightarrow> 'a kinodes_scheme \<Rightarrow> inode" where
  "iget_nth ip s \<equiv> itable s ! ip"

definition iset :: "nat \<Rightarrow> (inode \<Rightarrow> inode) \<Rightarrow> 'a kinodes_scheme \<Rightarrow> 'a kinodes_scheme" where
  "iset ip f s = s\<lparr>itable := (itable s)[ip := f (itable s ! ip)]\<rparr>"

subsection \<open>Super block and block allocation\<close>

definition readsb :: "u32 \<Rightarrow> 'a kinodes_scheme \<Rightarrow> 'a kinodes_scheme option" where
  "readsb dev s = do {
     (bp, s) \<leftarrow> bread dev 1 s;
     let d = b_data (bufs s ! bp);
     let s = s\<lparr>sb := \<lparr>sb_magic = get32 d 0, sb_size = get32 d 4, sb_nblocks = get32 d 8,
       sb_ninodes = get32 d 12, sb_nlog = get32 d 16, sb_logstart = get32 d 20,
       sb_inodestart = get32 d 24, sb_bmapstart = get32 d 28\<rparr>\<rparr>;
     brelse bp s
   }"

definition bzero :: "u32 \<Rightarrow> u32 \<Rightarrow> 'a kinodes_scheme \<Rightarrow> 'a kinodes_scheme option" where
  "bzero dev bno s = do {
     (bp, s) \<leftarrow> bread dev bno s;
     let s = bdata bp (\<lambda>_ _. 0) s;
     s \<leftarrow> log_write bp s;
     brelse bp s
   }"

definition bm_free :: "block \<Rightarrow> nat \<Rightarrow> bool" where
  "bm_free d bi \<longleftrightarrow> d (bi div 8) AND push_bit (bi mod 8) 1 = 0"

definition bm_mark :: "nat \<Rightarrow> block \<Rightarrow> block" where
  "bm_mark bi d = d(bi div 8 := d (bi div 8) OR push_bit (bi mod 8) 1)"

definition bm_clear :: "nat \<Rightarrow> block \<Rightarrow> block" where
  "bm_clear bi d = d(bi div 8 := d (bi div 8) AND NOT (push_bit (bi mod 8) 1))"

fun balloc_loop :: "u32 \<Rightarrow> nat list \<Rightarrow> 'a kinodes_scheme \<Rightarrow> (u32 \<times> 'a kinodes_scheme) option" where
  "balloc_loop dev [] s = Some (0, kprint NO_BLOCKS s)"
| "balloc_loop dev (b # bs) s = do {
     (bp, s) \<leftarrow> bread dev (BBLOCK b (sb s)) s;
     case List.find (bm_free (b_data (bufs s ! bp)))
         (takeWhile (\<lambda>bi. b + bi < unat (sb_size (sb s))) [0..<BPB]) of
       Some bi \<Rightarrow> do {
         let s = bdata bp (bm_mark bi) s;
         s \<leftarrow> log_write bp s;
         s \<leftarrow> brelse bp s;
         s \<leftarrow> bzero dev (of_nat (b + bi)) s;
         Some (of_nat (b + bi), s)
       }
     | None \<Rightarrow> do {
         s \<leftarrow> brelse bp s;
         balloc_loop dev bs s
       }
   }"

definition balloc :: "u32 \<Rightarrow> 'a kinodes_scheme \<Rightarrow> (u32 \<times> 'a kinodes_scheme) option" where
  "balloc dev s = balloc_loop dev
     (map (\<lambda>k. k * BPB) [0..<(unat (sb_size (sb s)) + BPB - 1) div BPB]) s"

definition bfree :: "u32 \<Rightarrow> u32 \<Rightarrow> 'a kinodes_scheme \<Rightarrow> 'a kinodes_scheme option" where
  "bfree dev b s = do {
     (bp, s) \<leftarrow> bread dev (BBLOCK (unat b) (sb s)) s;
     let bi = unat b mod BPB;
     if bm_free (b_data (bufs s ! bp)) bi then None
     else do {
       let s = bdata bp (bm_clear bi) s;
       s \<leftarrow> log_write bp s;
       brelse bp s
     }
   }"

subsection \<open>Inodes\<close>

definition dinode_off :: "nat \<Rightarrow> nat" where "dinode_off inum = 64 * (inum mod IPB)"

definition dinode_get :: "nat \<Rightarrow> block \<Rightarrow> dinode" where
  "dinode_get o1 d = \<lparr>d_type = get16 d o1, d_major = get16 d (o1 + 2), d_minor = get16 d (o1 + 4),
     d_nlink = get16 d (o1 + 6), d_size = get32 d (o1 + 8),
     d_addrs = map (\<lambda>i. get32 d (o1 + 12 + 4 * i)) [0..<NDIRECT + 1]\<rparr>"

fun put_addrs :: "nat \<Rightarrow> u32 list \<Rightarrow> block \<Rightarrow> block" where
  "put_addrs o1 [] d = d"
| "put_addrs o1 (a # as) d = put_addrs (o1 + 4) as (put32 o1 a d)"

definition dinode_put :: "nat \<Rightarrow> dinode \<Rightarrow> block \<Rightarrow> block" where
  "dinode_put o1 di d = put_addrs (o1 + 12) (d_addrs di) (put32 (o1 + 8) (d_size di)
     (put16 (o1 + 6) (d_nlink di) (put16 (o1 + 4) (d_minor di) (put16 (o1 + 2) (d_major di)
       (put16 o1 (d_type di) d)))))"

definition zero_dinode :: dinode where
  "zero_dinode = \<lparr>d_type = 0, d_major = 0, d_minor = 0, d_nlink = 0, d_size = 0,
     d_addrs = replicate (NDIRECT + 1) 0\<rparr>"

definition iinit :: "'a kinodes_scheme \<Rightarrow> 'a kinodes_scheme" where
  "iinit s = fold (\<lambda>i. iset i (\<lambda>p. p\<lparr>i_lock := initsleeplock\<rparr>)) [0..<NINODE] s"

definition iget :: "u32 \<Rightarrow> u32 \<Rightarrow> 'a kinodes_scheme \<Rightarrow> (nat \<times> 'a kinodes_scheme) option" where
  "iget dev inum s =
     (case List.find (\<lambda>i. i_ref (itable s ! i) > 0 \<and> i_dev (itable s ! i) = dev \<and> i_inum (itable s ! i) = inum)
         [0..<NINODE] of
        Some ip \<Rightarrow> Some (ip, iset ip (\<lambda>p. p\<lparr>i_ref := i_ref p + 1\<rparr>) s)
      | None \<Rightarrow>
        (case List.find (\<lambda>i. i_ref (itable s ! i) = 0) [0..<NINODE] of
           None \<Rightarrow> None
         | Some ip \<Rightarrow> Some (ip, iset ip (\<lambda>p. p\<lparr>i_dev := dev, i_inum := inum, i_ref := 1, i_valid := False\<rparr>) s)))"

fun ialloc_loop :: "u32 \<Rightarrow> u16 \<Rightarrow> nat list \<Rightarrow> 'a kinodes_scheme \<Rightarrow> (nat option \<times> 'a kinodes_scheme) option" where
  "ialloc_loop dev type [] s = Some (None, kprint NO_INODES s)"
| "ialloc_loop dev type (inum # inums) s = do {
     (bp, s) \<leftarrow> bread dev (IBLOCK inum (sb s)) s;
     if d_type (dinode_get (dinode_off inum) (b_data (bufs s ! bp))) = 0 then do {
       let s = bdata bp (dinode_put (dinode_off inum) (zero_dinode\<lparr>d_type := type\<rparr>)) s;
       s \<leftarrow> log_write bp s;
       s \<leftarrow> brelse bp s;
       (ip, s) \<leftarrow> iget dev (of_nat inum) s;
       Some (Some ip, s)
     }
     else do {
       s \<leftarrow> brelse bp s;
       ialloc_loop dev type inums s
     }
   }"

definition ialloc :: "u32 \<Rightarrow> u16 \<Rightarrow> 'a kinodes_scheme \<Rightarrow> (nat option \<times> 'a kinodes_scheme) option" where
  "ialloc dev type s = ialloc_loop dev type [1..<unat (sb_ninodes (sb s))] s"

definition inode_dinode :: "inode \<Rightarrow> dinode" where
  "inode_dinode p = \<lparr>d_type = i_type p, d_major = i_major p, d_minor = i_minor p, d_nlink = i_nlink p,
     d_size = i_size p, d_addrs = i_addrs p\<rparr>"

definition iupdate :: "nat \<Rightarrow> 'a kinodes_scheme \<Rightarrow> 'a kinodes_scheme option" where
  "iupdate ip s = do {
     let p = itable s ! ip;
     (bp, s) \<leftarrow> bread (i_dev p) (IBLOCK (unat (i_inum p)) (sb s)) s;
     let s = bdata bp (dinode_put (dinode_off (unat (i_inum p))) (inode_dinode p)) s;
     s \<leftarrow> log_write bp s;
     brelse bp s
   }"

definition idup :: "nat \<Rightarrow> 'a kinodes_scheme \<Rightarrow> 'a kinodes_scheme" where
  "idup ip s = iset ip (\<lambda>p. p\<lparr>i_ref := i_ref p + 1\<rparr>) s"

definition ilock :: "nat \<Rightarrow> 'a kinodes_scheme \<Rightarrow> 'a kinodes_scheme option" where
  "ilock ip s =
     (if i_ref (itable s ! ip) < 1 then None
      else do {
        lk \<leftarrow> acquiresleep (i_lock (itable s ! ip)) s;
        let s = iset ip (\<lambda>p. p\<lparr>i_lock := lk\<rparr>) s;
        let p = itable s ! ip;
        if \<not> i_valid p then do {
          (bp, s) \<leftarrow> bread (i_dev p) (IBLOCK (unat (i_inum p)) (sb s)) s;
          let di = dinode_get (dinode_off (unat (i_inum p))) (b_data (bufs s ! bp));
          let s = iset ip (\<lambda>p. p\<lparr>i_type := d_type di, i_major := d_major di, i_minor := d_minor di,
            i_nlink := d_nlink di, i_size := d_size di, i_addrs := d_addrs di\<rparr>) s;
          s \<leftarrow> brelse bp s;
          let s = iset ip (\<lambda>p. p\<lparr>i_valid := True\<rparr>) s;
          if i_type (itable s ! ip) = 0 then None else Some s
        }
        else Some s
      })"

definition iunlock :: "nat \<Rightarrow> 'a kinodes_scheme \<Rightarrow> 'a kinodes_scheme option" where
  "iunlock ip s = do {
     h \<leftarrow> holdingsleep (i_lock (itable s ! ip)) s;
     if \<not> h \<or> i_ref (itable s ! ip) < 1 then None
     else case releasesleep (ChInode ip) (i_lock (itable s ! ip)) s of (lk, s) \<Rightarrow>
       Some (iset ip (\<lambda>p. p\<lparr>i_lock := lk\<rparr>) s)
   }"

subsection \<open>The blocks of an inode\<close>

definition bmap :: "nat \<Rightarrow> u32 \<Rightarrow> 'a kinodes_scheme \<Rightarrow> (u32 \<times> 'a kinodes_scheme) option" where
  "bmap ip bn s =
     (let p = itable s ! ip; n = unat bn in
      if n < NDIRECT then
        (let addr = i_addrs p ! n in
         if addr = 0 then do {
           (addr, s) \<leftarrow> balloc (i_dev p) s;
           if addr = 0 then Some (0, s)
           else Some (addr, iset ip (\<lambda>p. p\<lparr>i_addrs := (i_addrs p)[n := addr]\<rparr>) s)
         }
         else Some (addr, s))
      else let n = n - NDIRECT in
        if n < NINDIRECT then do {
          (addr, s) \<leftarrow> (let addr = i_addrs p ! NDIRECT in
            if addr = 0 then do {
              (addr, s) \<leftarrow> balloc (i_dev p) s;
              if addr = 0 then Some (0, s)
              else Some (addr, iset ip (\<lambda>p. p\<lparr>i_addrs := (i_addrs p)[NDIRECT := addr]\<rparr>) s)
            }
            else Some (addr, s));
          if addr = 0 then Some (0, s)
          else do {
            (bp, s) \<leftarrow> bread (i_dev p) addr s;
            let addr = get32 (b_data (bufs s ! bp)) (4 * n);
            if addr = 0 then do {
              (addr, s) \<leftarrow> balloc (i_dev p) s;
              s \<leftarrow> (if addr \<noteq> 0 then log_write bp (bdata bp (put32 (4 * n) addr) s) else Some s);
              s \<leftarrow> brelse bp s;
              Some (addr, s)
            }
            else do {
              s \<leftarrow> brelse bp s;
              Some (addr, s)
            }
          }
        }
        else None)"

fun itrunc_direct :: "nat \<Rightarrow> nat list \<Rightarrow> 'a kinodes_scheme \<Rightarrow> 'a kinodes_scheme option" where
  "itrunc_direct ip [] s = Some s"
| "itrunc_direct ip (i # is) s = do {
     let p = itable s ! ip;
     s \<leftarrow> (if i_addrs p ! i \<noteq> 0 then do {
       s \<leftarrow> bfree (i_dev p) (i_addrs p ! i) s;
       Some (iset ip (\<lambda>p. p\<lparr>i_addrs := (i_addrs p)[i := 0]\<rparr>) s)
     } else Some s);
     itrunc_direct ip is s
   }"

fun itrunc_indirect :: "u32 \<Rightarrow> nat \<Rightarrow> nat list \<Rightarrow> 'a kinodes_scheme \<Rightarrow> 'a kinodes_scheme option" where
  "itrunc_indirect dev bp [] s = Some s"
| "itrunc_indirect dev bp (j # js) s = do {
     let a = get32 (b_data (bufs s ! bp)) (4 * j);
     s \<leftarrow> (if a \<noteq> 0 then bfree dev a s else Some s);
     itrunc_indirect dev bp js s
   }"

definition itrunc :: "nat \<Rightarrow> 'a kinodes_scheme \<Rightarrow> 'a kinodes_scheme option" where
  "itrunc ip s = do {
     s \<leftarrow> itrunc_direct ip [0..<NDIRECT] s;
     let p = itable s ! ip;
     s \<leftarrow> (if i_addrs p ! NDIRECT \<noteq> 0 then do {
       (bp, s) \<leftarrow> bread (i_dev p) (i_addrs p ! NDIRECT) s;
       s \<leftarrow> itrunc_indirect (i_dev p) bp [0..<NINDIRECT] s;
       s \<leftarrow> brelse bp s;
       s \<leftarrow> bfree (i_dev p) (i_addrs p ! NDIRECT) s;
       Some (iset ip (\<lambda>p. p\<lparr>i_addrs := (i_addrs p)[NDIRECT := 0]\<rparr>) s)
     } else Some s);
     iupdate ip (iset ip (\<lambda>p. p\<lparr>i_size := 0\<rparr>) s)
   }"

definition iput :: "nat \<Rightarrow> 'a kinodes_scheme \<Rightarrow> 'a kinodes_scheme option" where
  "iput ip s = do {
     let p = itable s ! ip;
     s \<leftarrow> (if i_ref p = 1 \<and> i_valid p \<and> i_nlink p = 0 then do {
       lk \<leftarrow> acquiresleep (i_lock p) s;
       let s = iset ip (\<lambda>p. p\<lparr>i_lock := lk\<rparr>) s;
       s \<leftarrow> itrunc ip s;
       s \<leftarrow> iupdate ip (iset ip (\<lambda>p. p\<lparr>i_type := 0\<rparr>) s);
       let s = iset ip (\<lambda>p. p\<lparr>i_valid := False\<rparr>) s;
       (case releasesleep (ChInode ip) (i_lock (itable s ! ip)) s of (lk, s) \<Rightarrow>
         Some (iset ip (\<lambda>p. p\<lparr>i_lock := lk\<rparr>) s))
     } else Some s);
     Some (iset ip (\<lambda>p. p\<lparr>i_ref := i_ref p - 1\<rparr>) s)
   }"

definition iunlockput :: "nat \<Rightarrow> 'a kinodes_scheme \<Rightarrow> 'a kinodes_scheme option" where
  "iunlockput ip s = do { s \<leftarrow> iunlock ip s; iput ip s }"

fun ireclaim_loop :: "u32 \<Rightarrow> nat list \<Rightarrow> 'a kinodes_scheme \<Rightarrow> 'a kinodes_scheme option" where
  "ireclaim_loop dev [] s = Some s"
| "ireclaim_loop dev (inum # inums) s = do {
     (bp, s) \<leftarrow> bread dev (IBLOCK inum (sb s)) s;
     let di = dinode_get (dinode_off inum) (b_data (bufs s ! bp));
     (ip, s) \<leftarrow> (if d_type di \<noteq> 0 \<and> d_nlink di = 0 then do {
         (ip, s) \<leftarrow> iget dev (of_nat inum) (kprint (ORPHAN inum) s);
         Some (Some ip, s)
       } else Some (None, s));
     s \<leftarrow> brelse bp s;
     s \<leftarrow> (case ip of None \<Rightarrow> Some s
       | Some ip \<Rightarrow> do {
           s \<leftarrow> begin_op s;
           s \<leftarrow> ilock ip s;
           s \<leftarrow> iunlock ip s;
           s \<leftarrow> iput ip s;
           end_op s
         });
     ireclaim_loop dev inums s
   }"

definition ireclaim :: "u32 \<Rightarrow> 'a kinodes_scheme \<Rightarrow> 'a kinodes_scheme option" where
  "ireclaim dev s = ireclaim_loop dev [1..<unat (sb_ninodes (sb s))] s"

definition fsinit :: "u32 \<Rightarrow> 'a kinodes_scheme \<Rightarrow> 'a kinodes_scheme option" where
  "fsinit dev s = do {
     s \<leftarrow> readsb dev s;
     if sb_magic (sb s) \<noteq> FSMAGIC then None
     else do {
       s \<leftarrow> initlog dev (sb_logstart (sb s)) s;
       ireclaim dev s
     }
   }"

definition stati :: "nat \<Rightarrow> 'a kinodes_scheme \<Rightarrow> stat" where
  "stati ip s = (let p = itable s ! ip in
     \<lparr>st_dev = i_dev p, st_ino = i_inum p, st_type = i_type p, st_nlink = i_nlink p, st_size = ucast (i_size p)\<rparr>)"

subsection \<open>Reading and writing\<close>

definition blk_bytes :: "block \<Rightarrow> nat \<Rightarrow> nat \<Rightarrow> u8 list" where
  "blk_bytes d o1 m = map (\<lambda>i. d (o1 + i)) [0..<m]"

definition blk_store :: "nat \<Rightarrow> u8 list \<Rightarrow> block \<Rightarrow> block" where
  "blk_store o1 bs d = (\<lambda>i. if o1 \<le> i \<and> i < o1 + length bs then bs ! (i - o1) else d i)"

partial_function (option) readi_loop ::
    "('d \<Rightarrow> u8 list \<Rightarrow> 'a kinodes_scheme \<Rightarrow> (int \<times> 'd \<times> 'a kinodes_scheme) option) \<Rightarrow>
     nat \<Rightarrow> 'd \<Rightarrow> u32 \<Rightarrow> u32 \<Rightarrow> u32 \<Rightarrow> 'a kinodes_scheme \<Rightarrow> (u32 \<times> 'd \<times> 'a kinodes_scheme) option" where
  "readi_loop copy ip dst off tot n s =
     (if \<not> tot < n then Some (tot, dst, s)
      else do {
        (addr, s) \<leftarrow> bmap ip (off div 1024) s;
        if addr = 0 then Some (tot, dst, s)
        else do {
          (bp, s) \<leftarrow> bread (i_dev (itable s ! ip)) addr s;
          let m = min (n - tot) (1024 - off mod 1024);
          (r, dst, s) \<leftarrow> copy dst (blk_bytes (b_data (bufs s ! bp)) (unat (off mod 1024)) (unat m)) s;
          s \<leftarrow> brelse bp s;
          if r = -1 then Some (-1, dst, s)
          else readi_loop copy ip dst (off + m) (tot + m) n s
        }
      })"

definition readi ::
    "('d \<Rightarrow> u8 list \<Rightarrow> 'a kinodes_scheme \<Rightarrow> (int \<times> 'd \<times> 'a kinodes_scheme) option) \<Rightarrow>
     nat \<Rightarrow> 'd \<Rightarrow> u32 \<Rightarrow> u32 \<Rightarrow> 'a kinodes_scheme \<Rightarrow> (int \<times> 'd \<times> 'a kinodes_scheme) option" where
  "readi copy ip dst off n s =
     (let size = i_size (itable s ! ip) in
      if off > size \<or> off + n < off then Some (0, dst, s)
      else let n = (if off + n > size then size - off else n) in do {
        (tot, dst, s) \<leftarrow> readi_loop copy ip dst off 0 n s;
        Some (sint tot, dst, s)
      })"

partial_function (option) writei_loop ::
    "('d \<Rightarrow> nat \<Rightarrow> 'a kinodes_scheme \<Rightarrow> (int \<times> u8 list \<times> 'd \<times> 'a kinodes_scheme) option) \<Rightarrow>
     nat \<Rightarrow> 'd \<Rightarrow> u32 \<Rightarrow> u32 \<Rightarrow> u32 \<Rightarrow> 'a kinodes_scheme \<Rightarrow> (u32 \<times> u32 \<times> 'd \<times> 'a kinodes_scheme) option" where
  "writei_loop copy ip src off tot n s =
     (if \<not> tot < n then Some (tot, off, src, s)
      else do {
        (addr, s) \<leftarrow> bmap ip (off div 1024) s;
        if addr = 0 then Some (tot, off, src, s)
        else do {
          (bp, s) \<leftarrow> bread (i_dev (itable s ! ip)) addr s;
          let m = min (n - tot) (1024 - off mod 1024);
          (r, bs, src, s) \<leftarrow> copy src (unat m) s;
          let s = bdata bp (blk_store (unat (off mod 1024)) bs) s;
          if r = -1 then do {
            s \<leftarrow> brelse bp s;
            Some (tot, off, src, s)
          }
          else do {
            s \<leftarrow> log_write bp s;
            s \<leftarrow> brelse bp s;
            writei_loop copy ip src (off + m) (tot + m) n s
          }
        }
      })"

definition writei ::
    "('d \<Rightarrow> nat \<Rightarrow> 'a kinodes_scheme \<Rightarrow> (int \<times> u8 list \<times> 'd \<times> 'a kinodes_scheme) option) \<Rightarrow>
     nat \<Rightarrow> 'd \<Rightarrow> u32 \<Rightarrow> u32 \<Rightarrow> 'a kinodes_scheme \<Rightarrow> (int \<times> 'd \<times> 'a kinodes_scheme) option" where
  "writei copy ip src off n s =
     (if off > i_size (itable s ! ip) \<or> off + n < off then Some (-1, src, s)
      else if unat (off + n) > MAXFILE * BSIZE then Some (-1, src, s)
      else do {
        (tot, off, src, s) \<leftarrow> writei_loop copy ip src off 0 n s;
        let s = (if off > i_size (itable s ! ip) then iset ip (\<lambda>p. p\<lparr>i_size := off\<rparr>) s else s);
        s \<leftarrow> iupdate ip s;
        Some (sint tot, src, s)
      })"

text \<open>The kernel's own local buffers as destination and source of a copy.\<close>

definition to_local :: "u8 list \<Rightarrow> u8 list \<Rightarrow> 'a kinodes_scheme \<Rightarrow> (int \<times> u8 list \<times> 'a kinodes_scheme) option" where
  "to_local buf bs s = Some (0, buf @ bs, s)"

definition from_local :: "u8 list \<Rightarrow> nat \<Rightarrow> 'a kinodes_scheme \<Rightarrow> (int \<times> u8 list \<times> u8 list \<times> 'a kinodes_scheme) option" where
  "from_local buf m s = Some (0, take m buf, drop m buf, s)"

subsection \<open>Directories\<close>

definition namecmp :: "bytes \<Rightarrow> bytes \<Rightarrow> int" where
  "namecmp a b = strncmp a b DIRSIZ"

definition de_bytes :: "u8 list \<Rightarrow> bytes" where
  "de_bytes l = (\<lambda>i. l ! i)"

definition de_inum :: "u8 list \<Rightarrow> u16" where
  "de_inum l = get16 (de_bytes l) 0"

definition de_name :: "u8 list \<Rightarrow> bytes" where
  "de_name l = (\<lambda>i. de_bytes l (2 + i))"

partial_function (option) dirlookup_loop ::
    "nat \<Rightarrow> bytes \<Rightarrow> u32 \<Rightarrow> 'a kinodes_scheme \<Rightarrow> ((nat \<times> u32) option \<times> 'a kinodes_scheme) option" where
  "dirlookup_loop dp name off s =
     (if \<not> off < i_size (itable s ! dp) then Some (None, s)
      else do {
        (r, de, s) \<leftarrow> readi to_local dp [] off 16 s;
        if r \<noteq> 16 then None
        else if de_inum de = 0 then dirlookup_loop dp name (off + 16) s
        else if namecmp name (de_name de) = 0 then do {
          (ip, s) \<leftarrow> iget (i_dev (itable s ! dp)) (ucast (de_inum de)) s;
          Some (Some (ip, off), s)
        }
        else dirlookup_loop dp name (off + 16) s
      })"

text \<open>\<open>dirlookup\<close> returns the inode and the entry's offset, which callers may ignore.\<close>

definition dirlookup :: "nat \<Rightarrow> bytes \<Rightarrow> 'a kinodes_scheme \<Rightarrow> ((nat \<times> u32) option \<times> 'a kinodes_scheme) option" where
  "dirlookup dp name s =
     (if i_type (itable s ! dp) \<noteq> T_DIR then None else dirlookup_loop dp name 0 s)"

partial_function (option) dirlink_loop ::
    "nat \<Rightarrow> u32 \<Rightarrow> 'a kinodes_scheme \<Rightarrow> (u32 \<times> 'a kinodes_scheme) option" where
  "dirlink_loop dp off s =
     (if \<not> off < i_size (itable s ! dp) then Some (off, s)
      else do {
        (r, de, s) \<leftarrow> readi to_local dp [] off 16 s;
        if r \<noteq> 16 then None
        else if de_inum de = 0 then Some (off, s)
        else dirlink_loop dp (off + 16) s
      })"

definition make_dirent :: "bytes \<Rightarrow> u32 \<Rightarrow> u8 list" where
  "make_dirent name inum = map (put16 0 (ucast inum) (\<lambda>i. strncpy (\<lambda>_. 0) name DIRSIZ (i - 2))) [0..<16]"

definition dirlink :: "nat \<Rightarrow> bytes \<Rightarrow> u32 \<Rightarrow> 'a kinodes_scheme \<Rightarrow> (int \<times> 'a kinodes_scheme) option" where
  "dirlink dp name inum s = do {
     (found, s) \<leftarrow> dirlookup dp name s;
     case found of
       Some (ip, _) \<Rightarrow> do { s \<leftarrow> iput ip s; Some (-1, s) }
     | None \<Rightarrow> do {
         (off, s) \<leftarrow> dirlink_loop dp 0 s;
         (r, _, s) \<leftarrow> writei from_local dp (make_dirent name inum) off 16 s;
         if r \<noteq> 16 then Some (-1, s) else Some (0, s)
       }
   }"

subsection \<open>Paths\<close>

definition SLASH :: u8 where "SLASH = 47"

definition skipelem :: "u8 list \<Rightarrow> bytes \<Rightarrow> (u8 list \<times> bytes) option" where
  "skipelem path name =
     (let s = dropWhile (\<lambda>c. c = SLASH) path in
      if s = [] then None
      else let elem = takeWhile (\<lambda>c. c \<noteq> SLASH) s;
               rest = dropWhile (\<lambda>c. c \<noteq> SLASH) s;
               name = (if length elem \<ge> DIRSIZ then blk_store 0 (take DIRSIZ elem) name
                       else (blk_store 0 elem name)(length elem := 0))
        in Some (dropWhile (\<lambda>c. c = SLASH) rest, name))"

partial_function (option) namex_loop ::
    "bool \<Rightarrow> nat \<Rightarrow> u8 list \<Rightarrow> bytes \<Rightarrow> 'a kinodes_scheme \<Rightarrow> (nat option \<times> bytes \<times> 'a kinodes_scheme) option" where
  "namex_loop parent ip path name s =
     (case skipelem path name of
        None \<Rightarrow>
          if parent then do { s \<leftarrow> iput ip s; Some (None, name, s) }
          else Some (Some ip, name, s)
      | Some (path, name) \<Rightarrow> do {
          s \<leftarrow> ilock ip s;
          if i_type (itable s ! ip) \<noteq> T_DIR then do {
            s \<leftarrow> iunlockput ip s;
            Some (None, name, s)
          }
          else if parent \<and> path = [] then do {
            s \<leftarrow> iunlock ip s;
            Some (Some ip, name, s)
          }
          else do {
            (found, s) \<leftarrow> dirlookup ip name s;
            case found of
              None \<Rightarrow> do { s \<leftarrow> iunlockput ip s; Some (None, name, s) }
            | Some (nxt, _) \<Rightarrow> do {
                s \<leftarrow> iunlockput ip s;
                namex_loop parent nxt path name s
              }
          }
        })"

definition namex :: "u8 list \<Rightarrow> bool \<Rightarrow> bytes \<Rightarrow> 'a kinodes_scheme \<Rightarrow> (nat option \<times> bytes \<times> 'a kinodes_scheme) option" where
  "namex path parent name s = do {
     (ip, s) \<leftarrow> (if path \<noteq> [] \<and> hd path = SLASH then iget ROOTDEV ROOTINO s
       else do {
         p \<leftarrow> myproc s;
         ip \<leftarrow> p_cwd (pget p s);
         Some (ip, idup ip s)
       });
     namex_loop parent ip path name s
   }"

definition namei :: "u8 list \<Rightarrow> 'a kinodes_scheme \<Rightarrow> (nat option \<times> 'a kinodes_scheme) option" where
  "namei path s = do {
     (ip, _, s) \<leftarrow> namex path False (\<lambda>_. 0) s;
     Some (ip, s)
   }"

definition nameiparent :: "u8 list \<Rightarrow> bytes \<Rightarrow> 'a kinodes_scheme \<Rightarrow> (nat option \<times> bytes \<times> 'a kinodes_scheme) option" where
  "nameiparent path name s = namex path True name s"

end
