(* ===== verification/LogRun.thy ===== *)
theory LogRun
  imports LogOps
begin

section \<open>The log: what it promises\<close>

text \<open>
  The claims about log.c, and a booted machine on which their hypotheses hold.
\<close>

lemma log_inv_cong:
  assumes "log_inv s" "bufs t = bufs s" "lru t = lru s" "disk t = disk s" "running t"
    "log_lh t = log_lh s" "log_dev t = log_dev s" "log_start t = log_start s"
  shows "log_inv t \<and> content t = content s \<and> held t = held s \<and> logged t = logged s \<and> buf_of t = buf_of s"
proof -
  have ok: "bc_ok s" using assms(1) by (simp add: log_inv_def)
  have v: "bc_ok t \<and> content t = content s \<and> pins t = pins s \<and> held t = held s \<and> buf_of t = buf_of s"
    using bc_ok_cong [OF ok assms(2,4,5)] ok assms(3) by (simp add: bc_ok_def)
  then show ?thesis using assms(1,4,6,7,8) logged_cong [OF assms(6)] by (simp add: log_inv_def)
qed

lemma log_inv_counts:
  assumes "log_inv s" "t = s\<lparr>log_outstanding := k, log_committing := c\<rparr>"
  shows "log_inv t \<and> content t = content s \<and> held t = held s \<and> logged t = logged s \<and> buf_of t = buf_of s"
  using log_inv_cong [OF assms(1), of t] assms by (auto simp: log_inv_def bc_ok_def running_def)

lemma log_inv_wakeup:
  assumes "log_inv s"
  shows "log_inv (wakeup ch s) \<and> content (wakeup ch s) = content s \<and> held (wakeup ch s) = held s \<and>
    logged (wakeup ch s) = logged s \<and> disk (wakeup ch s) = disk s \<and> log_start (wakeup ch s) = log_start s \<and>
    log_outstanding (wakeup ch s) = log_outstanding s \<and> log_committing (wakeup ch s) = log_committing s \<and>
    disk_log (wakeup ch s) = disk_log s \<and> log_lh (wakeup ch s) = log_lh s"
proof -
  have r: "running s" using assms by (auto simp: log_inv_def bc_ok_def)
  obtain ps where ps: "wakeup ch s = s\<lparr>procs := ps\<rparr>" using wakeup_rest [of ch s] by auto
  then show ?thesis
    using log_inv_cong [OF assms, of "wakeup ch s"] wakeup_running [OF r, of ch] by simp
qed

text \<open>
  The end of the last open transaction: the cache's contents are on the disk, the log
  is empty and the next transaction can begin.
\<close>

lemma end_op_inv:
  assumes inv: "log_inv s" and h: "nothing_held s" and o: "log_outstanding s = 1" "\<not> log_committing s"
    and n: "lh_n (log_lh s) < 30"
  shows "\<exists>u. end_op s = Some u \<and> log_inv u \<and> nothing_held u \<and> logged u = {} \<and> log_outstanding u = 0 \<and>
    \<not> log_committing u \<and> log_start u = log_start s \<and> lh_n (log_lh u) = 0 \<and>
    (\<forall>bn. bn \<notin> log_area (log_start s) \<longrightarrow> disk u bn = content s bn \<and> content u bn = content s bn)"
proof -
  define a where "a = s\<lparr>log_outstanding := 0, log_committing := True\<rparr>"
  have a: "log_inv a" "content a = content s" "held a = held s" "logged a = logged s"
    using log_inv_counts [OF inv a_def] by auto
  have fa: "log_lh a = log_lh s" "log_start a = log_start s" "disk a = disk s" "log_outstanding a = 0"
    by (simp_all add: a_def)
  obtain b where b: "commit a = Some b" "log_inv b" "nothing_held b" "logged b = {}"
    "\<forall>bn. bn \<notin> log_area (log_start s) \<longrightarrow> disk b bn = content s bn \<and> content b bn = content s bn"
    "log_start b = log_start s" "log_outstanding b = 0" "lh_n (log_lh b) = 0"
  proof (cases "0 < lh_n (log_lh s)")
    case True
    then have "nothing_held a" "0 < lh_n (log_lh a)" "lh_n (log_lh a) < 30"
      using h n a(3) fa by (simp_all add: nothing_held_def)
    from commit_inv [OF a(1) this] that a(2) fa show thesis by auto
  next
    case False
    then have z: "lh_n (log_lh s) = 0" "logged a = {}" using inv fa by (auto simp: log_inv_def logged_def)
    then have "content s bn = disk s bn" for bn
      using inv h a(4) by (auto simp: log_inv_def nothing_held_def)
    then show thesis using that [of a] a z fa h by (simp add: commit_def nothing_held_def)
  qed
  define c where "c = b\<lparr>log_outstanding := log_outstanding b, log_committing := False\<rparr>"
  have c: "log_inv c" "content c = content b" "held c = held b" "logged c = logged b"
    using log_inv_counts [OF b(2) c_def] by auto
  have fc: "disk c = disk b" "log_start c = log_start b" "log_outstanding c = 0" "\<not> log_committing c"
    "log_lh c = log_lh b" using b(7) by (simp_all add: c_def)
  have c': "c = b\<lparr>log_committing := False\<rparr>" by (simp add: c_def)
  have e: "end_op s = Some (wakeup ChLog c)"
    using o b(1) by (simp add: end_op_def Let_def a_def c')
  show ?thesis
    using e log_inv_wakeup [OF c(1), of ChLog] c fc b by (auto simp: nothing_held_def)
qed

subsection \<open>A machine on which a transaction runs\<close>

definition demo_proc :: proc where
  "demo_proc = \<lparr>p_state = RUNNING, p_chan = None, p_killed = False, p_xstate = 0, p_pid = 1,
     p_parent = None, p_kstack = 0, p_sz = 0, p_pagetable = 0, p_trapframe = 0,
     p_context = \<lparr>ctx_ra = 0, ctx_sp = 0, ctx_s = []\<rparr>, p_ofile = replicate 16 None, p_cwd = None,
     p_name = (\<lambda>_. 0), text_start = 0, text_end = 0, data_start = 0, data_end = 0, heap_start = 0,
     stack_top = 0, next_fifo_seq = 1, swap_file = None, swap_slots_used = 0, swap_bitmap = replicate 16 0,
     pages = replicate 512 \<lparr>pi_va = 0, pi_state = UNMAPPED, is_dirty = False, pi_seq = 0, swap_slot = -1\<rparr>,
     num_pages = 0, exec_inode = None, exec_offset = 0,
     segments = replicate 8 \<lparr>va_start = 0, va_end = 0, file_off = 0, filesz = 0, seg_flags = 0\<rparr>,
     num_segments = 0\<rparr>"

definition zero_buf :: buf where
  "zero_buf = \<lparr>b_valid = False, b_dev = 0, b_blockno = 0, b_lock = initsleeplock, b_refcnt = 0, b_data = (\<lambda>_. 0)\<rparr>"

definition demo_log :: "(u32 \<Rightarrow> block) \<Rightarrow> 'a \<Rightarrow> 'a klogs_scheme" where
  "demo_log d e = \<lparr>mem = (\<lambda>_. 0), freelist = 0, kend = 1, procs = replicate NPROC demo_proc, cur = Some 0,
     nextpid = 2, initproc = Some 0, klog = [], trampoline_pa = 0, forkret_pc = 0,
     disk = d, disk_log = [], bufs = replicate NBUF zero_buf, lru = [],
     log_start = 0, log_outstanding = 0, log_committing = False, log_dev = 0,
     log_lh = \<lparr>lh_n = 0, lh_block = replicate 30 0\<rparr>, \<dots> = e\<rparr>"

text \<open>\<open>binit\<close> puts every buffer on the LRU list, the last one first.\<close>

lemma binit_lru: "lru (binit s) = rev [0..<NBUF]"
proof -
  have "lru (fold (\<lambda>b s. (bset b f s)\<lparr>lru := b # lru s\<rparr>) xs s) = rev xs @ lru s" for f xs and s :: "'a kbuf_scheme"
    by (induction xs arbitrary: s) simp_all
  then show ?thesis by (simp add: binit_def)
qed

lemma binit_free:
  assumes "length (bufs s) = NBUF" "\<forall>i<NBUF. bufs s ! i = zero_buf" "running s"
  shows "bc_ok (binit s) \<and> (\<forall>bn. pins (binit s) bn = 0)"
proof -
  let ?f = "\<lambda>x. x\<lparr>b_lock := initsleeplock\<rparr>"
  have z: "?f zero_buf = zero_buf" by (simp add: zero_buf_def)
  have inv: "length (bufs (fold (\<lambda>b s. (bset b ?f s)\<lparr>lru := b # lru s\<rparr>) xs s)) = NBUF \<and>
     (\<forall>i<NBUF. bufs (fold (\<lambda>b s. (bset b ?f s)\<lparr>lru := b # lru s\<rparr>) xs s) ! i = zero_buf) \<and>
     running (fold (\<lambda>b s. (bset b ?f s)\<lparr>lru := b # lru s\<rparr>) xs s)"
    if "length (bufs s) = NBUF" "\<forall>i<NBUF. bufs s ! i = zero_buf" "running s" for xs and s :: "'a kbuf_scheme"
    using that
  proof (induction xs arbitrary: s)
    case (Cons b xs)
    let ?s = "(bset b ?f s)\<lparr>lru := b # lru s\<rparr>"
    have "\<forall>i<NBUF. bufs ?s ! i = zero_buf"
      using Cons.prems z by (cases "b < NBUF") (auto simp: bset_def nth_list_update)
    then show ?case using Cons.IH [of ?s] Cons.prems by (simp add: bset_def running_def)
  qed simp
  have b: "length (bufs (binit s)) = NBUF" "\<forall>i<NBUF. bufs (binit s) ! i = zero_buf" "running (binit s)"
    using inv [of "s\<lparr>lru := []\<rparr>" "[0..<NBUF]"] assms by (simp_all add: binit_def running_def)
  have "bc_ok (binit s)"
    using b by (auto simp: bc_ok_def binit_lru zero_buf_def buf_ok_def ROOTDEV_def initsleeplock_def)
  moreover have "bfind (binit s) bn = None" for bn
    using b by (auto simp: bfind_def find_none binit_lru zero_buf_def ROOTDEV_def)
  ultimately show ?thesis by (simp add: pins_def bslot_def)
qed

lemma demo_boot: "boot_state d (binit (demo_log d e))"
proof -
  have "running (demo_log d e)" by (simp add: demo_log_def running_def)
  moreover have "length (bufs (demo_log d e)) = NBUF" "\<forall>i<NBUF. bufs (demo_log d e) ! i = zero_buf"
    by (simp_all add: demo_log_def)
  moreover have "disk (fold (\<lambda>b s. (bset b f s)\<lparr>lru := b # lru s\<rparr>) xs s) = disk s \<and>
    log_lh (fold (\<lambda>b s. (bset b f s)\<lparr>lru := b # lru s\<rparr>) xs s) = log_lh s" for f xs and s :: "'a klogs_scheme"
    by (induction xs arbitrary: s) (simp_all add: bset_def)
  then have "disk (binit (demo_log d e)) = d \<and> length (lh_block (log_lh (binit (demo_log d e)))) = 30"
    by (simp add: binit_def demo_log_def)
  ultimately show ?thesis using binit_free [of "demo_log d e"] by (simp add: boot_state_def)
qed

text \<open>After boot, a transaction that rewrites the \<open>m\<close> blocks from 100 on with the byte 7.\<close>

definition writer :: "(u32 \<Rightarrow> block) \<Rightarrow> nat \<Rightarrow> 'a klogs_scheme \<Rightarrow> bool" where
  "writer d m s \<longleftrightarrow> log_inv s \<and> nothing_held s \<and> log_start s = 2 \<and> log_outstanding s = 1 \<and>
     \<not> log_committing s \<and> lh_n (log_lh s) = int m \<and> logged s = (\<lambda>i. of_nat (100 + i)) ` {..<m} \<and>
     (\<forall>i<m. content s (of_nat (100 + i)) = (\<lambda>_. 7)) \<and> (\<forall>bn. bn \<notin> logged s \<longrightarrow> bn \<noteq> 2 \<longrightarrow> content s bn = d bn)"

lemma u32_100_inj: "i < 1000 \<Longrightarrow> j < 1000 \<Longrightarrow> (of_nat (100 + i) :: u32) = of_nat (100 + j) \<longleftrightarrow> i = j"
  using of_nat_u32_inj [of "100 + i" "100 + j"] by simp

lemma not_log_area: "i < 1000 \<Longrightarrow> (of_nat (100 + i) :: u32) \<notin> log_area 2"
proof
  assume i: "i < 1000" and "(of_nat (100 + i) :: u32) \<in> log_area 2"
  then obtain j where "j \<le> 30" "(of_nat (100 + i) :: u32) = of_nat (2 + j)" by (auto simp: log_area_def)
  then show False using of_nat_u32_inj [of "100 + i" "2 + j"] i by simp
qed

lemma writer_exists: "disk_header d 2 = 0 \<Longrightarrow> m \<le> 30 \<Longrightarrow> \<exists>s :: 'a klogs_scheme. writer d m s"
proof (induction m)
  case 0
  obtain e :: 'a where True by simp
  obtain u where u: "initlog ROOTDEV 2 (binit (demo_log d e)) = Some u" "log_inv u" "nothing_held u" "logged u = {}"
    "log_start u = 2" "lh_n (log_lh u) = 0" "content u = disk u"
    "disk u = apply_writes (recovery_writes d 2) d"
    using initlog_inv [OF demo_boot conjunct1 [OF header_clear_ok [OF 0(1)]], of e] by blast
  have "writer d 0 (u\<lparr>log_outstanding := 1, log_committing := False\<rparr>)"
    using log_inv_counts [OF u(2) refl, where k = 1 and c = False] u conjunct2 [OF header_clear_ok [OF 0(1)]]
    by (simp add: writer_def nothing_held_def recovery_writes_def)
  then show ?case ..
next
  case (Suc m)
  then obtain s :: "'a klogs_scheme" where s: "writer d m s" by auto
  then have inv: "log_inv s" "nothing_held s" "log_start s = 2" "log_outstanding s = 1" "\<not> log_committing s"
    "lh_n (log_lh s) = int m" and lg: "logged s = (\<lambda>i. of_nat (100 + i)) ` {..<m}"
    and ct: "\<forall>i<m. content s (of_nat (100 + i)) = (\<lambda>_. 7)" by (auto simp: writer_def)
  let ?b = "of_nat (100 + m) :: u32"
  have "?b \<notin> log_area (log_start s)" using not_log_area [of m] Suc.prems inv(3) by simp
  moreover have nl: "?b \<notin> logged s" using u32_100_inj [of m] Suc.prems unfolding lg by auto
  moreover have "npinned s < NBUF" using npinned_logged [OF inv(1,2)] inv(6) Suc.prems by (simp add: NBUF_def)
  moreover have "held s ?b = None" using inv(2) by (simp add: nothing_held_def)
  ultimately obtain w where w: "log_inv w" "tx_frame s w" "content w = (content s)(?b := (\<lambda>_. 7))" "held w = held s"
    "logged w = insert ?b (logged s)" "lh_n (log_lh w) = lh_n (log_lh s) + 1"
    using logged_update [OF inv(1), of ?b "\<lambda>_ _. 7"] inv(4,6) Suc.prems by auto
  have "content w (of_nat (100 + i)) = (\<lambda>_. 7)" if "i < Suc m" for i
    using that ct w(3) u32_100_inj [of i m] Suc.prems by (cases "i = m") auto
  moreover have "logged w = (\<lambda>i. of_nat (100 + i)) ` {..<Suc m}" using w(5) lg by (simp add: lessThan_Suc)
  moreover have "content w bn = d bn" if "bn \<notin> logged w" "bn \<noteq> 2" for bn
    using s that by (simp add: writer_def w(3,5))
  moreover have "log_start w = 2" "log_outstanding w = 1" "\<not> log_committing w" "lh_n (log_lh w) = int (Suc m)"
    "nothing_held w"
    using inv tx_frame_fields [OF w(2)] w(4,6) by (simp_all add: nothing_held_def)
  ultimately have "writer d (Suc m) w"
    using w(1) unfolding writer_def by blast
  then show ?case ..
qed

lemma zero_header: "disk_header (\<lambda>_ _. 0) st = 0"
  by (simp add: disk_header_def get32_def)

subsection \<open>A log as large as the cache\<close>

lemma all_pinned_no_room:
  assumes inv: "log_inv s" and n: "lh_n (log_lh s) = 30"
  shows "\<not> room s"
proof
  have ok: "bc_ok s" using inv by (simp add: log_inv_def)
  have p: "0 < pins s bn" if "bn \<in> logged s" for bn using inv that by (simp add: log_inv_def)
  have f: "bfind s bn = Some (the (bfind s bn)) \<and> 0 < b_refcnt (bufs s ! the (bfind s bn))" if "bn \<in> logged s" for bn
    using p [OF that] by (cases "bfind s bn") (auto simp: pins_def bslot_def)
  let ?f = "\<lambda>bn. the (bfind s bn)"
  have k: "?f bn < NBUF \<and> b_blockno (bufs s ! ?f bn) = bn" if "bn \<in> logged s" for bn
    using f [OF that] bfind_iff [OF ok] by blast
  have "inj_on ?f (logged s)" by (rule inj_onI) (metis k)
  then have "card (?f ` logged s) = NBUF"
    using card_logged [OF inv] n by (simp add: card_image NBUF_def)
  moreover have "?f ` logged s \<subseteq> {..<NBUF}" using k by auto
  ultimately have e: "?f ` logged s = {..<NBUF}" by (intro card_subset_eq) auto
  assume "room s"
  then obtain i where "i \<in> ?f ` logged s" and z: "b_refcnt (bufs s ! i) = 0"
    unfolding e by (auto simp: room_def)
  then obtain bn where "bn \<in> logged s" "i = ?f bn" by blast
  then show False using f [of bn] z by simp
qed

lemma bget_no_room:
  assumes ok: "bc_ok s" and r: "\<not> room s" and p: "pins s bn = 0"
  shows "bread ROOTDEV bn s = None"
proof -
  have "bfind s bn = None"
    using p r bfind_less [OF ok] by (cases "bfind s bn") (auto simp: pins_def bslot_def room_def)
  moreover have "List.find (\<lambda>i. b_refcnt (bufs s ! i) = 0) (rev (lru s)) = None"
    using r ok unfolding find_none by (auto simp: room_def bc_ok_def)
  ultimately have "bget ROOTDEV bn s = None" by (simp add: bget_def bfind_def [symmetric])
  then show ?thesis by (simp add: bread_def)
qed

subsection \<open>Interrupted commits and recoveries\<close>

lemma crash_header_ok:
  assumes t: "tx_ok s" and h: "disk_header (disk s) (log_start s) = 0"
  shows "header_ok (apply_writes (take k (commit_writes s)) (disk s)) (log_start s)"
proof -
  let ?n = "nat (lh_n (log_lh s))"
  consider "k \<le> ?n" | "?n < k" "k \<le> 2 * ?n + 1" | "2 * ?n + 2 \<le> k" by linarith
  then show ?thesis
  proof cases
    case 1 then show ?thesis using crash_before(1) [OF t h _ refl] by simp
  next
    case 2
    obtain j where "k = Suc (?n + j)" "j \<le> ?n" using 2 less_imp_Suc_add [of ?n k] by auto
    then have "take k (commit_writes s) = log_copies s @ [(log_start s, commit_head s)] @ take j (home_copies s)"
      by (simp add: commit_writes_def log_copies_def home_copies_def)
    then show ?thesis using crash_between(1) [OF t refl] by simp
  next
    case 3
    then have "take k (commit_writes s) = commit_writes s" by (simp add: commit_writes_length)
    then show ?thesis using crash_after(1) [OF t refl] by simp
  qed
qed

lemma restart_writes:
  assumes ho: "header_ok d st"
  defines "rw \<equiv> recovery_writes d st"
  shows "header_ok (apply_writes (take k rw) d) st \<and>
    (\<forall>bn. bn \<noteq> st \<longrightarrow> apply_writes (recovery_writes (apply_writes (take k rw) d) st) (apply_writes (take k rw) d) bn =
       apply_writes rw d bn)"
proof (cases "k \<le> length (replays d st)")
  case True
  define e where "e = apply_writes (take k (replays d st)) d"
  have tk: "take k rw = take k (replays d st)" using True by (simp add: rw_def recovery_writes_def)
  have sub: "fst ` set (take k (replays d st)) \<subseteq> fst ` set (replays d st)" by (intro image_mono set_take_subset)
  have "fst ` set (replays d st) \<inter> log_area st = {}" using ho by (auto simp: replays_def header_ok_def)
  then have area: "e bn = d bn" if "bn \<in> log_area st" for bn
    unfolding e_def using sub that by (intro apply_writes_other) blast
  have n: "nat (disk_header d st) \<le> 30" using ho by (simp add: header_ok_def nat_le_iff)
  have cell: "st + of_nat i + 1 \<in> log_area st" if "i < nat (disk_header d st)" for i
    unfolding log_area_def by (rule image_eqI [of _ _ "Suc i"]) (use that n in auto)
  have hd: "disk_header e st = disk_header d st" "disk_blk e st = disk_blk d st"
    by (simp_all add: disk_header_def disk_blk_def fun_eq_iff area)
  have rp: "replays e st = replays d st"
    unfolding replays_def hd by (intro map_cong refl) (simp add: area [OF cell])
  have "apply_writes (replays d st) e bn = apply_writes (replays d st) d bn" for bn
  proof (cases "bn \<in> fst ` set (replays d st)")
    case True then show ?thesis by (rule apply_writes_any)
  next
    case False
    moreover have "bn \<notin> fst ` set (take k (replays d st))" using False sub by blast
    then have "e bn = d bn" unfolding e_def by (rule apply_writes_other)
    ultimately show ?thesis by (simp add: apply_writes_other)
  qed
  then have "apply_writes (recovery_writes e st) e bn = apply_writes rw d bn" if "bn \<noteq> st" for bn
    using that by (simp add: recovery_writes_def rp rw_def)
  moreover have "header_ok e st" using ho by (simp add: header_ok_def hd)
  ultimately show ?thesis unfolding tk e_def [symmetric] by blast
next
  case False
  then have tk: "take k rw = rw" by (simp add: rw_def recovery_writes_def)
  have "disk_header (apply_writes rw d) st = 0"
    by (simp add: rw_def recovery_writes_def disk_header_def)
  from header_clear_ok [OF this] show ?thesis unfolding tk by (simp add: recovery_writes_def)
qed

subsection \<open>The claims\<close>

text \<open>C1. Commits are atomic.  When the last transaction of fewer than 30 logged blocks ends,
  commit returns with the cache's contents on the disk and the log empty, and if the
  machine crashes after any prefix of the block writes that commit performs, booting from
  that disk and replaying the log gives, outside the log area, either exactly the old disk
  (when the header had not been written) or exactly the new contents.\<close>

theorem commit_crash_atomic:
  assumes "log_inv s" "nothing_held s" "0 < lh_n (log_lh s)" "lh_n (log_lh s) < 30"
  shows "\<exists>t ws. commit s = Some t \<and> disk_log t = disk_log s @ ws \<and> log_inv t \<and> nothing_held t \<and>
    lh_n (log_lh t) = 0 \<and> (\<forall>bn. bn \<notin> log_area (log_start s) \<longrightarrow> disk t bn = content s bn) \<and>
    (\<forall>k r. boot_state (apply_writes (take k ws) (disk s)) r \<longrightarrow>
      (\<exists>u. initlog ROOTDEV (log_start s) r = Some u \<and> log_inv u \<and>
        (\<forall>bn. bn \<notin> log_area (log_start s) \<longrightarrow>
          disk u bn = (if k \<le> nat (lh_n (log_lh s)) then disk s bn else content s bn))))"
proof -
  have t: "tx_ok s" using log_inv_tx_ok [OF assms] .
  have h: "disk_header (disk s) (log_start s) = 0" using assms(1) by (simp add: log_inv_def)
  have clean: "content s bn = disk s bn" if "bn \<notin> logged s" for bn
    using assms(1,2) that by (auto simp: log_inv_def nothing_held_def)
  have "\<exists>u. initlog ROOTDEV (log_start s) r = Some u \<and> log_inv u \<and>
        (\<forall>bn. bn \<notin> log_area (log_start s) \<longrightarrow>
          disk u bn = (if k \<le> nat (lh_n (log_lh s)) then disk s bn else content s bn))"
    if b: "boot_state (apply_writes (take k (commit_writes s)) (disk s)) r" for k r
  proof -
    obtain u where u: "initlog ROOTDEV (log_start s) r = Some u"
      "\<forall>bn. bn \<notin> log_area (log_start s) \<longrightarrow> disk u bn =
       (if k \<le> nat (lh_n (log_lh s)) then disk s bn else if bn \<in> logged s then content s bn else disk s bn)"
      using crash_recovers [OF t h b] by blast
    have "log_inv u" using initlog_inv [OF b crash_header_ok [OF t h]] u(1) by auto
    then show ?thesis using u clean by auto
  qed
  then show ?thesis using commit_inv [OF assms] by blast
qed

theorem commit_crash_atomic_witness:
  "\<exists>(s::klogs) t ws. commit s = Some t \<and> disk_log t = disk_log s @ ws \<and> disk t 100 = (\<lambda>_. 7) \<and>
    (\<forall>k r. boot_state (apply_writes (take k ws) (disk s)) r \<longrightarrow> initlog ROOTDEV 2 r \<noteq> None)"
proof -
  obtain s :: klogs where s: "writer (\<lambda>_ _. 0) 2 s" using writer_exists [OF zero_header, of 2] by auto
  then have inv: "log_inv s" "nothing_held s" "0 < lh_n (log_lh s)" "lh_n (log_lh s) < 30"
    and st: "log_start s = 2" by (simp_all add: writer_def)
  have "\<forall>i<2. content s (of_nat (100 + i)) = (\<lambda>_. 7)" using s unfolding writer_def by blast
  from spec [OF this, of 0] have c: "content s 100 = (\<lambda>_. 7)" by simp
  have "(100::u32) \<notin> log_area 2" using not_log_area [of 0] by simp
  then show ?thesis using commit_crash_atomic [OF inv] c unfolding st by fastforce
qed

text \<open>C17. Recovery can itself be interrupted: whatever prefix of its block writes reached the
  disk before a second crash, running it again gives the same disk outside the header
  block.\<close>

theorem recovery_restartable:
  assumes "boot_state d r" "header_ok d st"
  shows "\<exists>u ws. initlog ROOTDEV st r = Some u \<and> disk_log u = disk_log r @ ws \<and> disk_header (disk u) st = 0 \<and>
    (\<forall>k q. boot_state (apply_writes (take k ws) d) q \<longrightarrow>
      (\<exists>w. initlog ROOTDEV st q = Some w \<and> (\<forall>bn. bn \<noteq> st \<longrightarrow> disk w bn = disk u bn)))"
proof -
  obtain u where u: "initlog ROOTDEV st r = Some u" "disk u = apply_writes (recovery_writes d st) d"
    "disk_log u = disk_log r @ recovery_writes d st"
    using initlog_inv [OF assms] by blast
  have hd: "disk_header (disk u) st = 0" by (simp add: u(2) recovery_writes_def disk_header_def)
  have "\<exists>w. initlog ROOTDEV st q = Some w \<and> (\<forall>bn. bn \<noteq> st \<longrightarrow> disk w bn = disk u bn)"
    if q: "boot_state (apply_writes (take k (recovery_writes d st)) d) q" for k q
  proof -
    note r = restart_writes [OF assms(2), of k]
    obtain w where w: "initlog ROOTDEV st q = Some w" "disk w = apply_writes
        (recovery_writes (apply_writes (take k (recovery_writes d st)) d) st)
        (apply_writes (take k (recovery_writes d st)) d)"
      using initlog_inv [OF q conjunct1 [OF r]] by blast
    show ?thesis
      by (rule exI [of _ w]) (use w(1) conjunct2 [OF r] in \<open>simp only: w(2) u(2) simp_thms\<close>)
  qed
  then show ?thesis using u hd by blast
qed

theorem recovery_restartable_witness:
  "\<exists>u ws. initlog ROOTDEV 2 (binit (demo_log (\<lambda>_ _. 0) ())) = Some u \<and>
    disk_log u = disk_log (binit (demo_log (\<lambda>_ _. 0) ())) @ ws \<and> disk_header (disk u) 2 = 0"
  using recovery_restartable [OF demo_boot [where e = "()"] conjunct1 [OF header_clear_ok [OF zero_header]]] by blast

text \<open>C28. A log that is completely full cannot be committed: the log admits LOGBLOCKS = 30
  blocks and pins each in the cache, the cache has NBUF = 30 buffers, so commit finds no
  buffer for the first log block and panics in bget.\<close>

theorem commit_full_log_panics:
  assumes "log_inv s" "nothing_held s" "lh_n (log_lh s) = LOGBLOCKS"
  shows "commit s = None"
proof -
  have n: "lh_n (log_lh s) = 30" and ok: "bc_ok s" and dev: "log_dev s = ROOTDEV"
    using assms(1,3) by (simp_all add: log_inv_def)
  have c: "log_cell s 0 \<notin> logged s" using assms(1) log_cell_area [of 0 s] by (auto simp: log_inv_def)
  then have "pins s (log_cell s 0) = 0" using assms(1,2) by (simp add: log_inv_def nothing_held_def)
  then have "bread ROOTDEV (log_cell s 0) s = None"
    using bget_no_room [OF ok all_pinned_no_room [OF assms(1) n]] by simp
  then have b: "bread (log_dev s) (log_start s + of_nat 0 + 1) s = None" by (simp add: dev log_cell_def)
  have e: "nat (lh_n (log_lh s)) = Suc 29" using n by simp
  have "write_log s = None" unfolding write_log_def e write_log_loop.simps b by simp
  then show ?thesis by (simp add: commit_def n)
qed

theorem commit_full_log_panics_witness: "\<exists>s::klogs. log_inv s \<and> lh_n (log_lh s) = 30 \<and> commit s = None"
proof -
  obtain s :: klogs where s: "writer (\<lambda>_ _. 0) 30 s" using writer_exists [OF zero_header, of 30] by auto
  then have "log_inv s" "nothing_held s" "lh_n (log_lh s) = LOGBLOCKS" by (auto simp: writer_def)
  from commit_full_log_panics [OF this] this show ?thesis by auto
qed

end
