(* ===== verification/FsDisk.thy ===== *)
theory FsDisk
  imports Fs LogRun
begin

section \<open>On-disk structures: inodes and the block bitmap\<close>

text \<open>
  The encodings of fs.c and what the functions that read and write them do to the
  disk's contents as the cache shows them: \<open>iupdate\<close> stores exactly one inode,
  \<open>balloc\<close> takes the lowest free block and zeroes it, \<open>bfree\<close> gives one back.
\<close>

subsection \<open>Inode records\<close>

lemma put_addrs_other: "i < o1 \<or> o1 + 4 * length as \<le> i \<Longrightarrow> put_addrs o1 as d i = d i"
  by (induction o1 as d rule: put_addrs.induct) (auto simp: put32_other)

lemma get32_put_addrs_other: "o2 + 4 \<le> o1 \<or> o1 + 4 * length as \<le> o2 \<Longrightarrow> get32 (put_addrs o1 as d) o2 = get32 d o2"
  by (rule get32_cong, rule put_addrs_other) auto

lemma get16_put_addrs_other: "o2 + 2 \<le> o1 \<or> o1 + 4 * length as \<le> o2 \<Longrightarrow> get16 (put_addrs o1 as d) o2 = get16 d o2"
  by (rule get16_cong, rule put_addrs_other) auto

lemma get32_put_addrs: "i < length as \<Longrightarrow> get32 (put_addrs o1 as d) (o1 + 4 * i) = as ! i"
proof (induction o1 as d arbitrary: i rule: put_addrs.induct)
  case (2 o1 a as d)
  show ?case
  proof (cases i)
    case 0 then show ?thesis by (simp add: get32_put_addrs_other)
  next
    case (Suc j)
    have "o1 + 4 * Suc j = o1 + 4 + 4 * j" by simp
    then show ?thesis using 2(1) [of j] 2(2) by (simp only: Suc put_addrs.simps nth_Cons_Suc) simp
  qed
qed simp

lemma addrs_read:
  assumes "length as = 13"
  shows "map (\<lambda>i. get32 (put_addrs o1 as d) (o1 + 4 * i)) [0..<13] = as"
  by (rule nth_equalityI) (use assms in \<open>simp_all add: get32_put_addrs del: upt_Suc\<close>)

lemma NDIRECT_1: "NDIRECT + 1 = 13" by (simp add: NDIRECT_def)

lemma dinode_get_put:
  assumes "length (d_addrs di) = 13"
  shows "dinode_get o1 (dinode_put o1 di d) = di"
  using assms addrs_read [OF assms, of "o1 + 12"]
  unfolding dinode_get_def dinode_put_def NDIRECT_1
  by (simp add: get16_put_addrs_other get32_put_addrs_other get16_put16_other get16_put32_other
    get32_put16_other get32_put32_other del: upt_Suc add_2_eq_Suc')

lemma dinode_put_other:
  assumes "length (d_addrs di) = 13" "i < o1 \<or> o1 + 64 \<le> i"
  shows "dinode_put o1 di d i = d i"
  using assms by (auto simp: dinode_put_def put_addrs_other put32_other put16_other simp del: add_2_eq_Suc')

lemma dinode_get_cong:
  assumes "\<And>i. o1 \<le> i \<Longrightarrow> i < o1 + 64 \<Longrightarrow> d i = e i"
  shows "dinode_get o1 d = dinode_get o1 e"
proof -
  have "get32 d (o1 + 12 + 4 * i) = get32 e (o1 + 12 + 4 * i)" if "i < 13" for i
    by (rule get32_cong, rule assms) (use that in auto)
  then have a: "map (\<lambda>i. get32 d (o1 + 12 + 4 * i)) [0..<13] = map (\<lambda>i. get32 e (o1 + 12 + 4 * i)) [0..<13]"
    by (intro map_cong) auto
  have "get16 d (o1 + k) = get16 e (o1 + k)" if "k \<le> 6" for k
    by (rule get16_cong, rule assms) (use that in auto)
  from this [of 0] this [of 2] this [of 4] this [of 6]
  have h: "get16 d o1 = get16 e o1" "get16 d (o1 + 2) = get16 e (o1 + 2)" "get16 d (o1 + 4) = get16 e (o1 + 4)"
    "get16 d (o1 + 6) = get16 e (o1 + 6)" by (simp_all del: add_2_eq_Suc')
  have "get32 d (o1 + 8) = get32 e (o1 + 8)" by (rule get32_cong, rule assms) auto
  then show ?thesis using a h unfolding dinode_get_def NDIRECT_1 by (simp only:)
qed

text \<open>Two inodes of one block do not overlap.\<close>

lemma dinode_get_put_other:
  assumes "length (d_addrs di) = 13" "i mod IPB \<noteq> j mod IPB"
  shows "dinode_get (dinode_off j) (dinode_put (dinode_off i) di d) = dinode_get (dinode_off j) d"
  by (rule dinode_get_cong, rule dinode_put_other [OF assms(1)])
    (use assms(2) in \<open>auto simp: dinode_off_def\<close>)

subsection \<open>The bitmap\<close>

lemma bm_free_bit: "bm_free d bi \<longleftrightarrow> \<not> bit (d (bi div 8)) (bi mod 8)"
  by (simp add: bm_free_def push_bit_of_1 and_exp_eq_0_iff_not_bit)

lemma bit_one_u8: "bit (2 ^ k :: u8) n \<longleftrightarrow> n = k \<and> k < 8"
  by (auto simp: bit_simps)

lemma same_byte: "bi div 8 = bj div 8 \<Longrightarrow> bi = bj \<longleftrightarrow> bi mod 8 = bj mod (8::nat)"
  by (metis div_mult_mod_eq)

lemma bm_free_mark: "bm_free (bm_mark bi d) bj \<longleftrightarrow> bi \<noteq> bj \<and> bm_free d bj"
proof (cases "bi div 8 = bj div 8")
  case True
  show ?thesis
    unfolding bm_free_bit bm_mark_def same_byte [OF True]
    using True by (auto simp: bit_or_iff bit_one_u8 push_bit_of_1)
qed (auto simp: bm_free_bit bm_mark_def)

lemma bm_free_clear: "bm_free (bm_clear bi d) bj \<longleftrightarrow> bi = bj \<or> bm_free d bj"
proof (cases "bi div 8 = bj div 8")
  case True
  have "bj mod 8 < 8" by simp
  then show ?thesis
    unfolding bm_free_bit bm_clear_def same_byte [OF True]
    using True by (auto simp: bit_and_iff bit_not_iff bit_one_u8 push_bit_of_1)
qed (auto simp: bm_free_bit bm_clear_def)

subsection \<open>Frames\<close>

lemma tx_frame_fs: "tx_frame s t \<Longrightarrow> sb t = sb s \<and> itable t = itable s"
  by (auto simp: tx_frame_def)

lemma kprint_inv:
  assumes "log_inv s"
  shows "log_inv (kprint m s) \<and> content (kprint m s) = content s \<and> held (kprint m s) = held s \<and>
    logged (kprint m s) = logged s \<and> buf_of (kprint m s) = buf_of s \<and> tx_frame s (kprint m s)"
proof -
  have e: "kprint m s = s\<lparr>bufs := bufs s, lru := lru s, procs := procs s, log_lh := log_lh s, klog := klog s @ [m]\<rparr>"
    by (simp add: kprint_def)
  have "mypid (kprint m s) = mypid s" by (simp add: mypid_def)
  then have "tx_frame s (kprint m s)" unfolding tx_frame_def using e by blast
  then show ?thesis
    using log_inv_cong [OF assms, of "kprint m s"] assms
    by (auto simp: kprint_def log_inv_def bc_ok_def running_def)
qed

lemma iset_inv:
  assumes "log_inv s"
  shows "log_inv (iset i f s) \<and> content (iset i f s) = content s \<and> held (iset i f s) = held s \<and>
    logged (iset i f s) = logged s \<and> buf_of (iset i f s) = buf_of s"
  using log_inv_cong [OF assms, of "iset i f s"] assms
  by (auto simp: iset_def log_inv_def bc_ok_def running_def)

lemma npinned_same:
  "log_inv s \<Longrightarrow> log_inv t \<Longrightarrow> logged t = logged s \<Longrightarrow> held t = held s \<Longrightarrow> npinned t = npinned s"
  by (simp add: npinned_held)

lemma npinned_logged_more:
  assumes "log_inv s" "log_inv t" "logged t = insert b (logged s)" "held t = held s"
  shows "npinned t \<le> Suc (npinned s)"
proof -
  have "logged t \<union> {bn. held t bn \<noteq> None} = insert b (logged s \<union> {bn. held s bn \<noteq> None})"
    using assms(3,4) by auto
  then show ?thesis
    using assms(1,2) by (simp add: npinned_held card_insert_le_m1 del: Un_insert_left)
qed

text \<open>Reading a block and letting it go again changes nothing.\<close>

lemma bread_brelse:
  assumes inv: "log_inv s" and h: "held s bn = None" and r: "npinned s < NBUF"
  shows "\<exists>i t u. bread ROOTDEV bn s = Some (i, t) \<and> b_data (bufs t ! i) = content s bn \<and> log_inv t \<and>
    tx_frame s t \<and> brelse i t = Some u \<and> log_inv u \<and> tx_frame s u \<and> content u = content s \<and> held u = held s \<and>
    logged u = logged s \<and> log_lh u = log_lh s"
proof -
  obtain i t where t: "bread ROOTDEV bn s = Some (i, t)" "buf_of t bn i" "b_data (bufs t ! i) = content s bn"
    "log_inv t" "tx_frame s t" "content t = content s" "held t = (held s)(bn := Some (mypid s))"
    "logged t = logged s" "log_lh t = log_lh s"
    using bread_inv [OF inv h r] by blast
  have f: "mypid t = mypid s" "disk t = disk s" using tx_frame_fields [OF t(5)] by auto
  have c: "bn \<in> logged t \<or> content t bn = disk t bn"
    using inv h t(6,8) f(2) by (auto simp: log_inv_def)
  obtain u where u: "brelse i t = Some u" "log_inv u" "tx_frame t u" "content u = content t"
    "held u = (held t)(bn := None)" "logged u = logged t" "log_lh u = log_lh t"
    using brelse_inv [OF t(4,2) _ c] t(7) f(1) by auto
  have "held u = held s" using u(5) t(7) h by (auto simp: fun_eq_iff)
  then show ?thesis using t u tx_frame_trans [OF t(5) u(3)] by metis
qed

subsection \<open>Free blocks\<close>

definition bm_block :: "nat \<Rightarrow> 'a kinodes_scheme \<Rightarrow> u32" where
  "bm_block b s = BBLOCK b (sb s)"

definition fs_size :: "'a kinodes_scheme \<Rightarrow> nat" where
  "fs_size s = unat (sb_size (sb s))"

lemma tx_frame_size: "tx_frame s t \<Longrightarrow> fs_size t = fs_size s"
  using tx_frame_fs [of s t] by (simp add: fs_size_def)

definition free_blocks :: "'a kinodes_scheme \<Rightarrow> nat set" where
  "free_blocks s = {b. b < fs_size s \<and> bm_free (content s (bm_block b s)) (b mod BPB)}"

text \<open>
  A state in which a block can be allocated: inside a transaction with two log entries
  and two buffers to spare, and with the bitmap describing the layout truthfully: no
  bitmap block and no log block is marked free.
\<close>

definition layout_ok :: "'a kinodes_scheme \<Rightarrow> bool" where
  "layout_ok s \<longleftrightarrow> fs_size s \<le> 2 ^ 31 \<and>
     (\<forall>b<fs_size s. bm_block b s \<notin> log_area (log_start s)) \<and>
     (\<forall>b\<in>free_blocks s. 0 < b \<and> of_nat b \<notin> log_area (log_start s) \<and> (\<forall>c<fs_size s. of_nat b \<noteq> bm_block c s))"

definition alloc_ready :: "'a kinodes_scheme \<Rightarrow> bool" where
  "alloc_ready s \<longleftrightarrow> log_inv s \<and> layout_ok s \<and> 1 \<le> log_outstanding s \<and> lh_n (log_lh s) + 2 \<le> 30 \<and>
     Suc (npinned s) < NBUF \<and> (\<forall>b<fs_size s. held s (bm_block b s) = None) \<and>
     (\<forall>b\<in>free_blocks s. held s (of_nat b) = None)"

lemma BPB_val: "BPB = 8192" by (simp add: BPB_def BSIZE_def)

lemma bm_block_inj:
  assumes "b < 2 ^ 31" "c < 2 ^ 31"
  shows "bm_block b s = bm_block c s \<longleftrightarrow> b div BPB = c div BPB"
proof -
  have "b div BPB < 2 ^ 32" "c div BPB < 2 ^ 32" using assms by (simp_all add: BPB_val)
  then show ?thesis using of_nat_u32_inj [of "b div BPB" "c div BPB"] by (auto simp: bm_block_def BBLOCK_def)
qed

lemma free_blocks_cong:
  "sb t = sb s \<Longrightarrow> content t = content s \<Longrightarrow> free_blocks t = free_blocks s"
  by (simp add: free_blocks_def fs_size_def bm_block_def)

lemma layout_ok_cong:
  "sb t = sb s \<Longrightarrow> content t = content s \<Longrightarrow> log_start t = log_start s \<Longrightarrow> layout_ok t = layout_ok s"
  by (simp add: layout_ok_def free_blocks_def fs_size_def bm_block_def)

text \<open>The scan of one bitmap block finds the lowest free block of its group.\<close>

lemma find_least:
  assumes "List.find P (takeWhile Q [0..<n]) = r" "\<And>i j. i \<le> j \<Longrightarrow> Q j \<Longrightarrow> Q i"
  shows "case r of Some i \<Rightarrow> i < n \<and> Q i \<and> P i \<and> (\<forall>j<i. \<not> P j) | None \<Rightarrow> \<forall>i<n. Q i \<longrightarrow> \<not> P i"
proof -
  obtain m where m: "m \<le> n" "\<forall>i<m. Q i" "m < n \<longrightarrow> \<not> Q m" "takeWhile Q [0..<n] = [0..<m]"
  proof -
    let ?t = "takeWhile Q [0..<n]"
    have l: "length ?t \<le> n" using length_takeWhile_le [of Q "[0..<n]"] by simp
    have "?t = take (length ?t) [0..<n]" by (metis takeWhile_eq_take)
    then have t: "?t = [0..<length ?t]" using l by (simp add: take_upt)
    have q: "\<forall>i<length ?t. Q i" using t by (metis atLeastLessThan_iff le0 set_takeWhileD set_upt)
    have "length ?t < n \<longrightarrow> \<not> Q (length ?t)"
      using nth_length_takeWhile [of Q "[0..<n]"] by auto
    with that [OF l q _ t] show ?thesis by blast
  qed
  show ?thesis
  proof (cases r)
    case None
    have "\<not> P i" if "i < n" "Q i" for i
    proof -
      have "i < m" using assms(2) [of m i] m(1,3) that by (meson le_less_trans not_le_imp_less order_le_imp_less_or_eq)
      then show ?thesis using assms(1) None m(4) by (simp add: find_none)
    qed
    then show ?thesis using None by simp
  next
    case (Some i)
    then have f: "List.find P [0..<m] = Some i" using assms(1) m(4) by simp
    then have "i < m" "P i" by (auto dest: find_Some_in)
    moreover have "\<not> P j" if "j < i" for j
      using f that by (auto simp: find_Some_iff)
    ultimately show ?thesis using Some m(1,2) by simp
  qed
qed

lemma group_split: "b div BPB = k \<Longrightarrow> b = k * BPB + b mod BPB"
  by (metis div_mult_mod_eq)

lemma bm_block_group: "j < BPB \<Longrightarrow> bm_block (k * BPB + j) s = bm_block (k * BPB) s"
  by (simp add: bm_block_def BBLOCK_def BPB_val)

lemma alloc_ready_cong:
  assumes "alloc_ready s" "log_inv t" "tx_frame s t" "content t = content s" "held t = held s"
    "logged t = logged s" "log_lh t = log_lh s"
  shows "alloc_ready t"
proof -
  have "log_inv s" using assms(1) by (simp add: alloc_ready_def)
  then have "npinned t = npinned s" using npinned_same assms(2,5,6) by blast
  then show ?thesis
    using assms tx_frame_fields [OF assms(3)] tx_frame_fs [OF assms(3)] layout_ok_cong [of t s] free_blocks_cong [of t s]
    by (simp add: alloc_ready_def fs_size_def bm_block_def)
qed

definition allocated :: "nat \<Rightarrow> 'a kinodes_scheme \<Rightarrow> 'a kinodes_scheme \<Rightarrow> bool" where
  "allocated b s t \<longleftrightarrow> log_inv t \<and> tx_frame s t \<and> held t = held s \<and>
     content t = (content s)(bm_block b s := bm_mark (b mod BPB) (content s (bm_block b s)), of_nat b := (\<lambda>_. 0)) \<and>
     logged t = insert (of_nat b) (insert (bm_block b s) (logged s))"

lemma balloc_take:
  assumes ar: "alloc_ready s" and b: "b \<in> free_blocks s"
  shows "\<exists>i t u v w z. bread ROOTDEV (bm_block b s) s = Some (i, t) \<and> b_data (bufs t ! i) = content s (bm_block b s) \<and>
    tx_frame s t \<and> bdata i (bm_mark (b mod BPB)) t = u \<and> log_write i u = Some v \<and> brelse i v = Some w \<and>
    bzero ROOTDEV (of_nat b) w = Some z \<and> allocated b s z"
proof -
  let ?m = "bm_block b s" and ?b = "of_nat b :: u32"
  have inv: "log_inv s" and n: "lh_n (log_lh s) + 2 \<le> 30" and o: "1 \<le> log_outstanding s" and r: "Suc (npinned s) < NBUF"
    and bs: "b < fs_size s" and hm: "held s ?m = None" and am: "?m \<notin> log_area (log_start s)" and hb: "held s ?b = None"
    and ab: "?b \<notin> log_area (log_start s)" and ne: "?b \<noteq> ?m"
    using ar b by (auto simp: alloc_ready_def layout_ok_def free_blocks_def)
  obtain i t u v w where w: "bread ROOTDEV ?m s = Some (i, t)" "b_data (bufs t ! i) = content s ?m" "tx_frame s t"
    "bdata i (bm_mark (b mod BPB)) t = u" "log_write i u = Some v" "brelse i v = Some w" "log_inv w" "tx_frame s w"
    "content w = (content s)(?m := bm_mark (b mod BPB) (content s ?m))" "held w = held s"
    "logged w = insert ?m (logged s)"
    "lh_n (log_lh w) = (if ?m \<in> logged s then lh_n (log_lh s) else lh_n (log_lh s) + 1)"
    using logged_update [OF inv hm o am, of "bm_mark (b mod BPB)"] n r by auto
  have nw: "npinned w < NBUF" using npinned_logged_more [OF inv w(7,11,10)] r by simp
  have fw: "log_outstanding w = log_outstanding s" "log_start w = log_start s" using tx_frame_fields [OF w(8)] by auto
  have nl: "lh_n (log_lh w) < 30" using w(12) n by (simp split: if_splits)
  obtain i' t' u' v' z where z: "bread ROOTDEV ?b w = Some (i', t')" "bdata i' (\<lambda>_ _. 0) t' = u'"
    "log_write i' u' = Some v'" "brelse i' v' = Some z" "log_inv z" "tx_frame w z"
    "content z = (content w)(?b := (\<lambda>_. 0))" "held z = held w" "logged z = insert ?b (logged w)"
    using logged_update [OF w(7), of ?b "\<lambda>_ _. 0"] hb w(10) nl o ab fw nw by auto
  have "bzero ROOTDEV ?b w = Some z" using z by (simp add: bzero_def Let_def)
  moreover have "allocated b s z"
    using z w tx_frame_trans [OF w(8) z(6)] by (simp add: allocated_def)
  ultimately show ?thesis using w(1-6) by blast
qed

lemma allocated_free:
  assumes ar: "alloc_ready s" and b: "b \<in> free_blocks s" and al: "allocated b s t"
  shows "free_blocks t = free_blocks s - {b}"
proof -
  have sbt: "sb t = sb s" using al tx_frame_fs by (auto simp: allocated_def)
  have bs: "b < fs_size s" and sz: "fs_size s \<le> 2 ^ 31" and nb: "\<forall>c<fs_size s. of_nat b \<noteq> bm_block c s"
    using ar b by (auto simp: alloc_ready_def layout_ok_def free_blocks_def)
  have c: "content t (bm_block c t) = (if bm_block c s = bm_block b s
      then bm_mark (b mod BPB) (content s (bm_block b s)) else content s (bm_block c s))" if "c < fs_size s" for c
    using al nb that by (auto simp: allocated_def bm_block_def sbt)
  have e: "c < fs_size s \<Longrightarrow> bm_block c s = bm_block b s \<longleftrightarrow> c div BPB = b div BPB" for c
    using bm_block_inj [of c b s] bs sz by simp
  have eq: "c div BPB = b div BPB \<Longrightarrow> c mod BPB = b mod BPB \<longleftrightarrow> c = b" for c by (metis div_mult_mod_eq)
  show ?thesis
  proof (rule set_eqI)
    fix c show "c \<in> free_blocks t \<longleftrightarrow> c \<in> free_blocks s - {b}"
    proof (cases "c < fs_size s")
      case True
      then show ?thesis
        using c [OF True] e [OF True] eq [of c]
        by (cases "bm_block c s = bm_block b s") (auto simp: free_blocks_def fs_size_def sbt bm_free_mark)
    qed (simp add: free_blocks_def fs_size_def sbt)
  qed
qed

lemma balloc_loop_ok:
  assumes "alloc_ready s" "\<forall>b\<in>free_blocks s. k * BPB \<le> b" "k \<le> G" "fs_size s \<le> G * BPB"
    "\<forall>j<G. j * BPB < fs_size s"
  shows "if free_blocks s = {}
    then \<exists>t. balloc_loop ROOTDEV (map (\<lambda>k. k * BPB) [k..<G]) s = Some (0, t) \<and> log_inv t \<and> tx_frame s t \<and>
      content t = content s \<and> held t = held s \<and> logged t = logged s
    else \<exists>t. balloc_loop ROOTDEV (map (\<lambda>k. k * BPB) [k..<G]) s = Some (of_nat (Min (free_blocks s)), t) \<and>
      allocated (Min (free_blocks s)) s t"
  using assms
proof (induction "G - k" arbitrary: k s)
  case 0
  have inv: "log_inv s" using 0(2) by (simp add: alloc_ready_def)
  have "free_blocks s = {}" using 0 by (auto simp: free_blocks_def)
  then show ?case using 0(1) kprint_inv [OF inv, of NO_BLOCKS] by auto
next
  case (Suc d)
  have inv: "log_inv s" and r: "npinned s < NBUF" and sz: "fs_size s \<le> 2 ^ 31"
    and hk: "\<forall>b<fs_size s. held s (bm_block b s) = None"
    using Suc.prems(1) by (auto simp: alloc_ready_def layout_ok_def)
  have kG: "k < G" using Suc.hyps(2) by simp
  then have kb: "k * BPB < fs_size s" using Suc.prems(5) by blast
  have up: "map (\<lambda>k. k * BPB) [k..<G] = k * BPB # map (\<lambda>k. k * BPB) [Suc k..<G]"
    using kG by (simp add: upt_conv_Cons)
  let ?m = "bm_block (k * BPB) s"
  let ?Q = "\<lambda>bi. k * BPB + bi < fs_size s"
  define F where "F = List.find (bm_free (content s ?m)) (takeWhile ?Q [0..<BPB])"
  have fl: "case F of Some i \<Rightarrow> i < BPB \<and> ?Q i \<and> bm_free (content s ?m) i \<and> (\<forall>j<i. \<not> bm_free (content s ?m) j)
      | None \<Rightarrow> \<forall>i<BPB. ?Q i \<longrightarrow> \<not> bm_free (content s ?m) i"
    by (rule find_least) (auto simp: F_def)
  have grp: "k * BPB + j \<in> free_blocks s \<longleftrightarrow> ?Q j \<and> bm_free (content s ?m) j" if "j < BPB" for j
    using that by (simp add: free_blocks_def bm_block_group)
  show ?case
  proof (cases F)
    case (Some bi)
    then have bi: "bi < BPB" "?Q bi" "bm_free (content s ?m) bi" "\<forall>j<bi. \<not> bm_free (content s ?m) j" using fl by auto
    let ?b = "k * BPB + bi"
    have bf: "?b \<in> free_blocks s" using grp [OF bi(1)] bi by simp
    have mn: "Min (free_blocks s) = ?b"
    proof (rule Min_eqI)
      show "finite (free_blocks s)" by (simp add: free_blocks_def)
      show "?b \<in> free_blocks s" by (rule bf)
      fix c assume c: "c \<in> free_blocks s"
      show "?b \<le> c"
      proof (rule ccontr)
        assume "\<not> ?b \<le> c"
        moreover have "k * BPB \<le> c" using Suc.prems(2) c by blast
        ultimately have "c = k * BPB + (c - k * BPB)" "c - k * BPB < bi" by simp_all
        then show False using c grp [of "c - k * BPB"] bi(1,4) by (metis less_trans)
      qed
    qed
    have mb: "bm_block ?b s = ?m" "?b mod BPB = bi" using bi(1) by (simp_all add: bm_block_group)
    obtain i t u v w z where w: "bread ROOTDEV ?m s = Some (i, t)" "b_data (bufs t ! i) = content s ?m" "tx_frame s t"
      "bdata i (bm_mark bi) t = u" "log_write i u = Some v" "brelse i v = Some w"
      "bzero ROOTDEV (of_nat ?b) w = Some z" "allocated ?b s z"
      using balloc_take [OF Suc.prems(1) bf] unfolding mb by auto
    have "balloc_loop ROOTDEV (map (\<lambda>k. k * BPB) [k..<G]) s = Some (of_nat ?b, z)"
      unfolding up using w Some tx_frame_size [OF w(3)]
      by (simp add: bm_block_def [symmetric] fs_size_def [symmetric] F_def Let_def del: of_nat_add of_nat_mult)
    then show ?thesis using bf mn w(8) by auto
  next
    case None
    then have nf: "\<forall>i<BPB. ?Q i \<longrightarrow> \<not> bm_free (content s ?m) i" using fl by simp
    obtain i t u where u: "bread ROOTDEV ?m s = Some (i, t)" "b_data (bufs t ! i) = content s ?m" "tx_frame s t"
      "brelse i t = Some u" "log_inv u" "tx_frame s u" "content u = content s" "held u = held s"
      "logged u = logged s" "log_lh u = log_lh s"
      using bread_brelse [OF inv _ r, of ?m] hk kb by auto
    have ru: "alloc_ready u" by (rule alloc_ready_cong [OF Suc.prems(1) u(5-10)])
    have fu: "free_blocks u = free_blocks s" "fs_size u = fs_size s"
      using free_blocks_cong u(7) tx_frame_fs [OF u(6)] by (auto simp: fs_size_def)
    have le: "\<forall>b\<in>free_blocks u. Suc k * BPB \<le> b"
    proof
      fix b assume b: "b \<in> free_blocks u"
      show "Suc k * BPB \<le> b"
      proof (rule ccontr)
        assume "\<not> Suc k * BPB \<le> b"
        moreover have "k * BPB \<le> b" using Suc.prems(2) b fu by blast
        ultimately have e: "b = k * BPB + (b - k * BPB)" "b - k * BPB < BPB" by simp_all
        then have "k * BPB + (b - k * BPB) \<in> free_blocks s" using b fu by simp
        then show False using grp [OF e(2)] nf e(2) by blast
      qed
    qed
    have hd: "d = G - Suc k" "Suc k \<le> G" using Suc.hyps(2) kG by simp_all
    have run: "balloc_loop ROOTDEV (map (\<lambda>k. k * BPB) [k..<G]) s =
        balloc_loop ROOTDEV (map (\<lambda>k. k * BPB) [Suc k..<G]) u"
      unfolding up using u None tx_frame_size [OF u(3)]
      by (simp add: bm_block_def [symmetric] fs_size_def [symmetric] F_def Let_def)
    have al: "allocated b u t \<Longrightarrow> allocated b s t" for b t
      using u(6-9) tx_frame_fs [OF u(6)] by (auto simp: allocated_def bm_block_def intro: tx_frame_trans)
    show ?thesis
      using Suc.hyps(1) [OF hd(1) ru le hd(2)] Suc.prems(4,5) u(6-9) al
      unfolding run fu by (auto intro: tx_frame_trans split: if_splits)
  qed
qed

lemma balloc_ok:
  assumes "alloc_ready s"
  shows "if free_blocks s = {}
    then \<exists>t. balloc ROOTDEV s = Some (0, t) \<and> log_inv t \<and> tx_frame s t \<and> content t = content s \<and>
      held t = held s \<and> logged t = logged s
    else \<exists>t. balloc ROOTDEV s = Some (of_nat (Min (free_blocks s)), t) \<and> allocated (Min (free_blocks s)) s t"
proof -
  let ?G = "(fs_size s + BPB - 1) div BPB"
  have "fs_size s \<le> ?G * BPB" by (simp add: BPB_val)
  moreover have "\<forall>j<?G. j * BPB < fs_size s" by (auto simp: BPB_val)
  moreover have e: "balloc ROOTDEV s = balloc_loop ROOTDEV (map (\<lambda>k. k * BPB) [0..<?G]) s"
    by (simp add: balloc_def fs_size_def)
  ultimately show ?thesis
    unfolding e by (intro balloc_loop_ok [OF assms]) simp_all
qed

end
