(* ===== verification/FsRead.thy ===== *)
theory FsRead
  imports FsDisk
begin

section \<open>Inodes, file contents and directories as the file system reads them\<close>

text \<open>
  \<open>inode_on_disk\<close> is the inode number \<open>n\<close> as the cache shows the disk, \<open>file_byte\<close> the
  bytes of a file through its block map.  \<open>quiet\<close> is the state of a process that holds
  no buffer.  The lemmas say what \<open>iupdate\<close>, \<open>ilock\<close>, \<open>bmap\<close>, \<open>readi\<close> and \<open>dirlookup\<close> do
  in these terms.
\<close>

definition inode_on_disk :: "'a kinodes_scheme \<Rightarrow> nat \<Rightarrow> dinode" where
  "inode_on_disk s n = dinode_get (dinode_off n) (content s (IBLOCK n (sb s)))"

definition quiet :: "'a klogs_scheme \<Rightarrow> bool" where
  "quiet s \<longleftrightarrow> log_inv s \<and> nothing_held s \<and> lh_n (log_lh s) < 30"

definition same_fs :: "'a klogs_scheme \<Rightarrow> 'a klogs_scheme \<Rightarrow> bool" where
  "same_fs s t \<longleftrightarrow> log_inv t \<and> tx_frame s t \<and> content t = content s \<and> held t = held s \<and>
     logged t = logged s \<and> log_lh t = log_lh s"

lemma quiet_room: "quiet s \<Longrightarrow> npinned s < NBUF"
  using npinned_logged [of s] by (auto simp: quiet_def log_inv_def NBUF_def)

lemma quiet_unheld: "quiet s \<Longrightarrow> held s bn = None"
  by (simp add: quiet_def nothing_held_def)

lemma same_fs_quiet: "same_fs s t \<Longrightarrow> quiet s \<Longrightarrow> quiet t"
  by (simp add: same_fs_def quiet_def nothing_held_def)

lemma same_fs_refl: "quiet s \<Longrightarrow> same_fs s s" by (simp add: same_fs_def quiet_def)

lemma same_fs_trans: "same_fs s t \<Longrightarrow> same_fs t u \<Longrightarrow> same_fs s u"
  by (auto simp: same_fs_def intro: tx_frame_trans)

lemma same_fs_tables: "same_fs s t \<Longrightarrow> sb t = sb s \<and> itable t = itable s \<and> content t = content s"
  using tx_frame_fs by (auto simp: same_fs_def)

lemma quiet_bread_brelse:
  assumes "quiet s"
  shows "\<exists>i t u. bread ROOTDEV bn s = Some (i, t) \<and> b_data (bufs t ! i) = content s bn \<and> tx_frame s t \<and>
    brelse i t = Some u \<and> same_fs s u"
  using bread_brelse [OF _ quiet_unheld [OF assms] quiet_room [OF assms], of bn] assms
  unfolding same_fs_def quiet_def by blast

subsection \<open>iupdate and ilock\<close>

lemma iupdate_ok:
  assumes q: "quiet s" and o: "1 \<le> log_outstanding s" and p: "p = itable s ! ip" "i_dev p = ROOTDEV"
    and a: "IBLOCK (unat (i_inum p)) (sb s) \<notin> log_area (log_start s)"
  shows "\<exists>t. iupdate ip s = Some t \<and> log_inv t \<and> nothing_held t \<and> tx_frame s t \<and>
    lh_n (log_lh t) \<le> lh_n (log_lh s) + 1 \<and>
    content t = (content s)(IBLOCK (unat (i_inum p)) (sb s) :=
      dinode_put (dinode_off (unat (i_inum p))) (inode_dinode p) (content s (IBLOCK (unat (i_inum p)) (sb s))))"
proof -
  let ?B = "IBLOCK (unat (i_inum p)) (sb s)" and ?f = "dinode_put (dinode_off (unat (i_inum p))) (inode_dinode p)"
  obtain i t u v w where w: "bread ROOTDEV ?B s = Some (i, t)" "bdata i ?f t = u" "log_write i u = Some v"
    "brelse i v = Some w" "log_inv w" "tx_frame s w" "content w = (content s)(?B := ?f (content s ?B))"
    "held w = held s" "lh_n (log_lh w) = (if ?B \<in> logged s then lh_n (log_lh s) else lh_n (log_lh s) + 1)"
    using logged_update [OF _ quiet_unheld [OF q] o a _ quiet_room [OF q], of ?f] q unfolding quiet_def by blast
  have "iupdate ip s = Some w" using w(1-4) p by (simp add: iupdate_def Let_def)
  then show ?thesis using w q by (auto simp: quiet_def nothing_held_def)
qed

lemma IBLOCK_inj:
  assumes "IBLOCK (unat (i::u32)) b = IBLOCK (unat (j::u32)) b" "i \<noteq> j"
  shows "unat i mod IPB \<noteq> unat j mod IPB"
proof
  assume m: "unat i mod IPB = unat j mod IPB"
  have "unat i div IPB < 2 ^ 32" "unat j div IPB < 2 ^ 32"
    using unsigned_less [of i] unsigned_less [of j] by (auto intro: le_less_trans [OF div_le_dividend])
  then have "unat i div IPB = unat j div IPB"
    using assms(1) of_nat_u32_inj [of "unat i div IPB" "unat j div IPB"] by (simp add: IBLOCK_def)
  then have "unat i = unat j" using m by (metis div_mult_mod_eq)
  then show False using assms(2) by (simp add: word_unat_eq_iff)
qed

lemma iupdate_inodes:
  assumes q: "quiet s" and o: "1 \<le> log_outstanding s" and p: "p = itable s ! ip" "i_dev p = ROOTDEV"
    and a: "IBLOCK (unat (i_inum p)) (sb s) \<notin> log_area (log_start s)" and l: "length (i_addrs p) = 13"
  shows "\<exists>t. iupdate ip s = Some t \<and> log_inv t \<and> nothing_held t \<and> tx_frame s t \<and>
    lh_n (log_lh t) \<le> lh_n (log_lh s) + 1 \<and>
    inode_on_disk t (unat (i_inum p)) = inode_dinode p \<and>
    (\<forall>j::u32. j \<noteq> i_inum p \<longrightarrow> inode_on_disk t (unat j) = inode_on_disk s (unat j)) \<and>
    (\<forall>bn. bn \<noteq> IBLOCK (unat (i_inum p)) (sb s) \<longrightarrow> content t bn = content s bn)"
proof -
  let ?B = "IBLOCK (unat (i_inum p)) (sb s)"
  obtain t where t: "iupdate ip s = Some t" "log_inv t" "nothing_held t" "tx_frame s t"
    "lh_n (log_lh t) \<le> lh_n (log_lh s) + 1"
    "content t = (content s)(?B := dinode_put (dinode_off (unat (i_inum p))) (inode_dinode p) (content s ?B))"
    using iupdate_ok [OF assms(1-5)] by blast
  have sbt: "sb t = sb s" using tx_frame_fs [OF t(4)] by simp
  have l': "length (d_addrs (inode_dinode p)) = 13" using l by (simp add: inode_dinode_def)
  have "inode_on_disk t (unat (i_inum p)) = inode_dinode p"
    by (simp add: inode_on_disk_def sbt t(6) dinode_get_put [OF l'])
  moreover have "inode_on_disk t (unat j) = inode_on_disk s (unat j)" if "j \<noteq> i_inum p" for j
  proof (cases "IBLOCK (unat j) (sb s) = ?B")
    case True
    then have "unat (i_inum p) mod IPB \<noteq> unat j mod IPB" using IBLOCK_inj [of j "sb s" "i_inum p"] that by auto
    then show ?thesis using True by (simp add: inode_on_disk_def sbt t(6) dinode_get_put_other [OF l'])
  qed (simp add: inode_on_disk_def sbt t(6))
  ultimately show ?thesis using t by auto
qed

lemma iset_quiet: "quiet s \<Longrightarrow> quiet (iset i f s) \<and> content (iset i f s) = content s"
proof -
  assume "quiet s"
  moreover have "log_lh (iset i f s) = log_lh s" by (simp add: iset_def)
  ultimately show ?thesis using iset_inv [of s i f] by (simp add: quiet_def nothing_held_def)
qed

lemma iset_simps [simp]:
  "sb (iset i f s) = sb s" "running (iset i f s) = running s" "mypid (iset i f s) = mypid s"
  "log_start (iset i f s) = log_start s" "log_outstanding (iset i f s) = log_outstanding s"
  "log_lh (iset i f s) = log_lh s" "bufs (iset i f s) = bufs s" "length (itable (iset i f s)) = length (itable s)"
  "procs (iset i f s) = procs s" "cur (iset i f s) = cur s"
  by (simp_all add: iset_def running_def mypid_def)

lemma itable_iset: "i < length (itable s) \<Longrightarrow> itable (iset i f s) ! j = (if j = i then f (itable s ! i) else itable s ! j)"
  by (auto simp: iset_def)

lemma ilock_load:
  assumes q: "quiet s" and r: "1 \<le> i_ref (itable s ! ip)" and u: "\<not> sl_locked (i_lock (itable s ! ip))"
    and v: "\<not> i_valid (itable s ! ip)" and dev: "i_dev (itable s ! ip) = ROOTDEV" and l: "ip < length (itable s)"
    and ty: "d_type (inode_on_disk s (unat (i_inum (itable s ! ip)))) \<noteq> 0"
  shows "\<exists>t. ilock ip s = Some t \<and> quiet t \<and> content t = content s \<and> sb t = sb s \<and>
    inode_dinode (itable t ! ip) = inode_on_disk s (unat (i_inum (itable s ! ip))) \<and>
    i_valid (itable t ! ip) \<and> i_lock (itable t ! ip) = \<lparr>sl_locked = True, sl_pid = mypid s\<rparr> \<and>
    (\<forall>j. j \<noteq> ip \<longrightarrow> itable t ! j = itable s ! j)"
proof -
  let ?p = "itable s ! ip" and ?lk = "\<lparr>sl_locked = True, sl_pid = mypid s\<rparr>"
  let ?B = "IBLOCK (unat (i_inum ?p)) (sb s)" and ?di = "inode_on_disk s (unat (i_inum ?p))"
  have run: "running s" using q by (auto simp: quiet_def log_inv_def bc_ok_def)
  have lk: "acquiresleep (i_lock ?p) s = Some ?lk" using acquiresleep_ok [OF run u] .
  define a where "a = iset ip (\<lambda>p. p\<lparr>i_lock := ?lk\<rparr>) s"
  have a: "quiet a" "content a = content s" using iset_quiet [OF q] by (auto simp: a_def)
  have pa: "itable a ! ip = ?p\<lparr>i_lock := ?lk\<rparr>" and oa: "\<And>j. j \<noteq> ip \<Longrightarrow> itable a ! j = itable s ! j"
    using l by (simp_all add: a_def itable_iset)
  have inva: "log_inv a" using a(1) by (simp add: quiet_def)
  obtain i b where b: "bread ROOTDEV ?B a = Some (i, b)" "buf_of b ?B i" "b_data (bufs b ! i) = content a ?B"
    "log_inv b" "tx_frame a b" "content b = content a" "held b = (held a)(?B := Some (mypid a))"
    "logged b = logged a" "log_lh b = log_lh a"
    using bread_inv [OF inva quiet_unheld [OF a(1)] quiet_room [OF a(1)]] by blast
  define g :: "inode \<Rightarrow> inode" where "g = (\<lambda>p. p\<lparr>i_type := d_type ?di, i_major := d_major ?di, i_minor := d_minor ?di,
      i_nlink := d_nlink ?di, i_size := d_size ?di, i_addrs := d_addrs ?di\<rparr>)"
  have fb: "sb b = sb s" "itable b = itable a" "mypid b = mypid s"
    using tx_frame_fs [OF b(5)] tx_frame_fields [OF b(5)] by (simp_all add: a_def)
  define c where "c = iset ip g b"
  have c: "log_inv c" "content c = content s" "held c = held b" "logged c = logged a" "buf_of c ?B i"
    "log_lh c = log_lh a" "mypid c = mypid s"
    using iset_inv [OF b(4), of ip g] b a(2) fb by (auto simp: c_def)
  have dc: "disk c = disk b" by (simp add: c_def iset_def)
  have "?B \<in> logged c \<or> content c ?B = disk c ?B"
    using inva quiet_unheld [OF a(1), of ?B] a(2) tx_frame_fields [OF b(5)] by (auto simp: log_inv_def c(2,4) dc)
  moreover have "held c ?B = Some (mypid c)" using c(3,7) b(7) by (simp add: a_def)
  ultimately obtain z where z: "brelse i c = Some z" "log_inv z" "tx_frame c z" "content z = content c"
    "held z = (held c)(?B := None)" "logged z = logged c" "log_lh z = log_lh c"
    using brelse_inv [OF c(1,5)] by blast
  have hz: "held z = held a" using z(5) c(3) b(7) quiet_unheld [OF a(1), of ?B] by (simp add: fun_eq_iff)
  have qz: "quiet z" using a(1) z(2,7) c(6) hz by (simp add: quiet_def nothing_held_def)
  have lb: "ip < length (itable b)" using l fb(2) by (simp add: a_def)
  have tz: "itable z = itable c" "sb z = sb s" using tx_frame_fs [OF z(3)] fb by (simp_all add: c_def)
  define t where "t = iset ip (\<lambda>p. p\<lparr>i_valid := True\<rparr>) z"
  have t: "quiet t" "content t = content s" "sb t = sb s" using iset_quiet [OF qz] z(4) c(2) tz by (auto simp: t_def)
  have lz: "ip < length (itable z)" using lb by (simp add: tz c_def)
  have pt: "itable t ! ip = (g (?p\<lparr>i_lock := ?lk\<rparr>))\<lparr>i_valid := True\<rparr>"
    by (simp add: t_def itable_iset [OF lz] tz c_def itable_iset [OF lb] fb pa)
  have ot: "itable t ! j = itable s ! j" if "j \<noteq> ip" for j
    using that by (simp add: t_def itable_iset [OF lz] tz c_def itable_iset [OF lb] fb oa)
  have di: "dinode_get (dinode_off (unat (i_inum ?p))) (b_data (bufs b ! i)) = ?di"
    using b(3) a(2) by (simp add: inode_on_disk_def)
  have sa: "sb a = sb s" by (simp add: a_def)
  have "ilock ip s = Some t"
    unfolding ilock_def using r lk b(1) z(1) ty v dev
    by (simp add: a_def [symmetric] pa sa di g_def [symmetric] c_def [symmetric] t_def [symmetric] pt)
      (simp add: g_def)
  moreover have "inode_dinode (itable t ! ip) = ?di" unfolding pt g_def inode_dinode_def by simp
  moreover have "i_valid (itable t ! ip)" "i_lock (itable t ! ip) = ?lk" unfolding pt g_def by simp_all
  ultimately show ?thesis using t ot by blast
qed

subsection \<open>The block map\<close>

definition block_addr :: "'a kinodes_scheme \<Rightarrow> nat \<Rightarrow> nat \<Rightarrow> u32" where
  "block_addr s ip n = (if n < NDIRECT then i_addrs (itable s ! ip) ! n
     else get32 (content s (i_addrs (itable s ! ip) ! NDIRECT)) (4 * (n - NDIRECT)))"

definition mapped :: "'a kinodes_scheme \<Rightarrow> nat \<Rightarrow> nat \<Rightarrow> bool" where
  "mapped s ip n \<longleftrightarrow> n < MAXFILE \<and> (NDIRECT \<le> n \<longrightarrow> i_addrs (itable s ! ip) ! NDIRECT \<noteq> 0) \<and> block_addr s ip n \<noteq> 0"

definition file_byte :: "'a kinodes_scheme \<Rightarrow> nat \<Rightarrow> nat \<Rightarrow> u8" where
  "file_byte s ip i = content s (block_addr s ip (i div 1024)) (i mod 1024)"

lemma block_addr_cong: "same_fs s t \<Longrightarrow> block_addr t = block_addr s \<and> mapped t = mapped s \<and> file_byte t = file_byte s"
proof -
  assume "same_fs s t"
  note e = same_fs_tables [OF this]
  have b: "block_addr t = block_addr s" by (intro ext) (simp add: block_addr_def e)
  moreover have "mapped t = mapped s" by (intro ext) (simp add: mapped_def e b)
  moreover have "file_byte t = file_byte s" by (intro ext) (simp add: file_byte_def e b)
  ultimately show ?thesis by blast
qed

lemma bmap_mapped:
  assumes q: "quiet s" and m: "mapped s ip (unat bn)" and dev: "i_dev (itable s ! ip) = ROOTDEV"
  shows "\<exists>t. bmap ip bn s = Some (block_addr s ip (unat bn), t) \<and> same_fs s t"
proof (cases "unat bn < NDIRECT")
  case True
  then show ?thesis
    using m same_fs_refl [OF q] by (auto simp: bmap_def mapped_def block_addr_def Let_def)
next
  case False
  let ?a = "i_addrs (itable s ! ip) ! NDIRECT"
  obtain i t u where u: "bread ROOTDEV ?a s = Some (i, t)" "b_data (bufs t ! i) = content s ?a" "tx_frame s t"
    "brelse i t = Some u" "same_fs s u" using quiet_bread_brelse [OF q] by blast
  have "unat bn - NDIRECT < NINDIRECT" using m False unfolding mapped_def MAXFILE_def by linarith
  then have "bmap ip bn s = Some (block_addr s ip (unat bn), u)"
    using m False u dev by (simp add: bmap_def mapped_def block_addr_def Let_def)
  then show ?thesis using u(5) by blast
qed

subsection \<open>readi\<close>

lemma min_chunk:
  fixes n tot off :: u32
  assumes "tot < n"
  defines "m \<equiv> min (n - tot) (1024 - off mod 1024)"
  shows "unat m = min (unat (n - tot)) (1024 - unat off mod 1024)" "0 < unat m" "unat m \<le> unat (n - tot)"
    "unat (off mod 1024) = unat off mod 1024" "unat (n - tot) = unat n - unat tot" "unat tot < unat n"
proof -
  have o1: "unat (off mod 1024) = unat off mod 1024" by (simp add: unat_mod)
  have "off mod 1024 \<le> 1024" by (simp add: word_le_nat_alt o1)
  then have o2: "unat (1024 - off mod 1024) = 1024 - unat off mod 1024" using o1 by (simp add: unat_sub)
  have nt: "unat (n - tot) = unat n - unat tot" using assms(1) by (simp add: unat_sub less_imp_le)
  have t: "unat tot < unat n" using assms(1) by (simp add: word_less_nat_alt)
  show mm: "unat m = min (unat (n - tot)) (1024 - unat off mod 1024)"
    by (auto simp: m_def min_def word_le_nat_alt o2)
  show "0 < unat m" using mm nt t by simp
  show "unat m \<le> unat (n - tot)" using mm by simp
  show "unat (off mod 1024) = unat off mod 1024" by (rule o1)
  show "unat (n - tot) = unat n - unat tot" by (rule nt)
  show "unat tot < unat n" by (rule t)
qed

lemma chunk_bytes:
  assumes "x mod 1024 + m \<le> 1024"
  shows "blk_bytes (content s (block_addr s ip (x div 1024))) (x mod 1024) m = map (file_byte s ip) [x..<x + m]"
proof (rule nth_equalityI)
  fix i assume "i < length (blk_bytes (content s (block_addr s ip (x div 1024))) (x mod 1024) m)"
  then have i: "i < m" by (simp add: blk_bytes_def)
  have "(x + i) div 1024 = x div 1024 \<and> (x + i) mod 1024 = x mod 1024 + i"
  proof -
    have "x + i = 1024 * (x div 1024) + (x mod 1024 + i)" by simp
    moreover have "x mod 1024 + i < 1024" using assms i by simp
    ultimately show ?thesis
      by (metis add_cancel_right_right div_mult_self4 div_less mod_less mod_mult_self4 mult.commute zero_neq_numeral)
  qed
  then show "blk_bytes (content s (block_addr s ip (x div 1024))) (x mod 1024) m ! i = map (file_byte s ip) [x..<x + m] ! i"
    using i by (simp add: blk_bytes_def file_byte_def)
qed (simp add: blk_bytes_def)

lemma upt_join: "m \<le> k \<Longrightarrow> [a..<a + m] @ [a + m..<a + m + (k - m)] = [a..<a + (k::nat)]"
  using upt_add_eq_append [of a "a + m" "k - m"] by (simp add: add.assoc)

lemma readi_loop_ok:
  assumes "quiet s" "i_dev (itable s ! ip) = ROOTDEV" "tot \<le> n" "unat off + unat (n - tot) < 2 ^ 32"
    and "\<forall>i. unat off \<le> i \<and> i < unat off + unat (n - tot) \<longrightarrow> mapped s ip (i div 1024)"
  shows "\<exists>t. readi_loop to_local ip buf off tot n s =
      Some (n, buf @ map (file_byte s ip) [unat off..<unat off + unat (n - tot)], t) \<and> same_fs s t"
  using assms
proof (induction "unat (n - tot)" arbitrary: s off tot buf rule: less_induct)
  case less
  show ?case
  proof (cases "tot < n")
    case False
    then have "tot = n" using less.prems(3) by simp
    then show ?thesis using same_fs_refl [OF less.prems(1)] by (subst readi_loop.simps) simp
  next
    case True
    let ?m = "min (n - tot) (1024 - off mod 1024)"
    have c: "unat ?m = min (unat (n - tot)) (1024 - unat off mod 1024)" "0 < unat ?m" "unat ?m \<le> unat (n - tot)"
      "unat (off mod 1024) = unat off mod 1024" "unat (n - tot) = unat n - unat tot" "unat tot < unat n"
      by (rule min_chunk [OF True])+
    have mp: "mapped s ip (unat (off div 1024))" using less.prems(5) c(5,6) by (simp add: unat_div)
    let ?a = "block_addr s ip (unat off div 1024)"
    obtain t where t: "bmap ip (off div 1024) s = Some (?a, t)" "same_fs s t"
      using bmap_mapped [OF less.prems(1) mp less.prems(2)] by (auto simp: unat_div)
    have qt: "quiet t" using same_fs_quiet [OF t(2) less.prems(1)] .
    have ft: "itable t = itable s" "content t = content s" using same_fs_tables [OF t(2)] by auto
    obtain i u v where v: "bread ROOTDEV ?a t = Some (i, u)" "b_data (bufs u ! i) = content t ?a" "tx_frame t u"
      "brelse i u = Some v" "same_fs t v" using quiet_bread_brelse [OF qt] by blast
    have sv: "same_fs s v" using t(2) v(5) by (rule same_fs_trans)
    have qv: "quiet v" using same_fs_quiet [OF sv less.prems(1)] .
    have fv: "itable v = itable s" "mapped v = mapped s" "file_byte v = file_byte s"
      using same_fs_tables [OF sv] block_addr_cong [OF sv] by auto
    have n1: "unat (n - (tot + ?m)) = unat (n - tot) - unat ?m"
    proof -
      have "n - (tot + ?m) = (n - tot) - ?m" by simp
      moreover have "?m \<le> n - tot" by simp
      ultimately show ?thesis by (metis unat_sub)
    qed
    have om: "unat (off + ?m) = unat off + unat ?m"
      using less.prems(4) c(3) by (intro unat_add_lem [THEN iffD1]) simp
    have tm: "tot + ?m \<le> n"
    proof -
      have "unat tot + unat ?m \<le> unat n" using c(3,5,6) by linarith
      moreover have "unat n < 2 ^ 32" using unsigned_less [of n] by simp
      ultimately have "unat (tot + ?m) = unat tot + unat ?m" by (intro unat_add_lem [THEN iffD1]) simp
      then show ?thesis using \<open>unat tot + unat ?m \<le> unat n\<close> by (simp add: word_le_nat_alt)
    qed
    have mp': "\<forall>i. unat (off + ?m) \<le> i \<and> i < unat (off + ?m) + unat (n - (tot + ?m)) \<longrightarrow> mapped v ip (i div 1024)"
      using less.prems(5) c(3) unfolding om n1 fv(2) by auto
    let ?bs = "blk_bytes (content s ?a) (unat off mod 1024) (unat ?m)"
    obtain w where w: "readi_loop to_local ip (buf @ ?bs) (off + ?m) (tot + ?m) n v =
      Some (n, (buf @ ?bs) @ map (file_byte v ip) [unat (off + ?m)..<unat (off + ?m) + unat (n - (tot + ?m))], w)"
      "same_fs v w"
      using less.hyps [OF _ qv _ tm _ mp', of "buf @ ?bs"] c(2,3) less.prems(2,4) om n1 fv(1) by auto
    have "?bs = map (file_byte s ip) [unat off..<unat off + unat ?m]"
      by (rule chunk_bytes) (use c(1) in simp)
    then have bytes: "(buf @ ?bs) @ map (file_byte v ip) [unat (off + ?m)..<unat (off + ?m) + unat (n - (tot + ?m))] =
        buf @ map (file_byte s ip) [unat off..<unat off + unat (n - tot)]"
      using c(3) unfolding om n1 fv(3)
      by (simp only: append_assoc map_append [symmetric] upt_join)
    have "readi_loop to_local ip buf off tot n s = readi_loop to_local ip (buf @ ?bs) (off + ?m) (tot + ?m) n v"
      using True t(1) v(1,2,4) mp less.prems(2) ft c(4)
      by (subst readi_loop.simps) (simp add: to_local_def mapped_def unat_div Let_def)
    then show ?thesis using w bytes same_fs_trans [OF sv w(2)] by simp
  qed
qed

lemma sint_unat_small: "unat (w :: u32) < 2 ^ 31 \<Longrightarrow> sint w = int (unat w)"
proof -
  assume a: "unat w < 2 ^ 31"
  have b: "0 \<le> int (unat w) + 2 ^ 31 \<and> int (unat w) + 2 ^ 31 < 2 ^ 32"
  proof -
    have "int (unat w) < 2 ^ 31" using a by (simp only: of_nat_less_iff [symmetric, where 'a = int]) simp
    then show ?thesis by simp
  qed
  have "sint w = sint (word_of_int (int (unat w)) :: u32)" by simp
  also have "\<dots> = (int (unat w) + 2 ^ 31) mod 2 ^ 32 - 2 ^ 31" by (simp only: int_word_sint) simp
  also have "\<dots> = int (unat w)" using b by (simp only: mod_pos_pos_trivial)
  finally show ?thesis .
qed

lemma readi_ok:
  assumes q: "quiet s" and dev: "i_dev (itable s ! ip) = ROOTDEV"
    and o: "off \<le> i_size (itable s ! ip)" "unat off + unat n < 2 ^ 31"
    and m: "\<forall>i. unat off \<le> i \<and> i < unat (i_size (itable s ! ip)) \<longrightarrow> mapped s ip (i div 1024)"
  defines "len \<equiv> min (unat n) (unat (i_size (itable s ! ip)) - unat off)"
  shows "\<exists>t. readi to_local ip buf off n s =
      Some (int len, buf @ map (file_byte s ip) [unat off..<unat off + len], t) \<and> same_fs s t"
proof -
  let ?size = "i_size (itable s ! ip)"
  have on: "unat (off + n) = unat off + unat n" using o(2) by (intro unat_add_lem [THEN iffD1]) simp
  have nov: "\<not> off + n < off" using on by (simp add: word_less_nat_alt)
  let ?n = "if off + n > ?size then ?size - off else n"
  have un: "unat ?n = len"
    using o(1) on by (auto simp: len_def word_less_nat_alt unat_sub word_le_nat_alt)
  have "\<forall>i. unat off \<le> i \<and> i < unat off + unat (?n - 0) \<longrightarrow> mapped s ip (i div 1024)"
    using m o(1) un by (auto simp: len_def word_le_nat_alt)
  moreover have "unat off + unat (?n - 0) < 2 ^ 32" using un o(2) by (simp add: len_def)
  ultimately obtain t where t: "readi_loop to_local ip buf off 0 ?n s =
      Some (?n, buf @ map (file_byte s ip) [unat off..<unat off + unat ?n], t)" "same_fs s t"
    using readi_loop_ok [OF q dev, of 0 ?n off buf] by auto
  have "len < 2 ^ 31" using o(2) by (simp add: len_def)
  then have "sint ?n = int len" using un sint_unat_small [of ?n] by simp
  then show ?thesis using t o(1) nov un by (auto simp: readi_def Let_def not_less split: if_splits)
qed

end
