(* ===== verification/FsRun.thy ===== *)
theory FsRun
  imports FsRead LogRun
begin

section \<open>The file system's promises\<close>

text \<open>
  Freed blocks, directory search and path names on top of \<open>FsDisk\<close> and \<open>FsRead\<close>, and the
  claims about the file system, with a booted file system for the witnesses.
\<close>

subsection \<open>bfree\<close>

lemma bfree_ok:
  assumes ar: "alloc_ready s" and b: "b < fs_size s"
  shows "if b \<in> free_blocks s then bfree ROOTDEV (of_nat b) s = None
    else \<exists>t. bfree ROOTDEV (of_nat b) s = Some t \<and> log_inv t \<and> tx_frame s t \<and> held t = held s \<and>
      free_blocks t = insert b (free_blocks s)"
proof -
  have l: "log_inv s" "1 \<le> log_outstanding s" "lh_n (log_lh s) < 30" "npinned s < NBUF" "held s (bm_block b s) = None"
    "bm_block b s \<notin> log_area (log_start s)" "fs_size s \<le> 2 ^ 31"
    using ar b by (auto simp: alloc_ready_def layout_ok_def)
  have ub: "unat (of_nat b :: u32) = b" using b l(7) by (simp add: unat_of_nat take_bit_nat_eq_self)
  have bb: "BBLOCK b (sb s) = bm_block b s" by (simp add: bm_block_def)
  obtain i t u v w where t: "bread ROOTDEV (bm_block b s) s = Some (i, t)" "b_data (bufs t ! i) = content s (bm_block b s)"
    "tx_frame s t" "bdata i (bm_clear (b mod BPB)) t = u" "log_write i u = Some v" "brelse i v = Some w" "log_inv w"
    "tx_frame s w" "content w = (content s)(bm_block b s := bm_clear (b mod BPB) (content s (bm_block b s)))"
    "held w = held s"
    using logged_update [OF l(1,5,2,6,3,4), of "bm_clear (b mod BPB)"] by blast
  have e: "bfree ROOTDEV (of_nat b) s = (if bm_free (content s (bm_block b s)) (b mod BPB) then None else Some w)"
    by (simp add: bfree_def ub bb t Let_def)
  have f: "b \<in> free_blocks s \<longleftrightarrow> bm_free (content s (bm_block b s)) (b mod BPB)"
    using b by (simp add: free_blocks_def)
  have sbw: "sb w = sb s" using tx_frame_fs [OF t(8)] by simp
  have inj: "c < fs_size s \<Longrightarrow> bm_block c s = bm_block b s \<longleftrightarrow> c div BPB = b div BPB" for c
    using bm_block_inj [of c b s] b l(7) by simp
  have eq: "c div BPB = b div BPB \<Longrightarrow> c mod BPB = b mod BPB \<longleftrightarrow> c = b" for c by (metis div_mult_mod_eq)
  have "free_blocks w = insert b (free_blocks s)"
  proof (rule set_eqI)
    fix c show "c \<in> free_blocks w \<longleftrightarrow> c \<in> insert b (free_blocks s)"
    proof (cases "c < fs_size s")
      case True
      then show ?thesis using inj [OF True] eq [of c] b
        by (cases "bm_block c s = bm_block b s")
          (auto simp: free_blocks_def fs_size_def bm_block_def sbw t(9) bm_free_clear)
    qed (use b in \<open>auto simp: free_blocks_def fs_size_def sbw\<close>)
  qed
  then show ?thesis using e f t by auto
qed

subsection \<open>Directory search\<close>

definition dir_entry :: "'a kinodes_scheme \<Rightarrow> nat \<Rightarrow> nat \<Rightarrow> u8 list" where
  "dir_entry s dp k = map (file_byte s dp) [16 * k..<16 * k + 16]"

definition entry_matches :: "'a kinodes_scheme \<Rightarrow> nat \<Rightarrow> bytes \<Rightarrow> nat \<Rightarrow> bool" where
  "entry_matches s dp name k \<longleftrightarrow>
     de_inum (dir_entry s dp k) \<noteq> 0 \<and> namecmp name (de_name (dir_entry s dp k)) = 0"

text \<open>A directory whose entries are all in mapped blocks.\<close>

definition dir_ok :: "'a kinodes_scheme \<Rightarrow> nat \<Rightarrow> nat \<Rightarrow> bool" where
  "dir_ok s dp n \<longleftrightarrow> quiet s \<and> i_dev (itable s ! dp) = ROOTDEV \<and> i_type (itable s ! dp) = T_DIR \<and>
     unat (i_size (itable s ! dp)) = 16 * n \<and> 16 * n + 16 < 2 ^ 31 \<and>
     (\<forall>i<16 * n. mapped s dp (i div 1024))"

lemma dir_ok_cong: "same_fs s t \<Longrightarrow> dir_ok s dp n \<Longrightarrow> dir_ok t dp n"
  using same_fs_quiet [of s t] same_fs_tables [of s t] block_addr_cong [of s t] by (simp add: dir_ok_def)

lemma dir_entry_cong: "same_fs s t \<Longrightarrow> dir_entry t = dir_entry s \<and> entry_matches t = entry_matches s"
  using block_addr_cong [of s t] by (intro conjI ext) (simp_all add: dir_entry_def entry_matches_def)

lemma read_entry:
  assumes d: "dir_ok s dp n" and k: "k < n"
  shows "\<exists>t. readi to_local dp [] (of_nat (16 * k)) 16 s = Some (16, dir_entry s dp k, t) \<and> same_fs s t"
proof -
  have q: "quiet s" "i_dev (itable s ! dp) = ROOTDEV" "unat (i_size (itable s ! dp)) = 16 * n" "16 * n + 16 < 2 ^ 31"
    "\<forall>i<16 * n. mapped s dp (i div 1024)" using d by (auto simp: dir_ok_def)
  have u: "unat (of_nat (16 * k) :: u32) = 16 * k"
    using q(4) k by (simp add: unat_of_nat take_bit_nat_eq_self del: of_nat_mult)
  have len: "min (unat (16::u32)) (unat (i_size (itable s ! dp)) - unat (of_nat (16 * k) :: u32)) = 16"
    unfolding u q(3) using k by auto
  have "of_nat (16 * k) \<le> i_size (itable s ! dp)" unfolding word_le_nat_alt u q(3) using k by simp
  moreover have "unat (of_nat (16 * k) :: u32) + unat (16::u32) < 2 ^ 31" unfolding u using q(4) k by simp
  moreover have "\<forall>i. unat (of_nat (16 * k) :: u32) \<le> i \<and> i < unat (i_size (itable s ! dp)) \<longrightarrow> mapped s dp (i div 1024)"
    unfolding q(3) using q(5) by simp
  ultimately obtain t where "readi to_local dp [] (of_nat (16 * k)) 16 s =
      Some (int 16, [] @ map (file_byte s dp) [unat (of_nat (16 * k) :: u32)..<unat (of_nat (16 * k) :: u32) + 16], t)"
    "same_fs s t"
    using readi_ok [OF q(1,2), of "of_nat (16 * k)" 16 "[]"] unfolding len by blast
  then show ?thesis unfolding u by (simp add: dir_entry_def)
qed

lemma dirlookup_loop_ok:
  assumes "dir_ok s dp n" "k \<le> n"
  shows "\<exists>t. same_fs s t \<and> dirlookup_loop dp name (of_nat (16 * k)) s =
    (case List.find (entry_matches s dp name) [k..<n] of
       None \<Rightarrow> Some (None, t)
     | Some j \<Rightarrow> map_option (\<lambda>(ip, u). (Some (ip, of_nat (16 * j)), u))
         (iget ROOTDEV (ucast (de_inum (dir_entry s dp j))) t))"
  using assms
proof (induction "n - k" arbitrary: s k)
  case 0
  then have k: "k = n" by simp
  have "quiet s" "unat (i_size (itable s ! dp)) = 16 * n" "16 * n + 16 < 2 ^ 31"
    using 0(2) by (auto simp: dir_ok_def)
  then have "\<not> of_nat (16 * k) < i_size (itable s ! dp)"
    unfolding k word_less_nat_alt by (simp add: unat_of_nat take_bit_nat_eq_self del: of_nat_mult)
  then have "dirlookup_loop dp name (of_nat (16 * k)) s = Some (None, s)" by (subst dirlookup_loop.simps) simp
  then show ?case using k same_fs_refl [OF \<open>quiet s\<close>] by auto
next
  case (Suc d)
  have kn: "k < n" and dd: "d = n - Suc k" using Suc(2) by simp_all
  have sz: "unat (i_size (itable s ! dp)) = 16 * n" "16 * n + 16 < 2 ^ 31" and dev: "i_dev (itable s ! dp) = ROOTDEV"
    using Suc(3) by (auto simp: dir_ok_def)
  have lt: "of_nat (16 * k) < i_size (itable s ! dp)"
    unfolding word_less_nat_alt sz(1) using kn sz(2) by (simp add: unat_of_nat take_bit_nat_eq_self del: of_nat_mult)
  obtain t where t: "readi to_local dp [] (of_nat (16 * k)) 16 s = Some (16, dir_entry s dp k, t)" "same_fs s t"
    using read_entry [OF Suc(3) kn] by blast
  have nx: "of_nat (16 * k) + 16 = (of_nat (16 * Suc k) :: u32)" by simp
  have dt: "i_dev (itable t ! dp) = ROOTDEV" using dev same_fs_tables [OF t(2)] by simp
  have st: "dirlookup_loop dp name (of_nat (16 * k)) s =
     (if entry_matches s dp name k
      then map_option (\<lambda>(ip, u). (Some (ip, of_nat (16 * k)), u)) (iget ROOTDEV (ucast (de_inum (dir_entry s dp k))) t)
      else dirlookup_loop dp name (of_nat (16 * Suc k)) t)"
    by (subst dirlookup_loop.simps)
      (use lt in \<open>simp add: t(1) nx dt entry_matches_def del: of_nat_mult of_nat_Suc mult_Suc_right split: option.split\<close>,
       auto simp: map_option_case split: option.split)
  have up: "[k..<n] = k # [Suc k..<n]" using kn by (simp add: upt_conv_Cons)
  show ?case
  proof (cases "entry_matches s dp name k")
    case True then show ?thesis using st t(2) up by auto
  next
    case False
    obtain u where u: "same_fs t u" "dirlookup_loop dp name (of_nat (16 * Suc k)) t =
      (case List.find (entry_matches s dp name) [Suc k..<n] of
         None \<Rightarrow> Some (None, u)
       | Some j \<Rightarrow> map_option (\<lambda>(ip, u). (Some (ip, of_nat (16 * j)), u))
           (iget ROOTDEV (ucast (de_inum (dir_entry s dp j))) u))"
      using Suc(1) [OF dd dir_ok_cong [OF t(2) Suc(3)]] kn unfolding conjunct1 [OF dir_entry_cong [OF t(2)]]
        conjunct2 [OF dir_entry_cong [OF t(2)]] by (meson Suc_leI)
    then show ?thesis using st False up same_fs_trans [OF t(2) u(1)] by auto
  qed
qed


lemma dirlookup_ok:
  assumes "dir_ok s dp n"
  shows "\<exists>t. same_fs s t \<and> dirlookup dp name s =
    (case List.find (entry_matches s dp name) [0..<n] of
       None \<Rightarrow> Some (None, t)
     | Some j \<Rightarrow> map_option (\<lambda>(ip, u). (Some (ip, of_nat (16 * j)), u))
         (iget ROOTDEV (ucast (de_inum (dir_entry s dp j))) t))"
  using dirlookup_loop_ok [OF assms, of 0 name] assms by (simp add: dirlookup_def dir_ok_def)

subsection \<open>Path names\<close>

text \<open>
  The reference: the maximal runs of characters other than \<open>/\<close>, collected character by
  character.  \<open>path_names\<close> applies the source's \<open>skipelem\<close> until it returns 0, as \<open>namex\<close>
  does, and collects the names it stored.
\<close>

fun words :: "u8 list \<Rightarrow> u8 list \<Rightarrow> u8 list list" where
  "words acc [] = (if acc = [] then [] else [acc])"
| "words acc (c # cs) =
     (if c = SLASH then (if acc = [] then words [] cs else acc # words [] cs) else words (acc @ [c]) cs)"

definition name_of :: "bytes \<Rightarrow> u8 list" where
  "name_of nm = takeWhile (\<lambda>c. c \<noteq> 0) (map nm [0..<DIRSIZ])"

lemma words_skip: "words [] (dropWhile (\<lambda>c. c = SLASH) p) = words [] p"
  by (induction p) auto

lemma words_elem:
  "acc @ takeWhile (\<lambda>c. c \<noteq> SLASH) p \<noteq> [] \<Longrightarrow>
    words acc p = (acc @ takeWhile (\<lambda>c. c \<noteq> SLASH) p) # words [] (dropWhile (\<lambda>c. c \<noteq> SLASH) p)"
  by (induction acc p rule: words.induct) auto

lemma skipelem_None: "skipelem path nm = None \<longleftrightarrow> words [] path = []"
proof -
  let ?s = "dropWhile (\<lambda>c. c = SLASH) path"
  have "words [] ?s \<noteq> []" if "?s \<noteq> []"
    using hd_dropWhile [OF that] that words_elem [of "[]" ?s] by (cases ?s) auto
  then show ?thesis using words_skip [of path]
    by (cases "?s = []") (auto simp: skipelem_def Let_def)
qed

lemma name_of_short:
  assumes "length e < DIRSIZ" "0 \<notin> set e"
  shows "name_of ((blk_store 0 e nm)(length e := 0)) = e"
proof -
  have m: "map ((blk_store 0 e nm)(length e := 0)) [0..<DIRSIZ] =
      e @ 0 # map ((blk_store 0 e nm)(length e := 0)) [Suc (length e)..<DIRSIZ]"
    using assms(1) by (intro nth_equalityI) (auto simp: blk_store_def nth_append nth_Cons')
  show ?thesis unfolding name_of_def m using assms(2) by (subst takeWhile_append2) auto
qed

lemma name_of_long:
  assumes "\<not> length e < DIRSIZ" "0 \<notin> set e"
  shows "name_of (blk_store 0 (take DIRSIZ e) nm) = take DIRSIZ e"
proof -
  have m: "map (blk_store 0 (take DIRSIZ e) nm) [0..<DIRSIZ] = take DIRSIZ e"
    using assms(1) by (intro nth_equalityI) (auto simp: blk_store_def)
  show ?thesis unfolding name_of_def m using assms(2)
    by (intro takeWhile_eq_all_conv [THEN iffD2]) (metis in_set_takeD)
qed

lemma skipelem_Some:
  assumes "skipelem path nm = Some (rest, nm')" "0 \<notin> set path"
  shows "\<exists>e. words [] path = e # words [] rest \<and> name_of nm' = take DIRSIZ e \<and>
    length rest < length path \<and> 0 \<notin> set rest"
proof -
  define s where "s = dropWhile (\<lambda>c. c = SLASH) path"
  define e where "e = takeWhile (\<lambda>c. c \<noteq> SLASH) s"
  have ne: "s \<noteq> []" using assms(1) by (auto simp: skipelem_def s_def [symmetric])
  then have e: "e \<noteq> []" using hd_dropWhile [of "\<lambda>c. c = SLASH" path] unfolding e_def s_def by (cases s) (auto simp: s_def)
  have r: "rest = dropWhile (\<lambda>c. c = SLASH) (dropWhile (\<lambda>c. c \<noteq> SLASH) s)"
    and n: "nm' = (if length e \<ge> DIRSIZ then blk_store 0 (take DIRSIZ e) nm else (blk_store 0 e nm)(length e := 0))"
    using assms(1) ne by (auto simp: skipelem_def Let_def s_def [symmetric] e_def [symmetric])
  have w: "words [] path = e # words [] rest"
    using words_elem [of "[]" s] e words_skip [of path] by (simp add: e_def s_def [symmetric] r words_skip)
  have sp: "set s \<subseteq> set path" unfolding s_def by (meson set_dropWhileD subsetI)
  then have z: "0 \<notin> set e" using assms(2) unfolding e_def by (meson set_takeWhileD subsetD)
  have "0 \<notin> set rest" unfolding r using assms(2) sp by (meson set_dropWhileD subsetD)
  moreover have "length rest < length path"
  proof -
    have "length s = length e + length (dropWhile (\<lambda>c. c \<noteq> SLASH) s)"
      unfolding e_def by (metis length_append takeWhile_dropWhile_id)
    moreover have "0 < length e" using e by simp
    moreover have "length s \<le> length path" unfolding s_def by (rule length_dropWhile_le)
    moreover have "length rest \<le> length (dropWhile (\<lambda>c. c \<noteq> SLASH) s)" unfolding r by (rule length_dropWhile_le)
    ultimately show ?thesis by linarith
  qed
  moreover have "name_of nm' = take DIRSIZ e"
    unfolding n using name_of_short [OF _ z] name_of_long [OF _ z] by (auto simp: not_le)
  ultimately show ?thesis using w by blast
qed

function path_names :: "u8 list \<Rightarrow> u8 list list" where
  "path_names path = (if 0 \<in> set path then []
     else case skipelem path (\<lambda>_. 0) of None \<Rightarrow> [] | Some (rest, nm) \<Rightarrow> name_of nm # path_names rest)"
  by auto
termination by (relation "measure length") (use skipelem_Some in auto)

declare path_names.simps [simp del]

subsection \<open>A booted file system\<close>

lemma demo_fs:
  assumes "disk_header d 2 = 0"
  shows "\<exists>s::kinodes. quiet s \<and> log_start s = 2 \<and> log_outstanding s = 1 \<and> lh_n (log_lh s) = 0 \<and>
    logged s = {} \<and> sb s = b \<and> itable s = tab \<and> (\<forall>bn. bn \<noteq> 2 \<longrightarrow> content s bn = d bn)"
proof -
  obtain s :: kinodes where s: "writer d 0 s" using writer_exists [OF assms, of 0] by auto
  then have w: "log_inv s" "nothing_held s" "log_start s = 2" "log_outstanding s = 1" "lh_n (log_lh s) = 0" "logged s = {}"
    "\<forall>bn. bn \<noteq> 2 \<longrightarrow> content s bn = d bn" by (auto simp: writer_def)
  define t where "t = s\<lparr>sb := b, itable := tab\<rparr>"
  have run: "running t" using w(1) by (simp add: t_def log_inv_def bc_ok_def running_def)
  have "log_inv t \<and> content t = content s \<and> held t = held s \<and> logged t = logged s"
    using log_inv_cong [OF w(1), of t] run by (simp add: t_def)
  then have "quiet t \<and> log_start t = 2 \<and> log_outstanding t = 1 \<and> lh_n (log_lh t) = 0 \<and> logged t = {} \<and> sb t = b \<and>
      itable t = tab \<and> (\<forall>bn. bn \<noteq> 2 \<longrightarrow> content t bn = d bn)"
    using w by (simp add: quiet_def nothing_held_def t_def)
  then show ?thesis by blast
qed

definition demo_sb :: superblock where
  "demo_sb = \<lparr>sb_magic = FSMAGIC, sb_size = 47, sb_nblocks = 1, sb_ninodes = 16, sb_nlog = 31, sb_logstart = 2,
     sb_inodestart = 40, sb_bmapstart = 45\<rparr>"

text \<open>A directory with the entries \<open>.\<close> (inode 1) and \<open>ab\<close> (inode 2) in block 50.\<close>

definition demo_dir :: inode where
  "demo_dir = \<lparr>i_dev = ROOTDEV, i_inum = 1, i_ref = 1, i_lock = initsleeplock, i_valid = True, i_type = T_DIR,
     i_major = 0, i_minor = 0, i_nlink = 1, i_size = 32, i_addrs = 50 # replicate 12 0\<rparr>"

text \<open>Another table entry for the same inode, not yet read from the disk.\<close>

definition demo_unread :: inode where
  "demo_unread = demo_dir\<lparr>i_valid := False, i_type := 0, i_size := 0, i_addrs := []\<rparr>"

definition demo_disk :: "u32 \<Rightarrow> block" where
  "demo_disk = (\<lambda>_ _. 0)
     (45 := (\<lambda>i. if i < 5 then 255 else if i = 5 then 63 else 0),
      50 := (\<lambda>i. [1, 0, 46, 0, 0, 0, 0, 0, 0, 0, 0, 0, 0, 0, 0, 0,
                  2, 0, 97, 98, 0, 0, 0, 0, 0, 0, 0, 0, 0, 0, 0, 0] ! i))"

definition demo_file_system :: "kinodes \<Rightarrow> bool" where
  "demo_file_system s \<longleftrightarrow> quiet s \<and> log_start s = 2 \<and> log_outstanding s = 1 \<and> lh_n (log_lh s) = 0 \<and> logged s = {} \<and>
     sb s = demo_sb \<and> itable s = [demo_dir, demo_unread] @ replicate 48 (demo_dir\<lparr>i_ref := 0\<rparr>) \<and>
     (\<forall>bn. bn \<noteq> 2 \<longrightarrow> content s bn = demo_disk bn)"

lemma demo_file_system_exists: "\<exists>s. demo_file_system s"
proof -
  have "disk_header demo_disk 2 = 0" by (simp add: disk_header_def get32_def demo_disk_def)
  from demo_fs [OF this, of demo_sb] show ?thesis by (auto simp: demo_file_system_def)
qed

subsection \<open>The claims\<close>

text \<open>C14. \<open>iupdate\<close> and \<open>ilock\<close> are inverse.  Inside a transaction, \<open>iupdate\<close> of an inode
  succeeds and changes nothing of any other inode on the disk; a table entry for the same
  inode number that has not been read yet gets, from the \<open>ilock\<close> that loads it, exactly the
  type, device numbers, link count, size and block addresses that were written.\<close>

theorem iupdate_ilock_roundtrip:
  fixes s :: "'a kinodes_scheme"
  assumes "quiet s" "1 \<le> log_outstanding s" "lh_n (log_lh s) < 29"
    and "i_dev (itable s ! ip) = ROOTDEV" "i_type (itable s ! ip) \<noteq> 0" "length (i_addrs (itable s ! ip)) = NDIRECT + 1"
    and "IBLOCK (unat (i_inum (itable s ! ip))) (sb s) \<notin> log_area (log_start s)"
    and "jp < length (itable s)" "i_inum (itable s ! jp) = i_inum (itable s ! ip)" "i_dev (itable s ! jp) = ROOTDEV"
      "1 \<le> i_ref (itable s ! jp)" "\<not> i_valid (itable s ! jp)" "\<not> sl_locked (i_lock (itable s ! jp))"
  shows "\<exists>t u. iupdate ip s = Some t \<and> ilock jp t = Some u \<and>
    inode_dinode (itable u ! jp) = inode_dinode (itable s ! ip) \<and> i_valid (itable u ! jp) \<and>
    (\<forall>n. n \<noteq> i_inum (itable s ! ip) \<longrightarrow> inode_on_disk u (unat n) = inode_on_disk s (unat n))"
proof -
  have l: "length (i_addrs (itable s ! ip)) = 13" using assms(6) by (simp add: NDIRECT_def)
  obtain t where t: "iupdate ip s = Some t" "log_inv t" "nothing_held t" "tx_frame s t" "lh_n (log_lh t) \<le> lh_n (log_lh s) + 1"
    "inode_on_disk t (unat (i_inum (itable s ! ip))) = inode_dinode (itable s ! ip)"
    "\<forall>j::u32. j \<noteq> i_inum (itable s ! ip) \<longrightarrow> inode_on_disk t (unat j) = inode_on_disk s (unat j)"
    using iupdate_inodes [OF assms(1,2) refl assms(4,7) l] by blast
  have q: "quiet t" using t assms(3) by (simp add: quiet_def)
  have tab: "itable t = itable s" using tx_frame_fs [OF t(4)] by simp
  have ty: "d_type (inode_on_disk t (unat (i_inum (itable t ! jp)))) \<noteq> 0"
    using t(6) assms(5,9) by (simp add: tab inode_dinode_def)
  obtain u where u: "ilock jp t = Some u" "content u = content t" "sb u = sb t"
    "inode_dinode (itable u ! jp) = inode_on_disk t (unat (i_inum (itable t ! jp)))" "i_valid (itable u ! jp)"
    using ilock_load [OF q _ _ _ _ _ ty] assms(8,10-13) by (auto simp: tab)
  have d: "inode_on_disk u = inode_on_disk t" by (intro ext) (simp add: inode_on_disk_def u(2,3))
  show ?thesis using t(1,6,7) u assms(9) by (auto simp: tab d)
qed

theorem iupdate_ilock_roundtrip_witness:
  "\<exists>(s::kinodes) t u. i_size (itable s ! 1) = 0 \<and> iupdate 0 s = Some t \<and> ilock 1 t = Some u \<and> i_size (itable u ! 1) = 32"
proof -
  obtain s where s: "demo_file_system s" using demo_file_system_exists by blast
  have area: "(40::u32) \<notin> log_area 2"
  proof
    assume "(40::u32) \<in> log_area 2"
    then obtain j where "j \<le> 30" "(of_nat 40 :: u32) = of_nat (2 + j)" by (auto simp: log_area_def)
    then show False using of_nat_u32_inj [of 40 "2 + j"] by simp
  qed
  have it: "itable s ! 0 = demo_dir" "itable s ! 1 = demo_unread" "1 < length (itable s)"
    using s by (auto simp: demo_file_system_def)
  have q: "quiet s" "1 \<le> log_outstanding s" "lh_n (log_lh s) < 29" "log_start s = 2" "sb s = demo_sb"
    using s by (auto simp: demo_file_system_def)
  have ib: "IBLOCK (unat (i_inum (itable s ! 0))) (sb s) = 40"
    by (simp add: it q demo_dir_def demo_sb_def IBLOCK_def IPB_def BSIZE_def)
  have f: "i_dev (itable s ! 0) = ROOTDEV" "i_type (itable s ! 0) \<noteq> 0" "length (i_addrs (itable s ! 0)) = NDIRECT + 1"
    "i_inum (itable s ! 1) = i_inum (itable s ! 0)" "i_dev (itable s ! 1) = ROOTDEV" "1 \<le> i_ref (itable s ! 1)"
    "\<not> i_valid (itable s ! 1)" "\<not> sl_locked (i_lock (itable s ! 1))"
    unfolding it by (simp_all add: demo_dir_def demo_unread_def NDIRECT_def T_DIR_def initsleeplock_def)
  obtain t u where t: "iupdate 0 s = Some t" "ilock 1 t = Some u"
      "inode_dinode (itable u ! 1) = inode_dinode (itable s ! 0)"
    using iupdate_ilock_roundtrip [OF q(1-3) f(1-3) _ it(3) f(4-8)] area unfolding ib q(4) by blast
  have "d_size (inode_dinode (itable u ! 1)) = 32" unfolding t(3) it by (simp add: inode_dinode_def demo_dir_def)
  then have "i_size (itable u ! 1) = 32" by (simp add: inode_dinode_def)
  moreover have "i_size (itable s ! 1) = 0" unfolding it by (simp add: demo_unread_def)
  ultimately show ?thesis using t(1,2) by blast
qed

text \<open>C13. \<open>balloc\<close> hands out the lowest free block, zeroed and marked in the bitmap, and leaves
  every other block and every other bit alone; it returns 0 exactly when no block is free.\<close>

theorem balloc_lowest_free:
  fixes s :: "'a kinodes_scheme"
  assumes "alloc_ready s"
  shows "\<exists>a t. balloc ROOTDEV s = Some (a, t) \<and> log_inv t \<and> held t = held s \<and>
    (if free_blocks s = {} then a = 0 \<and> content t = content s
     else a = of_nat (Min (free_blocks s)) \<and> content t a = (\<lambda>_. 0) \<and>
       free_blocks t = free_blocks s - {Min (free_blocks s)} \<and>
       (\<forall>bn. bn \<noteq> a \<and> bn \<noteq> bm_block (Min (free_blocks s)) s \<longrightarrow> content t bn = content s bn))"
proof (cases "free_blocks s = {}")
  case True then show ?thesis using balloc_ok [OF assms] by auto
next
  case False
  then obtain t where t: "balloc ROOTDEV s = Some (of_nat (Min (free_blocks s)), t)" "allocated (Min (free_blocks s)) s t"
    using balloc_ok [OF assms] by auto
  have "finite (free_blocks s)" by (rule finite_subset [of _ "{..<fs_size s}"]) (auto simp: free_blocks_def)
  then have "Min (free_blocks s) \<in> free_blocks s" using False by simp
  from allocated_free [OF assms this t(2)] show ?thesis using t False by (auto simp: allocated_def)
qed

lemma demo_area: "n \<noteq> 2 \<Longrightarrow> 32 < n \<Longrightarrow> n < 1000 \<Longrightarrow> (of_nat n :: u32) \<notin> log_area 2"
proof
  assume n: "32 < n" "n < 1000" and "(of_nat n :: u32) \<in> log_area 2"
  then obtain j where "j \<le> 30" "(of_nat n :: u32) = of_nat (2 + j)" by (auto simp: log_area_def)
  then show False using of_nat_u32_inj [of n "2 + j"] n by simp
qed

lemma demo_alloc:
  assumes "demo_file_system s"
  shows "alloc_ready s \<and> free_blocks s = {46}"
proof -
  have q: "quiet s" "log_start s = 2" "log_outstanding s = 1" "lh_n (log_lh s) = 0" "sb s = demo_sb"
    "content s 45 = demo_disk 45" using assms by (auto simp: demo_file_system_def)
  have sz: "fs_size s = 47" by (simp add: fs_size_def q demo_sb_def)
  have bm: "bm_block b s = 45" if "b < 47" for b
    using that by (simp add: bm_block_def BBLOCK_def q demo_sb_def BPB_val)
  have bits: "bm_free (demo_disk 45) b \<longleftrightarrow> b = 46" if "b < 47" for b
  proof -
    have "\<forall>b\<in>set [0..<47]. bm_free (demo_disk 45) b \<longleftrightarrow> b = 46" by code_simp
    then show ?thesis using that by simp
  qed
  have free: "free_blocks s = {46}" using bm bits sz by (auto simp: free_blocks_def q BPB_val)
  have "npinned s = 0" using npinned_logged [of s] q(1,4) by (simp add: quiet_def)
  moreover have "(46::u32) \<notin> log_area 2" "(45::u32) \<notin> log_area 2" using demo_area [of 46] demo_area [of 45] by simp_all
  ultimately have "alloc_ready s" using q free bm quiet_unheld [OF q(1)]
    by (auto simp: alloc_ready_def layout_ok_def sz quiet_def NBUF_def)
  then show ?thesis using free by simp
qed

theorem balloc_lowest_free_witness:
  "\<exists>(s::kinodes) t. balloc ROOTDEV s = Some (46, t) \<and> content t 46 = (\<lambda>_. 0) \<and> free_blocks t = {}"
proof -
  obtain s where s: "demo_file_system s" using demo_file_system_exists by blast
  then show ?thesis using balloc_lowest_free [of s] demo_alloc [OF s] by auto
qed

text \<open>C12. \<open>readi\<close> returns the file's bytes: in a file whose blocks are all mapped, a read of
  \<open>n\<close> bytes at \<open>off\<close> gives the bytes of the file from there, cut off at its size, and
  nothing beyond the end; neither the disk nor the log changes.\<close>

theorem readi_reads_file:
  fixes s :: "'a kinodes_scheme"
  assumes "quiet s" "i_dev (itable s ! ip) = ROOTDEV" "unat off + unat n < 2 ^ 31"
    and "\<forall>i<unat (i_size (itable s ! ip)). mapped s ip (i div BSIZE)"
  shows "\<exists>t. readi to_local ip [] off n s =
      Some (int (min (unat n) (unat (i_size (itable s ! ip)) - unat off)),
        take (unat n) (drop (unat off) (map (file_byte s ip) [0..<unat (i_size (itable s ! ip))])), t) \<and> same_fs s t"
proof (cases "off \<le> i_size (itable s ! ip)")
  case True
  let ?sz = "unat (i_size (itable s ! ip))"
  have m: "\<forall>i. unat off \<le> i \<and> i < ?sz \<longrightarrow> mapped s ip (i div 1024)" using assms(4) by (simp add: BSIZE_def)
  have "take (unat n) (drop (unat off) (map (file_byte s ip) [0..<?sz])) =
      map (file_byte s ip) [unat off..<unat off + min (unat n) (?sz - unat off)]"
    by (intro nth_equalityI) auto
  then show ?thesis using readi_ok [OF assms(1,2) True assms(3) m, of "[]"] by auto
next
  case False
  then have "unat (i_size (itable s ! ip)) \<le> unat off" by (simp add: word_le_nat_alt)
  then show ?thesis using False same_fs_refl [OF assms(1)] by (simp add: readi_def Let_def not_le)
qed

theorem readi_reads_file_witness:
  "\<exists>(s::kinodes) t. readi to_local 0 [] 16 100 s = Some (16, [2, 0, 97, 98, 0, 0, 0, 0, 0, 0, 0, 0, 0, 0, 0, 0], t)"
proof -
  obtain s where s: "demo_file_system s" using demo_file_system_exists by blast
  then have q: "quiet s" "itable s ! 0 = demo_dir" "content s 50 = demo_disk 50" by (auto simp: demo_file_system_def)
  have m: "\<forall>i<unat (i_size (itable s ! 0)). mapped s 0 (i div BSIZE)"
    by (auto simp: q mapped_def block_addr_def demo_dir_def BSIZE_def MAXFILE_def NDIRECT_def)
  have fb: "map (file_byte s 0) [0..<32] = map (demo_disk 50) [0..<32]"
    by (auto simp: file_byte_def block_addr_def q demo_dir_def NDIRECT_def)
  have v: "take 100 (drop 16 (map (demo_disk 50) [0..<32])) = [2, 0, 97, 98, 0, 0, 0, 0, 0, 0, 0, 0, 0, 0, 0, 0]"
    by code_simp
  show ?thesis using readi_reads_file [OF q(1) _ _ m, of 16 100] fb v by (auto simp: q demo_dir_def)
qed

text \<open>C29. \<open>dirlookup\<close> finds the first entry in use whose name agrees with the given one up to
  14 characters, returns the inode \<open>iget\<close> gives for its number and the entry's offset, and
  0 when there is none.\<close>

theorem dirlookup_first_match:
  fixes s :: "'a kinodes_scheme"
  assumes "dir_ok s dp n"
  shows "\<exists>t. same_fs s t \<and>
    ((\<forall>k<n. \<not> entry_matches s dp name k) \<and> dirlookup dp name s = Some (None, t) \<or>
     (\<exists>k<n. entry_matches s dp name k \<and> (\<forall>j<k. \<not> entry_matches s dp name j) \<and>
       dirlookup dp name s = map_option (\<lambda>(ip, u). (Some (ip, of_nat (16 * k)), u))
         (iget ROOTDEV (ucast (de_inum (dir_entry s dp k))) t)))"
proof -
  obtain t where t: "same_fs s t" "dirlookup dp name s =
    (case List.find (entry_matches s dp name) [0..<n] of
       None \<Rightarrow> Some (None, t)
     | Some j \<Rightarrow> map_option (\<lambda>(ip, u). (Some (ip, of_nat (16 * j)), u)) (iget ROOTDEV (ucast (de_inum (dir_entry s dp j))) t))"
    using dirlookup_ok [OF assms, of name] by blast
  show ?thesis
  proof (cases "List.find (entry_matches s dp name) [0..<n]")
    case None
    then have "\<forall>k<n. \<not> entry_matches s dp name k" by (simp add: find_None_iff)
    moreover have "dirlookup dp name s = Some (None, t)" using t(2) None by simp
    ultimately show ?thesis using t(1) by blast
  next
    case (Some k)
    then have "k < n" "entry_matches s dp name k" "\<forall>j<k. \<not> entry_matches s dp name j"
      by (auto simp: find_Some_iff)
    moreover have "dirlookup dp name s = map_option (\<lambda>(ip, u). (Some (ip, of_nat (16 * k)), u))
         (iget ROOTDEV (ucast (de_inum (dir_entry s dp k))) t)" using t(2) Some by simp
    ultimately show ?thesis using t(1) by blast
  qed
qed

theorem dirlookup_first_match_witness:
  "\<exists>(s::kinodes) t. dirlookup 0 ((\<lambda>_. 0)(0 := 97, 1 := 98)) s = Some (Some (2, 16), t)"
proof -
  obtain s where s: "demo_file_system s" using demo_file_system_exists by blast
  then have q: "quiet s" "itable s ! 0 = demo_dir" "content s 50 = demo_disk 50"
    and tab: "itable s = [demo_dir, demo_unread] @ replicate 48 (demo_dir\<lparr>i_ref := 0\<rparr>)"
    by (auto simp: demo_file_system_def)
  have d: "dir_ok s 0 2"
    by (auto simp: dir_ok_def q mapped_def block_addr_def demo_dir_def MAXFILE_def NDIRECT_def)
  have e: "dir_entry s 0 k = map (demo_disk 50) [16 * k..<16 * k + 16]" if "k < 2" for k
    using that by (auto simp: dir_entry_def file_byte_def block_addr_def q demo_dir_def NDIRECT_def)
  let ?nm = "(\<lambda>_. 0)(0 := 97, 1 := 98) :: bytes"
  have e0: "dir_entry s 0 0 = [1, 0, 46, 0, 0, 0, 0, 0, 0, 0, 0, 0, 0, 0, 0, 0]"
    and e1: "dir_entry s 0 1 = [2, 0, 97, 98, 0, 0, 0, 0, 0, 0, 0, 0, 0, 0, 0, 0]"
    using e [of 0] e [of 1] by (simp_all add: demo_disk_def upt_conv_Cons)
  have m0: "\<not> entry_matches s 0 ?nm 0" and m1: "entry_matches s 0 ?nm 1" and i1: "de_inum (dir_entry s 0 1) = 2"
    unfolding entry_matches_def e0 e1 by code_simp+
  obtain t where t: "same_fs s t" and r: "dirlookup 0 ?nm s =
      map_option (\<lambda>(ip, u). (Some (ip, of_nat (16 * 1)), u)) (iget ROOTDEV (ucast (de_inum (dir_entry s 0 1))) t)"
  proof -
    have k1: "k = 1" if "k < 2" "entry_matches s 0 ?nm k" for k
      using that m0 by (cases "k = 0") auto
    show thesis using dirlookup_first_match [OF d, of ?nm] m1 k1 that by fastforce
  qed
  have tt: "itable t = [demo_dir, demo_unread] @ replicate 48 (demo_dir\<lparr>i_ref := 0\<rparr>)"
    using same_fs_tables [OF t] tab by simp
  have f1: "List.find (\<lambda>i. i_ref (itable t ! i) > 0 \<and> i_dev (itable t ! i) = ROOTDEV \<and> i_inum (itable t ! i) = 2) [0..<NINODE] = None"
    unfolding find_None_iff by (auto simp: tt nth_append nth_Cons' demo_dir_def demo_unread_def NINODE_def)
  have f2: "List.find (\<lambda>i. i_ref (itable t ! i) = 0) [0..<NINODE] = Some 2"
    by (simp add: NINODE_def upt_conv_Cons tt demo_dir_def demo_unread_def)
  obtain u where "iget ROOTDEV 2 t = Some (2, u)" by (simp add: iget_def f1 f2)
  then have "dirlookup 0 ?nm s = Some (Some (2, 16), u)" using r unfolding i1 by simp
  then show ?thesis by blast
qed

text \<open>C30. \<open>skipelem\<close> parses paths.  Applied again and again, as \<open>namex\<close> does, it terminates and
  yields exactly the runs of characters between slashes, in order, each cut to 14
  characters; repeated, leading and trailing slashes make no difference.\<close>

theorem skipelem_parses_path:
  assumes "0 \<notin> set path"
  shows "path_names path = map (take DIRSIZ) (words [] path)"
  using assms
proof (induction path rule: path_names.induct)
  case (1 path)
  show ?case
  proof (cases "skipelem path (\<lambda>_. 0)")
    case None
    then show ?thesis using skipelem_None [of path] by (subst path_names.simps) simp
  next
    case (Some r)
    obtain rest nm where r: "r = (rest, nm)" by (cases r)
    obtain e where "words [] path = e # words [] rest" "name_of nm = take DIRSIZ e" "0 \<notin> set rest"
      using skipelem_Some [OF Some [unfolded r] "1.prems"] by blast
    then show ?thesis using "1.IH" [OF _ Some r [symmetric]] "1.prems" Some r by (subst path_names.simps) simp
  qed
qed

theorem skipelem_parses_path_witness:
  "path_names [47, 97, 47, 47, 98, 98, 47] = [[97], [98, 98]]"
  using skipelem_parses_path [of "[47, 97, 47, 47, 98, 98, 47]"] by (simp add: SLASH_def DIRSIZ_def)

end
