(* ===== verification/Ftable.thy ===== *)
theory Ftable
  imports Fs
begin

section \<open>Open files (kernel/file.c, kernel/file.h) and create (kernel/sysfile.c)\<close>

text \<open>
  The file table, the contents of pipes and the state of the console and the clock, which
  complete the kernel's state \<open>kfiles\<close>.  A \<open>struct file *\<close> is an index into \<open>ftable\<close>; a
  pipe is found under the address of the page it lives in.  Also here: the copies between
  the kernel's memory and the files that paging uses, and \<open>create\<close>.
\<close>

datatype filetype = FD_NONE | FD_PIPE | FD_INODE | FD_DEVICE

record kfile =
  f_type :: filetype
  f_ref :: int
  f_readable :: bool
  f_writable :: bool
  f_pipe :: u64
  f_ip :: nat
  f_off :: u32
  f_major :: u16

definition NFILE :: nat where "NFILE = 100"
definition NDEV :: nat where "NDEV = 10"
definition CONSOLE :: nat where "CONSOLE = 1"
definition PIPESIZE :: u32 where "PIPESIZE = 512"

record pipe =
  p_data :: "u8 list"
  nread :: u32
  nwrite :: u32
  readopen :: bool
  writeopen :: bool

text \<open>The drivers that can stand in \<open>devsw\<close>: the console is the only one.\<close>

datatype devfun = Console_read | Console_write

record cons =
  cons_buf :: "u8 list"
  cons_r :: u32
  cons_w :: u32
  cons_e :: u32

record kfiles = kinodes +
  ftable :: "kfile list"
  pipes :: "u64 \<rightharpoonup> pipe"
  dev_read :: "devfun option list"
  dev_write :: "devfun option list"
  cons :: cons
  uart_out :: "u8 list"
  ticks :: u32
  kernel_pagetable :: u64
  first_run :: bool

definition fset :: "nat \<Rightarrow> (kfile \<Rightarrow> kfile) \<Rightarrow> 'a kfiles_scheme \<Rightarrow> 'a kfiles_scheme" where
  "fset f g s = s\<lparr>ftable := (ftable s)[f := g (ftable s ! f)]\<rparr>"

definition filealloc :: "'a kfiles_scheme \<Rightarrow> nat option \<times> 'a kfiles_scheme" where
  "filealloc s = (case List.find (\<lambda>f. f_ref (ftable s ! f) = 0) [0..<NFILE] of
     Some f \<Rightarrow> (Some f, fset f (\<lambda>r. r\<lparr>f_ref := 1\<rparr>) s)
   | None \<Rightarrow> (None, s))"

definition filedup :: "nat \<Rightarrow> 'a kfiles_scheme \<Rightarrow> 'a kfiles_scheme option" where
  "filedup f s =
     (if f_ref (ftable s ! f) < 1 then None
      else Some (fset f (\<lambda>r. r\<lparr>f_ref := f_ref r + 1\<rparr>) s))"

subsection \<open>Copies between kernel memory and files\<close>

text \<open>
  \<open>either_copyout\<close> and \<open>either_copyin\<close> with a kernel address: a \<open>memmove\<close> between the
  buffer and memory.  The cursor of \<open>readi\<close> and \<open>writei\<close> is the address.
\<close>

definition store_bytes :: "u64 \<Rightarrow> u8 list \<Rightarrow> memory \<Rightarrow> memory" where
  "store_bytes a bs m = (\<lambda>x. if unat (x - a) < length bs then bs ! unat (x - a) else m x)"

definition load_bytes :: "u64 \<Rightarrow> nat \<Rightarrow> memory \<Rightarrow> u8 list" where
  "load_bytes a n m = map (\<lambda>i. m (a + of_nat i)) [0..<n]"

definition to_mem :: "u64 \<Rightarrow> u8 list \<Rightarrow> 'a kinodes_scheme \<Rightarrow> (int \<times> u64 \<times> 'a kinodes_scheme) option" where
  "to_mem dst bs s = Some (0, dst + of_nat (length bs), s\<lparr>mem := store_bytes dst bs (mem s)\<rparr>)"

definition from_mem :: "u64 \<Rightarrow> nat \<Rightarrow> 'a kinodes_scheme \<Rightarrow> (int \<times> u8 list \<times> u64 \<times> 'a kinodes_scheme) option" where
  "from_mem src m s = Some (0, load_bytes src m (mem s), src + of_nat m, s)"

subsection \<open>create\<close>

text \<open>The names of a directory's own entries, as C strings.\<close>

definition DOT :: bytes where "DOT = (\<lambda>_. 0)(0 := 46)"
definition DOTDOT :: bytes where "DOTDOT = (\<lambda>_. 0)(0 := 46, 1 := 46)"

definition create_fail :: "nat \<Rightarrow> nat \<Rightarrow> 'a kinodes_scheme \<Rightarrow> (nat option \<times> 'a kinodes_scheme) option" where
  "create_fail ip dp s = do {
     s \<leftarrow> iupdate ip (iset ip (\<lambda>p. p\<lparr>i_nlink := 0\<rparr>) s);
     s \<leftarrow> iunlockput ip s;
     s \<leftarrow> iunlockput dp s;
     Some (None, s)
   }"

definition create_found :: "u16 \<Rightarrow> nat \<Rightarrow> nat \<Rightarrow> 'a kinodes_scheme \<Rightarrow> (nat option \<times> 'a kinodes_scheme) option" where
  "create_found type dp ip s = do {
     s \<leftarrow> iunlockput dp s;
     s \<leftarrow> ilock ip s;
     if type = T_FILE \<and> (i_type (itable s ! ip) = T_FILE \<or> i_type (itable s ! ip) = T_DEVICE)
     then Some (Some ip, s)
     else do {
       s \<leftarrow> iunlockput ip s;
       Some (None, s)
     }
   }"

definition create_new ::
    "bytes \<Rightarrow> u16 \<Rightarrow> u16 \<Rightarrow> u16 \<Rightarrow> nat \<Rightarrow> nat \<Rightarrow> 'a kinodes_scheme \<Rightarrow> (nat option \<times> 'a kinodes_scheme) option" where
  "create_new name type major minor dp ip s = do {
     s \<leftarrow> ilock ip s;
     s \<leftarrow> iupdate ip (iset ip (\<lambda>p. p\<lparr>i_major := major, i_minor := minor, i_nlink := 1\<rparr>) s);
     (r, s) \<leftarrow> (if type = T_DIR then do {
         (r, s) \<leftarrow> dirlink ip DOT (i_inum (itable s ! ip)) s;
         if r < 0 then Some (r, s) else dirlink ip DOTDOT (i_inum (itable s ! dp)) s
       } else Some (0, s));
     if r < 0 then create_fail ip dp s
     else do {
       (r, s) \<leftarrow> dirlink dp name (i_inum (itable s ! ip)) s;
       if r < 0 then create_fail ip dp s
       else do {
         s \<leftarrow> (if type = T_DIR then iupdate dp (iset dp (\<lambda>p. p\<lparr>i_nlink := i_nlink p + 1\<rparr>) s) else Some s);
         s \<leftarrow> iunlockput dp s;
         Some (Some ip, s)
       }
     }
   }"

definition create ::
    "u8 list \<Rightarrow> u16 \<Rightarrow> u16 \<Rightarrow> u16 \<Rightarrow> 'a kinodes_scheme \<Rightarrow> (nat option \<times> 'a kinodes_scheme) option" where
  "create path type major minor s = do {
     (dp, name, s) \<leftarrow> nameiparent path (\<lambda>_. 0) s;
     case dp of
       None \<Rightarrow> Some (None, s)
     | Some dp \<Rightarrow> do {
         s \<leftarrow> ilock dp s;
         (found, s) \<leftarrow> dirlookup dp name s;
         case found of
           Some (ip, _) \<Rightarrow> create_found type dp ip s
         | None \<Rightarrow> do {
             (ip, s) \<leftarrow> ialloc (i_dev (itable s ! dp)) type s;
             case ip of
               None \<Rightarrow> do { s \<leftarrow> iunlockput dp s; Some (None, s) }
             | Some ip \<Rightarrow> create_new name type major minor dp ip s
           }
       }
   }"

end
