(* ===== verification/Paging.thy ===== *)
theory Paging
  imports Ftable
begin

section \<open>Demand paging (kernel/proc.c) and the user-memory copies (kernel/vm.c)\<close>

text \<open>
  The page-fault handler with its FIFO eviction and the per-process swap file, and
  \<open>copyin\<close>, \<open>copyout\<close> and \<open>copyinstr\<close>, which fault pages in through \<open>vmfault\<close>.  The
  faulting process is \<open>myproc()\<close>; page records are indices into its \<open>pages\<close>.  \<open>access_type\<close>
  is 0, 1 or 2 for read, write and execute.  \<open>frame_for\<close> is the allocation with
  eviction that the handler does in each of its three cases, \<open>pf_kill\<close> its
  \<open>printf\<close>, \<open>setkilled\<close>, \<open>return -1\<close>.
\<close>

subsection \<open>The swap file\<close>

definition swap_name :: "int \<Rightarrow> u8 list" where
  "swap_name pid = [47, 112, 103, 115, 119, 112] @
     rev (map (\<lambda>k. of_int (48 + (pid div 10 ^ k) mod 10)) [0..<5])"

definition create_swap_file :: "nat \<Rightarrow> 'a kfiles_scheme \<Rightarrow> (int \<times> 'a kfiles_scheme) option" where
  "create_swap_file p s =
     (if swap_file (pget p s) \<noteq> None then Some (0, s)
      else do {
        s \<leftarrow> begin_op s;
        (ip, s) \<leftarrow> create (swap_name (p_pid (pget p s))) T_FILE 0 0 s;
        case ip of
          None \<Rightarrow> do { s \<leftarrow> end_op s; Some (-1, s) }
        | Some ip \<Rightarrow> (case filealloc s of (f, s) \<Rightarrow>
            let s = pset p (\<lambda>q. q\<lparr>swap_file := f\<rparr>) s in
            case f of
              None \<Rightarrow> do {
                s \<leftarrow> iunlockput ip s;
                s \<leftarrow> end_op s;
                Some (-1, s)
              }
            | Some f \<Rightarrow> do {
                let s = fset f (\<lambda>r. r\<lparr>f_type := FD_INODE, f_off := 0, f_ip := ip,
                  f_readable := True, f_writable := True\<rparr>) s;
                s \<leftarrow> iunlock ip s;
                s \<leftarrow> end_op s;
                Some (0, s)
              })
      })"

text \<open>The swap file's inode, \<open>p->swap_file->ip\<close>.\<close>

definition swap_ip :: "nat \<Rightarrow> 'a kfiles_scheme \<Rightarrow> nat option" where
  "swap_ip p s = map_option (\<lambda>f. f_ip (ftable s ! f)) (swap_file (pget p s))"

text \<open>
  The transactions that write a page to the swap file and read one from it:
  \<open>begin_op\<close>, \<open>ilock\<close>, the transfer, \<open>iunlock\<close>, \<open>end_op\<close>.
\<close>

definition swap_write :: "nat \<Rightarrow> u64 \<Rightarrow> int \<Rightarrow> 'a kfiles_scheme \<Rightarrow> (int \<times> 'a kfiles_scheme) option" where
  "swap_write p pa slot s = do {
     ip \<leftarrow> swap_ip p s;
     s \<leftarrow> begin_op s;
     s \<leftarrow> ilock ip s;
     (r, _, s) \<leftarrow> writei from_mem ip pa (of_int (slot * 4096)) 4096 s;
     s \<leftarrow> iunlock ip s;
     s \<leftarrow> end_op s;
     Some (r, s)
   }"

definition file_page_read :: "nat \<Rightarrow> u64 \<Rightarrow> u32 \<Rightarrow> u32 \<Rightarrow> 'a kfiles_scheme \<Rightarrow> (int \<times> 'a kfiles_scheme) option" where
  "file_page_read ip pa off n s = do {
     s \<leftarrow> begin_op s;
     s \<leftarrow> ilock ip s;
     (r, _, s) \<leftarrow> readi to_mem ip pa off n s;
     s \<leftarrow> iunlock ip s;
     s \<leftarrow> end_op s;
     Some (r, s)
   }"

definition swap_out_page :: "nat \<Rightarrow> u64 \<Rightarrow> int \<Rightarrow> 'a kfiles_scheme \<Rightarrow> (int \<times> 'a kfiles_scheme) option" where
  "swap_out_page p va slot s = do {
     (r, s) \<leftarrow> (if swap_file (pget p s) = None then create_swap_file p s else Some (0, s));
     if r < 0 then Some (-1, s)
     else do {
       (pte, s) \<leftarrow> walk (p_pagetable (pget p s)) va False s;
       if pte = 0 \<or> ld64 (mem s) pte AND PTE_V = 0 then Some (-1, s)
       else do {
         (r, s) \<leftarrow> swap_write p (PTE2PA (ld64 (mem s) pte)) slot s;
         if r \<noteq> 4096 then Some (-1, s) else Some (0, s)
       }
     }
   }"

definition swap_in_page :: "nat \<Rightarrow> u64 \<Rightarrow> int \<Rightarrow> 'a kfiles_scheme \<Rightarrow> (int \<times> 'a kfiles_scheme) option" where
  "swap_in_page p va slot s =
     (if swap_file (pget p s) = None then Some (-1, s)
      else case kalloc s of (pa, s) \<Rightarrow>
        if pa = 0 then Some (-1, s)
        else do {
          ip \<leftarrow> swap_ip p s;
          (r, s) \<leftarrow> file_page_read ip pa (of_int (slot * 4096)) 4096 s;
          if r \<noteq> 4096 then do { s \<leftarrow> kfree pa s; Some (-1, s) }
          else do {
            (r, s) \<leftarrow> mappages (p_pagetable (pget p s)) va PGSIZE pa (PTE_U OR PTE_R OR PTE_W) s;
            if r < 0 then do { s \<leftarrow> kfree pa s; Some (-1, s) }
            else Some (0, s)
          }
        })"

subsection \<open>FIFO eviction\<close>

text \<open>
  The scan for the resident page with the least sequence number: the loop's
  \<open>victim_idx\<close> (here an option) and \<open>min_seq\<close>, started at \<open>__INT_MAX__\<close>.
\<close>

fun victim_scan :: "page_info list \<Rightarrow> nat \<Rightarrow> nat option \<Rightarrow> int \<Rightarrow> nat option" where
  "victim_scan [] i victim min_seq = victim"
| "victim_scan (pg # pgs) i victim min_seq =
     (if pi_state pg = RESIDENT \<and> pi_seq pg < min_seq
      then victim_scan pgs (Suc i) (Some i) (pi_seq pg)
      else victim_scan pgs (Suc i) victim min_seq)"

definition find_victim :: "proc \<Rightarrow> nat option" where
  "find_victim p = victim_scan (take (num_pages p) (pages p)) 0 None 2147483647"

definition evict_dirty :: "nat \<Rightarrow> nat \<Rightarrow> u64 \<Rightarrow> 'a kfiles_scheme \<Rightarrow> (int \<times> 'a kfiles_scheme) option" where
  "evict_dirty p v va s =
     (let pid = p_pid (pget p s);
          s = kprint (EVICT pid va ''dirty'') s in
      case alloc_swap_slot p s of (slot, s) \<Rightarrow>
        if slot < 0 then Some (-1, kprint (SWAPFULL pid) s)
        else do {
          (r, s) \<leftarrow> (if swap_file (pget p s) = None then create_swap_file p s else Some (0, s));
          if r < 0 then Some (-1, free_swap_slot p slot s)
          else do {
            (r, s) \<leftarrow> swap_out_page p va slot s;
            if r < 0 then Some (-1, free_swap_slot p slot s)
            else Some (0, pi_set p v (\<lambda>pg. pg\<lparr>pi_state := SWAPPED, swap_slot := slot\<rparr>)
                   (kprint (SWAPOUT pid va slot) s))
          }
        })"

definition evict_clean :: "nat \<Rightarrow> nat \<Rightarrow> u64 \<Rightarrow> 'a kfiles_scheme \<Rightarrow> 'a kfiles_scheme" where
  "evict_clean p v va s =
     (let pid = p_pid (pget p s) in
      pi_set p v (\<lambda>pg. pg\<lparr>pi_state := UNMAPPED\<rparr>)
        (kprint (DISCARD pid va) (kprint (EVICT pid va ''clean'') s)))"

definition evict_page_fifo :: "nat \<Rightarrow> 'a kfiles_scheme \<Rightarrow> (int \<times> 'a kfiles_scheme) option" where
  "evict_page_fifo p s =
     (let pid = p_pid (pget p s); s = kprint (MEMFULL pid) s in
      case find_victim (pget p s) of
        None \<Rightarrow> Some (-1, s)
      | Some v \<Rightarrow> do {
          let va = pi_va (pi_get p v s);
          let s = kprint (VICTIM pid va (pi_seq (pi_get p v s))) s;
          (pte, s) \<leftarrow> walk (p_pagetable (pget p s)) va False s;
          if pte = 0 \<or> ld64 (mem s) pte AND PTE_V = 0 then Some (-1, s)
          else do {
            (r, s) \<leftarrow> (if is_dirty (pi_get p v s) then evict_dirty p v va s
                       else Some (0, evict_clean p v va s));
            if r < 0 then Some (-1, s)
            else do {
              s \<leftarrow> uvmunmap (p_pagetable (pget p s)) va 1 True s;
              Some (0, s)
            }
          }
        })"

subsection \<open>The page-fault handler\<close>

definition access_str :: "int \<Rightarrow> string" where
  "access_str a = (if a = 1 then ''write'' else if a = 2 then ''exec'' else ''read'')"

text \<open>Returning -1 after a message and \<open>setkilled\<close>.\<close>

definition pf_kill :: "nat \<Rightarrow> string \<Rightarrow> 'a kfiles_scheme \<Rightarrow> (int \<times> 'a kfiles_scheme) option" where
  "pf_kill p why s = Some (-1, setkilled p (kprint (KILL (p_pid (pget p s)) why) s))"

definition pf_invalid ::
    "nat \<Rightarrow> u64 \<Rightarrow> int \<Rightarrow> string \<Rightarrow> bool \<Rightarrow> 'a kfiles_scheme \<Rightarrow> (int \<times> 'a kfiles_scheme) option" where
  "pf_invalid p va access cause from_user s =
     (if from_user
      then Some (-1, setkilled p (kprint (KILL_ACCESS (p_pid (pget p s)) va (access_str access))
             (kprint (PAGEFAULT (p_pid (pget p s)) va (access_str access) cause) s)))
      else Some (-1, s))"

text \<open>
  A page for the fault: \<open>kalloc\<close>, and if that fails one eviction and a second try; the
  result is 0 when the process has been killed.
\<close>

definition frame_for :: "nat \<Rightarrow> 'a kfiles_scheme \<Rightarrow> (u64 \<times> 'a kfiles_scheme) option" where
  "frame_for p s = (case kalloc s of (pa, s) \<Rightarrow>
     if pa \<noteq> 0 then Some (pa, s)
     else do {
       (r, s) \<leftarrow> evict_page_fifo p s;
       if r < 0 then do { (_, s) \<leftarrow> pf_kill p ''swap-exhausted'' s; Some (0, s) }
       else case kalloc s of (pa, s) \<Rightarrow>
         if pa = 0 then do { (_, s) \<leftarrow> pf_kill p ''out-of-memory'' s; Some (0, s) }
         else Some (pa, s)
     })"

text \<open>\<open>next_fifo_seq\<close> is an \<open>int\<close> in C and unbounded here: it would overflow after \<open>2 ^ 31\<close> mappings.\<close>

definition pf_map ::
    "nat \<Rightarrow> nat \<Rightarrow> u64 \<Rightarrow> u64 \<Rightarrow> u64 \<Rightarrow> 'a kfiles_scheme \<Rightarrow> (int \<times> 'a kfiles_scheme) option" where
  "pf_map p i va pa perm s = do {
     (r, s) \<leftarrow> mappages (p_pagetable (pget p s)) va PGSIZE pa perm s;
     if r < 0 then do {
       s \<leftarrow> kfree pa s;
       pf_kill p ''mapping-error'' s
     }
     else do {
       let q = next_fifo_seq (pget p s);
       let s = pset p (\<lambda>r. r\<lparr>next_fifo_seq := q + 1\<rparr>) s;
       let s = pi_set p i (\<lambda>pg. pg\<lparr>pi_state := RESIDENT, pi_seq := q, is_dirty := False\<rparr>) s;
       Some (0, kprint (RESIDENT_MSG (p_pid (pget p s)) va q) s)
     }
   }"

definition pf_swapped :: "nat \<Rightarrow> nat \<Rightarrow> u64 \<Rightarrow> 'a kfiles_scheme \<Rightarrow> (int \<times> 'a kfiles_scheme) option" where
  "pf_swapped p i va s = do {
     (pa, s) \<leftarrow> frame_for p s;
     if pa = 0 then Some (-1, s)
     else do {
       ip \<leftarrow> swap_ip p s;
       (r, s) \<leftarrow> file_page_read ip pa (of_int (swap_slot (pi_get p i s) * 4096)) 4096 s;
       if r \<noteq> 4096 then do {
         s \<leftarrow> kfree pa s;
         pf_kill p ''swap-read-error'' s
       }
       else do {
         let s = kprint (SWAPIN (p_pid (pget p s)) va (swap_slot (pi_get p i s))) s;
         let s = free_swap_slot p (swap_slot (pi_get p i s)) s;
         let s = pi_set p i (\<lambda>pg. pg\<lparr>swap_slot := -1\<rparr>) s;
         pf_map p i va pa (PTE_U OR PTE_R) s
       }
     }
   }"

text \<open>The segment of an address, and the part of its page that comes from the file.\<close>

definition find_segment :: "proc \<Rightarrow> u64 \<Rightarrow> segment_info option" where
  "find_segment p va = List.find (\<lambda>g. va_start g \<le> va \<and> va < va_end g) (take (num_segments p) (segments p))"

definition seg_read_size :: "segment_info \<Rightarrow> u64 \<Rightarrow> u64" where
  "seg_read_size g seg_offset =
     (if seg_offset \<ge> filesz g then 0
      else if seg_offset + PGSIZE > filesz g then filesz g - seg_offset
      else PGSIZE)"

definition seg_perm :: "segment_info option \<Rightarrow> u64" where
  "seg_perm g = (case g of None \<Rightarrow> PTE_U OR PTE_R
     | Some g \<Rightarrow> PTE_U OR PTE_R OR (if seg_flags g AND 1 \<noteq> 0 then PTE_X else 0)
         OR (if seg_flags g AND 2 \<noteq> 0 then PTE_W else 0))"

definition load_segment :: "nat \<Rightarrow> u64 \<Rightarrow> u64 \<Rightarrow> 'a kfiles_scheme \<Rightarrow> 'a kfiles_scheme option" where
  "load_segment p va pa s =
     (case exec_inode (pget p s) of
        None \<Rightarrow> Some s
      | Some ip \<Rightarrow> (case find_segment (pget p s) va of
            None \<Rightarrow> Some s
          | Some g \<Rightarrow> let seg_offset = va - va_start g; n = seg_read_size g seg_offset in
              if n > 0 then do {
                (_, s) \<leftarrow> file_page_read ip pa (ucast (file_off g + seg_offset)) (ucast n) s;
                Some s
              }
              else Some s))"

definition pf_exec :: "nat \<Rightarrow> nat \<Rightarrow> u64 \<Rightarrow> 'a kfiles_scheme \<Rightarrow> (int \<times> 'a kfiles_scheme) option" where
  "pf_exec p i va s = do {
     (pa, s) \<leftarrow> frame_for p s;
     if pa = 0 then Some (-1, s)
     else do {
       s \<leftarrow> load_segment p va pa (s\<lparr>mem := memset pa 0 4096 (mem s)\<rparr>);
       let s = kprint (LOADEXEC (p_pid (pget p s)) va) s;
       pf_map p i va pa (seg_perm (find_segment (pget p s) va)) s
     }
   }"

definition pf_zero :: "nat \<Rightarrow> nat \<Rightarrow> u64 \<Rightarrow> 'a kfiles_scheme \<Rightarrow> (int \<times> 'a kfiles_scheme) option" where
  "pf_zero p i va s = do {
     (pa, s) \<leftarrow> frame_for p s;
     if pa = 0 then Some (-1, s)
     else let s = s\<lparr>mem := memset pa 0 4096 (mem s)\<rparr>;
              s = kprint (ALLOC (p_pid (pget p s)) va) s
       in pf_map p i va pa (PTE_U OR PTE_R) s
   }"

text \<open>
  Which region an address lies in: the source's chain of tests with its \<open>valid\<close>,
  \<open>cause\<close> and \<open>is_text\<close>.  \<open>usp\<close> is the saved user stack pointer.
\<close>

definition pf_region :: "proc \<Rightarrow> u64 \<Rightarrow> u64 \<Rightarrow> bool \<times> string \<times> bool" where
  "pf_region p usp va =
     (let stack_base = stack_top p - USERSTACK * PGSIZE; guard_base = stack_base - PGSIZE in
      if va \<ge> guard_base \<and> va < stack_base then (False, ''invalid'', False)
      else if va \<ge> text_start p \<and> va < text_end p then (True, ''exec'', True)
      else if va \<ge> data_start p \<and> va < data_end p then (True, ''exec'', False)
      else if va \<ge> heap_start p \<and> va < p_sz p then (True, ''heap'', False)
      else if va \<ge> usp - PGSIZE \<and> va < stack_top p then (True, ''stack'', False)
      else (False, ''invalid'', False))"

definition user_sp :: "nat \<Rightarrow> 'a kprocs_scheme \<Rightarrow> u64" where
  "user_sp p s = ld64 (mem s) (p_trapframe (pget p s) + 48)"

text \<open>The fault on a page that is already valid; \<open>None\<close> where the source goes on.\<close>

definition pf_present ::
    "nat \<Rightarrow> u64 \<Rightarrow> u64 \<Rightarrow> int \<Rightarrow> bool \<Rightarrow> 'a kfiles_scheme \<Rightarrow> (int \<times> 'a kfiles_scheme) option option" where
  "pf_present p pte va access from_user s =
     (if ld64 (mem s) pte AND PTE_U = 0 then Some (pf_invalid p va access ''invalid'' from_user s)
      else if access = 1 then
        if va \<ge> text_start (pget p s) \<and> va < text_end (pget p s)
        then Some (pf_invalid p va access ''exec'' from_user s)
        else (case find_page_info p va s of
            Some i \<Rightarrow> if pi_state (pi_get p i s) = RESIDENT \<and> \<not> is_dirty (pi_get p i s)
              then Some (Some (0, pi_set p i (\<lambda>pg. pg\<lparr>is_dirty := True\<rparr>)
                (s\<lparr>mem := st64 pte (ld64 (mem s) pte OR PTE_W) (mem s)\<rparr>)))
              else None
          | None \<Rightarrow> None)
      else None)"

definition pf_missing ::
    "nat \<Rightarrow> u64 \<Rightarrow> int \<Rightarrow> bool \<Rightarrow> 'a kfiles_scheme \<Rightarrow> (int \<times> 'a kfiles_scheme) option" where
  "pf_missing p va access from_user s =
     (case pf_region (pget p s) (user_sp p s) va of (valid, cause, is_text) \<Rightarrow>
      let pg = find_page_info p va s;
          swapped = (case pg of Some i \<Rightarrow> pi_state (pi_get p i s) = SWAPPED | None \<Rightarrow> False);
          valid = (valid \<or> swapped);
          cause = (if swapped then ''swap'' else cause);
          s = (if from_user then kprint (PAGEFAULT (p_pid (pget p s)) va (access_str access) cause) s else s) in
      if \<not> valid \<or> is_text \<and> access = 1 then
        (if from_user
         then Some (-1, setkilled p (kprint (KILL_ACCESS (p_pid (pget p s)) va (access_str access)) s))
         else Some (-1, s))
      else case (case pg of Some i \<Rightarrow> (Some i, s) | None \<Rightarrow> add_page_info p va s) of
          (None, s) \<Rightarrow> pf_kill p ''out-of-memory'' s
        | (Some i, s) \<Rightarrow>
            if pi_state (pi_get p i s) = SWAPPED then pf_swapped p i va s
            else if va \<ge> text_start (pget p s) \<and> va < data_end (pget p s) then pf_exec p i va s
            else pf_zero p i va s)"

definition handle_page_fault :: "u64 \<Rightarrow> int \<Rightarrow> bool \<Rightarrow> 'a kfiles_scheme \<Rightarrow> (int \<times> 'a kfiles_scheme) option" where
  "handle_page_fault va access from_user s = do {
     p \<leftarrow> myproc s;
     let va = PGROUNDDOWN va;
     if va \<ge> MAXVA then pf_invalid p va access ''invalid'' from_user s
     else do {
       (pte, s) \<leftarrow> walk (p_pagetable (pget p s)) va False s;
       case (if pte \<noteq> 0 \<and> ld64 (mem s) pte AND PTE_V \<noteq> 0
             then pf_present p pte va access from_user s else None) of
         Some r \<Rightarrow> r
       | None \<Rightarrow> pf_missing p va access from_user s
     }
   }"

definition vmfault :: "u64 \<Rightarrow> u64 \<Rightarrow> int \<Rightarrow> 'a kfiles_scheme \<Rightarrow> (u64 \<times> 'a kfiles_scheme) option" where
  "vmfault pagetable va write s = do {
     (r, s) \<leftarrow> handle_page_fault va write False s;
     if r < 0 then Some (0, s)
     else do {
       (pte, s) \<leftarrow> walk pagetable (PGROUNDDOWN va) False s;
       if pte = 0 \<or> ld64 (mem s) pte AND PTE_V = 0 then Some (0, s)
       else Some (PTE2PA (ld64 (mem s) pte), s)
     }
   }"

subsection \<open>Copies to and from user memory\<close>

text \<open>The physical page of a user address, faulted in if need be; 0 if there is none.\<close>

definition user_page :: "u64 \<Rightarrow> u64 \<Rightarrow> 'a kfiles_scheme \<Rightarrow> (u64 \<times> 'a kfiles_scheme) option" where
  "user_page pagetable va0 s = do {
     pa0 \<leftarrow> walkaddr pagetable va0 s;
     if pa0 = 0 then vmfault pagetable va0 0 s else Some (pa0, s)
   }"

text \<open>How many bytes at \<open>va\<close> are on its page, at most \<open>len\<close>.\<close>

definition page_chunk :: "u64 \<Rightarrow> u64 \<Rightarrow> u64" where
  "page_chunk va len = (let n = PGSIZE - (va - PGROUNDDOWN va) in if n > len then len else n)"

partial_function (option) copyout ::
    "u64 \<Rightarrow> u64 \<Rightarrow> u8 list \<Rightarrow> 'a kfiles_scheme \<Rightarrow> (int \<times> 'a kfiles_scheme) option" where
  "copyout pagetable dstva src s =
     (if src = [] then Some (0, s)
      else let va0 = PGROUNDDOWN dstva in
        if va0 \<ge> MAXVA then Some (-1, s)
        else do {
          (pa0, s) \<leftarrow> user_page pagetable va0 s;
          if pa0 = 0 then Some (-1, s)
          else do {
            (pte, s) \<leftarrow> walk pagetable va0 False s;
            if ld64 (mem s) pte AND PTE_W = 0 then Some (-1, s)
            else let n = unat (page_chunk dstva (of_nat (length src)));
                     s = s\<lparr>mem := store_bytes (pa0 + (dstva - va0)) (take n src) (mem s)\<rparr>
              in copyout pagetable (va0 + PGSIZE) (drop n src) s
          }
        })"

partial_function (option) copyin ::
    "u64 \<Rightarrow> u64 \<Rightarrow> u64 \<Rightarrow> u8 list \<Rightarrow> 'a kfiles_scheme \<Rightarrow> (int \<times> u8 list \<times> 'a kfiles_scheme) option" where
  "copyin pagetable srcva len dst s =
     (if \<not> len > 0 then Some (0, dst, s)
      else let va0 = PGROUNDDOWN srcva in do {
        (pa0, s) \<leftarrow> user_page pagetable va0 s;
        if pa0 = 0 then Some (-1, dst, s)
        else let n = page_chunk srcva len in
          copyin pagetable (va0 + PGSIZE) (len - n)
            (dst @ load_bytes (pa0 + (srcva - va0)) (unat n) (mem s)) s
      })"

text \<open>\<open>copyinstr\<close> collects the characters before the NUL.\<close>

partial_function (option) copyinstr ::
    "u64 \<Rightarrow> u64 \<Rightarrow> u64 \<Rightarrow> u8 list \<Rightarrow> 'a kfiles_scheme \<Rightarrow> (int \<times> u8 list \<times> 'a kfiles_scheme) option" where
  "copyinstr pagetable srcva maxlen dst s =
     (if \<not> maxlen > 0 then Some (-1, dst, s)
      else let va0 = PGROUNDDOWN srcva in do {
        (pa0, s) \<leftarrow> user_page pagetable va0 s;
        if pa0 = 0 then Some (-1, dst, s)
        else let n = page_chunk srcva maxlen;
                 bs = load_bytes (pa0 + (srcva - va0)) (unat n) (mem s);
                 w = takeWhile (\<lambda>c. c \<noteq> 0) bs in
          if length w < length bs then Some (0, dst @ w, s)
          else copyinstr pagetable (va0 + PGSIZE) (maxlen - n) (dst @ w) s
      })"

definition either_copyout :: "bool \<Rightarrow> u64 \<Rightarrow> u8 list \<Rightarrow> 'a kfiles_scheme \<Rightarrow> (int \<times> u64 \<times> 'a kfiles_scheme) option" where
  "either_copyout user_dst dst src s =
     (if user_dst then do {
        p \<leftarrow> myproc s;
        (r, s) \<leftarrow> copyout (p_pagetable (pget p s)) dst src s;
        Some (r, dst + of_nat (length src), s)
      }
      else to_mem dst src s)"

definition either_copyin :: "bool \<Rightarrow> u64 \<Rightarrow> nat \<Rightarrow> 'a kfiles_scheme \<Rightarrow> (int \<times> u8 list \<times> u64 \<times> 'a kfiles_scheme) option" where
  "either_copyin user_src src len s =
     (if user_src then do {
        p \<leftarrow> myproc s;
        (r, bs, s) \<leftarrow> copyin (p_pagetable (pget p s)) src (of_nat len) [] s;
        Some (r, bs, src + of_nat len, s)
      }
      else from_mem src len s)"

subsection \<open>The kernel's own page table\<close>

definition UART0 :: u64 where "UART0 = 0x10000000"
definition VIRTIO0 :: u64 where "VIRTIO0 = 0x10001000"
definition PLIC :: u64 where "PLIC = 0x0c000000"

text \<open>\<open>etext\<close> is the linker's end of the kernel text; \<open>kalloc\<close> is not checked.\<close>

definition kvmmake :: "u64 \<Rightarrow> 'a kprocs_scheme \<Rightarrow> (u64 \<times> 'a kprocs_scheme) option" where
  "kvmmake etext s = (case kalloc s of (kpgtbl, s) \<Rightarrow> do {
     let s = s\<lparr>mem := memset kpgtbl 0 4096 (mem s)\<rparr>;
     s \<leftarrow> kvmmap kpgtbl UART0 UART0 PGSIZE (PTE_R OR PTE_W) s;
     s \<leftarrow> kvmmap kpgtbl VIRTIO0 VIRTIO0 PGSIZE (PTE_R OR PTE_W) s;
     s \<leftarrow> kvmmap kpgtbl PLIC PLIC 0x4000000 (PTE_R OR PTE_W) s;
     s \<leftarrow> kvmmap kpgtbl KERNBASE KERNBASE (etext - KERNBASE) (PTE_R OR PTE_X) s;
     s \<leftarrow> kvmmap kpgtbl etext etext (PHYSTOP - etext) (PTE_R OR PTE_W) s;
     s \<leftarrow> kvmmap kpgtbl TRAMPOLINE (trampoline_pa s) PGSIZE (PTE_R OR PTE_X) s;
     s \<leftarrow> proc_mapstacks kpgtbl s;
     Some (kpgtbl, s)
   })"

definition kvminit :: "u64 \<Rightarrow> 'a kfiles_scheme \<Rightarrow> 'a kfiles_scheme option" where
  "kvminit etext s = do {
     (k, s) \<leftarrow> kvmmake etext s;
     Some (s\<lparr>kernel_pagetable := k\<rparr>)
   }"

end
