(* ===== verification/Post.thy ===== *)
theory Post
  imports Prelude
begin

section \<open>Postconditions of computations that may fail\<close>

text \<open>
  \<open>post m P\<close>: if \<open>m\<close> returns, its result satisfies \<open>P\<close>.  The rules follow the syntax of the
  model's functions, so that unfolding a function and applying them leaves one goal per
  path.
\<close>

definition post :: "'r option \<Rightarrow> ('r \<Rightarrow> bool) \<Rightarrow> bool" where
  "post m P \<longleftrightarrow> (\<forall>r. m = Some r \<longrightarrow> P r)"

lemma post_Some: "P r \<Longrightarrow> post (Some r) P" by (simp add: post_def)
lemma post_None: "post None P" by (simp add: post_def)
lemma post_bind: "post m (\<lambda>r. post (f r) P) \<Longrightarrow> post (Option.bind m f) P"
  by (auto simp: post_def)
lemma post_Let: "(\<And>x. x = a \<Longrightarrow> post (f x) P) \<Longrightarrow> post (Let a f) P" by (simp add: Let_def)
lemma post_if: "(c \<Longrightarrow> post m P) \<Longrightarrow> (\<not> c \<Longrightarrow> post n P) \<Longrightarrow> post (if c then m else n) P" by simp
lemma post_prod: "(\<And>a b. p = (a, b) \<Longrightarrow> post (f a b) P) \<Longrightarrow> post (case p of (a, b) \<Rightarrow> f a b) P"
  by (cases p) simp
lemma post_option: "(x = None \<Longrightarrow> post m P) \<Longrightarrow> (\<And>v. x = Some v \<Longrightarrow> post (f v) P) \<Longrightarrow>
    post (case x of None \<Rightarrow> m | Some v \<Rightarrow> f v) P"
  by (cases x) simp_all
lemma post_any: "(\<And>r. m = Some r \<Longrightarrow> P r) \<Longrightarrow> post m P" by (simp add: post_def)
lemma postD: "post m P \<Longrightarrow> m = Some r \<Longrightarrow> P r" by (simp add: post_def)
lemma post_weaken: "post m P \<Longrightarrow> (\<And>r. P r \<Longrightarrow> R r) \<Longrightarrow> post m R" by (simp add: post_def)

lemmas post_rules = post_Some post_None post_bind post_Let post_if post_prod post_option

end
