(* ===== verification/MemFrame.thy ===== *)
theory MemFrame
  imports PageTable Post
begin

section \<open>What the page allocator and the page tables leave alone\<close>

text \<open>
  The counterpart of \<open>fs_view\<close> for memory: a view of the state that does not look at the
  memory and the free list is preserved by kalloc.c and by every function of vm.c on
  page tables.
\<close>

locale mem_frame =
  fixes Q :: "'a kmem_scheme \<Rightarrow> 'v"
  assumes Q_mem [simp]: "Q (s\<lparr>mem := m\<rparr>) = Q s"
    and Q_freelist [simp]: "Q (s\<lparr>freelist := f\<rparr>) = Q s"
begin

lemma frame_kalloc: "kalloc s = (pa, t) \<Longrightarrow> Q t = Q s"
  by (auto simp: kalloc_def Let_def split: if_splits)

lemma frame_kfree: "(\<And>t. Q t = Q s \<Longrightarrow> P t) \<Longrightarrow> post (kfree pa s) P"
  by (auto simp: kfree_def post_def)

lemma frame_walk_loop: "walk_loop n pt va al s = (pte, t) \<Longrightarrow> Q t = Q s"
  by (induction n arbitrary: pt s) (auto simp: Let_def split: if_splits prod.splits dest!: frame_kalloc)

lemma frame_walk:
  assumes p: "\<And>pte t. Q t = Q s \<Longrightarrow> P (pte, t)"
  shows "post (walk pt va al s) P"
  using frame_walk_loop [of 2 pt va al s] p by (auto simp: walk_def post_def)

lemma frame_walkaddr: "(\<And>pa. P pa) \<Longrightarrow> post (walkaddr pt va s) P"
  by (rule post_any)

lemmas frame_base = post_rules frame_kfree frame_walk frame_walkaddr

lemma frame_mappages_loop:
  assumes h: "mappages_loop pt a l pa perm s = Some y"
  shows "Q (snd y) = Q s"
proof (rule mappages_loop.raw_induct [where P = "\<lambda>pt a l pa perm s y. Q (snd y) = Q s", OF _ h], goal_cases)
  case (1 f pt a l pa perm s y)
  have IH: "(\<And>r t. Q t = Q s \<Longrightarrow> P (r, t)) \<Longrightarrow> post (f pt a l pa perm s) P"
    for pt a l pa perm s P using 1(1) unfolding post_def by fastforce
  show ?case by (rule postD [OF _ 1(2)]) (intro frame_base IH, simp_all)
qed

lemma frame_mappages:
  assumes p: "\<And>r t. Q t = Q s \<Longrightarrow> P (r, t)"
  shows "post (mappages pt va sz pa perm s) P"
  unfolding mappages_def by (intro post_rules post_any [of "mappages_loop _ _ _ _ _ _"])
    (auto intro!: p dest: frame_mappages_loop)

lemma frame_kvmmap: "(\<And>t. Q t = Q s \<Longrightarrow> P t) \<Longrightarrow> post (kvmmap pt va pa sz perm s) P"
  unfolding kvmmap_def by (intro frame_base frame_mappages) simp_all

lemma frame_uvmcreate: "uvmcreate s = (pt, t) \<Longrightarrow> Q t = Q s"
  by (auto simp: uvmcreate_def split: prod.splits if_splits dest!: frame_kalloc)

lemma frame_uvmunmap_loop:
  assumes h: "uvmunmap_loop pt a b fr s = Some y"
  shows "Q y = Q s"
proof (rule uvmunmap_loop.raw_induct [where P = "\<lambda>pt a b fr s y. Q y = Q s", OF _ h], goal_cases)
  case (1 f pt a b fr s y)
  have IH: "(\<And>t. Q t = Q s \<Longrightarrow> P t) \<Longrightarrow> post (f pt a b fr s) P"
    for pt a b fr s P using 1(1) unfolding post_def by fastforce
  show ?case by (rule postD [OF _ 1(2)]) (intro frame_base IH, simp_all)
qed

lemma frame_uvmunmap:
  assumes p: "\<And>t. Q t = Q s \<Longrightarrow> P t"
  shows "post (uvmunmap pt va n fr s) P"
  unfolding uvmunmap_def by (intro post_rules post_any [of "uvmunmap_loop _ _ _ _ _"])
    (auto intro!: p dest: frame_uvmunmap_loop)

lemma frame_uvmdealloc_loop:
  assumes h: "uvmdealloc_loop st pt va b s = Some y"
  shows "Q y = Q s"
proof (rule uvmdealloc_loop.raw_induct [where P = "\<lambda>st pt va b s y. Q y = Q s", OF _ h], goal_cases)
  case (1 f st pt va b s y)
  have IH: "(\<And>t. Q t = Q s \<Longrightarrow> P t) \<Longrightarrow> post (f st pt va b s) P"
    for st pt va b s P using 1(1) unfolding post_def by fastforce
  show ?case by (rule postD [OF _ 1(2)]) (intro frame_base frame_uvmunmap IH, simp_all)
qed

lemma frame_uvmdealloc:
  assumes p: "\<And>r t. Q t = Q s \<Longrightarrow> P (r, t)"
  shows "post (uvmdealloc st pt o1 n s) P"
  unfolding uvmdealloc_def by (intro post_rules post_any [of "uvmdealloc_loop _ _ _ _ _"])
    (auto intro!: p dest: frame_uvmdealloc_loop)

lemma frame_uvmalloc_loop:
  assumes h: "uvmalloc_loop st pt o1 a n xp s = Some y"
  shows "Q (snd y) = Q s"
proof (rule uvmalloc_loop.raw_induct [where P = "\<lambda>st pt o1 a n xp s y. Q (snd y) = Q s", OF _ h], goal_cases)
  case (1 f st pt o1 a n xp s y)
  have IH: "(\<And>r t. Q t = Q s \<Longrightarrow> P (r, t)) \<Longrightarrow> post (f st pt o1 a n xp s) P"
    for st pt o1 a n xp s P using 1(1) unfolding post_def by fastforce
  show ?case by (rule postD [OF _ 1(2)])
    (intro frame_base frame_uvmdealloc frame_mappages IH, simp_all add: frame_kalloc)
qed

lemma frame_uvmalloc:
  assumes p: "\<And>r t. Q t = Q s \<Longrightarrow> P (r, t)"
  shows "post (uvmalloc st pt o1 n xp s) P"
  unfolding uvmalloc_def by (intro post_rules post_any [of "uvmalloc_loop _ _ _ _ _ _ _"])
    (auto intro!: p dest: frame_uvmalloc_loop)

lemma frame_freewalk_from:
  assumes h: "freewalk_from pt i s = Some y"
  shows "Q y = Q s"
proof (rule freewalk_from.raw_induct [where P = "\<lambda>pt i s y. Q y = Q s", OF _ h], goal_cases)
  case (1 f pt i s y)
  have IH: "(\<And>t. Q t = Q s \<Longrightarrow> P t) \<Longrightarrow> post (f pt i s) P" for pt i s P
    using 1(1) unfolding post_def by fastforce
  show ?case by (rule postD [OF _ 1(2)]) (intro frame_base IH, simp_all)
qed

lemma frame_uvmfree:
  assumes p: "\<And>t. Q t = Q s \<Longrightarrow> P t"
  shows "post (uvmfree pt sz s) P"
  unfolding uvmfree_def freewalk_def
  by (intro post_rules frame_uvmunmap post_any [of "freewalk_from _ _ _"])
    (auto intro!: p dest: frame_freewalk_from)

lemma frame_uvmcopy_loop:
  assumes h: "uvmcopy_loop old new i sz s = Some y"
  shows "Q (snd y) = Q s"
proof (rule uvmcopy_loop.raw_induct [where P = "\<lambda>old new i sz s y. Q (snd y) = Q s", OF _ h], goal_cases)
  case (1 f old new i sz s y)
  have IH: "(\<And>r t. Q t = Q s \<Longrightarrow> P (r, t)) \<Longrightarrow> post (f old new i sz s) P"
    for old new i sz s P using 1(1) unfolding post_def by fastforce
  show ?case by (rule postD [OF _ 1(2)])
    (intro frame_base frame_uvmunmap frame_mappages IH, simp_all add: frame_kalloc)
qed

lemma frame_uvmcopy:
  assumes p: "\<And>r t. Q t = Q s \<Longrightarrow> P (r, t)"
  shows "post (uvmcopy old new sz s) P"
  unfolding uvmcopy_def by (rule post_any) (auto intro!: p dest: frame_uvmcopy_loop)

lemma frame_uvmclear:
  assumes p: "\<And>t. Q t = Q s \<Longrightarrow> P t"
  shows "post (uvmclear pt va s) P"
  unfolding uvmclear_def by (intro frame_base p) simp_all

lemmas frame_mem = frame_base frame_mappages frame_kvmmap frame_uvmunmap frame_uvmdealloc frame_uvmalloc
  frame_uvmfree frame_uvmcopy frame_uvmclear

end

end
