(* ===== verification/FsFrame.thy ===== *)
theory FsFrame
  imports Ftable MemFrame
begin

section \<open>What the file system leaves alone\<close>

text \<open>
  Paging, pipes and processes call the file system and rely on it not to touch their own
  state.  \<open>fs_view\<close> is that interface: a view \<open>Q\<close> of the state that no assignment to the
  file system's own variables and no wake-up changes is preserved by every function of
  bio.c, log.c and fs.c and by \<open>create\<close>.  It is interpreted for the machine's memory, for
  the process table up to wake-ups, and for everything beyond the inode table.
\<close>

locale fs_view =
  fixes Q :: "'a kinodes_scheme \<Rightarrow> 'v"
  assumes Q_bufs: "Q (s\<lparr>bufs := x1\<rparr>) = Q s"
    and Q_lru: "Q (s\<lparr>lru := x2\<rparr>) = Q s"
    and Q_disk: "Q (s\<lparr>disk := x3\<rparr>) = Q s"
    and Q_disk_log: "Q (s\<lparr>disk_log := x4\<rparr>) = Q s"
    and Q_log_start: "Q (s\<lparr>log_start := x5\<rparr>) = Q s"
    and Q_log_dev: "Q (s\<lparr>log_dev := x6\<rparr>) = Q s"
    and Q_log_lh: "Q (s\<lparr>log_lh := x7\<rparr>) = Q s"
    and Q_log_outstanding: "Q (s\<lparr>log_outstanding := x8\<rparr>) = Q s"
    and Q_log_committing: "Q (s\<lparr>log_committing := x9\<rparr>) = Q s"
    and Q_sb: "Q (s\<lparr>sb := x10\<rparr>) = Q s"
    and Q_itable: "Q (s\<lparr>itable := x11\<rparr>) = Q s"
    and Q_klog: "Q (s\<lparr>klog := x12\<rparr>) = Q s"
    and Q_wakeup: "Q (wakeup ch s) = Q s"
begin

lemmas Q_fields [simp] = Q_bufs Q_lru Q_disk Q_disk_log Q_log_start Q_log_dev Q_log_lh Q_log_outstanding
  Q_log_committing Q_sb Q_itable Q_klog Q_wakeup

lemma view_simple [simp]:
  "Q (bset i f s) = Q s" "Q (virtio_disk_rw i w s) = Q s" "Q (bpin i s) = Q s" "Q (bunpin i s) = Q s"
  "Q (bdata i g s) = Q s" "Q (set_lh_n n s) = Q s" "Q (iset ip h s) = Q s" "Q (idup ip s) = Q s" "Q (kprint m s) = Q s"
  by (simp_all add: bset_def virtio_disk_rw_def Let_def bpin_def bunpin_def bdata_def set_lh_n_def iset_def idup_def kprint_def)

text \<open>
  Every lemma is in continuation form: what holds of all states with the view of the
  first one holds of the result, so that it applies wherever the function is called.
\<close>

lemma view_acquiresleep: "(\<And>lk. P lk) \<Longrightarrow> post (acquiresleep l s) P"
  by (rule post_any)

lemma view_holdingsleep: "(\<And>h. P h) \<Longrightarrow> post (holdingsleep l s) P"
  by (rule post_any)

lemma view_myproc: "(\<And>p. P p) \<Longrightarrow> post (myproc s) P"
  by (rule post_any)

lemma view_Some_rule: "(\<And>x. P x) \<Longrightarrow> post (p_cwd p) P"
  by (rule post_any)

lemma view_releasesleep: "releasesleep c l s = (l', t) \<Longrightarrow> Q t = Q s"
  by (auto simp: releasesleep_def)

lemmas view_base = post_rules view_acquiresleep view_holdingsleep view_myproc view_Some_rule

subsection \<open>Buffers and log\<close>

lemma view_bget:
  assumes p: "\<And>i t. Q t = Q s \<Longrightarrow> P (i, t)"
  shows "post (bget d b s) P"
  unfolding bget_def block_acquire_def by (intro view_base p) simp_all

lemma view_bread:
  assumes p: "\<And>i t. Q t = Q s \<Longrightarrow> P (i, t)"
  shows "post (bread d b s) P"
  unfolding bread_def by (intro view_base view_bget p) simp_all

lemma view_bwrite:
  assumes p: "\<And>t. Q t = Q s \<Longrightarrow> P t"
  shows "post (bwrite i s) P"
  unfolding bwrite_def by (intro view_base p) simp_all

lemma view_brelse:
  assumes p: "\<And>t. Q t = Q s \<Longrightarrow> P t"
  shows "post (brelse i s) P"
  unfolding brelse_def by (intro view_base p) (simp_all add: view_releasesleep)

lemmas view_buf = view_base view_bread view_bwrite view_brelse

lemma view_install_loop:
  assumes p: "\<And>t. Q t = Q s \<Longrightarrow> P t"
  shows "post (install_loop r k n s) P"
  using p
proof (induction n arbitrary: k s)
  case (Suc n)
  show ?case unfolding install_loop.simps by (intro view_buf Suc.IH Suc.prems) simp_all
qed (simp add: post_def)

lemma view_read_head:
  assumes p: "\<And>t. Q t = Q s \<Longrightarrow> P t"
  shows "post (read_head s) P"
  unfolding read_head_def by (intro view_buf post_any [of "read_head_loop _ _ _ _"] p) simp_all

lemma view_write_head:
  assumes p: "\<And>t. Q t = Q s \<Longrightarrow> P t"
  shows "post (write_head s) P"
  unfolding write_head_def by (intro view_buf p) simp_all

lemma view_write_log_loop:
  assumes p: "\<And>t. Q t = Q s \<Longrightarrow> P t"
  shows "post (write_log_loop k n s) P"
  using p
proof (induction n arbitrary: k s)
  case (Suc n)
  show ?case unfolding write_log_loop.simps by (intro view_buf Suc.IH Suc.prems) simp_all
qed (simp add: post_def)

lemma view_initlog:
  assumes p: "\<And>t. Q t = Q s \<Longrightarrow> P t"
  shows "post (initlog d st s) P"
  unfolding initlog_def recover_from_log_def install_trans_def
  by (intro view_base view_read_head view_install_loop view_write_head p) simp_all

lemma view_begin_op:
  assumes p: "\<And>t. Q t = Q s \<Longrightarrow> P t"
  shows "post (begin_op s) P"
  unfolding begin_op_def by (intro view_base p) simp_all

lemma view_commit:
  assumes p: "\<And>t. Q t = Q s \<Longrightarrow> P t"
  shows "post (commit s) P"
  unfolding commit_def write_log_def install_trans_def
  by (intro view_base view_write_log_loop view_install_loop view_write_head p) simp_all

lemma view_end_op:
  assumes p: "\<And>t. Q t = Q s \<Longrightarrow> P t"
  shows "post (end_op s) P"
  unfolding end_op_def by (intro view_base view_commit p) simp_all

lemma view_log_write:
  assumes p: "\<And>t. Q t = Q s \<Longrightarrow> P t"
  shows "post (log_write i s) P"
  unfolding log_write_def by (intro view_base p) simp_all

lemmas view_log = view_buf view_begin_op view_end_op view_log_write view_initlog

subsection \<open>Blocks and inodes\<close>

lemma view_readsb:
  assumes p: "\<And>t. Q t = Q s \<Longrightarrow> P t"
  shows "post (readsb d s) P"
  unfolding readsb_def by (intro view_log p) simp_all

lemma view_bzero:
  assumes p: "\<And>t. Q t = Q s \<Longrightarrow> P t"
  shows "post (bzero d b s) P"
  unfolding bzero_def by (intro view_log p) simp_all

lemma view_balloc_loop:
  assumes p: "\<And>a t. Q t = Q s \<Longrightarrow> P (a, t)"
  shows "post (balloc_loop d bs s) P"
  using p
proof (induction bs arbitrary: s)
  case (Cons n bs)
  show ?case unfolding balloc_loop.simps by (intro view_log view_bzero Cons.IH Cons.prems) simp_all
qed (simp add: post_def)

lemma view_balloc:
  assumes p: "\<And>a t. Q t = Q s \<Longrightarrow> P (a, t)"
  shows "post (balloc d s) P"
  unfolding balloc_def by (intro view_balloc_loop p)

lemma view_bfree:
  assumes p: "\<And>t. Q t = Q s \<Longrightarrow> P t"
  shows "post (bfree d b s) P"
  unfolding bfree_def by (intro view_log p) simp_all

lemma view_iget:
  assumes p: "\<And>a t. Q t = Q s \<Longrightarrow> P (a, t)"
  shows "post (iget d n s) P"
  unfolding iget_def by (intro view_base p) simp_all

lemma view_ialloc_loop:
  assumes p: "\<And>a t. Q t = Q s \<Longrightarrow> P (a, t)"
  shows "post (ialloc_loop d ty ns s) P"
  using p
proof (induction ns arbitrary: s)
  case (Cons n ns)
  show ?case unfolding ialloc_loop.simps by (intro view_log view_iget Cons.IH Cons.prems) simp_all
qed (simp add: post_def)

lemma view_ialloc:
  assumes p: "\<And>a t. Q t = Q s \<Longrightarrow> P (a, t)"
  shows "post (ialloc d ty s) P"
  unfolding ialloc_def by (intro view_ialloc_loop p)

lemma view_iupdate:
  assumes p: "\<And>t. Q t = Q s \<Longrightarrow> P t"
  shows "post (iupdate i s) P"
  unfolding iupdate_def by (intro view_log p) simp_all

lemma view_ilock:
  assumes p: "\<And>t. Q t = Q s \<Longrightarrow> P t"
  shows "post (ilock i s) P"
  unfolding ilock_def by (intro view_log p) simp_all

lemma view_iunlock:
  assumes p: "\<And>t. Q t = Q s \<Longrightarrow> P t"
  shows "post (iunlock i s) P"
  unfolding iunlock_def by (intro view_base p) (simp_all add: view_releasesleep)

lemmas view_inode = view_log view_iget view_iupdate view_ilock view_iunlock view_balloc view_bfree

lemma view_bmap:
  assumes p: "\<And>a t. Q t = Q s \<Longrightarrow> P (a, t)"
  shows "post (bmap i bn s) P"
  unfolding bmap_def by (intro view_inode p) simp_all

lemma view_itrunc_direct:
  assumes p: "\<And>t. Q t = Q s \<Longrightarrow> P t"
  shows "post (itrunc_direct i js s) P"
  using p
proof (induction js arbitrary: s)
  case (Cons j js)
  show ?case unfolding itrunc_direct.simps by (intro view_inode Cons.IH Cons.prems) simp_all
qed (simp add: post_def)

lemma view_itrunc_indirect:
  assumes p: "\<And>t. Q t = Q s \<Longrightarrow> P t"
  shows "post (itrunc_indirect d b js s) P"
  using p
proof (induction js arbitrary: s)
  case (Cons j js)
  show ?case unfolding itrunc_indirect.simps by (intro view_inode Cons.IH Cons.prems) simp_all
qed (simp add: post_def)

lemma view_itrunc:
  assumes p: "\<And>t. Q t = Q s \<Longrightarrow> P t"
  shows "post (itrunc i s) P"
  unfolding itrunc_def by (intro view_inode view_itrunc_direct view_itrunc_indirect p) simp_all

lemma view_iput:
  assumes p: "\<And>t. Q t = Q s \<Longrightarrow> P t"
  shows "post (iput i s) P"
  unfolding iput_def by (intro view_inode view_itrunc p) (simp_all add: view_releasesleep)

lemma view_iunlockput:
  assumes p: "\<And>t. Q t = Q s \<Longrightarrow> P t"
  shows "post (iunlockput i s) P"
  unfolding iunlockput_def by (intro view_inode view_iput p) simp_all

lemma view_ireclaim_loop:
  assumes p: "\<And>t. Q t = Q s \<Longrightarrow> P t"
  shows "post (ireclaim_loop d ns s) P"
  using p
proof (induction ns arbitrary: s)
  case (Cons n ns)
  show ?case unfolding ireclaim_loop.simps by (intro view_inode view_iput Cons.IH Cons.prems) simp_all
qed (simp add: post_def)

lemma view_ireclaim:
  assumes p: "\<And>t. Q t = Q s \<Longrightarrow> P t"
  shows "post (ireclaim d s) P"
  unfolding ireclaim_def by (intro view_ireclaim_loop p)

lemma view_fsinit:
  assumes p: "\<And>t. Q t = Q s \<Longrightarrow> P t"
  shows "post (fsinit d s) P"
  unfolding fsinit_def by (intro view_log view_readsb view_ireclaim p) simp_all

subsection \<open>Reading and writing\<close>

text \<open>A copy function that leaves the view alone, as \<open>readi\<close> and \<open>writei\<close> use it.\<close>

definition keeps_r :: "('d \<Rightarrow> u8 list \<Rightarrow> 'a kinodes_scheme \<Rightarrow> (int \<times> 'd \<times> 'a kinodes_scheme) option) \<Rightarrow> bool" where
  "keeps_r copy \<longleftrightarrow> (\<forall>d bs s r d' t. copy d bs s = Some (r, d', t) \<longrightarrow> Q t = Q s)"

definition keeps_w :: "('d \<Rightarrow> nat \<Rightarrow> 'a kinodes_scheme \<Rightarrow> (int \<times> u8 list \<times> 'd \<times> 'a kinodes_scheme) option) \<Rightarrow> bool" where
  "keeps_w copy \<longleftrightarrow> (\<forall>d m s r bs d' t. copy d m s = Some (r, bs, d', t) \<longrightarrow> Q t = Q s)"

lemma keeps_r_post: "keeps_r copy \<Longrightarrow> (\<And>r d' t. Q t = Q s \<Longrightarrow> P (r, d', t)) \<Longrightarrow> post (copy d bs s) P"
  unfolding keeps_r_def post_def by auto

lemma keeps_w_post: "keeps_w copy \<Longrightarrow> (\<And>r bs d' t. Q t = Q s \<Longrightarrow> P (r, bs, d', t)) \<Longrightarrow> post (copy d m s) P"
  unfolding keeps_w_def post_def by auto

lemma keeps_to_local [simp]: "keeps_r to_local" by (simp add: keeps_r_def to_local_def)
lemma keeps_from_local [simp]: "keeps_w from_local" by (simp add: keeps_w_def from_local_def)

lemma view_readi_loop:
  assumes h: "readi_loop copy ip dst off tot n s = Some y"
  shows "keeps_r copy \<longrightarrow> Q (snd (snd y)) = Q s"
proof (rule readi_loop.raw_induct [where P = "\<lambda>copy ip dst off tot n s y. keeps_r copy \<longrightarrow> Q (snd (snd y)) = Q s", OF _ h], goal_cases)
  case (1 f copy ip dst off tot n s y)
  have IH: "keeps_r copy \<Longrightarrow> (\<And>r d' t. Q t = Q s \<Longrightarrow> P (r, d', t)) \<Longrightarrow> post (f copy ip dst off tot n s) P"
    for copy ip dst off tot n s P using 1(1) unfolding post_def by fastforce
  show ?case
    by (rule impI, rule postD [OF _ 1(2)]) (intro view_log view_bmap keeps_r_post IH, simp_all)
qed

lemma view_readi:
  assumes k: "keeps_r copy" and p: "\<And>r d' t. Q t = Q s \<Longrightarrow> P (r, d', t)"
  shows "post (readi copy ip dst off n s) P"
  unfolding readi_def
  by (intro view_base post_any [of "readi_loop _ _ _ _ _ _ _"] p k) (auto simp: k intro!: p dest: view_readi_loop)

lemma view_writei_loop:
  assumes h: "writei_loop copy ip src off tot n s = Some y"
  shows "keeps_w copy \<longrightarrow> Q (snd (snd (snd y))) = Q s"
proof (rule writei_loop.raw_induct [where P = "\<lambda>copy ip src off tot n s y. keeps_w copy \<longrightarrow> Q (snd (snd (snd y))) = Q s", OF _ h], goal_cases)
  case (1 f copy ip src off tot n s y)
  have IH: "keeps_w copy \<Longrightarrow> (\<And>r o' d' t. Q t = Q s \<Longrightarrow> P (r, o', d', t)) \<Longrightarrow> post (f copy ip src off tot n s) P"
    for copy ip src off tot n s P using 1(1) unfolding post_def by fastforce
  show ?case
    by (rule impI, rule postD [OF _ 1(2)]) (intro view_log view_bmap keeps_w_post IH, simp_all)
qed

lemma view_writei:
  assumes k: "keeps_w copy" and p: "\<And>r d' t. Q t = Q s \<Longrightarrow> P (r, d', t)"
  shows "post (writei copy ip src off n s) P"
  unfolding writei_def
  by (intro view_base view_iupdate post_any [of "writei_loop _ _ _ _ _ _ _"] p k) (auto simp: k intro!: p dest: view_writei_loop)

subsection \<open>Directories and paths\<close>

lemmas view_local = view_inode view_readi [OF keeps_to_local] view_writei [OF keeps_from_local]

lemma view_dirlookup_loop:
  assumes h: "dirlookup_loop dp nm off s = Some y"
  shows "Q (snd y) = Q s"
proof (rule dirlookup_loop.raw_induct [where P = "\<lambda>dp nm off s y. Q (snd y) = Q s", OF _ h], goal_cases)
  case (1 f dp nm off s y)
  have IH: "(\<And>r t. Q t = Q s \<Longrightarrow> P (r, t)) \<Longrightarrow> post (f dp nm off s) P"
    for dp nm off s P using 1(1) unfolding post_def by fastforce
  show ?case by (rule postD [OF _ 1(2)]) (intro view_local IH, simp_all)
qed

lemma view_dirlookup:
  assumes p: "\<And>r t. Q t = Q s \<Longrightarrow> P (r, t)"
  shows "post (dirlookup dp nm s) P"
  unfolding dirlookup_def
  by (intro view_base post_any [of "dirlookup_loop _ _ _ _"] p) (auto intro!: p dest: view_dirlookup_loop)

lemma view_dirlink_loop:
  assumes h: "dirlink_loop dp off s = Some y"
  shows "Q (snd y) = Q s"
proof (rule dirlink_loop.raw_induct [where P = "\<lambda>dp off s y. Q (snd y) = Q s", OF _ h], goal_cases)
  case (1 f dp off s y)
  have IH: "(\<And>r t. Q t = Q s \<Longrightarrow> P (r, t)) \<Longrightarrow> post (f dp off s) P"
    for dp off s P using 1(1) unfolding post_def by fastforce
  show ?case by (rule postD [OF _ 1(2)]) (intro view_local IH, simp_all)
qed

lemma view_dirlink:
  assumes p: "\<And>r t. Q t = Q s \<Longrightarrow> P (r, t)"
  shows "post (dirlink dp nm n s) P"
  unfolding dirlink_def
  by (intro view_local view_dirlookup view_iput post_any [of "dirlink_loop _ _ _"] p) (auto intro!: p dest: view_dirlink_loop)

lemmas view_dir = view_local view_dirlookup view_dirlink view_iput view_iunlockput

lemma view_namex_loop:
  assumes h: "namex_loop par ip path nm s = Some y"
  shows "Q (snd (snd y)) = Q s"
proof (rule namex_loop.raw_induct [where P = "\<lambda>par ip path nm s y. Q (snd (snd y)) = Q s", OF _ h], goal_cases)
  case (1 f par ip path nm s y)
  have IH: "(\<And>r n t. Q t = Q s \<Longrightarrow> P (r, n, t)) \<Longrightarrow> post (f par ip path nm s) P"
    for par ip path nm s P using 1(1) unfolding post_def by fastforce
  show ?case by (rule postD [OF _ 1(2)]) (intro view_dir IH, simp_all)
qed

lemma view_namex:
  assumes p: "\<And>r n t. Q t = Q s \<Longrightarrow> P (r, n, t)"
  shows "post (namex path par nm s) P"
  unfolding namex_def
  by (intro view_dir post_any [of "namex_loop _ _ _ _ _"] p) (auto intro!: p dest: view_namex_loop)

lemma view_namei:
  assumes p: "\<And>r t. Q t = Q s \<Longrightarrow> P (r, t)"
  shows "post (namei path s) P"
  unfolding namei_def by (intro view_base view_namex p) simp_all

lemma view_nameiparent:
  assumes p: "\<And>r n t. Q t = Q s \<Longrightarrow> P (r, n, t)"
  shows "post (nameiparent path nm s) P"
  unfolding nameiparent_def by (rule view_namex) (rule p)

lemma view_create_fail:
  assumes p: "\<And>r t. Q t = Q s \<Longrightarrow> P (r, t)"
  shows "post (create_fail ip dp s) P"
  unfolding create_fail_def by (intro view_dir p) simp_all

lemma view_create_found:
  assumes p: "\<And>r t. Q t = Q s \<Longrightarrow> P (r, t)"
  shows "post (create_found ty dp ip s) P"
  unfolding create_found_def by (intro view_dir p) simp_all

lemma view_create_new:
  assumes p: "\<And>r t. Q t = Q s \<Longrightarrow> P (r, t)"
  shows "post (create_new nm ty ma mi dp ip s) P"
  unfolding create_new_def by (intro view_dir view_create_fail p) simp_all

lemma view_create:
  assumes p: "\<And>r t. Q t = Q s \<Longrightarrow> P (r, t)"
  shows "post (create path ty ma mi s) P"
  unfolding create_def
  by (intro view_dir view_nameiparent view_ialloc view_create_found view_create_new p) simp_all

lemmas view_fs = view_dir view_namei view_nameiparent view_create view_fsinit view_itrunc

end

subsection \<open>The three views\<close>

text \<open>Memory and the free list.\<close>

definition mview :: "'a kmem_scheme \<Rightarrow> memory \<times> u64 \<times> u64" where
  "mview s = (mem s, freelist s, kend s)"

text \<open>
  The process table up to wake-ups: a wake-up turns sleeping processes into runnable
  ones, so the two states are identified and everything else is kept.
\<close>

definition wake_class :: "proc \<Rightarrow> proc" where
  "wake_class p = (if p_state p = RUNNABLE then p\<lparr>p_state := SLEEPING\<rparr> else p)"

definition pview :: "'a kprocs_scheme \<Rightarrow> proc list \<times> nat option \<times> int \<times> nat option \<times> u64 \<times> u64" where
  "pview s = (map wake_class (procs s), cur s, nextpid s, initproc s, trampoline_pa s, forkret_pc s)"

lemma wake_class_wakes [simp]: "wake_class (wakes ch p) = wake_class p"
  by (simp add: wake_class_def wakes_def)

lemma pview_pset_wakes: "pview (pset i (wakes ch) s) = pview s"
  by (cases "i < length (procs s)") (simp_all add: pview_def pset_def map_update list_update_same_conv list_update_beyond)

lemma pview_wakeup [simp]: "pview (wakeup ch s) = pview s"
proof -
  have "pview (fold (\<lambda>i s. if myproc s \<noteq> Some i then pset i (wakes ch) s else s) is s) = pview s" for "is"
    by (induction "is" arbitrary: s) (simp_all add: pview_pset_wakes)
  then show ?thesis by (simp add: wakeup_def)
qed

lemma wakeup_more: "\<exists>ps. wakeup ch s = s\<lparr>procs := ps\<rparr>"
  using wakeup_rest [of ch s] by blast

lemma mview_wakeup [simp]: "mview (wakeup ch s) = mview s"
  using wakeup_more [of ch s] by (auto simp: mview_def)

lemma more_wakeup [simp]: "kinodes.more (wakeup ch s) = kinodes.more s"
  using wakeup_more [of ch s] by auto

interpretation mem_view: fs_view mview
  by unfold_locales (simp_all only: mview_wakeup, simp_all add: mview_def)

interpretation proc_view: fs_view pview
  by unfold_locales (simp_all only: pview_wakeup, simp_all add: pview_def)

interpretation more_view: fs_view kinodes.more
  by unfold_locales simp_all

end
