(* ===== verification/SwapSlots.thy ===== *)
theory SwapSlots
  imports Proc Pool
begin

section \<open>Swap slots\<close>

text \<open>
  \<open>alloc_swap_slot\<close> and \<open>free_swap_slot\<close> keep the slots of a process in a bitmap of sixteen
  64-bit words.  \<open>set_slot\<close> and \<open>clear_slot\<close> are their effect on the process; on the set
  \<open>used_slots\<close> of slots in use they insert and remove, and the two operations are an
  instance of the allocator interface \<open>pool\<close>.
\<close>

definition used_slots :: "proc \<Rightarrow> nat set" where
  "used_slots q = {i. i < MAX_SWAP_SLOTS \<and> slot_used (swap_bitmap q) i}"

definition set_slot :: "nat \<Rightarrow> proc \<Rightarrow> proc" where
  "set_slot i q = q\<lparr>swap_bitmap := (swap_bitmap q)
     [i div 64 := swap_bitmap q ! (i div 64) OR push_bit (i mod 64) 1], swap_slots_used := swap_slots_used q + 1\<rparr>"

definition clear_slot :: "int \<Rightarrow> proc \<Rightarrow> proc" where
  "clear_slot k q = (if k < 0 \<or> k \<ge> int MAX_SWAP_SLOTS \<or> \<not> slot_used (swap_bitmap q) (nat k) then q
     else q\<lparr>swap_bitmap := (swap_bitmap q)
       [nat k div 64 := swap_bitmap q ! (nat k div 64) AND NOT (push_bit (nat k mod 64) 1)],
       swap_slots_used := swap_slots_used q - 1\<rparr>)"

declare push_bit_of_1 [simp del]

lemma bit_one_push: "bit (push_bit n (1::u64)) k \<longleftrightarrow> k = n \<and> n < 64"
  by (auto simp: bit_push_bit_iff bit_1_iff)

lemmas slot_bits = bit_and_iff bit_or_iff bit_not_iff bit_one_push

lemma slot_used_bit: "slot_used bm i \<longleftrightarrow> bit (bm ! (i div 64)) (i mod 64)"
proof -
  have "w AND push_bit n 1 \<noteq> (0::u64) \<longleftrightarrow> bit w n" if "n < 64" for w n
  proof
    assume "w AND push_bit n 1 \<noteq> 0"
    then obtain k where "bit (w AND push_bit n 1) k" by (auto simp: bit_eq_iff)
    then show "bit w n" by (auto simp: slot_bits)
  next
    assume "bit w n"
    then have "bit (w AND push_bit n 1) n" using that by (simp add: slot_bits)
    then show "w AND push_bit n 1 \<noteq> 0" by auto
  qed
  then show ?thesis by (simp add: slot_used_def)
qed

lemma same_slot: "i div 64 = j div 64 \<Longrightarrow> i mod 64 = j mod 64 \<longleftrightarrow> i = (j::nat)" by (metis div_mult_mod_eq)

lemma slot_word: "i < MAX_SWAP_SLOTS \<Longrightarrow> i div 64 < 16" by (simp add: MAX_SWAP_SLOTS_def)

lemma bit_word_set: "i < 64 \<Longrightarrow> bit (w OR push_bit i 1) j \<longleftrightarrow> j = i \<or> bit (w :: u64) j"
  by (auto simp: slot_bits)

lemma bit_word_clear: "bit (w AND NOT (push_bit i 1)) j \<longleftrightarrow> j \<noteq> i \<and> bit (w :: u64) j"
  using bit_imp_le_length [of w j] by (auto simp: slot_bits)

lemma slot_used_set:
  assumes "length bm = 16" "i < MAX_SWAP_SLOTS"
  shows "slot_used (bm[i div 64 := bm ! (i div 64) OR push_bit (i mod 64) 1]) j \<longleftrightarrow> j = i \<or> slot_used bm j"
  using slot_word [OF assms(2)] same_slot [of j i]
  by (cases "j div 64 = i div 64")
    (auto simp: slot_used_bit assms(1) nth_list_update bit_word_set)

lemma slot_used_clear:
  assumes "length bm = 16" "i < MAX_SWAP_SLOTS"
  shows "slot_used (bm[i div 64 := bm ! (i div 64) AND NOT (push_bit (i mod 64) 1)]) j \<longleftrightarrow> j \<noteq> i \<and> slot_used bm j"
  using slot_word [OF assms(2)] same_slot [of j i]
  by (cases "j div 64 = i div 64")
    (auto simp: slot_used_bit assms(1) nth_list_update bit_word_clear)

lemma set_slot_sel [simp]:
  "pages (set_slot i q) = pages q" "num_pages (set_slot i q) = num_pages q" "next_fifo_seq (set_slot i q) = next_fifo_seq q"
  "p_killed (set_slot i q) = p_killed q" "length (swap_bitmap (set_slot i q)) = length (swap_bitmap q)"
  "swap_slots_used (set_slot i q) = swap_slots_used q + 1"
  by (simp_all add: set_slot_def)

lemma clear_slot_sel [simp]:
  "pages (clear_slot k q) = pages q" "num_pages (clear_slot k q) = num_pages q"
  "next_fifo_seq (clear_slot k q) = next_fifo_seq q" "p_killed (clear_slot k q) = p_killed q"
  "length (swap_bitmap (clear_slot k q)) = length (swap_bitmap q)"
  by (simp_all add: clear_slot_def)

lemma used_slots_set:
  "length (swap_bitmap q) = 16 \<Longrightarrow> i < MAX_SWAP_SLOTS \<Longrightarrow> used_slots (set_slot i q) = insert i (used_slots q)"
  by (auto simp: used_slots_def slot_used_set set_slot_def)

lemma used_slots_clear:
  assumes "length (swap_bitmap q) = 16"
  shows "used_slots (clear_slot k q) = (if 0 \<le> k then used_slots q - {nat k} else used_slots q)"
proof (cases "k < 0 \<or> k \<ge> int MAX_SWAP_SLOTS \<or> \<not> slot_used (swap_bitmap q) (nat k)")
  case True
  then show ?thesis by (auto simp: used_slots_def clear_slot_def)
next
  case False
  then have "nat k < MAX_SWAP_SLOTS" by linarith
  then show ?thesis using False by (auto simp: used_slots_def clear_slot_def slot_used_clear [OF assms])
qed

lemma finite_used [simp]: "finite (used_slots q)"
  by (rule finite_subset [of _ "{..<MAX_SWAP_SLOTS}"]) (auto simp: used_slots_def)

lemma clear_slots_used:
  "swap_slots_used (clear_slot k q) = (if 0 \<le> k \<and> nat k \<in> used_slots q then swap_slots_used q - 1 else swap_slots_used q)"
  by (auto simp: clear_slot_def used_slots_def nat_less_iff)

text \<open>Taking a free slot and giving it back is the identity.\<close>

lemma clear_set_slot:
  assumes "length (swap_bitmap q) = 16" "i < MAX_SWAP_SLOTS" "\<not> slot_used (swap_bitmap q) i"
  shows "clear_slot (int i) (set_slot i q) = q"
proof -
  let ?w = "swap_bitmap q ! (i div 64)" and ?b = "push_bit (i mod 64) (1::u64)"
  have l: "i div 64 < 16" using slot_word assms(2) .
  have w: "(?w OR ?b) AND NOT ?b = ?w"
    using assms(3) by (intro bit_eqI) (auto simp: slot_used_bit slot_bits)
  have u: "slot_used ((swap_bitmap q)[i div 64 := ?w OR ?b]) i" using slot_used_set [OF assms(1,2)] by blast
  have "clear_slot (int i) (set_slot i q) = q\<lparr>swap_bitmap := (swap_bitmap q)[i div 64 := (?w OR ?b) AND NOT ?b]\<rparr>"
    using u l assms(1,2) by (simp add: clear_slot_def set_slot_def)
  then show ?thesis by (simp only: w list_update_id) simp
qed

subsection \<open>The operations\<close>

lemma alloc_swap_slot_eq:
  "alloc_swap_slot p s = (case List.find (\<lambda>i. \<not> slot_used (swap_bitmap (pget p s)) i) [0..<MAX_SWAP_SLOTS] of
     Some i \<Rightarrow> (int i, pset p (set_slot i) s) | None \<Rightarrow> (-1, s))"
  unfolding alloc_swap_slot_def set_slot_def by (rule refl)

lemma free_swap_slot_eq: "free_swap_slot p k s = pset p (clear_slot k) s"
proof (cases "k < 0 \<or> k \<ge> int MAX_SWAP_SLOTS \<or> \<not> slot_used (swap_bitmap (pget p s)) (nat k)")
  case True
  then show ?thesis by (auto simp: free_swap_slot_def clear_slot_def pset_def Let_def)
next
  case False
  then show ?thesis by (simp add: free_swap_slot_def clear_slot_def pset_def Let_def)
qed

lemma find_slot: "(List.find (\<lambda>i. \<not> slot_used (swap_bitmap q) i) [0..<MAX_SWAP_SLOTS] = None) = (used_slots q = {..<MAX_SWAP_SLOTS})"
  "List.find (\<lambda>i. \<not> slot_used (swap_bitmap q) i) [0..<MAX_SWAP_SLOTS] = Some i \<Longrightarrow>
     i < MAX_SWAP_SLOTS \<and> i \<notin> used_slots q \<and> (\<forall>j<i. j \<in> used_slots q)"
  by (auto simp: used_slots_def find_None_iff find_Some_iff)

text \<open>
  The allocator interface, on the state with the process it works for.  A slot beyond the
  bitmap is not given back at all.
\<close>

definition slots_ok :: "nat \<Rightarrow> 'a kprocs_scheme \<Rightarrow> bool" where
  "slots_ok p s \<longleftrightarrow> p < length (procs s) \<and> length (swap_bitmap (pget p s)) = 16"

definition free_slots :: "nat \<Rightarrow> 'a kprocs_scheme \<Rightarrow> nat set" where
  "free_slots p s = {..<MAX_SWAP_SLOTS} - used_slots (pget p s)"

definition take_slot :: "nat \<Rightarrow> 'a kprocs_scheme \<Rightarrow> (nat \<times> 'a kprocs_scheme) option" where
  "take_slot p s = (case alloc_swap_slot p s of (k, t) \<Rightarrow> if k < 0 then None else Some (nat k, t))"

definition give_slot :: "nat \<Rightarrow> nat \<Rightarrow> 'a kprocs_scheme \<Rightarrow> 'a kprocs_scheme option" where
  "give_slot p k s = (if k < MAX_SWAP_SLOTS then Some (free_swap_slot p (int k) s) else None)"

lemma take_slot_eq:
  "take_slot p s = map_option (\<lambda>i. (i, pset p (set_slot i) s))
     (List.find (\<lambda>i. \<not> slot_used (swap_bitmap (pget p s)) i) [0..<MAX_SWAP_SLOTS])"
  by (simp add: take_slot_def alloc_swap_slot_eq split: option.split)

lemma pget_pset_same: "p < length (procs s) \<Longrightarrow> pget p (pset p f s) = f (pget p s)" by (simp add: pset_def)

interpretation swap: pool "slots_ok p" "free_slots p" "take_slot p" "give_slot p" for p
proof
  fix s :: "'a kprocs_scheme" assume "slots_ok p s"
  show "take_slot p s = None \<longleftrightarrow> free_slots p s = {}"
    using find_slot(1) [of "pget p s"] by (auto simp: take_slot_eq free_slots_def used_slots_def)
next
  fix s t :: "'a kprocs_scheme" and i assume s: "slots_ok p s" and "take_slot p s = Some (i, t)"
  then have f: "List.find (\<lambda>i. \<not> slot_used (swap_bitmap (pget p s)) i) [0..<MAX_SWAP_SLOTS] = Some i"
    and t: "t = pset p (set_slot i) s" by (auto simp: take_slot_eq)
  have "pget p t = set_slot i (pget p s)" using s t by (simp add: pget_pset_same slots_ok_def)
  then show "i \<in> free_slots p s \<and> slots_ok p t \<and> free_slots p t = free_slots p s - {i}"
    using s t find_slot(2) [OF f] used_slots_set [of "pget p s" i] by (auto simp: slots_ok_def free_slots_def pset_def)
next
  fix s t :: "'a kprocs_scheme" and i assume s: "slots_ok p s" "i \<notin> free_slots p s" "give_slot p i s = Some t"
  then have i: "i < MAX_SWAP_SLOTS" and t: "t = pset p (clear_slot (int i)) s"
    by (auto simp: give_slot_def free_swap_slot_eq split: if_splits)
  have "pget p t = clear_slot (int i) (pget p s)" using s t by (simp add: pget_pset_same slots_ok_def)
  then show "slots_ok p t \<and> free_slots p t = insert i (free_slots p s)"
    using s t i used_slots_clear [of "pget p s" "int i"] by (auto simp: slots_ok_def free_slots_def pset_def)
qed

end
