(* ===== verification/PagingInv.thy ===== *)
theory PagingInv
  imports Paging FsFrame SwapSlots PageTableInv
begin

section \<open>The pager as a machine on page records\<close>

text \<open>
  What demand paging does to the records of a process, without memory, files and the
  disk: \<open>fault_step\<close> is an abstract pager that serves one fault, and every page fault of
  \<open>handle_page_fault\<close>, whatever it does with the file system on the way, is one step of it
  with the same result.  \<open>page_op\<close> cuts such a step into elementary ones; the invariant
  \<open>pages_ok\<close> of the records is proved by induction over these.
\<close>

subsection \<open>The view of the process table\<close>

definition strip :: "proc \<Rightarrow> proc" where
  "strip q = (wake_class q)\<lparr>swap_file := None\<rparr>"

definition pgv :: "'a kprocs_scheme \<Rightarrow> proc list" where
  "pgv s = map strip (procs s)"

lemma strip_sel [simp]:
  "pages (strip q) = pages q" "num_pages (strip q) = num_pages q" "swap_bitmap (strip q) = swap_bitmap q"
  "swap_slots_used (strip q) = swap_slots_used q" "next_fifo_seq (strip q) = next_fifo_seq q"
  "p_killed (strip q) = p_killed q" "p_pid (strip q) = p_pid q"
  by (simp_all add: strip_def wake_class_def)

lemma strip_upd [simp]:
  "strip (q\<lparr>pages := x1\<rparr>) = (strip q)\<lparr>pages := x1\<rparr>" "strip (q\<lparr>num_pages := x2\<rparr>) = (strip q)\<lparr>num_pages := x2\<rparr>"
  "strip (q\<lparr>swap_bitmap := x3\<rparr>) = (strip q)\<lparr>swap_bitmap := x3\<rparr>"
  "strip (q\<lparr>swap_slots_used := x4\<rparr>) = (strip q)\<lparr>swap_slots_used := x4\<rparr>"
  "strip (q\<lparr>next_fifo_seq := x5\<rparr>) = (strip q)\<lparr>next_fifo_seq := x5\<rparr>"
  "strip (q\<lparr>p_killed := x6\<rparr>) = (strip q)\<lparr>p_killed := x6\<rparr>" "strip (q\<lparr>swap_file := x7\<rparr>) = strip q"
  by (simp_all add: strip_def wake_class_def)

lemma pview_pgv: "pview t = pview s \<Longrightarrow> pgv t = pgv s"
  unfolding pview_def pgv_def strip_def
  by (metis (mono_tags, lifting) Pair_inject comp_def map_eq_conv map_map list.map_comp)

lemma pgv_nth: "p < length (procs s) \<Longrightarrow> pgv s ! p = strip (pget p s)"
  by (simp add: pgv_def)

lemma length_pgv [simp]: "length (pgv s) = length (procs s)" by (simp add: pgv_def)

lemma pgv_pset: "pgv (pset p g s) = (pgv s)[p := strip (g (pget p s))]"
  by (simp add: pgv_def pset_def map_update)

lemma pgv_kprint [simp]: "pgv (kprint m s) = pgv s" by (simp add: pgv_def)
lemma pgv_fset [simp]: "pgv (fset f g s) = pgv s" by (simp add: pgv_def fset_def)

lemma pgv_wakeup: "pgv (wakeup ch s) = pgv s"
  by (rule pview_pgv) simp

interpretation pg_fs: fs_view pgv
  by unfold_locales (simp_all only: pgv_wakeup, simp_all add: pgv_def)

interpretation pg_mem: mem_frame pgv
  by unfold_locales (simp_all add: pgv_def)

lemma pg_keeps_mem [simp]: "pg_fs.keeps_r to_mem" "pg_fs.keeps_w from_mem"
  by (auto simp: pg_fs.keeps_r_def pg_fs.keeps_w_def to_mem_def from_mem_def)

lemmas pg_rules = pg_fs.view_fs pg_mem.frame_mem

lemmas pg_rules_mem = pg_fs.view_readi [OF pg_keeps_mem(1)] pg_fs.view_writei [OF pg_keeps_mem(2)]

lemma pg_create_swap_file:
  assumes p: "\<And>r t. pgv t = pgv s \<Longrightarrow> P (r, t)"
  shows "post (create_swap_file p s) P"
proof -
  have up: "pgv (pset p (\<lambda>q. q\<lparr>swap_file := x\<rparr>) s) = pgv s" for x and s :: "'a kfiles_scheme"
    by (cases "p < length (procs s)") (simp_all add: pgv_pset pgv_nth [symmetric] list_update_beyond)
  have fa: "filealloc s = (f, t) \<Longrightarrow> pgv t = pgv s" for f t and s :: "'a kfiles_scheme"
    by (auto simp: filealloc_def split: option.splits)
  show ?thesis
    unfolding create_swap_file_def
    by (intro post_rules pg_fs.view_log pg_fs.view_create pg_fs.view_iunlock pg_fs.view_iunlockput p)
      (simp_all add: up fa)
qed

lemma pg_file_page_read:
  assumes p: "\<And>r t. pgv t = pgv s \<Longrightarrow> P (r, t)"
  shows "post (file_page_read ip pa off n s) P"
  unfolding file_page_read_def by (intro pg_fs.view_inode pg_rules_mem p) simp_all

lemma pg_swap_write:
  assumes p: "\<And>r t. pgv t = pgv s \<Longrightarrow> P (r, t)"
  shows "post (swap_write p pa slot s) P"
  unfolding swap_write_def
  by (intro pg_fs.view_inode pg_rules_mem post_any [of "swap_ip _ _"] p) simp_all

lemma pg_swap_out_page:
  assumes p: "\<And>r t. pgv t = pgv s \<Longrightarrow> P (r, t)"
  shows "post (swap_out_page p va slot s) P"
  unfolding swap_out_page_def
  by (intro post_rules pg_create_swap_file pg_mem.frame_walk pg_swap_write p) simp_all


subsection \<open>Steps of the abstract pager\<close>

definition page_upd :: "nat \<Rightarrow> (page_info \<Rightarrow> page_info) \<Rightarrow> proc \<Rightarrow> proc" where
  "page_upd i f q = q\<lparr>pages := (pages q)[i := f (pages q ! i)]\<rparr>"

definition track_page :: "u64 \<Rightarrow> proc \<Rightarrow> proc" where
  "track_page va q = q\<lparr>pages := (pages q)[num_pages q := \<lparr>pi_va = va, pi_state = UNMAPPED,
     is_dirty = False, pi_seq = 0, swap_slot = -1\<rparr>], num_pages := num_pages q + 1\<rparr>"

definition map_page :: "nat \<Rightarrow> proc \<Rightarrow> proc" where
  "map_page i q = page_upd i (\<lambda>pg. pg\<lparr>pi_state := RESIDENT, pi_seq := next_fifo_seq q, is_dirty := False\<rparr>)
     (q\<lparr>next_fifo_seq := next_fifo_seq q + 1\<rparr>)"

definition unswap_page :: "nat \<Rightarrow> proc \<Rightarrow> proc" where
  "unswap_page i q = page_upd i (\<lambda>pg. pg\<lparr>swap_slot := -1\<rparr>) (clear_slot (swap_slot (pages q ! i)) q)"

text \<open>The pages in a state, and the resident page that was mapped longest ago.\<close>

definition pages_in :: "pagestate \<Rightarrow> proc \<Rightarrow> nat set" where
  "pages_in st q = {i. i < num_pages q \<and> pi_state (pages q ! i) = st}"

definition oldest :: "proc \<Rightarrow> nat \<Rightarrow> bool" where
  "oldest q v \<longleftrightarrow> v \<in> pages_in RESIDENT q \<and>
     (\<forall>j\<in>pages_in RESIDENT q. pi_seq (pages q ! v) \<le> pi_seq (pages q ! j))"

text \<open>
  The steps: the process is killed, a page is written for the first time, a record is
  made for a page, the oldest page is dropped because it is clean or goes to a free slot
  because it is dirty, a page is mapped with the next sequence number, and a swapped page
  comes back, or is lost together with the process.
\<close>

inductive evicts :: "proc \<Rightarrow> proc \<Rightarrow> bool" where
  discard: "oldest q v \<Longrightarrow> \<not> is_dirty (pages q ! v) \<Longrightarrow>
     evicts q (page_upd v (\<lambda>pg. pg\<lparr>pi_state := UNMAPPED\<rparr>) q)"
| swapout: "oldest q v \<Longrightarrow> is_dirty (pages q ! v) \<Longrightarrow> k < MAX_SWAP_SLOTS \<Longrightarrow> k \<notin> used_slots q \<Longrightarrow>
     evicts q (page_upd v (\<lambda>pg. pg\<lparr>pi_state := SWAPPED, swap_slot := int k\<rparr>) (set_slot k q))"

inductive page_op :: "proc \<Rightarrow> proc \<Rightarrow> bool" where
  kill: "page_op q (q\<lparr>p_killed := True\<rparr>)"
| dirty: "i < num_pages q \<Longrightarrow> pi_state (pages q ! i) = RESIDENT \<Longrightarrow>
     page_op q (page_upd i (\<lambda>pg. pg\<lparr>is_dirty := True\<rparr>) q)"
| track: "num_pages q < MAX_PAGES \<Longrightarrow> page_aligned va \<Longrightarrow> \<forall>i<num_pages q. pi_va (pages q ! i) \<noteq> va \<Longrightarrow>
     page_op q (track_page va q)"
| evict: "evicts q q' \<Longrightarrow> page_op q q'"
| map_in: "i < num_pages q \<Longrightarrow> page_op q (map_page i q)"
| swap_in: "i < num_pages q \<Longrightarrow> pi_state (pages q ! i) = SWAPPED \<Longrightarrow> page_op q (map_page i (unswap_page i q))"
| swap_lost: "i < num_pages q \<Longrightarrow> pi_state (pages q ! i) = SWAPPED \<Longrightarrow>
     page_op q ((unswap_page i q)\<lparr>p_killed := True\<rparr>)"

text \<open>
  One fault on page \<open>va\<close>, with its result: 0, or -1.  \<open>full\<close> says that no frame is free:
  then, and only then, one page is evicted.  A fault that has to be refused kills the process
  when it comes from user mode; the first write to a clean page marks it; any other fault
  brings the page in, a new page with a new record and a swapped one from its slot, which it
  gives back, or kills the process.
\<close>

datatype fault_kind = Refused | First_write | Absent

definition makes_room :: "bool \<Rightarrow> proc \<Rightarrow> proc \<Rightarrow> bool" where
  "makes_room full q q' \<longleftrightarrow> (if full then evicts q q' else q' = q)"

definition no_frame :: "bool \<Rightarrow> proc \<Rightarrow> proc \<Rightarrow> bool" where
  "no_frame full q q' \<longleftrightarrow> full \<and> (q' = q\<lparr>p_killed := True\<rparr> \<or> (\<exists>q1. evicts q q1 \<and> q' = q1\<lparr>p_killed := True\<rparr>))"

definition brought_in :: "bool \<Rightarrow> nat \<Rightarrow> proc \<Rightarrow> int \<Rightarrow> proc \<Rightarrow> bool" where
  "brought_in full i q r q' \<longleftrightarrow> r = -1 \<and> no_frame full q q' \<or>
     (\<exists>q1. makes_room full q q1 \<and> (r = 0 \<and> q' = map_page i q1 \<or> r = -1 \<and> q' = q1\<lparr>p_killed := True\<rparr>))"

definition brought_back :: "bool \<Rightarrow> nat \<Rightarrow> proc \<Rightarrow> int \<Rightarrow> proc \<Rightarrow> bool" where
  "brought_back full i q r q' \<longleftrightarrow> r = -1 \<and> no_frame full q q' \<or>
     (\<exists>q1. makes_room full q q1 \<and> (r = 0 \<and> q' = map_page i (unswap_page i q1) \<or>
        r = -1 \<and> (q' = q1\<lparr>p_killed := True\<rparr> \<or> q' = (unswap_page i q1)\<lparr>p_killed := True\<rparr>)))"

inductive fault_step :: "bool \<Rightarrow> fault_kind \<Rightarrow> u64 \<Rightarrow> bool \<Rightarrow> proc \<Rightarrow> int \<Rightarrow> proc \<Rightarrow> bool" where
  refuse_kernel: "fault_step full Refused va False q (-1) q"
| refuse_user: "fault_step full Refused va True q (-1) (q\<lparr>p_killed := True\<rparr>)"
| first_write: "i < num_pages q \<Longrightarrow> pi_va (pages q ! i) = va \<Longrightarrow> pi_state (pages q ! i) = RESIDENT \<Longrightarrow>
     \<not> is_dirty (pages q ! i) \<Longrightarrow> fault_step full First_write va fu q 0 (page_upd i (\<lambda>pg. pg\<lparr>is_dirty := True\<rparr>) q)"
| no_record: "\<forall>i<num_pages q. pi_va (pages q ! i) \<noteq> va \<Longrightarrow> MAX_PAGES \<le> num_pages q \<Longrightarrow>
     fault_step full Absent va fu q (-1) (q\<lparr>p_killed := True\<rparr>)"
| new_page: "\<forall>i<num_pages q. pi_va (pages q ! i) \<noteq> va \<Longrightarrow> num_pages q < MAX_PAGES \<Longrightarrow>
     brought_in full (num_pages q) (track_page va q) r q' \<Longrightarrow> fault_step full Absent va fu q r q'"
| known_page: "i < num_pages q \<Longrightarrow> pi_va (pages q ! i) = va \<Longrightarrow> pi_state (pages q ! i) \<noteq> SWAPPED \<Longrightarrow>
     brought_in full i q r q' \<Longrightarrow> fault_step full Absent va fu q r q'"
| swapped_page: "i < num_pages q \<Longrightarrow> pi_va (pages q ! i) = va \<Longrightarrow> pi_state (pages q ! i) = SWAPPED \<Longrightarrow>
     brought_back full i q r q' \<Longrightarrow> fault_step full Absent va fu q r q'"

lemma strip_ops [simp]:
  "strip (page_upd i f q) = page_upd i f (strip q)" "strip (set_slot k q) = set_slot k (strip q)"
  "strip (clear_slot m q) = clear_slot m (strip q)" "strip (track_page va q) = track_page va (strip q)"
  "strip (map_page i q) = map_page i (strip q)" "strip (unswap_page i q) = unswap_page i (strip q)"
  by (simp_all add: page_upd_def set_slot_def clear_slot_def track_page_def map_page_def unswap_page_def)

lemma page_upd_sel [simp]:
  "num_pages (page_upd i f q) = num_pages q" "next_fifo_seq (page_upd i f q) = next_fifo_seq q"
  "swap_bitmap (page_upd i f q) = swap_bitmap q" "used_slots (page_upd i f q) = used_slots q"
  "pages (page_upd i f q) = (pages q)[i := f (pages q ! i)]" "p_killed (page_upd i f q) = p_killed q"
  "swap_slots_used (page_upd i f q) = swap_slots_used q"
  by (simp_all add: page_upd_def used_slots_def)

lemma find_victim_strip [simp]: "find_victim (strip q) = find_victim q" by (simp add: find_victim_def)
lemma used_slots_strip [simp]: "used_slots (strip q) = used_slots q" by (simp add: used_slots_def)

lemma pgv_set: "p < length (procs s) \<Longrightarrow> (\<And>q. strip (f q) = f (strip q)) \<Longrightarrow> pgv (pset p f s) = (pgv s)[p := f (pgv s ! p)]"
  by (simp add: pgv_pset pgv_nth)

lemma pgv_length: "pgv t = pgv s \<Longrightarrow> length (procs t) = length (procs s)"
  by (metis length_pgv)

text \<open>What the view determines of the process.\<close>

lemma pgv_sel:
  assumes "p < length (procs s)"
  shows "pages (pget p s) = pages (pgv s ! p)" "num_pages (pget p s) = num_pages (pgv s ! p)"
    "swap_bitmap (pget p s) = swap_bitmap (pgv s ! p)" "find_victim (pget p s) = find_victim (pgv s ! p)"
    "used_slots (pget p s) = used_slots (pgv s ! p)" "next_fifo_seq (pget p s) = next_fifo_seq (pgv s ! p)"
  using assms by (simp_all add: pgv_nth)

lemma pi_set_eq: "pi_set p i f s = pset p (page_upd i f) s"
  by (simp add: pi_set_def page_upd_def [abs_def])

lemma pgv_pi_set: "p < length (procs s) \<Longrightarrow> pgv (pi_set p i f s) = (pgv s)[p := page_upd i f (pgv s ! p)]"
  by (simp add: pi_set_eq pgv_set)

lemma pgv_setkilled: "p < length (procs s) \<Longrightarrow> pgv (setkilled p s) = (pgv s)[p := (pgv s ! p)\<lparr>p_killed := True\<rparr>]"
  by (simp add: setkilled_def pgv_set)

lemma pgv_free_slot: "p < length (procs s) \<Longrightarrow> pgv (free_swap_slot p k s) = (pgv s)[p := clear_slot k (pgv s ! p)]"
  by (simp add: free_swap_slot_eq pgv_set)

lemma pgv_alloc_slot:
  assumes "alloc_swap_slot p s = (k, t)" "p < length (procs s)"
  shows "k < 0 \<and> pgv t = pgv s \<or>
    (\<exists>i<MAX_SWAP_SLOTS. k = int i \<and> i \<notin> used_slots (pgv s ! p) \<and> pgv t = (pgv s)[p := set_slot i (pgv s ! p)])"
  using assms find_slot(2) [of "pget p s"]
  by (auto simp: alloc_swap_slot_eq pgv_set pgv_sel(3) pgv_sel(5) split: option.splits)

subsection \<open>The functions of the handler as steps\<close>

lemma swap_slot_back:
  "length (swap_bitmap q) = 16 \<Longrightarrow> i < MAX_SWAP_SLOTS \<Longrightarrow> i \<notin> used_slots q \<Longrightarrow> clear_slot (int i) (set_slot i q) = q"
  by (rule clear_set_slot) (auto simp: used_slots_def)

lemma evict_dirty_effect:
  assumes l: "p < length (procs s)" "length (swap_bitmap (pgv s ! p)) = 16"
    and fail: "\<And>r t. r < 0 \<Longrightarrow> pgv t = pgv s \<Longrightarrow> P (r, t)"
    and done_: "\<And>k t. k < MAX_SWAP_SLOTS \<Longrightarrow> k \<notin> used_slots (pgv s ! p) \<Longrightarrow> pgv t = (pgv s)
      [p := page_upd v (\<lambda>pg. pg\<lparr>pi_state := SWAPPED, swap_slot := int k\<rparr>) (set_slot k (pgv s ! p))] \<Longrightarrow> P (0, t)"
  shows "post (evict_dirty p v va s) P"
proof -
  obtain k t where a: "alloc_swap_slot p (kprint (EVICT (p_pid (pget p s)) va ''dirty'') s) = (k, t)" by fastforce
  from pgv_alloc_slot [OF a] l(1)
  consider "k < 0" "pgv t = pgv s"
    | i where "k = int i" "i < MAX_SWAP_SLOTS" "i \<notin> used_slots (pgv s ! p)" "pgv t = (pgv s)[p := set_slot i (pgv s ! p)]"
    by auto
  then show ?thesis
  proof cases
    case 1
    then show ?thesis by (simp add: evict_dirty_def a post_Some fail)
  next
    case 2
    have lt: "p < length (procs t)" using pgv_length [of t "t\<lparr>procs := pgv s\<rparr>"] 2(4) l(1) by (metis length_list_update length_pgv)
    have p1: "p < length (pgv s)" using l(1) by simp
    have give: "P (-1, free_swap_slot p (int i) u)" if u: "pgv u = pgv t" for u
    proof (rule fail)
      have "p < length (procs u)" using lt pgv_length [OF u] by simp
      then show "pgv (free_swap_slot p (int i) u) = pgv s"
        using swap_slot_back [OF l(2) 2(2,3)] p1 by (simp add: pgv_free_slot u 2(4))
    qed simp
    have fin: "P (0, pi_set p v (\<lambda>pg. pg\<lparr>pi_state := SWAPPED, swap_slot := int i\<rparr>) u)" if u: "pgv u = pgv t" for u
    proof (rule done_ [OF 2(2,3)])
      have "p < length (procs u)" using lt pgv_length [OF u] by simp
      then show "pgv (pi_set p v (\<lambda>pg. pg\<lparr>pi_state := SWAPPED, swap_slot := int i\<rparr>) u) = (pgv s)
        [p := page_upd v (\<lambda>pg. pg\<lparr>pi_state := SWAPPED, swap_slot := int i\<rparr>) (set_slot i (pgv s ! p))]"
        using p1 by (simp add: pgv_pi_set u 2(4))
    qed
    show ?thesis unfolding evict_dirty_def Let_def a prod.case 2(1)
      by (intro post_rules pg_create_swap_file pg_swap_out_page give fin) simp_all
  qed
qed

lemma evict_clean_effect:
  "p < length (procs s) \<Longrightarrow> pgv (evict_clean p v va s) = (pgv s)[p := page_upd v (\<lambda>pg. pg\<lparr>pi_state := UNMAPPED\<rparr>) (pgv s ! p)]"
  by (simp add: evict_clean_def Let_def pgv_pi_set)

subsection \<open>The oldest page\<close>

lemma victim_scan_least:
  "victim_scan pgs i v m = None \<Longrightarrow> v = None \<and> (\<forall>pg\<in>set pgs. pi_state pg = RESIDENT \<longrightarrow> m \<le> pi_seq pg)"
  "victim_scan pgs i v m = Some k \<Longrightarrow> v = Some k \<and> (\<forall>pg\<in>set pgs. pi_state pg = RESIDENT \<longrightarrow> m \<le> pi_seq pg) \<or>
     i \<le> k \<and> k < i + length pgs \<and> pi_state (pgs ! (k - i)) = RESIDENT \<and> pi_seq (pgs ! (k - i)) < m \<and>
     (\<forall>pg\<in>set pgs. pi_state pg = RESIDENT \<longrightarrow> pi_seq (pgs ! (k - i)) \<le> pi_seq pg)"
proof (induction pgs i v m rule: victim_scan.induct)
  case (2 pg pgs i v m)
  { case 1
    then show ?case using "2.IH" by (auto split: if_splits)
  next
    case 2
    show ?case
    proof (cases "pi_state pg = RESIDENT \<and> pi_seq pg < m")
      case True
      then have "k = i \<and> (\<forall>p\<in>set pgs. pi_state p = RESIDENT \<longrightarrow> pi_seq pg \<le> pi_seq p) \<or>
         Suc i \<le> k \<and> k < Suc i + length pgs \<and> pi_state (pgs ! (k - Suc i)) = RESIDENT \<and> pi_seq (pgs ! (k - Suc i)) < pi_seq pg \<and>
         (\<forall>p\<in>set pgs. pi_state p = RESIDENT \<longrightarrow> pi_seq (pgs ! (k - Suc i)) \<le> pi_seq p)"
        using "2.IH"(2) [OF True] 2 by auto
      then show ?thesis using True Suc_diff_le [of "Suc i" k] by (auto simp: nth_Cons')
    next
      case False
      then have "victim_scan pgs (Suc i) v m = Some k" using 2 by (simp split: if_splits)
      from "2.IH"(4) [OF False this] False show ?thesis using Suc_diff_le [of "Suc i" k] by (auto simp: nth_Cons')
    qed
  }
qed simp_all

lemma find_victim_oldest:
  assumes "find_victim q = Some v" "num_pages q \<le> length (pages q)"
  shows "oldest q v"
proof -
  let ?t = "take (num_pages q) (pages q)"
  have v: "v < num_pages q" "pi_state (pages q ! v) = RESIDENT" "\<forall>pg\<in>set ?t. pi_state pg = RESIDENT \<longrightarrow> pi_seq (pages q ! v) \<le> pi_seq pg"
    using victim_scan_least(2) [OF assms(1) [unfolded find_victim_def]] assms(2) by auto
  have "pages q ! j \<in> set ?t" if "j < num_pages q" for j using that assms(2) by (auto simp: in_set_conv_nth)
  then show ?thesis using v by (auto simp: oldest_def pages_in_def)
qed

lemma in_table: "pgv t = (pgv s)[p := q'] \<Longrightarrow> length (procs t) = length (procs s)"
  by (metis length_list_update length_pgv)

text \<open>The process and the table the lemmas below are about.\<close>

definition slots_wf :: "nat \<Rightarrow> 'a kprocs_scheme \<Rightarrow> bool" where
  "slots_wf p s \<longleftrightarrow> p < length (procs s) \<and> length (swap_bitmap (pgv s ! p)) = 16 \<and>
     length (pages (pgv s ! p)) = MAX_PAGES \<and> num_pages (pgv s ! p) \<le> MAX_PAGES"

lemma slots_wf_cong: "pgv t = pgv s \<Longrightarrow> slots_wf p t = slots_wf p s"
  using pgv_length [of t s] by (simp add: slots_wf_def)

lemma slots_wfD:
  assumes "slots_wf p s"
  shows "p < length (procs s)" "length (swap_bitmap (pgv s ! p)) = 16" "num_pages (pgv s ! p) \<le> length (pages (pgv s ! p))"
    "p < length (pgv s)"
  using assms by (simp_all add: slots_wf_def)

lemma post_Some_eq: "post (Some r) P = P r" by (simp add: post_def)

lemma post_seq: "post m R \<Longrightarrow> (\<And>r. R r \<Longrightarrow> post (f r) P) \<Longrightarrow> post (Option.bind m f) P"
  by (auto simp: post_def)

lemma walk_stays: "walk pt va False s = Some (pte, t) \<Longrightarrow> t = s"
  by (cases "va < MAXVA") (simp_all add: walk_lookup walk_panics)

text \<open>
  An eviction either fails, which it does only without a victim, or when the victim is not
  mapped or is dirty, and then changes no record; or it is one step \<open>evicts\<close>.
\<close>

definition may_fail :: "nat \<Rightarrow> 'a kprocs_scheme \<Rightarrow> bool" where
  "may_fail p s \<longleftrightarrow> (case find_victim (pget p s) of None \<Rightarrow> True | Some v \<Rightarrow> is_dirty (pi_get p v s) \<or>
     (\<exists>pte. walk (p_pagetable (pget p s)) (pi_va (pi_get p v s)) False s = Some (pte, s) \<and>
        (pte = 0 \<or> ld64 (mem s) pte AND PTE_V = 0)))"

lemma evict_effect:
  assumes w: "slots_wf p s"
    and fail: "\<And>r t. r < 0 \<Longrightarrow> may_fail p s \<Longrightarrow> pgv t = pgv s \<Longrightarrow> P (r, t)"
    and done_: "\<And>q' t. evicts (pgv s ! p) q' \<Longrightarrow> pgv t = (pgv s)[p := q'] \<Longrightarrow> P (0, t)"
  shows "post (evict_page_fifo p s) P"
proof (cases "find_victim (pget p s)")
  case None
  then show ?thesis by (simp add: evict_page_fifo_def post_Some fail may_fail_def)
next
  case (Some v)
  note l = slots_wfD [OF w]
  have old: "oldest (pgv s ! p) v" using find_victim_oldest [OF _ l(3)] Some pgv_sel(4) [OF l(1)] by simp
  let ?pt = "p_pagetable (pget p s)" and ?va = "pi_va (pi_get p v s)"
  let ?u = "kprint (VICTIM (p_pid (pget p s)) ?va (pi_seq (pi_get p v s))) (kprint (MEMFULL (p_pid (pget p s))) s)"
  have u: "pgv ?u = pgv s" "length (procs ?u) = length (procs s)" "pget p ?u = pget p s" "mem ?u = mem s" by simp_all
  have pk: "pi_get p i (kprint m x) = pi_get p i x" for m i and x :: "'a kfiles_scheme" by (simp add: pi_get_def)
  have walk_u: "walk ?pt ?va False ?u = Some (pte, t) \<Longrightarrow> t = ?u \<and> walk ?pt ?va False s = Some (pte, s)" for pte t
    using walk_stays [of ?pt ?va ?u pte t] by (cases "?va < MAXVA") (simp_all add: walk_lookup walk_panics)
  let ?ev = "if is_dirty (pi_get p v ?u) then evict_dirty p v ?va ?u else Some (0, evict_clean p v ?va ?u)"
  have step: "post ?ev (\<lambda>(r, t). if r < 0 then may_fail p s \<and> pgv t = pgv s
      else r = 0 \<and> (\<exists>q'. evicts (pgv s ! p) q' \<and> pgv t = (pgv s)[p := q']))"
  proof (cases "is_dirty (pi_get p v s)")
    case True
    then have d: "is_dirty (pages (pgv s ! p) ! v)" using l(1) by (simp add: pi_get_def pgv_sel)
    have "may_fail p s" using True Some by (simp add: may_fail_def)
    then show ?thesis using True l(1,2)
      by (simp add: pk, intro evict_dirty_effect) (auto intro: evicts.swapout [OF old d])
  next
    case False
    then have d: "\<not> is_dirty (pages (pgv s ! p) ! v)" using l(1) by (simp add: pi_get_def pgv_sel)
    show ?thesis using False evicts.discard [OF old d] l(1)
      by (auto simp: pk post_Some_eq evict_clean_effect)
  qed
  have um: "post (uvmunmap pt va n d x) (\<lambda>x. post (Some (0, x)) P)"
    if "\<And>t. pgv t = pgv x \<Longrightarrow> P (0, t)" for pt va n d x
    by (intro pg_mem.frame_uvmunmap post_Some that)
  have inner: "post (do { (r, s) \<leftarrow> ?ev; if r < 0 then Some (-1, s)
      else do { s \<leftarrow> uvmunmap (p_pagetable (pget p s)) ?va 1 True s; Some (0, s) } }) P"
  proof (rule post_seq [OF step], clarify)
    fix r :: int and t :: "'a kfiles_scheme"
    assume h: "if r < 0 then may_fail p s \<and> pgv t = pgv s else r = 0 \<and> (\<exists>q'. evicts (pgv s ! p) q' \<and> pgv t = (pgv s)[p := q'])"
    show "post (if r < 0 then Some (-1, t) else do { s \<leftarrow> uvmunmap (p_pagetable (pget p t)) ?va 1 True t; Some (0, s) }) P"
    proof (cases "r < 0")
      case True
      then show ?thesis using h by (simp add: post_Some_eq fail)
    next
      case False
      then obtain q' where q': "evicts (pgv s ! p) q'" "pgv t = (pgv s)[p := q']" using h by auto
      have "P (0, w)" if "pgv w = pgv t" for w using done_ [OF q'(1)] q'(2) that by simp
      then show ?thesis using False by simp (intro post_bind um)
    qed
  qed
  have "evict_page_fifo p s = do {
      (pte, s) \<leftarrow> walk ?pt ?va False ?u;
      if pte = 0 \<or> ld64 (mem s) pte AND PTE_V = 0 then Some (-1, s)
      else do { (r, s) \<leftarrow> (if is_dirty (pi_get p v s) then evict_dirty p v ?va s else Some (0, evict_clean p v ?va s));
        if r < 0 then Some (-1, s)
        else do { s \<leftarrow> uvmunmap (p_pagetable (pget p s)) ?va 1 True s; Some (0, s) } } }"
    by (simp add: evict_page_fifo_def Some Let_def pk)
  also have "post \<dots> P"
  proof (rule post_seq [OF post_any [where P = "\<lambda>(pte, t). t = ?u \<and> walk ?pt ?va False s = Some (pte, s)"]])
    show "walk ?pt ?va False ?u = Some x \<Longrightarrow> case x of (pte, t) \<Rightarrow> t = ?u \<and> walk ?pt ?va False s = Some (pte, s)" for x
      using walk_u by (cases x) simp
    fix x
    assume "case x of (pte, t) \<Rightarrow> t = ?u \<and> walk ?pt ?va False s = Some (pte, s)"
    then obtain pte where x: "x = (pte, ?u)" "walk ?pt ?va False s = Some (pte, s)" by auto
    have "may_fail p s" if "pte = 0 \<or> ld64 (mem s) pte AND PTE_V = 0" using that x(2) Some by (auto simp: may_fail_def)
    then show "post (case x of (pte, s) \<Rightarrow> if pte = 0 \<or> ld64 (mem s) pte AND PTE_V = 0 then Some (-1, s)
      else do { (r, s) \<leftarrow> (if is_dirty (pi_get p v s) then evict_dirty p v ?va s else Some (0, evict_clean p v ?va s));
        if r < 0 then Some (-1, s)
        else do { s \<leftarrow> uvmunmap (p_pagetable (pget p s)) ?va 1 True s; Some (0, s) } }) P"
      unfolding x(1) prod.case u(4) using inner by (intro post_if) (simp_all add: post_Some_eq fail)
  qed
  finally show ?thesis .
qed

lemma oldest_less: "oldest q v \<Longrightarrow> v < num_pages q \<and> pi_state (pages q ! v) = RESIDENT"
  by (simp add: oldest_def pages_in_def)

lemma evicts_keeps:
  assumes "evicts q q'" "num_pages q \<le> length (pages q)"
  shows "num_pages q' = num_pages q" "length (pages q') = length (pages q)"
    "pi_state (pages q ! i) = SWAPPED \<Longrightarrow> pages q' ! i = pages q ! i"
proof -
  have ne: "oldest q v \<Longrightarrow> pi_state (pages q ! i) = SWAPPED \<Longrightarrow> v \<noteq> i" for v by (auto dest: oldest_less)
  show "num_pages q' = num_pages q" "length (pages q') = length (pages q)"
    "pi_state (pages q ! i) = SWAPPED \<Longrightarrow> pages q' ! i = pages q ! i"
    using assms by (auto elim!: evicts.cases dest: ne)
qed

subsection \<open>A frame for the page\<close>

lemma frame_for_post:
  assumes w: "slots_wf p s"
  shows "post (frame_for p s) (\<lambda>(pa, t). \<exists>q'. pgv t = (pgv s)[p := q'] \<and>
    (if pa = 0 then no_frame (freelist s = 0) (pgv s ! p) q' else makes_room (freelist s = 0) (pgv s ! p) q'))"
    (is "post _ ?P")
proof -
  note l = slots_wfD [OF w]
  have kill: "post (pf_kill p why u) (\<lambda>r. post (case r of (_, u) \<Rightarrow> Some (0, u)) ?P)"
    if "freelist s = 0" "pgv u = (pgv s)[p := q1]" "q1 = pgv s ! p \<or> evicts (pgv s ! p) q1" for u why q1
  proof -
    have "p < length (procs u)" using in_table [OF that(2)] l(1) by simp
    then have "pgv (setkilled p (kprint m u)) = (pgv s)[p := q1\<lparr>p_killed := True\<rparr>]" for m
      using that(2) l(1) by (simp add: pgv_setkilled)
    then show ?thesis using that(1,3) by (auto simp: pf_kill_def post_Some_eq no_frame_def)
  qed
  obtain pa t where k: "kalloc s = (pa, t)" by fastforce
  have t: "pgv t = pgv s" by (rule pg_mem.frame_kalloc [OF k])
  have full: "pa = 0 \<longleftrightarrow> freelist s = 0" using k by (auto simp: kalloc_def Let_def split: if_splits)
  have same: "(pgv s)[p := pgv s ! p] = pgv s" by simp
  show ?thesis
  proof (cases "pa = 0")
    case False
    then show ?thesis using t full same by (auto simp: frame_for_def k post_Some_eq makes_room_def intro: exI [of _ "pgv s ! p"])
  next
    case True
    then have fs: "freelist s = 0" using full by simp
    have again: "post (case kalloc u of (pa, s) \<Rightarrow> if pa = 0 then do { (_, s) \<leftarrow> pf_kill p why s; Some (0, s) }
         else Some (pa, s)) ?P" if q': "evicts (pgv s ! p) q'" "pgv u = (pgv s)[p := q']" for u why q'
    proof -
      obtain pa v where v: "kalloc u = (pa, v)" by fastforce
      have "pgv v = (pgv s)[p := q']" using pg_mem.frame_kalloc [OF v] q'(2) by simp
      then show ?thesis using kill [OF fs, of v q' why] q'(1) fs
        by (cases "pa = 0") (simp_all add: v post_Some_eq makes_room_def post_bind, blast)
    qed
    have ev: "post (evict_page_fifo p t) (\<lambda>(r, u). if r < 0 then pgv u = pgv s
        else \<exists>q'. evicts (pgv s ! p) q' \<and> pgv u = (pgv s)[p := q'])"
      by (rule evict_effect) (use w slots_wf_cong [OF t] t in auto)
    have "post (do { (r, u) \<leftarrow> evict_page_fifo p t;
        if r < 0 then do { (_, u) \<leftarrow> pf_kill p ''swap-exhausted'' u; Some (0, u) }
        else case kalloc u of (pa, u) \<Rightarrow>
          if pa = 0 then do { (_, u) \<leftarrow> pf_kill p ''out-of-memory'' u; Some (0, u) } else Some (pa, u) }) ?P"
    proof (rule post_seq [OF ev], clarify)
      fix r :: int and u :: "'a kfiles_scheme"
      assume h: "if r < 0 then pgv u = pgv s else \<exists>q'. evicts (pgv s ! p) q' \<and> pgv u = (pgv s)[p := q']"
      show "post (if r < 0 then do { (_, u) \<leftarrow> pf_kill p ''swap-exhausted'' u; Some (0, u) }
        else case kalloc u of (pa, u) \<Rightarrow>
          if pa = 0 then do { (_, u) \<leftarrow> pf_kill p ''out-of-memory'' u; Some (0, u) } else Some (pa, u)) ?P"
      proof (cases "r < 0")
        case True
        then show ?thesis using h kill [OF fs, of u "pgv s ! p" "''swap-exhausted''"] by (simp add: post_bind)
      next
        case False
        then obtain q' where "evicts (pgv s ! p) q'" "pgv u = (pgv s)[p := q']" using h by auto
        from again [OF this] False show ?thesis by simp
      qed
    qed
    then show ?thesis by (simp only: frame_for_def k prod.case True simp_thms if_False refl)
  qed
qed

lemma pf_map_effect:
  assumes l: "p < length (procs s)"
    and ok: "\<And>t. pgv t = (pgv s)[p := map_page i (pgv s ! p)] \<Longrightarrow> P (0, t)"
    and dead: "\<And>t. pgv t = (pgv s)[p := (pgv s ! p)\<lparr>p_killed := True\<rparr>] \<Longrightarrow> P (-1, t)"
  shows "post (pf_map p i va pa perm s) P"
proof -
  have kill: "post (pf_kill p why u) P" if "pgv u = pgv s" for u why
    using dead pgv_length [OF that] l that by (simp add: pf_kill_def post_Some pgv_setkilled)
  have done_: "P (0, kprint m (pi_set p i (\<lambda>pg. pg\<lparr>pi_state := RESIDENT, pi_seq := next_fifo_seq (pget p u), is_dirty := False\<rparr>)
      (pset p (\<lambda>r. r\<lparr>next_fifo_seq := next_fifo_seq (pget p u) + 1\<rparr>) u)))" if u: "pgv u = pgv s" for u m
  proof (rule ok)
    have lu: "p < length (procs u)" using pgv_length [OF u] l by simp
    moreover have "p < length (procs (pset p f u))" for f using lu by (simp add: pset_def)
    ultimately show "pgv (kprint m (pi_set p i (\<lambda>pg. pg\<lparr>pi_state := RESIDENT, pi_seq := next_fifo_seq (pget p u), is_dirty := False\<rparr>)
      (pset p (\<lambda>r. r\<lparr>next_fifo_seq := next_fifo_seq (pget p u) + 1\<rparr>) u))) = (pgv s)[p := map_page i (pgv s ! p)]"
      using l by (simp add: pgv_pi_set pgv_set pgv_sel(6) u map_page_def)
  qed
  show ?thesis unfolding pf_map_def Let_def
    by (intro post_rules pg_mem.frame_mappages pg_mem.frame_kfree kill done_) simp_all
qed

text \<open>\<open>came s p t R\<close>: the record of \<open>p\<close> became one that \<open>R\<close> allows, the others stay.\<close>

definition came :: "nat \<Rightarrow> 'a kprocs_scheme \<Rightarrow> 'b kprocs_scheme \<Rightarrow> (proc \<Rightarrow> bool) \<Rightarrow> bool" where
  "came p s t R \<longleftrightarrow> (\<exists>q'. pgv t = (pgv s)[p := q'] \<and> R q')"

lemma cameI: "pgv t = (pgv s)[p := q'] \<Longrightarrow> R q' \<Longrightarrow> came p s t R" by (auto simp: came_def)

lemma came_mono: "came p s t R \<Longrightarrow> (\<And>q'. R q' \<Longrightarrow> R' q') \<Longrightarrow> came p s t R'" by (auto simp: came_def)

lemma came_cong: "pgv u = pgv s \<Longrightarrow> came p u t R = came p s t R" by (simp add: came_def)

lemma came_from: "pgv u = (pgv s)[p := q] \<Longrightarrow> came p u t R = came p s t R" by (simp add: came_def)

lemma came_same: "pgv t = pgv s \<Longrightarrow> R (pgv s ! p) \<Longrightarrow> came p s t R"
  by (rule cameI [where q' = "pgv s ! p"]) simp_all

lemma post_came_mono: "post m (\<lambda>(r, t). came p s t (R r)) \<Longrightarrow> (\<And>r q'. R r q' \<Longrightarrow> R' r q') \<Longrightarrow>
    post m (\<lambda>(r, t). came p s t (R' r))"
  by (auto simp: post_def came_def) blast

lemma pf_kill_post:
  assumes "pgv t = (pgv s)[p := q']" "p < length (procs s)" "R (-1) (q'\<lparr>p_killed := True\<rparr>)"
  shows "post (pf_kill p why t) (\<lambda>(r, t). came p s t (R r))"
proof -
  have "p < length (procs t)" using in_table [OF assms(1)] assms(2) by simp
  then have "pgv (setkilled p (kprint m t)) = (pgv s)[p := q'\<lparr>p_killed := True\<rparr>]" for m
    using assms(1,2) by (simp add: pgv_setkilled)
  then show ?thesis using assms(3) by (auto simp: pf_kill_def post_Some_eq intro: cameI)
qed

lemma pf_map_post:
  assumes "pgv t = (pgv s)[p := q']" "p < length (procs s)" "R 0 (map_page i q')" "R (-1) (q'\<lparr>p_killed := True\<rparr>)"
  shows "post (pf_map p i va pa perm t) (\<lambda>(r, t). came p s t (R r))"
  using assms in_table [OF assms(1)] by (intro pf_map_effect) (auto intro: cameI)

lemma brought_inI:
  "makes_room full q q1 \<Longrightarrow> brought_in full i q 0 (map_page i q1)"
  "makes_room full q q1 \<Longrightarrow> brought_in full i q (-1) (q1\<lparr>p_killed := True\<rparr>)"
  "no_frame full q q' \<Longrightarrow> brought_in full i q (-1) q'"
  by (auto simp: brought_in_def)

lemma brought_backI:
  "makes_room full q q1 \<Longrightarrow> brought_back full i q 0 (map_page i (unswap_page i q1))"
  "makes_room full q q1 \<Longrightarrow> brought_back full i q (-1) (q1\<lparr>p_killed := True\<rparr>)"
  "makes_room full q q1 \<Longrightarrow> brought_back full i q (-1) ((unswap_page i q1)\<lparr>p_killed := True\<rparr>)"
  "no_frame full q q' \<Longrightarrow> brought_back full i q (-1) q'"
  by (auto simp: brought_back_def)

lemma pf_zero_post:
  assumes w: "slots_wf p s"
  shows "post (pf_zero p i va s) (\<lambda>(r, t). came p s t (brought_in (freelist s = 0) i (pgv s ! p) r))"
  unfolding pf_zero_def
proof (rule post_seq [OF frame_for_post [OF w]], clarify)
  fix pa :: u64 and t :: "'a kfiles_scheme" and q'
  assume q': "pgv t = (pgv s)[p := q']"
    "if pa = 0 then no_frame (freelist s = 0) (pgv s ! p) q' else makes_room (freelist s = 0) (pgv s ! p) q'"
  show "post (if pa = 0 then Some (-1, t) else let s = t\<lparr>mem := memset pa 0 4096 (mem t)\<rparr>;
      s = kprint (ALLOC (p_pid (pget p s)) va) s in pf_map p i va pa (PTE_U OR PTE_R) s)
      (\<lambda>(r, t). came p s t (brought_in (freelist s = 0) i (pgv s ! p) r))"
    using q' slots_wfD(1) [OF w] pg_mem.Q_mem
    by (cases "pa = 0") (auto simp: post_Some_eq Let_def intro!: pf_map_post [of _ s p q'] intro: cameI brought_inI)
qed

lemma pg_load_segment: "(\<And>t. pgv t = pgv s \<Longrightarrow> P t) \<Longrightarrow> post (load_segment p va pa s) P"
  unfolding load_segment_def Let_def
  by (intro post_rules pg_file_page_read) (auto split: option.splits)

lemma pf_exec_post:
  assumes w: "slots_wf p s"
  shows "post (pf_exec p i va s) (\<lambda>(r, t). came p s t (brought_in (freelist s = 0) i (pgv s ! p) r))"
  unfolding pf_exec_def
proof (rule post_seq [OF frame_for_post [OF w]], clarify)
  fix pa :: u64 and t :: "'a kfiles_scheme" and q'
  assume q': "pgv t = (pgv s)[p := q']"
    "if pa = 0 then no_frame (freelist s = 0) (pgv s ! p) q' else makes_room (freelist s = 0) (pgv s ! p) q'"
  show "post (if pa = 0 then Some (-1, t) else do {
      s \<leftarrow> load_segment p va pa (t\<lparr>mem := memset pa 0 4096 (mem t)\<rparr>);
      let s = kprint (LOADEXEC (p_pid (pget p s)) va) s;
      pf_map p i va pa (seg_perm (find_segment (pget p s) va)) s })
      (\<lambda>(r, t). came p s t (brought_in (freelist s = 0) i (pgv s ! p) r))"
    using q' slots_wfD(1) [OF w]
    by (cases "pa = 0")
      (auto simp: post_Some_eq Let_def intro!: post_bind pg_load_segment pf_map_post [of _ s p q'] intro: cameI brought_inI)
qed

lemma pf_swapped_post:
  assumes w: "slots_wf p s"
  shows "post (pf_swapped p i va s) (\<lambda>(r, t). came p s t (brought_back (freelist s = 0) i (pgv s ! p) r))" (is "post _ ?P")
  unfolding pf_swapped_def
proof (rule post_seq [OF frame_for_post [OF w]], clarify)
  fix pa :: u64 and t :: "'a kfiles_scheme" and q'
  assume q': "pgv t = (pgv s)[p := q']"
    "if pa = 0 then no_frame (freelist s = 0) (pgv s ! p) q' else makes_room (freelist s = 0) (pgv s ! p) q'"
  note l = slots_wfD [OF w]
  have unswap: "pgv (pi_set p i (\<lambda>pg. pg\<lparr>swap_slot := -1\<rparr>) (free_swap_slot p (swap_slot (pi_get p i u)) (kprint m u)))
      = (pgv s)[p := unswap_page i q']" if u: "pgv u = (pgv s)[p := q']" for u m
  proof -
    have lu: "p < length (procs u)" using in_table [OF u] l(1) by simp
    then have "p < length (procs (free_swap_slot p k (kprint m u)))" for k by (simp add: free_swap_slot_eq pset_def)
    then show ?thesis using lu l(1)
      by (simp add: pgv_pi_set pgv_free_slot u pi_get_def pgv_sel(1) unswap_page_def)
  qed
  show "post (if pa = 0 then Some (-1, t) else do {
       ip \<leftarrow> swap_ip p t;
       (r, s) \<leftarrow> file_page_read ip pa (of_int (swap_slot (pi_get p i t) * 4096)) 4096 t;
       if r \<noteq> 4096 then do {
         s \<leftarrow> kfree pa s;
         pf_kill p ''swap-read-error'' s
       }
       else do {
         let s = kprint (SWAPIN (p_pid (pget p s)) va (swap_slot (pi_get p i s))) s;
         let s = free_swap_slot p (swap_slot (pi_get p i s)) s;
         let s = pi_set p i (\<lambda>pg. pg\<lparr>swap_slot := -1\<rparr>) s;
         pf_map p i va pa (PTE_U OR PTE_R) s
       }
     }) ?P"
  proof (cases "pa = 0")
    case True
    then show ?thesis using q' by (auto simp: post_Some_eq intro: cameI brought_backI)
  next
    case False
    then have room: "makes_room (freelist s = 0) (pgv s ! p) q'" using q'(2) by simp
    have pk: "pi_get p i (kprint m u) = pi_get p i u" for m and u :: "'a kfiles_scheme" by (simp add: pi_get_def)
    have swap_back: "post (if r \<noteq> 4096 then do { s \<leftarrow> kfree pa u; pf_kill p ''swap-read-error'' s }
       else do {
         let s = kprint (SWAPIN (p_pid (pget p u)) va (swap_slot (pi_get p i u))) u;
         let s = free_swap_slot p (swap_slot (pi_get p i s)) s;
         let s = pi_set p i (\<lambda>pg. pg\<lparr>swap_slot := -1\<rparr>) s;
         pf_map p i va pa (PTE_U OR PTE_R) s
       }) ?P" if u: "pgv u = pgv t" for u :: "'a kfiles_scheme" and r :: int
    proof (cases "r = 4096")
      case True
      have u': "pgv u = (pgv s)[p := q']" using u q'(1) by simp
      show ?thesis
        using pf_map_post [OF unswap [OF u'] l(1), of "brought_back (freelist s = 0) i (pgv s ! p)"] brought_backI(1,3) [OF room] True
        by (simp add: Let_def pk)
    next
      case False
      then show ?thesis using u q'(1) brought_backI(2) [OF room]
        by simp (intro post_bind pg_mem.frame_kfree pf_kill_post [OF _ l(1)], simp_all)
    qed
    show ?thesis using False
      by simp (intro post_bind post_any [of "swap_ip p t"] pg_file_page_read, unfold prod.case, intro swap_back)
  qed
qed

subsection \<open>The kind of a fault\<close>

text \<open>\<open>outside\<close>: the guard page, or no region at all; \<open>forbidden\<close> adds writes to the text.\<close>

definition outside :: "proc \<Rightarrow> u64 \<Rightarrow> u64 \<Rightarrow> bool" where
  "outside q usp va \<longleftrightarrow>
     stack_top q - USERSTACK * PGSIZE - PGSIZE \<le> va \<and> va < stack_top q - USERSTACK * PGSIZE \<or>
     \<not> (text_start q \<le> va \<and> va < text_end q) \<and> \<not> (data_start q \<le> va \<and> va < data_end q) \<and>
     \<not> (heap_start q \<le> va \<and> va < p_sz q) \<and> \<not> (usp - PGSIZE \<le> va \<and> va < stack_top q)"

lemma pf_region_outside: "fst (pf_region q usp va) \<longleftrightarrow> \<not> outside q usp va"
  by (auto simp: pf_region_def outside_def Let_def)

lemma pf_region_text: "\<not> outside q usp va \<Longrightarrow> snd (snd (pf_region q usp va)) \<longleftrightarrow> text_start q \<le> va \<and> va < text_end q"
  by (auto simp: pf_region_def outside_def Let_def)

definition swapped_out :: "nat \<Rightarrow> u64 \<Rightarrow> 'a kprocs_scheme \<Rightarrow> bool" where
  "swapped_out p va s \<longleftrightarrow> (\<exists>i. find_page_info p va s = Some i \<and> pi_state (pi_get p i s) = SWAPPED)"

text \<open>
  The entry of the page's leaf, 0 when a table is missing, and what the fault is: a page
  outside every region, an access that the page or the text forbids, a first write to a
  resident page, or a page that has to be brought in.
\<close>

definition page_entry :: "nat \<Rightarrow> u64 \<Rightarrow> 'a kprocs_scheme \<Rightarrow> u64" where
  "page_entry p va s = (case walk (p_pagetable (pget p s)) va False s of
     Some (pte, _) \<Rightarrow> if pte = 0 then 0 else ld64 (mem s) pte | None \<Rightarrow> 0)"

definition writes_first :: "nat \<Rightarrow> u64 \<Rightarrow> 'a kprocs_scheme \<Rightarrow> bool" where
  "writes_first p va s \<longleftrightarrow> (\<exists>i. find_page_info p va s = Some i \<and> pi_state (pi_get p i s) = RESIDENT \<and>
     \<not> is_dirty (pi_get p i s))"

definition fault_kind_of :: "nat \<Rightarrow> u64 \<Rightarrow> int \<Rightarrow> 'a kprocs_scheme \<Rightarrow> fault_kind" where
  "fault_kind_of p va access s =
     (let e = page_entry p va s; q = pget p s; text_write = (access = 1 \<and> text_start q \<le> va \<and> va < text_end q) in
      if MAXVA \<le> va then Refused
      else if e AND PTE_V \<noteq> 0 \<and> (e AND PTE_U = 0 \<or> text_write) then Refused
      else if e AND PTE_V \<noteq> 0 \<and> access = 1 \<and> writes_first p va s then First_write
      else if outside q (user_sp p s) va
        then if swapped_out p va s then Absent else Refused
      else if text_write then Refused else Absent)"

lemma find_page_pgv: "p < length (procs s) \<Longrightarrow> find_page_info p va s =
    List.find (\<lambda>i. pi_va (pages (pgv s ! p) ! i) = PGROUNDDOWN va) [0..<num_pages (pgv s ! p)]"
  by (simp add: find_page_info_def Let_def pgv_sel)

lemma find_page_less: "p < length (procs s) \<Longrightarrow> find_page_info p va s = Some i \<Longrightarrow> i < num_pages (pgv s ! p)"
  by (auto simp: find_page_pgv find_Some_iff)

lemma page_aligned_find: "page_aligned va \<Longrightarrow> p < length (procs s) \<Longrightarrow> find_page_info p va s =
    List.find (\<lambda>i. pi_va (pages (pgv s ! p) ! i) = va) [0..<num_pages (pgv s ! p)]"
  by (simp add: find_page_pgv PGROUNDDOWN_aligned)

lemma find_page_Some:
  assumes "find_page_info p va s = Some i" "page_aligned va" "p < length (procs s)"
  shows "i < num_pages (pgv s ! p)" "pi_va (pages (pgv s ! p) ! i) = va"
  using assms by (auto simp: page_aligned_find find_Some_iff)

lemma find_page_None:
  "find_page_info p va s = None \<Longrightarrow> page_aligned va \<Longrightarrow> p < length (procs s) \<Longrightarrow>
   \<forall>i<num_pages (pgv s ! p). pi_va (pages (pgv s ! p) ! i) \<noteq> va"
  by (auto simp: page_aligned_find find_None_iff)

lemma pi_get_pgv: "p < length (procs s) \<Longrightarrow> pi_get p i s = pages (pgv s ! p) ! i"
  by (simp add: pi_get_def pgv_sel)

lemma add_page_step:
  assumes "slots_wf p s" "find_page_info p va s = None" "add_page_info p va s = (r, t)" "page_aligned va"
  shows "if num_pages (pgv s ! p) < MAX_PAGES
    then r = Some (num_pages (pgv s ! p)) \<and> slots_wf p t \<and> pgv t = (pgv s)[p := track_page va (pgv s ! p)] \<and>
      freelist t = freelist s \<and> pi_state (pages (pgv t ! p) ! num_pages (pgv s ! p)) = UNMAPPED
    else r = None \<and> t = s"
proof (cases "num_pages (pgv s ! p) < MAX_PAGES")
  case True
  have l: "p < length (procs s)" "length (pages (pgv s ! p)) = MAX_PAGES" using assms(1) by (simp_all add: slots_wf_def)
  have r: "r = Some (num_pages (pgv s ! p))" "t = pset p (track_page va) s"
    using assms(2-4) True l pgv_sel(2) [OF l(1)]
    by (simp_all add: add_page_info_def pset_def track_page_def Let_def PGROUNDDOWN_aligned)
  have t: "pgv t = (pgv s)[p := track_page va (pgv s ! p)]" using r(2) l(1) by (simp add: pgv_set)
  have wf: "slots_wf p t" using assms(1) True t l in_table [OF t] by (simp add: slots_wf_def track_page_def)
  have st: "pi_state (pages (pgv t ! p) ! num_pages (pgv s ! p)) = UNMAPPED"
    using t l True by (simp add: track_page_def)
  have fl: "freelist t = freelist s" by (simp add: r(2) pset_def)
  show ?thesis unfolding if_P [OF True] by (intro conjI r(1) wf t fl st)
next
  case False
  then show ?thesis using assms by (auto simp: add_page_info_def slots_wf_def pgv_sel)
qed

subsection \<open>A fault is one step\<close>

abbreviation fault_came :: "nat \<Rightarrow> 'a kfiles_scheme \<Rightarrow> fault_kind \<Rightarrow> u64 \<Rightarrow> bool \<Rightarrow> int \<times> 'a kfiles_scheme \<Rightarrow> bool" where
  "fault_came p s k va fu \<equiv> \<lambda>(r, t). came p s t (fault_step (freelist s = 0) k va fu (pgv s ! p) r)"

lemma refused_post:
  assumes "p < length (procs s)" "pgv u = pgv s"
  shows "post (if fu then Some (-1, setkilled p u) else Some (-1, u)) (fault_came p s Refused va fu)"
proof -
  have "p < length (procs u)" using pgv_length [OF assms(2)] assms(1) by simp
  then have k: "pgv (setkilled p u) = (pgv s)[p := (pgv s ! p)\<lparr>p_killed := True\<rparr>]"
    using assms(2) by (simp add: pgv_setkilled)
  show ?thesis
    by (cases fu) (auto simp: post_Some_eq intro: cameI [OF k] came_same [OF assms(2)] fault_step.intros)
qed

lemma pf_invalid_post:
  assumes "p < length (procs s)"
  shows "post (pf_invalid p va access cause fu s) (fault_came p s Refused va fu)"
  using refused_post [OF assms, of "kprint m2 (kprint m1 s)" True va for m1 m2] refused_post [OF assms, of s False va]
  by (cases fu) (simp_all add: pf_invalid_def)

lemma pf_go_post:
  assumes w: "slots_wf p s" and i: "find_page_info p va s = Some i" and al: "page_aligned va"
    and u: "pgv u = pgv s" "freelist u = freelist s"
  shows "post (if pi_state (pi_get p i u) = SWAPPED then pf_swapped p i va u
            else if va \<ge> text_start (pget p u) \<and> va < data_end (pget p u) then pf_exec p i va u
            else pf_zero p i va u) (fault_came p s Absent va fu)"
proof -
  note l = slots_wfD [OF w]
  have wu: "slots_wf p u" using w slots_wf_cong [OF u(1)] by simp
  note rec = find_page_Some [OF i al l(1)]
  have st: "pi_get p i u = pages (pgv s ! p) ! i" using pi_get_pgv [OF slots_wfD(1) [OF wu]] u(1) by simp
  note known = fault_step.known_page [OF rec] and swapped = fault_step.swapped_page [OF rec]
  show ?thesis
    using pf_zero_post [OF wu, of i va] pf_exec_post [OF wu, of i va] pf_swapped_post [OF wu, of i va]
    unfolding st u came_cong [OF u(1)]
    by (auto elim!: post_came_mono intro: known swapped)
qed

lemma pf_new_post:
  assumes w: "slots_wf p s" and n: "find_page_info p va s = None" and al: "page_aligned va"
    and u: "pgv u = pgv s" "freelist u = freelist s" "find_page_info p va u = None"
  shows "post (case add_page_info p va u of
          (None, s) \<Rightarrow> pf_kill p ''out-of-memory'' s
        | (Some i, s) \<Rightarrow>
            if pi_state (pi_get p i s) = SWAPPED then pf_swapped p i va s
            else if va \<ge> text_start (pget p s) \<and> va < data_end (pget p s) then pf_exec p i va s
            else pf_zero p i va s) (fault_came p s Absent va fu)"
proof -
  note l = slots_wfD [OF w]
  have wu: "slots_wf p u" using w slots_wf_cong [OF u(1)] by simp
  note none = find_page_None [OF n al l(1)]
  obtain r t where rt: "add_page_info p va u = (r, t)" by fastforce
  note ad = add_page_step [OF wu u(3) rt al, unfolded u]
  show ?thesis
  proof (cases "num_pages (pgv s ! p) < MAX_PAGES")
    case True
    let ?n = "num_pages (pgv s ! p)"
    have t: "r = Some ?n" "slots_wf p t" "pgv t = (pgv s)[p := track_page va (pgv s ! p)]" "freelist t = freelist s"
      "pi_state (pages (pgv t ! p) ! ?n) = UNMAPPED" using ad unfolding if_P [OF True] by blast+
    have st: "pi_state (pi_get p ?n t) \<noteq> SWAPPED" using t(5) pi_get_pgv [OF slots_wfD(1) [OF t(2)]] by simp
    have q: "pgv t ! p = track_page va (pgv s ! p)" using t(3) l(4) by simp
    note step = fault_step.new_page [OF none True]
    show ?thesis
      using pf_zero_post [OF t(2), of ?n va] pf_exec_post [OF t(2), of ?n va] st
      unfolding rt t(1) prod.case option.case q t(4) came_from [OF t(3)]
      by (auto elim!: post_came_mono intro: step)
  next
    case False
    then have "r = None" "t = u" using ad by simp_all
    then show ?thesis using False none l(1) u(1)
      by (simp add: rt, intro pf_kill_post [where q' = "pgv s ! p"]) (auto intro: fault_step.no_record)
  qed
qed

lemma pf_missing_post:
  fixes s :: "'a kfiles_scheme"
  assumes w: "slots_wf p s" and al: "page_aligned va"
  shows "post (pf_missing p va access fu s) (fault_came p s
    (if outside (pget p s) (user_sp p s) va then if swapped_out p va s then Absent else Refused
     else if access = 1 \<and> text_start (pget p s) \<le> va \<and> va < text_end (pget p s) then Refused else Absent) va fu)"
    (is "post _ (fault_came p s ?k va fu)")
proof -
  note l = slots_wfD [OF w]
  obtain valid cause is_text where reg: "pf_region (pget p s) (user_sp p s) va = (valid, cause, is_text)"
    by (cases "pf_region (pget p s) (user_sp p s) va") auto
  have valid: "valid \<longleftrightarrow> \<not> outside (pget p s) (user_sp p s) va"
    using pf_region_outside [of "pget p s" "user_sp p s" va] reg by simp
  have in_text: "is_text \<longleftrightarrow> \<not> outside (pget p s) (user_sp p s) va \<and> text_start (pget p s) \<le> va \<and> va < text_end (pget p s)"
    using reg by (auto simp: pf_region_def outside_def Let_def split: if_splits)
  let ?sw = "case find_page_info p va s of Some i \<Rightarrow> pi_state (pi_get p i s) = SWAPPED | None \<Rightarrow> False"
  have sw: "?sw \<longleftrightarrow> swapped_out p va s" by (auto simp: swapped_out_def split: option.splits)
  have k: "?k = (if \<not> (valid \<or> ?sw) \<or> is_text \<and> access = 1 then Refused else Absent)"
    unfolding valid in_text sw by auto
  have go: "post (case (case find_page_info p va s of Some i \<Rightarrow> (Some i, u) | None \<Rightarrow> add_page_info p va u) of
          (None, s) \<Rightarrow> pf_kill p ''out-of-memory'' s
        | (Some i, s) \<Rightarrow>
            if pi_state (pi_get p i s) = SWAPPED then pf_swapped p i va s
            else if va \<ge> text_start (pget p s) \<and> va < data_end (pget p s) then pf_exec p i va s
            else pf_zero p i va s) (fault_came p s Absent va fu)"
    if u: "pgv u = pgv s" "freelist u = freelist s" for u :: "'a kfiles_scheme"
  proof (cases "find_page_info p va s")
    case (Some i)
    then show ?thesis using pf_go_post [OF w Some al u] by simp
  next
    case None
    then have "find_page_info p va u = None" using u(1) l(1) pgv_length [OF u(1)] by (simp add: find_page_pgv)
    then show ?thesis using pf_new_post [OF w None al u] None by simp
  qed
  have no: "post (if fu then Some (-1, setkilled p (kprint m u)) else Some (-1, u)) (fault_came p s Refused va fu)"
    if "pgv u = pgv s" for u :: "'a kfiles_scheme" and m
    using refused_post [OF l(1), of "kprint m u" fu va] refused_post [OF l(1) that, of fu va] that by (cases fu) simp_all
  show ?thesis
  proof (cases "\<not> (valid \<or> ?sw) \<or> is_text \<and> access = 1")
    case True
    then show ?thesis unfolding pf_missing_def Let_def reg prod.case k if_P [OF True]
      using no [of s] no [of "kprint m s" for m] by (cases fu) simp_all
  next
    case False
    show ?thesis unfolding pf_missing_def Let_def reg prod.case k if_not_P [OF False]
      by (rule go) simp_all
  qed
qed

lemma page_entry_walk:
  assumes "walk (p_pagetable (pget p s)) va False s = Some (pte, t)"
  shows "pte \<noteq> 0 \<and> ld64 (mem s) pte AND PTE_V \<noteq> 0 \<longleftrightarrow> page_entry p va s AND PTE_V \<noteq> 0"
    "pte \<noteq> 0 \<Longrightarrow> page_entry p va s = ld64 (mem s) pte"
  by (simp_all add: page_entry_def assms)

lemma pf_present_post:
  assumes w: "slots_wf p s" and al: "page_aligned va"
    and some: "pf_present p pte va access fu s = Some m" and e: "page_entry p va s = ld64 (mem s) pte"
    "ld64 (mem s) pte AND PTE_V \<noteq> 0" "va < MAXVA"
  shows "post m (fault_came p s (fault_kind_of p va access s) va fu)"
proof -
  note l = slots_wfD [OF w]
  show ?thesis
  proof (cases "ld64 (mem s) pte AND PTE_U = 0 \<or> access = 1 \<and> text_start (pget p s) \<le> va \<and> va < text_end (pget p s)")
    case True
    then have "fault_kind_of p va access s = Refused" using e by (auto simp: fault_kind_of_def Let_def)
    moreover obtain cause where "m = pf_invalid p va access cause fu s"
      using True some by (auto simp: pf_present_def split: if_splits)
    ultimately show ?thesis using pf_invalid_post [OF l(1)] by simp
  next
    case False
    then obtain i where i: "access = 1" "find_page_info p va s = Some i" "pi_state (pi_get p i s) = RESIDENT"
      "\<not> is_dirty (pi_get p i s)"
      "m = Some (0, pi_set p i (\<lambda>pg. pg\<lparr>is_dirty := True\<rparr>) (s\<lparr>mem := st64 pte (ld64 (mem s) pte OR PTE_W) (mem s)\<rparr>))"
      using some by (auto simp: pf_present_def split: if_splits option.splits)
    then have "fault_kind_of p va access s = First_write" using False e by (auto simp: fault_kind_of_def Let_def writes_first_def)
    moreover have "pgv (pi_set p i (\<lambda>pg. pg\<lparr>is_dirty := True\<rparr>) (s\<lparr>mem := mm\<rparr>)) =
       (pgv s)[p := page_upd i (\<lambda>pg. pg\<lparr>is_dirty := True\<rparr>) (pgv s ! p)]" for mm
      using l(1) by (simp add: pgv_pi_set)
    ultimately show ?thesis
      using fault_step.first_write [OF find_page_Some [OF i(2) al l(1)]] i(3,4) pi_get_pgv [OF l(1)]
      by (auto simp: i(5) post_Some_eq intro!: cameI)
  qed
qed

lemma handle_page_fault_post:
  fixes s :: "'a kfiles_scheme"
  assumes "cur s = Some p" and w: "slots_wf p s" and va: "va = PGROUNDDOWN addr"
  shows "post (handle_page_fault addr access fu s) (fault_came p s (fault_kind_of p va access s) va fu)"
proof -
  note l = slots_wfD [OF w]
  have al: "page_aligned va" unfolding va by (rule page_aligned_PGROUNDDOWN)
  show ?thesis
  proof (cases "MAXVA \<le> va")
    case True
    then show ?thesis using assms(1) pf_invalid_post [OF l(1)] va
      by (simp add: handle_page_fault_def myproc_def fault_kind_of_def)
  next
    case False
    then obtain pte where pte: "walk (p_pagetable (pget p s)) va False s = Some (pte, s)"
      by (simp add: walk_lookup)
    let ?v = "pte \<noteq> 0 \<and> ld64 (mem s) pte AND PTE_V \<noteq> 0"
    have h: "handle_page_fault addr access fu s =
      (case (if ?v then pf_present p pte va access fu s else None) of Some r \<Rightarrow> r | None \<Rightarrow> pf_missing p va access fu s)"
      using False pte assms(1) by (simp add: handle_page_fault_def myproc_def va [symmetric])
    show ?thesis
    proof (cases "if ?v then pf_present p pte va access fu s else None")
      case None
      have "fault_kind_of p va access s = (if outside (pget p s) (user_sp p s) va then if swapped_out p va s then Absent else Refused
          else if access = 1 \<and> text_start (pget p s) \<le> va \<and> va < text_end (pget p s) then Refused else Absent)"
        using None False page_entry_walk [OF pte]
        by (auto simp: fault_kind_of_def Let_def pf_present_def writes_first_def split: if_splits option.splits)
      then show ?thesis using pf_missing_post [OF w al, of access fu] unfolding h None by simp
    next
      case (Some m)
      then have "?v" "pf_present p pte va access fu s = Some m" by (auto split: if_splits)
      then show ?thesis using pf_present_post [OF w al] page_entry_walk(2) [OF pte] False unfolding h Some by simp
    qed
  qed
qed

subsection \<open>A step of the abstract pager in elementary steps\<close>

lemma makes_room_op: "makes_room full q q' \<Longrightarrow> page_op\<^sup>*\<^sup>* q q'"
  by (auto simp: makes_room_def intro: page_op.evict split: if_splits)

lemma no_frame_op: "no_frame full q q' \<Longrightarrow> page_op\<^sup>*\<^sup>* q q'"
  using page_op.kill page_op.evict unfolding no_frame_def by (meson r_into_rtranclp rtranclp.rtrancl_into_rtrancl)

lemma makes_room_keeps:
  "makes_room full q q' \<Longrightarrow> num_pages q \<le> length (pages q) \<Longrightarrow> num_pages q' = num_pages q \<and>
   (pi_state (pages q ! i) = SWAPPED \<longrightarrow> pages q' ! i = pages q ! i)"
  by (auto simp: makes_room_def evicts_keeps split: if_splits)

lemma brought_in_op:
  assumes "brought_in full i q r q'" "i < num_pages q" "num_pages q \<le> length (pages q)"
  shows "page_op\<^sup>*\<^sup>* q q'"
proof (cases "no_frame full q q'")
  case False
  then obtain q1 where q1: "makes_room full q q1" "q' = map_page i q1 \<or> q' = q1\<lparr>p_killed := True\<rparr>"
    using assms(1) by (auto simp: brought_in_def)
  then have "page_op q1 q'"
    using makes_room_keeps [OF q1(1) assms(3), of i] assms(2) by (auto intro: page_op.map_in page_op.kill)
  with makes_room_op [OF q1(1)] show ?thesis by (rule rtranclp.rtrancl_into_rtrancl)
qed (rule no_frame_op)

lemma brought_back_op:
  assumes "brought_back full i q r q'" "i < num_pages q" "num_pages q \<le> length (pages q)" "pi_state (pages q ! i) = SWAPPED"
  shows "page_op\<^sup>*\<^sup>* q q'"
proof (cases "no_frame full q q'")
  case False
  then obtain q1 where q1: "makes_room full q q1"
    "q' = map_page i (unswap_page i q1) \<or> q' = q1\<lparr>p_killed := True\<rparr> \<or> q' = (unswap_page i q1)\<lparr>p_killed := True\<rparr>"
    using assms(1) by (auto simp: brought_back_def)
  have "i < num_pages q1" "pi_state (pages q1 ! i) = SWAPPED"
    using makes_room_keeps [OF q1(1) assms(3), of i] assms(2,4) by simp_all
  then have "page_op q1 q'" using q1(2) by (auto intro: page_op.swap_in page_op.swap_lost page_op.kill)
  with makes_room_op [OF q1(1)] show ?thesis by (rule rtranclp.rtrancl_into_rtrancl)
qed (rule no_frame_op)

lemma fault_step_op:
  assumes "fault_step full k va fu q r q'" "page_aligned va" "length (pages q) = MAX_PAGES" "num_pages q \<le> MAX_PAGES"
  shows "page_op\<^sup>*\<^sup>* q q'"
  using assms
proof cases
  case new_page
  have "num_pages (track_page va q) = num_pages q + 1" "length (pages (track_page va q)) = MAX_PAGES"
    using assms(3) by (simp_all add: track_page_def)
  then have "page_op\<^sup>*\<^sup>* (track_page va q) q'"
    using brought_in_op [OF new_page(4)] new_page(3) by simp
  moreover have "page_op q (track_page va q)" using new_page assms(2) by (intro page_op.track) auto
  ultimately show ?thesis by (rule converse_rtranclp_into_rtranclp [rotated])
qed (use assms in \<open>auto intro: page_op.intros brought_in_op brought_back_op\<close>)

end
