(* ===== verification/Sched.thy ===== *)
theory Sched
  imports Sleeplock
begin

section \<open>Scheduling (kernel/proc.c)\<close>

text \<open>
  \<open>sleep\<close>, \<open>yield\<close> and \<open>scheduler\<close> of one CPU.  \<open>swtch\<close> exchanges kernel stacks, so a
  function that calls \<open>sched\<close> is cut there: \<open>sleep\<close> and \<open>yield\<close> end with the CPU in the
  scheduler (\<open>cur = None\<close>), and \<open>wake\<close> is the rest of \<open>sleep\<close>, run when the process is
  dispatched again.  The scheduler's loop is one step per table entry; its position is
  the loop variable.  A call that may sleep returns an \<open>outcome\<close>: the value it
  returns, or the point it sleeps at with what its loop remembers.
\<close>

datatype blocked = Pipe_writing int | Pipe_reading | Console_reading u64 int | Kwaiting | Pausing u32 int

datatype outcome = Returns int | Sleeps blocked | Exited

definition sleep :: "chan \<Rightarrow> 'a kprocs_scheme \<Rightarrow> 'a kprocs_scheme option" where
  "sleep ch s = do {
     p \<leftarrow> myproc s;
     Some ((pset p (\<lambda>q. q\<lparr>p_chan := Some ch, p_state := SLEEPING\<rparr>) s)\<lparr>cur := None\<rparr>)
   }"

definition wake :: "nat \<Rightarrow> 'a kprocs_scheme \<Rightarrow> 'a kprocs_scheme" where
  "wake p s = pset p (\<lambda>q. q\<lparr>p_chan := None\<rparr>) s"

definition yield :: "'a kprocs_scheme \<Rightarrow> 'a kprocs_scheme option" where
  "yield s = do {
     p \<leftarrow> myproc s;
     Some ((pset p (\<lambda>q. q\<lparr>p_state := RUNNABLE\<rparr>) s)\<lparr>cur := None\<rparr>)
   }"

text \<open>
  One step of the scheduler's inner loop at entry \<open>i\<close>: dispatch it if it is runnable,
  go on otherwise, and start over at the end of the table.  Coming back from \<open>swtch\<close> the
  loop goes on behind the process that ran.
\<close>

definition dispatch :: "nat \<Rightarrow> 'a kprocs_scheme \<Rightarrow> 'a kprocs_scheme" where
  "dispatch i s = (pset i (\<lambda>q. q\<lparr>p_state := RUNNING\<rparr>) s)\<lparr>cur := Some i\<rparr>"

definition scheduler :: "nat \<Rightarrow> 'a kprocs_scheme \<Rightarrow> nat \<times> 'a kprocs_scheme" where
  "scheduler i s =
     (if \<not> i < NPROC then (0, s)
      else if p_state (pget i s) = RUNNABLE then (Suc i, dispatch i s)
      else (Suc i, s))"

end
