(* ===== verification/Files.thy ===== *)
theory Files
  imports Paging Sched
begin

section \<open>Files, pipes and the console (kernel/file.c, pipe.c, console.c)\<close>

text \<open>
  The operations behind a file descriptor.  A pipe is the record found in \<open>pipes\<close> under
  its page; its \<open>nread\<close> and \<open>nwrite\<close> are the source's free-running 32-bit counters.
  Calls that wait (an empty or full pipe, an empty console) return \<open>Sleeps\<close> with the loop
  state, and go on from there when the process runs again.  Bytes written to the UART are
  collected in \<open>uart_out\<close>.
\<close>

subsection \<open>Pipes\<close>

definition pipe_put :: "u8 \<Rightarrow> pipe \<Rightarrow> pipe" where
  "pipe_put ch q = q\<lparr>p_data := (p_data q)[unat (nwrite q mod PIPESIZE) := ch], nwrite := nwrite q + 1\<rparr>"

definition pipe_get :: "pipe \<Rightarrow> u8 \<times> pipe" where
  "pipe_get q = (p_data q ! unat (nread q mod PIPESIZE), q\<lparr>nread := nread q + 1\<rparr>)"

definition pipe_full :: "pipe \<Rightarrow> bool" where
  "pipe_full q \<longleftrightarrow> nwrite q = nread q + PIPESIZE"

definition pipe_empty :: "pipe \<Rightarrow> bool" where
  "pipe_empty q \<longleftrightarrow> nread q = nwrite q"

definition pipe_set :: "u64 \<Rightarrow> pipe \<Rightarrow> 'a kfiles_scheme \<Rightarrow> 'a kfiles_scheme" where
  "pipe_set pi q s = s\<lparr>pipes := (pipes s)(pi \<mapsto> q)\<rparr>"

definition pipeclose :: "u64 \<Rightarrow> bool \<Rightarrow> 'a kfiles_scheme \<Rightarrow> 'a kfiles_scheme option" where
  "pipeclose pi writable s = do {
     q \<leftarrow> pipes s pi;
     let q = (if writable then q\<lparr>writeopen := False\<rparr> else q\<lparr>readopen := False\<rparr>);
     let s = wakeup (if writable then ChPipeRead pi else ChPipeWrite pi) (pipe_set pi q s);
     if \<not> readopen q \<and> \<not> writeopen q
     then kfree pi (s\<lparr>pipes := (pipes s)(pi := None)\<rparr>)
     else Some s
   }"

partial_function (option) pipewrite ::
    "u64 \<Rightarrow> u64 \<Rightarrow> int \<Rightarrow> int \<Rightarrow> 'a kfiles_scheme \<Rightarrow> (outcome \<times> 'a kfiles_scheme) option" where
  "pipewrite pi addr n i s =
     (if \<not> i < n then Some (Returns i, wakeup (ChPipeRead pi) s)
      else do {
        pr \<leftarrow> myproc s;
        q \<leftarrow> pipes s pi;
        if \<not> readopen q \<or> killed pr s then Some (Returns (-1), s)
        else if pipe_full q then do {
          s \<leftarrow> sleep (ChPipeWrite pi) (wakeup (ChPipeRead pi) s);
          Some (Sleeps (Pipe_writing i), s)
        }
        else do {
          (r, ch, s) \<leftarrow> copyin (p_pagetable (pget pr s)) (addr + of_int i) 1 [] s;
          if r = -1 then Some (Returns i, wakeup (ChPipeRead pi) s)
          else pipewrite pi addr n (i + 1) (pipe_set pi (pipe_put (hd ch) q) s)
        }
      })"

partial_function (option) piperead_copy ::
    "u64 \<Rightarrow> u64 \<Rightarrow> int \<Rightarrow> int \<Rightarrow> 'a kfiles_scheme \<Rightarrow> (outcome \<times> 'a kfiles_scheme) option" where
  "piperead_copy pi addr n i s =
     (if \<not> i < n then Some (Returns i, wakeup (ChPipeWrite pi) s)
      else do {
        pr \<leftarrow> myproc s;
        q \<leftarrow> pipes s pi;
        if pipe_empty q then Some (Returns i, wakeup (ChPipeWrite pi) s)
        else (case pipe_get q of (ch, q) \<Rightarrow> do {
          (r, s) \<leftarrow> copyout (p_pagetable (pget pr s)) (addr + of_int i) [ch] (pipe_set pi q s);
          if r = -1 then Some (Returns i, wakeup (ChPipeWrite pi) s)
          else piperead_copy pi addr n (i + 1) s
        })
      })"

definition piperead :: "u64 \<Rightarrow> u64 \<Rightarrow> int \<Rightarrow> 'a kfiles_scheme \<Rightarrow> (outcome \<times> 'a kfiles_scheme) option" where
  "piperead pi addr n s = do {
     pr \<leftarrow> myproc s;
     q \<leftarrow> pipes s pi;
     if pipe_empty q \<and> writeopen q then
       (if killed pr s then Some (Returns (-1), s)
        else do {
          s \<leftarrow> sleep (ChPipeRead pi) s;
          Some (Sleeps Pipe_reading, s)
        })
     else piperead_copy pi addr n 0 s
   }"

subsection \<open>The console\<close>

definition INPUT_BUF_SIZE :: u32 where "INPUT_BUF_SIZE = 128"
definition BACKSPACE :: int where "BACKSPACE = 0x100"

text \<open>\<open>C x\<close> is Control-x.\<close>

definition Control :: "u8 \<Rightarrow> u8" where "Control x = x - 64"

definition consputc :: "int \<Rightarrow> 'a kfiles_scheme \<Rightarrow> 'a kfiles_scheme" where
  "consputc c s = s\<lparr>uart_out := uart_out s @ (if c = BACKSPACE then [8, 32, 8] else [of_int c])\<rparr>"

definition consset :: "(cons \<Rightarrow> cons) \<Rightarrow> 'a kfiles_scheme \<Rightarrow> 'a kfiles_scheme" where
  "consset f s = s\<lparr>cons := f (cons s)\<rparr>"

partial_function (option) consolewrite_loop ::
    "bool \<Rightarrow> u64 \<Rightarrow> int \<Rightarrow> int \<Rightarrow> 'a kfiles_scheme \<Rightarrow> (int \<times> 'a kfiles_scheme) option" where
  "consolewrite_loop user_src src n i s =
     (if \<not> i < n then Some (i, s)
      else let nn = (if 32 > n - i then n - i else 32) in do {
        (r, bs, _, s) \<leftarrow> either_copyin user_src (src + of_int i) (nat nn) s;
        if r = -1 then Some (i, s)
        else consolewrite_loop user_src src n (i + nn) (s\<lparr>uart_out := uart_out s @ bs\<rparr>)
      })"

definition consolewrite :: "bool \<Rightarrow> u64 \<Rightarrow> int \<Rightarrow> 'a kfiles_scheme \<Rightarrow> (outcome \<times> 'a kfiles_scheme) option" where
  "consolewrite user_src src n s = do {
     (i, s) \<leftarrow> consolewrite_loop user_src src n 0 s;
     Some (Returns i, s)
   }"

text \<open>\<open>target\<close> is the source's variable: the caller's \<open>n\<close>.\<close>

partial_function (option) consoleread ::
    "bool \<Rightarrow> int \<Rightarrow> u64 \<Rightarrow> int \<Rightarrow> 'a kfiles_scheme \<Rightarrow> (outcome \<times> 'a kfiles_scheme) option" where
  "consoleread user_dst target dst n s =
     (if \<not> n > 0 then Some (Returns (target - n), s)
      else do {
        pr \<leftarrow> myproc s;
        if cons_r (cons s) = cons_w (cons s) then
          (if killed pr s then Some (Returns (-1), s)
           else do {
             s \<leftarrow> sleep ChCons s;
             Some (Sleeps (Console_reading dst n), s)
           })
        else let c = cons_buf (cons s) ! unat (cons_r (cons s) mod INPUT_BUF_SIZE);
                 s = consset (\<lambda>q. q\<lparr>cons_r := cons_r q + 1\<rparr>) s in
          if c = Control 68 then
            Some (Returns (target - n),
              if n < target then consset (\<lambda>q. q\<lparr>cons_r := cons_r q - 1\<rparr>) s else s)
          else do {
            (r, dst, s) \<leftarrow> either_copyout user_dst dst [c] s;
            if r = -1 then Some (Returns (target - n), s)
            else if c = 10 then Some (Returns (target - (n - 1)), s)
            else consoleread user_dst target dst (n - 1) s
          }
      })"

partial_function (option) kill_line :: "'a kfiles_scheme \<Rightarrow> 'a kfiles_scheme option" where
  "kill_line s =
     (let q = cons s in
      if cons_e q \<noteq> cons_w q \<and> cons_buf q ! unat ((cons_e q - 1) mod INPUT_BUF_SIZE) \<noteq> 10
      then kill_line (consputc BACKSPACE (consset (\<lambda>q. q\<lparr>cons_e := cons_e q - 1\<rparr>) s))
      else Some s)"

definition cons_store :: "u8 \<Rightarrow> cons \<Rightarrow> cons" where
  "cons_store c q = q\<lparr>cons_buf := (cons_buf q)[unat (cons_e q mod INPUT_BUF_SIZE) := c], cons_e := cons_e q + 1\<rparr>"

definition consoleintr :: "u8 \<Rightarrow> 'a kfiles_scheme \<Rightarrow> 'a kfiles_scheme option" where
  "consoleintr c s =
     (if c = Control 80 then Some (procdump s)
      else if c = Control 85 then kill_line s
      else if c = Control 72 \<or> c = 127 then
        Some (if cons_e (cons s) \<noteq> cons_w (cons s)
              then consputc BACKSPACE (consset (\<lambda>q. q\<lparr>cons_e := cons_e q - 1\<rparr>) s) else s)
      else if c \<noteq> 0 \<and> cons_e (cons s) - cons_r (cons s) < INPUT_BUF_SIZE then
        let c = (if c = 13 then 10 else c);
            s = consset (cons_store c) (consputc (uint c) s) in
        Some (if c = 10 \<or> c = Control 68 \<or> cons_e (cons s) - cons_r (cons s) = INPUT_BUF_SIZE
              then wakeup ChCons (consset (\<lambda>q. q\<lparr>cons_w := cons_e q\<rparr>) s) else s)
      else Some s)"

definition consoleinit :: "'a kfiles_scheme \<Rightarrow> 'a kfiles_scheme" where
  "consoleinit s = s\<lparr>dev_read := (dev_read s)[CONSOLE := Some Console_read],
     dev_write := (dev_write s)[CONSOLE := Some Console_write]\<rparr>"

subsection \<open>Files\<close>

definition fileclose :: "nat \<Rightarrow> 'a kfiles_scheme \<Rightarrow> 'a kfiles_scheme option" where
  "fileclose f s =
     (if f_ref (ftable s ! f) < 1 then None
      else let s = fset f (\<lambda>r. r\<lparr>f_ref := f_ref r - 1\<rparr>) s in
        if f_ref (ftable s ! f) > 0 then Some s
        else let ff = ftable s ! f;
                 s = fset f (\<lambda>r. r\<lparr>f_ref := 0, f_type := FD_NONE\<rparr>) s in
          if f_type ff = FD_PIPE then pipeclose (f_pipe ff) (f_writable ff) s
          else if f_type ff = FD_INODE \<or> f_type ff = FD_DEVICE then do {
            s \<leftarrow> begin_op s;
            s \<leftarrow> iput (f_ip ff) s;
            end_op s
          }
          else Some s)"

definition pipe_ends :: "u64 \<Rightarrow> nat \<Rightarrow> nat \<Rightarrow> 'a kfiles_scheme \<Rightarrow> 'a kfiles_scheme" where
  "pipe_ends pi f0 f1 s =
     fset f1 (\<lambda>r. r\<lparr>f_type := FD_PIPE, f_readable := False, f_writable := True, f_pipe := pi\<rparr>)
       (fset f0 (\<lambda>r. r\<lparr>f_type := FD_PIPE, f_readable := True, f_writable := False, f_pipe := pi\<rparr>)
         (pipe_set pi \<lparr>p_data = replicate (unat PIPESIZE) 5, nread = 0, nwrite = 0,
            readopen = True, writeopen = True\<rparr> s))"

definition pipealloc :: "'a kfiles_scheme \<Rightarrow> ((nat \<times> nat) option \<times> 'a kfiles_scheme) option" where
  "pipealloc s = (case filealloc s of
       (None, s) \<Rightarrow> Some (None, s)
     | (Some f0, s) \<Rightarrow> (case filealloc s of
         (None, s) \<Rightarrow> do { s \<leftarrow> fileclose f0 s; Some (None, s) }
       | (Some f1, s) \<Rightarrow> (case kalloc s of (pi, s) \<Rightarrow>
           if pi = 0 then do {
             s \<leftarrow> fileclose f0 s;
             s \<leftarrow> fileclose f1 s;
             Some (None, s)
           }
           else Some (Some (f0, f1), pipe_ends pi f0 f1 s))))"

text \<open>
  The bytes of a \<open>struct stat\<close>; the four padding bytes before \<open>size\<close>, which the source
  leaves uninitialised, are 0 here.
\<close>

definition stat_bytes :: "stat \<Rightarrow> u8 list" where
  "stat_bytes st = map (put32 0 (st_dev st) (put32 4 (st_ino st) (put16 8 (st_type st) (put16 10 (st_nlink st)
     (put32 16 (ucast (st_size st)) (put32 20 (ucast (drop_bit 32 (st_size st))) (\<lambda>_. 0))))))) [0..<24]"

definition filestat :: "nat \<Rightarrow> u64 \<Rightarrow> 'a kfiles_scheme \<Rightarrow> (int \<times> 'a kfiles_scheme) option" where
  "filestat f addr s = do {
     p \<leftarrow> myproc s;
     let t = f_type (ftable s ! f);
     if t = FD_INODE \<or> t = FD_DEVICE then do {
       let ip = f_ip (ftable s ! f);
       s \<leftarrow> ilock ip s;
       let st = stati ip s;
       s \<leftarrow> iunlock ip s;
       (r, s) \<leftarrow> copyout (p_pagetable (pget p s)) addr (stat_bytes st) s;
       if r < 0 then Some (-1, s) else Some (0, s)
     }
     else Some (-1, s)
   }"

definition device :: "devfun option list \<Rightarrow> u16 \<Rightarrow> devfun option" where
  "device tab major = (if sint major < 0 \<or> sint major \<ge> int NDEV then None else tab ! nat (sint major))"

definition fileread :: "nat \<Rightarrow> u64 \<Rightarrow> int \<Rightarrow> 'a kfiles_scheme \<Rightarrow> (outcome \<times> 'a kfiles_scheme) option" where
  "fileread f addr n s =
     (let ff = ftable s ! f in
      if \<not> f_readable ff then Some (Returns (-1), s)
      else case f_type ff of
        FD_PIPE \<Rightarrow> piperead (f_pipe ff) addr n s
      | FD_DEVICE \<Rightarrow> (case device (dev_read s) (f_major ff) of
            Some Console_read \<Rightarrow> consoleread True n addr n s
          | _ \<Rightarrow> Some (Returns (-1), s))
      | FD_INODE \<Rightarrow> do {
          s \<leftarrow> ilock (f_ip ff) s;
          (r, _, s) \<leftarrow> readi (either_copyout True) (f_ip ff) addr (f_off ff) (of_int n) s;
          let s = (if r > 0 then fset f (\<lambda>q. q\<lparr>f_off := f_off q + of_int r\<rparr>) s else s);
          s \<leftarrow> iunlock (f_ip ff) s;
          Some (Returns r, s)
        }
      | FD_NONE \<Rightarrow> None)"

definition max_write :: int where
  "max_write = ((MAXOPBLOCKS - 1 - 1 - 2) div 2) * int BSIZE"

partial_function (option) filewrite_loop ::
    "nat \<Rightarrow> u64 \<Rightarrow> int \<Rightarrow> int \<Rightarrow> 'a kfiles_scheme \<Rightarrow> (int \<times> 'a kfiles_scheme) option" where
  "filewrite_loop f addr n i s =
     (if \<not> i < n then Some (i, s)
      else let n1 = (if n - i > max_write then max_write else n - i); ip = f_ip (ftable s ! f) in do {
        s \<leftarrow> begin_op s;
        s \<leftarrow> ilock ip s;
        (r, _, s) \<leftarrow> writei (either_copyin True) ip (addr + of_int i) (f_off (ftable s ! f)) (of_int n1) s;
        let s = (if r > 0 then fset f (\<lambda>q. q\<lparr>f_off := f_off q + of_int r\<rparr>) s else s);
        s \<leftarrow> iunlock ip s;
        s \<leftarrow> end_op s;
        if r \<noteq> n1 then Some (i, s) else filewrite_loop f addr n (i + r) s
      })"

definition filewrite :: "nat \<Rightarrow> u64 \<Rightarrow> int \<Rightarrow> 'a kfiles_scheme \<Rightarrow> (outcome \<times> 'a kfiles_scheme) option" where
  "filewrite f addr n s =
     (let ff = ftable s ! f in
      if \<not> f_writable ff then Some (Returns (-1), s)
      else case f_type ff of
        FD_PIPE \<Rightarrow> pipewrite (f_pipe ff) addr n 0 s
      | FD_DEVICE \<Rightarrow> (case device (dev_write s) (f_major ff) of
            Some Console_write \<Rightarrow> consolewrite True addr n s
          | _ \<Rightarrow> Some (Returns (-1), s))
      | FD_INODE \<Rightarrow> do {
          (i, s) \<leftarrow> filewrite_loop f addr n 0 s;
          Some (Returns (if i = n then n else -1), s)
        }
      | FD_NONE \<Rightarrow> None)"

end
