(* ===== verification/Procs.thy ===== *)
theory Procs
  imports Files
begin

section \<open>The life of a process (kernel/proc.c)\<close>

text \<open>
  Allocation, fork, exit and wait.  A process is its index in \<open>procs\<close>; the trapframe is
  a page of memory, read and written at the offsets of \<open>struct trapframe\<close>.  \<open>kexit\<close> and
  \<open>kwait\<close> end in the scheduler: \<open>kexit\<close> returns the state in which the CPU is there,
  \<open>kwait\<close> an outcome.
\<close>

definition tf_get :: "nat \<Rightarrow> nat \<Rightarrow> 'a kprocs_scheme \<Rightarrow> u64" where
  "tf_get p o1 s = ld64 (mem s) (p_trapframe (pget p s) + of_nat o1)"

definition tf_set :: "nat \<Rightarrow> nat \<Rightarrow> u64 \<Rightarrow> 'a kprocs_scheme \<Rightarrow> 'a kprocs_scheme" where
  "tf_set p o1 v s = s\<lparr>mem := st64 (p_trapframe (pget p s) + of_nat o1) v (mem s)\<rparr>"

text \<open>The offsets of the fields the kernel uses.\<close>

definition TF_KERNEL_SATP :: nat where "TF_KERNEL_SATP = 0"
definition TF_KERNEL_SP :: nat where "TF_KERNEL_SP = 8"
definition TF_KERNEL_TRAP :: nat where "TF_KERNEL_TRAP = 16"
definition TF_EPC :: nat where "TF_EPC = 24"
definition TF_KERNEL_HARTID :: nat where "TF_KERNEL_HARTID = 32"
definition TF_SP :: nat where "TF_SP = 48"
definition TF_A0 :: nat where "TF_A0 = 112"
definition TF_A7 :: nat where "TF_A7 = 168"
definition TF_SIZE :: nat where "TF_SIZE = 288"

subsection \<open>User page tables\<close>

definition proc_pagetable :: "nat \<Rightarrow> 'a kprocs_scheme \<Rightarrow> (u64 \<times> 'a kprocs_scheme) option" where
  "proc_pagetable p s = (case uvmcreate s of (pagetable, s) \<Rightarrow>
     if pagetable = 0 then Some (0, s)
     else do {
       (r, s) \<leftarrow> mappages pagetable TRAMPOLINE PGSIZE (trampoline_pa s) (PTE_R OR PTE_X) s;
       if r < 0 then do { s \<leftarrow> uvmfree pagetable 0 s; Some (0, s) }
       else do {
         (r, s) \<leftarrow> mappages pagetable TRAPFRAME PGSIZE (p_trapframe (pget p s)) (PTE_R OR PTE_W) s;
         if r < 0 then do {
           s \<leftarrow> uvmunmap pagetable TRAMPOLINE 1 False s;
           s \<leftarrow> uvmfree pagetable 0 s;
           Some (0, s)
         }
         else Some (pagetable, s)
       }
     })"

text \<open>The loop over the guard page and the stack of \<open>myproc()\<close>.\<close>

partial_function (option) free_stack_loop ::
    "u64 \<Rightarrow> u64 \<Rightarrow> u64 \<Rightarrow> 'a kprocs_scheme \<Rightarrow> 'a kprocs_scheme option" where
  "free_stack_loop pagetable va stop s =
     (if \<not> va < stop then Some s
      else do {
        (pte, s) \<leftarrow> walk pagetable va False s;
        s \<leftarrow> (if pte \<noteq> 0 \<and> ld64 (mem s) pte AND PTE_V \<noteq> 0
             then uvmunmap pagetable va 1 True s else Some s);
        free_stack_loop pagetable (va + PGSIZE) stop s
      })"

definition proc_freepagetable :: "u64 \<Rightarrow> u64 \<Rightarrow> 'a kprocs_scheme \<Rightarrow> 'a kprocs_scheme option" where
  "proc_freepagetable pagetable sz s = do {
     s \<leftarrow> uvmunmap pagetable TRAMPOLINE 1 False s;
     s \<leftarrow> uvmunmap pagetable TRAPFRAME 1 False s;
     s \<leftarrow> (case myproc s of
         Some p \<Rightarrow> let stop = stack_top (pget p s); stack_base = stop - USERSTACK * PGSIZE in
           if stop > 0 then free_stack_loop pagetable (stack_base - PGSIZE) stop s else Some s
       | None \<Rightarrow> Some s);
     uvmfree pagetable sz s
   }"

subsection \<open>Allocation\<close>

definition freeproc :: "nat \<Rightarrow> 'a kprocs_scheme \<Rightarrow> 'a kprocs_scheme option" where
  "freeproc p s = do {
     s \<leftarrow> (if p_trapframe (pget p s) \<noteq> 0 then kfree (p_trapframe (pget p s)) s else Some s);
     let s = pset p (\<lambda>q. q\<lparr>p_trapframe := 0\<rparr>) s;
     s \<leftarrow> (if p_pagetable (pget p s) \<noteq> 0
          then proc_freepagetable (p_pagetable (pget p s)) (p_sz (pget p s)) s else Some s);
     Some (pset p (\<lambda>q. q\<lparr>p_pagetable := 0, p_sz := 0, p_pid := 0, p_parent := None,
       p_name := (p_name q)(0 := 0), p_chan := None, p_killed := False, p_xstate := 0,
       p_state := UNUSED, num_pages := 0, swap_slots_used := 0\<rparr>) s)
   }"

definition zero_page_info :: page_info where
  "zero_page_info = \<lparr>pi_va = 0, pi_state = UNMAPPED, is_dirty = False, pi_seq = 0, swap_slot = 0\<rparr>"

definition zero_segment :: segment_info where
  "zero_segment = \<lparr>va_start = 0, va_end = 0, file_off = 0, filesz = 0, seg_flags = 0\<rparr>"

text \<open>The fields \<open>allocproc\<close> sets once it has the two pages.\<close>

definition init_proc :: "u64 \<Rightarrow> proc \<Rightarrow> proc" where
  "init_proc ra q = q\<lparr>p_context := \<lparr>ctx_ra = ra, ctx_sp = p_kstack q + PGSIZE, ctx_s = replicate 12 0\<rparr>,
     text_start := 0, text_end := 0, data_start := 0, data_end := 0, heap_start := 0, stack_top := 0,
     next_fifo_seq := 1, swap_file := None, swap_slots_used := 0, num_pages := 0, exec_inode := None,
     exec_offset := 0, num_segments := 0, swap_bitmap := replicate 16 0,
     pages := replicate MAX_PAGES zero_page_info, segments := replicate MAX_SEGMENTS zero_segment\<rparr>"

definition allocproc :: "'a kprocs_scheme \<Rightarrow> (nat option \<times> 'a kprocs_scheme) option" where
  "allocproc s = (case List.find (\<lambda>i. p_state (pget i s) = UNUSED) [0..<NPROC] of
       None \<Rightarrow> Some (None, s)
     | Some p \<Rightarrow> (case allocpid s of (pid, s) \<Rightarrow>
         let s = pset p (\<lambda>q. q\<lparr>p_pid := pid, p_state := USED\<rparr>) s in
         case kalloc s of (tf, s) \<Rightarrow>
           let s = pset p (\<lambda>q. q\<lparr>p_trapframe := tf\<rparr>) s in
           if tf = 0 then do { s \<leftarrow> freeproc p s; Some (None, s) }
           else do {
             (pt, s) \<leftarrow> proc_pagetable p s;
             let s = pset p (\<lambda>q. q\<lparr>p_pagetable := pt\<rparr>) s;
             if pt = 0 then do { s \<leftarrow> freeproc p s; Some (None, s) }
             else Some (Some p, pset p (init_proc (forkret_pc s)) s)
           }))"

definition userinit :: "'a kinodes_scheme \<Rightarrow> 'a kinodes_scheme option" where
  "userinit s = do {
     (p, s) \<leftarrow> allocproc s;
     let s = s\<lparr>initproc := p\<rparr>;
     p \<leftarrow> p;
     (ip, s) \<leftarrow> namei [SLASH] s;
     Some (pset p (\<lambda>q. q\<lparr>p_cwd := ip, p_state := RUNNABLE\<rparr>) s)
   }"

definition growproc :: "int \<Rightarrow> 'a kprocs_scheme \<Rightarrow> (int \<times> 'a kprocs_scheme) option" where
  "growproc n s = do {
     p \<leftarrow> myproc s;
     let q = pget p s;
     if n > 0 then do {
       (sz, s) \<leftarrow> uvmalloc (stack_top q) (p_pagetable q) (p_sz q) (p_sz q + of_int n) PTE_W s;
       if sz = 0 then Some (-1, s) else Some (0, pset p (\<lambda>q. q\<lparr>p_sz := sz\<rparr>) s)
     }
     else if n < 0 then do {
       (sz, s) \<leftarrow> uvmdealloc (stack_top q) (p_pagetable q) (p_sz q) (p_sz q + of_int n) s;
       Some (0, pset p (\<lambda>q. q\<lparr>p_sz := sz\<rparr>) s)
     }
     else Some (0, s)
   }"

subsection \<open>fork\<close>

text \<open>The copy of a page record in the child, and what else the child takes over.\<close>

definition fork_page :: "page_info \<Rightarrow> page_info" where
  "fork_page pg = pg\<lparr>pi_state := (if pi_state pg = SWAPPED then UNMAPPED else pi_state pg), swap_slot := -1\<rparr>"

definition fork_fields :: "proc \<Rightarrow> proc \<Rightarrow> proc" where
  "fork_fields p np = np\<lparr>p_sz := p_sz p, text_start := text_start p, text_end := text_end p,
     data_start := data_start p, data_end := data_end p, heap_start := heap_start p,
     stack_top := stack_top p, num_segments := num_segments p,
     segments := take (num_segments p) (segments p) @ drop (num_segments p) (segments np)\<rparr>"

definition fork_pages :: "proc \<Rightarrow> proc \<Rightarrow> proc" where
  "fork_pages p np = np\<lparr>num_pages := num_pages p, next_fifo_seq := next_fifo_seq p,
     pages := map fork_page (take (num_pages p) (pages p)) @ drop (num_pages p) (pages np)\<rparr>"

fun fork_files :: "nat \<Rightarrow> nat \<Rightarrow> nat list \<Rightarrow> 'a kfiles_scheme \<Rightarrow> 'a kfiles_scheme option" where
  "fork_files p np [] s = Some s"
| "fork_files p np (i # is) s = do {
     s \<leftarrow> (case p_ofile (pget p s) ! i of
         None \<Rightarrow> Some s
       | Some f \<Rightarrow> do {
           s \<leftarrow> filedup f s;
           Some (pset np (\<lambda>q. q\<lparr>p_ofile := (p_ofile q)[i := Some f]\<rparr>) s)
         });
     fork_files p np is s
   }"

definition copy_trapframe :: "nat \<Rightarrow> nat \<Rightarrow> 'a kprocs_scheme \<Rightarrow> 'a kprocs_scheme" where
  "copy_trapframe p np s = s\<lparr>mem := store_bytes (p_trapframe (pget np s))
     (load_bytes (p_trapframe (pget p s)) TF_SIZE (mem s)) (mem s)\<rparr>"

definition kfork :: "'a kfiles_scheme \<Rightarrow> (int \<times> 'a kfiles_scheme) option" where
  "kfork s = do {
     p \<leftarrow> myproc s;
     (np, s) \<leftarrow> allocproc s;
     case np of
       None \<Rightarrow> Some (-1, s)
     | Some np \<Rightarrow> do {
         (r, s) \<leftarrow> uvmcopy (p_pagetable (pget p s)) (p_pagetable (pget np s)) (p_sz (pget p s)) s;
         if r < 0 then do { s \<leftarrow> freeproc np s; Some (-1, s) }
         else do {
           let s = pset np (fork_fields (pget p s)) s;
           let s = (case exec_inode (pget p s) of None \<Rightarrow> s
             | Some ip \<Rightarrow> pset np (\<lambda>q. q\<lparr>exec_inode := Some ip\<rparr>) (idup ip s));
           let s = pset np (fork_pages (pget p s)) s;
           let s = tf_set np TF_A0 0 (copy_trapframe p np s);
           s \<leftarrow> fork_files p np [0..<NOFILE] s;
           ip \<leftarrow> p_cwd (pget p s);
           let s = pset np (\<lambda>q. q\<lparr>p_cwd := Some ip\<rparr>) (idup ip s);
           let s = pset np (\<lambda>q. q\<lparr>p_name := safestrcpy (p_name q) (p_name (pget p s)) 16\<rparr>) s;
           let s = pset np (\<lambda>q. q\<lparr>p_parent := Some p\<rparr>) s;
           Some (p_pid (pget np s), pset np (\<lambda>q. q\<lparr>p_state := RUNNABLE\<rparr>) s)
         }
       }
   }"

subsection \<open>exit and wait\<close>

fun exit_files :: "nat \<Rightarrow> nat list \<Rightarrow> 'a kfiles_scheme \<Rightarrow> 'a kfiles_scheme option" where
  "exit_files p [] s = Some s"
| "exit_files p (fd # fds) s = do {
     s \<leftarrow> (case p_ofile (pget p s) ! fd of
         None \<Rightarrow> Some s
       | Some f \<Rightarrow> do {
           s \<leftarrow> fileclose f s;
           Some (pset p (\<lambda>q. q\<lparr>p_ofile := (p_ofile q)[fd := None]\<rparr>) s)
         });
     exit_files p fds s
   }"

text \<open>The clean-up of the swap file in \<open>kexit\<close>.\<close>

definition exit_swap :: "nat \<Rightarrow> 'a kfiles_scheme \<Rightarrow> 'a kfiles_scheme option" where
  "exit_swap p s = (case swap_file (pget p s) of
       None \<Rightarrow> Some s
     | Some f \<Rightarrow> do {
         let s = kprint (SWAPCLEANUP (p_pid (pget p s)) (swap_slots_used (pget p s))) s;
         s \<leftarrow> fileclose f s;
         let s = pset p (\<lambda>q. q\<lparr>swap_file := None\<rparr>) s;
         s \<leftarrow> begin_op s;
         (dp, name, s) \<leftarrow> nameiparent (swap_name (p_pid (pget p s))) (\<lambda>_. 0) s;
         s \<leftarrow> (case dp of
             None \<Rightarrow> Some s
           | Some dp \<Rightarrow> do {
               s \<leftarrow> ilock dp s;
               (found, s) \<leftarrow> dirlookup dp name s;
               s \<leftarrow> (case found of
                   None \<Rightarrow> Some s
                 | Some (ip, _) \<Rightarrow> do {
                     s \<leftarrow> ilock ip s;
                     s \<leftarrow> iupdate ip (iset ip (\<lambda>q. q\<lparr>i_nlink := i_nlink q - 1\<rparr>) s);
                     iunlockput ip s
                   });
               iunlockput dp s
             });
         end_op s
       })"

definition exit_inode :: "nat \<Rightarrow> 'a kinodes_scheme \<Rightarrow> 'a kinodes_scheme option" where
  "exit_inode ip s = do { s \<leftarrow> begin_op s; s \<leftarrow> iput ip s; end_op s }"

definition kexit :: "int \<Rightarrow> 'a kfiles_scheme \<Rightarrow> 'a kfiles_scheme option" where
  "kexit status s = do {
     p \<leftarrow> myproc s;
     if initproc s = Some p then None
     else do {
       s \<leftarrow> exit_files p [0..<NOFILE] s;
       cwd \<leftarrow> p_cwd (pget p s);
       s \<leftarrow> exit_inode cwd s;
       let s = pset p (\<lambda>q. q\<lparr>p_cwd := None\<rparr>) s;
       s \<leftarrow> exit_swap p s;
       s \<leftarrow> (case exec_inode (pget p s) of
           None \<Rightarrow> Some s
         | Some ip \<Rightarrow> do {
             s \<leftarrow> exit_inode ip s;
             Some (pset p (\<lambda>q. q\<lparr>exec_inode := None\<rparr>) s)
           });
       s \<leftarrow> reparent p s;
       let s = (case p_parent (pget p s) of None \<Rightarrow> s | Some pp \<Rightarrow> wakeup (ChProc pp) s);
       Some ((pset p (\<lambda>q. q\<lparr>p_xstate := of_int status, p_state := ZOMBIE\<rparr>) s)\<lparr>cur := None\<rparr>)
     }
   }"

definition int_bytes :: "u32 \<Rightarrow> u8 list" where
  "int_bytes w = map (put32 0 w (\<lambda>_. 0)) [0..<4]"

definition kwait :: "u64 \<Rightarrow> 'a kfiles_scheme \<Rightarrow> (outcome \<times> 'a kfiles_scheme) option" where
  "kwait addr s = do {
     p \<leftarrow> myproc s;
     case List.find (\<lambda>i. p_parent (pget i s) = Some p \<and> p_state (pget i s) = ZOMBIE) [0..<NPROC] of
       Some i \<Rightarrow> do {
         let pid = p_pid (pget i s);
         (r, s) \<leftarrow> (if addr \<noteq> 0 then copyout (p_pagetable (pget p s)) addr (int_bytes (p_xstate (pget i s))) s
                    else Some (0, s));
         if r < 0 then Some (Returns (-1), s)
         else do { s \<leftarrow> freeproc i s; Some (Returns pid, s) }
       }
     | None \<Rightarrow>
         if (\<forall>i\<in>set [0..<NPROC]. p_parent (pget i s) \<noteq> Some p) \<or> killed p s then Some (Returns (-1), s)
         else do { s \<leftarrow> sleep (ChProc p) s; Some (Sleeps Kwaiting, s) }
   }"

end
