(* ===== verification/Demo.thy ===== *)
theory Demo
  imports Procs
begin

section \<open>A small kernel state\<close>

text \<open>
  Closed states at which theorems are instantiated: \<open>demo_kernel\<close> builds a state from its
  memory, its free list and its process table, with an empty file system, console and
  file table; \<open>demo_process\<close> is a fresh process; \<open>demo_memory\<close> holds a page table at
  \<open>0x87100000\<close> with one user page, \<open>0x4000\<close>, in the frame \<open>0x87103000\<close>.
\<close>

definition demo_proc :: proc where
  "demo_proc = init_proc 0 \<lparr>p_state = UNUSED, p_chan = None, p_killed = False, p_xstate = 0, p_pid = 0, p_parent = None,
     p_kstack = 0, p_sz = 0, p_pagetable = 0, p_trapframe = 0, p_context = \<lparr>ctx_ra = 0, ctx_sp = 0, ctx_s = []\<rparr>,
     p_ofile = replicate NOFILE None, p_cwd = None, p_name = (\<lambda>_. 0), text_start = 0, text_end = 0, data_start = 0,
     data_end = 0, heap_start = 0, stack_top = 0, next_fifo_seq = 1, swap_file = None, swap_slots_used = 0,
     swap_bitmap = [], pages = [], num_pages = 0, exec_inode = None, exec_offset = 0, segments = [], num_segments = 0\<rparr>"

definition demo_kernel :: "memory \<Rightarrow> u64 \<Rightarrow> proc list \<Rightarrow> kfiles" where
  "demo_kernel m fl ps = \<lparr>mem = m, freelist = fl, kend = 0x80022000, procs = ps, cur = Some 0, nextpid = 3,
     initproc = Some 1, klog = [], trampoline_pa = 0x80007000, forkret_pc = 0x80001000,
     disk = (\<lambda>_ _. 0), disk_log = [], bufs = [], lru = [], log_start = 2, log_outstanding = 0,
     log_committing = False, log_dev = ROOTDEV, log_lh = \<lparr>lh_n = 0, lh_block = []\<rparr>,
     sb = \<lparr>sb_magic = FSMAGIC, sb_size = 47, sb_nblocks = 1, sb_ninodes = 16, sb_nlog = 31, sb_logstart = 2,
       sb_inodestart = 33, sb_bmapstart = 45\<rparr>, itable = [], ftable = [], pipes = (\<lambda>_. None),
     dev_read = [], dev_write = [], cons = \<lparr>cons_buf = replicate 128 0, cons_r = 0, cons_w = 0, cons_e = 0\<rparr>,
     uart_out = [], ticks = 0, kernel_pagetable = 0, first_run = False\<rparr>"

lemma demo_kernel_sel [simp]:
  "mem (demo_kernel m fl ps) = m" "freelist (demo_kernel m fl ps) = fl" "kend (demo_kernel m fl ps) = 0x80022000"
  "procs (demo_kernel m fl ps) = ps" "cur (demo_kernel m fl ps) = Some 0" "ftable (demo_kernel m fl ps) = []"
  "initproc (demo_kernel m fl ps) = Some 1" "klog (demo_kernel m fl ps) = []" "nextpid (demo_kernel m fl ps) = 3"
  by (simp_all add: demo_kernel_def)

text \<open>Two levels of tables and a leaf for page 4; \<open>demo_memory\<close> has \<open>PTE_U\<close>, \<open>PTE_R\<close> and \<open>PTE_V\<close> there.\<close>

definition demo_map :: "u64 \<Rightarrow> memory" where
  "demo_map e = st64 0x87100000 0x21c40401 (st64 0x87101000 0x21c40801 (st64 0x87102020 e (\<lambda>_. 0)))"

definition demo_memory :: memory where
  "demo_memory = demo_map 0x21c40c13"

lemma demo_memory_cells:
  "ld64 demo_memory 0x87100000 = 0x21c40401" "ld64 demo_memory 0x87101000 = 0x21c40801"
  "ld64 demo_memory 0x87102020 = 0x21c40c13"
  by (simp_all add: demo_memory_def demo_map_def ld64_st64_other cell_aligned_def)

lemma demo_walk: "mem s = demo_memory \<Longrightarrow> walk 0x87100000 0x4000 False s = Some (0x87102020, s)"
  unfolding walk_def numeral_2_eq_2
  by (simp add: PX_def demo_memory_cells PTE_V_def PTE2PA_def MAXVA_def)

text \<open>A process that has this page as its only one, and the state it runs in.\<close>

definition demo_page :: page_info where
  "demo_page = \<lparr>pi_va = 0x4000, pi_state = RESIDENT, is_dirty = False, pi_seq = 1, swap_slot = -1\<rparr>"

definition demo_process :: proc where
  "demo_process = demo_proc\<lparr>p_state := RUNNING, p_pid := 2, p_pagetable := 0x87100000, num_pages := 1,
     pages := demo_page # replicate 511 zero_page_info, next_fifo_seq := 2\<rparr>"

definition demo_state :: kfiles where
  "demo_state = demo_kernel demo_memory 0 [demo_process, demo_proc]"

lemma demo_unmap:
  "mem s = demo_memory \<Longrightarrow> kend s = 0x80022000 \<Longrightarrow> freelist s = 0 \<Longrightarrow> \<exists>t. uvmunmap 0x87100000 0x4000 1 True s = Some t"
  by (simp add: uvmunmap_def PGSIZE_def demo_walk demo_memory_cells kfree_def PTE_V_def PTE2PA_def PHYSTOP_def KERNBASE_def
      uvmunmap_loop.simps [of "0x87100000" "0x4000"] uvmunmap_loop.simps [of "0x87100000" "0x5000"])

end
