(* ===== verification/PagingRun.thy ===== *)
theory PagingRun
  imports PagingInv Demo
begin

section \<open>The invariant of the page records and the order of eviction\<close>

text \<open>
  \<open>pages_ok\<close> says what the records of a process promise: one record per page, sequence
  numbers that are handed out once, and a swap slot of its own for every page that is
  swapped out.  Every step of the abstract pager keeps it, so every page fault does.
\<close>

subsection \<open>The invariant\<close>

definition vas_ok :: "proc \<Rightarrow> bool" where
  "vas_ok q \<longleftrightarrow> (\<forall>i<num_pages q. page_aligned (pi_va (pages q ! i))) \<and>
     inj_on (\<lambda>i. pi_va (pages q ! i)) {..<num_pages q}"

definition seqs_ok :: "proc \<Rightarrow> bool" where
  "seqs_ok q \<longleftrightarrow> (\<forall>i\<in>pages_in RESIDENT q. pi_seq (pages q ! i) < next_fifo_seq q) \<and>
     inj_on (\<lambda>i. pi_seq (pages q ! i)) (pages_in RESIDENT q)"

definition swaps_ok :: "proc \<Rightarrow> bool" where
  "swaps_ok q \<longleftrightarrow> (\<forall>i\<in>pages_in SWAPPED q. swap_slot (pages q ! i) = -1 \<and> p_killed q \<or>
       0 \<le> swap_slot (pages q ! i) \<and> nat (swap_slot (pages q ! i)) \<in> used_slots q) \<and>
     inj_on (\<lambda>i. swap_slot (pages q ! i)) {i \<in> pages_in SWAPPED q. 0 \<le> swap_slot (pages q ! i)}"

definition pages_ok :: "proc \<Rightarrow> bool" where
  "pages_ok q \<longleftrightarrow> length (pages q) = MAX_PAGES \<and> num_pages q \<le> MAX_PAGES \<and> length (swap_bitmap q) = 16 \<and>
     vas_ok q \<and> seqs_ok q \<and> swaps_ok q \<and> swap_slots_used q = int (card (used_slots q))"

lemma pages_okD:
  assumes "pages_ok q"
  shows "length (pages q) = MAX_PAGES" "num_pages q \<le> MAX_PAGES" "length (swap_bitmap q) = 16"
    "vas_ok q" "seqs_ok q" "swaps_ok q" "swap_slots_used q = int (card (used_slots q))"
    "i < num_pages q \<Longrightarrow> i < length (pages q)"
  using assms by (auto simp: pages_ok_def)

lemma pages_in_less: "i \<in> pages_in st q \<Longrightarrow> i < num_pages q" by (simp add: pages_in_def)

lemma pages_in_one: "i \<in> pages_in st q \<Longrightarrow> i \<notin> pages_in st' q \<longleftrightarrow> st' \<noteq> st" by (auto simp: pages_in_def)

lemma inj_upd:
  assumes "inj_on f A" "\<And>i. i \<in> B \<Longrightarrow> i \<noteq> v \<Longrightarrow> i \<in> A \<and> g i = f i" "\<And>i. v \<in> B \<Longrightarrow> i \<in> A \<Longrightarrow> i \<noteq> v \<Longrightarrow> f i \<noteq> g v"
  shows "inj_on g B"
proof (rule inj_onI)
  fix x y assume xy: "x \<in> B" "y \<in> B" "g x = g y"
  show "x = y"
  proof (cases "x = v \<or> y = v")
    case True
    then show ?thesis using assms(2,3) xy by metis
  next
    case False
    then show ?thesis using assms(1,2) xy by (metis inj_onD)
  qed
qed

text \<open>The invariant survives on fewer pages that have not changed.\<close>

lemma swaps_sub:
  assumes "swaps_ok q" "p_killed q \<Longrightarrow> p_killed q'"
    and "\<And>i. i \<in> pages_in SWAPPED q' \<Longrightarrow> i \<in> pages_in SWAPPED q \<and> swap_slot (pages q' ! i) = swap_slot (pages q ! i) \<and>
      (0 \<le> swap_slot (pages q ! i) \<longrightarrow> nat (swap_slot (pages q ! i)) \<in> used_slots q \<longrightarrow> nat (swap_slot (pages q ! i)) \<in> used_slots q')"
  shows "swaps_ok q'"
  unfolding swaps_ok_def
proof (intro conjI ballI inj_onI)
  fix i assume "i \<in> pages_in SWAPPED q'"
  from assms(3) [OF this] show "swap_slot (pages q' ! i) = -1 \<and> p_killed q' \<or>
      0 \<le> swap_slot (pages q' ! i) \<and> nat (swap_slot (pages q' ! i)) \<in> used_slots q'"
    using assms(1,2) by (auto simp: swaps_ok_def)
next
  fix i j
  assume ij: "i \<in> {i \<in> pages_in SWAPPED q'. 0 \<le> swap_slot (pages q' ! i)}" "j \<in> {i \<in> pages_in SWAPPED q'. 0 \<le> swap_slot (pages q' ! i)}"
    "swap_slot (pages q' ! i) = swap_slot (pages q' ! j)"
  then have "i \<in> {i \<in> pages_in SWAPPED q. 0 \<le> swap_slot (pages q ! i)}" "j \<in> {i \<in> pages_in SWAPPED q. 0 \<le> swap_slot (pages q ! i)}"
    "swap_slot (pages q ! i) = swap_slot (pages q ! j)" using assms(3) [of i] assms(3) [of j] by auto
  then show "i = j" using assms(1) unfolding swaps_ok_def by (meson inj_onD)
qed

lemma seqs_same:
  assumes "seqs_ok q" "next_fifo_seq q' = next_fifo_seq q"
    and "\<And>i. i \<in> pages_in RESIDENT q' \<Longrightarrow> i \<in> pages_in RESIDENT q \<and> pi_seq (pages q' ! i) = pi_seq (pages q ! i)"
  shows "seqs_ok q'"
  unfolding seqs_ok_def
proof (intro conjI ballI)
  show "inj_on (\<lambda>i. pi_seq (pages q' ! i)) (pages_in RESIDENT q')"
    by (rule inj_onI) (metis assms(1,3) seqs_ok_def inj_onD)
qed (use assms in \<open>auto simp: seqs_ok_def\<close>)

text \<open>Everything the invariant says depends on the pages and four more fields.\<close>

lemma pages_ok_cong:
  assumes "pages_ok q" "pages q' = pages q" "num_pages q' = num_pages q" "swap_bitmap q' = swap_bitmap q"
    "next_fifo_seq q' = next_fifo_seq q" "swap_slots_used q' = swap_slots_used q" "p_killed q \<Longrightarrow> p_killed q'"
  shows "pages_ok q'"
proof -
  have "used_slots q' = used_slots q" using assms(4) by (simp add: used_slots_def)
  moreover have "pages_in st q' = pages_in st q" for st using assms(2,3) by (simp add: pages_in_def)
  ultimately show ?thesis using assms unfolding pages_ok_def vas_ok_def seqs_ok_def swaps_ok_def by auto
qed

lemma pages_ok_strip [simp]: "pages_ok (strip q) = pages_ok q"
  by (auto intro: pages_ok_cong [of "strip q" q] pages_ok_cong [of q "strip q"])

lemma pages_ok_kill: "pages_ok q \<Longrightarrow> pages_ok (q\<lparr>p_killed := True\<rparr>)"
  by (rule pages_ok_cong) simp_all

text \<open>A change of one record, which is replaced by \<open>pg\<close>.\<close>

lemma pages_in_upd:
  assumes "v < length (pages q)"
  shows "i \<in> pages_in st (page_upd v f q) \<longleftrightarrow> i < num_pages q \<and> (if i = v then pi_state (f (pages q ! v)) = st else i \<in> pages_in st q)"
  using assms by (auto simp: pages_in_def)

lemma page_upd_ok:
  assumes "pages_ok q" "v < num_pages q" "pi_va (f (pages q ! v)) = pi_va (pages q ! v)"
    and "pi_state (f (pages q ! v)) = RESIDENT \<Longrightarrow> pi_seq (f (pages q ! v)) < next_fifo_seq q \<and>
      (\<forall>i\<in>pages_in RESIDENT q. i \<noteq> v \<longrightarrow> pi_seq (pages q ! i) \<noteq> pi_seq (f (pages q ! v)))"
    and "pi_state (f (pages q ! v)) = SWAPPED \<Longrightarrow> (swap_slot (f (pages q ! v)) = -1 \<and> p_killed q \<or>
        0 \<le> swap_slot (f (pages q ! v)) \<and> nat (swap_slot (f (pages q ! v))) \<in> used_slots q) \<and>
      (\<forall>i\<in>pages_in SWAPPED q. i \<noteq> v \<longrightarrow> 0 \<le> swap_slot (pages q ! i) \<longrightarrow> swap_slot (pages q ! i) \<noteq> swap_slot (f (pages q ! v)))"
  shows "pages_ok (page_upd v f q)"
proof -
  note ok = pages_okD [OF assms(1)]
  have v: "v < length (pages q)" using ok(8) assms(2) by blast
  have nth: "pages (page_upd v f q) ! i = (if i = v then f (pages q ! v) else pages q ! i)" for i
    using v by (auto simp: nth_list_update)
  have "vas_ok (page_upd v f q)"
    unfolding vas_ok_def page_upd_sel(1) nth
  proof (intro conjI allI impI)
    show "inj_on (\<lambda>i. pi_va (if i = v then f (pages q ! v) else pages q ! i)) {..<num_pages q}"
      using ok(4) inj_on_cong [of "{..<num_pages q}" "\<lambda>i. pi_va (if i = v then f (pages q ! v) else pages q ! i)" "\<lambda>i. pi_va (pages q ! i)"]
      by (simp add: vas_ok_def assms(3))
  qed (use ok(4) assms(3) in \<open>auto simp: vas_ok_def\<close>)
  moreover have "seqs_ok (page_upd v f q)"
    unfolding seqs_ok_def nth
  proof (intro conjI ballI)
    show "inj_on (\<lambda>i. pi_seq (if i = v then f (pages q ! v) else pages q ! i)) (pages_in RESIDENT (page_upd v f q))"
      by (rule inj_upd [where f = "\<lambda>i. pi_seq (pages q ! i)" and A = "pages_in RESIDENT q" and v = v])
        (use ok(5) assms(4) v in \<open>auto simp: seqs_ok_def pages_in_upd split: if_splits\<close>)
  qed (use ok(5) assms(4) v in \<open>auto simp: seqs_ok_def pages_in_upd split: if_splits\<close>)
  moreover have "swaps_ok (page_upd v f q)"
    unfolding swaps_ok_def nth
  proof (intro conjI ballI)
    show "inj_on (\<lambda>i. swap_slot (if i = v then f (pages q ! v) else pages q ! i))
       {i \<in> pages_in SWAPPED (page_upd v f q). 0 \<le> swap_slot (if i = v then f (pages q ! v) else pages q ! i)}"
      by (rule inj_upd [where f = "\<lambda>i. swap_slot (pages q ! i)" and A = "{i \<in> pages_in SWAPPED q. 0 \<le> swap_slot (pages q ! i)}" and v = v])
        (use ok(6) assms(5) v in \<open>auto simp: swaps_ok_def pages_in_upd split: if_splits\<close>)
  qed (use ok(6) assms(5) v in \<open>auto simp: swaps_ok_def pages_in_upd split: if_splits\<close>)
  ultimately show ?thesis using ok by (simp add: pages_ok_def)
qed

lemma pages_ok_dirty: "pages_ok q \<Longrightarrow> i < num_pages q \<Longrightarrow> pi_state (pages q ! i) = RESIDENT \<Longrightarrow>
    pages_ok (page_upd i (\<lambda>pg. pg\<lparr>is_dirty := True\<rparr>) q)"
  using pages_okD(5) [of q]
  by (intro page_upd_ok) (auto simp: seqs_ok_def pages_in_def dest: inj_onD)

lemma pages_ok_discard: "pages_ok q \<Longrightarrow> v < num_pages q \<Longrightarrow> pages_ok (page_upd v (\<lambda>pg. pg\<lparr>pi_state := UNMAPPED\<rparr>) q)"
  by (intro page_upd_ok) simp_all

lemma pages_ok_track:
  assumes "pages_ok q" "num_pages q < MAX_PAGES" "page_aligned va" "\<forall>i<num_pages q. pi_va (pages q ! i) \<noteq> va"
  shows "pages_ok (track_page va q)"
proof -
  note ok = pages_okD [OF assms(1)]
  let ?n = "num_pages q" and ?pg = "\<lparr>pi_va = va, pi_state = UNMAPPED, is_dirty = False, pi_seq = 0, swap_slot = -1\<rparr>"
  have sel: "used_slots (track_page va q) = used_slots q" "num_pages (track_page va q) = Suc ?n"
    "pages (track_page va q) = (pages q)[?n := ?pg]"
    "next_fifo_seq (track_page va q) = next_fifo_seq q" "p_killed (track_page va q) = p_killed q"
    "swap_bitmap (track_page va q) = swap_bitmap q" "swap_slots_used (track_page va q) = swap_slots_used q"
    by (simp_all add: track_page_def used_slots_def)
  have n: "?n < length (pages q)" using ok(1) assms(2) by simp
  have nth: "pages (track_page va q) ! i = (if i = ?n then ?pg else pages q ! i)" for i
    using n by (auto simp: sel nth_list_update)
  have same: "pages_in st (track_page va q) = pages_in st q" if "st \<noteq> UNMAPPED" for st
    using that n by (auto simp: pages_in_def sel nth_list_update less_Suc_eq)
  have in_ne: "i \<in> pages_in st q \<Longrightarrow> i \<noteq> ?n" for i st by (auto simp: pages_in_def)
  have "vas_ok (track_page va q)"
    unfolding vas_ok_def nth sel(2)
  proof (intro conjI allI impI)
    show "inj_on (\<lambda>i. pi_va (if i = ?n then ?pg else pages q ! i)) {..<Suc ?n}"
      by (rule inj_upd [where f = "\<lambda>i. pi_va (pages q ! i)" and A = "{..<?n}" and v = ?n])
        (use ok(4) assms(4) in \<open>auto simp: vas_ok_def\<close>)
  qed (use ok(4) assms(3) in \<open>auto simp: vas_ok_def\<close>)
  moreover have "seqs_ok (track_page va q)" by (rule seqs_same [OF ok(5)]) (auto simp: same nth sel(4) dest: in_ne)
  moreover have "swaps_ok (track_page va q)" by (rule swaps_sub [OF ok(6)]) (auto simp: same nth sel(1,5) dest: in_ne)
  ultimately show ?thesis using ok assms(2) by (simp add: pages_ok_def sel)
qed

lemma set_slot_ok:
  assumes "pages_ok q" "k < MAX_SWAP_SLOTS" "k \<notin> used_slots q"
  shows "pages_ok (set_slot k q)" "used_slots (set_slot k q) = insert k (used_slots q)"
proof -
  note ok = pages_okD [OF assms(1)]
  show u: "used_slots (set_slot k q) = insert k (used_slots q)" using assms(2) ok(3) by (intro used_slots_set)
  have "pages_in st (set_slot k q) = pages_in st q" for st by (simp add: pages_in_def)
  then show "pages_ok (set_slot k q)"
    using ok assms(3) u by (auto simp: pages_ok_def vas_ok_def seqs_ok_def swaps_ok_def)
qed

lemma pages_ok_swapout:
  assumes "pages_ok q" "v < num_pages q" "k < MAX_SWAP_SLOTS" "k \<notin> used_slots q"
  shows "pages_ok (page_upd v (\<lambda>pg. pg\<lparr>pi_state := SWAPPED, swap_slot := int k\<rparr>) (set_slot k q))"
proof (rule page_upd_ok)
  show "pages_ok (set_slot k q)" by (rule set_slot_ok [OF assms(1,3,4)])
  show "v < num_pages (set_slot k q)" using assms(2) by simp
qed (use assms pages_okD(6) [OF assms(1)] set_slot_ok [OF assms(1,3,4)] in \<open>auto simp: swaps_ok_def pages_in_def\<close>)

lemma map_page_sel [simp]:
  "used_slots (map_page i q) = used_slots q" "num_pages (map_page i q) = num_pages q" "p_killed (map_page i q) = p_killed q"
  "swap_bitmap (map_page i q) = swap_bitmap q" "swap_slots_used (map_page i q) = swap_slots_used q"
  by (simp_all add: map_page_def used_slots_def)

lemma next_seq_ok: "pages_ok q \<Longrightarrow> pages_ok (q\<lparr>next_fifo_seq := next_fifo_seq q + 1\<rparr>)"
  by (auto simp: pages_ok_def vas_ok_def seqs_ok_def swaps_ok_def pages_in_def used_slots_def)

lemma pages_ok_map: "pages_ok q \<Longrightarrow> i < num_pages q \<Longrightarrow> pages_ok (map_page i q)"
  unfolding map_page_def using pages_okD(5) [of q]
  by (intro page_upd_ok next_seq_ok) (auto simp: seqs_ok_def pages_in_def)

text \<open>A page comes back: its slot is free again and no other page has it.\<close>

lemma unswap_ok:
  assumes "pages_ok q" "i \<in> pages_in SWAPPED q"
  shows "pages_ok ((unswap_page i q)\<lparr>p_killed := True\<rparr>)" "pages_ok (map_page i (unswap_page i q))"
proof -
  note ok = pages_okD [OF assms(1)]
  let ?k = "swap_slot (pages q ! i)"
  let ?r = "page_upd i (\<lambda>pg. pg\<lparr>pi_state := UNMAPPED, swap_slot := -1\<rparr>) q"
  have i: "i < num_pages q" "pi_state (pages q ! i) = SWAPPED" "i < length (pages q)"
    using assms(2) ok(8) by (auto simp: pages_in_def)
  text \<open>The state with the slot given back and the page unmapped satisfies the invariant.\<close>
  have r: "pages_ok ?r" using i by (intro page_upd_ok assms(1)) simp_all
  have u: "used_slots (clear_slot ?k ?r) = (if 0 \<le> ?k then used_slots q - {nat ?k} else used_slots q)"
    using used_slots_clear [of ?r ?k] ok(3) by simp
  have own: "0 \<le> swap_slot (pages q ! j) \<Longrightarrow> 0 \<le> ?k \<Longrightarrow> swap_slot (pages q ! j) \<noteq> ?k" if "j \<in> pages_in SWAPPED q" "j \<noteq> i" for j
    using ok(6) that assms(2) by (auto simp: swaps_ok_def dest: inj_onD)
  have in_r: "j \<in> pages_in SWAPPED ?r \<Longrightarrow> j \<in> pages_in SWAPPED q \<and> j \<noteq> i" for j
    using i by (auto simp: pages_in_upd split: if_splits)
  have sel: "pages (clear_slot ?k ?r) = pages ?r" "pages_in st (clear_slot ?k ?r) = pages_in st ?r" "p_killed (clear_slot ?k ?r) = p_killed q" for st
    by (simp_all add: pages_in_def)
  have slot_r: "swap_slot (pages ?r ! j) = swap_slot (pages q ! j)" if "j \<in> pages_in SWAPPED ?r" for j
    using in_r [OF that] by simp
  have "swaps_ok (clear_slot ?k ?r)"
  proof (rule swaps_sub [OF ok(6)])
    fix j assume "j \<in> pages_in SWAPPED (clear_slot ?k ?r)"
    then have j: "j \<in> pages_in SWAPPED ?r" by (simp only: sel)
    have "0 \<le> swap_slot (pages q ! j) \<Longrightarrow> 0 \<le> ?k \<Longrightarrow> nat (swap_slot (pages q ! j)) \<noteq> nat ?k"
      using own in_r [OF j] by (simp add: eq_nat_nat_iff)
    then show "j \<in> pages_in SWAPPED q \<and> swap_slot (pages (clear_slot ?k ?r) ! j) = swap_slot (pages q ! j) \<and>
      (0 \<le> swap_slot (pages q ! j) \<longrightarrow> nat (swap_slot (pages q ! j)) \<in> used_slots q \<longrightarrow>
        nat (swap_slot (pages q ! j)) \<in> used_slots (clear_slot ?k ?r))"
      using in_r [OF j] slot_r [OF j] unfolding sel(1) u by auto
  qed (simp add: sel(3))
  moreover have "swap_slots_used (clear_slot ?k ?r) = int (card (used_slots (clear_slot ?k ?r)))"
    using ok(7) clear_slots_used [of ?k ?r] u card_gt_0_iff [of "used_slots q"]
    by (auto simp: of_nat_diff)
  moreover have "vas_ok (clear_slot ?k ?r)" "seqs_ok (clear_slot ?k ?r)"
    using pages_okD(4,5) [OF r] unfolding vas_ok_def seqs_ok_def sel by simp_all
  ultimately have c: "pages_ok (clear_slot ?k ?r)"
    using pages_okD(1-3) [OF r] by (simp add: pages_ok_def)
  have cr: "clear_slot ?k ?r = page_upd i (\<lambda>pg. pg\<lparr>pi_state := UNMAPPED, swap_slot := -1\<rparr>) (clear_slot ?k q)"
    by (simp add: clear_slot_def page_upd_def)
  have "pages_ok (page_upd i (\<lambda>pg. (pages q ! i)\<lparr>swap_slot := -1\<rparr>) ((clear_slot ?k ?r)\<lparr>p_killed := True\<rparr>))"
    by (rule page_upd_ok [OF pages_ok_kill [OF c]]) (use i in \<open>auto simp: pages_in_def nth_list_update\<close>)
  also have "page_upd i (\<lambda>pg. (pages q ! i)\<lparr>swap_slot := -1\<rparr>) ((clear_slot ?k ?r)\<lparr>p_killed := True\<rparr>) = (unswap_page i q)\<lparr>p_killed := True\<rparr>"
    unfolding cr unswap_page_def by (simp add: page_upd_def)
  finally show "pages_ok ((unswap_page i q)\<lparr>p_killed := True\<rparr>)" .
  have "pages_ok (map_page i (clear_slot ?k ?r))" using i by (intro pages_ok_map c) simp
  also have "map_page i (clear_slot ?k ?r) = map_page i (unswap_page i q)"
    using i unfolding cr unswap_page_def map_page_def by (simp add: page_upd_def)
  finally show "pages_ok (map_page i (unswap_page i q))" .
qed

lemma page_op_ok: "page_op q q' \<Longrightarrow> pages_ok q \<Longrightarrow> pages_ok q'"
  by (induction rule: page_op.induct)
    (auto elim!: evicts.cases simp: pages_in_def
      intro: pages_ok_kill pages_ok_dirty pages_ok_track pages_ok_discard pages_ok_swapout pages_ok_map unswap_ok dest: oldest_less)

lemma pager_ok: "page_op\<^sup>*\<^sup>* q q' \<Longrightarrow> pages_ok q \<Longrightarrow> pages_ok q'"
  by (induction rule: rtranclp_induct) (auto intro: page_op_ok)

subsection \<open>The oldest page\<close>

text \<open>The scan starts from \<open>__INT_MAX__\<close>, so it finds pages with smaller numbers only.\<close>

lemma find_victim_None:
  assumes "pages_ok q" "next_fifo_seq q \<le> 2147483647"
  shows "find_victim q = None \<longleftrightarrow> pages_in RESIDENT q = {}"
proof
  assume n: "find_victim q = None"
  have "pi_state (pages q ! i) \<noteq> RESIDENT" if i: "i < num_pages q" for i
  proof
    assume r: "pi_state (pages q ! i) = RESIDENT"
    have "pages q ! i \<in> set (take (num_pages q) (pages q))"
      using i pages_okD(8) [OF assms(1) i] by (auto simp: in_set_conv_nth)
    then have "2147483647 \<le> pi_seq (pages q ! i)"
      using victim_scan_least(1) [OF n [unfolded find_victim_def]] r by blast
    moreover have "pi_seq (pages q ! i) < next_fifo_seq q"
      using pages_okD(5) [OF assms(1)] i r by (simp add: seqs_ok_def pages_in_def)
    ultimately show False using assms(2) by simp
  qed
  then show "pages_in RESIDENT q = {}" by (auto simp: pages_in_def)
next
  assume "pages_in RESIDENT q = {}"
  then show "find_victim q = None"
    using find_victim_oldest [of q] pages_okD(1,2) [OF assms(1)] by (cases "find_victim q") (auto simp: oldest_def)
qed

lemma oldest_unique:
  assumes "pages_ok q" "oldest q v"
  shows "v \<in> pages_in RESIDENT q" "j \<in> pages_in RESIDENT q \<Longrightarrow> j \<noteq> v \<Longrightarrow> pi_seq (pages q ! v) < pi_seq (pages q ! j)"
proof -
  show v: "v \<in> pages_in RESIDENT q" using assms(2) by (simp add: oldest_def)
  assume j: "j \<in> pages_in RESIDENT q" "j \<noteq> v"
  then have "pi_seq (pages q ! v) \<noteq> pi_seq (pages q ! j)"
    using pages_okD(5) [OF assms(1)] v by (auto simp: seqs_ok_def dest: inj_onD)
  then show "pi_seq (pages q ! v) < pi_seq (pages q ! j)" using assms(2) j(1) by (force simp: oldest_def)
qed

lemma may_fail_reason:
  assumes "may_fail p s" "pages_ok (pget p s)" "next_fifo_seq (pget p s) \<le> 2147483647"
  shows "pages_in RESIDENT (pget p s) = {} \<or>
    (\<exists>v. oldest (pget p s) v \<and> (is_dirty (pi_get p v s) \<or> page_entry p (pi_va (pi_get p v s)) s AND PTE_V = 0))"
proof (cases "find_victim (pget p s)")
  case None
  then show ?thesis using find_victim_None [OF assms(2,3)] by simp
next
  case (Some v)
  have "num_pages (pget p s) \<le> length (pages (pget p s))" using pages_okD(1,2) [OF assms(2)] by simp
  with Some have "oldest (pget p s) v" by (rule find_victim_oldest)
  moreover have "is_dirty (pi_get p v s) \<or> page_entry p (pi_va (pi_get p v s)) s AND PTE_V = 0"
    using assms(1) Some by (auto simp: may_fail_def page_entry_def split: if_splits)
  ultimately show ?thesis by blast
qed

subsection \<open>What a page fault does\<close>

lemma pages_ok_wf: "pages_ok (pget p s) \<Longrightarrow> p < length (procs s) \<Longrightarrow> slots_wf p s"
  using pages_okD(1,2,3) [of "pget p s"] by (simp add: slots_wf_def pgv_nth)

lemma came_strip:
  assumes "came p s t R" "p < length (procs s)"
  shows "length (procs t) = length (procs s)" "R (strip (pget p t))"
    "\<And>j. j < length (procs s) \<Longrightarrow> j \<noteq> p \<Longrightarrow> strip (pget j t) = strip (pget j s)"
proof -
  obtain q' where q': "pgv t = (pgv s)[p := q']" "R q'" using assms(1) by (auto simp: came_def)
  show l: "length (procs t) = length (procs s)" by (rule in_table [OF q'(1)])
  have n: "strip (pget j t) = pgv t ! j" if "j < length (procs s)" for j using that l by (simp add: pgv_nth)
  show "R (strip (pget p t))" using q' n [OF assms(2)] assms(2) by simp
  show "strip (pget j t) = strip (pget j s)" if "j < length (procs s)" "j \<noteq> p" for j
    using n [OF that(1)] q'(1) that by (simp add: pgv_nth)
qed

lemma fault_record:
  fixes s :: "'a kfiles_scheme"
  assumes "cur s = Some p" "p < length (procs s)" "pages_ok (pget p s)"
    and "handle_page_fault va access from_user s = Some (r, t)"
  shows "came p s t (fault_step (freelist s = 0) (fault_kind_of p (PGROUNDDOWN va) access s) (PGROUNDDOWN va) from_user
    (strip (pget p s)) r)"
  using postD [OF handle_page_fault_post [OF assms(1) pages_ok_wf [OF assms(3,2)] refl] assms(4)] assms(2)
  by (simp add: pgv_nth)

text \<open>The demonstration: the first write to the page of \<open>demo_process\<close>.\<close>

lemma demo_fields:
  "length (pages demo_process) = 512" "num_pages demo_process = 1" "swap_bitmap demo_process = replicate 16 0"
  "pages demo_process ! 0 = demo_page" "next_fifo_seq demo_process = 2" "swap_slots_used demo_process = 0"
  "p_pagetable demo_process = 0x87100000" "text_start demo_process = 0" "text_end demo_process = 0"
  by (simp_all add: demo_process_def demo_proc_def init_proc_def)

lemma demo_unused: "used_slots q = {}" if "swap_bitmap q = replicate 16 0"
  using that by (auto simp: used_slots_def slot_used_bit MAX_SWAP_SLOTS_def)

lemma demo_pages_ok: "pages_ok demo_process"
proof -
  have r: "pages_in st demo_process = (if st = RESIDENT then {0} else {})" for st
    by (auto simp: pages_in_def demo_fields demo_page_def)
  show ?thesis
    using demo_unused [of demo_process] unfolding pages_ok_def vas_ok_def seqs_ok_def swaps_ok_def r
    by (simp add: demo_fields MAX_PAGES_def demo_page_def page_aligned_def PGSIZE_def lessThan_Suc)
qed

lemma demo_state_sel [simp]:
  "mem demo_state = demo_memory" "kend demo_state = 0x80022000" "freelist demo_state = 0"
  "procs demo_state = [demo_process, demo_proc]" "cur demo_state = Some 0"
  by (simp_all add: demo_state_def)

lemma demo_write_fault:
  "handle_page_fault 0x4004 1 True demo_state = Some (0, pi_set 0 0 (\<lambda>pg. pg\<lparr>is_dirty := True\<rparr>)
     (demo_state\<lparr>mem := st64 0x87102020 (0x21c40c13 OR PTE_W) demo_memory\<rparr>))"
proof -
  have f: "find_page_info 0 0x4000 demo_state = Some 0"
    by (simp add: find_page_info_def demo_fields demo_page_def PGROUNDDOWN_def PGSIZE_def)
  have g: "PGROUNDDOWN 0x4004 = 0x4000" by (simp add: PGROUNDDOWN_def PGSIZE_def)
  have w: "walk 0x87100000 0x4000 False demo_state = Some (0x87102020, demo_state)" by (simp add: demo_walk)
  have pg: "pi_get 0 0 demo_state = demo_page" by (simp add: pi_get_def demo_fields)
  show ?thesis
    by (simp add: handle_page_fault_def myproc_def g demo_fields w demo_memory_cells MAXVA_def PTE_V_def PTE_U_def
        pf_present_def f pg) (simp add: demo_page_def)
qed

lemma demo_evict: "\<exists>t. evict_page_fifo 0 demo_state = Some (0, t)"
proof -
  have v: "find_victim demo_process = Some 0" by (simp add: find_victim_def demo_process_def demo_page_def)
  let ?u = "kprint (VICTIM (p_pid demo_process) 0x4000 1) (kprint (MEMFULL (p_pid demo_process)) demo_state)"
  have c: "mem (evict_clean 0 0 0x4000 ?u) = demo_memory" "kend (evict_clean 0 0 0x4000 ?u) = 0x80022000"
    "freelist (evict_clean 0 0 0x4000 ?u) = 0" "p_pagetable (pget 0 (evict_clean 0 0 0x4000 ?u)) = 0x87100000"
    by (simp_all add: evict_clean_def Let_def pi_set_def pset_def demo_fields)
  obtain t where "uvmunmap 0x87100000 0x4000 1 True (evict_clean 0 0 0x4000 ?u) = Some t" using demo_unmap c by blast
  then have "evict_page_fifo 0 demo_state = Some (0, t)"
    by (simp add: evict_page_fifo_def v pi_get_def demo_fields demo_page_def demo_walk demo_memory_cells PTE_V_def c)
  then show ?thesis by blast
qed



lemma init_pages_ok: "pages_ok (init_proc ra q)"
proof -
  have "pages_in st (init_proc ra q) = {}" for st by (simp add: pages_in_def init_proc_def)
  then show ?thesis
    using demo_unused [of "init_proc ra q"] unfolding pages_ok_def vas_ok_def seqs_ok_def swaps_ok_def
    by (simp add: init_proc_def)
qed

lemma fork_pages_ok:
  assumes ok: "pages_ok q'"
  shows "pages_ok (fork_pages q' (fork_fields q' (init_proc ra q)))"
proof -
  let ?c = "fork_pages q' (fork_fields q' (init_proc ra q))"
  have c: "num_pages ?c = num_pages q'" "length (pages ?c) = MAX_PAGES" "swap_bitmap ?c = replicate 16 0"
    "next_fifo_seq ?c = next_fifo_seq q'" "swap_slots_used ?c = 0"
    "i < num_pages q' \<Longrightarrow> pages ?c ! i = fork_page (pages q' ! i)" for i
    using pages_okD [OF ok] by (simp_all add: fork_pages_def fork_fields_def init_proc_def nth_append)
  have in_c: "i \<in> pages_in RESIDENT ?c \<longleftrightarrow> i \<in> pages_in RESIDENT q'" "pages_in SWAPPED ?c = {}" for i
    using c(1,6) by (auto simp: pages_in_def fork_page_def split: if_splits)
  have "vas_ok ?c"
    using pages_okD(4) [OF ok] c(1,6) inj_on_cong [of "{..<num_pages q'}" "\<lambda>i. pi_va (pages ?c ! i)" "\<lambda>i. pi_va (pages q' ! i)"]
    by (simp add: vas_ok_def fork_page_def)
  moreover have "seqs_ok ?c"
    by (rule seqs_same [OF pages_okD(5) [OF ok] c(4)]) (auto simp: in_c c(6) fork_page_def dest: pages_in_less)
  ultimately show ?thesis
    using pages_okD(2) [OF ok] demo_unused [of ?c] c in_c(2) by (simp add: pages_ok_def swaps_ok_def)
qed

lemma fault_pages_ok:
  fixes s :: "'a kfiles_scheme"
  assumes h: "cur s = Some p" "p < length (procs s)" "\<forall>j<length (procs s). pages_ok (pget j s)"
    "handle_page_fault va access from_user s = Some (r, t)"
  shows "\<forall>j<length (procs t). pages_ok (pget j t)"
proof (intro allI impI)
  have ok: "pages_ok (pget p s)" using h(2,3) by blast
  note st = came_strip [OF fault_record [OF h(1,2) ok h(4)] h(2)]
  have ops: "page_op\<^sup>*\<^sup>* (strip (pget p s)) (strip (pget p t))"
    using fault_step_op [OF st(2) page_aligned_PGROUNDDOWN] pages_okD(1,2) [OF ok] by simp
  fix j assume j: "j < length (procs t)"
  show "pages_ok (pget j t)"
  proof (cases "j = p")
    case True
    have "pages_ok (strip (pget p s))" using h(2,3) by simp
    from pager_ok [OF ops this] True show ?thesis by simp
  next
    case False
    then have "pages_ok (strip (pget j t))" using st(1,3) h(3) j by simp
    then show ?thesis by simp
  qed
qed

text \<open>C9. The invariant of the page records.  A process fresh from \<open>allocproc\<close> satisfies it, the
  child of a \<open>fork\<close> does if its parent does, and every page fault keeps it for every
  process: one record per page, sequence numbers below the next one and no two alike,
  and for every swapped page a slot of its own that is marked in use, the counter of
  slots being the number of marks.\<close>

theorem page_records_invariant:
  fixes s :: "'a kfiles_scheme"
  shows "pages_ok (init_proc ra q) \<and>
    (pages_ok q' \<longrightarrow> pages_ok (fork_pages q' (fork_fields q' (init_proc ra q)))) \<and>
    (cur s = Some p \<and> p < length (procs s) \<and> (\<forall>j<length (procs s). pages_ok (pget j s)) \<and>
      handle_page_fault va access from_user s = Some (r, t) \<longrightarrow> (\<forall>j<length (procs t). pages_ok (pget j t)))"
  using init_pages_ok fork_pages_ok fault_pages_ok by blast

theorem page_records_invariant_witness:
  "\<exists>t. handle_page_fault 0x4004 1 True demo_state = Some (0, t) \<and> pages_ok (pget 0 t) \<and>
     pages_ok (fork_pages (pget 0 t) (fork_fields (pget 0 t) (init_proc 0 demo_proc)))"
proof -
  let ?t = "pi_set 0 0 (\<lambda>pg. pg\<lparr>is_dirty := True\<rparr>) (demo_state\<lparr>mem := st64 0x87102020 (0x21c40c13 OR PTE_W) demo_memory\<rparr>)"
  have "pages_ok demo_proc" unfolding demo_proc_def by (rule init_pages_ok)
  then have "\<forall>j<length (procs demo_state). pages_ok (pget j demo_state)" using demo_pages_ok by (auto simp: less_Suc_eq nth_Cons')
  then have "\<forall>j<length (procs ?t). pages_ok (pget j ?t)"
    using page_records_invariant [of 0 demo_proc demo_proc demo_state 0 "0x4004" 1 True 0 ?t] demo_write_fault by simp
  moreover have "0 < length (procs ?t)" by (simp add: pi_set_def pset_def)
  ultimately have "pages_ok (pget 0 ?t)" by blast
  then show ?thesis
    using demo_write_fault page_records_invariant [of 0 demo_proc "pget 0 ?t"] by blast
qed

text \<open>C31. Eviction is FIFO.  \<open>evict_page_fifo\<close> takes the resident page with the smallest sequence
  number, which is the page mapped longest ago: that page is resident no more and all others
  stay.  A clean page is dropped, a dirty one gets a swap slot nobody had.  It fails, with a
  negative value and no record changed, only when no page is resident, when the oldest page is
  not mapped, or when it is dirty (and then could not be written to a slot).\<close>

theorem eviction_is_fifo:
  fixes s :: "'a kfiles_scheme"
  assumes "p < length (procs s)" "pages_ok (pget p s)" "next_fifo_seq (pget p s) \<le> 2147483647"
    and "evict_page_fifo p s = Some (r, t)"
  shows "r < 0 \<and> strip (pget p t) = strip (pget p s) \<and>
      (pages_in RESIDENT (pget p s) = {} \<or>
       (\<exists>v. oldest (pget p s) v \<and> (is_dirty (pi_get p v s) \<or> page_entry p (pi_va (pi_get p v s)) s AND PTE_V = 0))) \<or>
    r = 0 \<and> (\<exists>v\<in>pages_in RESIDENT (pget p s).
      (\<forall>j\<in>pages_in RESIDENT (pget p s). j \<noteq> v \<longrightarrow> pi_seq (pi_get p v s) < pi_seq (pi_get p j s)) \<and>
      pages_in RESIDENT (pget p t) = pages_in RESIDENT (pget p s) - {v} \<and>
      (if is_dirty (pi_get p v s)
       then pi_state (pi_get p v t) = SWAPPED \<and> nat (swap_slot (pi_get p v t)) \<notin> used_slots (pget p s) \<and>
         used_slots (pget p t) = insert (nat (swap_slot (pi_get p v t))) (used_slots (pget p s))
       else pi_state (pi_get p v t) = UNMAPPED \<and> used_slots (pget p t) = used_slots (pget p s)))"
proof -
  let ?q = "pget p s"
  note ok = pages_okD [OF assms(2)]
  from postD [OF evict_effect [OF pages_ok_wf [OF assms(2,1)], of "\<lambda>(r, t). r < 0 \<and> may_fail p s \<and> pgv t = pgv s \<or>
      r = 0 \<and> (\<exists>q'. evicts (pgv s ! p) q' \<and> pgv t = (pgv s)[p := q'])"] assms(4)]
  consider "r < 0" "may_fail p s" "pgv t = pgv s" | q' where "r = 0" "evicts (pgv s ! p) q'" "pgv t = (pgv s)[p := q']" by auto
  then show ?thesis
  proof cases
    case 1
    then have "strip (pget p t) = strip (pget p s)" using assms(1) pgv_length [OF 1(3)] by (simp add: pgv_nth [symmetric])
    then show ?thesis using may_fail_reason [OF 1(2) assms(2,3)] 1(1) by blast
  next
    case 2
    have "strip (pget p t) = q'" using 2(3) in_table [OF 2(3)] assms(1) by (simp add: pgv_nth [symmetric])
    then have t: "pages (pget p t) = pages q'" "num_pages (pget p t) = num_pages q'" "used_slots (pget p t) = used_slots q'" by auto
    have strip_oldest: "oldest (strip ?q) v = oldest ?q v" for v by (simp add: oldest_def pages_in_def)
    have res: "pages_in RESIDENT (pget p t) = pages_in RESIDENT ?q - {v}" if "num_pages q' = num_pages ?q" "pages q' = (pages ?q)[v := pg]"
      "pi_state pg \<noteq> RESIDENT" "oldest ?q v" for pg v
      using that ok(8) [of v] by (auto simp: pages_in_def t nth_list_update dest: oldest_less split: if_splits)
    have vl: "oldest ?q v \<Longrightarrow> v < length (pages ?q)" for v using ok(8) by (auto dest: oldest_less)
    have ev: "evicts (strip ?q) q'" using 2(2) assms(1) by (simp add: pgv_nth)
    then show ?thesis
    proof cases
      case (discard v)
      then have v: "oldest ?q v" "\<not> is_dirty (pi_get p v s)" by (simp_all add: pi_get_def strip_oldest)
      note least = oldest_unique [OF assms(2) v(1)]
      show ?thesis using 2(1) v least res discard vl [OF v(1)] by (intro disjI2 conjI bexI [of _ v]) (simp_all add: pi_get_def t)
    next
      case (swapout v k)
      then have v: "oldest ?q v" "is_dirty (pi_get p v s)" by (simp_all add: pi_get_def strip_oldest)
      note least = oldest_unique [OF assms(2) v(1)]
      show ?thesis using 2(1) v least res swapout vl [OF v(1)] ok(3) used_slots_set [of "strip ?q" k]
        by (intro disjI2 conjI bexI [of _ v]) (simp_all add: pi_get_def t)
    qed
  qed
qed

theorem eviction_is_fifo_witness:
  "\<exists>t. evict_page_fifo 0 demo_state = Some (0, t) \<and> pages_in RESIDENT (pget 0 t) = {}"
proof -
  obtain t where t: "evict_page_fifo 0 demo_state = Some (0, t)" using demo_evict by blast
  have r: "pages_in RESIDENT demo_process = {0}" by (auto simp: pages_in_def demo_fields demo_page_def)
  have "is_dirty (pi_get 0 0 demo_state) = False" by (simp add: pi_get_def demo_fields demo_page_def)
  then show ?thesis
    using eviction_is_fifo [OF _ _ _ t] t demo_pages_ok by (simp add: demo_fields r)
qed

end
