(* ===== verification/UserCopy.thy ===== *)
theory UserCopy
  imports Demo PageTableOps
begin

section \<open>User copies over mapped pages\<close>

text \<open>
  What \<open>copyin\<close> and \<open>copyout\<close> do when the user range is mapped: \<open>uaddr\<close> is the physical
  address of a user address, and a range is readable when every byte's page has a valid
  user leaf.  The copies are proved for ranges of any length, page by page.
\<close>

definition uaddr :: "memory \<Rightarrow> u64 \<Rightarrow> u64 \<Rightarrow> u64" where
  "uaddr m pt a = PTE2PA (leaf m pt (PGROUNDDOWN a)) + (a - PGROUNDDOWN a)"

definition ureadable :: "memory \<Rightarrow> u64 \<Rightarrow> u64 \<Rightarrow> bool" where
  "ureadable m pt a \<longleftrightarrow> PGROUNDDOWN a < TRAPFRAME \<and> leaf m pt (PGROUNDDOWN a) AND PTE_V \<noteq> 0 \<and>
     leaf m pt (PGROUNDDOWN a) AND PTE_U \<noteq> 0"

definition uwritable :: "memory \<Rightarrow> u64 \<Rightarrow> u64 \<Rightarrow> bool" where
  "uwritable m pt a \<longleftrightarrow> ureadable m pt a \<and> leaf m pt (PGROUNDDOWN a) AND PTE_W \<noteq> 0"

subsection \<open>Addresses within a page\<close>

lemma page_offset: "unat (a - PGROUNDDOWN a) = unat a mod 4096"
proof -
  have "unat (a - PGROUNDDOWN a) = unat a - unat a div 4096 * 4096"
    by (simp add: unat_sub [OF PGROUNDDOWN_le] unat_PGROUNDDOWN)
  then show ?thesis by (simp add: minus_div_mult_eq_mod)
qed

lemma in_page:
  assumes "unat a mod 4096 + k < 4096"
  shows "PGROUNDDOWN (a + of_nat k) = PGROUNDDOWN a" "a + of_nat k - PGROUNDDOWN (a + of_nat k) = a - PGROUNDDOWN a + of_nat k"
proof -
  have k: "unat (of_nat k :: u64) = k" using assms by (simp add: unat_of_nat)
  have "unat (a - PGROUNDDOWN a + of_nat k) < 4096"
    using assms page_offset [of a] k by (simp add: unat_plus_if' split: if_splits)
  from PGROUNDDOWN_add [OF page_aligned_PGROUNDDOWN this]
  have "PGROUNDDOWN (PGROUNDDOWN a + (a - PGROUNDDOWN a + of_nat k)) = PGROUNDDOWN a" .
  then show p: "PGROUNDDOWN (a + of_nat k) = PGROUNDDOWN a" by simp
  then show "a + of_nat k - PGROUNDDOWN (a + of_nat k) = a - PGROUNDDOWN a + of_nat k" by simp
qed

lemma uaddr_page: "unat a mod 4096 + k < 4096 \<Longrightarrow> uaddr m pt (a + of_nat k) = uaddr m pt a + of_nat k"
  by (simp add: uaddr_def in_page(1) in_page(2) add.assoc)

lemma chunk_unat: "unat (page_chunk a len) = min (4096 - unat a mod 4096) (unat len)"
proof -
  have le: "a - PGROUNDDOWN a \<le> 4096" using page_offset [of a] by (simp add: word_le_nat_alt less_imp_le)
  have "unat (4096 - (a - PGROUNDDOWN a)) = 4096 - unat a mod 4096"
    using unat_sub [OF le] page_offset [of a] by simp
  then show ?thesis by (simp add: page_chunk_def Let_def PGSIZE_def word_less_nat_alt min_def)
qed

lemma next_page: "PGROUNDDOWN a + PGSIZE = a + of_nat (4096 - unat a mod 4096)"
proof -
  have "of_nat (unat a mod 4096) = a - PGROUNDDOWN a"
    unfolding page_offset [of a, symmetric] by simp
  moreover have "(of_nat (4096 - unat a mod 4096) :: u64) = 4096 - of_nat (unat a mod 4096)"
    by (simp add: of_nat_diff less_imp_le)
  ultimately show ?thesis by (simp add: PGSIZE_def)
qed

subsection \<open>Frames of readable pages\<close>

lemma readable_frame:
  assumes "aspace s pt ps" "ureadable (mem s) pt a"
  shows "frame_ok s (PTE2PA (leaf (mem s) pt (PGROUNDDOWN a)))" "PTE2PA (leaf (mem s) pt (PGROUNDDOWN a)) \<notin> tables (mem s) pt"
    "PTE2PA (leaf (mem s) pt (PGROUNDDOWN a)) \<notin> set ps" "PTE2PA (leaf (mem s) pt (PGROUNDDOWN a)) \<noteq> 0"
proof -
  have "uframe (mem s) pt (PGROUNDDOWN a) = Some (PTE2PA (leaf (mem s) pt (PGROUNDDOWN a)))"
    using assms(2) by (simp add: uframe_def ureadable_def)
  from aspace_frame [OF assms(1) _ this] assms(2) have f: "frame_ok s (PTE2PA (leaf (mem s) pt (PGROUNDDOWN a)))"
    "PTE2PA (leaf (mem s) pt (PGROUNDDOWN a)) \<notin> tables (mem s) pt" "PTE2PA (leaf (mem s) pt (PGROUNDDOWN a)) \<notin> set ps"
    by (simp_all add: ureadable_def)
  then show "frame_ok s (PTE2PA (leaf (mem s) pt (PGROUNDDOWN a)))" "PTE2PA (leaf (mem s) pt (PGROUNDDOWN a)) \<notin> tables (mem s) pt"
    "PTE2PA (leaf (mem s) pt (PGROUNDDOWN a)) \<notin> set ps" by simp_all
  show "PTE2PA (leaf (mem s) pt (PGROUNDDOWN a)) \<noteq> 0"
    using frame_ok_nonzero [OF _ f(1)] assms(1) by (auto simp: aspace_def vm_inv_def free_pages_def)
qed

lemma uaddr_frame:
  assumes "aspace s pt ps" "ureadable (mem s) pt a"
  shows "PGROUNDDOWN (uaddr (mem s) pt a) = PTE2PA (leaf (mem s) pt (PGROUNDDOWN a))"
  unfolding uaddr_def
  by (rule PGROUNDDOWN_add) (use readable_frame(1) [OF assms] page_offset [of a] in simp_all)

lemma uaddr_inj:
  assumes "aspace s pt ps" "ureadable (mem s) pt a" "ureadable (mem s) pt b" "uaddr (mem s) pt a = uaddr (mem s) pt b"
  shows "a = b"
proof -
  let ?f = "\<lambda>a. PTE2PA (leaf (mem s) pt (PGROUNDDOWN a))"
  have f: "?f a = ?f b" using uaddr_frame [OF assms(1,2)] uaddr_frame [OF assms(1,3)] assms(4) by simp
  have "uframe (mem s) pt (PGROUNDDOWN a) = Some (?f b)" "uframe (mem s) pt (PGROUNDDOWN b) = Some (?f b)"
    using assms(2,3) f by (simp_all add: uframe_def ureadable_def)
  then have v: "same_vpn (PGROUNDDOWN a) (PGROUNDDOWN b)"
    using aspace_inj [OF assms(1)] assms(2,3) by (simp add: ureadable_def)
  have p: "PGROUNDDOWN a = PGROUNDDOWN b"
    using same_vpn_iff [THEN iffD1, OF _ _ _ _ v] assms(2,3) TRAPFRAME_MAXVA by (simp add: ureadable_def)
  then show ?thesis using assms(4) by (simp add: uaddr_def)
qed

lemma walk_readable:
  assumes "aspace s pt ps" "ureadable (mem s) pt a"
  obtains pte where "walk pt (PGROUNDDOWN a) False s = Some (pte, s)" "pte \<noteq> 0" "ld64 (mem s) pte = leaf (mem s) pt (PGROUNDDOWN a)"
proof -
  let ?va = "PGROUNDDOWN a"
  have va: "?va < MAXVA" using assms(2) TRAPFRAME_MAXVA by (simp add: ureadable_def)
  have wf: "pt_wf s pt" "0 < kend s" using aspace_inv [OF assms(1)] by (simp_all add: vm_inv_def free_pages_def)
  obtain t where t: "tbl0 (mem s) pt ?va = Some t" using assms(2) by (cases "tbl0 (mem s) pt ?va") (auto simp: ureadable_def leaf_def)
  show ?thesis
    by (rule that [of "pte_addr t 0 ?va"])
      (use walk_lookup [OF va, of pt s] t pte_addr_nonzero [OF wf tables_tbl0 [OF t]] in \<open>simp_all add: leaf_def pte_at_def\<close>)
qed

lemma user_page_readable:
  assumes "aspace s pt ps" "ureadable (mem s) pt a"
  shows "user_page pt (PGROUNDDOWN a) s = Some (PTE2PA (leaf (mem s) pt (PGROUNDDOWN a)), s)"
proof -
  have va: "\<not> MAXVA \<le> PGROUNDDOWN a" using assms(2) TRAPFRAME_MAXVA [of "PGROUNDDOWN a"] by (auto simp: ureadable_def dest: leD)
  obtain pte where "walk pt (PGROUNDDOWN a) False s = Some (pte, s)" "pte \<noteq> 0" "ld64 (mem s) pte = leaf (mem s) pt (PGROUNDDOWN a)"
    using walk_readable [OF assms] .
  then have "walkaddr pt (PGROUNDDOWN a) s = Some (PTE2PA (leaf (mem s) pt (PGROUNDDOWN a)))"
    using assms(2) va by (simp add: walkaddr_def ureadable_def Let_def)
  then show ?thesis using readable_frame(4) [OF assms] by (simp add: user_page_def)
qed

subsection \<open>\<open>copyin\<close>\<close>

lemma copyin_0: "copyin pt a 0 dst s = Some (0, dst, s)" by (simp add: copyin.simps)

lemma copyin_ok:
  fixes s :: "'a kfiles_scheme"
  assumes "aspace s pt ps" "\<forall>k<unat len. ureadable (mem s) pt (a + of_nat k)"
  shows "copyin pt a len dst s = Some (0, dst @ map (\<lambda>k. mem s (uaddr (mem s) pt (a + of_nat k))) [0..<unat len], s)"
  using assms(2)
proof (induction "unat len" arbitrary: a len dst rule: less_induct)
  case less
  show ?case
  proof (cases "len = 0")
    case True
    then show ?thesis by (simp add: copyin.simps)
  next
    case False
    then have pos: "0 < unat len" by (simp add: unat_gt_0)
    let ?n = "unat (page_chunk a len)" and ?b = "\<lambda>k. mem s (uaddr (mem s) pt (a + of_nat k))"
    have n: "?n = min (4096 - unat a mod 4096) (unat len)" by (rule chunk_unat)
    have n0: "0 < ?n" "?n \<le> unat len" using pos by (simp_all add: n)
    have ra: "ureadable (mem s) pt a" using less.prems pos by (auto dest: spec [of _ 0])
    have ul: "unat (len - page_chunk a len) = unat len - ?n" using n0 by (simp add: unat_sub word_le_nat_alt)
    have load: "load_bytes (uaddr (mem s) pt a) ?n (mem s) = map ?b [0..<?n]"
      by (auto simp: load_bytes_def uaddr_page n)
    have step: "copyin pt a len dst s = copyin pt (PGROUNDDOWN a + PGSIZE) (len - page_chunk a len) (dst @ map ?b [0..<?n]) s"
      using False user_page_readable [OF assms(1) ra] readable_frame(4) [OF assms(1) ra]
      by (subst copyin.simps) (simp add: word_neq_0_conv [symmetric] load [unfolded uaddr_def [of _ _ a]] Let_def)
    show ?thesis
    proof (cases "?n = unat len")
      case True
      then have "len - page_chunk a len = 0" using ul by (simp add: unat_eq_zero)
      then show ?thesis using step True by (simp add: copyin_0)
    next
      case False
      then have k: "?n = 4096 - unat a mod 4096" using n by (simp add: min_def split: if_splits)
      have nxt: "PGROUNDDOWN a + PGSIZE = a + of_nat ?n" using next_page k by simp
      have "\<forall>j<unat (len - page_chunk a len). ureadable (mem s) pt (a + of_nat ?n + of_nat j)"
      proof (intro allI impI)
        fix j assume "j < unat (len - page_chunk a len)"
        then have "?n + j < unat len" using ul n0 by simp
        from less.prems [rule_format, OF this] show "ureadable (mem s) pt (a + of_nat ?n + of_nat j)" by (simp add: add.assoc)
      qed
      from less.hyps [OF _ this, of "dst @ map ?b [0..<?n]"] step nxt ul n0
      have "copyin pt a len dst s = Some (0, (dst @ map ?b [0..<?n]) @ map (\<lambda>j. ?b (?n + j)) [0..<unat len - ?n], s)"
        by (simp add: add.assoc)
      moreover have "map ?b [0..<?n] @ map (\<lambda>j. ?b (?n + j)) [0..<unat len - ?n] = map ?b [0..<unat len]"
        by (rule nth_equalityI) (use n0 in \<open>auto simp: nth_append\<close>)
      ultimately show ?thesis by simp
    qed
  qed
qed

subsection \<open>\<open>copyout\<close>\<close>

text \<open>A store into user frames leaves the address space as it is.\<close>

lemma aspace_user_store:
  assumes "aspace s pt ps" "\<And>a. PGROUNDDOWN a \<in> tables (mem s) pt \<union> set ps \<Longrightarrow> m a = mem s a"
  shows "aspace (s\<lparr>mem := m\<rparr>) pt ps" "leaf m pt = leaf (mem s) pt" "tables m pt = tables (mem s) pt"
proof -
  have inv: "free_pages s ps" "pt_wf s pt" "tables (mem s) pt \<inter> set ps = {}"
    using aspace_inv [OF assms(1)] by (simp_all add: vm_inv_def)
  have al: "\<forall>t\<in>tables (mem s) pt. page_aligned t" using inv(2) pt_wf_aligned by blast
  have same: "\<forall>a. PGROUNDDOWN a \<in> tables (mem s) pt \<longrightarrow> m a = mem s a" using assms(2) by blast
  show l: "leaf m pt = leaf (mem s) pt" using tables_frame(3) [OF al same] by (rule ext)
  show t: "tables m pt = tables (mem s) pt" by (rule tables_frame_eq(1) [OF al same])
  have "free_pages (s\<lparr>mem := m\<rparr>) ps" by (rule free_pages_frame [OF inv(1)]) (use assms(2) in auto)
  then have "vm_inv (s\<lparr>mem := m\<rparr>) pt ps"
    using inv(2,3) t tables_frame_eq(2) [OF al same] by (simp add: vm_inv_def pt_wf_def frame_ok_def)
  moreover have "uframe m pt = uframe (mem s) pt" by (simp add: uframe_def fun_eq_iff l)
  moreover have "frame_ok (s\<lparr>mem := m\<rparr>) = frame_ok s" by (simp add: frame_ok_def fun_eq_iff)
  ultimately show "aspace (s\<lparr>mem := m\<rparr>) pt ps" using assms(1) unfolding aspace_def by (simp add: t)
qed

lemma store_chunk:
  assumes "aspace s pt ps" "ureadable (mem s) pt a" "n \<le> 4096 - unat a mod 4096" "length bs = n"
  shows "store_bytes (uaddr (mem s) pt a) bs (mem s) x =
    (if \<exists>k<n. x = uaddr (mem s) pt (a + of_nat k) then bs ! unat (x - uaddr (mem s) pt a) else mem s x)"
    "k < n \<Longrightarrow> uaddr (mem s) pt (a + of_nat k) - uaddr (mem s) pt a = of_nat k"
    "k < n \<Longrightarrow> PGROUNDDOWN (uaddr (mem s) pt (a + of_nat k)) = PTE2PA (leaf (mem s) pt (PGROUNDDOWN a))"
proof -
  have p: "unat a mod 4096 < 4096" by simp
  have u: "uaddr (mem s) pt (a + of_nat k) = uaddr (mem s) pt a + of_nat k" if "k < n" for k
    using that assms(3) p by (intro uaddr_page) linarith
  have "unat (x - uaddr (mem s) pt a) < n \<longleftrightarrow> (\<exists>k<n. x = uaddr (mem s) pt a + of_nat k)"
  proof
    assume "unat (x - uaddr (mem s) pt a) < n"
    then show "\<exists>k<n. x = uaddr (mem s) pt a + of_nat k"
      by (intro exI [of _ "unat (x - uaddr (mem s) pt a)"]) simp
  next
    assume "\<exists>k<n. x = uaddr (mem s) pt a + of_nat k"
    then show "unat (x - uaddr (mem s) pt a) < n" using assms(3) by (auto simp: unat_of_nat)
  qed
  then show "store_bytes (uaddr (mem s) pt a) bs (mem s) x =
    (if \<exists>k<n. x = uaddr (mem s) pt (a + of_nat k) then bs ! unat (x - uaddr (mem s) pt a) else mem s x)"
    using u assms(4) by (auto simp: store_bytes_def)
  show "k < n \<Longrightarrow> uaddr (mem s) pt (a + of_nat k) - uaddr (mem s) pt a = of_nat k" by (simp add: u)
  assume k: "k < n"
  have g: "PGROUNDDOWN (a + of_nat k) = PGROUNDDOWN a" using k assms(3) p by (intro in_page) linarith
  have "ureadable (mem s) pt (a + of_nat k)" using assms(2) by (simp add: ureadable_def g)
  from uaddr_frame [OF assms(1) this] show "PGROUNDDOWN (uaddr (mem s) pt (a + of_nat k)) = PTE2PA (leaf (mem s) pt (PGROUNDDOWN a))"
    by (simp add: g)
qed

lemma copyout_nil: "copyout pt a [] s = Some (0, s)" by (simp add: copyout.simps)

lemma copyout_ok:
  fixes s :: "'a kfiles_scheme"
  assumes "aspace s pt ps" "length src < 2 ^ 64" "\<forall>k<length src. uwritable (mem s) pt (a + of_nat k)"
  shows "\<exists>m. copyout pt a src s = Some (0, s\<lparr>mem := m\<rparr>) \<and> aspace (s\<lparr>mem := m\<rparr>) pt ps \<and> leaf m pt = leaf (mem s) pt \<and>
    (\<forall>k<length src. m (uaddr (mem s) pt (a + of_nat k)) = src ! k) \<and>
    (\<forall>x. (\<forall>k<length src. x \<noteq> uaddr (mem s) pt (a + of_nat k)) \<longrightarrow> m x = mem s x)"
  using assms
proof (induction "length src" arbitrary: a src s rule: less_induct)
  case less
  note as = less.prems(1)
  show ?case
  proof (cases "src = []")
    case True
    then show ?thesis using as by (intro exI [of _ "mem s"]) (simp add: copyout_nil)
  next
    case False
    then have pos: "0 < length src" by simp
    let ?u = "\<lambda>k. uaddr (mem s) pt (a + of_nat k)"
    have len: "unat (of_nat (length src) :: u64) = length src" using less.prems(2) by (simp add: unat_of_nat)
    define n where "n = unat (page_chunk a (of_nat (length src)))"
    have n: "n = min (4096 - unat a mod 4096) (length src)" unfolding n_def chunk_unat len ..
    have n0: "0 < n" "n \<le> length src" "n \<le> 4096 - unat a mod 4096" using pos by (simp_all add: n)
    have wa: "uwritable (mem s) pt a" using less.prems(3) pos by (auto dest: spec [of _ 0])
    then have ra: "ureadable (mem s) pt a" by (simp add: uwritable_def)
    define m1 where "m1 = store_bytes (uaddr (mem s) pt a) (take n src) (mem s)"
    have tk: "length (take n src) = n" using n0 by simp
    note st = store_chunk [OF as ra n0(3) tk]
    have m1: "m1 (?u k) = src ! k" if "k < n" for k
    proof -
      have "unat (of_nat k :: u64) = k" using that n0 less.prems(2) by (simp add: unat_of_nat)
      then show ?thesis using st(1) [of "?u k"] st(2) [OF that] that n0 by (auto simp: m1_def)
    qed
    have m1_other: "m1 x = mem s x" if "\<forall>k<n. x \<noteq> ?u k" for x using that st(1) [of x] by (auto simp: m1_def)
    have keep: "m1 x = mem s x" if "PGROUNDDOWN x \<in> tables (mem s) pt \<union> set ps" for x
      using that st(3) readable_frame(2,3) [OF as ra] by (intro m1_other) auto
    have as1: "aspace (s\<lparr>mem := m1\<rparr>) pt ps" "leaf m1 pt = leaf (mem s) pt"
      using aspace_user_store [OF as, of m1] keep by blast+
    have ne: "\<not> MAXVA \<le> PGROUNDDOWN a" using ra TRAPFRAME_MAXVA [of "PGROUNDDOWN a"] by (auto simp: ureadable_def dest: leD)
    obtain pte where w: "walk pt (PGROUNDDOWN a) False s = Some (pte, s)" "ld64 (mem s) pte = leaf (mem s) pt (PGROUNDDOWN a)"
      using walk_readable [OF as ra] by metis
    have step: "copyout pt a src s = copyout pt (PGROUNDDOWN a + PGSIZE) (drop n src) (s\<lparr>mem := m1\<rparr>)"
      using False ne w wa user_page_readable [OF as ra] readable_frame(4) [OF as ra]
      by (subst copyout.simps) (simp add: Let_def uwritable_def n_def m1_def uaddr_def)
    show ?thesis
    proof (cases "n = length src")
      case True
      then show ?thesis using step as1 m1 m1_other
        by (intro exI [of _ m1]) (simp add: copyout_nil)
    next
      case False
      then have k: "n = 4096 - unat a mod 4096" using n by (simp add: min_def split: if_splits)
      have nxt: "PGROUNDDOWN a + PGSIZE = a + of_nat n" using next_page k by simp
      have u1: "uaddr m1 pt = uaddr (mem s) pt" "uwritable m1 pt = uwritable (mem s) pt"
        using as1(2) by (simp_all add: uaddr_def uwritable_def ureadable_def fun_eq_iff)
      have w1: "\<forall>k<length (drop n src). uwritable (mem (s\<lparr>mem := m1\<rparr>)) pt (a + of_nat n + of_nat k)"
      proof (intro allI impI)
        fix k assume "k < length (drop n src)"
        then have "n + k < length src" by simp
        from less.prems(3) [rule_format, OF this] show "uwritable (mem (s\<lparr>mem := m1\<rparr>)) pt (a + of_nat n + of_nat k)"
          by (simp add: u1 add.assoc)
      qed
      have "length (drop n src) < length src" "length (drop n src) < 2 ^ 64" using n0 pos less.prems(2) by simp_all
      from less.hyps [OF this(1) as1(1) this(2) w1] obtain m where m:
        "copyout pt (a + of_nat n) (drop n src) (s\<lparr>mem := m1\<rparr>) = Some (0, s\<lparr>mem := m\<rparr>)"
        "aspace (s\<lparr>mem := m\<rparr>) pt ps" "leaf m pt = leaf m1 pt"
        "\<And>k. k < length (drop n src) \<Longrightarrow> m (?u (n + k)) = drop n src ! k"
        "\<And>x. (\<And>k. k < length (drop n src) \<Longrightarrow> x \<noteq> ?u (n + k)) \<Longrightarrow> m x = m1 x"
        by (auto simp: u1 add.assoc)
      have inj: "?u i \<noteq> ?u j" if "i < length src" "j < length src" "i \<noteq> j" for i j
      proof
        assume "?u i = ?u j"
        moreover have "ureadable (mem s) pt (a + of_nat i)" "ureadable (mem s) pt (a + of_nat j)"
          using less.prems(3) that by (simp_all add: uwritable_def)
        ultimately have "a + of_nat i = a + of_nat j" using uaddr_inj [OF as] by blast
        then show False using that less.prems(2) by (simp add: of_nat_u64_inj)
      qed
      show ?thesis
      proof (intro exI [of _ m] conjI allI impI)
        show "copyout pt a src s = Some (0, s\<lparr>mem := m\<rparr>)" using step m(1) nxt by simp
        show "aspace (s\<lparr>mem := m\<rparr>) pt ps" by (rule m(2))
        show "leaf m pt = leaf (mem s) pt" using m(3) as1(2) by simp
        fix k assume k: "k < length src"
        show "m (?u k) = src ! k"
        proof (cases "k < n")
          case True
          have "?u k \<noteq> ?u (n + j)" if "j < length (drop n src)" for j using inj [of k "n + j"] that k True by simp
          then have "m (?u k) = m1 (?u k)" by (intro m(5))
          then show ?thesis using m1 [OF True] by simp
        next
          case False
          then show ?thesis using m(4) [of "k - n"] k by simp
        qed
      next
        fix x assume x: "\<forall>k<length src. x \<noteq> ?u k"
        have "x \<noteq> ?u (n + k)" if "k < length (drop n src)" for k using x [rule_format, of "n + k"] that by simp
        then have "m x = m1 x" by (intro m(5))
        then show "m x = mem s x" using m1_other [of x] x n0 by simp
      qed
    qed
  qed
qed

subsection \<open>The two copies on a mapped range\<close>

text \<open>The page table of \<open>demo_map\<close> as an address space.\<close>

lemma demo_entry:
  assumes "page_aligned t"
  shows "pte_at (demo_map e) t l va = (if t = 0x87100000 \<and> PX l va = 0 then 0x21c40401
    else if t = 0x87101000 \<and> PX l va = 0 then 0x21c40801 else if t = 0x87102000 \<and> PX l va = 4 then e else 0)"
proof -
  have px: "PX 0 0 = 0" "PX 0 0x4000 = 4" by (simp_all add: PX_def)
  have c: "pte_addr 0x87100000 0 0 = 0x87100000" "pte_addr 0x87101000 0 0 = 0x87101000" "pte_addr 0x87102000 0 0x4000 = 0x87102020"
    by (simp_all add: pte_addr_def px)
  have al: "page_aligned 0x87100000" "page_aligned 0x87101000" "page_aligned 0x87102000"
    by (simp_all add: page_aligned_def PGSIZE_def)
  have z: "pte_at (\<lambda>_. 0) t l va = 0" by (simp add: pte_at_def ld64_zero)
  have d: "demo_map e = st64 (pte_addr 0x87100000 0 0) 0x21c40401 (st64 (pte_addr 0x87101000 0 0) 0x21c40801
    (st64 (pte_addr 0x87102000 0 0x4000) e (\<lambda>_. 0)))" by (simp only: demo_map_def c)
  show ?thesis
    unfolding d pte_at_st64 [OF al(1) assms] pte_at_st64 [OF al(2) assms] pte_at_st64 [OF al(3) assms] px z by auto
qed

lemma demo_map_byte:
  assumes "PGROUNDDOWN a \<notin> {0x87100000, 0x87101000, 0x87102000}"
  shows "demo_map e a = 0"
proof -
  have px: "PX 0 0 = 0" "PX 0 0x4000 = 4" by (simp_all add: PX_def)
  have d: "demo_map e = st64 (pte_addr 0x87100000 0 0) 0x21c40401 (st64 (pte_addr 0x87101000 0 0) 0x21c40801
    (st64 (pte_addr 0x87102000 0 0x4000) e (\<lambda>_. 0)))" by (simp add: demo_map_def pte_addr_def px)
  have al: "page_aligned 0x87100000" "page_aligned 0x87101000" "page_aligned 0x87102000"
    by (simp_all add: page_aligned_def PGSIZE_def)
  show ?thesis using assms unfolding d by (simp add: st64_pte_other al)
qed

lemma demo_tables:
  assumes "e AND PTE_V \<noteq> 0" "PTE2PA e = 0x87103000"
  shows "tbl1 (demo_map e) 0x87100000 va = (if PX 2 va = 0 then Some 0x87101000 else None)"
    "tbl0 (demo_map e) 0x87100000 va = (if PX 2 va = 0 \<and> PX 1 va = 0 then Some 0x87102000 else None)"
    "leaf (demo_map e) 0x87100000 va = (if PX 2 va = 0 \<and> PX 1 va = 0 \<and> PX 0 va = 4 then e else 0)"
    "tables (demo_map e) 0x87100000 = {0x87100000, 0x87101000, 0x87102000}"
proof -
  have al: "page_aligned 0x87100000" "page_aligned 0x87101000" "page_aligned 0x87102000"
    by (simp_all add: page_aligned_def PGSIZE_def)
  have n: "next_tbl (demo_map e) 0x87100000 l va = (if PX l va = 0 then Some 0x87101000 else None)"
    "next_tbl (demo_map e) 0x87101000 l va = (if PX l va = 0 then Some 0x87102000 else None)" for l va
    by (simp_all add: next_tbl_def demo_entry al PTE_V_def PTE2PA_def)
  show 1: "tbl1 (demo_map e) 0x87100000 va = (if PX 2 va = 0 then Some 0x87101000 else None)" for va
    by (simp add: tbl1_def n)
  show 0: "tbl0 (demo_map e) 0x87100000 va = (if PX 2 va = 0 \<and> PX 1 va = 0 then Some 0x87102000 else None)" for va
    by (simp add: tbl0_def 1 n)
  show "leaf (demo_map e) 0x87100000 va = (if PX 2 va = 0 \<and> PX 1 va = 0 \<and> PX 0 va = 4 then e else 0)" for va
    by (simp add: leaf_def 0 demo_entry al)
  have z: "PX l 0 = 0" for l by (simp add: PX_def)
  show "tables (demo_map e) 0x87100000 = {0x87100000, 0x87101000, 0x87102000}"
    by (auto simp: tables_def 0 1 z split: if_splits intro: exI [of _ 0])
qed

lemma demo_aspace:
  assumes "e AND PTE_V \<noteq> 0" "PTE2PA e = 0x87103000" "mem s = demo_map e" "kend s = 0x80022000" "freelist s = 0"
  shows "aspace s 0x87100000 []"
proof -
  note t = demo_tables [OF assms(1,2)]
  have f: "frame_ok s 0x87100000" "frame_ok s 0x87101000" "frame_ok s 0x87102000" "frame_ok s 0x87103000"
    by (simp_all add: frame_ok_def assms(4) page_aligned_def PGSIZE_def PHYSTOP_def KERNBASE_def)
  have u: "uframe (mem s) 0x87100000 va = (if PX 2 va = 0 \<and> PX 1 va = 0 \<and> PX 0 va = 4 then Some 0x87103000 else None)" for va
    using assms(1,2) by (simp add: uframe_def assms(3) t)
  have "pt_tree (mem s) 0x87100000" by (simp add: pt_tree_def assms(3) t)
  then have "vm_inv s 0x87100000 []"
    using f by (simp add: vm_inv_def free_pages_def pt_wf_def assms t)
  then show ?thesis using f u by (auto simp: aspace_def assms(3) t same_vpn_def split: if_splits)
qed

text \<open>C35. \<open>copyin\<close>.  From a range of user addresses that are mapped for the user, whatever its length
  and however it lies on pages, \<open>copyin\<close> returns 0 with exactly the bytes at the physical
  addresses the page table gives, in order, and changes nothing.\<close>

theorem copyin_reads_user_memory:
  fixes s :: "'a kfiles_scheme"
  assumes "aspace s pt ps" "\<forall>k<unat len. ureadable (mem s) pt (srcva + of_nat k)"
  shows "copyin pt srcva len [] s = Some (0, map (\<lambda>k. mem s (uaddr (mem s) pt (srcva + of_nat k))) [0..<unat len], s)"
  using copyin_ok [OF assms, of "[]"] by simp

text \<open>C36. \<open>copyout\<close>.  Into a range of user addresses mapped writable for the user, \<open>copyout\<close> returns 0;
  each byte of the source is then at the physical address of its user address, no other
  byte of memory has changed, and the address space, with its page table, its frames and
  the free list, is as it was.\<close>

theorem copyout_writes_user_memory:
  fixes s :: "'a kfiles_scheme"
  assumes "aspace s pt ps" "length src < 2 ^ 64" "\<forall>k<length src. uwritable (mem s) pt (dstva + of_nat k)"
  shows "\<exists>m. copyout pt dstva src s = Some (0, s\<lparr>mem := m\<rparr>) \<and> aspace (s\<lparr>mem := m\<rparr>) pt ps \<and> leaf m pt = leaf (mem s) pt \<and>
    (\<forall>k<length src. m (uaddr (mem s) pt (dstva + of_nat k)) = src ! k) \<and>
    (\<forall>x. (\<forall>k<length src. x \<noteq> uaddr (mem s) pt (dstva + of_nat k)) \<longrightarrow> m x = mem s x)"
  using copyout_ok [OF assms] .

lemma demo_readable:
  assumes "e AND PTE_V \<noteq> 0" "PTE2PA e = 0x87103000" "e AND PTE_U \<noteq> 0" "k < 4096"
  shows "ureadable (demo_map e) 0x87100000 (0x4000 + of_nat k)" "uaddr (demo_map e) 0x87100000 (0x4000 + of_nat k) = 0x87103000 + of_nat k"
    "leaf (demo_map e) 0x87100000 (PGROUNDDOWN (0x4000 + of_nat k)) = e"
proof -
  have p: "PGROUNDDOWN (0x4000 + of_nat k) = 0x4000"
    using assms(4) by (intro PGROUNDDOWN_add) (simp_all add: page_aligned_def PGSIZE_def unat_of_nat)
  have px: "PX 2 0x4000 = 0" "PX (Suc 0) 0x4000 = 0" "PX 0 0x4000 = 4" by (simp_all add: PX_def)
  have "0x4000 < TRAPFRAME" by (simp add: layout_defs)
  then show "ureadable (demo_map e) 0x87100000 (0x4000 + of_nat k)" "uaddr (demo_map e) 0x87100000 (0x4000 + of_nat k) = 0x87103000 + of_nat k"
    "leaf (demo_map e) 0x87100000 (PGROUNDDOWN (0x4000 + of_nat k)) = e"
    using assms demo_tables(3) [OF assms(1,2)] by (simp_all add: ureadable_def uaddr_def p px)
qed

theorem copyin_reads_user_memory_witness:
  "copyin 0x87100000 0x4ff8 8 [] demo_state = Some (0, replicate 8 0, demo_state)"
proof -
  have e: "(0x21c40c13::u64) AND PTE_V \<noteq> 0" "PTE2PA 0x21c40c13 = 0x87103000" "(0x21c40c13::u64) AND PTE_U \<noteq> 0"
    by (simp_all add: PTE_V_def PTE2PA_def PTE_U_def)
  have m: "mem demo_state = demo_map 0x21c40c13" "kend demo_state = 0x80022000" "freelist demo_state = 0"
    by (simp_all add: demo_state_def demo_memory_def)
  note as = demo_aspace [OF e(1,2) m]
  have a: "0x4ff8 + of_nat k = (0x4000::u64) + of_nat (0xff8 + k)" for k by simp
  have r: "ureadable (mem demo_state) 0x87100000 (0x4ff8 + of_nat k)" "uaddr (mem demo_state) 0x87100000 (0x4ff8 + of_nat k) = 0x87103ff8 + of_nat k"
    if "k < 8" for k
    using demo_readable [OF e, of "0xff8 + k"] that unfolding a m(1) by simp_all
  have b: "demo_map 0x21c40c13 (0x87103ff8 + of_nat k) = 0" if "k < 8" for k
  proof (rule demo_map_byte)
    have "unat (of_nat (0xff8 + k) :: u64) < 4096" unfolding unat_of_nat using that by simp
    then have "PGROUNDDOWN (0x87103000 + of_nat (0xff8 + k)) = 0x87103000"
      by (intro PGROUNDDOWN_add) (simp_all add: page_aligned_def PGSIZE_def)
    then show "PGROUNDDOWN (0x87103ff8 + of_nat k) \<notin> {0x87100000, 0x87101000, 0x87102000}" by (simp add: add.assoc [symmetric])
  qed
  have "map (\<lambda>k. mem demo_state (uaddr (mem demo_state) 0x87100000 (0x4ff8 + of_nat k))) [0..<8] = replicate 8 0"
    by (rule nth_equalityI) (simp_all add: r b m(1) [symmetric], simp add: m(1) b)
  then show ?thesis using copyin_reads_user_memory [OF as, of 8 "0x4ff8"] r by simp
qed

theorem copyout_writes_user_memory_witness:
  "\<exists>m. copyout 0x87100000 0x4ffe [7, 9] (demo_kernel (demo_map 0x21c40c17) 0 [demo_process, demo_proc]) =
     Some (0, demo_kernel m 0 [demo_process, demo_proc]) \<and> m 0x87103ffe = 7 \<and> m 0x87103fff = 9"
proof -
  let ?s = "demo_kernel (demo_map 0x21c40c17) 0 [demo_process, demo_proc]"
  have e: "(0x21c40c17::u64) AND PTE_V \<noteq> 0" "PTE2PA 0x21c40c17 = 0x87103000" "(0x21c40c17::u64) AND PTE_U \<noteq> 0" "(0x21c40c17::u64) AND PTE_W \<noteq> 0"
    by (simp_all add: PTE_V_def PTE2PA_def PTE_U_def PTE_W_def)
  have as: "aspace ?s 0x87100000 []" by (rule demo_aspace [OF e(1,2)]) simp_all
  have a: "0x4ffe + of_nat k = (0x4000::u64) + of_nat (0xffe + k)" for k by simp
  have w: "uwritable (mem ?s) 0x87100000 (0x4ffe + of_nat k)" "uaddr (mem ?s) 0x87100000 (0x4ffe + of_nat k) = 0x87103ffe + of_nat k"
    if "k < 2" for k
    using demo_readable [OF e(1-3), of "0xffe + k"] that e(4) unfolding a by (simp_all add: uwritable_def)
  have l: "length [7, 9 :: u8] < 2 ^ 64" "\<forall>k<length [7, 9 :: u8]. uwritable (mem ?s) 0x87100000 (0x4ffe + of_nat k)" using w by simp_all
  obtain m where m: "copyout 0x87100000 0x4ffe [7, 9] ?s = Some (0, ?s\<lparr>mem := m\<rparr>)"
    "\<forall>k<length [7, 9 :: u8]. m (uaddr (mem ?s) 0x87100000 (0x4ffe + of_nat k)) = [7, 9] ! k"
    using copyout_writes_user_memory [OF as l] by blast
  have "?s\<lparr>mem := m\<rparr> = demo_kernel m 0 [demo_process, demo_proc]" by (simp add: demo_kernel_def)
  moreover have "m 0x87103ffe = 7" "m 0x87103fff = 9"
    using m(2) [rule_format, of 0] m(2) [rule_format, of 1] w(2) [of 0] w(2) [of 1] by simp_all
  ultimately show ?thesis using m(1) by auto
qed

end
