(* ===== verification/PagingFault.thy ===== *)
theory PagingFault
  imports PagingRun UserCopy
begin

section \<open>Single page faults\<close>

text \<open>
  What the handler does in the cases that need no file: an access outside every region, the
  first access to a heap page; and what becomes of a writable page whose record is clean.
\<close>

subsection \<open>Invalid accesses\<close>

lemma walk_invalid:
  assumes "va < MAXVA" "leaf (mem s) pt va AND PTE_V = 0"
  obtains pte where "walk pt va False s = Some (pte, s)" "\<not> (pte \<noteq> 0 \<and> ld64 (mem s) pte AND PTE_V \<noteq> 0)"
  using walk_lookup [OF assms(1), of pt s] assms(2) that
  by (cases "tbl0 (mem s) pt va") (auto simp: leaf_def pte_at_def)

lemma fault_on_invalid:
  assumes "cur s = Some p" "PGROUNDDOWN addr < MAXVA" "leaf (mem s) (p_pagetable (pget p s)) (PGROUNDDOWN addr) AND PTE_V = 0"
  shows "handle_page_fault addr access from_user s = pf_missing p (PGROUNDDOWN addr) access from_user s"
proof -
  obtain pte where "walk (p_pagetable (pget p s)) (PGROUNDDOWN addr) False s = Some (pte, s)"
    "\<not> (pte \<noteq> 0 \<and> ld64 (mem s) pte AND PTE_V \<noteq> 0)" using walk_invalid [OF assms(2,3)] .
  then show ?thesis using assms(1,2) by (auto simp: handle_page_fault_def myproc_def Let_def dest: leD)
qed

text \<open>C32. Invalid accesses.  A page fault on an address that is not mapped, is in no region (or is
  in the guard page, or would write the text) and has not been swapped out fails: from user
  mode the process is marked killed and nothing but that mark and the kernel's messages
  changes, from the kernel nothing changes at all.\<close>

theorem invalid_access_kills:
  fixes s :: "'a kfiles_scheme"
  assumes "cur s = Some p" "p < length (procs s)"
    and "MAXVA \<le> PGROUNDDOWN addr \<or>
      leaf (mem s) (p_pagetable (pget p s)) (PGROUNDDOWN addr) AND PTE_V = 0 \<and>
      (outside (pget p s) (user_sp p s) (PGROUNDDOWN addr) \<and> \<not> swapped_out p (PGROUNDDOWN addr) s \<or>
       \<not> outside (pget p s) (user_sp p s) (PGROUNDDOWN addr) \<and> access = 1 \<and>
         text_start (pget p s) \<le> PGROUNDDOWN addr \<and> PGROUNDDOWN addr < text_end (pget p s))"
  shows "\<exists>msgs. handle_page_fault addr access True s =
      Some (-1, s\<lparr>klog := klog s @ msgs, procs := (procs s)[p := (pget p s)\<lparr>p_killed := True\<rparr>]\<rparr>) \<and>
    handle_page_fault addr access False s = Some (-1, s)"
proof (cases "MAXVA \<le> PGROUNDDOWN addr")
  case True
  then have "handle_page_fault addr access fu s = pf_invalid p (PGROUNDDOWN addr) access ''invalid'' fu s" for fu
    using assms(1) by (simp add: handle_page_fault_def myproc_def)
  then show ?thesis
    by (intro exI conjI) (simp_all add: pf_invalid_def setkilled_def pset_def kprint_def)
next
  case False
  let ?va = "PGROUNDDOWN addr"
  have f: "handle_page_fault addr access fu s = pf_missing p ?va access fu s" for fu
    using assms(3) False by (intro fault_on_invalid [OF assms(1)]) auto
  obtain valid cause is_text where reg: "pf_region (pget p s) (user_sp p s) ?va = (valid, cause, is_text)"
    by (cases "pf_region (pget p s) (user_sp p s) ?va") auto
  let ?sw = "case find_page_info p ?va s of Some i \<Rightarrow> pi_state (pi_get p i s) = SWAPPED | None \<Rightarrow> False"
  have sw: "?sw \<longleftrightarrow> swapped_out p ?va s" by (auto simp: swapped_out_def split: option.splits)
  have "\<not> (valid \<or> ?sw) \<or> is_text \<and> access = 1"
    using assms(3) False pf_region_outside [of "pget p s" "user_sp p s" ?va]
      pf_region_text [of "pget p s" "user_sp p s" ?va] sw by (auto simp: reg)
  then show ?thesis
    unfolding f pf_missing_def reg Let_def prod.case
    by (intro exI conjI) (simp_all add: setkilled_def pset_def kprint_def)
qed

theorem invalid_access_kills_witness:
  "\<exists>msgs. handle_page_fault 0x4000000000 0 True demo_state =
     Some (-1, demo_state\<lparr>klog := msgs, procs := [demo_process\<lparr>p_killed := True\<rparr>, demo_proc]\<rparr>)"
proof -
  have "MAXVA \<le> PGROUNDDOWN 0x4000000000" by (simp add: MAXVA_def PGROUNDDOWN_def PGSIZE_def)
  then show ?thesis using invalid_access_kills [of demo_state 0 "0x4000000000" 0] by auto
qed

subsection \<open>Clean pages are dropped\<close>

interpretation km: mem_frame kprocs.more by unfold_locales simp_all

lemma kprint_more [simp]: "kprocs.more (kprint m s) = kprocs.more s" by (simp add: kprint_def)

text \<open>Freeing a frame overwrites it, so nothing depends on what it held.\<close>

definition same_outside :: "u64 \<Rightarrow> memory \<Rightarrow> memory \<Rightarrow> bool" where
  "same_outside pa m m' \<longleftrightarrow> (\<forall>a. PGROUNDDOWN a \<noteq> pa \<longrightarrow> m a = m' a)"

lemma kfree_overwrites:
  assumes "page_aligned pa" "same_outside pa m (mem s)"
  shows "kfree pa (s\<lparr>mem := m\<rparr>) = kfree pa s"
proof -
  have "memset pa 1 4096 m = memset pa 1 4096 (mem s)"
    using assms by (auto simp: memset_page same_outside_def fun_eq_iff)
  then show ?thesis by (simp add: kfree_def)
qed

lemma unmap_overwrites:
  assumes as: "aspace s pt ps" and va: "va < TRAPFRAME" "uframe (mem s) pt va = Some pa" and m: "same_outside pa m (mem s)"
  shows "uvmunmap pt va 1 True (s\<lparr>mem := m\<rparr>) = uvmunmap pt va 1 True s"
proof -
  note inv = aspace_inv [OF as] and fr = aspace_frame [OF as va]
  have same: "\<forall>a. PGROUNDDOWN a \<in> tables (mem s) pt \<longrightarrow> m a = mem s a" using m fr by (auto simp: same_outside_def)
  note T = tables_frame [OF vm_inv_aligned [OF inv] same]
  have mx: "va < MAXVA" using TRAPFRAME_MAXVA [OF va(1)] .
  obtain t where t: "tbl0 (mem s) pt va = Some t" using va(2) leaf_valid_tbl0 by (auto simp: uframe_def split: if_splits)
  let ?pte = "pte_addr t 0 va"
  have "ld64 (mem s) ?pte = leaf (mem s) pt va" "ld64 m ?pte = leaf (mem s) pt va"
    using leaf_ld [OF t] leaf_ld [of m pt va t] T t by simp_all
  moreover have "PTE2PA (leaf (mem s) pt va) = pa" "leaf (mem s) pt va AND PTE_V \<noteq> 0"
    using va(2) by (auto simp: uframe_def split: if_splits)
  moreover have "kfree pa (s\<lparr>mem := m\<rparr>) = kfree pa s" using fr m by (intro kfree_overwrites) (auto simp: frame_ok_def)
  moreover have "?pte \<noteq> 0" using pte_addr_nonzero [of s pt t] inv tables_tbl0 [OF t] by (auto simp: vm_inv_def free_pages_def)
  moreover have "va < va + PGSIZE"
  proof -
    have "unat va < unat TRAPFRAME" using va(1) by (simp add: word_less_nat_alt)
    then have "unat va + 4096 < 2 ^ 64" by (simp add: layout_defs)
    then show ?thesis by (simp add: word_less_nat_alt PGSIZE_def unat_word_ariths)
  qed
  ultimately show ?thesis
    by (simp add: uvmunmap_def uvmunmap_loop.simps [of pt va] walk_lookup [OF mx] T t Let_def)
qed

text \<open>An eviction of a clean page that is mapped is \<open>evict_clean\<close> and \<open>uvmunmap\<close>.\<close>

lemma evict_clean_start:
  fixes s :: "'a kfiles_scheme"
  assumes "find_victim (pget p s) = Some v" "\<not> is_dirty (pi_get p v s)" "va = pi_va (pi_get p v s)"
    and "va < MAXVA" "tbl0 (mem s) (p_pagetable (pget p s)) va = Some t" "pte_addr t 0 va \<noteq> 0"
    and "leaf (mem s) (p_pagetable (pget p s)) va AND PTE_V \<noteq> 0"
  shows "evict_page_fifo p s = map_option (Pair 0) (uvmunmap (p_pagetable (pget p s)) va 1 True
    (evict_clean p v va (kprint (VICTIM (p_pid (pget p s)) va (pi_seq (pi_get p v s))) (kprint (MEMFULL (p_pid (pget p s))) s))))"
proof -
  have pk: "pi_get p i (kprint m x) = pi_get p i x" for m i and x :: "'a kfiles_scheme" by (simp add: pi_get_def)
  have pt: "p_pagetable (pget p (evict_clean p v va x)) = p_pagetable (pget p x)" for va and x :: "'a kfiles_scheme"
    by (cases "p < length (procs x)") (simp_all add: evict_clean_def Let_def pi_set_def pset_def list_update_beyond)
  have mo: "Option.bind x (\<lambda>s. Some (0, s)) = map_option (Pair (0 :: int)) x" for x :: "'a kfiles_scheme option" by (cases x) simp_all
  show ?thesis
    unfolding evict_page_fifo_def Let_def
    using assms leaf_ld [OF assms(5)] by (simp add: pk walk_lookup pt mo)
qed

lemma evict_clean_kmem:
  "mem (evict_clean p v va s) = mem s" "freelist (evict_clean p v va s) = freelist s" "kend (evict_clean p v va s) = kend s"
  "evict_clean p v va (s\<lparr>mem := m\<rparr>) = (evict_clean p v va s)\<lparr>mem := m\<rparr>"
  by (simp_all add: evict_clean_def Let_def pi_set_def pset_def kprint_def)

lemma aspace_kmem:
  "mem t = mem s \<Longrightarrow> freelist t = freelist s \<Longrightarrow> kend t = kend s \<Longrightarrow> aspace t pt ps = aspace s pt ps"
  by (simp add: aspace_def vm_inv_def free_pages_def pt_wf_def frame_ok_def)

text \<open>C33. What is lost with a clean page.  When the victim's record is clean, the eviction takes its
  mapping away, hands its frame to the allocator, marks the record \<open>UNMAPPED\<close> and stores the
  contents nowhere: file system, disk, log and buffers are what they were, and whatever bytes
  the frame holds, the state afterwards is the very same, so they cannot be recovered.  This
  is so for every valid leaf, also for one that is writable, as \<open>pf_exec\<close> maps the pages of a
  writable segment, whose first write raises no fault and leaves the record clean.\<close>

theorem clean_victim_not_saved:
  fixes s :: "'a kfiles_scheme"
  assumes "p < length (procs s)" "find_victim (pget p s) = Some v" "v < length (pages (pget p s))"
    and "\<not> is_dirty (pi_get p v s)" "va = pi_va (pi_get p v s)" "pt = p_pagetable (pget p s)"
    and "aspace s pt ps" "page_aligned va" "va < TRAPFRAME" "uframe (mem s) pt va = Some pa"
  shows "\<exists>t ps'. evict_page_fifo p s = Some (0, t) \<and> kprocs.more t = kprocs.more s \<and>
    pi_state (pi_get p v t) = UNMAPPED \<and> aspace t pt ps' \<and> set ps' = insert pa (set ps) \<and>
    uframe (mem t) pt = (\<lambda>x. if same_vpn x va then None else uframe (mem s) pt x) \<and>
    (\<forall>m. same_outside pa m (mem s) \<longrightarrow> evict_page_fifo p (s\<lparr>mem := m\<rparr>) = Some (0, t))"
proof -
  note as = assms(7) and va = assms(9,10)
  note inv = aspace_inv [OF as]
  have mx: "va < MAXVA" using TRAPFRAME_MAXVA [OF va(1)] .
  have val: "leaf (mem s) pt va AND PTE_V \<noteq> 0" using va(2) by (auto simp: uframe_def split: if_splits)
  obtain t0 where t0: "tbl0 (mem s) pt va = Some t0" using leaf_valid_tbl0 [OF val] by blast
  have nz: "pte_addr t0 0 va \<noteq> 0"
    using pte_addr_nonzero [of s pt t0] inv tables_tbl0 [OF t0] by (auto simp: vm_inv_def free_pages_def)
  define k where "k = kprint (VICTIM (p_pid (pget p s)) va (pi_seq (pi_get p v s))) (kprint (MEMFULL (p_pid (pget p s))) s)"
  have start: "evict_page_fifo p s = map_option (Pair 0) (uvmunmap pt va 1 True (evict_clean p v va k))"
    unfolding k_def assms(6) by (rule evict_clean_start [OF assms(2,4,5) mx]) (use t0 nz val assms(6) in simp_all)
  let ?w = "evict_clean p v va k"
  have w: "mem ?w = mem s" "freelist ?w = freelist s" "kend ?w = kend s" "kprocs.more ?w = kprocs.more s"
    by (simp_all add: evict_clean_kmem k_def) (simp add: evict_clean_def Let_def pi_set_def pset_def)
  have asw: "aspace ?w pt ps" using as aspace_kmem [of ?w s] w(1-3) by simp
  have "unat va < unat TRAPFRAME" using va(1) by (simp add: word_less_nat_alt)
  moreover obtain i where "unat va = 4096 * i" using assms(8) by (auto simp: page_aligned_unat)
  ultimately have le: "unat va + 4096 \<le> unat TRAPFRAME" by (simp add: layout_defs)
  then have "page_at va 1 \<le> TRAPFRAME" "range_ok va 1"
    using assms(8) by (simp_all add: page_at_def PGSIZE_def word_le_nat_alt unat_word_ariths layout_defs range_ok_def)
  from uvmunmap_spec [OF asw this(2,1)] obtain t ps' where t: "uvmunmap pt va 1 True ?w = Some t"
    "releases ?w pt ps t ps' (frames_in (mem s) pt va 1)"
    "uframe (mem t) pt = (\<lambda>x. if in_pages x va 1 then None else uframe (mem s) pt x)"
    unfolding w(1) of_nat_1 by blast
  have one: "in_pages x va 1 = same_vpn x va" "frames_in (mem s) pt va 1 = {pa}" for x
    using va(2) by (auto simp: in_pages_def frames_in_def)
  have more: "kprocs.more t = kprocs.more s"
    using postD [OF km.frame_uvmunmap t(1), of "\<lambda>t. kprocs.more t = kprocs.more ?w"] w(4) by simp
  have pg: "pgv t = (pgv s)[p := page_upd v (\<lambda>pg. pg\<lparr>pi_state := UNMAPPED\<rparr>) (pgv s ! p)]"
    using postD [OF pg_mem.frame_uvmunmap t(1), of "\<lambda>t. pgv t = pgv ?w"] evict_clean_effect [of p k v va] assms(1)
    by (simp add: k_def)
  have "p < length (procs t)" using in_table [OF pg] assms(1) by simp
  then have "pages (pget p t) = (pages (pget p s))[v := (pages (pget p s) ! v)\<lparr>pi_state := UNMAPPED\<rparr>]"
    using assms(1) by (simp add: pgv_sel(1) [of p t] pg) (simp add: pgv_sel(1) [symmetric])
  then have un: "pi_state (pi_get p v t) = UNMAPPED" using assms(3) by (simp add: pi_get_def)
  have other: "evict_page_fifo p (s\<lparr>mem := m\<rparr>) = Some (0, t)" if m: "same_outside pa m (mem s)" for m
  proof -
    note fr = aspace_frame [OF as va]
    have same: "\<forall>a. PGROUNDDOWN a \<in> tables (mem s) pt \<longrightarrow> m a = mem s a" using m fr by (auto simp: same_outside_def)
    note T = tables_frame [OF vm_inv_aligned [OF inv] same]
    have km: "kprint (VICTIM (p_pid (pget p s)) va (pi_seq (pi_get p v s))) (kprint (MEMFULL (p_pid (pget p s))) (s\<lparr>mem := m\<rparr>)) = k\<lparr>mem := m\<rparr>"
      by (simp add: k_def kprint_def)
    have pm: "pi_get p i (s\<lparr>mem := m\<rparr>) = pi_get p i s" for i by (simp add: pi_get_def)
    have "evict_page_fifo p (s\<lparr>mem := m\<rparr>) = map_option (Pair 0) (uvmunmap pt va 1 True (evict_clean p v va (k\<lparr>mem := m\<rparr>)))"
      using evict_clean_start [where s = "s\<lparr>mem := m\<rparr>" and p = p and v = v and va = va and t = t0] assms(2,4,5,6) mx t0 nz val T by (simp add: pm km [unfolded assms(5)])
    also have "uvmunmap pt va 1 True (evict_clean p v va (k\<lparr>mem := m\<rparr>)) = uvmunmap pt va 1 True ?w"
      unfolding evict_clean_kmem(4) by (rule unmap_overwrites [OF asw va(1)]) (use va(2) m w(1) in simp_all)
    finally show ?thesis using t(1) by simp
  qed
  show ?thesis
    using start t more un other one by (intro exI [of _ t] exI [of _ ps']) (auto simp: releases_def)
qed

theorem clean_victim_not_saved_witness:
  "\<exists>t ps'. evict_page_fifo 0 (demo_kernel (demo_map 0x21c40c17) 0 [demo_process, demo_proc]) = Some (0, t) \<and>
     uframe (mem t) 0x87100000 0x4000 = None \<and> aspace t 0x87100000 ps' \<and> set ps' = {0x87103000}"
proof -
  let ?s = "demo_kernel (demo_map 0x21c40c17) 0 [demo_process, demo_proc]"
  have e: "(0x21c40c17::u64) AND PTE_V \<noteq> 0" "PTE2PA 0x21c40c17 = 0x87103000" "(0x21c40c17::u64) AND PTE_U \<noteq> 0"
    by (simp_all add: PTE_V_def PTE2PA_def PTE_U_def)
  have as: "aspace ?s 0x87100000 []" by (rule demo_aspace [OF e(1,2)]) simp_all
  have px: "PX 2 0x4000 = 0" "PX (Suc 0) 0x4000 = 0" "PX 0 0x4000 = 4" by (simp_all add: PX_def)
  have u: "uframe (mem ?s) 0x87100000 0x4000 = Some 0x87103000"
    using e(1,2) by (simp add: uframe_def demo_tables(3) [OF e(1,2)] px)
  have v: "find_victim (pget 0 ?s) = Some 0" by (simp add: find_victim_def demo_process_def demo_page_def)
  have al: "(0x4000::u64) < TRAPFRAME" "page_aligned 0x4000" by (simp_all add: layout_defs page_aligned_def PGSIZE_def)
  have q: "0 < length (procs ?s)" "0 < length (pages (pget 0 ?s))" "\<not> is_dirty (pi_get 0 0 ?s)" "0x4000 = pi_va (pi_get 0 0 ?s)"
    "0x87100000 = p_pagetable (pget 0 ?s)"
    by (simp_all add: demo_fields pi_get_def demo_page_def)
  obtain t ps' where "evict_page_fifo 0 ?s = Some (0, t)" "aspace t 0x87100000 ps'" "set ps' = insert 0x87103000 (set [])"
    "uframe (mem t) 0x87100000 = (\<lambda>x. if same_vpn x 0x4000 then None else uframe (mem ?s) 0x87100000 x)"
    using clean_victim_not_saved [OF q(1) v q(2-5) as al(2,1) u] by blast
  then show ?thesis by (intro exI [of _ t] exI [of _ ps']) simp
qed

subsection \<open>The first access to a heap page\<close>

lemma more_kprocs:
  fixes s t :: "'a kprocs_scheme"
  shows "kmem.more s = kmem.more t \<Longrightarrow> procs s = procs t \<and> kprocs.more s = kprocs.more t \<and> cur s = cur t \<and> klog s = klog t"
  by (cases s, cases t) simp

lemma vm_inv_same:
  "mem t = mem s \<Longrightarrow> freelist t = freelist s \<Longrightarrow> kend t = kend s \<Longrightarrow> vm_inv t pt ps = vm_inv s pt ps"
  by (simp add: vm_inv_def free_pages_def pt_wf_def frame_ok_def)

text \<open>A frame from \<open>kalloc\<close>, cleared: the tables do not notice.\<close>

lemma fresh_zero_frame:
  fixes s :: "'a kmem_scheme"
  assumes "vm_inv s pt (pa # ps)"
  obtains t where "kalloc s = (pa, t)" "pa \<noteq> 0" "kmem.more t = kmem.more s" "kend t = kend s"
    "vm_inv (t\<lparr>mem := memset pa 0 4096 (mem t)\<rparr>) pt ps"
    "\<And>x. leaf (memset pa 0 4096 (mem t)) pt x = leaf (mem s) pt x"
    "\<And>a. PGROUNDDOWN a = pa \<Longrightarrow> memset pa 0 4096 (mem t) a = 0" "pa \<notin> tables (memset pa 0 4096 (mem t)) pt"
    "frame_ok s pa" "pa \<notin> set ps"
proof -
  have inv: "free_pages s (pa # ps)" "pt_wf s pt" "tables (mem s) pt \<inter> set (pa # ps) = {}"
    using assms by (simp_all add: vm_inv_def)
  obtain t where t: "kalloc s = (pa, t)" "free_pages t ps" "kend t = kend s" "kmem.more t = kmem.more s"
    "mem t = (\<lambda>a. if PGROUNDDOWN a = pa then 5 else mem s a)" using kalloc_frame [OF inv(1)] by blast
  have pa: "frame_ok s pa" "pa \<notin> set ps" "0 < kend s" using inv(1) by (simp_all add: free_pages_def)
  then have al: "page_aligned pa" by simp
  have z: "memset pa 0 4096 (mem t) = (\<lambda>a. if PGROUNDDOWN a = pa then 0 else mem s a)"
    using al by (auto simp: memset_page t(5))
  have al_t: "\<forall>u\<in>tables (mem s) pt. page_aligned u" using inv(2) pt_wf_aligned by blast
  have same: "\<forall>a. PGROUNDDOWN a \<in> tables (mem s) pt \<longrightarrow> memset pa 0 4096 (mem t) a = mem s a"
    using inv(3) by (auto simp: z)
  note fr = tables_frame [OF al_t same] and fe = tables_frame_eq [OF al_t same]
  have f: "free_pages (t\<lparr>mem := memset pa 0 4096 (mem t)\<rparr>) ps"
    by (rule free_pages_frame [OF t(2)]) (use pa(2) in \<open>auto simp: z, auto simp: t(5)\<close>)
  show ?thesis
  proof (rule that [OF t(1) frame_ok_nonzero [OF pa(3,1)] t(4,3)])
    show "vm_inv (t\<lparr>mem := memset pa 0 4096 (mem t)\<rparr>) pt ps"
      using f inv(2,3) fe by (auto simp: vm_inv_def pt_wf_def frame_ok_def t(3))
    show "pa \<notin> tables (memset pa 0 4096 (mem t)) pt" using inv(3) fe by auto
  qed (use fr pa z in auto)
qed

lemma pf_zero_ok:
  fixes s :: "'a kfiles_scheme"
  assumes inv: "vm_inv s (p_pagetable (pget p s)) (pa # ps)" and l: "p < length (procs s)"
    and va: "page_aligned va" "va < MAXVA" "leaf (mem s) (p_pagetable (pget p s)) va AND PTE_V = 0"
  shows "\<exists>r t. pf_zero p i va s = Some (r, t) \<and>
    (r = 0 \<and> (\<exists>ps'. vm_inv t (p_pagetable (pget p s)) ps') \<and>
       procs t = (procs s)[p := map_page i (pget p s)] \<and>
       leaf (mem t) (p_pagetable (pget p s)) = (\<lambda>x. if same_vpn x va then leaf_entry pa (PTE_U OR PTE_R)
          else leaf (mem s) (p_pagetable (pget p s)) x) \<and>
       (\<forall>a. PGROUNDDOWN a = pa \<longrightarrow> mem t a = 0) \<or>
     r = -1 \<and> vm_inv t (p_pagetable (pget p s)) [pa] \<and>
       procs t = (procs s)[p := (pget p s)\<lparr>p_killed := True\<rparr>] \<and>
       leaf (mem t) (p_pagetable (pget p s)) = leaf (mem s) (p_pagetable (pget p s)))"
proof -
  let ?pt = "p_pagetable (pget p s)" and ?perm = "PTE_U OR PTE_R"
  obtain u where u: "kalloc s = (pa, u)" "pa \<noteq> 0" "kmem.more u = kmem.more s" "kend u = kend s"
    "vm_inv (u\<lparr>mem := memset pa 0 4096 (mem u)\<rparr>) ?pt ps"
    "\<And>x. leaf (memset pa 0 4096 (mem u)) ?pt x = leaf (mem s) ?pt x"
    "\<And>a. PGROUNDDOWN a = pa \<Longrightarrow> memset pa 0 4096 (mem u) a = 0" "pa \<notin> tables (memset pa 0 4096 (mem u)) ?pt"
    "frame_ok s pa" "pa \<notin> set ps"
    using fresh_zero_frame [OF inv] by blast
  let ?w = "kprint (ALLOC (p_pid (pget p u)) va) (u\<lparr>mem := memset pa 0 4096 (mem u)\<rparr>)"
  have pu: "procs u = procs s" using more_kprocs [OF u(3)] by simp
  have w: "vm_inv ?w ?pt ps" using u(5) by (subst vm_inv_same [of _ "u\<lparr>mem := memset pa 0 4096 (mem u)\<rparr>"]) simp_all
  have start: "pf_zero p i va s = pf_map p i va pa ?perm ?w" by (simp add: pf_zero_def frame_for_def u(1,2) Let_def)
  have free: "leaf (mem ?w) ?pt va AND PTE_V = 0" using va(3) u(6) by simp
  have pt: "p_pagetable (pget p ?w) = ?pt" by (simp add: pu)
  show ?thesis
  proof (cases rule: mappages_one [OF w va(1,2) free, of pa ?perm])
    case (1 v)
    note nomem = 1
    have v: "vm_inv v ?pt []" "kmem.more v = kmem.more ?w" "kend v = kend s" "leaf (mem v) ?pt = leaf (mem s) ?pt"
      "tables (mem v) ?pt = tables (mem ?w) ?pt \<union> set ps"
      using nomem(2) u(4,6) by (auto simp: grows_def touches_def)
    have ok: "frame_ok v pa" using u(9) v(3) by (simp add: frame_ok_def)
    obtain x where x: "kfree pa v = Some x" "free_pages x [pa]" "kend x = kend v" "kmem.more x = kmem.more v"
      "\<forall>a. PGROUNDDOWN a \<noteq> pa \<longrightarrow> mem x a = mem v a"
      using kfree_frame [of v "[]", OF _ ok] v(1) by (auto simp: vm_inv_def)
    have np: "pa \<notin> tables (mem v) ?pt" using v(5) u(8,10) by simp
    have al: "\<forall>t\<in>tables (mem v) ?pt. page_aligned t" using v(1) pt_wf_aligned by (auto simp: vm_inv_def)
    have same: "\<forall>a. PGROUNDDOWN a \<in> tables (mem v) ?pt \<longrightarrow> mem x a = mem v a" using np x(5) by auto
    note fr = tables_frame [OF al same] and fe = tables_frame_eq [OF al same]
    have "vm_inv x ?pt [pa]"
      using x(2,3) v(1) np fe by (auto simp: vm_inv_def pt_wf_def frame_ok_def)
    then have "vm_inv ((kprint m x)\<lparr>procs := qs\<rparr>) ?pt [pa]" for m qs by (subst vm_inv_same [of _ x]) simp_all
    moreover have "procs x = procs s" using more_kprocs [of x v] more_kprocs [of v ?w] x(4) v(2) pu by simp
    ultimately show ?thesis
      unfolding start pf_map_def pt nomem(1) using l v(4) fr(3)
      by (auto simp: x(1) pf_kill_def setkilled_def pset_def fun_eq_iff)
  next
    case (2 v ps')
    note mapped = 2
    obtain new where new: "ps = new @ ps'" "\<And>a. PGROUNDDOWN a \<notin> tables (mem ?w) ?pt \<union> set new \<Longrightarrow> mem v a = mem ?w a"
      using touches_new [OF mapped(2)] by metis
    have pv: "procs v = procs s" using more_kprocs [of v ?w] mapped(2) pu by (simp add: touches_def)
    have z: "mem v a = 0" if "PGROUNDDOWN a = pa" for a
      using new(2) [of a] u(7) [OF that] u(8,10) new(1) that by simp
    have iv: "vm_inv v ?pt ps'" using touches_inv [OF mapped(2)] .
    show ?thesis
      unfolding start pf_map_def pt mapped(1) using l iv z mapped(3) u(6)
      by (auto simp: Let_def pi_set_def pset_def pv map_page_def page_upd_def fun_eq_iff
          intro!: exI [of _ ps'] vm_inv_same [THEN iffD2, OF _ _ _ iv])
  qed
qed

lemma add_page_fresh:
  assumes "find_page_info p va s = None" "num_pages (pget p s) < MAX_PAGES" "page_aligned va"
  shows "add_page_info p va s = (Some (num_pages (pget p s)), pset p (track_page va) s)"
  using assms by (simp add: add_page_info_def PGROUNDDOWN_aligned pset_def track_page_def Let_def)

text \<open>C34. The first access to a heap page.  A fault on a heap address whose page has no record and no
  valid mapping always returns while a frame is free.  It returns 0 when the page table now
  maps the page, and nothing else that it did not map before, to that frame with user and
  read permission, the frame is all zero, and the process has one more record: the page,
  resident, clean, with the next sequence number.  It returns -1 only when the frames for
  the page table have run out; then the frame is free again, no mapping has changed and the
  process is marked killed.\<close>

theorem heap_fault_maps_zero_page:
  fixes s :: "'a kfiles_scheme"
  assumes va_def: "va = PGROUNDDOWN addr"
    and "cur s = Some p" "p < length (procs s)" "vm_inv s (p_pagetable (pget p s)) (pa # ps)"
    and "va < MAXVA" "leaf (mem s) (p_pagetable (pget p s)) va AND PTE_V = 0"
    and "\<not> outside (pget p s) (user_sp p s) va" "text_end (pget p s) \<le> va" "data_end (pget p s) \<le> va"
    and "find_page_info p va s = None" "num_pages (pget p s) < MAX_PAGES" "length (pages (pget p s)) = MAX_PAGES"
  shows "\<exists>r t. handle_page_fault addr access from_user s = Some (r, t) \<and>
    (r = 0 \<and> (\<exists>ps'. vm_inv t (p_pagetable (pget p s)) ps') \<and> (\<forall>a. PGROUNDDOWN a = pa \<longrightarrow> mem t a = 0) \<and>
       leaf (mem t) (p_pagetable (pget p s)) = (\<lambda>x. if same_vpn x va then leaf_entry pa (PTE_U OR PTE_R)
          else leaf (mem s) (p_pagetable (pget p s)) x) \<and>
       num_pages (pget p t) = num_pages (pget p s) + 1 \<and> next_fifo_seq (pget p t) = next_fifo_seq (pget p s) + 1 \<and>
       pi_get p (num_pages (pget p s)) t = \<lparr>pi_va = va, pi_state = RESIDENT, is_dirty = False,
         pi_seq = next_fifo_seq (pget p s), swap_slot = -1\<rparr> \<or>
     r = -1 \<and> vm_inv t (p_pagetable (pget p s)) [pa] \<and> p_killed (pget p t) \<and>
       leaf (mem t) (p_pagetable (pget p s)) = leaf (mem s) (p_pagetable (pget p s)))"
proof -
  let ?q = "pget p s" and ?n = "num_pages (pget p s)"
  obtain valid cause is_text where reg: "pf_region ?q (user_sp p s) va = (valid, cause, is_text)"
    by (cases "pf_region ?q (user_sp p s) va") auto
  have valid: "valid" "\<not> is_text"
    using assms(7,8) pf_region_outside [of ?q "user_sp p s" va] pf_region_text [OF assms(7)] by (auto simp: reg dest: leD)
  define u where "u = (if from_user then kprint (PAGEFAULT (p_pid ?q) va (access_str access) cause) s else s)"
  have u: "procs u = procs s" "mem u = mem s" "freelist u = freelist s" "kend u = kend s" "find_page_info p va u = None"
    using assms(10) by (simp_all add: u_def find_page_info_def)
  have al: "page_aligned va" unfolding va_def by (rule page_aligned_PGROUNDDOWN)
  let ?v = "pset p (track_page va) u"
  have add: "add_page_info p va u = (Some ?n, ?v)" using add_page_fresh [OF u(5) _ al] assms(11) u(1) by simp
  have v: "pget p ?v = track_page va ?q" "p_pagetable (track_page va ?q) = p_pagetable ?q" "mem ?v = mem s" "p < length (procs ?v)"
    "freelist ?v = freelist s" "kend ?v = kend s" "procs ?v = (procs s)[p := track_page va ?q]"
    using assms(3) u by (simp_all add: pset_def track_page_def)
  have pg: "pi_get p ?n ?v = \<lparr>pi_va = va, pi_state = UNMAPPED, is_dirty = False, pi_seq = 0, swap_slot = -1\<rparr>"
    using assms(11,12) v(1) by (simp add: pi_get_def track_page_def)
  have h: "handle_page_fault addr access from_user s = pf_zero p ?n va ?v"
  proof -
    have "handle_page_fault addr access from_user s = pf_missing p va access from_user s"
      using fault_on_invalid [OF assms(2)] assms(5,6) unfolding va_def by blast
    also have "\<dots> = pf_zero p ?n va ?v"
      using valid assms(9) add pg v(1) unfolding pf_missing_def reg prod.case assms(10) u_def
      by (cases from_user) (auto simp: track_page_def dest: leD)
    finally show ?thesis .
  qed
  have inv: "vm_inv ?v (p_pagetable (pget p ?v)) (pa # ps)"
    using assms(4) v vm_inv_same [of ?v s] by simp
  have free: "leaf (mem ?v) (p_pagetable (pget p ?v)) va AND PTE_V = 0" using assms(6) v by simp
  obtain r t where z: "pf_zero p ?n va ?v = Some (r, t)"
    "r = 0 \<and> (\<exists>ps'. vm_inv t (p_pagetable ?q) ps') \<and> procs t = (procs ?v)[p := map_page ?n (track_page va ?q)] \<and>
       leaf (mem t) (p_pagetable ?q) = (\<lambda>x. if same_vpn x va then leaf_entry pa (PTE_U OR PTE_R)
          else leaf (mem s) (p_pagetable ?q) x) \<and> (\<forall>a. PGROUNDDOWN a = pa \<longrightarrow> mem t a = 0) \<or>
     r = -1 \<and> vm_inv t (p_pagetable ?q) [pa] \<and> procs t = (procs ?v)[p := (track_page va ?q)\<lparr>p_killed := True\<rparr>] \<and>
       leaf (mem t) (p_pagetable ?q) = leaf (mem s) (p_pagetable ?q)"
    using pf_zero_ok [OF inv v(4) al assms(5) free, of ?n] unfolding v(1-3) by blast
  have map: "num_pages (map_page ?n (track_page va ?q)) = ?n + 1" "next_fifo_seq (map_page ?n (track_page va ?q)) = next_fifo_seq ?q + 1"
    "pages (map_page ?n (track_page va ?q)) ! ?n = \<lparr>pi_va = va, pi_state = RESIDENT, is_dirty = False, pi_seq = next_fifo_seq ?q, swap_slot = -1\<rparr>"
    using assms(11,12) by (simp_all add: map_page_def track_page_def page_upd_def)
  show ?thesis
    using z map assms(3) v(7) by (intro exI [of _ r] exI [of _ t]) (auto simp: h pi_get_def)
qed

definition demo_heap_process :: proc where
  "demo_heap_process = demo_proc\<lparr>p_state := RUNNING, p_pid := 2, p_pagetable := demo_pt, heap_start := 0x1000, p_sz := 0x10000\<rparr>"

definition demo_heap_state :: kfiles where
  "demo_heap_state = demo_kernel (mem demo_vm) (freelist demo_vm) [demo_heap_process, demo_proc]"

theorem heap_fault_maps_zero_page_witness:
  "\<exists>r t. handle_page_fault 0x4008 0 True demo_heap_state = Some (r, t) \<and> (r = 0 \<or> r = -1) \<and>
     (r = 0 \<longrightarrow> leaf (mem t) demo_pt 0x4000 = leaf_entry 0x87001000 (PTE_U OR PTE_R))"
proof -
  let ?q = demo_heap_process and ?s = demo_heap_state
  have s: "procs ?s = [?q, demo_proc]" "cur ?s = Some 0" "mem ?s = mem demo_vm" "freelist ?s = freelist demo_vm" "kend ?s = kend demo_vm"
    by (simp_all add: demo_heap_state_def demo_vm(4))
  have q: "p_pagetable ?q = demo_pt" "heap_start ?q = 0x1000" "p_sz ?q = 0x10000" "text_end ?q = 0" "data_end ?q = 0" "text_start ?q = 0"
    "data_start ?q = 0" "stack_top ?q = 0" "num_pages ?q = 0" "length (pages ?q) = MAX_PAGES"
    by (simp_all add: demo_heap_process_def demo_proc_def init_proc_def)
  have "vm_inv ?s demo_pt [0x87001000, 0x87002000]"
    using aspace_inv [OF demo_vm(1)] vm_inv_same [of ?s demo_vm] s by simp
  moreover have "(0x4000::u64) = PGROUNDDOWN 0x4008" by (simp add: PGROUNDDOWN_def PGSIZE_def)
  moreover have "\<not> outside ?q x 0x4000" for x by (simp add: outside_def q USERSTACK_def PGSIZE_def)
  moreover have "find_page_info 0 0x4000 ?s = None" by (simp add: find_page_info_def s q)
  ultimately show ?thesis
    using heap_fault_maps_zero_page [of "0x4000" "0x4008" ?s 0 "0x87001000" "[0x87002000]" 0 True] demo_vm(2) same_vpn_refl
    by (auto simp: s q MAXVA_def MAX_PAGES_def)
qed

end
