(* ===== verification/FaultFrame.thy ===== *)
theory FaultFrame
  imports Paging FsFrame
begin

section \<open>What page faults and user copies leave alone\<close>

text \<open>
  \<open>fault_view\<close> extends the interfaces of \<open>FsFrame\<close> and \<open>MemFrame\<close>: a view that no change to
  the process table or the file table shows either is preserved by the whole page-fault
  handler and by \<open>copyin\<close>, \<open>copyout\<close> and \<open>copyinstr\<close>, which fault pages in.  It is
  interpreted for the pipes and for the console.
\<close>

locale fault_view = fs: fs_view Q + mem: mem_frame Q
  for Q :: "'a kfiles_scheme \<Rightarrow> 'v" +
  assumes Q_procs [simp]: "Q (s\<lparr>procs := ps\<rparr>) = Q s"
    and Q_ftable [simp]: "Q (s\<lparr>ftable := ft\<rparr>) = Q s"
begin

lemma view_sets [simp]:
  "Q (pset i f s) = Q s" "Q (fset i g s) = Q s" "Q (pi_set i j h s) = Q s" "Q (setkilled i s) = Q s"
  "Q (free_swap_slot i k s) = Q s"
  by (simp_all add: pset_def fset_def pi_set_def setkilled_def free_swap_slot_def Let_def)

lemma view_alloc_slot: "alloc_swap_slot i s = (k, t) \<Longrightarrow> Q t = Q s"
  by (auto simp: alloc_swap_slot_def split: option.splits)

lemma view_add_page: "add_page_info i va s = (r, t) \<Longrightarrow> Q t = Q s"
  by (auto simp: add_page_info_def Let_def split: if_splits option.splits)

lemma view_filealloc: "filealloc s = (f, t) \<Longrightarrow> Q t = Q s"
  by (auto simp: filealloc_def split: option.splits)

lemma keeps_mem [simp]: "fs.keeps_r to_mem" "fs.keeps_w from_mem"
  by (auto simp: fs.keeps_r_def fs.keeps_w_def to_mem_def from_mem_def)

lemmas view_mem_copy = fs.view_readi [OF keeps_mem(1)] fs.view_writei [OF keeps_mem(2)]

subsection \<open>Paging\<close>

lemma view_create_swap_file: "(\<And>r t. Q t = Q s \<Longrightarrow> P (r, t)) \<Longrightarrow> post (create_swap_file p s) P"
  unfolding create_swap_file_def
  by (intro post_rules fs.view_log fs.view_create fs.view_iunlock fs.view_iunlockput)
    (simp_all add: view_filealloc)

lemma view_file_page_read: "(\<And>r t. Q t = Q s \<Longrightarrow> P (r, t)) \<Longrightarrow> post (file_page_read ip pa off n s) P"
  unfolding file_page_read_def by (intro fs.view_inode view_mem_copy) simp_all

lemma view_swap_write: "(\<And>r t. Q t = Q s \<Longrightarrow> P (r, t)) \<Longrightarrow> post (swap_write p pa slot s) P"
  unfolding swap_write_def by (intro fs.view_inode view_mem_copy post_any [of "swap_ip _ _"]) simp_all

lemma view_swap_out_page: "(\<And>r t. Q t = Q s \<Longrightarrow> P (r, t)) \<Longrightarrow> post (swap_out_page p va slot s) P"
  unfolding swap_out_page_def
  by (intro post_rules view_create_swap_file mem.frame_walk view_swap_write) simp_all

lemma view_evict_dirty: "(\<And>r t. Q t = Q s \<Longrightarrow> P (r, t)) \<Longrightarrow> post (evict_dirty p v va s) P"
  unfolding evict_dirty_def
  by (intro post_rules view_create_swap_file view_swap_out_page) (simp_all add: view_alloc_slot)

lemma view_evict_clean [simp]: "Q (evict_clean p v va s) = Q s"
  by (simp add: evict_clean_def Let_def)

lemma view_evict_page: "(\<And>r t. Q t = Q s \<Longrightarrow> P (r, t)) \<Longrightarrow> post (evict_page_fifo p s) P"
  unfolding evict_page_fifo_def
  by (intro post_rules mem.frame_walk view_evict_dirty mem.frame_uvmunmap) simp_all

lemma view_pf_kill: "(\<And>r t. Q t = Q s \<Longrightarrow> P (r, t)) \<Longrightarrow> post (pf_kill p why s) P"
  unfolding pf_kill_def by (intro post_rules) simp

lemma view_pf_invalid: "(\<And>r t. Q t = Q s \<Longrightarrow> P (r, t)) \<Longrightarrow> post (pf_invalid p va a c fu s) P"
  unfolding pf_invalid_def by (intro post_rules) simp_all

lemma view_frame_for: "(\<And>r t. Q t = Q s \<Longrightarrow> P (r, t)) \<Longrightarrow> post (frame_for p s) P"
  unfolding frame_for_def
  by (intro post_rules view_evict_page view_pf_kill) (simp_all add: mem.frame_kalloc)

lemma view_pf_map: "(\<And>r t. Q t = Q s \<Longrightarrow> P (r, t)) \<Longrightarrow> post (pf_map p i va pa perm s) P"
  unfolding pf_map_def
  by (intro post_rules mem.frame_mappages mem.frame_kfree view_pf_kill) simp_all

lemma view_pf_swapped: "(\<And>r t. Q t = Q s \<Longrightarrow> P (r, t)) \<Longrightarrow> post (pf_swapped p i va s) P"
  unfolding pf_swapped_def
  by (intro post_rules view_frame_for post_any [of "swap_ip _ _"] view_file_page_read mem.frame_kfree view_pf_kill view_pf_map)
    simp_all

lemma view_load_segment: "(\<And>t. Q t = Q s \<Longrightarrow> P t) \<Longrightarrow> post (load_segment p va pa s) P"
  unfolding load_segment_def by (intro post_rules view_file_page_read) simp_all

lemma view_pf_exec: "(\<And>r t. Q t = Q s \<Longrightarrow> P (r, t)) \<Longrightarrow> post (pf_exec p i va s) P"
  unfolding pf_exec_def by (intro post_rules view_frame_for view_load_segment view_pf_map) simp_all

lemma view_pf_zero: "(\<And>r t. Q t = Q s \<Longrightarrow> P (r, t)) \<Longrightarrow> post (pf_zero p i va s) P"
  unfolding pf_zero_def by (intro post_rules view_frame_for view_pf_map) simp_all

lemma view_pf_present:
  "pf_present p pte va a fu s = Some m \<Longrightarrow> (\<And>r t. Q t = Q s \<Longrightarrow> P (r, t)) \<Longrightarrow> post m P"
  by (auto simp: pf_present_def intro: post_Some view_pf_invalid split: if_splits option.splits)

lemma view_pf_missing:
  assumes p: "\<And>r t. Q t = Q s \<Longrightarrow> P (r, t)"
  shows "post (pf_missing p va a fu s) P"
  unfolding pf_missing_def
  by (intro post_rules view_pf_kill view_pf_swapped view_pf_exec view_pf_zero p)
    (auto dest: view_add_page split: option.splits if_splits)

lemma view_handle_page_fault:
  assumes p: "\<And>r t. Q t = Q s \<Longrightarrow> P (r, t)"
  shows "post (handle_page_fault va a fu s) P"
  unfolding handle_page_fault_def
  by (intro post_rules fs.view_myproc view_pf_invalid mem.frame_walk view_pf_missing p)
    (auto intro!: view_pf_present p split: if_splits)

lemma view_vmfault: "(\<And>r t. Q t = Q s \<Longrightarrow> P (r, t)) \<Longrightarrow> post (vmfault pt va w s) P"
  unfolding vmfault_def by (intro post_rules view_handle_page_fault mem.frame_walk) simp_all

lemma view_user_page: "(\<And>r t. Q t = Q s \<Longrightarrow> P (r, t)) \<Longrightarrow> post (user_page pt va s) P"
  unfolding user_page_def by (intro post_rules mem.frame_walkaddr view_vmfault) simp_all

subsection \<open>The user copies\<close>

lemma view_copyout_result:
  assumes h: "copyout pt va src s = Some y"
  shows "Q (snd y) = Q s"
proof (rule copyout.raw_induct [where P = "\<lambda>pt va src s y. Q (snd y) = Q s", OF _ h], goal_cases)
  case (1 f pt va src s y)
  have IH: "(\<And>r t. Q t = Q s \<Longrightarrow> P (r, t)) \<Longrightarrow> post (f pt va src s) P"
    for pt va src s P using 1(1) unfolding post_def by fastforce
  show ?case by (rule postD [OF _ 1(2)]) (intro post_rules view_user_page mem.frame_walk IH, simp_all)
qed

lemma view_copyout: "(\<And>r t. Q t = Q s \<Longrightarrow> P (r, t)) \<Longrightarrow> post (copyout pt va src s) P"
  using view_copyout_result by (fastforce simp: post_def)

lemma view_copyin_result:
  assumes h: "copyin pt va len dst s = Some y"
  shows "Q (snd (snd y)) = Q s"
proof (rule copyin.raw_induct [where P = "\<lambda>pt va len dst s y. Q (snd (snd y)) = Q s", OF _ h], goal_cases)
  case (1 f pt va len dst s y)
  have IH: "(\<And>r b t. Q t = Q s \<Longrightarrow> P (r, b, t)) \<Longrightarrow> post (f pt va len dst s) P"
    for pt va len dst s P using 1(1) unfolding post_def by fastforce
  show ?case by (rule postD [OF _ 1(2)]) (intro post_rules view_user_page mem.frame_walk IH, simp_all)
qed

lemma view_copyin: "(\<And>r b t. Q t = Q s \<Longrightarrow> P (r, b, t)) \<Longrightarrow> post (copyin pt va len dst s) P"
  using view_copyin_result by (fastforce simp: post_def)

lemma view_copyinstr_result:
  assumes h: "copyinstr pt va len dst s = Some y"
  shows "Q (snd (snd y)) = Q s"
proof (rule copyinstr.raw_induct [where P = "\<lambda>pt va len dst s y. Q (snd (snd y)) = Q s", OF _ h], goal_cases)
  case (1 f pt va len dst s y)
  have IH: "(\<And>r b t. Q t = Q s \<Longrightarrow> P (r, b, t)) \<Longrightarrow> post (f pt va len dst s) P"
    for pt va len dst s P using 1(1) unfolding post_def by fastforce
  show ?case by (rule postD [OF _ 1(2)]) (intro post_rules view_user_page mem.frame_walk IH, simp_all)
qed

lemma view_copyinstr: "(\<And>r b t. Q t = Q s \<Longrightarrow> P (r, b, t)) \<Longrightarrow> post (copyinstr pt va len dst s) P"
  using view_copyinstr_result by (fastforce simp: post_def)

end

subsection \<open>Pipes and console\<close>

lemma procs_wakeup_sel [simp]: "pipes (wakeup ch s) = pipes s" "cons (wakeup ch s) = cons s" "uart_out (wakeup ch s) = uart_out s"
  using wakeup_more [of ch s] by auto

interpretation pipes_view: fault_view pipes by unfold_locales simp_all

interpretation cons_view: fault_view cons by unfold_locales simp_all

end
