(* ===== verification/PipeRun.thy ===== *)
theory PipeRun
  imports Files Fifo UserCopy
begin

section \<open>Pipes are bounded FIFO queues of bytes\<close>

text \<open>
  The ring of a pipe, with its free-running 32-bit counters, is an instance of the
  interface \<open>fifo\<close>; \<open>pipe_items\<close> reads it as the list of bytes still to be delivered.  On
  it \<open>pipewrite\<close> and \<open>piperead\<close> are described completely for a user buffer that is mapped:
  what they return, whether they sleep, and where every byte goes.
\<close>

subsection \<open>The ring\<close>

definition pipe_wf :: "pipe \<Rightarrow> bool" where
  "pipe_wf q \<longleftrightarrow> length (p_data q) = 512 \<and> unat (nwrite q - nread q) \<le> 512"

definition pipe_items :: "pipe \<Rightarrow> u8 list" where
  "pipe_items q = map (\<lambda>i. p_data q ! ((unat (nread q) + i) mod 512)) [0..<unat (nwrite q - nread q)]"

lemma length_pipe_items [simp]: "length (pipe_items q) = unat (nwrite q - nread q)"
  by (simp add: pipe_items_def)

lemma ring_index: "unat ((r + of_nat i) mod PIPESIZE) = (unat (r :: u32) + i) mod 512"
proof -
  have "unat (r + of_nat i) = (unat r + i) mod 2 ^ 32"
    by (simp add: unat_word_ariths unat_of_nat mod_add_right_eq)
  moreover have "(unat r + i) mod 2 ^ 32 mod 512 = (unat r + i) mod 512" by (rule mod_mod_cancel) simp
  ultimately show ?thesis by (simp add: PIPESIZE_def unat_mod)
qed

lemma ring_index_0: "unat (r mod PIPESIZE) = unat (r :: u32) mod 512"
  using ring_index [of r 0] by simp

lemma write_index: "unat (nwrite q mod PIPESIZE) = (unat (nread q) + unat (nwrite q - nread q)) mod 512"
proof -
  have "nwrite q = nread q + of_nat (unat (nwrite q - nread q))" by simp
  then show ?thesis using ring_index [of "nread q" "unat (nwrite q - nread q)"] by simp
qed

lemma count_Suc: "unat (d :: u32) \<le> 512 \<Longrightarrow> unat (d + 1) = Suc (unat d)"
  by (simp add: unat_plus_if')

lemma count_pred: "0 < unat (d :: u32) \<Longrightarrow> unat (d - 1) = unat d - 1"
  by (rule unat_minus_one) (auto simp: unat_gt_0)

lemma pipe_put_items:
  assumes "pipe_wf q" "unat (nwrite q - nread q) < 512"
  shows "pipe_wf (pipe_put c q)" "pipe_items (pipe_put c q) = pipe_items q @ [c]"
proof -
  let ?r = "unat (nread q)" and ?n = "unat (nwrite q - nread q)"
  have n: "unat (nwrite (pipe_put c q) - nread (pipe_put c q)) = Suc ?n"
    using count_Suc [of "nwrite q - nread q"] assms(2) by (simp add: pipe_put_def algebra_simps)
  show "pipe_wf (pipe_put c q)" using assms n by (simp add: pipe_wf_def) (simp add: pipe_put_def)
  have d: "p_data (pipe_put c q) = (p_data q)[(?r + ?n) mod 512 := c]" "nread (pipe_put c q) = nread q"
    by (simp_all add: pipe_put_def write_index)
  have ne: "(?r + ?n) mod 512 \<noteq> (?r + i) mod 512" if "i < ?n" for i
  proof
    assume "(?r + ?n) mod 512 = (?r + i) mod 512"
    then have "512 dvd (?r + ?n) - (?r + i)" using that by (subst mod_eq_dvd_iff_nat [symmetric]) simp_all
    then have "512 dvd ?n - i" by simp
    then show False using that assms(2) by (auto dest: dvd_imp_le)
  qed
  show "pipe_items (pipe_put c q) = pipe_items q @ [c]"
    unfolding pipe_items_def d n [unfolded d(2)] using ne assms(1) by (auto simp: pipe_wf_def)
qed

lemma pipe_get_items:
  assumes "pipe_wf q" "0 < unat (nwrite q - nread q)"
  shows "pipe_wf (snd (pipe_get q))" "fst (pipe_get q) = hd (pipe_items q)" "pipe_items (snd (pipe_get q)) = tl (pipe_items q)"
proof -
  let ?n = "unat (nwrite q - nread q)"
  have n: "unat (nwrite q - (nread q + 1)) = ?n - 1"
    using count_pred [OF assms(2)] by (simp add: algebra_simps)
  show "pipe_wf (snd (pipe_get q))" using assms n by (auto simp: pipe_get_def pipe_wf_def)
  obtain m where m: "?n = Suc m" using assms(2) by (cases ?n) auto
  show "fst (pipe_get q) = hd (pipe_items q)"
    by (simp add: pipe_get_def pipe_items_def m ring_index_0 del: upt_Suc) (simp add: upt_conv_Cons del: upt_Suc)
  have "unat (nread q + 1) mod 512 = (unat (nread q) + 1) mod 512"
    using ring_index [of "nread q" 1] ring_index_0 [of "nread q + 1"] by simp
  then have "(unat (nread q + 1) + i) mod 512 = (unat (nread q) + Suc i) mod 512" for i
    by (metis add_Suc_right add_Suc_shift mod_add_left_eq Suc_eq_plus1)
  then show "pipe_items (snd (pipe_get q)) = tl (pipe_items q)"
    by (simp add: pipe_get_def pipe_items_def n m map_tl [symmetric] tl_upt del: upt_Suc)
      (simp add: map_Suc_upt [symmetric] del: upt_Suc)
qed

interpretation pipe_ring: fifo pipe_wf pipe_items 512 pipe_put pipe_get
proof
  show "pipe_wf s \<Longrightarrow> length (pipe_items s) \<le> 512" for s by (simp add: pipe_wf_def)
  show "pipe_wf s \<Longrightarrow> length (pipe_items s) < 512 \<Longrightarrow> pipe_wf (pipe_put v s)" for s v by (simp add: pipe_put_items)
  show "pipe_wf s \<Longrightarrow> length (pipe_items s) < 512 \<Longrightarrow> pipe_items (pipe_put v s) = pipe_items s @ [v]" for s v by (simp add: pipe_put_items)
  have ne: "pipe_items s \<noteq> [] \<Longrightarrow> 0 < unat (nwrite s - nread s)" for s by (metis length_greater_0_conv length_pipe_items)
  show "pipe_wf s \<Longrightarrow> pipe_items s \<noteq> [] \<Longrightarrow> pipe_wf (snd (pipe_get s))" for s using ne by (simp add: pipe_get_items)
  show "pipe_wf s \<Longrightarrow> pipe_items s \<noteq> [] \<Longrightarrow> pipe_items (snd (pipe_get s)) = tl (pipe_items s)" for s using ne by (simp add: pipe_get_items)
  show "pipe_wf s \<Longrightarrow> pipe_items s \<noteq> [] \<Longrightarrow> fst (pipe_get s) = hd (pipe_items s)" for s using ne by (simp add: pipe_get_items)
qed

lemma pipe_full_items: "pipe_full q \<longleftrightarrow> length (pipe_items q) = 512"
proof -
  have "pipe_full q \<longleftrightarrow> nwrite q - nread q = 512" by (auto simp: pipe_full_def PIPESIZE_def algebra_simps)
  also have "\<dots> \<longleftrightarrow> unat (nwrite q - nread q) = unat (512 :: u32)" by (simp only: word_unat_eq_iff)
  finally show ?thesis by simp
qed

lemma pipe_empty_items: "pipe_empty q \<longleftrightarrow> pipe_items q = []"
  by (auto simp: pipe_empty_def pipe_items_def unat_eq_zero)

lemma pipe_ends_same [simp]: "readopen (pipe_put c q) = readopen q" "writeopen (pipe_put c q) = writeopen q"
  "nread (pipe_put c q) = nread q"
  by (simp_all add: pipe_put_def pipe_get_def)

subsection \<open>Writing\<close>

lemma aspace_same:
  "mem t = mem s \<Longrightarrow> freelist t = freelist s \<Longrightarrow> kend t = kend s \<Longrightarrow> aspace t pt ps = aspace s pt ps"
  by (simp add: aspace_def vm_inv_def free_pages_def pt_wf_def frame_ok_def)

lemma pipe_set_sel [simp]:
  "mem (pipe_set pi q s) = mem s" "freelist (pipe_set pi q s) = freelist s" "kend (pipe_set pi q s) = kend s"
  "procs (pipe_set pi q s) = procs s" "cur (pipe_set pi q s) = cur s" "pipes (pipe_set pi q s) pi = Some q"
  "pipe_set pi r (pipe_set pi q s) = pipe_set pi r s"
  by (simp_all add: pipe_set_def)

lemma pipewrite_step:
  fixes s :: "'a kfiles_scheme"
  assumes "cur s = Some p" "pipes s pi = Some q" "readopen q" "\<not> killed p s" "\<not> pipe_full q" "i < n"
    and "aspace s (p_pagetable (pget p s)) ps" "ureadable (mem s) (p_pagetable (pget p s)) (addr + of_int i)"
  shows "pipewrite pi addr n i s = pipewrite pi addr n (i + 1)
    (pipe_set pi (pipe_put (mem s (uaddr (mem s) (p_pagetable (pget p s)) (addr + of_int i))) q) s)"
proof -
  have "copyin (p_pagetable (pget p s)) (addr + of_int i) 1 [] s =
    Some (0, [mem s (uaddr (mem s) (p_pagetable (pget p s)) (addr + of_int i))], s)"
    using copyin_ok [OF assms(7), of 1 "addr + of_int i" "[]"] assms(8) by simp
  then show ?thesis using assms by (subst pipewrite.simps) (simp add: myproc_def)
qed

text \<open>The free places of a pipe; the bytes \<open>i\<close> to \<open>n\<close> of a user buffer.\<close>

definition free_places :: "pipe \<Rightarrow> nat" where
  "free_places q = 512 - length (pipe_items q)"

definition user_bytes :: "memory \<Rightarrow> u64 \<Rightarrow> u64 \<Rightarrow> int \<Rightarrow> int \<Rightarrow> u8 list" where
  "user_bytes m pt addr i n = map (\<lambda>k. m (uaddr m pt (addr + of_int k))) [i..n - 1]"

lemma user_bytes_Cons: "i < n \<Longrightarrow> user_bytes m pt addr i n = m (uaddr m pt (addr + of_int i)) # user_bytes m pt addr (i + 1) n"
  by (simp add: user_bytes_def upto_rec1)

lemma length_user_bytes [simp]: "length (user_bytes m pt addr i n) = nat (n - i)"
  by (simp add: user_bytes_def)

lemma pipewrite_ok:
  fixes s :: "'a kfiles_scheme"
  assumes "cur s = Some p" "pipes s pi = Some q" "readopen q" "\<not> killed p s" "pipe_wf q" "i \<le> n"
    and "aspace s (p_pagetable (pget p s)) ps" "\<forall>k. i \<le> k \<and> k < n \<longrightarrow> ureadable (mem s) (p_pagetable (pget p s)) (addr + of_int k)"
  shows "\<exists>q'. pipe_wf q' \<and> readopen q' \<and> writeopen q' = writeopen q \<and> nread q' = nread q \<and>
    pipe_items q' = pipe_items q @ take (free_places q) (user_bytes (mem s) (p_pagetable (pget p s)) addr i n) \<and>
    pipewrite pi addr n i s = (if nat (n - i) \<le> free_places q then Some (Returns n, wakeup (ChPipeRead pi) (pipe_set pi q' s))
      else map_option (Pair (Sleeps (Pipe_writing (i + int (free_places q)))))
        (sleep (ChPipeWrite pi) (wakeup (ChPipeRead pi) (pipe_set pi q' s))))"
  using assms
proof (induction "nat (n - i)" arbitrary: i q s)
  case 0
  then have "i = n" by simp
  moreover have "pipe_set pi q s = s" using 0(3) by (auto simp: pipe_set_def fun_upd_idem)
  ultimately show ?case using 0 by (intro exI [of _ q]) (simp add: pipewrite.simps user_bytes_def)
next
  case (Suc m)
  let ?pt = "p_pagetable (pget p s)"
  have lt: "i < n" using Suc.hyps(2) by simp
  show ?case
  proof (cases "pipe_full q")
    case True
    then have r: "free_places q = 0" by (simp add: pipe_full_items free_places_def)
    have id: "pipe_set pi q s = s" using Suc.prems(2) by (auto simp: pipe_set_def fun_upd_idem)
    have "pipewrite pi addr n i s = map_option (Pair (Sleeps (Pipe_writing i))) (sleep (ChPipeWrite pi) (wakeup (ChPipeRead pi) s))"
      using Suc.prems True lt by (subst pipewrite.simps) (auto simp: myproc_def map_option_case split: option.split)
    then show ?thesis using Suc.prems r lt id by (intro exI [of _ q]) simp
  next
    case False
    then have len: "length (pipe_items q) < 512" using Suc.prems(5) by (auto simp: pipe_full_items pipe_wf_def)
    define c where "c = mem s (uaddr (mem s) ?pt (addr + of_int i))"
    let ?q = "pipe_put c q" and ?s = "pipe_set pi (pipe_put c q) s"
    have step: "pipewrite pi addr n i s = pipewrite pi addr n (i + 1) ?s"
      unfolding c_def by (rule pipewrite_step [OF Suc.prems(1-4) False lt Suc.prems(7)]) (use Suc.prems(8) lt in simp)
    have q1: "pipe_wf ?q" "pipe_items ?q = pipe_items q @ [c]" using pipe_put_items Suc.prems(5) len by simp_all
    have hyp: "m = nat (n - (i + 1))" using Suc.hyps(2) lt by simp
    have pt: "p_pagetable (pget p ?s) = ?pt" "killed p ?s = killed p s" by (simp_all add: killed_def)
    have as1: "aspace ?s (p_pagetable (pget p ?s)) ps" using Suc.prems(7) aspace_same [of ?s s] by simp
    have rd: "\<forall>k. i + 1 \<le> k \<and> k < n \<longrightarrow> ureadable (mem ?s) (p_pagetable (pget p ?s)) (addr + of_int k)"
      using Suc.prems(8) by (simp add: pt)
    have st: "cur ?s = Some p" "pipes ?s pi = Some ?q" "readopen ?q" "\<not> killed p ?s" "i + 1 \<le> n"
      using Suc.prems lt by (simp_all add: pt)
    obtain q' where q': "pipe_wf q'" "readopen q'" "writeopen q' = writeopen q" "nread q' = nread q"
      "pipe_items q' = pipe_items ?q @ take (free_places ?q) (user_bytes (mem s) ?pt addr (i + 1) n)"
      "pipewrite pi addr n (i + 1) ?s = (if nat (n - (i + 1)) \<le> free_places ?q
        then Some (Returns n, wakeup (ChPipeRead pi) (pipe_set pi q' s))
        else map_option (Pair (Sleeps (Pipe_writing (i + 1 + int (free_places ?q)))))
          (sleep (ChPipeWrite pi) (wakeup (ChPipeRead pi) (pipe_set pi q' s))))"
      using Suc.hyps(1) [OF hyp st(1-4) q1(1) st(5) as1 rd] by (auto simp: pt)
    have r: "free_places q = Suc (free_places ?q)" using q1(2) len by (simp add: free_places_def)
    show ?thesis using q' hyp Suc.hyps(2) [symmetric] unfolding step r user_bytes_Cons [OF lt] c_def [symmetric]
      by (intro exI [of _ q']) (simp add: q1(2) algebra_simps)
  qed
qed

subsection \<open>Reading\<close>

lemma copyout_byte:
  fixes s :: "'a kfiles_scheme"
  assumes "aspace s pt ps" "uwritable (mem s) pt a"
  shows "copyout pt a [c] s = Some (0, s\<lparr>mem := (mem s)(uaddr (mem s) pt a := c)\<rparr>)"
proof -
  obtain m where m: "copyout pt a [c] s = Some (0, s\<lparr>mem := m\<rparr>)" "\<forall>k<1. m (uaddr (mem s) pt (a + of_nat k)) = [c] ! k"
    "\<forall>x. (\<forall>k<1. x \<noteq> uaddr (mem s) pt (a + of_nat k)) \<longrightarrow> m x = mem s x"
    using copyout_ok [OF assms(1), of "[c]" a] assms(2) by auto
  have "m = (mem s)(uaddr (mem s) pt a := c)" using m(2,3) by (auto simp: fun_eq_iff)
  then show ?thesis using m(1) by simp
qed

lemma store_byte_space:
  assumes "aspace s pt ps" "uwritable (mem s) pt a"
  shows "aspace (s\<lparr>mem := (mem s)(uaddr (mem s) pt a := c)\<rparr>) pt ps" "leaf ((mem s)(uaddr (mem s) pt a := c)) pt = leaf (mem s) pt"
proof -
  have r: "ureadable (mem s) pt a" using assms(2) by (simp add: uwritable_def)
  have k: "((mem s)(uaddr (mem s) pt a := c)) x = mem s x" if "PGROUNDDOWN x \<in> tables (mem s) pt \<union> set ps" for x
    using that uaddr_frame [OF assms(1) r] readable_frame(2,3) [OF assms(1) r] by auto
  show "aspace (s\<lparr>mem := (mem s)(uaddr (mem s) pt a := c)\<rparr>) pt ps" "leaf ((mem s)(uaddr (mem s) pt a := c)) pt = leaf (mem s) pt"
    using aspace_user_store [OF assms(1), of "(mem s)(uaddr (mem s) pt a := c)"] k by blast+
qed

text \<open>The bytes \<open>cs\<close> stored at a user address and those after it.\<close>

fun user_stores :: "u64 \<Rightarrow> u64 \<Rightarrow> u8 list \<Rightarrow> memory \<Rightarrow> memory" where
  "user_stores pt a [] m = m"
| "user_stores pt a (c # cs) m = user_stores pt (a + 1) cs (m(uaddr m pt a := c))"

lemma pipe_set_mem: "(pipe_set pi q s)\<lparr>mem := m\<rparr> = pipe_set pi q (s\<lparr>mem := m\<rparr>)"
  by (simp add: pipe_set_def)

lemma piperead_copy_ok:
  fixes s :: "'a kfiles_scheme"
  assumes "cur s = Some p" "pipes s pi = Some q" "pipe_wf q" "i \<le> n" "aspace s pt ps" "pt = p_pagetable (pget p s)"
    and "\<forall>k. i \<le> k \<and> k < n \<longrightarrow> uwritable (mem s) pt (addr + of_int k)"
  shows "\<exists>q' m. pipe_wf q' \<and> q' = q\<lparr>nread := nread q + of_nat (min (nat (n - i)) (length (pipe_items q)))\<rparr> \<and>
    pipe_items q' = drop (nat (n - i)) (pipe_items q) \<and>
    m = user_stores pt (addr + of_int i) (take (nat (n - i)) (pipe_items q)) (mem s) \<and>
    piperead_copy pi addr n i s = Some (Returns (i + int (min (nat (n - i)) (length (pipe_items q)))),
      wakeup (ChPipeWrite pi) (pipe_set pi q' (s\<lparr>mem := m\<rparr>)))"
  using assms
proof (induction "nat (n - i)" arbitrary: i q s)
  case 0
  then have "i = n" by simp
  moreover have "pipe_set pi q s = s" using 0(3) by (auto simp: pipe_set_def fun_upd_idem)
  ultimately show ?case using 0 by (intro exI [of _ q] exI [of _ "mem s"]) (simp add: piperead_copy.simps)
next
  case (Suc k)
  have lt: "i < n" using Suc.hyps(2) by simp
  show ?case
  proof (cases "pipe_items q")
    case Nil
    have id: "pipe_set pi q s = s" using Suc.prems(2) by (auto simp: pipe_set_def fun_upd_idem)
    have "piperead_copy pi addr n i s = Some (Returns i, wakeup (ChPipeWrite pi) s)"
      using Suc.prems lt Nil by (subst piperead_copy.simps) (simp add: myproc_def pipe_empty_items)
    then show ?thesis using Suc.prems Nil id by (intro exI [of _ q] exI [of _ "mem s"]) simp
  next
    case (Cons c cs)
    then have pos: "0 < unat (nwrite q - nread q)" by (metis length_greater_0_conv length_pipe_items list.distinct(1))
    obtain q1 where g: "pipe_get q = (c, q1)" using pipe_get_items(2) [OF Suc.prems(3) pos] Cons by (cases "pipe_get q") simp
    have q1: "pipe_wf q1" "pipe_items q1 = cs" "q1 = q\<lparr>nread := nread q + 1\<rparr>"
      using pipe_get_items [OF Suc.prems(3) pos] g Cons by (auto simp: pipe_get_def)
    have w: "uwritable (mem s) pt (addr + of_int i)" using Suc.prems(7) lt by simp
    let ?m = "(mem s)(uaddr (mem s) pt (addr + of_int i) := c)"
    let ?s = "pipe_set pi q1 (s\<lparr>mem := ?m\<rparr>)"
    have as0: "aspace (pipe_set pi q1 s) pt ps" using Suc.prems(5) aspace_same [of "pipe_set pi q1 s" s] by simp
    note sp = store_byte_space [OF Suc.prems(5) w, of c]
    have as1: "aspace ?s pt ps" using sp(1) aspace_same [of ?s "s\<lparr>mem := ?m\<rparr>"] by simp
    have "copyout pt (addr + of_int i) [c] (pipe_set pi q1 s) = Some (0, ?s)"
      using copyout_byte [OF as0, of "addr + of_int i" c] w by (simp add: pipe_set_mem)
    then have step: "piperead_copy pi addr n i s = piperead_copy pi addr n (i + 1) ?s"
      using Suc.prems(1,2,6) lt Cons g by (subst piperead_copy.simps) (simp add: myproc_def pipe_empty_items)
    have hyp: "k = nat (n - (i + 1))" using Suc.hyps(2) lt by simp
    have w1: "uwritable ?m pt = uwritable (mem s) pt" using sp(2) by (simp add: uwritable_def ureadable_def fun_eq_iff)
    have wr: "\<forall>k. i + 1 \<le> k \<and> k < n \<longrightarrow> uwritable (mem ?s) pt (addr + of_int k)" using Suc.prems(7) by (simp add: w1)
    have st: "cur ?s = Some p" "pipes ?s pi = Some q1" "i + 1 \<le> n" "pt = p_pagetable (pget p ?s)"
      using Suc.prems lt by simp_all
    obtain q' where q': "pipe_wf q'" "q' = q1\<lparr>nread := nread q1 + of_nat (min (nat (n - (i + 1))) (length cs))\<rparr>"
      "pipe_items q' = drop (nat (n - (i + 1))) cs"
      "piperead_copy pi addr n (i + 1) ?s = Some (Returns (i + 1 + int (min (nat (n - (i + 1))) (length cs))),
        wakeup (ChPipeWrite pi) (pipe_set pi q' (?s\<lparr>mem := user_stores pt (addr + of_int (i + 1)) (take (nat (n - (i + 1))) cs) (mem ?s)\<rparr>)))"
      using Suc.hyps(1) [OF hyp st(1,2) q1(1) st(3) as1 st(4) wr] unfolding q1(2) by blast
    have d: "nat (n - i) = Suc (nat (n - (i + 1)))" using hyp Suc.hyps(2) by simp
    have "q' = q\<lparr>nread := nread q + of_nat (min (nat (n - i)) (length (pipe_items q)))\<rparr>"
      unfolding q'(2) q1(3) d Cons by (simp add: add.assoc)
    then show ?thesis
      using q' unfolding step d
      by (intro exI [of _ q'] exI [of _ "user_stores pt (addr + of_int i) (take (Suc (nat (n - (i + 1)))) (pipe_items q)) (mem s)"])
        (simp add: Cons pipe_set_mem add.assoc)
  qed
qed

lemma user_stores_ok:
  assumes "aspace s pt ps" "length cs < 2 ^ 64" "\<forall>k<length cs. uwritable (mem s) pt (a + of_nat k)"
  shows "(\<forall>k<length cs. user_stores pt a cs (mem s) (uaddr (mem s) pt (a + of_nat k)) = cs ! k) \<and>
    (\<forall>x. (\<forall>k<length cs. x \<noteq> uaddr (mem s) pt (a + of_nat k)) \<longrightarrow> user_stores pt a cs (mem s) x = mem s x)"
  using assms
proof (induction cs arbitrary: a s)
  case (Cons c cs)
  let ?u = "\<lambda>k. uaddr (mem s) pt (a + of_nat k)"
  have w: "uwritable (mem s) pt a" using Cons.prems(3) by (auto dest: spec [of _ 0])
  obtain m1 where m1: "m1 = (mem s)(uaddr (mem s) pt a := c)" by simp
  note sp = store_byte_space [OF Cons.prems(1) w, of c, folded m1]
  have e: "uwritable m1 pt = uwritable (mem s) pt" "uaddr m1 pt = uaddr (mem s) pt"
    using sp(2) by (simp_all add: uwritable_def ureadable_def uaddr_def fun_eq_iff)
  have w1: "\<forall>k<length cs. uwritable (mem (s\<lparr>mem := m1\<rparr>)) pt (a + 1 + of_nat k)"
  proof (intro allI impI)
    fix k assume "k < length cs"
    then show "uwritable (mem (s\<lparr>mem := m1\<rparr>)) pt (a + 1 + of_nat k)" using Cons.prems(3) [rule_format, of "Suc k"] by (simp add: e add.assoc)
  qed
  have len: "length cs < 2 ^ 64" using Cons.prems(2) by simp
  have IH: "\<And>k. k < length cs \<Longrightarrow> user_stores pt (a + 1) cs m1 (?u (Suc k)) = cs ! k"
    "\<And>x. (\<And>k. k < length cs \<Longrightarrow> x \<noteq> ?u (Suc k)) \<Longrightarrow> user_stores pt (a + 1) cs m1 x = m1 x"
    using Cons.IH [OF sp(1) len w1] by (auto simp: e add.assoc)
  have ne: "?u 0 \<noteq> ?u (Suc k)" if "k < length cs" for k
  proof
    assume "?u 0 = ?u (Suc k)"
    moreover have "ureadable (mem s) pt (a + of_nat 0)" "ureadable (mem s) pt (a + of_nat (Suc k))"
      using Cons.prems(3) that w by (simp_all add: uwritable_def del: of_nat_Suc)
    ultimately have "a + of_nat 0 = a + of_nat (Suc k)" using uaddr_inj [OF Cons.prems(1)] by blast
    then have "(of_nat (Suc k) :: u64) = 0" by simp
    moreover have "unat (of_nat (Suc k) :: u64) = Suc k" using that Cons.prems(2) by (simp add: unat_of_nat del: of_nat_Suc)
    ultimately show False by simp
  qed
  show ?case
  proof (intro conjI allI impI)
    fix k assume k: "k < length (c # cs)"
    show "user_stores pt a (c # cs) (mem s) (?u k) = (c # cs) ! k"
    proof (cases k)
      case 0
      have "user_stores pt (a + 1) cs m1 (?u 0) = m1 (?u 0)" using ne by (intro IH(2)) blast
      then show ?thesis using 0 by (simp add: m1)
    next
      case (Suc j)
      then show ?thesis using IH(1) [of j] k by (simp add: m1)
    qed
  next
    fix x assume x: "\<forall>k<length (c # cs). x \<noteq> ?u k"
    have "x \<noteq> ?u (Suc k)" if "k < length cs" for k using x that by (simp del: of_nat_Suc)
    then have "user_stores pt (a + 1) cs m1 x = m1 x" by (intro IH(2)) blast
    then show "user_stores pt a (c # cs) (mem s) x = mem s x" using x [rule_format, of 0] by (simp add: m1)
  qed
qed simp

text \<open>C18. \<open>pipewrite\<close>.  Called for a mapped user buffer on a pipe whose reading end is open,
  \<open>pipewrite\<close> returns: the bytes of the buffer are appended to the bytes in the pipe, in
  order, as many as fit into its 512 places.  When all fit the result is \<open>n\<close> and readers
  are woken; otherwise the caller has woken the readers and sleeps, with as many bytes
  accounted for as went in.  Both ends stay open or closed as they were, and the read counter
  stays.  The 32-bit counters may wrap around at any time.\<close>

theorem pipewrite_appends:
  fixes s :: "'a kfiles_scheme"
  assumes "cur s = Some p" "pipes s pi = Some q" "pipe_wf q" "readopen q" "\<not> killed p s" "0 \<le> n"
    and "aspace s (p_pagetable (pget p s)) ps" "\<forall>k. 0 \<le> k \<and> k < n \<longrightarrow> ureadable (mem s) (p_pagetable (pget p s)) (addr + of_int k)"
  shows "\<exists>q'. pipe_wf q' \<and> readopen q' = readopen q \<and> writeopen q' = writeopen q \<and> nread q' = nread q \<and>
    pipe_items q' = pipe_items q @ take (free_places q) (user_bytes (mem s) (p_pagetable (pget p s)) addr 0 n) \<and>
    pipewrite pi addr n 0 s = (if nat n \<le> free_places q then Some (Returns n, wakeup (ChPipeRead pi) (pipe_set pi q' s))
      else map_option (Pair (Sleeps (Pipe_writing (int (free_places q)))))
        (sleep (ChPipeWrite pi) (wakeup (ChPipeRead pi) (pipe_set pi q' s))))"
  using pipewrite_ok [OF assms(1,2,4,5,3,6,7,8)] assms(4) by auto

text \<open>C19. \<open>piperead\<close>.  For a user buffer of \<open>n\<close> bytes that is mapped writable: on an empty pipe whose
  writing end is open the caller sleeps, or returns -1 if it has been killed.  Otherwise
  \<open>piperead\<close> returns the smaller of \<open>n\<close> and the number of bytes in the pipe; these bytes,
  the oldest ones and in order, are at the buffer's addresses, no other byte of memory has
  changed, the rest stays in the pipe, whose read counter advances by as much while everything else
  of it, its ends included, stays, and writers are woken.\<close>

theorem piperead_takes:
  fixes s :: "'a kfiles_scheme"
  assumes "cur s = Some p" "pipes s pi = Some q" "pipe_wf q" "0 \<le> n" "aspace s (p_pagetable (pget p s)) ps"
    and "\<forall>k. 0 \<le> k \<and> k < n \<longrightarrow> uwritable (mem s) (p_pagetable (pget p s)) (addr + of_int k)"
  shows "if pipe_items q = [] \<and> writeopen q
    then piperead pi addr n s = (if killed p s then Some (Returns (-1), s)
      else map_option (Pair (Sleeps Pipe_reading)) (sleep (ChPipeRead pi) s))
    else \<exists>q' m. q' = q\<lparr>nread := nread q + of_nat (min (nat n) (length (pipe_items q)))\<rparr> \<and>
      pipe_wf q' \<and> pipe_items q' = drop (nat n) (pipe_items q) \<and>
      piperead pi addr n s = Some (Returns (int (min (nat n) (length (pipe_items q)))),
        wakeup (ChPipeWrite pi) (pipe_set pi q' (s\<lparr>mem := m\<rparr>))) \<and>
      (\<forall>k<min (nat n) (length (pipe_items q)). m (uaddr (mem s) (p_pagetable (pget p s)) (addr + of_nat k)) = pipe_items q ! k) \<and>
      (\<forall>x. (\<forall>k<min (nat n) (length (pipe_items q)). x \<noteq> uaddr (mem s) (p_pagetable (pget p s)) (addr + of_nat k)) \<longrightarrow> m x = mem s x)"
proof (cases "pipe_items q = [] \<and> writeopen q")
  case True
  then have "piperead pi addr n s = (if killed p s then Some (Returns (-1), s)
      else map_option (Pair (Sleeps Pipe_reading)) (sleep (ChPipeRead pi) s))"
    using assms(1,2) by (auto simp: piperead_def myproc_def pipe_empty_items map_option_case split: option.split)
  then show ?thesis using True by simp
next
  case False
  let ?cs = "take (nat n) (pipe_items q)"
  obtain q' where q': "q' = q\<lparr>nread := nread q + of_nat (min (nat n) (length (pipe_items q)))\<rparr>"
    "pipe_wf q'" "pipe_items q' = drop (nat n) (pipe_items q)"
    "piperead_copy pi addr n 0 s = Some (Returns (int (min (nat n) (length (pipe_items q)))),
      wakeup (ChPipeWrite pi) (pipe_set pi q' (s\<lparr>mem := user_stores (p_pagetable (pget p s)) addr ?cs (mem s)\<rparr>)))"
    using piperead_copy_ok [OF assms(1-5) refl assms(6)] by (simp only: diff_zero of_int_0 add_0_right add_0_left) blast
  have len: "length ?cs < 2 ^ 64" using assms(3) by (simp add: pipe_wf_def min_less_iff_disj)
  have w: "\<forall>k<length ?cs. uwritable (mem s) (p_pagetable (pget p s)) (addr + of_nat k)"
  proof (intro allI impI)
    fix k assume "k < length ?cs"
    then have "int k < n" by (simp add: zless_nat_eq_int_zless)
    from assms(6) [rule_format, of "int k"] this show "uwritable (mem s) (p_pagetable (pget p s)) (addr + of_nat k)" by simp
  qed
  have "piperead pi addr n s = piperead_copy pi addr n 0 s"
    using assms(1,2) False by (auto simp: piperead_def myproc_def pipe_empty_items)
  moreover have "(\<forall>k<length ?cs. user_stores (p_pagetable (pget p s)) addr ?cs (mem s) (uaddr (mem s) (p_pagetable (pget p s)) (addr + of_nat k)) = ?cs ! k) \<and>
    (\<forall>x. (\<forall>k<length ?cs. x \<noteq> uaddr (mem s) (p_pagetable (pget p s)) (addr + of_nat k)) \<longrightarrow> user_stores (p_pagetable (pget p s)) addr ?cs (mem s) x = mem s x)"
    by (rule user_stores_ok) (use assms(5) len w in \<open>simp_all\<close>)
  moreover have "length ?cs = min (nat n) (length (pipe_items q))" by (simp add: min.commute)
  ultimately show ?thesis
    using False q' by (auto intro!: exI [of _ q'] exI [of _ "user_stores (p_pagetable (pget p s)) addr ?cs (mem s)"] simp del: length_take length_pipe_items)
qed

lemma pipes_wakeup [simp]: "pipes (wakeup ch s) = pipes s"
proof -
  have "pipes (fold (\<lambda>i s. if myproc s \<noteq> Some i then pset i (wakes ch) s else s) is s) = pipes s" for "is"
    by (induction "is" arbitrary: s) (auto simp: pset_def)
  then show ?thesis by (simp add: wakeup_def)
qed

text \<open>The demonstrations: the demo process with a pipe, and its page writable.\<close>

definition demo_pipe :: pipe where
  "demo_pipe = \<lparr>p_data = replicate 512 3, nread = 0xffffffff, nwrite = 1, readopen = True, writeopen = True\<rparr>"

definition demo_piping :: "u64 \<Rightarrow> kfiles" where
  "demo_piping e = (demo_kernel (demo_map e) 0 [demo_process, demo_proc])\<lparr>pipes := [0x87104000 \<mapsto> demo_pipe]\<rparr>"

lemma demo_piping_sel [simp]:
  "cur (demo_piping e) = Some 0" "procs (demo_piping e) = [demo_process, demo_proc]" "mem (demo_piping e) = demo_map e"
  "pipes (demo_piping e) 0x87104000 = Some demo_pipe" "kend (demo_piping e) = 0x80022000" "freelist (demo_piping e) = 0"
  by (simp_all add: demo_piping_def)

lemma demo_process_sel: "p_pagetable demo_process = 0x87100000" "p_killed demo_process = False"
  by (simp_all add: demo_process_def demo_proc_def init_proc_def)

lemma demo_pipe_items: "pipe_wf demo_pipe" "pipe_items demo_pipe = [3, 3]" "free_places demo_pipe = 510"
  by (simp_all add: pipe_wf_def pipe_items_def demo_pipe_def free_places_def upt_rec)

lemma demo_buffer:
  assumes "e AND PTE_V \<noteq> 0" "PTE2PA e = 0x87103000" "e AND PTE_U \<noteq> 0"
  shows "aspace (demo_piping e) 0x87100000 []" "\<forall>k. 0 \<le> k \<and> k < 3 \<longrightarrow> ureadable (demo_map e) 0x87100000 (0x4000 + of_int k)"
    "e AND PTE_W \<noteq> 0 \<Longrightarrow> \<forall>k. 0 \<le> k \<and> k < 3 \<longrightarrow> uwritable (demo_map e) 0x87100000 (0x4000 + of_int k)"
proof -
  show "aspace (demo_piping e) 0x87100000 []" by (rule demo_aspace [OF assms(1,2)]) simp_all
  have k: "(of_int k :: u64) = of_nat (nat k)" "nat k < 4096" if "0 \<le> k" "k < 3" for k using that by simp_all
  show r: "\<forall>k. 0 \<le> k \<and> k < 3 \<longrightarrow> ureadable (demo_map e) 0x87100000 (0x4000 + of_int k)"
  proof (intro allI impI)
    fix k :: int assume "0 \<le> k \<and> k < 3"
    then show "ureadable (demo_map e) 0x87100000 (0x4000 + of_int k)"
      using demo_readable(1) [OF assms k(2)] k(1) by metis
  qed
  assume w: "e AND PTE_W \<noteq> 0"
  show "\<forall>k. 0 \<le> k \<and> k < 3 \<longrightarrow> uwritable (demo_map e) 0x87100000 (0x4000 + of_int k)"
  proof (intro allI impI)
    fix k :: int assume b: "0 \<le> k \<and> k < 3"
    then have "leaf (demo_map e) 0x87100000 (PGROUNDDOWN (0x4000 + of_int k)) = e"
      using demo_readable(3) [OF assms k(2)] k(1) by metis
    then show "uwritable (demo_map e) 0x87100000 (0x4000 + of_int k)" using r b w by (simp add: uwritable_def)
  qed
qed

theorem pipewrite_appends_witness:
  "\<exists>t. pipewrite 0x87104000 0x4000 3 0 (demo_piping 0x21c40c13) = Some (Returns 3, t)"
proof -
  have e: "(0x21c40c13::u64) AND PTE_V \<noteq> 0" "PTE2PA 0x21c40c13 = 0x87103000" "(0x21c40c13::u64) AND PTE_U \<noteq> 0"
    by (simp_all add: PTE_V_def PTE2PA_def PTE_U_def)
  show ?thesis
    using pipewrite_appends [of "demo_piping 0x21c40c13" 0 "0x87104000" demo_pipe 3 "[]" "0x4000"] demo_buffer(1,2) [OF e] demo_pipe_items
    by (auto simp: demo_process_sel killed_def demo_pipe_def)
qed

theorem piperead_takes_witness:
  "\<exists>q t. piperead 0x87104000 0x4000 3 (demo_piping 0x21c40c17) = Some (Returns 2, t) \<and> pipes t 0x87104000 = Some q \<and> pipe_items q = []"
proof -
  have e: "(0x21c40c17::u64) AND PTE_V \<noteq> 0" "PTE2PA 0x21c40c17 = 0x87103000" "(0x21c40c17::u64) AND PTE_U \<noteq> 0" "(0x21c40c17::u64) AND PTE_W \<noteq> 0"
    by (simp_all add: PTE_V_def PTE2PA_def PTE_U_def PTE_W_def)
  show ?thesis
    using piperead_takes [of "demo_piping 0x21c40c17" 0 "0x87104000" demo_pipe 3 "[]" "0x4000"] demo_buffer(1) [OF e(1-3)]
      demo_buffer(3) [OF e] demo_pipe_items(1,2)
    by (auto simp: demo_process_sel)
qed

end
