(* ===== verification/Exec.thy ===== *)
theory Exec
  imports Procs
begin

section \<open>Loading a program (kernel/exec.c, kernel/elf.h)\<close>

text \<open>
  \<open>kexec\<close> reads the ELF headers, records the segments for the page-fault handler, maps
  a guard page and the first stack page, copies the arguments onto it and switches the
  process to the new image.  Header structures are read from their bytes at the
  offsets of elf.h.  Strings are the characters before the NUL, an argument vector is
  the list of its strings.  \<open>exec_fail\<close> is the code at the label \<open>bad\<close>.
\<close>

definition MAXARG :: nat where "MAXARG = 32"
definition ELF_MAGIC :: u32 where "ELF_MAGIC = 0x464C457F"
definition ELF_PROG_LOAD :: u32 where "ELF_PROG_LOAD = 1"

definition get64 :: "bytes \<Rightarrow> nat \<Rightarrow> u64" where
  "get64 d i = ucast (get32 d i) OR push_bit 32 (ucast (get32 d (i + 4)))"

definition long_bytes :: "u64 \<Rightarrow> u8 list" where
  "long_bytes w = map (put32 0 (ucast w) (put32 4 (ucast (drop_bit 32 w)) (\<lambda>_. 0))) [0..<8]"

record elfhdr =
  e_magic :: u32
  e_entry :: u64
  e_phoff :: u64
  e_phnum :: u16

definition elfhdr_of :: "u8 list \<Rightarrow> elfhdr" where
  "elfhdr_of l = (let d = de_bytes l in
     \<lparr>e_magic = get32 d 0, e_entry = get64 d 24, e_phoff = get64 d 32, e_phnum = get16 d 56\<rparr>)"

record proghdr =
  ph_type :: u32
  ph_flags :: u32
  ph_off :: u64
  ph_vaddr :: u64
  ph_filesz :: u64
  ph_memsz :: u64

definition proghdr_of :: "u8 list \<Rightarrow> proghdr" where
  "proghdr_of l = (let d = de_bytes l in
     \<lparr>ph_type = get32 d 0, ph_flags = get32 d 4, ph_off = get64 d 8, ph_vaddr = get64 d 16,
       ph_filesz = get64 d 32, ph_memsz = get64 d 40\<rparr>)"

definition flags2perm :: "u32 \<Rightarrow> u64" where
  "flags2perm flags = (if flags AND 1 \<noteq> 0 then PTE_X else 0) OR (if flags AND 2 \<noteq> 0 then PTE_W else 0)"

subsection \<open>Segments\<close>

text \<open>The local variables of the loop over the program headers.\<close>

record layout =
  l_sz :: u64
  l_text_start :: u64
  l_text_end :: u64
  l_data_start :: u64
  l_data_end :: u64
  l_found_text :: bool
  l_found_data :: bool

definition empty_layout :: layout where
  "empty_layout = \<lparr>l_sz = 0, l_text_start = 0, l_text_end = 0, l_data_start = 0, l_data_end = 0,
     l_found_text = False, l_found_data = False\<rparr>"

definition track_region :: "proghdr \<Rightarrow> layout \<Rightarrow> layout" where
  "track_region ph l =
     (if ph_flags ph AND 1 \<noteq> 0 \<and> ph_flags ph AND 2 = 0
      then (if l_found_text l then l else l\<lparr>l_text_start := ph_vaddr ph, l_found_text := True\<rparr>)
             \<lparr>l_text_end := ph_vaddr ph + ph_memsz ph\<rparr>
      else (if l_found_data l then l else l\<lparr>l_data_start := ph_vaddr ph, l_found_data := True\<rparr>)
             \<lparr>l_data_end := ph_vaddr ph + ph_memsz ph\<rparr>)"

definition grow_size :: "proghdr \<Rightarrow> layout \<Rightarrow> layout" where
  "grow_size ph l = (if ph_vaddr ph + ph_memsz ph > l_sz l then l\<lparr>l_sz := ph_vaddr ph + ph_memsz ph\<rparr> else l)"

definition save_segment :: "proghdr \<Rightarrow> proc \<Rightarrow> proc" where
  "save_segment ph q =
     (if num_segments q < MAX_SEGMENTS
      then q\<lparr>segments := (segments q)[num_segments q := \<lparr>va_start = ph_vaddr ph,
               va_end = ph_vaddr ph + ph_memsz ph, file_off = ph_off ph, filesz = ph_filesz ph,
               seg_flags = ph_flags ph\<rparr>],
             num_segments := num_segments q + 1\<rparr>
      else q)"

definition bad_header :: "proghdr \<Rightarrow> bool" where
  "bad_header ph \<longleftrightarrow> ph_memsz ph < ph_filesz ph \<or> ph_vaddr ph + ph_memsz ph < ph_vaddr ph \<or>
     ph_vaddr ph mod PGSIZE \<noteq> 0"

fun exec_headers ::
    "nat \<Rightarrow> nat \<Rightarrow> nat \<Rightarrow> u32 \<Rightarrow> layout \<Rightarrow> 'a kfiles_scheme \<Rightarrow> (bool \<times> layout \<times> 'a kfiles_scheme) option" where
  "exec_headers p ip 0 off l s = Some (True, l, s)"
| "exec_headers p ip (Suc k) off l s = do {
     (r, b, s) \<leftarrow> readi to_local ip [] off 56 s;
     if r \<noteq> 56 then Some (False, l, s)
     else let ph = proghdr_of b in
       if ph_type ph \<noteq> ELF_PROG_LOAD then exec_headers p ip k (off + 56) l s
       else if bad_header ph then Some (False, l, s)
       else exec_headers p ip k (off + 56) (grow_size ph (track_region ph l)) (pset p (save_segment ph) s)
   }"

subsection \<open>The stack\<close>

definition exec_fail :: "u64 \<Rightarrow> u64 \<Rightarrow> nat option \<Rightarrow> 'a kinodes_scheme \<Rightarrow> (int \<times> 'a kinodes_scheme) option" where
  "exec_fail pagetable sz ip s = do {
     s \<leftarrow> (if pagetable \<noteq> 0 then proc_freepagetable pagetable sz s else Some s);
     s \<leftarrow> (case ip of None \<Rightarrow> Some s
       | Some ip \<Rightarrow> do { s \<leftarrow> iunlockput ip s; end_op s });
     Some (-1, s)
   }"

text \<open>One zeroed page mapped at \<open>va\<close>; false when memory has run out.\<close>

definition exec_page :: "u64 \<Rightarrow> u64 \<Rightarrow> u64 \<Rightarrow> 'a kmem_scheme \<Rightarrow> (bool \<times> 'a kmem_scheme) option" where
  "exec_page pagetable va perm s = (case kalloc s of (pa, s) \<Rightarrow>
     if pa = 0 then Some (False, s)
     else do {
       (r, s) \<leftarrow> mappages pagetable va PGSIZE pa perm (s\<lparr>mem := memset pa 0 4096 (mem s)\<rparr>);
       if r < 0 then do { s \<leftarrow> kfree pa s; Some (False, s) } else Some (True, s)
     })"

definition exec_stack :: "u64 \<Rightarrow> u64 \<Rightarrow> u64 \<Rightarrow> 'a kmem_scheme \<Rightarrow> (bool \<times> 'a kmem_scheme) option" where
  "exec_stack pagetable stackbase sp s = do {
     let guard_page = stackbase - PGSIZE;
     (ok, s) \<leftarrow> exec_page pagetable guard_page (PTE_R OR PTE_W) s;
     if \<not> ok then Some (False, s)
     else do {
       s \<leftarrow> uvmclear pagetable guard_page s;
       exec_page pagetable (PGROUNDDOWN (sp - PGSIZE)) (PTE_U OR PTE_R OR PTE_W) s
     }
   }"

text \<open>The loop over the arguments: the new stack pointer and \<open>ustack\<close>, or a failure.\<close>

fun exec_args ::
    "u64 \<Rightarrow> u64 \<Rightarrow> u8 list list \<Rightarrow> u64 \<Rightarrow> u64 list \<Rightarrow> 'a kfiles_scheme \<Rightarrow> ((u64 \<times> u64 list) option \<times> 'a kfiles_scheme) option" where
  "exec_args pagetable stackbase [] sp ustack s = Some (Some (sp, ustack), s)"
| "exec_args pagetable stackbase (arg # args) sp ustack s =
     (if length ustack \<ge> MAXARG then Some (None, s)
      else let sp = sp - (of_nat (length arg) + 1); sp = sp - sp mod 16 in
        if sp < stackbase then Some (None, s)
        else do {
          (r, s) \<leftarrow> copyout pagetable sp (arg @ [0]) s;
          if r < 0 then Some (None, s)
          else exec_args pagetable stackbase args sp (ustack @ [sp]) s
        })"

text \<open>The arguments and then \<open>ustack\<close> itself with its terminating 0.\<close>

definition exec_push ::
    "u64 \<Rightarrow> u64 \<Rightarrow> u8 list list \<Rightarrow> u64 \<Rightarrow> 'a kfiles_scheme \<Rightarrow> ((u64 \<times> nat) option \<times> 'a kfiles_scheme) option" where
  "exec_push pagetable stackbase argv sp s = do {
     (a, s) \<leftarrow> exec_args pagetable stackbase argv sp [] s;
     case a of
       None \<Rightarrow> Some (None, s)
     | Some (sp, ustack) \<Rightarrow>
         let argc = length ustack; sp = sp - of_nat ((argc + 1) * 8); sp = sp - sp mod 16 in
         if sp < stackbase then Some (None, s)
         else do {
           (r, s) \<leftarrow> copyout pagetable sp (concat (map long_bytes (ustack @ [0]))) s;
           if r < 0 then Some (None, s) else Some (Some (sp, argc), s)
         }
   }"

subsection \<open>Switching to the new image\<close>

definition last_elem :: "u8 list \<Rightarrow> u8 list" where
  "last_elem path = rev (takeWhile (\<lambda>c. c \<noteq> SLASH) (rev path))"

definition cstring :: "u8 list \<Rightarrow> bytes" where
  "cstring l = (\<lambda>i. if i < length l then l ! i else 0)"

definition TF_A1 :: nat where "TF_A1 = 120"

definition exec_image :: "u64 \<Rightarrow> u64 \<Rightarrow> layout \<Rightarrow> u64 \<Rightarrow> proc \<Rightarrow> proc" where
  "exec_image pagetable sz l heap q = q\<lparr>p_pagetable := pagetable, p_sz := sz,
     text_start := l_text_start l, text_end := l_text_end l, data_start := l_data_start l,
     data_end := l_data_end l, heap_start := heap, stack_top := sz, num_pages := 0, next_fifo_seq := 1\<rparr>"

definition exec_commit ::
    "nat \<Rightarrow> u8 list \<Rightarrow> u64 \<Rightarrow> u64 \<Rightarrow> layout \<Rightarrow> u64 \<Rightarrow> u64 \<Rightarrow> u64 \<Rightarrow> u64 \<Rightarrow> 'a kprocs_scheme \<Rightarrow> 'a kprocs_scheme option" where
  "exec_commit p path pagetable sz l heap entry sp oldsz s =
     (let s = tf_set p TF_A1 sp s;
          s = pset p (\<lambda>q. q\<lparr>p_name := safestrcpy (p_name q) (cstring (last_elem path)) 16\<rparr>) s;
          old = p_pagetable (pget p s);
          s = pset p (exec_image pagetable sz l heap) s;
          s = tf_set p TF_SP sp (tf_set p TF_EPC entry s);
          s = kprint (INIT_LAZYMAP (p_pid (pget p s)) (l_text_start l) (l_text_end l)
                (l_data_start l) (l_data_end l) heap sz) s in
      case add_page_info p (PGROUNDDOWN (sz - PGSIZE)) s of (i, s) \<Rightarrow>
        let s = (case i of None \<Rightarrow> s
              | Some i \<Rightarrow> let q = next_fifo_seq (pget p s) in
                  pi_set p i (\<lambda>pg. pg\<lparr>pi_state := RESIDENT, pi_seq := q, is_dirty := False\<rparr>)
                    (pset p (\<lambda>r. r\<lparr>next_fifo_seq := q + 1\<rparr>) s)) in
        proc_freepagetable old oldsz s)"

text \<open>After the headers: the old inode is let go, the stack is built, the image switched.\<close>

definition exec_finish ::
    "nat \<Rightarrow> nat \<Rightarrow> u8 list \<Rightarrow> u8 list list \<Rightarrow> u64 \<Rightarrow> layout \<Rightarrow> u64 \<Rightarrow> 'a kfiles_scheme \<Rightarrow> (int \<times> 'a kfiles_scheme) option" where
  "exec_finish p ip path argv pagetable l entry s = do {
     let s = pset p (\<lambda>q. q\<lparr>exec_inode := Some ip, exec_offset := 0\<rparr>) (idup ip s);
     s \<leftarrow> iunlockput ip s;
     s \<leftarrow> end_op s;
     let oldsz = p_sz (pget p s);
     let heap = PGROUNDUP (l_sz l);
     let sz = heap + (USERSTACK + 1) * PGSIZE;
     let stackbase = sz - USERSTACK * PGSIZE;
     (ok, s) \<leftarrow> exec_stack pagetable stackbase sz s;
     if \<not> ok then exec_fail pagetable sz None s
     else do {
       (a, s) \<leftarrow> exec_push pagetable stackbase argv sz s;
       case a of
         None \<Rightarrow> exec_fail pagetable sz None s
       | Some (sp, argc) \<Rightarrow> do {
           s \<leftarrow> exec_commit p path pagetable sz l heap entry sp oldsz s;
           Some (int argc, s)
         }
     }
   }"

definition kexec :: "u8 list \<Rightarrow> u8 list list \<Rightarrow> 'a kfiles_scheme \<Rightarrow> (int \<times> 'a kfiles_scheme) option" where
  "kexec path argv s = do {
     p \<leftarrow> myproc s;
     s \<leftarrow> begin_op s;
     (ip, s) \<leftarrow> namei path s;
     case ip of
       None \<Rightarrow> do { s \<leftarrow> end_op s; Some (-1, s) }
     | Some ip \<Rightarrow> do {
         s \<leftarrow> ilock ip s;
         (r, b, s) \<leftarrow> readi to_local ip [] 0 64 s;
         let elf = elfhdr_of b;
         if r \<noteq> 64 \<or> e_magic elf \<noteq> ELF_MAGIC then exec_fail 0 0 (Some ip) s
         else do {
           (pagetable, s) \<leftarrow> proc_pagetable p s;
           if pagetable = 0 then exec_fail 0 0 (Some ip) s
           else do {
             let s = pset p (\<lambda>q. q\<lparr>num_segments := 0\<rparr>) s;
             (ok, l, s) \<leftarrow> exec_headers p ip (unat (e_phnum elf)) (ucast (e_phoff elf)) empty_layout s;
             if \<not> ok then exec_fail pagetable (l_sz l) (Some ip) s
             else exec_finish p ip path argv pagetable l (e_entry elf) s
           }
         }
       }
   }"

end
