(* ===== verification/Sysfile.thy ===== *)
theory Sysfile
  imports Exec
begin

section \<open>System calls on files (kernel/sysfile.c) and their arguments (kernel/syscall.c)\<close>

text \<open>
  Arguments are the saved registers of the trapframe; strings are copied in from user
  memory.  A call returns the value that goes to user register a0, or sleeps.
\<close>

definition MAXPATH :: nat where "MAXPATH = 128"
definition O_RDONLY :: u32 where "O_RDONLY = 0x000"
definition O_WRONLY :: u32 where "O_WRONLY = 0x001"
definition O_RDWR :: u32 where "O_RDWR = 0x002"
definition O_CREATE :: u32 where "O_CREATE = 0x200"
definition O_TRUNC :: u32 where "O_TRUNC = 0x400"

subsection \<open>Arguments\<close>

definition fetchaddr :: "u64 \<Rightarrow> 'a kfiles_scheme \<Rightarrow> (int \<times> u64 \<times> 'a kfiles_scheme) option" where
  "fetchaddr addr s = do {
     p \<leftarrow> myproc s;
     if addr \<ge> p_sz (pget p s) \<or> addr + 8 > p_sz (pget p s) then Some (-1, 0, s)
     else do {
       (r, b, s) \<leftarrow> copyin (p_pagetable (pget p s)) addr 8 [] s;
       if r \<noteq> 0 then Some (-1, 0, s) else Some (0, get64 (de_bytes b) 0, s)
     }
   }"

definition fetchstr :: "u64 \<Rightarrow> nat \<Rightarrow> 'a kfiles_scheme \<Rightarrow> (int \<times> u8 list \<times> 'a kfiles_scheme) option" where
  "fetchstr addr n s = do {
     p \<leftarrow> myproc s;
     (r, w, s) \<leftarrow> copyinstr (p_pagetable (pget p s)) addr (of_nat n) [] s;
     if r < 0 then Some (-1, w, s) else Some (int (length w), w, s)
   }"

definition argraw :: "nat \<Rightarrow> 'a kprocs_scheme \<Rightarrow> u64 option" where
  "argraw n s = do {
     p \<leftarrow> myproc s;
     if n \<le> 5 then Some (tf_get p (TF_A0 + 8 * n) s) else None
   }"

definition argint :: "nat \<Rightarrow> 'a kprocs_scheme \<Rightarrow> int option" where
  "argint n s = do {
     a \<leftarrow> argraw n s;
     Some (sint (ucast a :: u32))
   }"

definition argaddr :: "nat \<Rightarrow> 'a kprocs_scheme \<Rightarrow> u64 option" where
  "argaddr n s = argraw n s"

definition argstr :: "nat \<Rightarrow> 'a kfiles_scheme \<Rightarrow> (int \<times> u8 list \<times> 'a kfiles_scheme) option" where
  "argstr n s = do {
     addr \<leftarrow> argaddr n s;
     fetchstr addr MAXPATH s
   }"

text \<open>The descriptor and its open file; \<open>None\<close> inside is the source's -1.\<close>

definition argfd :: "nat \<Rightarrow> 'a kprocs_scheme \<Rightarrow> (nat \<times> nat) option option" where
  "argfd n s = do {
     fd \<leftarrow> argint n s;
     p \<leftarrow> myproc s;
     Some (if fd < 0 \<or> fd \<ge> int NOFILE then None
           else map_option (\<lambda>f. (nat fd, f)) (p_ofile (pget p s) ! nat fd))
   }"

definition set_ofile :: "nat \<Rightarrow> nat option \<Rightarrow> 'a kprocs_scheme \<Rightarrow> 'a kprocs_scheme option" where
  "set_ofile fd f s = do {
     p \<leftarrow> myproc s;
     Some (pset p (\<lambda>q. q\<lparr>p_ofile := (p_ofile q)[fd := f]\<rparr>) s)
   }"

definition fdalloc :: "nat \<Rightarrow> 'a kprocs_scheme \<Rightarrow> (int \<times> 'a kprocs_scheme) option" where
  "fdalloc f s = do {
     p \<leftarrow> myproc s;
     case List.find (\<lambda>fd. p_ofile (pget p s) ! fd = None) [0..<NOFILE] of
       Some fd \<Rightarrow> do { s \<leftarrow> set_ofile fd (Some f) s; Some (int fd, s) }
     | None \<Rightarrow> Some (-1, s)
   }"

subsection \<open>Descriptors\<close>

definition sys_dup :: "'a kfiles_scheme \<Rightarrow> (int \<times> 'a kfiles_scheme) option" where
  "sys_dup s = do {
     a \<leftarrow> argfd 0 s;
     case a of
       None \<Rightarrow> Some (-1, s)
     | Some (_, f) \<Rightarrow> do {
         (fd, s) \<leftarrow> fdalloc f s;
         if fd < 0 then Some (-1, s)
         else do { s \<leftarrow> filedup f s; Some (fd, s) }
       }
   }"

definition sys_read :: "'a kfiles_scheme \<Rightarrow> (outcome \<times> 'a kfiles_scheme) option" where
  "sys_read s = do {
     p \<leftarrow> argaddr 1 s;
     n \<leftarrow> argint 2 s;
     a \<leftarrow> argfd 0 s;
     case a of None \<Rightarrow> Some (Returns (-1), s) | Some (_, f) \<Rightarrow> fileread f p n s
   }"

definition sys_write :: "'a kfiles_scheme \<Rightarrow> (outcome \<times> 'a kfiles_scheme) option" where
  "sys_write s = do {
     p \<leftarrow> argaddr 1 s;
     n \<leftarrow> argint 2 s;
     a \<leftarrow> argfd 0 s;
     case a of None \<Rightarrow> Some (Returns (-1), s) | Some (_, f) \<Rightarrow> filewrite f p n s
   }"

definition sys_close :: "'a kfiles_scheme \<Rightarrow> (int \<times> 'a kfiles_scheme) option" where
  "sys_close s = do {
     a \<leftarrow> argfd 0 s;
     case a of
       None \<Rightarrow> Some (-1, s)
     | Some (fd, f) \<Rightarrow> do {
         s \<leftarrow> set_ofile fd None s;
         s \<leftarrow> fileclose f s;
         Some (0, s)
       }
   }"

definition sys_fstat :: "'a kfiles_scheme \<Rightarrow> (int \<times> 'a kfiles_scheme) option" where
  "sys_fstat s = do {
     st \<leftarrow> argaddr 1 s;
     a \<leftarrow> argfd 0 s;
     case a of None \<Rightarrow> Some (-1, s) | Some (_, f) \<Rightarrow> filestat f st s
   }"

subsection \<open>Links\<close>

text \<open>The label \<open>bad\<close> of \<open>sys_link\<close>: the link count goes back down.\<close>

definition link_bad :: "nat \<Rightarrow> 'a kinodes_scheme \<Rightarrow> (int \<times> 'a kinodes_scheme) option" where
  "link_bad ip s = do {
     s \<leftarrow> ilock ip s;
     s \<leftarrow> iupdate ip (iset ip (\<lambda>q. q\<lparr>i_nlink := i_nlink q - 1\<rparr>) s);
     s \<leftarrow> iunlockput ip s;
     s \<leftarrow> end_op s;
     Some (-1, s)
   }"

definition link_into :: "u8 list \<Rightarrow> nat \<Rightarrow> 'a kinodes_scheme \<Rightarrow> (int \<times> 'a kinodes_scheme) option" where
  "link_into path ip s = do {
     (dp, name, s) \<leftarrow> nameiparent path (\<lambda>_. 0) s;
     case dp of
       None \<Rightarrow> link_bad ip s
     | Some dp \<Rightarrow> do {
         s \<leftarrow> ilock dp s;
         (r, s) \<leftarrow> (if i_dev (itable s ! dp) \<noteq> i_dev (itable s ! ip) then Some (-1, s)
                    else dirlink dp name (i_inum (itable s ! ip)) s);
         s \<leftarrow> iunlockput dp s;
         if r < 0 then link_bad ip s
         else do {
           s \<leftarrow> iput ip s;
           s \<leftarrow> end_op s;
           Some (0, s)
         }
       }
   }"

definition sys_link :: "'a kfiles_scheme \<Rightarrow> (int \<times> 'a kfiles_scheme) option" where
  "sys_link s = do {
     (r, old, s) \<leftarrow> argstr 0 s;
     if r < 0 then Some (-1, s)
     else do {
       (r, new, s) \<leftarrow> argstr 1 s;
       if r < 0 then Some (-1, s)
       else do {
         s \<leftarrow> begin_op s;
         (ip, s) \<leftarrow> namei old s;
         case ip of
           None \<Rightarrow> do { s \<leftarrow> end_op s; Some (-1, s) }
         | Some ip \<Rightarrow> do {
             s \<leftarrow> ilock ip s;
             if i_type (itable s ! ip) = T_DIR then do {
               s \<leftarrow> iunlockput ip s;
               s \<leftarrow> end_op s;
               Some (-1, s)
             }
             else do {
               s \<leftarrow> iupdate ip (iset ip (\<lambda>q. q\<lparr>i_nlink := i_nlink q + 1\<rparr>) s);
               s \<leftarrow> iunlock ip s;
               link_into new ip s
             }
           }
       }
     }
   }"

partial_function (option) isdirempty_loop ::
    "nat \<Rightarrow> u32 \<Rightarrow> 'a kinodes_scheme \<Rightarrow> (bool \<times> 'a kinodes_scheme) option" where
  "isdirempty_loop dp off s =
     (if \<not> off < i_size (itable s ! dp) then Some (True, s)
      else do {
        (r, de, s) \<leftarrow> readi to_local dp [] off 16 s;
        if r \<noteq> 16 then None
        else if de_inum de \<noteq> 0 then Some (False, s)
        else isdirempty_loop dp (off + 16) s
      })"

definition isdirempty :: "nat \<Rightarrow> 'a kinodes_scheme \<Rightarrow> (bool \<times> 'a kinodes_scheme) option" where
  "isdirempty dp s = isdirempty_loop dp 32 s"

definition unlink_bad :: "nat \<Rightarrow> 'a kinodes_scheme \<Rightarrow> (int \<times> 'a kinodes_scheme) option" where
  "unlink_bad dp s = do {
     s \<leftarrow> iunlockput dp s;
     s \<leftarrow> end_op s;
     Some (-1, s)
   }"

text \<open>The entry is cleared and both link counts are adjusted.\<close>

definition unlink_entry :: "nat \<Rightarrow> nat \<Rightarrow> u32 \<Rightarrow> 'a kinodes_scheme \<Rightarrow> (int \<times> 'a kinodes_scheme) option" where
  "unlink_entry dp ip off s = do {
     (r, _, s) \<leftarrow> writei from_local dp (replicate 16 0) off 16 s;
     if r \<noteq> 16 then None
     else do {
       s \<leftarrow> (if i_type (itable s ! ip) = T_DIR
            then iupdate dp (iset dp (\<lambda>q. q\<lparr>i_nlink := i_nlink q - 1\<rparr>) s) else Some s);
       s \<leftarrow> iunlockput dp s;
       s \<leftarrow> iupdate ip (iset ip (\<lambda>q. q\<lparr>i_nlink := i_nlink q - 1\<rparr>) s);
       s \<leftarrow> iunlockput ip s;
       s \<leftarrow> end_op s;
       Some (0, s)
     }
   }"

definition unlink_in :: "nat \<Rightarrow> bytes \<Rightarrow> 'a kinodes_scheme \<Rightarrow> (int \<times> 'a kinodes_scheme) option" where
  "unlink_in dp name s =
     (if namecmp name DOT = 0 \<or> namecmp name DOTDOT = 0 then unlink_bad dp s
      else do {
        (found, s) \<leftarrow> dirlookup dp name s;
        case found of
          None \<Rightarrow> unlink_bad dp s
        | Some (ip, off) \<Rightarrow> do {
            s \<leftarrow> ilock ip s;
            if sint (i_nlink (itable s ! ip)) < 1 then None
            else do {
              (empty, s) \<leftarrow> (if i_type (itable s ! ip) = T_DIR then isdirempty ip s else Some (True, s));
              if \<not> empty then do {
                s \<leftarrow> iunlockput ip s;
                unlink_bad dp s
              }
              else unlink_entry dp ip off s
            }
          }
      })"

definition sys_unlink :: "'a kfiles_scheme \<Rightarrow> (int \<times> 'a kfiles_scheme) option" where
  "sys_unlink s = do {
     (r, path, s) \<leftarrow> argstr 0 s;
     if r < 0 then Some (-1, s)
     else do {
       s \<leftarrow> begin_op s;
       (dp, name, s) \<leftarrow> nameiparent path (\<lambda>_. 0) s;
       case dp of
         None \<Rightarrow> do { s \<leftarrow> end_op s; Some (-1, s) }
       | Some dp \<Rightarrow> do { s \<leftarrow> ilock dp s; unlink_in dp name s }
     }
   }"

subsection \<open>open\<close>

definition open_error :: "nat \<Rightarrow> 'a kinodes_scheme \<Rightarrow> (int \<times> 'a kinodes_scheme) option" where
  "open_error ip s = do {
     s \<leftarrow> iunlockput ip s;
     s \<leftarrow> end_op s;
     Some (-1, s)
   }"

text \<open>The inode to open, locked; \<open>None\<close> inside when the call has failed.\<close>

definition open_inode :: "u8 list \<Rightarrow> u32 \<Rightarrow> 'a kinodes_scheme \<Rightarrow> (nat option \<times> 'a kinodes_scheme) option" where
  "open_inode path omode s =
     (if omode AND O_CREATE \<noteq> 0 then do {
        (ip, s) \<leftarrow> create path T_FILE 0 0 s;
        case ip of
          None \<Rightarrow> do { s \<leftarrow> end_op s; Some (None, s) }
        | Some ip \<Rightarrow> Some (Some ip, s)
      }
      else do {
        (ip, s) \<leftarrow> namei path s;
        case ip of
          None \<Rightarrow> do { s \<leftarrow> end_op s; Some (None, s) }
        | Some ip \<Rightarrow> do {
            s \<leftarrow> ilock ip s;
            if i_type (itable s ! ip) = T_DIR \<and> omode \<noteq> O_RDONLY then do {
              (_, s) \<leftarrow> open_error ip s;
              Some (None, s)
            }
            else Some (Some ip, s)
          }
      })"

definition open_file :: "nat \<Rightarrow> u32 \<Rightarrow> inode \<Rightarrow> kfile \<Rightarrow> kfile" where
  "open_file ip omode q f =
     (if i_type q = T_DEVICE then f\<lparr>f_type := FD_DEVICE, f_major := i_major q\<rparr>
      else f\<lparr>f_type := FD_INODE, f_off := 0\<rparr>)
       \<lparr>f_ip := ip, f_readable := omode AND O_WRONLY = 0,
        f_writable := omode AND O_WRONLY \<noteq> 0 \<or> omode AND O_RDWR \<noteq> 0\<rparr>"

definition sys_open :: "'a kfiles_scheme \<Rightarrow> (int \<times> 'a kfiles_scheme) option" where
  "sys_open s = do {
     om \<leftarrow> argint 1 s;
     let omode = of_int om;
     (n, path, s) \<leftarrow> argstr 0 s;
     if n < 0 then Some (-1, s)
     else do {
       s \<leftarrow> begin_op s;
       (ip, s) \<leftarrow> open_inode path omode s;
       case ip of
         None \<Rightarrow> Some (-1, s)
       | Some ip \<Rightarrow>
           let q = itable s ! ip in
           if i_type q = T_DEVICE \<and> (sint (i_major q) < 0 \<or> sint (i_major q) \<ge> int NDEV) then open_error ip s
           else (case filealloc s of
               (None, s) \<Rightarrow> open_error ip s
             | (Some f, s) \<Rightarrow> do {
                 (fd, s) \<leftarrow> fdalloc f s;
                 if fd < 0 then do {
                   s \<leftarrow> fileclose f s;
                   open_error ip s
                 }
                 else do {
                   let s = fset f (open_file ip omode (itable s ! ip)) s;
                   s \<leftarrow> (if omode AND O_TRUNC \<noteq> 0 \<and> i_type (itable s ! ip) = T_FILE
                        then itrunc ip s else Some s);
                   s \<leftarrow> iunlock ip s;
                   s \<leftarrow> end_op s;
                   Some (fd, s)
                 }
               })
     }
   }"

subsection \<open>Directories, devices, exec and pipe\<close>

text \<open>What \<open>sys_mkdir\<close> and \<open>sys_mknod\<close> do with the result of \<open>create\<close>.\<close>

definition create_done :: "nat option \<Rightarrow> 'a kinodes_scheme \<Rightarrow> (int \<times> 'a kinodes_scheme) option" where
  "create_done ip s = (case ip of
     None \<Rightarrow> do { s \<leftarrow> end_op s; Some (-1, s) }
   | Some ip \<Rightarrow> do {
       s \<leftarrow> iunlockput ip s;
       s \<leftarrow> end_op s;
       Some (0, s)
     })"

definition sys_mkdir :: "'a kfiles_scheme \<Rightarrow> (int \<times> 'a kfiles_scheme) option" where
  "sys_mkdir s = do {
     s \<leftarrow> begin_op s;
     (r, path, s) \<leftarrow> argstr 0 s;
     (ip, s) \<leftarrow> (if r < 0 then Some (None, s) else create path T_DIR 0 0 s);
     create_done ip s
   }"

definition sys_mknod :: "'a kfiles_scheme \<Rightarrow> (int \<times> 'a kfiles_scheme) option" where
  "sys_mknod s = do {
     s \<leftarrow> begin_op s;
     major \<leftarrow> argint 1 s;
     minor \<leftarrow> argint 2 s;
     (r, path, s) \<leftarrow> argstr 0 s;
     (ip, s) \<leftarrow> (if r < 0 then Some (None, s) else create path T_DEVICE (of_int major) (of_int minor) s);
     create_done ip s
   }"

definition sys_chdir :: "'a kfiles_scheme \<Rightarrow> (int \<times> 'a kfiles_scheme) option" where
  "sys_chdir s = do {
     p \<leftarrow> myproc s;
     s \<leftarrow> begin_op s;
     (r, path, s) \<leftarrow> argstr 0 s;
     (ip, s) \<leftarrow> (if r < 0 then Some (None, s) else namei path s);
     case ip of
       None \<Rightarrow> do { s \<leftarrow> end_op s; Some (-1, s) }
     | Some ip \<Rightarrow> do {
         s \<leftarrow> ilock ip s;
         if i_type (itable s ! ip) \<noteq> T_DIR then open_error ip s
         else do {
           s \<leftarrow> iunlock ip s;
           cwd \<leftarrow> p_cwd (pget p s);
           s \<leftarrow> iput cwd s;
           s \<leftarrow> end_op s;
           Some (0, pset p (\<lambda>q. q\<lparr>p_cwd := Some ip\<rparr>) s)
         }
       }
   }"

text \<open>
  The argument loop of \<open>sys_exec\<close>: the pages it allocated, and the strings in them
  when it succeeds.
\<close>

fun exec_fetch ::
    "u64 \<Rightarrow> nat \<Rightarrow> u64 list \<Rightarrow> u8 list list \<Rightarrow> 'a kfiles_scheme \<Rightarrow> (u64 list \<times> u8 list list option \<times> 'a kfiles_scheme) option" where
  "exec_fetch uargv 0 pgs args s = Some (pgs, None, s)"
| "exec_fetch uargv (Suc k) pgs args s = do {
     (r, uarg, s) \<leftarrow> fetchaddr (uargv + 8 * of_nat (length pgs)) s;
     if r < 0 then Some (pgs, None, s)
     else if uarg = 0 then Some (pgs, Some args, s)
     else case kalloc s of (pa, s) \<Rightarrow>
       if pa = 0 then Some (pgs, None, s)
       else do {
         (r, w, s) \<leftarrow> fetchstr uarg 4096 s;
         let s = s\<lparr>mem := store_bytes pa (if r < 0 then w else w @ [0]) (mem s)\<rparr>;
         if r < 0 then Some (pgs @ [pa], None, s)
         else exec_fetch uargv k (pgs @ [pa]) (args @ [w]) s
       }
   }"

fun free_args :: "u64 list \<Rightarrow> 'a kmem_scheme \<Rightarrow> 'a kmem_scheme option" where
  "free_args [] s = Some s"
| "free_args (pa # pas) s = do { s \<leftarrow> kfree pa s; free_args pas s }"

definition sys_exec :: "'a kfiles_scheme \<Rightarrow> (int \<times> 'a kfiles_scheme) option" where
  "sys_exec s = do {
     uargv \<leftarrow> argaddr 1 s;
     (r, path, s) \<leftarrow> argstr 0 s;
     if r < 0 then Some (-1, s)
     else do {
       (pgs, args, s) \<leftarrow> exec_fetch uargv MAXARG [] [] s;
       (ret, s) \<leftarrow> (case args of None \<Rightarrow> Some (-1, s) | Some argv \<Rightarrow> kexec path argv s);
       s \<leftarrow> free_args pgs s;
       Some (ret, s)
     }
   }"

text \<open>The end of a failed \<open>sys_pipe\<close>: the descriptors taken so far and both files.\<close>

definition pipe_fail :: "nat list \<Rightarrow> nat \<Rightarrow> nat \<Rightarrow> 'a kfiles_scheme \<Rightarrow> (int \<times> 'a kfiles_scheme) option" where
  "pipe_fail fds rf fw s = do {
     s \<leftarrow> fold (\<lambda>fd r. do { s \<leftarrow> r; set_ofile fd None s }) fds (Some s);
     s \<leftarrow> fileclose rf s;
     s \<leftarrow> fileclose fw s;
     Some (-1, s)
   }"

definition sys_pipe :: "'a kfiles_scheme \<Rightarrow> (int \<times> 'a kfiles_scheme) option" where
  "sys_pipe s = do {
     p \<leftarrow> myproc s;
     fdarray \<leftarrow> argaddr 0 s;
     (fs, s) \<leftarrow> pipealloc s;
     case fs of
       None \<Rightarrow> Some (-1, s)
     | Some (rf, fw) \<Rightarrow> do {
         (fd0, s) \<leftarrow> fdalloc rf s;
         if fd0 < 0 then pipe_fail [] rf fw s
         else do {
           (fd1, s) \<leftarrow> fdalloc fw s;
           if fd1 < 0 then pipe_fail [nat fd0] rf fw s
           else do {
             (r, s) \<leftarrow> copyout (p_pagetable (pget p s)) fdarray (int_bytes (of_int fd0)) s;
             (r, s) \<leftarrow> (if r < 0 then Some (r, s)
                        else copyout (p_pagetable (pget p s)) (fdarray + 4) (int_bytes (of_int fd1)) s);
             if r < 0 then pipe_fail [nat fd0, nat fd1] rf fw s else Some (0, s)
           }
         }
       }
   }"

end
