(* ===== verification/Syscall.thy ===== *)
theory Syscall
  imports Sysfile
begin

section \<open>System calls, traps and start-up (kernel/sysproc.c, syscall.c, trap.c, main.c)\<close>

text \<open>
  The process system calls, the dispatch on register a7, and the trap handlers of one
  hart.  Control registers are inputs: \<open>trap_regs\<close> holds what the handler reads from
  them, the interrupt the PLIC reports and the characters the UART has received.
  \<open>usertrap\<close> ends back in user mode or in the scheduler; \<open>trap_return\<close> is its part after
  the trap has been handled, which also runs when a sleeping call has returned.
\<close>

definition SBRK_EAGER :: int where "SBRK_EAGER = 1"
definition MAX_PAGES_INFO :: nat where "MAX_PAGES_INFO = 128"

subsection \<open>sysproc.c\<close>

definition sys_exit :: "'a kfiles_scheme \<Rightarrow> (outcome \<times> 'a kfiles_scheme) option" where
  "sys_exit s = do {
     n \<leftarrow> argint 0 s;
     s \<leftarrow> kexit n s;
     Some (Exited, s)
   }"

definition sys_getpid :: "'a kfiles_scheme \<Rightarrow> (int \<times> 'a kfiles_scheme) option" where
  "sys_getpid s = do { p \<leftarrow> myproc s; Some (p_pid (pget p s), s) }"

definition sys_fork :: "'a kfiles_scheme \<Rightarrow> (int \<times> 'a kfiles_scheme) option" where
  "sys_fork s = kfork s"

definition sys_wait :: "'a kfiles_scheme \<Rightarrow> (outcome \<times> 'a kfiles_scheme) option" where
  "sys_wait s = do { a \<leftarrow> argaddr 0 s; kwait a s }"

definition sys_sbrk :: "'a kfiles_scheme \<Rightarrow> (int \<times> 'a kfiles_scheme) option" where
  "sys_sbrk s = do {
     n \<leftarrow> argint 0 s;
     t \<leftarrow> argint 1 s;
     p \<leftarrow> myproc s;
     let addr = p_sz (pget p s);
     if t = SBRK_EAGER \<or> n < 0 then do {
       (r, s) \<leftarrow> growproc n s;
       if r < 0 then Some (-1, s) else Some (uint addr, s)
     }
     else if addr + of_int n < addr then Some (-1, s)
     else Some (uint addr, pset p (\<lambda>q. q\<lparr>p_sz := p_sz q + of_int n\<rparr>) s)
   }"

definition pause_wait :: "u32 \<Rightarrow> int \<Rightarrow> 'a kfiles_scheme \<Rightarrow> (outcome \<times> 'a kfiles_scheme) option" where
  "pause_wait ticks0 n s =
     (if \<not> ticks s - ticks0 < of_int n then Some (Returns 0, s)
      else do {
        p \<leftarrow> myproc s;
        if killed p s then Some (Returns (-1), s)
        else do { s \<leftarrow> sleep ChTicks s; Some (Sleeps (Pausing ticks0 n), s) }
      })"

definition sys_pause :: "'a kfiles_scheme \<Rightarrow> (outcome \<times> 'a kfiles_scheme) option" where
  "sys_pause s = do {
     n \<leftarrow> argint 0 s;
     pause_wait (ticks s) (if n < 0 then 0 else n) s
   }"

definition sys_kill :: "'a kfiles_scheme \<Rightarrow> (int \<times> 'a kfiles_scheme) option" where
  "sys_kill s = do { pid \<leftarrow> argint 0 s; Some (kkill pid s) }"

definition sys_uptime :: "'a kfiles_scheme \<Rightarrow> (int \<times> 'a kfiles_scheme) option" where
  "sys_uptime s = Some (uint (ticks s), s)"

record page_stat =
  ps_va :: u32
  ps_state :: pagestate
  ps_dirty :: bool
  ps_seq :: int
  ps_slot :: int

record mem_stat =
  ms_pid :: int
  ms_total :: int
  ms_resident :: int
  ms_swapped :: int
  ms_next_seq :: int
  ms_pages :: "page_stat list"

definition page_stat_of :: "page_info \<Rightarrow> page_stat" where
  "page_stat_of pg = \<lparr>ps_va = ucast (pi_va pg), ps_state = pi_state pg, ps_dirty = is_dirty pg,
     ps_seq = pi_seq pg, ps_slot = swap_slot pg\<rparr>"

definition count_page :: "page_info \<Rightarrow> mem_stat \<Rightarrow> mem_stat" where
  "count_page pg st =
     (let st = st\<lparr>ms_pages := ms_pages st @ [page_stat_of pg], ms_total := ms_total st + 1\<rparr> in
      if pi_state pg = RESIDENT then st\<lparr>ms_resident := ms_resident st + 1\<rparr>
      else if pi_state pg = SWAPPED then st\<lparr>ms_swapped := ms_swapped st + 1\<rparr>
      else st)"

definition memstat_of :: "proc \<Rightarrow> mem_stat" where
  "memstat_of p = fold count_page (take MAX_PAGES_INFO (take (num_pages p) (pages p)))
     \<lparr>ms_pid = p_pid p, ms_total = 0, ms_resident = 0, ms_swapped = 0,
      ms_next_seq = next_fifo_seq p, ms_pages = []\<rparr>"

definition pagestate_int :: "pagestate \<Rightarrow> u32" where
  "pagestate_int st = (case st of UNMAPPED \<Rightarrow> 0 | RESIDENT \<Rightarrow> 1 | SWAPPED \<Rightarrow> 2)"

text \<open>
  The bytes of \<open>struct proc_mem_stat\<close>.  The entries of \<open>pages\<close> that are not reported are
  uninitialised in the source and 0 here.
\<close>

definition memstat_bytes :: "mem_stat \<Rightarrow> u8 list" where
  "memstat_bytes st = concat (map int_bytes ([of_int (ms_pid st), of_int (ms_total st), of_int (ms_resident st),
       of_int (ms_swapped st), of_int (ms_next_seq st)] @
     concat (map (\<lambda>q. [ps_va q, pagestate_int (ps_state q), of_bool (ps_dirty q), of_int (ps_seq q), of_int (ps_slot q)])
       (ms_pages st)))) @ replicate (20 * (MAX_PAGES_INFO - length (ms_pages st))) 0"

definition sys_memstat :: "'a kfiles_scheme \<Rightarrow> (int \<times> 'a kfiles_scheme) option" where
  "sys_memstat s = do {
     p \<leftarrow> myproc s;
     addr \<leftarrow> argaddr 0 s;
     (r, s) \<leftarrow> copyout (p_pagetable (pget p s)) addr (memstat_bytes (memstat_of (pget p s))) s;
     if r < 0 then Some (-1, s) else Some (0, s)
   }"

subsection \<open>Dispatch\<close>

definition returning :: "(int \<times> 'a kfiles_scheme) option \<Rightarrow> (outcome \<times> 'a kfiles_scheme) option" where
  "returning r = map_option (\<lambda>(v, s). (Returns v, s)) r"

definition syscalls :: "int \<Rightarrow> 'a kfiles_scheme \<Rightarrow> (outcome \<times> 'a kfiles_scheme) option" where
  "syscalls num s =
     (if num = 1 then returning (sys_fork s)
      else if num = 2 then sys_exit s
      else if num = 3 then sys_wait s
      else if num = 4 then returning (sys_pipe s)
      else if num = 5 then sys_read s
      else if num = 6 then returning (sys_kill s)
      else if num = 7 then returning (sys_exec s)
      else if num = 8 then returning (sys_fstat s)
      else if num = 9 then returning (sys_chdir s)
      else if num = 10 then returning (sys_dup s)
      else if num = 11 then returning (sys_getpid s)
      else if num = 12 then returning (sys_sbrk s)
      else if num = 13 then sys_pause s
      else if num = 14 then returning (sys_uptime s)
      else if num = 15 then returning (sys_open s)
      else if num = 16 then sys_write s
      else if num = 17 then returning (sys_mknod s)
      else if num = 18 then returning (sys_unlink s)
      else if num = 19 then returning (sys_link s)
      else if num = 20 then returning (sys_mkdir s)
      else if num = 21 then returning (sys_close s)
      else returning (sys_memstat s))"

text \<open>The value of a call that has returned goes to a0.\<close>

definition set_result :: "nat \<Rightarrow> outcome \<times> 'a kfiles_scheme \<Rightarrow> outcome \<times> 'a kfiles_scheme" where
  "set_result p r = (case r of (Returns v, s) \<Rightarrow> (Returns v, tf_set p TF_A0 (of_int v) s) | (x, s) \<Rightarrow> (x, s))"

definition syscall :: "'a kfiles_scheme \<Rightarrow> (outcome \<times> 'a kfiles_scheme) option" where
  "syscall s = do {
     p \<leftarrow> myproc s;
     let num = sint (ucast (tf_get p TF_A7 s) :: u32);
     if num > 0 \<and> num < 23 then map_option (set_result p) (syscalls num s)
     else Some (set_result p (Returns (-1), kprint (UNKNOWN_SYSCALL (p_pid (pget p s)) (p_name (pget p s)) num) s))
   }"

subsection \<open>Traps\<close>

record trap_regs =
  scause :: u64
  stval :: u64
  sepc :: u64
  irq :: u32
  rx :: "u8 list"

text \<open>What \<open>prepare_return\<close> reads of the hart: satp, tp and the address of \<open>usertrap\<close>.\<close>

record hart_regs =
  r_satp :: u64
  r_tp :: u64
  usertrap_pc :: u64

datatype trap_end = To_user | In_scheduler outcome | Yielded

fun uart_receive :: "u8 list \<Rightarrow> 'a kfiles_scheme \<Rightarrow> 'a kfiles_scheme option" where
  "uart_receive [] s = Some s"
| "uart_receive (c # cs) s = do { s \<leftarrow> consoleintr c s; uart_receive cs s }"

definition clockintr :: "'a kfiles_scheme \<Rightarrow> 'a kfiles_scheme" where
  "clockintr s = wakeup ChTicks (s\<lparr>ticks := ticks s + 1\<rparr>)"

definition devintr :: "trap_regs \<Rightarrow> 'a kfiles_scheme \<Rightarrow> (int \<times> 'a kfiles_scheme) option" where
  "devintr r s =
     (if scause r = 0x8000000000000009 then
        (if irq r = 10 then do { s \<leftarrow> uart_receive (rx r) (wakeup ChUart s); Some (1, s) }
         else if irq r = 1 then Some (1, s)
         else if irq r \<noteq> 0 then Some (1, kprint (UNEXPECTED_IRQ (sint (irq r))) s)
         else Some (1, s))
      else if scause r = 0x8000000000000005 then Some (2, clockintr s)
      else Some (0, s))"

definition prepare_return :: "hart_regs \<Rightarrow> 'a kprocs_scheme \<Rightarrow> 'a kprocs_scheme option" where
  "prepare_return h s = do {
     p \<leftarrow> myproc s;
     let s = tf_set p TF_KERNEL_SATP (r_satp h) s;
     let s = tf_set p TF_KERNEL_SP (p_kstack (pget p s) + PGSIZE) s;
     let s = tf_set p TF_KERNEL_TRAP (usertrap_pc h) s;
     Some (tf_set p TF_KERNEL_HARTID (r_tp h) s)
   }"

definition trap_return :: "hart_regs \<Rightarrow> int \<Rightarrow> nat \<Rightarrow> 'a kfiles_scheme \<Rightarrow> (trap_end \<times> 'a kfiles_scheme) option" where
  "trap_return h which_dev p s =
     (if killed p s then do { s \<leftarrow> kexit (-1) s; Some (In_scheduler Exited, s) }
      else if which_dev = 2 then do { s \<leftarrow> yield s; Some (Yielded, s) }
      else do { s \<leftarrow> prepare_return h s; Some (To_user, s) })"

definition user_syscall :: "hart_regs \<Rightarrow> nat \<Rightarrow> 'a kfiles_scheme \<Rightarrow> (trap_end \<times> 'a kfiles_scheme) option" where
  "user_syscall h p s =
     (if killed p s then do { s \<leftarrow> kexit (-1) s; Some (In_scheduler Exited, s) }
      else do {
        (r, s) \<leftarrow> syscall (tf_set p TF_EPC (tf_get p TF_EPC s + 4) s);
        case r of
          Returns v \<Rightarrow> trap_return h 0 p s
        | _ \<Rightarrow> Some (In_scheduler r, s)
      })"

definition usertrap :: "hart_regs \<Rightarrow> trap_regs \<Rightarrow> 'a kfiles_scheme \<Rightarrow> (trap_end \<times> 'a kfiles_scheme) option" where
  "usertrap h r s = do {
     p \<leftarrow> myproc s;
     let s = tf_set p TF_EPC (sepc r) s;
     if scause r = 8 then user_syscall h p s
     else do {
       (which_dev, s) \<leftarrow> devintr r s;
       if which_dev \<noteq> 0 then trap_return h which_dev p s
       else if scause r = 12 \<or> scause r = 13 \<or> scause r = 15 then do {
         (_, s) \<leftarrow> handle_page_fault (stval r) (if scause r = 15 then 1 else if scause r = 12 then 2 else 0) True s;
         trap_return h which_dev p s
       }
       else trap_return h which_dev p
         (setkilled p (kprint (UNEXPECTED_SCAUSE (scause r) (p_pid (pget p s))) s))
     }
   }"

text \<open>\<open>user_mode\<close> and \<open>intr_on\<close> are the two status bits \<open>kerneltrap\<close> tests.\<close>

definition kerneltrap :: "bool \<Rightarrow> bool \<Rightarrow> trap_regs \<Rightarrow> 'a kfiles_scheme \<Rightarrow> 'a kfiles_scheme option" where
  "kerneltrap user_mode intr_on r s =
     (if user_mode \<or> intr_on then None
      else do {
        (which_dev, s) \<leftarrow> devintr r s;
        if which_dev = 0 then None
        else if which_dev = 2 \<and> myproc s \<noteq> None then yield s
        else Some s
      })"

text \<open>A call that has slept goes on here once its process runs again.\<close>

definition resume_call ::
    "blocked \<Rightarrow> 'a kfiles_scheme \<Rightarrow> (outcome \<times> 'a kfiles_scheme) option" where
  "resume_call b s = do {
     p \<leftarrow> myproc s;
     let s = wake p s;
     case b of
       Kwaiting \<Rightarrow> sys_wait s
     | Pausing t n \<Rightarrow> pause_wait t n s
     | Pipe_reading \<Rightarrow> sys_read s
     | Console_reading dst n \<Rightarrow> do { t \<leftarrow> argint 2 s; consoleread True t dst n s }
     | Pipe_writing i \<Rightarrow> do {
         addr \<leftarrow> argaddr 1 s;
         n \<leftarrow> argint 2 s;
         a \<leftarrow> argfd 0 s;
         (_, f) \<leftarrow> a;
         pipewrite (f_pipe (ftable s ! f)) addr n i s
       }
   }"

subsection \<open>Start-up\<close>

text \<open>\<open>first_run\<close> is the static variable \<open>first\<close>; the path and argument are "/init".\<close>

definition INIT_PATH :: "u8 list" where "INIT_PATH = [47, 105, 110, 105, 116]"

definition forkret :: "hart_regs \<Rightarrow> 'a kfiles_scheme \<Rightarrow> 'a kfiles_scheme option" where
  "forkret h s = do {
     p \<leftarrow> myproc s;
     s \<leftarrow> (if first_run s then do {
         s \<leftarrow> fsinit ROOTDEV s;
         (r, s) \<leftarrow> kexec INIT_PATH [INIT_PATH] (s\<lparr>first_run := False\<rparr>);
         if r = -1 then None else Some (tf_set p TF_A0 (of_int r) s)
       }
       else Some s);
     prepare_return h s
   }"

text \<open>\<open>main\<close> on hart 0, up to \<open>scheduler()\<close>; the device set-up has no state here.\<close>

definition kmain :: "u64 \<Rightarrow> 'a kfiles_scheme \<Rightarrow> 'a kfiles_scheme option" where
  "kmain etext s = do {
     s \<leftarrow> kinit (consoleinit s);
     s \<leftarrow> kvminit etext s;
     userinit (iinit (binit (procinit s)))
   }"

end
