(* ===== verification/Frame.thy ===== *)
theory Frame
  imports Stdio
begin

section \<open>Captured packets and the sniffer's terminal\<close>

text \<open>
  A packet is the list of its captured bytes.  The C code overlays the header structs of
  the C library on it without looking at its length, so a read beyond the captured bytes
  is a read outside the buffer: \<open>None\<close>.  Fields of several bytes are in network order
  (\<open>ntohs\<close>, \<open>ntohl\<close>).  A \<open>printf\<close> appends the pieces of its format and its arguments,
  one \<open>tok\<close> each; \<open>Ip4\<close> and \<open>Ip6\<close> hold the address that \<open>inet_ntop\<close> shows.  The colour
  escapes of colors.h are left out.
\<close>

type_synonym packet = "u8 list"

definition byte_at :: "packet \<Rightarrow> nat \<Rightarrow> u8 option" where
  "byte_at p i = (if i < length p then Some (p ! i) else None)"

definition bytes_at :: "packet \<Rightarrow> nat \<Rightarrow> nat \<Rightarrow> u8 list option" where
  "bytes_at p i n = (if i + n \<le> length p then Some (take n (drop i p)) else None)"

definition ntohs :: "packet \<Rightarrow> nat \<Rightarrow> int option" where
  "ntohs p i = map_option (\<lambda>b. uint (b ! 0) * 256 + uint (b ! 1)) (bytes_at p i 2)"

definition ntohl :: "packet \<Rightarrow> nat \<Rightarrow> int option" where
  "ntohl p i = map_option (\<lambda>b. uint (b ! 0) * 16777216 + uint (b ! 1) * 65536 + uint (b ! 2) * 256 + uint (b ! 3))
     (bytes_at p i 4)"

definition low_nibble :: "u8 \<Rightarrow> nat" where
  "low_nibble b = unat (b AND 0xf)"

definition high_nibble :: "u8 \<Rightarrow> nat" where
  "high_nibble b = unat (drop_bit 4 b)"

datatype tok = Str string | Dec int | Dec_left5 int | Dec_06 int | Hex nat int | Chr u8 | Ip4 "u8 list" | Ip6 "u8 list" | Nl

definition arrow :: string where "arrow = [CHR 0xE2, CHR 0x86, CHR 0x92]"
definition branch :: string where "branch = [CHR 0xE2, CHR 0x94, CHR 0x9C, CHR 0xE2, CHR 0x94, CHR 0x80]"
definition corner :: string where "corner = [CHR 0xE2, CHR 0x94, CHR 0x94, CHR 0xE2, CHR 0x94, CHR 0x80]"

definition mac_toks :: "u8 list \<Rightarrow> tok list" where
  "mac_toks b = [Hex 2 (uint (b ! 0)), Str '':'', Hex 2 (uint (b ! 1)), Str '':'', Hex 2 (uint (b ! 2)), Str '':'',
     Hex 2 (uint (b ! 3)), Str '':'', Hex 2 (uint (b ! 4)), Str '':'', Hex 2 (uint (b ! 5))]"

definition printable :: "u8 \<Rightarrow> u8" where
  "printable b = (if isprint b then b else 0x2e)"

subsection \<open>The header structs and protocol numbers of the C library\<close>

definition ETHERTYPE_IP :: int where "ETHERTYPE_IP = 0x0800"
definition ETHERTYPE_IPV6 :: int where "ETHERTYPE_IPV6 = 0x86dd"
definition ETHERTYPE_ARP :: int where "ETHERTYPE_ARP = 0x0806"
definition IPPROTO_TCP :: u8 where "IPPROTO_TCP = 6"
definition IPPROTO_UDP :: u8 where "IPPROTO_UDP = 17"
definition ARPOP_REQUEST :: int where "ARPOP_REQUEST = 1"
definition IP_DF :: int where "IP_DF = 0x4000"
definition IP_MF :: int where "IP_MF = 0x2000"
definition IP_OFFMASK :: int where "IP_OFFMASK = 0x1fff"

lemmas net_consts = ETHERTYPE_IP_def ETHERTYPE_IPV6_def ETHERTYPE_ARP_def IPPROTO_TCP_def IPPROTO_UDP_def
  ARPOP_REQUEST_def IP_DF_def IP_MF_def IP_OFFMASK_def

subsection \<open>Reading inside the captured bytes\<close>

lemma byte_at_Some [simp]: "i < length p \<Longrightarrow> byte_at p i = Some (p ! i)"
  by (simp add: byte_at_def)

lemma bytes_at_Some [simp]: "i + n \<le> length p \<Longrightarrow> bytes_at p i n = Some (take n (drop i p))"
  by (simp add: bytes_at_def)

lemma ntohs_Some [simp]: "i + 2 \<le> length p \<Longrightarrow> ntohs p i = Some (uint (p ! i) * 256 + uint (p ! (i + 1)))"
  by (simp add: ntohs_def)

lemma ntohl_Some [simp]: "i + 4 \<le> length p \<Longrightarrow>
  ntohl p i = Some (uint (p ! i) * 16777216 + uint (p ! (i + 1)) * 65536 + uint (p ! (i + 2)) * 256 + uint (p ! (i + 3)))"
  by (simp add: ntohl_def)

lemma read_outside [simp]:
  "length p \<le> i \<Longrightarrow> byte_at p i = None" "length p < i + n \<Longrightarrow> bytes_at p i n = None"
  "length p < i + 2 \<Longrightarrow> ntohs p i = None" "length p < i + 4 \<Longrightarrow> ntohl p i = None"
  by (simp_all add: byte_at_def bytes_at_def ntohs_def ntohl_def)

end
