(* ===== verification/PacketParser.thy ===== *)
theory PacketParser
  imports Frame
begin

section \<open>The packet parser (B/src/packet_parser.c)\<close>

text \<open>
  The live display of a captured packet.  A pointer into the packet is an offset, \<open>int\<close>
  lengths are \<open>int\<close>; the result is what is printed, or \<open>None\<close> when a header field or
  payload byte outside the captured bytes is read.
\<close>

definition get_service_name :: "int \<Rightarrow> string" where
  "get_service_name port =
     (if port = 80 then ''HTTP'' else if port = 443 then ''HTTPS'' else if port = 53 then ''DNS''
      else if port = 20 \<or> port = 21 then ''FTP'' else if port = 22 then ''SSH'' else if port = 25 then ''SMTP''
      else ''Other'')"

definition tcp_flag_names :: "(nat \<times> string) list" where
  "tcp_flag_names = [(0, ''[FIN] ''), (1, ''[SYN] ''), (2, ''[RST] ''), (3, ''[PSH] ''), (4, ''[ACK] ''), (5, ''[URG] '')]"

definition print_tcp_flags :: "u8 \<Rightarrow> tok list" where
  "print_tcp_flags flags = [Str name. (i, name) \<leftarrow> tcp_flag_names, bit flags i]"

text \<open>\<open>print_payload\<close>: the first 64 bytes, 16 to a line, in hexadecimal and as text.\<close>

definition payload_chars :: "packet \<Rightarrow> nat \<Rightarrow> nat \<Rightarrow> tok list option" where
  "payload_chars p o1 i = map_option (map (\<lambda>b. Chr (printable b))) (bytes_at p (o1 + (i - i mod 16)) (i mod 16 + 1))"

fun payload_loop :: "packet \<Rightarrow> nat \<Rightarrow> nat \<Rightarrow> nat list \<Rightarrow> tok list option" where
  "payload_loop p o1 n [] = Some []"
| "payload_loop p o1 n (i # is) = do {
     b \<leftarrow> byte_at p (o1 + i);
     line \<leftarrow> (if i mod 16 = 15 \<or> i = n - 1 then do {
         cs \<leftarrow> payload_chars p o1 i;
         Some (replicate (15 - i mod 16) (Str ''   '') @ [Str '' ''] @ cs @ [Nl])
       } else Some []);
     rest \<leftarrow> payload_loop p o1 n is;
     Some ((if i mod 16 = 0 then [Str ''                | ''] else []) @ [Hex 2 (uint b), Str '' ''] @ line @ rest)
   }"

definition print_payload :: "packet \<Rightarrow> nat \<Rightarrow> int \<Rightarrow> tok list option" where
  "print_payload p o1 len = (let len_to_print = nat (if len > 64 then 64 else len) in
     payload_loop p o1 len_to_print [0..<len_to_print])"

definition payload :: "packet \<Rightarrow> nat \<Rightarrow> int \<Rightarrow> int \<Rightarrow> tok list option" where
  "payload p o1 payload_len dst_port =
     (if payload_len > 0 then do {
        t \<leftarrow> print_payload p o1 payload_len;
        Some ([Str '' L7 (Payload)    | '', Dec payload_len, Str '' bytes of '', Str (get_service_name dst_port), Str '' data'', Nl] @ t)
      } else Some [])"

definition parse_tcp :: "packet \<Rightarrow> nat \<Rightarrow> int \<Rightarrow> int \<Rightarrow> tok list option" where
  "parse_tcp p o1 ip_header_len total_ip_len = do {
     src_port \<leftarrow> ntohs p o1;
     dst_port \<leftarrow> ntohs p (o1 + 2);
     off \<leftarrow> byte_at p (o1 + 12);
     let tcp_header_len = high_nibble off * 4;
     flags \<leftarrow> byte_at p (o1 + 13);
     th_seq \<leftarrow> ntohl p (o1 + 4);
     ack \<leftarrow> ntohl p (o1 + 8);
     win \<leftarrow> ntohs p (o1 + 14);
     sum \<leftarrow> ntohs p (o1 + 16);
     t \<leftarrow> payload p (o1 + tcp_header_len) (total_ip_len - ip_header_len - int tcp_header_len) dst_port;
     Some ([Str '' L4 (TCP)        | Port: '', Dec src_port, Str '' ('', Str (get_service_name src_port), Str '') '', Str arrow,
          Str '' '', Dec dst_port, Str '' ('', Str (get_service_name dst_port), Str '') ''] @ print_tcp_flags flags @ [Nl,
        Str ''                | Seq: '', Dec th_seq, Str '' | Ack: '', Dec ack, Str '' | Win: '', Dec win,
          Str '' | Hdr Len: '', Dec (int tcp_header_len), Str '' bytes | Checksum: 0x'', Hex 4 sum, Nl] @ t)
   }"

definition parse_udp :: "packet \<Rightarrow> nat \<Rightarrow> int \<Rightarrow> int \<Rightarrow> tok list option" where
  "parse_udp p o1 ip_header_len total_ip_len = do {
     src_port \<leftarrow> ntohs p o1;
     dst_port \<leftarrow> ntohs p (o1 + 2);
     udp_len \<leftarrow> ntohs p (o1 + 4);
     sum \<leftarrow> ntohs p (o1 + 6);
     t \<leftarrow> payload p (o1 + 8) (udp_len - 8) dst_port;
     Some ([Str '' L4 (UDP)        | Port: '', Dec src_port, Str '' ('', Str (get_service_name src_port), Str '') '', Str arrow,
          Str '' '', Dec dst_port, Str '' ('', Str (get_service_name dst_port), Str '')'', Nl,
        Str ''                | Length: '', Dec udp_len, Str '' | Checksum: 0x'', Hex 4 sum, Nl] @ t)
   }"

definition proto_name :: "u8 \<Rightarrow> string" where
  "proto_name pr = (if pr = IPPROTO_TCP then ''TCP'' else if pr = IPPROTO_UDP then ''UDP'' else ''Other'')"

definition ip_flags :: "int \<Rightarrow> tok list" where
  "ip_flags frag = (let df = frag AND IP_DF \<noteq> 0; mf = frag AND IP_MF \<noteq> 0 in
     [Str (if df then ''DF'' else ''''), Str (if mf then (if df then '',MF'' else ''MF'') else (if df then '''' else ''None''))])"

definition frag_off :: "int \<Rightarrow> int" where
  "frag_off frag = (frag AND IP_OFFMASK) * 8"

definition parse_transport :: "packet \<Rightarrow> u8 \<Rightarrow> nat \<Rightarrow> int \<Rightarrow> int \<Rightarrow> tok list option" where
  "parse_transport p pr o1 ip_header_len total_len =
     (if pr = IPPROTO_TCP then parse_tcp p o1 ip_header_len total_len
      else if pr = IPPROTO_UDP then parse_udp p o1 ip_header_len total_len
      else Some [])"

definition parse_ipv4 :: "packet \<Rightarrow> nat \<Rightarrow> tok list option" where
  "parse_ipv4 p o1 = do {
     src_ip \<leftarrow> bytes_at p (o1 + 12) 4;
     dst_ip \<leftarrow> bytes_at p (o1 + 16) 4;
     vhl \<leftarrow> byte_at p o1;
     let ip_header_len = low_nibble vhl * 4;
     total_len \<leftarrow> ntohs p (o1 + 2);
     frag \<leftarrow> ntohs p (o1 + 6);
     pr \<leftarrow> byte_at p (o1 + 9);
     ttl \<leftarrow> byte_at p (o1 + 8);
     ip_id \<leftarrow> ntohs p (o1 + 4);
     t \<leftarrow> parse_transport p pr (o1 + ip_header_len) (int ip_header_len) total_len;
     Some ([Str '' L3 (IPv4)       | '', Ip4 src_ip, Str '' '', Str arrow, Str '' '', Ip4 dst_ip, Nl,
        Str ''                | Protocol: '', Str (proto_name pr), Str '' ('', Dec (uint pr), Str '') | TTL: '', Dec (uint ttl),
          Str '' | ID: 0x'', Hex 4 ip_id, Str '' | Hdr Len: '', Dec (int ip_header_len), Str '' bytes'', Nl,
        Str ''                | Total Len: '', Dec total_len, Str '' | Flags: ''] @ ip_flags frag @
          [Str '' | Frag Off: '', Dec (frag_off frag), Nl] @ t)
   }"

definition traffic_class :: "int \<Rightarrow> int" where
  "traffic_class vtc_flow = drop_bit 20 vtc_flow AND 0xFF"

definition flow_label :: "int \<Rightarrow> int" where
  "flow_label vtc_flow = vtc_flow AND 0xFFFFF"

definition parse_ipv6 :: "packet \<Rightarrow> nat \<Rightarrow> tok list option" where
  "parse_ipv6 p o1 = do {
     src_ip \<leftarrow> bytes_at p (o1 + 8) 16;
     dst_ip \<leftarrow> bytes_at p (o1 + 24) 16;
     payload_len \<leftarrow> ntohs p (o1 + 4);
     vtc_flow \<leftarrow> ntohl p o1;
     nxt \<leftarrow> byte_at p (o1 + 6);
     hlim \<leftarrow> byte_at p (o1 + 7);
     t \<leftarrow> parse_transport p nxt (o1 + 40) 40 (payload_len + 40);
     Some ([Str '' L3 (IPv6)       | '', Ip6 src_ip, Str '' '', Str arrow, Str '' '', Ip6 dst_ip, Nl,
        Str ''                | Next Header: '', Str (proto_name nxt), Str '' ('', Dec (uint nxt), Str '') | Hop Limit: '', Dec (uint hlim),
          Str '' | Traffic Class: '', Dec (traffic_class vtc_flow), Str '' | Flow Label: 0x'', Hex 5 (flow_label vtc_flow),
          Str '' | Payload Len: '', Dec payload_len, Nl] @ t)
   }"

definition parse_arp :: "packet \<Rightarrow> nat \<Rightarrow> tok list option" where
  "parse_arp p o1 = do {
     sender_ip \<leftarrow> bytes_at p (o1 + 14) 4;
     target_ip \<leftarrow> bytes_at p (o1 + 24) 4;
     op \<leftarrow> ntohs p (o1 + 6);
     sha \<leftarrow> bytes_at p (o1 + 8) 6;
     tha \<leftarrow> bytes_at p (o1 + 18) 6;
     hrd \<leftarrow> ntohs p o1;
     pro \<leftarrow> ntohs p (o1 + 2);
     hln \<leftarrow> byte_at p (o1 + 4);
     pln \<leftarrow> byte_at p (o1 + 5);
     Some ([Str '' L3 (ARP)        | Operation: '', Str (if op = ARPOP_REQUEST then ''REQUEST'' else ''REPLY''), Nl,
        Str ''                | Sender: ''] @ mac_toks sha @ [Str '' ('', Ip4 sender_ip, Str '')'', Nl,
        Str ''                | Target: ''] @ mac_toks tha @ [Str '' ('', Ip4 target_ip, Str '')'', Nl,
        Str ''                | HW Type: '', Dec hrd, Str '' | Proto Type: 0x'', Hex 4 pro,
          Str '' | HW Len: '', Dec (uint hln), Str '' | Proto Len: '', Dec (uint pln), Nl])
   }"

definition parse_ethernet :: "packet \<Rightarrow> tok list option" where
  "parse_ethernet p = do {
     ether_type \<leftarrow> ntohs p 12;
     dhost \<leftarrow> bytes_at p 0 6;
     shost \<leftarrow> bytes_at p 6 6;
     let next_layer_packet = 14;
     let head = [Str '' L2 (Ethernet)   | Dst MAC: ''] @ mac_toks dhost @ [Str '' | Src MAC: ''] @ mac_toks shost;
     (if ether_type = ETHERTYPE_IP then map_option (\<lambda>t. head @ [Str '' | Type: IPv4 (0x'', Hex 4 ether_type, Str '')'', Nl] @ t) (parse_ipv4 p next_layer_packet)
      else if ether_type = ETHERTYPE_IPV6 then map_option (\<lambda>t. head @ [Str '' | Type: IPv6 (0x'', Hex 4 ether_type, Str '')'', Nl] @ t) (parse_ipv6 p next_layer_packet)
      else if ether_type = ETHERTYPE_ARP then map_option (\<lambda>t. head @ [Str '' | Type: ARP (0x'', Hex 4 ether_type, Str '')'', Nl] @ t) (parse_arp p next_layer_packet)
      else Some (head @ [Str '' | Type: Unknown (0x'', Hex 4 ether_type, Str '')'', Nl]))
   }"

end
