(* ===== verification/PacketStorage.thy ===== *)
theory PacketStorage
  imports PacketParser
begin

section \<open>Packet storage and the capture callback (B/src/packet_storage.c, packet_parser.c)\<close>

text \<open>
  The state of the sniffer.  \<open>packet_storage\<close> is the array of pointers: an entry that is
  \<open>None\<close> is a null or dangling pointer, so that following or freeing it is \<open>None\<close>, the
  crash.  A packet arrives as libpcap hands it over, with what the two calls of \<open>malloc\<close>
  made for it return.
\<close>

definition MAX_PACKETS :: int where "MAX_PACKETS = 10000"

record pcap_pkthdr =
  ts_sec :: int
  ts_usec :: int
  caplen :: u32
  pkt_len :: u32

record stored_packet =
  sp_header :: pcap_pkthdr
  sp_data :: packet

record arrived =
  a_header :: pcap_pkthdr
  a_packet :: packet
  struct_ok :: bool
  data_ok :: bool

record shark =
  packet_storage :: "int \<Rightarrow> stored_packet option"
  stored_packet_count :: int
  packet_count :: int
  g_stop_sniffing :: bool
  inp :: string
  session :: nat
  shown :: "tok list"

definition show_toks :: "tok list \<Rightarrow> shark \<Rightarrow> shark" where
  "show_toks ts s = s\<lparr>shown := shown s @ ts\<rparr>"

text \<open>\<open>memcpy\<close> copies \<open>caplen\<close> bytes, which must be there.\<close>

definition store_packet :: "arrived \<Rightarrow> shark \<Rightarrow> shark option" where
  "store_packet a s =
     (if stored_packet_count s \<ge> MAX_PACKETS then Some s
      else if \<not> struct_ok a then Some (show_toks [Str ''Failed to allocate memory for stored packet'', Nl] s)
      else if \<not> data_ok a then Some (show_toks [Str ''Failed to allocate memory for packet data'', Nl] s)
      else do {
        d \<leftarrow> bytes_at (a_packet a) 0 (unat (caplen (a_header a)));
        let sp = \<lparr>sp_header = a_header a, sp_data = d\<rparr>;
        Some (s\<lparr>packet_storage := (packet_storage s)(stored_packet_count s := Some sp),
          stored_packet_count := stored_packet_count s + 1\<rparr>)
      })"

fun free_packets :: "int list \<Rightarrow> shark \<Rightarrow> shark option" where
  "free_packets [] s = Some s"
| "free_packets (i # is) s = do {
     sp \<leftarrow> packet_storage s i;
     free_packets is (s\<lparr>packet_storage := (packet_storage s)(i := None)\<rparr>)
   }"

definition free_packet_storage :: "shark \<Rightarrow> shark option" where
  "free_packet_storage s =
     (if stored_packet_count s = 0 then Some s
      else do {
        let s = show_toks [Nl, Str ''[C-Shark] Freeing memory from last session ('', Dec (stored_packet_count s), Str '' packets)...'', Nl] s;
        s \<leftarrow> free_packets [0..stored_packet_count s - 1] s;
        Some (s\<lparr>stored_packet_count := 0\<rparr>)
      })"

definition reset_packet_counter :: "shark \<Rightarrow> shark" where
  "reset_packet_counter s = s\<lparr>packet_count := 0\<rparr>"

definition parse_packet :: "arrived \<Rightarrow> shark \<Rightarrow> shark option" where
  "parse_packet a s = do {
     let s = s\<lparr>packet_count := packet_count s + 1\<rparr>;
     s \<leftarrow> store_packet a s;
     let h = a_header a;
     let s = show_toks [Str ''--------------------------------------------------------------------'', Nl,
       Str ''Packet #'', Dec_left5 (packet_count s), Str ''| Timestamp: '', Dec (ts_sec h), Str ''.'', Dec_06 (ts_usec h),
       Str '' | Length: '', Dec (sint (pkt_len h)), Str '' bytes'', Nl] s;
     t \<leftarrow> parse_ethernet (a_packet a);
     Some (show_toks t s)
   }"

end
