(* ===== verification/Inspector.thy ===== *)
theory Inspector
  imports PacketStorage
begin

section \<open>The session inspector (B/src/inspector.c)\<close>

text \<open>
  The summary of the stored packets and the detailed view of one of them with its full
  hex dump.  The dump runs over \<open>header->len\<close>, the length on the wire, while the stored
  data has \<open>caplen\<close> bytes.
\<close>

definition raw_dump :: "packet \<Rightarrow> nat \<Rightarrow> nat \<Rightarrow> tok list option" where
  "raw_dump p o1 n = map_option (\<lambda>bs. [Str ''  Raw: ''] @ concat (map (\<lambda>b. [Hex 2 (uint b), Str '' '']) bs) @ [Nl]) (bytes_at p o1 n)"

definition detail :: "string \<Rightarrow> string \<Rightarrow> tok list \<Rightarrow> tok list" where
  "detail mark name ts = [Str ''  '', Str mark, Str '' '', Str name] @ ts @ [Nl]"

definition details_tcp :: "packet \<Rightarrow> nat \<Rightarrow> tok list option" where
  "details_tcp p o1 = do {
     sport \<leftarrow> ntohs p o1;
     dport \<leftarrow> ntohs p (o1 + 2);
     th_seq \<leftarrow> ntohl p (o1 + 4);
     ack \<leftarrow> ntohl p (o1 + 8);
     off \<leftarrow> byte_at p (o1 + 12);
     sum \<leftarrow> ntohs p (o1 + 16);
     let tcp_hl = high_nibble off * 4;
     raw \<leftarrow> raw_dump p o1 tcp_hl;
     Some ([Nl, Str ''Layer 4: TCP Header'', Nl] @ detail branch ''Src Port: '' [Dec sport] @ detail branch ''Dst Port: '' [Dec dport] @
       detail branch ''Sequence Number: '' [Dec th_seq] @ detail branch ''Ack Number: '' [Dec ack] @
       detail branch ''Header Length: '' [Dec (int tcp_hl), Str '' bytes''] @ detail corner ''Checksum: '' [Str ''0x'', Hex 4 sum] @ raw)
   }"

definition details_udp :: "packet \<Rightarrow> nat \<Rightarrow> tok list option" where
  "details_udp p o1 = do {
     sport \<leftarrow> ntohs p o1;
     dport \<leftarrow> ntohs p (o1 + 2);
     ulen \<leftarrow> ntohs p (o1 + 4);
     sum \<leftarrow> ntohs p (o1 + 6);
     raw \<leftarrow> raw_dump p o1 8;
     Some ([Nl, Str ''Layer 4: UDP Header'', Nl] @ detail branch ''Src Port: '' [Dec sport] @ detail branch ''Dst Port: '' [Dec dport] @
       detail branch ''Length: '' [Dec ulen] @ detail corner ''Checksum: '' [Str ''0x'', Hex 4 sum] @ raw)
   }"

definition details_transport :: "packet \<Rightarrow> u8 \<Rightarrow> nat \<Rightarrow> tok list option" where
  "details_transport p pr o1 =
     (if pr = IPPROTO_TCP then details_tcp p o1 else if pr = IPPROTO_UDP then details_udp p o1 else Some [])"

definition details_ipv4 :: "packet \<Rightarrow> nat \<Rightarrow> tok list option" where
  "details_ipv4 p o1 = do {
     src_ip \<leftarrow> bytes_at p (o1 + 12) 4;
     dst_ip \<leftarrow> bytes_at p (o1 + 16) 4;
     frag \<leftarrow> ntohs p (o1 + 6);
     vhl \<leftarrow> byte_at p o1;
     let hl = low_nibble vhl * 4;
     total_len \<leftarrow> ntohs p (o1 + 2);
     ttl \<leftarrow> byte_at p (o1 + 8);
     pr \<leftarrow> byte_at p (o1 + 9);
     raw \<leftarrow> raw_dump p o1 hl;
     t \<leftarrow> details_transport p pr (o1 + hl);
     Some ([Nl, Str ''Layer 3: IPv4 Header'', Nl] @ detail branch ''Version: '' [Dec (int (high_nibble vhl))] @
       detail branch ''Header Length: '' [Dec (int hl), Str '' bytes''] @ detail branch ''Total Length: '' [Dec total_len] @
       detail branch ''TTL: '' [Dec (uint ttl)] @
       detail branch ''Protocol: '' [Dec (uint pr), Str '' '', Str (if pr = IPPROTO_TCP then ''(TCP)'' else if pr = IPPROTO_UDP then ''(UDP)'' else ''(Other)'')] @
       detail branch ''Src IP: '' [Ip4 src_ip] @ detail branch ''Dst IP: '' [Ip4 dst_ip] @
       detail corner ''Flags: '' (ip_flags frag @ [Str '' | Frag Off: '', Dec (frag_off frag)]) @ raw @ t)
   }"

definition details_ipv6 :: "packet \<Rightarrow> nat \<Rightarrow> tok list option" where
  "details_ipv6 p o1 = do {
     src6 \<leftarrow> bytes_at p (o1 + 8) 16;
     dst6 \<leftarrow> bytes_at p (o1 + 24) 16;
     payload_len \<leftarrow> ntohs p (o1 + 4);
     vtc_flow \<leftarrow> ntohl p o1;
     nxt \<leftarrow> byte_at p (o1 + 6);
     hlim \<leftarrow> byte_at p (o1 + 7);
     raw \<leftarrow> raw_dump p o1 40;
     t \<leftarrow> details_transport p nxt (o1 + 40);
     Some ([Nl, Str ''Layer 3: IPv6 Header'', Nl] @ detail branch ''Src IP: '' [Ip6 src6] @ detail branch ''Dst IP: '' [Ip6 dst6] @
       detail branch ''Next Header: '' [Dec (uint nxt)] @ detail branch ''Hop Limit: '' [Dec (uint hlim)] @
       detail branch ''Traffic Class: '' [Dec (traffic_class vtc_flow)] @
       detail corner ''Flow Label: '' [Str ''0x'', Hex 5 (flow_label vtc_flow)] @ raw @ t)
   }"

definition details_arp :: "packet \<Rightarrow> nat \<Rightarrow> tok list option" where
  "details_arp p o1 = do {
     sip \<leftarrow> bytes_at p (o1 + 14) 4;
     tip \<leftarrow> bytes_at p (o1 + 24) 4;
     op \<leftarrow> ntohs p (o1 + 6);
     sha \<leftarrow> bytes_at p (o1 + 8) 6;
     tha \<leftarrow> bytes_at p (o1 + 18) 6;
     hrd \<leftarrow> ntohs p o1;
     pro \<leftarrow> ntohs p (o1 + 2);
     hln \<leftarrow> byte_at p (o1 + 4);
     pln \<leftarrow> byte_at p (o1 + 5);
     raw \<leftarrow> raw_dump p o1 28;
     Some ([Nl, Str ''Layer 3: ARP'', Nl] @
       detail branch ''Operation: '' [Str (if op = ARPOP_REQUEST then ''Request (1)'' else ''Reply (2)'')] @
       detail branch ''Sender MAC: '' (mac_toks sha @ [Str '' | Sender IP: '', Ip4 sip]) @
       detail branch ''Target MAC: '' (mac_toks tha @ [Str '' | Target IP: '', Ip4 tip]) @
       detail corner ''HW Type: '' [Dec hrd, Str '' | Proto Type: '', Str ''0x'', Hex 4 pro, Str '' | HW Len: '', Dec (uint hln),
         Str '' | Proto Len: '', Dec (uint pln)] @ raw)
   }"

definition ether_name :: "int \<Rightarrow> string" where
  "ether_name t = (if t = ETHERTYPE_IP then ''(IPv4)'' else if t = ETHERTYPE_IPV6 then ''(IPv6)''
     else if t = ETHERTYPE_ARP then ''(ARP)'' else ''(Unknown)'')"

definition details_ethernet :: "packet \<Rightarrow> tok list option" where
  "details_ethernet p = do {
     ether_type \<leftarrow> ntohs p 12;
     dhost \<leftarrow> bytes_at p 0 6;
     shost \<leftarrow> bytes_at p 6 6;
     raw \<leftarrow> raw_dump p 0 14;
     t \<leftarrow> (if ether_type = ETHERTYPE_IP then details_ipv4 p 14
       else if ether_type = ETHERTYPE_IPV6 then details_ipv6 p 14
       else if ether_type = ETHERTYPE_ARP then details_arp p 14
       else Some []);
     Some ([Str ''Layer 2: Ethernet Header'', Nl] @ detail branch ''Dst MAC: '' (mac_toks dhost) @ detail branch ''Src MAC: '' (mac_toks shost) @
       detail corner ''EtherType: '' [Str ''0x'', Hex 4 ether_type, Str '' '', Str (ether_name ether_type)] @ raw @ t)
   }"

fun dump_loop :: "packet \<Rightarrow> int \<Rightarrow> nat list \<Rightarrow> tok list option" where
  "dump_loop p len [] = Some []"
| "dump_loop p len (i # is) = do {
     b \<leftarrow> byte_at p i;
     line \<leftarrow> (if i mod 16 = 15 \<or> int i = len - 1 then do {
         cs \<leftarrow> payload_chars p 0 i;
         let padding = (if i mod 16 = 15 then 0 else 15 - i mod 16);
         Some (replicate padding (Str ''   '') @ (if padding \<ge> 8 then [Str '' ''] else []) @ [Str ''| ''] @ cs @ [Nl])
       } else Some []);
     rest \<leftarrow> dump_loop p len is;
     Some ((if i mod 16 = 0 then [Str ''  '', Hex 4 (int i), Str '': ''] else []) @ [Hex 2 (uint b), Str '' ''] @
       (if i mod 16 = 7 then [Str '' ''] else []) @ line @ rest)
   }"

definition print_full_hex_dump :: "packet \<Rightarrow> int \<Rightarrow> tok list option" where
  "print_full_hex_dump p len = dump_loop p len [0..<nat len]"

definition print_packet_details :: "int \<Rightarrow> shark \<Rightarrow> shark option" where
  "print_packet_details packet_id s = do {
     sp \<leftarrow> packet_storage s (packet_id - 1);
     let h = sp_header sp;
     t \<leftarrow> details_ethernet (sp_data sp);
     d \<leftarrow> print_full_hex_dump (sp_data sp) (sint (pkt_len h));
     Some (show_toks ([Nl, Str ''--------------------------------------------------------------------'', Nl,
       Str ''Inspecting Packet #'', Dec packet_id, Nl,
       Str ''Timestamp: '', Dec (ts_sec h), Str ''.'', Dec_06 (ts_usec h), Str '' | Captured Length: '', Dec (sint (pkt_len h)), Str '' bytes'', Nl,
       Str ''--------------------------------------------------------------------'', Nl] @ t @
       [Nl, Str ''Full Packet Hex Dump ('', Dec (sint (pkt_len h)), Str '' bytes)'', Nl] @ d @
       [Str ''--------------------------------------------------------------------'', Nl]) s)
   }"

definition summary_ports :: "string \<Rightarrow> packet \<Rightarrow> nat \<Rightarrow> u8 list \<Rightarrow> u8 list \<Rightarrow> tok list option" where
  "summary_ports head p o1 src_ip dst_ip = do {
     sport \<leftarrow> ntohs p o1;
     dport \<leftarrow> ntohs p (o1 + 2);
     Some [Str head, Ip4 src_ip, Str '':'', Dec sport, Str '' -> '', Ip4 dst_ip, Str '':'', Dec dport]
   }"

definition get_summary_info :: "packet \<Rightarrow> tok list option" where
  "get_summary_info p = do {
     ether_type \<leftarrow> ntohs p 12;
     (if ether_type = ETHERTYPE_IP then do {
        src_ip \<leftarrow> bytes_at p (14 + 12) 4;
        dst_ip \<leftarrow> bytes_at p (14 + 16) 4;
        pr \<leftarrow> byte_at p (14 + 9);
        vhl \<leftarrow> byte_at p 14;
        (if pr = IPPROTO_TCP then summary_ports ''IPv4/TCP   '' p (14 + low_nibble vhl * 4) src_ip dst_ip
         else if pr = IPPROTO_UDP then summary_ports ''IPv4/UDP   '' p (14 + low_nibble vhl * 4) src_ip dst_ip
         else Some [Str ''IPv4       '', Ip4 src_ip, Str '' -> '', Ip4 dst_ip])
      }
      else if ether_type = ETHERTYPE_ARP then do {
        sip \<leftarrow> bytes_at p (14 + 14) 4;
        tip \<leftarrow> bytes_at p (14 + 24) 4;
        Some [Str ''ARP        '', Ip4 sip, Str '' -> '', Ip4 tip]
      }
      else if ether_type = ETHERTYPE_IPV6 then do {
        src6 \<leftarrow> bytes_at p (14 + 8) 16;
        dst6 \<leftarrow> bytes_at p (14 + 24) 16;
        nxt \<leftarrow> byte_at p (14 + 6);
        Some [Str ''IPv6/'', Str (proto_name nxt), Str ''   '', Ip6 src6, Str '' -> '', Ip6 dst6]
      }
      else Some [Str ''Other      Unknown L3 protocol''])
   }"

fun print_summaries :: "int list \<Rightarrow> shark \<Rightarrow> shark option" where
  "print_summaries [] s = Some s"
| "print_summaries (i # is) s = do {
     sp \<leftarrow> packet_storage s i;
     t \<leftarrow> get_summary_info (sp_data sp);
     print_summaries is (show_toks ([Str ''ID: '', Dec_left5 (i + 1), Str ''| Len: '', Dec_left5 (sint (pkt_len (sp_header sp))),
       Str '' bytes  | ''] @ t @ [Nl]) s)
   }"

definition print_session_summary :: "shark \<Rightarrow> shark option" where
  "print_session_summary s =
     print_summaries [0..stored_packet_count s - 1] (show_toks [Nl, Str ''--- Stored Packets Summary ---'', Nl] s)"

definition scan_choice :: "shark \<Rightarrow> scan \<times> shark" where
  "scan_choice s = (case scanf_int (inp s) of (r, rest) \<Rightarrow> (r, s\<lparr>inp := rest\<rparr>))"

definition clear_line :: "shark \<Rightarrow> shark option" where
  "clear_line s = map_option (\<lambda>rest. s\<lparr>inp := rest\<rparr>) (skip_line (inp s))"

definition inspect_session :: "shark \<Rightarrow> shark option" where
  "inspect_session s =
     (if stored_packet_count s = 0
      then Some (show_toks [Nl, Str ''[C-Shark] No packets in storage. Run a sniffing session first.'', Nl] s)
      else do {
        s \<leftarrow> print_session_summary s;
        let s = show_toks [Nl, Str ''Enter Packet ID to inspect (or 0 to return): ''] s;
        (case scan_choice s of
          (Scanned choice, s) \<Rightarrow>
            (if choice = 0 then Some s
             else if choice < 1 \<or> choice > stored_packet_count s then Some (show_toks [Str ''Invalid Packet ID.'', Nl] s)
             else print_packet_details choice s)
        | (r, s) \<Rightarrow> map_option (show_toks [Str ''Invalid input.'', Nl]) (clear_line s))
      })"

end
