(* ===== verification/Capture.thy ===== *)
theory Capture
  imports Inspector
begin

section \<open>Capture sessions and the menu (B/src/pcap_handler.c, utils.c, B/main.c)\<close>

text \<open>
  libpcap and the operating system are the argument \<open>env\<close>: for each session what the
  pcap calls return and the activities \<open>select\<close> reports, for the two calls of
  \<open>pcap_findalldevs\<close> the devices found.  A signal is delivered before the loop tests
  \<open>g_stop_sniffing\<close> again.  A loop that waits for input which never comes is \<open>None\<close>: the
  sniffing loop after its last activity, and \<open>getchar\<close> looking for a newline at the end of
  the input.  The texts of libpcap's errors are left out of the messages.  The menu is a \<open>partial_function\<close>, so that it returns has to be proved.
\<close>

datatype stdin_event = No_input | Input_byte | Input_closed

record ready =
  on_stdin :: stdin_event
  on_pcap :: "arrived list option"
  sigint :: bool

datatype activity = Interrupted bool | Select_failed | Ready ready

record capture =
  open_live_ok :: bool
  compile_ok :: bool
  setfilter_ok :: bool
  setnonblock_ok :: bool
  selectable_fd_ok :: bool
  activities :: "activity list"

record sniff_env =
  captures :: "nat \<Rightarrow> capture"
  devices_listed :: "(string \<times> string option) list option"
  devices_chosen :: "(string \<times> string option) list option"

definition squote :: tok where "squote = Str [CHR 0x27]"
definition dquote :: tok where "dquote = Str [CHR 0x22]"

definition signal_handler :: "shark \<Rightarrow> shark" where
  "signal_handler s = s\<lparr>g_stop_sniffing := True\<rparr>"

fun parse_packets :: "arrived list \<Rightarrow> shark \<Rightarrow> shark option" where
  "parse_packets [] s = Some s"
| "parse_packets (a # as) s = Option.bind (parse_packet a s) (parse_packets as)"

fun sniff_loop :: "activity list \<Rightarrow> shark \<Rightarrow> (int \<times> shark) option" where
  "sniff_loop as s =
     (if g_stop_sniffing s then Some (0, s)
      else case as of [] \<Rightarrow> None
      | Interrupted sig # as \<Rightarrow> sniff_loop as (if sig then signal_handler s else s)
      | Select_failed # as \<Rightarrow> Some (0, show_toks [Str ''[C-Shark] select() error'', Nl] s)
      | Ready r # as \<Rightarrow>
          if on_stdin r = Input_closed
          then Some (-1, show_toks [Nl, Str ''[C-Shark] Ctrl+D detected. Exiting.'', Nl] s)
          else do {
            s \<leftarrow> (case on_pcap r of Some ps \<Rightarrow> parse_packets ps s | None \<Rightarrow> Some s);
            sniff_loop as (if sigint r then signal_handler s else s)
          })"

declare sniff_loop.simps [simp del]

definition start_sniffing :: "sniff_env \<Rightarrow> string \<Rightarrow> string option \<Rightarrow> shark \<Rightarrow> (int \<times> shark) option" where
  "start_sniffing env device_name filter_exp s =
     (let c = captures env (session s);
          s = s\<lparr>session := session s + 1, g_stop_sniffing := False\<rparr> in
      if \<not> open_live_ok c then Some (0, show_toks [Str ''[C-Shark] Couldn't open device '', Str device_name, Nl] s)
      else let s = (case filter_exp of None \<Rightarrow> s | Some f \<Rightarrow> show_toks [Str ''[C-Shark] Applying filter: '', dquote, Str f, dquote, Nl] s) in
      if filter_exp \<noteq> None \<and> \<not> compile_ok c then Some (0, show_toks [Str ''[C-Shark] Couldn't parse filter '', Str (the filter_exp), Nl] s)
      else if filter_exp \<noteq> None \<and> \<not> setfilter_ok c then Some (0, show_toks [Str ''[C-Shark] Couldn't install filter '', Str (the filter_exp), Nl] s)
      else if \<not> setnonblock_ok c then Some (0, show_toks [Str ''[C-Shark] Error setting non-blocking mode'', Nl] s)
      else let s = show_toks [Str ''[C-Shark] Sniffing on '', Str device_name, Str ''... (Press Ctrl+C to stop, Ctrl+D to exit)'', Nl] s in
      if \<not> selectable_fd_ok c then Some (0, show_toks [Str ''[C-Shark] Could not get pcap file descriptor.'', Nl] s)
      else do {
        (r, s) \<leftarrow> sniff_loop (activities c) s;
        Some (r, if g_stop_sniffing s then show_toks [Nl, Str ''[C-Shark] Capture stopped.'', Nl] s else s)
      })"

definition list_devices :: "sniff_env \<Rightarrow> shark \<Rightarrow> int \<times> shark" where
  "list_devices env s = (case devices_listed env of
     None \<Rightarrow> (-1, show_toks [Str ''Error finding devices'', Nl] s)
   | Some ds \<Rightarrow> (int (length ds), show_toks ([Str ''[C-Shark] Searching for available interfaces... Found!'', Nl, Nl] @
       concat (map (\<lambda>(i, name, description). [Dec (int i + 1), Str ''. '', Str name, Str '' ('',
         Str (case description of Some d \<Rightarrow> d | None \<Rightarrow> ''No description available''), Str '')'', Nl]) (enumerate 0 ds))) s))"

definition filter_menu :: "tok list" where
  "filter_menu = [Nl, Str ''--- Filter Selection ---'', Nl, Str ''1. TCP'', Nl, Str ''2. UDP'', Nl, Str ''3. ARP'', Nl,
     Str ''4. DNS (udp or tcp port 53)'', Nl, Str ''5. HTTP (tcp port 80)'', Nl, Str ''6. HTTPS (tcp port 443)'', Nl,
     Str ''0. Back to Main Menu'', Nl, Str ''Enter filter choice: '']"

definition filter_text :: "int \<Rightarrow> string option" where
  "filter_text choice =
     (if choice = 1 then Some ''tcp'' else if choice = 2 then Some ''udp'' else if choice = 3 then Some ''arp''
      else if choice = 4 then Some ''udp port 53 or tcp port 53'' else if choice = 5 then Some ''tcp port 80''
      else if choice = 6 then Some ''tcp port 443'' else None)"

definition handle_filtered_sniffing :: "sniff_env \<Rightarrow> string \<Rightarrow> shark \<Rightarrow> (int \<times> shark) option" where
  "handle_filtered_sniffing env device_name s =
     (case scan_choice (show_toks filter_menu s) of
       (At_eof, s) \<Rightarrow> Some (-1, show_toks [Nl, Str ''[C-Shark] Ctrl+D detected. Exiting.'', Nl] s)
     | (Unmatched, s) \<Rightarrow> map_option (Pair 0) (clear_line s)
     | (Scanned choice, s) \<Rightarrow>
         (case filter_text choice of
           Some f \<Rightarrow> do {
             s \<leftarrow> free_packet_storage s;
             start_sniffing env device_name (Some f) (reset_packet_counter s)
           }
         | None \<Rightarrow> Some (0, if choice = 0 then s else show_toks [Str ''Invalid filter choice.'', Nl] s)))"

definition print_banner :: "tok list" where
  "print_banner = [Str ''Welcome to C-Shark!'', Nl, Str ''The LAZY Corp. Command-Line Packet Predator'', Nl,
     Str ''=============================================='', Nl]"

definition print_menu :: "string \<Rightarrow> tok list" where
  "print_menu dev_name = [Nl, Str ''[C-Shark] Interface '', squote, Str dev_name, squote, Str '' selected. What's next?'', Nl, Nl,
     Str ''1. Start Sniffing (All Packets)'', Nl, Str ''2. Start Sniffing (With Filters)'', Nl,
     Str ''3. Inspect Last Session'', Nl, Str ''4. Exit C-Shark'', Nl, Nl, Str ''Enter your choice: '']"

text \<open>One round of the menu: whether to keep running, and the state.\<close>

definition menu_round :: "sniff_env \<Rightarrow> string \<Rightarrow> shark \<Rightarrow> (bool \<times> shark) option" where
  "menu_round env dev s =
     (case scan_choice (show_toks (print_menu dev) s) of
       (At_eof, s) \<Rightarrow> Some (False, show_toks [Nl, Str ''[C-Shark] Ctrl+D detected. Exiting.'', Nl] s)
     | (Unmatched, s) \<Rightarrow> map_option (Pair True) (clear_line (show_toks [Str ''Invalid input. Please enter a number.'', Nl] s))
     | (Scanned c, s) \<Rightarrow>
         (if c = 1 then do {
            s \<leftarrow> free_packet_storage s;
            (r, s) \<leftarrow> start_sniffing env dev None (reset_packet_counter s);
            Some (r \<noteq> -1, s)
          }
          else if c = 2 then do {
            (r, s) \<leftarrow> handle_filtered_sniffing env dev s;
            Some (r \<noteq> -1, s)
          }
          else if c = 3 then map_option (Pair True) (inspect_session s)
          else if c = 4 then Some (False, s)
          else map_option (Pair True) (clear_line (show_toks [Str ''Invalid choice. Please try again.'', Nl] s))))"

partial_function (option) menu_loop :: "sniff_env \<Rightarrow> string \<Rightarrow> shark \<Rightarrow> shark option" where
  "menu_loop env dev s = do {
     (keep_running, s) \<leftarrow> menu_round env dev s;
     if keep_running then menu_loop env dev s else Some s
   }"

definition init_shark :: "string \<Rightarrow> shark" where
  "init_shark input = \<lparr>packet_storage = (\<lambda>_. None), stored_packet_count = 0, packet_count = 0,
     g_stop_sniffing = False, inp = input, session = 0, shown = []\<rparr>"

text \<open>The program: the exit status and the final state.\<close>

definition sniffer_main :: "sniff_env \<Rightarrow> string \<Rightarrow> (int \<times> shark) option" where
  "sniffer_main env input =
     (case list_devices env (show_toks print_banner (init_shark input)) of (dev_count, s) \<Rightarrow>
        if dev_count \<le> 0 then Some (1, s)
        else case scan_choice (show_toks [Nl, Str ''Select an interface to sniff (1-'', Dec dev_count, Str ''): ''] s) of
          (At_eof, s) \<Rightarrow> Some (0, show_toks [Nl, Str ''[C-Shark] Ctrl+D detected. Exiting.'', Nl] s)
        | (Unmatched, s) \<Rightarrow> Some (1, show_toks [Str ''Invalid selection.'', Nl] s)
        | (Scanned choice, s) \<Rightarrow>
            if choice < 1 \<or> choice > dev_count then Some (1, show_toks [Str ''Invalid selection.'', Nl] s)
            else do {
              all_devs \<leftarrow> devices_chosen env;
              (chosen_dev, d) \<leftarrow> (if nat choice - 1 < length all_devs then Some (all_devs ! (nat choice - 1)) else None);
              s \<leftarrow> menu_loop env chosen_dev s;
              s \<leftarrow> free_packet_storage (show_toks [Nl, Str ''[C-Shark] Mission complete. Swimming away.'', Nl] s);
              Some (0, s)
            })"

end
