(* ===== verification/HexDump.thy ===== *)
theory HexDump
  imports Capture
begin

section \<open>The hex dumps\<close>

text \<open>
  \<open>print_payload\<close> and \<open>print_full_hex_dump\<close> walk over the bytes and decide at every
  index whether a line starts or ends there.  The interface \<open>hex_lines\<close> is what the two
  loops share; the reference is the text of a dump in rows of 16 bytes.
\<close>

definition row :: "u8 list \<Rightarrow> nat \<Rightarrow> u8 list" where
  "row bs k = take 16 (drop (16 * k) bs)"

locale hex_lines =
  fixes scan :: "nat list \<Rightarrow> tok list option" and p :: packet and o1 n :: nat
    and start :: "nat \<Rightarrow> tok list" and cell :: "nat \<Rightarrow> u8 \<Rightarrow> tok list" and finish :: "nat \<Rightarrow> u8 list \<Rightarrow> tok list"
  assumes scan_Nil: "scan [] = Some []"
    and scan_Cons: "i < n \<Longrightarrow> o1 + i < length p \<Longrightarrow> scan (i # is) = map_option (\<lambda>rest. (if i mod 16 = 0 then start i else []) @ cell i (p ! (o1 + i)) @
      (if i mod 16 = 15 \<or> Suc i = n then finish i (take (i mod 16 + 1) (drop (o1 + (i - i mod 16)) p)) else []) @ rest) (scan is)"
    and scan_outside: "i < n \<Longrightarrow> length p \<le> o1 + i \<Longrightarrow> scan (i # is) = None"
begin

definition item :: "nat \<Rightarrow> tok list" where
  "item i = (if i mod 16 = 0 then start i else []) @ cell i (p ! (o1 + i)) @
     (if i mod 16 = 15 \<or> Suc i = n then finish i (take (i mod 16 + 1) (drop (o1 + (i - i mod 16)) p)) else [])"

lemma scan_items: "\<forall>i\<in>set is. i < n \<and> o1 + i < length p \<Longrightarrow> scan is = Some (concat (map item is))"
  by (induction "is") (simp_all add: scan_Nil scan_Cons item_def)

lemma scan_None: "\<forall>i\<in>set is. i < n \<Longrightarrow> \<exists>i\<in>set is. length p \<le> o1 + i \<Longrightarrow> scan is = None"
proof (induction "is")
  case (Cons i "is")
  show ?case
  proof (cases "length p \<le> o1 + i")
    case True
    then show ?thesis using Cons.prems by (simp add: scan_outside)
  next
    case False
    then have "scan is = None" using Cons by auto
    then show ?thesis using False Cons.prems by (simp add: scan_Cons)
  qed
qed simp

lemma row_middle:
  assumes "16 * k + j < n" "j \<le> 15"
  shows "concat (map item [16 * k..<16 * k + j]) = (if j = 0 then [] else start (16 * k)) @ concat (map (\<lambda>i. cell i (p ! (o1 + i))) [16 * k..<16 * k + j])"
  using assms by (induction j) (simp_all add: item_def)

lemma row_line:
  assumes "16 * k + m \<le> n" "0 < m" "m \<le> 16" "m = 16 \<or> 16 * k + m = n"
  shows "concat (map item [16 * k..<16 * k + m]) = start (16 * k) @ concat (map (\<lambda>i. cell i (p ! (o1 + i))) [16 * k..<16 * k + m]) @
    finish (16 * k + m - 1) (take m (drop (o1 + 16 * k) p))"
proof -
  obtain j where j: "m = Suc j" "j \<le> 15" using assms(2,3) by (cases m) auto
  have "(16 * k + j) mod 16 = j" using j by simp
  moreover have "(16 * k + j) mod 16 = 15 \<or> Suc (16 * k + j) = n" using assms(4) j by auto
  ultimately have "item (16 * k + j) = (if j = 0 then start (16 * k) else []) @ cell (16 * k + j) (p ! (o1 + (16 * k + j))) @
    finish (16 * k + j) (take m (drop (o1 + 16 * k) p))" using j by (simp add: item_def)
  then show ?thesis using row_middle [of k j] assms(1) j by (simp add: add.assoc)
qed

definition line :: "nat \<Rightarrow> tok list" where
  "line k = (let m = min 16 (n - 16 * k) in start (16 * k) @ concat (map (\<lambda>i. cell i (p ! (o1 + i))) [16 * k..<16 * k + m]) @
     finish (16 * k + m - 1) (take m (drop (o1 + 16 * k) p)))"

lemma lines: "16 * k \<le> n \<Longrightarrow> concat (map item [16 * k..<n]) = concat (map line [k..<(n + 15) div 16])"
proof (induction "n - 16 * k" arbitrary: k rule: less_induct)
  case less
  show ?case
  proof (cases "16 * k = n")
    case True
    then have "(n + 15) div 16 \<le> k" by linarith
    then show ?thesis using True by simp
  next
    case False
    let ?m = "min 16 (n - 16 * k)"
    have m: "16 * k + ?m \<le> n" "0 < ?m" "?m = 16 \<or> 16 * k + ?m = n" using less.prems False by auto
    have l: "concat (map item [16 * k..<16 * k + ?m]) = line k" using row_line [OF m(1,2) _ m(3)] by (simp add: line_def Let_def)
    have k: "k < (n + 15) div 16" using less.prems False by linarith
    have s: "[16 * k..<n] = [16 * k..<16 * k + ?m] @ [16 * k + ?m..<n]" using m(1) by (metis le_add1 upt_add_eq_append le_add_diff_inverse)
    show ?thesis
    proof (cases "?m = 16")
      case True
      then have "concat (map item [16 * Suc k..<n]) = concat (map line [Suc k..<(n + 15) div 16])"
        using m by (intro less.hyps) auto
      then show ?thesis using s l k True by (simp add: upt_conv_Cons [OF k] add.commute)
    next
      case False
      then have "16 * k + ?m = n" "(n + 15) div 16 = Suc k" using m less.prems by auto
      then show ?thesis using s l by simp
    qed
  qed
qed

lemma scan_all: "scan [0..<n] = (if n = 0 \<or> o1 + n \<le> length p then Some (concat (map line [0..<(n + 15) div 16])) else None)"
proof (cases "n = 0 \<or> o1 + n \<le> length p")
  case True
  then have "\<forall>i\<in>set [0..<n]. i < n \<and> o1 + i < length p" by auto
  then show ?thesis using True scan_items [of "[0..<n]"] lines [of 0] by simp
next
  case False
  then have "\<exists>i\<in>set [0..<n]. length p \<le> o1 + i" by (intro bexI [of _ "n - 1"]) auto
  then show ?thesis using False scan_None [of "[0..<n]"] by simp
qed

end

text \<open>The lines of the two dumps.\<close>

definition hex_cells :: "u8 list \<Rightarrow> tok list" where
  "hex_cells bs = concat (map (\<lambda>b. [Hex 2 (uint b), Str '' '']) bs)"

definition payload_line :: "u8 list \<Rightarrow> tok list" where
  "payload_line bs = [Str ''                | ''] @ hex_cells bs @ replicate (16 - length bs) (Str ''   '') @ [Str '' ''] @
     map (\<lambda>b. Chr (printable b)) bs @ [Nl]"

definition dump_line :: "nat \<Rightarrow> u8 list \<Rightarrow> tok list" where
  "dump_line k bs = [Str ''  '', Hex 4 (16 * int k), Str '': ''] @ hex_cells (take 8 bs) @ (if length bs \<ge> 8 then [Str '' ''] else []) @
     hex_cells (drop 8 bs) @ replicate (16 - length bs) (Str ''   '') @ (if length bs \<le> 8 then [Str '' ''] else []) @ [Str ''| ''] @
     map (\<lambda>b. Chr (printable b)) bs @ [Nl]"

interpretation pay: hex_lines "payload_loop p o1 n" p o1 n "\<lambda>i. [Str ''                | '']" "\<lambda>i b. [Hex 2 (uint b), Str '' '']"
  "\<lambda>i bs. replicate (15 - i mod 16) (Str ''   '') @ [Str '' ''] @ map (\<lambda>b. Chr (printable b)) bs @ [Nl]" for p o1 n
proof unfold_locales
  fix i and "is" :: "nat list"
  assume i: "i < n" "o1 + i < length p"
  have e: "i = n - 1 \<longleftrightarrow> Suc i = n" using i by auto
  have "o1 + (i - i mod 16) + (i mod 16 + 1) \<le> length p" using i by (simp add: minus_mod_eq_mult_div)
  then show "payload_loop p o1 n (i # is) = map_option (\<lambda>rest. (if i mod 16 = 0 then [Str ''                | ''] else []) @ [Hex 2 (uint (p ! (o1 + i))), Str '' ''] @
      (if i mod 16 = 15 \<or> Suc i = n then replicate (15 - i mod 16) (Str ''   '') @ [Str '' ''] @
        map (\<lambda>b. Chr (printable b)) (take (i mod 16 + 1) (drop (o1 + (i - i mod 16)) p)) @ [Nl] else []) @ rest) (payload_loop p o1 n is)"
    using i e by (cases "payload_loop p o1 n is") (auto simp: payload_chars_def)
qed simp_all

interpretation full: hex_lines "dump_loop p (int n)" p 0 n "\<lambda>i. [Str ''  '', Hex 4 (int i), Str '': '']"
  "\<lambda>i b. [Hex 2 (uint b), Str '' ''] @ (if i mod 16 = 7 then [Str '' ''] else [])"
  "\<lambda>i bs. replicate (15 - i mod 16) (Str ''   '') @ (if i mod 16 \<le> 7 then [Str '' ''] else []) @ [Str ''| ''] @
    map (\<lambda>b. Chr (printable b)) bs @ [Nl]" for p n
proof unfold_locales
  fix i and "is" :: "nat list"
  assume i: "i < n" "0 + i < length p"
  have e: "int i = int n - 1 \<longleftrightarrow> Suc i = n" using i by auto
  have "i - i mod 16 + (i mod 16 + 1) \<le> length p" using i by (simp add: minus_mod_eq_mult_div)
  then have cs: "payload_chars p 0 i = Some (map (\<lambda>b. Chr (printable b)) (take (i mod 16 + 1) (drop (0 + (i - i mod 16)) p)))"
    by (simp add: payload_chars_def)
  have line: "(if i mod 16 = 15 \<or> int i = int n - 1 then do {
         cs \<leftarrow> payload_chars p 0 i;
         let padding = (if i mod 16 = 15 then 0 else 15 - i mod 16);
         Some (replicate padding (Str ''   '') @ (if padding \<ge> 8 then [Str '' ''] else []) @ [Str ''| ''] @ cs @ [Nl])
       } else Some []) = Some (if i mod 16 = 15 \<or> Suc i = n then replicate (15 - i mod 16) (Str ''   '') @
         (if i mod 16 \<le> 7 then [Str '' ''] else []) @ [Str ''| ''] @ map (\<lambda>b. Chr (printable b)) (take (i mod 16 + 1) (drop (0 + (i - i mod 16)) p)) @ [Nl] else [])"
  proof -
    obtain a where a: "i mod 16 = a" "a \<le> 15" by simp
    then show ?thesis unfolding e cs by (cases "a = 15") (auto simp: Let_def)
  qed
  show "dump_loop p (int n) (i # is) = map_option (\<lambda>rest. (if i mod 16 = 0 then [Str ''  '', Hex 4 (int i), Str '': ''] else []) @
      ([Hex 2 (uint (p ! (0 + i))), Str '' ''] @ (if i mod 16 = 7 then [Str '' ''] else [])) @
      (if i mod 16 = 15 \<or> Suc i = n then replicate (15 - i mod 16) (Str ''   '') @ (if i mod 16 \<le> 7 then [Str '' ''] else []) @ [Str ''| ''] @
        map (\<lambda>b. Chr (printable b)) (take (i mod 16 + 1) (drop (0 + (i - i mod 16)) p)) @ [Nl] else []) @ rest) (dump_loop p (int n) is)"
    unfolding dump_loop.simps line using i by (cases "dump_loop p (int n) is") simp_all
qed simp_all

lemma row_bytes: "16 * k + m \<le> n \<Longrightarrow> m \<le> 16 \<Longrightarrow> m = 16 \<or> 16 * k + m = n \<Longrightarrow> o1 + n \<le> length p \<Longrightarrow>
    take m (drop (o1 + 16 * k) p) = row (take n (drop o1 p)) k"
proof -
  assume "16 * k + m \<le> n" "m \<le> 16" "m = 16 \<or> 16 * k + m = n"
  then have m: "min 16 (n - 16 * k) = m" by auto
  show ?thesis by (simp add: row_def drop_take m add.commute)
qed

lemma cells_of_row:
  assumes "o1 + n \<le> length p" "16 * k + m \<le> n"
  shows "map (\<lambda>i. p ! (o1 + i)) [16 * k..<16 * k + m] = take m (drop (o1 + 16 * k) p)"
  by (rule nth_equalityI) (use assms in \<open>simp_all add: add.assoc\<close>)

text \<open>A line of the loops, read off the row.\<close>

lemma pay_line:
  assumes "o1 + n \<le> length p" "16 * k < n"
  shows "pay.line p o1 n k = payload_line (row (take n (drop o1 p)) k)"
proof -
  let ?m = "min 16 (n - 16 * k)"
  have m: "16 * k + ?m \<le> n" "?m \<le> 16" "?m = 16 \<or> 16 * k + ?m = n" using assms(2) by auto
  have r: "take ?m (drop (o1 + 16 * k) p) = row (take n (drop o1 p)) k" by (rule row_bytes [OF m assms(1)])
  have l: "length (row (take n (drop o1 p)) k) = ?m" by (subst r [symmetric]) (use m assms in simp)
  have "concat (map (\<lambda>i. [Hex 2 (uint (p ! (o1 + i))), Str '' '']) [16 * k..<16 * k + ?m]) = hex_cells (map (\<lambda>i. p ! (o1 + i)) [16 * k..<16 * k + ?m])"
    by (simp add: hex_cells_def comp_def)
  moreover have "15 - (16 * k + ?m - 1) mod 16 = 16 - ?m"
  proof -
    obtain j where "?m = Suc j" using assms(2) by (cases ?m) auto
    then show ?thesis using m(2) by simp
  qed
  ultimately show ?thesis
    unfolding pay.line_def Let_def cells_of_row [OF assms(1) m(1)] r payload_line_def l by simp
qed

lemma spaced_cells:
  "concat (map (\<lambda>j. [Hex 2 (uint (bs ! j)), Str '' ''] @ (if j = 7 then [Str '' ''] else [])) [0..<length bs]) =
    hex_cells (take 8 bs) @ (if length bs \<ge> 8 then [Str '' ''] else []) @ hex_cells (drop 8 bs)"
proof -
  have part: "concat (map (\<lambda>j. [Hex 2 (uint (bs ! j)), Str '' ''] @ (if j = 7 then [Str '' ''] else [])) [a..<b]) = hex_cells (take (b - a) (drop a bs))"
    if "b \<le> length bs" "b \<le> 7 \<or> 8 \<le> a" for a b
  proof -
    have "take (b - a) (drop a bs) = map ((!) bs) [a..<b]" by (rule nth_equalityI) (use that in simp_all)
    then show ?thesis using that by (auto simp: hex_cells_def comp_def intro!: arg_cong [where f = concat] map_cong)
  qed
  show ?thesis
  proof (cases "8 \<le> length bs")
    case True
    then obtain d where d: "length bs = 8 + d" using le_Suc_ex by blast
    have "[0..<8 :: nat] = [0..<7] @ [7]" by (simp add: upt_rec)
    then have "[0..<length bs] = [0..<7] @ 7 # [8..<length bs]" using upt_add_eq_append [of 0 8 d] by (simp add: d)
    moreover have "take 8 bs = take 7 bs @ [bs ! 7]" using True by (simp add: take_Suc_conv_app_nth [of 7, simplified])
    ultimately show ?thesis using True part [of 7 0] part [of "length bs" 8] by (simp add: hex_cells_def)
  next
    case False
    then show ?thesis using part [of "length bs" 0] by (simp add: hex_cells_def)
  qed
qed

lemma full_line:
  assumes "n \<le> length p" "16 * k < n"
  shows "full.line p n k = dump_line k (row (take n p) k)"
proof -
  let ?m = "min 16 (n - 16 * k)" and ?bs = "row (take n p) k"
  have m: "16 * k + ?m \<le> n" "?m \<le> 16" "?m = 16 \<or> 16 * k + ?m = n" using assms(2) by auto
  have r: "take ?m (drop (0 + 16 * k) p) = ?bs" using row_bytes [OF m, of 0 p] assms(1) by simp
  have l: "length ?bs = ?m" by (subst r [symmetric]) (use m assms in simp)
  have c: "map (\<lambda>i. [Hex 2 (uint (p ! (0 + i))), Str '' ''] @ (if i mod 16 = 7 then [Str '' ''] else [])) [16 * k..<16 * k + ?m] =
    map (\<lambda>j. [Hex 2 (uint (?bs ! j)), Str '' ''] @ (if j = 7 then [Str '' ''] else [])) [0..<length ?bs]"
  proof (rule nth_equalityI)
    fix j assume "j < length (map (\<lambda>i. [Hex 2 (uint (p ! (0 + i))), Str '' ''] @ (if i mod 16 = 7 then [Str '' ''] else [])) [16 * k..<16 * k + ?m])"
    then have j: "j < ?m" by simp
    then have "?bs ! j = p ! (16 * k + j)" using assms m(1) by (simp add: r [symmetric])
    moreover have "(16 * k + j) mod 16 = j" using j by simp
    ultimately show "map (\<lambda>i. [Hex 2 (uint (p ! (0 + i))), Str '' ''] @ (if i mod 16 = 7 then [Str '' ''] else [])) [16 * k..<16 * k + ?m] ! j =
      map (\<lambda>j. [Hex 2 (uint (?bs ! j)), Str '' ''] @ (if j = 7 then [Str '' ''] else [])) [0..<length ?bs] ! j"
      using j by (simp add: l)
  qed (simp add: l)
  obtain j where j: "?m = Suc j" using assms(2) by (cases ?m) auto
  then have e: "(16 * k + ?m - 1) mod 16 = ?m - 1" using m(2) by simp
  have f: "15 - (?m - 1) = 16 - ?m" "?m - 1 \<le> 7 \<longleftrightarrow> ?m \<le> 8" using j by auto
  show ?thesis
    unfolding full.line_def Let_def c spaced_cells unfolding r dump_line_def e f l by simp
qed

lemma payload_scan: "payload_loop p o1 n [0..<n] = (if n = 0 \<or> o1 + n \<le> length p
    then Some (concat (map (\<lambda>k. payload_line (row (take n (drop o1 p)) k)) [0..<(n + 15) div 16])) else None)"
proof (cases "n = 0 \<or> \<not> o1 + n \<le> length p")
  case False
  then have "map (pay.line p o1 n) [0..<(n + 15) div 16] = map (\<lambda>k. payload_line (row (take n (drop o1 p)) k)) [0..<(n + 15) div 16]"
    by (intro map_cong refl pay_line) auto
  then have "payload_loop p o1 n [0..<n] = Some (concat (map (\<lambda>k. payload_line (row (take n (drop o1 p)) k)) [0..<(n + 15) div 16]))"
    unfolding pay.scan_all using False by (auto simp only: simp_thms if_True split: if_splits)
  then show ?thesis using False by simp
qed (auto simp: pay.scan_all)

lemma full_scan: "dump_loop p (int n) [0..<n] = (if n \<le> length p
    then Some (concat (map (\<lambda>k. dump_line k (row (take n p) k)) [0..<(n + 15) div 16])) else None)"
proof (cases "n = 0 \<or> \<not> n \<le> length p")
  case False
  then have "map (full.line p n) [0..<(n + 15) div 16] = map (\<lambda>k. dump_line k (row (take n p) k)) [0..<(n + 15) div 16]"
    by (intro map_cong refl full_line) auto
  then have "dump_loop p (int n) [0..<n] = Some (concat (map (\<lambda>k. dump_line k (row (take n p) k)) [0..<(n + 15) div 16]))"
    unfolding full.scan_all using False by (auto simp only: simp_thms if_True add_0_left split: if_splits)
  then show ?thesis using False by simp
qed (auto simp: full.scan_all)

lemma print_payload_rows:
  "print_payload p o1 len = (let n = nat (min len 64) in
     if n = 0 \<or> o1 + n \<le> length p
     then Some (concat (map (\<lambda>k. payload_line (row (take n (drop o1 p)) k)) [0..<(n + 15) div 16])) else None)"
proof -
  have "(if len > 64 then 64 else len) = min len 64" by auto
  then show ?thesis by (simp only: print_payload_def Let_def payload_scan)
qed

text \<open>The full dump; its length comes from the packet's length on the wire.\<close>

lemma full_dump_rows:
  "print_full_hex_dump p len =
     (if nat len \<le> length p then Some (concat (map (\<lambda>k. dump_line k (row (take (nat len) p) k)) [0..<(nat len + 15) div 16])) else None)"
proof (cases "len \<le> 0")
  case False
  then show ?thesis using full_scan [of p "nat len"] by (simp add: print_full_hex_dump_def)
qed (simp add: print_full_hex_dump_def)

subsection \<open>What the dumps show\<close>

text \<open>C39. \<open>print_payload\<close>.  The loop over single bytes shows what the row-by-row reference
  shows: the first 64 bytes of the payload at most, in rows of 16, each row with its bytes
  in hexadecimal, padded to the width of 16, and then as text with a dot for everything
  unprintable.  It reads outside the packet exactly when the bytes to show are not all
  captured.\<close>

theorem payload_dump_rows:
  "print_payload p o1 len = (let n = nat (min len 64) in
     if n = 0 \<or> o1 + n \<le> length p
     then Some (concat (map (\<lambda>k. payload_line (row (take n (drop o1 p)) k)) [0..<(n + 15) div 16])) else None)"
  by (rule print_payload_rows)

end
