(* ===== verification/SnifferRun.thy ===== *)
theory SnifferRun
  imports HexDump
begin

section \<open>Properties of the packet sniffer\<close>

text \<open>
  The storage of a session, the menu, and the display of a frame.  \<open>store_wf\<close> says that
  exactly the entries below \<open>stored_packet_count\<close> point to a packet; \<open>kept\<close> reads them as
  a list.  The menu's loop is compared with its bounded version: every round reads from
  the input, so the length of the input bounds the rounds.
\<close>

definition store_wf :: "shark \<Rightarrow> bool" where
  "store_wf s \<longleftrightarrow> 0 \<le> stored_packet_count s \<and> stored_packet_count s \<le> MAX_PACKETS \<and>
     (\<forall>i. packet_storage s i \<noteq> None \<longleftrightarrow> 0 \<le> i \<and> i < stored_packet_count s)"

definition kept :: "shark \<Rightarrow> stored_packet list" where
  "kept s = map (\<lambda>i. the (packet_storage s i)) [0..stored_packet_count s - 1]"

definition stored_as :: "arrived \<Rightarrow> stored_packet" where
  "stored_as a = \<lparr>sp_header = a_header a, sp_data = take (unat (caplen (a_header a))) (a_packet a)\<rparr>"

definition same_store :: "shark \<Rightarrow> shark \<Rightarrow> bool" where
  "same_store s t \<longleftrightarrow> packet_storage t = packet_storage s \<and> stored_packet_count t = stored_packet_count s"

lemma same_store_simps [simp]:
  "same_store s (show_toks ts t) = same_store s t" "same_store (show_toks ts s) t = same_store s t" "same_store s (t\<lparr>inp := i\<rparr>) = same_store s t"
  "same_store s (t\<lparr>g_stop_sniffing := b\<rparr>) = same_store s t" "same_store s (t\<lparr>session := n\<rparr>) = same_store s t"
  "same_store s (t\<lparr>packet_count := c\<rparr>) = same_store s t" "same_store s s"
  by (simp_all add: same_store_def show_toks_def)

lemma same_store_wf: "same_store s t \<Longrightarrow> store_wf t = store_wf s" "same_store s t \<Longrightarrow> kept t = kept s"
  by (simp_all add: same_store_def store_wf_def kept_def)

lemma same_store_trans: "same_store s t \<Longrightarrow> same_store t u \<Longrightarrow> same_store s u"
  by (simp add: same_store_def)

lemma length_kept: "store_wf s \<Longrightarrow> int (length (kept s)) = stored_packet_count s"
  by (simp add: kept_def store_wf_def)

lemma show_toks_sel [simp]:
  "packet_storage (show_toks ts s) = packet_storage s" "stored_packet_count (show_toks ts s) = stored_packet_count s"
  "packet_count (show_toks ts s) = packet_count s" "g_stop_sniffing (show_toks ts s) = g_stop_sniffing s"
  "inp (show_toks ts s) = inp s" "session (show_toks ts s) = session s"
  by (simp_all add: show_toks_def)

lemma store_packet_ok:
  assumes "store_wf s" "store_packet a s = Some t"
  shows "store_wf t \<and> packet_count t = packet_count s \<and> inp t = inp s \<and>
    kept t = take 10000 (kept s @ (if struct_ok a \<and> data_ok a then [stored_as a] else []))"
proof (cases "stored_packet_count s \<ge> MAX_PACKETS \<or> \<not> struct_ok a \<or> \<not> data_ok a")
  case True
  have l: "length (kept s) \<le> 10000" "stored_packet_count s \<ge> MAX_PACKETS \<Longrightarrow> length (kept s) = 10000"
    using assms(1) length_kept [OF assms(1)] by (auto simp: store_wf_def MAX_PACKETS_def)
  have s: "same_store s t" "packet_count t = packet_count s" "inp t = inp s" using True assms(2) by (auto simp: store_packet_def split: if_splits)
  then show ?thesis using True l same_store_wf [OF s(1)] assms(1) by auto
next
  case False
  let ?c = "stored_packet_count s"
  have c: "0 \<le> ?c" "?c < MAX_PACKETS" using assms(1) False by (auto simp: store_wf_def)
  have d: "unat (caplen (a_header a)) \<le> length (a_packet a)"
    and t: "t = s\<lparr>packet_storage := (packet_storage s)(?c := Some (stored_as a)), stored_packet_count := ?c + 1\<rparr>"
    using assms(2) False by (auto simp: store_packet_def bytes_at_def stored_as_def split: if_splits)
  have "store_wf t" using assms(1) c unfolding t by (auto simp: store_wf_def)
  moreover have "kept t = kept s @ [stored_as a]"
  proof -
    have "[0..?c] = [0..?c - 1] @ [?c]" using c(1) by (simp add: upto_rec2)
    then show ?thesis by (simp add: kept_def t)
  qed
  moreover have "length (kept s) < 10000" using length_kept [OF assms(1)] c by (simp add: MAX_PACKETS_def)
  ultimately show ?thesis using False by (simp add: t)
qed

lemma parse_packet_ok:
  assumes "store_wf s" "parse_packet a s = Some t"
  shows "store_wf t \<and> packet_count t = packet_count s + 1 \<and> inp t = inp s \<and>
    kept t = take 10000 (kept s @ (if struct_ok a \<and> data_ok a then [stored_as a] else []))"
proof -
  let ?s = "s\<lparr>packet_count := packet_count s + 1\<rparr>"
  have w: "store_wf ?s" "kept ?s = kept s" using assms(1) same_store_wf [of s ?s] by simp_all
  obtain u where u: "store_packet a ?s = Some u" "same_store u t" "packet_count t = packet_count u" "inp t = inp u"
    using assms(2) by (auto simp: parse_packet_def Let_def)
  show ?thesis using store_packet_ok [OF w(1) u(1)] same_store_wf [OF u(2)] u(3,4) w(2) by simp
qed

lemma take_take_append: "take n (take n xs @ ys) = take n (xs @ ys)"
  by (simp add: min_def)

text \<open>C37. Packet storage.  Whatever packets arrive, the storage stays well formed and holds, in the
  order of arrival, copies of the captured bytes of the first 10000 packets for which
  memory could be allocated; the packet counter counts every packet.\<close>

theorem storage_keeps_first:
  assumes "store_wf s" "parse_packets as s = Some t"
  shows "store_wf t \<and> packet_count t = packet_count s + int (length as) \<and>
    kept t = take 10000 (kept s @ map stored_as (filter (\<lambda>a. struct_ok a \<and> data_ok a) as))"
  using assms
proof (induction "as" arbitrary: s)
  case Nil
  then show ?case using length_kept [of s] by (auto simp: store_wf_def MAX_PACKETS_def)
next
  case (Cons a "as")
  obtain u where u: "parse_packet a s = Some u" "parse_packets as u = Some t" using Cons.prems(2) by auto
  note p = parse_packet_ok [OF Cons.prems(1) u(1)]
  have "kept t = take 10000 (kept u @ map stored_as (filter (\<lambda>a. struct_ok a \<and> data_ok a) as))" using Cons.IH [OF _ u(2)] p by simp
  also have "\<dots> = take 10000 (kept s @ map stored_as (filter (\<lambda>a. struct_ok a \<and> data_ok a) (a # as)))"
    using p by (simp only: take_take_append append_assoc) (simp del: take_append)
  finally show ?case using Cons.IH [OF _ u(2)] p by simp
qed

subsection \<open>Sessions\<close>

lemma free_packets_ok:
  "0 \<le> i \<Longrightarrow> \<forall>j. i \<le> j \<and> j < c \<longrightarrow> packet_storage s j \<noteq> None \<Longrightarrow>
    free_packets [i..c - 1] s = Some (s\<lparr>packet_storage := (\<lambda>j. if i \<le> j \<and> j < c then None else packet_storage s j)\<rparr>)"
proof (induction "nat (c - i)" arbitrary: i s)
  case 0
  then have "(\<lambda>j. if i \<le> j \<and> j < c then None else packet_storage s j) = packet_storage s" by (intro ext) auto
  then show ?case using 0 by simp
next
  case (Suc n)
  then have lt: "i < c" by simp
  then obtain sp where sp: "packet_storage s i = Some sp" using Suc.prems by blast
  let ?s = "s\<lparr>packet_storage := (packet_storage s)(i := None)\<rparr>"
  have "free_packets [i + 1..c - 1] ?s = Some (?s\<lparr>packet_storage := (\<lambda>j. if i + 1 \<le> j \<and> j < c then None else packet_storage ?s j)\<rparr>)"
    using Suc.hyps(2) Suc.prems lt by (intro Suc.hyps(1)) auto
  moreover have "(\<lambda>j. if i + 1 \<le> j \<and> j < c then None else packet_storage ?s j) = (\<lambda>j. if i \<le> j \<and> j < c then None else packet_storage s j)"
    using lt by (auto simp: fun_eq_iff)
  ultimately show ?case using lt sp by (simp add: upto_rec1)
qed

text \<open>No packet is freed twice or used after it has been freed: from a well-formed storage
  \<open>free_packet_storage\<close> returns, with an empty well-formed storage in which no pointer
  dangles.\<close>

lemma free_packet_storage_ok:
  assumes "store_wf s"
  shows "\<exists>t. free_packet_storage s = Some t \<and> store_wf t \<and> kept t = [] \<and> packet_storage t = (\<lambda>_. None) \<and>
    packet_count t = packet_count s \<and> inp t = inp s"
proof (cases "stored_packet_count s = 0")
  case True
  have "packet_storage s i = None" for i using assms True unfolding store_wf_def by (metis not_less)
  then have "packet_storage s = (\<lambda>_. None)" by auto
  then show ?thesis using True assms by (simp add: free_packet_storage_def kept_def)
next
  case False
  let ?c = "stored_packet_count s"
  have e: "(\<lambda>j. if 0 \<le> j \<and> j < ?c then None else packet_storage s j) = (\<lambda>_. None)"
    using assms by (fastforce simp: store_wf_def fun_eq_iff)
  obtain u where u: "u = show_toks [Nl, Str ''[C-Shark] Freeing memory from last session ('', Dec ?c, Str '' packets)...'', Nl] s" by simp
  then have pu: "packet_storage u = packet_storage s" by simp
  have "free_packets [0..?c - 1] u = Some (u\<lparr>packet_storage := (\<lambda>j. if 0 \<le> j \<and> j < ?c then None else packet_storage u j)\<rparr>)"
    by (rule free_packets_ok) (use assms in \<open>auto simp: store_wf_def pu\<close>)
  then have "free_packets [0..?c - 1] u = Some (u\<lparr>packet_storage := (\<lambda>_. None)\<rparr>)" unfolding pu e .
  then have "free_packet_storage s = Some (u\<lparr>packet_storage := (\<lambda>_. None), stored_packet_count := 0\<rparr>)"
    using False by (simp add: free_packet_storage_def u)
  then show ?thesis by (simp add: store_wf_def kept_def MAX_PACKETS_def u)
qed

lemma parse_packets_ok: "store_wf s \<Longrightarrow> parse_packets as s = Some t \<Longrightarrow> store_wf t \<and> inp t = inp s"
  by (induction "as" arbitrary: s) (use parse_packet_ok in \<open>fastforce\<close>)+

lemma signal_sel [simp]: "inp (signal_handler s) = inp s" "store_wf (signal_handler s) = store_wf s"
  by (simp_all add: signal_handler_def store_wf_def)

lemma store_wf_same [simp]: "store_wf (show_toks ts s) = store_wf s" "store_wf (s\<lparr>inp := i\<rparr>) = store_wf s"
  "store_wf (s\<lparr>packet_count := c\<rparr>) = store_wf s" "store_wf (s\<lparr>session := n, g_stop_sniffing := b\<rparr>) = store_wf s"
  by (simp_all add: store_wf_def)

lemma sniff_loop_Cons: "sniff_loop (a # as) s =
     (if g_stop_sniffing s then Some (0, s)
      else case a of
      Interrupted sig \<Rightarrow> sniff_loop as (if sig then signal_handler s else s)
      | Select_failed \<Rightarrow> Some (0, show_toks [Str ''[C-Shark] select() error'', Nl] s)
      | Ready r \<Rightarrow>
          if on_stdin r = Input_closed
          then Some (-1, show_toks [Nl, Str ''[C-Shark] Ctrl+D detected. Exiting.'', Nl] s)
          else do {
            s \<leftarrow> (case on_pcap r of Some ps \<Rightarrow> parse_packets ps s | None \<Rightarrow> Some s);
            sniff_loop as (if sigint r then signal_handler s else s)
          })"
  by (subst sniff_loop.simps) (simp split: activity.split)

lemma sniff_loop_ok: "store_wf s \<Longrightarrow> sniff_loop as s = Some (r, t) \<Longrightarrow> store_wf t \<and> inp t = inp s"
proof (induction "as" arbitrary: s)
  case (Cons a as')
  show ?case
  proof (cases "g_stop_sniffing s")
    case False
    show ?thesis
    proof (cases a)
      case (Interrupted sig)
      then have "sniff_loop as' (if sig then signal_handler s else s) = Some (r, t)"
        using Cons.prems(2) False by (simp add: sniff_loop_Cons)
      then show ?thesis using Cons.IH [of "if sig then signal_handler s else s"] Cons.prems(1) by (cases sig) simp_all
    next
      case Select_failed
      then show ?thesis using Cons.prems False by (auto simp: sniff_loop_Cons)
    next
      case (Ready rd)
      show ?thesis
      proof (cases "on_stdin rd = Input_closed")
        case True
        then show ?thesis using Cons.prems False Ready by (auto simp: sniff_loop_Cons)
      next
        case c: False
        then obtain u where u: "(case on_pcap rd of Some ps \<Rightarrow> parse_packets ps s | None \<Rightarrow> Some s) = Some u"
          "sniff_loop as' (if sigint rd then signal_handler u else u) = Some (r, t)"
          using Cons.prems(2) False Ready by (auto simp: sniff_loop_Cons)
        have "store_wf u \<and> inp u = inp s" using u(1) Cons.prems(1) parse_packets_ok by (auto split: option.splits)
        then show ?thesis using Cons.IH [of "if sigint rd then signal_handler u else u"] u(2) by (cases "sigint rd") simp_all
      qed
    qed
  qed (use Cons.prems in \<open>auto simp: sniff_loop_Cons\<close>)
qed (auto simp: sniff_loop.simps [of "[]"] split: if_splits)

lemma start_sniffing_ok:
  assumes "store_wf s" "start_sniffing env dev f s = Some (r, t)"
  shows "store_wf t \<and> inp t = inp s"
  using assms by (auto simp: start_sniffing_def Let_def split: if_splits option.splits dest!: sniff_loop_ok [rotated])

lemma free_start_ok:
  assumes "store_wf s" "free_packet_storage s = Some u" "start_sniffing env dev f (reset_packet_counter u) = Some (r, t)"
  shows "store_wf t \<and> inp t = inp s"
proof -
  have u: "store_wf u" "inp u = inp s" using free_packet_storage_ok [OF assms(1)] assms(2) by auto
  then have "store_wf (reset_packet_counter u)" "inp (reset_packet_counter u) = inp s" by (simp_all add: reset_packet_counter_def)
  then show ?thesis using start_sniffing_ok [OF _ assms(3)] by simp
qed

lemma scan_choice_ok:
  assumes "scan_choice s = (r, t)"
  shows "store_wf t = store_wf s" "length (inp t) \<le> length (inp s)" "same_store s t"
  using assms scanf_int_length [of "inp s"] by (auto simp: scan_choice_def split: prod.splits)

lemma clear_line_ok:
  assumes "clear_line s = Some t"
  shows "store_wf t = store_wf s" "length (inp t) < length (inp s)"
  using assms skip_line_shorter by (auto simp: clear_line_def)

lemma print_summaries_ok: "print_summaries is s = Some t \<Longrightarrow> same_store s t \<and> inp t = inp s"
  by (induction "is" arbitrary: s) (fastforce intro: same_store_trans simp: same_store_def)+

lemma inspect_session_ok:
  assumes "inspect_session s = Some t" "store_wf s"
  shows "store_wf t \<and> length (inp t) \<le> length (inp s)"
proof (cases "stored_packet_count s = 0")
  case True
  then show ?thesis using assms by (auto simp: inspect_session_def)
next
  case False
  then obtain u where u: "print_session_summary s = Some u"
    and rest: "(case scan_choice (show_toks [Nl, Str ''Enter Packet ID to inspect (or 0 to return): ''] u) of
          (Scanned choice, s) \<Rightarrow>
            (if choice = 0 then Some s
             else if choice < 1 \<or> choice > stored_packet_count s then Some (show_toks [Str ''Invalid Packet ID.'', Nl] s)
             else print_packet_details choice s)
        | (r, s) \<Rightarrow> map_option (show_toks [Str ''Invalid input.'', Nl]) (clear_line s)) = Some t"
    using assms(1) by (auto simp: inspect_session_def Let_def)
  have "same_store s u" "inp u = inp s" using u by (auto simp: print_session_summary_def dest!: print_summaries_ok)
  then have wu: "store_wf u" "inp u = inp s" using same_store_wf(1) assms(2) by auto
  obtain r v where v: "scan_choice (show_toks [Nl, Str ''Enter Packet ID to inspect (or 0 to return): ''] u) = (r, v)" by (cases "scan_choice (show_toks [Nl, Str ''Enter Packet ID to inspect (or 0 to return): ''] u)")
  note sv = scan_choice_ok [OF v]
  have wv: "store_wf v" "length (inp v) \<le> length (inp s)" using sv wu by simp_all
  show ?thesis
    using rest wv clear_line_ok [of v] unfolding v
    by (cases r) (fastforce simp: print_packet_details_def Let_def split: if_splits)+
qed

text \<open>A number that has been read is at least one character long.\<close>

lemma scan_choice_Scanned:
  assumes "scan_choice s = (Scanned c, t)"
  shows "length (inp t) < length (inp s)"
proof -
  have "length (snd (scanf_int x)) < length x" if "fst (scanf_int x) = Scanned c" for x
  proof -
    define y where "y = dropWhile is_space x"
    define z where "z = (if hd y = CHR ''-'' \<or> hd y = CHR ''+'' then drop 1 y else y)"
    have y: "length y \<le> length x" by (simp add: y_def length_dropWhile_le)
    have z: "length z \<le> length y" by (simp add: z_def)
    have s: "snd (scanf_int x) = dropWhile is_digit z" "takeWhile is_digit z \<noteq> []"
      using that by (auto simp: scanf_int_def Let_def y_def [symmetric] z_def split: if_splits)
    have "length z = length (takeWhile is_digit z) + length (dropWhile is_digit z)"
      by (metis length_append takeWhile_dropWhile_id)
    then show ?thesis using s y z by (simp flip: length_greater_0_conv)
  qed
  then show ?thesis using assms by (auto simp: scan_choice_def split: prod.splits) (metis fst_conv snd_conv)
qed

lemma handle_filtered_ok:
  assumes "store_wf s" "handle_filtered_sniffing env dev s = Some (r, t)"
  shows "store_wf t \<and> length (inp t) \<le> length (inp s)"
proof -
  obtain q u where u: "scan_choice (show_toks filter_menu s) = (q, u)" by (cases "scan_choice (show_toks filter_menu s)")
  note sc = scan_choice_ok [OF u]
  have w: "store_wf u" "length (inp u) \<le> length (inp s)" using sc assms(1) by simp_all
  show ?thesis
  proof (cases q)
    case (Scanned c)
    then show ?thesis using assms(2) u w by (auto simp: handle_filtered_sniffing_def split: option.splits if_splits dest: free_start_ok [OF w(1)])
  next
    case Unmatched
    then show ?thesis using assms(2) u w by (auto simp: handle_filtered_sniffing_def dest: clear_line_ok)
  next
    case At_eof
    then show ?thesis using assms(2) u w by (auto simp: handle_filtered_sniffing_def)
  qed
qed

lemma menu_round_ok:
  assumes "store_wf s" "menu_round env dev s = Some (k, t)"
  shows "store_wf t \<and> length (inp t) \<le> length (inp s) \<and> (k \<longrightarrow> length (inp t) < length (inp s))"
proof -
  obtain q u where u: "scan_choice (show_toks (print_menu dev) s) = (q, u)" by (cases "scan_choice (show_toks (print_menu dev) s)")
  note sc = scan_choice_ok [OF u]
  have w: "store_wf u" "length (inp u) \<le> length (inp s)" using sc assms(1) by simp_all
  note menu_round_def [simp]
  show ?thesis
  proof (cases q)
    case (Scanned c)
    have lt: "length (inp u) < length (inp s)" using scan_choice_Scanned [of "show_toks (print_menu dev) s" c u] u Scanned by simp
    consider "c = 1" | "c = 2" | "c = 3" | "c = 4" | "c \<notin> {1, 2, 3, 4}" by blast
    then show ?thesis
    proof cases
      case 1
      then show ?thesis using assms(2) u w lt Scanned by (auto dest: free_start_ok [OF w(1)])
    next
      case 2
      then show ?thesis using assms(2) u w lt Scanned by (auto dest: handle_filtered_ok [OF w(1)])
    next
      case 3
      then show ?thesis using assms(2) u w lt Scanned by (auto dest: inspect_session_ok [OF _ w(1)])
    next
      case 4
      then show ?thesis using assms(2) u w lt Scanned by auto
    next
      case 5
      then show ?thesis using assms(2) u w lt Scanned by (auto dest: clear_line_ok)
    qed
  next
    case Unmatched
    then show ?thesis using assms(2) u w by (auto dest: clear_line_ok)
  next
    case At_eof
    then show ?thesis using assms(2) u w by auto
  qed
qed

text \<open>The rounds of the menu, at most \<open>n\<close> of them: the outcome, or \<open>None\<close> for a round that
  hangs or crashes.  \<open>More\<close> says that \<open>n\<close> rounds were not enough.\<close>

datatype menu_result = Done shark | Stuck shark | More

fun menu_rounds :: "nat \<Rightarrow> sniff_env \<Rightarrow> string \<Rightarrow> shark \<Rightarrow> menu_result" where
  "menu_rounds 0 env dev s = More"
| "menu_rounds (Suc n) env dev s = (case menu_round env dev s of
     None \<Rightarrow> Stuck s
   | Some (keep_running, t) \<Rightarrow> if keep_running then menu_rounds n env dev t else Done t)"

text \<open>C38. The menu never runs for ever.  Every round takes at least one character from the input, so
  within one round more than the input has characters the menu has returned, unless a
  round itself does not come back; \<open>menu_loop\<close> is exactly that outcome, and the storage is
  well formed in the state where it ends.\<close>

theorem menu_terminates:
  assumes "store_wf s"
  shows "case menu_rounds (length (inp s) + 1) env dev s of
      Done t \<Rightarrow> menu_loop env dev s = Some t \<and> store_wf t
    | Stuck t \<Rightarrow> menu_loop env dev s = None \<and> store_wf t \<and> menu_round env dev t = None
    | More \<Rightarrow> False"
proof -
  have bounded: "case menu_rounds n env dev s of
      Done t \<Rightarrow> menu_loop env dev s = Some t \<and> store_wf t
    | Stuck t \<Rightarrow> menu_loop env dev s = None \<and> store_wf t \<and> menu_round env dev t = None
    | More \<Rightarrow> False" if "store_wf s" "length (inp s) < n" for n
    using that
  proof (induction n arbitrary: s)
    case (Suc n)
    show ?case
    proof (cases "menu_round env dev s")
      case None
      then show ?thesis using Suc.prems by (simp add: menu_loop.simps [of env dev s])
    next
      case (Some p)
      obtain k t where p: "p = (k, t)" by (cases p)
      note r = menu_round_ok [OF Suc.prems(1), of env dev k t]
      show ?thesis
      proof (cases k)
        case True
        then have "store_wf t" "length (inp t) < n" using r Some p Suc.prems by auto
        note ih = Suc.IH [OF this]
        have m: "menu_loop env dev s = menu_loop env dev t" "menu_rounds (Suc n) env dev s = menu_rounds n env dev t"
          using Some p True by (simp_all add: menu_loop.simps [of env dev s])
        show ?thesis unfolding m by (rule ih)
      next
        case False
        then show ?thesis using Some p r by (simp add: menu_loop.simps [of env dev s])
      qed
    qed
  qed simp
  show ?thesis by (rule bounded [OF assms]) simp
qed

subsection \<open>Demonstrations\<close>

definition demo_packet :: arrived where
  "demo_packet = \<lparr>a_header = \<lparr>ts_sec = 1, ts_usec = 0, caplen = 14, pkt_len = 60\<rparr>, a_packet = replicate 14 0,
     struct_ok = True, data_ok = True\<rparr>"

definition demo_env :: sniff_env where
  "demo_env = \<lparr>captures = (\<lambda>_. \<lparr>open_live_ok = True, compile_ok = True, setfilter_ok = True, setnonblock_ok = True,
       selectable_fd_ok = True, activities = [Ready \<lparr>on_stdin = No_input, on_pcap = Some [demo_packet], sigint = True\<rparr>]\<rparr>),
     devices_listed = Some [(''eth0'', None)], devices_chosen = Some [(''eth0'', None)]\<rparr>"

lemma init_shark_wf [simp]: "store_wf (init_shark input)" "kept (init_shark input) = []" "inp (init_shark input) = input"
  by (simp_all add: init_shark_def store_wf_def kept_def MAX_PACKETS_def)

lemma demo_parsed: "\<exists>t. parse_packets [demo_packet, demo_packet] (init_shark []) = Some t"
  by (simp add: parse_packet_def store_packet_def demo_packet_def init_shark_def show_toks_def MAX_PACKETS_def
      parse_ethernet_def Let_def net_consts ntohs_def bytes_at_def)

theorem storage_keeps_first_witness:
  "\<exists>t. parse_packets [demo_packet, demo_packet] (init_shark []) = Some t \<and> kept t = [stored_as demo_packet, stored_as demo_packet]"
proof -
  obtain t where t: "parse_packets [demo_packet, demo_packet] (init_shark []) = Some t" using demo_parsed by blast
  have "struct_ok demo_packet" "data_ok demo_packet" by (simp_all add: demo_packet_def)
  then show ?thesis using storage_keeps_first [OF init_shark_wf(1) t] t by (intro exI [of _ t]) (simp del: parse_packets.simps)
qed

theorem menu_terminates_witness:
  "case menu_rounds 4 demo_env ''eth0'' (init_shark ''1 4'') of
      Done t \<Rightarrow> menu_loop demo_env ''eth0'' (init_shark ''1 4'') = Some t \<and> store_wf t
    | Stuck t \<Rightarrow> menu_loop demo_env ''eth0'' (init_shark ''1 4'') = None \<and> store_wf t \<and> menu_round demo_env ''eth0'' t = None
    | More \<Rightarrow> False"
  using menu_terminates [where s = "init_shark ''1 4''" and env = demo_env and dev = "''eth0''", OF init_shark_wf(1)]
  by (simp add: numeral_eq_Suc del: menu_rounds.simps)

end
