(* ===== verification/SnifferFrames.thy ===== *)
theory SnifferFrames
  imports HexDump
begin

section \<open>Frames on the wire and what the sniffer shows of them\<close>

text \<open>
  The reference is an encoder: the bytes of an Ethernet frame with a TCP segment in an
  IPv4 packet, from its fields.  The parser shows exactly these fields.
\<close>

definition be16 :: "nat \<Rightarrow> u8 list" where
  "be16 v = [of_nat (v div 256), of_nat v]"

definition be32 :: "nat \<Rightarrow> u8 list" where
  "be32 v = be16 (v div 65536) @ be16 (v mod 65536)"

lemma be16_value: "v < 65536 \<Longrightarrow> uint (of_nat (v div 256) :: u8) * 256 + uint (of_nat v :: u8) = int v"
  by (simp add: uint_word_ariths unsigned_of_nat take_bit_eq_mod zmod_int zdiv_int)

record tcp4 =
  t_dhost :: "u8 list"
  t_shost :: "u8 list"
  t_tos :: u8
  t_ident :: nat
  t_frag :: nat
  t_ttl :: u8
  t_ipsum :: nat
  t_src :: "u8 list"
  t_dst :: "u8 list"
  t_sport :: nat
  t_dport :: nat
  t_seq :: nat
  t_ack :: nat
  t_flags :: u8
  t_win :: nat
  t_sum :: nat
  t_urg :: nat
  t_payload :: "u8 list"

definition tcp4_ok :: "tcp4 \<Rightarrow> bool" where
  "tcp4_ok f \<longleftrightarrow> length (t_dhost f) = 6 \<and> length (t_shost f) = 6 \<and> length (t_src f) = 4 \<and> length (t_dst f) = 4 \<and>
     t_ident f < 65536 \<and> t_frag f < 65536 \<and> t_ipsum f < 65536 \<and> t_sport f < 65536 \<and> t_dport f < 65536 \<and>
     t_seq f < 4294967296 \<and> t_ack f < 4294967296 \<and> t_win f < 65536 \<and> t_sum f < 65536 \<and> t_urg f < 65536 \<and>
     length (t_payload f) < 65496"

definition tcp4_headers :: "tcp4 \<Rightarrow> u8 list" where
  "tcp4_headers f = t_dhost f @ t_shost f @ be16 0x0800 @
     [0x45, t_tos f] @ be16 (40 + length (t_payload f)) @ be16 (t_ident f) @ be16 (t_frag f) @ [t_ttl f, 6] @ be16 (t_ipsum f) @ t_src f @ t_dst f @
     be16 (t_sport f) @ be16 (t_dport f) @ be32 (t_seq f) @ be32 (t_ack f) @ [0x50, t_flags f] @ be16 (t_win f) @ be16 (t_sum f) @ be16 (t_urg f)"

text \<open>What is to be seen of it.\<close>

definition payload_display :: "u8 list \<Rightarrow> nat \<Rightarrow> tok list" where
  "payload_display bs dport = (if bs = [] then [] else
     [Str '' L7 (Payload)    | '', Dec (int (length bs)), Str '' bytes of '', Str (get_service_name (int dport)), Str '' data'', Nl] @
     concat (map (\<lambda>k. payload_line (row (take 64 bs) k)) [0..<(min 64 (length bs) + 15) div 16]))"

definition tcp4_display :: "tcp4 \<Rightarrow> tok list" where
  "tcp4_display f =
     [Str '' L2 (Ethernet)   | Dst MAC: ''] @ mac_toks (t_dhost f) @ [Str '' | Src MAC: ''] @ mac_toks (t_shost f) @
     [Str '' | Type: IPv4 (0x'', Hex 4 0x0800, Str '')'', Nl] @
     [Str '' L3 (IPv4)       | '', Ip4 (t_src f), Str '' '', Str arrow, Str '' '', Ip4 (t_dst f), Nl,
        Str ''                | Protocol: '', Str ''TCP'', Str '' ('', Dec 6, Str '') | TTL: '', Dec (uint (t_ttl f)),
          Str '' | ID: 0x'', Hex 4 (int (t_ident f)), Str '' | Hdr Len: '', Dec 20, Str '' bytes'', Nl,
        Str ''                | Total Len: '', Dec (40 + int (length (t_payload f))), Str '' | Flags: ''] @ ip_flags (int (t_frag f)) @
          [Str '' | Frag Off: '', Dec (frag_off (int (t_frag f))), Nl] @
     [Str '' L4 (TCP)        | Port: '', Dec (int (t_sport f)), Str '' ('', Str (get_service_name (int (t_sport f))), Str '') '', Str arrow,
          Str '' '', Dec (int (t_dport f)), Str '' ('', Str (get_service_name (int (t_dport f))), Str '') ''] @ print_tcp_flags (t_flags f) @ [Nl,
        Str ''                | Seq: '', Dec (int (t_seq f)), Str '' | Ack: '', Dec (int (t_ack f)), Str '' | Win: '', Dec (int (t_win f)),
          Str '' | Hdr Len: '', Dec 20, Str '' bytes | Checksum: 0x'', Hex 4 (int (t_sum f)), Nl] @
     payload_display (t_payload f) (t_dport f)"

text \<open>The bytes of the header fields.\<close>

lemma be32_value:
  assumes "v < 4294967296"
  shows "uint (of_nat (v div 65536 div 256) :: u8) * 16777216 + uint (of_nat (v div 65536) :: u8) * 65536 +
    uint (of_nat (v mod 65536 div 256) :: u8) * 256 + uint (of_nat (v mod 65536) :: u8) = int v"
proof -
  have "v div 65536 < 65536" using assms by (simp add: div_less_iff_less_mult)
  then have "uint (of_nat (v div 65536 div 256) :: u8) * 256 + uint (of_nat (v div 65536) :: u8) = int (v div 65536)"
    "uint (of_nat (v mod 65536 div 256) :: u8) * 256 + uint (of_nat (v mod 65536) :: u8) = int (v mod 65536)"
    by (auto intro: be16_value)
  moreover have "int v = int (v div 65536) * 65536 + int (v mod 65536)" by (metis div_mult_mod_eq of_nat_add of_nat_mult of_nat_numeral)
  ultimately show ?thesis by (simp add: algebra_simps)
qed

text \<open>A field of the given length is the list of its bytes.\<close>

lemma list4: "length xs = 4 \<Longrightarrow> \<exists>a b c d. xs = [a, b, c, d]"
  by (auto simp: numeral_eq_Suc length_Suc_conv)

lemma list6: "length xs = 6 \<Longrightarrow> \<exists>a b c d e f. xs = [a, b, c, d, e, f]"
  by (auto simp: numeral_eq_Suc length_Suc_conv)

lemma payload_at:
  assumes "length hdr = 54"
  shows "payload (hdr @ bs @ pad) 54 (int (length bs)) (int dport) = Some (payload_display bs dport)"
proof (cases "bs = []")
  case False
  have n: "nat (min (int (length bs)) 64) = min 64 (length bs)" by simp
  have t: "take (min 64 (length bs)) (drop 54 (hdr @ bs @ pad)) = take 64 bs" using assms by (simp add: min_def)
  show ?thesis using False assms unfolding payload_def print_payload_rows Let_def n t payload_display_def by simp
qed (simp add: payload_def payload_display_def)

lemma tcp4_headers_length: "tcp4_ok f \<Longrightarrow> length (tcp4_headers f) = 54"
  by (simp add: tcp4_headers_def tcp4_ok_def be16_def be32_def)

lemma tcp4_bytes:
  assumes "tcp4_ok f"
  obtains a b c d e g h i j k l m q r s t u v w x where "t_dhost f = [a, b, c, d, e, g]" "t_shost f = [h, i, j, k, l, m]"
    "t_src f = [q, r, s, t]" "t_dst f = [u, v, w, x]"
proof -
  have l: "length (t_dhost f) = 6" "length (t_shost f) = 6" "length (t_src f) = 4" "length (t_dst f) = 4"
    using assms by (simp_all add: tcp4_ok_def)
  show thesis using that list6 [OF l(1)] list6 [OF l(2)] list4 [OF l(3)] list4 [OF l(4)] by blast
qed

lemma tcp_shown:
  assumes "tcp4_ok f"
  shows "parse_tcp (tcp4_headers f @ t_payload f @ pad) 34 20 (40 + int (length (t_payload f))) =
    Some ([Str '' L4 (TCP)        | Port: '', Dec (int (t_sport f)), Str '' ('', Str (get_service_name (int (t_sport f))), Str '') '', Str arrow,
          Str '' '', Dec (int (t_dport f)), Str '' ('', Str (get_service_name (int (t_dport f))), Str '') ''] @ print_tcp_flags (t_flags f) @ [Nl,
        Str ''                | Seq: '', Dec (int (t_seq f)), Str '' | Ack: '', Dec (int (t_ack f)), Str '' | Win: '', Dec (int (t_win f)),
          Str '' | Hdr Len: '', Dec 20, Str '' bytes | Checksum: 0x'', Hex 4 (int (t_sum f)), Nl] @
     payload_display (t_payload f) (t_dport f))"
proof -
  let ?p = "tcp4_headers f @ t_payload f @ pad"
  obtain a b c d e g h i j k l m q r s t u v w x where m: "t_dhost f = [a, b, c, d, e, g]" "t_shost f = [h, i, j, k, l, m]"
    "t_src f = [q, r, s, t]" "t_dst f = [u, v, w, x]" using assms by (rule tcp4_bytes)
  have bd: "t_sport f < 65536" "t_dport f < 65536" "t_seq f < 4294967296" "t_ack f < 4294967296" "t_win f < 65536" "t_sum f < 65536"
    using assms by (simp_all add: tcp4_ok_def)
  note hd = tcp4_headers_def m be16_def be32_def
  have "ntohs ?p 34 = Some (int (t_sport f))" "ntohs ?p 36 = Some (int (t_dport f))" "ntohs ?p 48 = Some (int (t_win f))"
    "ntohs ?p 50 = Some (int (t_sum f))"
    using be16_value [OF bd(1)] be16_value [OF bd(2)] be16_value [OF bd(5)] be16_value [OF bd(6)] by (simp_all add: hd)
  moreover have "ntohl ?p 38 = Some (int (t_seq f))" "ntohl ?p 42 = Some (int (t_ack f))"
    using be32_value [OF bd(3)] be32_value [OF bd(4)] by (simp_all add: hd)
  moreover have "byte_at ?p 46 = Some 0x50" "byte_at ?p 47 = Some (t_flags f)" by (simp_all add: hd)
  moreover have "high_nibble 0x50 = 5" by (simp add: high_nibble_def)
  moreover have "payload ?p 54 (int (length (t_payload f))) (int (t_dport f)) = Some (payload_display (t_payload f) (t_dport f))"
    by (rule payload_at [OF tcp4_headers_length [OF assms]])
  ultimately show ?thesis by (simp add: parse_tcp_def)
qed

lemma ipv4_shown:
  assumes "tcp4_ok f" "parse_tcp (tcp4_headers f @ t_payload f @ pad) 34 20 (40 + int (length (t_payload f))) = Some t"
  shows "parse_ipv4 (tcp4_headers f @ t_payload f @ pad) 14 =
    Some ([Str '' L3 (IPv4)       | '', Ip4 (t_src f), Str '' '', Str arrow, Str '' '', Ip4 (t_dst f), Nl,
        Str ''                | Protocol: '', Str ''TCP'', Str '' ('', Dec 6, Str '') | TTL: '', Dec (uint (t_ttl f)),
          Str '' | ID: 0x'', Hex 4 (int (t_ident f)), Str '' | Hdr Len: '', Dec 20, Str '' bytes'', Nl,
        Str ''                | Total Len: '', Dec (40 + int (length (t_payload f))), Str '' | Flags: ''] @ ip_flags (int (t_frag f)) @
          [Str '' | Frag Off: '', Dec (frag_off (int (t_frag f))), Nl] @ t)"
proof -
  let ?p = "tcp4_headers f @ t_payload f @ pad"
  obtain a b c d e g h i j k l m q r s u v w x y where m: "t_dhost f = [a, b, c, d, e, g]" "t_shost f = [h, i, j, k, l, m]"
    "t_src f = [q, r, s, u]" "t_dst f = [v, w, x, y]" using assms(1) by (rule tcp4_bytes)
  have bd: "40 + length (t_payload f) < 65536" "t_ident f < 65536" "t_frag f < 65536" using assms(1) by (simp_all add: tcp4_ok_def)
  note hd = tcp4_headers_def m be16_def be32_def
  have "ntohs ?p 16 = Some (40 + int (length (t_payload f)))" "ntohs ?p 18 = Some (int (t_ident f))" "ntohs ?p 20 = Some (int (t_frag f))"
    using be16_value [OF bd(1)] be16_value [OF bd(2)] be16_value [OF bd(3)] by (simp_all add: hd)
  moreover have "bytes_at ?p 26 4 = Some (t_src f)" "bytes_at ?p 30 4 = Some (t_dst f)" "byte_at ?p 14 = Some 0x45" "byte_at ?p 22 = Some (t_ttl f)"
    "byte_at ?p 23 = Some 6" by (simp_all add: hd)
  moreover have "low_nibble 0x45 = 5" by (simp add: low_nibble_def)
  ultimately show ?thesis using assms(2) by (simp add: parse_ipv4_def parse_transport_def proto_name_def IPPROTO_TCP_def)
qed

text \<open>C8. \<open>parse_ethernet\<close> decodes what was sent: for every TCP segment in an IPv4 packet without
  options, with any payload that fits and any padding behind it, the parser stays inside
  the captured bytes and shows the addresses, flags, ports, numbers, lengths and checksum
  of the frame and at most 64 bytes of its payload, not the padding.\<close>

theorem parse_shows_frame:
  assumes "tcp4_ok f"
  shows "parse_ethernet (tcp4_headers f @ t_payload f @ pad) = Some (tcp4_display f)"
proof -
  let ?p = "tcp4_headers f @ t_payload f @ pad"
  obtain a b c d e g h i j k l m q r s u v w x y where m: "t_dhost f = [a, b, c, d, e, g]" "t_shost f = [h, i, j, k, l, m]"
    "t_src f = [q, r, s, u]" "t_dst f = [v, w, x, y]" using assms by (rule tcp4_bytes)
  note hd = tcp4_headers_def m be16_def be32_def
  have "ntohs ?p 12 = Some ETHERTYPE_IP" "bytes_at ?p 0 6 = Some (t_dhost f)" "bytes_at ?p 6 6 = Some (t_shost f)"
    by (simp_all add: hd ETHERTYPE_IP_def)
  then show ?thesis using ipv4_shown [OF assms tcp_shown [OF assms]]
    by (simp add: parse_ethernet_def Let_def tcp4_display_def ETHERTYPE_IP_def)
qed

definition demo_tcp4 :: tcp4 where
  "demo_tcp4 = \<lparr>t_dhost = [1, 2, 3, 4, 5, 6], t_shost = [7, 8, 9, 10, 11, 12], t_tos = 0, t_ident = 7, t_frag = 0x4000, t_ttl = 64,
     t_ipsum = 0, t_src = [10, 0, 0, 1], t_dst = [10, 0, 0, 2], t_sport = 40000, t_dport = 80, t_seq = 100000, t_ack = 5, t_flags = 0x18,
     t_win = 1024, t_sum = 0, t_urg = 0, t_payload = [0x47, 0x45, 0x54]\<rparr>"

theorem parse_shows_frame_witness:
  "tcp4_ok demo_tcp4 \<and> parse_ethernet (tcp4_headers demo_tcp4 @ t_payload demo_tcp4 @ [0, 0, 0]) = Some (tcp4_display demo_tcp4)"
proof -
  have "tcp4_ok demo_tcp4" by (simp add: tcp4_ok_def demo_tcp4_def)
  then show ?thesis using parse_shows_frame by blast
qed

text \<open>C40. The inspector takes the length on the wire for the length of the stored data.  For a packet of which
  fewer bytes were captured than were on the wire the hex dump reads behind the
  allocated data, whatever the packet contains.\<close>

theorem inspect_reads_outside:
  assumes "packet_storage s (i - 1) = Some sp" "int (length (sp_data sp)) < sint (pkt_len (sp_header sp))"
  shows "print_packet_details i s = None"
proof -
  have "print_full_hex_dump (sp_data sp) (sint (pkt_len (sp_header sp))) = None" using assms(2) by (simp add: full_dump_rows)
  then show ?thesis using assms(1) by (cases "details_ethernet (sp_data sp)") (simp_all add: print_packet_details_def Let_def)
qed

theorem inspect_reads_outside_witness:
  "print_packet_details 1 ((init_shark [])\<lparr>packet_storage := [0 \<mapsto> \<lparr>sp_header = \<lparr>ts_sec = 0, ts_usec = 0, caplen = 14, pkt_len = 60\<rparr>,
     sp_data = replicate 14 0\<rparr>], stored_packet_count := 1\<rparr>) = None"
  by (rule inspect_reads_outside, simp, simp)

end
