(* ===== verification/Spinlock.thy ===== *)
theory Spinlock
  imports Prelude
begin

section \<open>Spinlocks (kernel/spinlock.c)\<close>

text \<open>
  Interrupt nesting and spinlocks on several harts.  \<open>push_off\<close> and \<open>pop_off\<close> act on the
  \<open>struct cpu\<close> of their hart and its interrupt-enable bit.  \<open>acquire\<close> and \<open>release\<close> of
  one lock are cut at every access to memory that other harts can see; the harts'
  steps interleave in any order (\<open>spin_step\<close>).  Two pairs of accesses stay together: \<open>holding\<close> reads
  \<open>locked\<close> and \<open>lk_cpu\<close> in one step, and \<open>release\<close> makes this test and clears \<open>lk_cpu\<close> in one step.  Both
  are harmless, since no other hart writes its own number to \<open>lk_cpu\<close> or takes it away.  A hart that panics stays where it is.
  Every hart may use the lock again and again, from a state in which interrupts are on or
  from inside other critical sections.
\<close>

record cpu =
  noff :: int
  intena :: bool
  sie :: bool

record spinlock =
  locked :: bool
  lk_cpu :: "nat option"

definition initlock :: spinlock where
  "initlock = \<lparr>locked = False, lk_cpu = None\<rparr>"

definition holding :: "nat \<Rightarrow> spinlock \<Rightarrow> bool" where
  "holding h lk \<longleftrightarrow> locked lk \<and> lk_cpu lk = Some h"

definition push_off :: "cpu \<Rightarrow> cpu" where
  "push_off c =
     (let old = sie c;
          c = c\<lparr>sie := False\<rparr>;
          c = (if noff c = 0 then c\<lparr>intena := old\<rparr> else c) in
      c\<lparr>noff := noff c + 1\<rparr>)"

definition pop_off :: "cpu \<Rightarrow> cpu option" where
  "pop_off c =
     (if sie c then None
      else if noff c < 1 then None
      else let c = c\<lparr>noff := noff c - 1\<rparr> in
        Some (if noff c = 0 \<and> intena c then c\<lparr>sie := True\<rparr> else c))"

subsection \<open>One hart\<close>

text \<open>Inside a critical section interrupts are off.\<close>

definition cpu_ok :: "cpu \<Rightarrow> bool" where
  "cpu_ok c \<longleftrightarrow> 0 \<le> noff c \<and> (0 < noff c \<longrightarrow> \<not> sie c)"

lemma push_off_ok: "cpu_ok c \<Longrightarrow> cpu_ok (push_off c) \<and> \<not> sie (push_off c) \<and> noff (push_off c) = noff c + 1"
  by (simp add: push_off_def cpu_ok_def Let_def)

lemma pop_push_off:
  assumes "cpu_ok c"
  shows "\<exists>d. pop_off (push_off c) = Some d \<and> noff d = noff c \<and> sie d = sie c \<and> cpu_ok d \<and> (0 < noff c \<longrightarrow> d = c)"
  using assms by (auto simp: push_off_def pop_off_def cpu_ok_def Let_def)

text \<open>Several calls in a row.\<close>

fun push_offs :: "nat \<Rightarrow> cpu \<Rightarrow> cpu" where
  "push_offs 0 c = c"
| "push_offs (Suc n) c = push_offs n (push_off c)"

fun pop_offs :: "nat \<Rightarrow> cpu \<Rightarrow> cpu option" where
  "pop_offs 0 c = Some c"
| "pop_offs (Suc n) c = Option.bind (pop_off c) (pop_offs n)"

lemma pop_offs_Suc: "pop_offs (Suc n) c = Option.bind (pop_offs n c) pop_off"
proof (induction n arbitrary: c)
  case (Suc n)
  show ?case unfolding pop_offs.simps(2) [of "Suc n" c] pop_offs.simps(2) [of n c] by (cases "pop_off c") (simp_all only: Suc.IH bind.simps)
qed (simp split: bind_splits)

lemma push_offs_ok: "cpu_ok c \<Longrightarrow> cpu_ok (push_offs n c) \<and> noff (push_offs n c) = noff c + int n"
proof (induction n arbitrary: c)
  case (Suc n)
  then show ?case using Suc.IH [of "push_off c"] push_off_ok [of c] by simp
qed simp

lemma pop_push_offs:
  "cpu_ok c \<Longrightarrow> \<exists>d. pop_offs n (push_offs n c) = Some d \<and> noff d = noff c \<and> sie d = sie c \<and> cpu_ok d \<and> (0 < noff c \<longrightarrow> d = c)"
proof (induction n arbitrary: c)
  case (Suc n)
  have p: "cpu_ok (push_off c)" "0 < noff (push_off c)" using push_off_ok [OF Suc.prems] Suc.prems by (auto simp: cpu_ok_def)
  then have "pop_offs n (push_offs n (push_off c)) = Some (push_off c)" using Suc.IH by blast
  then have "pop_offs (Suc n) (push_offs (Suc n) c) = pop_off (push_off c)" unfolding pop_offs_Suc by simp
  then show ?case using pop_push_off [OF Suc.prems] by simp
qed simp

subsection \<open>Several harts\<close>

datatype lock_pc = Idle | Check | Spin | Got | Critical | Unlock | Pop | Panicked

record lock_sys =
  lk :: spinlock
  cpus :: "nat \<Rightarrow> cpu"
  pc :: "nat \<Rightarrow> lock_pc"

definition goto :: "nat \<Rightarrow> lock_pc \<Rightarrow> lock_sys \<Rightarrow> lock_sys" where
  "goto h l s = s\<lparr>pc := (pc s)(h := l)\<rparr>"

definition set_cpu :: "nat \<Rightarrow> cpu \<Rightarrow> lock_sys \<Rightarrow> lock_sys" where
  "set_cpu h c s = s\<lparr>cpus := (cpus s)(h := c)\<rparr>"

text \<open>
  \<open>acquire\<close>: \<open>push_off\<close>, the test of \<open>holding\<close>, the atomic swap until it finds the lock free,
  the record of the holder.  \<open>release\<close>: the test of \<open>holding\<close> and clearing the holder, the
  atomic release, \<open>pop_off\<close>.
\<close>

inductive acquire :: "nat \<Rightarrow> lock_sys \<Rightarrow> lock_sys \<Rightarrow> bool" for h where
  acq_push: "pc s h = Idle \<Longrightarrow> acquire h s (goto h Check (set_cpu h (push_off (cpus s h)) s))"
| acq_check: "pc s h = Check \<Longrightarrow> acquire h s (goto h (if holding h (lk s) then Panicked else Spin) s)"
| acq_swap: "pc s h = Spin \<Longrightarrow> acquire h s (goto h (if locked (lk s) then Spin else Got) (s\<lparr>lk := (lk s)\<lparr>locked := True\<rparr>\<rparr>))"
| acq_cpu: "pc s h = Got \<Longrightarrow> acquire h s (goto h Critical (s\<lparr>lk := (lk s)\<lparr>lk_cpu := Some h\<rparr>\<rparr>))"

inductive release :: "nat \<Rightarrow> lock_sys \<Rightarrow> lock_sys \<Rightarrow> bool" for h where
  rel_check: "pc s h = Critical \<Longrightarrow> \<not> holding h (lk s) \<Longrightarrow> release h s (goto h Panicked s)"
| rel_cpu: "pc s h = Critical \<Longrightarrow> holding h (lk s) \<Longrightarrow> release h s (goto h Unlock (s\<lparr>lk := (lk s)\<lparr>lk_cpu := None\<rparr>\<rparr>))"
| rel_unlock: "pc s h = Unlock \<Longrightarrow> release h s (goto h Pop (s\<lparr>lk := (lk s)\<lparr>locked := False\<rparr>\<rparr>))"
| rel_pop: "pc s h = Pop \<Longrightarrow> pop_off (cpus s h) = Some c \<Longrightarrow> release h s (goto h Idle (set_cpu h c s))"
| rel_panic: "pc s h = Pop \<Longrightarrow> pop_off (cpus s h) = None \<Longrightarrow> release h s (goto h Panicked s)"

inductive_cases acquireE: "acquire h s t"
inductive_cases releaseE: "release h s t"

text \<open>Other code of an idle hart may enter and leave other critical sections.\<close>

inductive spin_step :: "lock_sys \<Rightarrow> lock_sys \<Rightarrow> bool" where
  "acquire h s t \<Longrightarrow> spin_step s t"
| "release h s t \<Longrightarrow> spin_step s t"
| "pc s h = Idle \<Longrightarrow> cpu_ok c \<Longrightarrow> spin_step s (set_cpu h c s)"

inductive lock_reach :: "lock_sys \<Rightarrow> bool" where
  start: "lk s = initlock \<Longrightarrow> \<forall>h. pc s h = Idle \<and> cpu_ok (cpus s h) \<Longrightarrow> lock_reach s"
| step: "lock_reach s \<Longrightarrow> spin_step s t \<Longrightarrow> lock_reach t"

definition owns :: "lock_pc \<Rightarrow> bool" where
  "owns l \<longleftrightarrow> l \<in> {Got, Critical, Unlock}"

definition holders :: "lock_sys \<Rightarrow> nat set" where
  "holders s = {h. owns (pc s h)}"

definition lock_inv :: "lock_sys \<Rightarrow> bool" where
  "lock_inv s \<longleftrightarrow> (if locked (lk s) then is_singleton (holders s) else holders s = {}) \<and>
     (\<forall>h. lk_cpu (lk s) = Some h \<longleftrightarrow> pc s h = Critical) \<and>
     (\<forall>h. pc s h \<noteq> Panicked \<and> cpu_ok (cpus s h) \<and> (pc s h \<noteq> Idle \<longrightarrow> 0 < noff (cpus s h)))"

lemma lock_sel [simp]:
  "lk (goto h l s) = lk s" "cpus (goto h l s) = cpus s" "pc (goto h l s) i = (if i = h then l else pc s i)"
  "lk (set_cpu h c s) = lk s" "pc (set_cpu h c s) = pc s" "cpus (set_cpu h c s) i = (if i = h then c else cpus s i)"
  by (simp_all add: goto_def set_cpu_def)

lemma owns_simps [simp]: "\<not> owns Idle" "\<not> owns Check" "\<not> owns Spin" "owns Got" "owns Critical" "owns Unlock" "\<not> owns Pop"
  by (simp_all add: owns_def)

lemma holders_goto:
  "owns (pc s h) = owns l \<Longrightarrow> holders (goto h l s) = holders s"
  "\<not> owns (pc s h) \<Longrightarrow> owns l \<Longrightarrow> holders (goto h l s) = insert h (holders s)"
  "owns (pc s h) \<Longrightarrow> \<not> owns l \<Longrightarrow> holders (goto h l s) = holders s - {h}"
  by (auto simp: holders_def split: if_splits)

lemma holders_same [simp]: "holders (set_cpu h c s) = holders s" "holders (s\<lparr>lk := k\<rparr>) = holders s"
  by (simp_all add: holders_def)

lemma the_holder: "lock_inv s \<Longrightarrow> owns (pc s h) \<Longrightarrow> holders s = {h} \<and> locked (lk s)"
proof -
  assume i: "lock_inv s" and "owns (pc s h)"
  then have h: "h \<in> holders s" by (simp add: holders_def)
  then have "locked (lk s)" "is_singleton (holders s)" using i by (auto simp: lock_inv_def split: if_splits)
  then show ?thesis using h by (auto elim: is_singletonE)
qed

lemma acquire_inv: "acquire h s t \<Longrightarrow> lock_inv s \<Longrightarrow> lock_inv t"
proof (erule acquireE)
  assume "lock_inv s" "t = goto h Check (set_cpu h (push_off (cpus s h)) s)" "pc s h = Idle"
  moreover from this have "cpu_ok (push_off (cpus s h))" "0 < noff (push_off (cpus s h))"
    using push_off_ok [of "cpus s h"] by (auto simp: lock_inv_def cpu_ok_def)
  ultimately show "lock_inv t" by (auto simp: lock_inv_def holders_goto)
next
  assume "lock_inv s" "t = goto h (if holding h (lk s) then Panicked else Spin) s" "pc s h = Check"
  moreover from this have "\<not> holding h (lk s)" by (auto simp: lock_inv_def holding_def)
  ultimately show "lock_inv t" by (auto simp: lock_inv_def holders_goto)
next
  assume a: "lock_inv s" "t = goto h (if locked (lk s) then Spin else Got) (s\<lparr>lk := (lk s)\<lparr>locked := True\<rparr>\<rparr>)" "pc s h = Spin"
  show "lock_inv t"
  proof (cases "locked (lk s)")
    case True
    then show ?thesis using a by (simp add: lock_inv_def holders_goto)
  next
    case False
    then have "holders s = {}" using a(1) by (simp add: lock_inv_def)
    then show ?thesis using a False by (simp add: lock_inv_def holders_goto)
  qed
next
  assume a: "lock_inv s" "t = goto h Critical (s\<lparr>lk := (lk s)\<lparr>lk_cpu := Some h\<rparr>\<rparr>)" "pc s h = Got"
  then have hs: "holders s = {h}" using the_holder by simp
  have "pc s i \<noteq> Critical" if "i \<noteq> h" for i
  proof
    assume "pc s i = Critical"
    then have "i \<in> holders s" by (simp add: holders_def)
    then show False using hs that by simp
  qed
  then have "\<forall>i. Some h = Some i \<longleftrightarrow> pc t i = Critical" using a(2) by simp
  then show "lock_inv t" using a by (simp add: lock_inv_def holders_goto)
qed

lemma release_inv: "release h s t \<Longrightarrow> lock_inv s \<Longrightarrow> lock_inv t"
proof (erule releaseE)
  assume a: "lock_inv s" "pc s h = Critical" "\<not> holding h (lk s)"
  then have "locked (lk s)" using the_holder [of s h] by simp
  moreover have "lk_cpu (lk s) = Some h" using a(1,2) by (simp add: lock_inv_def)
  ultimately show "lock_inv t" using a(3) by (simp add: holding_def)
next
  assume a: "lock_inv s" "pc s h = Critical" "t = goto h Unlock (s\<lparr>lk := (lk s)\<lparr>lk_cpu := None\<rparr>\<rparr>)"
  then have "lk_cpu (lk s) = Some i \<longleftrightarrow> pc s i = Critical" for i by (simp add: lock_inv_def)
  then have "pc s i = Critical \<longleftrightarrow> i = h" for i using a(2) by (metis option.inject)
  then have "\<forall>i. pc t i \<noteq> Critical" using a(3) by simp
  then show "lock_inv t" using a by (simp add: lock_inv_def holders_goto)
next
  assume a: "lock_inv s" "pc s h = Unlock" "t = goto h Pop (s\<lparr>lk := (lk s)\<lparr>locked := False\<rparr>\<rparr>)"
  then have "holders s = {h}" using the_holder by simp
  then show "lock_inv t" using a by (simp add: lock_inv_def holders_goto)
next
  fix c assume a: "lock_inv s" "pc s h = Pop" "pop_off (cpus s h) = Some c" "t = goto h Idle (set_cpu h c s)"
  then have "cpu_ok (cpus s h)" by (simp add: lock_inv_def)
  then have "cpu_ok c" using a(3) by (auto simp: pop_off_def cpu_ok_def Let_def split: if_splits)
  then show "lock_inv t" using a by (auto simp: lock_inv_def holders_goto)
next
  assume a: "lock_inv s" "pc s h = Pop" "pop_off (cpus s h) = None"
  then have "cpu_ok (cpus s h)" "0 < noff (cpus s h)" by (auto simp: lock_inv_def)
  then show "lock_inv t" using a(3) by (auto simp: pop_off_def cpu_ok_def Let_def split: if_splits)
qed

lemma lock_reach_inv: "lock_reach s \<Longrightarrow> lock_inv s"
proof (induction rule: lock_reach.induct)
  case (start s)
  then show ?case by (simp add: lock_inv_def holders_def owns_def initlock_def)
next
  case (step s t)
  from step(2) show ?case
  proof cases
    case (3 h c)
    then show ?thesis using step(3) by (auto simp: lock_inv_def)
  qed (use step(3) acquire_inv release_inv in blast)+
qed

subsection \<open>Properties\<close>

text \<open>C11. Mutual exclusion.  However the harts interleave, at most one of them is between the atomic
  swap that found the lock free and the atomic release; \<open>lk->cpu\<close> names it while it is in
  its critical section; no hart panics in \<open>acquire\<close>, \<open>release\<close> or \<open>pop_off\<close>; and every hart
  that waits for the lock or holds it has its interrupts off, so that no interrupt handler
  can wait for a lock its own hart holds.\<close>

theorem mutual_exclusion:
  assumes "lock_reach s"
  shows "(\<forall>h i. owns (pc s h) \<and> owns (pc s i) \<longrightarrow> h = i) \<and> (\<forall>h. lk_cpu (lk s) = Some h \<longleftrightarrow> pc s h = Critical) \<and>
    (\<forall>h. pc s h \<noteq> Panicked) \<and> (\<forall>h. pc s h \<noteq> Idle \<longrightarrow> \<not> sie (cpus s h)) \<and>
    (locked (lk s) \<longleftrightarrow> (\<exists>h. owns (pc s h)))"
proof -
  have i: "lock_inv s" using assms by (rule lock_reach_inv)
  have "(\<forall>h i. owns (pc s h) \<and> owns (pc s i) \<longrightarrow> h = i)" using the_holder [OF i] by auto
  moreover have "locked (lk s) \<longleftrightarrow> (\<exists>h. owns (pc s h))" using i by (auto simp: lock_inv_def holders_def is_singleton_def split: if_splits)
  ultimately show ?thesis using i by (simp add: lock_inv_def cpu_ok_def)
qed

definition demo_locks :: lock_sys where
  "demo_locks = \<lparr>lk = initlock, cpus = (\<lambda>_. \<lparr>noff = 0, intena = False, sie = True\<rparr>), pc = (\<lambda>_. Idle)\<rparr>"

theorem mutual_exclusion_witness:
  "\<exists>s. lock_reach s \<and> pc s 1 = Check \<and> \<not> sie (cpus s 1)"
proof -
  have "lock_reach demo_locks" by (rule lock_reach.start) (simp_all add: demo_locks_def cpu_ok_def)
  moreover have "acquire 1 demo_locks (goto 1 Check (set_cpu 1 (push_off (cpus demo_locks 1)) demo_locks))"
    by (rule acq_push) (simp add: demo_locks_def)
  ultimately obtain s where r: "lock_reach s" "pc s 1 = Check"
    using lock_reach.step [OF _ spin_step.intros(1)] by (metis lock_sel(3))
  then show ?thesis using mutual_exclusion [OF r(1)] by auto
qed

text \<open>\<open>push_off\<close> and \<open>pop_off\<close> are matched: \<open>n\<close> calls of \<open>pop_off\<close> undo \<open>n\<close> calls of \<open>push_off\<close>
  without a panic, the interrupt-enable bit and the nesting depth are those before, and in
  between interrupts are off.\<close>

lemma push_pop_matched:
  assumes "cpu_ok c"
  shows "\<exists>d. pop_offs n (push_offs n c) = Some d \<and> noff d = noff c \<and> sie d = sie c \<and> (0 < n \<longrightarrow> \<not> sie (push_offs n c))"
proof -
  have "cpu_ok (push_offs n c)" "noff (push_offs n c) = noff c + int n" "0 \<le> noff c"
    using push_offs_ok [OF assms, of n] assms by (simp_all add: cpu_ok_def)
  then have "0 < n \<longrightarrow> \<not> sie (push_offs n c)" by (simp add: cpu_ok_def)
  then show ?thesis using pop_push_offs [OF assms, of n] by auto
qed

end
