(* ===== verification/SchedRun.thy ===== *)
theory SchedRun
  imports Sched Demo
begin

section \<open>The scheduler and wakeup\<close>

text \<open>
  A run of the scheduler loop of one CPU is a sequence of positions and states: at
  position \<open>pos k\<close> it looks at the state \<open>st k\<close>, and between two rounds the process that was
  dispatched, the interrupt handlers and the other CPUs may change the state in any
  way.  \<open>wakeup\<close> is read entry by entry.
\<close>

definition sched_run :: "(nat \<Rightarrow> nat) \<Rightarrow> (nat \<Rightarrow> 'a kprocs_scheme) \<Rightarrow> bool" where
  "sched_run ps st \<longleftrightarrow> ps 0 \<le> NPROC \<and> (\<forall>k. ps (Suc k) = fst (scheduler (ps k) (st k)))"

lemma sched_next: "sched_run ps st \<Longrightarrow> ps (Suc k) = (if ps k < NPROC then Suc (ps k) else 0)"
  by (simp add: sched_run_def scheduler_def)

lemma sched_forward: "sched_run ps st \<Longrightarrow> ps k + d \<le> NPROC \<Longrightarrow> ps (k + d) = ps k + d"
  by (induction d) (simp_all add: sched_next)

lemma sched_reaches:
  assumes "sched_run ps st" "j < NPROC"
  shows "\<exists>k\<le>NPROC. ps k = j"
proof (cases "ps 0 \<le> j")
  case True
  then show ?thesis using sched_forward [OF assms(1), of 0 "j - ps 0"] assms(2) by (intro exI [of _ "j - ps 0"]) auto
next
  case False
  let ?d = "NPROC - ps 0"
  have p: "ps 0 \<le> NPROC" using assms(1) by (simp add: sched_run_def)
  then have "ps ?d = NPROC" using sched_forward [OF assms(1), of 0 ?d] by simp
  then have "ps (Suc ?d) = 0" using sched_next [OF assms(1), of ?d] by simp
  then have "ps (Suc ?d + j) = j" using sched_forward [OF assms(1), of "Suc ?d" j] assms(2) by simp
  moreover have "Suc ?d + j \<le> NPROC" using False p by simp
  ultimately show ?thesis by blast
qed

text \<open>C20. The scheduler is a round robin: a process that is runnable, and stays so until the scheduler
  reaches it, is dispatched within NPROC rounds of the loop, whatever the
  other processes do in between; no process waits for more than one pass over the table.\<close>

theorem scheduler_round_robin:
  fixes st :: "nat \<Rightarrow> 'a kprocs_scheme"
  assumes "sched_run ps st" "j < NPROC" "\<And>k. (\<forall>l<k. ps l \<noteq> j) \<Longrightarrow> p_state (pget j (st k)) = RUNNABLE"
  shows "\<exists>k\<le>NPROC. scheduler (ps k) (st k) = (Suc j, dispatch j (st k)) \<and> (\<forall>l<k. ps l \<noteq> j)"
proof -
  obtain n where n: "n \<le> NPROC" "ps n = j" using sched_reaches [OF assms(1,2)] by blast
  define k where "k = (LEAST k. ps k = j)"
  have k: "ps k = j" "\<forall>l<k. ps l \<noteq> j" "k \<le> n"
    unfolding k_def using n(2) by (auto intro: LeastI Least_le dest: not_less_Least)
  have "scheduler (ps k) (st k) = (Suc j, dispatch j (st k))"
    using assms(3) [OF k(2)] assms(2) k(1) by (simp add: scheduler_def)
  then show ?thesis using k n(1) by (intro exI [of _ k]) simp
qed

definition demo_sched :: kfiles where
  "demo_sched = demo_kernel (\<lambda>_. 0) 0 (replicate NPROC (demo_proc\<lparr>p_state := RUNNABLE\<rparr>))"

theorem scheduler_round_robin_witness:
  "\<exists>k\<le>NPROC. scheduler ((3 + k) mod 65) demo_sched = (3, dispatch 2 demo_sched)"
proof -
  have run: "sched_run (\<lambda>k. (3 + k) mod 65) (\<lambda>_. demo_sched)"
  proof -
    have "Suc (3 + k) mod 65 = (if (3 + k) mod 65 < 64 then Suc ((3 + k) mod 65) else 0)" for k :: nat
      using mod_Suc [of "3 + k" 65] mod_less_divisor [of 65 "3 + k"] by auto
    then show ?thesis by (simp add: sched_run_def scheduler_def NPROC_def)
  qed
  have "2 < NPROC" by (simp add: NPROC_def)
  moreover have "p_state (pget 2 demo_sched) = RUNNABLE" by (simp add: demo_sched_def NPROC_def)
  ultimately obtain k where "k \<le> NPROC" "scheduler ((3 + k) mod 65) demo_sched = (Suc 2, dispatch 2 demo_sched)"
    using scheduler_round_robin [OF run] by blast
  then show ?thesis by (intro exI [of _ k]) simp
qed

subsection \<open>Wakeup\<close>

lemma wakeup_upto:
  "n \<le> length (procs s) \<Longrightarrow> fold (\<lambda>i s. if myproc s \<noteq> Some i then pset i (wakes ch) s else s) [0..<n] s =
    s\<lparr>procs := map (\<lambda>i. if i < n \<and> cur s \<noteq> Some i then wakes ch (pget i s) else pget i s) [0..<length (procs s)]\<rparr>"
proof (induction n)
  case 0
  then show ?case by (simp add: map_nth)
next
  case (Suc n)
  then have n: "n < length (procs s)" by simp
  have e: "(map (\<lambda>i. if i < n \<and> cur s \<noteq> Some i then wakes ch (pget i s) else pget i s) [0..<length (procs s)])[n := wakes ch (pget n s)] =
    map (\<lambda>i. if i < Suc n \<and> cur s \<noteq> Some i then wakes ch (pget i s) else pget i s) [0..<length (procs s)]" if "cur s \<noteq> Some n"
    using n that by (intro nth_equalityI) (auto simp: nth_list_update less_Suc_eq)
  have f: "map (\<lambda>i. if i < n \<and> cur s \<noteq> Some i then wakes ch (pget i s) else pget i s) [0..<length (procs s)] =
    map (\<lambda>i. if i < Suc n \<and> cur s \<noteq> Some i then wakes ch (pget i s) else pget i s) [0..<length (procs s)]" if "cur s = Some n"
    using that by (auto simp: less_Suc_eq)
  show ?case using Suc n e f by (cases "cur s = Some n") (simp_all add: pset_def myproc_def)
qed

text \<open>\<open>wakeup\<close> makes exactly the processes runnable that sleep on the channel, the caller
  excepted, and changes nothing else of any process; so a process that went to sleep on a
  channel before the wakeup is dispatched again.\<close>

lemma wakeup_exact:
  fixes s :: "'a kprocs_scheme"
  assumes "length (procs s) = NPROC"
  shows "wakeup ch s = s\<lparr>procs := map (\<lambda>i. if cur s \<noteq> Some i \<and> p_state (pget i s) = SLEEPING \<and> p_chan (pget i s) = Some ch
    then (pget i s)\<lparr>p_state := RUNNABLE\<rparr> else pget i s) [0..<NPROC]\<rparr>"
proof -
  have "map (\<lambda>i. if i < NPROC \<and> cur s \<noteq> Some i then wakes ch (pget i s) else pget i s) [0..<NPROC] =
    map (\<lambda>i. if cur s \<noteq> Some i \<and> p_state (pget i s) = SLEEPING \<and> p_chan (pget i s) = Some ch
      then (pget i s)\<lparr>p_state := RUNNABLE\<rparr> else pget i s) [0..<NPROC]"
    by (auto simp: wakes_def)
  then show ?thesis using wakeup_upto [of NPROC s ch] assms by (simp add: wakeup_def)
qed

end
