(* ===== verification/Grep.thy ===== *)
theory Grep
  imports Prelude
begin

section \<open>grep (user/grep.c)\<close>

text \<open>
  The matcher and the line loop.  A C string is the list of its characters up to the
  \<open>NUL\<close>, a pointer into it the rest from there on.  \<open>grep\<close> reads its file in pieces into
  the 1023 characters of \<open>buf\<close>; \<open>read\<close> delivers as many as it is asked for while the file
  lasts.  The reference gives a pattern its language: a sequence of items, each a
  character or a starred character, with anchors at both ends.
\<close>

fun matchhere :: "string \<Rightarrow> string \<Rightarrow> bool"
  and matchstar :: "char \<Rightarrow> string \<Rightarrow> string \<Rightarrow> bool" where
  "matchhere re str =
     (case re of [] \<Rightarrow> True
      | c # re' \<Rightarrow>
        (case re' of d # re'' \<Rightarrow>
           if d = CHR ''*'' then matchstar c re'' str
           else (case str of [] \<Rightarrow> False | t # str' \<Rightarrow> if c = CHR ''.'' \<or> c = t then matchhere re' str' else False)
         | [] \<Rightarrow>
           if c = CHR ''$'' then str = []
           else (case str of [] \<Rightarrow> False | t # str' \<Rightarrow> if c = CHR ''.'' \<or> c = t then matchhere re' str' else False)))"
| "matchstar c re str =
     (if matchhere re str then True
      else case str of [] \<Rightarrow> False | t # str' \<Rightarrow> if t = c \<or> c = CHR ''.'' then matchstar c re str' else False)"

declare matchhere.simps [simp del] matchstar.simps [simp del]

fun match_from :: "string \<Rightarrow> string \<Rightarrow> bool" where
  "match_from re str = (if matchhere re str then True else case str of [] \<Rightarrow> False | t # str' \<Rightarrow> match_from re str')"

declare match_from.simps [simp del]

definition match :: "string \<Rightarrow> string \<Rightarrow> bool" where
  "match re str = (case re of c # re' \<Rightarrow> if c = CHR ''^'' then matchhere re' str else match_from re str | [] \<Rightarrow> match_from re str)"

text \<open>
  The loop over the complete lines in the buffer from \<open>p\<close> on: the lines written, each with
  its newline, and what is left.  A \<open>NUL\<close> in the file ends the string that \<open>strchr\<close>
  searches.
\<close>

definition cstr :: "string \<Rightarrow> string" where
  "cstr p = takeWhile (\<lambda>c. c \<noteq> CHR 0x00) p"

function grep_lines :: "string \<Rightarrow> string \<Rightarrow> string list \<times> string" where
  "grep_lines pattern p =
     (if CHR 0x0A \<in> set (cstr p)
      then let line = takeWhile (\<lambda>c. c \<noteq> CHR 0x0A) p;
             (out, rest) = grep_lines pattern (drop (length line + 1) p) in
        (if match pattern line then (line @ [CHR 0x0A]) # out else out, rest)
      else ([], p))"
  by pat_completeness auto
termination
proof (relation "measure (\<lambda>(pattern, p). length p)", simp)
  fix pattern p :: string and line
  assume "CHR 0x0A \<in> set (cstr p)"
  then have "p \<noteq> []" by (auto simp: cstr_def)
  then show "((pattern, drop (length line + 1) p), pattern, p) \<in> measure (\<lambda>(pattern, p). length p)" by simp
qed

declare grep_lines.simps [simp del]

definition BUF_SIZE :: nat where "BUF_SIZE = 1024"

function grep_file :: "string \<Rightarrow> string \<Rightarrow> string \<Rightarrow> string list" where
  "grep_file pattern buf content =
     (let n = BUF_SIZE - length buf - 1; chunk = take n content in
      if chunk = [] then []
      else let (out, rest) = grep_lines pattern (buf @ chunk) in
        out @ grep_file pattern rest (drop n content))"
  by pat_completeness auto
termination
proof (relation "measure (\<lambda>(pattern, buf, content). length content)", simp)
  fix pattern buf content :: string and n chunk pr out rest
  assume "n = BUF_SIZE - length buf - 1" "chunk = take n content" "chunk \<noteq> []"
  then have "0 < n" "content \<noteq> []" by (cases n; simp)+
  then show "((pattern, rest, drop n content), pattern, buf, content) \<in> measure (\<lambda>(pattern, buf, content). length content)" by simp
qed

declare grep_file.simps [simp del]

definition grep :: "string \<Rightarrow> string \<Rightarrow> string list" where
  "grep pattern content = grep_file pattern [] content"

text \<open>
  \<open>main\<close>: with no file arguments the standard input is searched; otherwise each file in
  turn, until one cannot be opened.  The result is what is written and the exit status.
\<close>

fun grep_files :: "(string \<Rightarrow> string option) \<Rightarrow> string \<Rightarrow> string list \<Rightarrow> string list \<times> int" where
  "grep_files open_file pattern [] = ([], 0)"
| "grep_files open_file pattern (f # fs) =
     (case open_file f of
       None \<Rightarrow> ([''grep: cannot open '' @ f @ [CHR 0x0A]], 1)
     | Some content \<Rightarrow> (case grep_files open_file pattern fs of (out, r) \<Rightarrow> (grep pattern content @ out, r)))"

definition grep_main :: "(string \<Rightarrow> string option) \<Rightarrow> string \<Rightarrow> string list \<Rightarrow> string list \<times> int" where
  "grep_main open_file stdin argv =
     (case argv of
       pattern # files \<Rightarrow> if files = [] then (grep pattern stdin, 0) else grep_files open_file pattern files
     | [] \<Rightarrow> ([''usage: grep pattern [file ...]'' @ [CHR 0x0A]], 1))"

subsection \<open>The language of a pattern\<close>

datatype item_pat = One char | Many char

fun items :: "string \<Rightarrow> item_pat list \<times> bool" where
  "items [] = ([], False)"
| "items [c] = (if c = CHR ''$'' then ([], True) else ([One c], False))"
| "items (c # d # re) = (if d = CHR ''*'' then map_prod ((#) (Many c)) id (items re) else map_prod ((#) (One c)) id (items (d # re)))"

definition fits :: "char \<Rightarrow> char \<Rightarrow> bool" where
  "fits c t \<longleftrightarrow> c = CHR ''.'' \<or> c = t"

fun item_lang :: "item_pat \<Rightarrow> string set" where
  "item_lang (One c) = {[t] | t. fits c t}"
| "item_lang (Many c) = {w. \<forall>t\<in>set w. fits c t}"

fun seq_lang :: "item_pat list \<Rightarrow> string set" where
  "seq_lang [] = {[]}"
| "seq_lang (i # is) = {v @ w | v w. v \<in> item_lang i \<and> w \<in> seq_lang is}"

definition matches :: "string \<Rightarrow> string \<Rightarrow> bool" where
  "matches re str \<longleftrightarrow>
     (let bol = (re \<noteq> [] \<and> hd re = CHR ''^''); (its, eol) = items (if bol then drop 1 re else re) in
      \<exists>pre mid post. str = pre @ mid @ post \<and> mid \<in> seq_lang its \<and> (bol \<longrightarrow> pre = []) \<and> (eol \<longrightarrow> post = []))"

text \<open>What \<open>matchhere\<close> decides: some prefix of the text is in the language.\<close>

definition prefix_fits :: "item_pat list \<times> bool \<Rightarrow> string \<Rightarrow> bool" where
  "prefix_fits p str \<longleftrightarrow> (\<exists>mid post. str = mid @ post \<and> mid \<in> seq_lang (fst p) \<and> (snd p \<longrightarrow> post = []))"

lemma prefix_fits_Nil [simp]: "prefix_fits ([], e) str \<longleftrightarrow> e \<longrightarrow> str = []"
  by (auto simp: prefix_fits_def)

lemma prefix_fits_One: "prefix_fits (One c # is, e) str \<longleftrightarrow> (\<exists>t str'. str = t # str' \<and> fits c t \<and> prefix_fits (is, e) str')"
proof -
  have e: "seq_lang (One c # is) = {t # w | t w. fits c t \<and> w \<in> seq_lang is}" by (auto, metis append_Cons append_Nil)
  show ?thesis
  proof
    assume "prefix_fits (One c # is, e) str"
    then obtain mid post where m: "str = mid @ post" "mid \<in> {t # w | t w. fits c t \<and> w \<in> seq_lang is}" "e \<longrightarrow> post = []"
      unfolding prefix_fits_def fst_conv snd_conv e by blast
    from m(2) obtain t w where "mid = t # w" "fits c t" "w \<in> seq_lang is" by blast
    with m have "str = t # w @ post" "fits c t" "w \<in> seq_lang is" "e \<longrightarrow> post = []" by simp_all
    then show "\<exists>t str'. str = t # str' \<and> fits c t \<and> prefix_fits (is, e) str'"
      unfolding prefix_fits_def fst_conv snd_conv by blast
  next
    assume "\<exists>t str'. str = t # str' \<and> fits c t \<and> prefix_fits (is, e) str'"
    then obtain t str' where t: "str = t # str'" "fits c t" "prefix_fits (is, e) str'" by blast
    from t(3) obtain w post where "str' = w @ post" "w \<in> seq_lang is" "e \<longrightarrow> post = []" unfolding prefix_fits_def fst_conv snd_conv by blast
    with t have "str = (t # w) @ post" "fits c t" "w \<in> seq_lang is" "e \<longrightarrow> post = []" by simp_all
    then show "prefix_fits (One c # is, e) str" unfolding prefix_fits_def fst_conv snd_conv e by blast
  qed
qed

lemma prefix_fits_Many_iff:
  "prefix_fits (Many c # is, e) str \<longleftrightarrow> (\<exists>v rest. str = v @ rest \<and> (\<forall>t\<in>set v. fits c t) \<and> prefix_fits (is, e) rest)"
proof
  assume "prefix_fits (Many c # is, e) str"
  then obtain mid post where m: "str = mid @ post" "mid \<in> seq_lang (Many c # is)" "e \<longrightarrow> post = []"
    unfolding prefix_fits_def by auto
  then obtain v w where "mid = v @ w" "\<forall>t\<in>set v. fits c t" "w \<in> seq_lang is" by auto
  then have "str = (v @ w) @ post" "\<forall>t\<in>set v. fits c t" "w \<in> seq_lang is" "e \<longrightarrow> post = []" using m by simp_all
  then show "\<exists>v rest. str = v @ rest \<and> (\<forall>t\<in>set v. fits c t) \<and> prefix_fits (is, e) rest"
    unfolding prefix_fits_def by (intro exI [of _ v] exI [of _ "w @ post"]) auto
next
  assume "\<exists>v rest. str = v @ rest \<and> (\<forall>t\<in>set v. fits c t) \<and> prefix_fits (is, e) rest"
  then obtain v w post where "str = v @ w @ post" "\<forall>t\<in>set v. fits c t" "w \<in> seq_lang is" "e \<longrightarrow> post = []"
    unfolding prefix_fits_def by auto
  then show "prefix_fits (Many c # is, e) str"
    unfolding prefix_fits_def by (intro exI [of _ "v @ w"] exI [of _ post]) auto
qed

lemma prefix_fits_Many:
  "prefix_fits (Many c # is, e) str \<longleftrightarrow> prefix_fits (is, e) str \<or> (\<exists>t str'. str = t # str' \<and> fits c t \<and> prefix_fits (Many c # is, e) str')"
  (is "?l \<longleftrightarrow> ?r")
proof
  assume ?l
  then obtain v rest where v: "str = v @ rest" "\<forall>t\<in>set v. fits c t" "prefix_fits (is, e) rest" by (auto simp: prefix_fits_Many_iff)
  then show ?r by (cases v) (auto simp: prefix_fits_Many_iff)
next
  assume ?r
  then show ?l
  proof
    assume "prefix_fits (is, e) str"
    then show ?l unfolding prefix_fits_Many_iff by (intro exI [of _ "[]"] exI [of _ str]) simp
  next
    assume "\<exists>t str'. str = t # str' \<and> fits c t \<and> prefix_fits (Many c # is, e) str'"
    then obtain t v rest where "str = t # v @ rest" "fits c t" "\<forall>t\<in>set v. fits c t" "prefix_fits (is, e) rest"
      unfolding prefix_fits_Many_iff by blast
    then show ?l unfolding prefix_fits_Many_iff by (intro exI [of _ "t # v"] exI [of _ rest]) simp
  qed
qed

lemma matchhere_fits:
  "matchhere re str \<longleftrightarrow> prefix_fits (items re) str"
  "matchstar c re str \<longleftrightarrow> prefix_fits (Many c # fst (items re), snd (items re)) str"
proof (induction re str and c re str rule: matchhere_matchstar.induct)
  case (1 re str)
  consider "re = []" | c where "re = [c]" | c re'' where "re = c # CHR ''*'' # re''" | c d re'' where "re = c # d # re''" "d \<noteq> CHR ''*''"
    by (metis neq_Nil_conv)
  then show ?case
  proof cases
    case 1
    then show ?thesis by (simp add: matchhere.simps)
  next
    case (2 c)
    then show ?thesis by (cases str) (auto simp: matchhere.simps prefix_fits_One fits_def)
  next
    case (3 c re'')
    have "matchhere re str = matchstar c re'' str" unfolding 3 by (subst matchhere.simps) simp
    then show ?thesis using "1.IH" 3 by (simp add: map_prod_def split_beta)
  next
    case (4 c d re'')
    obtain its e where i: "items (d # re'') = (its, e)" by (cases "items (d # re'')")
    show ?thesis
    proof (cases str)
      case (Cons t str')
      then show ?thesis using 4 "1.IH"(3) [of c "d # re''" d re'' t str'] i
        by (subst matchhere.simps) (auto simp: prefix_fits_One fits_def)
    qed (use 4 i in \<open>simp add: matchhere.simps prefix_fits_One\<close>)
  qed
next
  case (2 c re str)
  obtain its e where i: "items re = (its, e)" by (cases "items re")
  show ?case
  proof (cases "matchhere re str")
    case True
    then have "matchstar c re str" by (subst matchstar.simps) simp
    moreover have "prefix_fits (its, e) str" using "2.IH"(1) True i by simp
    ultimately show ?thesis using i prefix_fits_Many [of c its e str] by simp
  next
    case False
    then have n: "\<not> prefix_fits (its, e) str" using "2.IH"(1) i by simp
    show ?thesis
    proof (cases str)
      case Nil
      then have "\<not> matchstar c re str" using False by (subst matchstar.simps) simp
      then show ?thesis using n i Nil prefix_fits_Many [of c its e str] by simp
    next
      case (Cons t str')
      have m: "matchstar c re str \<longleftrightarrow> fits c t \<and> matchstar c re str'"
        using False Cons by (subst matchstar.simps) (auto simp: fits_def)
      have "fits c t \<Longrightarrow> matchstar c re str' \<longleftrightarrow> prefix_fits (Many c # its, e) str'"
        using "2.IH"(2) [OF False Cons] i by (auto simp: fits_def)
      then show ?thesis using m n i Cons prefix_fits_Many [of c its e str] by auto
    qed
  qed
qed

lemma match_from_fits: "match_from re str \<longleftrightarrow> (\<exists>pre rest. str = pre @ rest \<and> prefix_fits (items re) rest)"
proof (induction str)
  case Nil
  then show ?case by (simp add: match_from.simps matchhere_fits)
next
  case (Cons t str)
  have "match_from re (t # str) \<longleftrightarrow> prefix_fits (items re) (t # str) \<or> match_from re str"
    by (simp add: match_from.simps [of re "t # str"] matchhere_fits)
  also have "\<dots> \<longleftrightarrow> (\<exists>pre rest. t # str = pre @ rest \<and> prefix_fits (items re) rest)"
    unfolding Cons by (metis append_Cons append_Nil list.exhaust list.inject)
  finally show ?case .
qed

text \<open>C23. The matcher of grep is equivalent to the languages of its patterns: a text matches exactly
  when some part of it, the beginning for a pattern with \<open>^\<close>, up to the end for a pattern
  with a final \<open>$\<close>, consists of one piece for each item of the pattern in turn, where a
  starred character stands for any number of that character and a dot for every
  character.  Both recursions end on every input.\<close>

theorem match_correct: "match re str \<longleftrightarrow> matches re str"
proof (cases "re \<noteq> [] \<and> hd re = CHR ''^''")
  case True
  then obtain re' where re: "re = CHR ''^'' # re'" by (cases re) auto
  obtain its e where i: "items re' = (its, e)" by (cases "items re'")
  have "match re str = matchhere re' str" by (simp add: match_def re)
  then show ?thesis by (simp add: matchhere_fits matches_def re i prefix_fits_def)
next
  case False
  then have "match re str = match_from re str" by (auto simp: match_def split: list.split)
  moreover obtain its e where i: "items re = (its, e)" by (cases "items re")
  ultimately show ?thesis using False by (auto simp: match_from_fits matches_def prefix_fits_def Let_def i)
qed

end
