(* ===== verification/Printf.thy ===== *)
theory Printf
  imports Stdio
begin

section \<open>Formatted output of the kernel and of user programs (kernel/printf.c, user/printf.c)\<close>

text \<open>
  The two \<open>printf\<close>s differ in their digits only; a percent sign at the end of the format
  prints nothing.  The arguments are a list: 64-bit values, of which \<open>va_arg\<close> takes the width it
  asks for, and strings (\<open>None\<close> is the null pointer); running out of arguments, or
  finding one of the other kind, is \<open>None\<close>.  The result is the text put out.
  \<open>printint\<close> fills its buffer of 20 characters; \<open>None\<close> is a store beyond its end.
\<close>

datatype arg = Num u64 | Text "string option"

definition digits :: string where "digits = ''0123456789abcdef''"
definition user_digits :: string where "user_digits = ''0123456789ABCDEF''"

function digit_loop :: "string \<Rightarrow> nat \<Rightarrow> nat \<Rightarrow> string" where
  "digit_loop ds base x = ds ! (x mod base) # (if x div base = 0 \<or> base < 2 then [] else digit_loop ds base (x div base))"
  by pat_completeness auto
termination
proof (relation "measure (\<lambda>(ds, base, x). x)", simp)
  fix ds :: string and base x :: nat
  assume "\<not> (x div base = 0 \<or> base < 2)"
  then have "x div base < x" by (intro div_less_dividend) (auto intro: Nat.gr0I)
  then show "((ds, base, x div base), ds, base, x) \<in> measure (\<lambda>(ds, base, x). x)" by simp
qed

declare digit_loop.simps [simp del]

definition printint :: "string \<Rightarrow> u64 \<Rightarrow> nat \<Rightarrow> bool \<Rightarrow> string option" where
  "printint ds xx base signd =
     (let neg = signd \<and> xx <s 0;
          x = unat (if neg then - xx else xx);
          buf = digit_loop ds base x @ (if neg then ''-'' else []) in
      if length buf \<le> 20 then Some (rev buf) else None)"

text \<open>Sixteen digits, the highest four bits first.\<close>

fun ptr_loop :: "string \<Rightarrow> nat \<Rightarrow> u64 \<Rightarrow> string" where
  "ptr_loop ds 0 x = []"
| "ptr_loop ds (Suc i) x = ds ! unat (drop_bit 60 x) # ptr_loop ds i (push_bit 4 x)"

definition printptr :: "string \<Rightarrow> u64 \<Rightarrow> string" where
  "printptr ds x = ''0x'' @ ptr_loop ds 16 x"

text \<open>
  One conversion: the characters after the percent sign decide which argument is taken
  and how many more characters belong to it.  The result is the output, how far to go on
  in the format, and the arguments left.
\<close>

definition int_arg :: "u64 \<Rightarrow> u64" where
  "int_arg v = scast (ucast v :: u32)"

definition uint32_arg :: "u64 \<Rightarrow> u64" where
  "uint32_arg v = ucast (ucast v :: u32)"

fun num_arg :: "arg list \<Rightarrow> (u64 \<times> arg list) option" where
  "num_arg (Num v # as) = Some (v, as)"
| "num_arg as = None"

fun text_arg :: "arg list \<Rightarrow> (string \<times> arg list) option" where
  "text_arg (Text s # as) = Some (case s of None \<Rightarrow> ''(null)'' | Some t \<Rightarrow> t, as)"
| "text_arg as = None"

definition print_num :: "string \<Rightarrow> (u64 \<Rightarrow> u64) \<Rightarrow> nat \<Rightarrow> bool \<Rightarrow> nat \<Rightarrow> arg list \<Rightarrow> (string \<times> nat \<times> arg list) option" where
  "print_num ds conv base signd extra as = do {
     (v, as) \<leftarrow> num_arg as;
     s \<leftarrow> printint ds (conv v) base signd;
     Some (s, extra, as)
   }"

definition conversion :: "string \<Rightarrow> char \<Rightarrow> string \<Rightarrow> arg list \<Rightarrow> (string \<times> nat \<times> arg list) option" where
  "conversion ds c0 rest as =
     (let c1 = (case rest of [] \<Rightarrow> CHR 0x00 | c # r \<Rightarrow> c); c2 = (case rest of c # d # r \<Rightarrow> d | r \<Rightarrow> CHR 0x00) in
      if c0 = CHR ''d'' then print_num ds int_arg 10 True 0 as
      else if c0 = CHR ''l'' \<and> c1 = CHR ''d'' then print_num ds id 10 True 1 as
      else if c0 = CHR ''l'' \<and> c1 = CHR ''l'' \<and> c2 = CHR ''d'' then print_num ds id 10 True 2 as
      else if c0 = CHR ''u'' then print_num ds uint32_arg 10 False 0 as
      else if c0 = CHR ''l'' \<and> c1 = CHR ''u'' then print_num ds id 10 False 1 as
      else if c0 = CHR ''l'' \<and> c1 = CHR ''l'' \<and> c2 = CHR ''u'' then print_num ds id 10 False 2 as
      else if c0 = CHR ''x'' then print_num ds uint32_arg 16 False 0 as
      else if c0 = CHR ''l'' \<and> c1 = CHR ''x'' then print_num ds id 16 False 1 as
      else if c0 = CHR ''l'' \<and> c1 = CHR ''l'' \<and> c2 = CHR ''x'' then print_num ds id 16 False 2 as
      else if c0 = CHR ''p'' then do { (v, as) \<leftarrow> num_arg as; Some (printptr ds v, 0, as) }
      else if c0 = CHR ''c'' then do { (v, as) \<leftarrow> num_arg as; Some ([char_of (unat (ucast v :: u8))], 0, as) }
      else if c0 = CHR ''s'' then do { (s, as) \<leftarrow> text_arg as; Some (s, 0, as) }
      else if c0 = CHR ''%'' then Some (''%'', 0, as)
      else Some ([CHR ''%'', c0], 0, as))"

text \<open>The loops over the format: \<open>vprintf\<close> of user programs, \<open>printf\<close> of the kernel.\<close>

function format_loop :: "string \<Rightarrow> string \<Rightarrow> arg list \<Rightarrow> string option" where
  "format_loop ds fmt as =
     (case fmt of [] \<Rightarrow> Some []
      | c # f \<Rightarrow>
        if c \<noteq> CHR ''%'' then map_option ((#) c) (format_loop ds f as)
        else case f of [] \<Rightarrow> Some []
        | c0 # r \<Rightarrow> do {
            (s, extra, as) \<leftarrow> conversion ds c0 r as;
            t \<leftarrow> format_loop ds (drop extra r) as;
            Some (s @ t)
          })"
  by pat_completeness auto
termination by (relation "measure (\<lambda>(ds, fmt, as). length fmt)") auto

declare format_loop.simps [simp del]

definition vprintf :: "string \<Rightarrow> arg list \<Rightarrow> string option" where
  "vprintf fmt as = format_loop user_digits fmt as"

definition kprintf :: "string \<Rightarrow> arg list \<Rightarrow> string option" where
  "kprintf fmt as = format_loop digits fmt as"

subsection \<open>Numbers\<close>

lemma digit_loop_length:
  "x < base ^ n \<Longrightarrow> 2 \<le> base \<Longrightarrow> 0 < n \<Longrightarrow> length (digit_loop ds base x) \<le> n"
proof (induction n arbitrary: x)
  case (Suc n)
  show ?case
  proof (cases "x div base = 0")
    case True
    then show ?thesis by (subst digit_loop.simps) simp
  next
    case False
    then have "0 < n" using Suc.prems by (cases n) auto
    moreover have "x div base < base ^ n" using Suc.prems by (simp add: div_less_iff_less_mult mult.commute)
    ultimately have "length (digit_loop ds base (x div base)) \<le> n" using Suc by blast
    then show ?thesis by (subst digit_loop.simps) simp
  qed
qed simp

text \<open>The number whose digits these are, the lowest first.\<close>

fun digits_number :: "string \<Rightarrow> nat \<Rightarrow> string \<Rightarrow> nat option" where
  "digits_number ds base [] = Some 0"
| "digits_number ds base (c # s) = (case List.find (\<lambda>d. ds ! d = c) [0..<base] of
     None \<Rightarrow> None | Some d \<Rightarrow> map_option (\<lambda>v. d + base * v) (digits_number ds base s))"

lemma find_digit:
  assumes "distinct ds" "base \<le> length ds" "d < base"
  shows "List.find (\<lambda>e. ds ! e = ds ! d) [0..<base] = Some d"
  unfolding find_Some_iff using assms by (intro exI [of _ d]) (auto simp: nth_eq_iff_index_eq)

lemma digit_loop_number:
  assumes "distinct ds" "base \<le> length ds" "2 \<le> base"
  shows "digits_number ds base (digit_loop ds base x) = Some x"
proof (induction x rule: less_induct)
  case (less x)
  have f: "List.find (\<lambda>d. ds ! d = ds ! (x mod base)) [0..<base] = Some (x mod base)"
    using find_digit [OF assms(1,2), of "x mod base"] assms(3) by simp
  show ?case
  proof (cases "x div base = 0")
    case True
    then have "x < base" using assms(3) by (simp add: div_eq_0_iff)
    then show ?thesis using f True by (subst digit_loop.simps) simp
  next
    case False
    then have "0 < x" by (cases x) auto
    then have "x div base < x" using assms(3) by simp
    from less [OF this] show ?thesis using f False assms(3) by (subst digit_loop.simps) simp
  qed
qed

lemma digits_ok: "distinct digits" "length digits = 16" "distinct user_digits" "length user_digits = 16"
  by (simp_all add: digits_def user_digits_def)

lemma unat_abs:
  fixes xx :: u64
  shows "sint xx < 0 \<Longrightarrow> unat (- xx) = nat \<bar>sint xx\<bar>" "0 \<le> sint xx \<Longrightarrow> unat xx = nat \<bar>sint xx\<bar>"
proof -
  have u: "uint xx = sint xx mod 2 ^ 64" using uint_sint [of xx] by (simp add: take_bit_eq_mod)
  have r: "- (2 ^ 63) \<le> sint xx" "sint xx < 2 ^ 63" using sint_greater_eq [of xx] sint_less [of xx] by simp_all
  show "unat (- xx) = nat \<bar>sint xx\<bar>" if "sint xx < 0"
  proof -
    have "uint (- xx) = (- sint xx) mod 2 ^ 64" by (simp add: uint_word_ariths u mod_minus_eq)
    also have "\<dots> = - sint xx" using r that by (intro mod_pos_pos_trivial) simp_all
    finally show ?thesis using that by (simp add: unat_eq_nat_uint)
  qed
  show "unat xx = nat \<bar>sint xx\<bar>" if "0 \<le> sint xx"
  proof -
    have "uint xx = sint xx" unfolding u using r that by (intro mod_pos_pos_trivial) simp_all
    then show ?thesis using that by (simp add: unat_eq_nat_uint)
  qed
qed

text \<open>C24. \<open>printint\<close> of the kernel and of user programs never stores beyond its 20 characters,
  for any 64-bit value, signed or not, in decimal or hexadecimal; 18446744073709551615 and
  -9223372036854775808 just fit.  What it prints are the digits of the absolute value,
  after a minus sign exactly for a negative value.\<close>

theorem printint_fits:
  assumes "ds = digits \<or> ds = user_digits" "base = 10 \<or> base = 16"
  shows "\<exists>s. printint ds xx base signd = Some ((if signd \<and> sint xx < 0 then ''-'' else []) @ s) \<and>
    length ((if signd \<and> sint xx < 0 then ''-'' else []) @ s) \<le> 20 \<and>
    digits_number ds base (rev s) = Some (nat (if signd then \<bar>sint xx\<bar> else uint xx))"
proof -
  let ?neg = "signd \<and> xx <s 0"
  let ?x = "unat (if ?neg then - xx else xx)"
  have neg: "xx <s 0 \<longleftrightarrow> sint xx < 0" by (simp add: word_sless_alt)
  have b: "2 \<le> base" "base \<le> 16" using assms(2) by auto
  have ds: "distinct ds" "base \<le> length ds" using assms digits_ok by auto
  have v: "?x = nat (if signd then \<bar>sint xx\<bar> else uint xx)"   proof (cases signd)
    case True
    show ?thesis
    proof (cases "sint xx < 0")
      case t: True
      show ?thesis using unat_abs(1) [OF t] by (simp only: neg True t simp_thms if_True)
    next
      case f: False
      then have "0 \<le> sint xx" by simp
      from unat_abs(2) [OF this] show ?thesis by (simp only: neg True f simp_thms if_True if_False)
    qed
  next
    case False
    then show ?thesis by (simp only: simp_thms if_False unat_eq_nat_uint)
  qed
  define x where "x = ?x"
  let ?d = "digit_loop ds base x"
  have "length ?d + (if ?neg then 1 else 0) \<le> 20"
  proof (cases ?neg)
    case True
    then have t: "signd" "sint xx < 0" by (simp_all add: neg)
    have "- (2 ^ 63) \<le> sint xx" using sint_greater_eq [of xx] by simp
    then have "nat \<bar>sint xx\<bar> \<le> 2 ^ 63" using t(2) by simp
    moreover have "x = nat \<bar>sint xx\<bar>" using v t(1) by (simp only: x_def if_True)
    ultimately have "x \<le> 2 ^ 63" by simp
    then have "x < base ^ 19" using assms(2) by (elim disjE) simp_all
    then show ?thesis using digit_loop_length [of x base 19 ds] b True by simp
  next
    case False
    have "x < 2 ^ 64" using unsigned_less [of "if ?neg then - xx else xx"] by (simp add: x_def)
    then have "x < base ^ 20" using assms(2) by (elim disjE) simp_all
    then have "length ?d \<le> 20" using digit_loop_length [of x base 20 ds] b by simp
    then show ?thesis unfolding if_not_P [OF False] by simp
  qed
  moreover have "digits_number ds base ?d = Some x" by (rule digit_loop_number [OF ds b(1)])
  moreover have "printint ds xx base signd = (let buf = ?d @ (if ?neg then ''-'' else []) in if length buf \<le> 20 then Some (rev buf) else None)"
    by (simp add: printint_def Let_def x_def)
  ultimately show ?thesis unfolding v [folded x_def, symmetric] neg [symmetric]
    by (intro exI [of _ "rev ?d"]) (auto split: if_splits)
qed

theorem printint_fits_witness:
  "\<exists>s. printint user_digits 0x8000000000000000 10 True = Some (''-'' @ s) \<and> digits_number user_digits 10 (rev s) = Some 9223372036854775808"
  using printint_fits [of user_digits 10 "0x8000000000000000" True] by auto

end
