(* ===== verification/Virtio.thy ===== *)
theory Virtio
  imports Bio Sched
begin

section \<open>The disk driver (kernel/virtio_disk.c, kernel/virtio.h)\<close>

text \<open>
  The driver and the device share descriptors and two rings.  The state extends that of the
  buffer cache by \<open>struct disk\<close>, with the three queue pages as lists, and by the flag \<open>disk\<close> of every
  buffer.  A DMA address is symbolic: a request header, the data of a buffer, a status byte.
  A section between \<open>acquire\<close> and \<open>release\<close> or a sleep is one step; \<open>virtio_disk_rw\<close> is cut
  where it sleeps, and what its stack keeps is a \<open>vwait\<close>.  \<open>None\<close> is a panic.

  The device is not part of the code.  Of its own state it has how far it has read the
  available ring and which requests it has taken.  \<open>device_may\<close> is what the virtio
  specification documents of its steps: it takes available entries in their order,
  carries out the requests it has taken in any order, and then writes status 0 and
  an entry of the used ring; for a malformed chain of descriptors it may do anything.
  Requests that fail with an I/O error are left out, and so is the acknowledgement of interrupts: the
  handler may run at any time.
\<close>

definition NUM :: nat where "NUM = 8"
definition VRING_DESC_F_NEXT :: u16 where "VRING_DESC_F_NEXT = 1"
definition VRING_DESC_F_WRITE :: u16 where "VRING_DESC_F_WRITE = 2"
definition VIRTIO_BLK_T_IN :: u32 where "VIRTIO_BLK_T_IN = 0"
definition VIRTIO_BLK_T_OUT :: u32 where "VIRTIO_BLK_T_OUT = 1"

datatype dma = No_addr | Op_addr nat | Data_addr nat | Status_addr nat

record virtq_desc =
  vd_addr :: dma
  vd_len :: u32
  vd_flags :: u16
  vd_next :: u16

record virtio_blk_req =
  vr_type :: u32
  vr_reserved :: u32
  vr_sector :: u64

record vdisk = kbuf +
  vq_desc :: "virtq_desc list"
  avail_ring :: "u16 list"
  avail_idx :: u16
  used_ring :: "u32 list"
  used_hw :: u16
  vfree :: "bool list"
  used_idx :: u16
  info_b :: "nat option list"
  info_status :: "u8 list"
  vops :: "virtio_blk_req list"
  b_disk :: "bool list"
  dev_avail :: u16
  dev_taken :: "nat list"
  notified :: "u32 list"

definition zero_desc :: virtq_desc where
  "zero_desc = \<lparr>vd_addr = No_addr, vd_len = 0, vd_flags = 0, vd_next = 0\<rparr>"

subsection \<open>Initialisation\<close>

text \<open>
  The device registers at \<open>VIRTIO0\<close>: what is read is given by \<open>rd\<close> for each offset
  (\<open>stat\<close> for the status after negotiation), the writes are listed in their order.
\<close>

definition virtio_features :: "u32 \<Rightarrow> u32" where
  "virtio_features f = fold (\<lambda>b f. f AND NOT (push_bit b 1)) [5, 7, 11, 12, 27, 29, 28] f"

definition virtio_negotiate :: "(nat \<Rightarrow> u32) \<Rightarrow> u32 \<Rightarrow> (nat \<times> u32) list option" where
  "virtio_negotiate rd stat =
     (if rd 0x000 \<noteq> 0x74726976 \<or> rd 0x004 \<noteq> 2 \<or> rd 0x008 \<noteq> 2 \<or> rd 0x00c \<noteq> 0x554d4551 then None
      else if stat AND 8 = 0 then None
      else if rd 0x044 \<noteq> 0 then None
      else if rd 0x034 = 0 then None
      else if rd 0x034 < of_nat NUM then None
      else Some [(0x070, 0), (0x070, 1), (0x070, 3), (0x020, virtio_features (rd 0x010)), (0x070, 11), (0x030, 0)])"

definition virtio_disk_init :: "(nat \<Rightarrow> u32) \<Rightarrow> u32 \<Rightarrow> 'a vdisk_scheme \<Rightarrow> ((nat \<times> u32) list \<times> 'a vdisk_scheme) option" where
  "virtio_disk_init rd stat s = do {
     ws \<leftarrow> virtio_negotiate rd stat;
     let (d, s) = kalloc s;
     let (a, s) = kalloc s;
     let (u, s) = kalloc s;
     if d = 0 \<or> a = 0 \<or> u = 0 then None
     else let s = s\<lparr>mem := memset u 0 4096 (memset a 0 4096 (memset d 0 4096 (mem s)))\<rparr>;
       s = s\<lparr>vq_desc := replicate NUM zero_desc, avail_ring := replicate NUM 0, avail_idx := 0,
             used_ring := replicate NUM 0, used_hw := 0, vfree := replicate NUM True\<rparr> in
     Some (ws @ [(0x038, of_nat NUM), (0x080, ucast d), (0x084, ucast (drop_bit 32 d)), (0x090, ucast a),
       (0x094, ucast (drop_bit 32 a)), (0x0a0, ucast u), (0x0a4, ucast (drop_bit 32 u)), (0x044, 1), (0x070, stat OR 4)], s)
   }"

subsection \<open>Descriptors\<close>

definition alloc_desc :: "'a vdisk_scheme \<Rightarrow> nat option \<times> 'a vdisk_scheme" where
  "alloc_desc s =
     (case List.find (\<lambda>i. vfree s ! i) [0..<NUM] of
        Some i \<Rightarrow> (Some i, s\<lparr>vfree := (vfree s)[i := False]\<rparr>)
      | None \<Rightarrow> (None, s))"

definition free_desc :: "nat \<Rightarrow> 'a vdisk_scheme \<Rightarrow> 'a vdisk_scheme option" where
  "free_desc i s =
     (if i \<ge> NUM then None
      else if vfree s ! i then None
      else Some (wakeup ChDiskFree (s\<lparr>vq_desc := (vq_desc s)[i := zero_desc], vfree := (vfree s)[i := True]\<rparr>)))"

definition descs_taken :: "'a vdisk_scheme \<Rightarrow> nat" where
  "descs_taken s = length (filter Not (vfree s))"

lemma wakeup_vdisk [simp]:
  "vq_desc (wakeup ch s) = vq_desc s" "avail_ring (wakeup ch s) = avail_ring s" "avail_idx (wakeup ch s) = avail_idx s"
  "used_ring (wakeup ch s) = used_ring s" "used_hw (wakeup ch s) = used_hw s" "vfree (wakeup ch s) = vfree s"
  "used_idx (wakeup ch s) = used_idx s" "info_b (wakeup ch s) = info_b s" "info_status (wakeup ch s) = info_status s"
  "vops (wakeup ch s) = vops s" "b_disk (wakeup ch s) = b_disk s" "dev_avail (wakeup ch s) = dev_avail s"
  "dev_taken (wakeup ch s) = dev_taken s" "bufs (wakeup ch s) = bufs s" "disk (wakeup ch s) = disk s"
  "disk_log (wakeup ch s) = disk_log s" "notified (wakeup ch s) = notified s" "length (procs (wakeup ch s)) = length (procs s)" "lru (wakeup ch s) = lru s"
  using wakeup_rest [of ch s] by auto

lemma free_desc_taken:
  assumes "free_desc i s = Some t" "i < length (vfree s)"
  shows "descs_taken t < descs_taken s"
proof -
  have f: "\<not> vfree s ! i" "vfree t = (vfree s)[i := True]" using assms(1) by (auto simp: free_desc_def split: if_splits)
  have "vfree s = take i (vfree s) @ False # drop (Suc i) (vfree s)" using id_take_nth_drop [OF assms(2)] f(1) by simp
  then have "filter Not (vfree s) = filter Not (take i (vfree s)) @ False # filter Not (drop (Suc i) (vfree s))"
    by (metis filter.simps(2) filter_append)
  moreover have "vfree t = take i (vfree s) @ True # drop (Suc i) (vfree s)" using f(2) assms(2) by (simp add: upd_conv_take_nth_drop)
  ultimately show ?thesis by (simp add: descs_taken_def)
qed

text \<open>The array \<open>free\<close> has \<open>NUM\<close> entries; the recursion is for such states.\<close>

function free_chain :: "nat \<Rightarrow> 'a vdisk_scheme \<Rightarrow> 'a vdisk_scheme option" where
  "free_chain i s =
     (if length (vfree s) < NUM then None
      else let flag = vd_flags (vq_desc s ! i); nxt = unat (vd_next (vq_desc s ! i)) in
        case free_desc i s of
          None \<Rightarrow> None
        | Some t \<Rightarrow> if flag AND VRING_DESC_F_NEXT \<noteq> 0 then free_chain nxt t else Some t)"
  by pat_completeness auto
termination
proof (relation "measure (\<lambda>(i, s). descs_taken s)", simp)
  fix i flag nxt and s t :: "'a vdisk_scheme"
  assume "\<not> length (vfree s) < NUM" "free_desc i s = Some t"
  then have "descs_taken t < descs_taken s" by (intro free_desc_taken) (auto simp: free_desc_def split: if_splits)
  then show "((nxt, t), i, s) \<in> measure (\<lambda>(i, s). descs_taken s)" by simp
qed

declare free_chain.simps [simp del]

fun free_descs :: "nat list \<Rightarrow> 'a vdisk_scheme \<Rightarrow> 'a vdisk_scheme option" where
  "free_descs [] s = Some s"
| "free_descs (j # js) s = Option.bind (free_desc j s) (free_descs js)"

text \<open>\<open>Some None\<close> is the result -1.\<close>

fun alloc3_loop :: "nat \<Rightarrow> nat list \<Rightarrow> 'a vdisk_scheme \<Rightarrow> (nat list option \<times> 'a vdisk_scheme) option" where
  "alloc3_loop 0 idx s = Some (Some idx, s)"
| "alloc3_loop (Suc n) idx s =
     (case alloc_desc s of
        (Some i, s) \<Rightarrow> alloc3_loop n (idx @ [i]) s
      | (None, s) \<Rightarrow> do { s \<leftarrow> free_descs idx s; Some (None, s) })"

definition alloc3_desc :: "'a vdisk_scheme \<Rightarrow> (nat list option \<times> 'a vdisk_scheme) option" where
  "alloc3_desc s = alloc3_loop 3 [] s"

subsection \<open>Requests\<close>

datatype vwait = Finished | Wait_desc nat bool | Wait_disk nat bool nat

definition virtio_format :: "nat \<Rightarrow> bool \<Rightarrow> nat \<Rightarrow> nat \<Rightarrow> nat \<Rightarrow> 'a vdisk_scheme \<Rightarrow> 'a vdisk_scheme" where
  "virtio_format i write d0 d1 d2 s =
     (let sector = ucast (b_blockno (bufs s ! i) * 2) in
      s\<lparr>vops := (vops s)[d0 := \<lparr>vr_type = if write then VIRTIO_BLK_T_OUT else VIRTIO_BLK_T_IN, vr_reserved = 0, vr_sector = sector\<rparr>],
        vq_desc := (vq_desc s)
          [d0 := \<lparr>vd_addr = Op_addr d0, vd_len = 16, vd_flags = VRING_DESC_F_NEXT, vd_next = of_nat d1\<rparr>,
           d1 := \<lparr>vd_addr = Data_addr i, vd_len = of_nat BSIZE,
                   vd_flags = (if write then 0 else VRING_DESC_F_WRITE) OR VRING_DESC_F_NEXT, vd_next = of_nat d2\<rparr>,
           d2 := \<lparr>vd_addr = Status_addr d0, vd_len = 1, vd_flags = VRING_DESC_F_WRITE, vd_next = 0\<rparr>],
        info_status := (info_status s)[d0 := 0xff],
        b_disk := (b_disk s)[i := True],
        info_b := (info_b s)[d0 := Some i]\<rparr>)"

text \<open>
  The request goes into the available ring; then the register \<open>QUEUE_NOTIFY\<close> is written
  with the number of the queue.  \<open>notified\<close> lists these writes; the device is not held to wait
  for them, it may read the ring as soon as the index has moved.
\<close>

definition virtio_publish :: "nat \<Rightarrow> 'a vdisk_scheme \<Rightarrow> 'a vdisk_scheme" where
  "virtio_publish d0 s = s\<lparr>avail_ring := (avail_ring s)[unat (avail_idx s) mod NUM := of_nat d0], avail_idx := avail_idx s + 1,
     notified := notified s @ [0]\<rparr>"

definition virtio_wait :: "nat \<Rightarrow> bool \<Rightarrow> nat \<Rightarrow> 'a vdisk_scheme \<Rightarrow> (vwait \<times> 'a vdisk_scheme) option" where
  "virtio_wait i write d0 s =
     (if b_disk s ! i then do { s \<leftarrow> sleep (ChDisk i) s; Some (Wait_disk i write d0, s) }
      else do {
        s \<leftarrow> free_chain d0 (s\<lparr>info_b := (info_b s)[d0 := None]\<rparr>);
        Some (Finished, s)
      })"

definition virtio_rw :: "nat \<Rightarrow> bool \<Rightarrow> 'a vdisk_scheme \<Rightarrow> (vwait \<times> 'a vdisk_scheme) option" where
  "virtio_rw i write s = do {
     (idx, s) \<leftarrow> alloc3_desc s;
     case idx of
       None \<Rightarrow> do { s \<leftarrow> sleep ChDiskFree s; Some (Wait_desc i write, s) }
     | Some ds \<Rightarrow> virtio_wait i write (ds ! 0) (virtio_publish (ds ! 0) (virtio_format i write (ds ! 0) (ds ! 1) (ds ! 2) s))
   }"

text \<open>A process that is dispatched again goes on where it slept.\<close>

definition virtio_resume :: "nat \<Rightarrow> vwait \<Rightarrow> 'a vdisk_scheme \<Rightarrow> (vwait \<times> 'a vdisk_scheme) option" where
  "virtio_resume p w s =
     (let s = wake p (dispatch p s) in
      case w of
        Finished \<Rightarrow> Some (Finished, s)
      | Wait_desc i write \<Rightarrow> virtio_rw i write s
      | Wait_disk i write d0 \<Rightarrow> virtio_wait i write d0 s)"

text \<open>The interrupt handler; the 16-bit counters run freely.\<close>

definition intr_one :: "'a vdisk_scheme \<Rightarrow> 'a vdisk_scheme option" where
  "intr_one s =
     (let id = unat (used_ring s ! (unat (used_idx s) mod NUM)) in
      if \<not> id < NUM then None
      else if info_status s ! id \<noteq> 0 then None
      else case info_b s ! id of
        None \<Rightarrow> None
      | Some b \<Rightarrow> Some ((wakeup (ChDisk b) (s\<lparr>b_disk := (b_disk s)[b := False]\<rparr>))\<lparr>used_idx := used_idx s + 1\<rparr>))"

lemma intr_one_counters: "intr_one s = Some t \<Longrightarrow> used_hw t = used_hw s \<and> used_idx t = used_idx s + 1"
  by (auto simp: intr_one_def Let_def split: if_splits option.splits)

lemma count_down: "(a :: u16) \<noteq> b \<Longrightarrow> unat (b - (a + 1)) < unat (b - a)"
proof -
  assume "a \<noteq> b"
  then have "b - a \<noteq> 0" by simp
  then have "unat (b - a - 1) = unat (b - a) - 1" "0 < unat (b - a)" by (simp_all add: unat_minus_one unat_gt_0)
  then show ?thesis by (simp add: algebra_simps)
qed

function virtio_disk_intr :: "'a vdisk_scheme \<Rightarrow> 'a vdisk_scheme option" where
  "virtio_disk_intr s =
     (if used_idx s = used_hw s then Some s
      else case intr_one s of None \<Rightarrow> None | Some t \<Rightarrow> virtio_disk_intr t)"
  by pat_completeness auto
termination
  by (relation "measure (\<lambda>s. unat (used_hw s - used_idx s))") (auto dest!: intr_one_counters intro: count_down)

declare virtio_disk_intr.simps [simp del]

subsection \<open>The device\<close>

text \<open>
  The request that the chain of descriptors from \<open>h\<close> on describes: the buffer, whether it is
  written to the disk, the block, and where the status goes.
\<close>

definition request_at :: "nat \<Rightarrow> 'a vdisk_scheme \<Rightarrow> (nat \<times> bool \<times> u32 \<times> nat) option" where
  "request_at h s =
     (let d0 = vq_desc s ! h; d1 = vq_desc s ! unat (vd_next d0); d2 = vq_desc s ! unat (vd_next d1) in
      case (vd_addr d0, vd_addr d1, vd_addr d2) of
        (Op_addr k, Data_addr i, Status_addr m) \<Rightarrow>
          (let r = vops s ! k; write = (vr_type r = VIRTIO_BLK_T_OUT) in
           if h < NUM \<and> unat (vd_next d0) < NUM \<and> unat (vd_next d1) < NUM \<and> k < NUM \<and> m < NUM \<and> i < length (bufs s) \<and>
             vd_len d0 = 16 \<and> vd_len d1 = of_nat BSIZE \<and> vd_len d2 = 1 \<and>
             vd_flags d0 = VRING_DESC_F_NEXT \<and> vd_flags d1 = (if write then 0 else VRING_DESC_F_WRITE) OR VRING_DESC_F_NEXT \<and>
             vd_flags d2 = VRING_DESC_F_WRITE \<and> vr_type r \<in> {VIRTIO_BLK_T_IN, VIRTIO_BLK_T_OUT} \<and> \<not> bit (vr_sector r) 0
           then Some (i, write, ucast (drop_bit 1 (vr_sector r)), m)
           else None)
      | _ \<Rightarrow> None)"

definition transfer :: "nat \<Rightarrow> bool \<Rightarrow> u32 \<Rightarrow> 'a vdisk_scheme \<Rightarrow> 'a vdisk_scheme" where
  "transfer i write bn s =
     (if write then s\<lparr>disk := (disk s)(bn := b_data (bufs s ! i)), disk_log := disk_log s @ [(bn, b_data (bufs s ! i))]\<rparr>
      else bset i (\<lambda>b. b\<lparr>b_data := disk s bn\<rparr>) s)"

definition device_take :: "'a vdisk_scheme \<Rightarrow> 'a vdisk_scheme" where
  "device_take s = s\<lparr>dev_taken := dev_taken s @ [unat (avail_ring s ! (unat (dev_avail s) mod NUM))], dev_avail := dev_avail s + 1\<rparr>"

definition device_done :: "nat \<Rightarrow> nat \<Rightarrow> 'a vdisk_scheme \<Rightarrow> 'a vdisk_scheme" where
  "device_done h m s = s\<lparr>info_status := (info_status s)[m := 0], dev_taken := remove1 h (dev_taken s),
     used_ring := (used_ring s)[unat (used_hw s) mod NUM := of_nat h], used_hw := used_hw s + 1\<rparr>"

inductive device_may :: "'a vdisk_scheme \<Rightarrow> 'a vdisk_scheme \<Rightarrow> bool" where
  take_next: "dev_avail s \<noteq> avail_idx s \<Longrightarrow> device_may s (device_take s)"
| carry_out: "h \<in> set (dev_taken s) \<Longrightarrow> request_at h s = Some (i, write, bn, m) \<Longrightarrow> device_may s (device_done h m (transfer i write bn s))"
| malformed: "h \<in> set (dev_taken s) \<Longrightarrow> request_at h s = None \<Longrightarrow> device_may s t"

end
