(* ===== verification/VirtioInv.thy ===== *)
theory VirtioInv
  imports Virtio Fifo
begin

section \<open>The invariant of the disk driver\<close>

text \<open>
  The driver, the processes that call it, the interrupt handler and the device run interleaved.  The
  invariant follows every request through the available ring, the device and the used ring; both
  rings are instances of the interface \<open>fifo\<close>.  \<open>reqs\<close> is about the descriptors of the
  requests, \<open>queues\<close> about where the requests are.
\<close>

subsection \<open>The rings\<close>

type_synonym 'a vring = "'a list \<times> u16 \<times> u16"

fun ring_items :: "'a vring \<Rightarrow> 'a list" where
  "ring_items (r, lo, hi) = map (\<lambda>j. r ! ((unat lo + j) mod NUM)) [0..<unat (hi - lo)]"

fun ring_wf :: "'a vring \<Rightarrow> bool" where
  "ring_wf (r, lo, hi) \<longleftrightarrow> length r = NUM \<and> unat (hi - lo) \<le> NUM"

fun ring_push :: "'a \<Rightarrow> 'a vring \<Rightarrow> 'a vring" where
  "ring_push v (r, lo, hi) = (r[unat hi mod NUM := v], lo, hi + 1)"

fun ring_pop :: "'a vring \<Rightarrow> 'a \<times> 'a vring" where
  "ring_pop (r, lo, hi) = (r ! (unat lo mod NUM), (r, lo + 1, hi))"

lemma mod_NUM: "unat (a + of_nat j) mod NUM = (unat (a :: u16) + j) mod NUM"
proof -
  have "unat (a + of_nat j) = (unat a + j) mod 2 ^ 16" by (simp add: unat_word_ariths unat_of_nat mod_add_right_eq)
  moreover have "(unat a + j) mod 2 ^ 16 mod 8 = (unat a + j) mod 8" by (rule mod_mod_cancel) simp
  ultimately show ?thesis by (simp add: NUM_def)
qed

lemma ring_push_items:
  assumes "ring_wf s" "length (ring_items s) < NUM"
  shows "ring_wf (ring_push v s)" "ring_items (ring_push v s) = ring_items s @ [v]"
proof -
  obtain r lo hi where s: "s = (r, lo, hi)" by (cases s)
  let ?n = "unat (hi - lo)"
  have n8: "?n < 8" "length r = 8" using assms s by (simp_all add: NUM_def)
  have n: "unat (hi + 1 - lo) = Suc ?n"
  proof -
    have "unat (hi - lo + 1) = Suc ?n" using n8 by (simp add: unat_plus_if')
    then show ?thesis by (simp add: algebra_simps)
  qed
  have w: "unat hi mod NUM = (unat lo + ?n) mod NUM" using mod_NUM [of lo ?n] by simp
  have ne: "(unat lo + ?n) mod NUM \<noteq> (unat lo + i) mod NUM" if "i < ?n" for i
  proof
    assume "(unat lo + ?n) mod NUM = (unat lo + i) mod NUM"
    then have "NUM dvd (unat lo + ?n) - (unat lo + i)" using that by (subst mod_eq_dvd_iff_nat [symmetric]) simp_all
    then have "8 dvd ?n - i" by (simp add: NUM_def)
    then show False using that n8 by (auto dest: dvd_imp_le)
  qed
  show "ring_wf (ring_push v s)" using assms s n by (simp add: NUM_def)
  show "ring_items (ring_push v s) = ring_items s @ [v]"
    unfolding s ring_push.simps ring_items.simps n w using ne n8 by (auto simp: NUM_def)
qed

lemma ring_pop_items:
  assumes "ring_wf s" "ring_items s \<noteq> []"
  shows "ring_wf (snd (ring_pop s))" "ring_items s = fst (ring_pop s) # ring_items (snd (ring_pop s))"
proof -
  obtain r lo hi where s: "s = (r, lo, hi)" by (cases s)
  let ?n = "unat (hi - lo)"
  obtain m where m: "?n = Suc m" using assms s by (cases ?n) auto
  have "hi - lo \<noteq> 0" using m by auto
  then have "unat (hi - lo - 1) = ?n - 1" by (intro unat_minus_one)
  then have n: "unat (hi - (lo + 1)) = m" using m by (simp add: algebra_simps)
  show "ring_wf (snd (ring_pop s))" using assms(1) s n m by simp
  have i: "(unat (lo + 1) + j) mod NUM = (unat lo + Suc j) mod NUM" for j
    using mod_NUM [of lo 1] by (metis add_Suc_right add_Suc_shift mod_add_left_eq Suc_eq_plus1 of_nat_1)
  show "ring_items s = fst (ring_pop s) # ring_items (snd (ring_pop s))"
    unfolding s ring_pop.simps ring_items.simps fst_conv snd_conv n m i
    by (simp add: upt_conv_Cons map_Suc_upt [symmetric] del: upt_Suc)
qed

interpretation vring: fifo ring_wf ring_items NUM ring_push ring_pop
proof
  show "ring_wf s \<Longrightarrow> length (ring_items s) \<le> NUM" for s :: "'a vring" by (cases s) simp
qed (simp_all add: ring_push_items ring_pop_items(1), (simp add: ring_pop_items(2))+)

abbreviation avail_q :: "'a vdisk_scheme \<Rightarrow> u16 vring" where
  "avail_q s \<equiv> (avail_ring s, dev_avail s, avail_idx s)"

abbreviation used_q :: "'a vdisk_scheme \<Rightarrow> u32 vring" where
  "used_q s \<equiv> (used_ring s, used_idx s, used_hw s)"

lemma ring_empty: "ring_items (r, lo, hi) = [] \<longleftrightarrow> lo = hi"
  by (auto simp: unat_eq_0)

declare ring_items.simps [simp del]

subsection \<open>The system\<close>

primrec wait_buf :: "vwait \<Rightarrow> nat option" where
  "wait_buf Finished = None"
| "wait_buf (Wait_desc i w) = Some i"
| "wait_buf (Wait_disk i w d) = Some i"

type_synonym 'a vconf = "'a vdisk_scheme \<times> (nat \<Rightarrow> vwait)"

text \<open>
  A process calls the driver for a buffer it has locked, so that no other call has it; it is
  dispatched again once it has been made runnable, which \<open>kkill\<close> may do, too.  Buffers
  that no call has are filled by their holders.  Every step has a label that says who acts.
\<close>

datatype vaction = Calls nat nat bool | Resumes nat | Kicks nat | Fills nat | Interrupts | Device_acts

inductive vstep :: "('a vdisk_scheme \<Rightarrow> 'a vdisk_scheme \<Rightarrow> bool) \<Rightarrow> vaction \<Rightarrow> 'a vconf \<Rightarrow> 'a vconf \<Rightarrow> bool" for dev where
  call: "p < NPROC \<Longrightarrow> ph p = Finished \<Longrightarrow> p_state (pget p s) \<noteq> SLEEPING \<Longrightarrow> i < length (bufs s) \<Longrightarrow>
    b_blockno (bufs s ! i) < 2 ^ 31 \<Longrightarrow>
    \<forall>q. wait_buf (ph q) \<noteq> Some i \<Longrightarrow> virtio_rw i w (dispatch p s) = Some (x, t) \<Longrightarrow>
    vstep dev (Calls p i w) (s, ph) (t, ph(p := x))"
| resume: "p < NPROC \<Longrightarrow> ph p \<noteq> Finished \<Longrightarrow> p_state (pget p s) = RUNNABLE \<Longrightarrow>
    virtio_resume p (ph p) s = Some (x, t) \<Longrightarrow> vstep dev (Resumes p) (s, ph) (t, ph(p := x))"
| kick: "p < NPROC \<Longrightarrow>
    vstep dev (Kicks p) (s, ph) (pset p (\<lambda>q. if p_state q = SLEEPING then q\<lparr>p_state := RUNNABLE\<rparr> else q) s, ph)"
| fill: "\<forall>q. wait_buf (ph q) \<noteq> Some i \<Longrightarrow> vstep dev (Fills i) (s, ph) (bset i (\<lambda>_. b) s, ph)"
| intr: "virtio_disk_intr s = Some t \<Longrightarrow> vstep dev Interrupts (s, ph) (t, ph)"
| device: "dev s t \<Longrightarrow> vstep dev Device_acts (s, ph) (t, ph)"

definition vstart :: "'a vdisk_scheme \<Rightarrow> bool" where
  "vstart s \<longleftrightarrow> vq_desc s = replicate NUM zero_desc \<and> length (avail_ring s) = NUM \<and> avail_idx s = 0 \<and>
     length (used_ring s) = NUM \<and> used_hw s = 0 \<and> used_idx s = 0 \<and> vfree s = replicate NUM True \<and>
     length (info_b s) = NUM \<and> length (info_status s) = NUM \<and> length (vops s) = NUM \<and>
     b_disk s = replicate (length (bufs s)) False \<and> dev_avail s = 0 \<and> dev_taken s = [] \<and> length (procs s) = NPROC \<and> cur s = None \<and>
     (\<forall>q<NPROC. p_state (pget q s) \<noteq> SLEEPING)"

inductive vreach :: "('a vdisk_scheme \<Rightarrow> 'a vdisk_scheme \<Rightarrow> bool) \<Rightarrow> 'a vconf \<Rightarrow> bool" for dev where
  init: "vstart s \<Longrightarrow> vreach dev (s, \<lambda>_. Finished)"
| step: "vreach dev c \<Longrightarrow> vstep dev l c d \<Longrightarrow> vreach dev d"

subsection \<open>Requests in the driver\<close>

definition nx :: "'a vdisk_scheme \<Rightarrow> nat \<Rightarrow> nat" where
  "nx s d = unat (vd_next (vq_desc s ! d))"

definition own :: "'a vdisk_scheme \<Rightarrow> nat \<Rightarrow> nat set" where
  "own s d = {d, nx s d, nx s (nx s d)}"

definition req_ok :: "'a vdisk_scheme \<Rightarrow> nat \<Rightarrow> bool \<Rightarrow> nat \<Rightarrow> bool" where
  "req_ok s i w d \<longleftrightarrow> (\<exists>d1 d2. d < NUM \<and> d1 < NUM \<and> d2 < NUM \<and> d \<noteq> d1 \<and> d \<noteq> d2 \<and> d1 \<noteq> d2 \<and>
     \<not> vfree s ! d \<and> \<not> vfree s ! d1 \<and> \<not> vfree s ! d2 \<and>
     vq_desc s ! d = \<lparr>vd_addr = Op_addr d, vd_len = 16, vd_flags = VRING_DESC_F_NEXT, vd_next = of_nat d1\<rparr> \<and>
     vq_desc s ! d1 = \<lparr>vd_addr = Data_addr i, vd_len = of_nat BSIZE,
        vd_flags = (if w then 0 else VRING_DESC_F_WRITE) OR VRING_DESC_F_NEXT, vd_next = of_nat d2\<rparr> \<and>
     vq_desc s ! d2 = \<lparr>vd_addr = Status_addr d, vd_len = 1, vd_flags = VRING_DESC_F_WRITE, vd_next = 0\<rparr> \<and>
     info_b s ! d = Some i \<and>
     vops s ! d = \<lparr>vr_type = if w then VIRTIO_BLK_T_OUT else VIRTIO_BLK_T_IN, vr_reserved = 0,
        vr_sector = ucast (b_blockno (bufs s ! i) * 2)\<rparr> \<and>
     i < length (bufs s))"

lemma small_u16: "d < NUM \<Longrightarrow> unat (of_nat d :: u16) = d"
  by (simp add: NUM_def unat_of_nat take_bit_nat_eq_self)

lemma small_u32: "d < NUM \<Longrightarrow> unat (of_nat d :: u32) = d"
  by (simp add: NUM_def unat_of_nat take_bit_nat_eq_self)

lemma req_okE:
  assumes "req_ok s i w d"
  obtains d1 d2 where "d < NUM" "d1 < NUM" "d2 < NUM" "d \<noteq> d1" "d \<noteq> d2" "d1 \<noteq> d2"
    "\<not> vfree s ! d" "\<not> vfree s ! d1" "\<not> vfree s ! d2" "nx s d = d1" "nx s d1 = d2"
    "vq_desc s ! d = \<lparr>vd_addr = Op_addr d, vd_len = 16, vd_flags = VRING_DESC_F_NEXT, vd_next = of_nat d1\<rparr>"
    "vq_desc s ! d1 = \<lparr>vd_addr = Data_addr i, vd_len = of_nat BSIZE,
        vd_flags = (if w then 0 else VRING_DESC_F_WRITE) OR VRING_DESC_F_NEXT, vd_next = of_nat d2\<rparr>"
    "vq_desc s ! d2 = \<lparr>vd_addr = Status_addr d, vd_len = 1, vd_flags = VRING_DESC_F_WRITE, vd_next = 0\<rparr>"
    "info_b s ! d = Some i" "i < length (bufs s)"
    "vops s ! d = \<lparr>vr_type = if w then VIRTIO_BLK_T_OUT else VIRTIO_BLK_T_IN, vr_reserved = 0,
        vr_sector = ucast (b_blockno (bufs s ! i) * 2)\<rparr>" "own s d = {d, d1, d2}"
  using assms unfolding req_ok_def nx_def own_def by (auto simp: small_u16)

lemma req_own: "req_ok s i w d \<Longrightarrow> x \<in> own s d \<Longrightarrow> x < NUM \<and> \<not> vfree s ! x"
  by (erule req_okE) auto

lemma req_head: "req_ok s i w d \<Longrightarrow> d < NUM \<and> \<not> vfree s ! d \<and> d \<in> own s d"
  by (erule req_okE) auto

text \<open>A request is not disturbed by what happens elsewhere.\<close>

lemma req_frame:
  assumes "req_ok s i w d" "\<forall>x\<in>own s d. vq_desc t ! x = vq_desc s ! x \<and> vfree t ! x = vfree s ! x"
    and "info_b t ! d = info_b s ! d" "vops t ! d = vops s ! d" "length (bufs t) = length (bufs s)"
    and "b_blockno (bufs t ! i) = b_blockno (bufs s ! i)"
  shows "req_ok t i w d" "own t d = own s d"
proof -
  from assms(1) obtain d1 d2 where r: "own s d = {d, d1, d2}" "nx s d = d1" "nx s d1 = d2" by (elim req_okE) blast
  have n: "nx t d = d1" "nx t d1 = d2" using assms(2) r by (simp_all add: nx_def)
  then show "own t d = own s d" using r by (simp add: own_def)
  have "vq_desc t ! d = vq_desc s ! d" "vq_desc t ! d1 = vq_desc s ! d1" "vq_desc t ! d2 = vq_desc s ! d2"
    "vfree t ! d = vfree s ! d" "vfree t ! d1 = vfree s ! d1" "vfree t ! d2 = vfree s ! d2"
    using assms(2) r by simp_all
  moreover obtain e1 e2 where e: "e1 < NUM" "e2 < NUM" "d < NUM" "d \<noteq> e1" "d \<noteq> e2" "e1 \<noteq> e2"
    "\<not> vfree s ! d" "\<not> vfree s ! e1" "\<not> vfree s ! e2" "nx s d = e1" "nx s e1 = e2"
    "vq_desc s ! d = \<lparr>vd_addr = Op_addr d, vd_len = 16, vd_flags = VRING_DESC_F_NEXT, vd_next = of_nat e1\<rparr>"
    "vq_desc s ! e1 = \<lparr>vd_addr = Data_addr i, vd_len = of_nat BSIZE,
        vd_flags = (if w then 0 else VRING_DESC_F_WRITE) OR VRING_DESC_F_NEXT, vd_next = of_nat e2\<rparr>"
    "vq_desc s ! e2 = \<lparr>vd_addr = Status_addr d, vd_len = 1, vd_flags = VRING_DESC_F_WRITE, vd_next = 0\<rparr>"
    "info_b s ! d = Some i" "i < length (bufs s)"
    "vops s ! d = \<lparr>vr_type = if w then VIRTIO_BLK_T_OUT else VIRTIO_BLK_T_IN, vr_reserved = 0,
        vr_sector = ucast (b_blockno (bufs s ! i) * 2)\<rparr>"
    using assms(1) by (elim req_okE) blast
  ultimately show "req_ok t i w d"
    unfolding req_ok_def using r assms(3-6) by (intro exI [of _ e1] exI [of _ e2]) simp
qed

text \<open>The device decodes it as what was asked for.\<close>

lemma sector_block: "b < 2 ^ 31 \<Longrightarrow> ucast (drop_bit 1 (ucast (b * 2 :: u32) :: u64)) = b"
proof -
  assume "b < 2 ^ 31"
  then have "uint b < 2 ^ 31" by (simp add: word_less_alt)
  then have "uint (b * 2) = uint b * 2" by (simp add: uint_word_ariths)
  moreover have "uint (ucast (drop_bit 1 (ucast (b * 2) :: u64)) :: u32) = uint (b * 2) div 2"
  proof -
    have "uint (drop_bit 1 (ucast (b * 2) :: u64)) = uint (b * 2) div 2"
    proof -
      have "uint (drop_bit 1 (ucast (b * 2) :: u64)) = drop_bit 1 (take_bit 64 (uint (ucast (b * 2) :: u64)))"
        by (subst unsigned_drop_bit_eq) simp
      also have "uint (ucast (b * 2) :: u64) = uint (b * 2)" by (rule uint_up_ucast) (simp add: is_up)
      finally show ?thesis using uint_lt2p [of "b * 2"] by (simp add: drop_bit_eq_div take_bit_eq_mod mod_pos_pos_trivial)
    qed
    moreover have "uint (b * 2) div 2 < 2 ^ 32" "0 \<le> uint (b * 2) div 2" using uint_lt2p [of "b * 2"] by simp_all
    ultimately show ?thesis by (simp only: unsigned_ucast_eq take_bit_eq_mod) simp
  qed
  ultimately have "uint (ucast (drop_bit 1 (ucast (b * 2) :: u64)) :: u32) = uint b" by simp
  then show ?thesis by (simp only: word_uint_eq_iff)
qed

lemma request_decoded:
  assumes "req_ok s i w d" "b_blockno (bufs s ! i) < 2 ^ 31"
  shows "request_at d s = Some (i, w, b_blockno (bufs s ! i), d)"
proof -
  have b: "\<not> bit (ucast (b_blockno (bufs s ! i) * 2) :: u64) 0"
    unfolding bit_ucast_iff by (simp add: bit_0)
  from assms(1) obtain d1 d2 where r: "d < NUM" "d1 < NUM" "d2 < NUM" "i < length (bufs s)"
    "vq_desc s ! d = \<lparr>vd_addr = Op_addr d, vd_len = 16, vd_flags = VRING_DESC_F_NEXT, vd_next = of_nat d1\<rparr>"
    "vq_desc s ! d1 = \<lparr>vd_addr = Data_addr i, vd_len = of_nat BSIZE,
        vd_flags = (if w then 0 else VRING_DESC_F_WRITE) OR VRING_DESC_F_NEXT, vd_next = of_nat d2\<rparr>"
    "vq_desc s ! d2 = \<lparr>vd_addr = Status_addr d, vd_len = 1, vd_flags = VRING_DESC_F_WRITE, vd_next = 0\<rparr>"
    "vops s ! d = \<lparr>vr_type = if w then VIRTIO_BLK_T_OUT else VIRTIO_BLK_T_IN, vr_reserved = 0,
        vr_sector = ucast (b_blockno (bufs s ! i) * 2)\<rparr>" by (elim req_okE) blast
  have t: "(if w then VIRTIO_BLK_T_OUT else VIRTIO_BLK_T_IN) = VIRTIO_BLK_T_OUT \<longleftrightarrow> w"
    by (simp add: VIRTIO_BLK_T_OUT_def VIRTIO_BLK_T_IN_def)
  show ?thesis unfolding request_at_def Let_def
    using r b t sector_block [OF assms(2)] by (simp add: small_u16)
qed

text \<open>Its descriptors are freed without a panic.\<close>

lemma free_desc_ok: "i < NUM \<Longrightarrow> \<not> vfree s ! i \<Longrightarrow>
  free_desc i s = Some (wakeup ChDiskFree (s\<lparr>vq_desc := (vq_desc s)[i := zero_desc], vfree := (vfree s)[i := True]\<rparr>))"
  by (simp add: free_desc_def)

definition rest_same :: "'a vdisk_scheme \<Rightarrow> 'a vdisk_scheme \<Rightarrow> bool" where
  "rest_same s t \<longleftrightarrow> avail_q t = avail_q s \<and> used_q t = used_q s \<and> info_b t = info_b s \<and> info_status t = info_status s \<and>
     vops t = vops s \<and> b_disk t = b_disk s \<and> dev_taken t = dev_taken s \<and> bufs t = bufs s \<and> disk t = disk s \<and> disk_log t = disk_log s \<and>
     cur t = cur s \<and> length (procs t) = length (procs s) \<and> length (vq_desc t) = length (vq_desc s) \<and> length (vfree t) = length (vfree s)"

lemma rest_same_refl [simp]: "rest_same s s"
  by (simp add: rest_same_def)

lemma rest_same_trans: "rest_same s t \<Longrightarrow> rest_same t u \<Longrightarrow> rest_same s u"
  by (simp add: rest_same_def)

text \<open>Freeing a set of descriptors: what it does to them and to the processes.\<close>

definition freed :: "nat set \<Rightarrow> 'a vdisk_scheme \<Rightarrow> 'a vdisk_scheme \<Rightarrow> bool" where
  "freed D s t \<longleftrightarrow> rest_same s t \<and>
     (\<forall>x<NUM. vq_desc t ! x = (if x \<in> D then zero_desc else vq_desc s ! x) \<and> vfree t ! x = (x \<in> D \<or> vfree s ! x)) \<and>
     (\<forall>q<NPROC. pget q t = pget q s \<or> p_state (pget q t) \<noteq> SLEEPING) \<and>
     (D \<noteq> {} \<longrightarrow> (\<forall>q<NPROC. cur s \<noteq> Some q \<longrightarrow> p_state (pget q t) = SLEEPING \<longrightarrow> p_chan (pget q t) \<noteq> Some ChDiskFree))"

lemma freed_one:
  assumes "i < NUM" "\<not> vfree s ! i" "length (vq_desc s) = NUM" "length (vfree s) = NUM" "length (procs s) = NPROC"
  shows "\<exists>t. free_desc i s = Some t \<and> freed {i} s t"
  unfolding free_desc_ok [OF assms(1,2)] freed_def rest_same_def
  using assms by (auto simp: nth_list_update wakeup_spec)

lemma freed_trans:
  assumes "freed D s t" "freed E t u" "length (procs s) = NPROC"
  shows "freed (D \<union> E) s u"
proof -
  have r: "rest_same s u" using assms(1,2) unfolding freed_def by (blast intro: rest_same_trans)
  have c: "cur t = cur s" using assms(1) by (simp add: freed_def rest_same_def)
  have f: "\<forall>x<NUM. vq_desc u ! x = (if x \<in> D \<union> E then zero_desc else vq_desc s ! x) \<and> vfree u ! x = (x \<in> D \<union> E \<or> vfree s ! x)"
    using assms(1,2) unfolding freed_def by auto
  have p: "pget q u = pget q s \<or> p_state (pget q u) \<noteq> SLEEPING" if "q < NPROC" for q
    using assms(1,2) that unfolding freed_def by metis
  have w: "p_chan (pget q u) \<noteq> Some ChDiskFree"
    if "D \<union> E \<noteq> {}" "q < NPROC" "cur s \<noteq> Some q" "p_state (pget q u) = SLEEPING" for q
    using assms(1,2) that c unfolding freed_def by (metis Un_empty)
  show ?thesis unfolding freed_def using r f p w by blast
qed

lemma freed_lengths: "freed D s t \<Longrightarrow> length (vq_desc t) = length (vq_desc s) \<and> length (vfree t) = length (vfree s) \<and> length (procs t) = length (procs s)"
  by (simp add: freed_def rest_same_def)

lemma free_three:
  assumes r: "d < NUM" "d1 < NUM" "d2 < NUM" "d \<noteq> d1" "d \<noteq> d2" "d1 \<noteq> d2"
    "\<not> vfree s ! d" "\<not> vfree s ! d1" "\<not> vfree s ! d2" "nx s d = d1" "nx s d1 = d2"
    "vd_flags (vq_desc s ! d) = VRING_DESC_F_NEXT" "vd_flags (vq_desc s ! d1) = (if w then 0 else VRING_DESC_F_WRITE) OR VRING_DESC_F_NEXT"
    "vd_flags (vq_desc s ! d2) = VRING_DESC_F_WRITE" "own s d = {d, d1, d2}"
    and len: "length (vq_desc s) = NUM" "length (vfree s) = NUM" "length (procs s) = NPROC"
  shows "\<exists>t. free_chain d s = Some t \<and> freed (own s d) s t"
proof -
  obtain t1 where t1: "free_desc d s = Some t1" "freed {d} s t1" using freed_one [OF r(1,7) len] by blast
  have l1: "length (vq_desc t1) = NUM" "length (vfree t1) = NUM" "length (procs t1) = NPROC" using freed_lengths [OF t1(2)] len by simp_all
  have a1: "vq_desc t1 ! d1 = vq_desc s ! d1" "vq_desc t1 ! d2 = vq_desc s ! d2" "\<not> vfree t1 ! d1" "\<not> vfree t1 ! d2"
    using t1(2) r unfolding freed_def by simp_all
  obtain t2 where t2: "free_desc d1 t1 = Some t2" "freed {d1} t1 t2" using freed_one [OF r(2) a1(3) l1] by blast
  have l2: "length (vq_desc t2) = NUM" "length (vfree t2) = NUM" "length (procs t2) = NPROC" using freed_lengths [OF t2(2)] l1 by simp_all
  have a2: "vq_desc t2 ! d2 = vq_desc s ! d2" "\<not> vfree t2 ! d2" using t2(2) r a1 unfolding freed_def by simp_all
  obtain t3 where t3: "free_desc d2 t2 = Some t3" "freed {d2} t2 t3" using freed_one [OF r(3) a2(2) l2] by blast
  have fl: "VRING_DESC_F_NEXT \<noteq> 0" "(if w then 0 else VRING_DESC_F_WRITE) OR VRING_DESC_F_NEXT \<noteq> 0"
    "((if w then 0 else VRING_DESC_F_WRITE) OR VRING_DESC_F_NEXT) AND VRING_DESC_F_NEXT \<noteq> 0" "VRING_DESC_F_WRITE AND VRING_DESC_F_NEXT = 0"
    by (simp_all add: VRING_DESC_F_NEXT_def VRING_DESC_F_WRITE_def)
  have n: "unat (vd_next (vq_desc s ! d)) = d1" "unat (vd_next (vq_desc s ! d1)) = d2" using r(10,11) by (simp_all add: nx_def)
  have "free_chain d2 t2 = Some t3"
    by (subst free_chain.simps) (simp add: l2 t3(1) a2 r(14) fl)
  then have "free_chain d1 t1 = Some t3"
    by (subst free_chain.simps) (simp add: l1 t2(1) a1 r(13) fl n)
  then have "free_chain d s = Some t3"
    by (subst free_chain.simps) (simp add: len(2) t1(1) r(12) fl n)
  moreover have "freed (own s d) s t3"
    using freed_trans [OF freed_trans [OF t1(2) t2(2)] t3(2)] len(3) r(15) by (simp add: insert_commute)
  ultimately show ?thesis by blast
qed

subsection \<open>Allocating descriptors\<close>

definition free_set :: "'a vdisk_scheme \<Rightarrow> nat set" where
  "free_set s = {x. x < NUM \<and> vfree s ! x}"

definition not_allocated :: "'a vdisk_scheme \<Rightarrow> 'a vdisk_scheme \<Rightarrow> bool" where
  "not_allocated s t \<longleftrightarrow> rest_same s t \<and> card (free_set s) < 3 \<and>
     (\<forall>x<NUM. vfree t ! x = vfree s ! x \<and> (\<not> vfree s ! x \<longrightarrow> vq_desc t ! x = vq_desc s ! x)) \<and>
     (\<forall>q<NPROC. pget q t = pget q s \<or> p_state (pget q t) \<noteq> SLEEPING)"

lemma find_free_Some: "List.find (\<lambda>i. vfree s ! i) [0..<NUM] = Some i \<Longrightarrow> i < NUM \<and> vfree s ! i"
  by (auto simp: find_Some_iff)

lemma find_free_None: "List.find (\<lambda>i. vfree s ! i) [0..<NUM] = None \<Longrightarrow> free_set s = {}"
  by (auto simp: find_None_iff free_set_def)

lemma freed_back:
  assumes "freed D u t" "rest_same s u" "procs u = procs s" "vq_desc u = vq_desc s" "D \<subseteq> free_set s" "card D < 3" "free_set u = {}"
    and "\<forall>x<NUM. x \<notin> D \<longrightarrow> vfree u ! x = vfree s ! x"
  shows "not_allocated s t"
proof -
  have d: "free_set s = D" using assms(5,7,8) by (auto simp: free_set_def)
  have u: "\<not> vfree u ! x" if "x < NUM" for x using assms(7) that by (simp add: free_set_def)
  have "rest_same s t" using assms(1,2) by (auto simp: freed_def intro: rest_same_trans)
  moreover have "vfree t ! x = vfree s ! x \<and> (\<not> vfree s ! x \<longrightarrow> vq_desc t ! x = vq_desc s ! x)" if "x < NUM" for x
    using assms(1,4) d u [OF that] that by (auto simp: freed_def free_set_def)
  ultimately show ?thesis using assms(1,3,6) d by (simp add: not_allocated_def freed_def)
qed

lemma alloc3_cases:
  assumes "length (vq_desc s) = NUM" "length (vfree s) = NUM" "length (procs s) = NPROC"
  obtains (got) d0 d1 d2 where "alloc3_desc s = Some (Some [d0, d1, d2], s\<lparr>vfree := (vfree s)[d0 := False, d1 := False, d2 := False]\<rparr>)"
      "{d0, d1, d2} \<subseteq> free_set s" "d0 \<noteq> d1" "d0 \<noteq> d2" "d1 \<noteq> d2"
  | (full) t where "alloc3_desc s = Some (None, t)" "not_allocated s t"
proof (cases "List.find (\<lambda>i. vfree s ! i) [0..<NUM]")
  case None
  then have "alloc3_desc s = Some (None, s)" by (simp add: alloc3_desc_def numeral_3_eq_3 alloc_desc_def)
  moreover have "not_allocated s s" using find_free_None [OF None] by (simp add: not_allocated_def)
  ultimately show ?thesis by (rule full)
next
  case (Some d0)
  note d0 = find_free_Some [OF Some]
  let ?s1 = "s\<lparr>vfree := (vfree s)[d0 := False]\<rparr>"
  show ?thesis
  proof (cases "List.find (\<lambda>i. vfree ?s1 ! i) [0..<NUM]")
    case None
    obtain t where t: "free_desc d0 ?s1 = Some t" "freed {d0} ?s1 t"
      using freed_one [of d0 ?s1] d0 assms by auto
    have "alloc3_desc s = Some (None, t)" using Some None t(1) by (simp add: alloc3_desc_def numeral_3_eq_3 alloc_desc_def)
    moreover have "not_allocated s t"
      using d0 find_free_None [OF None] by (intro freed_back [OF t(2)]) (simp_all add: rest_same_def free_set_def)
    ultimately show ?thesis by (rule full)
  next
    case s1: (Some d1)
    have d1: "d1 < NUM" "vfree s ! d1" "d1 \<noteq> d0" using find_free_Some [OF s1] assms(2) d0 by (auto simp: nth_list_update split: if_splits)
    let ?s2 = "s\<lparr>vfree := (vfree s)[d0 := False, d1 := False]\<rparr>"
    show ?thesis
    proof (cases "List.find (\<lambda>i. vfree ?s2 ! i) [0..<NUM]")
      case None
      obtain t where t: "free_desc d0 ?s2 = Some t" "freed {d0} ?s2 t"
        using freed_one [of d0 ?s2] d0 d1 assms by auto
      have l: "length (vq_desc t) = NUM" "length (vfree t) = NUM" "length (procs t) = NPROC" using freed_lengths [OF t(2)] assms by simp_all
      have "\<not> vfree t ! d1" using t(2) d1 assms(2) by (simp add: freed_def)
      then obtain u where u: "free_desc d1 t = Some u" "freed {d1} t u" using freed_one [OF d1(1) _ l] by blast
      have "alloc3_desc s = Some (None, u)" using Some s1 None t(1) u(1) by (simp add: alloc3_desc_def numeral_3_eq_3 alloc_desc_def)
      moreover have "not_allocated s u"
        using d0 d1 find_free_None [OF None] assms(2,3)
        by (intro freed_back [OF freed_trans [OF t(2) u(2)]]) (simp_all add: rest_same_def free_set_def)
      ultimately show ?thesis by (rule full)
    next
      case s2: (Some d2)
      have d2: "d2 < NUM" "vfree s ! d2" "d2 \<noteq> d0" "d2 \<noteq> d1"
        using find_free_Some [OF s2] assms(2) d0 d1 by (auto simp: nth_list_update split: if_splits)
      have "alloc3_desc s = Some (Some [d0, d1, d2], s\<lparr>vfree := (vfree s)[d0 := False, d1 := False, d2 := False]\<rparr>)"
        using Some s1 s2 by (simp add: alloc3_desc_def numeral_3_eq_3 alloc_desc_def)
      moreover have "{d0, d1, d2} \<subseteq> free_set s" "d0 \<noteq> d1" "d0 \<noteq> d2" "d1 \<noteq> d2" using d0 d1 d2 by (auto simp: free_set_def)
      ultimately show ?thesis by (rule got)
    qed
  qed
qed

subsection \<open>The invariant\<close>

text \<open>The requests on their way: in the available ring, in the device, in the used ring.\<close>

definition stages :: "'a vdisk_scheme \<Rightarrow> nat list" where
  "stages s = map unat (ring_items (avail_q s)) @ dev_taken s @ map unat (ring_items (used_q s))"

definition reqs :: "'a vdisk_scheme \<Rightarrow> (nat \<Rightarrow> vwait) \<Rightarrow> bool" where
  "reqs s ph \<longleftrightarrow> length (vq_desc s) = NUM \<and> length (vfree s) = NUM \<and> length (info_b s) = NUM \<and> length (info_status s) = NUM \<and>
     length (vops s) = NUM \<and> length (b_disk s) = length (bufs s) \<and> length (procs s) = NPROC \<and>
     (\<forall>p. ph p \<noteq> Finished \<longrightarrow> p < NPROC) \<and>
     (\<forall>p i. wait_buf (ph p) = Some i \<longrightarrow> i < length (bufs s) \<and> b_blockno (bufs s ! i) < 2 ^ 31) \<and>
     (\<forall>p q i. wait_buf (ph p) = Some i \<longrightarrow> wait_buf (ph q) = Some i \<longrightarrow> p = q) \<and>
     (\<forall>p i w d. ph p = Wait_disk i w d \<longrightarrow> req_ok s i w d) \<and>
     (\<forall>p q i w d j v e. p \<noteq> q \<longrightarrow> ph p = Wait_disk i w d \<longrightarrow> ph q = Wait_disk j v e \<longrightarrow> own s d \<inter> own s e = {}) \<and>
     (\<forall>x<NUM. \<not> vfree s ! x \<longrightarrow> (\<exists>p i w d. ph p = Wait_disk i w d \<and> x \<in> own s d))"

definition queues :: "'a vdisk_scheme \<Rightarrow> (nat \<Rightarrow> vwait) \<Rightarrow> bool" where
  "queues s ph \<longleftrightarrow> ring_wf (avail_q s) \<and> ring_wf (used_q s) \<and> distinct (stages s) \<and>
     (\<forall>d. d \<in> set (stages s) \<longleftrightarrow> (\<exists>p i w. ph p = Wait_disk i w d \<and> b_disk s ! i)) \<and>
     (\<forall>x\<in>set (ring_items (used_q s)). info_status s ! unat x = 0)"

lemma reqs_len:
  assumes "reqs s ph"
  shows "length (vq_desc s) = NUM" "length (vfree s) = NUM" "length (info_b s) = NUM" "length (info_status s) = NUM"
    "length (vops s) = NUM" "length (b_disk s) = length (bufs s)" "length (procs s) = NPROC"
  using assms unfolding reqs_def by blast+

lemma reqs_proc: "reqs s ph \<Longrightarrow> ph p \<noteq> Finished \<Longrightarrow> p < NPROC"
  by (simp add: reqs_def)

lemma reqs_buf: "reqs s ph \<Longrightarrow> wait_buf (ph p) = Some i \<Longrightarrow> i < length (bufs s) \<and> b_blockno (bufs s ! i) < 2 ^ 31"
  unfolding reqs_def by blast

lemma reqs_one: "reqs s ph \<Longrightarrow> wait_buf (ph p) = Some i \<Longrightarrow> wait_buf (ph q) = Some i \<Longrightarrow> p = q"
  unfolding reqs_def by blast

lemma reqs_ok: "reqs s ph \<Longrightarrow> ph p = Wait_disk i w d \<Longrightarrow> req_ok s i w d"
  unfolding reqs_def by blast

lemma reqs_apart: "reqs s ph \<Longrightarrow> p \<noteq> q \<Longrightarrow> ph p = Wait_disk i w d \<Longrightarrow> ph q = Wait_disk j v e \<Longrightarrow> own s d \<inter> own s e = {}"
  unfolding reqs_def by blast

lemma reqs_owner: "reqs s ph \<Longrightarrow> x < NUM \<Longrightarrow> \<not> vfree s ! x \<Longrightarrow> \<exists>p i w d. ph p = Wait_disk i w d \<and> x \<in> own s d"
  by (simp add: reqs_def)

lemma reqs_head: "reqs s ph \<Longrightarrow> ph p = Wait_disk i w d \<Longrightarrow> ph q = Wait_disk j v d \<Longrightarrow> p = q \<and> i = j \<and> w = v"
  using reqs_apart [of s ph p q i w d j v d] req_head [OF reqs_ok [of s ph p i w d]] by (cases "p = q") auto

text \<open>Changes of the processes, and of descriptors that are free, do not matter.\<close>

definition harmless :: "'a vdisk_scheme \<Rightarrow> 'a vdisk_scheme \<Rightarrow> bool" where
  "harmless s t \<longleftrightarrow> (\<forall>x<NUM. vfree t ! x = vfree s ! x \<and> (\<not> vfree s ! x \<longrightarrow> vq_desc t ! x = vq_desc s ! x)) \<and>
     info_b t = info_b s \<and> vops t = vops s \<and> length (b_disk t) = length (b_disk s) \<and> length (bufs t) = length (bufs s) \<and>
     length (info_status t) = length (info_status s) \<and>
     length (procs t) = length (procs s) \<and> length (vq_desc t) = length (vq_desc s) \<and> length (vfree t) = length (vfree s)"

lemma req_harmless:
  assumes "req_ok s i w d" "harmless s t" "b_blockno (bufs t ! i) = b_blockno (bufs s ! i)"
  shows "req_ok t i w d" "own t d = own s d"
proof -
  have "vq_desc t ! x = vq_desc s ! x \<and> vfree t ! x = vfree s ! x" if "x \<in> own s d" for x
    using req_own [OF assms(1) that] assms(2) by (simp add: harmless_def)
  then show "req_ok t i w d" "own t d = own s d"
    using req_frame [OF assms(1), of t] assms(2,3) by (simp_all add: harmless_def)
qed

lemma reqs_harmless:
  assumes "reqs s ph" "harmless s t" "\<forall>p i. wait_buf (ph p) = Some i \<longrightarrow> b_blockno (bufs t ! i) = b_blockno (bufs s ! i)"
  shows "reqs t ph"
proof -
  have r: "req_ok t i w d \<and> own t d = own s d" if "ph p = Wait_disk i w d" for p i w d
    using req_harmless [OF reqs_ok [OF assms(1) that] assms(2)] assms(3) that by (metis wait_buf.simps(3))
  have "\<exists>p i w d. ph p = Wait_disk i w d \<and> x \<in> own t d" if x: "x < NUM" "\<not> vfree t ! x" for x
  proof -
    have "\<not> vfree s ! x" using x assms(2) by (simp add: harmless_def)
    then show ?thesis using reqs_owner [OF assms(1) x(1)] r by metis
  qed
  moreover have "own t d \<inter> own t e = {}" if "p \<noteq> q" "ph p = Wait_disk i w d" "ph q = Wait_disk j v e" for p q i w d j v e
    using reqs_apart [OF assms(1) that] r that by metis
  moreover have "i < length (bufs t) \<and> b_blockno (bufs t ! i) < 2 ^ 31" if "wait_buf (ph p) = Some i" for p i
    using reqs_buf [OF assms(1) that] assms(2,3) that by (simp add: harmless_def)
  moreover note reqs_len [OF assms(1)] reqs_proc [OF assms(1)] reqs_one [OF assms(1)]
  ultimately show ?thesis unfolding reqs_def using r assms(2) by (simp add: harmless_def)
qed

text \<open>A call that has no descriptors yet, or none any more.\<close>

lemma reqs_phase:
  assumes "reqs s ph" "\<forall>i w d. ph p \<noteq> Wait_disk i w d" "\<forall>i w d. x \<noteq> Wait_disk i w d" "x \<noteq> Finished \<longrightarrow> p < NPROC"
    and "\<forall>i. wait_buf x = Some i \<longrightarrow> i < length (bufs s) \<and> b_blockno (bufs s ! i) < 2 ^ 31 \<and> (\<forall>q. q \<noteq> p \<longrightarrow> wait_buf (ph q) \<noteq> Some i)"
  shows "reqs s (ph(p := x))"
proof -
  have d: "(ph(p := x)) q = Wait_disk i w d \<longleftrightarrow> ph q = Wait_disk i w d" for q i w d using assms(2,3) by auto
  have b: "wait_buf ((ph(p := x)) q) = (if q = p then wait_buf x else wait_buf (ph q))" for q by simp
  have one: "q = r" if "wait_buf ((ph(p := x)) q) = Some i" "wait_buf ((ph(p := x)) r) = Some i" for q r i
    using that reqs_one [OF assms(1), of q i r] assms(5) unfolding b by (cases "q = p"; cases "r = p") auto
  have buf: "i < length (bufs s) \<and> b_blockno (bufs s ! i) < 2 ^ 31" if "wait_buf ((ph(p := x)) q) = Some i" for q i
    using that reqs_buf [OF assms(1), of q i] assms(5) unfolding b by (cases "q = p") auto
  have pr: "q < NPROC" if "(ph(p := x)) q \<noteq> Finished" for q
    using that reqs_proc [OF assms(1), of q] assms(4) by (cases "q = p") auto
  show ?thesis
    unfolding reqs_def d using one buf pr reqs_len [OF assms(1)] reqs_ok [OF assms(1)] reqs_apart [OF assms(1)] reqs_owner [OF assms(1)]
    by (intro conjI allI impI) (assumption | blast)+
qed

subsection \<open>Handing a request to the device\<close>

definition handed :: "nat \<Rightarrow> bool \<Rightarrow> nat \<Rightarrow> nat \<Rightarrow> nat \<Rightarrow> 'a vdisk_scheme \<Rightarrow> 'a vdisk_scheme" where
  "handed i w d0 d1 d2 s = virtio_publish d0 (virtio_format i w d0 d1 d2 (s\<lparr>vfree := (vfree s)[d0 := False, d1 := False, d2 := False]\<rparr>))"

lemma handed_simps [simp]:
  "vfree (handed i w d0 d1 d2 s) = (vfree s)[d0 := False, d1 := False, d2 := False]"
  "info_b (handed i w d0 d1 d2 s) = (info_b s)[d0 := Some i]" "info_status (handed i w d0 d1 d2 s) = (info_status s)[d0 := 0xff]"
  "b_disk (handed i w d0 d1 d2 s) = (b_disk s)[i := True]" "bufs (handed i w d0 d1 d2 s) = bufs s"
  "disk (handed i w d0 d1 d2 s) = disk s" "disk_log (handed i w d0 d1 d2 s) = disk_log s"
  "vops (handed i w d0 d1 d2 s) = (vops s)[d0 := \<lparr>vr_type = if w then VIRTIO_BLK_T_OUT else VIRTIO_BLK_T_IN, vr_reserved = 0,
     vr_sector = ucast (b_blockno (bufs s ! i) * 2)\<rparr>]"
  "vq_desc (handed i w d0 d1 d2 s) = (vq_desc s)
     [d0 := \<lparr>vd_addr = Op_addr d0, vd_len = 16, vd_flags = VRING_DESC_F_NEXT, vd_next = of_nat d1\<rparr>,
      d1 := \<lparr>vd_addr = Data_addr i, vd_len = of_nat BSIZE, vd_flags = (if w then 0 else VRING_DESC_F_WRITE) OR VRING_DESC_F_NEXT, vd_next = of_nat d2\<rparr>,
      d2 := \<lparr>vd_addr = Status_addr d0, vd_len = 1, vd_flags = VRING_DESC_F_WRITE, vd_next = 0\<rparr>]"
  "avail_q (handed i w d0 d1 d2 s) = ring_push (of_nat d0) (avail_q s)" "used_q (handed i w d0 d1 d2 s) = used_q s"
  "dev_taken (handed i w d0 d1 d2 s) = dev_taken s" "procs (handed i w d0 d1 d2 s) = procs s" "cur (handed i w d0 d1 d2 s) = cur s"
  by (simp_all add: handed_def virtio_publish_def virtio_format_def Let_def)

lemma reqs_handed:
  assumes r: "reqs s ph" and p: "p < NPROC" "\<forall>i w d. ph p \<noteq> Wait_disk i w d"
    and i: "i < length (bufs s)" "b_blockno (bufs s ! i) < 2 ^ 31" "\<forall>q. q \<noteq> p \<longrightarrow> wait_buf (ph q) \<noteq> Some i"
    and d: "{d0, d1, d2} \<subseteq> free_set s" "d0 \<noteq> d1" "d0 \<noteq> d2" "d1 \<noteq> d2"
  shows "reqs (handed i w d0 d1 d2 s) (ph(p := Wait_disk i w d0))"
proof -
  let ?t = "handed i w d0 d1 d2 s"
  note len = reqs_len [OF r]
  have f: "d0 < NUM" "d1 < NUM" "d2 < NUM" "vfree s ! d0" "vfree s ! d1" "vfree s ! d2" using d(1) by (auto simp: free_set_def)
  have new: "req_ok ?t i w d0" "own ?t d0 = {d0, d1, d2}"
  proof -
    show "req_ok ?t i w d0" unfolding req_ok_def using f d len i(1)
      by (intro exI [of _ d1] exI [of _ d2]) simp
    show "own ?t d0 = {d0, d1, d2}" using f d len by (simp add: own_def nx_def small_u16)
  qed
  have old: "req_ok ?t j v e \<and> own ?t e = own s e \<and> own s e \<inter> {d0, d1, d2} = {}" if q: "ph q = Wait_disk j v e" for q j v e
  proof -
    note ok = reqs_ok [OF r q]
    have o: "d0 \<noteq> x \<and> d1 \<noteq> x \<and> d2 \<noteq> x" if "x \<in> own s e" for x using req_own [OF ok that] f by auto
    have e: "d0 \<noteq> e" using o req_head [OF ok] by blast
    have same: "\<forall>x\<in>own s e. vq_desc ?t ! x = vq_desc s ! x \<and> vfree ?t ! x = vfree s ! x" by (simp add: o)
    have "req_ok ?t j v e" "own ?t e = own s e" using req_frame [OF ok same] e by simp_all
    then show ?thesis using o by auto
  qed
  have disk: "(ph(p := Wait_disk i w d0)) q = Wait_disk j v e \<longleftrightarrow> (if q = p then j = i \<and> v = w \<and> e = d0 else ph q = Wait_disk j v e)" for q j v e
    by auto
  have ok: "req_ok ?t j v e" if "(ph(p := Wait_disk i w d0)) q = Wait_disk j v e" for q j v e
    using that old new(1) unfolding disk by (cases "q = p") auto
  have apart: "own ?t d \<inter> own ?t e = {}"
    if "q \<noteq> r" "(ph(p := Wait_disk i w d0)) q = Wait_disk j v d" "(ph(p := Wait_disk i w d0)) r = Wait_disk k u e" for q r j k v u d e
    using that old [of q j v d] old [of r k u e] new(2) reqs_apart [OF r, of q r j v d k u e] unfolding disk
    by (cases "q = p"; cases "r = p") auto
  have owner: "\<exists>q j v e. (ph(p := Wait_disk i w d0)) q = Wait_disk j v e \<and> x \<in> own ?t e" if x: "x < NUM" "\<not> vfree ?t ! x" for x
  proof (cases "x \<in> {d0, d1, d2}")
    case True
    then show ?thesis using new(2) by (intro exI [of _ p] exI [of _ i] exI [of _ w] exI [of _ d0]) simp
  next
    case False
    then have "\<not> vfree s ! x" using x by auto
    then obtain q j v e where "ph q = Wait_disk j v e" "x \<in> own s e" using reqs_owner [OF r x(1)] by blast
    then show ?thesis using old p(2) by (intro exI [of _ q] exI [of _ j] exI [of _ v] exI [of _ e]) auto
  qed
  have b: "wait_buf ((ph(p := Wait_disk i w d0)) q) = (if q = p then Some i else wait_buf (ph q))" for q by simp
  have one: "q = u" if "wait_buf ((ph(p := Wait_disk i w d0)) q) = Some j" "wait_buf ((ph(p := Wait_disk i w d0)) u) = Some j" for q u j
    using that reqs_one [OF r, of q j u] i(3) unfolding b by (cases "q = p"; cases "u = p") auto
  have buf: "j < length (bufs ?t) \<and> b_blockno (bufs ?t ! j) < 2 ^ 31" if "wait_buf ((ph(p := Wait_disk i w d0)) q) = Some j" for q j
    using that reqs_buf [OF r, of q j] i(1,2) unfolding b by (cases "q = p") auto
  have pr: "q < NPROC" if "(ph(p := Wait_disk i w d0)) q \<noteq> Finished" for q
    using that reqs_proc [OF r, of q] p(1) by (cases "q = p") auto
  have lt: "length (vq_desc ?t) = NUM" "length (vfree ?t) = NUM" "length (info_b ?t) = NUM" "length (info_status ?t) = NUM"
    "length (vops ?t) = NUM" "length (b_disk ?t) = length (bufs ?t)" "length (procs ?t) = NPROC" using len by simp_all
  show ?thesis unfolding reqs_def using lt pr buf one ok apart owner
    by (intro conjI allI impI) (assumption | blast)+
qed

lemma queuesD:
  assumes "queues s ph"
  shows "ring_wf (avail_q s)" "ring_wf (used_q s)" "distinct (stages s)"
    and "\<And>d. d \<in> set (stages s) \<longleftrightarrow> (\<exists>p i w. ph p = Wait_disk i w d \<and> b_disk s ! i)"
    and "\<And>x. x \<in> set (ring_items (used_q s)) \<Longrightarrow> info_status s ! unat x = 0"
  using assms unfolding queues_def by blast+

lemma head_free: "queues s ph \<Longrightarrow> reqs s ph \<Longrightarrow> d \<in> set (stages s) \<Longrightarrow> d < NUM \<and> \<not> vfree s ! d"
  unfolding queues_def by (meson reqs_ok req_head)

lemma stages_room:
  assumes "queues s ph" "reqs s ph" "d \<notin> set (stages s)" "d < NUM"
  shows "length (stages s) < NUM"
proof -
  have "set (stages s) \<subseteq> {..<NUM} - {d}" using head_free [OF assms(1,2)] assms(3) by auto
  then have "card (set (stages s)) \<le> card ({..<NUM} - {d})" by (intro card_mono) simp_all
  also have "\<dots> < NUM" using assms(4) by simp
  finally show ?thesis using assms(1) distinct_card [of "stages s"] by (simp add: queues_def)
qed

lemma phase_disk:
  assumes "B i"
  shows "(\<exists>u j v. (ph(p := Wait_disk i w d)) u = Wait_disk j v e \<and> B j) \<longleftrightarrow>
    e = d \<or> (\<exists>u j v. u \<noteq> p \<and> ph u = Wait_disk j v e \<and> B j)" (is "?l \<longleftrightarrow> ?r")
proof
  assume ?l
  then obtain u j v where u: "(ph(p := Wait_disk i w d)) u = Wait_disk j v e" "B j" by blast
  then show ?r by (cases "u = p") auto
next
  assume ?r
  then show ?l
  proof
    assume "e = d"
    then show ?l using assms by (intro exI [of _ p] exI [of _ i] exI [of _ w]) simp
  next
    assume "\<exists>u j v. u \<noteq> p \<and> ph u = Wait_disk j v e \<and> B j"
    then obtain u j v where "u \<noteq> p" "ph u = Wait_disk j v e" "B j" by blast
    then show ?l by (intro exI [of _ u] exI [of _ j] exI [of _ v]) simp
  qed
qed

lemma queues_handed:
  assumes q: "queues s ph" and r: "reqs s ph" and p: "\<forall>i w d. ph p \<noteq> Wait_disk i w d"
    and i: "i < length (bufs s)" "\<forall>q. q \<noteq> p \<longrightarrow> wait_buf (ph q) \<noteq> Some i"
    and d: "{d0, d1, d2} \<subseteq> free_set s"
  shows "queues (handed i w d0 d1 d2 s) (ph(p := Wait_disk i w d0))"
proof -
  let ?t = "handed i w d0 d1 d2 s"
  note len = reqs_len [OF r]
  have f: "d0 < NUM" "vfree s ! d0" using d by (auto simp: free_set_def)
  then have n: "d0 \<notin> set (stages s)" using head_free [OF q r] by blast
  have room: "length (ring_items (avail_q s)) < NUM" using stages_room [OF q r n f(1)] by (simp add: stages_def)
  have rw: "ring_wf (avail_q s)" "ring_wf (used_q s)" using queuesD [OF q] by blast+
  have it: "ring_items (avail_q ?t) = ring_items (avail_q s) @ [of_nat d0]" "ring_wf (avail_q ?t)"
    unfolding handed_simps using vring.push_items [OF rw(1) room] vring.push_wf [OF rw(1) room] by simp_all
  have st: "stages ?t = map unat (ring_items (avail_q s)) @ [d0] @ dev_taken s @ map unat (ring_items (used_q s))"
    unfolding stages_def it(1) by (simp add: small_u16 f(1))
  have dist: "distinct (stages ?t)" unfolding st using queuesD(3) [OF q, unfolded stages_def] n [unfolded stages_def] by auto
  have set: "set (stages ?t) = insert d0 (set (stages s))" unfolding st by (auto simp: stages_def)
  have "e \<in> set (stages ?t) \<longleftrightarrow> (\<exists>q j v. (ph(p := Wait_disk i w d0)) q = Wait_disk j v e \<and> b_disk ?t ! j)" for e
  proof -
    have old: "b_disk ?t ! j = b_disk s ! j" if "ph u = Wait_disk j v e" for u j v
      using i(2) that p by (cases "u = p") (auto dest: spec [of _ u])
    have "e \<in> set (stages s) \<longleftrightarrow> (\<exists>u j v. ph u = Wait_disk j v e \<and> b_disk s ! j)" by (rule queuesD(4) [OF q])
    also have "\<dots> \<longleftrightarrow> (\<exists>u j v. u \<noteq> p \<and> ph u = Wait_disk j v e \<and> b_disk ?t ! j)"
      using old p by (intro iff_exI) blast
    finally have e: "e \<in> set (stages s) \<longleftrightarrow> (\<exists>u j v. u \<noteq> p \<and> ph u = Wait_disk j v e \<and> b_disk ?t ! j)" .
    have "b_disk ?t ! i" using i(1) len(6) by simp
    then have "(\<exists>u j v. (ph(p := Wait_disk i w d0)) u = Wait_disk j v e \<and> b_disk ?t ! j) \<longleftrightarrow>
      e = d0 \<or> (\<exists>u j v. u \<noteq> p \<and> ph u = Wait_disk j v e \<and> b_disk ?t ! j)"
      by (rule phase_disk)
    then show ?thesis unfolding set insert_iff e by (rule sym)
  qed
  moreover have "\<forall>x\<in>set (ring_items (used_q ?t)). info_status ?t ! unat x = 0"
  proof
    fix x assume x: "x \<in> set (ring_items (used_q ?t))"
    then have "unat x \<in> set (stages s)" by (simp add: stages_def)
    then have "unat x \<noteq> d0" using n by auto
    moreover have "info_status s ! unat x = 0" using queuesD(5) [OF q] x by simp
    ultimately show "info_status ?t ! unat x = 0" by simp
  qed
  ultimately show ?thesis unfolding queues_def using it(2) rw(2) dist by simp
qed

subsection \<open>The other steps\<close>

lemma queues_same:
  assumes "queues s ph" "avail_q t = avail_q s" "used_q t = used_q s" "dev_taken t = dev_taken s" "b_disk t = b_disk s" "info_status t = info_status s"
    and "\<And>q i w d. ph' q = Wait_disk i w d \<longleftrightarrow> ph q = Wait_disk i w d"
  shows "queues t ph'"
  using assms unfolding queues_def stages_def by simp

lemma finish_ok:
  assumes r: "reqs s ph" and q: "queues s ph" and p: "ph p = Wait_disk i w d" "\<not> b_disk s ! i"
    and t: "freed (own s d) (s\<lparr>info_b := (info_b s)[d := None]\<rparr>) t"
  shows "reqs t (ph(p := Finished)) \<and> queues t (ph(p := Finished))"
proof -
  note len = reqs_len [OF r]
  have same: "avail_q t = avail_q s" "used_q t = used_q s" "dev_taken t = dev_taken s" "b_disk t = b_disk s" "info_status t = info_status s"
    "info_b t = (info_b s)[d := None]" "vops t = vops s" "bufs t = bufs s"
    "length (procs t) = length (procs s)" "length (vq_desc t) = length (vq_desc s)" "length (vfree t) = length (vfree s)"
    using t unfolding freed_def rest_same_def by simp_all
  have free: "vq_desc t ! x = (if x \<in> own s d then zero_desc else vq_desc s ! x)" "vfree t ! x = (x \<in> own s d \<or> vfree s ! x)" if "x < NUM" for x
    using t that unfolding freed_def by simp_all
  have other: "req_ok t j v e \<and> own t e = own s e" if u: "u \<noteq> p" "ph u = Wait_disk j v e" for u j v e
  proof -
    note ok = reqs_ok [OF r u(2)]
    have dis: "own s d \<inter> own s e = {}" using reqs_apart [OF r u(1) [symmetric] p(1) u(2)] .
    have "d \<noteq> e" using dis req_head [OF ok] by (auto simp: own_def)
    moreover have "\<forall>x\<in>own s e. vq_desc t ! x = vq_desc s ! x \<and> vfree t ! x = vfree s ! x" using free req_own [OF ok] dis by auto
    ultimately show ?thesis using req_frame [OF ok, of t] same by simp
  qed
  have ph: "(ph(p := Finished)) u = Wait_disk j v e \<longleftrightarrow> u \<noteq> p \<and> ph u = Wait_disk j v e" for u j v e by auto
  have bf: "wait_buf ((ph(p := Finished)) u) = Some j \<Longrightarrow> u \<noteq> p \<and> wait_buf (ph u) = Some j" for u j by (auto split: if_splits)
  have owner: "\<exists>u j v e. (ph(p := Finished)) u = Wait_disk j v e \<and> x \<in> own t e" if x: "x < NUM" "\<not> vfree t ! x" for x
  proof -
    have n: "x \<notin> own s d" "\<not> vfree s ! x" using x free by auto
    obtain u j v e where u: "ph u = Wait_disk j v e" "x \<in> own s e" using reqs_owner [OF r x(1) n(2)] by blast
    then have "u \<noteq> p" using p(1) n(1) by auto
    then show ?thesis using u other unfolding ph by blast
  qed
  have pr: "u < NPROC" if "(ph(p := Finished)) u \<noteq> Finished" for u
    using that reqs_proc [OF r, of u] by (cases "u = p") auto
  have buf: "j < length (bufs t) \<and> b_blockno (bufs t ! j) < 2 ^ 31" if "wait_buf ((ph(p := Finished)) u) = Some j" for u j
    using reqs_buf [OF r] bf [OF that] same(8) by auto
  have one: "u = u'" if "wait_buf ((ph(p := Finished)) u) = Some j" "wait_buf ((ph(p := Finished)) u') = Some j" for u u' j
    using reqs_one [OF r] bf [OF that(1)] bf [OF that(2)] by blast
  have apart: "own t e \<inter> own t e' = {}"
    if "u \<noteq> u'" "(ph(p := Finished)) u = Wait_disk j v e" "(ph(p := Finished)) u' = Wait_disk j' v' e'" for u u' j j' v v' e e'
    using that(2,3) other reqs_apart [OF r that(1)] unfolding ph by metis
  have ok: "req_ok t j v e" if "(ph(p := Finished)) u = Wait_disk j v e" for u j v e
    using that other unfolding ph by blast
  have lt: "length (vq_desc t) = NUM" "length (vfree t) = NUM" "length (info_b t) = NUM" "length (info_status t) = NUM"
    "length (vops t) = NUM" "length (b_disk t) = length (bufs t)" "length (procs t) = NPROC" using len same by simp_all
  have "reqs t (ph(p := Finished))" unfolding reqs_def using lt pr buf one ok apart owner
    by (intro conjI allI impI) (assumption | blast)+
  moreover have "queues t (ph(p := Finished))"
  proof -
    have st: "stages t = stages s" using same by (simp add: stages_def)
    have "(\<exists>u j v. (ph(p := Finished)) u = Wait_disk j v e \<and> b_disk s ! j) \<longleftrightarrow> (\<exists>u j v. ph u = Wait_disk j v e \<and> b_disk s ! j)" for e
      unfolding ph using p by (intro iff_exI) auto
    then show ?thesis using queuesD [OF q] unfolding queues_def st same by simp
  qed
  ultimately show ?thesis by blast
qed

lemma intr_one_ok:
  assumes r: "reqs s ph" and q: "queues s ph" and ne: "used_idx s \<noteq> used_hw s"
  shows "\<exists>p i w d. ph p = Wait_disk i w d \<and> b_disk s ! i \<and>
    intr_one s = Some ((wakeup (ChDisk i) (s\<lparr>b_disk := (b_disk s)[i := False]\<rparr>))\<lparr>used_idx := used_idx s + 1\<rparr>) \<and>
    reqs ((wakeup (ChDisk i) (s\<lparr>b_disk := (b_disk s)[i := False]\<rparr>))\<lparr>used_idx := used_idx s + 1\<rparr>) ph \<and>
    queues ((wakeup (ChDisk i) (s\<lparr>b_disk := (b_disk s)[i := False]\<rparr>))\<lparr>used_idx := used_idx s + 1\<rparr>) ph \<and>
    d = unat (used_ring s ! (unat (used_idx s) mod NUM)) \<and> d \<in> set (map unat (ring_items (used_q s)))"
proof -
  note rw = queuesD(2) [OF q] and len = reqs_len [OF r]
  let ?x = "used_ring s ! (unat (used_idx s) mod NUM)"
  have n: "ring_items (used_q s) \<noteq> []" using ne ring_empty by blast
  have it: "ring_items (used_q s) = ?x # ring_items (used_ring s, used_idx s + 1, used_hw s)"
    using ring_pop_items(2) [OF rw n] by simp
  have w2: "ring_wf (used_ring s, used_idx s + 1, used_hw s)" using ring_pop_items(1) [OF rw n] by simp
  define d where "d = unat ?x"
  have xs: "?x \<in> set (ring_items (used_q s))" using it by simp
  then have ds: "d \<in> set (stages s)" by (simp add: stages_def d_def)
  then obtain p i w where p: "ph p = Wait_disk i w d" "b_disk s ! i" using queuesD(4) [OF q] by blast
  note ok = reqs_ok [OF r p(1)]
  have info: "d < NUM" "info_b s ! d = Some i" "i < length (bufs s)" using ok by (auto elim: req_okE)
  let ?t = "(wakeup (ChDisk i) (s\<lparr>b_disk := (b_disk s)[i := False]\<rparr>))\<lparr>used_idx := used_idx s + 1\<rparr>"
  have one: "intr_one s = Some ?t"
    using info queuesD(5) [OF q xs] by (simp add: intr_one_def Let_def d_def)
  have h: "harmless s ?t" by (simp add: harmless_def)
  have "reqs ?t ph" by (rule reqs_harmless [OF r h]) simp
  moreover have "queues ?t ph"
  proof -
    have ss: "stages s = map unat (ring_items (avail_q s)) @ dev_taken s @ d # map unat (ring_items (used_q ?t))"
      unfolding stages_def it by (simp add: d_def)
    have ts: "stages ?t = map unat (ring_items (avail_q s)) @ dev_taken s @ map unat (ring_items (used_q ?t))"
      by (simp add: stages_def)
    have dist: "distinct (stages ?t)" "set (stages ?t) = set (stages s) - {d}"
      using queuesD(3) [OF q] unfolding ss ts by auto
    have "e \<in> set (stages ?t) \<longleftrightarrow> (\<exists>u j v. ph u = Wait_disk j v e \<and> b_disk ?t ! j)" for e
    proof -
      have b: "b_disk ?t ! j \<longleftrightarrow> b_disk s ! j \<and> e \<noteq> d" if u: "ph u = Wait_disk j v e" for u j v
      proof (cases "j = i")
        case True
        then have "u = p" using reqs_one [OF r, of u i p] u p(1) by simp
        then show ?thesis using u p True info(3) len(6) by simp
      next
        case False
        then have "e \<noteq> d" using reqs_head [OF r p(1)] u by blast
        then show ?thesis using False by simp
      qed
      have "e \<in> set (stages ?t) \<longleftrightarrow> (\<exists>u j v. ph u = Wait_disk j v e \<and> b_disk s ! j) \<and> e \<noteq> d"
        unfolding dist(2) using queuesD(4) [OF q] by simp
      also have "\<dots> \<longleftrightarrow> (\<exists>u j v. ph u = Wait_disk j v e \<and> b_disk ?t ! j)" using b by blast
      finally show ?thesis .
    qed
    moreover have "\<forall>x\<in>set (ring_items (used_q ?t)). info_status ?t ! unat x = 0"
      using queuesD(5) [OF q] it by simp
    ultimately show ?thesis unfolding queues_def using queuesD(1) [OF q] w2 dist(1) by simp
  qed
  ultimately show ?thesis using p one xs d_def by (intro exI [of _ p] exI [of _ i] exI [of _ w] exI [of _ d]) simp
qed

lemma take_ok:
  assumes r: "reqs s ph" and q: "queues s ph" and ne: "dev_avail s \<noteq> avail_idx s"
  shows "reqs (device_take s) ph \<and> queues (device_take s) ph \<and>
    set (map unat (ring_items (avail_q (device_take s))) @ dev_taken (device_take s)) = set (map unat (ring_items (avail_q s)) @ dev_taken s)"
proof -
  let ?t = "device_take s" and ?x = "avail_ring s ! (unat (dev_avail s) mod NUM)"
  note rw = queuesD(1) [OF q]
  have n: "ring_items (avail_q s) \<noteq> []" using ne ring_empty by blast
  have f: "avail_q ?t = (avail_ring s, dev_avail s + 1, avail_idx s)" "used_q ?t = used_q s" "dev_taken ?t = dev_taken s @ [unat ?x]"
    "b_disk ?t = b_disk s" "info_status ?t = info_status s" by (simp_all add: device_take_def)
  have it: "ring_items (avail_q s) = ?x # ring_items (avail_q ?t)" "ring_wf (avail_q ?t)"
    unfolding f using ring_pop_items [OF rw n] by simp_all
  have "harmless s ?t" by (simp add: harmless_def device_take_def)
  then have "reqs ?t ph" by (rule reqs_harmless [OF r]) (simp add: device_take_def)
  moreover have st: "distinct (stages ?t)" "set (stages ?t) = set (stages s)"
  proof -
    have e: "stages s = unat ?x # map unat (ring_items (avail_q ?t)) @ dev_taken s @ map unat (ring_items (used_q s))"
      "stages ?t = map unat (ring_items (avail_q ?t)) @ (dev_taken s @ [unat ?x]) @ map unat (ring_items (used_q s))"
      unfolding stages_def it(1) f(2,3) by simp_all
    show "set (stages ?t) = set (stages s)" unfolding e by auto
    show "distinct (stages ?t)" using queuesD(3) [OF q] unfolding e by auto
  qed
  then have "queues ?t ph"
    unfolding queues_def using queuesD(2,4,5) [OF q] it(2) unfolding f by simp
  ultimately show ?thesis unfolding f it(1) by auto
qed

lemma transfer_simps [simp]:
  "vq_desc (transfer i w b s) = vq_desc s" "vfree (transfer i w b s) = vfree s" "info_b (transfer i w b s) = info_b s"
  "info_status (transfer i w b s) = info_status s" "vops (transfer i w b s) = vops s" "b_disk (transfer i w b s) = b_disk s"
  "avail_q (transfer i w b s) = avail_q s" "used_q (transfer i w b s) = used_q s" "dev_taken (transfer i w b s) = dev_taken s"
  "procs (transfer i w b s) = procs s" "cur (transfer i w b s) = cur s" "length (bufs (transfer i w b s)) = length (bufs s)"
  by (simp_all add: transfer_def bset_def)

lemma transfer_blockno [simp]: "b_blockno (bufs (transfer i w b s) ! j) = b_blockno (bufs s ! j)"
  by (cases "i < length (bufs s)"; cases "j = i") (simp_all add: transfer_def bset_def list_update_beyond)

lemma transfer_eq: "transfer i w (b_blockno (bufs s ! i)) s = virtio_disk_rw i w s"
  by (simp add: transfer_def virtio_disk_rw_def bset_def Let_def)

lemma done_ok:
  assumes r: "reqs s ph" and q: "queues s ph" and h: "h \<in> set (dev_taken s)"
  shows "\<exists>p i w. ph p = Wait_disk i w h \<and> b_disk s ! i \<and> request_at h s = Some (i, w, b_blockno (bufs s ! i), h) \<and>
    reqs (device_done h h (virtio_disk_rw i w s)) ph \<and> queues (device_done h h (virtio_disk_rw i w s)) ph \<and>
    set (map unat (ring_items (avail_q (device_done h h (virtio_disk_rw i w s)))) @ dev_taken (device_done h h (virtio_disk_rw i w s))) =
      set (map unat (ring_items (avail_q s)) @ dev_taken s) - {h}"
proof -
  note len = reqs_len [OF r]
  have hs: "h \<in> set (stages s)" using h by (simp add: stages_def)
  then obtain p i w where p: "ph p = Wait_disk i w h" "b_disk s ! i" using queuesD(4) [OF q] by blast
  note ok = reqs_ok [OF r p(1)]
  have b: "b_blockno (bufs s ! i) < 2 ^ 31" using reqs_buf [OF r, of p i] p(1) by simp
  note dec = request_decoded [OF ok b]
  have hn: "h < NUM" using req_head [OF ok] by blast
  let ?t = "device_done h h (virtio_disk_rw i w s)"
  have f: "avail_q ?t = avail_q s" "used_q ?t = ring_push (of_nat h) (used_q s)" "dev_taken ?t = remove1 h (dev_taken s)"
    "b_disk ?t = b_disk s" "info_status ?t = (info_status s)[h := 0]"
    by (simp_all add: device_done_def flip: transfer_eq) (simp_all add: transfer_def bset_def)
  have "harmless s ?t" unfolding harmless_def device_done_def transfer_eq [symmetric] by simp
  moreover have "b_blockno (bufs ?t ! j) = b_blockno (bufs s ! j)" for j by (simp add: device_done_def flip: transfer_eq)
  ultimately have rt: "reqs ?t ph" by (intro reqs_harmless [OF r]) simp_all
  have dist: "distinct (map unat (ring_items (avail_q s)))" "distinct (dev_taken s)" "distinct (map unat (ring_items (used_q s)))"
    "set (map unat (ring_items (avail_q s))) \<inter> set (dev_taken s) = {}" "set (map unat (ring_items (avail_q s))) \<inter> set (map unat (ring_items (used_q s))) = {}"
    "set (dev_taken s) \<inter> set (map unat (ring_items (used_q s))) = {}"
    using queuesD(3) [OF q] unfolding stages_def distinct_append set_append by blast+
  have room: "length (ring_items (used_q s)) < NUM"
  proof -
    have "set (map unat (ring_items (used_q s))) \<subseteq> {..<NUM} - {h}"
    proof
      fix d assume d: "d \<in> set (map unat (ring_items (used_q s)))"
      then have "d \<in> set (stages s)" unfolding stages_def by (simp only: set_append Un_iff simp_thms)
      then show "d \<in> {..<NUM} - {h}" using head_free [OF q r] dist(6) h d by blast
    qed
    then have "card (set (map unat (ring_items (used_q s)))) \<le> card ({..<NUM} - {h})" by (intro card_mono) simp_all
    also have "\<dots> < NUM" using hn by simp
    finally show ?thesis using distinct_card [OF dist(3)] by simp
  qed
  have it: "ring_items (used_q ?t) = ring_items (used_q s) @ [of_nat h]" "ring_wf (used_q ?t)"
    unfolding f using vring.push_items [OF queuesD(2) [OF q] room] vring.push_wf [OF queuesD(2) [OF q] room] by simp_all
  have e: "stages ?t = map unat (ring_items (avail_q s)) @ remove1 h (dev_taken s) @ map unat (ring_items (used_q s)) @ [h]"
    unfolding stages_def it(1) f(1,3) by (simp add: small_u32 hn)
  have rm: "set (remove1 h (dev_taken s)) = set (dev_taken s) - {h}" "distinct (remove1 h (dev_taken s))" using dist(2) by simp_all
  have st: "set (stages ?t) = set (stages s)" unfolding e using rm h by (auto simp: stages_def)
  have ds: "distinct (stages ?t)" unfolding e using dist rm h by (auto simp del: set_map)
  have "info_status ?t ! unat x = 0" if x: "x \<in> set (ring_items (used_q ?t))" for x
  proof (cases "unat x = h")
    case True
    then show ?thesis using hn len(4) unfolding f(5) by simp
  next
    case False
    then have "x \<in> set (ring_items (used_q s))" using x hn unfolding it(1) by (auto simp: small_u32)
    then show ?thesis using queuesD(5) [OF q] False unfolding f(5) by simp
  qed
  moreover have "ring_wf (avail_q ?t)" unfolding f(1) by (rule queuesD(1) [OF q])
  ultimately have qt: "queues ?t ph" unfolding queues_def st using queuesD(4) [OF q] it(2) ds unfolding f(4) by blast
  have "set (map unat (ring_items (avail_q s)) @ remove1 h (dev_taken s)) = set (map unat (ring_items (avail_q s)) @ dev_taken s) - {h}"
    unfolding set_append rm(1) using dist(4) h by blast
  then show ?thesis using p dec rt qt f by (intro exI [of _ p] exI [of _ i] exI [of _ w]) simp
qed

end
