(* ===== verification/VirtioRun.thy ===== *)
theory VirtioRun
  imports VirtioInv Demo
begin

section \<open>The disk driver keeps its promise\<close>

text \<open>
  On top of the invariant: nothing panics, no process sleeps although its condition holds, and
  each call is one transfer of \<open>virtio_disk_rw\<close> of the buffer cache.
\<close>

subsection \<open>Sleepers\<close>

definition sleepers :: "'a vdisk_scheme \<Rightarrow> bool" where
  "sleepers s \<longleftrightarrow> (\<forall>q<NPROC. p_state (pget q s) = SLEEPING \<longrightarrow> cur s \<noteq> Some q \<and>
     (\<forall>i. p_chan (pget q s) = Some (ChDisk i) \<longrightarrow> b_disk s ! i) \<and> (p_chan (pget q s) = Some ChDiskFree \<longrightarrow> card (free_set s) < 3))"

lemma sleepersD:
  "sleepers s \<Longrightarrow> q < NPROC \<Longrightarrow> p_state (pget q s) = SLEEPING \<Longrightarrow> cur s \<noteq> Some q \<and>
    (\<forall>i. p_chan (pget q s) = Some (ChDisk i) \<longrightarrow> b_disk s ! i) \<and> (p_chan (pget q s) = Some ChDiskFree \<longrightarrow> card (free_set s) < 3)"
  by (simp add: sleepers_def)

text \<open>Nobody new sleeps, and a condition that ends wakes its sleepers.\<close>

lemma sleepers_keep:
  assumes "sleepers s" "\<forall>q<NPROC. pget q t = pget q s \<or> p_state (pget q t) \<noteq> SLEEPING"
    and "\<forall>q<NPROC. cur t = Some q \<longrightarrow> p_state (pget q t) \<noteq> SLEEPING"
    and "\<forall>q<NPROC. \<forall>i. p_state (pget q t) = SLEEPING \<longrightarrow> p_chan (pget q t) = Some (ChDisk i) \<longrightarrow> b_disk s ! i \<longrightarrow> b_disk t ! i"
    and "\<forall>q<NPROC. p_state (pget q t) = SLEEPING \<longrightarrow> p_chan (pget q t) = Some ChDiskFree \<longrightarrow> card (free_set s) < 3 \<longrightarrow> card (free_set t) < 3"
  shows "sleepers t"
  unfolding sleepers_def
proof (intro allI impI)
  fix q assume q: "q < NPROC" "p_state (pget q t) = SLEEPING"
  then have e: "pget q t = pget q s" using assms(2) by blast
  then have s: "p_state (pget q s) = SLEEPING" using q(2) by simp
  note d = sleepersD [OF assms(1) q(1) s]
  have "cur t \<noteq> Some q" using assms(3) q by blast
  moreover have "\<forall>i. p_chan (pget q t) = Some (ChDisk i) \<longrightarrow> b_disk t ! i" using assms(4) q e d by metis
  moreover have "p_chan (pget q t) = Some ChDiskFree \<longrightarrow> card (free_set t) < 3" using assms(5) q e d by metis
  ultimately show "cur t \<noteq> Some q \<and> (\<forall>i. p_chan (pget q t) = Some (ChDisk i) \<longrightarrow> b_disk t ! i) \<and>
    (p_chan (pget q t) = Some ChDiskFree \<longrightarrow> card (free_set t) < 3)" by blast
qed

lemma sleepers_run:
  assumes "sleepers s" "p < NPROC" "length (procs s) = NPROC"
  shows "sleepers (dispatch p s)" "sleepers (wake p (dispatch p s))"
proof -
  have g: "pget q (dispatch p s) = (if q = p then (pget p s)\<lparr>p_state := RUNNING\<rparr> else pget q s)" if "q < NPROC" for q
    using that assms(2,3) by (simp add: dispatch_def pget_pset)
  show "sleepers (dispatch p s)"
    by (rule sleepers_keep [OF assms(1)]) (simp_all add: g, simp_all add: dispatch_def pset_def free_set_def)
  have h: "pget q (wake p (dispatch p s)) = (if q = p then (pget p s)\<lparr>p_state := RUNNING, p_chan := None\<rparr> else pget q s)" if "q < NPROC" for q
    using that assms(2,3) by (simp add: wake_def dispatch_def pset_def nth_list_update)
  show "sleepers (wake p (dispatch p s))"
    by (rule sleepers_keep [OF assms(1)]) (simp_all add: h, simp_all add: wake_def dispatch_def pset_def free_set_def)
qed

lemma sleep_some:
  assumes "cur s = Some p"
  shows "sleep ch s = Some ((pset p (\<lambda>q. q\<lparr>p_chan := Some ch, p_state := SLEEPING\<rparr>) s)\<lparr>cur := None\<rparr>)"
  using assms by (simp add: sleep_def myproc_def)

lemma sleepers_sleep:
  assumes "sleepers s" "sleep ch s = Some t" "cur s = Some p" "p < NPROC" "length (procs s) = NPROC"
    and "\<forall>i. ch = ChDisk i \<longrightarrow> b_disk s ! i" "ch = ChDiskFree \<longrightarrow> card (free_set s) < 3"
  shows "sleepers t"
proof -
  have t: "t = (pset p (\<lambda>q. q\<lparr>p_chan := Some ch, p_state := SLEEPING\<rparr>) s)\<lparr>cur := None\<rparr>" using assms(2) sleep_some [OF assms(3)] by simp
  have g: "pget q t = (if q = p then (pget p s)\<lparr>p_chan := Some ch, p_state := SLEEPING\<rparr> else pget q s)" if "q < NPROC" for q
    using that assms(4,5) by (simp add: t pset_def nth_list_update)
  have o: "b_disk t = b_disk s" "free_set t = free_set s" "cur t = None" by (simp_all add: t pset_def free_set_def)
  show ?thesis unfolding sleepers_def
  proof (intro allI impI)
    fix q assume q: "q < NPROC" "p_state (pget q t) = SLEEPING"
    show "cur t \<noteq> Some q \<and> (\<forall>i. p_chan (pget q t) = Some (ChDisk i) \<longrightarrow> b_disk t ! i) \<and> (p_chan (pget q t) = Some ChDiskFree \<longrightarrow> card (free_set t) < 3)"
    proof (cases "q = p")
      case True
      then show ?thesis using g [OF q(1)] o assms(6,7) by simp
    next
      case False
      then show ?thesis using g [OF q(1)] o sleepersD [OF assms(1) q(1)] q(2) by simp
    qed
  qed
qed

lemma sleepers_freed:
  assumes "sleepers s" "freed D s t" "cur s = Some p" "p_state (pget p t) \<noteq> SLEEPING" "D \<noteq> {}"
  shows "sleepers t"
proof (rule sleepers_keep [OF assms(1)])
  have c: "cur t = cur s" "b_disk t = b_disk s" using assms(2) by (simp_all add: freed_def rest_same_def)
  show "\<forall>q<NPROC. pget q t = pget q s \<or> p_state (pget q t) \<noteq> SLEEPING" using assms(2) by (simp add: freed_def)
  show "\<forall>q<NPROC. cur t = Some q \<longrightarrow> p_state (pget q t) \<noteq> SLEEPING" using c assms(3,4) by simp
  show "\<forall>q<NPROC. \<forall>i. p_state (pget q t) = SLEEPING \<longrightarrow> p_chan (pget q t) = Some (ChDisk i) \<longrightarrow> b_disk s ! i \<longrightarrow> b_disk t ! i" using c by simp
  show "\<forall>q<NPROC. p_state (pget q t) = SLEEPING \<longrightarrow> p_chan (pget q t) = Some ChDiskFree \<longrightarrow> card (free_set s) < 3 \<longrightarrow> card (free_set t) < 3"
  proof (intro allI impI)
    fix q assume q: "q < NPROC" "p_state (pget q t) = SLEEPING" "p_chan (pget q t) = Some ChDiskFree"
    then have "cur s \<noteq> Some q" using assms(3,4) by auto
    then show "card (free_set t) < 3" using assms(2,5) q by (auto simp: freed_def)
  qed
qed

lemma intr_wakes:
  assumes "sleepers s" "length (procs s) = NPROC"
  shows "sleepers ((wakeup (ChDisk i) (s\<lparr>b_disk := (b_disk s)[i := False]\<rparr>))\<lparr>used_idx := u\<rparr>)" (is "sleepers ?t")
proof (rule sleepers_keep [OF assms(1)])
  have g: "pget q ?t = (if cur s \<noteq> Some q \<and> p_state (pget q s) = SLEEPING \<and> p_chan (pget q s) = Some (ChDisk i)
      then (pget q s)\<lparr>p_state := RUNNABLE\<rparr> else pget q s)" if "q < NPROC" for q
    using wakeup_spec [of "s\<lparr>b_disk := (b_disk s)[i := False]\<rparr>" q "ChDisk i"] assms(2) that by simp
  show "\<forall>q<NPROC. pget q ?t = pget q s \<or> p_state (pget q ?t) \<noteq> SLEEPING" using g by auto
  show "\<forall>q<NPROC. cur ?t = Some q \<longrightarrow> p_state (pget q ?t) \<noteq> SLEEPING" using g sleepersD [OF assms(1)] by auto
  show "\<forall>q<NPROC. \<forall>j. p_state (pget q ?t) = SLEEPING \<longrightarrow> p_chan (pget q ?t) = Some (ChDisk j) \<longrightarrow> b_disk s ! j \<longrightarrow> b_disk ?t ! j"
    using g sleepersD [OF assms(1)] by (auto split: if_splits)
  show "\<forall>q<NPROC. p_state (pget q ?t) = SLEEPING \<longrightarrow> p_chan (pget q ?t) = Some ChDiskFree \<longrightarrow> card (free_set s) < 3 \<longrightarrow> card (free_set ?t) < 3"
    by (simp add: free_set_def)
qed

subsection \<open>Steps of the driver\<close>

definition good :: "'a vdisk_scheme \<Rightarrow> (nat \<Rightarrow> vwait) \<Rightarrow> bool" where
  "good s ph \<longleftrightarrow> reqs s ph \<and> queues s ph \<and> sleepers s"

definition core :: "'a kbuf_scheme \<Rightarrow> buf list \<times> (u32 \<Rightarrow> block) \<times> (u32 \<times> block) list" where
  "core s = (bufs s, disk s, disk_log s)"

definition outstanding :: "'a vdisk_scheme \<Rightarrow> nat set" where
  "outstanding s = set (map unat (ring_items (avail_q s)) @ dev_taken s)"

lemma outstanding_stages: "d \<in> outstanding s \<Longrightarrow> d \<in> set (stages s)"
  unfolding outstanding_def stages_def by auto

definition procs_only :: "'a vdisk_scheme \<Rightarrow> 'a vdisk_scheme \<Rightarrow> bool" where
  "procs_only s t \<longleftrightarrow> rest_same s (t\<lparr>cur := cur s\<rparr>) \<and> vq_desc t = vq_desc s \<and> vfree t = vfree s"

lemma procs_only_good:
  assumes "good s ph" "procs_only s t" "sleepers t"
  shows "good t ph \<and> core t = core s \<and> outstanding t = outstanding s"
proof -
  have h: "harmless s t" "bufs t = bufs s" using assms(2) by (simp_all add: harmless_def procs_only_def rest_same_def)
  have "reqs t ph" using assms(1) h by (intro reqs_harmless [OF _ h(1)]) (simp_all add: good_def)
  moreover have q: "queues s ph" using assms(1) by (simp add: good_def)
  have f: "avail_q t = avail_q s" "used_q t = used_q s" "dev_taken t = dev_taken s" "b_disk t = b_disk s" "info_status t = info_status s"
    using assms(2) by (simp_all add: procs_only_def rest_same_def)
  have "queues t ph" by (rule queues_same [OF q f refl])
  ultimately show ?thesis using assms(2,3) by (simp add: good_def procs_only_def rest_same_def core_def outstanding_def)
qed

lemma sleep_ok:
  assumes "good s ph" "cur s = Some p" "p < NPROC"
    and "\<forall>i. ch = ChDisk i \<longrightarrow> b_disk s ! i" "ch = ChDiskFree \<longrightarrow> card (free_set s) < 3"
  shows "\<exists>t. sleep ch s = Some t \<and> good t ph \<and> core t = core s \<and> outstanding t = outstanding s"
proof -
  obtain t where t: "sleep ch s = Some t" "t = (pset p (\<lambda>q. q\<lparr>p_chan := Some ch, p_state := SLEEPING\<rparr>) s)\<lparr>cur := None\<rparr>"
    using sleep_some [OF assms(2)] by blast
  have g: "reqs s ph" "sleepers s" using assms(1) by (simp_all add: good_def)
  have "sleepers t" using sleepers_sleep [OF g(2) t(1) assms(2,3) reqs_len(7) [OF g(1)] assms(4,5)] .
  moreover have "procs_only s t" by (simp add: t(2) procs_only_def rest_same_def pset_def)
  ultimately show ?thesis using procs_only_good [OF assms(1)] t(1) by blast
qed

text \<open>The processor runs the caller, which does not sleep.\<close>

definition runs :: "nat \<Rightarrow> 'a vdisk_scheme \<Rightarrow> bool" where
  "runs p s \<longleftrightarrow> p < NPROC \<and> cur s = Some p \<and> p_state (pget p s) \<noteq> SLEEPING"

lemma wait_ok:
  assumes g: "good s ph" and p: "ph p = Wait_disk i w d" "runs p s"
  shows "\<exists>x t. virtio_wait i w d s = Some (x, t) \<and> good t (ph(p := x)) \<and> core t = core s \<and> outstanding t = outstanding s \<and>
    (if b_disk s ! i then x = Wait_disk i w d else x = Finished \<and> d \<notin> outstanding s)"
proof (cases "b_disk s ! i")
  case True
  have "\<exists>t. sleep (ChDisk i) s = Some t \<and> good t ph \<and> core t = core s \<and> outstanding t = outstanding s"
    using sleep_ok [OF g, of p "ChDisk i"] p(2) True by (simp add: runs_def)
  moreover have "ph(p := Wait_disk i w d) = ph" using p(1) by auto
  ultimately show ?thesis using True by (auto simp: virtio_wait_def)
next
  case False
  have r: "reqs s ph" and q: "queues s ph" and sl: "sleepers s" using g by (simp_all add: good_def)
  let ?s = "s\<lparr>info_b := (info_b s)[d := None]\<rparr>"
  note ok = reqs_ok [OF r p(1)] and len = reqs_len [OF r]
  have "\<exists>t. free_chain d ?s = Some t \<and> freed (own s d) ?s t"
  proof -
    from ok obtain d1 d2 where e: "d < NUM" "d1 < NUM" "d2 < NUM" "d \<noteq> d1" "d \<noteq> d2" "d1 \<noteq> d2"
      "\<not> vfree s ! d" "\<not> vfree s ! d1" "\<not> vfree s ! d2" "nx s d = d1" "nx s d1 = d2" "own s d = {d, d1, d2}"
      "vd_flags (vq_desc s ! d) = VRING_DESC_F_NEXT" "vd_flags (vq_desc s ! d1) = (if w then 0 else VRING_DESC_F_WRITE) OR VRING_DESC_F_NEXT"
      "vd_flags (vq_desc s ! d2) = VRING_DESC_F_WRITE"
      by (elim req_okE) simp
    have n: "nx ?s d = d1" "nx ?s d1 = d2" "own ?s d = {d, d1, d2}" using e by (simp_all add: nx_def own_def)
    show ?thesis using free_three [of d d1 d2 ?s w] e n len by simp
  qed
  then obtain t where t: "free_chain d ?s = Some t" "freed (own s d) ?s t" by blast
  have n: "d \<notin> outstanding s"
  proof
    assume "d \<in> outstanding s"
    then obtain u j v where "ph u = Wait_disk j v d" "b_disk s ! j" using outstanding_stages queuesD(4) [OF q] by blast
    then show False using reqs_head [OF r p(1)] False by auto
  qed
  have "sleepers ?s" by (rule sleepers_keep [OF sl]) (use sleepersD [OF sl] in \<open>auto simp: free_set_def\<close>)
  moreover have "p_state (pget p t) \<noteq> SLEEPING" using t(2) p(2) by (auto simp: freed_def runs_def)
  ultimately have "sleepers t" using sleepers_freed [of ?s _ t p] t(2) p(2) by (auto simp: runs_def own_def)
  then have "good t (ph(p := Finished))" using finish_ok [OF r q p(1) False t(2)] by (simp add: good_def)
  moreover have "core t = core s" "outstanding t = outstanding s"
    using t(2) by (simp_all add: freed_def rest_same_def core_def outstanding_def)
  ultimately show ?thesis using False t(1) n by (simp add: virtio_wait_def)
qed

lemma good_phase:
  assumes g: "good s ph" and p: "p < NPROC" "\<forall>i w d. ph p \<noteq> Wait_disk i w d"
    and i: "i < length (bufs s)" "b_blockno (bufs s ! i) < 2 ^ 31" "\<forall>q. q \<noteq> p \<longrightarrow> wait_buf (ph q) \<noteq> Some i"
  shows "good s (ph(p := Wait_desc i w))"
proof -
  have r: "reqs s ph" and q: "queues s ph" using g by (simp_all add: good_def)
  have "reqs s (ph(p := Wait_desc i w))" using reqs_phase [OF r p(2), of "Wait_desc i w"] p(1) i by simp
  moreover have "queues s (ph(p := Wait_desc i w))" by (rule queues_same [OF q]) (use p(2) in auto)
  ultimately show ?thesis using g by (simp add: good_def)
qed

lemma handed_good:
  assumes g: "good s ph" and p: "p < NPROC" "\<forall>i w d. ph p \<noteq> Wait_disk i w d"
    and i: "i < length (bufs s)" "b_blockno (bufs s ! i) < 2 ^ 31" "\<forall>q. q \<noteq> p \<longrightarrow> wait_buf (ph q) \<noteq> Some i"
    and d: "{d0, d1, d2} \<subseteq> free_set s" "d0 \<noteq> d1" "d0 \<noteq> d2" "d1 \<noteq> d2"
  shows "good (handed i w d0 d1 d2 s) (ph(p := Wait_disk i w d0)) \<and>
    outstanding (handed i w d0 d1 d2 s) = insert d0 (outstanding s) \<and> (\<forall>q j v e. ph q = Wait_disk j v e \<longrightarrow> e \<noteq> d0)"
proof -
  let ?t = "handed i w d0 d1 d2 s"
  have r: "reqs s ph" and q: "queues s ph" and sl: "sleepers s" using g by (simp_all add: good_def)
  have f: "d0 < NUM" "vfree s ! d0" using d(1) by (auto simp: free_set_def)
  have "vfree ?t ! x \<Longrightarrow> x < NUM \<Longrightarrow> vfree s ! x" for x
    by (cases "x = d0"; cases "x = d1"; cases "x = d2") (simp_all add: reqs_len [OF r])
  then have sub: "free_set ?t \<subseteq> free_set s" by (auto simp: free_set_def)
  have "finite (free_set s)" by (simp add: free_set_def)
  then have c: "card (free_set ?t) \<le> card (free_set s)" using sub by (rule card_mono)
  have b: "b_disk s ! j \<Longrightarrow> b_disk ?t ! j" for j using i(1) reqs_len(6) [OF r] by (cases "j = i") simp_all
  have "sleepers ?t"
  proof (rule sleepers_keep [OF sl])
    show "\<forall>q<NPROC. pget q ?t = pget q s \<or> p_state (pget q ?t) \<noteq> SLEEPING" by simp
    show "\<forall>q<NPROC. cur ?t = Some q \<longrightarrow> p_state (pget q ?t) \<noteq> SLEEPING" using sleepersD [OF sl] by auto
    show "\<forall>q<NPROC. \<forall>i. p_state (pget q ?t) = SLEEPING \<longrightarrow> p_chan (pget q ?t) = Some (ChDisk i) \<longrightarrow> b_disk s ! i \<longrightarrow> b_disk ?t ! i"
      using b by blast
    show "\<forall>q<NPROC. p_state (pget q ?t) = SLEEPING \<longrightarrow> p_chan (pget q ?t) = Some ChDiskFree \<longrightarrow> card (free_set s) < 3 \<longrightarrow> card (free_set ?t) < 3"
      using c by simp
  qed
  then have "good ?t (ph(p := Wait_disk i w d0))"
    using reqs_handed [OF r p i d] queues_handed [OF q r p(2) i(1,3) d(1)] by (simp add: good_def)
  moreover have n: "d0 \<notin> set (stages s)" using head_free [OF q r] f by blast
  then have room: "length (ring_items (avail_q s)) < NUM" using stages_room [OF q r n f(1)] by (simp add: stages_def)
  have "outstanding ?t = insert d0 (outstanding s)"
    unfolding outstanding_def handed_simps vring.push_items [OF queuesD(1) [OF q] room] by (auto simp: small_u16 f(1))
  moreover have "\<forall>q j v e. ph q = Wait_disk j v e \<longrightarrow> e \<noteq> d0" using req_head [OF reqs_ok [OF r]] f(2) by blast
  ultimately show ?thesis by blast
qed

lemma not_allocated_good:
  assumes g: "good s ph" and t: "not_allocated s t" and p: "runs p s"
  shows "good t ph \<and> core t = core s \<and> outstanding t = outstanding s \<and> runs p t \<and> card (free_set t) < 3 \<and> bufs t = bufs s"
proof -
  have r: "reqs s ph" and q: "queues s ph" and sl: "sleepers s" using g by (simp_all add: good_def)
  have same: "avail_q t = avail_q s" "used_q t = used_q s" "dev_taken t = dev_taken s" "b_disk t = b_disk s" "info_status t = info_status s"
    "info_b t = info_b s" "vops t = vops s" "bufs t = bufs s" "cur t = cur s" "disk t = disk s" "disk_log t = disk_log s"
    "length (procs t) = length (procs s)" "length (vq_desc t) = length (vq_desc s)" "length (vfree t) = length (vfree s)"
    using t by (simp_all add: not_allocated_def rest_same_def)
  have h: "harmless s t" using t same by (simp add: harmless_def not_allocated_def)
  have f: "free_set t = free_set s" "card (free_set s) < 3" using t by (auto simp: not_allocated_def free_set_def)
  have ps: "\<forall>q<NPROC. pget q t = pget q s \<or> p_state (pget q t) \<noteq> SLEEPING" using t by (simp add: not_allocated_def)
  have run: "runs p t" using p ps same(9) by (auto simp: runs_def)
  have "reqs t ph" by (rule reqs_harmless [OF r h]) (simp add: same)
  moreover have "queues t ph" by (rule queues_same [OF q same(1-5) refl])
  moreover have "sleepers t"
    by (rule sleepers_keep [OF sl ps]) (use run same f in \<open>auto simp: runs_def\<close>)
  ultimately show ?thesis using run f same by (simp add: good_def core_def outstanding_def)
qed

lemma rw_ok:
  assumes g: "good s ph" and p: "runs p s" "\<forall>i w d. ph p \<noteq> Wait_disk i w d"
    and i: "i < length (bufs s)" "b_blockno (bufs s ! i) < 2 ^ 31" "\<forall>q. q \<noteq> p \<longrightarrow> wait_buf (ph q) \<noteq> Some i"
  shows "\<exists>x t. virtio_rw i w s = Some (x, t) \<and> good t (ph(p := x)) \<and> core t = core s \<and>
    (x = Wait_desc i w \<and> outstanding t = outstanding s \<or>
     (\<exists>d. x = Wait_disk i w d \<and> outstanding t = insert d (outstanding s) \<and> (\<forall>q j v e. ph q = Wait_disk j v e \<longrightarrow> e \<noteq> d)))"
proof -
  have r: "reqs s ph" using g by (simp add: good_def)
  have pn: "p < NPROC" using p(1) by (simp add: runs_def)
  show ?thesis
  proof (cases rule: alloc3_cases [OF reqs_len(1,2,7) [OF r]])
    case (1 d0 d1 d2)
    let ?t = "handed i w d0 d1 d2 s"
    note h = handed_good [OF g pn p(2) i 1(2-5), of w]
    have rt: "runs p ?t" using p(1) by (simp add: runs_def)
    have b: "b_disk ?t ! i" using i(1) reqs_len(6) [OF r] by simp
    obtain u where u: "virtio_wait i w d0 ?t = Some (Wait_disk i w d0, u)" "good u (ph(p := Wait_disk i w d0))" "core u = core ?t" "outstanding u = outstanding ?t"
      using wait_ok [OF conjunct1 [OF h], of p i w d0] rt b by auto
    have "virtio_rw i w s = Some (Wait_disk i w d0, u)"
      using u(1) 1(1) by (simp add: virtio_rw_def handed_def)
    moreover have "core u = core s" using u(3) by (simp add: core_def)
    ultimately show ?thesis using u h by auto
  next
    case (2 t)
    note n = not_allocated_good [OF g 2(2) p(1)]
    obtain u where u: "sleep ChDiskFree t = Some u" "good u ph" "core u = core t" "outstanding u = outstanding t"
      using sleep_ok [of t ph p ChDiskFree] n by (auto simp: runs_def)
    have "bufs u = bufs s" using u(3) n by (simp add: core_def)
    then have "good u (ph(p := Wait_desc i w))" using good_phase [OF u(2) pn p(2)] i by simp
    moreover have "virtio_rw i w s = Some (Wait_desc i w, u)" using 2(1) u(1) by (simp add: virtio_rw_def)
    ultimately show ?thesis using u n by auto
  qed
qed

lemma dispatch_good:
  assumes "good s ph" "p < NPROC"
  shows "good (dispatch p s) ph \<and> core (dispatch p s) = core s \<and> outstanding (dispatch p s) = outstanding s \<and> runs p (dispatch p s)"
    "good (wake p (dispatch p s)) ph \<and> core (wake p (dispatch p s)) = core s \<and> outstanding (wake p (dispatch p s)) = outstanding s \<and>
      runs p (wake p (dispatch p s))"
proof -
  have l: "length (procs s) = NPROC" and sl: "sleepers s" using assms(1) reqs_len(7) by (auto simp: good_def)
  have "procs_only s (dispatch p s)" "procs_only s (wake p (dispatch p s))"
    by (simp_all add: procs_only_def rest_same_def dispatch_def wake_def pset_def)
  moreover have "runs p (dispatch p s)" "runs p (wake p (dispatch p s))"
    using assms(2) l by (simp_all add: runs_def dispatch_def wake_def pset_def)
  ultimately show "good (dispatch p s) ph \<and> core (dispatch p s) = core s \<and> outstanding (dispatch p s) = outstanding s \<and> runs p (dispatch p s)"
    "good (wake p (dispatch p s)) ph \<and> core (wake p (dispatch p s)) = core s \<and> outstanding (wake p (dispatch p s)) = outstanding s \<and>
      runs p (wake p (dispatch p s))"
    using procs_only_good [OF assms(1)] sleepers_run [OF sl assms(2) l] by blast+
qed

lemma resume_ok:
  assumes g: "good s ph" and p: "p < NPROC" "ph p \<noteq> Finished"
  shows "\<exists>x t. virtio_resume p (ph p) s = Some (x, t) \<and> good t (ph(p := x)) \<and> core t = core s \<and>
    (\<forall>i w. ph p = Wait_desc i w \<longrightarrow> x = Wait_desc i w \<and> outstanding t = outstanding s \<or>
       (\<exists>d. x = Wait_disk i w d \<and> outstanding t = insert d (outstanding s) \<and> (\<forall>q j v e. ph q = Wait_disk j v e \<longrightarrow> e \<noteq> d))) \<and>
    (\<forall>i w d. ph p = Wait_disk i w d \<longrightarrow> outstanding t = outstanding s \<and> (x = Wait_disk i w d \<or> x = Finished \<and> d \<notin> outstanding s))"
proof -
  let ?s = "wake p (dispatch p s)"
  note d = dispatch_good(2) [OF g p(1)]
  have c: "bufs ?s = bufs s" using d by (simp add: core_def)
  have r: "reqs s ph" using g by (simp add: good_def)
  show ?thesis
  proof (cases "ph p")
    case Finished
    then show ?thesis using p(2) by simp
  next
    case (Wait_desc i w)
    have "wait_buf (ph p) = Some i" using Wait_desc by simp
    then have i: "i < length (bufs ?s)" "b_blockno (bufs ?s ! i) < 2 ^ 31" "\<forall>q. q \<noteq> p \<longrightarrow> wait_buf (ph q) \<noteq> Some i"
      using reqs_buf [OF r] reqs_one [OF r] unfolding c by blast+
    have "\<forall>i w d. ph p \<noteq> Wait_disk i w d" using Wait_desc by simp
    from rw_ok [OF _ _ this i, of w] d Wait_desc show ?thesis by (auto simp: virtio_resume_def)
  next
    case (Wait_disk i w e)
    from wait_ok [of ?s ph p i w e] d Wait_disk show ?thesis by (auto simp: virtio_resume_def split: if_splits)
  qed
qed

lemma intr_good:
  assumes "good s ph"
  shows "\<exists>t. virtio_disk_intr s = Some t \<and> good t ph \<and> core t = core s \<and> outstanding t = outstanding s"
  using assms
proof (induction s rule: virtio_disk_intr.induct)
  case (1 s)
  have r: "reqs s ph" and q: "queues s ph" and sl: "sleepers s" using "1.prems" by (simp_all add: good_def)
  show ?case
  proof (cases "used_idx s = used_hw s")
    case True
    then show ?thesis using "1.prems" by (subst virtio_disk_intr.simps) simp
  next
    case False
    define succ where "succ i = (wakeup (ChDisk i) (s\<lparr>b_disk := (b_disk s)[i := False]\<rparr>))\<lparr>used_idx := used_idx s + 1\<rparr>" for i
    obtain i where i: "intr_one s = Some (succ i)" "reqs (succ i) ph" "queues (succ i) ph"
      using intr_one_ok [OF r q False] unfolding succ_def by blast
    let ?t = "succ i"
    have "sleepers ?t" unfolding succ_def by (rule intr_wakes [OF sl reqs_len(7) [OF r]])
    then have "good ?t ph" using i by (simp add: good_def)
    from "1.IH" [OF False i(1) this] obtain u where u: "virtio_disk_intr ?t = Some u" "good u ph" "core u = core ?t" "outstanding u = outstanding ?t" by blast
    have "virtio_disk_intr s = Some u" using False i(1) u(1) by (subst virtio_disk_intr.simps) simp
    moreover have "core ?t = core s" "outstanding ?t = outstanding s" by (simp_all add: succ_def core_def outstanding_def)
    ultimately show ?thesis using u(2-4) by simp
  qed
qed

text \<open>What the device may do to a state of the driver.\<close>

lemma device_good:
  assumes g: "good s ph" and t: "device_may s t"
  shows "good t ph \<and> (core t = core s \<and> outstanding t = outstanding s \<or>
    (\<exists>p i w h. ph p = Wait_disk i w h \<and> h \<in> outstanding s \<and> core t = core (virtio_disk_rw i w s) \<and> outstanding t = outstanding s - {h}))"
proof -
  have r: "reqs s ph" and q: "queues s ph" and sl: "sleepers s" using g by (simp_all add: good_def)
  have slp: "sleepers u" if "procs u = procs s" "cur u = cur s" "b_disk u = b_disk s" "vfree u = vfree s" for u
    by (rule sleepers_keep [OF sl]) (use that sleepersD [OF sl] in \<open>auto simp: free_set_def\<close>)
  from t show ?thesis
  proof cases
    case take_next
    have "sleepers t" unfolding take_next(1) by (rule slp) (simp_all add: device_take_def)
    moreover have "core t = core s" by (simp add: take_next(1) device_take_def core_def)
    ultimately show ?thesis using take_ok [OF r q take_next(2)] take_next(1) by (simp add: good_def outstanding_def)
  next
    case (carry_out h j v b m)
    obtain p i w where p: "ph p = Wait_disk i w h" "request_at h s = Some (i, w, b_blockno (bufs s ! i), h)"
      "reqs (device_done h h (virtio_disk_rw i w s)) ph" "queues (device_done h h (virtio_disk_rw i w s)) ph"
      "outstanding (device_done h h (virtio_disk_rw i w s)) = outstanding s - {h}"
      using done_ok [OF r q carry_out(2)] unfolding outstanding_def by blast
    have te: "t = device_done h h (virtio_disk_rw i w s)" 
    proof -
      have "j = i" "v = w" "b = b_blockno (bufs s ! i)" "m = h" using carry_out(3) p(2) by auto
      then show ?thesis unfolding carry_out(1) by (simp only: transfer_eq)
    qed
    have "sleepers t" unfolding te by (rule slp) (simp_all add: device_done_def flip: transfer_eq)
    moreover have "core t = core (virtio_disk_rw i w s)" by (simp add: te device_done_def core_def)
    moreover have "h \<in> outstanding s" using carry_out(2) by (simp add: outstanding_def)
    moreover have "good t ph" using p(3,4) \<open>sleepers t\<close> unfolding te good_def by blast
    ultimately show ?thesis using p(1,5) unfolding te by blast
  next
    case (malformed h)
    then show ?thesis using done_ok [OF r q malformed(1)] by auto
  qed
qed

subsection \<open>The transfers that the buffer cache relies on\<close>

datatype arequest = Idle | Requested nat bool | Transferred nat bool

primrec arequest_buf :: "arequest \<Rightarrow> nat option" where
  "arequest_buf Idle = None"
| "arequest_buf (Requested i w) = Some i"
| "arequest_buf (Transferred i w) = Some i"

type_synonym aconf = "(buf list \<times> (u32 \<Rightarrow> block) \<times> (u32 \<times> block) list) \<times> (nat \<Rightarrow> arequest)"

text \<open>
  The specification acts under the labels of the driver's steps: a call is a request, the
  device transfers a request or does nothing visible, and a call comes back only from a
  request that has been transferred.
\<close>

inductive astep :: "vaction \<Rightarrow> aconf \<Rightarrow> aconf \<Rightarrow> bool" where
  request: "a p = Idle \<Longrightarrow> \<forall>q. arequest_buf (a q) \<noteq> Some i \<Longrightarrow> astep (Calls p i w) (m, a) (m, a(p := Requested i w))"
| transfers: "a p = Requested i w \<Longrightarrow>
    astep Device_acts (core k, a) (core (virtio_disk_rw i w (k :: kbuf)), a(p := Transferred i w))"
| works: "astep Device_acts c c"
| returns: "a p = Transferred i w \<Longrightarrow> astep (Resumes p) (m, a) (m, a(p := Idle))"
| waits: "a p \<noteq> Idle \<Longrightarrow> astep (Resumes p) (m, a) (m, a)"
| fills: "\<forall>q. arequest_buf (a q) \<noteq> Some i \<Longrightarrow> astep (Fills i) (core k, a) (core (bset i (\<lambda>_. b) (k :: kbuf)), a)"
| kicks: "astep (Kicks p) c c"
| interrupts: "astep Interrupts c c"

definition arequest_of :: "nat set \<Rightarrow> vwait \<Rightarrow> arequest" where
  "arequest_of D x = (case x of Finished \<Rightarrow> Idle | Wait_desc i w \<Rightarrow> Requested i w
     | Wait_disk i w d \<Rightarrow> if d \<in> D then Requested i w else Transferred i w)"

definition abs_conf :: "'a vconf \<Rightarrow> aconf" where
  "abs_conf c = (core (fst c), \<lambda>p. arequest_of (outstanding (fst c)) (snd c p))"

lemma arequest_buf_of [simp]: "arequest_buf (arequest_of D x) = wait_buf x"
  by (cases x) (simp_all add: arequest_of_def)

lemma core_transfer: "core (virtio_disk_rw i w s) = core (virtio_disk_rw i w (kbuf.truncate s))"
  by (simp add: core_def virtio_disk_rw_def bset_def Let_def kbuf.defs)

lemma core_bset: "core (bset i f s) = core (bset i f (kbuf.truncate s))"
  by (simp add: core_def bset_def kbuf.defs)

lemma core_truncate: "core (kbuf.truncate s) = core s"
  by (simp add: core_def kbuf.defs)

lemma kick_good:
  assumes "good s ph"
  shows "good (pset p (\<lambda>q. if p_state q = SLEEPING then q\<lparr>p_state := RUNNABLE\<rparr> else q) s) ph \<and>
    core (pset p (\<lambda>q. if p_state q = SLEEPING then q\<lparr>p_state := RUNNABLE\<rparr> else q) s) = core s \<and>
    outstanding (pset p (\<lambda>q. if p_state q = SLEEPING then q\<lparr>p_state := RUNNABLE\<rparr> else q) s) = outstanding s"
    (is "good ?t ph \<and> _")
proof -
  have sl: "sleepers s" and l: "length (procs s) = NPROC" using assms reqs_len(7) by (auto simp: good_def)
  have g: "pget q ?t = (if q = p \<and> p_state (pget p s) = SLEEPING then (pget p s)\<lparr>p_state := RUNNABLE\<rparr> else pget q s)" if "q < NPROC" for q
    using that l by (simp add: pset_def nth_list_update)
  have o: "cur ?t = cur s" "b_disk ?t = b_disk s" "free_set ?t = free_set s" by (simp_all add: pset_def free_set_def)
  have "sleepers ?t" by (rule sleepers_keep [OF sl]) (use g o sleepersD [OF sl] in auto)
  moreover have "procs_only s ?t" by (simp add: procs_only_def rest_same_def pset_def)
  ultimately show ?thesis using procs_only_good [OF assms] by blast
qed

lemma fill_good:
  assumes g: "good s ph" and i: "\<forall>q. wait_buf (ph q) \<noteq> Some i"
  shows "good (bset i (\<lambda>_. b) s) ph \<and> outstanding (bset i (\<lambda>_. b) s) = outstanding s"
proof -
  have r: "reqs s ph" and q: "queues s ph" and sl: "sleepers s" using g by (simp_all add: good_def)
  let ?t = "bset i (\<lambda>_. b) s"
  have h: "harmless s ?t" by (simp add: harmless_def bset_def)
  have e: "b_blockno (bufs ?t ! j) = b_blockno (bufs s ! j)" if "wait_buf (ph p) = Some j" for p j
  proof -
    have "j \<noteq> i" using that i by auto
    then show ?thesis by (simp add: bset_def)
  qed
  have "reqs ?t ph" using reqs_harmless [OF r h] e by blast
  moreover have "queues ?t ph" by (rule queues_same [OF q]) (simp_all add: bset_def)
  moreover have "sleepers ?t" by (rule sleepers_keep [OF sl]) (use sleepersD [OF sl] in \<open>auto simp: bset_def free_set_def\<close>)
  ultimately show ?thesis by (simp add: good_def outstanding_def bset_def)
qed

text \<open>One step of a call changes only the caller's request.\<close>

lemma abs_call:
  assumes "core t = core s" "\<And>q. q \<noteq> p \<Longrightarrow> arequest_of (outstanding t) (ph q) = arequest_of (outstanding s) (ph q)"
  shows "abs_conf (t, ph(p := x)) = (core s, (\<lambda>q. arequest_of (outstanding s) (ph q))(p := arequest_of (outstanding t) x))"
  using assms by (auto simp: abs_conf_def)

lemma arequest_same: "(\<And>j v e. x = Wait_disk j v e \<Longrightarrow> e \<in> D \<longleftrightarrow> e \<in> E) \<Longrightarrow> arequest_of D x = arequest_of E x"
  by (cases x) (auto simp: arequest_of_def)

lemma step_good:
  assumes dev: "\<And>s t. dev s t \<Longrightarrow> device_may s t"
    and st: "vstep dev l c c'" and g: "good (fst c) (snd c)"
  shows "good (fst c') (snd c') \<and> astep l (abs_conf c) (abs_conf c')"
  using st
proof cases
  case (call p ph s i w x t)
  have g: "good s ph" using g call(2) by simp
  note d = dispatch_good(1) [OF g call(4)]
  let ?s = "dispatch p s"
  have b: "bufs ?s = bufs s" using d by (simp add: core_def)
  have nd: "\<forall>i w d. ph p \<noteq> Wait_disk i w d" using call(5) by simp
  have i: "i < length (bufs ?s)" "b_blockno (bufs ?s ! i) < 2 ^ 31" "\<forall>q. q \<noteq> p \<longrightarrow> wait_buf (ph q) \<noteq> Some i" using call(7-9) b by simp_all
  from rw_ok [OF _ _ nd i, of w] d call(10)
  have t: "good t (ph(p := x))" "core t = core s"
    "x = Wait_desc i w \<and> outstanding t = outstanding s \<or>
     (\<exists>d. x = Wait_disk i w d \<and> outstanding t = insert d (outstanding s) \<and> (\<forall>q j v e. ph q = Wait_disk j v e \<longrightarrow> e \<noteq> d))" by auto
  have "arequest_of (outstanding t) (ph q) = arequest_of (outstanding s) (ph q)" for q
    using t(3) by (intro arequest_same) auto
  then have "abs_conf (t, ph(p := x)) = (core s, (\<lambda>q. arequest_of (outstanding s) (ph q))(p := Requested i w))"
    using abs_call [OF t(2), of p ph x] t(3) by (auto simp: arequest_of_def)
  moreover have "astep (Calls p i w) (abs_conf (s, ph)) (core s, (\<lambda>q. arequest_of (outstanding s) (ph q))(p := Requested i w))"
    unfolding abs_conf_def fst_conv snd_conv by (rule request) (simp_all add: call(9), simp add: call(5) arequest_of_def)
  ultimately show ?thesis using t(1) call(1-3) by simp
next
  case (resume p ph s x t)
  have g: "good s ph" using g resume(2) by simp
  let ?a = "\<lambda>q. arequest_of (outstanding s) (ph q)"
  have wait: "astep (Resumes p) (abs_conf (s, ph)) (abs_conf (s, ph))"
    unfolding abs_conf_def by (rule waits) (use resume(5) in \<open>auto simp: arequest_of_def split: vwait.splits\<close>)
  have t: "good t (ph(p := x))" "core t = core s"
    "\<And>i w. ph p = Wait_desc i w \<Longrightarrow> x = Wait_desc i w \<and> outstanding t = outstanding s \<or>
       (\<exists>d. x = Wait_disk i w d \<and> outstanding t = insert d (outstanding s) \<and> (\<forall>q j v e. ph q = Wait_disk j v e \<longrightarrow> e \<noteq> d))"
    "\<And>i w d. ph p = Wait_disk i w d \<Longrightarrow> outstanding t = outstanding s \<and> (x = Wait_disk i w d \<or> x = Finished \<and> d \<notin> outstanding s)"
    using resume_ok [OF g resume(4,5)] resume(7) by auto
  have "astep (Resumes p) (abs_conf (s, ph)) (abs_conf (t, ph(p := x)))"
  proof (cases "ph p")
    case Finished
    then show ?thesis using resume(5) by simp
  next
    case (Wait_desc i w)
    note t3 = t(3) [OF Wait_desc]
    have "arequest_of (outstanding t) (ph q) = ?a q" for q using t3 by (intro arequest_same) auto
    then have "abs_conf (t, ph(p := x)) = (core s, ?a(p := arequest_of (outstanding t) x))" by (intro abs_call t(2))
    moreover have "arequest_of (outstanding t) x = ?a p" using t3 Wait_desc by (auto simp: arequest_of_def)
    moreover have "?a(p := ?a p) = ?a" by (rule fun_upd_triv)
    ultimately have "abs_conf (t, ph(p := x)) = (core s, ?a)" by (simp only:)
    then have "abs_conf (t, ph(p := x)) = abs_conf (s, ph)" unfolding abs_conf_def fst_conv snd_conv .
    then show ?thesis using wait by simp
  next
    case (Wait_disk i w d)
    note t4 = t(4) [OF Wait_disk]
    have e: "abs_conf (t, ph(p := x)) = (core s, ?a(p := arequest_of (outstanding s) x))" using abs_call [OF t(2), of p ph x] t4 by simp
    show ?thesis
    proof (cases "x = Finished")
      case True
      then have "?a p = Transferred i w" using t4 Wait_disk by (auto simp: arequest_of_def)
      then have "astep (Resumes p) (core s, ?a) (core s, ?a(p := Idle))" by (rule returns)
      moreover have "arequest_of (outstanding s) Finished = Idle" by (simp add: arequest_of_def)
      ultimately show ?thesis unfolding e abs_conf_def [of "(s, ph)"] fst_conv snd_conv by (simp only: True)
    next
      case False
      then have "x = ph p" using t4 Wait_disk by simp
      moreover have "?a(p := ?a p) = ?a" by (rule fun_upd_triv)
      ultimately have "abs_conf (t, ph(p := x)) = (core s, ?a)" unfolding e by (simp only:)
      then have "abs_conf (t, ph(p := x)) = abs_conf (s, ph)" unfolding abs_conf_def fst_conv snd_conv .
      then show ?thesis using wait by simp
    qed
  qed
  then show ?thesis using t(1) resume(1-3) by simp
next
  case (kick p s ph)
  then have "good s ph" using g by simp
  from kick_good [OF this, of p] show ?thesis using kick kicks by (simp add: abs_conf_def)
next
  case (fill ph i s b)
  have g: "good s ph" using g fill(2) by simp
  have "astep (Fills i) (core (kbuf.truncate s), \<lambda>p. arequest_of (outstanding s) (ph p)) (core (bset i (\<lambda>_. b) (kbuf.truncate s)), \<lambda>p. arequest_of (outstanding s) (ph p))"
    by (rule fills) (simp add: fill(4))
  then show ?thesis using fill_good [OF g fill(4), of b] fill(1-3) core_bset [of i "\<lambda>_. b" s] by (simp add: abs_conf_def core_truncate)
next
  case (intr s t ph)
  then have "good s ph" using g by simp
  from intr_good [OF this] show ?thesis using intr interrupts by (auto simp: abs_conf_def)
next
  case (device s t ph)
  have g: "good s ph" using g device(2) by simp
  note dg = device_good [OF g dev [OF device(4)]]
  then consider "core t = core s" "outstanding t = outstanding s"
    | p i w h where "ph p = Wait_disk i w h" "h \<in> outstanding s" "core t = core (virtio_disk_rw i w s)" "outstanding t = outstanding s - {h}"
    by blast
  then have "astep Device_acts (abs_conf (s, ph)) (abs_conf (t, ph))"
  proof cases
    case 1
    then show ?thesis using works by (simp add: abs_conf_def)
  next
    case (2 p i w h)
    let ?a = "\<lambda>q. arequest_of (outstanding s) (ph q)"
    have r: "reqs s ph" using g by (simp add: good_def)
    have "arequest_of (outstanding t) (ph q) = (?a(p := Transferred i w)) q" for q
    proof (cases "q = p")
      case True
      then show ?thesis using 2 by (simp add: arequest_of_def)
    next
      case False
      have "e \<in> outstanding t \<longleftrightarrow> e \<in> outstanding s" if "ph q = Wait_disk j v e" for j v e
        using reqs_head [OF r 2(1), of q] that False 2(4) by auto
      then show ?thesis using False arequest_same [of "ph q" "outstanding t" "outstanding s"] by simp
    qed
    then have e: "abs_conf (t, ph) = (core (virtio_disk_rw i w (kbuf.truncate s)), ?a(p := Transferred i w))"
      using 2(3) core_transfer [of i w s] by (simp add: abs_conf_def fun_eq_iff)
    have "?a p = Requested i w" using 2(1,2) by (simp add: arequest_of_def)
    then have "astep Device_acts (core (kbuf.truncate s), ?a) (core (virtio_disk_rw i w (kbuf.truncate s)), ?a(p := Transferred i w))" by (rule transfers)
    then show ?thesis unfolding e by (simp add: abs_conf_def core_truncate)
  qed
  then show ?thesis using dg device(1-3) by simp
qed

lemma vstart_good: "vstart s \<Longrightarrow> good s (\<lambda>_. Finished)"
proof -
  assume s: "vstart s"
  have "reqs s (\<lambda>_. Finished)" using s unfolding reqs_def vstart_def by simp
  moreover have e: "stages s = []" using s by (simp add: vstart_def stages_def ring_items.simps)
  have "queues s (\<lambda>_. Finished)" unfolding queues_def e using s by (simp add: vstart_def ring_items.simps)
  moreover have "sleepers s" using s by (simp add: sleepers_def vstart_def)
  ultimately show ?thesis by (simp add: good_def)
qed

lemma vreach_good:
  assumes "\<And>s t. dev s t \<Longrightarrow> device_may s t" "vreach dev c"
  shows "good (fst c) (snd c)"
  using assms(2)
proof induction
  case (init s)
  then show ?case using vstart_good by simp
next
  case (step c d)
  then show ?case using step_good [OF assms(1)] by blast
qed

text \<open>Every request in the driver has three descriptors of its own, the others are free.\<close>

lemma descriptors_count:
  assumes "reqs s ph"
  shows "card (free_set s) + 3 * card {p. \<exists>i w d. ph p = Wait_disk i w d} = NUM"
proof -
  let ?P = "{p. \<exists>i w d. ph p = Wait_disk i w d}"
  define head where "head p = (case ph p of Wait_disk i w d \<Rightarrow> d | _ \<Rightarrow> 0)" for p
  have h: "\<exists>i w. ph p = Wait_disk i w (head p) \<and> req_ok s i w (head p)" if "p \<in> ?P" for p
    using that reqs_ok [OF assms] by (auto simp: head_def)
  have fin: "finite ?P" by (rule finite_subset [of _ "{..<NPROC}"]) (use reqs_proc [OF assms] in auto)
  have three: "card (own s (head p)) = 3" if "p \<in> ?P" for p
    using h [OF that] by (auto elim!: req_okE)
  have "card (\<Union>p\<in>?P. own s (head p)) = (\<Sum>p\<in>?P. card (own s (head p)))"
  proof (rule card_UN_disjoint [OF fin])
    show "\<forall>p\<in>?P. finite (own s (head p))" by (simp add: own_def)
    show "\<forall>p\<in>?P. \<forall>q\<in>?P. p \<noteq> q \<longrightarrow> own s (head p) \<inter> own s (head q) = {}" using h reqs_apart [OF assms] by metis
  qed
  also have "\<dots> = 3 * card ?P" using three by simp
  finally have c: "card (\<Union>p\<in>?P. own s (head p)) = 3 * card ?P" .
  have "free_set s \<union> (\<Union>p\<in>?P. own s (head p)) = {..<NUM}"
  proof
    show "free_set s \<union> (\<Union>p\<in>?P. own s (head p)) \<subseteq> {..<NUM}" using h req_own by (fastforce simp: free_set_def)
    show "{..<NUM} \<subseteq> free_set s \<union> (\<Union>p\<in>?P. own s (head p))"
    proof
      fix x assume x: "x \<in> {..<NUM}"
      show "x \<in> free_set s \<union> (\<Union>p\<in>?P. own s (head p))"
      proof (cases "vfree s ! x")
        case False
        then obtain p i w d where "ph p = Wait_disk i w d" "x \<in> own s d" using reqs_owner [OF assms] x by blast
        then have "p \<in> ?P" "x \<in> own s (head p)" by (auto simp: head_def)
        then show ?thesis by blast
      qed (use x in \<open>simp add: free_set_def\<close>)
    qed
  qed
  moreover have "free_set s \<inter> (\<Union>p\<in>?P. own s (head p)) = {}" using h req_own by (fastforce simp: free_set_def)
  ultimately have "card (free_set s) + card (\<Union>p\<in>?P. own s (head p)) = card {..<NUM}"
    using card_Un_disjoint [of "free_set s" "\<Union>p\<in>?P. own s (head p)"] fin by (simp add: free_set_def own_def)
  then show ?thesis using c by simp
qed

text \<open>
  A start state, and a device that only takes requests: one of those that the specification
  allows.
\<close>

definition demo_vdisk :: vdisk where
  "demo_vdisk = kbuf.extend (kbuf.truncate (demo_kernel (\<lambda>_. 0) 0 (replicate NPROC demo_proc)))
     (vdisk.fields (replicate NUM zero_desc) (replicate NUM 0) 0 (replicate NUM 0) 0 (replicate NUM True) 0
       (replicate NUM None) (replicate NUM 0) (replicate NUM \<lparr>vr_type = 0, vr_reserved = 0, vr_sector = 0\<rparr>)
       [False] 0 [] [])
     \<lparr>cur := None, bufs := [\<lparr>b_valid = False, b_dev = 1, b_blockno = 7, b_lock = initsleeplock, b_refcnt = 1, b_data = \<lambda>_. 0\<rparr>]\<rparr>"

definition demo_device :: "vdisk \<Rightarrow> vdisk \<Rightarrow> bool" where
  "demo_device s t \<longleftrightarrow> dev_avail s \<noteq> avail_idx s \<and> t = device_take s"

lemma demo_device_may: "demo_device s t \<Longrightarrow> device_may s t"
  by (auto simp: demo_device_def intro: take_next)

lemma demo_vdisk_sel:
  "bufs demo_vdisk = [\<lparr>b_valid = False, b_dev = 1, b_blockno = 7, b_lock = initsleeplock, b_refcnt = 1, b_data = \<lambda>_. 0\<rparr>]"
  "procs demo_vdisk = replicate NPROC demo_proc"
  by (simp_all add: demo_vdisk_def kbuf.defs vdisk.defs demo_kernel_def)

lemma demo_vdisk_start: "vstart demo_vdisk"
  unfolding vstart_def demo_vdisk_sel
  by (simp add: demo_vdisk_def kbuf.defs vdisk.defs demo_proc_def init_proc_def)

lemma demo_vdisk_reach: "vreach demo_device (demo_vdisk, \<lambda>_. Finished)"
  by (rule vreach.init [OF demo_vdisk_start])

text \<open>C3. The disk driver is safe.  Whatever the interleaving of the calls, the interrupts and a device
  that follows the virtio specification: the interrupt handler never panics, and neither does
  a call that starts or goes on; the free descriptors and three for each request
  in the driver are all descriptors, so that none is lost or used twice; and no wakeup is
  lost: a process that sleeps on its buffer has a request that is not yet done,
  and one that sleeps on the free descriptors cannot get three.\<close>

theorem virtio_safe:
  assumes "\<And>s t. dev s t \<Longrightarrow> device_may s t" "vreach dev (s, ph)"
  shows "virtio_disk_intr s \<noteq> None \<and>
    (\<forall>p<NPROC. ph p \<noteq> Finished \<longrightarrow> virtio_resume p (ph p) s \<noteq> None) \<and>
    (\<forall>p<NPROC. \<forall>i<length (bufs s). \<forall>w. ph p = Finished \<longrightarrow> b_blockno (bufs s ! i) < 2 ^ 31 \<longrightarrow>
       (\<forall>q. wait_buf (ph q) \<noteq> Some i) \<longrightarrow> virtio_rw i w (dispatch p s) \<noteq> None) \<and>
    card {x. x < NUM \<and> vfree s ! x} + 3 * card {p. \<exists>i w d. ph p = Wait_disk i w d} = NUM \<and>
    (\<forall>q<NPROC. p_state (pget q s) = SLEEPING \<longrightarrow>
       (\<forall>i. p_chan (pget q s) = Some (ChDisk i) \<longrightarrow> b_disk s ! i) \<and>
       (p_chan (pget q s) = Some ChDiskFree \<longrightarrow> card {x. x < NUM \<and> vfree s ! x} < 3))"
proof (intro conjI allI impI)
  have g: "good s ph" using vreach_good [OF assms] by simp
  have r: "reqs s ph" and sl: "sleepers s" using g by (simp_all add: good_def)
  show "virtio_disk_intr s \<noteq> None" using intr_good [OF g] by auto
  show "virtio_resume p (ph p) s \<noteq> None" if "p < NPROC" "ph p \<noteq> Finished" for p using resume_ok [OF g that] by auto
  show "virtio_rw i w (dispatch p s) \<noteq> None"
    if "p < NPROC" "i < length (bufs s)" "ph p = Finished" "b_blockno (bufs s ! i) < 2 ^ 31" "\<forall>q. wait_buf (ph q) \<noteq> Some i" for p i w
  proof -
    note d = dispatch_good(1) [OF g that(1)]
    then have "bufs (dispatch p s) = bufs s" by (simp add: core_def)
    then show ?thesis using rw_ok [of "dispatch p s" ph p i w] d that by auto
  qed
  show "card {x. x < NUM \<and> vfree s ! x} + 3 * card {p. \<exists>i w d. ph p = Wait_disk i w d} = NUM"
    using descriptors_count [OF r] by (simp add: free_set_def)
  show "b_disk s ! i" if "q < NPROC" "p_state (pget q s) = SLEEPING" "p_chan (pget q s) = Some (ChDisk i)" for q i
    using sleepersD [OF sl that(1,2)] that(3) by blast
  show "card {x. x < NUM \<and> vfree s ! x} < 3" if "q < NPROC" "p_state (pget q s) = SLEEPING" "p_chan (pget q s) = Some ChDiskFree" for q
    using sleepersD [OF sl that(1,2)] that(3) by (simp add: free_set_def)
qed

theorem virtio_safe_witness:
  "virtio_disk_intr demo_vdisk \<noteq> None \<and> virtio_rw 0 True (dispatch 3 demo_vdisk) \<noteq> None \<and> card {x. x < NUM \<and> vfree demo_vdisk ! x} = NUM"
  using virtio_safe [OF demo_device_may demo_vdisk_reach] by (auto simp: demo_vdisk_sel NPROC_def)

text \<open>C10. The disk driver implements the transfers that the buffer cache is built on.  For its
  callers each call of \<open>virtio_disk_rw\<close> is a request that is transferred once, by one step of
  \<open>virtio_disk_rw\<close> of the buffer cache, and then returns.  In any order of the calls,
  interrupts and actions of the device: a call makes its request, and has not returned
  then; an action of the device transfers one request that has been made, or changes nothing that
  the callers see; a caller that goes on returns only if its request has been transferred,
  and otherwise waits on; interrupts change nothing that the callers see.  \<open>abs_conf\<close> maps a
  call that has returned to \<open>Idle\<close>.\<close>

theorem virtio_refines_transfer:
  assumes "\<And>s t. dev s t \<Longrightarrow> device_may s t" "vreach dev c" "vstep dev l c c'"
  shows "astep l (abs_conf c) (abs_conf c')"
  using step_good [OF assms(1,3) vreach_good [OF assms(1,2)]] by blast

theorem virtio_refines_transfer_witness:
  "\<exists>x t. virtio_rw 0 True (dispatch 3 demo_vdisk) = Some (x, t) \<and>
    astep (Calls 3 0 True) (abs_conf (demo_vdisk, \<lambda>_. Finished)) (abs_conf (t, (\<lambda>_. Finished)(3 := x)))"
proof -
  note d = dispatch_good(1) [OF vstart_good [OF demo_vdisk_start], of 3]
  then have "bufs (dispatch 3 demo_vdisk) = bufs demo_vdisk" by (simp add: core_def NPROC_def)
  then obtain x t where t: "virtio_rw 0 True (dispatch 3 demo_vdisk) = Some (x, t)"
    using rw_ok [of "dispatch 3 demo_vdisk" "\<lambda>_. Finished" 3 0 True] d by (auto simp: demo_vdisk_sel NPROC_def)
  have "vstep demo_device (Calls 3 0 True) (demo_vdisk, \<lambda>_. Finished) (t, (\<lambda>_. Finished)(3 := x))"
    by (rule vstep.call [OF _ _ _ _ _ _ t]) (simp_all add: demo_vdisk_sel NPROC_def demo_proc_def init_proc_def)
  from virtio_refines_transfer [OF demo_device_may demo_vdisk_reach this] t show ?thesis by blast
qed

end
