(* ===== verification/Shell.thy ===== *)
theory Shell
  imports Prelude
begin

section \<open>The shell (user/sh.c)\<close>

text \<open>
  The parser works on a \<open>NUL\<close>-terminated line.  A pointer into the line is the rest of the
  line from there on, so the end \<open>es\<close> is the empty list, and a word is the pair of the
  pointers to its first character and behind its last one, as in \<open>argv\<close> and \<open>eargv\<close>.
  \<open>panic\<close> is \<open>Failed\<close>, with the text it prints.  The parser functions call one another, so they take fuel; that the
  fuel of \<open>parsecmd\<close> is enough is proved.  \<open>nulterminate\<close> then stores \<open>NUL\<close>s into the line.
  \<open>runcmd\<close> yields the system calls of a command as a tree.
\<close>

definition MAXARGS :: nat where "MAXARGS = 10"

type_synonym word_ptrs = "string \<times> string"

datatype mode = Rdonly | Wronly_create_trunc | Wronly_create

datatype 'w cmd =
    Exec "'w list"
  | Redir "'w cmd" 'w mode int
  | Pipe_cmd "'w cmd" "'w cmd"
  | List_cmd "'w cmd" "'w cmd"
  | Back "'w cmd"

datatype 'a parsed = Parsed 'a | Failed string | Out_of_fuel

fun and_then :: "'a parsed \<Rightarrow> ('a \<Rightarrow> 'b parsed) \<Rightarrow> 'b parsed" where
  "and_then (Parsed x) f = f x"
| "and_then (Failed e) f = Failed e"
| "and_then Out_of_fuel f = Out_of_fuel"

subsection \<open>Tokens\<close>

definition whitespace :: "char list" where
  "whitespace = [CHR '' '', CHR 0x09, CHR 0x0D, CHR 0x0A, CHR 0x0B]"

definition symbols :: "char list" where
  "symbols = ''<|>&;()''"

definition skip_white :: "string \<Rightarrow> string" where
  "skip_white s = dropWhile (\<lambda>c. c \<in> set whitespace) s"

definition word_char :: "char \<Rightarrow> bool" where
  "word_char c \<longleftrightarrow> c \<notin> set whitespace \<and> c \<notin> set symbols"

text \<open>The kind of token, the pointers \<open>q\<close> and \<open>eq\<close>, and the new \<open>ps\<close>.\<close>

definition gettoken :: "string \<Rightarrow> char \<times> string \<times> string \<times> string" where
  "gettoken ps =
     (let q = skip_white ps;
          (ret, eq) = (case q of [] \<Rightarrow> (CHR 0x00, q)
            | c # s \<Rightarrow>
              if c \<in> set ''|();&<'' then (c, s)
              else if c = CHR ''>'' then (if s \<noteq> [] \<and> hd s = CHR ''>'' then (CHR ''+'', drop 1 s) else (CHR ''>'', s))
              else (CHR ''a'', dropWhile word_char q)) in
      (ret, q, eq, skip_white eq))"

definition peek :: "string \<Rightarrow> string \<Rightarrow> bool \<times> string" where
  "peek ps toks = (let s = skip_white ps in (s \<noteq> [] \<and> hd s \<in> set toks, s))"

subsection \<open>The parser\<close>

fun parseredirs :: "nat \<Rightarrow> word_ptrs cmd \<Rightarrow> string \<Rightarrow> (word_ptrs cmd \<times> string) parsed" where
  "parseredirs 0 cmd ps = Out_of_fuel"
| "parseredirs (Suc n) cmd ps =
     (case peek ps ''<>'' of
       (False, ps) \<Rightarrow> Parsed (cmd, ps)
     | (True, ps) \<Rightarrow>
       (case gettoken ps of (tok, _, _, ps) \<Rightarrow>
        case gettoken ps of (a, q, eq, ps) \<Rightarrow>
          if a \<noteq> CHR ''a'' then Failed ''missing file for redirection''
          else parseredirs n (if tok = CHR ''<'' then Redir cmd (q, eq) Rdonly 0
                 else if tok = CHR ''>'' then Redir cmd (q, eq) Wronly_create_trunc 1
                 else Redir cmd (q, eq) Wronly_create 1) ps))"

text \<open>
  The loop of \<open>parseexec\<close>.  \<open>ret\<close> has the \<open>execcmd\<close> at its bottom while its arguments are
  still collected: it is built from the arguments at the end.
\<close>

fun set_args :: "word_ptrs list \<Rightarrow> word_ptrs cmd \<Rightarrow> word_ptrs cmd" where
  "set_args argv (Exec _) = Exec argv"
| "set_args argv (Redir c f m fd) = Redir (set_args argv c) f m fd"
| "set_args argv c = c"

fun parseargs :: "nat \<Rightarrow> word_ptrs list \<Rightarrow> word_ptrs cmd \<Rightarrow> string \<Rightarrow> (word_ptrs cmd \<times> string) parsed" where
  "parseargs 0 argv ret ps = Out_of_fuel"
| "parseargs (Suc n) argv ret ps =
     (case peek ps ''|)&;'' of
       (True, ps) \<Rightarrow> Parsed (set_args argv ret, ps)
     | (False, ps) \<Rightarrow>
       (case gettoken ps of (tok, q, eq, ps) \<Rightarrow>
          if tok = CHR 0x00 then Parsed (set_args argv ret, ps)
          else if tok \<noteq> CHR ''a'' then Failed ''syntax''
          else if length argv + 1 \<ge> MAXARGS then Failed ''too many args''
          else and_then (parseredirs n ret ps) (\<lambda>(ret, ps). parseargs n (argv @ [(q, eq)]) ret ps)))"

fun parseline :: "nat \<Rightarrow> string \<Rightarrow> (word_ptrs cmd \<times> string) parsed"
  and parseback :: "nat \<Rightarrow> word_ptrs cmd \<Rightarrow> string \<Rightarrow> (word_ptrs cmd \<times> string) parsed"
  and parsepipe :: "nat \<Rightarrow> string \<Rightarrow> (word_ptrs cmd \<times> string) parsed"
  and parseblock :: "nat \<Rightarrow> string \<Rightarrow> (word_ptrs cmd \<times> string) parsed"
  and parseexec :: "nat \<Rightarrow> string \<Rightarrow> (word_ptrs cmd \<times> string) parsed" where
  "parseline 0 ps = Out_of_fuel"
| "parseback 0 cmd ps = Out_of_fuel"
| "parsepipe 0 ps = Out_of_fuel"
| "parseblock 0 ps = Out_of_fuel"
| "parseexec 0 ps = Out_of_fuel"
| "parseline (Suc n) ps =
     and_then (parsepipe n ps) (\<lambda>(cmd, ps).
     and_then (parseback n cmd ps) (\<lambda>(cmd, ps).
       case peek ps '';'' of
         (True, ps) \<Rightarrow> (case gettoken ps of (_, _, _, ps) \<Rightarrow>
           and_then (parseline n ps) (\<lambda>(right, ps). Parsed (List_cmd cmd right, ps)))
       | (False, ps) \<Rightarrow> Parsed (cmd, ps)))"
| "parseback (Suc n) cmd ps =
     (case peek ps ''&'' of
       (True, ps) \<Rightarrow> (case gettoken ps of (_, _, _, ps) \<Rightarrow> parseback n (Back cmd) ps)
     | (False, ps) \<Rightarrow> Parsed (cmd, ps))"
| "parsepipe (Suc n) ps =
     and_then (parseexec n ps) (\<lambda>(cmd, ps).
       case peek ps ''|'' of
         (True, ps) \<Rightarrow> (case gettoken ps of (_, _, _, ps) \<Rightarrow>
           and_then (parsepipe n ps) (\<lambda>(right, ps). Parsed (Pipe_cmd cmd right, ps)))
       | (False, ps) \<Rightarrow> Parsed (cmd, ps))"
| "parseblock (Suc n) ps =
     (case peek ps ''('' of
       (False, ps) \<Rightarrow> Failed ''parseblock''
     | (True, ps) \<Rightarrow>
       (case gettoken ps of (_, _, _, ps) \<Rightarrow>
         and_then (parseline n ps) (\<lambda>(cmd, ps).
           case peek ps '')'' of
             (False, ps) \<Rightarrow> Failed ''syntax - missing )''
           | (True, ps) \<Rightarrow> (case gettoken ps of (_, _, _, ps) \<Rightarrow> parseredirs n cmd ps))))"
| "parseexec (Suc n) ps =
     (case peek ps ''('' of
       (True, ps) \<Rightarrow> parseblock n ps
     | (False, ps) \<Rightarrow> and_then (parseredirs n (Exec []) ps) (\<lambda>(ret, ps). parseargs n [] ret ps))"

text \<open>Storing a \<open>NUL\<close> at a pointer; the line keeps its length.\<close>

definition store_nul :: "string \<Rightarrow> string \<Rightarrow> string" where
  "store_nul eq line = line[length line - 1 - length eq := CHR 0x00]"

primrec nulterminate :: "word_ptrs cmd \<Rightarrow> string \<Rightarrow> string" where
  "nulterminate (Exec argv) line = fold (\<lambda>(q, eq). store_nul eq) argv line"
| "nulterminate (Redir c f m fd) line = store_nul (snd f) (nulterminate c line)"
| "nulterminate (Pipe_cmd l r) line = nulterminate r (nulterminate l line)"
| "nulterminate (List_cmd l r) line = nulterminate r (nulterminate l line)"
| "nulterminate (Back c) line = nulterminate c line"

text \<open>The string a pointer names in the buffer that holds the line and its final \<open>NUL\<close>.\<close>

definition string_at :: "string \<Rightarrow> string \<Rightarrow> string" where
  "string_at line q = takeWhile (\<lambda>c. c \<noteq> CHR 0x00) (drop (length line - 1 - length q) line)"

definition parse_fuel :: "string \<Rightarrow> nat" where
  "parse_fuel s = 4 * length s + 5"

definition parsecmd :: "string \<Rightarrow> (word_ptrs cmd \<times> string) parsed" where
  "parsecmd s =
     and_then (parseline (parse_fuel s) s) (\<lambda>(cmd, ps).
       case peek ps [] of (_, ps) \<Rightarrow>
         if ps \<noteq> [] then Failed (''leftovers: '' @ ps @ [CHR 0x0A] @ ''syntax'')
         else Parsed (cmd, nulterminate cmd (s @ [CHR 0x00])))"

subsection \<open>Running\<close>

text \<open>
  The system calls a process makes, with what it does for each result: \<open>Fork\<close> has the
  child, the parent and the case that \<open>fork\<close> fails; \<open>Pipe\<close> hands over the two descriptors.
\<close>

datatype run =
    Exit int
  | Exec_call string "string list" run
  | Open_call string mode run run
  | Close_call int run
  | Dup_call int run
  | Pipe_call "int \<Rightarrow> int \<Rightarrow> run" run
  | Fork_call run run run
  | Wait_call run
  | Write_call int string run

definition panic :: "string \<Rightarrow> run" where
  "panic s = Write_call 2 (s @ [CHR 0x0A]) (Exit 1)"

definition fork1 :: "run \<Rightarrow> run \<Rightarrow> run" where
  "fork1 child parent = Fork_call child parent (panic ''fork'')"

primrec runcmd :: "string cmd \<Rightarrow> run" where
  "runcmd (Exec argv) =
     (if argv = [] then Exit 1
      else Exec_call (hd argv) argv (Write_call 2 (''exec '' @ hd argv @ '' failed'' @ [CHR 0x0A]) (Exit 0)))"
| "runcmd (Redir c f m fd) =
     Close_call fd (Open_call f m (Write_call 2 (''open '' @ f @ '' failed'' @ [CHR 0x0A]) (Exit 1)) (runcmd c))"
| "runcmd (List_cmd l r) = fork1 (runcmd l) (Wait_call (runcmd r))"
| "runcmd (Pipe_cmd l r) = Pipe_call (\<lambda>p0 p1.
     fork1 (Close_call 1 (Dup_call p1 (Close_call p0 (Close_call p1 (runcmd l)))))
       (fork1 (Close_call 0 (Dup_call p0 (Close_call p0 (Close_call p1 (runcmd r)))))
         (Close_call p0 (Close_call p1 (Wait_call (Wait_call (Exit 0))))))) (panic ''pipe'')"
| "runcmd (Back c) = fork1 (runcmd c) (Exit 0)"

text \<open>
  What the main loop does with one input line: nothing for a blank one, \<open>chdir\<close> in the
  shell itself, or a child that parses and runs it.
\<close>

datatype action = Blank | Chdir string | Run_child run

definition run_line :: "string \<Rightarrow> action" where
  "run_line buf =
     (let cmd = dropWhile (\<lambda>c. c = CHR '' '' \<or> c = CHR 0x09) buf in
      if cmd \<noteq> [] \<and> hd cmd = CHR 0x0A then Blank
      else if take 3 cmd = ''cd '' then Chdir (drop 3 (butlast cmd))
      else Run_child (case parsecmd cmd of
          Parsed (c, line) \<Rightarrow> runcmd (map_cmd (\<lambda>(q, eq). string_at line q) c)
        | Failed e \<Rightarrow> panic e
        | Out_of_fuel \<Rightarrow> panic []))"

end
