(* ===== verification/ShellRun.thy ===== *)
theory ShellRun
  imports Shell "HOL-Library.Sublist"
begin

section \<open>Properties of the shell's parser\<close>

text \<open>
  First the fuel: every function of the parser consumes, so that the fuel of \<open>parsecmd\<close>
  is enough for every line.  Then the round trip: a command is written out with all its
  subcommands in parentheses, and parsing gives it back.
\<close>

subsection \<open>Tokens\<close>

lemma skip_white_length: "length (skip_white s) \<le> length s"
  by (simp add: skip_white_def length_dropWhile_le)

lemma skip_white_Nil [simp]: "skip_white [] = []"
  by (simp add: skip_white_def)

lemma skip_white_idem [simp]: "skip_white (skip_white s) = skip_white s"
  by (simp add: skip_white_def)

lemma peek_True:
  assumes "peek ps toks = (True, qs)"
  shows "qs = skip_white ps" "qs \<noteq> []" "hd qs \<in> set toks" "length qs \<le> length ps"
  using assms skip_white_length by (auto simp: peek_def Let_def)

lemma peek_snd: "peek ps toks = (b, qs) \<Longrightarrow> length qs \<le> length ps"
  using skip_white_length by (auto simp: peek_def Let_def)

lemma symbol_not_word: "c \<in> set symbols \<Longrightarrow> \<not> word_char c"
  by (simp add: word_char_def)

lemma gettoken_consumes:
  assumes "gettoken ps = (tok, q, eq, rs)" "skip_white ps \<noteq> []"
  shows "length rs < length ps \<and> tok \<noteq> CHR 0x00"
proof -
  obtain c s where q: "skip_white ps = c # s" using assms(2) by (cases "skip_white ps") auto
  have nw: "c \<notin> set whitespace" using q unfolding skip_white_def by (metis hd_dropWhile list.distinct(1) list.sel(1))
  have l: "Suc (length s) \<le> length ps" using skip_white_length [of ps] q by simp
  have d: "length (dropWhile word_char (c # s)) \<le> length s" if "c \<notin> set ''|();&<''" "c \<noteq> CHR ''>''"
  proof -
    have "word_char c" using nw that by (simp add: word_char_def symbols_def)
    then show ?thesis by (simp add: length_dropWhile_le)
  qed
  have "length eq \<le> length s \<and> rs = skip_white eq \<and> tok \<noteq> CHR 0x00"
  proof (cases "c \<in> set ''|();&<''")
    case True
    then show ?thesis using assms(1) q by (auto simp: gettoken_def Let_def)
  next
    case False
    then show ?thesis using assms(1) q d by (auto simp: gettoken_def Let_def split: if_splits)
  qed
  then show ?thesis using skip_white_length [of eq] l by simp
qed

lemma gettoken_length: "gettoken ps = (tok, q, eq, rs) \<Longrightarrow> length rs \<le> length ps"
proof (cases "skip_white ps = []")
  case True
  assume "gettoken ps = (tok, q, eq, rs)"
  then show ?thesis using True by (auto simp: gettoken_def Let_def)
qed (auto dest: gettoken_consumes)

lemma gettoken_tok: "gettoken ps = (tok, q, eq, rs) \<Longrightarrow> tok \<noteq> CHR 0x00 \<Longrightarrow> length rs < length ps"
proof (cases "skip_white ps = []")
  case True
  assume "gettoken ps = (tok, q, eq, rs)" "tok \<noteq> CHR 0x00"
  then show ?thesis using True by (auto simp: gettoken_def Let_def)
qed (auto dest: gettoken_consumes)

subsection \<open>Enough fuel\<close>

text \<open>What a call returns: it does not run out of fuel and it leaves no more than it got.\<close>

definition shrinks :: "string \<Rightarrow> ('a \<times> string) parsed \<Rightarrow> bool" where
  "shrinks ps r \<longleftrightarrow> r \<noteq> Out_of_fuel \<and> (\<forall>x qs. r = Parsed (x, qs) \<longrightarrow> length qs \<le> length ps)"

lemma shrinks_intros [intro, simp]: "length qs \<le> length ps \<Longrightarrow> shrinks ps (Parsed (x, qs))" "shrinks ps (Failed e)"
  by (simp_all add: shrinks_def)

lemma shrinks_mono: "shrinks qs r \<Longrightarrow> length qs \<le> length ps \<Longrightarrow> shrinks ps r"
  by (fastforce simp: shrinks_def)

lemma shrinks_and_then:
  assumes "shrinks ps r" "\<And>x qs. length qs \<le> length ps \<Longrightarrow> shrinks ps (f (x, qs))"
  shows "shrinks ps (and_then r f)"
  using assms by (cases r) (auto simp: shrinks_def)

lemma parseredirs_shrinks: "length ps < n \<Longrightarrow> shrinks ps (parseredirs n cmd ps)"
proof (induction n arbitrary: cmd ps)
  case (Suc n)
  obtain b qs where p: "peek ps ''<>'' = (b, qs)" by (cases "peek ps ''<>''")
  show ?case
  proof (cases b)
    case True
    with p have "peek ps ''<>'' = (True, qs)" by simp
    note pk = peek_True [OF this]
    obtain tok q1 e1 rs where g: "gettoken qs = (tok, q1, e1, rs)" by (cases "gettoken qs")
    obtain a q2 e2 ts where h: "gettoken rs = (a, q2, e2, ts)" by (cases "gettoken rs")
    have "length rs < length qs" using gettoken_consumes [OF g] pk by simp
    then have l: "length ts < n" "length ts \<le> length ps" using gettoken_length [OF h] pk(4) Suc.prems by simp_all
    show ?thesis using p True g h shrinks_mono [OF Suc.IH [OF l(1)] l(2)] by simp
  qed (use p peek_snd [OF p] in simp)
qed simp

lemma parseargs_shrinks: "length ps < n \<Longrightarrow> shrinks ps (parseargs n argv ret ps)"
proof (induction n arbitrary: argv ret ps)
  case (Suc n)
  obtain b qs where p: "peek ps ''|)&;'' = (b, qs)" by (cases "peek ps ''|)&;''")
  note pl = peek_snd [OF p]
  obtain tok q e rs where g: "gettoken qs = (tok, q, e, rs)" by (cases "gettoken qs")
  note gl = gettoken_length [OF g]
  show ?case
  proof (cases "b \<or> tok = CHR 0x00")
    case False
    then have l: "length rs < n" using gettoken_tok [OF g] pl Suc.prems by simp
    have "shrinks rs (and_then (parseredirs n ret rs) (\<lambda>(ret, ps). parseargs n (argv @ [(q, e)]) ret ps))"
    proof (rule shrinks_and_then)
      show "shrinks rs (parseredirs n ret rs)" using l by (rule parseredirs_shrinks)
      fix x and qs :: string assume q: "length qs \<le> length rs"
      then have "shrinks qs (parseargs n (argv @ [(q, e)]) x qs)" using l by (intro Suc.IH) simp
      from shrinks_mono [OF this q] show "shrinks rs (case (x, qs) of (ret, ps) \<Rightarrow> parseargs n (argv @ [(q, e)]) ret ps)" by simp
    qed
    then show ?thesis using p g False gl pl by (auto intro: shrinks_mono)
  qed (use p g pl gl in \<open>auto split: bool.split\<close>)
qed simp

lemma peek_gettoken:
  assumes "peek ps t = (True, qs)" "gettoken qs = (tok, q, e, rs)"
  shows "length rs < length ps"
  using peek_True [OF assms(1)] gettoken_consumes [OF assms(2)] by simp

text \<open>A symbol that is looked for, and taken when it is there.\<close>

lemma shrinks_optional:
  assumes "length ss \<le> length ps" "\<And>qs. length qs \<le> length ps \<Longrightarrow> shrinks ps (no qs)"
    and "\<And>rs. length rs < length ps \<Longrightarrow> shrinks ps (yes rs)"
  shows "shrinks ps (case peek ss t of (True, qs) \<Rightarrow> (case gettoken qs of (_, _, _, rs) \<Rightarrow> yes rs) | (False, qs) \<Rightarrow> no qs)"
proof -
  obtain b qs where p: "peek ss t = (b, qs)" by (cases "peek ss t")
  obtain tok q e rs where g: "gettoken qs = (tok, q, e, rs)" by (cases "gettoken qs")
  show ?thesis
  proof (cases b)
    case True
    then have "length rs < length ss" using p g by (auto intro: peek_gettoken)
    then show ?thesis using True p g assms(1,3) by simp
  next
    case False
    then show ?thesis using p assms(1,2) peek_snd [OF p] by simp
  qed
qed

lemma parser_shrinks:
  "(4 * length ps + 4 \<le> n \<longrightarrow> shrinks ps (parseline n ps)) \<and>
   (4 * length ps + 1 \<le> n \<longrightarrow> shrinks ps (parseback n cmd ps)) \<and>
   (4 * length ps + 3 \<le> n \<longrightarrow> shrinks ps (parsepipe n ps)) \<and>
   (4 * length ps + 1 \<le> n \<longrightarrow> shrinks ps (parseblock n ps)) \<and>
   (4 * length ps + 2 \<le> n \<longrightarrow> shrinks ps (parseexec n ps))"
proof (induction n arbitrary: ps cmd)
  case (Suc n)
  have ln: "shrinks ps (parseline n qs)" if "4 * length qs + 4 \<le> n" "length qs \<le> length ps" for ps qs
    using shrinks_mono [OF _ that(2)] Suc.IH [of qs] that(1) by blast
  have bk: "shrinks ps (parseback n c qs)" if "4 * length qs + 1 \<le> n" "length qs \<le> length ps" for ps qs c
    using shrinks_mono [OF _ that(2)] Suc.IH [of qs c] that(1) by blast
  have pp: "shrinks ps (parsepipe n qs)" if "4 * length qs + 3 \<le> n" "length qs \<le> length ps" for ps qs
    using shrinks_mono [OF _ that(2)] Suc.IH [of qs] that(1) by blast
  have bl: "shrinks ps (parseblock n qs)" if "4 * length qs + 1 \<le> n" "length qs \<le> length ps" for ps qs
    using shrinks_mono [OF _ that(2)] Suc.IH [of qs] that(1) by blast
  have ex: "shrinks ps (parseexec n qs)" if "4 * length qs + 2 \<le> n" "length qs \<le> length ps" for ps qs
    using shrinks_mono [OF _ that(2)] Suc.IH [of qs] that(1) by blast
  have rd: "shrinks ps (parseredirs n c qs)" if "length qs < n" "length qs \<le> length ps" for ps qs c
    using shrinks_mono [OF parseredirs_shrinks [OF that(1)] that(2)] .
  have ar: "shrinks ps (parseargs n av r qs)" if "length qs < n" "length qs \<le> length ps" for ps qs av r
    using shrinks_mono [OF parseargs_shrinks [OF that(1)] that(2)] .
  note steps = shrinks_and_then shrinks_optional ln bk pp bl ex rd ar
  have "shrinks ps (parseline (Suc n) ps)" if "4 * length ps + 4 \<le> Suc n"
    unfolding parseline.simps using that by (auto intro!: steps)
  moreover have "shrinks ps (parseback (Suc n) cmd ps)" if "4 * length ps + 1 \<le> Suc n"
    unfolding parseback.simps using that by (auto intro!: steps)
  moreover have "shrinks ps (parsepipe (Suc n) ps)" if "4 * length ps + 3 \<le> Suc n"
    unfolding parsepipe.simps using that by (auto intro!: steps)
  moreover have "shrinks ps (parseexec (Suc n) ps)" if "4 * length ps + 2 \<le> Suc n"
  proof -
    obtain b qs where p: "peek ps ''('' = (b, qs)" by (cases "peek ps ''(''")
    show ?thesis using that p peek_snd [OF p] by (cases b) (auto intro!: steps)
  qed
  moreover have "shrinks ps (parseblock (Suc n) ps)" if "4 * length ps + 1 \<le> Suc n"
  proof -
    obtain b qs where p: "peek ps ''('' = (b, qs)" by (cases "peek ps ''(''")
    obtain tok q e rs where g: "gettoken qs = (tok, q, e, rs)" by (cases "gettoken qs")
    show ?thesis
    proof (cases b)
      case True
      then have "length rs < length ps" using p peek_gettoken [OF _ g] by simp
      then have "shrinks ps (and_then (parseline n rs) (\<lambda>(cmd, ps).
           case peek ps '')'' of
             (True, ps) \<Rightarrow> (case gettoken ps of (_, _, _, ps) \<Rightarrow> parseredirs n cmd ps)
           | (False, ps) \<Rightarrow> Failed ''syntax - missing )''))"
        using that by (auto intro!: steps)
      then show ?thesis using True p g by (simp cong: bool.case_cong)
    qed (use p in simp)
  qed
  ultimately show ?case by blast
qed simp

lemma parsecmd_total: "parsecmd s \<noteq> Out_of_fuel"
proof -
  have "shrinks s (parseline (parse_fuel s) s)" using parser_shrinks [of s "parse_fuel s"] by (simp add: parse_fuel_def)
  then show ?thesis by (cases "parseline (parse_fuel s) s") (auto simp: parsecmd_def shrinks_def peek_def Let_def split: if_splits)
qed

subsection \<open>Writing a command out\<close>

definition redir_symbol :: "mode \<Rightarrow> string" where
  "redir_symbol m = (case m of Rdonly \<Rightarrow> ''< '' | Wronly_create_trunc \<Rightarrow> ''> '' | Wronly_create \<Rightarrow> ''>> '')"

primrec written :: "string cmd \<Rightarrow> string" where
  "written (Exec argv) = concat (map (\<lambda>w. w @ '' '') argv)"
| "written (Redir c f m fd) = ''( '' @ written c @ '') '' @ redir_symbol m @ f @ '' ''"
| "written (Pipe_cmd l r) = ''( '' @ written l @ '') | ( '' @ written r @ '') ''"
| "written (List_cmd l r) = ''( '' @ written l @ '') ; ( '' @ written r @ '') ''"
| "written (Back c) = ''( '' @ written c @ '') & ''"

text \<open>Commands that can be written: words are nonempty and without blanks and symbols, there are
  at most nine of them, and standard input is what \<open><\<close> redirects.\<close>

definition word_ok :: "string \<Rightarrow> bool" where
  "word_ok w \<longleftrightarrow> w \<noteq> [] \<and> (\<forall>c\<in>set w. word_char c \<and> c \<noteq> CHR 0x00)"

primrec cmd_ok :: "string cmd \<Rightarrow> bool" where
  "cmd_ok (Exec argv) \<longleftrightarrow> length argv < MAXARGS \<and> (\<forall>w\<in>set argv. word_ok w)"
| "cmd_ok (Redir c f m fd) \<longleftrightarrow> cmd_ok c \<and> word_ok f \<and> fd = (if m = Rdonly then 0 else 1)"
| "cmd_ok (Pipe_cmd l r) \<longleftrightarrow> cmd_ok l \<and> cmd_ok r"
| "cmd_ok (List_cmd l r) \<longleftrightarrow> cmd_ok l \<and> cmd_ok r"
| "cmd_ok (Back c) \<longleftrightarrow> cmd_ok c"

text \<open>The pointers of a word of the line \<open>s\<close>.\<close>

definition word_at :: "string \<Rightarrow> word_ptrs \<Rightarrow> string \<Rightarrow> bool" where
  "word_at s p w \<longleftrightarrow> suffix (fst p) s \<and> fst p = w @ snd p \<and> (snd p = [] \<or> \<not> word_char (hd (snd p))) \<and> (\<forall>c\<in>set w. word_char c \<and> c \<noteq> CHR 0x00)"

definition parse_of :: "string \<Rightarrow> word_ptrs cmd \<Rightarrow> string cmd \<Rightarrow> bool" where
  "parse_of s = rel_cmd (word_at s)"

lemma parse_of_simps [simp]:
  "parse_of s (Exec ps) (Exec ws) \<longleftrightarrow> list_all2 (word_at s) ps ws"
  "parse_of s (Redir c p m fd) (Redir d w m' fd') \<longleftrightarrow> parse_of s c d \<and> word_at s p w \<and> m = m' \<and> fd = fd'"
  "parse_of s (Pipe_cmd c c') (Pipe_cmd d d') \<longleftrightarrow> parse_of s c d \<and> parse_of s c' d'"
  "parse_of s (List_cmd c c') (List_cmd d d') \<longleftrightarrow> parse_of s c d \<and> parse_of s c' d'"
  "parse_of s (Back c) (Back d) \<longleftrightarrow> parse_of s c d"
  by (simp_all add: parse_of_def)

lemma word_at_suffix: "word_at t p w \<Longrightarrow> suffix t s \<Longrightarrow> word_at s p w"
  unfolding word_at_def using suffix_order.trans by blast

lemma parse_of_suffix: "parse_of t c d \<Longrightarrow> suffix t s \<Longrightarrow> parse_of s c d"
  unfolding parse_of_def by (erule cmd.rel_mono_strong) (blast intro: word_at_suffix)

subsection \<open>Tokens of a written command\<close>

lemma white [simp]: "skip_white (CHR '' '' # s) = skip_white s"
  by (simp add: skip_white_def whitespace_def)

lemma not_white: "c \<notin> set whitespace \<Longrightarrow> skip_white (c # s) = c # s"
  by (simp add: skip_white_def)

lemma symbol_not_white: "c \<in> set symbols \<Longrightarrow> c \<notin> set whitespace"
  by (auto simp: symbols_def whitespace_def)

lemma peek_symbol: "c \<in> set symbols \<Longrightarrow> peek (c # s) t = (c \<in> set t, c # s)"
  by (simp add: peek_def not_white symbol_not_white)

lemma peek_blank: "peek (CHR '' '' # s) t = peek s t"
  by (simp add: peek_def)

lemma peek_Nil [simp]: "peek [] t = (False, [])"
  by (simp add: peek_def)

lemma peek_word: "word_ok w \<Longrightarrow> set t \<subseteq> set symbols \<Longrightarrow> peek (w @ s) t = (False, w @ s)"
  by (cases w) (auto simp: word_ok_def peek_def not_white word_char_def)

lemma gettoken_symbol: "c \<in> set ''|();&<'' \<Longrightarrow> gettoken (c # CHR '' '' # s) = (c, c # CHR '' '' # s, CHR '' '' # s, skip_white s)"
proof -
  assume c: "c \<in> set ''|();&<''"
  then have "c \<in> set symbols" by (auto simp: symbols_def)
  then show ?thesis using c by (simp add: gettoken_def Let_def not_white symbol_not_white del: set_simps)
qed

lemma gettoken_word:
  assumes "word_ok w"
  shows "gettoken (w @ CHR '' '' # s) = (CHR ''a'', w @ CHR '' '' # s, CHR '' '' # s, skip_white s)"
proof -
  obtain c w' where w: "w = c # w'" using assms by (cases w) (auto simp: word_ok_def)
  have c: "word_char c" "\<forall>d\<in>set w. word_char d" using assms w by (auto simp: word_ok_def)
  then have n: "c \<notin> set whitespace" "c \<notin> set ''|();&<''" "c \<noteq> CHR ''>''" by (auto simp: word_char_def symbols_def)
  have "dropWhile word_char (w @ CHR '' '' # s) = CHR '' '' # s" using c(2) by (simp add: word_char_def whitespace_def)
  then show ?thesis using n w by (simp add: gettoken_def Let_def not_white del: insert_iff set_simps)
qed

text \<open>What follows a subcommand: the end of the line, or a symbol that is not a redirection.\<close>

definition stops :: "string \<Rightarrow> bool" where
  "stops s \<longleftrightarrow> s = [] \<or> hd s \<in> set ''|);&''"

lemma stops_skip: "stops s \<Longrightarrow> skip_white s = s"
  by (cases s) (auto simp: stops_def not_white symbol_not_white symbols_def)

lemma stops_peek: "stops s \<Longrightarrow> peek s t = (s \<noteq> [] \<and> hd s \<in> set t, s)"
  by (simp add: peek_def stops_skip)

lemma redirs_stop: "stops s \<Longrightarrow> 0 < n \<Longrightarrow> parseredirs n c s = Parsed (c, s)"
  by (cases n; cases s) (auto simp: stops_peek stops_def)

lemma redirs_word: "word_ok w \<Longrightarrow> 0 < n \<Longrightarrow> parseredirs n c (w @ s) = Parsed (c, w @ s)"
  by (cases n) (simp_all add: peek_word symbols_def)

lemma redirs_one:
  assumes "word_ok f" "stops s" "1 < n"
  shows "parseredirs n c (redir_symbol m @ f @ '' '' @ s) =
    Parsed (Redir c (f @ '' '' @ s, '' '' @ s) m (if m = Rdonly then 0 else 1), s)"
proof -
  obtain k where n: "n = Suc (Suc k)" using assms(3) by (metis One_nat_def Suc_lessE less_imp_Suc_add)
  have f: "skip_white (f @ x) = f @ x" "f \<noteq> []" for x
    using assms(1) by (cases f; simp add: word_ok_def word_char_def not_white)+
  note w = gettoken_word [OF assms(1), of s] redirs_stop [OF assms(2), of "Suc k"] stops_skip [OF assms(2)]
  show ?thesis
  proof (cases m)
    case Rdonly
    have "gettoken (CHR ''<'' # CHR '' '' # f @ CHR '' '' # s) = (CHR ''<'', CHR ''<'' # CHR '' '' # f @ CHR '' '' # s, CHR '' '' # f @ CHR '' '' # s, f @ CHR '' '' # s)"
      by (subst gettoken_symbol) (simp_all add: f)
    then show ?thesis using Rdonly n w by (simp add: redir_symbol_def peek_symbol symbols_def)
  next
    case Wronly_create_trunc
    have "gettoken (CHR ''>'' # CHR '' '' # f @ CHR '' '' # s) = (CHR ''>'', CHR ''>'' # CHR '' '' # f @ CHR '' '' # s, CHR '' '' # f @ CHR '' '' # s, f @ CHR '' '' # s)"
      by (simp add: gettoken_def not_white whitespace_def f)
    then show ?thesis using Wronly_create_trunc n w by (simp add: redir_symbol_def peek_symbol symbols_def)
  next
    case Wronly_create
    have "gettoken (CHR ''>'' # CHR ''>'' # CHR '' '' # f @ CHR '' '' # s) = (CHR ''+'', CHR ''>'' # CHR ''>'' # CHR '' '' # f @ CHR '' '' # s, CHR '' '' # f @ CHR '' '' # s, f @ CHR '' '' # s)"
      by (simp add: gettoken_def not_white whitespace_def f)
    then show ?thesis using Wronly_create n w by (simp add: redir_symbol_def peek_symbol symbols_def)
  qed
qed

subsection \<open>Parsing a written command\<close>

fun word_list :: "string list \<Rightarrow> string \<Rightarrow> word_ptrs list" where
  "word_list [] s = []"
| "word_list (w # ws) s = (let t = '' '' @ written (Exec ws) @ s in (w @ t, t) # word_list ws s)"

lemma words_kept:
  assumes "\<forall>w\<in>set ws. word_ok w" "stops s"
  shows "skip_white (written (Exec ws) @ s) = written (Exec ws) @ s"
    "0 < n \<Longrightarrow> parseredirs n c (written (Exec ws) @ s) = Parsed (c, written (Exec ws) @ s)"
proof -
  have "word_ok w \<Longrightarrow> skip_white (w @ t) = w @ t" for w t by (cases w) (auto simp: word_ok_def word_char_def not_white)
  then show "skip_white (written (Exec ws) @ s) = written (Exec ws) @ s" using assms by (cases ws) (simp_all add: stops_skip)
  show "0 < n \<Longrightarrow> parseredirs n c (written (Exec ws) @ s) = Parsed (c, written (Exec ws) @ s)"
    using assms by (cases ws) (simp_all add: redirs_stop redirs_word)
qed

lemma args_words:
  assumes "\<forall>w\<in>set ws. word_ok w" "stops s" "length argv + length ws < MAXARGS" "length ws < n"
  shows "parseargs n argv r (written (Exec ws) @ s) = Parsed (set_args (argv @ word_list ws s) r, s)"
  using assms
proof (induction ws arbitrary: n argv)
  case Nil
  then obtain k where "n = Suc k" by (cases n) auto
  then show ?case using Nil by (cases s) (auto simp: stops_peek stops_def gettoken_def)
next
  case (Cons w ws)
  then obtain k where n: "n = Suc k" by (cases n) auto
  let ?t = "written (Exec ws) @ s"
  have w: "word_ok w" and ws: "\<forall>w\<in>set ws. word_ok w" using Cons.prems(1) by simp_all
  have p: "peek (w @ CHR '' '' # ?t) ''|)&;'' = (False, w @ CHR '' '' # ?t)" by (rule peek_word [OF w]) (simp add: symbols_def)
  have g: "gettoken (w @ CHR '' '' # ?t) = (CHR ''a'', w @ CHR '' '' # ?t, CHR '' '' # ?t, ?t)"
    using gettoken_word [OF w, of ?t] words_kept(1) [OF ws Cons.prems(2)] by simp
  have r: "parseredirs k r ?t = Parsed (r, ?t)" using Cons.prems(4) n by (intro words_kept(2) [OF ws Cons.prems(2)]) simp
  have ih: "parseargs k (argv @ [(w @ CHR '' '' # ?t, CHR '' '' # ?t)]) r ?t =
    Parsed (set_args ((argv @ [(w @ CHR '' '' # ?t, CHR '' '' # ?t)]) @ word_list ws s) r, s)"
    using Cons.prems n ws by (intro Cons.IH) simp_all
  have "parseargs n argv r (w @ CHR '' '' # ?t) = Parsed (set_args ((argv @ [(w @ CHR '' '' # ?t, CHR '' '' # ?t)]) @ word_list ws s) r, s)"
    unfolding n parseargs.simps p using Cons.prems(3) by (simp add: g r ih del: written.simps)
  then show ?case by (simp add: Let_def)
qed

lemma word_list_at:
  assumes "\<forall>w\<in>set ws. word_ok w"
  shows "list_all2 (word_at (written (Exec ws) @ s)) (word_list ws s) ws"
  using assms
proof (induction ws)
  case (Cons w ws)
  let ?t = "written (Exec ws) @ s"
  have "suffix ?t (written (Exec (w # ws)) @ s)" by (simp add: suffix_def)
  then have "list_all2 (word_at (written (Exec (w # ws)) @ s)) (word_list ws s) ws"
    using Cons by (intro list_all2_mono [OF Cons.IH]) (auto intro: word_at_suffix)
  moreover have "word_at (written (Exec (w # ws)) @ s) (w @ '' '' @ ?t, '' '' @ ?t) w"
    using Cons.prems by (simp add: word_at_def word_ok_def word_char_def whitespace_def)
  ultimately show ?case by (simp add: Let_def)
qed simp

text \<open>Inside parentheses and at the top a subcommand is followed by a closing one or the end.\<close>

definition ends :: "string \<Rightarrow> bool" where
  "ends s \<longleftrightarrow> s = [] \<or> hd s = CHR '')''"

lemma ends_stops: "ends s \<Longrightarrow> stops s"
  by (auto simp: ends_def stops_def)

lemma ends_peek: "ends s \<Longrightarrow> CHR '')'' \<notin> set t \<Longrightarrow> peek s t = (False, s)"
  by (auto simp: stops_peek ends_stops) (auto simp: ends_def)

definition parses :: "string cmd \<Rightarrow> bool" where
  "parses c \<longleftrightarrow> (\<forall>s n. ends s \<longrightarrow> 4 * length (written c @ s) + 4 \<le> n \<longrightarrow>
     (\<exists>d. parseline n (written c @ s) = Parsed (d, s) \<and> parse_of (written c @ s) d c))"

definition paren :: "string cmd \<Rightarrow> string \<Rightarrow> string" where
  "paren c t = ''( '' @ written c @ '') '' @ t"

lemma paren_suffix: "suffix (written c @ '') '' @ t) (paren c t)" "suffix t (paren c t)"
  by (simp_all add: paren_def suffix_def)

lemma paren_peek: "peek (paren c t) '')'' = (False, paren c t)" "peek (paren c t) ''('' = (True, paren c t)" "skip_white (paren c t) = paren c t"
  by (simp_all add: paren_def peek_symbol symbols_def not_white whitespace_def)

lemma written_skip: "cmd_ok c \<Longrightarrow> skip_white (written c @ '') '' @ t) = written c @ '') '' @ t"
proof (cases c)
  case (Exec ws)
  assume "cmd_ok c"
  then show ?thesis using Exec words_kept(1) [of ws "'') '' @ t"] by (simp add: stops_def)
qed (simp_all add: not_white whitespace_def)

lemma block_exec:
  assumes "cmd_ok c" "parses c" "4 * length (paren c t) + 2 \<le> n"
  shows "\<exists>d. parseexec n (paren c t) = parseredirs (n - 2) d (skip_white t) \<and> parse_of (paren c t) d c"
proof -
  have n: "n = Suc (Suc (n - 2))" using assms(3) by simp
  then obtain k where n: "n = Suc (Suc k)" by blast
  let ?w = "written c @ '') '' @ t"
  have l: "4 * length ?w + 4 \<le> k" using assms(3) n by (simp add: paren_def)
  then obtain d where d: "parseline k ?w = Parsed (d, '') '' @ t)" "parse_of ?w d c"
    using assms(2)[unfolded parses_def, rule_format, of "'') '' @ t" k] by (auto simp: ends_def)
  have g: "gettoken (paren c t) = (CHR ''('', paren c t, '' '' @ ?w, ?w)"
    using written_skip [OF assms(1), of t] by (simp add: paren_def gettoken_symbol)
  then have "parseexec n (paren c t) = parseredirs k d (skip_white t)"
    using d(1) by (simp add: n paren_peek g peek_symbol symbols_def gettoken_symbol)
  then show ?thesis using parse_of_suffix [OF d(2) paren_suffix(1)] n by auto
qed

text \<open>After a command that ends here, the callers of \<open>parseexec\<close> have nothing more to take.\<close>

lemma exec_pipe: "parseexec n x = Parsed (d, s) \<Longrightarrow> ends s \<Longrightarrow> parsepipe (Suc n) x = Parsed (d, s)"
  by (simp add: ends_peek)

lemma back_ends: "ends s \<Longrightarrow> 0 < n \<Longrightarrow> parseback n d s = Parsed (d, s)"
  by (cases n) (simp_all add: ends_peek)

lemma pipe_line: "parsepipe n x = Parsed (d, s) \<Longrightarrow> ends s \<Longrightarrow> 0 < n \<Longrightarrow> parseline (Suc n) x = Parsed (d, s)"
  by (simp add: ends_peek back_ends)

lemma block_stops:
  assumes "cmd_ok c" "parses c" "4 * length (paren c t) + 2 \<le> n" "stops t"
  shows "\<exists>d. parseexec n (paren c t) = Parsed (d, t) \<and> parse_of (paren c t) d c"
  using block_exec [OF assms(1-3)] assms(3,4) by (auto simp: stops_skip redirs_stop paren_def)

lemma words_parse:
  assumes "cmd_ok (Exec ws)"
  shows "parses (Exec ws)"
  unfolding parses_def
proof (intro allI impI)
  fix s n assume s: "ends s" and n: "4 * length (written (Exec ws) @ s) + 4 \<le> n"
  have "n = Suc (Suc (Suc (n - 3)))" using n by simp
  then obtain k where k: "n = Suc (Suc (Suc k))" by blast
  have ok: "\<forall>w\<in>set ws. word_ok w" "length ws < MAXARGS" using assms by auto
  have "length ws \<le> length (written (Exec ws))" by (induction ws) auto
  then have l: "length ws < k" "0 < k" using n k by simp_all
  have p: "peek (written (Exec ws) @ s) ''('' = (False, written (Exec ws) @ s)"
  proof (cases ws)
    case (Cons w vs)
    then show ?thesis using ok(1) peek_word [of w "''(''"] by (simp add: symbols_def)
  qed (use s in \<open>simp add: ends_peek\<close>)
  have "parseexec (Suc k) (written (Exec ws) @ s) = Parsed (Exec (word_list ws s), s)"
    using words_kept(2) [OF ok(1) ends_stops [OF s] l(2)] args_words [OF ok(1) ends_stops [OF s], of "[]"] ok(2) l(1)
    by (simp add: p del: written.simps)
  then have "parseline n (written (Exec ws) @ s) = Parsed (Exec (word_list ws s), s)"
    unfolding k by (intro pipe_line exec_pipe s) simp_all
  then show "\<exists>d. parseline n (written (Exec ws) @ s) = Parsed (d, s) \<and> parse_of (written (Exec ws) @ s) d (Exec ws)"
    using word_list_at [OF ok(1)] by (intro exI [of _ "Exec (word_list ws s)"]) (simp del: written.simps)
qed


lemma redir_parse:
  assumes "cmd_ok c" "parses c" "word_ok f" "fd = (if m = Rdonly then 0 else 1)"
  shows "parses (Redir c f m fd)"
  unfolding parses_def
proof (intro allI impI)
  fix s n assume s: "ends s" and n: "4 * length (written (Redir c f m fd) @ s) + 4 \<le> n"
  let ?t = "redir_symbol m @ f @ '' '' @ s"
  have w: "written (Redir c f m fd) @ s = paren c ?t" by (simp add: paren_def)
  have "n = Suc (Suc (n - 2))" using n by simp
  then obtain k where k: "n = Suc (Suc k)" by blast
  have l: "4 * length (paren c ?t) + 2 \<le> k" using n unfolding w k by simp
  then obtain d where d: "parseexec k (paren c ?t) = parseredirs (k - 2) d (skip_white ?t)" "parse_of (paren c ?t) d c"
    using block_exec [OF assms(1,2)] by blast
  have t: "skip_white ?t = ?t" by (cases m) (simp_all add: redir_symbol_def not_white whitespace_def)
  have r: "parseredirs (k - 2) d ?t = Parsed (Redir d (f @ '' '' @ s, '' '' @ s) m fd, s)"
    using redirs_one [OF assms(3) ends_stops [OF s], of "k - 2" d m] l assms(4) by (simp add: paren_def)
  then have "parseline n (paren c ?t) = Parsed (Redir d (f @ '' '' @ s, '' '' @ s) m fd, s)"
    unfolding k by (intro pipe_line exec_pipe s) (simp_all only: d t zero_less_Suc)
  moreover have "suffix (f @ '' '' @ s) (paren c ?t)" by (simp add: paren_def suffix_def)
  then have "word_at (paren c ?t) (f @ '' '' @ s, '' '' @ s) f"
    using assms(3) by (simp add: word_at_def word_ok_def word_char_def whitespace_def)
  ultimately show "\<exists>d. parseline n (written (Redir c f m fd) @ s) = Parsed (d, s) \<and> parse_of (written (Redir c f m fd) @ s) d (Redir c f m fd)"
    unfolding w using d(2) by (intro exI [of _ "Redir d (f @ '' '' @ s, '' '' @ s) m fd"]) simp
qed

lemma pipe_parse:
  assumes "cmd_ok l" "parses l" "cmd_ok r" "parses r"
  shows "parses (Pipe_cmd l r)"
  unfolding parses_def
proof (intro allI impI)
  fix s n assume s: "ends s" and n: "4 * length (written (Pipe_cmd l r) @ s) + 4 \<le> n"
  let ?t = "''| '' @ paren r s"
  have w: "written (Pipe_cmd l r) @ s = paren l ?t" by (simp add: paren_def)
  have "n = Suc (Suc (n - 2))" using n by simp
  then obtain k where k: "n = Suc (Suc k)" by blast
  have len: "4 * length (paren l ?t) + 2 \<le> k" "4 * length (paren r s) + 3 \<le> k" using n unfolding w k by (simp_all add: paren_def)
  obtain d where d: "parseexec k (paren l ?t) = Parsed (d, ?t)" "parse_of (paren l ?t) d l"
    using block_stops [OF assms(1,2) len(1)] by (auto simp: stops_def)
  have "k = Suc (k - 1)" using len(2) by simp
  then obtain j where j: "k = Suc j" by blast
  obtain e where e: "parseexec j (paren r s) = Parsed (e, s)" "parse_of (paren r s) e r"
    using block_stops [OF assms(3,4), of s j] len(2) ends_stops [OF s] by (auto simp: j)
  have p: "peek ?t ''|'' = (True, ?t)" by (simp add: peek_symbol symbols_def)
  have g: "gettoken ?t = (CHR ''|'', ?t, '' '' @ paren r s, paren r s)" using gettoken_symbol [of "CHR ''|''" "paren r s"] by (simp add: paren_peek)
  have "parsepipe k (paren r s) = Parsed (e, s)" unfolding j by (rule exec_pipe [OF e(1) s])
  then have "parsepipe (Suc k) (paren l ?t) = Parsed (Pipe_cmd d e, s)" unfolding parsepipe.simps(2) d(1) using p g by simp
  then have "parseline n (paren l ?t) = Parsed (Pipe_cmd d e, s)" unfolding k by (intro pipe_line s) simp_all
  moreover have "suffix (paren r s) (paren l ?t)" by (simp add: paren_def suffix_def)
  ultimately show "\<exists>d. parseline n (written (Pipe_cmd l r) @ s) = Parsed (d, s) \<and> parse_of (written (Pipe_cmd l r) @ s) d (Pipe_cmd l r)"
    unfolding w using d(2) parse_of_suffix [OF e(2)] by (intro exI [of _ "Pipe_cmd d e"]) simp
qed

text \<open>A symbol that ends a pipeline.\<close>

lemma block_pipe:
  assumes "cmd_ok c" "parses c" "4 * length (paren c t) + 3 \<le> n" "stops t" "t = [] \<or> hd t \<noteq> CHR ''|''"
  shows "\<exists>d. parsepipe n (paren c t) = Parsed (d, t) \<and> parse_of (paren c t) d c"
proof -
  have "n = Suc (n - 1)" using assms(3) by simp
  then obtain k where k: "n = Suc k" by blast
  then show ?thesis using block_stops [OF assms(1,2), of t k] assms(3-5) by (auto simp: stops_peek)
qed

lemma list_parse:
  assumes "cmd_ok l" "parses l" "cmd_ok r" "parses r"
  shows "parses (List_cmd l r)"
  unfolding parses_def
proof (intro allI impI)
  fix s n assume s: "ends s" and n: "4 * length (written (List_cmd l r) @ s) + 4 \<le> n"
  let ?t = "''; '' @ paren r s"
  have w: "written (List_cmd l r) @ s = paren l ?t" by (simp add: paren_def)
  have "n = Suc (Suc (n - 2))" using n by simp
  then obtain k where k: "n = Suc (Suc k)" by blast
  have len: "4 * length (paren l ?t) + 3 \<le> Suc k" "4 * length (paren r s) + 3 \<le> k" using n unfolding w k by (simp_all add: paren_def)
  obtain d where d: "parsepipe (Suc k) (paren l ?t) = Parsed (d, ?t)" "parse_of (paren l ?t) d l"
    using block_pipe [OF assms(1,2) len(1)] by (auto simp: stops_def)
  obtain e where e: "parsepipe k (paren r s) = Parsed (e, s)" "parse_of (paren r s) e r"
    using block_pipe [OF assms(3,4) len(2) ends_stops [OF s]] s by (auto simp: ends_def)
  have p: "peek ?t ''&'' = (False, ?t)" "peek ?t '';'' = (True, ?t)" by (simp_all add: peek_symbol symbols_def)
  have b: "parseback (Suc k) d ?t = Parsed (d, ?t)" using p(1) by simp
  have g: "gettoken ?t = (CHR '';'', ?t, '' '' @ paren r s, paren r s)" using gettoken_symbol [of "CHR '';''" "paren r s"] by (simp add: paren_peek)
  have "parseline (Suc k) (paren r s) = Parsed (e, s)" using len(2) by (intro pipe_line e s) simp
  then have "parseline n (paren l ?t) = Parsed (List_cmd d e, s)" unfolding k parseline.simps(2) d(1) using b p g by simp
  moreover have "suffix (paren r s) (paren l ?t)" by (simp add: paren_def suffix_def)
  ultimately show "\<exists>d. parseline n (written (List_cmd l r) @ s) = Parsed (d, s) \<and> parse_of (written (List_cmd l r) @ s) d (List_cmd l r)"
    unfolding w using d(2) parse_of_suffix [OF e(2)] by (intro exI [of _ "List_cmd d e"]) simp
qed

lemma back_parse:
  assumes "cmd_ok c" "parses c"
  shows "parses (Back c)"
  unfolding parses_def
proof (intro allI impI)
  fix s n assume s: "ends s" and n: "4 * length (written (Back c) @ s) + 4 \<le> n"
  let ?t = "''& '' @ s"
  have w: "written (Back c) @ s = paren c ?t" by (simp add: paren_def)
  have "n = Suc (Suc (Suc (n - 3)))" using n by simp
  then obtain k where k: "n = Suc (Suc (Suc k))" by blast
  have len: "4 * length (paren c ?t) + 3 \<le> Suc (Suc k)" "0 < k" using n unfolding w k by (simp_all add: paren_def)
  obtain d where d: "parsepipe (Suc (Suc k)) (paren c ?t) = Parsed (d, ?t)" "parse_of (paren c ?t) d c"
    using block_pipe [OF assms len(1)] by (auto simp: stops_def)
  have p: "peek ?t ''&'' = (True, ?t)" by (simp add: peek_symbol symbols_def)
  have g: "gettoken ?t = (CHR ''&'', ?t, '' '' @ s, s)" using gettoken_symbol [of "CHR ''&''" s] s by (simp add: stops_skip ends_stops)
  have "parseback (Suc (Suc k)) d ?t = Parsed (Back d, s)" using back_ends [OF s, of "Suc k" "Back d"] by (simp only: parseback.simps(2) [of "Suc k"] p g prod.case bool.case)
  then have "parseline n (paren c ?t) = Parsed (Back d, s)" unfolding k parseline.simps(2) d(1) using s by (simp add: ends_peek del: parseback.simps)
  then show "\<exists>d. parseline n (written (Back c) @ s) = Parsed (d, s) \<and> parse_of (written (Back c) @ s) d (Back c)"
    unfolding w using d(2) by (intro exI [of _ "Back d"]) simp
qed

lemma cmd_parses: "cmd_ok c \<Longrightarrow> parses c"
proof (induction c)
  case (Exec x)
  then show ?case by (rule words_parse)
next
  case (Redir c f m fd)
  then show ?case by (intro redir_parse) simp_all
next
  case (Pipe_cmd c1 c2)
  then show ?case by (intro pipe_parse) simp_all
next
  case (List_cmd c1 c2)
  then show ?case by (intro list_parse) simp_all
next
  case (Back c)
  then show ?case by (intro back_parse) simp_all
qed

subsection \<open>The line after \<open>nulterminate\<close>\<close>

text \<open>The line with \<open>NUL\<close>s stored behind the words that end at the pointers of \<open>E\<close>.\<close>

definition cut_at :: "string set \<Rightarrow> string \<Rightarrow> string \<Rightarrow> bool" where
  "cut_at E old new \<longleftrightarrow> length new = length old \<and>
     (\<forall>i<length old. new ! i = (if \<exists>e\<in>E. i = length old - 1 - length e then CHR 0x00 else old ! i))"

lemma cut_at_empty: "cut_at {} s s"
  by (simp add: cut_at_def)

lemma cut_at_trans: "cut_at E s t \<Longrightarrow> cut_at F t u \<Longrightarrow> cut_at (E \<union> F) s u"
  unfolding cut_at_def by (intro conjI allI impI) auto

lemma cut_at_store: "cut_at {e} s (store_nul e s)"
  by (auto simp: cut_at_def store_nul_def nth_list_update)

lemma cut_at_words: "cut_at (snd ` set ws) s (fold (\<lambda>(q, eq). store_nul eq) ws s)"
proof (induction ws arbitrary: s)
  case (Cons w ws)
  have "cut_at ({snd w} \<union> snd ` set ws) s (fold (\<lambda>(q, eq). store_nul eq) ws (store_nul (snd w) s))"
    by (rule cut_at_trans [OF cut_at_store Cons])
  then show ?case by (simp add: case_prod_unfold)
qed (simp add: cut_at_empty)

lemma cut_at_nulterminate: "cut_at (snd ` set_cmd c) s (nulterminate c s)"
proof (induction c arbitrary: s)
  case (Redir c f m fd)
  show ?case using cut_at_trans [OF Redir cut_at_store [of "snd f"]] by simp
qed (auto simp: image_Un intro: cut_at_words cut_at_trans)

text \<open>Every word of the command is then a string of its own.\<close>

lemma word_string:
  assumes "cut_at E (s @ [CHR 0x00]) line" "word_at s (q, eq) w" "eq \<in> E"
    and "\<forall>e\<in>E. suffix e s \<and> (e = [] \<or> \<not> word_char (hd e))"
  shows "string_at line q = w"
proof -
  obtain u where s: "s = u @ w @ eq" and q: "q = w @ eq" and w: "\<forall>c\<in>set w. word_char c \<and> c \<noteq> CHR 0x00"
    using assms(2) by (auto simp: word_at_def suffix_def)
  let ?n = "length u"
  have len: "length line = length s + 1" using assms(1) by (simp add: cut_at_def)
  have nth: "line ! i = (if \<exists>e\<in>E. i = length s - length e then CHR 0x00 else (s @ [CHR 0x00]) ! i)" if "i \<le> length s" for i
    using assms(1) that by (simp add: cut_at_def)
  have start: "length line - 1 - length q = ?n" using len s q by simp
  have word: "line ! (?n + i) = w ! i" if i: "i < length w" for i
  proof -
    have "\<not> (\<exists>e\<in>E. ?n + i = length s - length e)"
    proof
      assume "\<exists>e\<in>E. ?n + i = length s - length e"
      then obtain e where e: "e \<in> E" "?n + i = length s - length e" by blast
      then obtain v where v: "s = v @ e" using assms(4) by (auto simp: suffix_def)
      have "e \<noteq> []" using e(2) s i by auto
      then have "hd e = s ! (?n + i)" using e(2) v by (simp add: nth_append hd_conv_nth)
      also have "\<dots> = w ! i" using s i by (simp add: nth_append)
      finally have "word_char (hd e)" using w nth_mem [OF i] by simp
      then show False using assms(4) e(1) \<open>e \<noteq> []\<close> by blast
    qed
    then show ?thesis using nth [of "?n + i"] s i by (simp add: nth_append)
  qed
  have stop: "line ! (?n + length w) = CHR 0x00" using nth [of "?n + length w"] assms(3) s by auto
  have "take (length w) (drop ?n line) = w"
    using word len s by (intro nth_equalityI) simp_all
  moreover have "drop (?n + length w) line = CHR 0x00 # drop (Suc (?n + length w)) line"
    using stop len s by (subst Cons_nth_drop_Suc [symmetric]) simp_all
  ultimately have "drop ?n line = w @ CHR 0x00 # drop (Suc (?n + length w)) line"
    using append_take_drop_id [of "length w" "drop ?n line"] by (simp add: add.commute)
  then show ?thesis unfolding string_at_def start using w by (simp add: takeWhile_append2)
qed

lemma parse_of_words: "parse_of s d c \<Longrightarrow> p \<in> set_cmd d \<Longrightarrow> suffix (snd p) s \<and> (snd p = [] \<or> \<not> word_char (hd (snd p)))"
proof -
  assume "parse_of s d c" "p \<in> set_cmd d"
  then obtain z where "set_cmd z \<subseteq> {(x, y). word_at s x y}" "map_cmd fst z = d" unfolding parse_of_def by (auto simp: cmd.in_rel)
  then obtain x where "x \<in> set_cmd z" "fst x = p" using \<open>p \<in> set_cmd d\<close> by (auto simp: cmd.set_map)
  then have w: "word_at s p (snd x)" using \<open>set_cmd z \<subseteq> _\<close> by auto
  have "suffix (snd p) (fst p)" using w by (simp add: word_at_def suffix_def)
  then show ?thesis using w unfolding word_at_def by (blast intro: suffix_order.trans)
qed

lemma parse_of_strings:
  assumes "parse_of s d c"
  shows "map_cmd (\<lambda>(q, eq). string_at (nulterminate d (s @ [CHR 0x00])) q) d = c"
proof -
  let ?f = "\<lambda>(q, eq). string_at (nulterminate d (s @ [CHR 0x00])) q"
  have "?f p = w" if "p \<in> set_cmd d" "word_at s p w" for p w
  proof -
    obtain q eq where p: "p = (q, eq)" by (cases p)
    have "eq \<in> snd ` set_cmd d" using that(1) p by force
    moreover have "\<forall>e\<in>snd ` set_cmd d. suffix e s \<and> (e = [] \<or> \<not> word_char (hd e))" using parse_of_words [OF assms] by blast
    ultimately show ?thesis using word_string [OF cut_at_nulterminate [of d "s @ [CHR 0x00]"]] that(2) p by simp
  qed
  then have "rel_cmd (\<lambda>p w. ?f p = w) d c"
    by (intro cmd.rel_mono_strong [OF assms [unfolded parse_of_def]]) simp
  then show ?thesis by (simp add: cmd.rel_map flip: cmd.rel_eq)
qed

text \<open>C7. Parsing a command line (user/sh.c).  A command with at most nine words in every simple
  command, words that are nonempty and without blanks, symbols and \<open>NUL\<close>, is written out with its
  subcommands in parentheses.  Then \<open>parsecmd\<close> accepts the line: it returns, without a message,
  the tree of the same constructors, with the redirections in the same places and with the modes and
  descriptors of \<open><\<close>, \<open>>\<close> and \<open>>>\<close>; and after the \<open>NUL\<close>s that \<open>nulterminate\<close> stores, the strings
  at the pointers of the tree are the command's own words.\<close>

theorem parsecmd_written:
  assumes "cmd_ok c"
  shows "\<exists>d line. parsecmd (written c) = Parsed (d, line) \<and> map_cmd (\<lambda>(q, eq). string_at line q) d = c"
proof -
  obtain d where d: "parseline (parse_fuel (written c)) (written c) = Parsed (d, [])" "parse_of (written c) d c"
    using cmd_parses [OF assms, unfolded parses_def, rule_format, of "[]" "parse_fuel (written c)"] by (auto simp: ends_def parse_fuel_def)
  then have "parsecmd (written c) = Parsed (d, nulterminate d (written c @ [CHR 0x00]))"
    by (simp add: parsecmd_def)
  with parse_of_strings [OF d(2)] show ?thesis by blast
qed

theorem parsecmd_written_witness:
  "\<exists>d line. parsecmd (written (Back (Pipe_cmd (Redir (Exec [''cat'']) ''in'' Rdonly 0) (Redir (Exec [''wc'', ''-l'']) ''out'' Wronly_create 1)))) = Parsed (d, line) \<and>
     map_cmd (\<lambda>(q, eq). string_at line q) d = Back (Pipe_cmd (Redir (Exec [''cat'']) ''in'' Rdonly 0) (Redir (Exec [''wc'', ''-l'']) ''out'' Wronly_create 1))"
  by (rule parsecmd_written) (simp add: word_ok_def word_char_def whitespace_def symbols_def MAXARGS_def)

subsection \<open>What the parser accepts\<close>

text \<open>What a call returns: a rest of the line and a command with a property.\<close>

definition yields :: "string \<Rightarrow> ('a \<Rightarrow> bool) \<Rightarrow> ('a \<times> string) parsed \<Rightarrow> bool" where
  "yields s P r \<longleftrightarrow> (\<forall>x qs. r = Parsed (x, qs) \<longrightarrow> suffix qs s \<and> P x)"

lemma yields_intros [intro, simp]: "suffix qs s \<Longrightarrow> P x \<Longrightarrow> yields s P (Parsed (x, qs))" "yields s P (Failed e)" "yields s P Out_of_fuel"
  by (simp_all add: yields_def)

lemma yields_and_then:
  assumes "yields s P r" "\<And>x qs. suffix qs s \<Longrightarrow> P x \<Longrightarrow> yields s Q (f (x, qs))"
  shows "yields s Q (and_then r f)"
  using assms by (cases r) (auto simp: yields_def)

lemma skip_white_suffix: "suffix ps s \<Longrightarrow> suffix (skip_white ps) s"
  unfolding skip_white_def by (rule suffix_order.trans [OF suffix_dropWhile])

lemma peek_suffix: "peek ps t = (b, qs) \<Longrightarrow> suffix ps s \<Longrightarrow> suffix qs s"
  by (auto simp: peek_def Let_def skip_white_suffix)

lemma gettoken_suffix:
  assumes "gettoken ps = (tok, q, eq, rs)" "suffix ps s"
  shows "suffix q s" "suffix eq s" "suffix rs s"
proof -
  have q: "q = skip_white ps" "rs = skip_white eq" using assms(1) by (auto simp: gettoken_def Let_def split_beta)
  show qs: "suffix q s" unfolding q by (rule skip_white_suffix [OF assms(2)])
  have "suffix eq q"
  proof (cases "skip_white ps")
    case (Cons c r)
    have "eq = r \<or> eq = drop 1 r \<or> eq = dropWhile word_char (c # r)"
      using assms(1) unfolding gettoken_def Let_def Cons list.case by (auto split: if_splits simp del: dropWhile.simps)
    moreover have "suffix (drop 1 r) (c # r)" "suffix r (c # r)" by (simp_all add: suffix_drop suffix_ConsI)
    moreover have "suffix (dropWhile word_char (c # r)) (c # r)" by (rule suffix_dropWhile)
    ultimately show ?thesis unfolding q Cons by blast
  qed (use assms(1) in \<open>simp add: gettoken_def Let_def\<close>)
  then show eqs: "suffix eq s" by (rule suffix_order.trans) (rule qs)
  show "suffix rs s" unfolding q by (rule skip_white_suffix [OF eqs])
qed

lemma gettoken_word_at:
  assumes "gettoken ps = (CHR ''a'', q, eq, rs)" "suffix ps s" "CHR 0x00 \<notin> set s"
  shows "\<exists>w. word_ok w \<and> word_at s (q, eq) w"
proof -
  obtain c r where p: "skip_white ps = c # r" "q = c # r"
    using assms(1) by (cases "skip_white ps") (auto simp: gettoken_def Let_def split_beta)
  have nw: "c \<notin> set whitespace" using p unfolding skip_white_def by (metis hd_dropWhile list.distinct(1) list.sel(1))
  have c: "c \<notin> set ''|();&<''" "c \<noteq> CHR ''>''" "eq = dropWhile word_char q"
    using assms(1) p by (auto simp: gettoken_def Let_def split: if_splits)
  then have "word_char c" using nw by (simp add: word_char_def symbols_def)
  moreover have "set q \<subseteq> set s" using gettoken_suffix(1) [OF assms(1,2)] by (rule set_mono_suffix)
  then have "CHR 0x00 \<notin> set (takeWhile word_char q)" using assms(3) by (auto dest: set_takeWhileD)
  ultimately have "word_ok (takeWhile word_char q)" "\<forall>d\<in>set (takeWhile word_char q). word_char d \<and> d \<noteq> CHR 0x00"
    using p(2) by (auto simp: word_ok_def dest: set_takeWhileD)
  moreover have "eq = [] \<or> \<not> word_char (hd eq)" using c(3) hd_dropWhile by blast
  ultimately have "word_ok (takeWhile word_char q) \<and> word_at s (q, eq) (takeWhile word_char q)"
    using gettoken_suffix(1) [OF assms(1,2)] c(3) by (simp add: word_at_def)
  then show ?thesis by blast
qed

lemma yields_optional:
  assumes "suffix ss s" "\<And>qs. suffix qs s \<Longrightarrow> yields s P (no qs)" "\<And>rs. suffix rs s \<Longrightarrow> yields s P (yes rs)"
  shows "yields s P (case peek ss t of (True, qs) \<Rightarrow> (case gettoken qs of (_, _, _, rs) \<Rightarrow> yes rs) | (False, qs) \<Rightarrow> no qs)"
proof -
  obtain b qs where p: "peek ss t = (b, qs)" by (cases "peek ss t")
  obtain tok q e rs where g: "gettoken qs = (tok, q, e, rs)" by (cases "gettoken qs")
  show ?thesis using p g assms(2,3) peek_suffix [OF p assms(1)] gettoken_suffix(3) [OF g] by (cases b) simp_all
qed

text \<open>The trees with the shape of a command that can be written.\<close>

definition good_cmd :: "string \<Rightarrow> word_ptrs cmd \<Rightarrow> bool" where
  "good_cmd s d \<longleftrightarrow> (\<exists>c. cmd_ok c \<and> parse_of s d c)"

definition good_args :: "string \<Rightarrow> word_ptrs list \<Rightarrow> bool" where
  "good_args s argv \<longleftrightarrow> length argv < MAXARGS \<and> (\<forall>p\<in>set argv. \<exists>w. word_ok w \<and> word_at s p w)"

lemma good_Exec: "good_args s argv \<Longrightarrow> good_cmd s (Exec argv)"
proof -
  assume a: "good_args s argv"
  then obtain f where f: "\<forall>p\<in>set argv. word_ok (f p) \<and> word_at s p (f p)" unfolding good_args_def by metis
  then have "parse_of s (Exec argv) (Exec (map f argv))" by (simp add: list_all2_map2 list.rel_refl_strong)
  then show ?thesis using f a unfolding good_cmd_def good_args_def by (intro exI [of _ "Exec (map f argv)"]) simp
qed

lemma good_Redir: "good_cmd s d \<Longrightarrow> \<exists>w. word_ok w \<and> word_at s p w \<Longrightarrow> good_cmd s (Redir d p m (if m = Rdonly then 0 else 1))"
  unfolding good_cmd_def by (metis cmd_ok.simps(2) parse_of_simps(2))

lemma good_more: "good_cmd s d \<Longrightarrow> good_cmd s e \<Longrightarrow> good_cmd s (Pipe_cmd d e)" "good_cmd s d \<Longrightarrow> good_cmd s e \<Longrightarrow> good_cmd s (List_cmd d e)" "good_cmd s d \<Longrightarrow> good_cmd s (Back d)"
  unfolding good_cmd_def by (metis cmd_ok.simps(3) parse_of_simps(3), metis cmd_ok.simps(4) parse_of_simps(4), metis cmd_ok.simps(5) parse_of_simps(5))

lemma redirs_yield:
  assumes "CHR 0x00 \<notin> set s"
    and step: "\<And>d p m. P d \<Longrightarrow> \<exists>w. word_ok w \<and> word_at s p w \<Longrightarrow> P (Redir d p m (if m = Rdonly then 0 else 1))"
  shows "suffix ps s \<Longrightarrow> P d \<Longrightarrow> yields s P (parseredirs n d ps)"
proof (induction n arbitrary: d ps)
  case (Suc n)
  obtain b qs where p: "peek ps ''<>'' = (b, qs)" by (cases "peek ps ''<>''")
  obtain tok q1 e1 rs where g: "gettoken qs = (tok, q1, e1, rs)" by (cases "gettoken qs")
  obtain a q2 e2 ts where h: "gettoken rs = (a, q2, e2, ts)" by (cases "gettoken rs")
  have qs: "suffix qs s" and rs: "suffix rs s" and ts: "suffix ts s"
    using peek_suffix [OF p Suc.prems(1)] gettoken_suffix(3) [OF g] gettoken_suffix(3) [OF h] by simp_all
  have "yields s P (parseredirs n (Redir d (q2, e2) m (if m = Rdonly then 0 else 1)) ts)" if "a = CHR ''a''" for m
  proof -
    have "\<exists>w. word_ok w \<and> word_at s (q2, e2) w" using h rs assms(1) unfolding that by (rule gettoken_word_at)
    from Suc.IH [OF ts step [OF Suc.prems(2) this]] show ?thesis .
  qed
  from this [of Rdonly] this [of Wronly_create_trunc] this [of Wronly_create] show ?case
    using p g h qs Suc.prems(2) by (cases b) auto
qed simp

definition waits :: "string \<Rightarrow> word_ptrs cmd \<Rightarrow> bool" where
  "waits s d \<longleftrightarrow> (\<forall>argv. good_args s argv \<longrightarrow> good_cmd s (set_args argv d))"

lemma waits_Redir: "waits s d \<Longrightarrow> \<exists>w. word_ok w \<and> word_at s p w \<Longrightarrow> waits s (Redir d p m (if m = Rdonly then 0 else 1))"
  unfolding waits_def set_args.simps using good_Redir by blast

lemma args_yield:
  assumes "CHR 0x00 \<notin> set s"
  shows "suffix ps s \<Longrightarrow> waits s d \<Longrightarrow> good_args s argv \<Longrightarrow> yields s (good_cmd s) (parseargs n argv d ps)"
proof (induction n arbitrary: argv d ps)
  case (Suc n)
  obtain b qs where p: "peek ps ''|)&;'' = (b, qs)" by (cases "peek ps ''|)&;''")
  obtain tok q e rs where g: "gettoken qs = (tok, q, e, rs)" by (cases "gettoken qs")
  have qs: "suffix qs s" using peek_suffix [OF p Suc.prems(1)] .
  have rs: "suffix rs s" using gettoken_suffix(3) [OF g qs] .
  have stop: "good_cmd s (set_args argv d)" using Suc.prems by (simp add: waits_def)
  have "yields s (good_cmd s) (and_then (parseredirs n d rs) (\<lambda>(ret, ps). parseargs n (argv @ [(q, e)]) ret ps))"
    if t: "tok = CHR ''a''" "length argv + 1 < MAXARGS"
  proof (rule yields_and_then)
    show "yields s (waits s) (parseredirs n d rs)"
      by (rule redirs_yield [OF assms waits_Redir rs Suc.prems(2)])
    have "\<exists>w. word_ok w \<and> word_at s (q, e) w" using g qs assms unfolding t(1) by (rule gettoken_word_at)
    then have "good_args s (argv @ [(q, e)])" using Suc.prems(3) t(2) by (auto simp: good_args_def)
    then show "yields s (good_cmd s) (case (x, us) of (ret, ps) \<Rightarrow> parseargs n (argv @ [(q, e)]) ret ps)"
      if "suffix us s" "waits s x" for x us
      using Suc.IH that by simp
  qed
  then show ?case using p g qs rs stop by (cases b) auto
qed simp

lemma parser_yields:
  assumes "CHR 0x00 \<notin> set s"
  shows "suffix ps s \<Longrightarrow> yields s (good_cmd s) (parseline n ps) \<and> (good_cmd s d \<longrightarrow> yields s (good_cmd s) (parseback n d ps)) \<and>
    yields s (good_cmd s) (parsepipe n ps) \<and> yields s (good_cmd s) (parseblock n ps) \<and> yields s (good_cmd s) (parseexec n ps)"
proof (induction n arbitrary: ps d)
  case (Suc n)
  have ih: "yields s (good_cmd s) (parseline n qs)" "good_cmd s d \<Longrightarrow> yields s (good_cmd s) (parseback n d qs)"
    "yields s (good_cmd s) (parsepipe n qs)" "yields s (good_cmd s) (parseblock n qs)" "yields s (good_cmd s) (parseexec n qs)"
    if "suffix qs s" for qs d using Suc.IH [OF that] by blast+
  have rd: "yields s (good_cmd s) (parseredirs n d qs)" if "suffix qs s" "good_cmd s d" for d qs
    by (rule redirs_yield [OF assms good_Redir that])
  note steps = yields_and_then yields_optional yields_intros good_more ih
  have "yields s (good_cmd s) (parseline (Suc n) ps)"
    unfolding parseline.simps using Suc.prems by (auto intro!: steps)
  moreover have "yields s (good_cmd s) (parseback (Suc n) d ps)" if "good_cmd s d"
    unfolding parseback.simps using Suc.prems that by (auto intro!: steps)
  moreover have "yields s (good_cmd s) (parsepipe (Suc n) ps)"
    unfolding parsepipe.simps using Suc.prems by (auto intro!: steps)
  moreover have "yields s (good_cmd s) (parseexec (Suc n) ps)"
  proof -
    obtain b qs where p: "peek ps ''('' = (b, qs)" by (cases "peek ps ''(''")
    have qs: "suffix qs s" by (rule peek_suffix [OF p Suc.prems])
    have "yields s (good_cmd s) (and_then (parseredirs n (Exec []) qs) (\<lambda>(ret, ps). parseargs n [] ret ps))"
    proof (rule yields_and_then)
      show "yields s (waits s) (parseredirs n (Exec []) qs)"
        by (rule redirs_yield [where P = "waits s", OF assms waits_Redir qs]) (simp_all add: waits_def good_Exec)
      show "yields s (good_cmd s) (case (x, us) of (ret, ps) \<Rightarrow> parseargs n [] ret ps)" if "suffix us s" "waits s x" for x us
        using args_yield [OF assms that, of "[]"] by (simp add: good_args_def MAXARGS_def)
    qed
    then show ?thesis using p ih(4) [OF qs] by (cases b) simp_all
  qed
  moreover have "yields s (good_cmd s) (parseblock (Suc n) ps)"
  proof -
    obtain b qs where p: "peek ps ''('' = (b, qs)" by (cases "peek ps ''(''")
    obtain tok q e rs where g: "gettoken qs = (tok, q, e, rs)" by (cases "gettoken qs")
    have "suffix rs s" using gettoken_suffix(3) [OF g peek_suffix [OF p Suc.prems]] .
    then have "yields s (good_cmd s) (and_then (parseline n rs) (\<lambda>(cmd, ps).
         case peek ps '')'' of
           (True, ps) \<Rightarrow> (case gettoken ps of (_, _, _, ps) \<Rightarrow> parseredirs n cmd ps)
         | (False, ps) \<Rightarrow> Failed ''syntax - missing )''))"
      by (auto intro!: steps rd)
    then show ?thesis using p g by (cases b) (simp_all cong: bool.case_cong)
  qed
  ultimately show ?case by blast
qed simp

text \<open>C25. The type of what the shell's parser returns: for every input line without \<open>NUL\<close> that
  \<open>parsecmd\<close> accepts, the strings of the tree form a command that can be written.  Every
  simple command has at most nine words, so that \<open>argv\<close> keeps room for its final null pointer; every word and file
  name is nonempty and has no blanks, symbols or \<open>NUL\<close>; and standard input is what \<open><\<close>
  redirects, standard output what \<open>>\<close> and \<open>>>\<close> do.\<close>

theorem parsecmd_well_typed:
  assumes "CHR 0x00 \<notin> set s" "parsecmd s = Parsed (d, line)"
  shows "cmd_ok (map_cmd (\<lambda>(q, eq). string_at line q) d)"
proof -
  have y: "yields s (good_cmd s) (parseline (parse_fuel s) s)" using parser_yields [OF assms(1)] by blast
  obtain qs where "parseline (parse_fuel s) s = Parsed (d, qs)" "line = nulterminate d (s @ [CHR 0x00])"
    using assms(2) by (cases "parseline (parse_fuel s) s") (auto simp: parsecmd_def peek_def Let_def split: if_splits)
  then obtain c where c: "cmd_ok c" "parse_of s d c" "line = nulterminate d (s @ [CHR 0x00])"
    using y unfolding yields_def good_cmd_def by auto
  then show ?thesis using parse_of_strings [OF c(2)] by simp
qed

theorem parsecmd_well_typed_witness:
  "cmd_ok (map_cmd (\<lambda>(q, eq). string_at (''ls'' @ [CHR 0x00] @ ''>o'' @ [CHR 0x00]) q) (Redir (Exec [(''ls >o'', '' >o'')]) (''o'', []) Wronly_create_trunc 1))"
  by (rule parsecmd_well_typed [of "''ls >o''"]) code_simp+

end
