(* ===== verification/Ulib.thy ===== *)
theory Ulib
  imports Printf
begin

section \<open>The C library of user programs (user/ulib.c, user/umalloc.c)\<close>

text \<open>
  C strings are the characters before the \<open>NUL\<close>, a buffer is the list of its
  characters.  \<open>gets\<close> takes its characters from the standard input, a string, and returns
  what is left of it.  The allocator of Kernighan and Ritchie works on headers: its state has for
  every header address, in units of the 16 bytes of a header, the pointer and the size; 0 is
  the header \<open>base\<close>.  The loops over the circular free list are partial: they need not end on
  a list that has been corrupted.
\<close>

subsection \<open>Strings\<close>

fun ustrcpy :: "string \<Rightarrow> string \<Rightarrow> string" where
  "ustrcpy s [] = CHR 0x00 # drop 1 s"
| "ustrcpy s (c # t) = c # ustrcpy (drop 1 s) t"

definition uchar :: "char \<Rightarrow> int" where
  "uchar c = of_char c"

fun ustrcmp :: "string \<Rightarrow> string \<Rightarrow> int" where
  "ustrcmp (c # p) (d # q) = (if c = d then ustrcmp p q else uchar c - uchar d)"
| "ustrcmp (c # p) [] = uchar c"
| "ustrcmp [] (d # q) = - uchar d"
| "ustrcmp [] [] = 0"

fun ustrlen :: "string \<Rightarrow> nat" where
  "ustrlen [] = 0"
| "ustrlen (c # s) = Suc (ustrlen s)"

definition umemset :: "string \<Rightarrow> char \<Rightarrow> nat \<Rightarrow> string" where
  "umemset dst c n = fold (\<lambda>i d. d[i := c]) [0..<n] dst"

fun ustrchr :: "string \<Rightarrow> char \<Rightarrow> string option" where
  "ustrchr [] c = None"
| "ustrchr (d # s) c = (if d = c then Some (d # s) else ustrchr s c)"

text \<open>Signed characters: the difference of the first two that differ.\<close>

definition schar :: "char \<Rightarrow> int" where
  "schar c = sint (of_nat (of_char c) :: u8)"

fun umemcmp :: "string \<Rightarrow> string \<Rightarrow> nat \<Rightarrow> int" where
  "umemcmp p q 0 = 0"
| "umemcmp p q (Suc n) = (if hd p \<noteq> hd q then schar (hd p) - schar (hd q) else umemcmp (drop 1 p) (drop 1 q) n)"

fun atoi_from :: "int \<Rightarrow> string \<Rightarrow> int" where
  "atoi_from n [] = n"
| "atoi_from n (c # s) = (if is_digit c then atoi_from (n * 10 + (uchar c - 48)) s else n)"

definition atoi :: "string \<Rightarrow> int" where
  "atoi s = atoi_from 0 s"

text \<open>\<open>gets\<close> with room for \<open>max\<close> characters: the line it stores, without the final \<open>NUL\<close>.\<close>

fun gets :: "nat \<Rightarrow> string \<Rightarrow> string \<times> string" where
  "gets (Suc (Suc n)) (c # inp) =
     (if c = CHR 0x0A \<or> c = CHR 0x0D then ([c], inp)
      else case gets (Suc n) inp of (line, rest) \<Rightarrow> (c # line, rest))"
| "gets m inp = ([], inp)"

lemma gets_split: "gets m inp = (line, rest) \<Longrightarrow> inp = line @ rest"
  by (induction m inp arbitrary: line rule: gets.induct) (auto split: if_splits prod.splits)

lemma gets_fits: "gets m inp = (line, rest) \<Longrightarrow> 0 < m \<Longrightarrow> length line < m"
  by (induction m inp arbitrary: line rule: gets.induct) (auto split: if_splits prod.splits)

lemma atoi_digits: "\<forall>c\<in>set s. is_digit c \<Longrightarrow> atoi_from n s = foldl (\<lambda>n c. n * 10 + (of_char c - 48)) n s"
  by (induction s arbitrary: n) (simp_all add: uchar_def)

lemma ustrcmp_eq: "ustrcmp p q = 0 \<longleftrightarrow> p = q" if "CHR 0x00 \<notin> set p" "CHR 0x00 \<notin> set q"
proof -
  have e: "uchar c = uchar d \<longleftrightarrow> c = d" for c d by (simp add: uchar_def)
  have "uchar (CHR 0x00) = 0" by (simp add: uchar_def)
  then have z: "uchar c = 0 \<longleftrightarrow> c = CHR 0x00" for c using e [of c "CHR 0x00"] by simp
  show ?thesis using that by (induction p q rule: ustrcmp.induct) (auto simp: z e)
qed

subsection \<open>The allocator\<close>

text \<open>Pointers are header addresses; \<open>freep\<close> is \<open>None\<close> before the first call.\<close>

record uheap =
  h_ptr :: "nat \<Rightarrow> nat"
  h_size :: "nat \<Rightarrow> nat"
  freep :: "nat option"
  brk :: nat

partial_function (option) free_find :: "uheap \<Rightarrow> nat \<Rightarrow> nat \<Rightarrow> nat option" where
  "free_find s bp p =
     (if bp > p \<and> bp < h_ptr s p then Some p
      else if p \<ge> h_ptr s p \<and> (bp > p \<or> bp < h_ptr s p) then Some p
      else free_find s bp (h_ptr s p))"

definition join_upper :: "nat \<Rightarrow> nat \<Rightarrow> uheap \<Rightarrow> uheap" where
  "join_upper bp p s =
     (let n = h_ptr s p in
      if bp + h_size s bp = n
      then s\<lparr>h_size := (h_size s)(bp := h_size s bp + h_size s n), h_ptr := (h_ptr s)(bp := h_ptr s n)\<rparr>
      else s\<lparr>h_ptr := (h_ptr s)(bp := n)\<rparr>)"

definition join_lower :: "nat \<Rightarrow> nat \<Rightarrow> uheap \<Rightarrow> uheap" where
  "join_lower bp p s =
     (if p + h_size s p = bp
      then s\<lparr>h_size := (h_size s)(p := h_size s p + h_size s bp), h_ptr := (h_ptr s)(p := h_ptr s bp)\<rparr>
      else s\<lparr>h_ptr := (h_ptr s)(p := bp)\<rparr>)"

text \<open>\<open>ap\<close> points behind its header.\<close>

definition ufree :: "nat \<Rightarrow> uheap \<Rightarrow> uheap option" where
  "ufree ap s = do {
     let bp = ap - 1;
     fp \<leftarrow> freep s;
     p \<leftarrow> free_find s bp fp;
     Some ((join_lower bp p (join_upper bp p s))\<lparr>freep := Some p\<rparr>)
   }"

text \<open>
  The memory that \<open>sbrk\<close> adds is given by \<open>room\<close>: it fails when the break would pass it.  Its argument is an
  \<open>int\<close>: from \<open>2 ^ 27\<close> units on the number of bytes is not what was asked for.
\<close>

definition sbrk_units :: "nat \<Rightarrow> nat \<Rightarrow> uheap \<Rightarrow> (nat \<times> uheap) option" where
  "sbrk_units room nu s =
     (let n = sint (of_nat (nu * 16) :: u32) in
      if n < 0 \<and> nat (- n) div 16 > brk s then None
      else if int (brk s) + n div 16 > int room then None
      else Some (brk s, s\<lparr>brk := nat (int (brk s) + n div 16)\<rparr>))"

definition morecore :: "nat \<Rightarrow> nat \<Rightarrow> uheap \<Rightarrow> (nat option \<times> uheap) option" where
  "morecore room nu s =
     (let nu = (if nu < 4096 then 4096 else nu) in
      case sbrk_units room nu s of
        None \<Rightarrow> Some (None, s)
      | Some (hp, s) \<Rightarrow> do {
          s \<leftarrow> ufree (hp + 1) (s\<lparr>h_size := (h_size s)(hp := nu)\<rparr>);
          Some (freep s, s)
        })"

partial_function (option) malloc_loop :: "nat \<Rightarrow> nat \<Rightarrow> nat \<Rightarrow> nat \<Rightarrow> uheap \<Rightarrow> (nat option \<times> uheap) option" where
  "malloc_loop room nunits prevp p s =
     (if h_size s p \<ge> nunits
      then if h_size s p = nunits
        then Some (Some (p + 1), s\<lparr>h_ptr := (h_ptr s)(prevp := h_ptr s p), freep := Some prevp\<rparr>)
        else let q = p + (h_size s p - nunits) in
          Some (Some (q + 1), s\<lparr>h_size := ((h_size s)(p := h_size s p - nunits))(q := nunits), freep := Some prevp\<rparr>)
      else if Some p = freep s
      then (case morecore room nunits s of
          None \<Rightarrow> None
        | Some (None, s) \<Rightarrow> Some (None, s)
        | Some (Some p, s) \<Rightarrow> malloc_loop room nunits p (h_ptr s p) s)
      else malloc_loop room nunits p (h_ptr s p) s)"

definition malloc :: "nat \<Rightarrow> nat \<Rightarrow> uheap \<Rightarrow> (nat option \<times> uheap) option" where
  "malloc room nbytes s =
     (let nunits = (nbytes + 16 - 1) div 16 + 1;
          s = (if freep s = None then s\<lparr>h_ptr := (h_ptr s)(0 := 0), h_size := (h_size s)(0 := 0), freep := Some 0\<rparr> else s);
          prevp = the (freep s) in
      malloc_loop room nunits prevp (h_ptr s prevp) s)"

end
