(* ===== verification/Userland.thy ===== *)
theory Userland
  imports Ulib Shell
begin

section \<open>User programs (user/*.c)\<close>

text \<open>
  The small programs and the loop of the shell.  A program is a function of its arguments and of
  what the kernel answers, given as parameters: the contents of the files that can be opened, the results of the
  calls.  Its result is what it writes and its exit status.  An open file is what \<open>read\<close> delivers of
  it, as much as asked for while it lasts, and whether \<open>read\<close> then fails; \<open>write\<close> on standard output
  takes everything unless a parameter says otherwise.
\<close>

type_synonym ufile = "string \<times> bool"

definition nl :: string where "nl = [CHR 0x0A]"

subsection \<open>echo, kill, ln, mkdir, rm\<close>

fun echo_args :: "string list \<Rightarrow> string" where
  "echo_args [] = []"
| "echo_args [a] = a @ nl"
| "echo_args (a # as) = a @ '' '' @ echo_args as"

definition kill_main :: "string list \<Rightarrow> string \<times> int list \<times> int" where
  "kill_main args = (if args = [] then (''usage: kill pid...'' @ nl, [], 1) else ([], map atoi args, 0))"

definition ln_main :: "(string \<Rightarrow> string \<Rightarrow> bool) \<Rightarrow> string list \<Rightarrow> string \<times> int" where
  "ln_main link args =
     (case args of
        [a, b] \<Rightarrow> (if link a b then [] else ''link '' @ a @ '' '' @ b @ '': failed'' @ nl, 0)
      | _ \<Rightarrow> (''Usage: ln old new'' @ nl, 1))"

text \<open>\<open>mkdir\<close> and \<open>rm\<close> stop at the first name that fails; the names that were handled come first.\<close>

fun each_file :: "(string \<Rightarrow> bool) \<Rightarrow> (string \<Rightarrow> string) \<Rightarrow> string list \<Rightarrow> string list \<times> string" where
  "each_file ok msg [] = ([], [])"
| "each_file ok msg (f # fs) =
     (if ok f then case each_file ok msg fs of (done, out) \<Rightarrow> (f # done, out) else ([], msg f))"

definition mkdir_main :: "(string \<Rightarrow> bool) \<Rightarrow> string list \<Rightarrow> string list \<times> string \<times> int" where
  "mkdir_main mkdir args =
     (if args = [] then ([], ''Usage: mkdir files...'' @ nl, 1)
      else case each_file mkdir (\<lambda>f. ''mkdir: '' @ f @ '' failed to create'' @ nl) args of (done, out) \<Rightarrow> (done, out, 0))"

definition rm_main :: "(string \<Rightarrow> bool) \<Rightarrow> string list \<Rightarrow> string list \<times> string \<times> int" where
  "rm_main unlink args =
     (if args = [] then ([], ''Usage: rm files...'' @ nl, 1)
      else case each_file unlink (\<lambda>f. ''rm: '' @ f @ '' failed to delete'' @ nl) args of (done, out) \<Rightarrow> (done, out, 0))"

lemma each_file_done: "each_file ok msg fs = (done, out) \<Longrightarrow> done = takeWhile ok fs \<and> (out = [] \<longrightarrow> done = fs \<or> (\<exists>f\<in>set fs. msg f = []))"
  by (induction fs arbitrary: "done") (auto split: if_splits prod.splits)

subsection \<open>cat and wc\<close>

text \<open>\<open>took\<close> is how many characters a \<open>write\<close> of a chunk takes.\<close>

function cat :: "(string \<Rightarrow> nat) \<Rightarrow> ufile \<Rightarrow> string \<times> int option" where
  "cat took (s, fails) =
     (if s = [] then if fails then (''cat: read error'' @ nl, Some 1) else ([], None)
      else if took (take 512 s) \<noteq> length (take 512 s)
      then (take (took (take 512 s)) s @ ''cat: write error'' @ nl, Some 1)
      else case cat took (drop 512 s, fails) of (out, r) \<Rightarrow> (take 512 s @ out, r))"
  by pat_completeness auto
termination by (relation "measure (\<lambda>(took, s, fails). length s)") auto

declare cat.simps [simp del]

lemma cat_copies: "\<forall>s. took s = length s \<Longrightarrow> cat took (s, False) = (s, None)"
proof (induction s rule: length_induct)
  case (1 s)
  show ?case
  proof (cases "s = []")
    case False
    then have "length (drop 512 s) < length s" by simp
    then have "cat took (drop 512 s, False) = (drop 512 s, None)" using 1 by blast
    then show ?thesis using 1(2) by (subst cat.simps) (simp add: False)
  qed (simp add: cat.simps)
qed

fun cat_files :: "(string \<Rightarrow> nat) \<Rightarrow> (string \<Rightarrow> ufile option) \<Rightarrow> string list \<Rightarrow> string \<times> int" where
  "cat_files took open_file [] = ([], 0)"
| "cat_files took open_file (f # fs) =
     (case open_file f of
        None \<Rightarrow> (''cat: cannot open '' @ f @ nl, 1)
      | Some s \<Rightarrow>
        (case cat took s of
           (out, Some r) \<Rightarrow> (out, r)
         | (out, None) \<Rightarrow> (case cat_files took open_file fs of (out', r) \<Rightarrow> (out @ out', r))))"

definition cat_main :: "(string \<Rightarrow> nat) \<Rightarrow> (string \<Rightarrow> ufile option) \<Rightarrow> ufile \<Rightarrow> string list \<Rightarrow> string \<times> int" where
  "cat_main took open_file stdin args =
     (if args = [] then case cat took stdin of (out, None) \<Rightarrow> (out, 0) | (out, Some r) \<Rightarrow> (out, r)
      else cat_files took open_file args)"

text \<open>What \<open>printf\<close> of user programs puts out; the arguments are those the format asks for.\<close>

definition printed :: "string \<Rightarrow> arg list \<Rightarrow> string" where
  "printed fmt as = (case vprintf fmt as of Some out \<Rightarrow> out | None \<Rightarrow> [])"

text \<open>The counters of \<open>wc\<close>: lines, words, characters, and whether a word has begun.\<close>

type_synonym wc_state = "int \<times> int \<times> int \<times> bool"

definition wc_blank :: string where
  "wc_blank = [CHR '' '', CHR 0x0D, CHR 0x09, CHR 0x0A, CHR 0x0B]"

definition wc_char :: "char \<Rightarrow> wc_state \<Rightarrow> wc_state" where
  "wc_char ch = (\<lambda>(l, w, c, inword).
     let c = c + 1; l = (if ch = CHR 0x0A then l + 1 else l) in
     if ustrchr wc_blank ch \<noteq> None then (l, w, c, False)
     else if \<not> inword then (l, w + 1, c, True)
     else (l, w, c, inword))"

function wc_loop :: "string \<Rightarrow> wc_state \<Rightarrow> wc_state" where
  "wc_loop s st = (if s = [] then st else wc_loop (drop 512 s) (fold wc_char (take 512 s) st))"
  by pat_completeness auto
termination by (relation "measure (\<lambda>(s, st). length s)") auto

declare wc_loop.simps [simp del]

definition wc :: "ufile \<Rightarrow> string \<Rightarrow> string \<times> int option" where
  "wc = (\<lambda>(s, fails) name. case wc_loop s (0, 0, 0, False) of (l, w, c, _) \<Rightarrow>
     if fails then (''wc: read error'' @ nl, Some 1)
     else (printed (''%d %d %d %s'' @ nl) [Num (of_int l), Num (of_int w), Num (of_int c), Text (Some name)], None))"

fun wc_files :: "(string \<Rightarrow> ufile option) \<Rightarrow> string list \<Rightarrow> string \<times> int" where
  "wc_files open_file [] = ([], 0)"
| "wc_files open_file (f # fs) =
     (case open_file f of
        None \<Rightarrow> (''wc: cannot open '' @ f @ nl, 1)
      | Some s \<Rightarrow>
        (case wc s f of
           (out, Some r) \<Rightarrow> (out, r)
         | (out, None) \<Rightarrow> (case wc_files open_file fs of (out', r) \<Rightarrow> (out @ out', r))))"

definition wc_main :: "(string \<Rightarrow> ufile option) \<Rightarrow> ufile \<Rightarrow> string list \<Rightarrow> string \<times> int" where
  "wc_main open_file stdin args =
     (if args = [] then case wc stdin [] of (out, None) \<Rightarrow> (out, 0) | (out, Some r) \<Rightarrow> (out, r)
      else wc_files open_file args)"

text \<open>Where the buffer ends does not matter, and the counts are those of the text.\<close>

lemma wc_loop_fold: "wc_loop s st = fold wc_char s st"
proof (induction s st rule: wc_loop.induct)
  case (1 s st)
  then show ?case using fold_append [of wc_char "take 512 s" "drop 512 s"] by (subst wc_loop.simps) auto
qed

fun words_begun :: "bool \<Rightarrow> string \<Rightarrow> int" where
  "words_begun b [] = 0"
| "words_begun b (c # s) = (if c \<in> set wc_blank then words_begun False s else (if b then 0 else 1) + words_begun True s)"

lemma ustrchr_iff: "ustrchr s c \<noteq> None \<longleftrightarrow> c \<in> set s"
  by (induction s) auto

lemma wc_counts:
  "\<exists>b. fold wc_char s (l, w, c, i) = (l + int (count_list s (CHR 0x0A)), w + words_begun i s, c + int (length s), b)"
proof (induction s arbitrary: l w c i)
  case (Cons d s)
  obtain l' w' c' i' where st: "wc_char d (l, w, c, i) = (l', w', c', i')" by (cases "wc_char d (l, w, c, i)")
  have "d = CHR 0x0A \<Longrightarrow> d \<in> set wc_blank" by (simp add: wc_blank_def)
  then have "l' = l + (if d = CHR 0x0A then 1 else 0)" "c' = c + 1" "w' = w + (if d \<in> set wc_blank \<or> i then 0 else 1)"
    "i' = (d \<notin> set wc_blank)"
    using st unfolding wc_char_def Let_def ustrchr_iff by (auto split: if_splits)
  then show ?case using Cons [of l' w' c' i'] by (auto simp: st)
qed simp

subsection \<open>ls\<close>

text \<open>A name of at least DIRSIZ characters is returned as it is, a shorter one padded with blanks.\<close>

definition fmtname :: "string \<Rightarrow> string" where
  "fmtname path =
     (let p = rev (takeWhile (\<lambda>c. c \<noteq> CHR ''/'') (rev path)) in
      if ustrlen p \<ge> 14 then p else p @ replicate (14 - ustrlen p) (CHR '' ''))"

lemma fmtname_width: "14 \<le> length (fmtname path)"
proof -
  have "ustrlen s = length s" for s by (induction s) auto
  then show ?thesis by (simp add: fmtname_def Let_def)
qed

text \<open>What \<open>fstat\<close> and \<open>stat\<close> tell of a file: type, inode number and size.\<close>

type_synonym ustat = "int \<times> int \<times> int"

definition ls_line :: "string \<Rightarrow> ustat \<Rightarrow> string" where
  "ls_line path = (\<lambda>(type, ino, sz).
     printed (''%s %d %d %d'' @ nl) [Text (Some (fmtname path)), Num (of_int type), Num (of_int ino), Num (of_int sz)])"

fun ls_entries :: "(string \<Rightarrow> ustat option) \<Rightarrow> string \<Rightarrow> (nat \<times> string) list \<Rightarrow> string" where
  "ls_entries ustat path [] = []"
| "ls_entries ustat path ((inum, name) # es) =
     (if inum = 0 then ls_entries ustat path es
      else let buf = path @ ''/'' @ take 14 name in
        (case ustat buf of None \<Rightarrow> ''ls: cannot stat '' @ buf @ nl | Some st \<Rightarrow> ls_line buf st) @
        ls_entries ustat path es)"

text \<open>\<open>opens\<close>, \<open>ustat\<close> and \<open>entries\<close> answer for the kernel; the second result is standard error.\<close>

definition ls :: "(string \<Rightarrow> bool) \<Rightarrow> (string \<Rightarrow> ustat option) \<Rightarrow> (string \<Rightarrow> (nat \<times> string) list) \<Rightarrow> string \<Rightarrow> string \<times> string" where
  "ls opens ustat entries path =
     (if \<not> opens path then ([], ''ls: cannot open '' @ path @ nl)
      else case ustat path of
        None \<Rightarrow> ([], ''ls: cannot stat '' @ path @ nl)
      | Some (type, ino, sz) \<Rightarrow>
        (if type = 2 \<or> type = 3 then ls_line path (type, ino, sz)
         else if type = 1
         then if ustrlen path + 1 + 14 + 1 > 512 then ''ls: path too long'' @ nl
           else ls_entries ustat path (entries path)
         else [], []))"

definition ls_main :: "(string \<Rightarrow> bool) \<Rightarrow> (string \<Rightarrow> ustat option) \<Rightarrow> (string \<Rightarrow> (nat \<times> string) list) \<Rightarrow> string list \<Rightarrow> (string \<times> string) list" where
  "ls_main opens ustat entries args = map (ls opens ustat entries) (if args = [] then [''.''] else args)"

subsection \<open>init\<close>

text \<open>
  \<open>init\<close> reads the kernel's answers to \<open>fork\<close> and \<open>wait\<close> one by one; with no answer left
  it is still waiting.  Its child runs the shell.
\<close>

datatype init_event = Init_opens | Init_mknod | Init_dup | Init_says string | Init_forks | Init_waits | Init_execs | Init_exits int

fun init_wait :: "int \<Rightarrow> int list \<Rightarrow> init_event list" and init_loop :: "int list \<Rightarrow> init_event list" where
  "init_wait pid [] = [Init_waits]"
| "init_wait pid (wpid # as) =
     Init_waits # (if wpid = pid then init_loop as
       else if wpid < 0 then [Init_says (''init: wait returned an error'' @ nl), Init_exits 1]
       else init_wait pid as)"
| "init_loop [] = [Init_says (''init: starting sh'' @ nl), Init_forks]"
| "init_loop (pid # as) =
     Init_says (''init: starting sh'' @ nl) # Init_forks #
       (if pid < 0 then [Init_says (''init: fork failed'' @ nl), Init_exits 1]
        else if pid = 0 then [Init_execs, Init_says (''init: exec sh failed'' @ nl), Init_exits 1]
        else init_wait pid as)"

text \<open>Before the loop: the console is made when it cannot be opened, and is descriptors 0, 1 and 2.\<close>

definition init_main :: "bool \<Rightarrow> int list \<Rightarrow> init_event list" where
  "init_main console as =
     Init_opens # (if console then [] else [Init_mknod, Init_opens]) @ [Init_dup, Init_dup] @ init_loop as"

text \<open>As long as \<open>fork\<close> and \<open>wait\<close> work, \<open>init\<close> does not exit, and orphans do not start a second shell.\<close>

lemma init_goes_on: "\<forall>a\<in>set as. 0 < a \<Longrightarrow> Init_exits r \<notin> set (init_wait pid as) \<and> Init_exits r \<notin> set (init_loop as)"
  by (induction as arbitrary: pid) auto

lemma init_orphans: "\<forall>a\<in>set as. 0 < a \<and> a \<noteq> pid \<Longrightarrow> init_wait pid as = replicate (Suc (length as)) Init_waits"
  by (induction as) auto

subsection \<open>The loop of the shell\<close>

text \<open>
  One round for every line that \<open>gets\<close> reads into the 100 characters of \<open>buf\<close>; the loop
  ends when nothing is read.  A \<open>NUL\<close> in the line ends it for the shell.
\<close>

definition getcmd :: "string \<Rightarrow> (string \<times> string) option" where
  "getcmd inp =
     (case gets 100 inp of (buf, rest) \<Rightarrow>
        let line = takeWhile (\<lambda>c. c \<noteq> CHR 0x00) buf in
        if line = [] then None else Some (line, rest))"

function sh_main :: "string \<Rightarrow> action list" where
  "sh_main inp = (case getcmd inp of None \<Rightarrow> [] | Some (line, rest) \<Rightarrow> run_line line # sh_main rest)"
  by pat_completeness auto
termination
proof (relation "measure length", simp)
  fix inp line rest :: string and x
  assume "getcmd inp = Some x" "(line, rest) = x"
  then have "\<exists>buf. gets 100 inp = (buf, rest) \<and> buf \<noteq> []"
    by (cases "gets 100 inp") (auto simp: getcmd_def Let_def split: if_splits)
  then obtain buf where "gets 100 inp = (buf, rest)" "buf \<noteq> []" by blast
  then show "(rest, inp) \<in> measure length" using gets_split [of 100 inp buf rest] by auto
qed

declare sh_main.simps [simp del]

text \<open>The lines of a command file that fit into the buffer are run one by one, in order.\<close>

lemma gets_whole_line:
  "length l + 1 < m \<Longrightarrow> \<forall>c\<in>set l. c \<noteq> CHR 0x0A \<and> c \<noteq> CHR 0x0D \<Longrightarrow> gets m (l @ CHR 0x0A # inp) = (l @ [CHR 0x0A], inp)"
proof (induction l arbitrary: m)
  case Nil
  then have "m = Suc (Suc (m - 2))" by simp
  then obtain n where "m = Suc (Suc n)" by blast
  then show ?case by simp
next
  case (Cons c l)
  then have "m = Suc (Suc (m - 2))" by simp
  then obtain n where m: "m = Suc (Suc n)" by blast
  then have "gets (Suc n) (l @ CHR 0x0A # inp) = (l @ [CHR 0x0A], inp)" using Cons by simp
  then show ?case using Cons.prems by (simp add: m)
qed

lemma sh_main_lines:
  assumes "\<forall>l\<in>set cs. length l < 99 \<and> (\<forall>c\<in>set l. c \<noteq> CHR 0x0A \<and> c \<noteq> CHR 0x0D \<and> c \<noteq> CHR 0x00)"
  shows "sh_main (concat (map (\<lambda>l. l @ [CHR 0x0A]) cs)) = map (\<lambda>l. run_line (l @ [CHR 0x0A])) cs"
  using assms
proof (induction cs)
  case Nil
  then show ?case by (subst sh_main.simps) (simp add: getcmd_def)
next
  case (Cons l cs)
  have "gets 100 (l @ CHR 0x0A # concat (map (\<lambda>l. l @ [CHR 0x0A]) cs)) = (l @ [CHR 0x0A], concat (map (\<lambda>l. l @ [CHR 0x0A]) cs))"
    using Cons.prems by (intro gets_whole_line) auto
  moreover have "takeWhile (\<lambda>c. c \<noteq> CHR 0x00) (l @ [CHR 0x0A]) = l @ [CHR 0x0A]" using Cons.prems by (simp add: takeWhile_eq_all_conv)
  ultimately show ?case using Cons by (subst sh_main.simps) (simp add: getcmd_def)
qed

end
