(* ===== verification/MkfsImage.thy ===== *)
theory MkfsImage
  imports Mkfs FsRead
begin

section \<open>What is in an image that mkfs has built\<close>

text \<open>
  \<open>slot s d n\<close> is the block that inode \<open>d\<close> has for its part \<open>n\<close>, 0 for none; slot 268 is its indirect block.
  \<open>owned\<close> are its blocks, \<open>holds\<close> says that its contents are the given bytes.  Blocks from
  \<open>freeblock\<close> on are zero.  The first lemmas follow one block through \<open>iappend_block\<close>, then the loop, then
  the table of all inodes, \<open>table_ok\<close>, through the program.
\<close>

definition blk :: "mkfs \<Rightarrow> u32 \<Rightarrow> block" where
  "blk s y = img s ! unat y"

definition slot :: "mkfs \<Rightarrow> dinode \<Rightarrow> nat \<Rightarrow> u32" where
  "slot s d n =
     (if n < 12 then d_addrs d ! n
      else if n = 268 \<or> d_addrs d ! 12 = 0 then d_addrs d ! 12
      else get32 (blk s (d_addrs d ! 12)) (4 * (n - 12)))"

definition owned :: "mkfs \<Rightarrow> dinode \<Rightarrow> u32 set" where
  "owned s d = slot s d ` {..268} - {0}"

definition built :: "mkfs \<Rightarrow> bool" where
  "built s \<longleftrightarrow> length (img s) = 2000 \<and> 47 \<le> unat (freeblock s) \<and> unat (freeblock s) \<le> 2000 \<and>
     (\<forall>y. unat (freeblock s) \<le> unat y \<and> unat y < 2000 \<longrightarrow> blk s y = zeroes)"

definition file_slots :: "mkfs \<Rightarrow> dinode \<Rightarrow> bool" where
  "file_slots s d \<longleftrightarrow> length (d_addrs d) = 13 \<and>
     (\<forall>m\<le>268. slot s d m \<noteq> 0 \<longrightarrow> 47 \<le> unat (slot s d m) \<and> unat (slot s d m) < unat (freeblock s)) \<and>
     (\<forall>m\<le>268. \<forall>n\<le>268. slot s d m = slot s d n \<and> slot s d m \<noteq> 0 \<longrightarrow> m = n)"

definition holds :: "mkfs \<Rightarrow> dinode \<Rightarrow> u8 list \<Rightarrow> bool" where
  "holds s d c \<longleftrightarrow> length c \<le> 274432 \<and>
     (\<forall>i<length c. slot s d (i div 1024) \<noteq> 0 \<and> blk s (slot s d (i div 1024)) (i mod 1024) = c ! i)"

subsection \<open>Sectors\<close>

lemma sector_small: "unat y < 4194304 \<Longrightarrow> sector y = unat y"
proof -
  assume "unat y < 4194304"
  then have "unat (y * 1024) = unat y * 1024" by (subst unat_mult_lem [THEN iffD1]) simp_all
  then show ?thesis by (simp add: sector_def BSIZE_def)
qed

lemma wsect_in:
  assumes "length (img s) = 2000" "unat y < 2000"
  shows "length (img (wsect y b s)) = 2000" "blk (wsect y b s) = (blk s)(y := b)"
    "freeblock (wsect y b s) = freeblock s" "freeinode (wsect y b s) = freeinode s"
proof -
  have "sector y = unat y" by (rule sector_small) (use assms(2) in simp)
  then have w: "wsect y b s = s\<lparr>img := (img s)[unat y := b]\<rparr>" using assms by (simp add: wsect_def)
  show "length (img (wsect y b s)) = 2000" "freeblock (wsect y b s) = freeblock s" "freeinode (wsect y b s) = freeinode s"
    using assms by (simp_all add: w)
  show "blk (wsect y b s) = (blk s)(y := b)" using assms by (intro ext) (auto simp: w blk_def nth_list_update word_unat_eq_iff)
qed

lemma rsect_small:
  "length (img s) = 2000 \<Longrightarrow> unat y \<le> 2001 \<Longrightarrow> rsect y s = (if unat y < 2000 then Some (blk s y) else None)"
  using sector_small [of y] by (simp add: rsect_def blk_def)

subsection \<open>Slots\<close>

lemma slot_small: "built s \<Longrightarrow> file_slots s d \<Longrightarrow> n \<le> 268 \<Longrightarrow> slot s d n \<noteq> 0 \<Longrightarrow> unat (slot s d n) < 2000"
  by (meson built_def le_trans not_le file_slots_def)

text \<open>What an inode owns depends on its own blocks only.\<close>

lemma slot_cong:
  assumes "\<And>y. y \<in> owned s d \<Longrightarrow> blk t y = blk s y"
  shows "slot t d = slot s d"
proof
  fix n
  show "slot t d n = slot s d n"
  proof (cases "d_addrs d ! 12 = 0")
    case False
    have "slot s d 268 = d_addrs d ! 12" by (simp add: slot_def)
    then have "d_addrs d ! 12 \<in> owned s d" using False by (force simp: owned_def)
    then show ?thesis using assms by (simp add: slot_def)
  qed (simp add: slot_def)
qed

lemma owned_slots: "slot t d = slot s d \<Longrightarrow> owned t d = owned s d"
  by (simp add: owned_def)

lemma owned_range: "file_slots s d \<Longrightarrow> y \<in> owned s d \<Longrightarrow> 47 \<le> unat y \<and> unat y < unat (freeblock s)"
  by (auto simp: file_slots_def owned_def)

lemma slots_inj: "file_slots s d \<Longrightarrow> m \<le> 268 \<Longrightarrow> n \<le> 268 \<Longrightarrow> slot s d m = slot s d n \<Longrightarrow> slot s d m \<noteq> 0 \<Longrightarrow> m = n"
  by (simp add: file_slots_def)

lemma keep_slots:
  assumes "\<And>y. y \<in> owned s d \<Longrightarrow> blk t y = blk s y" "unat (freeblock s) \<le> unat (freeblock t)" "file_slots s d"
  shows "file_slots t d" "owned t d = owned s d" "holds s d c \<Longrightarrow> holds t d c"
proof -
  have e: "slot t d = slot s d" by (rule slot_cong) (rule assms(1))
  then show o: "owned t d = owned s d" by (rule owned_slots)
  show "file_slots t d" using assms(2,3) unfolding file_slots_def e by force
  show "holds s d c \<Longrightarrow> holds t d c"
  proof -
    assume h: "holds s d c"
    have "blk t (slot s d (i div 1024)) = blk s (slot s d (i div 1024))" if "i < length c" for i
    proof (rule assms(1))
      have "i div 1024 \<le> 268" "slot s d (i div 1024) \<noteq> 0" using h that by (auto simp: holds_def)
      then show "slot s d (i div 1024) \<in> owned s d" by (auto simp: owned_def)
    qed
    then show ?thesis using h by (simp add: holds_def e)
  qed
qed

text \<open>A new block goes into an empty slot; the only block that changes is the indirect one.\<close>

definition gets_slot :: "nat \<Rightarrow> mkfs \<Rightarrow> dinode \<Rightarrow> mkfs \<Rightarrow> dinode \<Rightarrow> bool" where
  "gets_slot n s d t e \<longleftrightarrow> slot s d n = 0 \<and> slot t e = (slot s d)(n := freeblock s) \<and>
     freeblock t = freeblock s + 1 \<and> length (d_addrs e) = 13 \<and> length (img t) = 2000 \<and> freeinode t = freeinode s \<and>
     d_type e = d_type d \<and> d_nlink e = d_nlink d \<and>
     (\<forall>y. y \<noteq> slot s d 268 \<or> y = 0 \<longrightarrow> blk t y = blk s y)"

definition file_grows :: "mkfs \<Rightarrow> dinode \<Rightarrow> mkfs \<Rightarrow> dinode \<Rightarrow> bool" where
  "file_grows s d t e \<longleftrightarrow> built t \<and> file_slots t e \<and> freeinode t = freeinode s \<and> d_type e = d_type d \<and> d_nlink e = d_nlink d \<and>
     unat (freeblock s) \<le> unat (freeblock t) \<and>
     (\<forall>y\<in>owned t e. y \<in> owned s d \<or> unat (freeblock s) \<le> unat y) \<and>
     (\<forall>y. y \<notin> owned s d \<and> unat y < unat (freeblock s) \<longrightarrow> blk t y = blk s y)"

lemma free_up: "unat (x :: u32) < 2000 \<Longrightarrow> unat (x + 1) = unat x + 1"
  by (subst unat_add_lem [THEN iffD1]) simp_all

lemma file_grows_refl: "built s \<Longrightarrow> file_slots s d \<Longrightarrow> file_grows s d s d"
  by (simp add: file_grows_def)

lemma file_grows_trans:
  assumes "file_grows s d t e" "file_grows t e u f"
  shows "file_grows s d u f"
  unfolding file_grows_def
proof (intro conjI allI impI ballI)
  show "built u" "file_slots u f" "freeinode u = freeinode s" "d_type f = d_type d" "d_nlink f = d_nlink d"
    "unat (freeblock s) \<le> unat (freeblock u)" using assms by (auto simp: file_grows_def)
  fix y
  show "y \<in> owned s d \<or> unat (freeblock s) \<le> unat y" if "y \<in> owned u f"
    using assms that by (auto simp: file_grows_def)
  assume y: "y \<notin> owned s d \<and> unat y < unat (freeblock s)"
  then have "y \<notin> owned t e" "unat y < unat (freeblock t)" using assms(1) by (auto simp: file_grows_def)
  then show "blk u y = blk s y" using assms y by (simp add: file_grows_def)
qed

lemma gets_slot_file:
  assumes s: "built s" "file_slots s d" "n \<le> 268" "unat (freeblock s) < 2000" and g: "gets_slot n s d t e"
  shows "file_grows s d t e" "holds s d c \<Longrightarrow> holds t e c"
proof -
  let ?f = "freeblock s"
  have e: "slot t e = (slot s d)(n := ?f)" "slot s d n = 0" "freeblock t = ?f + 1" using g by (simp_all add: gets_slot_def)
  have f: "unat (freeblock t) = unat ?f + 1" using free_up [OF s(4)] e(3) by simp
  have rng: "m \<le> 268 \<Longrightarrow> slot s d m \<noteq> 0 \<Longrightarrow> 47 \<le> unat (slot s d m) \<and> unat (slot s d m) < unat ?f" for m
    using s(2) by (simp add: file_slots_def)
  have b: "blk t y = blk s y" if "y \<noteq> slot s d 268 \<or> y = 0" for y using g that by (simp add: gets_slot_def)
  have high: "blk t y = blk s y" if "unat ?f \<le> unat y" for y
    by (rule b, cases "slot s d 268 = 0") (use rng [of 268] that in auto)
  have "built t" using s(1,4) f high g by (auto simp: built_def gets_slot_def)
  moreover have "file_slots t e"
    unfolding file_slots_def e(1)
  proof (intro conjI allI impI)
    show "length (d_addrs e) = 13" using g by (simp add: gets_slot_def)
    fix m :: nat assume m: "m \<le> 268"
    show "47 \<le> unat (((slot s d)(n := ?f)) m)" "unat (((slot s d)(n := ?f)) m) < unat (freeblock t)"
      if "((slot s d)(n := ?f)) m \<noteq> 0" using rng [OF m] that s(1) f by (auto simp: built_def split: if_splits)
    fix k :: nat assume k: "k \<le> 268" "((slot s d)(n := ?f)) m = ((slot s d)(n := ?f)) k \<and> ((slot s d)(n := ?f)) m \<noteq> 0"
    show "m = k"
      using k m rng [OF m] rng [OF k(1)] s(2) by (auto simp: file_slots_def split: if_splits)
  qed
  moreover have o: "owned t e \<subseteq> insert ?f (owned s d)" by (auto simp: owned_def e(1))
  moreover have "blk t y = blk s y" if "y \<notin> owned s d" for y
  proof (rule b, rule ccontr)
    assume "\<not> (y \<noteq> slot s d 268 \<or> y = 0)"
    then have "y \<in> owned s d" by (auto simp: owned_def)
    then show False using that by simp
  qed
  ultimately show "file_grows s d t e" using g f by (auto simp: file_grows_def gets_slot_def)
  assume h: "holds s d c"
  show "holds t e c"
    unfolding holds_def
  proof (intro conjI allI impI)
    show "length c \<le> 274432" using h by (simp add: holds_def)
    fix i assume i: "i < length c"
    then have k: "i div 1024 < 268" "slot s d (i div 1024) \<noteq> 0" "blk s (slot s d (i div 1024)) (i mod 1024) = c ! i"
      using h by (auto simp: holds_def)
    then have "slot t e (i div 1024) = slot s d (i div 1024)" using e(1,2) by auto
    moreover have "slot s d (i div 1024) \<noteq> slot s d 268" using slots_inj [OF s(2), of "i div 1024" 268] k by auto
    then have "blk t (slot s d (i div 1024)) = blk s (slot s d (i div 1024))" using b by blast
    ultimately show "slot t e (i div 1024) \<noteq> 0" "blk t (slot t e (i div 1024)) (i mod 1024) = c ! i"
      using k(2,3) by (simp_all only: not_False_eq_True)
  qed
qed

subsection \<open>Appending\<close>

lemma fresh_zero: "built s \<Longrightarrow> unat (freeblock s) < 2000 \<Longrightarrow> blk s (freeblock s) = zeroes"
  by (simp add: built_def)

lemma get32_zeroes: "get32 zeroes k = 0" by (simp add: get32_def)

text \<open>The three ways in which \<open>iappend_block\<close> takes a block.\<close>

abbreviation take_free :: "mkfs \<Rightarrow> mkfs" where
  "take_free s \<equiv> s\<lparr>freeblock := freeblock s + 1\<rparr>"

abbreviation set_addr :: "nat \<Rightarrow> u32 \<Rightarrow> dinode \<Rightarrow> dinode" where
  "set_addr n b d \<equiv> d\<lparr>d_addrs := (d_addrs d)[n := b]\<rparr>"

lemma take_free_blk: "blk (take_free s) = blk s" by (intro ext) (simp add: blk_def)

lemma direct_slot:
  assumes "length (d_addrs d) = 13" "n < 12"
  shows "slot (take_free s) (set_addr n b d) = (slot s d)(n := b)"
  by (rule ext) (use assms in \<open>simp add: slot_def take_free_blk nth_list_update\<close>)

lemma indirect_slot:
  assumes "length (d_addrs d) = 13" "d_addrs d ! 12 = 0" "blk s b = zeroes"
  shows "slot (take_free s) (set_addr 12 b d) = (slot s d)(268 := b)"
  by (rule ext) (use assms in \<open>simp add: slot_def take_free_blk get32_zeroes\<close>)

lemma entry_slot:
  assumes "length (img s) = 2000" "unat (d_addrs d ! 12) < 2000" "d_addrs d ! 12 \<noteq> 0" "n < 268" "12 \<le> n"
  shows "slot (wsect (d_addrs d ! 12) (put32 (4 * (n - 12)) b (blk s (d_addrs d ! 12))) s) d = (slot s d)(n := b)"
proof
  fix m
  have "blk (wsect (d_addrs d ! 12) (put32 (4 * (n - 12)) b (blk s (d_addrs d ! 12))) s) =
      (blk s)(d_addrs d ! 12 := put32 (4 * (n - 12)) b (blk s (d_addrs d ! 12)))"
    by (rule wsect_in) (rule assms)+
  moreover have apart: "get32 (put32 (4 * (n - 12)) b x) (4 * (m - 12)) = get32 x (4 * (m - 12))" if "m \<noteq> n" "12 \<le> m" for x
    by (rule get32_put32_other) (use that assms(4,5) in linarith)
  ultimately show "slot (wsect (d_addrs d ! 12) (put32 (4 * (n - 12)) b (blk s (d_addrs d ! 12))) s) d m = ((slot s d)(n := b)) m"
    using assms(3-5) apart by (cases "m = n") (auto simp: slot_def)
qed

lemma direct_gets_slot:
  assumes "built s" "file_slots s d" "n < 12" "d_addrs d ! n = 0"
  shows "gets_slot n s d (take_free s) (set_addr n (freeblock s) d)"
  unfolding gets_slot_def using assms direct_slot [of d n s "freeblock s"]
  by (simp add: file_slots_def built_def take_free_blk) (simp add: slot_def)

lemma indirect_gets_slot:
  assumes "built s" "file_slots s d" "d_addrs d ! 12 = 0" "unat (freeblock s) < 2000"
  shows "gets_slot 268 s d (take_free s) (set_addr 12 (freeblock s) d)"
  unfolding gets_slot_def using assms indirect_slot [of d s "freeblock s"] fresh_zero [OF assms(1,4)]
  by (simp add: file_slots_def built_def take_free_blk) (simp add: slot_def)

lemma entry_gets_slot:
  assumes "built s" "file_slots s d" "12 \<le> n" "n < 268" "d_addrs d ! 12 \<noteq> 0" "slot s d n = 0"
  shows "gets_slot n s d (wsect (d_addrs d ! 12) (put32 (4 * (n - 12)) (freeblock s) (blk s (d_addrs d ! 12))) (take_free s)) d"
proof -
  have "slot s d 268 = d_addrs d ! 12" by (simp add: slot_def)
  then have a: "unat (d_addrs d ! 12) < 2000" using assms(1,2,5) by (auto simp: file_slots_def built_def)
  have l: "length (img (take_free s)) = 2000" using assms(1) by (simp add: built_def)
  have sl: "slot (take_free s) d = slot s d" by (rule slot_cong) (simp add: take_free_blk)
  show ?thesis
    unfolding gets_slot_def
    using assms entry_slot [OF l a assms(5,4,3), of "freeblock s"] wsect_in [OF l a] \<open>slot s d 268 = d_addrs d ! 12\<close>
    by (simp add: take_free_blk sl file_slots_def)
qed

text \<open>The block for part \<open>n\<close> is found or taken; nothing that the file holds is lost.\<close>

definition finds :: "nat \<Rightarrow> mkfs \<Rightarrow> dinode \<Rightarrow> u32 \<Rightarrow> mkfs \<Rightarrow> dinode \<Rightarrow> bool" where
  "finds n s d x t e \<longleftrightarrow> file_grows s d t e \<and> x = slot t e n \<and> x \<noteq> 0 \<and> (\<forall>c. holds s d c \<longrightarrow> holds t e c)"

lemma finds_old: "built s \<Longrightarrow> file_slots s d \<Longrightarrow> slot s d n \<noteq> 0 \<Longrightarrow> finds n s d (slot s d n) s d"
  by (simp add: finds_def file_grows_refl)

lemma finds_new:
  assumes "built s" "file_slots s d" "n \<le> 268" "unat (freeblock s) < 2000" "gets_slot n s d t e"
  shows "finds n s d (freeblock s) t e"
proof -
  have "freeblock s \<noteq> 0" using assms(1) by (auto simp: built_def)
  then show ?thesis using gets_slot_file [OF assms] assms(5) by (simp add: finds_def gets_slot_def)
qed

lemma finds_after: "finds m s d y t e \<Longrightarrow> finds n t e x u f \<Longrightarrow> finds n s d x u f"
  using file_grows_trans unfolding finds_def by blast

lemma iappend_entry:
  assumes s: "built s" "file_slots s d" "12 \<le> n" "n < 268" "d_addrs d ! 12 \<noteq> 0"
    and x: "do {
       indirect \<leftarrow> rsect (d_addrs d ! NDIRECT) s;
       let k = n - NDIRECT;
       if get32 indirect (4 * k) = 0
       then case new_block s of (b, s) \<Rightarrow>
         Some (b, d, wsect (d_addrs d ! NDIRECT) (put32 (4 * k) b indirect) s)
       else Some (get32 indirect (4 * k), d, s) } = Some (x, e, t)"
    and r: "rsect x t = Some buf"
  shows "finds n s d x t e"
proof -
  have i: "slot s d 268 = d_addrs d ! 12" "slot s d n = get32 (blk s (d_addrs d ! 12)) (4 * (n - 12))"
    using s(3-5) by (simp_all add: slot_def)
  have a: "unat (d_addrs d ! 12) < 2000" using s(1,2,5) i(1) by (auto simp: file_slots_def built_def)
  have l: "length (img s) = 2000" "length (img (take_free s)) = 2000" using s(1) by (simp_all add: built_def)
  have rs: "rsect (d_addrs d ! 12) s = Some (blk s (d_addrs d ! 12))" using rsect_small [OF l(1)] a by simp
  show ?thesis
  proof (cases "slot s d n = 0")
    case True
    then have e: "x = freeblock s" "e = d"
        "t = wsect (d_addrs d ! 12) (put32 (4 * (n - 12)) (freeblock s) (blk s (d_addrs d ! 12))) (take_free s)"
      using x rs i(2) by (auto simp: NDIRECT_def new_block_def)
    have f: "unat (freeblock s) < 2000"
      using r rsect_small [of t "freeblock s"] wsect_in(1) [OF l(2) a] s(1) unfolding e by (auto simp: built_def split: if_splits)
    show ?thesis unfolding e by (rule finds_new [OF s(1,2) _ f entry_gets_slot [OF s True]]) (use s(4) in simp)
  next
    case False
    then have "x = slot s d n" "e = d" "t = s" using x rs i(2) by (auto simp: NDIRECT_def)
    then show ?thesis using finds_old [OF s(1,2) False] by simp
  qed
qed

lemma iappend_block_finds:
  assumes s: "built s" "file_slots s d" "n < 268" and x: "iappend_block n d s = Some (x, e, t)" and r: "rsect x t = Some buf"
  shows "finds n s d x t e"
proof -
  have l: "length (img (take_free s)) = 2000" "length (img s) = 2000" "unat (freeblock s) \<le> 2001" using s(1) by (simp_all add: built_def)
  consider "n < 12" "d_addrs d ! n \<noteq> 0" | "n < 12" "d_addrs d ! n = 0" | "12 \<le> n" "d_addrs d ! 12 = 0" | "12 \<le> n" "d_addrs d ! 12 \<noteq> 0"
    by linarith
  then show ?thesis
  proof cases
    case 1
    then have "slot s d n \<noteq> 0" "x = slot s d n" "e = d" "t = s" using x by (auto simp: iappend_block_def NDIRECT_def slot_def)
    then show ?thesis using finds_old [OF s(1,2)] by simp
  next
    case 2
    then have e: "x = freeblock s" "e = set_addr n (freeblock s) d" "t = take_free s"
      using x by (auto simp: iappend_block_def NDIRECT_def new_block_def)
    have f: "unat (freeblock s) < 2000" using r rsect_small [OF l(1,3)] unfolding e by (auto split: if_splits)
    show ?thesis unfolding e by (rule finds_new [OF s(1,2) _ f direct_gets_slot [OF s(1,2) 2]]) (use s(3) in simp)
  next
    case 3
    let ?d = "set_addr 12 (freeblock s) d" and ?s = "take_free s"
    have k: "length (d_addrs d) = 13" using s(2) by (simp add: file_slots_def)
    have y: "do {
       indirect \<leftarrow> rsect (d_addrs ?d ! NDIRECT) ?s;
       let k = n - NDIRECT;
       if get32 indirect (4 * k) = 0
       then case new_block ?s of (b, s) \<Rightarrow>
         Some (b, ?d, wsect (d_addrs ?d ! NDIRECT) (put32 (4 * k) b indirect) s)
       else Some (get32 indirect (4 * k), ?d, ?s) } = Some (x, e, t)"
      using x 3 by (simp add: iappend_block_def new_block_def NDIRECT_def)
    then have "rsect (freeblock s) ?s \<noteq> None" using k by (auto simp: NDIRECT_def)
    then have f: "unat (freeblock s) < 2000" using rsect_small [OF l(1,3)] by (auto split: if_splits)
    have g: "finds 268 s d (freeblock s) ?s ?d"
      by (rule finds_new [OF s(1,2) _ f indirect_gets_slot [OF s(1,2) 3(2) f]]) simp
    have "freeblock s \<noteq> 0" using s(1) by (auto simp: built_def)
    then have "finds n ?s ?d x t e"
      using g k by (intro iappend_entry [OF _ _ 3(1) s(3) _ y r]) (auto simp: finds_def file_grows_def)
    then show ?thesis by (rule finds_after [OF g])
  next
    case 4
    have "do {
       indirect \<leftarrow> rsect (d_addrs d ! NDIRECT) s;
       let k = n - NDIRECT;
       if get32 indirect (4 * k) = 0
       then case new_block s of (b, s) \<Rightarrow>
         Some (b, d, wsect (d_addrs d ! NDIRECT) (put32 (4 * k) b indirect) s)
       else Some (get32 indirect (4 * k), d, s) } = Some (x, e, t)"
      using x 4 by (simp add: iappend_block_def NDIRECT_def)
    then show ?thesis by (rule iappend_entry [OF s(1,2) 4(1) s(3) 4(2) _ r])
  qed
qed

text \<open>The bytes go behind those that are there.\<close>

lemma write_part:
  assumes s: "built s" "file_slots s d" "holds s d c" and n: "n = length c div 1024" "n < 268" "slot s d n \<noteq> 0"
    and bs: "length c mod 1024 + length bs \<le> 1024"
    and t: "t = wsect (slot s d n) (blk_store (length c mod 1024) bs (blk s (slot s d n))) s"
  shows "file_grows s d t d" "holds t d (c @ bs)"
proof -
  let ?x = "slot s d n"
  have x: "unat ?x < unat (freeblock s)" using s(2) n(2,3) by (simp add: file_slots_def)
  then have x2: "unat ?x < 2000" using s(1) by (simp add: built_def)
  have l: "length (img s) = 2000" using s(1) by (simp add: built_def)
  have w: "length (img t) = 2000" "blk t = (blk s)(?x := blk_store (length c mod 1024) bs (blk s ?x))"
    "freeblock t = freeblock s" "freeinode t = freeinode s"
    unfolding t by (rule wsect_in [OF l x2])+
  have "?x \<noteq> slot s d 268" using slots_inj [OF s(2), of n 268] n by auto
  then have sl: "slot t d = slot s d" by (intro ext) (simp add: slot_def w(2))
  have o: "?x \<in> owned s d" using n by (auto simp: owned_def)
  show "file_grows s d t d"
    using s(1,2) w x o unfolding file_grows_def built_def file_slots_def sl owned_slots [OF sl] by auto
  show "holds t d (c @ bs)"
    unfolding holds_def sl
  proof (intro conjI allI impI)
    have "length c = 1024 * n + length c mod 1024" using n(1) by simp
    then show "length (c @ bs) \<le> 274432" using n(2) bs by simp
    fix i assume i: "i < length (c @ bs)"
    have "slot s d (i div 1024) \<noteq> 0 \<and> blk t (slot s d (i div 1024)) (i mod 1024) = (c @ bs) ! i"
    proof (cases "i < length c")
      case True
      then have h: "slot s d (i div 1024) \<noteq> 0" "blk s (slot s d (i div 1024)) (i mod 1024) = c ! i" "i div 1024 < 268"
        using s(3) by (auto simp: holds_def)
      have "blk t (slot s d (i div 1024)) (i mod 1024) = blk s (slot s d (i div 1024)) (i mod 1024)"
      proof (cases "i div 1024 = n")
        case k: True
        then have "i mod 1024 < length c mod 1024" using True n(1) by (metis div_mult_mod_eq nat_add_left_cancel_less)
        then show ?thesis using k by (simp add: w(2) blk_store_def)
      next
        case False
        then have "slot s d (i div 1024) \<noteq> ?x" using slots_inj [OF s(2), of "i div 1024" n] h n by auto
        then show ?thesis by (simp add: w(2))
      qed
      then show ?thesis using h True by (simp add: nth_append)
    next
      case False
      then obtain k where k: "i = length c + k" "k < length bs" using i by (metis add_diff_inverse_nat length_append nat_add_left_cancel_less)
      then have e: "i = 1024 * n + (length c mod 1024 + k)" "length c mod 1024 + k < 1024" using bs n(1) by auto
      have "i div 1024 = n" "i mod 1024 = length c mod 1024 + k" by (subst e(1), use e(2) in simp)+
      then show ?thesis using k n(3) by (simp add: w(2) blk_store_def nth_append)
    qed
    then show "slot s d (i div 1024) \<noteq> 0" "blk t (slot s d (i div 1024)) (i mod 1024) = (c @ bs) ! i" by simp_all
  qed
qed

lemma iappend_loop_holds:
  assumes "iappend_loop d (of_nat (length c)) p s = Some (e, off, t)" "built s" "file_slots s d" "holds s d c"
  shows "file_grows s d t e \<and> holds t e (c @ p) \<and> off = of_nat (length (c @ p))"
  using assms
proof (induction p arbitrary: d c s rule: length_induct)
  case (1 p)
  have len: "length c \<le> 274432" using 1(5) by (simp add: holds_def)
  then have off: "unat (of_nat (length c) :: u32) = length c" by (simp add: unat_of_nat)
  show ?case
  proof (cases "p = []")
    case True
    then show ?thesis using 1(2-5) by (simp add: iappend_loop.simps file_grows_refl)
  next
    case False
    let ?n = "length c div 1024" and ?r = "length c mod 1024" and ?m = "min (length p) (1024 - length c mod 1024)"
    have m: "0 < ?m" "?m \<le> length p" "?r + ?m \<le> 1024" using False by (auto simp: min_def)
    have "\<exists>x d' s' buf. ?n < 268 \<and> iappend_block ?n d s = Some (x, d', s') \<and> rsect x s' = Some buf \<and>
        iappend_loop d' (of_nat (length c) + of_nat ?m) (drop ?m p) (wsect x (blk_store ?r (take ?m p) buf) s') = Some (e, off, t)"
      using 1(2) False by (subst (asm) iappend_loop.simps)
        (auto simp: off Let_def BSIZE_def MAXFILE_def NDIRECT_def NINDIRECT_def split: if_splits option.splits prod.splits)
    then obtain x d' s' buf where x: "?n < 268" "iappend_block ?n d s = Some (x, d', s')" "rsect x s' = Some buf"
      "iappend_loop d' (of_nat (length c) + of_nat ?m) (drop ?m p) (wsect x (blk_store ?r (take ?m p) buf) s') = Some (e, off, t)"
      by blast
    have f: "finds ?n s d x s' d'" by (rule iappend_block_finds [OF 1(3,4) x(1-3)])
    then have s': "built s'" "file_slots s' d'" "holds s' d' c" "slot s' d' ?n \<noteq> 0" "x = slot s' d' ?n" and g: "file_grows s d s' d'"
      using 1(5) by (auto simp: finds_def file_grows_def)
    have "unat x < 2000" using slot_small [OF s'(1,2) _ s'(4)] x(1) s'(5) by simp
    then have buf: "buf = blk s' x" using x(3) rsect_small [of s' x] s'(1) by (simp add: built_def)
    let ?c = "c @ take ?m p"
    define u where "u = wsect x (blk_store ?r (take ?m p) buf) s'"
    have w: "file_grows s' d' u d'" "holds u d' ?c"
      by (rule write_part [OF s'(1-3) refl x(1) s'(4), of "take ?m p"]; use m s'(5) in \<open>simp add: u_def buf\<close>)+
    have "length (drop ?m p) < length p" using m by simp
    moreover have "iappend_loop d' (of_nat (length ?c)) (drop ?m p) u = Some (e, off, t)" using x(4) m(2) by (simp add: u_def)
    moreover have "built u" "file_slots u d'" using w(1) by (simp_all add: file_grows_def)
    ultimately have "file_grows u d' t e \<and> holds t e (?c @ drop ?m p) \<and> off = of_nat (length (?c @ drop ?m p))"
      using w(2) 1(1) by blast
    then show ?thesis using file_grows_trans [OF file_grows_trans [OF g w(1)]] by simp
  qed
qed

subsection \<open>The table of inodes\<close>

text \<open>Inode \<open>n\<close> as it stands in the image.\<close>

definition inode_at :: "mkfs \<Rightarrow> nat \<Rightarrow> dinode" where
  "inode_at s n = dinode_get (dinode_off n) (blk s (IBLOCK n mk_sb))"

text \<open>The inodes made so far are those of the list: type and contents, number 1 first.\<close>

definition entry_ok :: "mkfs \<Rightarrow> dinode \<Rightarrow> u16 \<times> u8 list \<Rightarrow> bool" where
  "entry_ok s d f \<longleftrightarrow> file_slots s d \<and> holds s d (snd f) \<and> d_size d = of_nat (length (snd f)) \<and> d_type d = fst f \<and> d_nlink d = 1"

definition table_ok :: "mkfs \<Rightarrow> (u16 \<times> u8 list) list \<Rightarrow> bool" where
  "table_ok s fs \<longleftrightarrow> built s \<and> length fs < NINODES \<and> freeinode s = of_nat (length fs + 1) \<and> blk s 1 = sb_put mk_sb zeroes \<and>
     (\<forall>k<length fs. entry_ok s (inode_at s (k + 1)) (fs ! k)) \<and>
     (\<forall>k<length fs. \<forall>j<length fs. k \<noteq> j \<longrightarrow> owned s (inode_at s (k + 1)) \<inter> owned s (inode_at s (j + 1)) = {})"

lemma iblock:
  assumes "n < NINODES"
  shows "unat (IBLOCK n mk_sb) = 33 + n div 16"
proof -
  have "n div 16 < 13" using assms by (simp add: NINODES_def)
  then have "unat (of_nat (n div 16) + 33 :: u32) = n div 16 + 33"
    by (subst unat_add_lem [THEN iffD1]) (simp_all add: unat_of_nat)
  then show ?thesis by (simp add: IBLOCK_def mk_sb_def IPB_def BSIZE_def mkfs_layout add.commute)
qed

lemma inode_cong: "blk t (IBLOCK n mk_sb) = blk s (IBLOCK n mk_sb) \<Longrightarrow> inode_at t n = inode_at s n"
  by (simp add: inode_at_def)

lemma rinode_at: "length (img s) = 2000 \<Longrightarrow> n < NINODES \<Longrightarrow> rinode (of_nat n) s = Some (inode_at s n)"
proof -
  assume a: "length (img s) = 2000" "n < NINODES"
  have "unat (of_nat n :: u32) = n" "unat (IBLOCK n mk_sb) < 2000" using a(2) iblock [OF a(2)] by (simp_all add: unat_of_nat NINODES_def)
  then show ?thesis using rsect_small [OF a(1), of "IBLOCK n mk_sb"] by (simp add: rinode_def inode_at_def)
qed

text \<open>\<open>winode\<close> replaces one inode and touches no block from 47 on.\<close>

lemma winode_at:
  assumes s: "length (img s) = 2000" and n: "0 < n" "n < NINODES" and d: "length (d_addrs d) = 13"
  shows "\<exists>t. winode (of_nat n) d s = Some t \<and> length (img t) = 2000 \<and> freeblock t = freeblock s \<and> freeinode t = freeinode s \<and>
    inode_at t n = d \<and> (\<forall>m<NINODES. m \<noteq> n \<longrightarrow> inode_at t m = inode_at s m) \<and>
    (\<forall>y. unat y < 33 \<or> 47 \<le> unat y \<longrightarrow> blk t y = blk s y)"
proof -
  let ?b = "IBLOCK n mk_sb"
  have u: "unat (of_nat n :: u32) = n" using n by (simp add: unat_of_nat NINODES_def)
  have b: "unat ?b = 33 + n div 16" by (rule iblock [OF n(2)])
  then have b2: "unat ?b < 2000" using n(2) by (simp add: NINODES_def)
  let ?t = "wsect ?b (dinode_put (dinode_off n) d (blk s ?b)) s"
  note w = wsect_in [OF s b2, of "dinode_put (dinode_off n) d (blk s ?b)"]
  have "winode (of_nat n) d s = Some ?t" using rsect_small [OF s, of ?b] b2 by (simp add: winode_def u Let_def)
  moreover have "inode_at ?t n = d" by (simp add: inode_at_def w(2) dinode_get_put [OF d])
  moreover have "inode_at ?t m = inode_at s m" if m: "m < NINODES" "m \<noteq> n" for m
  proof (cases "IBLOCK m mk_sb = ?b")
    case True
    then have "m div 16 = n div 16" using b iblock [OF m(1)] by simp
    then have "n mod 16 \<noteq> m mod 16" using m(2) div_mult_mod_eq [of n 16] div_mult_mod_eq [of m 16] by metis
    then have "n mod IPB \<noteq> m mod IPB" by (simp add: IPB_def BSIZE_def)
    then show ?thesis by (simp add: inode_at_def w(2) True dinode_get_put_other [OF d])
  next
    case False
    then show ?thesis by (simp add: inode_at_def w(2))
  qed
  moreover have "blk ?t y = blk s y" if "unat y < 33 \<or> 47 \<le> unat y" for y
    using that b n(2) by (auto simp: w(2) NINODES_def)
  ultimately show ?thesis using w by blast
qed

lemma slot_fields [simp]:
  "slot s (d\<lparr>d_size := x\<rparr>) = slot s d" "owned s (d\<lparr>d_size := x\<rparr>) = owned s d"
  "file_slots s (d\<lparr>d_size := x\<rparr>) = file_slots s d" "holds s (d\<lparr>d_size := x\<rparr>) c = holds s d c"
proof -
  show "slot s (d\<lparr>d_size := x\<rparr>) = slot s d" by (intro ext) (simp add: slot_def)
  then show "owned s (d\<lparr>d_size := x\<rparr>) = owned s d" "file_slots s (d\<lparr>d_size := x\<rparr>) = file_slots s d"
    "holds s (d\<lparr>d_size := x\<rparr>) c = holds s d c" by (simp_all add: owned_def file_slots_def holds_def)
qed

text \<open>A file that has not been touched is as before.\<close>

lemma entry_kept:
  assumes "entry_ok s d f" "\<And>y. y \<in> owned s d \<Longrightarrow> blk t y = blk s y" "unat (freeblock s) \<le> unat (freeblock t)"
  shows "entry_ok t d f" "owned t d = owned s d"
  using assms(1) keep_slots [of s d t, OF assms(2,3)] by (auto simp: entry_ok_def)

lemma image_iappend:
  assumes s: "table_ok s fs" and k: "k < length fs" and a: "iappend (of_nat (k + 1)) p s = Some t"
  shows "table_ok t (fs[k := (fst (fs ! k), snd (fs ! k) @ p)])"
proof -
  let ?d = "inode_at s (k + 1)" and ?c = "snd (fs ! k)"
  have b: "built s" "length (img s) = 2000" "k + 1 < NINODES" "47 \<le> unat (freeblock s)" using s k by (auto simp: table_ok_def built_def)
  have e0: "\<And>j. j < length fs \<Longrightarrow> entry_ok s (inode_at s (j + 1)) (fs ! j)" using s by (simp add: table_ok_def)
  have d: "file_slots s ?d" "holds s ?d ?c" "d_size ?d = of_nat (length ?c)" "d_type ?d = fst (fs ! k)" "d_nlink ?d = 1"
    using e0 [OF k] by (simp_all add: entry_ok_def)
  note r = rinode_at [OF b(2,3)]
  obtain e off v where l: "iappend_loop ?d (of_nat (length ?c)) p s = Some (e, off, v)" and w: "winode (of_nat (k + 1)) (e\<lparr>d_size := off\<rparr>) v = Some t"
    using a by (auto simp only: iappend_def r d(3) Option.bind.bind_lunit split: option.splits prod.splits bind_splits)
  have g: "file_grows s ?d v e" "holds v e (?c @ p)" "off = of_nat (length (?c @ p))"
    using iappend_loop_holds [OF l b(1) d(1,2)] by simp_all
  have bv: "built v" "length (img v) = 2000" "file_slots v e" "length (d_addrs e) = 13" using g(1) by (auto simp: file_grows_def built_def file_slots_def)
  obtain t' where t': "winode (of_nat (k + 1)) (e\<lparr>d_size := off\<rparr>) v = Some t'" "length (img t') = 2000" "freeblock t' = freeblock v"
    "freeinode t' = freeinode v" "inode_at t' (k + 1) = e\<lparr>d_size := off\<rparr>" "\<And>m. m < NINODES \<Longrightarrow> m \<noteq> k + 1 \<Longrightarrow> inode_at t' m = inode_at v m"
    "\<And>y. unat y < 33 \<or> 47 \<le> unat y \<Longrightarrow> blk t' y = blk v y"
    using winode_at [OF bv(2) _ b(3), of "e\<lparr>d_size := off\<rparr>"] bv(4) by auto
  have tt: "t' = t" using t'(1) w by simp
  note t = t'(2-7) [unfolded tt]
  have low: "blk v y = blk s y" if "unat y < 47" for y
  proof -
    have "y \<notin> owned s ?d" "unat y < unat (freeblock s)" using owned_range [OF d(1), of y] that b(4) by auto
    then show ?thesis using g(1) by (simp add: file_grows_def)
  qed
  have inodes: "inode_at t m = inode_at s m" if "m < NINODES" "m \<noteq> k + 1" for m
  proof -
    have "unat (IBLOCK m mk_sb) < 47" using iblock [OF that(1)] that(1) by (simp add: NINODES_def)
    then have "inode_at v m = inode_at s m" by (intro inode_cong low)
    then show ?thesis using t(5) [OF that] by simp
  qed
  have fb: "unat (freeblock s) \<le> unat (freeblock t)" using g(1) t(2) by (simp add: file_grows_def)
  have kept: "entry_ok t (inode_at t (j + 1)) (fs ! j)" "owned t (inode_at t (j + 1)) = owned s (inode_at s (j + 1))"
    if j: "j < length fs" "j \<noteq> k" for j
  proof -
    have i: "inode_at t (j + 1) = inode_at s (j + 1)" using inodes j s by (simp add: table_ok_def)
    have "blk t y = blk s y" if y: "y \<in> owned s (inode_at s (j + 1))" for y
    proof -
      have "y \<notin> owned s ?d" using s j k y by (auto simp: table_ok_def)
      moreover have "47 \<le> unat y" "unat y < unat (freeblock s)" using owned_range [OF _ y] e0 [OF j(1)] by (simp_all add: entry_ok_def)
      ultimately show ?thesis using t(6) g(1) by (simp add: file_grows_def)
    qed
    then show "entry_ok t (inode_at t (j + 1)) (fs ! j)" "owned t (inode_at t (j + 1)) = owned s (inode_at s (j + 1))"
      unfolding i using entry_kept [OF e0 [OF j(1)] _ fb] by blast+
  qed
  have ev: "blk t y = blk v y" if "y \<in> owned v e" for y
    using owned_range [OF bv(3) that] t(6) by simp
  have new: "entry_ok t (inode_at t (k + 1)) (fst (fs ! k), ?c @ p)" "owned t (inode_at t (k + 1)) = owned v e"
  proof -
    have "file_slots t e" "owned t e = owned v e" "holds t e (?c @ p)"
      using keep_slots [of v e t, OF ev] bv(3) g(2) t(2) by auto
    moreover have "d_type e = fst (fs ! k)" "d_nlink e = 1" using g(1) d by (simp_all add: file_grows_def)
    ultimately show "entry_ok t (inode_at t (k + 1)) (fst (fs ! k), ?c @ p)" "owned t (inode_at t (k + 1)) = owned v e"
      unfolding t(4) using g(3) by (simp_all add: entry_ok_def)
  qed
  have apart: "owned t (inode_at t (k + 1)) \<inter> owned t (inode_at t (j + 1)) = {}" if j: "j < length fs" "j \<noteq> k" for j
  proof -
    have "owned s ?d \<inter> owned s (inode_at s (j + 1)) = {}" using s j k by (auto simp: table_ok_def)
    moreover have "unat y < unat (freeblock s)" if "y \<in> owned s (inode_at s (j + 1))" for y
      using owned_range [OF _ that] e0 [OF j(1)] by (simp add: entry_ok_def)
    ultimately show ?thesis using g(1) unfolding kept(2) [OF j] new(2) file_grows_def by fastforce
  qed
  show ?thesis
    unfolding table_ok_def
  proof (intro conjI allI impI)
    have "\<forall>y. unat (freeblock t) \<le> unat y \<and> unat y < 2000 \<longrightarrow> blk t y = zeroes"
      using bv(1) t(2,6) by (auto simp: built_def)
    then show "built t" using bv(1) t(1,2) by (simp add: built_def)
    show "length (fs[k := (fst (fs ! k), ?c @ p)]) < NINODES" "freeinode t = of_nat (length (fs[k := (fst (fs ! k), ?c @ p)]) + 1)"
      using s t(3) g(1) by (simp_all add: table_ok_def file_grows_def)
    show "blk t 1 = sb_put mk_sb zeroes" using t(6) low s by (simp add: table_ok_def)
    fix j assume j: "j < length (fs[k := (fst (fs ! k), ?c @ p)])"
    show "entry_ok t (inode_at t (j + 1)) (fs[k := (fst (fs ! k), ?c @ p)] ! j)"
      using j kept(1) new(1) by (cases "j = k") simp_all
    fix i assume i: "i < length (fs[k := (fst (fs ! k), ?c @ p)])" "j \<noteq> i"
    show "owned t (inode_at t (j + 1)) \<inter> owned t (inode_at t (i + 1)) = {}"
      using i j apart [of i] apart [of j] kept(2) [of i] kept(2) [of j] s by (cases "j = k"; cases "i = k") (auto simp: table_ok_def Int_commute)
  qed
qed

text \<open>A new inode has no block.\<close>

lemma zero_slots: "d_addrs d = replicate 13 0 \<Longrightarrow> file_slots s d \<and> owned s d = {} \<and> holds s d []"
proof -
  assume d: "d_addrs d = replicate 13 0"
  then have "slot s d m = 0" if "m \<le> 268" for m by (auto simp: slot_def)
  then show ?thesis using d by (auto simp: file_slots_def owned_def holds_def)
qed

lemma image_mk_ialloc:
  assumes s: "table_ok s fs" and n: "length fs + 1 < NINODES"
  shows "\<exists>t. mk_ialloc ty s = Some (of_nat (length fs + 1), t) \<and> table_ok t (fs @ [(ty, [])]) \<and> freeblock t = freeblock s"
proof -
  let ?n = "length fs + 1" and ?s = "s\<lparr>freeinode := freeinode s + 1\<rparr>" and ?d = "zero_dinode\<lparr>d_type := ty, d_nlink := 1, d_size := 0\<rparr>"
  have b: "length (img ?s) = 2000" "length (d_addrs ?d) = 13" "blk ?s = blk s" "freeinode s = of_nat ?n"
    using s by (auto simp: table_ok_def built_def zero_dinode_def NDIRECT_def blk_def)
  obtain t where t: "winode (of_nat ?n) ?d ?s = Some t" "length (img t) = 2000" "freeblock t = freeblock s"
    "freeinode t = freeinode s + 1" "inode_at t ?n = ?d" "\<And>m. m < NINODES \<Longrightarrow> m \<noteq> ?n \<Longrightarrow> inode_at t m = inode_at s m"
    "\<And>y. unat y < 33 \<or> 47 \<le> unat y \<Longrightarrow> blk t y = blk s y"
    using winode_at [OF b(1) _ n b(2)] by (auto simp: inode_at_def b(3))
  have "mk_ialloc ty s = Some (of_nat ?n, t)" using t(1) by (simp only: mk_ialloc_def b(4) Let_def) simp
  moreover have "table_ok t (fs @ [(ty, [])])"
    unfolding table_ok_def
  proof (intro conjI allI impI)
    show "built t" using s t(2,3,7) by (auto simp: table_ok_def built_def)
    show "length (fs @ [(ty, [])]) < NINODES" "freeinode t = of_nat (length (fs @ [(ty, [])]) + 1)" using n b(4) t(4) by simp_all
    show "blk t 1 = sb_put mk_sb zeroes" using s t(7) by (simp add: table_ok_def)
    have new: "entry_ok t (inode_at t ?n) (ty, [])" "owned t (inode_at t ?n) = {}"
      using zero_slots [of ?d t] by (simp_all only: t(5)) (simp_all add: entry_ok_def zero_dinode_def NDIRECT_def)
    have old: "entry_ok t (inode_at t (j + 1)) (fs ! j)" "owned t (inode_at t (j + 1)) = owned s (inode_at s (j + 1))"
      if j: "j < length fs" for j
    proof -
      have i: "inode_at t (j + 1) = inode_at s (j + 1)" using j n by (intro t(6)) simp_all
      have e: "entry_ok s (inode_at s (j + 1)) (fs ! j)" using s j by (simp add: table_ok_def)
      have kb: "blk t y = blk s y" if "y \<in> owned s (inode_at s (j + 1))" for y
        using owned_range [OF _ that] e t(7) by (simp add: entry_ok_def)
      have fb: "unat (freeblock s) \<le> unat (freeblock t)" using t(3) by simp
      show "entry_ok t (inode_at t (j + 1)) (fs ! j)" "owned t (inode_at t (j + 1)) = owned s (inode_at s (j + 1))"
        unfolding i by (rule entry_kept [OF e _ fb], erule kb)+
    qed
    have o: "owned t (inode_at t (j + 1)) = (if j = length fs then {} else owned s (inode_at s (j + 1)))" if "j < length (fs @ [(ty, [])])" for j
      using old(2) [of j] new(2) that by (cases "j = length fs") simp_all
    fix j assume j: "j < length (fs @ [(ty, [])])"
    show "entry_ok t (inode_at t (j + 1)) ((fs @ [(ty, [])]) ! j)"
      using j old(1) new(1) by (cases "j = length fs") (simp_all add: nth_append)
    fix i assume i: "i < length (fs @ [(ty, [])])" "j \<noteq> i"
    then show "owned t (inode_at t (j + 1)) \<inter> owned t (inode_at t (i + 1)) = {}"
      unfolding o [OF j] o [OF i(1)] using j s by (auto simp: table_ok_def)
  qed
  ultimately show ?thesis using t(3) by blast
qed

lemma image_append_file:
  assumes "append_file (of_nat (k + 1)) input s = Some t" "table_ok s fs" "k < length fs"
  shows "table_ok t (fs[k := (fst (fs ! k), snd (fs ! k) @ input)])"
  using assms
proof (induction input arbitrary: s fs rule: length_induct)
  case (1 input)
  show ?case
  proof (cases "input = []")
    case True
    then show ?thesis using 1(2-4) by (simp add: append_file.simps)
  next
    case False
    then obtain u where u: "iappend (of_nat (k + 1)) (take BSIZE input) s = Some u" "append_file (of_nat (k + 1)) (drop BSIZE input) u = Some t"
      using 1(2) by (subst (asm) append_file.simps) (auto split: bind_splits)
    let ?f = "fs[k := (fst (fs ! k), snd (fs ! k) @ take BSIZE input)]"
    have "length (drop BSIZE input) < length input" using False by (simp add: BSIZE_def)
    moreover have "table_ok u ?f" by (rule image_iappend [OF 1(3,4) u(1)])
    moreover have "k < length ?f" using 1(4) by simp
    ultimately have "table_ok t (?f[k := (fst (?f ! k), snd (?f ! k) @ drop BSIZE input)])" using 1(1) u(2) by blast
    then show ?thesis using 1(4) by simp
  qed
qed

text \<open>
  What the kernel goes by: the super block in the image, as \<open>readsb\<close> takes it, and the inodes
  and files it finds with it.
\<close>

definition image_sb :: "mkfs \<Rightarrow> superblock" where
  "image_sb t = (let d = blk t 1 in \<lparr>sb_magic = get32 d 0, sb_size = get32 d 4, sb_nblocks = get32 d 8, sb_ninodes = get32 d 12,
     sb_nlog = get32 d 16, sb_logstart = get32 d 20, sb_inodestart = get32 d 24, sb_bmapstart = get32 d 28\<rparr>)"

definition image_inode :: "mkfs \<Rightarrow> nat \<Rightarrow> dinode" where
  "image_inode t n = dinode_get (dinode_off n) (blk t (IBLOCK n (image_sb t)))"

definition image_file :: "mkfs \<Rightarrow> nat \<Rightarrow> u8 list" where
  "image_file t n = map (\<lambda>i. blk t (slot t (image_inode t n) (i div 1024)) (i mod 1024)) [0..<unat (d_size (image_inode t n))]"

lemma image_sb_put: "blk t 1 = sb_put mk_sb zeroes \<Longrightarrow> image_sb t = mk_sb"
  by (simp add: image_sb_def sb_put_get)

lemma image_inode_at: "image_sb t = mk_sb \<Longrightarrow> image_inode t n = inode_at t n"
  by (simp add: image_inode_def inode_at_def)

subsection \<open>The program\<close>

fun new_entries :: "nat \<Rightarrow> (u8 list \<times> u8 list option) list \<Rightarrow> u8 list list" where
  "new_entries n [] = []"
| "new_entries n ((arg, input) # fs) = make_dirent (cname (the (shortname arg))) (of_nat n) # new_entries (n + 1) fs"

definition usable :: "u8 list \<times> u8 list option \<Rightarrow> bool" where
  "usable f \<longleftrightarrow> shortname (fst f) \<noteq> None \<and> snd f \<noteq> None"

lemma image_add_files:
  assumes "add_files files s = Some t" "table_ok s ((ty, c) # fs)" "length fs + length files + 1 < NINODES"
  shows "table_ok t ((ty, c @ concat (new_entries (length fs + 2) files)) # fs @ map (\<lambda>f. (T_FILE, the (snd f))) files) \<and> Ball (set files) usable"
  using assms
proof (induction files arbitrary: s c fs)
  case Nil
  then show ?case by simp
next
  case (Cons f files)
  obtain arg input where f: "f = (arg, input)" by (cases f)
  obtain u where u: "mk_ialloc T_FILE s = Some (of_nat (length fs + 2), u)" "table_ok u (((ty, c) # fs) @ [(T_FILE, [])])"
    using image_mk_ialloc [OF Cons.prems(2), of T_FILE] Cons.prems(3) by auto
  obtain name bs v w where x: "shortname arg = Some name" "input = Some bs"
    "iappend ROOTINO (make_dirent (cname name) (of_nat (length fs + 2))) u = Some v"
    "append_file (of_nat (length fs + 2)) bs v = Some w" "add_files files w = Some t"
    using Cons.prems(1) u(1) by (auto simp: f split: bind_splits if_splits)
  let ?e = "make_dirent (cname name) (of_nat (length fs + 2))"
  have v: "table_ok v ((ty, c @ ?e) # fs @ [(T_FILE, [])])"
    using image_iappend [OF u(2), of 0 ?e v] x(3) by (simp add: ROOTINO_def)
  have "of_nat (length fs + 2) = (of_nat (Suc (length fs) + 1) :: u32)" by simp
  then have "table_ok w ((ty, c @ ?e) # fs @ [(T_FILE, bs)])"
    using image_append_file [of "Suc (length fs)" bs v w, OF _ v] x(4) by (simp add: list_update_append)
  then have "table_ok t ((ty, (c @ ?e) @ concat (new_entries (length (fs @ [(T_FILE, bs)]) + 2) files)) #
      (fs @ [(T_FILE, bs)]) @ map (\<lambda>f. (T_FILE, the (snd f))) files) \<and> Ball (set files) usable"
    using Cons.prems(3) by (intro Cons.IH [OF x(5)]) simp_all
  then show ?case using x(1,2) by (simp add: f usable_def)
qed

lemma zeroed:
  assumes "img s = []" "n \<le> 2000"
  shows "fold (\<lambda>i. wsect (of_nat i) zeroes) [0..<n] s = s\<lparr>img := replicate n zeroes\<rparr>"
  using assms(2)
proof (induction n)
  case 0
  then show ?case using assms(1) by simp
next
  case (Suc n)
  then have "unat (of_nat n :: u32) = n" by (simp add: unat_of_nat)
  then have "sector (of_nat n) = n" using sector_small [of "of_nat n"] Suc.prems by simp
  then show ?case using Suc by (simp add: wsect_def replicate_append_same)
qed

lemma start_table: "table_ok mkfs_start []"
proof -
  let ?s = "\<lparr>img = replicate 2000 zeroes, freeinode = 1, freeblock = 47\<rparr>"
  have m: "mkfs_start = wsect 1 (sb_put mk_sb zeroes) ?s"
    by (simp add: mkfs_start_def zeroed FSSIZE_def mkfs_layout)
  have l: "length (img ?s) = 2000" "unat (1 :: u32) < 2000" by simp_all
  note w = wsect_in [OF l]
  have "blk ?s y = zeroes" if "unat y < 2000" for y using that by (simp add: blk_def)
  then have "blk mkfs_start y = zeroes" if "unat y < 2000" "47 \<le> unat y" for y
    using that by (auto simp: m w(2))
  then show ?thesis by (simp add: table_ok_def built_def m w NINODES_def)
qed

text \<open>The contents of a file as its size and its slots give them.\<close>

definition file_at :: "mkfs \<Rightarrow> nat \<Rightarrow> u8 list" where
  "file_at s n = map (\<lambda>i. blk s (slot s (inode_at s n) (i div 1024)) (i mod 1024)) [0..<unat (d_size (inode_at s n))]"

text \<open>It is what the kernel reads from a disk with these blocks.\<close>

lemma file_at_kernel:
  assumes "\<And>y. content s y = blk t y" "i_addrs (itable s ! ip) = d_addrs (inode_at t n)" "holds t (inode_at t n) c"
    and "unat (d_size (inode_at t n)) = length c"
  shows "map (file_byte s ip) [0..<length c] = file_at t n"
proof (rule nth_equalityI)
  show "length (map (file_byte s ip) [0..<length c]) = length (file_at t n)" using assms(4) by (simp add: file_at_def)
  fix i assume i: "i < length (map (file_byte s ip) [0..<length c])"
  then have "slot t (inode_at t n) (i div 1024) \<noteq> 0" "i div 1024 < 268" using assms(3) by (auto simp: holds_def)
  then have "block_addr s ip (i div 1024) = slot t (inode_at t n) (i div 1024)"
    using assms(1,2) by (auto simp: block_addr_def slot_def NDIRECT_def split: if_splits)
  then show "map (file_byte s ip) [0..<length c] ! i = file_at t n ! i"
    using i assms(1,4) by (simp add: file_at_def file_byte_def)
qed

lemma holds_nth: "holds s (inode_at s n) c \<Longrightarrow> i < length c \<Longrightarrow> i < unat (d_size (inode_at s n)) \<Longrightarrow> file_at s n ! i = c ! i"
  by (simp add: holds_def file_at_def)

lemma holds_file: "holds s (inode_at s n) c \<Longrightarrow> unat (d_size (inode_at s n)) = length c \<Longrightarrow> file_at s n = c"
  by (intro nth_equalityI) (simp_all add: file_at_def holds_def)

definition root_dir :: "(u8 list \<times> u8 list option) list \<Rightarrow> u8 list list" where
  "root_dir files = make_dirent (cname [46]) ROOTINO # make_dirent (cname [46, 46]) ROOTINO # new_entries 2 files"

lemma mkfs_main_steps:
  assumes m: "mkfs_main files = Some t" and n: "length files + 1 < NINODES"
  shows "\<exists>u. table_ok u ((T_DIR, concat (root_dir files)) # map (\<lambda>f. (T_FILE, the (snd f))) files) \<and> Ball (set files) usable \<and>
    freeblock t = freeblock u \<and> length (img t) = 2000 \<and> (\<forall>y. unat y < 33 \<or> 47 \<le> unat y \<longrightarrow> blk t y = blk u y) \<and>
    blk t 46 = mk_bitmap (unat (freeblock u)) \<and>
    inode_at t 1 = (inode_at u 1)\<lparr>d_size := (d_size (inode_at u 1) div 1024 + 1) * 1024\<rparr> \<and>
    (\<forall>n<NINODES. n \<noteq> 1 \<longrightarrow> inode_at t n = inode_at u n)"
proof -
  obtain s1 where s1: "mk_ialloc T_DIR mkfs_start = Some (1, s1)" "table_ok s1 [(T_DIR, [])]"
    using image_mk_ialloc [OF start_table, of T_DIR] by (auto simp: NINODES_def)
  obtain s2 s3 u where x: "iappend 1 (make_dirent (cname [46]) ROOTINO) s1 = Some s2" "iappend 1 (make_dirent (cname [46, 46]) ROOTINO) s2 = Some s3"
    "add_files files s3 = Some u"
    using m by (auto simp: mkfs_main_def s1(1) ROOTINO_def split: bind_splits)
  have "table_ok s2 [(T_DIR, make_dirent (cname [46]) ROOTINO)]" using image_iappend [OF s1(2), of 0] x(1) by simp
  then have s3: "table_ok s3 [(T_DIR, make_dirent (cname [46]) ROOTINO @ make_dirent (cname [46, 46]) ROOTINO)]"
    using image_iappend [of s2 _ 0] x(2) by fastforce
  have u: "table_ok u ((T_DIR, concat (root_dir files)) # map (\<lambda>f. (T_FILE, the (snd f))) files)" "Ball (set files) usable"
    using image_add_files [OF x(3) s3] n by (simp_all add: root_dir_def numeral_2_eq_2)
  let ?d = "(inode_at u 1)\<lparr>d_size := (d_size (inode_at u 1) div 1024 + 1) * 1024\<rparr>"
  have l: "length (img u) = 2000" "length (d_addrs ?d) = 13" "(1 :: nat) < NINODES"
    using u(1) by (auto simp: table_ok_def built_def entry_ok_def file_slots_def NINODES_def)
  have "rinode 1 u = Some (inode_at u 1)" using rinode_at [OF l(1,3)] by simp
  moreover obtain v where v: "winode 1 ?d u = Some v" "length (img v) = 2000" "freeblock v = freeblock u" "inode_at v 1 = ?d"
    "\<And>m. m < NINODES \<Longrightarrow> m \<noteq> 1 \<Longrightarrow> inode_at v m = inode_at u m" "\<And>y. unat y < 33 \<or> 47 \<le> unat y \<Longrightarrow> blk v y = blk u y"
    using winode_at [OF l(1) _ l(3,2)] by auto
  ultimately have "mk_balloc (sint (freeblock v)) v = Some t"
    using m x v(1) by (simp add: mkfs_main_def s1(1) BSIZE_def ROOTINO_def)
  moreover have "sint (freeblock v) = int (unat (freeblock u))"
    using u(1) v(3) sint_unat_small [of "freeblock u"] by (simp add: table_ok_def built_def)
  ultimately have t: "t = wsect 46 (mk_bitmap (unat (freeblock u))) v"
    by (auto simp: mk_balloc_def mk_sb_def mkfs_layout split: if_splits)
  note w = wsect_in [OF v(2), of 46 "mk_bitmap (unat (freeblock u))", folded t, simplified]
  have i: "inode_at t n = inode_at v n" if "n < NINODES" for n
  proof (rule inode_cong)
    have "IBLOCK n mk_sb \<noteq> 46" using iblock [OF that] that by (auto simp: NINODES_def)
    then show "blk t (IBLOCK n mk_sb) = blk v (IBLOCK n mk_sb)" by (simp add: w)
  qed
  show ?thesis
  proof (intro exI [of _ u] conjI allI impI)
    show "inode_at t 1 = ?d" using i [OF l(3)] v(4) by simp
    show "blk t 46 = mk_bitmap (unat (freeblock u))" by (simp add: w)
    fix y :: u32 assume "unat y < 33 \<or> 47 \<le> unat y"
    then show "blk t y = blk u y" using v(6) by (auto simp: w)
  qed (use u w v(3,5) i in simp_all)
qed

text \<open>The directory is a row of entries of 16 bytes.\<close>

lemma concat_16: "\<forall>d\<in>set ds. length d = 16 \<Longrightarrow> j < length ds \<Longrightarrow> take 16 (drop (16 * j) (concat ds)) = ds ! j"
proof (induction ds arbitrary: j)
  case (Cons d ds)
  then show ?case by (cases j) auto
qed simp

lemma length_concat_16: "\<forall>d\<in>set ds. length d = 16 \<Longrightarrow> length (concat ds) = 16 * length ds"
  by (induction ds) auto

lemma length_dirent: "length (make_dirent nm i) = 16" by (simp add: make_dirent_def)

lemma new_entries_nth:
  "length (new_entries n files) = length files" "\<forall>d\<in>set (new_entries n files). length d = 16"
  "k < length files \<Longrightarrow> new_entries n files ! k = make_dirent (cname (the (shortname (fst (files ! k))))) (of_nat (n + k))"
proof -
  show "length (new_entries n files) = length files" by (induction n files rule: new_entries.induct) auto
  show "\<forall>d\<in>set (new_entries n files). length d = 16" by (induction n files rule: new_entries.induct) (auto simp: length_dirent)
  show "k < length files \<Longrightarrow> new_entries n files ! k = make_dirent (cname (the (shortname (fst (files ! k))))) (of_nat (n + k))"
    by (induction n files arbitrary: k rule: new_entries.induct) (auto simp: nth_Cons' less_Suc_eq_0_disj ac_simps)
qed

lemma root_dir_nth:
  "length (root_dir files) = length files + 2" "\<forall>d\<in>set (root_dir files). length d = 16"
  "k < length files \<Longrightarrow> root_dir files ! (k + 2) = make_dirent (cname (the (shortname (fst (files ! k))))) (of_nat (k + 2))"
proof -
  note e = new_entries_nth [of 2 files]
  show "length (root_dir files) = length files + 2" using e(1) by (simp add: root_dir_def)
  show "\<forall>d\<in>set (root_dir files). length d = 16" using e(2) by (simp add: root_dir_def length_dirent)
  show "root_dir files ! (k + 2) = make_dirent (cname (the (shortname (fst (files ! k))))) (of_nat (k + 2))" if "k < length files"
    using new_entries_nth(3) [OF that, of 2] by (simp add: root_dir_def add.commute)
qed

lemma round_up: "unat (x :: u32) \<le> 274432 \<Longrightarrow> unat ((x div 1024 + 1) * 1024) = (unat x div 1024 + 1) * 1024"
proof -
  assume x: "unat x \<le> 274432"
  have a: "unat (x div 1024) = unat x div 1024" by (simp add: unat_div_distrib)
  then have b: "unat (x div 1024 + 1) = unat x div 1024 + 1" using x by (subst unat_add_lem [THEN iffD1]) simp_all
  then show ?thesis using x by (subst unat_mult_lem [THEN iffD1]) simp_all
qed

lemma root_listed:
  assumes "table_ok u ((T_DIR, concat (root_dir files)) # fs)" "j < length files + 2"
    and t: "inode_at t 1 = (inode_at u 1)\<lparr>d_size := (d_size (inode_at u 1) div 1024 + 1) * 1024\<rparr>"
    and b: "\<forall>y. 47 \<le> unat y \<longrightarrow> blk t y = blk u y" "freeblock t = freeblock u"
  shows "take 16 (drop (16 * j) (file_at t 1)) = root_dir files ! j"
proof -
  let ?c = "concat (root_dir files)"
  have e: "file_slots u (inode_at u 1)" "holds u (inode_at u 1) ?c" "d_size (inode_at u 1) = of_nat (length ?c)"
    using assms(1) by (auto simp: table_ok_def entry_ok_def)
  have "blk t y = blk u y" if "y \<in> owned u (inode_at u 1)" for y using owned_range [OF e(1) that] b(1) by simp
  then have h: "holds t (inode_at t 1) ?c" unfolding t using keep_slots(3) [of u "inode_at u 1" t ?c] e b(2) by auto
  have len: "length ?c \<le> 274432" using e(2) by (simp add: holds_def)
  then have sz: "unat (d_size (inode_at u 1)) = length ?c" unfolding e(3) by (simp add: unat_of_nat)
  have "length ?c \<le> unat (d_size (inode_at t 1))" unfolding t using round_up [of "d_size (inode_at u 1)"] len sz by simp
  then have f: "take (length ?c) (file_at t 1) = ?c"
    using h by (intro nth_equalityI) (auto simp: holds_nth, simp_all add: file_at_def)
  have "16 * j + 16 \<le> length ?c" using root_dir_nth(1,2) assms(2) by (simp add: length_concat_16)
  then have "take 16 (drop (16 * j) (file_at t 1)) = take 16 (drop (16 * j) (take (length ?c) (file_at t 1)))"
    by (simp add: drop_take min_def)
  also have "\<dots> = root_dir files ! j" unfolding f using root_dir_nth assms(2) by (intro concat_16) simp_all
  finally show ?thesis .
qed

end
