(* ===== verification/MkfsRun.thy ===== *)
theory MkfsRun
  imports MkfsImage
begin

section \<open>mkfs builds an image that holds its input\<close>

text \<open>
  A run of mkfs succeeds when there is room: every round of the loop of \<open>iappend\<close> takes
  at most two blocks.  If it succeeds, the image holds the files.
\<close>

subsection \<open>Enough room\<close>


















end
