(* ===== verification/Devices.thy ===== *)
theory Devices
  imports Paging Sched
begin

section \<open>UART, interrupt controller and machine-mode start (kernel/uart.c, plic.c, start.c)\<close>

text \<open>
  The routines that set registers are the lists of their writes, as address and value; what
  they read is an argument.  The transmitter of the UART is a state machine: \<open>uartwrite\<close> sends a byte
  when \<open>tx_busy\<close> is clear and sleeps otherwise, and the interrupt for an idle transmitter clears it.
  A process that \<open>uartwrite\<close> lets sleep remembers its position in the buffer.
\<close>

subsection \<open>The UART\<close>

definition UART0_IRQ :: u32 where "UART0_IRQ = 10"
definition VIRTIO0_IRQ :: u32 where "VIRTIO0_IRQ = 1"
definition IER_RX_ENABLE :: u8 where "IER_RX_ENABLE = 1"
definition IER_TX_ENABLE :: u8 where "IER_TX_ENABLE = 2"
definition FCR_FIFO_ENABLE :: u8 where "FCR_FIFO_ENABLE = 1"
definition FCR_FIFO_CLEAR :: u8 where "FCR_FIFO_CLEAR = 6"
definition LCR_EIGHT_BITS :: u8 where "LCR_EIGHT_BITS = 3"
definition LCR_BAUD_LATCH :: u8 where "LCR_BAUD_LATCH = 0x80"
definition LSR_RX_READY :: u8 where "LSR_RX_READY = 1"
definition LSR_TX_IDLE :: u8 where "LSR_TX_IDLE = 0x20"

text \<open>Registers by number: 0 for data, 1 IER, 2 FCR, 3 LCR.\<close>

definition uartinit :: "(nat \<times> u8) list" where
  "uartinit = [(1, 0), (3, LCR_BAUD_LATCH), (0, 3), (1, 0), (3, LCR_EIGHT_BITS),
     (2, FCR_FIFO_ENABLE OR FCR_FIFO_CLEAR), (1, IER_TX_ENABLE OR IER_RX_ENABLE)]"

record kuart = kprocs +
  tx_busy :: bool
  thr :: "u8 list"

datatype tx = Sent | Waits_at nat

function uartwrite :: "u8 list \<Rightarrow> nat \<Rightarrow> 'a kuart_scheme \<Rightarrow> (tx \<times> 'a kuart_scheme) option" where
  "uartwrite buf i s =
     (if \<not> i < length buf then Some (Sent, s)
      else if tx_busy s then do { s \<leftarrow> sleep ChUart s; Some (Waits_at i, s) }
      else uartwrite buf (i + 1) (s\<lparr>thr := thr s @ [buf ! i], tx_busy := True\<rparr>))"
  by pat_completeness auto
termination by (relation "measure (\<lambda>(buf, i, s). length buf - i)") auto

declare uartwrite.simps [simp del]

text \<open>The receiver: what \<open>uartgetc\<close> returns for the line status and the data register.\<close>

definition uartgetc :: "u8 \<Rightarrow> u8 \<Rightarrow> int" where
  "uartgetc lsr rhr = (if lsr AND LSR_RX_READY \<noteq> 0 then uint rhr else -1)"

text \<open>\<open>uartintr\<close> up to the loop over the received characters, which is \<open>uart_receive\<close>.\<close>

definition uartintr_tx :: "u8 \<Rightarrow> 'a kuart_scheme \<Rightarrow> 'a kuart_scheme" where
  "uartintr_tx lsr s =
     (if lsr AND LSR_TX_IDLE \<noteq> 0 then wakeup ChUart (s\<lparr>tx_busy := False\<rparr>) else s)"

text \<open>
  Polling output: \<open>uart_poll\<close> reads the status until the transmitter is idle, and does not return when the
  list of what it reads ends.  After a panic \<open>uartputc_sync\<close> does not return either.
\<close>

fun uart_poll :: "u8 list \<Rightarrow> u8 \<Rightarrow> 'a kuart_scheme \<Rightarrow> 'a kuart_scheme option" where
  "uart_poll [] c s = None"
| "uart_poll (lsr # rest) c s =
     (if lsr AND LSR_TX_IDLE = 0 then uart_poll rest c s else Some (s\<lparr>thr := thr s @ [c]\<rparr>))"

definition uartputc_sync :: "bool \<Rightarrow> u8 list \<Rightarrow> u32 \<Rightarrow> 'a kuart_scheme \<Rightarrow> 'a kuart_scheme option" where
  "uartputc_sync panicked lsrs c s = (if panicked then None else uart_poll lsrs (ucast c) s)"

text \<open>One call sends at most one byte, and only into an idle transmitter.\<close>

lemma uartwrite_busy:
  assumes "tx_busy s" "i < length buf" "cur s = Some p"
  shows "\<exists>t. uartwrite buf i s = Some (Waits_at i, t) \<and> thr t = thr s \<and> tx_busy t"
  using assms by (subst uartwrite.simps) (simp add: sleep_def myproc_def pset_def)

lemma uartwrite_idle:
  assumes "\<not> tx_busy s" "i < length buf" "cur s = Some p"
  shows "\<exists>r t. uartwrite buf i s = Some (r, t) \<and> thr t = thr s @ [buf ! i] \<and> tx_busy t \<and>
    r = (if i + 1 < length buf then Waits_at (i + 1) else Sent)"
proof -
  let ?s = "s\<lparr>thr := thr s @ [buf ! i], tx_busy := True\<rparr>"
  have e: "uartwrite buf i s = uartwrite buf (i + 1) ?s" using assms by (subst uartwrite.simps) simp
  show ?thesis
  proof (cases "i + 1 < length buf")
    case True
    then show ?thesis using uartwrite_busy [of ?s "i + 1" buf p] assms(3) e by auto
  next
    case False
    then have "uartwrite buf (i + 1) ?s = Some (Sent, ?s)" by (subst uartwrite.simps) simp
    then show ?thesis using e False by simp
  qed
qed

text \<open>
  With one transmit interrupt after every byte, a whole buffer goes out, in order.  Round \<open>k\<close>
  is the interrupt, the dispatch of the writer and the rest of its loop.
\<close>

definition uart_round :: "u8 \<Rightarrow> u8 list \<Rightarrow> nat \<Rightarrow> tx \<times> 'a kuart_scheme \<Rightarrow> (tx \<times> 'a kuart_scheme) option" where
  "uart_round lsr buf p = (\<lambda>(r, s). case r of
       Sent \<Rightarrow> Some (Sent, s)
     | Waits_at i \<Rightarrow> uartwrite buf i (wake p (dispatch p (uartintr_tx lsr s))))"

fun uart_rounds :: "nat \<Rightarrow> u8 \<Rightarrow> u8 list \<Rightarrow> nat \<Rightarrow> tx \<times> 'a kuart_scheme \<Rightarrow> (tx \<times> 'a kuart_scheme) option" where
  "uart_rounds 0 lsr buf p rs = Some rs"
| "uart_rounds (Suc n) lsr buf p rs = Option.bind (uart_round lsr buf p rs) (uart_rounds n lsr buf p)"

lemma uart_sends_all:
  assumes "lsr AND LSR_TX_IDLE \<noteq> 0" "i < length buf"
  shows "\<exists>t. uart_rounds (length buf - i) lsr buf p (Waits_at i, s) = Some (Sent, t) \<and> thr t = thr s @ drop i buf"
  using assms(2)
proof (induction "length buf - i" arbitrary: i s)
  case (Suc n)
  let ?s = "wake p (dispatch p (uartintr_tx lsr s))"
  have "thr (wakeup ChUart u) = thr u" "tx_busy (wakeup ChUart u) = tx_busy u" for u :: "'a kuart_scheme"
    using wakeup_rest [of ChUart u] by auto
  then have s: "\<not> tx_busy ?s" "cur ?s = Some p" "thr ?s = thr s"
    using assms(1) by (simp_all add: wake_def dispatch_def uartintr_tx_def pset_def)
  from uartwrite_idle [OF s(1) Suc.prems s(2)] obtain r t where t: "uartwrite buf i ?s = Some (r, t)" "thr t = thr s @ [buf ! i]"
    "r = (if i + 1 < length buf then Waits_at (i + 1) else Sent)" using s(3) by auto
  have k: "length buf - i = Suc (length buf - (i + 1))" using Suc.prems by simp
  have d: "drop i buf = buf ! i # drop (i + 1) buf" using Suc.prems by (simp add: Cons_nth_drop_Suc)
  show ?case
  proof (cases "i + 1 < length buf")
    case True
    have n: "n = length buf - (i + 1)" using Suc(2) by simp
    from Suc(1) [OF n True] n obtain u where "uart_rounds (length buf - (i + 1)) lsr buf p (Waits_at (i + 1), t) = Some (Sent, u)" "thr u = thr t @ drop (i + 1) buf"
      by blast
    then show ?thesis unfolding k using t True by (auto simp: uart_round_def d)
  next
    case False
    then have "length buf - (i + 1) = 0" by simp
    then show ?thesis unfolding k using t False by (auto simp: uart_round_def d)
  qed
qed simp

subsection \<open>The interrupt controller\<close>

definition PLIC_SENABLE :: "u64 \<Rightarrow> u64" where "PLIC_SENABLE hart = PLIC + 0x2080 + hart * 0x100"
definition PLIC_SPRIORITY :: "u64 \<Rightarrow> u64" where "PLIC_SPRIORITY hart = PLIC + 0x201000 + hart * 0x2000"
definition PLIC_SCLAIM :: "u64 \<Rightarrow> u64" where "PLIC_SCLAIM hart = PLIC + 0x201004 + hart * 0x2000"

definition plicinit :: "(u64 \<times> u32) list" where
  "plicinit = [(PLIC + ucast UART0_IRQ * 4, 1), (PLIC + ucast VIRTIO0_IRQ * 4, 1)]"

definition plicinithart :: "u64 \<Rightarrow> (u64 \<times> u32) list" where
  "plicinithart hart = [(PLIC_SENABLE hart, push_bit (unat UART0_IRQ) 1 OR push_bit (unat VIRTIO0_IRQ) 1), (PLIC_SPRIORITY hart, 0)]"

definition plic_claim :: "u64 \<Rightarrow> (u64 \<Rightarrow> u32) \<Rightarrow> u32" where
  "plic_claim hart rd = rd (PLIC_SCLAIM hart)"

definition plic_complete :: "u64 \<Rightarrow> u32 \<Rightarrow> u64 \<times> u32" where
  "plic_complete hart irq = (PLIC_SCLAIM hart, irq)"

text \<open>Exactly the interrupts that \<open>devintr\<close> knows are enabled.\<close>

lemma plic_enabled:
  assumes "unat hart < 8" "(PLIC_SENABLE hart, v) \<in> set (plicinithart hart)"
  shows "n < 32 \<Longrightarrow> bit v n \<longleftrightarrow> n = 1 \<or> n = 10"
proof -
  have "unat hart = 0 \<or> unat hart = 1 \<or> unat hart = 2 \<or> unat hart = 3 \<or> unat hart = 4 \<or> unat hart = 5 \<or> unat hart = 6 \<or> unat hart = 7"
    using assms(1) by arith
  moreover have "hart = of_nat (unat hart)" by simp
  ultimately have "PLIC_SENABLE hart \<noteq> PLIC_SPRIORITY hart"
    by (elim disjE) (simp_all add: PLIC_SENABLE_def PLIC_SPRIORITY_def PLIC_def)
  then have v: "v = push_bit 10 1 OR push_bit 1 1"
    using assms(2) by (auto simp: plicinithart_def UART0_IRQ_def VIRTIO0_IRQ_def)
  show "n < 32 \<Longrightarrow> bit v n \<longleftrightarrow> n = 1 \<or> n = 10" unfolding v
    by (auto simp only: bit_simps) auto
qed

subsection \<open>Machine mode\<close>

datatype csr = Mstatus | Mepc | Satp | Medeleg | Mideleg | Sie | Pmpaddr0 | Pmpcfg0 | Mie | Menvcfg | Mcounteren | Stimecmp | Tp

definition MSTATUS_MPP_MASK :: u64 where "MSTATUS_MPP_MASK = push_bit 11 3"
definition MSTATUS_MPP_S :: u64 where "MSTATUS_MPP_S = push_bit 11 1"
definition SIE_SEIE :: u64 where "SIE_SEIE = push_bit 9 1"
definition SIE_STIE :: u64 where "SIE_STIE = push_bit 5 1"
definition MIE_STIE :: u64 where "MIE_STIE = push_bit 5 1"

text \<open>\<open>rd\<close> has the registers before; \<open>time\<close>, \<open>hartid\<close> and the address of \<open>main\<close> are given.\<close>

definition timerinit :: "(csr \<Rightarrow> u64) \<Rightarrow> u64 \<Rightarrow> (csr \<times> u64) list" where
  "timerinit rd time = [(Mie, rd Mie OR MIE_STIE), (Menvcfg, rd Menvcfg OR push_bit 63 1), (Mcounteren, rd Mcounteren OR 2),
     (Stimecmp, time + 1000000)]"

definition start :: "(csr \<Rightarrow> u64) \<Rightarrow> u64 \<Rightarrow> u64 \<Rightarrow> u64 \<Rightarrow> (csr \<times> u64) list" where
  "start rd time hartid main_pc =
     [(Mstatus, (rd Mstatus AND NOT MSTATUS_MPP_MASK) OR MSTATUS_MPP_S), (Mepc, main_pc), (Satp, 0),
      (Medeleg, 0xffff), (Mideleg, 0xffff), (Sie, rd Sie OR SIE_SEIE OR SIE_STIE), (Pmpaddr0, 0x3fffffffffffff), (Pmpcfg0, 0xf)]
     @ timerinit rd time @ [(Tp, hartid)]"

text \<open>\<open>mret\<close> goes to supervisor mode: the previous-privilege field is 1.\<close>

lemma start_supervisor: "(Mstatus, v) \<in> set (start rd time hartid main_pc) \<Longrightarrow> v AND MSTATUS_MPP_MASK = MSTATUS_MPP_S"
proof -
  assume "(Mstatus, v) \<in> set (start rd time hartid main_pc)"
  then have v: "v = (rd Mstatus AND NOT MSTATUS_MPP_MASK) OR MSTATUS_MPP_S"
    by (auto simp: start_def timerinit_def)
  have "MSTATUS_MPP_S AND MSTATUS_MPP_MASK = MSTATUS_MPP_S" by (simp add: MSTATUS_MPP_MASK_def MSTATUS_MPP_S_def)
  moreover have "(x AND NOT m OR w) AND m = w AND m" for x m w :: u64
    by (rule bit_word_eqI) (auto simp: bit_simps)
  ultimately show ?thesis unfolding v by simp
qed

end
