(* ===== verification/Spec2Isabelle.thy ===== *)
theory Spec2Isabelle
  imports PageTableOps BakeryRun FsRun PagingFault FaultFrame PipeRun Syscall SnifferRun SnifferFrames Spinlock SchedRun Grep Printf VirtioRun ShellRun Userland MkfsRun Devices
begin

text \<open>
  A verification development for the three programs of this repository: the xv6 kernel with demand paging and its
  user programs (\<open>src/A\<close>), the packet sniffer (\<open>src/B\<close>) and the bakery simulation (\<open>src/C\<close>).

  The kernel.  \<open>Prelude\<close> has the memory, a function from addresses to bytes.  The state grows with the components, each
  a record that extends the one below: \<open>kmem\<close>, \<open>kprocs\<close>, \<open>kbuf\<close>, \<open>klogs\<close>, \<open>kinodes\<close>, \<open>kfiles\<close>, and beside these \<open>vdisk\<close> and
  \<open>kuart\<close>; operations are stated for any extension of their record.  A function of the C code is a function from a state to an
  \<open>option\<close> of result and state, and \<open>None\<close> is a panic, a state the C code leaves undefined, or a
  call that never returns.  From the bottom:
  \<open>Riscv\<close> (riscv.h, memlayout.h), \<open>StringC\<close> (string.c), \<open>Kalloc\<close> (kalloc.c: the free list in the free pages
  themselves), \<open>PageTable\<close>, \<open>PageTableInv\<close>, \<open>PageTableOps\<close> (vm.c over the three-level tables in memory),
  \<open>Proc\<close> (proc.h and the table operations of proc.c), \<open>SwapSlots\<close> (the swap bitmap), \<open>Sleeplock\<close>,
  \<open>Spinlock\<close>, \<open>Bio\<close> (bio.c), \<open>Log\<close> (log.c), \<open>Fs\<close> (fs.c), \<open>Paging\<close> (the page faults of proc.c,
  the user-memory copies and the kernel map of vm.c), \<open>Sched\<close>, \<open>Ftable\<close> and \<open>Files\<close> (file.c, pipe.c, console.c),
  \<open>Procs\<close> (fork, exit, wait), \<open>Exec\<close> (exec.c), \<open>Sysfile\<close> (sysfile.c), \<open>Syscall\<close> (syscall.c, sysproc.c, trap.c,
  main.c), \<open>Virtio\<close> (virtio_disk.c), \<open>Devices\<close> (uart.c, plic.c, start.c) and \<open>Printf\<close> (both printf.c).  A
  system call is a function of \<open>Syscall.syscall\<close>, which calls \<open>Sysfile\<close>, \<open>Procs\<close> and \<open>Exec\<close>; these use \<open>Files\<close> and
  \<open>Fs\<close>, these \<open>Log\<close> and \<open>Bio\<close>; user memory is reached through \<open>Paging\<close>, whose faults call \<open>Fs\<close> for
  the swap file and the executable.

  Time and several processes.  A function that would sleep returns a value that says where it waits; the
  caller goes on with a function of its own (\<open>virtio_resume\<close>, the loops of pipes and console).  \<open>swtch\<close> cuts the code
  in two.  A critical section is one step, which \<open>Spinlock.mutual_exclusion\<close> supports with an interleaving
  model of \<open>acquire\<close> and \<open>release\<close> on several harts.  \<open>SchedRun\<close> has runs of the scheduler as sequences of states, \<open>VirtioInv\<close>
  interleaves the callers of the disk driver, its interrupt handler and the device, and \<open>LogCrash\<close> stops the machine between any two block writes.

  User programs.  \<open>Shell\<close> (sh.c), \<open>Grep\<close> (grep.c), \<open>Ulib\<close> (ulib.c, umalloc.c), \<open>Userland\<close> (cat, echo, init, kill, ln,
  ls, mkdir, rm, wc and the loop of the shell) and \<open>Mkfs\<close> (mkfs/mkfs.c).  A program is a function of its arguments and
  of what the kernel answers.

  The sniffer.  \<open>Stdio\<close> (what is used of the C library), \<open>Frame\<close> (packets as byte lists; a read behind the
  captured bytes is \<open>None\<close>), \<open>PacketParser\<close>, \<open>PacketStorage\<close>, \<open>Inspector\<close>, \<open>Capture\<close> (pcap_handler.c, utils.c,
  main.c; what libpcap delivers is an argument).  The bakery: \<open>Bakery\<close> is all of its main.c.

  What the lemmas show.
  \<^item> Resources.  \<open>pool\<close> in \<open>Pool\<close> is the interface of an allocator, interpreted on the frames of kalloc.c (\<open>Kalloc\<close>)
    and on the swap slots (\<open>SwapSlots\<close>); \<open>fifo\<close> in \<open>Fifo\<close> that of a ring, interpreted on the queues of the
    bakery (\<open>BakeryQueue\<close>), the pipes (\<open>PipeRun\<close>) and the virtio queues (\<open>VirtioInv\<close>).
  \<^item> What a call leaves alone.  \<open>fs_view\<close> in \<open>FsFrame\<close> and \<open>mem_frame\<close> in \<open>MemFrame\<close> are the interfaces of a view that the file
    system and the memory functions do not change, \<open>fault_view\<close> in \<open>FaultFrame\<close> extends both to page faults; each is interpreted on the
    parts of the kernel's state.  \<open>Post\<close> has the rules of the partial-correctness predicate they use.
  \<^item> Page tables: which translations each operation of vm.c adds and removes, and where its frames go.
  \<^item> File system: \<open>BioInv\<close> abstracts the cache to the contents of blocks, \<open>LogInv\<close> and \<open>LogOps\<close> the log to lists of
    writes; \<open>LogRun\<close> has atomicity under crashes and restartable recovery, \<open>FsDisk\<close>, \<open>FsRead\<close>, \<open>FsRun\<close> the encodings, block
    allocation, reading, directories and path names.  \<open>MkfsImage\<close> and \<open>MkfsRun\<close>: an image holds the files mkfs was given
    where the super block stored in it leads to (\<open>image_sb\<close>, \<open>image_file\<close>), as the kernel reads them (\<open>file_at_kernel\<close>), and its
    bitmap marks exactly the blocks in use.
  \<^item> Demand paging: \<open>PagingInv\<close> and \<open>PagingRun\<close> show that every fault is one step of an abstract FIFO pager (\<open>fault_step\<close>), which
    says what it returns and what becomes of every record, and keeps the page records consistent; \<open>PagingFault\<close> has the faults that
    need no file and what is lost with a clean page, and \<open>UserCopy\<close> the copies to and from user memory.
  \<^item> Disk driver: \<open>virtio_safe\<close> is an invariant of all interleavings with any device that \<open>device_may\<close> allows,
    \<open>virtio_refines_transfer\<close> a simulation, label by label, of the atomic transfer that \<open>Bio\<close> uses.
  \<^item> Programs: the parser of the shell inverts its printer and returns well-formed trees only, grep decides the language of its
    pattern, the number printing stays in its buffer.
  \<^item> Sniffer: encoded frames are shown as they are, the storage keeps the first packets, the byte loops of the
    dumps (interface \<open>hex_lines\<close> in \<open>HexDump\<close>) agree with dumps row by row, the menu ends.
  \<^item> Bakery: \<open>BakerySpec\<close> is the program with lists for rings; \<open>BakeryInv\<close>, \<open>BakeryTime\<close> and \<open>BakeryLive\<close> prove
    resources, time line and termination for it, and \<open>BakeryRun\<close> carries them to the program by refinement.

  Bounds and fuel.  The parser of the shell runs with fuel \<open>4 * length + 5\<close>, which is enough for every line
  (\<open>ShellRun\<close>); the main loop of the bakery is shown to end with explicit bounds (\<open>BakeryLive\<close>).  Loops on data the
  code does not bound (the free list of malloc, directory contents) are partial functions with value \<open>None\<close> when they do not
  return.  Array sizes are those of the code: NPROC 64, NBUF 30, NUM 8, MAXFILE 268, 1024 arrivals, 10000 packets.
  Machine integers are words of their width; C \<open>int\<close> quantities that stay small are \<open>int\<close>, and so are
  the FIFO sequence numbers of the pager and the times of the bakery, which the theories say.

  Not modelled: the assembly files, linker scripts and makefiles; the CSR accessors of riscv.h, whose
  values are arguments; the tests and stress programs of \<open>src/A/user\<close>, which hold no logic of the system;
  libpcap, the terminal and the network.  \<open>Demo\<close> holds the concrete states at which theorems are instantiated.
\<close>

end
